(* ===== verification/Prelude.thy ===== *)
theory Prelude
  imports Main "HOL-Library.Word"
begin

text \<open>
  Shared vocabulary of the development: the machine integer types of the runtime, its
  exceptions as values of a sum type, and the generic facts on words and lists that the
  component theories use.  \<open>digit_simps\<close> collects the equations that turn word-level
  carries into equations on natural numbers.
\<close>

unbundle bit_operations_syntax

named_theorems digit_simps "word-level steps as equations on natural numbers"
named_theorems runtime_defs "definitions that only compose others"

type_synonym u8 = "8 word"
type_synonym u16 = "16 word"
type_synonym u32 = "32 word"
type_synonym u64 = "64 word"

section \<open>Pending exceptions as values\<close>

text \<open>
  An operation that may leave a pending exception on the \<open>JSThread\<close> returns
  \<open>Inl\<close> of it; \<open>bind_result\<close> is the early return written in the source as
  \<open>RETURN_HANDLE_IF_ABRUPT_COMPLETION\<close>.
\<close>

datatype js_error =
  RangeError string | TypeError string | SyntaxError string | BusinessError int string

type_synonym 'a result = "js_error + 'a"

fun bind_result :: "'a result \<Rightarrow> ('a \<Rightarrow> 'b result) \<Rightarrow> 'b result" where
  "bind_result (Inl e) f = Inl e"
| "bind_result (Inr x) f = f x"

lemma bind_result_Inr_iff [simp]:
  "bind_result m f = Inr y \<longleftrightarrow> (\<exists>x. m = Inr x \<and> f x = Inr y)"
  by (cases m) auto

lemma bind_result_Inl_iff:
  "bind_result m f = Inl e \<longleftrightarrow> m = Inl e \<or> (\<exists>x. m = Inr x \<and> f x = Inl e)"
  by (cases m) auto

section \<open>Carries and borrows of 32-bit words\<close>

lemma word32_bound: "unat (x :: u32) < 4294967296"
  using unsigned_less [of x, where ?'a = nat] by simp

lemma word64_bound: "unat (x :: u64) < 18446744073709551616"
  using unsigned_less [of x, where ?'a = nat] by simp

lemma unat_add_carry [digit_simps]:
  "unat (x + y :: u32) + 4294967296 * of_bool (x + y < x) = unat x + unat y"
proof -
  have "unat (x + y) = (if unat x + unat y < 4294967296 then unat x + unat y
      else unat x + unat y - 4294967296)"
    by (simp add: unat_plus_if_size word_size)
  then show ?thesis
    using word32_bound [of x] word32_bound [of y]
    by (auto simp: word_less_nat_alt split: if_splits)
qed

lemma unat_sub_borrow [digit_simps]:
  "unat (x - y :: u32) + unat y = unat x + 4294967296 * of_bool (x < x - y)"
proof -
  have "unat (x - y) = (if unat y \<le> unat x then unat x - unat y
      else unat x + 4294967296 - unat y)"
    by (simp add: unat_sub_if_size word_size)
  then show ?thesis
    using word32_bound [of x] word32_bound [of y]
    by (auto simp: word_less_nat_alt split: if_splits)
qed

lemma and_one_nonzero: "(x AND 1 \<noteq> 0) = odd (unat x)" for x :: u32
proof -
  have "unat (x AND 1) = unat x mod 2" by (simp add: and_one_eq unat_mod_distrib)
  then show ?thesis by (metis mod_2_eq_odd of_bool_eq_0_iff unat_eq_zero)
qed

lemma unat_pow2: "n < 32 \<Longrightarrow> unat ((2 :: u32) ^ n) = 2 ^ n"
proof -
  assume "n < 32"
  then have "(2 :: nat) ^ n < 2 ^ 32" by (rule power_strict_increasing) simp
  then have "unat (word_of_nat (2 ^ n) :: u32) = 2 ^ n" by (simp only: unat_of_nat) simp
  then show ?thesis by simp
qed

lemma word32_max_iff: "unat x = 4294967295 \<longleftrightarrow> x = - 1" for x :: u32
proof -
  have "unat (- 1 :: u32) = 4294967295"
    by (simp add: unsigned_minus_1_eq_mask mask_eq_exp_minus_1)
  then show ?thesis by (metis word_unat_eq_iff)
qed

end
