(* ===== verification/BigInt_Digits.thy ===== *)
theory BigInt_Digits
  imports Prelude
begin

text \<open>
  The digit loops of \<open>ecmascript/js_bigint.cpp\<close>.  A BigInt stores its magnitude as an array of
  32-bit digits, least significant digit first; here the array is a list of \<open>u32\<close> and a loop that
  walks it upwards is a recursion on that list.  \<open>dval\<close> is the natural number such a list denotes,
  and each loop has one lemma that states it on \<open>dval\<close>.
\<close>

section \<open>Single digits\<close>

definition AddHelper :: "u32 \<Rightarrow> u32 \<Rightarrow> u32 \<Rightarrow> u32 \<times> u32" where
  "AddHelper x y bigintCarry =
     (let addPlus = x + y
      in (addPlus, if addPlus < x then bigintCarry + 1 else bigintCarry))"

definition SubHelper :: "u32 \<Rightarrow> u32 \<Rightarrow> u32 \<Rightarrow> u32 \<times> u32" where
  "SubHelper x y bigintCarry =
     (let minuSub = x - y
      in (minuSub, if minuSub > x then bigintCarry + 1 else bigintCarry))"

definition HALFDATEBITS :: nat where
  "HALFDATEBITS = 16"

definition HALFUINT32VALUE :: u32 where
  "HALFUINT32VALUE = push_bit HALFDATEBITS 1"

definition HALFDATEMASK :: u32 where
  "HALFDATEMASK = HALFUINT32VALUE - 1"

text \<open>The 64-bit product of two digits, as \<open>(high, low)\<close>.\<close>

definition Mul :: "u32 \<Rightarrow> u32 \<Rightarrow> u32 \<times> u32" where
  "Mul x y =
     (let lowBitX = x AND HALFDATEMASK;
          highBitX = drop_bit HALFDATEBITS x;
          lowBitY = y AND HALFDATEMASK;
          highBitY = drop_bit HALFDATEBITS y;
          lowRes = lowBitX * lowBitY;
          highRes = highBitX * highBitY;
          midRes1 = lowBitX * highBitY;
          midRes2 = highBitX * lowBitY;
          (low1, carry1) = AddHelper lowRes (push_bit HALFDATEBITS midRes1) 0;
          (low, carry) = AddHelper low1 (push_bit HALFDATEBITS midRes2) carry1;
          high = drop_bit HALFDATEBITS midRes1 + drop_bit HALFDATEBITS midRes2 + highRes + carry
      in (high, low))"

section \<open>Digit arrays\<close>

fun dval :: "u32 list \<Rightarrow> nat" where
  "dval [] = 0"
| "dval (d # ds) = unat d + 4294967296 * dval ds"

text \<open>
  The two loops of \<open>BigInt::BigintAdd\<close> (both operands, then the rest of the longer one) and the
  final carry digit.
\<close>

fun add_digits :: "u32 list \<Rightarrow> u32 list \<Rightarrow> u32 \<Rightarrow> u32 list" where
  "add_digits (x # xs) (y # ys) bigintCarry =
     (let (addPlus, newCarry) = AddHelper x y 0;
          (addPlus', newCarry') = AddHelper addPlus bigintCarry newCarry
      in addPlus' # add_digits xs ys newCarry')"
| "add_digits (x # xs) [] bigintCarry =
     (let (addPlus, newCarry) = AddHelper x bigintCarry 0
      in addPlus # add_digits xs [] newCarry)"
| "add_digits [] ys bigintCarry = [bigintCarry]"

text \<open>The two loops of \<open>BigInt::BigintSub\<close>; the borrow left at the end is not stored.\<close>

fun sub_digits :: "u32 list \<Rightarrow> u32 list \<Rightarrow> u32 \<Rightarrow> u32 list" where
  "sub_digits (x # xs) (y # ys) bigintCarry =
     (let (minuSub, newCarry) = SubHelper x y 0;
          (minuSub', newCarry') = SubHelper minuSub bigintCarry newCarry
      in minuSub' # sub_digits xs ys newCarry')"
| "sub_digits (x # xs) [] bigintCarry =
     (let (minuSub, newCarry) = SubHelper x bigintCarry 0
      in minuSub # sub_digits xs [] newCarry)"
| "sub_digits [] ys bigintCarry = []"

text \<open>
  \<open>BigInt::Multiply\<close> adds one row \<open>xVal * y\<close> into the result at position \<open>i\<close> for every digit of
  \<open>x\<close>.  The digits below \<open>i\<close> are final when row \<open>i\<close> starts, so a row works on the suffix of the
  result from \<open>i\<close> on: \<open>mul_row\<close> is the loop over the digits of \<open>y\<close>, \<open>mul_carry\<close> the loop that
  propagates what is left, \<open>mul_rows\<close> the outer loop.  Running off the suffix is where the source
  asserts \<open>index < bigint->GetLength()\<close>.
\<close>

fun mul_carry :: "u32 list \<Rightarrow> u32 \<Rightarrow> u32 \<Rightarrow> u32 list" where
  "mul_carry [] carry high = []"
| "mul_carry (v # acc) carry high =
     (if carry \<noteq> 0 \<or> high \<noteq> 0 then
        (let (v1, c1) = AddHelper v high 0;
             (v2, c2) = AddHelper v1 carry c1
         in v2 # mul_carry acc c2 0)
      else v # acc)"

fun mul_row :: "u32 \<Rightarrow> u32 list \<Rightarrow> u32 list \<Rightarrow> u32 \<Rightarrow> u32 \<Rightarrow> u32 list" where
  "mul_row xVal [] acc carry high = mul_carry acc carry high"
| "mul_row xVal (y # ys) [] carry high = []"
| "mul_row xVal (y # ys) (v # acc) carry high =
     (let (v1, c1) = AddHelper v high 0;
          (v2, c2) = AddHelper v1 carry c1;
          (high', low) = Mul xVal y;
          (v3, c3) = AddHelper v2 low c2
      in v3 # mul_row xVal ys acc c3 high')"

fun mul_rows :: "u32 list \<Rightarrow> u32 list \<Rightarrow> u32 list \<Rightarrow> u32 list" where
  "mul_rows [] ys acc = acc"
| "mul_rows (xVal # xs) ys acc =
     (case (if xVal = 0 then acc else mul_row xVal ys acc 0 0) of
        [] \<Rightarrow> []
      | d # ds \<Rightarrow> d # mul_rows xs ys ds)"

section \<open>Facts about single digits\<close>

lemma AddHelper_val:
  assumes "AddHelper x y c = (s, c')" and "unat c < 4294967295"
  shows "unat s + 4294967296 * unat c' = unat x + unat y + 4294967296 * unat c"
proof -
  have "unat (c + 1) = unat c + 1"
    using assms(2) by (simp add: unat_plus_if_size word_size)
  with assms(1) show ?thesis
    using unat_add_carry [of x y]
    by (auto simp: AddHelper_def Let_def split: if_splits)
qed

lemma SubHelper_val:
  assumes "SubHelper x y c = (s, c')" and "unat c < 4294967295"
  shows "unat s + unat y + 4294967296 * unat c = unat x + 4294967296 * unat c'"
proof -
  have "unat (c + 1) = unat c + 1"
    using assms(2) by (simp add: unat_plus_if_size word_size)
  with assms(1) show ?thesis
    using unat_sub_borrow [of x y]
    by (auto simp: SubHelper_def Let_def split: if_splits)
qed

lemma AddHelper_carry_le: "AddHelper x y c = (s, c') \<Longrightarrow> unat c' \<le> unat c + 1"
  by (auto simp: AddHelper_def Let_def unat_plus_if_size word_size split: if_splits)

lemma AddHelper_twice:
  assumes "AddHelper x y 0 = (s, c1)" and "AddHelper s z c1 = (s', c2)"
  shows "unat s' + 4294967296 * unat c2 = unat x + unat y + unat z" and "unat c2 \<le> 2"
  using AddHelper_val [OF assms(1)] AddHelper_val [OF assms(2)]
    AddHelper_carry_le [OF assms(1)] AddHelper_carry_le [OF assms(2)] by simp_all

lemma SubHelper_twice:
  assumes "SubHelper x y 0 = (s, c1)" and "SubHelper s z c1 = (s', c2)"
  shows "unat s' + unat y + unat z = unat x + 4294967296 * unat c2"
proof -
  have "unat c1 \<le> 1"
    using assms(1) by (auto simp: SubHelper_def Let_def split: if_splits)
  then show ?thesis using SubHelper_val [OF assms(1)] SubHelper_val [OF assms(2)] by simp
qed

lemma half_consts [simp]: "HALFDATEMASK = mask 16" "HALFDATEBITS = 16" "HALFUINT32VALUE = 65536"
  by (simp_all add: HALFDATEMASK_def HALFUINT32VALUE_def HALFDATEBITS_def mask_eq_exp_minus_1)

lemma unat_and_half: "unat (x AND mask 16 :: u32) = unat x mod 65536"
  by (simp add: take_bit_eq_mod unat_mod_distrib flip: take_bit_eq_mask)

lemma unat_drop_half: "unat (drop_bit 16 x :: u32) = unat x div 65536"
  by (simp add: drop_bit_eq_div unat_div_distrib)

lemma unat_push_half: "unat (push_bit 16 x :: u32) = (unat x mod 65536) * 65536"
  by (simp add: push_bit_eq_mult unat_word_ariths mult_mod_left)

lemmas unat_half = unat_and_half unat_drop_half unat_push_half

lemma half_mult_bound: "a < 65536 \<Longrightarrow> b < 65536 \<Longrightarrow> a * b < (4294967296 :: nat)"
  using mult_strict_mono [of a 65536 b 65536] by (cases "b = 0") simp_all

lemma unat_half_mult:
  "unat a < 65536 \<Longrightarrow> unat b < 65536 \<Longrightarrow> unat (a * b :: u32) = unat a * unat b"
  by (simp add: unat_word_ariths half_mult_bound)

lemma mult_halves:
  "(xl + 65536 * xh) * (yl + 65536 * yh) =
     xl * yl + ((xl * yh) mod 65536) * 65536 + ((xh * yl) mod 65536) * 65536
     + 4294967296 * ((xl * yh) div 65536 + (xh * yl) div 65536 + xh * yh)"
  for xl xh yl yh :: nat
proof -
  define p q where "p = xl * yh" and "q = xh * yl"
  define a b where "a = p div 65536" and "b = q div 65536"
  have p: "p = p mod 65536 + 65536 * a" and q: "q = q mod 65536 + 65536 * b"
    by (simp_all add: a_def b_def)
  have "(xl + 65536 * xh) * (yl + 65536 * yh) =
      xl * yl + 65536 * p + 65536 * q + 4294967296 * (xh * yh)"
    by (simp add: p_def q_def algebra_simps)
  also have "\<dots> = xl * yl + 65536 * (p mod 65536 + 65536 * a)
      + 65536 * (q mod 65536 + 65536 * b) + 4294967296 * (xh * yh)"
    using p q by simp
  finally have eq: "(xl + 65536 * xh) * (yl + 65536 * yh) = xl * yl
      + 65536 * (p mod 65536 + 65536 * a) + 65536 * (q mod 65536 + 65536 * b)
      + 4294967296 * (xh * yh)" .
  show ?thesis
    unfolding eq p_def [symmetric] q_def [symmetric] a_def [symmetric] b_def [symmetric]
    by (simp add: algebra_simps)
qed

lemma Mul_val: "Mul x y = (h, l) \<Longrightarrow> unat l + 4294967296 * unat h = unat x * unat y"
proof -
  assume M: "Mul x y = (h, l)"
  define xl xh yl yh where "xl = x AND mask 16" and "xh = drop_bit 16 x"
    and "yl = y AND mask 16" and "yh = drop_bit 16 y"
  have lt: "unat xl < 65536" "unat xh < 65536" "unat yl < 65536" "unat yh < 65536"
    using word32_bound [of x] word32_bound [of y]
    by (simp_all add: xl_def xh_def yl_def yh_def unat_half)
  obtain l1 c1 where A1: "AddHelper (xl * yl) (push_bit 16 (xl * yh)) 0 = (l1, c1)"
    by (meson surj_pair)
  obtain l2 c2 where A2: "AddHelper l1 (push_bit 16 (xh * yl)) c1 = (l2, c2)"
    by (meson surj_pair)
  from M A1 A2 have l: "l = l2"
    and h: "h = drop_bit 16 (xl * yh) + drop_bit 16 (xh * yl) + xh * yh + c2"
    by (simp_all add: Mul_def Let_def xl_def xh_def yl_def yh_def)
  have c1: "unat c1 \<le> 1" using AddHelper_carry_le [OF A1] by simp
  have sum: "unat l2 + 4294967296 * unat c2 = unat xl * unat yl
      + ((unat xl * unat yh) mod 65536) * 65536 + ((unat xh * unat yl) mod 65536) * 65536"
    using AddHelper_val [OF A1] AddHelper_val [OF A2] c1 lt
    by (simp add: unat_half unat_half_mult)
  define H where "H = (unat xl * unat yh) div 65536 + (unat xh * unat yl) div 65536
      + unat xh * unat yh + unat c2"
  have x: "unat x = unat xl + 65536 * unat xh" and y: "unat y = unat yl + 65536 * unat yh"
    by (simp_all add: xl_def xh_def yl_def yh_def unat_half)
  have tot: "unat x * unat y = unat l2 + 4294967296 * H"
    unfolding x y mult_halves H_def using sum by (simp add: algebra_simps)
  have "unat x * unat y < 4294967296 * 4294967296"
    using word32_bound by (intro mult_strict_mono) auto
  with tot have "H < 4294967296" by linarith
  then have "unat h = H"
    unfolding h H_def using lt
    by (simp add: unat_word_ariths unat_half unat_half_mult half_mult_bound mod_simps)
  with tot l show ?thesis by simp
qed

section \<open>Facts about digit arrays\<close>

lemma dval_bound: "dval ds < 4294967296 ^ length ds"
proof (induction ds)
  case (Cons d ds)
  then have "Suc (dval ds) \<le> 4294967296 ^ length ds" by simp
  then have "4294967296 * Suc (dval ds) \<le> 4294967296 * 4294967296 ^ length ds"
    by (rule mult_le_mono2)
  then show ?case using word32_bound [of d] by simp
qed simp

lemma dval_append: "dval (xs @ ys) = dval xs + 4294967296 ^ length xs * dval ys"
  by (induction xs) (simp_all add: algebra_simps)

lemma dval_replicate_0 [simp]: "dval (replicate n 0) = 0"
  by (induction n) simp_all

lemma length_add_digits [simp]: "length (add_digits xs ys c) = length xs + 1"
  by (induction xs ys c rule: add_digits.induct) (simp_all split: prod.splits)

lemma length_sub_digits [simp]: "length (sub_digits xs ys c) = length xs"
  by (induction xs ys c rule: sub_digits.induct) (simp_all split: prod.splits)

lemma add_digits_nonempty [simp]: "add_digits xs ys c \<noteq> []"
  using length_add_digits [of xs ys c] by fastforce

lemma sub_digits_empty_iff [simp]: "sub_digits xs ys c = [] \<longleftrightarrow> xs = []"
  using length_sub_digits [of xs ys c] by fastforce

lemma dval_add_digits:
  "unat c \<le> 1 \<Longrightarrow> length ys \<le> length xs \<Longrightarrow>
   dval (add_digits xs ys c) = dval xs + dval ys + unat c"
proof (induction xs ys c rule: add_digits.induct)
  case (1 x xs y ys c)
  obtain s c1 where A1: "AddHelper x y 0 = (s, c1)" by (meson surj_pair)
  obtain s' c2 where A2: "AddHelper s c c1 = (s', c2)" by (meson surj_pair)
  note sum = AddHelper_twice(1) [OF A1 A2]
  have "unat c2 \<le> 1"
    using sum "1.prems"(1) word32_bound [of x] word32_bound [of y] by linarith
  then have "dval (add_digits xs ys c2) = dval xs + dval ys + unat c2"
    using "1.IH" [OF A1 [symmetric] refl A2 [symmetric] refl] "1.prems" by simp
  with sum show ?case by (simp add: A1 A2)
next
  case (2 x xs c)
  obtain s c1 where A1: "AddHelper x c 0 = (s, c1)" by (meson surj_pair)
  have c1: "unat c1 \<le> 1" using AddHelper_carry_le [OF A1] by simp
  then have "dval (add_digits xs [] c1) = dval xs + unat c1"
    using "2.IH" [OF A1 [symmetric] refl] by simp
  with AddHelper_val [OF A1] show ?case by (simp add: A1)
qed simp

lemma dval_sub_digits:
  "unat c \<le> 1 \<Longrightarrow> length ys \<le> length xs \<Longrightarrow> dval ys + unat c \<le> dval xs \<Longrightarrow>
   dval (sub_digits xs ys c) + dval ys + unat c = dval xs"
proof (induction xs ys c rule: sub_digits.induct)
  case (1 x xs y ys c)
  obtain s c1 where A1: "SubHelper x y 0 = (s, c1)" by (meson surj_pair)
  obtain s' c2 where A2: "SubHelper s c c1 = (s', c2)" by (meson surj_pair)
  note sum = SubHelper_twice [OF A1 A2]
  have c2: "unat c2 \<le> 1"
    using sum "1.prems"(1) word32_bound [of s'] word32_bound [of y] by linarith
  have "dval ys + unat c2 \<le> dval xs"
    using sum "1.prems"(3) word32_bound [of s'] by simp
  then have "dval (sub_digits xs ys c2) + dval ys + unat c2 = dval xs"
    using "1.IH" [OF A1 [symmetric] refl A2 [symmetric] refl] c2 "1.prems" by simp
  with sum show ?case by (simp add: A1 A2)
next
  case (2 x xs c)
  obtain s c1 where A1: "SubHelper x c 0 = (s, c1)" by (meson surj_pair)
  have c1: "unat c1 \<le> 1" using A1 by (auto simp: SubHelper_def Let_def split: if_splits)
  have sum: "unat s + unat c = unat x + 4294967296 * unat c1"
    using SubHelper_val [OF A1] by simp
  have "unat c1 \<le> dval xs"
    using sum "2.prems"(3) word32_bound [of s] by simp
  then have "dval (sub_digits xs [] c1) + unat c1 = dval xs"
    using "2.IH" [OF A1 [symmetric] refl] c1 by simp
  with sum show ?case by (simp add: A1)
qed simp

lemma length_mul_carry [simp]: "length (mul_carry acc c h) = length acc"
  by (induction acc c h rule: mul_carry.induct) (simp_all split: prod.splits)

lemma length_mul_row [simp]: "length ys \<le> length acc \<Longrightarrow> length (mul_row x ys acc c h) = length acc"
  by (induction x ys acc c h rule: mul_row.induct) (simp_all split: prod.splits)

lemma length_mul_rows:
  "length acc = length xs + length ys \<Longrightarrow> length (mul_rows xs ys acc) = length acc"
proof (induction xs arbitrary: acc)
  case (Cons x xs)
  have "length (if x = 0 then acc else mul_row x ys acc 0 0) = Suc (length xs + length ys)"
    using Cons.prems by simp
  then obtain d ds where "(if x = 0 then acc else mul_row x ys acc 0 0) = d # ds"
    and "length ds = length xs + length ys"
    by (cases "if x = 0 then acc else mul_row x ys acc 0 0") auto
  with Cons show ?case by simp
qed simp

lemma dval_mul_carry:
  "dval acc + unat c + unat h < 4294967296 ^ length acc \<Longrightarrow>
   dval (mul_carry acc c h) = dval acc + unat c + unat h"
proof (induction acc c h rule: mul_carry.induct)
  case (2 v acc c h)
  obtain v1 c1 where A1: "AddHelper v h 0 = (v1, c1)" by (meson surj_pair)
  obtain v2 c2 where A2: "AddHelper v1 c c1 = (v2, c2)" by (meson surj_pair)
  note sum = AddHelper_twice(1) [OF A1 A2]
  have "4294967296 * (dval acc + unat c2) < 4294967296 * 4294967296 ^ length acc"
    using "2.prems" sum by simp
  then have "dval acc + unat c2 < 4294967296 ^ length acc" by simp
  then have "dval (mul_carry acc c2 0) = dval acc + unat c2"
    if "c \<noteq> 0 \<or> h \<noteq> 0"
    using "2.IH" [OF that A1 [symmetric] refl A2 [symmetric] refl] by simp
  with sum show ?case by (auto simp: A1 A2)
qed simp

lemma dval_mul_row:
  "length ys \<le> length acc \<Longrightarrow> unat c \<le> 3 \<Longrightarrow>
   dval acc + unat x * dval ys + unat c + unat h < 4294967296 ^ length acc \<Longrightarrow>
   dval (mul_row x ys acc c h) = dval acc + unat x * dval ys + unat c + unat h"
proof (induction x ys acc c h rule: mul_row.induct)
  case (1 x acc c h)
  then show ?case by (simp add: dval_mul_carry)
next
  case (3 x y ys v acc c h)
  obtain v1 c1 where A1: "AddHelper v h 0 = (v1, c1)" by (meson surj_pair)
  obtain v2 c2 where A2: "AddHelper v1 c c1 = (v2, c2)" by (meson surj_pair)
  obtain h' l where M: "Mul x y = (h', l)" by (meson surj_pair)
  obtain v3 c3 where A3: "AddHelper v2 l c2 = (v3, c3)" by (meson surj_pair)
  note c2 = AddHelper_twice(2) [OF A1 A2]
  have c3: "unat c3 \<le> 3" using AddHelper_carry_le [OF A3] c2 by simp
  have sum: "unat v3 + 4294967296 * unat c3 = unat v + unat h + unat c + unat l"
    using AddHelper_twice(1) [OF A1 A2] AddHelper_val [OF A3] c2 by simp
  have xy: "unat x * unat y = unat l + 4294967296 * unat h'" using Mul_val [OF M] by simp
  have tot: "dval (v # acc) + unat x * dval (y # ys) + unat c + unat h =
      unat v3 + 4294967296 * (dval acc + unat x * dval ys + unat c3 + unat h')"
    using sum xy by (simp add: algebra_simps)
  have "4294967296 * (dval acc + unat x * dval ys + unat c3 + unat h')
      < 4294967296 * 4294967296 ^ length acc"
    using "3.prems"(3) tot by simp
  then have "dval acc + unat x * dval ys + unat c3 + unat h' < 4294967296 ^ length acc"
    by simp
  then have "dval (mul_row x ys acc c3 h') = dval acc + unat x * dval ys + unat c3 + unat h'"
    using "3.IH" [OF A1 [symmetric] refl A2 [symmetric] refl M [symmetric] refl A3 [symmetric] refl]
      "3.prems"(1) c3 by simp
  with tot show ?case by (simp add: A1 A2 A3 M)
qed simp

lemma dval_mul_rows:
  "length acc = length xs + length ys \<Longrightarrow> dval acc \<le> dval ys \<Longrightarrow>
   dval (mul_rows xs ys acc) = dval acc + dval xs * dval ys"
proof (induction xs arbitrary: acc)
  case (Cons x xs)
  define acc' where "acc' = (if x = 0 then acc else mul_row x ys acc 0 0)"
  have "(unat x + 1) * dval ys < 4294967296 * 4294967296 ^ length ys"
    using word32_bound [of x] dval_bound [of ys] by (intro mult_le_less_imp_less) auto
  also have "\<dots> \<le> 4294967296 ^ length acc"
    using Cons.prems(1) power_increasing [of "length ys + 1" "length acc" "4294967296::nat"]
    by simp
  finally have "dval acc + unat x * dval ys < 4294967296 ^ length acc"
    using Cons.prems(2) by simp
  then have val: "dval acc' = dval acc + unat x * dval ys"
    using Cons.prems(1) by (simp add: acc'_def dval_mul_row)
  have len: "length acc' = length acc" using Cons.prems(1) by (simp add: acc'_def)
  then obtain d ds where acc': "acc' = d # ds" using Cons.prems(1) by (cases acc') auto
  have "4294967296 * dval ds \<le> (unat x + 1) * dval ys"
    using val acc' Cons.prems(2) by simp
  also have "\<dots> \<le> 4294967296 * dval ys"
    using word32_bound [of x] by (intro mult_le_mono1) simp
  finally have "dval ds \<le> dval ys" by simp
  then have "dval (mul_rows xs ys ds) = dval ds + dval xs * dval ys"
    using Cons.IH [of ds] len acc' Cons.prems(1) by simp
  with val acc' show ?case by (simp add: acc'_def [symmetric] algebra_simps)
qed simp

end
