(* ===== verification/BigInt.thy ===== *)
theory BigInt
  imports BigInt_Digits
begin

text \<open>
  The BigInt object of \<open>ecmascript/js_bigint.h\<close> and the operations of
  \<open>ecmascript/js_bigint.cpp\<close> on it: allocation and truncation, comparison, addition,
  subtraction, multiplication, exponentiation, negation and the conversions from and to machine
  integers.  The invariant \<open>bigint_wf\<close> is the canonical form the runtime keeps (at least one digit,
  no leading zero digit, zero not negative, at most \<open>MAXSIZE\<close> digits) and \<open>bval\<close> is the
  integer an object denotes.
\<close>

section \<open>The object\<close>

definition DATEBITS :: nat where
  "DATEBITS = 32"

definition MAXBITS :: nat where
  "MAXBITS = 1024 * 1024"

definition kMaxLengthBits :: int where
  "kMaxLengthBits = 2 ^ 30"

definition MAXSIZE :: nat where
  "MAXSIZE = MAXBITS div DATEBITS"

record bigint =
  sign :: bool
  digits :: "u32 list"

datatype comparison_result = LESS | EQUAL | GREAT | UNDEFINED

text \<open>The pending exceptions the operations raise.\<close>

abbreviation size_exceeded :: js_error where
  "size_exceeded \<equiv> RangeError ''Maximum BigInt size exceeded''"

abbreviation division_by_zero :: js_error where
  "division_by_zero \<equiv> RangeError ''Division by zero''"

abbreviation exponent_negative :: js_error where
  "exponent_negative \<equiv> RangeError ''Exponent must be positive''"

text \<open>\<open>ObjectFactory::NewBigInt\<close> stores the length, clears the sign and zeroes the digits.\<close>

definition NewBigInt :: "nat \<Rightarrow> bigint" where
  "NewBigInt len = \<lparr>sign = False, digits = replicate len 0\<rparr>"

definition CreateBigint :: "nat \<Rightarrow> bigint result" where
  "CreateBigint len = (if MAXSIZE < len then Inl size_exceeded else Inr (NewBigInt len))"

definition GetDigit :: "bigint \<Rightarrow> nat \<Rightarrow> u32" where
  "GetDigit b i = digits b ! i"

definition GetLength :: "bigint \<Rightarrow> nat" where
  "GetLength b = length (digits b)"

definition IsZero :: "bigint \<Rightarrow> bool" where
  "IsZero b \<longleftrightarrow> GetLength b = 1 \<and> GetDigit b 0 = 0"

definition IsUint32 :: "bigint \<Rightarrow> bool" where
  "IsUint32 b \<longleftrightarrow> GetLength b = 1"

text \<open>\<open>number\<close> is an \<open>int\<close>, so \<open>-(number + 1)\<close> does not overflow for \<open>INT_MIN\<close>.\<close>

definition Int32ToBigInt :: "32 word \<Rightarrow> bigint result" where
  "Int32ToBigInt number =
     bind_result (CreateBigint 1) (\<lambda>b.
       let neg = number <s 0;
           value = (if neg then - (number + 1) + 1 else number)
       in Inr (b\<lparr>digits := (digits b)[0 := value], sign := neg\<rparr>))"

definition Uint32ToBigInt :: "u32 \<Rightarrow> bigint result" where
  "Uint32ToBigInt number =
     bind_result (CreateBigint 1) (\<lambda>b. Inr (b\<lparr>digits := (digits b)[0 := number]\<rparr>))"

definition Copy :: "bigint \<Rightarrow> nat \<Rightarrow> bigint result" where
  "Copy x len =
     bind_result (CreateBigint len) (\<lambda>newBig.
       Inr (newBig\<lparr>digits := take len (digits x), sign := sign x\<rparr>))"

text \<open>The scan of \<open>RightTruncate\<close> for the highest non-zero digit below \<open>n\<close>.\<close>

fun top_nonzero :: "u32 list \<Rightarrow> nat \<Rightarrow> nat option" where
  "top_nonzero ds 0 = None"
| "top_nonzero ds (Suc index) = (if ds ! index \<noteq> 0 then Some index else top_nonzero ds index)"

definition RightTruncate :: "bigint \<Rightarrow> bigint result" where
  "RightTruncate x =
     (let len = GetLength x in
      if len = 1 \<and> GetDigit x 0 = 0 then Inr (x\<lparr>sign := False\<rparr>)
      else if GetDigit x (len - 1) \<noteq> 0 then Inr x
      else case top_nonzero (digits x) len of
             None \<Rightarrow> Int32ToBigInt 0
           | Some index \<Rightarrow> Copy x (index + 1))"

section \<open>Comparison\<close>

definition Equal :: "bigint \<Rightarrow> bigint \<Rightarrow> bool" where
  "Equal x y \<longleftrightarrow>
     \<not> (sign x \<noteq> sign y \<or> GetLength x \<noteq> GetLength y) \<and>
     (\<forall>i \<in> {0..<GetLength x}. GetDigit x i = GetDigit y i)"

definition SameValue :: "bigint \<Rightarrow> bigint \<Rightarrow> bool" where
  "SameValue x y = Equal x y"

definition SameValueZero :: "bigint \<Rightarrow> bigint \<Rightarrow> bool" where
  "SameValueZero x y = Equal x y"

text \<open>The loop of \<open>AbsolutelyCompare\<close> from the most significant digit down.\<close>

fun compare_down :: "u32 list \<Rightarrow> u32 list \<Rightarrow> nat \<Rightarrow> comparison_result" where
  "compare_down xs ys 0 = EQUAL"
| "compare_down xs ys (Suc index) =
     (if xs ! index \<noteq> ys ! index then (if xs ! index > ys ! index then GREAT else LESS)
      else compare_down xs ys index)"

definition AbsolutelyCompare :: "bigint \<Rightarrow> bigint \<Rightarrow> comparison_result" where
  "AbsolutelyCompare x y =
     (let xLen = GetLength x; yLen = GetLength y in
      if xLen > yLen then GREAT
      else if xLen < yLen then LESS
      else compare_down (digits x) (digits y) xLen)"

definition Compare :: "bigint \<Rightarrow> bigint \<Rightarrow> comparison_result" where
  "Compare x y =
     (if sign x \<noteq> sign y then (if sign x then LESS else GREAT)
      else let compar = AbsolutelyCompare x y in
           if sign x \<and> compar \<noteq> EQUAL then (if compar = LESS then GREAT else LESS)
           else compar)"

definition LessThan :: "bigint \<Rightarrow> bigint \<Rightarrow> bool" where
  "LessThan x y \<longleftrightarrow> Compare x y = LESS"

section \<open>Addition, subtraction, multiplication\<close>

definition BigintAdd :: "bigint \<Rightarrow> bigint \<Rightarrow> bool \<Rightarrow> bigint result" where
  "BigintAdd x0 y0 resultSign =
     (let (x, y) = (if GetLength x0 < GetLength y0 then (y0, x0) else (x0, y0)) in
      bind_result (CreateBigint (GetLength x + 1)) (\<lambda>b.
        RightTruncate (b\<lparr>digits := add_digits (digits x) (digits y) 0, sign := resultSign\<rparr>)))"

definition BigintSub :: "bigint \<Rightarrow> bigint \<Rightarrow> bool \<Rightarrow> bigint result" where
  "BigintSub x y resultSign =
     bind_result (CreateBigint (GetLength x)) (\<lambda>b.
       RightTruncate (b\<lparr>digits := sub_digits (digits x) (digits y) 0, sign := resultSign\<rparr>))"

text \<open>
  The loop of \<open>Add\<close> and \<open>Subtract\<close> on operands of equal length: the highest index where they
  differ, or 0.
\<close>

fun skip_equal :: "u32 list \<Rightarrow> u32 list \<Rightarrow> nat \<Rightarrow> nat" where
  "skip_equal xs ys 0 = 0"
| "skip_equal xs ys (Suc i) =
     (if xs ! Suc i = ys ! Suc i then skip_equal xs ys i else Suc i)"

definition Add :: "bigint \<Rightarrow> bigint \<Rightarrow> bigint result" where
  "Add x y =
     (let xSignFlag = sign x; ySignFlag = sign y in
      if xSignFlag = ySignFlag then BigintAdd x y xSignFlag
      else
        let xLength = GetLength x; yLength = GetLength y;
            subSize = int xLength - int yLength in
        if subSize > 0 then BigintSub x y xSignFlag
        else if subSize = 0 then
          (let i = skip_equal (digits x) (digits y) (xLength - 1) in
           if GetDigit x i > GetDigit y i then BigintSub x y xSignFlag
           else BigintSub y x ySignFlag)
        else BigintSub y x ySignFlag)"

definition Subtract :: "bigint \<Rightarrow> bigint \<Rightarrow> bigint result" where
  "Subtract x y =
     (let xSignFlag = sign x; ySignFlag = sign y in
      if xSignFlag \<noteq> ySignFlag then BigintAdd x y xSignFlag
      else
        let xLength = GetLength x; yLength = GetLength y;
            subSize = int xLength - int yLength in
        if subSize > 0 then BigintSub x y xSignFlag
        else if subSize = 0 then
          (let i = skip_equal (digits x) (digits y) (xLength - 1) in
           if GetDigit x i > GetDigit y i then BigintSub x y xSignFlag
           else BigintSub y x (\<not> ySignFlag))
        else BigintSub y x (\<not> ySignFlag))"

definition BigintAddOne :: "bigint \<Rightarrow> bigint result" where
  "BigintAddOne x = bind_result (Int32ToBigInt 1) (\<lambda>temp. Add x temp)"

definition BigintSubOne :: "bigint \<Rightarrow> bigint result" where
  "BigintSubOne x = bind_result (Int32ToBigInt 1) (\<lambda>temp. Subtract x temp)"

definition Multiply :: "bigint \<Rightarrow> bigint \<Rightarrow> bigint result" where
  "Multiply x y =
     (if IsZero x then Inr x
      else if IsZero y then Inr y
      else
        let needLength = GetLength x + GetLength y in
        bind_result (CreateBigint needLength) (\<lambda>b.
          RightTruncate (b\<lparr>digits := mul_rows (digits x) (digits y) (digits b),
                          sign := (sign x \<noteq> sign y)\<rparr>)))"

definition UnaryMinus :: "bigint \<Rightarrow> bigint result" where
  "UnaryMinus x =
     (if IsZero x then Inr x
      else bind_result (Copy x (GetLength x)) (\<lambda>y. Inr (y\<lparr>sign := \<not> sign y\<rparr>)))"

definition BitwiseNOT :: "bigint \<Rightarrow> bigint result" where
  "BitwiseNOT x =
     bind_result (BigintAddOne x) (\<lambda>result.
       Inr (if sign x then result\<lparr>sign := False\<rparr> else result\<lparr>sign := True\<rparr>))"

section \<open>Exponentiation\<close>

text \<open>
  The square-and-multiply loop over the multiplication \<open>mul\<close> it calls; \<open>result\<close> is the mutable
  handle that starts out as null, so it is an option here.
\<close>

lemma unat_drop_bit_1_less: "e \<noteq> 0 \<Longrightarrow> unat (drop_bit 1 e) < unat e" for e :: u32
  by (simp add: drop_bit_Suc unat_div_distrib unat_gt_0)

function exp_loop ::
  "('b \<Rightarrow> 'b \<Rightarrow> 'b result) \<Rightarrow> u32 \<Rightarrow> 'b \<Rightarrow> 'b option \<Rightarrow> 'b option result" where
  "exp_loop mul expValue temp result =
     (if expValue = 0 then Inr result
      else bind_result (mul temp temp) (\<lambda>temp'.
        if expValue AND 1 \<noteq> 0 then
          (case result of
             None \<Rightarrow> exp_loop mul (drop_bit 1 expValue) temp' (Some temp')
           | Some r \<Rightarrow> bind_result (mul r temp') (\<lambda>r'.
                exp_loop mul (drop_bit 1 expValue) temp' (Some r')))
        else exp_loop mul (drop_bit 1 expValue) temp' result))"
  by pat_completeness auto
termination
  by (relation "measure (\<lambda>(m, e, t, r). unat e)")
     (use unat_drop_bit_1_less in simp_all)

declare exp_loop.simps [simp del]

text \<open>The fast path for a base of magnitude 2.\<close>

definition exp_power_of_two :: "bigint \<Rightarrow> u32 \<Rightarrow> bigint result" where
  "exp_power_of_two bas expValue =
     (let needLength = unat expValue div DATEBITS + 1 in
      bind_result (CreateBigint needLength) (\<lambda>b.
        let value = push_bit (unat expValue mod DATEBITS) (1 :: u32);
            b' = b\<lparr>digits := (digits b)[needLength - 1 := value]\<rparr>
        in Inr (if sign bas then b'\<lparr>sign := (expValue AND 1 \<noteq> 0)\<rparr> else b')))"

definition Exponentiate :: "bigint \<Rightarrow> bigint \<Rightarrow> bigint result" where
  "Exponentiate bas exponent =
     (if sign exponent then Inl exponent_negative
      else if IsZero exponent then Int32ToBigInt 1
      else if IsZero bas then Inr bas
      else
        let expValue = GetDigit exponent 0 in
        if GetLength bas = 1 \<and> GetDigit bas 0 = 1 then
          (if sign bas \<and> \<not> (expValue AND 1 \<noteq> 0) then UnaryMinus bas else Inr bas)
        else if GetLength exponent > 1 then Inl size_exceeded
        else if GetLength bas = 1 \<and> GetDigit bas 0 = 2 then exp_power_of_two bas expValue
        else
          let result = (if expValue AND 1 \<noteq> 0 then Some bas else None) in
          bind_result (exp_loop Multiply (drop_bit 1 expValue) bas result) (\<lambda>r.
            Inr (the r)))"

section \<open>Canonical form and value\<close>

definition bigint_wf :: "bigint \<Rightarrow> bool" where
  "bigint_wf b \<longleftrightarrow> digits b \<noteq> [] \<and> length (digits b) \<le> MAXSIZE \<and>
     (last (digits b) = 0 \<longrightarrow> length (digits b) = 1 \<and> \<not> sign b)"

definition bmag :: "bigint \<Rightarrow> nat" where
  "bmag b = dval (digits b)"

definition bval :: "bigint \<Rightarrow> int" where
  "bval b = (if sign b then - int (bmag b) else int (bmag b))"

lemmas getters [simp] = GetDigit_def GetLength_def

lemma MAXSIZE_eq [simp]: "MAXSIZE = 32768"
  by (simp add: MAXSIZE_def MAXBITS_def DATEBITS_def)

lemma DATEBITS_eq [simp]: "DATEBITS = 32"
  by (simp add: DATEBITS_def)

lemma CreateBigint_cases:
  "CreateBigint n = (if n \<le> MAXSIZE then Inr \<lparr>sign = False, digits = replicate n 0\<rparr>
                     else Inl size_exceeded)"
  by (simp add: CreateBigint_def NewBigInt_def)

lemma zero_bigint [simp]: "Int32ToBigInt 0 = Inr \<lparr>sign = False, digits = [0]\<rparr>"
  by (simp add: Int32ToBigInt_def CreateBigint_cases Let_def)

lemma one_bigint [simp]: "Int32ToBigInt 1 = Inr \<lparr>sign = False, digits = [1]\<rparr>"
  by (simp add: Int32ToBigInt_def CreateBigint_cases Let_def word_sless_alt)

lemma top_nonzero_None: "top_nonzero ds n = None \<longleftrightarrow> (\<forall>i<n. ds ! i = 0)"
  by (induction n) (auto simp: less_Suc_eq)

lemma top_nonzero_Some:
  "top_nonzero ds n = Some i \<Longrightarrow> i < n \<and> ds ! i \<noteq> 0 \<and> (\<forall>j<n. i < j \<longrightarrow> ds ! j = 0)"
  by (induction n) (auto simp: less_Suc_eq split: if_splits)

lemma dval_eq_0_iff: "dval ds = 0 \<longleftrightarrow> (\<forall>i < length ds. ds ! i = 0)"
  by (induction ds) (auto simp: nth_Cons less_Suc_eq_0_disj unat_eq_zero split: nat.splits)

lemma dval_take_top:
  assumes "\<forall>j < length ds. i < j \<longrightarrow> ds ! j = 0"
  shows "dval (take (Suc i) ds) = dval ds"
proof -
  have "dval (drop (Suc i) ds) = 0" using assms by (simp add: dval_eq_0_iff)
  then show ?thesis using dval_append [of "take (Suc i) ds" "drop (Suc i) ds"] by simp
qed

text \<open>
  \<open>RightTruncate\<close> puts any non-empty digit array into canonical form and keeps its magnitude;
  it keeps the sign of every non-zero value.
\<close>

lemma RightTruncate_ok:
  assumes "digits x \<noteq> []" and "length (digits x) \<le> MAXSIZE"
  shows "\<exists>z. RightTruncate x = Inr z \<and> bigint_wf z \<and> bval z = bval x \<and> bmag z = bmag x
           \<and> length (digits z) \<le> length (digits x)"
proof (cases "last (digits x) = 0")
  case False
  with assms show ?thesis
    by (auto simp: RightTruncate_def Let_def last_conv_nth bigint_wf_def)
next
  case True
  show ?thesis
  proof (cases "length (digits x) = 1")
    case True
    with \<open>last (digits x) = 0\<close> have "digits x = [0]"
      by (cases "digits x") auto
    then show ?thesis
      by (auto simp: RightTruncate_def Let_def bigint_wf_def bval_def bmag_def)
  next
    case len: False
    show ?thesis
    proof (cases "top_nonzero (digits x) (length (digits x))")
      case None
      then have "bmag x = 0" by (simp add: bmag_def dval_eq_0_iff top_nonzero_None)
      with None True len assms show ?thesis
        by (auto simp: RightTruncate_def Let_def last_conv_nth bigint_wf_def bval_def)
           (simp_all add: bmag_def Suc_le_eq)
    next
      case (Some i)
      note top = top_nonzero_Some [OF Some]
      have "dval (take (Suc i) (digits x)) = dval (digits x)"
        using top by (intro dval_take_top) auto
      moreover have "last (take (Suc i) (digits x)) = digits x ! i"
        using top by (simp add: take_Suc_conv_app_nth)
      moreover have "RightTruncate x = Inr \<lparr>sign = sign x, digits = take (Suc i) (digits x)\<rparr>"
        using Some True len assms top
        by (simp add: RightTruncate_def Let_def last_conv_nth Copy_def CreateBigint_cases)
      ultimately show ?thesis
        using top assms by (auto simp: bigint_wf_def bval_def bmag_def)
    qed
  qed
qed

lemma RightTruncate_okE:
  assumes "digits x \<noteq> []" and "length (digits x) \<le> MAXSIZE"
  obtains z where "RightTruncate x = Inr z" and "bigint_wf z" and "bval z = bval x"
    and "bmag z = bmag x" and "length (digits z) \<le> length (digits x)"
  using RightTruncate_ok [OF assms] that by blast

section \<open>Order of digit arrays\<close>

lemma digit_lex_less:
  fixes a b p q B :: nat
  assumes "a < B" and "b < B"
  shows "a + B * p < b + B * q \<longleftrightarrow> p < q \<or> p = q \<and> a < b"
proof (cases p q rule: linorder_cases)
  case less
  then have "B * (p + 1) \<le> B * q" by (intro mult_le_mono2) simp
  with less assms show ?thesis by simp
next
  case equal
  then show ?thesis by simp
next
  case greater
  then have "B * (q + 1) \<le> B * p" by (intro mult_le_mono2) simp
  with greater assms show ?thesis by simp
qed

lemma dval_take_Suc:
  "n < length ds \<Longrightarrow> dval (take (Suc n) ds) = dval (take n ds) + 4294967296 ^ n * unat (ds ! n)"
  by (simp add: take_Suc_conv_app_nth dval_append)

lemma dval_take_bound: "dval (take n ds) < 4294967296 ^ n"
proof -
  have "dval (take n ds) < 4294967296 ^ min n (length ds)"
    using dval_bound [of "take n ds"] by (simp add: min.commute)
  also have "\<dots> \<le> 4294967296 ^ n" by (rule power_increasing) simp_all
  finally show ?thesis .
qed

lemma dval_take_less_iff:
  assumes "n < length xs" and "n < length ys"
  shows "dval (take (Suc n) xs) < dval (take (Suc n) ys) \<longleftrightarrow>
    xs ! n < ys ! n \<or> xs ! n = ys ! n \<and> dval (take n xs) < dval (take n ys)"
  using assms digit_lex_less [OF dval_take_bound dval_take_bound]
  by (simp add: dval_take_Suc word_less_nat_alt word_unat_eq_iff)

lemma compare_down_dval:
  "n \<le> length xs \<Longrightarrow> n \<le> length ys \<Longrightarrow>
   compare_down xs ys n = (if dval (take n xs) < dval (take n ys) then LESS
     else if dval (take n ys) < dval (take n xs) then GREAT else EQUAL)"
proof (induction n)
  case (Suc n)
  then show ?case
    by (cases "xs ! n" "ys ! n" rule: linorder_cases) (auto simp: dval_take_less_iff)
qed simp

lemma skip_equal_dval:
  "n < length xs \<Longrightarrow> n < length ys \<Longrightarrow>
   xs ! skip_equal xs ys n > ys ! skip_equal xs ys n \<longleftrightarrow>
   dval (take (Suc n) ys) < dval (take (Suc n) xs)"
proof (induction n)
  case 0
  then show ?case using dval_take_less_iff [of 0 ys xs] by simp
next
  case (Suc n)
  then show ?case using dval_take_less_iff [of "Suc n" ys xs] by auto
qed

lemma dval_lower_bound: "ds \<noteq> [] \<Longrightarrow> last ds \<noteq> 0 \<Longrightarrow> 4294967296 ^ (length ds - 1) \<le> dval ds"
proof -
  assume ds: "ds \<noteq> []" "last ds \<noteq> 0"
  then have "dval ds = dval (butlast ds) + 4294967296 ^ (length ds - 1) * unat (last ds)"
    using dval_append [of "butlast ds" "[last ds]"] by simp
  moreover have "1 \<le> unat (last ds)" using ds by (simp add: unat_gt_0 Suc_le_eq)
  ultimately show ?thesis by (simp add: trans_le_add2)
qed

lemma bmag_less_of_length:
  assumes "bigint_wf x" and "bigint_wf y" and "length (digits y) < length (digits x)"
  shows "bmag y < bmag x"
proof -
  have "last (digits x) \<noteq> 0" and "digits x \<noteq> []" and "digits y \<noteq> []"
    using assms by (auto simp: bigint_wf_def)
  have "bmag y < 4294967296 ^ length (digits y)" by (simp add: bmag_def dval_bound)
  also have "\<dots> \<le> 4294967296 ^ (length (digits x) - 1)"
    using assms(3) by (intro power_increasing) simp_all
  also have "\<dots> \<le> bmag x"
    using dval_lower_bound [OF \<open>digits x \<noteq> []\<close> \<open>last (digits x) \<noteq> 0\<close>] by (simp add: bmag_def)
  finally show ?thesis .
qed

lemma wf_last_zero:
  assumes "bigint_wf x" and "last (digits x) = 0"
  shows "digits x = [0]" and "\<not> sign x"
proof -
  have "length (digits x) = Suc 0" and neg: "\<not> sign x" using assms by (simp_all add: bigint_wf_def)
  then obtain d where "digits x = [d]" by (metis length_0_conv length_Suc_conv)
  with assms(2) show "digits x = [0]" by simp
  from neg show "\<not> sign x" .
qed

lemma bmag_zero_iff: "bigint_wf x \<Longrightarrow> bmag x = 0 \<longleftrightarrow> IsZero x"
proof -
  assume wf: "bigint_wf x"
  show ?thesis
  proof (cases "last (digits x) = 0")
    case True
    with wf have "digits x = [0]" by (rule wf_last_zero)
    then show ?thesis by (simp add: bmag_def IsZero_def)
  next
    case False
    with wf have "4294967296 ^ (length (digits x) - 1) \<le> bmag x"
      using dval_lower_bound [of "digits x"] by (simp add: bmag_def bigint_wf_def)
    then have "0 < bmag x" by (rule less_le_trans [rotated]) simp
    moreover have "\<not> IsZero x"
      using False wf by (auto simp: IsZero_def bigint_wf_def last_conv_nth)
    ultimately show ?thesis by simp
  qed
qed

lemma sign_bval: "bigint_wf x \<Longrightarrow> sign x \<longleftrightarrow> bval x < 0"
proof -
  assume wf: "bigint_wf x"
  have "bmag x \<noteq> 0" if "sign x"
  proof
    assume "bmag x = 0"
    then have "IsZero x" using wf by (simp add: bmag_zero_iff)
    then have "last (digits x) = 0" using wf by (simp add: IsZero_def bigint_wf_def last_conv_nth)
    with wf that show False using wf_last_zero(2) by blast
  qed
  then show ?thesis by (auto simp: bval_def)
qed

lemma AbsolutelyCompare_bmag:
  assumes "bigint_wf x" and "bigint_wf y"
  shows "AbsolutelyCompare x y = (if bmag x < bmag y then LESS
    else if bmag y < bmag x then GREAT else EQUAL)"
  using bmag_less_of_length [OF assms(1,2)] bmag_less_of_length [OF assms(2,1)]
  by (auto simp: AbsolutelyCompare_def Let_def compare_down_dval bmag_def)

lemma Compare_bval:
  assumes "bigint_wf x" and "bigint_wf y"
  shows "Compare x y = (if bval x < bval y then LESS
    else if bval y < bval x then GREAT else EQUAL)"
proof (cases "sign x = sign y")
  case True
  then show ?thesis
    by (cases "sign y") (simp_all add: Compare_def Let_def AbsolutelyCompare_bmag [OF assms] bval_def)
next
  case False
  then show ?thesis
    using sign_bval [OF assms(1)] sign_bval [OF assms(2)] by (auto simp: Compare_def)
qed

section \<open>Results of arithmetic\<close>

definition signed_mag :: "bool \<Rightarrow> nat \<Rightarrow> int" where
  "signed_mag s n = (if s then - int n else int n)"

text \<open>The operation returns, in canonical form, an object that denotes \<open>v\<close>.\<close>

definition returns :: "bigint result \<Rightarrow> int \<Rightarrow> bool" where
  "returns m v \<longleftrightarrow> (\<exists>z. m = Inr z \<and> bigint_wf z \<and> bval z = v)"

lemma bval_signed: "bval b = signed_mag (sign b) (bmag b)"
  by (simp add: bval_def signed_mag_def)

lemma returnsI: "bigint_wf z \<Longrightarrow> bval z = v \<Longrightarrow> returns (Inr z) v"
  by (simp add: returns_def)

lemma returns_bind: "returns m v \<Longrightarrow> (\<And>z. bigint_wf z \<Longrightarrow> bval z = v \<Longrightarrow> returns (f z) w) \<Longrightarrow>
  returns (bind_result m f) w"
  by (auto simp: returns_def)

lemma returns_RightTruncate:
  "digits x \<noteq> [] \<Longrightarrow> length (digits x) \<le> MAXSIZE \<Longrightarrow> bval x = v \<Longrightarrow> returns (RightTruncate x) v"
  using RightTruncate_ok [of x] by (auto simp: returns_def)

lemma wf_nonempty: "bigint_wf x \<Longrightarrow> digits x \<noteq> []"
  and wf_length: "bigint_wf x \<Longrightarrow> length (digits x) \<le> 32768"
  by (simp_all add: bigint_wf_def)

lemma BigintAdd_ok:
  assumes "bigint_wf x" and "bigint_wf y"
  shows "if max (GetLength x) (GetLength y) < MAXSIZE
    then returns (BigintAdd x y s) (signed_mag s (bmag x + bmag y))
    else BigintAdd x y s = Inl size_exceeded"
  using assms
  by (auto simp: BigintAdd_def Let_def CreateBigint_cases bval_signed bmag_def dval_add_digits
      max_def add.commute wf_nonempty intro!: returns_RightTruncate)

lemma BigintSub_ok:
  assumes "bigint_wf x" and "bigint_wf y" and "bmag y \<le> bmag x"
  shows "returns (BigintSub x y s) (signed_mag s (bmag x - bmag y))"
proof -
  have len: "length (digits y) \<le> length (digits x)"
    using assms bmag_less_of_length [of y x] by (metis leD leI)
  have "dval (sub_digits (digits x) (digits y) 0) = bmag x - bmag y"
    using dval_sub_digits [of 0 "digits y" "digits x"] len assms(3) by (simp add: bmag_def)
  then show ?thesis
    using assms wf_length [of x]
    by (auto simp: BigintSub_def CreateBigint_cases bval_signed bmag_def wf_nonempty
        intro!: returns_RightTruncate)
qed

text \<open>The choice \<open>Add\<close> and \<open>Subtract\<close> make between the two differences.\<close>

lemma skip_equal_bmag:
  assumes "bigint_wf y" and "length (digits x) = length (digits y)"
  shows "digits y ! skip_equal (digits x) (digits y) (length (digits y) - Suc 0)
      < digits x ! skip_equal (digits x) (digits y) (length (digits y) - Suc 0) \<longleftrightarrow> bmag y < bmag x"
proof -
  have "0 < length (digits y)" using assms wf_nonempty by simp
  then show ?thesis
    using assms(2) skip_equal_dval [of "length (digits y) - 1" "digits x" "digits y"]
    by (simp add: bmag_def)
qed

lemma subtract_larger:
  assumes "bigint_wf x" and "bigint_wf y"
  shows "sign x \<noteq> sign y \<Longrightarrow>
      Add x y = (if bmag y < bmag x then BigintSub x y (sign x) else BigintSub y x (sign y))"
    and "sign x = sign y \<Longrightarrow>
      Subtract x y = (if bmag y < bmag x then BigintSub x y (sign x) else BigintSub y x (\<not> sign y))"
  using bmag_less_of_length [OF assms] bmag_less_of_length [OF assms(2,1)]
    skip_equal_bmag [OF assms(2), of x]
  by (cases "length (digits x)" "length (digits y)" rule: linorder_cases;
      simp add: Add_def Subtract_def Let_def)+

lemma Add_ok:
  assumes "bigint_wf x" and "bigint_wf y"
  shows "if sign x = sign y \<and> MAXSIZE \<le> max (GetLength x) (GetLength y)
    then Add x y = Inl size_exceeded else returns (Add x y) (bval x + bval y)"
proof (cases "sign x = sign y")
  case True
  then show ?thesis
    using BigintAdd_ok [OF assms, of "sign y"]
    by (auto simp: Add_def Let_def bval_signed signed_mag_def split: if_splits)
next
  case False
  then show ?thesis
    using subtract_larger(1) [OF assms] BigintSub_ok [OF assms, of "sign x"] BigintSub_ok [OF assms(2,1), of "sign y"]
    by (auto simp: bval_signed signed_mag_def of_nat_diff)
qed

lemma Subtract_ok:
  assumes "bigint_wf x" and "bigint_wf y"
  shows "if sign x \<noteq> sign y \<and> MAXSIZE \<le> max (GetLength x) (GetLength y)
    then Subtract x y = Inl size_exceeded else returns (Subtract x y) (bval x - bval y)"
proof (cases "sign x = sign y")
  case True
  then show ?thesis
    using subtract_larger(2) [OF assms] BigintSub_ok [OF assms, of "sign x"] BigintSub_ok [OF assms(2,1), of "\<not> sign y"]
    by (auto simp: bval_signed signed_mag_def of_nat_diff)
next
  case False
  then show ?thesis
    using BigintAdd_ok [OF assms, of "sign x"]
    by (auto simp: Subtract_def Let_def bval_signed signed_mag_def split: if_splits)
qed

lemma Multiply_ok:
  assumes "bigint_wf x" and "bigint_wf y"
  shows "if \<not> IsZero x \<and> \<not> IsZero y \<and> MAXSIZE < GetLength x + GetLength y
    then Multiply x y = Inl size_exceeded else returns (Multiply x y) (bval x * bval y)"
proof (cases "IsZero x \<or> IsZero y")
  case True
  then show ?thesis
    using assms bmag_zero_iff [OF assms(1)] bmag_zero_iff [OF assms(2)]
    by (auto simp: Multiply_def returns_def bval_signed signed_mag_def)
next
  case False
  have "dval (mul_rows (digits x) (digits y) (replicate (GetLength x + GetLength y) 0))
      = bmag x * bmag y"
    by (simp add: dval_mul_rows bmag_def)
  moreover have "length (mul_rows (digits x) (digits y) (replicate (GetLength x + GetLength y) 0))
      = GetLength x + GetLength y"
    by (simp add: length_mul_rows)
  ultimately show ?thesis
    using False assms
    by (auto simp: Multiply_def Let_def CreateBigint_cases bval_signed signed_mag_def bmag_def
        dest!: wf_nonempty simp flip: length_greater_0_conv intro!: returns_RightTruncate)
qed

lemma Multiply_length:
  assumes "bigint_wf x" and "bigint_wf y" and "Multiply x y = Inr z"
  shows "GetLength z \<le> GetLength x + GetLength y"
proof (cases "IsZero x \<or> IsZero y \<or> MAXSIZE < GetLength x + GetLength y")
  case True
  then show ?thesis
    using assms(3) by (auto simp: Multiply_def Let_def CreateBigint_cases split: if_splits)
next
  case False
  define b where "b = \<lparr>sign = (sign x \<noteq> sign y),
    digits = mul_rows (digits x) (digits y) (replicate (GetLength x + GetLength y) 0)\<rparr>"
  have len: "length (digits b) = GetLength x + GetLength y"
    by (simp add: b_def length_mul_rows)
  then have ne: "digits b \<noteq> []" using wf_nonempty [OF assms(1)] by auto
  have "Multiply x y = RightTruncate b"
    using False by (auto simp: Multiply_def Let_def CreateBigint_cases b_def)
  with assms(3) RightTruncate_okE [OF ne] len False show ?thesis by force
qed

lemma UnaryMinus_ok: "bigint_wf x \<Longrightarrow> returns (UnaryMinus x) (- bval x)"
proof -
  assume wf: "bigint_wf x"
  show ?thesis
  proof (cases "IsZero x")
    case True
    with wf have "bval x = 0" using bmag_zero_iff [of x] by (simp add: bval_def)
    with True wf show ?thesis by (simp add: UnaryMinus_def returns_def)
  next
    case False
    then have "last (digits x) \<noteq> 0"
      using wf wf_last_zero(1) [of x] by (auto simp: IsZero_def)
    with False wf wf_length [of x] show ?thesis
      by (auto simp: UnaryMinus_def returns_def Copy_def CreateBigint_cases bigint_wf_def
          bval_def bmag_def)
  qed
qed

lemma one_wf [simp]: "bigint_wf \<lparr>sign = False, digits = [1]\<rparr>"
  and zero_wf [simp]: "bigint_wf \<lparr>sign = False, digits = [0]\<rparr>"
  and one_val [simp]: "bval \<lparr>sign = False, digits = [1]\<rparr> = 1"
  and zero_val [simp]: "bval \<lparr>sign = s, digits = [0]\<rparr> = 0"
  by (simp_all add: bigint_wf_def bval_def bmag_def)

text \<open>Overwriting the sign of a canonical object.\<close>

lemma set_sign_ok:
  "bigint_wf z \<Longrightarrow> bval z \<noteq> 0 \<Longrightarrow> bigint_wf (z\<lparr>sign := s\<rparr>) \<and> bval (z\<lparr>sign := s\<rparr>) = signed_mag s (bmag z)"
  by (auto simp: bigint_wf_def bval_def bmag_def signed_mag_def length_Suc_conv)

lemma BitwiseNOT_ok:
  assumes "bigint_wf x"
  shows "if \<not> sign x \<and> GetLength x = MAXSIZE then BitwiseNOT x = Inl size_exceeded
    else returns (BitwiseNOT x) (NOT (bval x))"
proof -
  have add: "if \<not> sign x \<and> GetLength x = MAXSIZE then BigintAddOne x = Inl size_exceeded
      else returns (BigintAddOne x) (bval x + 1)"
    using Add_ok [OF assms one_wf] wf_length [OF assms]
    by (auto simp: BigintAddOne_def max_def split: if_splits)
  show ?thesis
  proof (cases "\<not> sign x \<and> GetLength x = MAXSIZE")
    case True
    then show ?thesis using add by (simp add: BitwiseNOT_def)
  next
    case False
    with add obtain z where z: "BigintAddOne x = Inr z" "bigint_wf z" "bval z = bval x + 1"
      by (auto simp: returns_def)
    have "bigint_wf (z\<lparr>sign := \<not> sign x\<rparr>) \<and> bval (z\<lparr>sign := \<not> sign x\<rparr>) = NOT (bval x)"
    proof (cases "bval z = 0")
      case True
      then have "sign x" using z(3) sign_bval [OF assms] by simp
      moreover have "\<not> sign z" using True sign_bval [OF z(2)] by simp
      moreover from this have "bigint_wf (z\<lparr>sign := False\<rparr>) = bigint_wf z"
        and "bval (z\<lparr>sign := False\<rparr>) = bval z"
        by (simp_all add: bigint_wf_def bval_def bmag_def)
      ultimately show ?thesis using z True by (simp add: not_int_def)
    next
      case False
      have "int (bmag z) = \<bar>bval z\<bar>" by (simp add: bval_def)
      with False z sign_bval [OF assms] set_sign_ok [OF z(2) False] show ?thesis
        by (auto simp: signed_mag_def not_int_def)
    qed
    then show ?thesis using False z by (auto simp: BitwiseNOT_def returns_def)
  qed
qed

section \<open>Exponentiation by squaring over any bounded multiplication\<close>

text \<open>
  What the loop relies on: the product of two well-formed operands is either returned, with a
  length bounded by the sum of theirs, or refused because that sum is over the limit.
\<close>

locale bounded_multiplication =
  fixes mul :: "'b \<Rightarrow> 'b \<Rightarrow> 'b result"
    and wf :: "'b \<Rightarrow> bool" and val :: "'b \<Rightarrow> int" and len :: "'b \<Rightarrow> nat"
    and maxlen :: nat and err :: js_error
  assumes mul_cases: "wf x \<Longrightarrow> wf y \<Longrightarrow>
    (\<exists>z. mul x y = Inr z \<and> wf z \<and> val z = val x * val y \<and> len z \<le> len x + len y) \<or>
    mul x y = Inl err \<and> maxlen < len x + len y"
begin

definition acc_val :: "'b option \<Rightarrow> int" where
  "acc_val r = (case r of None \<Rightarrow> 1 | Some z \<Rightarrow> val z)"

definition acc_len :: "'b option \<Rightarrow> nat" where
  "acc_len r = (case r of None \<Rightarrow> 0 | Some z \<Rightarrow> len z)"

definition acc_wf :: "'b option \<Rightarrow> bool" where
  "acc_wf r \<longleftrightarrow> (\<forall>z. r = Some z \<longrightarrow> wf z)"

definition pow_spec :: "'b option result \<Rightarrow> int \<Rightarrow> nat \<Rightarrow> bool" where
  "pow_spec m v n \<longleftrightarrow>
     (\<exists>z. m = Inr (Some z) \<and> wf z \<and> val z = v \<and> len z \<le> n) \<or> m = Inl err \<and> maxlen < n"

lemma pow_spec_mono: "pow_spec m v n \<Longrightarrow> n \<le> n' \<Longrightarrow> pow_spec m v n'"
  by (auto simp: pow_spec_def)

lemma pow_spec_bind:
  assumes "wf x" and "wf y" and "len x + len y \<le> n"
    and "\<And>z. wf z \<Longrightarrow> val z = val x * val y \<Longrightarrow> len z \<le> len x + len y \<Longrightarrow> pow_spec (f z) v n"
  shows "pow_spec (bind_result (mul x y) f) v n"
  using mul_cases [OF assms(1,2)] assms(3,4) by (fastforce simp: pow_spec_def)

lemma exp_loop_spec:
  "wf t \<Longrightarrow> acc_wf r \<Longrightarrow> r \<noteq> None \<or> e \<noteq> 0 \<Longrightarrow>
   pow_spec (exp_loop mul e t r) (acc_val r * val t ^ (2 * unat e)) (acc_len r + 2 * unat e * len t)"
proof (induction "unat e" arbitrary: e t r rule: less_induct)
  case less
  show ?case
  proof (cases "e = 0")
    case True
    with less.prems show ?thesis
      by (auto simp: exp_loop.simps [of mul 0] pow_spec_def acc_wf_def acc_val_def acc_len_def)
  next
    case False
    define h where "h = drop_bit 1 e"
    have h: "unat h = unat e div 2"
      by (simp add: h_def drop_bit_Suc unat_div_distrib)
    have pos: "0 < unat e" using False by (simp add: unat_gt_0)
    have IH: "pow_spec (exp_loop mul h t' r') (acc_val r' * val t' ^ (2 * unat h))
        (acc_len r' + 2 * unat h * len t')"
      if "wf t'" and "acc_wf r'" and "r' \<noteq> None \<or> h \<noteq> 0" for t' r'
      using less.hyps [of h t' r'] that h pos by simp
    show ?thesis
      unfolding exp_loop.simps [of mul e t r] h_def [symmetric]
    proof (simp add: False, rule pow_spec_bind [OF less.prems(1) less.prems(1)])
      show "len t + len t \<le> acc_len r + 2 * unat e * len t"
        using pos by (cases "unat e") simp_all
      fix t' assume t': "wf t'" "val t' = val t * val t" "len t' \<le> len t + len t"
      show "pow_spec (if e AND 1 \<noteq> 0
          then case r of None \<Rightarrow> exp_loop mul h t' (Some t')
               | Some q \<Rightarrow> bind_result (mul q t') (\<lambda>r'. exp_loop mul h t' (Some r'))
          else exp_loop mul h t' r) (acc_val r * val t ^ (2 * unat e)) (acc_len r + 2 * unat e * len t)"
      proof (cases "odd (unat e)")
        case True
        then have e: "unat e = 2 * unat h + 1" using h by simp
        have pw: "val t ^ (2 * unat e) = val t' * val t' ^ (2 * unat h)"
          unfolding e t'(2) power2_eq_square [symmetric] power_mult [symmetric]
          by (simp add: power_add [symmetric])
        have "2 * unat h * len t' \<le> 2 * unat h * (len t + len t)" using t'(3) by (rule mult_le_mono2)
        with t'(3) have "len t' + 2 * unat h * len t' \<le> (len t + len t) + 2 * unat h * (len t + len t)"
          by (rule add_mono)
        then have ln: "len t' + 2 * unat h * len t' \<le> 2 * unat e * len t"
          unfolding e by (simp add: algebra_simps)
        show ?thesis
        proof (cases r)
          case None
          have "pow_spec (exp_loop mul h t' (Some t')) (val t' * val t' ^ (2 * unat h))
              (len t' + 2 * unat h * len t')"
            using IH [of t' "Some t'"] t'(1) by (simp add: acc_wf_def acc_val_def acc_len_def)
          then show ?thesis
            using True pow_spec_mono [OF _ ln] pw
            by (simp add: None and_one_nonzero acc_val_def acc_len_def)
        next
          case (Some q)
          have "pow_spec (bind_result (mul q t') (\<lambda>r'. exp_loop mul h t' (Some r')))
              (acc_val r * val t ^ (2 * unat e)) (acc_len r + 2 * unat e * len t)"
          proof (rule pow_spec_bind)
            show "wf q" using less.prems(2) Some by (simp add: acc_wf_def)
            show "len q + len t' \<le> acc_len r + 2 * unat e * len t"
              using ln by (simp add: Some acc_len_def)
            fix z assume z: "wf z" "val z = val q * val t'" "len z \<le> len q + len t'"
            then have "len z + 2 * unat h * len t' \<le> acc_len r + 2 * unat e * len t"
              using ln by (simp add: Some acc_len_def)
            moreover have "pow_spec (exp_loop mul h t' (Some z)) (val z * val t' ^ (2 * unat h))
                (len z + 2 * unat h * len t')"
              using IH [of t' "Some z"] t'(1) z(1)
              by (simp add: acc_wf_def acc_val_def acc_len_def)
            ultimately show "pow_spec (exp_loop mul h t' (Some z)) (acc_val r * val t ^ (2 * unat e))
                (acc_len r + 2 * unat e * len t)"
              using pow_spec_mono z(2) pw by (simp add: Some acc_val_def mult.assoc)
          qed (fact t'(1))
          then show ?thesis using True by (simp add: and_one_nonzero Some)
        qed
      next
        case even: False
        then have e: "unat e = 2 * unat h" using h by simp
        then have "h \<noteq> 0" using pos by auto
        have pw: "val t ^ (2 * unat e) = val t' ^ (2 * unat h)"
          unfolding e t'(2) power2_eq_square [symmetric] power_mult [symmetric] by simp
        have "2 * unat h * len t' \<le> 2 * unat h * (len t + len t)" using t'(3) by (rule mult_le_mono2)
        then have "acc_len r + 2 * unat h * len t' \<le> acc_len r + 2 * unat e * len t"
          unfolding e by (simp add: algebra_simps)
        then show ?thesis
          using even pow_spec_mono [OF IH [of t' r, OF t'(1) less.prems(2)]] \<open>h \<noteq> 0\<close> pw
          by (simp add: and_one_nonzero)
      qed
    qed
  qed
qed

end

interpretation bigint_mul: bounded_multiplication Multiply bigint_wf bval GetLength MAXSIZE size_exceeded
proof
  fix x y assume wf: "bigint_wf x" "bigint_wf y"
  show "(\<exists>z. Multiply x y = Inr z \<and> bigint_wf z \<and> bval z = bval x * bval y
        \<and> GetLength z \<le> GetLength x + GetLength y)
      \<or> Multiply x y = Inl size_exceeded \<and> MAXSIZE < GetLength x + GetLength y"
    using Multiply_ok [OF wf] Multiply_length [OF wf] by (auto simp: returns_def split: if_splits)
qed

section \<open>The exponentiation of the runtime\<close>

lemma single_digit: "length ds = 1 \<Longrightarrow> ds = [ds ! 0]"
  by (cases ds) simp_all

lemma dval_single: "length ds = 1 \<Longrightarrow> dval ds = unat (ds ! 0)"
  by (cases ds) simp_all

lemma bmag_parity: "bigint_wf e \<Longrightarrow> odd (bmag e) \<longleftrightarrow> odd (unat (GetDigit e 0))"
  by (cases "digits e") (simp_all add: bmag_def bigint_wf_def)

lemma wf_mag_ge: "bigint_wf e \<Longrightarrow> 1 < GetLength e \<Longrightarrow> 4294967296 \<le> bmag e"
proof -
  assume e: "bigint_wf e" "1 < GetLength e"
  then have "last (digits e) \<noteq> 0" using wf_last_zero(1) [of e] by force
  then have "4294967296 ^ (length (digits e) - 1) \<le> bmag e"
    using e(1) dval_lower_bound by (simp add: bmag_def wf_nonempty)
  moreover have "(4294967296 :: nat) ^ 1 \<le> 4294967296 ^ (length (digits e) - 1)"
    using e(2) by (intro power_increasing) simp_all
  ultimately show ?thesis by simp
qed

lemma power_of_two_digits:
  assumes "n div 32 < 32768"
  shows "dval ((replicate (n div 32 + 1) 0)[n div 32 := push_bit (n mod 32) (1 :: u32)]) = 2 ^ n"
proof -
  have upd: "(replicate (n div 32 + 1) 0)[n div 32 := push_bit (n mod 32) (1 :: u32)] =
      replicate (n div 32) 0 @ [push_bit (n mod 32) 1]"
    by (simp add: replicate_append_same [symmetric] list_update_append)
  have "unat (push_bit (n mod 32) (1 :: u32)) = 2 ^ (n mod 32)"
    by (simp add: unat_pow2)
  moreover have "(4294967296 :: nat) ^ (n div 32) * 2 ^ (n mod 32) = 2 ^ n"
  proof -
    have "(4294967296 :: nat) ^ (n div 32) = 2 ^ (32 * (n div 32))"
      by (simp add: power_mult)
    then show ?thesis by (simp add: power_add [symmetric])
  qed
  ultimately show ?thesis unfolding upd by (simp add: dval_append)
qed

lemma exp_power_of_two_ok:
  assumes "digits b = [2]"
  shows "returns (exp_power_of_two b e) (bval b ^ unat e) \<or>
    exp_power_of_two b e = Inl size_exceeded \<and> MAXSIZE < GetLength b * unat e"
proof (cases "unat e div 32 < 32768")
  case False
  then have "exp_power_of_two b e = Inl size_exceeded"
    by (simp add: exp_power_of_two_def CreateBigint_cases)
  moreover have "32768 < unat e" using False by linarith
  ultimately show ?thesis by (simp add: assms)
next
  case True
  define ds where "ds = (replicate (unat e div 32 + 1) 0)
    [unat e div 32 := push_bit (unat e mod 32) (1 :: u32)]"
  have mag: "dval ds = 2 ^ unat e" unfolding ds_def using True by (rule power_of_two_digits)
  have len: "length ds = unat e div 32 + 1"
    unfolding ds_def length_list_update length_replicate ..
  have "last ds = ds ! (unat e div 32)" using len by (subst last_conv_nth) auto
  then have "unat (last ds) = 2 ^ (unat e mod 32)"
    unfolding ds_def by (subst (asm) nth_list_update_eq) (simp_all add: unat_pow2)
  then have "last ds \<noteq> 0" by auto
  moreover have "exp_power_of_two b e = Inr \<lparr>sign = sign b \<and> odd (unat e), digits = ds\<rparr>"
    using True by (simp add: exp_power_of_two_def CreateBigint_cases Let_def ds_def and_one_nonzero)
  moreover have "bval b = (if sign b then -2 else 2)" by (simp add: bval_def bmag_def assms)
  ultimately show ?thesis
    using True mag len by (auto simp: returns_def bigint_wf_def bval_def bmag_def)
qed

lemma Exponentiate_ok:
  assumes b: "bigint_wf b" and e: "bigint_wf e"
  shows "if sign e then Exponentiate b e = Inl exponent_negative
    else returns (Exponentiate b e) (bval b ^ bmag e) \<or>
      Exponentiate b e = Inl size_exceeded \<and> MAXSIZE < GetLength b * bmag e"
proof -
  define ev where "ev = GetDigit e 0"
  consider (neg) "sign e" | (zero) "\<not> sign e" "IsZero e"
    | (base0) "\<not> sign e" "\<not> IsZero e" "IsZero b"
    | (base1) "\<not> sign e" "\<not> IsZero e" "digits b = [1]"
    | (long) "\<not> sign e" "\<not> IsZero e" "\<not> IsZero b" "digits b \<noteq> [1]" "1 < GetLength e"
    | (base2) "\<not> sign e" "\<not> IsZero e" "digits b = [2]" "GetLength e = 1"
    | (loop) "\<not> sign e" "\<not> IsZero e" "\<not> IsZero b" "digits b \<noteq> [1]" "digits b \<noteq> [2]" "GetLength e = 1"
    using wf_nonempty [OF e] by (cases "GetLength e = 1") (auto simp: nat_neq_iff)
  then show ?thesis
  proof cases
    case neg
    then show ?thesis by (simp add: Exponentiate_def)
  next
    case zero
    then show ?thesis using bmag_zero_iff [OF e] by (simp add: Exponentiate_def returns_def)
  next
    case base0
    then have "bval b = 0" and "0 < bmag e"
      using bmag_zero_iff [OF b] bmag_zero_iff [OF e] by (simp_all add: bval_def)
    with base0 b show ?thesis by (simp add: Exponentiate_def returns_def)
  next
    case base1
    then have v: "bval b = (if sign b then -1 else 1)" by (simp add: bval_def bmag_def)
    have "\<not> IsZero b" using base1 by (simp add: IsZero_def)
    with base1 have "Exponentiate b e =
        (if sign b \<and> even (unat ev) then UnaryMinus b else Inr b)"
      by (simp add: Exponentiate_def Let_def and_one_nonzero ev_def)
    with base1 v show ?thesis
      using UnaryMinus_ok [OF b] bmag_parity [OF e] b by (auto simp: returns_def ev_def)
  next
    case long
    have "0 < GetLength b" using wf_nonempty [OF b] by simp
    then have "1 * 4294967296 \<le> GetLength b * bmag e"
      using wf_mag_ge [OF e long(5)] by (intro mult_le_mono) (simp_all add: Suc_le_eq)
    moreover have "\<not> (GetLength b = 1 \<and> GetDigit b 0 = 1)"
      using long(4) single_digit [of "digits b"] by auto
    ultimately show ?thesis using long by (auto simp: Exponentiate_def Let_def)
  next
    case base2
    then have "bmag e = unat ev" using dval_single [of "digits e"] by (simp add: bmag_def ev_def)
    moreover have "\<not> IsZero b" using base2 by (simp add: IsZero_def)
    with base2 have "Exponentiate b e = exp_power_of_two b ev"
      by (simp add: Exponentiate_def Let_def ev_def)
    ultimately show ?thesis using base2 exp_power_of_two_ok [OF base2(3), of ev] by simp
  next
    case loop
    have ev: "bmag e = unat ev"
      using loop(6) dval_single [of "digits e"] by (simp add: bmag_def ev_def)
    define r where "r = (if odd (unat ev) then Some b else None)"
    define hv where "hv = drop_bit 1 ev"
    have h: "unat hv = unat ev div 2"
      by (simp add: hv_def drop_bit_Suc unat_div_distrib)
    have "\<not> (GetLength b = 1 \<and> GetDigit b 0 = 1)" "\<not> (GetLength b = 1 \<and> GetDigit b 0 = 2)"
      using loop(4,5) single_digit [of "digits b"] by auto
    then have E: "Exponentiate b e = bind_result (exp_loop Multiply hv b r) (\<lambda>r. Inr (the r))"
      using loop by (auto simp: Exponentiate_def Let_def ev_def r_def hv_def and_one_nonzero)
    have "0 < unat ev" using ev loop(2) bmag_zero_iff [OF e] by simp
    then have ne: "r \<noteq> None \<or> hv \<noteq> 0" using h by (auto simp: r_def elim!: evenE)
    have "bval b ^ unat ev = bigint_mul.acc_val r * bval b ^ (2 * unat hv)"
      and "GetLength b * unat ev = bigint_mul.acc_len r + 2 * unat hv * GetLength b"
      by (auto simp: bigint_mul.acc_val_def bigint_mul.acc_len_def r_def h elim!: oddE evenE)
    then have "bigint_mul.pow_spec (exp_loop Multiply hv b r)
        (bval b ^ unat ev) (GetLength b * unat ev)"
      using bigint_mul.exp_loop_spec [OF b _ ne] b by (simp add: bigint_mul.acc_wf_def r_def)
    then show ?thesis
      using loop(1) E ev unfolding bigint_mul.pow_spec_def returns_def by auto
  qed
qed

end
