(* ===== verification/BigInt_Bitwise.thy ===== *)
theory BigInt_Bitwise
  imports BigInt
begin

text \<open>
  The bitwise operators of \<open>ecmascript/js_bigint.cpp\<close>.  The objects store sign and magnitude, while
  JavaScript defines the operators on two's complement; the code rewrites every case with a negative
  operand through \<open>-x = ~(x - 1)\<close>.  The lemmas at the end state each operator as the operation of
  the same name on the unbounded integers.
\<close>

datatype operate = OpAND | OpOR | OpXOR

fun operate_digit :: "operate \<Rightarrow> u32 \<Rightarrow> u32 \<Rightarrow> u32" where
  "operate_digit OpOR a b = a OR b"
| "operate_digit OpAND a b = a AND b"
| "operate_digit OpXOR a b = a XOR b"

text \<open>
  \<open>map2\<close> is the loop up to the shorter length; the result was allocated with the longer length and
  zeroed, and for \<open>OR\<close> and \<open>XOR\<close> the remaining digits of the longer operand are copied.
\<close>

definition BitwiseOp :: "operate \<Rightarrow> bigint \<Rightarrow> bigint \<Rightarrow> bigint result" where
  "BitwiseOp opr x y =
     (let xlen = GetLength x; ylen = GetLength y;
          maxLen = (if xlen > ylen then xlen else ylen);
          minLen = (if xlen > ylen then ylen else xlen)
      in bind_result (CreateBigint maxLen) (\<lambda>b.
           let low = map2 (operate_digit opr) (digits x) (digits y);
               high = (if opr = OpOR \<or> opr = OpXOR then
                         (if xlen > ylen then drop ylen (digits x)
                          else if ylen > xlen then drop xlen (digits y) else [])
                       else drop minLen (digits b))
           in RightTruncate (b\<lparr>digits := low @ high\<rparr>)))"

text \<open>The borrow loop runs over the digits of the operand with an initial borrow of 1.\<close>

definition BitwiseSubOne :: "bigint \<Rightarrow> nat \<Rightarrow> bigint result" where
  "BitwiseSubOne x maxLen =
     bind_result (CreateBigint maxLen) (\<lambda>newBigint.
       RightTruncate (newBigint\<lparr>digits :=
         sub_digits (digits x) [] 1 @ drop (GetLength x) (digits newBigint)\<rparr>))"

text \<open>
  The carry loop with an initial carry of 1; the carry digit is stored only when every digit was
  the maximal one.
\<close>

definition BitwiseAddOne :: "bigint \<Rightarrow> bigint result" where
  "BitwiseAddOne x =
     (let bigintLength = GetLength x;
          needExpend = (\<forall>i \<in> {0..<bigintLength}. GetDigit x i = - 1);
          newLength = (if needExpend then bigintLength + 1 else bigintLength)
      in bind_result (CreateBigint newLength) (\<lambda>newBigint.
           RightTruncate (newBigint\<lparr>digits := take newLength (add_digits (digits x) [] 1),
                                    sign := True\<rparr>)))"

definition OneIsNegativeAND :: "bigint \<Rightarrow> bigint \<Rightarrow> bigint result" where
  "OneIsNegativeAND x y =
     bind_result (BitwiseSubOne y (GetLength y)) (\<lambda>yVal.
       let xLength = GetLength x; yLength = GetLength yVal;
           minLen = (if xLength > yLength then yLength else xLength)
       in bind_result (CreateBigint xLength) (\<lambda>newBigint.
            RightTruncate (newBigint\<lparr>digits :=
              map2 (\<lambda>a b. a AND NOT b) (digits x) (digits yVal) @ drop minLen (digits x)\<rparr>)))"

definition BitwiseAND :: "bigint \<Rightarrow> bigint \<Rightarrow> bigint result" where
  "BitwiseAND x y =
     (if sign x \<and> sign y then
        bind_result (BitwiseSubOne x (GetLength x)) (\<lambda>xVal.
        bind_result (BitwiseSubOne y (GetLength y)) (\<lambda>yVal.
        bind_result (BitwiseOp OpOR xVal yVal) (\<lambda>temp.
        BitwiseAddOne temp)))
      else if sign x \<noteq> sign y then
        (if \<not> sign x then OneIsNegativeAND x y else OneIsNegativeAND y x)
      else BitwiseOp OpAND x y)"

definition OneIsNegativeXOR :: "bigint \<Rightarrow> bigint \<Rightarrow> bigint result" where
  "OneIsNegativeXOR x y =
     bind_result (BitwiseSubOne y (GetLength y)) (\<lambda>yVal.
     bind_result (BitwiseOp OpXOR x yVal) (\<lambda>temp.
     BitwiseAddOne temp))"

definition BitwiseXOR :: "bigint \<Rightarrow> bigint \<Rightarrow> bigint result" where
  "BitwiseXOR x y =
     (if sign x \<and> sign y then
        bind_result (BitwiseSubOne x (GetLength x)) (\<lambda>xVal.
        bind_result (BitwiseSubOne y (GetLength y)) (\<lambda>yVal.
        BitwiseOp OpXOR xVal yVal))
      else if sign x \<noteq> sign y then
        (if \<not> sign x then OneIsNegativeXOR x y else OneIsNegativeXOR y x)
      else BitwiseOp OpXOR x y)"

definition OneIsNegativeOR :: "bigint \<Rightarrow> bigint \<Rightarrow> bigint result" where
  "OneIsNegativeOR x y =
     (let xLength = GetLength x;
          maxLen = (if xLength < GetLength y then GetLength y else xLength)
      in bind_result (BitwiseSubOne y maxLen) (\<lambda>yVal.
           let yLength = GetLength yVal;
               minLen = (if xLength > yLength then yLength else xLength)
           in bind_result (CreateBigint yLength) (\<lambda>newBigint.
              bind_result (RightTruncate (newBigint\<lparr>digits :=
                map2 (\<lambda>a b. NOT a AND b) (digits x) (digits yVal) @ drop minLen (digits yVal)\<rparr>))
                (\<lambda>temp.
              bind_result (BitwiseAddOne temp) (\<lambda>res.
              Inr (res\<lparr>sign := True\<rparr>))))))"

definition BitwiseOR :: "bigint \<Rightarrow> bigint \<Rightarrow> bigint result" where
  "BitwiseOR x y =
     (if sign x \<and> sign y then
        (let yLen = GetLength y;
             maxLen = (if GetLength x < yLen then yLen else GetLength x) in
         bind_result (BitwiseSubOne x maxLen) (\<lambda>xVal.
         bind_result (BitwiseSubOne y yLen) (\<lambda>yVal.
         bind_result (BitwiseOp OpAND xVal yVal) (\<lambda>temp.
         bind_result (BitwiseAddOne temp) (\<lambda>res.
         Inr (res\<lparr>sign := True\<rparr>))))))
      else if sign x \<noteq> sign y then
        (if \<not> sign x then OneIsNegativeOR x y else OneIsNegativeOR y x)
      else BitwiseOp OpOR x y)"

section \<open>Digit arrays as bit strings\<close>

lemma int_dval_Cons: "int (dval (d # ds)) = concat_bit 32 (uint d) (int (dval ds))"
proof -
  have "take_bit 32 (uint d) = uint d"
    using uint_lt2p [of d] by (simp add: take_bit_int_eq_self_iff)
  then show ?thesis by (simp add: concat_bit_eq push_bit_eq_mult)
qed

lemma concat_bit_and: "concat_bit n a b AND concat_bit n c d = concat_bit n (a AND c) (b AND d)"
  and concat_bit_or: "concat_bit n a b OR concat_bit n c d = concat_bit n (a OR c) (b OR d)"
  and concat_bit_xor: "concat_bit n a b XOR concat_bit n c d = concat_bit n (a XOR c) (b XOR d)"
  by (auto intro!: bit_eqI simp: bit_simps)

lemma concat_bit_andnot:
  "concat_bit 32 (uint a) b AND NOT (concat_bit 32 (uint c) d)
   = concat_bit 32 (uint (a AND NOT c)) (b AND NOT d)" for a c :: u32
  by (auto intro!: bit_eqI simp: bit_simps)

lemma dval_zeros: "dval (ds @ replicate n 0) = dval ds"
  by (simp add: dval_append)

lemma dval_and:
  "int (dval (map2 (operate_digit OpAND) xs ys)) = int (dval xs) AND int (dval ys)"
proof (induction xs ys rule: list_induct2')
  case (4 x xs y ys)
  then show ?case
    by (simp add: int_dval_Cons concat_bit_and unsigned_and_eq del: dval.simps)
qed simp_all

definition longer_rest :: "'a list \<Rightarrow> 'a list \<Rightarrow> 'a list" where
  "longer_rest xs ys = (if length xs > length ys then drop (length ys) xs
     else if length ys > length xs then drop (length xs) ys else [])"

lemma longer_rest_simps [simp]:
  "longer_rest [] ys = ys" "longer_rest xs [] = xs"
  "longer_rest (x # xs) (y # ys) = longer_rest xs ys"
  by (auto simp: longer_rest_def)

lemma dval_or:
  "int (dval (map2 (operate_digit OpOR) xs ys @ longer_rest xs ys)) = int (dval xs) OR int (dval ys)"
proof (induction xs ys rule: list_induct2')
  case (4 x xs y ys)
  then show ?case
    by (simp add: int_dval_Cons concat_bit_or unsigned_or_eq del: dval.simps)
qed simp_all

lemma dval_xor:
  "int (dval (map2 (operate_digit OpXOR) xs ys @ longer_rest xs ys)) = int (dval xs) XOR int (dval ys)"
proof (induction xs ys rule: list_induct2')
  case (4 x xs y ys)
  then show ?case
    by (simp add: int_dval_Cons concat_bit_xor unsigned_xor_eq del: dval.simps)
qed simp_all

lemma dval_andnot:
  "int (dval (map2 (\<lambda>a b. a AND NOT b) xs ys @ drop (min (length xs) (length ys)) xs))
   = int (dval xs) AND NOT (int (dval ys))"
proof (induction xs ys rule: list_induct2')
  case (4 x xs y ys)
  then show ?case
    by (simp add: int_dval_Cons concat_bit_andnot del: dval.simps)
qed simp_all

lemma length_map2_longer [simp]: "length (map2 f xs ys @ longer_rest xs ys) = max (length xs) (length ys)"
  by (auto simp: longer_rest_def)

section \<open>Largest magnitude\<close>

text \<open>Opaque: unfolding it would have the simplifier compute a number of a million bits.\<close>

definition max_mag :: nat where
  "max_mag = 4294967296 ^ MAXSIZE"

definition fits :: "int \<Rightarrow> bool" where
  "fits v \<longleftrightarrow> \<bar>v\<bar> < int max_mag"

lemma dval_max_mag: "length ds \<le> MAXSIZE \<Longrightarrow> dval ds < max_mag"
  unfolding max_mag_def
  by (rule less_le_trans [OF dval_bound], rule power_increasing) simp_all

lemma wf_fits: "bigint_wf x \<Longrightarrow> fits (bval x)"
  using dval_max_mag [of "digits x"] by (simp add: fits_def bval_def bmag_def bigint_wf_def)

lemma digit_all_ones:
  fixes u D P :: nat
  assumes "D < P" and "u < 4294967296"
  shows "u + 4294967296 * D + 1 = 4294967296 * P \<longleftrightarrow> u = 4294967295 \<and> D + 1 = P"
  using assms by (intro iffI conjI) linarith+

lemma dval_all_ones:
  "dval ds + 1 = 4294967296 ^ length ds \<longleftrightarrow> (\<forall>i < length ds. ds ! i = - 1)"
proof (induction ds)
  case (Cons d ds)
  have "dval (d # ds) + 1 = 4294967296 ^ length (d # ds) \<longleftrightarrow>
      unat d = 4294967295 \<and> dval ds + 1 = 4294967296 ^ length ds"
    using digit_all_ones [OF dval_bound [of ds] word32_bound [of d]] by simp
  also have "\<dots> \<longleftrightarrow> d = - 1 \<and> (\<forall>i < length ds. ds ! i = - 1)"
    using Cons.IH by (simp add: word32_max_iff)
  also have "\<dots> \<longleftrightarrow> (\<forall>i < length (d # ds). (d # ds) ! i = - 1)"
    by (auto simp: less_Suc_eq_0_disj)
  finally show ?case .
qed simp

lemma fits_add_one:
  assumes "bigint_wf x"
  shows "fits (int (bmag x) + 1) \<longleftrightarrow> \<not> (GetLength x = MAXSIZE \<and> (\<forall>i < GetLength x. GetDigit x i = - 1))"
proof -
  have lt: "bmag x < max_mag"
    using assms by (simp add: bmag_def bigint_wf_def dval_max_mag)
  have "\<not> fits (int (bmag x) + 1) \<longleftrightarrow> bmag x + 1 = max_mag"
    using lt by (simp add: fits_def) linarith
  also have "\<dots> \<longleftrightarrow> GetLength x = MAXSIZE \<and> bmag x + 1 = 4294967296 ^ GetLength x"
  proof (cases "GetLength x = MAXSIZE")
    case True
    then show ?thesis by (simp add: max_mag_def del: MAXSIZE_eq)
  next
    case False
    then have "GetLength x < MAXSIZE" using assms by (simp add: bigint_wf_def)
    then have "(4294967296 :: nat) ^ GetLength x < max_mag"
      unfolding max_mag_def by (intro power_strict_increasing) simp_all
    moreover have "bmag x + 1 \<le> 4294967296 ^ GetLength x"
      using dval_bound [of "digits x"] by (simp add: bmag_def Suc_le_eq)
    ultimately show ?thesis using False by simp
  qed
  also have "\<dots> \<longleftrightarrow> GetLength x = MAXSIZE \<and> (\<forall>i < GetLength x. GetDigit x i = - 1)"
    using dval_all_ones [of "digits x"] by (simp add: bmag_def)
  finally show ?thesis by blast
qed

section \<open>The operators\<close>

lemma BitwiseSubOne_ok:
  assumes "bigint_wf x" and "0 < bmag x" and "GetLength x \<le> n" and "n \<le> MAXSIZE"
  shows "returns (BitwiseSubOne x n) (int (bmag x) - 1)"
proof -
  have "dval (sub_digits (digits x) [] 1) + 1 = bmag x"
    using dval_sub_digits [of 1 "[]" "digits x"] assms(2) by (simp add: bmag_def)
  then show ?thesis
    using assms
    by (auto simp: BitwiseSubOne_def CreateBigint_cases bval_def bmag_def dval_append wf_nonempty
        intro!: returns_RightTruncate)
qed

lemma BitwiseAddOne_ok:
  assumes "bigint_wf x"
  shows "if fits (int (bmag x) + 1) then returns (BitwiseAddOne x) (- (int (bmag x) + 1))
    else BitwiseAddOne x = Inl size_exceeded"
proof -
  define ones where "ones = (\<forall>i \<in> {0..<GetLength x}. GetDigit x i = - 1)"
  have ones: "ones \<longleftrightarrow> (\<forall>i < GetLength x. GetDigit x i = - 1)" by (auto simp: ones_def)
  define r where "r = add_digits (digits x) [] 1"
  have len: "length r = GetLength x + 1" by (simp add: r_def)
  have val: "dval r = bmag x + 1" by (simp add: r_def dval_add_digits bmag_def)
  have short: "dval (take (GetLength x) r) = dval r" if "\<not> ones"
  proof -
    have "bmag x + 1 < 4294967296 ^ GetLength x"
      using that dval_all_ones [of "digits x"] dval_bound [of "digits x"]
      by (auto simp: ones bmag_def Suc_le_eq order.order_iff_strict)
    moreover have split: "dval r = dval (take (GetLength x) r) + 4294967296 ^ GetLength x * unat (r ! GetLength x)"
      using dval_take_Suc [of "GetLength x" r] len by simp
    ultimately have "unat (r ! GetLength x) = 0"
      using val by (cases "unat (r ! GetLength x)") (simp_all add: less_le_not_le)
    with split show ?thesis by simp
  qed
  have "BitwiseAddOne x = bind_result (CreateBigint (if ones then GetLength x + 1 else GetLength x))
      (\<lambda>b. RightTruncate (b\<lparr>digits := take (if ones then GetLength x + 1 else GetLength x) r,
        sign := True\<rparr>))"
    unfolding BitwiseAddOne_def Let_def ones_def [symmetric] r_def ..
  then show ?thesis
    using fits_add_one [OF assms] assms short val len wf_nonempty [OF assms] wf_length [OF assms]
    by (cases ones) (auto simp: ones CreateBigint_cases bval_def bmag_def
        intro!: returns_RightTruncate)
qed

lemma BitwiseOp_ok:
  assumes "bigint_wf x" and "bigint_wf y"
  shows "returns (BitwiseOp OpAND x y) (int (bmag x) AND int (bmag y))"
    and "returns (BitwiseOp OpOR x y) (int (bmag x) OR int (bmag y))"
    and "returns (BitwiseOp OpXOR x y) (int (bmag x) XOR int (bmag y))"
proof -
  have max: "max (GetLength x) (GetLength y) \<le> MAXSIZE" "0 < max (GetLength x) (GetLength y)"
    using assms wf_nonempty [of x] by (auto simp: bigint_wf_def less_max_iff_disj)
  have op: "BitwiseOp opr x y = RightTruncate \<lparr>sign = False, digits =
      map2 (operate_digit opr) (digits x) (digits y) @
        (if opr = OpAND then replicate (max (GetLength x) (GetLength y) - min (GetLength x) (GetLength y)) 0
         else longer_rest (digits x) (digits y))\<rparr>" for opr
    using max by (cases opr) (auto simp: BitwiseOp_def Let_def CreateBigint_cases longer_rest_def
        max_def min_def)
  have ne: "digits x \<noteq> []" "digits y \<noteq> []" using assms by (simp_all add: wf_nonempty)
  then have ne2: "map2 f (digits x) (digits y) \<noteq> []" for f :: "u32 \<Rightarrow> u32 \<Rightarrow> u32"
    by (cases "digits x"; cases "digits y") auto
  show "returns (BitwiseOp OpAND x y) (int (bmag x) AND int (bmag y))"
    unfolding op using max ne2
    by (intro returns_RightTruncate) (auto simp: bval_def bmag_def dval_zeros dval_and)
  show "returns (BitwiseOp OpOR x y) (int (bmag x) OR int (bmag y))"
    unfolding op using max ne2
    by (intro returns_RightTruncate) (auto simp: bval_def bmag_def dval_or simp del: length_append)
  show "returns (BitwiseOp OpXOR x y) (int (bmag x) XOR int (bmag y))"
    unfolding op using max ne2
    by (intro returns_RightTruncate) (auto simp: bval_def bmag_def dval_xor simp del: length_append)
qed

text \<open>The outcome of an operator whose mathematical result is \<open>v\<close>: the object, or the exception
  when \<open>v\<close> has more than \<open>MAXSIZE\<close> digits.\<close>

definition returns_if_fits :: "bigint result \<Rightarrow> int \<Rightarrow> bool" where
  "returns_if_fits m v \<longleftrightarrow> (if fits v then returns m v else m = Inl size_exceeded)"

lemma returns_fits: "returns m v \<Longrightarrow> fits v"
  using wf_fits by (auto simp: returns_def)

lemma returns_imp_if_fits: "returns m v \<Longrightarrow> returns_if_fits m v"
  by (simp add: returns_if_fits_def returns_fits)

lemma returns_bind_if_fits:
  "returns m v \<Longrightarrow> (\<And>z. bigint_wf z \<Longrightarrow> bval z = v \<Longrightarrow> returns_if_fits (f z) w) \<Longrightarrow>
   returns_if_fits (bind_result m f) w"
  by (auto simp: returns_def)

lemma AddOne_if_fits:
  assumes "bigint_wf x" and "0 \<le> bval x"
  shows "returns_if_fits (BitwiseAddOne x) (NOT (bval x))"
proof -
  have x: "bval x = int (bmag x)" using assms sign_bval [of x] by (simp add: bval_def)
  have v: "NOT (bval x) = - (int (bmag x) + 1)" unfolding x not_int_def by simp
  have "fits (- (int (bmag x) + 1)) = fits (int (bmag x) + 1)"
    by (simp only: fits_def abs_minus_cancel)
  then show ?thesis
    unfolding returns_if_fits_def v using BitwiseAddOne_ok [OF assms(1)] by presburger
qed

lemma negative_bval:
  assumes "bigint_wf x" and "sign x"
  shows "bval x = NOT (int (bmag x) - 1)" and "0 < bmag x"
proof -
  have "bval x = - int (bmag x)" using assms(2) by (simp add: bval_def)
  then show "bval x = NOT (int (bmag x) - 1)" and "0 < bmag x"
    using assms sign_bval [OF assms(1)] by (simp_all add: not_int_def)
qed

lemma nonnegative_bval: "\<not> sign x \<Longrightarrow> bval x = int (bmag x)"
  by (simp add: bval_def)

text \<open>The object that stands for \<open>x - 1\<close> when \<open>x\<close> is negative.\<close>

lemma SubOne_negative:
  assumes "bigint_wf x" and "sign x" and "GetLength x \<le> n" and "n \<le> MAXSIZE"
    and "\<And>z. bigint_wf z \<Longrightarrow> \<not> sign z \<Longrightarrow> int (bmag z) = NOT (bval x) \<Longrightarrow> returns_if_fits (f z) w"
  shows "returns_if_fits (bind_result (BitwiseSubOne x n) f) w"
proof (rule returns_bind_if_fits [OF BitwiseSubOne_ok [OF assms(1) _ assms(3,4)]])
  show "0 < bmag x" using assms(1,2) by (rule negative_bval)
  fix z assume z: "bigint_wf z" "bval z = int (bmag x) - 1"
  then have "\<not> sign z" using sign_bval [OF z(1)] negative_bval(2) [OF assms(1,2)] by simp
  with z assms(1,2) show "returns_if_fits (f z) w"
    by (intro assms(5)) (simp_all add: negative_bval(1) nonnegative_bval)
qed

lemma SubOne_negative_self:
  assumes "bigint_wf x" and "sign x"
    and "\<And>z. bigint_wf z \<Longrightarrow> \<not> sign z \<Longrightarrow> int (bmag z) = NOT (bval x) \<Longrightarrow> returns_if_fits (f z) w"
  shows "returns_if_fits (bind_result (BitwiseSubOne x (GetLength x)) f) w"
  using SubOne_negative [OF assms(1,2), of "GetLength x" f w] assms(3) wf_length [OF assms(1)] by simp

lemma OneIsNegativeAND_ok:
  assumes "bigint_wf x" and "\<not> sign x" and "bigint_wf y" and "sign y"
  shows "returns_if_fits (OneIsNegativeAND x y) (bval x AND bval y)"
  unfolding OneIsNegativeAND_def
proof (rule SubOne_negative [OF assms(3,4)])
  fix z assume z: "bigint_wf z" "\<not> sign z" "int (bmag z) = NOT (bval y)"
  have "min (GetLength x) (GetLength z) = (if GetLength z < GetLength x then GetLength z else GetLength x)"
    by simp
  then show "returns_if_fits (let xLength = GetLength x; yLength = GetLength z;
      minLen = if yLength < xLength then yLength else xLength
    in bind_result (CreateBigint xLength) (\<lambda>newBigint. RightTruncate (newBigint\<lparr>digits :=
        map2 (\<lambda>a b. a AND NOT b) (digits x) (digits z) @ drop minLen (digits x)\<rparr>)))
    (bval x AND bval y)"
    using wf_nonempty [OF assms(1)] wf_nonempty [OF z(1)] wf_length [OF assms(1)] z(3)
      dval_andnot [of "digits x" "digits z"] assms(2)
    by (auto simp: Let_def CreateBigint_cases bval_def bmag_def min_def
        intro!: returns_imp_if_fits returns_RightTruncate)
qed (use assms wf_length in auto)

lemma BitwiseAND_ok:
  assumes "bigint_wf x" and "bigint_wf y"
  shows "returns_if_fits (BitwiseAND x y) (bval x AND bval y)"
proof -
  consider (both) "sign x" "sign y" | (one) "sign x \<noteq> sign y" | (none) "\<not> sign x" "\<not> sign y"
    by blast
  then show ?thesis
  proof cases
    case both
    have "returns_if_fits (bind_result (BitwiseSubOne x (GetLength x)) (\<lambda>xVal.
        bind_result (BitwiseSubOne y (GetLength y)) (\<lambda>yVal.
        bind_result (BitwiseOp OpOR xVal yVal) (\<lambda>temp. BitwiseAddOne temp)))) (bval x AND bval y)"
    proof (rule SubOne_negative_self [OF assms(1) both(1)], rule SubOne_negative_self [OF assms(2) both(2)])
      fix u v assume uv: "bigint_wf u" "int (bmag u) = NOT (bval x)"
        "bigint_wf v" "int (bmag v) = NOT (bval y)"
      show "returns_if_fits (bind_result (BitwiseOp OpOR u v) (\<lambda>temp. BitwiseAddOne temp))
          (bval x AND bval y)"
      proof (rule returns_bind_if_fits [OF BitwiseOp_ok(2) [OF uv(1,3)]])
        fix z assume z: "bigint_wf z" "bval z = int (bmag u) OR int (bmag v)"
        then have "bval x AND bval y = NOT (bval z)" using uv(2,4) by simp
        then show "returns_if_fits (BitwiseAddOne z) (bval x AND bval y)"
          using AddOne_if_fits [OF z(1)] z(2) by (simp add: or_nonnegative_int_iff)
      qed
    qed
    then show ?thesis using both by (simp add: BitwiseAND_def)
  next
    case one
    then show ?thesis
      using OneIsNegativeAND_ok [of x y] OneIsNegativeAND_ok [of y x] assms
      by (auto simp: BitwiseAND_def and.commute)
  next
    case none
    then show ?thesis
      using BitwiseOp_ok(1) [OF assms] by (simp add: BitwiseAND_def nonnegative_bval returns_imp_if_fits)
  qed
qed

lemma OneIsNegativeXOR_ok:
  assumes "bigint_wf x" and "\<not> sign x" and "bigint_wf y" and "sign y"
  shows "returns_if_fits (OneIsNegativeXOR x y) (bval x XOR bval y)"
  unfolding OneIsNegativeXOR_def
proof (rule SubOne_negative_self [OF assms(3,4)])
  fix v assume v: "bigint_wf v" "int (bmag v) = NOT (bval y)"
  show "returns_if_fits (bind_result (BitwiseOp OpXOR x v) (\<lambda>temp. BitwiseAddOne temp))
      (bval x XOR bval y)"
  proof (rule returns_bind_if_fits [OF BitwiseOp_ok(3) [OF assms(1) v(1)]])
    fix z assume z: "bigint_wf z" "bval z = int (bmag x) XOR int (bmag v)"
    then have "bval x XOR bval y = NOT (bval z)"
      using v(2) by (simp add: nonnegative_bval [OF assms(2)])
    then show "returns_if_fits (BitwiseAddOne z) (bval x XOR bval y)"
      using AddOne_if_fits [OF z(1)] z(2) by (simp add: xor_nonnegative_int_iff)
  qed
qed

lemma BitwiseXOR_ok:
  assumes "bigint_wf x" and "bigint_wf y"
  shows "returns_if_fits (BitwiseXOR x y) (bval x XOR bval y)"
proof -
  consider (both) "sign x" "sign y" | (one) "sign x \<noteq> sign y" | (none) "\<not> sign x" "\<not> sign y"
    by blast
  then show ?thesis
  proof cases
    case both
    have "returns_if_fits (bind_result (BitwiseSubOne x (GetLength x)) (\<lambda>xVal.
        bind_result (BitwiseSubOne y (GetLength y)) (\<lambda>yVal.
        BitwiseOp OpXOR xVal yVal))) (bval x XOR bval y)"
    proof (rule SubOne_negative_self [OF assms(1) both(1)], rule SubOne_negative_self [OF assms(2) both(2)])
      fix u v assume uv: "bigint_wf u" "int (bmag u) = NOT (bval x)"
        "bigint_wf v" "int (bmag v) = NOT (bval y)"
      then show "returns_if_fits (BitwiseOp OpXOR u v) (bval x XOR bval y)"
        using BitwiseOp_ok(3) [OF uv(1,3)] by (simp add: returns_imp_if_fits)
    qed
    then show ?thesis using both by (simp add: BitwiseXOR_def)
  next
    case one
    then show ?thesis
      using OneIsNegativeXOR_ok [of x y] OneIsNegativeXOR_ok [of y x] assms
      by (auto simp: BitwiseXOR_def xor.commute)
  next
    case none
    then show ?thesis
      using BitwiseOp_ok(3) [OF assms] by (simp add: BitwiseXOR_def nonnegative_bval returns_imp_if_fits)
  qed
qed

lemma map2_andnot_swap: "map2 (\<lambda>a b. NOT a AND b) xs ys = map2 (\<lambda>a b. a AND NOT b) ys xs"
  for xs ys :: "u32 list"
  by (induction xs ys rule: list_induct2') (simp_all add: and.commute)

text \<open>The final \<open>SetSign(true)\<close> of the disjunctions finds the sign already set.\<close>

lemma set_sign_negative:
  assumes "returns_if_fits m v" and "v < 0"
  shows "returns_if_fits (bind_result m (\<lambda>res. Inr (res\<lparr>sign := True\<rparr>))) v"
proof (cases "fits v")
  case True
  with assms obtain z where z: "m = Inr z" "bigint_wf z" "bval z = v"
    by (auto simp: returns_if_fits_def returns_def)
  then have "sign z" using sign_bval assms(2) by simp
  then have "z\<lparr>sign := True\<rparr> = z" by (cases z) simp
  with z True show ?thesis by (simp only: returns_if_fits_def) (simp add: returns_def)
qed (use assms(1) in \<open>simp add: returns_if_fits_def\<close>)

lemma OneIsNegativeOR_ok:
  assumes "bigint_wf x" and "\<not> sign x" and "bigint_wf y" and "sign y"
  shows "returns_if_fits (OneIsNegativeOR x y) (bval x OR bval y)"
proof -
  have neg: "bval x OR bval y < 0"
    using sign_bval [OF assms(3)] assms(4) by (simp add: or_negative_int_iff)
  define n where "n = (if GetLength x < GetLength y then GetLength y else GetLength x)"
  have n: "GetLength y \<le> n" "n \<le> MAXSIZE"
    using wf_length [OF assms(1)] wf_length [OF assms(3)] by (simp_all add: n_def)
  show ?thesis
    unfolding OneIsNegativeOR_def Let_def n_def [symmetric]
  proof (rule SubOne_negative [OF assms(3,4) n])
    fix v assume v: "bigint_wf v" "\<not> sign v" "int (bmag v) = NOT (bval y)"
    define m where "m = (if GetLength v < GetLength x then GetLength v else GetLength x)"
    have m: "m = min (length (digits v)) (length (digits x))" by (simp add: m_def min_def)
    have "CreateBigint (GetLength v) = Inr \<lparr>sign = False, digits = replicate (GetLength v) 0\<rparr>"
      using wf_length [OF v(1)] by (simp add: CreateBigint_cases)
    moreover have "returns (RightTruncate \<lparr>sign = False, digits =
        map2 (\<lambda>a b. NOT a AND b) (digits x) (digits v) @ drop m (digits v)\<rparr>)
        (int (bmag v) AND NOT (bval x))"
      using wf_nonempty [OF v(1)] wf_nonempty [OF assms(1)] wf_length [OF v(1)]
        dval_andnot [of "digits v" "digits x"] nonnegative_bval [OF assms(2)]
      by (intro returns_RightTruncate) (auto simp: m map2_andnot_swap bval_def bmag_def)
    ultimately show "returns_if_fits (bind_result (CreateBigint (GetLength v)) (\<lambda>newBigint.
        bind_result (RightTruncate (newBigint\<lparr>digits :=
          map2 (\<lambda>a b. NOT a AND b) (digits x) (digits v) @ drop m (digits v)\<rparr>)) (\<lambda>temp.
        bind_result (BitwiseAddOne temp) (\<lambda>res. Inr (res\<lparr>sign := True\<rparr>))))) (bval x OR bval y)"
    proof (simp, elim returns_bind_if_fits)
      fix z assume z: "bigint_wf z" "bval z = int (bmag v) AND NOT (bval x)"
      have "bval x OR bval y = NOT (bval z)" using z(2) v(3) by (simp add: or.commute)
      moreover have "0 \<le> bval z" using z(2) by simp
      ultimately show "returns_if_fits (bind_result (BitwiseAddOne z) (\<lambda>res. Inr (res\<lparr>sign := True\<rparr>)))
          (bval x OR bval y)"
        using AddOne_if_fits [OF z(1)] neg by (intro set_sign_negative) simp_all
    qed
  qed
qed

lemma BitwiseOR_ok:
  assumes "bigint_wf x" and "bigint_wf y"
  shows "returns_if_fits (BitwiseOR x y) (bval x OR bval y)"
proof -
  consider (both) "sign x" "sign y" | (one) "sign x \<noteq> sign y" | (none) "\<not> sign x" "\<not> sign y"
    by blast
  then show ?thesis
  proof cases
    case both
    define n where "n = (if GetLength x < GetLength y then GetLength y else GetLength x)"
    have n: "GetLength x \<le> n" "n \<le> MAXSIZE"
      using wf_length [OF assms(1)] wf_length [OF assms(2)] by (simp_all add: n_def)
    have neg: "bval x OR bval y < 0"
      using sign_bval [OF assms(2)] both by (simp add: or_negative_int_iff)
    have "returns_if_fits (bind_result (BitwiseSubOne x n) (\<lambda>xVal.
        bind_result (BitwiseSubOne y (GetLength y)) (\<lambda>yVal.
        bind_result (BitwiseOp OpAND xVal yVal) (\<lambda>temp.
        bind_result (BitwiseAddOne temp) (\<lambda>res. Inr (res\<lparr>sign := True\<rparr>)))))) (bval x OR bval y)"
    proof (rule SubOne_negative [OF assms(1) both(1) n], rule SubOne_negative_self [OF assms(2) both(2)])
      fix u v assume uv: "bigint_wf u" "int (bmag u) = NOT (bval x)"
        "bigint_wf v" "int (bmag v) = NOT (bval y)"
      show "returns_if_fits (bind_result (BitwiseOp OpAND u v) (\<lambda>temp.
          bind_result (BitwiseAddOne temp) (\<lambda>res. Inr (res\<lparr>sign := True\<rparr>)))) (bval x OR bval y)"
      proof (rule returns_bind_if_fits [OF BitwiseOp_ok(1) [OF uv(1,3)]])
        fix z assume z: "bigint_wf z" "bval z = int (bmag u) AND int (bmag v)"
        then have "bval x OR bval y = NOT (bval z)" using uv(2,4) by simp
        moreover have "0 \<le> bval z" using z(2) by simp
        ultimately show "returns_if_fits (bind_result (BitwiseAddOne z)
            (\<lambda>res. Inr (res\<lparr>sign := True\<rparr>))) (bval x OR bval y)"
          using AddOne_if_fits [OF z(1)] neg by (intro set_sign_negative) simp_all
      qed
    qed
    then show ?thesis using both unfolding BitwiseOR_def Let_def n_def by simp
  next
    case one
    then show ?thesis
      using OneIsNegativeOR_ok [of x y] OneIsNegativeOR_ok [of y x] assms
      by (auto simp: BitwiseOR_def or.commute)
  next
    case none
    then show ?thesis
      using BitwiseOp_ok(2) [OF assms] by (simp add: BitwiseOR_def nonnegative_bval returns_imp_if_fits)
  qed
qed

end
