(* ===== verification/BigInt_Shift.thy ===== *)
theory BigInt_Shift
  imports BigInt_Bitwise
begin

text \<open>
  The shifts of \<open>ecmascript/js_bigint.cpp\<close>: whole digits are moved by \<open>digitMove\<close>, the rest by
  \<open>bitsMove\<close> bits with a carry from digit to digit.  A right shift of a negative value rounds towards
  minus infinity, which \<open>JudgeRoundDown\<close> prepares.
\<close>

section \<open>Definitions\<close>

fun rshift_loop :: "nat \<Rightarrow> u32 list \<Rightarrow> u32 \<Rightarrow> u32 list" where
  "rshift_loop bitsMove [] carry = [carry]"
| "rshift_loop bitsMove (value # vs) carry =
     (push_bit (DATEBITS - bitsMove) value OR carry)
       # rshift_loop bitsMove vs (drop_bit bitsMove value)"

text \<open>\<open>RightShift\<close> overwrites the low digits of \<open>b\<close>; the digits above keep their value.\<close>

definition RightShift :: "bigint \<Rightarrow> bigint \<Rightarrow> nat \<Rightarrow> nat \<Rightarrow> bigint" where
  "RightShift b x digitMove bitsMove =
     (let moved =
        (if bitsMove = 0 then drop digitMove (digits x)
         else case drop digitMove (digits x) of
                [] \<Rightarrow> []
              | value # vs \<Rightarrow> rshift_loop bitsMove vs (drop_bit bitsMove value))
      in b\<lparr>digits := moved @ drop (length moved) (digits b)\<rparr>)"

definition ReturnIfRightShiftOverMax :: "bool \<Rightarrow> bigint result" where
  "ReturnIfRightShiftOverMax neg = (if neg then Int32ToBigInt (- 1) else Int32ToBigInt 0)"

text \<open>The result is the pair of the two reference parameters \<open>needLen\<close> and \<open>roundDown\<close>.\<close>

definition JudgeRoundDown :: "bigint \<Rightarrow> nat \<Rightarrow> nat \<Rightarrow> nat \<Rightarrow> nat \<times> bool" where
  "JudgeRoundDown x digitMove bitsMove needLen =
     (let stamp = push_bit bitsMove (1 :: u32) - 1;
          roundDown = (GetDigit x digitMove AND stamp \<noteq> 0 \<or>
                       (\<exists>i \<in> {0..<digitMove}. GetDigit x i \<noteq> 0));
          needLen' = (if roundDown \<and> bitsMove = 0 \<and> NOT (GetDigit x (GetLength x - 1)) = 0
                      then needLen + 1 else needLen)
      in (needLen', roundDown))"

definition RightShiftHelper :: "bigint \<Rightarrow> bigint \<Rightarrow> bigint result" where
  "RightShiftHelper x y =
     (let neg = sign x in
      if GetLength y > 1 \<or> unat (GetDigit y 0) > MAXBITS then ReturnIfRightShiftOverMax neg
      else
        let moveNum = unat (GetDigit y 0);
            digitMove = moveNum div DATEBITS;
            bitsMove = moveNum mod DATEBITS
        in if GetLength x \<le> digitMove then ReturnIfRightShiftOverMax neg
           else
             let needLen = GetLength x - digitMove;
                 (needLen', roundDown) =
                   (if neg then JudgeRoundDown x digitMove bitsMove needLen else (needLen, False))
             in bind_result (CreateBigint needLen') (\<lambda>b.
                bind_result (RightTruncate (RightShift b x digitMove bitsMove)) (\<lambda>b'.
                if neg then
                  (if roundDown then BitwiseAddOne (b'\<lparr>sign := True\<rparr>) else Inr (b'\<lparr>sign := True\<rparr>))
                else Inr b')))"

text \<open>The bit loop of \<open>LeftShiftHelper\<close> and \<open>FormatLeftShift\<close>, with the digits and the carry out.\<close>

fun lshift_loop :: "nat \<Rightarrow> u32 list \<Rightarrow> u32 \<Rightarrow> u32 list \<times> u32" where
  "lshift_loop bitsMove [] carry = ([], carry)"
| "lshift_loop bitsMove (value # vs) carry =
     (let (ds, c) = lshift_loop bitsMove vs (drop_bit (DATEBITS - bitsMove) value)
      in ((push_bit bitsMove value OR carry) # ds, c))"

definition LeftShiftHelper :: "bigint \<Rightarrow> bigint \<Rightarrow> bigint result" where
  "LeftShiftHelper x y =
     (if IsZero x then Inr x
      else
        let moveNum = unat (GetDigit y 0);
            digitMove = moveNum div DATEBITS;
            bitsMove = moveNum mod DATEBITS;
            needLen = digitMove + GetLength x + (if bitsMove \<noteq> 0 then 1 else 0)
        in bind_result (CreateBigint needLen) (\<lambda>b.
             let zeros = take digitMove (digits b);
                 ds = (if bitsMove = 0 then zeros @ digits x
                       else let (moved, carry) = lshift_loop bitsMove (digits x) 0;
                                low = zeros @ moved
                            in if carry \<noteq> 0 then low @ [carry]
                               else low @ drop (length low) (digits b))
             in RightTruncate (b\<lparr>digits := ds, sign := sign x\<rparr>)))"

definition SignedRightShift :: "bigint \<Rightarrow> bigint \<Rightarrow> bigint result" where
  "SignedRightShift x y =
     (if IsZero x \<or> IsZero y then Inr x
      else if sign y then LeftShiftHelper x y else RightShiftHelper x y)"

definition LeftShift :: "bigint \<Rightarrow> bigint \<Rightarrow> bigint result" where
  "LeftShift x y = (if sign y then RightShiftHelper x y else LeftShiftHelper x y)"

definition UnsignedRightShift :: "bigint result" where
  "UnsignedRightShift = Inl (TypeError ''BigInt have no unsigned right shift, use >> instead'')"

section \<open>Digits under a shift\<close>

lemma or_low_bits: "c < 2 ^ k \<Longrightarrow> (2 ^ k * a) OR c = 2 ^ k * a + c" for a c :: nat
proof -
  assume "c < 2 ^ k"
  then have "take_bit k c = c" by (simp add: take_bit_nat_eq_self_iff)
  then have "push_bit k a AND c = push_bit k a AND take_bit k c" by simp
  also have "\<dots> = 0" by (rule bit_eqI) (auto simp: bit_simps)
  finally have "push_bit k a AND c = 0" .
  then have "push_bit k a + c = push_bit k a OR c" by (rule disjunctive_add_eq_or)
  then show ?thesis by (simp add: push_bit_eq_mult mult.commute)
qed

lemma unat_shl_or:
  fixes v c :: u32
  assumes "k \<le> 32" and "unat c < 2 ^ k"
  shows "unat (push_bit k v OR c) = 2 ^ k * (unat v mod 2 ^ (32 - k)) + unat c"
proof -
  have "unat (push_bit k v) = push_bit k (take_bit (32 - k) (unat v))"
    using assms(1) by (simp only: unsigned_push_bit_eq take_bit_push_bit) simp
  also have "\<dots> = 2 ^ k * (unat v mod 2 ^ (32 - k))"
    by (simp only: push_bit_eq_mult take_bit_eq_mod mult.commute)
  finally have "unat (push_bit k v OR c) = (2 ^ k * (unat v mod 2 ^ (32 - k))) OR unat c"
    by (simp only: unsigned_or_eq)
  then show ?thesis using or_low_bits [OF assms(2)] by simp
qed

lemma unat_shr: "unat (drop_bit k v) = unat v div 2 ^ k" for v :: u32
  unfolding unat_drop_bit_eq by (rule drop_bit_eq_div)

lemma pow32_split: "k \<le> 32 \<Longrightarrow> (2 :: nat) ^ k * 2 ^ (32 - k) = 4294967296"
  by (simp add: power_add [symmetric])

lemma pow32_split': "k \<le> 32 \<Longrightarrow> (2 :: nat) ^ (32 - k) * 2 ^ k = 4294967296"
  by (simp add: power_add [symmetric])

lemma mult_split: "p * q = n \<Longrightarrow> p * u = p * (u mod q) + n * (u div q)" for p q n u :: nat
proof -
  assume "p * q = n"
  have "p * u = p * (u mod q + q * (u div q))" by simp
  also have "\<dots> = p * (u mod q) + (p * q) * (u div q)" by (simp only: algebra_simps)
  finally show ?thesis unfolding \<open>p * q = n\<close> .
qed

lemma dval_rshift_loop:
  "b \<le> 32 \<Longrightarrow> unat c < 2 ^ (32 - b) \<Longrightarrow>
   dval (rshift_loop b vs c) = unat c + 2 ^ (32 - b) * dval vs"
proof (induction b vs c rule: rshift_loop.induct)
  case (2 b v vs c)
  have next_lt: "unat (drop_bit b v) < 2 ^ (32 - b)"
    using word32_bound [of v] pow32_split [OF "2.prems"(1)]
    by (simp add: unat_shr less_mult_imp_div_less mult.commute)
  have "unat (push_bit (32 - b) v OR c) = 2 ^ (32 - b) * (unat v mod 2 ^ b) + unat c"
    using unat_shl_or [of "32 - b" c v] "2.prems" by simp
  moreover have "2 ^ (32 - b) * unat v = 2 ^ (32 - b) * (unat v mod 2 ^ b)
      + 4294967296 * (unat v div 2 ^ b)"
    by (rule mult_split [OF pow32_split' [OF "2.prems"(1)]])
  ultimately show ?case
    using "2.IH" [OF "2.prems"(1) next_lt] by (simp add: unat_shr algebra_simps)
qed simp

lemma length_rshift_loop [simp]: "length (rshift_loop b vs c) = length vs + 1"
  by (induction b vs c rule: rshift_loop.induct) simp_all

lemma lshift_loop_val:
  "b \<le> 32 \<Longrightarrow> unat c < 2 ^ b \<Longrightarrow> lshift_loop b vs c = (ds, c') \<Longrightarrow>
   length ds = length vs \<and> unat c' < 2 ^ b
   \<and> dval ds + 4294967296 ^ length vs * unat c' = 2 ^ b * dval vs + unat c"
proof (induction b vs c arbitrary: ds c' rule: lshift_loop.induct)
  case (2 b v vs c)
  obtain es where ds: "ds = (push_bit b v OR c) # es"
    and rec: "lshift_loop b vs (drop_bit (32 - b) v) = (es, c')"
    using "2.prems"(3) by (auto split: prod.splits)
  have next_lt: "unat (drop_bit (32 - b) v) < 2 ^ b"
    using word32_bound [of v] pow32_split [OF "2.prems"(1)]
    by (simp add: unat_shr less_mult_imp_div_less mult.commute)
  have IH: "length es = length vs \<and> unat c' < 2 ^ b
      \<and> dval es + 4294967296 ^ length vs * unat c' = 2 ^ b * dval vs + unat v div 2 ^ (32 - b)"
    using "2.IH" [OF "2.prems"(1)] next_lt rec by (simp add: unat_shr)
  have "2 ^ b * unat v = 2 ^ b * (unat v mod 2 ^ (32 - b)) + 4294967296 * (unat v div 2 ^ (32 - b))"
    by (rule mult_split [OF pow32_split [OF "2.prems"(1)]])
  with IH show ?case
    using unat_shl_or [OF "2.prems"(1,2), of v] by (simp add: ds algebra_simps)
qed simp

lemma dval_drop: "dval (drop n ds) = dval ds div 4294967296 ^ n" if "n \<le> length ds"
proof -
  have "dval ds = dval (take n ds) + 4294967296 ^ n * dval (drop n ds)"
    using that dval_append [of "take n ds" "drop n ds"] by simp
  then show ?thesis using dval_take_bound [of n ds] by simp
qed

lemma dval_mod: "dval ds mod 4294967296 ^ n = dval (take n ds)" if "n \<le> length ds"
proof -
  have "dval ds = dval (take n ds) + 4294967296 ^ n * dval (drop n ds)"
    using that dval_append [of "take n ds" "drop n ds"] by simp
  then show ?thesis using dval_take_bound [of n ds] by simp
qed

lemma pow_digits: "(4294967296 :: nat) ^ n = 2 ^ (32 * n)"
  by (simp add: power_mult)

section \<open>Right shift is division rounding towards minus infinity\<close>

lemma minus_one_bigint [simp]: "Int32ToBigInt (- 1) = Inr \<lparr>sign = True, digits = [1]\<rparr>"
  by (simp add: Int32ToBigInt_def CreateBigint_cases Let_def word_sless_alt)

lemma pow_move: "(2 :: nat) ^ n = 4294967296 ^ (n div 32) * 2 ^ (n mod 32)"
  by (simp add: pow_digits power_add [symmetric])

lemma digit_low_bits: "unat (v AND (push_bit k 1 - 1)) = unat v mod 2 ^ k" for v :: u32
proof -
  have "v AND (push_bit k 1 - 1) = take_bit k v"
    by (simp only: take_bit_eq_mask mask_eq_exp_minus_1 push_bit_of_1)
  moreover have "unat (take_bit k v) = unat v mod 2 ^ k"
    unfolding unsigned_take_bit_eq by (rule take_bit_eq_mod)
  ultimately show ?thesis by simp
qed

lemma dval_mod_low: "k \<le> 32 \<Longrightarrow> dval (v # vs) mod 2 ^ k = unat v mod 2 ^ k"
proof -
  assume k: "k \<le> 32"
  have "4294967296 * dval vs = 2 ^ k * (2 ^ (32 - k) * dval vs)"
    using pow32_split [OF k] by (simp only: mult.assoc [symmetric])
  then show ?thesis by (simp only: dval.simps mod_mult_self2)
qed

lemma dval_div_low: "k \<le> 32 \<Longrightarrow> dval (v # vs) div 2 ^ k = unat v div 2 ^ k + 2 ^ (32 - k) * dval vs"
proof -
  assume k: "k \<le> 32"
  have "4294967296 * dval vs = 2 ^ k * (2 ^ (32 - k) * dval vs)"
    using pow32_split [OF k] by (simp only: mult.assoc [symmetric])
  then show ?thesis by (simp only: dval.simps) (simp add: div_mult_self2 add.commute)
qed

lemma RightShift_mag:
  assumes "n div 32 < length (digits x)"
    and "length (digits b) = m" and "length (digits x) - n div 32 \<le> m"
    and "dval (drop (length (digits x) - n div 32) (digits b)) = 0"
  shows "dval (digits (RightShift b x (n div 32) (n mod 32))) = bmag x div 2 ^ n"
    and "length (digits (RightShift b x (n div 32) (n mod 32))) = m"
    and "sign (RightShift b x (n div 32) (n mod 32)) = sign b"
proof -
  define ds where "ds = drop (n div 32) (digits x)"
  obtain v vs where vs: "ds = v # vs" using assms(1) by (cases ds) (auto simp: ds_def)
  define moved where "moved = (if n mod 32 = 0 then ds else rshift_loop (n mod 32) vs (drop_bit (n mod 32) v))"
  have R: "RightShift b x (n div 32) (n mod 32) = b\<lparr>digits := moved @ drop (length moved) (digits b)\<rparr>"
    by (simp add: RightShift_def Let_def moved_def ds_def [symmetric] vs)
  have len: "length moved = length (digits x) - n div 32"
    using vs by (auto simp: moved_def ds_def dest: arg_cong [of _ _ length])
  have "unat (drop_bit (n mod 32) v) < 2 ^ (32 - n mod 32)"
    using word32_bound [of v] pow32_split [of "n mod 32"]
    by (simp add: unat_shr less_mult_imp_div_less mult.commute)
  then have "dval moved = dval ds div 2 ^ (n mod 32)"
    using dval_div_low [of "n mod 32" v vs]
    by (simp add: moved_def vs dval_rshift_loop unat_shr)
  also have "\<dots> = bmag x div 2 ^ n"
    using assms(1) by (simp add: ds_def dval_drop bmag_def pow_move [of n] div_mult2_eq)
  finally have val: "dval moved = bmag x div 2 ^ n" .
  show "dval (digits (RightShift b x (n div 32) (n mod 32))) = bmag x div 2 ^ n"
    unfolding R by (simp add: dval_append assms(4) len val)
  show "length (digits (RightShift b x (n div 32) (n mod 32))) = m"
    unfolding R using len assms by simp
  show "sign (RightShift b x (n div 32) (n mod 32)) = sign b"
    unfolding R by simp
qed

lemma JudgeRoundDown_mod:
  assumes "n div 32 < length (digits x)"
  shows "snd (JudgeRoundDown x (n div 32) (n mod 32) m) \<longleftrightarrow> bmag x mod 2 ^ n \<noteq> 0"
proof -
  define d where "d = n div 32"
  have low: "(\<exists>i \<in> {0..<d}. GetDigit x i \<noteq> 0) \<longleftrightarrow> dval (take d (digits x)) \<noteq> 0"
    using assms by (auto simp: dval_eq_0_iff d_def)
  have "bmag x mod 2 ^ n = 4294967296 ^ d * (dval (drop d (digits x)) mod 2 ^ (n mod 32))
      + dval (take d (digits x))"
    using assms unfolding pow_move [of n] d_def
    by (simp add: mod_mult2_eq bmag_def dval_drop dval_mod)
  moreover have "dval (drop d (digits x)) mod 2 ^ (n mod 32) = unat (GetDigit x d) mod 2 ^ (n mod 32)"
    using assms dval_mod_low [of "n mod 32" "digits x ! d" "drop (Suc d) (digits x)"]
    by (simp add: Cons_nth_drop_Suc d_def)
  moreover have "GetDigit x d AND (push_bit (n mod 32) 1 - 1) \<noteq> 0
      \<longleftrightarrow> unat (GetDigit x d) mod 2 ^ (n mod 32) \<noteq> 0"
    using digit_low_bits [of "GetDigit x d" "n mod 32"] by (metis unat_eq_zero)
  ultimately show ?thesis
    using low unfolding JudgeRoundDown_def Let_def snd_conv d_def by simp
qed

lemma wf_sign_mag: "bigint_wf x \<Longrightarrow> sign x \<Longrightarrow> bmag x \<noteq> 0"
proof -
  assume "bigint_wf x" and "sign x"
  then have "bval x < 0" using sign_bval by blast
  then show ?thesis by (auto simp: bval_def split: if_splits)
qed

lemma wf_nonneg: "bigint_wf x \<Longrightarrow> 0 \<le> bval x \<Longrightarrow> \<not> sign x"
  using sign_bval by fastforce

lemma if_swap: "a = (if z then p else q) \<Longrightarrow> d = d' \<Longrightarrow>
  (if s then a else d) = (if s then (if \<not> z then q else p) else d')"
  by simp

lemma floor_shift:
  assumes "bigint_wf x"
  shows "bval x div 2 ^ n = (if sign x then (if bmag x mod 2 ^ n \<noteq> 0 then - int (bmag x div 2 ^ n) - 1
            else - int (bmag x div 2 ^ n)) else int (bmag x div 2 ^ n))"
proof -
  have "- int (bmag x) div 2 ^ n = (if int (bmag x) mod 2 ^ n = 0 then - (int (bmag x) div 2 ^ n)
      else - (int (bmag x) div 2 ^ n) - 1)"
    by (rule zdiv_zminus1_eq_if) simp
  moreover have div: "int (bmag x) div 2 ^ n = int (bmag x div 2 ^ n)"
    and "int (bmag x) mod 2 ^ n = int (bmag x mod 2 ^ n)"
    by (simp_all only: zdiv_int zmod_int of_nat_power of_nat_numeral)
  ultimately have "- int (bmag x) div 2 ^ n = (if bmag x mod 2 ^ n = 0 then - int (bmag x div 2 ^ n)
      else - int (bmag x div 2 ^ n) - 1)"
    by (simp only: of_nat_eq_0_iff)
  then show ?thesis
    unfolding bval_def if_distrib [of "\<lambda>v. v div 2 ^ n"] by (rule if_swap) (rule div)
qed

lemma shift_all_out:
  assumes "bigint_wf x" and "bmag x < 2 ^ n"
  shows "returns (ReturnIfRightShiftOverMax (sign x)) (bval x div 2 ^ n)"
proof -
  have "bmag x \<noteq> 0" if "sign x" using that wf_sign_mag [OF assms(1)] by blast
  then show ?thesis
    using floor_shift [OF assms(1), of n] assms(2)
    by (auto simp: ReturnIfRightShiftOverMax_def returns_def bigint_wf_def bval_def bmag_def)
qed

lemma JudgeRoundDown_len:
  assumes "JudgeRoundDown x d b m = (m', r)" and "d < length (digits x)"
    and "m = length (digits x) - d"
  shows "m \<le> m' \<and> m' \<le> length (digits x)"
proof -
  have "0 < d" if "r" and "b = 0"
    using assms(1) that by (cases d) (simp_all add: JudgeRoundDown_def Let_def)
  then show ?thesis
    using assms by (auto simp: JudgeRoundDown_def Let_def split: if_splits)
qed

lemma RightShiftHelper_shift:
  assumes x: "bigint_wf x" and y: "GetLength y \<le> 1" "unat (GetDigit y 0) = n" "n \<le> MAXBITS"
    and n: "n div 32 < length (digits x)"
  shows "returns (RightShiftHelper x y) (bval x div 2 ^ n)"
proof -
  define m where "m = length (digits x) - n div 32"
  obtain m' r where J: "(if sign x then JudgeRoundDown x (n div 32) (n mod 32) m else (m, False)) = (m', r)"
    by (meson surj_pair)
  have m': "m \<le> m'" "m' \<le> MAXSIZE" "0 < m'"
    using J n JudgeRoundDown_len [of x "n div 32" "n mod 32" m m' r] wf_length [OF x]
    by (auto simp: m_def split: if_splits)
  have r: "r \<longleftrightarrow> sign x \<and> bmag x mod 2 ^ n \<noteq> 0"
    using J JudgeRoundDown_mod [OF n, of m] by (auto split: if_splits)
  define s where "s = RightShift (NewBigInt m') x (n div 32) (n mod 32)"
  have s: "dval (digits s) = bmag x div 2 ^ n" "length (digits s) = m'" "\<not> sign s"
    unfolding s_def using RightShift_mag [of n x "NewBigInt m'" m'] n m' by (simp_all add: NewBigInt_def m_def)
  have H: "RightShiftHelper x y = bind_result (RightTruncate s) (\<lambda>b'. if sign x then
      (if r then BitwiseAddOne (b'\<lparr>sign := True\<rparr>) else Inr (b'\<lparr>sign := True\<rparr>)) else Inr b')"
    using y n m' J
    by (cases "sign x") (simp_all add: RightShiftHelper_def Let_def CreateBigint_def s_def m_def)
  obtain z where z: "RightTruncate s = Inr z" "bigint_wf z" "bmag z = bmag x div 2 ^ n" "\<not> sign z"
  proof -
    have "digits s \<noteq> []" "length (digits s) \<le> MAXSIZE" using s(2) m' by auto
    from RightTruncate_ok [OF this] obtain z
      where z: "RightTruncate s = Inr z" "bigint_wf z" "bval z = bval s" "bmag z = bmag s" by blast
    have "0 \<le> bval z" unfolding z(3) using s(3) by (simp add: bval_def)
    with z(2) have "\<not> sign z" by (rule wf_nonneg)
    moreover have "bmag z = bmag x div 2 ^ n" unfolding z(4) using s(1) by (simp only: bmag_def)
    ultimately show ?thesis using that [OF z(1,2)] by blast
  qed
  show ?thesis
  proof (cases r)
    case True
    have "bmag x = 2 ^ n * bmag z + bmag x mod 2 ^ n" using z(3) by simp
    moreover have "bmag z \<le> 2 ^ n * bmag z" by simp
    ultimately have "bmag z + 1 \<le> bmag x" using True r by linarith
    then have "fits (int (bmag z) + 1)" using wf_fits [OF x] by (simp add: fits_def bval_def split: if_splits)
    then have "returns (BitwiseAddOne z) (- (int (bmag z) + 1))"
      using BitwiseAddOne_ok [OF z(2)] by simp
    moreover have "BitwiseAddOne (z\<lparr>sign := True\<rparr>) = BitwiseAddOne z"
      by (simp add: BitwiseAddOne_def)
    moreover have "bval x div 2 ^ n = - (int (bmag z) + 1)"
      using floor_shift [OF x, of n] True r z(3) by simp
    ultimately show ?thesis using H True r z(1) by simp
  next
    case False
    have "bval z \<noteq> 0" if "sign x"
    proof -
      have "bmag x \<noteq> 0" using that wf_sign_mag [OF x] by blast
      moreover have "bmag x mod 2 ^ n = 0" using that r False by simp
      ultimately show ?thesis using z(3,4) by (auto simp: bval_def)
    qed
    then show ?thesis
      using H False r z floor_shift [OF x, of n] set_sign_ok [OF z(2), of True]
      by (cases "sign x") (auto simp: returns_def bval_def bmag_def signed_mag_def)
  qed
qed

lemma RightShiftHelper_ok:
  assumes x: "bigint_wf x" and y: "bigint_wf y"
  shows "returns (RightShiftHelper x y) (bval x div 2 ^ bmag y)"
proof -
  define n where "n = unat (GetDigit y 0)"
  have all_out: "bmag x < 2 ^ k" if "32 * GetLength x \<le> k" for k
  proof -
    have "bmag x < 2 ^ (32 * GetLength x)"
      using dval_bound [of "digits x"] by (simp add: bmag_def pow_digits)
    also have "\<dots> \<le> 2 ^ k" using that by (intro power_increasing) simp_all
    finally show ?thesis .
  qed
  consider (long) "GetLength y > 1 \<or> n > MAXBITS"
    | (out) "GetLength y \<le> 1" "n \<le> MAXBITS" "GetLength x \<le> n div 32"
    | (shift) "GetLength y \<le> 1" "n \<le> MAXBITS" "n div 32 < GetLength x"
    by linarith
  then show ?thesis
  proof cases
    case long
    have "MAXBITS \<le> bmag y"
    proof (cases "GetLength y > 1")
      case True
      then show ?thesis using wf_mag_ge [OF y] by (simp add: MAXBITS_def)
    next
      case False
      then have "GetLength y = 1" using wf_nonempty [OF y] by (cases "digits y") simp_all
      then have "bmag y = n" using dval_single [of "digits y"] by (simp add: bmag_def n_def)
      then show ?thesis using long False by simp
    qed
    then have "32 * GetLength x \<le> bmag y" using wf_length [OF x] by (simp add: MAXBITS_def)
    then show ?thesis
      using long shift_all_out [OF x all_out] by (auto simp: RightShiftHelper_def n_def)
  next
    case out
    have n: "bmag y = n"
      using out(1) y dval_single [of "digits y"]
      by (simp add: bmag_def n_def wf_nonempty le_Suc_eq)
    then have "32 * GetLength x \<le> bmag y" using out(3) by simp
    then show ?thesis
      using out shift_all_out [OF x all_out] by (auto simp: RightShiftHelper_def n_def Let_def)
  next
    case shift
    have n: "bmag y = n"
      using shift(1) y dval_single [of "digits y"]
      by (simp add: bmag_def n_def wf_nonempty le_Suc_eq)
    show ?thesis unfolding n using shift RightShiftHelper_shift [OF x] by (simp add: n_def)
  qed
qed

section \<open>Left shift is multiplication by a power of two\<close>

lemma lshift_digits_val:
  assumes "lshift_loop b ds 0 = (moved, carry)" and "b \<le> 32"
  shows "dval (replicate d 0 @ moved @ [carry]) = dval ds * 2 ^ (32 * d + b)"
    and "length moved = length ds"
proof -
  have *: "length moved = length ds \<and> dval moved + 4294967296 ^ length ds * unat carry = 2 ^ b * dval ds"
    using lshift_loop_val [OF assms(2) _ assms(1)] by simp
  then show "length moved = length ds" by simp
  have "dval (replicate d 0 @ moved @ [carry])
      = 4294967296 ^ d * (dval moved + 4294967296 ^ length ds * unat carry)"
    using * by (simp add: dval_append)
  also have "\<dots> = dval ds * 2 ^ (32 * d + b)"
    using * by (simp add: pow_digits power_add)
  finally show "dval (replicate d 0 @ moved @ [carry]) = dval ds * 2 ^ (32 * d + b)" .
qed

definition shift_length :: "bigint \<Rightarrow> nat \<Rightarrow> nat" where
  "shift_length x n = n div 32 + GetLength x + (if n mod 32 \<noteq> 0 then 1 else 0)"

lemma bval_mult_mag: "bval \<lparr>sign = sign x, digits = ds\<rparr> = bval x * 2 ^ n" if "dval ds = bmag x * 2 ^ n"
  using that by (simp add: bval_def bmag_def)

lemma LeftShiftHelper_ok:
  assumes x: "bigint_wf x" and n: "n = unat (GetDigit y 0)"
  shows "if IsZero x \<or> shift_length x n \<le> MAXSIZE then returns (LeftShiftHelper x y) (bval x * 2 ^ n)
    else LeftShiftHelper x y = Inl size_exceeded"
proof -
  define d b where "d = n div 32" and "b = n mod 32"
  have n32: "32 * d + b = n" by (simp add: d_def b_def)
  obtain moved carry where L: "lshift_loop b (digits x) 0 = (moved, carry)" by (meson surj_pair)
  define ds where "ds = (if b = 0 then replicate d 0 @ digits x else replicate d 0 @ moved @ [carry])"
  have b: "b \<le> 32" by (simp add: b_def)
  have val: "dval ds = bmag x * 2 ^ n"
    using lshift_digits_val(1) [OF L b, of d] n32
    by (cases "b = 0") (simp_all add: ds_def dval_append bmag_def pow_digits)
  have len: "length ds = shift_length x n"
    using lshift_digits_val(2) [OF L b] by (simp add: ds_def shift_length_def d_def b_def)
  have H: "LeftShiftHelper x y = RightTruncate \<lparr>sign = sign x, digits = ds\<rparr>"
    if "\<not> IsZero x" and "shift_length x n \<le> MAXSIZE"
    using that L lshift_digits_val(2) [OF L b] replicate_Suc [of 0 "0 :: u32"]
    by (auto simp: LeftShiftHelper_def CreateBigint_cases Let_def ds_def shift_length_def d_def b_def
        n [symmetric, simplified] simp flip: replicate_Suc)
  show ?thesis
  proof (cases "IsZero x")
    case True
    then have "bval x = 0" using bmag_zero_iff [OF x] by (simp add: bval_def)
    with True x show ?thesis by (simp add: LeftShiftHelper_def returns_def)
  next
    case False
    have "ds \<noteq> []" using wf_nonempty [OF x] by (simp add: ds_def)
    then have "returns (RightTruncate \<lparr>sign = sign x, digits = ds\<rparr>) (bval x * 2 ^ n)"
      if "shift_length x n \<le> MAXSIZE"
      using that len val bval_mult_mag by (intro returns_RightTruncate) auto
    then show ?thesis
      using False H
      by (auto simp: LeftShiftHelper_def CreateBigint_cases Let_def shift_length_def n)
  qed
qed

lemma one_digit_mag: "bigint_wf y \<Longrightarrow> GetLength y = 1 \<Longrightarrow> unat (GetDigit y 0) = bmag y"
  using dval_single [of "digits y"] by (simp add: bmag_def)

end
