(* ===== verification/BigInt_Div.thy ===== *)
theory BigInt_Div
  imports BigInt_Shift "HOL-Library.Signed_Division"
begin

text \<open>
  Division of \<open>ecmascript/js_bigint.cpp\<close>: the 2-by-1 division of machine words by half words, the
  long division of digit arrays (algorithm D of the second volume of The Art of Computer
  Programming), \<open>Divide\<close>, \<open>Remainder\<close> and \<open>FloorMod\<close>.  A null or non-null \<open>remainder\<close> handle is the
  flag \<open>wantRemainder\<close>, and the two handles the source updates are returned as options.
\<close>

section \<open>Definitions\<close>

text \<open>\<open>base::CountLeadingZeros\<close>; the whole width for zero.\<close>

fun clz_from :: "'a::len word \<Rightarrow> nat \<Rightarrow> nat" where
  "clz_from value 0 = 0"
| "clz_from value (Suc i) = (if bit value i then 0 else Suc (clz_from value i))"

definition CountLeadingZeros :: "'a::len word \<Rightarrow> nat" where
  "CountLeadingZeros value = clz_from value LENGTH('a)"

text \<open>The two correction loops of \<open>DivideAndRemainder\<close> differ only in the operands.\<close>

function quotient_loop :: "u32 \<Rightarrow> u32 \<Rightarrow> u32 \<Rightarrow> u32 \<Rightarrow> u32 \<Rightarrow> u32" where
  "quotient_loop highDivisor lowDivisor lowDividend quot tempRemainder =
     (if quot \<ge> HALFUINT32VALUE \<or>
         quot * lowDivisor > tempRemainder * HALFUINT32VALUE + lowDividend
      then let quot' = quot - 1; tempRemainder' = tempRemainder + highDivisor in
           if tempRemainder' \<ge> HALFUINT32VALUE then quot'
           else quotient_loop highDivisor lowDivisor lowDividend quot' tempRemainder'
      else quot)"
  by pat_completeness auto
termination
proof (relation "measure (\<lambda>(hd, ld, low, q, r). unat q)")
  fix hd ld low q r q' r' :: u32
  assume "q \<ge> HALFUINT32VALUE \<or> q * ld > r * HALFUINT32VALUE + low" and "q' = q - 1"
  then have "q \<noteq> 0" by (auto simp: HALFUINT32VALUE_def)
  then have "unat q' < unat q"
    using \<open>q' = q - 1\<close> by (metis word_less_sub1 word_neq_0_conv word_less_nat_alt measure_unat)
  then show "((hd, ld, low, q', r'), hd, ld, low, q, r) \<in> measure (\<lambda>(hd, ld, low, q, r). unat q)"
    by simp
qed simp

declare quotient_loop.simps [simp del]

text \<open>The result is the quotient and the reference parameter \<open>remainder\<close>.\<close>

definition DivideAndRemainder :: "u32 \<Rightarrow> u32 \<Rightarrow> u32 \<Rightarrow> u32 \<times> u32" where
  "DivideAndRemainder highBit lowBit divisor0 =
     (let leadingZeros = CountLeadingZeros divisor0;
          divisor = push_bit leadingZeros divisor0;
          lowDividend = push_bit leadingZeros lowBit;
          highDividend = (if leadingZeros \<noteq> 0
            then push_bit leadingZeros highBit OR drop_bit (DATEBITS - leadingZeros) lowBit
            else highBit);
          highDivisor = drop_bit HALFDATEBITS divisor;
          lowDivisor = divisor AND HALFDATEMASK;
          lowDividend1 = drop_bit HALFDATEBITS lowDividend;
          lowDividend2 = lowDividend AND HALFDATEMASK;
          highQuotient0 = highDividend div highDivisor;
          tempRemainder0 = highDividend - highQuotient0 * highDivisor;
          highQuotient = quotient_loop highDivisor lowDivisor lowDividend1 highQuotient0 tempRemainder0;
          tempLowDividend = highDividend * HALFUINT32VALUE + lowDividend1 - highQuotient * divisor;
          lowQuotient0 = tempLowDividend div highDivisor;
          tempRemainder = tempLowDividend - lowQuotient0 * highDivisor;
          lowQuotient = quotient_loop highDivisor lowDivisor lowDividend2 lowQuotient0 tempRemainder;
          remainder = drop_bit leadingZeros
            (tempLowDividend * HALFUINT32VALUE + lowDividend2 - lowQuotient * divisor)
      in (highQuotient * HALFUINT32VALUE + lowQuotient, remainder))"

definition FormatLeftShift :: "nat \<Rightarrow> bigint \<Rightarrow> bool \<Rightarrow> bigint result" where
  "FormatLeftShift shift b neeedAddOne =
     (if \<not> neeedAddOne \<and> shift = 0 then Inr b
      else
        let len = GetLength b;
            needLen = (if neeedAddOne then len + 1 else len)
        in bind_result (CreateBigint needLen) (\<lambda>res.
             if shift = 0 then
               Inr (res\<lparr>digits := digits b @ drop len (digits res)\<rparr>)
             else
               let (moved, carry) = lshift_loop shift (digits b) 0;
                   ds = moved @ drop len (digits res)
               in Inr (res\<lparr>digits := (if carry \<noteq> 0 then ds[len := carry] else ds)\<rparr>)))"

definition UnformattedRightShift :: "bigint \<Rightarrow> nat \<Rightarrow> bigint" where
  "UnformattedRightShift b shift = RightShift b b 0 shift"

text \<open>The multiplication and the subtraction loop of \<open>SpecialMultiplyAndSub\<close>.\<close>

fun mulq_digits :: "u32 list \<Rightarrow> u32 \<Rightarrow> u32 \<Rightarrow> u32 \<Rightarrow> u32 list" where
  "mulq_digits [] q lastHigh lastCarry = [lastHigh + lastCarry]"
| "mulq_digits (value # vs) q lastHigh lastCarry =
     (let (high, value1) = Mul value q;
          (value2, carry1) = AddHelper value1 lastHigh 0;
          (value3, carry) = AddHelper value2 lastCarry carry1
      in value3 # mulq_digits vs q high carry)"

fun sub_borrow :: "u32 list \<Rightarrow> u32 list \<Rightarrow> u32 \<Rightarrow> u32 list \<times> u32" where
  "sub_borrow (x # xs) (y # ys) lastBorrow =
     (let (value1, borrow1) = SubHelper x y 0;
          (value2, borrow) = SubHelper value1 lastBorrow borrow1;
          (ds, final) = sub_borrow xs ys borrow
      in (value2 # ds, final))"
| "sub_borrow xs ys lastBorrow = ([], lastBorrow)"

text \<open>
  The digits \<open>pos .. pos + len(qv) - 1\<close> of \<open>u\<close> are replaced; returned are \<open>u\<close>, \<open>qv\<close> and whether the
  subtraction borrowed.
\<close>

definition SpecialMultiplyAndSub ::
  "u32 list \<Rightarrow> u32 list \<Rightarrow> u32 \<Rightarrow> u32 list \<Rightarrow> nat \<Rightarrow> u32 list \<times> u32 list \<times> bool" where
  "SpecialMultiplyAndSub u v q qv pos =
     (let len = length v;
          qv' = mulq_digits v q 0 0 @ drop (len + 1) qv;
          (seg, lastBorrow) = sub_borrow (take (length qv') (drop pos u)) qv' 0
      in (take pos u @ seg @ drop (pos + length qv') u, qv', lastBorrow > 0))"

fun add_carry :: "u32 list \<Rightarrow> u32 list \<Rightarrow> u32 \<Rightarrow> u32 list \<times> u32" where
  "add_carry (x # xs) (y # ys) lastCarry =
     (let (value1, carry1) = AddHelper x y 0;
          (value2, carry) = AddHelper value1 lastCarry carry1;
          (ds, final) = add_carry xs ys carry
      in (value2 # ds, final))"
| "add_carry xs ys lastCarry = ([], lastCarry)"

definition SpecialAdd :: "u32 list \<Rightarrow> u32 list \<Rightarrow> nat \<Rightarrow> u32 list \<times> u32" where
  "SpecialAdd u v pos =
     (let (seg, lastCarry) = add_carry (take (length v) (drop pos u)) v 0
      in (take pos u @ seg @ drop (pos + length v) u, lastCarry))"

text \<open>The loop of \<open>ImproveAccuracy\<close>; \<open>high\<close> and \<open>low\<close> are recomputed from \<open>q\<close> in every round.\<close>

lemma Mul_zero: "Mul 0 y = (0, 0)"
  using Mul_val [of 0 y "fst (Mul 0 y)" "snd (Mul 0 y)"]
  by (simp add: unat_eq_zero prod_eq_iff)

function ImproveAccuracy :: "u32 \<Rightarrow> u32 \<Rightarrow> u32 \<Rightarrow> u32 \<Rightarrow> u32 \<Rightarrow> u32" where
  "ImproveAccuracy vHighest vHighestNext UHighest UHighestNext q =
     (let (high, low) = Mul q vHighestNext in
      if high > UHighest \<or> (high = UHighest \<and> low > UHighestNext) then
        let q' = q - 1; UHighest' = UHighest + vHighest in
        if UHighest' < vHighest then q'
        else ImproveAccuracy vHighest vHighestNext UHighest' UHighestNext q'
      else q)"
  by pat_completeness auto
termination
proof (relation "measure (\<lambda>(v1, v2, u1, u2, q). unat q)")
  fix v1 v2 u1 u2 q q' u1' high low :: u32 and p :: "u32 \<times> u32"
  assume "p = Mul q v2" and "(high, low) = p"
    and "high > u1 \<or> (high = u1 \<and> low > u2)" and "q' = q - 1"
  then have "q \<noteq> 0" by (auto simp: Mul_zero)
  then have "unat q' < unat q"
    using \<open>q' = q - 1\<close> by (metis word_less_sub1 word_neq_0_conv word_less_nat_alt measure_unat)
  then show "((v1, v2, u1', u2, q'), v1, v2, u1, u2, q) \<in> measure (\<lambda>(v1, v2, u1, u2, q). unat q)"
    by simp
qed simp

declare ImproveAccuracy.simps [simp del]

text \<open>
  One round of the long division, for the quotient digit \<open>i\<close>: the new \<open>u\<close> and \<open>qv\<close> and the digit.
\<close>

definition divide_round ::
  "u32 list \<Rightarrow> nat \<Rightarrow> u32 list \<Rightarrow> u32 list \<Rightarrow> u32 list \<times> u32 list \<times> u32" where
  "divide_round v i u qv =
     (let divisorLen = length v;
          vHighest = v ! (divisorLen - 1);
          currentUHighest = u ! (i + divisorLen);
          (q0, r) = DivideAndRemainder currentUHighest (u ! (i + divisorLen - 1)) vHighest;
          q = (if vHighest = currentUHighest then - 1
               else ImproveAccuracy vHighest (v ! (divisorLen - 2)) r (u ! (i + divisorLen - 2)) q0);
          (u', qv', borrowed) = SpecialMultiplyAndSub u v q qv i
      in if borrowed then
           let (u'', carry) = SpecialAdd u' v i
           in (u''[i + divisorLen := u'' ! (i + divisorLen) + carry], qv', q - 1)
         else (u', qv', q))"

text \<open>The loop \<open>for i = quotientLen downto 0\<close>, with the quotient digits it stores.\<close>

fun divide_loop :: "u32 list \<Rightarrow> nat \<Rightarrow> u32 list \<Rightarrow> u32 list \<Rightarrow> u32 list \<times> u32 list" where
  "divide_loop v 0 u qv = (u, [])"
| "divide_loop v (Suc i) u qv =
     (let (u', qv', q) = divide_round v i u qv;
          (u'', qs) = divide_loop v i u' qv'
      in (u'', qs @ [q]))"

definition DivideAndRemainderWithBigintDivisor ::
  "bigint \<Rightarrow> bigint \<Rightarrow> bool \<Rightarrow> (bigint option \<times> bigint option) result" where
  "DivideAndRemainderWithBigintDivisor dividend divisor wantRemainder =
     (let divisorLen = GetLength divisor;
          quotientLen = GetLength dividend - divisorLen
      in bind_result (if wantRemainder then Inr None
                      else bind_result (CreateBigint (quotientLen + 1)) (\<lambda>b. Inr (Some b)))
        (\<lambda>quotient0.
           let leadingZeros = CountLeadingZeros (GetDigit divisor (divisorLen - 1))
           in bind_result (FormatLeftShift leadingZeros divisor False) (\<lambda>v.
              bind_result (FormatLeftShift leadingZeros dividend True) (\<lambda>u.
              bind_result (CreateBigint (divisorLen + 1)) (\<lambda>qv.
                let (u', qs) = divide_loop (digits v) (quotientLen + 1) (digits u) (digits qv)
                in Inr (map_option (\<lambda>b. b\<lparr>digits := qs\<rparr>) quotient0,
                        if wantRemainder
                        then Some (UnformattedRightShift (u\<lparr>digits := u'\<rparr>) leadingZeros)
                        else None))))))"

text \<open>The digits from the most significant one down; the quotient digits come out in digit order.\<close>

fun short_divide :: "u32 list \<Rightarrow> u32 \<Rightarrow> u32 list \<times> u32" where
  "short_divide [] divisor = ([], 0)"
| "short_divide (d # ds) divisor =
     (let (qs, r) = short_divide ds divisor;
          (q, r') = DivideAndRemainder r d divisor
      in (q # qs, r'))"

definition DivideAndRemainderWithUint32Divisor ::
  "bigint \<Rightarrow> u32 \<Rightarrow> bool \<Rightarrow> (bigint option \<times> bigint option) result" where
  "DivideAndRemainderWithUint32Divisor dividend divisor wantRemainder =
     (let (qs, r) = short_divide (digits dividend) divisor in
      if wantRemainder then
        bind_result (Uint32ToBigInt r) (\<lambda>rem. Inr (None, Some rem))
      else
        bind_result (CreateBigint (GetLength dividend)) (\<lambda>b. Inr (Some (b\<lparr>digits := qs\<rparr>), None)))"

definition Divide :: "bigint \<Rightarrow> bigint \<Rightarrow> bigint result" where
  "Divide x y =
     (if IsZero y then Inl division_by_zero
      else
        let neg = (sign x \<noteq> sign y);
            compar = AbsolutelyCompare x y
        in if compar = LESS then Int32ToBigInt 0
           else if compar = EQUAL then
             bind_result (Int32ToBigInt 1) (\<lambda>quotient. Inr (quotient\<lparr>sign := neg\<rparr>))
           else if IsUint32 y \<and> GetDigit y 0 = 1 then
             (if neg = sign x then Inr x else UnaryMinus x)
           else
             bind_result
               (if IsUint32 y then DivideAndRemainderWithUint32Divisor x (GetDigit y 0) False
                else DivideAndRemainderWithBigintDivisor x y False)
               (\<lambda>(quotient, _). RightTruncate ((the quotient)\<lparr>sign := neg\<rparr>)))"

definition Remainder :: "bigint \<Rightarrow> bigint \<Rightarrow> bigint result" where
  "Remainder n d =
     (if IsZero d then Inl division_by_zero
      else
        let compar = AbsolutelyCompare n d
        in if IsZero n \<or> compar = LESS then Inr n
           else if compar = EQUAL \<or> (IsUint32 d \<and> GetDigit d 0 = 1) then Int32ToBigInt 0
           else
             bind_result
               (if IsUint32 d then DivideAndRemainderWithUint32Divisor n (GetDigit d 0) True
                else DivideAndRemainderWithBigintDivisor n d True)
               (\<lambda>(_, remainder). RightTruncate ((the remainder)\<lparr>sign := sign n\<rparr>)))"

definition FloorMod :: "bigint \<Rightarrow> bigint \<Rightarrow> bigint result" where
  "FloorMod leftVal rightVal =
     bind_result (Remainder leftVal rightVal) (\<lambda>remainder.
       if sign leftVal \<and> \<not> IsZero remainder then Add remainder rightVal else Inr remainder)"

section \<open>Leading zeros\<close>

lemma clz_from_spec:
  "bit_lt = take_bit n (unat value) \<Longrightarrow> bit_lt \<noteq> 0 \<Longrightarrow>
   clz_from value n < n \<and> 2 ^ n \<le> 2 * (bit_lt * 2 ^ clz_from value n) \<and> bit_lt * 2 ^ clz_from value n < 2 ^ n"
proof (induction n arbitrary: bit_lt)
  case (Suc n)
  have split: "bit_lt = take_bit n (unat value) + 2 ^ n * of_bool (bit value n)"
    using Suc.prems(1) by (simp add: take_bit_Suc_from_most bit_unsigned_iff)
  show ?case
  proof (cases "bit value n")
    case True
    moreover have "take_bit n (unat value) < 2 ^ n" by simp
    ultimately show ?thesis using split by simp
  next
    case False
    then show ?thesis using split Suc.IH [of bit_lt] Suc.prems(2) by (simp add: algebra_simps)
  qed
qed simp

lemma CountLeadingZeros_spec:
  fixes v :: u32
  assumes "v \<noteq> 0"
  shows "CountLeadingZeros v < 32" and "2147483648 \<le> unat v * 2 ^ CountLeadingZeros v"
    and "unat v * 2 ^ CountLeadingZeros v < 4294967296"
proof -
  have "unat v = take_bit 32 (unat v)"
    using word32_bound [of v] by (intro sym [OF take_bit_nat_eq_self]) simp
  moreover have "unat v \<noteq> 0" using assms by (simp add: unat_eq_zero)
  ultimately have "clz_from v 32 < 32 \<and> 2 ^ 32 \<le> 2 * (unat v * 2 ^ clz_from v 32)
      \<and> unat v * 2 ^ clz_from v 32 < 2 ^ 32"
    by (rule clz_from_spec)
  then show "CountLeadingZeros v < 32" "2147483648 \<le> unat v * 2 ^ CountLeadingZeros v"
    "unat v * 2 ^ CountLeadingZeros v < 4294967296"
    by (simp_all add: CountLeadingZeros_def)
qed

section \<open>Dividing two digits by one\<close>

lemma trial_too_big:
  fixes q r n d h l low :: nat
  assumes "q * h + r = n" and "d = h * 65536 + l" and "n < d" and "low < 65536"
    and "65536 \<le> q \<or> r * 65536 + low < q * l"
  shows "(n * 65536 + low) div d < q"
proof (cases "65536 \<le> q")
  case True
  have "n * 65536 + low < 65536 * d" using assms(3,4) by linarith
  then have "(n * 65536 + low) div d < 65536" by (rule less_mult_imp_div_less)
  with True show ?thesis by simp
next
  case False
  then have "n * 65536 + low < q * d" using assms by (simp add: algebra_simps) 
  then show ?thesis by (rule less_mult_imp_div_less)
qed

lemma trial_not_small:
  fixes q r n d h l low :: nat
  assumes "q * h + r = n" and "d = h * 65536 + l" and "0 < d" and "q * l \<le> r * 65536 + low"
  shows "q \<le> (n * 65536 + low) div d"
proof -
  have "q * d \<le> n * 65536 + low" unfolding assms(1) [symmetric] assms(2) using assms(4) by (simp add: algebra_simps)
  then show ?thesis using assms(3) by (simp add: less_eq_div_iff_mult_less_eq)
qed

lemma trial_break:
  fixes q r n d h l low :: nat
  assumes "q * h + r = n" and "d = h * 65536 + l" and "n < d" and "l < 65536" and "65536 \<le> r"
  shows "q * l \<le> r * 65536 + low"
proof -
  have "q * h < 65536 * h" using assms by linarith
  then have "q < 65536" by simp
  then have "q * l \<le> 65536 * 65536" using assms(4) by (intro mult_le_mono) simp_all
  also have "\<dots> \<le> r * 65536 + low" using assms(5) by simp
  finally show ?thesis .
qed

lemma unat_HALF [simp]: "unat HALFUINT32VALUE = 65536"
  by (simp add: HALFUINT32VALUE_def HALFDATEBITS_def)

lemma unat_mult_fits: "unat a * unat b < 4294967296 \<Longrightarrow> unat (a * b) = unat a * unat b" for a b :: u32
  by (simp add: unat_word_ariths)

lemma unat_half_sum: "unat r < 65536 \<Longrightarrow> unat low < 65536 \<Longrightarrow>
    unat (r * HALFUINT32VALUE + low) = unat r * 65536 + unat low" for r low :: u32
  by (simp add: unat_word_ariths)

lemma quotient_cond:
  fixes q r l low :: u32
  assumes "unat r < 65536" and "unat low < 65536" and "unat l < 65536"
  shows "q \<ge> HALFUINT32VALUE \<or> q * l > r * HALFUINT32VALUE + low \<longleftrightarrow>
    65536 \<le> unat q \<or> unat r * 65536 + unat low < unat q * unat l"
proof (cases "65536 \<le> unat q")
  case True
  then show ?thesis by (simp add: word_le_nat_alt)
next
  case False
  have "unat q * unat l \<le> 65535 * 65535" using False assms(3) by (intro mult_le_mono) simp_all
  then have "unat (q * l) = unat q * unat l" by (intro unat_mult_fits) simp
  then show ?thesis
    using False unat_half_sum [OF assms(1,2)] by (simp add: word_le_nat_alt word_less_nat_alt)
qed

lemma quotient_loop_spec:
  fixes h l low q r :: u32 and n d :: nat
  assumes h: "32768 \<le> unat h" "unat h < 65536" and l: "unat l < 65536" and low: "unat low < 65536"
    and d: "d = unat h * 65536 + unat l" and n: "n < d"
  shows "unat r < 65536 \<Longrightarrow> unat q * unat h + unat r = n \<Longrightarrow>
    (n * 65536 + unat low) div d \<le> unat q \<Longrightarrow>
    unat (quotient_loop h l low q r) = (n * 65536 + unat low) div d"
proof (induction "unat q" arbitrary: q r rule: less_induct)
  case less
  have pos: "0 < d" using n by simp
  note cond = quotient_cond [OF less.prems(1) low l, of q]
  show ?case
  proof (cases "65536 \<le> unat q \<or> unat r * 65536 + unat low < unat q * unat l")
    case False
    then have "unat q \<le> (n * 65536 + unat low) div d"
      using trial_not_small [OF less.prems(2) d pos] by simp
    with less.prems(3) have "unat q = (n * 65536 + unat low) div d" by simp
    then show ?thesis using False cond by (simp add: quotient_loop.simps [of h l low q r])
  next
    case True
    have lt: "(n * 65536 + unat low) div d < unat q"
      by (rule trial_too_big [OF less.prems(2) d n low True])
    then have q1: "unat (q - 1) = unat q - 1" by (intro unat_minus_one) auto
    have r1: "unat (r + h) = unat r + unat h"
      using less.prems(1) h by (simp add: unat_word_ariths)
    have eq: "unat (q - 1) * unat h + unat (r + h) = n"
      using less.prems(2) lt unfolding q1 r1 by (cases "unat q") simp_all
    have ge: "(n * 65536 + unat low) div d \<le> unat (q - 1)" using lt q1 by simp
    show ?thesis
    proof (cases "65536 \<le> unat (r + h)")
      case out: True
      have "unat (q - 1) \<le> (n * 65536 + unat low) div d"
        using trial_not_small [OF eq d pos trial_break [OF eq d n l out]] .
      with ge have "unat (q - 1) = (n * 65536 + unat low) div d" by simp
      then show ?thesis
        using True cond out by (simp add: quotient_loop.simps [of h l low q r] word_le_nat_alt)
    next
      case False
      then have "unat (quotient_loop h l low (q - 1) (r + h)) = (n * 65536 + unat low) div d"
        using less.hyps [of "q - 1" "r + h"] q1 lt eq ge by simp
      then show ?thesis
        using True cond False by (simp add: quotient_loop.simps [of h l low q r] word_le_nat_alt)
    qed
  qed
qed

definition half_quotient :: "u32 \<Rightarrow> u32 \<Rightarrow> u32 \<Rightarrow> u32" where
  "half_quotient N low D =
     (let h = drop_bit 16 D in quotient_loop h (D AND mask 16) low (N div h) (N - N div h * h))"

lemma half_quotient_spec:
  fixes N low D :: u32
  assumes D: "2147483648 \<le> unat D" and N: "unat N < unat D" and low: "unat low < 65536"
  shows "unat (half_quotient N low D) = (unat N * 65536 + unat low) div unat D"
    and "unat (N * 65536 + low - half_quotient N low D * D) = (unat N * 65536 + unat low) mod unat D"
    and "unat (half_quotient N low D) < 65536"
proof -
  define h l where "h = drop_bit 16 D" and "l = D AND mask 16"
  define n d where "n = unat N" and "d = unat D"
  have h: "32768 \<le> unat h" "unat h < 65536" and l: "unat l < 65536"
    and d: "d = unat h * 65536 + unat l"
    using D word32_bound [of D] by (simp_all add: h_def l_def d_def unat_and_half unat_drop_half)
  have q0: "unat (N div h) = n div unat h" by (simp add: unat_div_distrib n_def)
  have "N - N div h * h = N mod h" by (rule minus_div_mult_eq_mod)
  then have r0: "unat (N - N div h * h) = n mod unat h" by (simp only: unat_mod_distrib n_def)
  have "(n * 65536 + unat low) div d * d \<le> n * 65536 + unat low" by simp
  then have "(n * 65536 + unat low) div d * unat h * 65536 \<le> n * 65536 + unat low"
    unfolding d by (simp add: algebra_simps)
  then have "(n * 65536 + unat low) div d * unat h \<le> n" using low by linarith
  then have ge: "(n * 65536 + unat low) div d \<le> n div unat h"
    using h(1) by (simp add: less_eq_div_iff_mult_less_eq)
  have nd: "n < d" using N by (simp add: n_def d_def)
  have "unat (quotient_loop h l low (N div h) (N - N div h * h)) = (n * 65536 + unat low) div d"
  proof (rule quotient_loop_spec [OF h l low d nd])
    have "n mod unat h < unat h" using h(1) by (intro mod_less_divisor) simp
    then show "unat (N - N div h * h) < 65536" unfolding r0 using h(2) by simp
    show "unat (N div h) * unat h + unat (N - N div h * h) = n" unfolding q0 r0 by simp
    show "(n * 65536 + unat low) div d \<le> unat (N div h)" unfolding q0 by (rule ge)
  qed
  then show quot: "unat (half_quotient N low D) = (unat N * 65536 + unat low) div unat D"
    by (simp add: half_quotient_def Let_def h_def l_def n_def d_def)
  have "n * 65536 + unat low < 65536 * d" using nd low by linarith
  then have "(n * 65536 + unat low) div d < 65536" by (rule less_mult_imp_div_less)
  then show "unat (half_quotient N low D) < 65536" unfolding quot n_def d_def .
  define a where "a = n * 65536 + unat low"
  have q: "half_quotient N low D = word_of_nat (a div d)"
    unfolding a_def n_def d_def quot [symmetric] by simp
  have "word_of_nat a = word_of_nat (a div d) * word_of_nat d + (word_of_nat (a mod d) :: u32)"
    by (metis of_nat_add of_nat_mult div_mult_mod_eq)
  moreover have "N * 65536 + low = word_of_nat a" by (simp add: a_def n_def)
  ultimately have "N * 65536 + low - half_quotient N low D * D = word_of_nat (a mod d)"
    unfolding q by (simp add: d_def)
  moreover have "a mod d < d" using nd by (intro mod_less_divisor) simp
  then have "a mod d < 4294967296" using word32_bound [of D] unfolding d_def by linarith
  ultimately show "unat (N * 65536 + low - half_quotient N low D * D)
      = (unat N * 65536 + unat low) mod unat D"
    by (simp add: unat_of_nat a_def n_def d_def)
qed

lemma align_left:
  fixes high low divisor :: u32
  assumes "high < divisor" and "s = CountLeadingZeros divisor"
    and "H = (if s \<noteq> 0 then push_bit s high OR drop_bit (32 - s) low else high)"
  shows "unat H * 4294967296 + unat (push_bit s low) = (unat high * 4294967296 + unat low) * 2 ^ s"
    and "unat (push_bit s divisor) = unat divisor * 2 ^ s"
proof -
  have "divisor \<noteq> 0" using assms(1) by auto
  note clz = CountLeadingZeros_spec [OF this, folded assms(2)]
  have s: "s \<le> 32" using clz(1) by simp
  have fits: "u < 2 ^ (32 - s)" if "u * 2 ^ s < 4294967296" for u :: nat
  proof -
    have "u * 2 ^ s < 2 ^ (32 - s) * 2 ^ s" using that pow32_split' [OF s] by simp
    then show ?thesis by simp
  qed
  show "unat (push_bit s divisor) = unat divisor * 2 ^ s"
    using unat_shl_or [OF s, of 0 divisor] fits [OF clz(3)] by simp
  have "unat high * 2 ^ s \<le> unat divisor * 2 ^ s"
    using assms(1) by (simp add: word_less_nat_alt)
  then have hi: "unat high < 2 ^ (32 - s)" using clz(3) by (intro fits) linarith
  have "unat low < 2 ^ s * 2 ^ (32 - s)" using word32_bound [of low] pow32_split [OF s] by simp
  then have "unat (drop_bit (32 - s) low) < 2 ^ s"
    unfolding unat_shr by (rule less_mult_imp_div_less)
  then have "unat (push_bit s high OR drop_bit (32 - s) low) = 2 ^ s * unat high + unat low div 2 ^ (32 - s)"
    using unat_shl_or [OF s, of "drop_bit (32 - s) low" high] hi unat_shr [of "32 - s" low] by simp
  moreover have "unat low div 4294967296 = 0" using word32_bound [of low] by simp
  ultimately have "unat H = 2 ^ s * unat high + unat low div 2 ^ (32 - s)"
    by (cases "s = 0") (simp_all add: assms(3))
  moreover have "unat (push_bit s low) = 2 ^ s * (unat low mod 2 ^ (32 - s))"
    using unat_shl_or [OF s, of 0 low] by simp
  moreover note mult_split [OF pow32_split [OF s], of "unat low"]
  ultimately show "unat H * 4294967296 + unat (push_bit s low) = (unat high * 4294967296 + unat low) * 2 ^ s"
    by (simp add: algebra_simps)
qed

lemma DivideAndRemainder_spec:
  fixes high low divisor :: u32
  assumes "high < divisor" and "DivideAndRemainder high low divisor = (q, r)"
  shows "unat q = (unat high * 4294967296 + unat low) div unat divisor"
    and "unat r = (unat high * 4294967296 + unat low) mod unat divisor"
proof -
  define s where "s = CountLeadingZeros divisor"
  define H L D where "H = (if s \<noteq> 0 then push_bit s high OR drop_bit (32 - s) low else high)"
    and "L = push_bit s low" and "D = push_bit s divisor"
  define L1 L2 where "L1 = drop_bit 16 L" and "L2 = L AND mask 16"
  define Q1 where "Q1 = half_quotient H L1 D"
  define R1 where "R1 = H * 65536 + L1 - Q1 * D"
  define Q2 where "Q2 = half_quotient R1 L2 D"
  define R2 where "R2 = R1 * 65536 + L2 - Q2 * D"
  define T where "T = unat high * 4294967296 + unat low"
  have q: "q = Q1 * 65536 + Q2" and r: "r = drop_bit s R2"
    using assms(2) unfolding DivideAndRemainder_def Let_def DATEBITS_eq half_consts half_quotient_def
      s_def H_def L_def D_def L1_def L2_def Q1_def R1_def Q2_def R2_def
    by (simp_all only: prod.inject)
  have tot: "unat H * 4294967296 + unat L = T * 2 ^ s" and D: "unat D = unat divisor * 2 ^ s"
    using align_left [OF assms(1) s_def H_def] by (simp_all add: L_def D_def T_def)
  have ne: "divisor \<noteq> 0" using assms(1) by auto
  have D31: "2147483648 \<le> unat D"
    using CountLeadingZeros_spec(2) [OF ne] by (simp add: D s_def)
  have L: "unat L = unat L1 * 65536 + unat L2" and L1: "unat L1 < 65536" and L2: "unat L2 < 65536"
    using word32_bound [of L] by (simp_all add: L1_def L2_def unat_and_half unat_drop_half)
  have "T < unat divisor * 4294967296"
    using assms(1) word32_bound [of low] unfolding T_def word_less_nat_alt by linarith
  then have "T * 2 ^ s < unat D * 4294967296" unfolding D by simp
  with tot have HD: "unat H < unat D" by linarith
  note h1 = half_quotient_spec [OF D31 HD L1, folded Q1_def, folded R1_def]
  have R1: "unat R1 < unat D" unfolding h1(2) using D31 by (intro mod_less_divisor) simp
  note h2 = half_quotient_spec [OF D31 R1 L2, folded Q2_def, folded R2_def]
  have Q: "unat q = unat Q1 * 65536 + unat Q2"
    unfolding q using h1(3) h2(3) by (simp add: unat_word_ariths)
  have e1: "unat Q1 * unat D + unat R1 = unat H * 65536 + unat L1"
    unfolding h1(1,2) by (rule div_mult_mod_eq)
  have e2: "unat Q2 * unat D + unat R2 = unat R1 * 65536 + unat L2"
    unfolding h2(1,2) by (rule div_mult_mod_eq)
  have "T * 2 ^ s = (unat Q1 * unat D + unat R1) * 65536 + unat L2"
    unfolding tot [symmetric] L e1 by simp
  also have "\<dots> = unat q * unat D + unat R2" unfolding Q using e2 by (simp add: algebra_simps)
  finally have eq: "T * 2 ^ s = unat q * unat D + unat R2" .
  have R2: "unat R2 < unat D" unfolding h2(2) using D31 by (intro mod_less_divisor) simp
  have "T * 2 ^ s div unat D = unat q" and m: "T * 2 ^ s mod unat D = unat R2"
    using eq R2 by simp_all
  then show "unat q = (unat high * 4294967296 + unat low) div unat divisor"
    unfolding D T_def [symmetric] by simp
  show "unat r = (unat high * 4294967296 + unat low) mod unat divisor"
    unfolding T_def [symmetric] r unat_shr m [symmetric] D mod_mult_mult2 by simp
qed

section \<open>Division by one digit\<close>

lemma short_divide_spec:
  assumes "divisor \<noteq> 0"
  shows "short_divide ds divisor = (qs, r) \<Longrightarrow>
    length qs = length ds \<and> dval ds = dval qs * unat divisor + unat r \<and> r < divisor"
proof (induction ds arbitrary: qs r)
  case Nil
  then show ?case using assms by (simp add: word_neq_0_conv)
next
  case (Cons d ds)
  obtain qs' r' where rec: "short_divide ds divisor = (qs', r')" by (meson surj_pair)
  obtain q r'' where D: "DivideAndRemainder r' d divisor = (q, r'')" by (meson surj_pair)
  have IH: "length qs' = length ds" "dval ds = dval qs' * unat divisor + unat r'" "r' < divisor"
    using Cons.IH [OF rec] by simp_all
  have eq: "unat q * unat divisor + unat r'' = unat r' * 4294967296 + unat d"
    unfolding DivideAndRemainder_spec [OF IH(3) D] by (rule div_mult_mod_eq)
  have "unat r'' < unat divisor"
    unfolding DivideAndRemainder_spec(2) [OF IH(3) D] using assms by (simp add: unat_gt_0)
  then show ?case
    using Cons.prems IH(1,2) eq by (auto simp: rec D word_less_nat_alt algebra_simps)
qed

section \<open>The loops of a division round\<close>

lemma length_mulq_digits [simp]: "length (mulq_digits vs q h c) = length vs + 1"
  by (induction vs q h c rule: mulq_digits.induct) (simp_all split: prod.splits)

lemma dval_mulq_digits:
  "dval vs * unat q + unat h + unat c < 4294967296 ^ (length vs + 1) \<Longrightarrow>
   dval (mulq_digits vs q h c) = dval vs * unat q + unat h + unat c"
proof (induction vs q h c rule: mulq_digits.induct)
  case (1 q h c)
  then show ?case by (simp add: unat_word_ariths)
next
  case (2 v vs q h c)
  obtain high low where M: "Mul v q = (high, low)" by (meson surj_pair)
  obtain s c1 where A1: "AddHelper low h 0 = (s, c1)" by (meson surj_pair)
  obtain s' c2 where A2: "AddHelper s c c1 = (s', c2)" by (meson surj_pair)
  have tot: "dval (v # vs) * unat q + unat h + unat c
      = unat s' + 4294967296 * (dval vs * unat q + unat high + unat c2)"
    using AddHelper_twice(1) [OF A1 A2] Mul_val [OF M] by (simp add: algebra_simps)
  then have "4294967296 * (dval vs * unat q + unat high + unat c2)
      < 4294967296 * 4294967296 ^ (length vs + 1)"
    using "2.prems" by simp
  then have "dval (mulq_digits vs q high c2) = dval vs * unat q + unat high + unat c2"
    using "2.IH" [OF M [symmetric] refl A1 [symmetric] refl A2 [symmetric] refl] by simp
  then show ?case unfolding tot by (simp add: M A1 A2)
qed

lemma sub_borrow_val:
  "sub_borrow xs ys c = (ds, b) \<Longrightarrow> length xs = length ys \<Longrightarrow> unat c \<le> 1 \<Longrightarrow>
   length ds = length xs \<and> unat b \<le> 1 \<and>
   dval ds + dval ys + unat c = dval xs + 4294967296 ^ length xs * unat b"
proof (induction xs ys c arbitrary: ds b rule: sub_borrow.induct)
  case (1 x xs y ys c)
  obtain s c1 where A1: "SubHelper x y 0 = (s, c1)" by (meson surj_pair)
  obtain s' c2 where A2: "SubHelper s c c1 = (s', c2)" by (meson surj_pair)
  obtain es where rec: "sub_borrow xs ys c2 = (es, b)" and ds: "ds = s' # es"
    using "1.prems"(1) by (auto simp: A1 A2 split: prod.splits)
  note sum = SubHelper_twice [OF A1 A2]
  have "unat c2 \<le> 1"
    using sum "1.prems"(3) word32_bound [of s'] word32_bound [of y] by linarith
  then have "length es = length xs \<and> unat b \<le> 1 \<and>
      dval es + dval ys + unat c2 = dval xs + 4294967296 ^ length xs * unat b"
    using "1.IH" [OF A1 [symmetric] refl A2 [symmetric] refl rec] "1.prems"(2) by simp
  then show ?case using sum ds by (simp add: algebra_simps)
qed simp_all

lemma add_carry_val:
  "add_carry xs ys c = (ds, b) \<Longrightarrow> length xs = length ys \<Longrightarrow> unat c \<le> 1 \<Longrightarrow>
   length ds = length xs \<and> unat b \<le> 1 \<and>
   dval ds + 4294967296 ^ length xs * unat b = dval xs + dval ys + unat c"
proof (induction xs ys c arbitrary: ds b rule: add_carry.induct)
  case (1 x xs y ys c)
  obtain s c1 where A1: "AddHelper x y 0 = (s, c1)" by (meson surj_pair)
  obtain s' c2 where A2: "AddHelper s c c1 = (s', c2)" by (meson surj_pair)
  obtain es where rec: "add_carry xs ys c2 = (es, b)" and ds: "ds = s' # es"
    using "1.prems"(1) by (auto simp: A1 A2 split: prod.splits)
  note sum = AddHelper_twice(1) [OF A1 A2]
  have "unat c2 \<le> 1"
    using sum "1.prems"(3) word32_bound [of x] word32_bound [of y] by linarith
  then have "length es = length xs \<and> unat b \<le> 1 \<and>
      dval es + 4294967296 ^ length xs * unat b = dval xs + dval ys + unat c2"
    using "1.IH" [OF A1 [symmetric] refl A2 [symmetric] refl rec] "1.prems"(2) by simp
  then show ?case using sum ds by (simp add: algebra_simps)
qed simp_all

section \<open>The trial quotient\<close>

text \<open>
  \<open>U\<close> is the part of the dividend a round looks at and \<open>vv\<close> the divisor; \<open>U3\<close> and \<open>V\<close> are their
  leading three and two digits.
\<close>

lemma trial_lower:
  fixes U U3 P ul vv V vl :: nat
  assumes "U = U3 * P + ul" and "ul < P" and "vv = V * P + vl"
  shows "U div vv * V \<le> U3"
proof -
  have "U div vv * vv \<le> U" by simp
  then have "U div vv * V * P \<le> U"
    unfolding assms(3) by (simp add: algebra_simps)
  also have "\<dots> < (U3 + 1) * P" using assms(1,2) by simp
  finally have "U div vv * V < U3 + 1" by (rule mult_right_less_imp_less) simp
  then show ?thesis by simp
qed

lemma trial_upper:
  fixes U U3 P ul vv V vl q :: nat
  assumes "U = U3 * P + ul" and "vv = V * P + vl" and "vl < P" and "q * V \<le> U3" and "q \<le> V" and "0 < vv"
  shows "q \<le> U div vv + 1"
proof (cases q)
  case (Suc k)
  have "k * V + k < q * V + 1" using assms(5) by (simp add: Suc)
  then have "k * (V + 1) \<le> U3" using assms(4) by simp
  moreover have "k * vv \<le> k * ((V + 1) * P)"
    using assms(3) unfolding assms(2) by (intro mult_le_mono2) simp
  ultimately have "k * vv \<le> U3 * P"
    by (metis (no_types, lifting) le_trans mult.assoc mult_le_mono1)
  then have "k * vv \<le> U" using assms(1) by simp
  then have "k \<le> U div vv" using assms(6) by (simp add: less_eq_div_iff_mult_less_eq)
  then show ?thesis by (simp add: Suc)
qed simp

lemma trial_max:
  fixes U U3 P ul vv V vl v1 v2 :: nat
  assumes "U = U3 * P + ul" and "vv = V * P + vl" and "vl < P" and "V = v1 * 4294967296 + v2"
    and "v2 < 4294967296" and "2147483648 \<le> v1" and "18446744073709551616 * v1 \<le> U3"
  shows "4294967295 \<le> U div vv + 1"
proof -
  have "4294967294 * (V + 1) \<le> 18446744073709551616 * v1" using assms(4-6) by simp
  then have "4294967294 * (V + 1) \<le> U3" using assms(7) by simp
  then have "4294967294 * (V + 1) * P \<le> U3 * P" by (rule mult_le_mono1)
  moreover have "vv \<le> (V + 1) * P" using assms(3) unfolding assms(2) by simp
  ultimately have "4294967294 * vv \<le> U3 * P" unfolding mult.assoc by linarith
  then have "4294967294 * vv \<le> U" using assms(1) by simp
  moreover have "0 < vv" using assms(2-4,6) by (cases P) simp_all
  ultimately have "4294967294 \<le> U div vv" by (simp add: less_eq_div_iff_mult_less_eq)
  then show ?thesis by simp
qed

lemma Mul_compare:
  assumes "Mul q v2 = (high, low)"
  shows "high > R \<or> (high = R \<and> low > u2) \<longleftrightarrow>
    unat R * 4294967296 + unat u2 < unat q * unat v2"
proof -
  have "unat q * unat v2 = unat high * 4294967296 + unat low" using Mul_val [OF assms] by simp
  then show ?thesis
    using word32_bound [of low] word32_bound [of u2]
    by (auto simp: word_less_nat_alt word_unat_eq_iff)
qed

lemma ImproveAccuracy_spec:
  fixes v1 v2 u2 R q :: u32 and N U U3 P ul vv V vl :: nat
  assumes U: "U = U3 * P + ul" "ul < P" and vv: "vv = V * P + vl" "vl < P" "0 < vv"
    and V: "V = unat v1 * 4294967296 + unat v2" "2147483648 \<le> unat v1"
    and U3: "U3 = N * 4294967296 + unat u2"
  shows "unat q * unat v1 + unat R = N \<Longrightarrow> U div vv \<le> unat q \<Longrightarrow>
    U div vv \<le> unat (ImproveAccuracy v1 v2 R u2 q) \<and> unat (ImproveAccuracy v1 v2 R u2 q) \<le> U div vv + 1"
proof (induction "unat q" arbitrary: q R rule: less_induct)
  case less
  obtain high low where M: "Mul q v2 = (high, low)" by (meson surj_pair)
  note cond = Mul_compare [OF M, of R u2]
  have accept: "unat p \<le> U div vv + 1"
    if "unat p * unat v1 + r = N" and "unat p * unat v2 \<le> r * 4294967296 + unat u2" for p :: u32 and r
  proof (rule trial_upper [OF U(1) vv(1,2) _ _ vv(3)])
    show "unat p * V \<le> U3" using that unfolding V(1) U3 by (simp add: algebra_simps)
    show "unat p \<le> V" unfolding V(1) using word32_bound [of p] V(2) by simp
  qed
  show ?case
  proof (cases "unat R * 4294967296 + unat u2 < unat q * unat v2")
    case False
    then have "ImproveAccuracy v1 v2 R u2 q = q"
      using cond by (auto simp: ImproveAccuracy.simps [of v1 v2 R u2 q] M)
    then show ?thesis using accept [OF less.prems(1)] False less.prems(2) by simp
  next
    case True
    have "U3 < unat q * V" using True less.prems(1) unfolding V(1) U3 by (simp add: algebra_simps)
    with trial_lower [OF U vv(1)] have "U div vv * V < unat q * V" by (rule le_less_trans)
    then have lt: "U div vv < unat q" by simp
    then have q1: "unat (q - 1) = unat q - 1" by (intro unat_minus_one) auto
    have eq: "unat (q - 1) * unat v1 + (unat R + unat v1) = N"
      using less.prems(1) lt unfolding q1 by (cases "unat q") simp_all
    have step: "ImproveAccuracy v1 v2 R u2 q =
        (if R + v1 < v1 then q - 1 else ImproveAccuracy v1 v2 (R + v1) u2 (q - 1))"
      using True cond by (simp add: ImproveAccuracy.simps [of v1 v2 R u2 q] M)
    have sum: "unat (R + v1) + 4294967296 * of_bool (R + v1 < v1) = unat R + unat v1"
      using unat_add_carry [of v1 R] by (simp add: add.commute)
    show ?thesis
    proof (cases "R + v1 < v1")
      case out: True
      have "unat (q - 1) * unat v2 \<le> 4294967296 * 4294967296"
        using word32_bound [of "q - 1"] word32_bound [of v2] by (intro mult_le_mono) simp_all
      also have "\<dots> \<le> (unat R + unat v1) * 4294967296 + unat u2" using sum out by simp
      finally show ?thesis using accept [OF eq] step out lt q1 by simp
    next
      case False
      then have "unat (q - 1) * unat v1 + unat (R + v1) = N" using eq sum by simp
      then show ?thesis using less.hyps [of "q - 1" "R + v1"] step False lt q1 by simp
    qed
  qed
qed

definition trial_quotient :: "u32 \<Rightarrow> u32 \<Rightarrow> u32 \<Rightarrow> u32 \<Rightarrow> u32 \<Rightarrow> u32" where
  "trial_quotient v1 v2 u1 u0 u2 =
     (let (q0, r) = DivideAndRemainder u1 u0 v1
      in if v1 = u1 then - 1 else ImproveAccuracy v1 v2 r u2 q0)"

lemma trial_quotient_spec:
  fixes v1 v2 u1 u0 u2 :: u32 and U P ul vv vl :: nat
  assumes U: "U = ((unat u1 * 4294967296 + unat u0) * 4294967296 + unat u2) * P + ul" "ul < P"
    and vv: "vv = (unat v1 * 4294967296 + unat v2) * P + vl" "vl < P"
    and v1: "2147483648 \<le> unat v1" and le: "u1 \<le> v1" and lt: "U < 4294967296 * vv"
  shows "U div vv \<le> unat (trial_quotient v1 v2 u1 u0 u2)"
    and "unat (trial_quotient v1 v2 u1 u0 u2) \<le> U div vv + 1"
proof -
  have pos: "0 < vv" using lt by (cases vv) simp_all
  have small: "U div vv < 4294967296" using lt by (rule less_mult_imp_div_less)
  have "U div vv \<le> unat (trial_quotient v1 v2 u1 u0 u2) \<and>
      unat (trial_quotient v1 v2 u1 u0 u2) \<le> U div vv + 1"
  proof (cases "v1 = u1")
    case True
    have "18446744073709551616 * unat v1 \<le> (unat u1 * 4294967296 + unat u0) * 4294967296 + unat u2"
      using True by simp
    then have "4294967295 \<le> U div vv + 1"
      by (rule trial_max [OF U(1) vv refl word32_bound v1])
    moreover have "trial_quotient v1 v2 u1 u0 u2 = - 1"
      using True by (simp add: trial_quotient_def split: prod.splits)
    moreover have "unat (- 1 :: u32) = 4294967295" using word32_max_iff by blast
    ultimately show ?thesis using small by simp
  next
    case False
    with le have u1: "u1 < v1" by simp
    obtain q0 r where D: "DivideAndRemainder u1 u0 v1 = (q0, r)" by (meson surj_pair)
    define N where "N = unat u1 * 4294967296 + unat u0"
    note spec = DivideAndRemainder_spec [OF u1 D, folded N_def]
    have "U div vv * (unat v1 * 4294967296 + unat v2) \<le> N * 4294967296 + unat u2"
      using trial_lower [OF U vv(1)] by (simp add: N_def)
    then have "(U div vv * unat v1) * 4294967296 \<le> N * 4294967296 + unat u2"
      by (simp add: algebra_simps)
    then have "U div vv * unat v1 \<le> N" using word32_bound [of u2] by linarith
    then have "U div vv \<le> unat q0"
      unfolding spec(1) using v1 by (simp add: less_eq_div_iff_mult_less_eq)
    moreover have "unat q0 * unat v1 + unat r = N" unfolding spec by (rule div_mult_mod_eq)
    ultimately show ?thesis
      using ImproveAccuracy_spec [OF U vv pos refl v1, where N = N] False
      by (simp add: N_def [symmetric] trial_quotient_def D)
  qed
  then show "U div vv \<le> unat (trial_quotient v1 v2 u1 u0 u2)"
    "unat (trial_quotient v1 v2 u1 u0 u2) \<le> U div vv + 1" by simp_all
qed

section \<open>One round of the long division\<close>

lemma dval_split_top:
  assumes "k \<le> length ds"
  shows "dval ds = dval (drop k ds) * 4294967296 ^ k + dval (take k ds)"
  using assms dval_append [of "take k ds" "drop k ds"] by simp

lemma dval_top2:
  assumes "2 \<le> length ds"
  shows "dval ds = (unat (ds ! (length ds - 1)) * 4294967296 + unat (ds ! (length ds - 2)))
      * 4294967296 ^ (length ds - 2) + dval (take (length ds - 2) ds)"
proof -
  have "drop (length ds - 2) ds = [ds ! (length ds - 2), ds ! (length ds - 1)]"
    using assms by (intro nth_equalityI) (auto simp: less_Suc_eq numeral_2_eq_2)
  then have "dval (drop (length ds - 2) ds)
      = unat (ds ! (length ds - 1)) * 4294967296 + unat (ds ! (length ds - 2))" by simp
  then show ?thesis using dval_split_top [of "length ds - 2" ds] by simp
qed

lemma dval_top3:
  assumes "3 \<le> length ds"
  shows "dval ds = ((unat (ds ! (length ds - 1)) * 4294967296 + unat (ds ! (length ds - 2))) * 4294967296
        + unat (ds ! (length ds - 3))) * 4294967296 ^ (length ds - 3) + dval (take (length ds - 3) ds)"
proof -
  have "drop (length ds - 3) ds = [ds ! (length ds - 3), ds ! (length ds - 2), ds ! (length ds - 1)]"
    using assms by (intro nth_equalityI) (auto simp: less_Suc_eq numeral_3_eq_3 numeral_2_eq_2)
  then have "dval (drop (length ds - 3) ds)
      = (unat (ds ! (length ds - 1)) * 4294967296 + unat (ds ! (length ds - 2))) * 4294967296
        + unat (ds ! (length ds - 3))" by simp
  then show ?thesis using dval_split_top [of "length ds - 3" ds] by simp
qed

text \<open>The multiplication, subtraction and addition back on the segment of \<open>n + 1\<close> digits.\<close>

lemma correct_segment:
  fixes U Q vv q B D1 D2 T :: nat
  assumes "Q = U div vv" and "Q \<le> q" and "q \<le> Q + 1" and "0 < vv" and "U < B" and "vv < B"
    and sub: "D1 + q * vv = U + B * b" and "D1 < B" and "b \<le> 1"
  shows "b = 0 \<Longrightarrow> q = Q \<and> D1 = U mod vv" and "b = 1 \<Longrightarrow> q = Q + 1 \<and> D1 + vv = U mod vv + B"
proof -
  have U: "Q * vv + U mod vv = U" unfolding assms(1) by (rule div_mult_mod_eq)
  have m: "U mod vv < vv" using assms(4) by simp
  show "q = Q \<and> D1 = U mod vv" if "b = 0"
  proof -
    have "q * vv \<le> U" using sub that by simp
    then have "q \<le> Q" unfolding assms(1) using assms(4) by (simp add: less_eq_div_iff_mult_less_eq)
    with assms(2) have "q = Q" by simp
    with sub that U show ?thesis by simp
  qed
  show "q = Q + 1 \<and> D1 + vv = U mod vv + B" if "b = 1"
  proof -
    have "U < q * vv" using sub that assms(8) by simp
    then have "q \<noteq> Q" using U by auto
    with assms(2,3) have "q = Q + 1" by simp
    with sub that U show ?thesis by simp
  qed
qed

lemma SpecialMultiplyAndSub_spec:
  assumes "SpecialMultiplyAndSub u v q qv i = (u', qv', b)"
    and len: "length qv = length v + 1" "i + length v < length u"
  obtains seg where "u' = take i u @ seg @ drop (i + length v + 1) u" and "length seg = length v + 1"
    and "length qv' = length v + 1"
    and "dval seg + unat q * dval v = dval (take (length v + 1) (drop i u))
           + 4294967296 ^ (length v + 1) * of_bool b"
proof -
  define qd where "qd = mulq_digits v q 0 0"
  have qd: "length qd = length v + 1" by (simp add: qd_def)
  have "dval v * unat q < 4294967296 ^ length v * 4294967296"
    using dval_bound [of v] word32_bound [of q] by (intro mult_strict_mono) simp_all
  then have qval: "dval qd = dval v * unat q" unfolding qd_def by (subst dval_mulq_digits) simp_all
  obtain seg c where S: "sub_borrow (take (length v + 1) (drop i u)) qd 0 = (seg, c)"
    by (meson surj_pair)
  have qv': "qv' = qd" and u': "u' = take i u @ seg @ drop (i + length v + 1) u" and b: "b \<longleftrightarrow> c > 0"
    using assms(1) qd len(1) S
    by (simp_all add: SpecialMultiplyAndSub_def Let_def qd_def [symmetric])
  have tk: "length (take (length v + 1) (drop i u)) = length v + 1" using len(2) by simp
  from sub_borrow_val [OF S] have seg: "length seg = length v + 1" "unat c \<le> 1"
    "dval seg + dval qd = dval (take (length v + 1) (drop i u)) + 4294967296 ^ (length v + 1) * unat c"
    unfolding tk qd by simp_all
  have "unat c = of_bool b"
    using seg(2) unfolding b by (cases "unat c") (auto simp: word_less_nat_alt)
  then show thesis using that [OF u' seg(1)] seg(3) qd qv' qval by (simp add: mult.commute)
qed

lemma SpecialAdd_spec:
  assumes u: "u = lo @ seg @ rest" and len: "length seg = length v + 1" "length lo = i"
    and A: "SpecialAdd u v i = (u', c)"
  obtains sg where "u'[i + length v := u' ! (i + length v) + c] = lo @ (sg @ [last seg + c]) @ rest"
    and "length sg = length v" and "unat c \<le> 1"
    and "dval sg + 4294967296 ^ length v * unat c = dval (butlast seg) + dval v"
proof -
  have seg: "seg = butlast seg @ [last seg]" using len(1) by (cases "seg = []") simp_all
  have bl: "length (butlast seg) = length v" using len(1) by simp
  have tk: "take (length v) (drop i u) = butlast seg"
    unfolding u using len(2) bl by (subst seg) simp
  have dr: "drop (i + length v) u = last seg # rest"
    unfolding u using len(2) bl by (subst seg) (simp add: add.commute flip: drop_drop)
  obtain sg where S: "add_carry (butlast seg) v 0 = (sg, c)" and u': "u' = lo @ sg @ last seg # rest"
    using A unfolding SpecialAdd_def tk dr by (simp add: u len(2) split: prod.splits)
  from add_carry_val [OF S bl] have sg: "length sg = length v" "unat c \<le> 1"
    "dval sg + 4294967296 ^ length v * unat c = dval (butlast seg) + dval v"
    unfolding bl by simp_all
  have "u'[i + length v := u' ! (i + length v) + c] = lo @ (sg @ [last seg + c]) @ rest"
    unfolding u' using len(2) sg(1) by (simp add: nth_append list_update_append)
  then show thesis using that sg by blast
qed

lemma carry_out:
  fixes a m X P :: nat
  assumes "a + P * X = m + P * 4294967296" and "a < P" and "m < P"
  shows "a = m \<and> X = 4294967296"
proof -
  have "(a + P * X) div P = (m + P * 4294967296) div P" and "(a + P * X) mod P = (m + P * 4294967296) mod P"
    using assms(1) by simp_all
  then show ?thesis using assms(2,3) by simp
qed

lemma dval_last: "ds \<noteq> [] \<Longrightarrow> dval ds = dval (butlast ds) + 4294967296 ^ (length ds - 1) * unat (last ds)"
  by (metis append_butlast_last_id dval_append dval.simps length_butlast mult_0_right add_0_right)

lemma add_back:
  assumes seg: "length seg = length v + 1" and sg: "length sg = length v" "unat c \<le> 1"
    and add: "dval sg + 4294967296 ^ length v * unat c = dval (butlast seg) + dval v"
    and D: "dval seg + dval v = m + 4294967296 ^ (length v + 1)" and m: "m < dval v"
  shows "dval (sg @ [last seg + c]) = m"
proof -
  have "dval seg = dval (butlast seg) + 4294967296 ^ length v * unat (last seg)"
    using seg dval_last [of seg] by fastforce
  with D add have "dval sg + 4294967296 ^ length v * (unat c + unat (last seg))
      = m + 4294967296 ^ length v * 4294967296" by (simp add: algebra_simps)
  moreover have "dval sg < 4294967296 ^ length v" using dval_bound [of sg] sg by simp
  moreover have "m < 4294967296 ^ length v" using m dval_bound [of v] by simp
  ultimately have eq: "dval sg = m \<and> unat c + unat (last seg) = 4294967296" by (rule carry_out)
  then have "unat (last seg) + unat c = 4294967296" by simp
  then have "unat (last seg + c) = 0" by (simp add: unat_word_ariths)
  with eq show ?thesis by (simp add: dval_append)
qed

lemma round_value:
  assumes "i + length v < length u" and "dval (drop (Suc i) u) < dval v"
  shows "dval (drop i u) < 4294967296 * dval v"
    and "dval (take (length v + 1) (drop i u)) = dval (drop i u)"
    and "dval (drop (i + length v + 1) u) = 0"
proof -
  have "drop i u = u ! i # drop (Suc i) u" using assms(1) by (simp add: Cons_nth_drop_Suc)
  then have "dval (drop i u) = unat (u ! i) + 4294967296 * dval (drop (Suc i) u)" by simp
  then show lt: "dval (drop i u) < 4294967296 * dval v"
    using assms(2) word32_bound [of "u ! i"] by linarith
  define rest where "rest = drop (length v + 1) (drop i u)"
  have split: "dval (drop i u) = dval rest * 4294967296 ^ (length v + 1) + dval (take (length v + 1) (drop i u))"
    unfolding rest_def using assms(1) by (intro dval_split_top) simp
  have "dval (drop i u) < 4294967296 ^ (length v + 1)" using lt dval_bound [of v] by simp
  then have "dval rest * 4294967296 ^ (length v + 1) < 1 * 4294967296 ^ (length v + 1)"
    using split by linarith
  then have "dval rest < 1" by (rule mult_right_less_imp_less) simp
  then show "dval (take (length v + 1) (drop i u)) = dval (drop i u)" 
    and "dval (drop (i + length v + 1) u) = 0"
    using split by (simp_all add: rest_def add.commute)
qed

lemma round_trial:
  assumes n: "2 \<le> length v" and v: "2147483648 \<le> unat (v ! (length v - 1))"
    and i: "i + length v < length u" and pre: "dval (drop (Suc i) u) < dval v"
    and q: "q = trial_quotient (v ! (length v - 1)) (v ! (length v - 2)) (u ! (i + length v))
      (u ! (i + length v - 1)) (u ! (i + length v - 2))"
  shows "dval (drop i u) div dval v \<le> unat q" and "unat q \<le> dval (drop i u) div dval v + 1"
proof -
  define seg where "seg = take (length v + 1) (drop i u)"
  have len: "length seg = length v + 1" using i by (simp add: seg_def)
  have nth: "seg ! j = u ! (i + j)" if "j \<le> length v" for j using that i by (simp add: seg_def)
  have U: "dval seg = dval (drop i u)" using round_value(2) [OF i pre] by (simp add: seg_def)
  define P where "P = (4294967296 :: nat) ^ (length v - 2)"
  have eqU: "dval seg = ((unat (u ! (i + length v)) * 4294967296 + unat (u ! (i + length v - 1))) * 4294967296
      + unat (u ! (i + length v - 2))) * P + dval (take (length v - 2) seg)"
    using dval_top3 [of seg] n nth [of "length v"] nth [of "length v - 1"] nth [of "length v - 2"]
    by (simp add: len P_def)
  have eqv: "dval v = (unat (v ! (length v - 1)) * 4294967296 + unat (v ! (length v - 2))) * P
      + dval (take (length v - 2) v)"
    unfolding P_def using n by (rule dval_top2)
  have ul: "dval (take (length v - 2) seg) < P" "dval (take (length v - 2) v) < P"
    using dval_take_bound [of "length v - 2" seg] dval_take_bound [of "length v - 2" v] len
    by (simp_all add: P_def)
  have lt: "dval seg < 4294967296 * dval v" unfolding U by (rule round_value(1) [OF i pre])
  define p where "p = (4294967296 :: nat) ^ (length v - 1)"
  have vt: "dval v = dval (take (length v - 1) v) + p * unat (v ! (length v - 1))"
    using dval_take_Suc [of "length v - 1" v] n by (simp add: p_def)
  have "dval (take (length v - 1) v) < p"
    unfolding p_def using dval_take_bound [of "length v - 1" v] by simp
  then have "dval v < p * (unat (v ! (length v - 1)) + 1)" using vt by simp
  moreover have "4294967296 * p * unat (seg ! length v) \<le> dval seg"
    using dval_take_Suc [of "length v" seg] len n by (cases v) (simp_all add: p_def)
  ultimately have "4294967296 * p * unat (seg ! length v) < 4294967296 * p * (unat (v ! (length v - 1)) + 1)"
    using lt by linarith
  then have "unat (seg ! length v) < unat (v ! (length v - 1)) + 1"
    by (rule mult_left_less_imp_less) simp
  then have "u ! (i + length v) \<le> v ! (length v - 1)"
    using nth [of "length v"] by (simp add: word_le_nat_alt)
  from trial_quotient_spec [OF eqU ul(1) eqv ul(2) v this lt]
  show "dval (drop i u) div dval v \<le> unat q" "unat q \<le> dval (drop i u) div dval v + 1"
    by (simp_all add: q U)
qed

lemma divide_round_spec:
  assumes n: "2 \<le> length v" and v: "2147483648 \<le> unat (v ! (length v - 1))"
    and i: "i + length v < length u" and qv: "length qv = length v + 1"
    and pre: "dval (drop (Suc i) u) < dval v" and R: "divide_round v i u qv = (u', qv', q)"
  shows "length u' = length u" and "length qv' = length v + 1" and "take i u' = take i u"
    and "dval (drop i u') = dval (drop i u) mod dval v" and "unat q = dval (drop i u) div dval v"
proof -
  define t where "t = trial_quotient (v ! (length v - 1)) (v ! (length v - 2)) (u ! (i + length v))
      (u ! (i + length v - 1)) (u ! (i + length v - 2))"
  define U where "U = dval (drop i u)"
  note trial = round_trial [OF n v i pre t_def, folded U_def]
  obtain u1 qv1 b where S: "SpecialMultiplyAndSub u v t qv i = (u1, qv1, b)" by (metis prod_cases3)
  obtain u2 c where A: "SpecialAdd u1 v i = (u2, c)" by (meson surj_pair)
  obtain q0 r where D: "DivideAndRemainder (u ! (i + length v)) (u ! (i + length v - 1)) (v ! (length v - 1))
      = (q0, r)" by (meson surj_pair)
  have t: "t = (if v ! (length v - 1) = u ! (i + length v) then - 1
      else ImproveAccuracy (v ! (length v - 1)) (v ! (length v - 2)) r (u ! (i + length v - 2)) q0)"
    by (simp add: t_def trial_quotient_def D del: One_nat_def)
  have R': "(u', qv', q) = (if b then (u2[i + length v := u2 ! (i + length v) + c], qv1, t - 1)
      else (u1, qv1, t))"
    using R unfolding divide_round_def Let_def D prod.case t [symmetric] S A by simp
  obtain seg where seg: "u1 = take i u @ seg @ drop (i + length v + 1) u" "length seg = length v + 1"
    "length qv1 = length v + 1"
    "dval seg + unat t * dval v = U + 4294967296 ^ (length v + 1) * of_bool b"
    using SpecialMultiplyAndSub_spec [OF S qv i] round_value(2) [OF i pre] unfolding U_def by metis
  have lo: "length (take i u) = i" using i by simp
  have pos: "0 < dval v" using pre by simp
  have UB: "U < 4294967296 ^ (length v + 1)" "dval v < 4294967296 ^ (length v + 1)"
    using round_value(1) [OF i pre] dval_bound [of v] by (simp_all add: U_def)
  have segB: "dval seg < 4294967296 ^ (length v + 1)" using dval_bound [of seg] seg(2) by simp
  note correct = correct_segment [OF refl trial pos UB seg(4) segB]
  have rest: "dval (drop (i + length v + 1) u) = 0" by (rule round_value(3) [OF i pre])
  have m: "U mod dval v < dval v" using pos by simp
  obtain sg where sg: "u2[i + length v := u2 ! (i + length v) + c]
      = take i u @ (sg @ [last seg + c]) @ drop (i + length v + 1) u" "length sg = length v" "unat c \<le> 1"
      "dval sg + 4294967296 ^ length v * unat c = dval (butlast seg) + dval v"
    using SpecialAdd_spec [OF seg(1,2) lo A] by metis
  define s where "s = (if b then sg @ [last seg + c] else seg)"
  have u': "u' = take i u @ s @ drop (i + length v + 1) u"
    using R' sg(1) seg(1) by (cases b) (simp_all add: s_def)
  have lens: "length s = length v + 1" using sg(2) seg(2) by (simp add: s_def)
  have val: "dval s = U mod dval v \<and> unat q = U div dval v"
  proof (cases b)
    case True
    then have eq: "unat t = U div dval v + 1" "dval seg + dval v = U mod dval v + 4294967296 ^ (length v + 1)"
      using correct(2) by simp_all
    have "unat (t - 1) = unat t - 1" using eq(1) by (intro unat_minus_one) auto
    then show ?thesis
      using True R' eq(1) add_back [OF seg(2) sg(2-4) eq(2) m] by (simp add: s_def)
  next
    case False
    then show ?thesis using correct(1) R' by (simp add: s_def)
  qed
  show "length u' = length u" using u' lens i by simp
  show "length qv' = length v + 1" using R' seg(3) by (simp split: if_splits)
  show "take i u' = take i u" using u' lo by simp
  have "drop i u' = s @ drop (i + length v + 1) u" using u' lo by simp
  then show "dval (drop i u') = dval (drop i u) mod dval v"
    using val rest by (simp add: dval_append U_def)
  show "unat q = dval (drop i u) div dval v" using val by (simp add: U_def)
qed

lemma divide_loop_spec:
  assumes n: "2 \<le> length v" and v: "2147483648 \<le> unat (v ! (length v - 1))"
  shows "k + length v \<le> length u \<Longrightarrow> length qv = length v + 1 \<Longrightarrow> dval (drop k u) < dval v \<Longrightarrow>
    divide_loop v k u qv = (u', qs) \<Longrightarrow>
    length qs = k \<and> length u' = length u \<and> dval u' < dval v \<and> dval u = dval qs * dval v + dval u'"
proof (induction k arbitrary: u qv u' qs)
  case (Suc i)
  obtain u1 qv1 q where R: "divide_round v i u qv = (u1, qv1, q)" by (metis prod_cases3)
  obtain qs1 where L: "divide_loop v i u1 qv1 = (u', qs1)" and qs: "qs = qs1 @ [q]"
    using Suc.prems(4) R by (auto split: prod.splits)
  have i: "i + length v < length u" using Suc.prems(1) by simp
  note round = divide_round_spec [OF n v i Suc.prems(2,3) R]
  have pos: "0 < dval v" using Suc.prems(3) by simp
  then have pre: "dval (drop i u1) < dval v" using round(4) by simp
  have IH: "length qs1 = i \<and> length u' = length u1 \<and> dval u' < dval v
      \<and> dval u1 = dval qs1 * dval v + dval u'"
    using Suc.IH [OF _ round(2) pre L] i round(1) by simp
  have "dval u = dval (drop i u) * 4294967296 ^ i + dval (take i u)"
    using i by (intro dval_split_top) simp
  also have "dval (drop i u) = unat q * dval v + dval (drop i u1)"
    unfolding round(4,5) by simp
  also have "dval (take i u) = dval (take i u1)" by (simp add: round(3))
  also have "(unat q * dval v + dval (drop i u1)) * 4294967296 ^ i + dval (take i u1)
      = unat q * dval v * 4294967296 ^ i + dval u1"
    using dval_split_top [of i u1] i round(1) by (simp add: algebra_simps)
  also have "\<dots> = dval qs * dval v + dval u'" using IH qs by (simp add: dval_append algebra_simps)
  finally show ?case using IH qs round(1) by simp
qed simp

section \<open>Division of digit arrays\<close>

lemma last_nth: "ds \<noteq> [] \<Longrightarrow> ds ! (length ds - 1) = last ds"
  by (simp add: last_conv_nth)

lemma FormatLeftShift_spec:
  assumes "s < 32" and "digits b \<noteq> []" and "length (digits b) \<le> MAXSIZE"
    and "add \<Longrightarrow> length (digits b) < MAXSIZE"
    and "\<not> add \<Longrightarrow> bmag b * 2 ^ s < 4294967296 ^ length (digits b)"
  shows "\<exists>w. FormatLeftShift s b add = Inr w \<and> length (digits w) = length (digits b) + (if add then 1 else 0)
    \<and> bmag w = bmag b * 2 ^ s"
proof -
  obtain moved carry where L: "lshift_loop s (digits b) 0 = (moved, carry)" by (meson surj_pair)
  have len: "length moved = length (digits b)"
    and val: "dval moved + 4294967296 ^ length (digits b) * unat carry = bmag b * 2 ^ s"
    using lshift_loop_val [OF _ _ L] assms(1) by (simp_all add: bmag_def mult.commute)
  show ?thesis
  proof (cases add)
    case True
    then show ?thesis
      using assms(4) L len val replicate_Suc [of 0 "0 :: u32"]
      by (cases "s = 0") (auto simp: FormatLeftShift_def CreateBigint_cases Let_def bmag_def dval_append
          list_update_append simp flip: replicate_Suc)
  next
    case False
    have "4294967296 ^ length (digits b) * unat carry < 4294967296 ^ length (digits b) * 1"
      using assms(5) [OF False] val by linarith
    then have "unat carry = 0" by simp
    then show ?thesis
      using False assms(3) L len val
      by (cases "s = 0") (auto simp: FormatLeftShift_def CreateBigint_cases Let_def bmag_def unat_eq_zero)
  qed
qed

lemma UnformattedRightShift_spec:
  assumes "s < 32" and "digits b \<noteq> []"
  shows "bmag (UnformattedRightShift b s) = bmag b div 2 ^ s"
    and "length (digits (UnformattedRightShift b s)) = length (digits b)"
  using RightShift_mag [of s b b "length (digits b)"] assms
  by (simp_all add: UnformattedRightShift_def bmag_def)

text \<open>
  What both divisions of magnitudes promise: the quotient or the remainder that was asked for, in
  an object whose digits are not yet truncated.
\<close>

definition division_result :: "(bigint option \<times> bigint option) result \<Rightarrow> bool \<Rightarrow> nat \<Rightarrow> nat \<Rightarrow> bool" where
  "division_result m wantRemainder x y \<longleftrightarrow>
     (\<exists>z. digits z \<noteq> [] \<and> length (digits z) \<le> MAXSIZE \<and>
        (if wantRemainder then m = Inr (None, Some z) \<and> bmag z = x mod y
         else m = Inr (Some z, None) \<and> bmag z = x div y))"

lemma scaled_top:
  fixes t :: u32
  assumes "s < 32" and "unat t * 2 ^ s < 4294967296"
  shows "(unat t + 1) * 2 ^ s \<le> 4294967296"
proof -
  have "unat t * 2 ^ s < 2 ^ (32 - s) * 2 ^ s" using assms pow32_split' [of s] by simp
  then have "(unat t + 1) * 2 ^ s \<le> 2 ^ (32 - s) * 2 ^ s" by (intro mult_le_mono1) simp
  then show ?thesis using assms(1) pow32_split' [of s] by simp
qed

lemma normalise_divisor:
  assumes y: "bigint_wf y" and top: "last (digits y) \<noteq> 0" and s: "s = CountLeadingZeros (last (digits y))"
  shows "\<exists>v. FormatLeftShift s y False = Inr v \<and> length (digits v) = length (digits y)
    \<and> bmag v = bmag y * 2 ^ s \<and> 2147483648 \<le> unat (digits v ! (length (digits y) - 1))"
proof -
  define p where "p = (4294967296 :: nat) ^ (length (digits y) - 1)"
  define t where "t = last (digits y)"
  note clz = CountLeadingZeros_spec [OF top, folded s]
  have ne: "digits y \<noteq> []" by (rule wf_nonempty [OF y])
  have pB: "4294967296 ^ length (digits y) = p * 4294967296"
    using ne by (cases "digits y") (simp_all add: p_def)
  have mag: "bmag y = dval (butlast (digits y)) + p * unat t"
    unfolding bmag_def t_def p_def by (rule dval_last [OF ne])
  have "dval (butlast (digits y)) < p"
    using dval_bound [of "butlast (digits y)"] by (simp add: p_def)
  then have "bmag y < p * (unat t + 1)" using mag by simp
  then have "bmag y * 2 ^ s < p * (unat t + 1) * 2 ^ s" by (rule mult_strict_right_mono) simp
  then have "bmag y * 2 ^ s < p * ((unat t + 1) * 2 ^ s)" by (simp only: mult.assoc)
  also have "\<dots> \<le> p * 4294967296"
    using scaled_top [of s t] clz by (intro mult_le_mono2) (simp add: t_def)
  finally obtain v where v: "FormatLeftShift s y False = Inr v" "length (digits v) = length (digits y)"
    "bmag v = bmag y * 2 ^ s"
    using FormatLeftShift_spec [of s y False] clz(1) ne wf_length [OF y] pB by auto
  define t' where "t' = digits v ! (length (digits y) - 1)"
  have split: "bmag v = dval (take (length (digits y) - 1) (digits v)) + p * unat t'"
    unfolding bmag_def p_def t'_def
    using dval_take_Suc [of "length (digits y) - 1" "digits v"] v(2) ne by (cases "digits y") simp_all
  have "p * 2147483648 \<le> p * (unat t * 2 ^ s)"
    using clz(2) by (intro mult_le_mono2) (simp add: t_def)
  also have "\<dots> \<le> bmag v" unfolding v(3) mag by (simp add: algebra_simps)
  also have "\<dots> < p * (unat t' + 1)"
    using split dval_take_bound [of "length (digits y) - 1" "digits v"] by (simp add: p_def)
  finally have "2147483648 < unat t' + 1" by (rule mult_left_less_imp_less) simp
  then show ?thesis using v by (auto simp: t'_def)
qed

lemma divide_loop_start:
  assumes x: "bigint_wf x" and y: "bigint_wf y" "last (digits y) \<noteq> 0"
    and len: "length (digits y) \<le> length (digits x)"
    and u: "length (digits u) = length (digits x) + 1" "bmag u = bmag x * 2 ^ s"
    and k: "k = length (digits x) - length (digits y) + 1"
  shows "dval (drop k (digits u)) < bmag y * 2 ^ s"
proof -
  define n where "n = length (digits y)"
  have n: "0 < n" using wf_nonempty [OF y(1)] by (simp add: n_def)
  have "k \<le> length (digits u)" using u(1) k n by (simp add: n_def)
  then have "dval (drop k (digits u)) * 4294967296 ^ k \<le> bmag x * 2 ^ s"
    using dval_split_top [of k "digits u"] u(2) by (simp add: bmag_def)
  also have "\<dots> < 4294967296 ^ length (digits x) * 2 ^ s"
    using dval_bound [of "digits x"] by (simp add: bmag_def)
  also have "length (digits x) = (n - 1) + k" using k len n unfolding n_def by linarith
  finally have "dval (drop k (digits u)) * 4294967296 ^ k < (4294967296 ^ (n - 1) * 2 ^ s) * 4294967296 ^ k"
    by (simp add: power_add algebra_simps)
  then have "dval (drop k (digits u)) < 4294967296 ^ (n - 1) * 2 ^ s"
    by (rule mult_right_less_imp_less) simp
  also have "\<dots> \<le> bmag y * 2 ^ s"
    using dval_lower_bound [OF wf_nonempty [OF y(1)] y(2)] by (simp add: bmag_def n_def)
  finally show ?thesis .
qed

lemma scaled_division:
  fixes x y q r :: nat
  assumes "x * 2 ^ s = q * (y * 2 ^ s) + r" and "r < y * 2 ^ s"
  shows "q = x div y" and "r div 2 ^ s = x mod y"
proof -
  define b where "b = y * 2 ^ s"
  have "(q * b + r) div b = q" and "(q * b + r) mod b = r"
    using assms(2) by (simp_all add: b_def [symmetric])
  then have "x * 2 ^ s div (y * 2 ^ s) = q" and m: "x * 2 ^ s mod (y * 2 ^ s) = r"
    by (simp_all only: assms(1) b_def)
  then show "q = x div y" by simp
  show "r div 2 ^ s = x mod y" unfolding m [symmetric] mod_mult_mult2 by simp
qed

lemma BigintDivisor_ok:
  assumes x: "bigint_wf x" and y: "bigint_wf y"
    and len: "2 \<le> length (digits y)" "length (digits y) \<le> length (digits x)"
  shows "if length (digits x) = MAXSIZE then DivideAndRemainderWithBigintDivisor x y w = Inl size_exceeded
    else division_result (DivideAndRemainderWithBigintDivisor x y w) w (bmag x) (bmag y)"
proof -
  define s where "s = CountLeadingZeros (last (digits y))"
  define k where "k = length (digits x) - length (digits y) + 1"
  have ne: "digits x \<noteq> []" "digits y \<noteq> []" using x y wf_nonempty by blast+
  have top: "last (digits y) \<noteq> 0" using y len(1) by (auto simp: bigint_wf_def)
  note clz = CountLeadingZeros_spec [OF top, folded s_def]
  note lx = wf_length [OF x]
  have alloc: "CreateBigint k = Inr (NewBigInt k)"
    using len lx by (simp add: k_def CreateBigint_def)
  obtain v where v: "FormatLeftShift s y False = Inr v" "length (digits v) = length (digits y)"
    "bmag v = bmag y * 2 ^ s" "2147483648 \<le> unat (digits v ! (length (digits y) - 1))"
    using normalise_divisor [OF y top s_def] by blast
  have s': "CountLeadingZeros (GetDigit y (GetLength y - 1)) = s" using ne(2) by (simp add: s_def last_conv_nth)
  show ?thesis
  proof (cases "length (digits x) = MAXSIZE")
    case True
    have "FormatLeftShift s x True = Inl size_exceeded"
      using True by (simp add: FormatLeftShift_def CreateBigint_cases)
    then show ?thesis
      using True v(1) alloc s'
      by (cases w) (simp_all add: DivideAndRemainderWithBigintDivisor_def Let_def k_def)
  next
    case False
    with lx have lt: "length (digits x) < MAXSIZE" by simp
    obtain u where u: "FormatLeftShift s x True = Inr u" "length (digits u) = length (digits x) + 1"
      "bmag u = bmag x * 2 ^ s"
      using FormatLeftShift_spec [of s x True] clz(1) ne(1) lt lx by auto
    obtain u' qs where L: "divide_loop (digits v) k (digits u) (replicate (length (digits y) + 1) 0) = (u', qs)"
      by (meson surj_pair)
    have start: "dval (drop k (digits u)) < dval (digits v)"
      using divide_loop_start [OF x y top len(2) u(2,3) k_def] v(3) by (simp add: bmag_def)
    have loop: "length qs = k" "length u' = length (digits u)" "dval u' < dval (digits v)"
      "dval (digits u) = dval qs * dval (digits v) + dval u'"
      using divide_loop_spec [OF _ _ _ _ start L] len v(2,4) u(2) by (simp_all add: k_def)
    have res: "dval qs = bmag x div bmag y" "dval u' div 2 ^ s = bmag x mod bmag y"
      using scaled_division [of "bmag x" s "dval qs" "bmag y" "dval u'"] loop(3,4) u(3) v(3)
      by (simp_all add: bmag_def)
    define z where "z = UnformattedRightShift (u\<lparr>digits := u'\<rparr>) s"
    have "u' \<noteq> []" using loop(2) u(2) by auto
    then have z: "bmag z = bmag x mod bmag y" "length (digits z) = length (digits x) + 1"
      using UnformattedRightShift_spec [of s "u\<lparr>digits := u'\<rparr>"] clz(1) res(2) loop(2) u(2)
      by (simp_all add: z_def bmag_def)
    have "CreateBigint (length (digits y) + 1) = Inr (NewBigInt (length (digits y) + 1))"
      using len lt by (simp add: CreateBigint_def)
    then have R: "DivideAndRemainderWithBigintDivisor x y w =
        (if w then Inr (None, Some z) else Inr (Some ((NewBigInt k)\<lparr>digits := qs\<rparr>), None))"
      using v(1) u(1) alloc s' L
      by (cases w) (simp_all add: DivideAndRemainderWithBigintDivisor_def Let_def k_def NewBigInt_def z_def)
    show ?thesis
    proof (cases w)
      case True
      have "digits z \<noteq> []" using z(2) by auto
      with True z lt R False show ?thesis by (auto simp: division_result_def)
    next
      case nw: False
      have "qs \<noteq> []" "length qs \<le> MAXSIZE" using loop(1) len lt by (auto simp: k_def)
      with nw R False res(1) show ?thesis by (auto simp: division_result_def bmag_def NewBigInt_def)
    qed
  qed
qed

section \<open>Divide, Remainder, FloorMod\<close>

lemma Uint32Divisor_ok:
  assumes x: "bigint_wf x" and "d \<noteq> 0"
  shows "division_result (DivideAndRemainderWithUint32Divisor x d w) w (bmag x) (unat d)"
proof -
  obtain qs r where S: "short_divide (digits x) d = (qs, r)" by (meson surj_pair)
  note spec = short_divide_spec [OF assms(2) S]
  have "bmag x div unat d = dval qs" and "bmag x mod unat d = unat r"
    using spec by (simp_all add: bmag_def word_less_nat_alt)
  moreover have "qs \<noteq> []" "length qs \<le> MAXSIZE"
    using spec wf_nonempty [OF x] wf_length [OF x] by auto
  ultimately show ?thesis
    using S wf_length [OF x]
    by (auto simp: division_result_def DivideAndRemainderWithUint32Divisor_def Uint32ToBigInt_def
        CreateBigint_cases bmag_def)
qed

lemma sdiv_bval: "bval x sdiv bval y = signed_mag (sign x \<noteq> sign y) (bmag x div bmag y)"
  by (auto simp: signed_divide_int_def bval_def signed_mag_def sgn_if zdiv_int)

lemma smod_bval: "bval x smod bval y = signed_mag (sign x) (bmag x mod bmag y)"
  by (auto simp: signed_modulo_int_def signed_divide_int_def bval_def signed_mag_def sgn_if zdiv_int zmod_int
      minus_div_mult_eq_mod [symmetric])

text \<open>
  The long division shifts the dividend into an object one digit longer, so a dividend of the
  maximal length and a divisor of at least two digits end in a \<open>RangeError\<close> although the result
  would fit.
\<close>

definition long_division :: "bigint \<Rightarrow> bigint \<Rightarrow> bool" where
  "long_division x y \<longleftrightarrow> GetLength x = MAXSIZE \<and> 2 \<le> GetLength y \<and> bmag y < bmag x"

lemma magnitude_division:
  assumes x: "bigint_wf x" and y: "bigint_wf y" "bmag y \<noteq> 0" and lt: "bmag y < bmag x"
  shows "if long_division x y
    then (if IsUint32 y then DivideAndRemainderWithUint32Divisor x (GetDigit y 0) w
          else DivideAndRemainderWithBigintDivisor x y w) = Inl size_exceeded
    else division_result (if IsUint32 y then DivideAndRemainderWithUint32Divisor x (GetDigit y 0) w
          else DivideAndRemainderWithBigintDivisor x y w) w (bmag x) (bmag y)"
proof (cases "GetLength y = 1")
  case True
  then have "unat (GetDigit y 0) = bmag y" using y(1) one_digit_mag by blast
  moreover from this y(2) have "GetDigit y 0 \<noteq> 0" by auto
  ultimately show ?thesis
    using True Uint32Divisor_ok [OF x, of "GetDigit y 0" w]
    by (simp add: long_division_def IsUint32_def)
next
  case False
  have ne: "digits y \<noteq> []" by (rule wf_nonempty [OF y(1)])
  then have len2: "2 \<le> length (digits y)" using False by (cases "digits y") (auto simp: Suc_le_eq)
  have "length (digits y) \<le> length (digits x)"
    using bmag_less_of_length [OF y(1) x] lt by (meson not_le less_asym)
  from BigintDivisor_ok [OF x y(1) len2 this, of w] show ?thesis
    using False len2 lt by (simp add: long_division_def IsUint32_def)
qed

lemma returns_division:
  assumes "division_result m w x y"
  shows "returns (bind_result m (\<lambda>(q, r). RightTruncate ((the (if w then r else q))\<lparr>sign := s\<rparr>)))
    (signed_mag s (if w then x mod y else x div y))"
  using assms
  by (cases w) (auto simp: division_result_def bval_def bmag_def signed_mag_def intro!: returns_RightTruncate)

lemma unit_divisor: "bigint_wf y \<Longrightarrow> IsUint32 y \<and> GetDigit y 0 = 1 \<longleftrightarrow> bmag y = 1"
proof -
  assume y: "bigint_wf y"
  show ?thesis
  proof
    assume "IsUint32 y \<and> GetDigit y 0 = 1"
    then show "bmag y = 1" using one_digit_mag [OF y] by (simp add: IsUint32_def)
  next
    assume one: "bmag y = 1"
    then have "\<not> 1 < GetLength y" using wf_mag_ge [OF y] by fastforce
    then have len: "GetLength y = 1" using wf_nonempty [OF y] by (cases "digits y") simp_all
    then have "unat (GetDigit y 0) = 1" using one one_digit_mag [OF y] by simp
    then show "IsUint32 y \<and> GetDigit y 0 = 1" using len by (simp add: IsUint32_def word_unat_eq_iff)
  qed
qed

lemma signed_mag_self: "signed_mag (sign x) (bmag x) = bval x"
  by (simp add: signed_mag_def bval_def)

lemma Divide_ok:
  assumes x: "bigint_wf x" and y: "bigint_wf y"
  shows "if bval y = 0 then Divide x y = Inl division_by_zero
    else if long_division x y then Divide x y = Inl size_exceeded
    else returns (Divide x y) (bval x sdiv bval y)"
proof (cases "bmag y = 0")
  case True
  then show ?thesis using bmag_zero_iff [OF y] by (simp add: bval_def Divide_def)
next
  case False
  then have y0: "bval y \<noteq> 0" "\<not> IsZero y" using bmag_zero_iff [OF y] by (auto simp: bval_def)
  consider (less) "bmag x < bmag y" | (equal) "bmag x = bmag y"
    | (one) "bmag y < bmag x" "bmag y = 1" | (greater) "bmag y < bmag x" "bmag y \<noteq> 1"
    by linarith
  then show ?thesis
  proof cases
    case less
    then show ?thesis
      using y0 AbsolutelyCompare_bmag [OF x y]
      by (simp add: Divide_def long_division_def sdiv_bval signed_mag_def returns_def)
  next
    case equal
    have "Divide x y = Inr \<lparr>sign = (sign x \<noteq> sign y), digits = [1]\<rparr>"
      using y0 equal AbsolutelyCompare_bmag [OF x y] by (simp add: Divide_def Let_def)
    moreover have "bval x sdiv bval y = signed_mag (sign x \<noteq> sign y) 1"
      using equal False by (simp add: sdiv_bval)
    ultimately show ?thesis
      using y0 equal
      by (simp add: long_division_def returns_def bigint_wf_def signed_mag_def bval_def [of "\<lparr>sign = _, digits = _\<rparr>"] bmag_def [of "\<lparr>sign = _, digits = _\<rparr>"])
  next
    case one
    have "returns (Divide x y) (signed_mag (sign x \<noteq> sign y) (bmag x))"
      using y0 one unit_divisor [OF y] AbsolutelyCompare_bmag [OF x y] UnaryMinus_ok [OF x] x
      by (cases "sign y") (auto simp: Divide_def Let_def signed_mag_def returns_def bval_def split: if_splits)
    moreover have "\<not> long_division x y" using one wf_mag_ge [OF y] by (auto simp: long_division_def)
    ultimately show ?thesis using y0 one by (simp add: sdiv_bval)
  next
    case greater
    have D: "Divide x y = bind_result
        (if IsUint32 y then DivideAndRemainderWithUint32Divisor x (GetDigit y 0) False
         else DivideAndRemainderWithBigintDivisor x y False)
        (\<lambda>(q, r). RightTruncate ((the (if False then r else q))\<lparr>sign := (sign x \<noteq> sign y)\<rparr>))"
      using y0 greater unit_divisor [OF y] AbsolutelyCompare_bmag [OF x y]
      by (auto simp: Divide_def Let_def)
    show ?thesis
      using magnitude_division [OF x y False greater(1), of False] returns_division [of _ False]
      unfolding D sdiv_bval using y0 by fastforce
  qed
qed

lemma Remainder_ok:
  assumes x: "bigint_wf x" and y: "bigint_wf y"
  shows "if bval y = 0 then Remainder x y = Inl division_by_zero
    else if long_division x y then Remainder x y = Inl size_exceeded
    else returns (Remainder x y) (bval x smod bval y)"
proof (cases "bmag y = 0")
  case True
  then show ?thesis using bmag_zero_iff [OF y] by (simp add: bval_def Remainder_def)
next
  case False
  then have y0: "bval y \<noteq> 0" "\<not> IsZero y" using bmag_zero_iff [OF y] by (auto simp: bval_def)
  consider (less) "bmag x < bmag y" | (equal) "bmag x = bmag y"
    | (one) "bmag y < bmag x" "bmag y = 1" | (greater) "bmag y < bmag x" "bmag y \<noteq> 1"
    by linarith
  then show ?thesis
  proof cases
    case less
    then show ?thesis
      using y0 AbsolutelyCompare_bmag [OF x y] x
      by (simp add: Remainder_def long_division_def smod_bval signed_mag_self returns_def)
  next
    case equal
    then show ?thesis
      using y0 False AbsolutelyCompare_bmag [OF x y] bmag_zero_iff [OF x]
      by (simp add: Remainder_def Let_def long_division_def smod_bval signed_mag_def returns_def)
  next
    case one
    then have "\<not> long_division x y" using wf_mag_ge [OF y] by (auto simp: long_division_def)
    then show ?thesis
      using y0 one unit_divisor [OF y] AbsolutelyCompare_bmag [OF x y] bmag_zero_iff [OF x]
      by (auto simp: Remainder_def Let_def smod_bval signed_mag_def returns_def)
  next
    case greater
    have R: "Remainder x y = bind_result
        (if IsUint32 y then DivideAndRemainderWithUint32Divisor x (GetDigit y 0) True
         else DivideAndRemainderWithBigintDivisor x y True)
        (\<lambda>(q, r). RightTruncate ((the (if True then r else q))\<lparr>sign := sign x\<rparr>))"
      using y0 greater unit_divisor [OF y] AbsolutelyCompare_bmag [OF x y] bmag_zero_iff [OF x]
      by (auto simp: Remainder_def Let_def)
    show ?thesis
      using magnitude_division [OF x y False greater(1), of True] returns_division [of _ True]
      unfolding R smod_bval using y0 by fastforce
  qed
qed

lemma floor_from_truncated:
  fixes a b :: int
  assumes "0 < b"
  shows "a mod b = (if a < 0 \<and> a smod b \<noteq> 0 then a smod b + b else a smod b)"
proof (cases "a < 0")
  case True
  have "a smod b = - (- a mod b)"
    using assms True
    by (simp add: signed_modulo_int_def signed_divide_int_def minus_div_mult_eq_mod [symmetric])
  moreover have "a mod b = (if - a mod b = 0 then 0 else b - (- a mod b))"
    using zmod_zminus1_eq_if [of "- a" b] by simp
  ultimately show ?thesis using True by simp
next
  case False
  then show ?thesis
    using assms by (simp add: signed_modulo_int_def signed_divide_int_def sgn_if minus_div_mult_eq_mod)
qed

lemma FloorMod_ok:
  assumes x: "bigint_wf x" and y: "bigint_wf y" and pos: "0 < bval y"
  shows "if long_division x y then FloorMod x y = Inl size_exceeded
    else returns (FloorMod x y) (bval x mod bval y)"
proof (cases "long_division x y")
  case True
  then show ?thesis using Remainder_ok [OF x y] pos by (simp add: FloorMod_def)
next
  case False
  then obtain r where r: "Remainder x y = Inr r" "bigint_wf r" "bval r = bval x smod bval y"
    using Remainder_ok [OF x y] pos by (auto simp: returns_def)
  have r0: "IsZero r \<longleftrightarrow> bval r = 0" using bmag_zero_iff [OF r(2)] by (simp add: bval_def)
  have x0: "sign x \<longleftrightarrow> bval x < 0" by (rule sign_bval [OF x])
  show ?thesis
  proof (cases "bval x < 0 \<and> bval r \<noteq> 0")
    case True
    have "signed_mag (sign x) (bmag x mod bmag y) = bval r" using r(3) by (simp add: smod_bval)
    then have "bval r < 0" using True x0 by (auto simp: signed_mag_def)
    then have "sign r" "\<not> sign y" using sign_bval [OF r(2)] sign_bval [OF y] pos by simp_all
    then have "returns (Add r y) (bval r + bval y)" using Add_ok [OF r(2) y] by simp
    then show ?thesis
      using False True r x0 r0 floor_from_truncated [OF pos, of "bval x"] by (simp add: FloorMod_def)
  next
    case nadj: False
    then show ?thesis
      using False r x0 r0 floor_from_truncated [OF pos, of "bval x"]
      by (auto simp: FloorMod_def returns_def)
  qed
qed

end
