(* ===== verification/BigInt_Conv.thy ===== *)
theory BigInt_Conv
  imports BigInt_Div
begin

text \<open>
  Conversions between BigInt objects and machine integers: \<open>Int64ToBigInt\<close>, \<open>Uint64ToBigInt\<close>,
  \<open>ToUint64\<close>, \<open>CreateBigWords\<close>, \<open>AsUintN\<close>, \<open>AsintN\<close> of \<open>ecmascript/js_bigint.cpp\<close> and
  \<open>ToBigInt64\<close>, \<open>ToBigUint64\<close> of \<open>ecmascript/js_tagged_value-inl.h\<close> on the values that
  \<open>BigIntToInt64\<close> and \<open>BigIntToUint64\<close> accept.
\<close>

section \<open>Definitions\<close>

definition GetUint64MaxBigint :: "bigint result" where
  "GetUint64MaxBigint = bind_result (CreateBigint 3) (\<lambda>b.
     Inr (b\<lparr>digits := (digits b)[0 := 0, 1 := 0, 2 := 1]\<rparr>))"

definition GetInt64MaxBigint :: "bigint result" where
  "GetInt64MaxBigint = bind_result (CreateBigint 2) (\<lambda>b.
     Inr (b\<lparr>digits := (digits b)[0 := 0, 1 := 0x80000000]\<rparr>))"

definition Uint64ToBigInt :: "u64 \<Rightarrow> bigint result" where
  "Uint64ToBigInt number =
     bind_result (CreateBigint 2) (\<lambda>b.
       let lowBits = ucast (number AND 0xffffffff);
           highBits = ucast (drop_bit DATEBITS number AND 0xffffffff)
       in RightTruncate (b\<lparr>digits := (digits b)[0 := lowBits, 1 := highBits]\<rparr>))"

definition Int64ToBigInt :: "64 word \<Rightarrow> bigint result" where
  "Int64ToBigInt number =
     (let neg = number <s 0;
          value = (if neg then - (number + 1) + 1 else number)
      in bind_result (Uint64ToBigInt value) (\<lambda>b. RightTruncate (b\<lparr>sign := neg\<rparr>)))"

definition ToUint64 :: "bigint \<Rightarrow> u64" where
  "ToUint64 b =
     (let len = GetLength b;
          lowBits = GetDigit b 0;
          highBits = (if len > 1 then GetDigit b 1 else 0);
          value = ucast lowBits OR push_bit DATEBITS (ucast highBits)
      in if sign b then NOT (value - 1) else value)"

definition ToInt64 :: "bigint \<Rightarrow> 64 word" where
  "ToInt64 b = ToUint64 b"

text \<open>
  \<open>needLen\<close> is a \<open>uint32_t\<close>.  When \<open>size * 2\<close> wraps around, the source writes past the end of the
  object it allocated; a list update past the end has no effect, so the facts below ask for a
  \<open>size\<close> that does not wrap.
\<close>

fun word_digits :: "u64 list \<Rightarrow> u32 list" where
  "word_digits [] = []"
| "word_digits (w # ws) =
     ucast (w AND 0xffffffff) # ucast (drop_bit DATEBITS w AND 0xffffffff) # word_digits ws"

definition CreateBigWords :: "bool \<Rightarrow> u32 \<Rightarrow> u64 list \<Rightarrow> bigint result" where
  "CreateBigWords neg sz words =
     (if sz = 0 then Uint64ToBigInt 0
      else
        let needLen = sz * 2 in
        if unat needLen > MAXSIZE then Inl size_exceeded
        else bind_result (CreateBigint (unat needLen)) (\<lambda>b.
          RightTruncate (b\<lparr>digits := take (unat needLen) (word_digits (take (unat sz) words)),
                           sign := neg\<rparr>)))"

text \<open>
  The primitive values of \<open>JSTaggedValue\<close> that \<open>ToBigInt\<close> distinguishes, after \<open>ToPrimitive\<close>.
  \<open>StringToBigInt\<close> of \<open>base/number_helper.cpp\<close> is an argument: \<open>None\<close> stands for the \<open>NaN\<close> it
  returns for a string that is not an integer literal.
\<close>

datatype prim_value =
  UndefinedValue | NullValue | BoolValue bool | NumberValue u64 | StringValue string | SymbolValue
  | BigIntValue bigint

fun ToBigInt :: "(string \<Rightarrow> bigint option) \<Rightarrow> prim_value \<Rightarrow> bigint result" where
  "ToBigInt StringToBigInt UndefinedValue =
     Inl (TypeError ''Cannot convert a undefine or null value to a BigInt'')"
| "ToBigInt StringToBigInt NullValue =
     Inl (TypeError ''Cannot convert a undefine or null value to a BigInt'')"
| "ToBigInt StringToBigInt (BoolValue b) = (if b then Int32ToBigInt 1 else Int32ToBigInt 0)"
| "ToBigInt StringToBigInt (NumberValue n) =
     Inl (TypeError ''Cannot convert a Number value to a BigInt'')"
| "ToBigInt StringToBigInt (StringValue s) =
     (case StringToBigInt s of
        Some b \<Rightarrow> Inr b
      | None \<Rightarrow> Inl (SyntaxError (''Cannot convert string to a BigInt,'' @
          ''because not allow Infinity, decimal points, or exponents'')))"
| "ToBigInt StringToBigInt SymbolValue =
     Inl (TypeError ''Cannot convert a Symbol value to a BigInt'')"
| "ToBigInt StringToBigInt (BigIntValue b) = Inr b"

definition ToBigInt64 :: "(string \<Rightarrow> bigint option) \<Rightarrow> prim_value \<Rightarrow> bigint result" where
  "ToBigInt64 StringToBigInt tagged =
     bind_result (ToBigInt StringToBigInt tagged) (\<lambda>value.
     bind_result GetUint64MaxBigint (\<lambda>tVal.
     bind_result (FloorMod value tVal) (\<lambda>int64bitVal.
     bind_result GetInt64MaxBigint (\<lambda>resValue.
       if \<not> LessThan int64bitVal resValue then Subtract int64bitVal tVal
       else Inr int64bitVal))))"

definition ToBigUint64 :: "(string \<Rightarrow> bigint option) \<Rightarrow> prim_value \<Rightarrow> bigint result" where
  "ToBigUint64 StringToBigInt tagged =
     bind_result (ToBigInt StringToBigInt tagged) (\<lambda>value.
       if \<not> sign value \<and> GetLength value \<le> 2 then Inr value
       else bind_result GetUint64MaxBigint (\<lambda>tVal. FloorMod value tVal))"

text \<open>
  The results are \<open>*cValue\<close> and \<open>*lossless\<close>.  The callers pass a boolean or a BigInt; the source
  casts the operand of \<open>Equal\<close> to \<open>BigInt\<close> without a check, so no other value is compared here.
\<close>

fun equal_bigint :: "bigint \<Rightarrow> prim_value \<Rightarrow> bool" where
  "equal_bigint x (BigIntValue y) = Equal x y"
| "equal_bigint x v = False"

definition boolean_to_bigint :: "(string \<Rightarrow> bigint option) \<Rightarrow> prim_value \<Rightarrow> prim_value result" where
  "boolean_to_bigint StringToBigInt v =
     (case v of BoolValue b \<Rightarrow> bind_result (ToBigInt StringToBigInt v) (\<lambda>b. Inr (BigIntValue b))
      | _ \<Rightarrow> Inr v)"

definition BigIntToInt64 :: "(string \<Rightarrow> bigint option) \<Rightarrow> prim_value \<Rightarrow> (64 word \<times> bool) result" where
  "BigIntToInt64 StringToBigInt v =
     bind_result (boolean_to_bigint StringToBigInt v) (\<lambda>b.
     bind_result (ToBigInt64 StringToBigInt b) (\<lambda>bigInt64.
       Inr (ToInt64 bigInt64, equal_bigint bigInt64 b)))"

definition BigIntToUint64 :: "(string \<Rightarrow> bigint option) \<Rightarrow> prim_value \<Rightarrow> (u64 \<times> bool) result" where
  "BigIntToUint64 StringToBigInt v =
     bind_result (boolean_to_bigint StringToBigInt v) (\<lambda>b.
     bind_result (ToBigUint64 StringToBigInt b) (\<lambda>bigUint64.
       Inr (ToUint64 bigUint64, equal_bigint bigUint64 b)))"

text \<open>\<open>bit\<close> is the \<open>int64_t\<close> that \<open>DoubleToInt64\<close> made of the argument \<open>bits\<close>.\<close>

definition AsUintN :: "64 word \<Rightarrow> bigint \<Rightarrow> bigint result" where
  "AsUintN bits b =
     (if bits = 0 then Int32ToBigInt 0
      else if IsZero b then Inr b
      else
        bind_result (Uint64ToBigInt bits) (\<lambda>exponent.
        bind_result (Int64ToBigInt 2) (\<lambda>bas.
          if sint bits \<ge> kMaxLengthBits \<and> \<not> sign b then Inr b
          else bind_result (Exponentiate bas exponent) (\<lambda>tValue. FloorMod b tValue))))"

definition AsintN :: "64 word \<Rightarrow> bigint \<Rightarrow> bigint result" where
  "AsintN bits b =
     (if bits = 0 then Int32ToBigInt 0
      else if IsZero b then Inr b
      else
        bind_result (Int64ToBigInt bits) (\<lambda>ex.
        bind_result (Int64ToBigInt (bits - 1)) (\<lambda>exponent.
        bind_result (Int64ToBigInt 2) (\<lambda>bas.
          if sint bits \<ge> kMaxLengthBits \<and> \<not> sign b then Inr b
          else
            bind_result (Exponentiate bas ex) (\<lambda>tValue.
            bind_result (FloorMod b tValue) (\<lambda>modValue.
            bind_result (Exponentiate bas exponent) (\<lambda>resValue.
              if Compare resValue modValue \<noteq> GREAT then Subtract modValue tValue
              else Inr modValue)))))))"

section \<open>Machine integers to BigInt\<close>

lemma word64_halves:
  fixes w :: u64
  shows "unat (ucast (w AND 0xffffffff) :: u32) = unat w mod 4294967296"
    and "unat (ucast (drop_bit 32 w AND 0xffffffff) :: u32) = unat w div 4294967296"
proof -
  have m: "(0xffffffff :: u64) = mask 32" by (simp add: mask_eq_exp_minus_1)
  show "unat (ucast (w AND 0xffffffff) :: u32) = unat w mod 4294967296"
    unfolding m take_bit_eq_mask [symmetric] unsigned_ucast_eq unsigned_take_bit_eq
    by (simp add: take_bit_eq_mod)
  have "unat w div 4294967296 < 4294967296" using word64_bound [of w] by simp
  then show "unat (ucast (drop_bit 32 w AND 0xffffffff) :: u32) = unat w div 4294967296"
    unfolding m take_bit_eq_mask [symmetric] unsigned_ucast_eq unsigned_take_bit_eq unat_drop_bit_eq
    by (simp add: take_bit_eq_mod drop_bit_eq_div)
qed

lemma Uint64ToBigInt_ok: "returns (Uint64ToBigInt n) (int (unat n))"
proof -
  have "dval [ucast (n AND 0xffffffff), ucast (drop_bit 32 n AND 0xffffffff)] = unat n"
    unfolding dval.simps word64_halves(2) unfolding word64_halves(1) by simp
  then show ?thesis
    by (auto simp: Uint64ToBigInt_def CreateBigint_cases numeral_2_eq_2 bval_def bmag_def
        intro!: returns_RightTruncate simp del: dval.simps)
qed

lemma int64_magnitude:
  fixes n :: "64 word"
  assumes "n <s 0"
  shows "int (unat (- (n + 1) + 1)) = - sint n"
proof -
  have neg: "sint n < 0" using assms by (simp add: word_sless_alt)
  have "- (n + 1) + 1 = - n" by simp
  moreover have "int (unat (- n)) = - sint n"
  proof -
    have "uint (- n) = (- sint n) mod 2 ^ 64"
      using uint_word_ariths(4) [of n] by (simp add: uint_sint take_bit_eq_mod mod_minus_eq)
    moreover have "- sint n < 2 ^ 64" using sint_greater_eq [of n] by simp
    ultimately show ?thesis using neg by simp
  qed
  ultimately show ?thesis by simp
qed

lemma int64_nonneg: "\<not> n <s 0 \<Longrightarrow> int (unat n) = sint n" for n :: "64 word"
proof -
  assume "\<not> n <s 0"
  then have "0 \<le> sint n" by (simp add: word_sless_alt)
  moreover have "sint n < 2 ^ 64" using sint_less [of n] by simp
  ultimately have "take_bit 64 (sint n) = sint n" by (intro take_bit_int_eq_self) simp_all
  then show ?thesis by (simp add: uint_sint)
qed

lemma Int64ToBigInt_ok: "returns (Int64ToBigInt n) (sint n)"
proof -
  define m where "m = (if n <s 0 then - (n + 1) + 1 else n)"
  obtain b where b: "Uint64ToBigInt m = Inr b" "bigint_wf b" "bval b = int (unat m)"
    using Uint64ToBigInt_ok [of m] by (auto simp: returns_def)
  have "\<not> sign b" using wf_nonneg [OF b(2)] b(3) by simp
  then have "bmag b = unat m" using b(3) by (metis bval_def of_nat_eq_iff)
  then have "bval (b\<lparr>sign := n <s 0\<rparr>) = sint n"
    using int64_magnitude [of n] int64_nonneg [of n] by (simp add: bval_def bmag_def m_def)
  then show ?thesis
    using b wf_nonempty [OF b(2)] wf_length [OF b(2)]
    by (auto simp: Int64ToBigInt_def Let_def m_def [symmetric] intro!: returns_RightTruncate)
qed

section \<open>BigInt to machine integers\<close>

lemma unat_join_halves:
  fixes low high :: u32
  shows "unat (ucast low OR push_bit 32 (ucast high) :: u64) = unat low + 4294967296 * unat high"
proof -
  have hi: "unat high < 2 ^ 32" using word32_bound [of high] by simp
  have "unat (push_bit 32 (ucast high :: u64)) = take_bit 64 (push_bit 32 (unat (ucast high :: u64)))"
    unfolding unsigned_push_bit_eq by simp
  also have "\<dots> = push_bit 32 (take_bit 32 (unat high))"
    by (simp add: take_bit_push_bit unsigned_ucast_eq)
  also have "\<dots> = 2 ^ 32 * unat high"
    using take_bit_nat_eq_self [OF hi] by (simp add: push_bit_eq_mult)
  finally have hi': "unat (push_bit 32 (ucast high :: u64)) = 2 ^ 32 * unat high" .
  have "take_bit 64 (unat low) = unat low"
    using word32_bound [of low] by (intro take_bit_nat_eq_self) simp
  then have "unat (ucast low OR push_bit 32 (ucast high) :: u64) = (2 ^ 32 * unat high) OR unat low"
    using hi' by (simp add: unsigned_or_eq or.commute unsigned_ucast_eq)
  also have "\<dots> = 2 ^ 32 * unat high + unat low"
    using word32_bound [of low] by (intro or_low_bits) simp
  finally show ?thesis by simp
qed

lemma two_digit_mag: "bigint_wf b \<Longrightarrow> GetLength b \<le> 2 \<Longrightarrow>
  bmag b = unat (GetDigit b 0) + 4294967296 * unat (if GetLength b > 1 then GetDigit b 1 else 0)"
  by (cases "digits b" rule: remdups_adj.cases) (auto simp: bmag_def bigint_wf_def le_Suc_eq)

lemma ToUint64_mod:
  assumes "bigint_wf b" and "GetLength b \<le> 2"
  shows "uint (ToUint64 b) = bval b mod 2 ^ 64"
proof -
  define val where "val = (ucast (GetDigit b 0)
      OR push_bit 32 (ucast (if GetLength b > 1 then GetDigit b 1 else 0)) :: u64)"
  have mag: "unat val = bmag b"
    unfolding val_def unat_join_halves two_digit_mag [OF assms] ..
  then have u: "uint val = int (bmag b)" by (metis uint_nat)
  have "ToUint64 b = (if sign b then - val else val)"
    by (simp add: ToUint64_def Let_def val_def minus_eq_not_minus_1)
  moreover have "uint val mod 2 ^ 64 = uint val" using uint_lt2p [of val] by simp
  moreover have "uint (- val) = (- uint val) mod 2 ^ 64" using uint_word_ariths(4) [of val] by simp
  ultimately show ?thesis using u by (simp add: bval_def)
qed

lemma two_pow_64_bigint:
  "GetUint64MaxBigint = Inr \<lparr>sign = False, digits = [0, 0, 1]\<rparr>"
  "GetInt64MaxBigint = Inr \<lparr>sign = False, digits = [0, 0x80000000]\<rparr>"
  by (simp_all add: GetUint64MaxBigint_def GetInt64MaxBigint_def CreateBigint_cases numeral_3_eq_3 numeral_2_eq_2)

lemma two_pow_64_val:
  "bigint_wf \<lparr>sign = False, digits = [0, 0, 1]\<rparr>" "bval \<lparr>sign = False, digits = [0, 0, 1]\<rparr> = 2 ^ 64"
  "bigint_wf \<lparr>sign = False, digits = [0, 0x80000000]\<rparr>" "bval \<lparr>sign = False, digits = [0, 0x80000000]\<rparr> = 2 ^ 63"
  by (simp_all add: bigint_wf_def bval_def bmag_def)

lemma short_length:
  assumes "bigint_wf z" and "\<bar>bval z\<bar> < 2 ^ 64"
  shows "GetLength z \<le> 2"
proof (rule ccontr)
  assume long: "\<not> GetLength z \<le> 2"
  then have "last (digits z) \<noteq> 0" using assms(1) by (auto simp: bigint_wf_def)
  then have "4294967296 ^ (length (digits z) - 1) \<le> bmag z"
    unfolding bmag_def by (rule dval_lower_bound [OF wf_nonempty [OF assms(1)]])
  moreover have "(4294967296 :: nat) ^ 2 \<le> 4294967296 ^ (length (digits z) - 1)"
    using long by (intro power_increasing) simp_all
  ultimately have "18446744073709551616 \<le> bmag z" by simp
  moreover have "int (bmag z) < 18446744073709551616"
    using assms(2) by (simp add: bval_def split: if_splits)
  ultimately show False by simp
qed

definition wrap64 :: "int \<Rightarrow> int" where
  "wrap64 v = (if v mod 2 ^ 64 < 2 ^ 63 then v mod 2 ^ 64 else v mod 2 ^ 64 - 2 ^ 64)"

lemma sint_wrap64: "uint c = v mod 2 ^ 64 \<Longrightarrow> sint c = wrap64 v" for c :: "64 word"
proof -
  assume c: "uint c = v mod 2 ^ 64"
  have "sint c = signed_take_bit 63 (uint c)" by (simp add: sint_uint)
  also have "\<dots> = (uint c + 2 ^ 63) mod 2 ^ 64 - 2 ^ 63"
    by (simp add: signed_take_bit_eq_take_bit_shift take_bit_eq_mod)
  finally have s: "sint c = (uint c + 2 ^ 63) mod 2 ^ 64 - 2 ^ 63" .
  have range: "0 \<le> uint c" "uint c < 2 ^ 64" using uint_lt2p [of c] by simp_all
  show ?thesis
  proof (cases "uint c < 2 ^ 63")
    case True
    then show ?thesis unfolding wrap64_def c [symmetric] s using range by simp
  next
    case False
    have "(uint c + 2 ^ 63) mod 2 ^ 64 = (uint c - 2 ^ 63 + 2 ^ 64) mod 2 ^ 64"
      by (simp add: add.commute)
    also have "\<dots> = uint c - 2 ^ 63"
      unfolding mod_add_self2 using False range by (intro mod_pos_pos_trivial) simp_all
    finally show ?thesis unfolding wrap64_def c [symmetric] s using False by simp
  qed
qed

lemma wrap64_range: "- (2 ^ 63) \<le> wrap64 v" "wrap64 v < 2 ^ 63"
  using pos_mod_sign [of "2 ^ 64" v] pos_mod_bound [of "2 ^ 64" v] by (auto simp: wrap64_def)

lemma wrap64_mod: "wrap64 v mod 2 ^ 64 = v mod 2 ^ 64"
  by (simp add: wrap64_def)

lemma wrap64_id: "wrap64 v = v \<longleftrightarrow> - (2 ^ 63) \<le> v \<and> v < 2 ^ 63"
proof
  assume "wrap64 v = v"
  then show "- (2 ^ 63) \<le> v \<and> v < 2 ^ 63" using wrap64_range [of v] by simp
next
  assume v: "- (2 ^ 63) \<le> v \<and> v < 2 ^ 63"
  show "wrap64 v = v"
  proof (cases "v < 0")
    case True
    have "v mod 2 ^ 64 = (v + 2 ^ 64) mod 2 ^ 64" by simp
    also have "\<dots> = v + 2 ^ 64" using True v by (intro mod_pos_pos_trivial) simp_all
    finally show ?thesis using v by (simp add: wrap64_def)
  next
    case False
    then show ?thesis using v by (simp add: wrap64_def)
  qed
qed

lemma FloorMod_2_64:
  assumes "bigint_wf b" and "GetLength b < MAXSIZE"
  shows "returns (FloorMod b \<lparr>sign = False, digits = [0, 0, 1]\<rparr>) (bval b mod 2 ^ 64)"
  using FloorMod_ok [OF assms(1) two_pow_64_val(1)] assms(2) two_pow_64_val(2)
  by (simp add: long_division_def)

lemma ToBigInt64_ok:
  assumes b: "bigint_wf b" and len: "GetLength b < MAXSIZE"
  shows "returns (ToBigInt64 StringToBigInt (BigIntValue b)) (wrap64 (bval b))"
proof -
  let ?t = "\<lparr>sign = False, digits = [0, 0, 1 :: u32]\<rparr>"
  obtain m where m: "FloorMod b ?t = Inr m" "bigint_wf m" "bval m = bval b mod 2 ^ 64"
    using FloorMod_2_64 [OF b len] by (auto simp: returns_def)
  have "\<bar>bval m\<bar> < 2 ^ 64" unfolding m(3) by simp
  then have short: "GetLength m \<le> 2" by (rule short_length [OF m(2)])
  have cmp: "LessThan m \<lparr>sign = False, digits = [0, 0x80000000]\<rparr> \<longleftrightarrow> bval m < 2 ^ 63"
    using Compare_bval [OF m(2) two_pow_64_val(3)] two_pow_64_val(4) by (simp add: LessThan_def)
  have "returns (Subtract m ?t) (bval m - 2 ^ 64)"
    using Subtract_ok [OF m(2) two_pow_64_val(1)] short two_pow_64_val(2) by simp
  then show ?thesis
    using m cmp by (auto simp: ToBigInt64_def two_pow_64_bigint wrap64_def returns_def)
qed

lemma ToBigUint64_ok:
  assumes b: "bigint_wf b" and len: "GetLength b < MAXSIZE"
  shows "returns (ToBigUint64 StringToBigInt (BigIntValue b)) (bval b mod 2 ^ 64)"
proof (cases "\<not> sign b \<and> GetLength b \<le> 2")
  case True
  then have "bmag b = unat (GetDigit b 0) + 4294967296 * unat (if GetLength b > 1 then GetDigit b 1 else 0)"
    using two_digit_mag [OF b] by blast
  also have "\<dots> < 18446744073709551616"
    using word32_bound [of "GetDigit b 0"] word32_bound [of "if GetLength b > 1 then GetDigit b 1 else 0"]
    by linarith
  finally have "bval b mod 2 ^ 64 = bval b" using True by (simp add: bval_def)
  then show ?thesis using True b by (simp add: ToBigUint64_def returns_def)
next
  case False
  then show ?thesis using FloorMod_2_64 [OF b len] by (auto simp: ToBigUint64_def two_pow_64_bigint)
qed

lemma compare_down_equal: "compare_down xs ys n = EQUAL \<Longrightarrow> \<forall>i < n. xs ! i = ys ! i"
  by (induction n) (auto simp: less_Suc_eq split: if_splits)

lemma Equal_bval: "bigint_wf x \<Longrightarrow> bigint_wf y \<Longrightarrow> Equal x y \<longleftrightarrow> bval x = bval y"
proof -
  assume wf: "bigint_wf x" "bigint_wf y"
  show ?thesis
  proof
    assume "Equal x y"
    then have "sign x = sign y" and "digits x = digits y"
      by (auto simp: Equal_def intro: nth_equalityI)
    then show "bval x = bval y" by (simp add: bval_def bmag_def)
  next
    assume v: "bval x = bval y"
    then have s: "sign x = sign y" using sign_bval [OF wf(1)] sign_bval [OF wf(2)] by simp
    then have mag: "bmag x = bmag y" using v by (simp add: bval_def split: if_splits)
    then have len: "length (digits x) = length (digits y)"
      using bmag_less_of_length [OF wf] bmag_less_of_length [OF wf(2,1)] by (metis less_irrefl nat_neq_iff)
    have "compare_down (digits x) (digits y) (length (digits x)) = EQUAL"
      using AbsolutelyCompare_bmag [OF wf] mag len by (simp add: AbsolutelyCompare_def)
    then have "\<forall>i < length (digits x). digits x ! i = digits y ! i"
      using compare_down_equal by blast
    then show "Equal x y" using s len by (simp add: Equal_def)
  qed
qed

lemma BigIntToInt64_ok:
  assumes b: "bigint_wf b" and len: "GetLength b < MAXSIZE"
  shows "\<exists>c. BigIntToInt64 StringToBigInt (BigIntValue b) = Inr (c, - (2 ^ 63) \<le> bval b \<and> bval b < 2 ^ 63)
    \<and> sint c = wrap64 (bval b)"
proof -
  obtain z where z: "ToBigInt64 StringToBigInt (BigIntValue b) = Inr z" "bigint_wf z" "bval z = wrap64 (bval b)"
    using ToBigInt64_ok [OF assms] by (auto simp: returns_def)
  have "GetLength z \<le> 2"
    using wrap64_range [of "bval b"] z(3) by (intro short_length [OF z(2)]) simp
  then have "uint (ToUint64 z) = bval b mod 2 ^ 64"
    using ToUint64_mod [OF z(2)] z(3) wrap64_mod by simp
  then have "sint (ToInt64 z) = wrap64 (bval b)" unfolding ToInt64_def by (rule sint_wrap64)
  moreover have "Equal z b \<longleftrightarrow> - (2 ^ 63) \<le> bval b \<and> bval b < 2 ^ 63"
    using Equal_bval [OF z(2) b] z(3) wrap64_id by simp
  ultimately show ?thesis using z(1) by (simp add: BigIntToInt64_def boolean_to_bigint_def)
qed

lemma BigIntToUint64_ok:
  assumes b: "bigint_wf b" and len: "GetLength b < MAXSIZE"
  shows "\<exists>c. BigIntToUint64 StringToBigInt (BigIntValue b) = Inr (c, 0 \<le> bval b \<and> bval b < 2 ^ 64)
    \<and> uint c = bval b mod 2 ^ 64"
proof -
  obtain z where z: "ToBigUint64 StringToBigInt (BigIntValue b) = Inr z" "bigint_wf z" "bval z = bval b mod 2 ^ 64"
    using ToBigUint64_ok [OF assms] by (auto simp: returns_def)
  have "GetLength z \<le> 2" using z(3) by (intro short_length [OF z(2)]) simp
  then have "uint (ToUint64 z) = bval b mod 2 ^ 64" using ToUint64_mod [OF z(2)] z(3) by simp
  moreover have "bval b mod 2 ^ 64 = bval b \<longleftrightarrow> 0 \<le> bval b \<and> bval b < 2 ^ 64"
    by (metis mod_pos_pos_trivial pos_mod_bound pos_mod_sign zero_less_numeral zero_less_power)
  then have "Equal z b \<longleftrightarrow> 0 \<le> bval b \<and> bval b < 2 ^ 64"
    using Equal_bval [OF z(2) b] z(3) by simp
  ultimately show ?thesis using z(1) by (simp add: BigIntToUint64_def boolean_to_bigint_def)
qed

section \<open>Words\<close>

fun words_val :: "u64 list \<Rightarrow> nat" where
  "words_val [] = 0"
| "words_val (w # ws) = unat w + 18446744073709551616 * words_val ws"

lemma dval_word_digits: "dval (word_digits ws) = words_val ws"
proof (induction ws)
  case (Cons w ws)
  have "unat w = unat w mod 4294967296 + 4294967296 * (unat w div 4294967296)" by simp
  with Cons show ?case
    unfolding word_digits.simps DATEBITS_eq dval.simps words_val.simps word64_halves(2)
    unfolding word64_halves(1) by simp
qed simp

lemma length_word_digits [simp]: "length (word_digits ws) = 2 * length ws"
  by (induction ws) simp_all

lemma CreateBigWords_ok:
  assumes "length ws = unat sz" and "unat sz < 2147483648"
  shows "if 2 * unat sz \<le> MAXSIZE then returns (CreateBigWords neg sz ws) (signed_mag neg (words_val ws))
    else CreateBigWords neg sz ws = Inl size_exceeded"
proof -
  have two: "unat (sz * 2) = 2 * unat sz" using assms(2) by (simp add: unat_word_ariths)
  show ?thesis
  proof (cases "sz = 0")
    case True
    then have "words_val ws = 0" using assms(1) by (cases ws) simp_all
    then show ?thesis
      using True Uint64ToBigInt_ok [of 0] by (simp add: CreateBigWords_def signed_mag_def)
  next
    case False
    then have "word_digits ws \<noteq> []" using assms(1) by (cases ws) (auto simp: unat_gt_0 unat_eq_zero)
    then show ?thesis
      using False two assms(1)
      by (auto simp: CreateBigWords_def Let_def CreateBigint_cases signed_mag_def bval_def bmag_def
          dval_word_digits intro!: returns_RightTruncate)
  qed
qed

section \<open>Truncation to a number of bits\<close>

lemma exp_two:
  assumes b: "digits b = [2]" "\<not> sign b" and e: "bigint_wf e" "bmag e = n" "\<not> sign e" "0 < n"
  shows "if n < MAXBITS then returns (Exponentiate b e) (2 ^ n) else Exponentiate b e = Inl size_exceeded"
proof -
  have nz: "\<not> IsZero e" using bmag_zero_iff [OF e(1)] e(2,4) by simp
  have nz': "\<not> IsZero b" using b by (simp add: IsZero_def)
  show ?thesis
  proof (cases "GetLength e > 1")
    case True
    then have "4294967296 \<le> n" using wf_mag_ge [OF e(1)] e(2) by simp
    then show ?thesis using True nz nz' e(3) b by (simp add: Exponentiate_def MAXBITS_def Let_def)
  next
    case False
    then have one: "GetLength e = 1" using wf_nonempty [OF e(1)] by (cases "digits e") simp_all
    then have n: "unat (GetDigit e 0) = n" using one_digit_mag [OF e(1)] e(2) by simp
    have E: "Exponentiate b e = exp_power_of_two b (GetDigit e 0)"
      using one nz nz' e(3) b by (simp add: Exponentiate_def Let_def)
    have "bval b = 2" using b by (simp add: bval_def bmag_def)
    moreover have "n div 32 \<le> 32767 \<longleftrightarrow> n < MAXBITS" by (simp add: MAXBITS_def) linarith
    then have "exp_power_of_two b (GetDigit e 0) = Inl size_exceeded \<longleftrightarrow> \<not> n < MAXBITS"
      using n by (simp add: exp_power_of_two_def CreateBigint_cases Let_def)
    ultimately show ?thesis
      using exp_power_of_two_ok [OF b(1), of "GetDigit e 0"] E n
      by (auto simp: returns_def)
  qed
qed

lemma bigint_eqI:
  assumes "bigint_wf x" and "bigint_wf y" and "bval x = bval y"
  shows "x = (y :: bigint)"
proof -
  have "Equal x y" using Equal_bval assms by blast
  then have "sign x = sign y" and "digits x = digits y"
    by (auto simp: Equal_def intro: nth_equalityI)
  then show ?thesis by simp
qed

lemma two_bigint: "Int64ToBigInt 2 = Inr \<lparr>sign = False, digits = [2]\<rparr>"
proof -
  obtain z where z: "Int64ToBigInt 2 = Inr z" "bigint_wf z" "bval z = 2"
    using Int64ToBigInt_ok [of 2] by (auto simp: returns_def)
  moreover have "bigint_wf \<lparr>sign = False, digits = [2]\<rparr>" and "bval \<lparr>sign = False, digits = [2]\<rparr> = 2"
    by (simp_all add: bigint_wf_def bval_def bmag_def)
  ultimately show ?thesis using bigint_eqI by metis
qed

lemma exponent_bigint:
  assumes "returns m (int n)"
  obtains e where "m = Inr e" and "bigint_wf e" and "bmag e = n" and "\<not> sign e"
proof -
  obtain e where e: "m = Inr e" "bigint_wf e" "bval e = int n" using assms by (auto simp: returns_def)
  moreover from e have "\<not> sign e" using wf_nonneg by simp
  ultimately show thesis using that by (simp add: bval_def)
qed

lemma power_of_two_bigint:
  assumes "n < MAXBITS" and "returns m (int n)"
  obtains e t where "m = Inr e" and "Exponentiate \<lparr>sign = False, digits = [2]\<rparr> e = Inr t"
    and "bigint_wf t" and "bval t = 2 ^ n"
proof -
  obtain e where e: "m = Inr e" "bigint_wf e" "bmag e = n" "\<not> sign e" using assms(2) by (rule exponent_bigint)
  have "returns (Exponentiate \<lparr>sign = False, digits = [2]\<rparr> e) (2 ^ n)"
  proof (cases "n = 0")
    case True
    then have "IsZero e" using bmag_zero_iff [OF e(2)] e(3) by simp
    then show ?thesis using True e(4) by (simp add: Exponentiate_def returns_def bigint_wf_def bval_def bmag_def)
  next
    case False
    then show ?thesis using exp_two [of "\<lparr>sign = False, digits = [2]\<rparr>" e n] e assms(1) by simp
  qed
  then show thesis using that e(1) by (auto simp: returns_def)
qed

lemma small64:
  assumes "n < 9223372036854775808"
  shows "unat (word_of_nat n :: 64 word) = n" and "sint (word_of_nat n :: 64 word) = int n"
proof -
  show u: "unat (word_of_nat n :: 64 word) = n" using assms by (simp add: unat_of_nat)
  have "uint (word_of_nat n :: 64 word) = int (unat (word_of_nat n :: 64 word))" by simp
  also have "\<dots> = int n mod 2 ^ 64" unfolding u using assms by simp
  finally have "sint (word_of_nat n :: 64 word) = wrap64 (int n)" by (rule sint_wrap64)
  then show "sint (word_of_nat n :: 64 word) = int n" using wrap64_id [of "int n"] assms by simp
qed

lemma small64_nonzero: "0 < n \<Longrightarrow> n < 9223372036854775808 \<Longrightarrow> (word_of_nat n :: 64 word) \<noteq> 0"
  using small64(1) by fastforce

lemma AsUintN_ok:
  assumes b: "bigint_wf b" "GetLength b < MAXSIZE" and n: "0 < n" "n < MAXBITS"
  shows "returns (AsUintN (word_of_nat n) b) (bval b mod 2 ^ n)"
proof -
  have n63: "n < 9223372036854775808" using n(2) by (simp add: MAXBITS_def)
  note nz = small64_nonzero [OF n(1) n63]
  show ?thesis
  proof (cases "IsZero b")
    case True
    then have "bval b = 0" using bmag_zero_iff [OF b(1)] by (simp add: bval_def)
    then show ?thesis using True nz b(1) by (simp add: AsUintN_def returns_def)
  next
    case False
    have "returns (Uint64ToBigInt (word_of_nat n)) (int n)"
      using Uint64ToBigInt_ok [of "word_of_nat n"] small64(1) [OF n63] by simp
    from power_of_two_bigint [OF n(2) this] obtain e t where
      e: "Uint64ToBigInt (word_of_nat n) = Inr e" "Exponentiate \<lparr>sign = False, digits = [2]\<rparr> e = Inr t"
      and t: "bigint_wf t" "bval t = 2 ^ n" by blast
    have "\<not> sint (word_of_nat n :: 64 word) \<ge> kMaxLengthBits"
      using small64(2) [OF n63] n(2) by (simp add: kMaxLengthBits_def MAXBITS_def)
    then have "AsUintN (word_of_nat n) b = FloorMod b t"
      using nz False e two_bigint by (simp add: AsUintN_def)
    then show ?thesis
      using FloorMod_ok [OF b(1) t(1)] t(2) b(2) by (simp add: long_division_def)
  qed
qed

text \<open>Between the size limit and \<open>kMaxLengthBits\<close> the power itself cannot be represented.\<close>

lemma AsUintN_too_many_bits:
  assumes "bigint_wf b" and "\<not> IsZero b" and "MAXBITS \<le> n" and "int n < kMaxLengthBits"
  shows "AsUintN (word_of_nat n) b = Inl size_exceeded"
proof -
  have n63: "n < 9223372036854775808" using assms(4) by (simp add: kMaxLengthBits_def)
  have n0: "0 < n" using assms(3) by (simp add: MAXBITS_def)
  have "returns (Uint64ToBigInt (word_of_nat n)) (int n)"
    using Uint64ToBigInt_ok [of "word_of_nat n"] small64(1) [OF n63] by simp
  then obtain e where e: "Uint64ToBigInt (word_of_nat n) = Inr e" "bigint_wf e" "bmag e = n" "\<not> sign e"
    by (rule exponent_bigint)
  then have "Exponentiate \<lparr>sign = False, digits = [2]\<rparr> e = Inl size_exceeded"
    using exp_two [of "\<lparr>sign = False, digits = [2]\<rparr>" e n] assms(3) n0 by simp
  then show ?thesis
    using e(1) assms(2,4) small64_nonzero [OF n0 n63] small64(2) [OF n63] two_bigint
    by (simp add: AsUintN_def)
qed

definition signed_mod :: "nat \<Rightarrow> int \<Rightarrow> int" where
  "signed_mod n v = (if v mod 2 ^ n < 2 ^ (n - 1) then v mod 2 ^ n else v mod 2 ^ n - 2 ^ n)"

lemma AsintN_ok:
  assumes b: "bigint_wf b" "GetLength b < MAXSIZE" and n: "0 < n" "n < MAXBITS"
  shows "returns (AsintN (word_of_nat n) b) (signed_mod n (bval b))"
proof -
  have n63: "n < 9223372036854775808" "n - 1 < 9223372036854775808" using n(2) by (simp_all add: MAXBITS_def)
  note nz = small64_nonzero [OF n(1) n63(1)]
  show ?thesis
  proof (cases "IsZero b")
    case True
    then have "bval b = 0" using bmag_zero_iff [OF b(1)] by (simp add: bval_def)
    then show ?thesis using True nz b(1) by (simp add: AsintN_def returns_def signed_mod_def)
  next
    case False
    have "word_of_nat n - 1 = (word_of_nat (n - 1) :: 64 word)" using n(1) by (simp add: of_nat_diff)
    then have "returns (Int64ToBigInt (word_of_nat n)) (int n)"
      and "returns (Int64ToBigInt (word_of_nat n - 1)) (int (n - 1))"
      using Int64ToBigInt_ok [of "word_of_nat n"] Int64ToBigInt_ok [of "word_of_nat (n - 1)"]
        small64(2) [OF n63(1)] small64(2) [OF n63(2)] by simp_all
    then obtain e t e' r where
      e: "Int64ToBigInt (word_of_nat n) = Inr e" "Exponentiate \<lparr>sign = False, digits = [2]\<rparr> e = Inr t"
      and t: "bigint_wf t" "bval t = 2 ^ n"
      and e': "Int64ToBigInt (word_of_nat n - 1) = Inr e'" "Exponentiate \<lparr>sign = False, digits = [2]\<rparr> e' = Inr r"
      and r: "bigint_wf r" "bval r = 2 ^ (n - 1)"
      using n(2) power_of_two_bigint by (metis less_imp_diff_less)
    obtain m where m: "FloorMod b t = Inr m" "bigint_wf m" "bval m = bval b mod 2 ^ n"
      using FloorMod_ok [OF b(1) t(1)] t(2) b(2) by (auto simp: long_division_def returns_def)
    have sg: "\<not> sign m" "\<not> sign t" using wf_nonneg [OF m(2)] wf_nonneg [OF t(1)] m(3) t(2) by simp_all
    have "\<not> sint (word_of_nat n :: 64 word) \<ge> kMaxLengthBits"
      using small64(2) [OF n63(1)] n(2) by (simp add: kMaxLengthBits_def MAXBITS_def)
    then have "AsintN (word_of_nat n) b = (if Compare r m \<noteq> GREAT then Subtract m t else Inr m)"
      using nz False e e' m(1) two_bigint by (simp add: AsintN_def)
    moreover have "Compare r m \<noteq> GREAT \<longleftrightarrow> \<not> bval b mod 2 ^ n < 2 ^ (n - 1)"
      using Compare_bval [OF r(1) m(2)] r(2) m(3) by auto
    moreover have "returns (Subtract m t) (bval m - bval t)"
      using Subtract_ok [OF m(2) t(1)] sg by simp
    ultimately show ?thesis using m t(2) by (simp add: signed_mod_def returns_def)
  qed
qed

end
