(* ===== verification/BigInt_String.thy ===== *)
theory BigInt_String
  imports BigInt_Conv
begin

text \<open>
  Printing and reading BigInt objects (\<open>ecmascript/js_bigint.cpp\<close>): radix conversion of digit
  strings by repeated division (\<open>Division\<close>, \<open>Conversion\<close>), the binary string of an object
  (\<open>GetBinary\<close>), \<open>ToStdString\<close> and \<open>SetBigInt\<close>.  The loop of \<open>Conversion\<close> does not end for radix 1,
  so it is a partial function, and its result is proved to exist for the radices 2 to 36.
\<close>

section \<open>Definitions\<close>

definition dp :: string where
  "dp = ''0123456789abcdefghijklmnopqrstuvwxyz''"

definition CharToInt :: "char \<Rightarrow> nat" where
  "CharToInt c =
     (let k = of_char c :: nat in
      if 48 \<le> k \<and> k \<le> 57 then k - 48
      else if 65 \<le> k \<and> k \<le> 90 then k - 65 + 10
      else if 97 \<le> k \<and> k \<le> 122 then k - 97 + 10
      else 0)"

text \<open>
  The radices are at most 36, so \<open>currentRadix * remain + digit\<close> stays far below the width of a
  \<open>uint32_t\<close> and is computed on natural numbers.
\<close>

fun division_loop :: "string \<Rightarrow> nat \<Rightarrow> nat \<Rightarrow> nat \<Rightarrow> string \<times> nat" where
  "division_loop [] conversionToRadix currentRadix remain = ([], remain)"
| "division_loop (c # num) conversionToRadix currentRadix remain =
     (let temp = currentRadix * remain + CharToInt c;
          (num', remain') = division_loop num conversionToRadix currentRadix (temp mod conversionToRadix)
      in (dp ! (temp div conversionToRadix) # num', remain'))"

definition Division :: "string \<Rightarrow> nat \<Rightarrow> nat \<Rightarrow> string \<times> nat" where
  "Division num conversionToRadix currentRadix =
     (let (num', remain) = division_loop num conversionToRadix currentRadix 0
      in (dropWhile (\<lambda>c. c = CHR ''0'') num', remain))"

partial_function (option) conversion_loop :: "nat \<Rightarrow> nat \<Rightarrow> string \<Rightarrow> string \<Rightarrow> string option" where
  "conversion_loop conversionToRadix currentRadix newNum res =
     (if newNum = [] then Some res
      else let (newNum', remain) = Division newNum conversionToRadix currentRadix
           in conversion_loop conversionToRadix currentRadix newNum' (dp ! remain # res))"

definition Conversion :: "string \<Rightarrow> nat \<Rightarrow> nat \<Rightarrow> string option" where
  "Conversion num conversionToRadix currentRadix =
     conversion_loop conversionToRadix currentRadix num []"

definition DeZero :: "string \<Rightarrow> string" where
  "DeZero a = (let r = dropWhile (\<lambda>c. c = CHR ''0'') a in if r = [] then ''0'' else r)"

text \<open>The bits of one digit, least significant first; the source fills the string from its end.\<close>

fun bit_chars :: "nat \<Rightarrow> u32 \<Rightarrow> string" where
  "bit_chars 0 val = []"
| "bit_chars (Suc bityLen) val =
     (if val AND 1 \<noteq> 0 then CHR ''1'' else CHR ''0'') # bit_chars bityLen (drop_bit 1 val)"

definition GetBinary :: "bigint \<Rightarrow> string" where
  "GetBinary b = DeZero (rev (concat (map (bit_chars DATEBITS) (digits b))))"

definition ToStdString :: "bigint \<Rightarrow> nat \<Rightarrow> string option" where
  "ToStdString b conversionToRadix =
     map_option (\<lambda>res. if sign b then CHR ''-'' # res else res)
       (Conversion (GetBinary b) conversionToRadix 2)"

text \<open>The inner loops of \<open>SetBigInt\<close> read the bits of one digit, most significant first.\<close>

definition read_digit :: "string \<Rightarrow> u32" where
  "read_digit s = foldl (\<lambda>val c. push_bit 1 val OR word_of_nat (of_char c - 48)) 0 s"

fun read_digits :: "nat \<Rightarrow> string \<Rightarrow> u32 list" where
  "read_digits 0 s = []"
| "read_digits (Suc n) s = read_digits n (drop DATEBITS s) @ [read_digit (take DATEBITS s)]"

definition SetBigInt :: "string \<Rightarrow> nat \<Rightarrow> bigint result option" where
  "SetBigInt numStr currentRadix =
     (let flag = (numStr \<noteq> [] \<and> hd numStr = CHR ''-'');
          body = (if flag then tl numStr else numStr)
      in map_option (\<lambda>binaryStr.
           let binaryStrLen = length binaryStr;
               len = binaryStrLen div DATEBITS;
               modulo = binaryStrLen mod DATEBITS;
               high = (if modulo = 0 then [] else [read_digit (take modulo binaryStr)])
           in bind_result (CreateBigint (len + length high)) (\<lambda>b.
                RightTruncate (b\<lparr>digits := read_digits len (drop modulo binaryStr) @ high, sign := flag\<rparr>)))
         (if currentRadix \<noteq> 2 then Conversion body 2 currentRadix else Some body))"

section \<open>Digit strings\<close>

definition sval :: "nat \<Rightarrow> string \<Rightarrow> nat" where
  "sval radix s = foldl (\<lambda>a c. a * radix + CharToInt c) 0 s"

definition valid_digits :: "nat \<Rightarrow> string \<Rightarrow> bool" where
  "valid_digits radix s \<longleftrightarrow> (\<forall>c \<in> set s. CharToInt c < radix \<and> c = dp ! CharToInt c)"

lemma map_CharToInt_dp: "map CharToInt dp = [0..<36]"
  by code_simp

lemma length_dp: "length dp = 36"
  by (simp add: dp_def)

lemma CharToInt_dp: "k < 36 \<Longrightarrow> CharToInt (dp ! k) = k"
  using arg_cong [OF map_CharToInt_dp, of "\<lambda>xs. xs ! k"] by (simp add: length_dp)

lemma dp_zero: "k < 36 \<Longrightarrow> dp ! k = CHR ''0'' \<longleftrightarrow> k = 0"
  using CharToInt_dp [of k] CharToInt_dp [of 0] by (auto simp: dp_def)

lemma foldl_radix: "foldl (\<lambda>a c. a * radix + CharToInt c) a s = a * radix ^ length s + sval radix s"
proof (induction s arbitrary: a)
  case (Cons c s)
  show ?case
    using Cons [of "a * radix + CharToInt c"] Cons [of "CharToInt c"]
    by (simp add: sval_def algebra_simps)
qed (simp add: sval_def)

lemma sval_Nil [simp]: "sval radix [] = 0"
  by (simp add: sval_def)

lemma sval_Cons [simp]: "sval radix (c # s) = CharToInt c * radix ^ length s + sval radix s"
  using foldl_radix [of radix "CharToInt c" s] by (simp add: sval_def)

lemma sval_append: "sval radix (s @ t) = sval radix s * radix ^ length t + sval radix t"
proof -
  have "sval radix (s @ t) = foldl (\<lambda>a c. a * radix + CharToInt c) (sval radix s) t"
    by (simp add: sval_def)
  then show ?thesis by (simp only: foldl_radix)
qed

lemma sval_dropWhile: "sval radix (dropWhile (\<lambda>c. c = CHR ''0'') s) = sval radix s"
  by (induction s) (simp_all add: CharToInt_def)

lemma valid_dropWhile: "valid_digits radix s \<Longrightarrow> valid_digits radix (dropWhile P s)"
  by (auto simp: valid_digits_def dest: set_dropWhileD)

lemma division_loop_spec:
  assumes "0 < to" and "cur \<le> 36"
  shows "division_loop s to cur r = (s', r') \<Longrightarrow> r < to \<Longrightarrow> valid_digits cur s \<Longrightarrow>
    length s' = length s \<and> valid_digits cur s' \<and> r' < to \<and>
    r * cur ^ length s + sval cur s = sval cur s' * to + r'"
proof (induction s arbitrary: r s' r')
  case (Cons c s)
  define temp where "temp = cur * r + CharToInt c"
  obtain t where t: "division_loop s to cur (temp mod to) = (t, r')" and s': "s' = dp ! (temp div to) # t"
    using Cons.prems(1) by (auto simp: temp_def Let_def split: prod.splits)
  have c: "CharToInt c < cur" and s: "valid_digits cur s" using Cons.prems(3) by (simp_all add: valid_digits_def)
  have "temp < cur * (r + 1)" using c by (simp add: temp_def)
  also have "\<dots> \<le> cur * to" using Cons.prems(2) by (intro mult_le_mono2) simp
  finally have q: "temp div to < cur" by (rule less_mult_imp_div_less)
  then have q': "CharToInt (dp ! (temp div to)) = temp div to" using assms(2) by (intro CharToInt_dp) simp
  have IH: "length t = length s \<and> valid_digits cur t \<and> r' < to \<and>
      temp mod to * cur ^ length s + sval cur s = sval cur t * to + r'"
    using Cons.IH [OF t _ s] assms(1) by simp
  have "r * cur ^ length (c # s) + sval cur (c # s) = temp * cur ^ length s + sval cur s"
    by (simp add: temp_def algebra_simps)
  also have "\<dots> = (temp div to * to + temp mod to) * cur ^ length s + sval cur s" by simp
  also have "\<dots> = (temp div to * cur ^ length s + sval cur t) * to + r'"
    using IH by (simp only: distrib_right add.assoc) (simp add: algebra_simps)
  finally show ?case using IH q q' by (simp add: s' valid_digits_def)
qed simp

lemma dp_0: "dp ! 0 = CHR ''0''" and dp_1: "dp ! 1 = CHR ''1''"
  by (simp_all add: dp_def)

lemma valid_pos:
  assumes "valid_digits radix s" and "s \<noteq> []" and "hd s \<noteq> CHR ''0''"
  shows "radix ^ (length s - 1) \<le> sval radix s"
proof -
  obtain c t where s: "s = c # t" using assms(2) by (cases s) auto
  have "c = dp ! CharToInt c" and "c \<noteq> dp ! 0"
    using assms(1,3) by (auto simp: s valid_digits_def dp_0)
  then have "CharToInt c \<noteq> 0" by metis
  then have "1 * radix ^ length t \<le> CharToInt c * radix ^ length t" by (intro mult_le_mono1) simp
  then show ?thesis unfolding s sval_Cons length_Cons diff_Suc_1 by linarith
qed

lemma Division_spec:
  assumes "0 < to" and "cur \<le> 36" and "valid_digits cur s" and "Division s to cur = (s', r)"
  shows "valid_digits cur s'" and "r = sval cur s mod to" and "sval cur s' = sval cur s div to"
    and "s' \<noteq> [] \<Longrightarrow> hd s' \<noteq> CHR ''0''"
proof -
  obtain t where t: "division_loop s to cur 0 = (t, r)" and s': "s' = dropWhile (\<lambda>c. c = CHR ''0'') t"
    using assms(4) by (auto simp: Division_def split: prod.splits)
  have spec: "valid_digits cur t" "r < to" "sval cur s = sval cur t * to + r"
    using division_loop_spec [OF assms(1,2) t assms(1,3)] by simp_all
  show "valid_digits cur s'" unfolding s' by (rule valid_dropWhile [OF spec(1)])
  show "r = sval cur s mod to" and "sval cur s' = sval cur s div to"
    using spec(2,3) by (simp_all add: s' sval_dropWhile)
  show "s' \<noteq> [] \<Longrightarrow> hd s' \<noteq> CHR ''0''" unfolding s' by (rule hd_dropWhile)
qed

text \<open>No superfluous leading zero.\<close>

definition canonical :: "string \<Rightarrow> bool" where
  "canonical s \<longleftrightarrow> s \<noteq> [] \<and> (hd s = CHR ''0'' \<longrightarrow> s = ''0'')"

lemma conversion_loop_spec:
  assumes to: "2 \<le> to" "to \<le> 36" and cur: "1 < cur" "cur \<le> 36"
  shows "valid_digits cur s \<Longrightarrow> s \<noteq> [] \<Longrightarrow>
    \<exists>t. conversion_loop to cur s res = Some (t @ res) \<and> valid_digits to t \<and> sval to t = sval cur s \<and> canonical t"
proof (induction "sval cur s" arbitrary: s res rule: less_induct)
  case less
  obtain s' r where D: "Division s to cur = (s', r)" by (meson surj_pair)
  have to0: "0 < to" using to(1) by simp
  note spec = Division_spec [OF to0 cur(2) less.prems(1) D]
  have "r < to" using to0 by (simp add: spec(2))
  then have r: "CharToInt (dp ! r) = r" "r < 36" using to(2) by (simp_all add: CharToInt_dp)
  have vr: "valid_digits to [dp ! r]" using r \<open>r < to\<close> by (simp add: valid_digits_def)
  have step: "conversion_loop to cur s res = conversion_loop to cur s' (dp ! r # res)"
    using less.prems(2) D by (subst conversion_loop.simps) simp
  show ?case
  proof (cases "s' = []")
    case True
    have "sval cur s div to = 0" using spec(3) True by simp
    then have "sval cur s = r" using spec(2) to0 by (simp add: div_eq_0_iff)
    moreover have "conversion_loop to cur s res = Some ([dp ! r] @ res)"
      using step True by (simp add: conversion_loop.simps [of to cur "[]"])
    moreover have "canonical [dp ! r]" by (simp add: canonical_def)
    ultimately show ?thesis using vr r by (intro exI [of _ "[dp ! r]"]) simp
  next
    case False
    have "cur ^ (length s' - 1) \<le> sval cur s'" using valid_pos [OF spec(1) False spec(4) [OF False]] .
    moreover have "0 < cur ^ (length s' - 1)" using cur(1) by simp
    ultimately have pos: "0 < sval cur s'" by linarith
    then have "0 < sval cur s" using spec(3) by (cases "sval cur s") simp_all
    then have "sval cur s' < sval cur s" unfolding spec(3) using to(1) by (intro div_less_dividend) simp_all
    then obtain t where t: "conversion_loop to cur s' (dp ! r # res) = Some (t @ dp ! r # res)"
      "valid_digits to t" "sval to t = sval cur s'" "canonical t"
      using less.hyps [OF _ spec(1) False] by blast
    have "hd t \<noteq> CHR ''0''" using t(3,4) pos by (auto simp: canonical_def CharToInt_def)
    then have "canonical (t @ [dp ! r])" using t(4) by (simp add: canonical_def)
    moreover have "sval to (t @ [dp ! r]) = sval cur s"
      using t(3) r spec(2,3) by (simp add: sval_append)
    moreover have "valid_digits to (t @ [dp ! r])" using t(2) vr by (auto simp: valid_digits_def)
    ultimately show ?thesis using step t(1) by (intro exI [of _ "t @ [dp ! r]"]) simp
  qed
qed

lemma Conversion_ok:
  assumes "2 \<le> to" "to \<le> 36" and "1 < cur" "cur \<le> 36" and "valid_digits cur s" and "s \<noteq> []"
  obtains t where "Conversion s to cur = Some t" and "valid_digits to t" and "sval to t = sval cur s"
    and "canonical t"
  using conversion_loop_spec [OF assms, of "[]"] by (auto simp: Conversion_def)

section \<open>Printing\<close>

lemma length_bit_chars [simp]: "length (bit_chars n v) = n"
  by (induction n v rule: bit_chars.induct) simp_all

lemma bit_char_val: "CharToInt (if P then CHR ''1'' else CHR ''0'') = of_bool P"
  by (simp add: CharToInt_def Let_def)

lemma sval_bit_chars: "sval 2 (rev (bit_chars n v)) = unat v mod 2 ^ n"
proof (induction n v rule: bit_chars.induct)
  case (2 n v)
  have "unat (drop_bit 1 v) = unat v div 2" by (simp add: unat_shr)
  moreover have "unat v mod 2 ^ Suc n = unat v mod 2 + 2 * (unat v div 2 mod 2 ^ n)"
    by (simp add: mod_mult2_eq add.commute)
  ultimately show ?case
    using 2 by (simp add: sval_append bit_char_val and_one_nonzero mod_2_eq_odd del: One_nat_def)
qed simp

lemma valid_bit_chars: "c \<in> set (bit_chars n v) \<Longrightarrow> c = CHR ''0'' \<or> c = CHR ''1''"
  by (induction n v rule: bit_chars.induct) (auto split: if_splits)

lemma valid_binary: "valid_digits 2 s \<longleftrightarrow> set s \<subseteq> {CHR ''0'', CHR ''1''}"
proof -
  have "CharToInt c < 2 \<and> c = dp ! CharToInt c \<longleftrightarrow> c = CHR ''0'' \<or> c = CHR ''1''" for c
  proof
    assume c: "CharToInt c < 2 \<and> c = dp ! CharToInt c"
    then have "CharToInt c = 0 \<or> CharToInt c = 1" by linarith
    with c show "c = CHR ''0'' \<or> c = CHR ''1''" using dp_0 dp_1 by metis
  next
    assume "c = CHR ''0'' \<or> c = CHR ''1''"
    moreover have "CharToInt (CHR ''0'') = 0" "CharToInt (CHR ''1'') = 1"
      by (simp_all add: CharToInt_def)
    ultimately show "CharToInt c < 2 \<and> c = dp ! CharToInt c" using dp_0 dp_1 by auto
  qed
  then show ?thesis by (auto simp: valid_digits_def)
qed

lemma GetBinary_ok: "sval 2 (GetBinary b) = bmag b" "valid_digits 2 (GetBinary b)" "GetBinary b \<noteq> []"
proof -
  define bits where "bits = (\<lambda>ds. rev (concat (map (bit_chars 32) ds)))"
  have val: "sval 2 (bits ds) = dval ds" for ds
  proof (induction ds)
    case (Cons d ds)
    have "sval 2 (rev (bit_chars 32 d)) = unat d"
      unfolding sval_bit_chars using word32_bound [of d] by simp
    with Cons show ?case by (simp add: bits_def sval_append)
  qed (simp add: bits_def)
  have "set (bits ds) \<subseteq> {CHR ''0'', CHR ''1''}" for ds
    by (auto simp: bits_def dest!: valid_bit_chars)
  then have "valid_digits 2 (bits (digits b))" using valid_binary by blast
  moreover define r where "r = dropWhile (\<lambda>c. c = CHR ''0'') (bits (digits b))"
  ultimately have r: "valid_digits 2 r" "sval 2 r = bmag b"
    by (simp_all add: valid_dropWhile sval_dropWhile val bmag_def)
  have G: "GetBinary b = (if r = [] then ''0'' else r)"
    by (simp add: GetBinary_def DeZero_def Let_def r_def bits_def)
  show "GetBinary b \<noteq> []" "valid_digits 2 (GetBinary b)"
    using r(1) by (simp_all add: G valid_binary)
  show "sval 2 (GetBinary b) = bmag b"
    using r(2) by (cases "r = []") (simp_all add: G CharToInt_def)
qed

lemma ToStdString_ok:
  assumes "2 \<le> radix" "radix \<le> 36"
  obtains t where "ToStdString b radix = Some (if sign b then CHR ''-'' # t else t)"
    and "valid_digits radix t" and "sval radix t = bmag b" and "canonical t"
proof -
  have "(1 :: nat) < 2" "(2 :: nat) \<le> 36" by simp_all
  from Conversion_ok [OF assms this GetBinary_ok(2,3)] obtain t
    where "Conversion (GetBinary b) radix 2 = Some t" "valid_digits radix t"
      "sval radix t = sval 2 (GetBinary b)" "canonical t" .
  then show thesis using that GetBinary_ok(1) [of b] by (simp add: ToStdString_def)
qed

section \<open>Reading\<close>

lemma binary_digit:
  assumes "c = CHR ''0'' \<or> c = CHR ''1''"
  shows "of_char c - 48 = CharToInt c" and "CharToInt c < 2"
  using assms by (auto simp: CharToInt_def)

lemma foldl_read_digit:
  fixes v :: u32
  shows "valid_digits 2 s \<Longrightarrow> unat v * 2 ^ length s + sval 2 s < 4294967296 \<Longrightarrow>
   unat (foldl (\<lambda>val c. push_bit 1 val OR word_of_nat (of_char c - 48)) v s) = unat v * 2 ^ length s + sval 2 s"
proof (induction s arbitrary: v)
  case (Cons c s)
  have c: "of_char c - 48 = CharToInt c" "CharToInt c < 2" and s: "valid_digits 2 s"
    using Cons.prems(1) binary_digit [of c] by (auto simp: valid_binary)
  have u: "unat (word_of_nat (CharToInt c) :: u32) = CharToInt c" using c(2) by (simp add: unat_of_nat)
  have "unat v * 2 * 2 ^ length s < 2147483648 * 2 * 2 ^ length s"
  proof -
    have "unat v * 2 * 2 ^ length s < 4294967296 * 1" using Cons.prems(2) by simp
    also have "\<dots> \<le> 4294967296 * 2 ^ length s" by (intro mult_le_mono2) simp
    finally show ?thesis by simp
  qed
  then have v: "unat v < 2147483648" by simp
  define w where "w = push_bit 1 v OR word_of_nat (CharToInt c)"
  have w: "unat w = 2 * unat v + CharToInt c"
    unfolding w_def using unat_shl_or [of 1 "word_of_nat (CharToInt c)" v] c(2) u v by simp
  have eq: "unat w * 2 ^ length s + sval 2 s = unat v * 2 ^ length (c # s) + sval 2 (c # s)"
    by (simp add: w algebra_simps)
  have "foldl (\<lambda>val c. push_bit 1 val OR word_of_nat (of_char c - 48)) v (c # s)
      = foldl (\<lambda>val c. push_bit 1 val OR word_of_nat (of_char c - 48)) w s"
    by (simp only: foldl_Cons w_def c(1))
  then show ?case using Cons.IH [OF s, of w] Cons.prems(2) eq by simp
qed simp

lemma sval_binary_bound: "valid_digits 2 s \<Longrightarrow> sval 2 s < 2 ^ length s"
proof (induction s)
  case (Cons c s)
  then have "CharToInt c \<le> 1" "sval 2 s < 2 ^ length s" by (auto simp: valid_digits_def)
  then have "CharToInt c * 2 ^ length s \<le> 1 * 2 ^ length s" by (intro mult_le_mono1)
  then show ?case
    using \<open>sval 2 s < 2 ^ length s\<close> unfolding sval_Cons length_Cons power_Suc by linarith
qed simp

lemma unat_read_digit: "valid_digits 2 s \<Longrightarrow> length s \<le> 32 \<Longrightarrow> unat (read_digit s) = sval 2 s"
proof -
  assume s: "valid_digits 2 s" "length s \<le> 32"
  have "sval 2 s < 2 ^ length s" by (rule sval_binary_bound [OF s(1)])
  also have "\<dots> \<le> 2 ^ 32" using s(2) by (intro power_increasing) simp_all
  finally show ?thesis using foldl_read_digit [OF s(1), of 0] by (simp add: read_digit_def)
qed

lemma valid_take_drop: "valid_digits r s \<Longrightarrow> valid_digits r (take n s)" "valid_digits r s \<Longrightarrow> valid_digits r (drop n s)"
  by (auto simp: valid_digits_def dest: in_set_takeD in_set_dropD)

lemma dval_read_digits:
  "valid_digits 2 s \<Longrightarrow> length s = 32 * n \<Longrightarrow>
   length (read_digits n s) = n \<and> dval (read_digits n s) = sval 2 s"
proof (induction n s rule: read_digits.induct)
  case (2 n s)
  have IH: "length (read_digits n (drop 32 s)) = n" "dval (read_digits n (drop 32 s)) = sval 2 (drop 32 s)"
    using "2.IH" "2.prems" valid_take_drop(2) by simp_all
  have "unat (read_digit (take 32 s)) = sval 2 (take 32 s)"
    using "2.prems" valid_take_drop(1) by (intro unat_read_digit) simp_all
  moreover have "sval 2 s = sval 2 (take 32 s) * 2 ^ (32 * n) + sval 2 (drop 32 s)"
    using sval_append [of 2 "take 32 s" "drop 32 s"] "2.prems"(2) by simp
  ultimately show ?case using IH by (simp add: dval_append pow_digits)
qed simp

lemma binary_to_digits:
  assumes "valid_digits 2 s" and "s \<noteq> []"
  defines "m \<equiv> length s mod 32"
  defines "high \<equiv> (if m = 0 then [] else [read_digit (take m s)])"
  defines "ds \<equiv> read_digits (length s div 32) (drop m s) @ high"
  shows "dval ds = sval 2 s" and "length ds = length s div 32 + length high" and "ds \<noteq> []"
proof -
  have len: "length (drop m s) = 32 * (length s div 32)" by (simp add: m_def minus_mod_eq_mult_div)
  note low = dval_read_digits [OF valid_take_drop(2) [OF assms(1)] len]
  have top: "dval high = sval 2 (take m s)"
  proof (cases "m = 0")
    case False
    have "unat (read_digit (take m s)) = sval 2 (take m s)"
      by (rule unat_read_digit [OF valid_take_drop(1) [OF assms(1)]]) (simp add: m_def min_le_iff_disj less_imp_le)
    then show ?thesis using False by (simp add: high_def)
  qed (simp add: high_def)
  have "sval 2 s = sval 2 (take m s) * 2 ^ (32 * (length s div 32)) + sval 2 (drop m s)"
    using sval_append [of 2 "take m s" "drop m s"] len by simp
  then show "dval ds = sval 2 s" using low top by (simp add: ds_def dval_append pow_digits)
  show l: "length ds = length s div 32 + length high" using low by (simp add: ds_def)
  have "length s = 32 * (length s div 32) + m" by (simp add: m_def)
  moreover have "0 < length s" using assms(2) by simp
  ultimately have "0 < length s div 32 \<or> m \<noteq> 0" by linarith
  then have "0 < length s div 32 + length high" by (auto simp: high_def)
  then show "ds \<noteq> []" using l by auto
qed

lemma SetBigInt_binary:
  assumes body: "valid_digits 2 bin" "bin \<noteq> []" and len: "length bin \<le> MAXBITS"
    and b: "(if radix \<noteq> 2 then Conversion body 2 radix else Some body) = Some bin"
    and s: "s = (if neg then CHR ''-'' # body else body)" "body \<noteq> []" "hd body \<noteq> CHR ''-''"
  shows "\<exists>r. SetBigInt s radix = Some r \<and> returns r (signed_mag neg (sval 2 bin))"
proof -
  define m where "m = length bin mod 32"
  define high where "high = (if m = 0 then [] else [read_digit (take m bin)])"
  define ds where "ds = read_digits (length bin div 32) (drop m bin) @ high"
  note spec = binary_to_digits [OF body, folded m_def, folded high_def, folded ds_def]
  have "length ds \<le> MAXSIZE"
  proof -
    have "length bin = 32 * (length bin div 32) + length bin mod 32" by simp
    moreover have "length bin \<le> 1048576" using len by (simp add: MAXBITS_def)
    ultimately have "length bin div 32 \<le> 32768" "length bin mod 32 \<noteq> 0 \<Longrightarrow> length bin div 32 < 32768"
      by linarith+
    then show ?thesis unfolding spec(2) by (simp add: high_def m_def Suc_le_eq)
  qed
  moreover have "SetBigInt s radix = Some (bind_result (CreateBigint (length ds))
      (\<lambda>b. RightTruncate (b\<lparr>digits := ds, sign := neg\<rparr>)))"
    using b s unfolding spec(2)
    by (cases neg) (auto simp: SetBigInt_def Let_def m_def high_def ds_def)
  ultimately show ?thesis
    using spec(1,3)
    by (auto simp: CreateBigint_cases signed_mag_def bval_def bmag_def intro!: returns_RightTruncate)
qed

lemma canonical_length:
  assumes "valid_digits 2 t" and "canonical t" and "sval 2 t < 2 ^ k" and "0 < k"
  shows "length t \<le> k"
proof (cases "hd t = CHR ''0''")
  case True
  then show ?thesis using assms(2,4) by (auto simp: canonical_def)
next
  case False
  then have "2 ^ (length t - 1) \<le> sval 2 t"
    using valid_pos [OF assms(1)] assms(2) by (simp add: canonical_def)
  then have "(2 :: nat) ^ (length t - 1) < 2 ^ k" using assms(3) by (rule le_less_trans)
  then have "length t - 1 < k" by (rule power_less_imp_less_exp [rotated]) simp
  then show ?thesis by simp
qed

lemma valid_no_minus: "valid_digits radix t \<Longrightarrow> t \<noteq> [] \<Longrightarrow> hd t \<noteq> CHR ''-''"
proof
  assume t: "valid_digits radix t" "t \<noteq> []" and "hd t = CHR ''-''"
  then have "CHR ''-'' = dp ! CharToInt (CHR ''-'')" by (metis hd_in_set valid_digits_def)
  then show False by (simp add: CharToInt_def dp_def)
qed

lemma bmag_pow: "bigint_wf b \<Longrightarrow> bmag b < 2 ^ MAXBITS"
proof -
  assume "bigint_wf b"
  then have "bmag b < max_mag" by (simp add: bmag_def bigint_wf_def dval_max_mag)
  moreover have "max_mag = 2 ^ (32 * MAXSIZE)" unfolding max_mag_def by (rule pow_digits)
  moreover have "32 * MAXSIZE = MAXBITS" by (simp add: MAXBITS_def)
  ultimately show ?thesis by (simp only:)
qed

lemma string_round_trip:
  assumes b: "bigint_wf b" and radix: "2 \<le> radix" "radix \<le> 36"
  obtains s where "ToStdString b radix = Some s" and "SetBigInt s radix = Some (Inr b)"
proof -
  obtain t where t: "ToStdString b radix = Some (if sign b then CHR ''-'' # t else t)"
    "valid_digits radix t" "sval radix t = bmag b" "canonical t"
    using ToStdString_ok [OF radix] .
  have ne: "t \<noteq> []" using t(4) by (simp add: canonical_def)
  obtain bin where bin: "(if radix \<noteq> 2 then Conversion t 2 radix else Some t) = Some bin"
    "valid_digits 2 bin" "sval 2 bin = bmag b" "canonical bin"
  proof (cases "radix = 2")
    case True
    then show thesis using that [of t] t by simp
  next
    case False
    have "(2 :: nat) \<le> 2" "(2 :: nat) \<le> 36" "1 < radix" using radix by simp_all
    from Conversion_ok [OF this radix(2) t(2) ne] obtain bin
      where "Conversion t 2 radix = Some bin" "valid_digits 2 bin" "sval 2 bin = sval radix t" "canonical bin" .
    then show thesis using that False t(3) by simp
  qed
  have "length bin \<le> MAXBITS"
  proof (rule canonical_length [OF bin(2,4)])
    show "sval 2 bin < 2 ^ MAXBITS" unfolding bin(3) by (rule bmag_pow [OF b])
    show "0 < MAXBITS" by (simp add: MAXBITS_def)
  qed
  moreover have "bin \<noteq> []" using bin(4) by (simp add: canonical_def)
  ultimately obtain r where r: "SetBigInt (if sign b then CHR ''-'' # t else t) radix = Some r"
    "returns r (signed_mag (sign b) (sval 2 bin))"
    using SetBigInt_binary [OF bin(2) _ _ bin(1) refl ne valid_no_minus [OF t(2) ne]] by blast
  have "signed_mag (sign b) (sval 2 bin) = bval b" unfolding bin(3) by (rule signed_mag_self)
  then have "r = Inr b" using r(2) b bigint_eqI by (auto simp: returns_def)
  then show thesis using that t(1) r(1) by blast
qed

end
