(* ===== verification/BigInt_Number.thy ===== *)
theory BigInt_Number
  imports BigInt_Conv
begin

text \<open>
  Conversions and comparisons between BigInt objects and numbers (\<open>ecmascript/js_bigint.cpp\<close>).  A
  \<open>double\<close> is its IEEE-754 bit pattern, which is what the source works on after \<open>memcpy_s\<close>; \<open>dscaled\<close>
  is the value of a finite pattern in units of \<open>2 ^ -1074\<close>, the smallest positive double, so that
  statements about exact values need only integers.
\<close>

section \<open>Double precision bit patterns\<close>

definition DOUBLE_EXPONENT_BIAS :: int where
  "DOUBLE_EXPONENT_BIAS = 0x3FF"

definition DOUBLE_SIGNIFICAND_SIZE :: nat where
  "DOUBLE_SIGNIFICAND_SIZE = 52"

definition DOUBLE_SIGNIFICAND_MASK :: u64 where
  "DOUBLE_SIGNIFICAND_MASK = 0x000FFFFFFFFFFFFF"

definition DOUBLE_HIDDEN_BIT :: u64 where
  "DOUBLE_HIDDEN_BIT = push_bit DOUBLE_SIGNIFICAND_SIZE 1"

definition POSITIVE_INFINITY :: u64 where
  "POSITIVE_INFINITY = 0x7FF0000000000000"

definition dexp :: "u64 \<Rightarrow> nat" where
  "dexp bits = unat (drop_bit DOUBLE_SIGNIFICAND_SIZE bits AND 0x7FF)"

definition dfrac :: "u64 \<Rightarrow> nat" where
  "dfrac bits = unat (bits AND DOUBLE_SIGNIFICAND_MASK)"

definition dneg :: "u64 \<Rightarrow> bool" where
  "dneg bits \<longleftrightarrow> bit bits 63"

text \<open>\<open>std::isnan\<close>, \<open>std::isfinite\<close>, \<open>num < 0\<close>, \<open>num == 0\<close> and \<open>num > 0\<close>.\<close>

definition isnan :: "u64 \<Rightarrow> bool" where
  "isnan bits \<longleftrightarrow> dexp bits = 2047 \<and> dfrac bits \<noteq> 0"

definition isfinite :: "u64 \<Rightarrow> bool" where
  "isfinite bits \<longleftrightarrow> dexp bits \<noteq> 2047"

definition dzero :: "u64 \<Rightarrow> bool" where
  "dzero bits \<longleftrightarrow> dexp bits = 0 \<and> dfrac bits = 0"

definition isneg :: "u64 \<Rightarrow> bool" where
  "isneg bits \<longleftrightarrow> dneg bits \<and> \<not> isnan bits \<and> \<not> dzero bits"

definition ispos :: "u64 \<Rightarrow> bool" where
  "ispos bits \<longleftrightarrow> \<not> dneg bits \<and> \<not> isnan bits \<and> \<not> dzero bits"

definition dmag :: "u64 \<Rightarrow> nat" where
  "dmag bits = (if dexp bits = 0 then dfrac bits else (2 ^ 52 + dfrac bits) * 2 ^ (dexp bits - 1))"

definition dscaled :: "u64 \<Rightarrow> int" where
  "dscaled bits = (if dneg bits then - int (dmag bits) else int (dmag bits))"

text \<open>\<open>JSTaggedValue::IsInteger\<close> of a number: finite and equal to its floor.\<close>

definition IsInteger :: "u64 \<Rightarrow> bool" where
  "IsInteger bits \<longleftrightarrow> isfinite bits \<and> dmag bits mod 2 ^ 1074 = 0"

section \<open>Definitions\<close>

text \<open>
  The rounds of the loops after the first one: the next digit is the high half of \<open>mantissa\<close>.  The
  digits come out most significant first, with the mantissa that is left.
\<close>

fun mantissa_digits :: "nat \<Rightarrow> u64 \<Rightarrow> u32 list \<times> u64" where
  "mantissa_digits 0 mantissa = ([], mantissa)"
| "mantissa_digits (Suc n) mantissa =
     (let doubleNum = ucast (drop_bit DATEBITS mantissa);
          (ds, rest) = mantissa_digits n (push_bit DATEBITS mantissa)
      in (doubleNum # ds, rest))"

definition not_an_integer :: js_error where
  "not_an_integer = RangeError ''The number cannot be converted to a BigInt because it is not an integer''"

definition NumberToBigInt :: "u64 \<Rightarrow> bigint result" where
  "NumberToBigInt num =
     (if \<not> IsInteger num then Inl not_an_integer
      else if dzero num then Int32ToBigInt 0
      else
        let integerDigits = (drop_bit DOUBLE_SIGNIFICAND_SIZE num AND 0x7FF) - word_of_int DOUBLE_EXPONENT_BIAS;
            mayNeedLen = unat integerDigits div DATEBITS + 1
        in bind_result (CreateBigint mayNeedLen) (\<lambda>b.
             let mantissa = (num AND DOUBLE_SIGNIFICAND_MASK) OR DOUBLE_HIDDEN_BIT;
                 leftover = DOUBLE_SIGNIFICAND_SIZE - unat integerDigits mod DATEBITS;
                 first = ucast (drop_bit leftover mantissa);
                 (rest, _) = mantissa_digits (mayNeedLen - 1) (push_bit (64 - leftover) mantissa)
             in RightTruncate (b\<lparr>sign := isneg num, digits := rev (first # rest)\<rparr>)))"

text \<open>0 is less, 1 is greater, -1 is undecided; the second component is \<open>leadingZeros\<close>.\<close>

definition CompareToBitsLen :: "bigint \<Rightarrow> int \<Rightarrow> int \<times> nat" where
  "CompareToBitsLen b numBitLen =
     (let bigintLen = GetLength b;
          BigintHead = GetDigit b (bigintLen - 1);
          leadingZeros = CountLeadingZeros BigintHead;
          bigintBitLen = int (bigintLen * DATEBITS) - int leadingZeros
      in (if bigintBitLen > numBitLen then (if sign b then 0 else 1)
          else if bigintBitLen < numBitLen then (if sign b then 1 else 0)
          else -1, leadingZeros))"

text \<open>
  One round of the comparison, and the rounds over the digits from the top (first to last).  With \<open>debug\<close> the
  assertion \<open>leftover > 0\<close> is checked, and the program ends (\<open>None\<close>) when it does not hold.
\<close>

fun compare_mantissa :: "bool \<Rightarrow> bool \<Rightarrow> u32 list \<Rightarrow> int \<Rightarrow> u64 \<Rightarrow> comparison_result option" where
  "compare_mantissa debug bigintSign [] leftover mantissa =
     (if mantissa \<noteq> 0 then
        if debug \<and> \<not> leftover > 0 then None else Some (if bigintSign then GREAT else LESS)
      else Some EQUAL)"
| "compare_mantissa debug bigintSign (BigintNum # ds) leftover mantissa =
     (let leftover = leftover - int DATEBITS;
          doubleNum = ucast (drop_bit DATEBITS mantissa);
          mantissa' = push_bit DATEBITS mantissa
      in if BigintNum > doubleNum then Some (if bigintSign then LESS else GREAT)
         else if BigintNum < doubleNum then Some (if bigintSign then GREAT else LESS)
         else compare_mantissa debug bigintSign ds (leftover - int DATEBITS) mantissa')"

definition CompareWithNumber :: "bool \<Rightarrow> bigint \<Rightarrow> u64 \<Rightarrow> comparison_result option" where
  "CompareWithNumber debug b num =
     (let numberSign = isneg num in
      if isnan num then Some UNDEFINED
      else if \<not> isfinite num then Some (if \<not> numberSign then LESS else GREAT)
      else
        let integerDigits = int (dexp num) - DOUBLE_EXPONENT_BIAS;
            mantissa = (num AND DOUBLE_SIGNIFICAND_MASK) OR DOUBLE_HIDDEN_BIT;
            bigintSign = sign b
        in if \<not> numberSign \<and> bigintSign then Some LESS
           else if numberSign \<and> \<not> bigintSign then Some GREAT
           else if IsZero b \<and> dzero num then Some EQUAL
           else if IsZero b \<and> ispos num then Some LESS
           else if integerDigits < 0 then Some (if bigintSign then LESS else GREAT)
           else
             let (res, leadingZeros) = CompareToBitsLen b (integerDigits + 1) in
             if res = 0 then Some LESS
             else if res = 1 then Some GREAT
             else
               let leftover = DOUBLE_SIGNIFICAND_SIZE - DATEBITS + leadingZeros + 1;
                   doubleNum = ucast (drop_bit leftover mantissa);
                   mantissa' = push_bit (64 - leftover) mantissa;
                   BigintNum = GetDigit b (GetLength b - 1)
               in if BigintNum > doubleNum then Some (if bigintSign then LESS else GREAT)
                  else if BigintNum < doubleNum then Some (if bigintSign then GREAT else LESS)
                  else compare_mantissa debug bigintSign (rev (butlast (digits b))) (int leftover) mantissa')"

definition CalculateNumber :: "u64 \<Rightarrow> u64 \<Rightarrow> u64 \<Rightarrow> u64" where
  "CalculateNumber sgnbit mantissa exponent =
     (let exponent' = push_bit DOUBLE_SIGNIFICAND_SIZE (exponent + word_of_int DOUBLE_EXPONENT_BIAS)
      in (sgnbit OR exponent') OR mantissa)"

definition Rounding :: "u64 \<Rightarrow> u64 \<Rightarrow> u64 \<Rightarrow> bool \<Rightarrow> u64" where
  "Rounding sgnbit mantissa exponent needRound =
     (if needRound \<or> mantissa AND 1 = 1 then
        let mantissa' = mantissa + 1 in
        if drop_bit DOUBLE_SIGNIFICAND_SIZE mantissa' \<noteq> 0 then
          let exponent' = exponent + 1 in
          if exponent' > word_of_int DOUBLE_EXPONENT_BIAS then
            (if sgnbit \<noteq> 0 then POSITIVE_INFINITY OR push_bit 63 1 else POSITIVE_INFINITY)
          else CalculateNumber sgnbit 0 exponent'
        else CalculateNumber sgnbit mantissa' exponent
      else CalculateNumber sgnbit mantissa exponent)"

text \<open>
  The tail of \<open>BigIntToNumber\<close> after the mantissa is filled, with the values \<open>index\<close>, \<open>digit\<close> and
  \<open>remainDigitBits\<close> have at that point.  The last loop looks for a non-zero digit below \<open>index\<close>.
\<close>

definition round_digits :: "bigint \<Rightarrow> u64 \<Rightarrow> u64 \<Rightarrow> u64 \<Rightarrow> int \<Rightarrow> u32 \<Rightarrow> nat \<Rightarrow> u64" where
  "round_digits b sgnbit mantissa exponent index digit remainDigitBits =
     (let temp = push_bit (remainDigitBits - 1) (1 :: u32) in
      if digit AND temp = 0 then CalculateNumber sgnbit mantissa exponent
      else if digit AND (temp - 1) \<noteq> 0 then Rounding sgnbit mantissa exponent True
      else Rounding sgnbit mantissa exponent (\<exists>i \<in> {0..<nat index}. GetDigit b i \<noteq> 0))"

definition BigIntToNumber :: "bigint \<Rightarrow> u64" where
  "BigIntToNumber b =
     (if IsZero b then 0
      else
        let bigintLen = GetLength b;
            BigintHead = GetDigit b (bigintLen - 1);
            leadingZeros = CountLeadingZeros BigintHead;
            bigintBitLen = int (bigintLen * DATEBITS) - int leadingZeros
        in if bigintBitLen > DOUBLE_EXPONENT_BIAS + 1 then
             (if sign b then POSITIVE_INFINITY OR push_bit 63 1 else POSITIVE_INFINITY)
           else
             let sgnbit = (if sign b then push_bit 63 1 else 0);
                 needMoveBit = leadingZeros + DATEBITS + 1;
                 mantissa0 = (if needMoveBit = 64 then 0
                              else drop_bit 12 (push_bit needMoveBit (ucast BigintHead)));
                 remain0 = int needMoveBit - 12;
                 exponent = word_of_int (bigintBitLen - 1);
                 index0 = int bigintLen - 1
             in if index0 \<le> 0 then CalculateNumber sgnbit mantissa0 exponent
                else
                  let index1 = index0 - 1;
                      digit1 = GetDigit b (nat index1);
                      (mantissa2, remain2, index2) =
                        (if remain0 \<ge> int DATEBITS
                         then (mantissa0 OR push_bit (nat (remain0 - int DATEBITS)) (ucast digit1),
                               remain0 - int DATEBITS, index1 - 1)
                         else (mantissa0, remain0, index1));
                      (mantissa3, remain3, digit3) =
                        (if remain2 > 0 \<and> index2 \<ge> 0
                         then (mantissa2 OR drop_bit (nat (int DATEBITS - remain2)) (ucast (GetDigit b (nat index2))),
                               remain2 - int DATEBITS, GetDigit b (nat index2))
                         else (mantissa2, remain2, digit1))
                  in if remain3 > 0 then CalculateNumber sgnbit mantissa3 exponent
                     else if remain3 < 0 then
                       round_digits b sgnbit mantissa3 exponent index2 digit3 (nat (- remain3))
                     else if index2 \<le> 0 then CalculateNumber sgnbit mantissa3 exponent
                     else round_digits b sgnbit mantissa3 exponent (index2 - 1) (GetDigit b (nat index2)) DATEBITS)"

section \<open>Fields of a bit pattern\<close>

lemma unat_push64: "k \<le> 64 \<Longrightarrow> unat (push_bit k m) = unat m mod 2 ^ (64 - k) * 2 ^ k" for m :: u64
proof -
  assume k: "k \<le> 64"
  have "unat (push_bit k m) = push_bit k (take_bit (64 - k) (unat m))"
    using k by (simp only: unsigned_push_bit_eq take_bit_push_bit) simp
  then show ?thesis by (simp only: push_bit_eq_mult take_bit_eq_mod)
qed

lemma unat_drop64: "unat (drop_bit k m) = unat m div 2 ^ k" for m :: u64
  unfolding unat_drop_bit_eq by (rule drop_bit_eq_div)

lemma unat_and_mask64: "unat (m AND mask k) = unat m mod 2 ^ k" for m :: u64
  unfolding take_bit_eq_mask [symmetric] unsigned_take_bit_eq by (rule take_bit_eq_mod)

lemma unat_ucast32: "unat m < 4294967296 \<Longrightarrow> unat (ucast m :: u32) = unat m" for m :: u64
  unfolding unsigned_ucast_eq by (intro take_bit_nat_eq_self) simp

lemma dexp_eq: "dexp bits = unat bits div 2 ^ 52 mod 2 ^ 11"
proof -
  have "(0x7FF :: u64) = mask 11" by (simp add: mask_eq_exp_minus_1)
  then show ?thesis
    unfolding dexp_def DOUBLE_SIGNIFICAND_SIZE_def by (simp only: unat_and_mask64 unat_drop64)
qed

lemma dfrac_eq: "dfrac bits = unat bits mod 2 ^ 52"
proof -
  have m: "DOUBLE_SIGNIFICAND_MASK = mask 52" by (simp add: DOUBLE_SIGNIFICAND_MASK_def mask_eq_exp_minus_1)
  show ?thesis unfolding dfrac_def m by (rule unat_and_mask64)
qed

lemma dfrac_less: "dfrac bits < 2 ^ 52"
  unfolding dfrac_eq by (rule mod_less_divisor) simp

definition full_mantissa :: "u64 \<Rightarrow> u64" where
  "full_mantissa bits = (bits AND DOUBLE_SIGNIFICAND_MASK) OR DOUBLE_HIDDEN_BIT"

lemma full_mantissa_val: "unat (full_mantissa bits) = 2 ^ 52 + dfrac bits"
proof -
  have "unat (push_bit 52 (1 :: u64)) = 2 ^ 52 * 1" by (simp add: unat_push64)
  then have "unat (full_mantissa bits) = (2 ^ 52 * 1) OR dfrac bits"
    unfolding full_mantissa_def dfrac_def DOUBLE_HIDDEN_BIT_def DOUBLE_SIGNIFICAND_SIZE_def unsigned_or_eq
    by (simp only: or.commute)
  also have "\<dots> = 2 ^ 52 * 1 + dfrac bits" by (rule or_low_bits [OF dfrac_less])
  finally show ?thesis by simp
qed

section \<open>Digits of the mantissa\<close>

lemma word64_split:
  fixes m :: u64
  shows "unat (ucast (drop_bit 32 m) :: u32) = unat m div 4294967296"
    and "unat (push_bit 32 m) = unat m mod 4294967296 * 4294967296"
proof -
  have "unat m div 4294967296 < 4294967296" using word64_bound [of m] by simp
  then show "unat (ucast (drop_bit 32 m) :: u32) = unat m div 4294967296"
    by (subst unat_ucast32) (simp_all add: unat_drop64)
  show "unat (push_bit 32 m) = unat m mod 4294967296 * 4294967296" by (simp add: unat_push64)
qed

lemma dval_rev_Cons: "dval (rev (d # ds)) = dval (rev ds) + 4294967296 ^ length ds * unat d"
  by (simp add: dval_append)

lemma mantissa_digits_val:
  "mantissa_digits n m = (ds, rest) \<Longrightarrow>
   length ds = n \<and> dval (rev ds) * 18446744073709551616 + unat rest = unat m * 4294967296 ^ n"
proof (induction n m arbitrary: ds rest rule: mantissa_digits.induct)
  case (2 n m)
  define h l where "h = unat m div 4294967296" and "l = unat m mod 4294967296"
  obtain es where rec: "mantissa_digits n (push_bit 32 m) = (es, rest)"
    and ds: "ds = ucast (drop_bit 32 m) # es"
    using "2.prems" by (auto simp: Let_def split: prod.splits)
  have m: "unat m = h * 4294967296 + l" by (simp add: h_def l_def)
  have IH: "length es = n" "dval (rev es) * 18446744073709551616 + unat rest = l * 4294967296 * 4294967296 ^ n"
    using "2.IH" [of "ucast (drop_bit 32 m)"] rec by (simp_all add: word64_split l_def)
  have "dval (rev ds) = dval (rev es) + 4294967296 ^ n * h"
    unfolding ds dval_rev_Cons word64_split(1) IH(1) h_def ..
  then have "dval (rev ds) * 18446744073709551616 + unat rest
      = l * 4294967296 * 4294967296 ^ n + 4294967296 ^ n * h * 18446744073709551616"
    using IH(2) by (simp add: algebra_simps)
  also have "\<dots> = unat m * 4294967296 ^ Suc n" unfolding m by (simp add: algebra_simps)
  finally show ?case using ds IH(1) by simp
qed simp

text \<open>The outcome of comparing the magnitudes \<open>a\<close> and \<open>b\<close> of two numbers of the same sign.\<close>

definition compare_mag :: "bool \<Rightarrow> nat \<Rightarrow> nat \<Rightarrow> comparison_result" where
  "compare_mag neg a b = (if a > b then (if neg then LESS else GREAT)
     else if a < b then (if neg then GREAT else LESS) else EQUAL)"

lemma compare_mag_scale: "0 < c \<Longrightarrow> compare_mag neg (a * c) (b * c) = compare_mag neg a b"
  by (simp add: compare_mag_def)

lemma compare_mag_head:
  fixes d h n D R a b P :: nat
  assumes "a = D + P * d * 18446744073709551616" and "b = P * h * 18446744073709551616 + R"
    and "D < P * 18446744073709551616" and "R < P * 18446744073709551616"
  shows "compare_mag neg a b = (if d > h then (if neg then LESS else GREAT)
    else if d < h then (if neg then GREAT else LESS) else compare_mag neg D R)"
proof -
  consider "d > h" | "d < h" | "d = h" by linarith
  then show ?thesis
  proof cases
    case 1
    have "P * (h + 1) \<le> P * d" using 1 by (intro mult_le_mono2) simp
    then have "b < a" using assms by (simp add: algebra_simps)
    then show ?thesis using 1 by (simp add: compare_mag_def)
  next
    case 2
    have "P * (d + 1) \<le> P * h" using 2 by (intro mult_le_mono2) simp
    then have "a < b" using assms by (simp add: algebra_simps)
    then show ?thesis using 2 by (simp add: compare_mag_def)
  next
    case 3
    then show ?thesis using assms(1,2) by (simp add: compare_mag_def)
  qed
qed

text \<open>\<open>b\<close> is \<open>a\<close> and less than one unit \<open>W\<close> more.\<close>

definition fraction_above :: "nat \<Rightarrow> nat \<Rightarrow> nat \<Rightarrow> bool" where
  "fraction_above W a b \<longleftrightarrow> a < b \<and> b < a + W"

lemma fraction_above_head:
  assumes "a = x * W + P * h * W" "b = P * d * W + y" "x < P" "y < P * W"
  shows "fraction_above W a b \<longleftrightarrow> d = h \<and> fraction_above W (x * W) y"
proof -
  consider "d < h" | "h < d" | "d = h" by linarith
  then show ?thesis
  proof cases
    case 1
    then have "P * (d + 1) * W \<le> P * h * W" by (intro mult_le_mono1 mult_le_mono2) simp
    then have "b < a" using assms by (simp add: algebra_simps)
    then show ?thesis using 1 by (simp add: fraction_above_def)
  next
    case 2
    then have "P * (h + 1) * W \<le> P * d * W" by (intro mult_le_mono1 mult_le_mono2) simp
    moreover have "(x + 1) * W \<le> P * W" using assms(3) by (intro mult_le_mono1) simp
    ultimately have "a + W \<le> b" using assms(1,2) by (simp add: algebra_simps)
    then show ?thesis using 2 by (simp add: fraction_above_def)
  next
    case 3
    then show ?thesis using assms(1,2) by (auto simp: fraction_above_def)
  qed
qed

lemma fraction_above_scale: "0 < c \<Longrightarrow> fraction_above (W * c) (a * c) (b * c) \<longleftrightarrow> fraction_above W a b"
  by (simp add: fraction_above_def flip: distrib_right)

lemma compare_mantissa_val:
  "compare_mantissa debug neg ds leftover m =
   (if debug \<and> leftover \<le> 64 * int (length ds) \<and>
       fraction_above 18446744073709551616 (dval (rev ds) * 18446744073709551616) (unat m * 4294967296 ^ length ds) then None
    else Some (compare_mag neg (dval (rev ds) * 18446744073709551616) (unat m * 4294967296 ^ length ds)))"
proof (induction debug neg ds leftover m rule: compare_mantissa.induct)
  case (1 debug neg leftover m)
  then show ?case using word64_bound [of m] by (auto simp: compare_mag_def unat_gt_0 fraction_above_def)
next
  case (2 debug neg d ds leftover m)
  define h l P where "h = unat m div 4294967296" and "l = unat m mod 4294967296"
    and "P = (4294967296 :: nat) ^ length ds"
  let ?X = "dval (rev ds) * 18446744073709551616" and ?Y = "l * 4294967296 * P"
  have m: "unat m = h * 4294967296 + l" by (simp add: h_def l_def)
  have IH: "compare_mantissa debug neg ds (leftover - 32 - 32) (push_bit 32 m) =
      (if debug \<and> leftover - 32 - 32 \<le> 64 * int (length ds) \<and> fraction_above 18446744073709551616 ?X ?Y then None
       else Some (compare_mag neg ?X ?Y))" if "unat d = h"
    using "2.IH" that by (simp add: word64_split word_less_nat_alt h_def l_def P_def)
  have sum: "dval (rev (d # ds)) * 18446744073709551616 = ?X + P * unat d * 18446744073709551616"
      "unat m * 4294967296 ^ length (d # ds) = P * h * 18446744073709551616 + ?Y"
    unfolding dval_rev_Cons m P_def by (simp_all add: algebra_simps)
  have x: "dval (rev ds) < P" using dval_bound [of "rev ds"] by (simp add: P_def)
  have "l < 4294967296" by (simp add: l_def)
  then have "?Y < 18446744073709551616 * P" by (simp add: P_def)
  then have y: "?Y < P * 18446744073709551616" by (simp only: mult.commute)
  have "compare_mag neg (dval (rev (d # ds)) * 18446744073709551616) (unat m * 4294967296 ^ length (d # ds))
      = (if unat d > h then (if neg then LESS else GREAT)
         else if unat d < h then (if neg then GREAT else LESS) else compare_mag neg ?X ?Y)"
    by (rule compare_mag_head [OF sum]) (use x y in simp_all)
  moreover note fraction_above_head [OF sum x y]
  ultimately show ?case
    using IH by (auto simp: Let_def word_less_nat_alt word64_split h_def [symmetric])
qed

text \<open>The first round takes the bits above \<open>leftover\<close> and aligns the others to the left.\<close>

lemma first_round:
  fixes m :: u64
  assumes "unat m < 2 ^ 53" and "21 \<le> L" and "L \<le> 52"
  shows "unat (ucast (drop_bit L m) :: u32) = unat m div 2 ^ L"
    and "unat (push_bit (64 - L) m) = unat m mod 2 ^ L * 2 ^ (64 - L)"
proof -
  have "unat m < 2 ^ 32 * 2 ^ 21" using assms(1) by simp
  also have "\<dots> \<le> 2 ^ 32 * 2 ^ L" using assms(2) by (intro mult_le_mono2 power_increasing) simp_all
  finally have "unat m div 2 ^ L < 2 ^ 32" by (rule less_mult_imp_div_less)
  then show "unat (ucast (drop_bit L m) :: u32) = unat m div 2 ^ L"
    by (subst unat_ucast32) (simp_all add: unat_drop64)
  show "unat (push_bit (64 - L) m) = unat m mod 2 ^ L * 2 ^ (64 - L)"
    using assms(3) by (subst unat_push64) simp_all
qed

lemma first_round_sum:
  fixes m L :: nat
  assumes "L \<le> 64"
  shows "m div 2 ^ L * 18446744073709551616 + m mod 2 ^ L * 2 ^ (64 - L) = m * 2 ^ (64 - L)"
proof -
  have p: "(18446744073709551616 :: nat) = 2 ^ L * 2 ^ (64 - L)"
    using assms by (simp add: power_add [symmetric])
  have "m div 2 ^ L * (2 ^ L * 2 ^ (64 - L)) + m mod 2 ^ L * 2 ^ (64 - L)
      = (m div 2 ^ L * 2 ^ L + m mod 2 ^ L) * 2 ^ (64 - L)" by (simp only: algebra_simps)
  then show ?thesis unfolding p by (simp only: div_mult_mod_eq)
qed

text \<open>All digits of the mantissa of a number with \<open>e\<close> integer bits after the first one.\<close>

lemma mantissa_all_digits:
  fixes m :: u64
  assumes M: "unat m < 2 ^ 53" and L: "L = 52 - e mod 32"
    and R: "mantissa_digits (e div 32) (push_bit (64 - L) m) = (ds, rest)"
  shows "dval (rev (ucast (drop_bit L m) # ds)) * 18446744073709551616 + unat rest = unat m * 2 ^ (e + 12)"
    and "length ds = e div 32"
proof -
  have "e mod 32 < 32" by simp
  then have L': "21 \<le> L" "L \<le> 52" "64 - L = 12 + e mod 32" using L by linarith+
  have first: "unat (ucast (drop_bit L m) :: u32) = unat m div 2 ^ L"
    "unat (push_bit (64 - L) m) = unat m mod 2 ^ L * 2 ^ (64 - L)"
    by (rule first_round [OF M L'(1,2)])+
  have rest: "length ds = e div 32"
    "dval (rev ds) * 18446744073709551616 + unat rest
      = unat m mod 2 ^ L * 2 ^ (64 - L) * 4294967296 ^ (e div 32)"
    using mantissa_digits_val [OF R] first(2) by simp_all
  then show "length ds = e div 32" by simp
  define P where "P = (4294967296 :: nat) ^ (e div 32)"
  have "dval (rev (ucast (drop_bit L m) # ds)) = dval (rev ds) + P * (unat m div 2 ^ L)"
    unfolding dval_rev_Cons first(1) rest(1) P_def ..
  then have "dval (rev (ucast (drop_bit L m) # ds)) * 18446744073709551616 + unat rest
      = (dval (rev ds) * 18446744073709551616 + unat rest) + P * (unat m div 2 ^ L * 18446744073709551616)"
    by (simp only: algebra_simps)
  also have "\<dots> = P * (unat m div 2 ^ L * 18446744073709551616 + unat m mod 2 ^ L * 2 ^ (64 - L))"
    unfolding rest(2) P_def [symmetric] by (simp only: algebra_simps)
  also have "\<dots> = P * (unat m * 2 ^ (64 - L))" using L'(2) by (subst first_round_sum) simp_all
  also have "\<dots> = unat m * (2 ^ (32 * (e div 32)) * 2 ^ (12 + e mod 32))"
    unfolding P_def pow_digits L'(3) by (simp only: algebra_simps)
  also have "2 ^ (32 * (e div 32)) * 2 ^ (12 + e mod 32) = (2 :: nat) ^ (e + 12)"
    unfolding power_add [symmetric] by (rule arg_cong [of _ _ "(^) 2"]) simp
  finally show "dval (rev (ucast (drop_bit L m) # ds)) * 18446744073709551616 + unat rest
      = unat m * 2 ^ (e + 12)" .
qed

section \<open>From numbers to BigInt\<close>

lemma dmag_exponent: "dexp bits = e + 1023 \<Longrightarrow> dmag bits = unat (full_mantissa bits) * 2 ^ (e + 12) * 2 ^ 1010"
  unfolding dmag_def full_mantissa_val mult.assoc power_add [symmetric] by (simp add: add.commute)

lemma small_exponent: "dexp bits < 1023 \<Longrightarrow> dmag bits < 2 ^ 1074"
proof (cases "dexp bits = 0")
  case True
  have "(2 :: nat) ^ 52 < 2 ^ 1074" by (rule power_strict_increasing) simp_all
  moreover have "dmag bits = dfrac bits" using True by (simp add: dmag_def)
  ultimately show ?thesis using dfrac_less [of bits] by (simp only: less_trans)
next
  case False
  assume "dexp bits < 1023"
  then have "(2 :: nat) ^ (dexp bits - 1) \<le> 2 ^ 1021" by (intro power_increasing) simp_all
  then have "(2 ^ 52 + dfrac bits) * 2 ^ (dexp bits - 1) \<le> (2 ^ 52 + dfrac bits) * 2 ^ 1021"
    by (rule mult_le_mono2)
  also have "\<dots> < 2 ^ 53 * 2 ^ 1021"
    using dfrac_less [of bits] by (intro mult_strict_right_mono) simp_all
  also have "\<dots> = 2 ^ 1074" by (simp only: power_add [symmetric]) simp
  finally show ?thesis using False by (simp only: dmag_def if_False)
qed

lemma full_mantissa_less: "unat (full_mantissa bits) < 2 ^ 53"
  unfolding full_mantissa_val using dfrac_less [of bits] by simp

lemma dmag_zero: "dmag bits = 0 \<longleftrightarrow> dzero bits"
  by (simp add: dmag_def dzero_def)

lemma scale_split: "(2 :: nat) ^ 1074 = 2 ^ 64 * 2 ^ 1010"
  by (simp only: power_add [symmetric]) simp

lemma integer_exponent:
  assumes "IsInteger num" and "\<not> dzero num"
  obtains e where "dexp num = e + 1023" and "e < 1024"
    and "unat (full_mantissa num) * 2 ^ (e + 12) mod 18446744073709551616 = 0"
proof -
  have "\<not> dexp num < 1023"
  proof
    assume "dexp num < 1023"
    then have "dmag num mod 2 ^ 1074 = dmag num" using small_exponent by (intro mod_less)
    then show False using assms dmag_zero [of num] unfolding IsInteger_def by simp
  qed
  then obtain e where e: "dexp num = e + 1023" by (metis not_less le_add_diff_inverse2)
  have "dexp num < 2 ^ 11" unfolding dexp_eq by (rule mod_less_divisor) simp
  then have lt: "e < 1024" using e assms(1) by (simp add: IsInteger_def isfinite_def)
  have "unat (full_mantissa num) * 2 ^ (e + 12) * 2 ^ 1010 mod (2 ^ 64 * 2 ^ 1010) = 0"
    using assms(1) unfolding IsInteger_def dmag_exponent [OF e] scale_split by (simp only:)
  then have "unat (full_mantissa num) * 2 ^ (e + 12) mod 2 ^ 64 * 2 ^ 1010 = 0"
    by (simp only: mod_mult_mult2)
  then have "unat (full_mantissa num) * 2 ^ (e + 12) mod 2 ^ 64 = 0"
    by (simp only: mult_eq_0_iff power_not_zero) simp
  then show thesis using that e lt by simp
qed

lemma integer_digits_word:
  assumes "dexp num = e + 1023"
  shows "unat ((drop_bit DOUBLE_SIGNIFICAND_SIZE num AND 0x7FF) - word_of_int DOUBLE_EXPONENT_BIAS) = e"
proof -
  define w where "w = drop_bit DOUBLE_SIGNIFICAND_SIZE num AND 0x7FF"
  have w: "unat w = e + 1023" using assms by (simp add: dexp_def w_def)
  moreover have "unat (1023 :: u64) = 1023" by simp
  ultimately have "unat (w - 1023) = e" by (subst unat_sub) (simp_all add: word_le_nat_alt)
  then show ?thesis by (simp add: w_def DOUBLE_EXPONENT_BIAS_def)
qed

lemma NumberToBigInt_ok:
  assumes "IsInteger num"
  shows "\<exists>z. NumberToBigInt num = Inr z \<and> bigint_wf z \<and> bval z * 2 ^ 1074 = dscaled num"
proof (cases "dzero num")
  case True
  then have "dmag num = 0" using dmag_zero by simp
  then show ?thesis using True assms
    by (simp add: NumberToBigInt_def dscaled_def bigint_wf_def bval_def bmag_def)
next
  case False
  obtain e where e: "dexp num = e + 1023" "e < 1024"
    and int: "unat (full_mantissa num) * 2 ^ (e + 12) mod 18446744073709551616 = 0"
    using integer_exponent [OF assms False] .
  define L where "L = 52 - e mod 32"
  obtain ds rest where R: "mantissa_digits (e div 32) (push_bit (64 - L) (full_mantissa num)) = (ds, rest)"
    by (meson surj_pair)
  define V where "V = rev (ucast (drop_bit L (full_mantissa num)) # ds :: u32 list)"
  have V: "dval V * 18446744073709551616 + unat rest = unat (full_mantissa num) * 2 ^ (e + 12)"
    "length V = e div 32 + 1"
    using mantissa_all_digits [OF full_mantissa_less L_def R] by (simp_all add: V_def)
  have "unat rest = 0"
    using int word64_bound [of rest] unfolding V(1) [symmetric] by simp
  then have val: "dmag num = dval V * 2 ^ 1074"
    using V(1) unfolding dmag_exponent [OF e(1)] scale_split by simp
  have neg: "isneg num \<longleftrightarrow> dneg num"
    using False assms by (auto simp: isneg_def isnan_def IsInteger_def isfinite_def)
  have len: "e div 32 + 1 \<le> MAXSIZE" "V \<noteq> []" using e(2) by (simp_all add: V_def)
  have "NumberToBigInt num = RightTruncate \<lparr>sign = isneg num, digits = V\<rparr>"
    using False assms len R
    unfolding NumberToBigInt_def Let_def integer_digits_word [OF e(1)] full_mantissa_def [symmetric] DATEBITS_eq
    unfolding DOUBLE_SIGNIFICAND_SIZE_def L_def [symmetric] by (simp add: CreateBigint_cases V_def)
  moreover have "returns (RightTruncate \<lparr>sign = isneg num, digits = V\<rparr>) (signed_mag (isneg num) (dval V))"
    using len V(2) by (intro returns_RightTruncate) (simp_all add: bval_def bmag_def signed_mag_def)
  moreover have "signed_mag (isneg num) (dval V) * 2 ^ 1074 = dscaled num"
    unfolding dscaled_def val neg signed_mag_def by (simp only: of_nat_mult of_nat_power if_distrib) simp
  ultimately show ?thesis by (auto simp: returns_def)
qed

section \<open>Comparison with numbers\<close>

lemma bit_length:
  assumes b: "bigint_wf b" "\<not> IsZero b"
    and l: "l = GetLength b * 32 - CountLeadingZeros (GetDigit b (GetLength b - 1))"
  shows "0 < l" and "2 ^ (l - 1) \<le> bmag b" and "bmag b < 2 ^ l"
    and "CountLeadingZeros (GetDigit b (GetLength b - 1)) < 32"
proof -
  have ne: "digits b \<noteq> []" by (rule wf_nonempty [OF b(1)])
  define t k where "t = last (digits b)" and "k = length (digits b) - 1"
  have t: "GetDigit b (GetLength b - 1) = t" using ne by (simp add: t_def last_conv_nth)
  have "t \<noteq> 0" using b wf_last_zero(1) [OF b(1)] by (auto simp: t_def IsZero_def)
  note clz = CountLeadingZeros_spec [OF this]
  define z where "z = CountLeadingZeros t"
  have z: "z < 32" "2147483648 \<le> unat t * 2 ^ z" "unat t * 2 ^ z < 4294967296" using clz by (simp_all add: z_def)
  show "CountLeadingZeros (GetDigit b (GetLength b - 1)) < 32" unfolding t by (rule clz(1))
  have len: "GetLength b = k + 1" using ne by (simp add: k_def)
  have "l = GetLength b * 32 - z" unfolding l t z_def ..
  then have l': "l = 32 * k + (32 - z)" using len z(1) by simp
  show "0 < l" using l' z(1) by simp
  have mag: "bmag b = dval (butlast (digits b)) + 4294967296 ^ k * unat t"
    unfolding bmag_def t_def k_def by (rule dval_last [OF ne])
  have low: "dval (butlast (digits b)) < 4294967296 ^ k"
    using dval_bound [of "butlast (digits b)"] by (simp add: k_def)
  have tl: "2 ^ (31 - z) \<le> unat t"
  proof -
    have "2 ^ (31 - z) * 2 ^ z \<le> unat t * 2 ^ z" using z(1,2) by (simp add: power_add [symmetric])
    then show ?thesis by simp
  qed
  have tu: "unat t + 1 \<le> 2 ^ (32 - z)"
  proof -
    have "unat t * 2 ^ z < 2 ^ (32 - z) * 2 ^ z" using z(1,3) by (simp add: power_add [symmetric])
    then show ?thesis by simp
  qed
  have "2 ^ (l - 1) = 4294967296 ^ k * (2 :: nat) ^ (31 - z)"
    unfolding l' pow_digits power_add [symmetric] using z(1) by (intro arg_cong [of _ _ "(^) 2"]) simp
  also have "\<dots> \<le> bmag b" unfolding mag by (rule trans_le_add2 [OF mult_le_mono2 [OF tl]])
  finally show "2 ^ (l - 1) \<le> bmag b" .
  have "bmag b < 4294967296 ^ k * (unat t + 1)" unfolding mag using low by simp
  also have "\<dots> \<le> 4294967296 ^ k * 2 ^ (32 - z)" by (rule mult_le_mono2 [OF tu])
  also have "\<dots> = 2 ^ l" unfolding l' pow_digits power_add ..
  finally show "bmag b < 2 ^ l" .
qed

lemma CompareToBitsLen_eq:
  assumes b: "bigint_wf b" "\<not> IsZero b"
    and l: "l = GetLength b * 32 - CountLeadingZeros (GetDigit b (GetLength b - 1))"
  shows "CompareToBitsLen b n = (if int l > n then (if sign b then 0 else 1)
    else if int l < n then (if sign b then 1 else 0) else -1, CountLeadingZeros (GetDigit b (GetLength b - 1)))"
proof -
  have "CountLeadingZeros (GetDigit b (GetLength b - 1)) \<le> GetLength b * 32"
    using bit_length(4) [OF b l] wf_nonempty [OF b(1)] by (cases "digits b") simp_all
  then have "int (GetLength b * DATEBITS) - int (CountLeadingZeros (GetDigit b (GetLength b - 1))) = int l"
    unfolding l by (simp add: of_nat_diff)
  then show ?thesis unfolding CompareToBitsLen_def Let_def by simp
qed

lemma dmag_range:
  assumes "dexp num = e + 1023"
  shows "2 ^ e * 2 ^ 1074 \<le> dmag num" and "dmag num < 2 ^ (e + 1) * 2 ^ 1074"
proof -
  have M: "2 ^ 52 \<le> unat (full_mantissa num)" by (simp add: full_mantissa_val)
  have p: "(2 :: nat) ^ e * 2 ^ 1074 = 2 ^ 52 * (2 ^ (e + 12) * 2 ^ 1010)"
    "(2 :: nat) ^ (e + 1) * 2 ^ 1074 = 2 ^ 53 * (2 ^ (e + 12) * 2 ^ 1010)"
    by (simp_all only: power_add [symmetric]) simp_all
  show "2 ^ e * 2 ^ 1074 \<le> dmag num"
    unfolding dmag_exponent [OF assms] p mult.assoc by (rule mult_le_mono1 [OF M])
  show "dmag num < 2 ^ (e + 1) * 2 ^ 1074"
    unfolding dmag_exponent [OF assms] p mult.assoc
    by (rule mult_strict_right_mono [OF full_mantissa_less]) simp
qed

text \<open>Comparing integers through their signs and magnitudes.\<close>

definition compare_int :: "int \<Rightarrow> int \<Rightarrow> comparison_result" where
  "compare_int x y = (if x < y then LESS else if y < x then GREAT else EQUAL)"

lemma compare_same_sign:
  "compare_int (if s then - int a else int a) (if s then - int b else int b) = compare_mag s a b"
  by (simp add: compare_int_def compare_mag_def)

lemma bval_scaled: "bval b * 2 ^ 1074 = (if sign b then - int (bmag b * 2 ^ 1074) else int (bmag b * 2 ^ 1074))"
  unfolding bval_def
  by (cases "sign b") (simp_all only: if_True if_False of_nat_mult of_nat_power of_nat_numeral mult_minus_left)

lemma compare_equal_length:
  assumes b: "bigint_wf b" "\<not> IsZero b" and e: "dexp num = e + 1023"
    and l: "e + 1 = GetLength b * 32 - CountLeadingZeros (GetDigit b (GetLength b - 1))"
    and L: "L = 21 + CountLeadingZeros (GetDigit b (GetLength b - 1))"
  shows "(if GetDigit b (GetLength b - 1) > ucast (drop_bit L (full_mantissa num))
      then Some (if s then LESS else GREAT)
      else if GetDigit b (GetLength b - 1) < ucast (drop_bit L (full_mantissa num))
      then Some (if s then GREAT else LESS)
      else compare_mantissa debug s (rev (butlast (digits b))) (int L) (push_bit (64 - L) (full_mantissa num)))
    = (if debug \<and> 2 \<le> GetLength b \<and> fraction_above (2 ^ 1074) (bmag b * 2 ^ 1074) (dmag num) then None
       else Some (compare_mag s (bmag b * 2 ^ 1074) (dmag num)))"
proof -
  define t k z m where "t = GetDigit b (GetLength b - 1)" and "k = length (digits b) - 1"
    and "z = CountLeadingZeros t" and "m = full_mantissa num"
  have ne: "digits b \<noteq> []" by (rule wf_nonempty [OF b(1)])
  have z: "z < 32" using bit_length(4) [OF b l] by (simp only: t_def z_def)
  have len: "GetLength b = k + 1" using ne by (simp add: k_def)
  have "e + 1 = GetLength b * 32 - z" unfolding l t_def z_def ..
  then have e': "e = 32 * k + (31 - z)" using len z by simp
  have L': "L = 21 + z" "21 \<le> L" "L \<le> 52" "64 - L = 43 - z" using L z by (simp_all add: t_def z_def)
  have M: "unat m < 2 ^ 53" unfolding m_def by (rule full_mantissa_less)
  note first = first_round [OF M L'(2,3)]
  define P where "P = (4294967296 :: nat) ^ k"
  define R where "R = unat m mod 2 ^ L * 2 ^ (64 - L)"
  let ?X = "dval (butlast (digits b)) * 18446744073709551616"
  have "t = last (digits b)" using ne by (simp add: t_def last_conv_nth)
  then have "bmag b = dval (butlast (digits b)) + P * unat t"
    unfolding bmag_def P_def k_def using dval_last [OF ne] by simp
  then have X: "bmag b * 18446744073709551616 = ?X + P * unat t * 18446744073709551616" by (simp add: algebra_simps)
  have "unat m * 2 ^ (e + 12) = unat m * 2 ^ (64 - L) * P"
    unfolding P_def pow_digits mult.assoc power_add [symmetric] e' L'(4)
    using z by (intro arg_cong [of _ _ "\<lambda>n. unat m * 2 ^ n"]) simp
  also have "\<dots> = (unat m div 2 ^ L * 18446744073709551616 + R) * P"
    unfolding R_def using L'(3) by (subst first_round_sum) simp_all
  finally have Y: "unat m * 2 ^ (e + 12) = P * (unat m div 2 ^ L) * 18446744073709551616 + R * P"
    by (simp add: algebra_simps)
  have x: "dval (butlast (digits b)) < P" using dval_bound [of "butlast (digits b)"] by (simp add: P_def k_def)
  have "R < 18446744073709551616"
    unfolding R_def first(2) [symmetric] by (rule word64_bound)
  then have y: "R * P < P * 18446744073709551616" by (simp add: P_def mult.commute)
  have head: "compare_mag s (bmag b * 18446744073709551616) (unat m * 2 ^ (e + 12))
      = (if unat t > unat m div 2 ^ L then (if s then LESS else GREAT)
         else if unat t < unat m div 2 ^ L then (if s then GREAT else LESS)
         else compare_mag s ?X (R * P))"
    by (rule compare_mag_head [OF X Y]) (use x y in simp_all)
  have rest: "compare_mantissa debug s (rev (butlast (digits b))) (int L) (push_bit (64 - L) m)
      = (if debug \<and> 2 \<le> GetLength b \<and> fraction_above 18446744073709551616 ?X (R * P) then None else Some (compare_mag s ?X (R * P)))"
    unfolding compare_mantissa_val R_def first(2) P_def k_def using len L'(2,3) by (auto simp: k_def)
  have scale: "(2 :: nat) ^ 1074 = 18446744073709551616 * 2 ^ 1010" unfolding scale_split by simp
  have scaled: "compare_mag s (bmag b * 2 ^ 1074) (dmag num) = compare_mag s (bmag b * 18446744073709551616) (unat m * 2 ^ (e + 12))"
    "fraction_above (2 ^ 1074) (bmag b * 2 ^ 1074) (dmag num) \<longleftrightarrow>
      fraction_above 18446744073709551616 (bmag b * 18446744073709551616) (unat m * 2 ^ (e + 12))"
    unfolding dmag_exponent [OF e] m_def scale mult.assoc [symmetric, of "bmag b"]
    by (simp_all only: compare_mag_scale fraction_above_scale zero_less_power zero_less_numeral)
  have order: "t > ucast (drop_bit L m) \<longleftrightarrow> unat t > unat m div 2 ^ L" "t < ucast (drop_bit L m) \<longleftrightarrow> unat t < unat m div 2 ^ L"
    by (simp_all only: word_less_nat_alt first(1))
  show ?thesis
    unfolding scaled head fraction_above_head [OF X Y x y] t_def [symmetric] m_def [symmetric] order rest by auto
qed

lemma compare_mag_less: "a < b \<Longrightarrow> compare_mag s a b = (if s then GREAT else LESS)"
  by (simp add: compare_mag_def)

lemma compare_mag_greater: "b < a \<Longrightarrow> compare_mag s a b = (if s then LESS else GREAT)"
  by (simp add: compare_mag_def)

lemma compare_same_sign_numbers:
  assumes b: "bigint_wf b" "\<not> IsZero b" and e: "dexp num = e + 1023"
    and l: "l = GetLength b * 32 - CountLeadingZeros (GetDigit b (GetLength b - 1))"
  shows "l > e + 1 \<Longrightarrow> dmag num < bmag b * 2 ^ 1074" and "l < e + 1 \<Longrightarrow> bmag b * 2 ^ 1074 + 2 ^ 1074 \<le> dmag num"
proof -
  note bl = bit_length [OF b l]
  note dr = dmag_range [OF e]
  show "dmag num < bmag b * 2 ^ 1074" if "l > e + 1"
  proof -
    have "(2 :: nat) ^ (e + 1) \<le> 2 ^ (l - 1)" using that by (intro power_increasing) simp_all
    then have "(2 :: nat) ^ (e + 1) \<le> bmag b" using bl(2) by (rule le_trans)
    then have "2 ^ (e + 1) * 2 ^ 1074 \<le> bmag b * 2 ^ 1074" by (rule mult_le_mono1)
    with dr(2) show ?thesis by (rule less_le_trans)
  qed
  show "bmag b * 2 ^ 1074 + 2 ^ 1074 \<le> dmag num" if "l < e + 1"
  proof -
    have "(2 :: nat) ^ l \<le> 2 ^ e" using that by (intro power_increasing) simp_all
    with bl(3) have "bmag b < 2 ^ e" by (rule less_le_trans)
    then have "(bmag b + 1) * 2 ^ 1074 \<le> 2 ^ e * 2 ^ 1074" by (intro mult_le_mono1) simp
    then have "(bmag b + 1) * 2 ^ 1074 \<le> dmag num" using dr(1) by (rule le_trans)
    then show ?thesis by (simp only: distrib_right mult_1)
  qed
qed

lemma dscaled_sign:
  assumes "isfinite num"
  shows "isneg num \<longleftrightarrow> dscaled num < 0"
    and "dscaled num = (if isneg num then - int (dmag num) else int (dmag num))"
  using assms dmag_zero [of num] by (auto simp: isneg_def isnan_def isfinite_def dscaled_def)

lemma compare_scaled:
  assumes "isfinite num" and "isneg num = sign b"
  shows "compare_int (bval b * 2 ^ 1074) (dscaled num) = compare_mag (sign b) (bmag b * 2 ^ 1074) (dmag num)"
  unfolding bval_scaled dscaled_sign(2) [OF assms(1)] assms(2) by (rule compare_same_sign)

lemma scaled_sign: "bigint_wf b \<Longrightarrow> sign b \<longleftrightarrow> bval b * 2 ^ 1074 < 0"
proof -
  assume "bigint_wf b"
  then have "sign b \<longleftrightarrow> bval b < 0" by (rule sign_bval)
  moreover have "0 < (2 :: int) ^ 1074" by simp
  ultimately show ?thesis by (metis mult_less_0_iff less_asym)
qed

text \<open>The assertion fails.\<close>

definition assertion_fails :: "bigint \<Rightarrow> u64 \<Rightarrow> bool" where
  "assertion_fails b num \<longleftrightarrow> 2 \<le> GetLength b \<and> isneg num = sign b \<and> fraction_above (2 ^ 1074) (bmag b * 2 ^ 1074) (dmag num)"

lemma CompareWithNumber_same_length:
  assumes b: "bigint_wf b" "\<not> IsZero b" and num: "isfinite num" "isneg num = sign b"
    and e: "dexp num = e + 1023"
  shows "CompareWithNumber debug b num =
    (if debug \<and> assertion_fails b num then None else Some (compare_mag (sign b) (bmag b * 2 ^ 1074) (dmag num)))"
proof -
  define z l where "z = CountLeadingZeros (GetDigit b (GetLength b - 1))"
    and "l = GetLength b * 32 - CountLeadingZeros (GetDigit b (GetLength b - 1))"
  define f where "f = (if GetDigit b (GetLength b - 1) > ucast (drop_bit (21 + z) (full_mantissa num))
      then Some (if sign b then LESS else GREAT)
      else if GetDigit b (GetLength b - 1) < ucast (drop_bit (21 + z) (full_mantissa num))
      then Some (if sign b then GREAT else LESS)
      else compare_mantissa debug (sign b) (rev (butlast (digits b))) (int (21 + z)) (push_bit (64 - (21 + z)) (full_mantissa num)))"
  have nn: "\<not> isnan num" using num(1) by (simp add: isnan_def isfinite_def)
  have id: "int (dexp num) - DOUBLE_EXPONENT_BIAS = int e" using e by (simp add: DOUBLE_EXPONENT_BIAS_def)
  have L: "DOUBLE_SIGNIFICAND_SIZE - DATEBITS + z + 1 = 21 + z" by (simp add: DOUBLE_SIGNIFICAND_SIZE_def)
  have eq: "CompareWithNumber debug b num = (if l > e + 1 then Some (if sign b then LESS else GREAT)
      else if l < e + 1 then Some (if sign b then GREAT else LESS) else f)"
    using nn num b(2)
    unfolding CompareWithNumber_def Let_def id CompareToBitsLen_eq [OF b l_def] prod.case z_def [symmetric] L
      full_mantissa_def [symmetric] f_def [symmetric]
    by auto
  note lengths = compare_same_sign_numbers [OF b e l_def]
  consider "l > e + 1" | "l < e + 1" | "l = e + 1" by linarith
  then show ?thesis
  proof cases
    case 1
    then have less: "dmag num < bmag b * 2 ^ 1074" by (rule lengths(1))
    then have "\<not> assertion_fails b num" unfolding assertion_fails_def fraction_above_def by linarith
    then show ?thesis unfolding eq compare_mag_greater [OF less] using 1 by simp
  next
    case 2
    have more: "bmag b * 2 ^ 1074 + 2 ^ 1074 \<le> dmag num" by (rule lengths(2) [OF 2])
    moreover have "0 < (2 :: nat) ^ 1074" by simp
    ultimately have less: "bmag b * 2 ^ 1074 < dmag num" by linarith
    have "\<not> assertion_fails b num" unfolding assertion_fails_def fraction_above_def using more by linarith
    then show ?thesis unfolding eq compare_mag_less [OF less] using 2 by simp
  next
    case 3
    then have "f = (if debug \<and> assertion_fails b num then None else Some (compare_mag (sign b) (bmag b * 2 ^ 1074) (dmag num)))"
      unfolding f_def assertion_fails_def using compare_equal_length [OF b e, of _ "sign b" debug] num(2) by (simp only: l_def z_def simp_thms)
    then show ?thesis unfolding eq using 3 by simp
  qed
qed

lemma compare_int_signs: "(x < 0) \<noteq> (y < 0) \<Longrightarrow> compare_int x y = (if x < 0 then LESS else GREAT)"
  by (auto simp: compare_int_def)

lemma CompareWithNumber_finite:
  assumes b: "bigint_wf b" and num: "isfinite num"
  shows "CompareWithNumber debug b num =
    (if debug \<and> assertion_fails b num then None else Some (compare_int (bval b * 2 ^ 1074) (dscaled num)))"
proof -
  have nn: "\<not> isnan num" using num by (simp add: isnan_def isfinite_def)
  consider (diff) "isneg num \<noteq> sign b" | (zero) "isneg num = sign b" "IsZero b"
    | (small) "isneg num = sign b" "\<not> IsZero b" "dexp num < 1023"
    | (big) "isneg num = sign b" "\<not> IsZero b" "1023 \<le> dexp num"
    by linarith
  then show ?thesis
  proof cases
    case diff
    then have "(bval b * 2 ^ 1074 < 0) \<noteq> (dscaled num < 0)"
      using dscaled_sign(1) [OF num] scaled_sign [OF b] by blast
    then have "compare_int (bval b * 2 ^ 1074) (dscaled num)
        = (if bval b * 2 ^ 1074 < 0 then LESS else GREAT)"
      by (rule compare_int_signs)
    also have "\<dots> = (if sign b then LESS else GREAT)" by (simp only: scaled_sign [OF b])
    finally have "Some (compare_int (bval b * 2 ^ 1074) (dscaled num)) = CompareWithNumber debug b num"
      using diff nn num by (auto simp: CompareWithNumber_def Let_def)
    then show ?thesis using diff by (simp add: assertion_fails_def)
  next
    case zero
    have m: "bmag b = 0" "\<not> sign b" using zero bmag_zero_iff [OF b] wf_sign_mag [OF b] by auto
    have one: "\<not> assertion_fails b num" using zero(2) by (auto simp: assertion_fails_def IsZero_def)
    have "CompareWithNumber debug b num = Some (if dzero num then EQUAL else LESS)"
      using zero m nn num by (auto simp: CompareWithNumber_def Let_def isneg_def ispos_def)
    moreover have "compare_mag False 0 (dmag num) = (if dzero num then EQUAL else LESS)"
      using dmag_zero [of num] by (auto simp: compare_mag_def)
    ultimately show ?thesis using compare_scaled [OF num zero(1)] m one by (simp only: mult_0 simp_thms if_False)
  next
    case small
    have "1 \<le> bmag b" using small(2) bmag_zero_iff [OF b] by (simp add: Suc_le_eq)
    then have "1 * 2 ^ 1074 \<le> bmag b * 2 ^ 1074" by (rule mult_le_mono1)
    then have less: "dmag num < bmag b * 2 ^ 1074" using small_exponent [OF small(3)] by (simp only: mult_1 less_le_trans)
    then have "\<not> assertion_fails b num" unfolding assertion_fails_def fraction_above_def by linarith
    moreover have "CompareWithNumber debug b num = Some (if sign b then LESS else GREAT)"
      using small nn num by (auto simp: CompareWithNumber_def Let_def DOUBLE_EXPONENT_BIAS_def)
    ultimately show ?thesis using compare_scaled [OF num small(1)] compare_mag_greater [OF less, of "sign b"] by (simp only: simp_thms if_False)
  next
    case big
    then obtain e where e: "dexp num = e + 1023" by (metis le_add_diff_inverse2)
    show ?thesis
      using CompareWithNumber_same_length [OF b big(2) num big(1) e, of debug] compare_scaled [OF num big(1)]
      by (simp only:)
  qed
qed

lemma assertion_fails_values:
  assumes b: "bigint_wf b" and num: "isfinite num"
  shows "assertion_fails b num \<longleftrightarrow> 2 \<le> GetLength b \<and> (dscaled num < 0 \<longleftrightarrow> bval b < 0) \<and>
    \<bar>bval b\<bar> * 2 ^ 1074 < \<bar>dscaled num\<bar> \<and> \<bar>dscaled num\<bar> < (\<bar>bval b\<bar> + 1) * 2 ^ 1074"
proof -
  have m: "\<bar>bval b\<bar> = int (bmag b)" "\<bar>dscaled num\<bar> = int (dmag num)" using dscaled_sign(2) [OF num] by (simp_all add: bval_def)
  have "fraction_above (2 ^ 1074) (bmag b * 2 ^ 1074) (dmag num) \<longleftrightarrow>
      int (bmag b * 2 ^ 1074) < int (dmag num) \<and> int (dmag num) < int (bmag b * 2 ^ 1074 + 2 ^ 1074)"
    unfolding fraction_above_def of_nat_less_iff ..
  also have "\<dots> \<longleftrightarrow> \<bar>bval b\<bar> * 2 ^ 1074 < \<bar>dscaled num\<bar> \<and> \<bar>dscaled num\<bar> < (\<bar>bval b\<bar> + 1) * 2 ^ 1074"
    unfolding m of_nat_add of_nat_mult of_nat_power of_nat_numeral distrib_right mult_1 ..
  finally show ?thesis unfolding assertion_fails_def dscaled_sign(1) [OF num] sign_bval [OF b] by blast
qed

section \<open>From BigInt to numbers: the sticky digits that are not looked at\<close>

text \<open>
  When the head digit has exactly eleven leading zeros, head and next digit fill the mantissa
  exactly.  With three digits the code then returns without looking at the last digit; with four
  or more it skips one digit when it looks for a non-zero rest.
\<close>

lemma eleven_zeros:
  fixes h :: u32
  assumes "CountLeadingZeros h = 11"
  shows "unat h div 1048576 = 1"
proof -
  have "CountLeadingZeros (0 :: u32) = 32" by code_simp
  then have "h \<noteq> 0" using assms by auto
  from CountLeadingZeros_spec [OF this] assms show ?thesis by simp
qed

text \<open>The double made of the head and the next digit.\<close>

definition truncated :: "bool \<Rightarrow> u32 \<Rightarrow> u32 \<Rightarrow> nat" where
  "truncated s h d = 2 ^ 52 * (if s then 3155 else 1107) + (unat h mod 1048576 * 4294967296 + unat d)"

lemma BigIntToNumber_three:
  assumes "CountLeadingZeros h = 11"
  shows "unat (BigIntToNumber \<lparr>sign = s, digits = [d0, d1, h]\<rparr>) = truncated s h d1"
proof -
  let ?b = "\<lparr>sign = s, digits = [d0, d1, h]\<rparr>" and ?m = "drop_bit 12 (push_bit 44 (ucast h)) OR ucast d1 :: u64"
  let ?c = "(if s then push_bit 63 1 else 0) OR push_bit 52 (1107 :: u64)"
  have n: "BigIntToNumber ?b = ?c OR ?m"
    using assms by (simp add: BigIntToNumber_def IsZero_def Let_def DOUBLE_EXPONENT_BIAS_def CalculateNumber_def DOUBLE_SIGNIFICAND_SIZE_def)
  have c: "unat ?c = 2 ^ 52 * (if s then 3155 else 1107)" by simp
  have u: "unat (ucast x :: u64) = unat x" for x :: u32 using word32_bound [of x] by (simp add: unsigned_ucast_eq take_bit_nat_eq_self)
  have "unat (drop_bit 12 (push_bit 44 (ucast h)) :: u64) = 2 ^ 32 * (unat h mod 1048576)"
    by (simp add: unat_drop64 unat_push64 u)
  then have m: "unat ?m = unat h mod 1048576 * 4294967296 + unat d1"
    unfolding unsigned_or_eq u using or_low_bits [of "unat d1" 32 "unat h mod 1048576"] word32_bound [of d1] by simp
  have "unat h mod 1048576 \<le> 1048575" by (simp add: less_Suc_eq_le [symmetric])
  then have less: "unat ?m < 2 ^ 52" using word32_bound [of d1] unfolding m by simp
  have "unat (?c OR ?m) = unat ?c OR unat ?m" by (rule unsigned_or_eq)
  also have "\<dots> = 2 ^ 52 * (if s then 3155 else 1107) + unat ?m" unfolding c by (rule or_low_bits [OF less])
  finally show ?thesis unfolding n m truncated_def .
qed

lemma dscaled_fields:
  assumes "unat x = 2 ^ 52 * (if s then 2048 + e else e) + f" "0 < e" "e < 2048" "f < 2 ^ 52"
  shows "dscaled x = (if s then -1 else 1) * int ((2 ^ 52 + f) * 2 ^ (e - 1))"
proof -
  have "unat x div 2 ^ 52 = (if s then 2048 + e else e)" "unat x mod 2 ^ 52 = f" using assms by simp_all
  note fields = this
  then have "dexp x = e" "dfrac x = f" using assms(3) by (simp_all add: dexp_eq dfrac_eq)
  moreover have "dneg x \<longleftrightarrow> s"
  proof -
    have "bit x 63 \<longleftrightarrow> bit (unat x) 63" by (simp add: bit_unsigned_iff)
    then have "bit x 63 \<longleftrightarrow> odd (unat x div 2 ^ 63)" by (simp only: bit_iff_odd)
    moreover have "unat x div 2 ^ 63 = unat x div 2 ^ 52 div 2 ^ 11" by (simp add: div_mult2_eq [symmetric])
    then have "unat x div 2 ^ 63 = (if s then 1 else 0)" unfolding fields(1) using assms(3) by (cases s) (simp_all add: div_add_self1)
    ultimately show ?thesis by (simp add: dneg_def)
  qed
  ultimately show ?thesis using assms(2) by (simp add: dscaled_def dmag_def)
qed

lemma three_digits_unrounded:
  assumes "CountLeadingZeros h = 11" and n: "n = BigIntToNumber \<lparr>sign = s, digits = [d0, d1, h]\<rparr>"
  shows "dscaled n = (if s then -1 else 1) * (int (unat h * 4294967296 + unat d1) * 2 ^ 1106)"
    and "dscaled (n + 1) = (if s then -1 else 1) * (int (unat h * 4294967296 + unat d1 + 1) * 2 ^ 1106)"
proof -
  define f where "f = unat h mod 1048576 * 4294967296 + unat d1"
  have "unat h mod 1048576 \<le> 1048575" by (simp add: less_Suc_eq_le [symmetric])
  then have f: "f < 2 ^ 52" using word32_bound [of d1] unfolding f_def by simp
  have "unat h = 1048576 * (unat h div 1048576) + unat h mod 1048576" by simp
  then have head: "unat h * 4294967296 + unat d1 = 2 ^ 52 + f" using eleven_zeros [OF assms(1)] by (simp add: f_def)
  have u: "unat n = 2 ^ 52 * (if s then 2048 + 1107 else 1107) + f"
    using BigIntToNumber_three [OF assms(1), of s d0 d1] unfolding n truncated_def f_def by simp
  show "dscaled n = (if s then -1 else 1) * (int (unat h * 4294967296 + unat d1) * 2 ^ 1106)"
    unfolding head using dscaled_fields [OF u _ _ f] by (simp only: of_nat_mult of_nat_power of_nat_numeral) simp
  have u1: "unat (n + 1) = unat n + 1" using u f by (intro unat_add_lem [THEN iffD1, of n 1, unfolded unsigned_1]) (cases s, simp_all)
  show "dscaled (n + 1) = (if s then -1 else 1) * (int (unat h * 4294967296 + unat d1 + 1) * 2 ^ 1106)"
  proof (cases "f + 1 < 2 ^ 52")
    case True
    have "unat (n + 1) = 2 ^ 52 * (if s then 2048 + 1107 else 1107) + (f + 1)" using u u1 by simp
    from dscaled_fields [OF this _ _ True] show ?thesis
      unfolding head by (simp only: of_nat_mult of_nat_power of_nat_numeral add.assoc) simp
  next
    case False
    then have "f + 1 = 2 ^ 52" using f by simp
    then have "unat (n + 1) = 2 ^ 52 * (if s then 2048 + 1108 else 1108) + 0" using u u1 by (cases s) simp_all
    from dscaled_fields [OF this] have "dscaled (n + 1) = (if s then -1 else 1) * (int (2 ^ 52) * 2 ^ 1107)"
      by (simp only: of_nat_mult of_nat_power of_nat_numeral) simp
    moreover have "(2 :: int) ^ 1107 = 2 * 2 ^ 1106" by simp
    ultimately show ?thesis unfolding head using \<open>f + 1 = 2 ^ 52\<close> by (simp add: add.assoc)
  qed
qed

end
