(* ===== verification/BigInt_Props.thy ===== *)
theory BigInt_Props
  imports BigInt_String BigInt_Number
begin

text \<open>
  The properties of the BigInt component: every operator of \<open>ecmascript/js_bigint.cpp\<close> computes the
  mathematical operation on the integers its operands denote, in canonical form, or raises exactly
  the stated exception.
\<close>

section \<open>Witness operands\<close>

definition big_a :: bigint where
  "big_a = \<lparr>sign = True, digits = [7, 0, 5]\<rparr>"

definition big_b :: bigint where
  "big_b = \<lparr>sign = False, digits = [3, 9]\<rparr>"

definition big_shift :: bigint where
  "big_shift = \<lparr>sign = False, digits = [35]\<rparr>"

lemma big_wf [simp]: "bigint_wf big_a" "bigint_wf big_b" "bigint_wf big_shift"
  by (simp_all add: bigint_wf_def big_a_def big_b_def big_shift_def)

section \<open>Arithmetic\<close>

text \<open>C21. Addition and subtraction return the exact sum and difference in canonical form; they fail
  only when the magnitudes are added and the longer operand already has the maximal length.\<close>

theorem add_subtract_correct:
  assumes "bigint_wf x" and "bigint_wf y"
  shows "(if sign x = sign y \<and> MAXSIZE \<le> max (GetLength x) (GetLength y)
          then Add x y = Inl size_exceeded else returns (Add x y) (bval x + bval y))
       \<and> (if sign x \<noteq> sign y \<and> MAXSIZE \<le> max (GetLength x) (GetLength y)
          then Subtract x y = Inl size_exceeded else returns (Subtract x y) (bval x - bval y))"
  using Add_ok [OF assms] Subtract_ok [OF assms] by blast

theorem add_subtract_correct_witness:
  "bigint_wf big_a \<and> bigint_wf big_b \<and> returns (Add big_a big_b) (bval big_a + bval big_b)
   \<and> returns (Subtract big_a big_b) (bval big_a - bval big_b)"
  using add_subtract_correct [of big_a big_b] by (simp add: big_a_def big_b_def bigint_wf_def)

text \<open>C13. Multiplication returns the exact product, or the size error when both factors are non-zero
  and the lengths add up to more than the maximum.\<close>

theorem multiply_correct:
  assumes "bigint_wf x" and "bigint_wf y"
  shows "if bval x \<noteq> 0 \<and> bval y \<noteq> 0 \<and> MAXSIZE < GetLength x + GetLength y
    then Multiply x y = Inl size_exceeded else returns (Multiply x y) (bval x * bval y)"
  using Multiply_ok [OF assms] bmag_zero_iff [OF assms(1)] bmag_zero_iff [OF assms(2)]
  by (auto simp: bval_def split: if_splits)

theorem multiply_correct_witness:
  "bigint_wf big_a \<and> bigint_wf big_b \<and> returns (Multiply big_a big_b) (bval big_a * bval big_b)"
  using multiply_correct [of big_a big_b] by (simp add: big_a_def big_b_def bigint_wf_def)

text \<open>C4. Division truncates towards zero.  It raises \<open>Division by zero\<close> exactly for a zero divisor,
  and the size error exactly when a dividend of the maximal length meets a smaller divisor of at
  least two digits, because the normalised dividend needs one digit more.\<close>

theorem divide_correct:
  assumes "bigint_wf x" and "bigint_wf y"
  shows "if bval y = 0 then Divide x y = Inl division_by_zero
    else if GetLength x = MAXSIZE \<and> 2 \<le> GetLength y \<and> bmag y < bmag x then Divide x y = Inl size_exceeded
    else returns (Divide x y) (bval x sdiv bval y)"
  using Divide_ok [OF assms] unfolding long_division_def .

theorem divide_correct_witness:
  "bigint_wf big_a \<and> bigint_wf big_b \<and> returns (Divide big_a big_b) (bval big_a sdiv bval big_b)"
  using divide_correct [of big_a big_b] by (simp add: big_a_def big_b_def bigint_wf_def bval_def bmag_def)

text \<open>C22. The remainder has the sign of the dividend and satisfies the division identity with the
  truncated quotient; its errors are those of division.\<close>

theorem remainder_correct:
  assumes "bigint_wf x" and "bigint_wf y"
  shows "if bval y = 0 then Remainder x y = Inl division_by_zero
    else if GetLength x = MAXSIZE \<and> 2 \<le> GetLength y \<and> bmag y < bmag x then Remainder x y = Inl size_exceeded
    else returns (Remainder x y) (bval x - (bval x sdiv bval y) * bval y)"
  using Remainder_ok [OF assms] unfolding long_division_def minus_sdiv_mult_eq_smod .

theorem remainder_correct_witness:
  "bigint_wf big_a \<and> bigint_wf big_b \<and>
   returns (Remainder big_a big_b) (bval big_a - (bval big_a sdiv bval big_b) * bval big_b)"
  using remainder_correct [of big_a big_b] by (simp add: big_a_def big_b_def bigint_wf_def bval_def bmag_def)

text \<open>C23. Exponentiation returns the exact power; a negative exponent raises its error, and the size
  error is only raised when the power may need more digits than the maximum.\<close>

theorem exponentiate_correct:
  assumes "bigint_wf x" and "bigint_wf y"
  shows "if sign y then Exponentiate x y = Inl exponent_negative
    else returns (Exponentiate x y) (bval x ^ bmag y) \<or>
      Exponentiate x y = Inl size_exceeded \<and> MAXSIZE < GetLength x * bmag y"
  by (rule Exponentiate_ok [OF assms])

theorem exponentiate_correct_witness:
  "bigint_wf big_a \<and> bigint_wf big_shift \<and> returns (Exponentiate big_a big_shift) (bval big_a ^ 35)"
  using exponentiate_correct [of big_a big_shift] by (simp add: big_a_def big_shift_def bigint_wf_def bmag_def)

text \<open>C12. The bitwise operators on sign and magnitude agree with two's complement: each returns the
  operation of the same name on the unbounded integers whenever that result has a representation.\<close>

theorem bitwise_correct:
  assumes "bigint_wf x" and "bigint_wf y"
  shows "returns_if_fits (BitwiseAND x y) (bval x AND bval y)
       \<and> returns_if_fits (BitwiseOR x y) (bval x OR bval y)
       \<and> returns_if_fits (BitwiseXOR x y) (bval x XOR bval y)"
  using BitwiseAND_ok [OF assms] BitwiseOR_ok [OF assms] BitwiseXOR_ok [OF assms] by blast

theorem bitwise_correct_witness:
  "bigint_wf big_a \<and> bigint_wf big_b \<and> returns_if_fits (BitwiseAND big_a big_b) (bval big_a AND bval big_b)"
  using bitwise_correct [of big_a big_b] by simp

text \<open>C24. A signed right shift by a non-negative count is division by the power of two rounding towards
  minus infinity, for every count, however long.\<close>

theorem right_shift_correct:
  assumes "bigint_wf x" and "bigint_wf y" and "\<not> sign y"
  shows "returns (SignedRightShift x y) (bval x div 2 ^ bmag y)"
proof (cases "IsZero x \<or> IsZero y")
  case True
  then have "bval x div 2 ^ bmag y = bval x"
    using bmag_zero_iff [OF assms(1)] bmag_zero_iff [OF assms(2)] by (auto simp: bval_def)
  then show ?thesis using True assms(1) by (auto simp: SignedRightShift_def returns_def)
next
  case False
  then show ?thesis
    using RightShiftHelper_ok [OF assms(1,2)] assms(3) by (simp add: SignedRightShift_def)
qed

theorem right_shift_correct_witness:
  "bigint_wf big_a \<and> bigint_wf big_shift \<and> \<not> sign big_shift
   \<and> returns (SignedRightShift big_a big_shift) (bval big_a div 2 ^ 35)"
proof -
  have "bmag big_shift = 35" "\<not> sign big_shift" by (simp_all add: big_shift_def bmag_def)
  then show ?thesis using right_shift_correct [of big_a big_shift] by simp
qed

text \<open>C25. A left shift by a count of one digit is multiplication by the power of two, or the size
  error when the shifted digits do not fit.\<close>

theorem left_shift_correct:
  assumes "bigint_wf x" and "bigint_wf y" and "\<not> sign y" and "GetLength y = 1"
  shows "if bval x = 0 \<or> bmag y div 32 + GetLength x + (if bmag y mod 32 \<noteq> 0 then 1 else 0) \<le> MAXSIZE
    then returns (LeftShift x y) (bval x * 2 ^ bmag y) else LeftShift x y = Inl size_exceeded"
proof -
  have "bval x = 0 \<longleftrightarrow> IsZero x" using bmag_zero_iff [OF assms(1)] by (simp add: bval_def)
  then show ?thesis
    using LeftShiftHelper_ok [OF assms(1), of "bmag y" y] one_digit_mag [OF assms(2,4)] assms(3)
    by (simp add: LeftShift_def shift_length_def)
qed

theorem left_shift_correct_witness:
  "bigint_wf big_a \<and> bigint_wf big_shift \<and> returns (LeftShift big_a big_shift) (bval big_a * 2 ^ 35)"
proof -
  have s: "bmag big_shift = 35" "\<not> sign big_shift" "GetLength big_shift = 1" "GetLength big_a = 3"
    by (simp_all add: big_shift_def big_a_def bmag_def)
  then show ?thesis using left_shift_correct [of big_a big_shift] by simp
qed

text \<open>A left shift reads only the lowest digit of the count: shifting 1 by \<open>2 ^ 32\<close> returns 1
  instead of raising the size error.\<close>

theorem left_shift_ignores_high_digits:
  "LeftShift \<lparr>sign = False, digits = [1]\<rparr> \<lparr>sign = False, digits = [0, 1]\<rparr>
     = Inr \<lparr>sign = False, digits = [1]\<rparr>
   \<and> bval \<lparr>sign = False, digits = [0, 1]\<rparr> = 2 ^ 32"
  by (simp add: LeftShift_def LeftShiftHelper_def IsZero_def Let_def CreateBigint_cases RightTruncate_def
      bval_def bmag_def)

text \<open>C28. Comparison, equality and the order agree with the integers.\<close>

theorem compare_correct:
  assumes "bigint_wf x" and "bigint_wf y"
  shows "Compare x y = (if bval x < bval y then LESS else if bval y < bval x then GREAT else EQUAL)
       \<and> (Equal x y \<longleftrightarrow> bval x = bval y) \<and> (LessThan x y \<longleftrightarrow> bval x < bval y)"
  using Compare_bval [OF assms] Equal_bval [OF assms] by (simp add: LessThan_def)

theorem compare_correct_witness:
  "bigint_wf big_a \<and> bigint_wf big_b \<and> Compare big_a big_b = LESS \<and> \<not> Equal big_a big_b"
  using compare_correct [of big_a big_b] by (simp add: big_a_def big_b_def bigint_wf_def bval_def bmag_def)

section \<open>Conversions\<close>

text \<open>C8. Printing in any radix from 2 to 36 terminates, and reading the string back in the same radix
  gives the same object.\<close>

theorem string_conversion_round_trip:
  assumes "bigint_wf b" and "2 \<le> radix" and "radix \<le> 36"
  shows "\<exists>s. ToStdString b radix = Some s \<and> SetBigInt s radix = Some (Inr b)"
  using string_round_trip [OF assms] by blast

theorem string_conversion_round_trip_witness:
  "bigint_wf big_a \<and> (\<exists>s. ToStdString big_a 10 = Some s \<and> SetBigInt s 10 = Some (Inr big_a))"
  using string_conversion_round_trip [of big_a 10] by simp

text \<open>C29. Conversion to a signed 64-bit integer wraps around modulo \<open>2 ^ 64\<close> and reports \<open>lossless\<close>
  exactly for the values in range.  This holds for every BigInt of fewer than \<open>MAXSIZE\<close> digits; one of \<open>MAXSIZE\<close> digits is
  excluded, because the remainder the code computes needs a dividend of one digit more and raises the size error.\<close>

theorem int64_conversion_correct:
  assumes "bigint_wf b" and "GetLength b < MAXSIZE"
  shows "\<exists>c. BigIntToInt64 f (BigIntValue b) = Inr (c, - (2 ^ 63) \<le> bval b \<and> bval b < 2 ^ 63)
    \<and> sint c mod 2 ^ 64 = bval b mod 2 ^ 64"
  using BigIntToInt64_ok [OF assms, of f] wrap64_mod [of "bval b"] by auto

theorem int64_conversion_correct_witness:
  "bigint_wf big_a \<and> (\<exists>c. BigIntToInt64 (\<lambda>_. None) (BigIntValue big_a) = Inr (c, False)
     \<and> sint c mod 2 ^ 64 = bval big_a mod 2 ^ 64)"
proof -
  have "\<not> - (2 ^ 63) \<le> bval big_a" "GetLength big_a < MAXSIZE" by (simp_all add: big_a_def bval_def bmag_def)
  then show ?thesis using int64_conversion_correct [of big_a "\<lambda>_. None"] by simp
qed

text \<open>C30. \<open>AsUintN\<close> and \<open>AsintN\<close> reduce modulo \<open>2 ^ n\<close> into the unsigned and the signed range, for
  every positive bit count \<open>n\<close> below \<open>MAXBITS\<close> and every BigInt of fewer than \<open>MAXSIZE\<close> digits.  A BigInt of \<open>MAXSIZE\<close> digits is
  excluded: the dividend of one digit more raises the size error.\<close>

theorem as_n_bits_correct:
  assumes "bigint_wf b" and "GetLength b < MAXSIZE" and "0 < n" and "n < MAXBITS"
  shows "returns (AsUintN (word_of_nat n) b) (bval b mod 2 ^ n)
       \<and> returns (AsintN (word_of_nat n) b)
           (if bval b mod 2 ^ n < 2 ^ (n - 1) then bval b mod 2 ^ n else bval b mod 2 ^ n - 2 ^ n)"
  using AsUintN_ok [OF assms] AsintN_ok [OF assms] by (simp add: signed_mod_def)

theorem as_n_bits_correct_witness:
  "bigint_wf big_a \<and> returns (AsUintN 70 big_a) (bval big_a mod 2 ^ 70)"
proof -
  have "GetLength big_a < MAXSIZE" by (simp add: big_a_def)
  then show ?thesis using as_n_bits_correct [of big_a 70] by (simp add: MAXBITS_def)
qed

text \<open>C27. Comparing a BigInt with a finite number compares the exact values, in units of the smallest
  positive double; \<open>NaN\<close> is unordered and the infinities bound everything.  A build with assertions (\<open>debug\<close>) fails the assertion
  \<open>leftover > 0\<close> for some operands, and then the program ends (\<open>None\<close>): exactly when the BigInt has two or more digits and the number
  has the same sign, the same integer part and a fraction.\<close>

theorem compare_with_number_correct:
  assumes "bigint_wf b"
  shows "CompareWithNumber debug b num =
    (if debug \<and> isfinite num \<and> 2 \<le> GetLength b \<and> (dscaled num < 0 \<longleftrightarrow> bval b < 0) \<and>
        \<bar>bval b\<bar> * 2 ^ 1074 < \<bar>dscaled num\<bar> \<and> \<bar>dscaled num\<bar> < (\<bar>bval b\<bar> + 1) * 2 ^ 1074 then None
     else Some (if isnan num then UNDEFINED
       else if \<not> isfinite num then (if dneg num then GREAT else LESS)
       else if bval b * 2 ^ 1074 < dscaled num then LESS
       else if dscaled num < bval b * 2 ^ 1074 then GREAT else EQUAL))"
proof (cases "isfinite num")
  case True
  then have "\<not> isnan num" by (simp add: isnan_def isfinite_def)
  then show ?thesis
    using CompareWithNumber_finite [OF assms True, of debug] assertion_fails_values [OF assms True] True
    unfolding compare_int_def by (simp only: if_False if_True simp_thms)
next
  case False
  then show ?thesis by (auto simp: CompareWithNumber_def Let_def isneg_def dzero_def isfinite_def)
qed

text \<open>Two to the power of 40, and the same with a half.\<close>

theorem compare_with_number_correct_witness:
  "CompareWithNumber True \<lparr>sign = False, digits = [0, 256]\<rparr> 0x4270000000000800 = None \<and>
   CompareWithNumber False \<lparr>sign = False, digits = [0, 256]\<rparr> 0x4270000000000800 = Some LESS \<and>
   CompareWithNumber True \<lparr>sign = False, digits = [1, 256]\<rparr> 0x4270000000000800 = Some GREAT"
proof -
  let ?num = "0x4270000000000800 :: u64" and ?b = "\<lparr>sign = False, digits = [0, 256]\<rparr>" and ?c = "\<lparr>sign = False, digits = [1, 256]\<rparr>"
  define P where "P = (2 :: int) ^ 1062"
  have e: "dexp ?num = 1063" and f: "dfrac ?num = 2048" "\<not> dneg ?num"
    by (simp_all add: dexp_def dfrac_def dneg_def DOUBLE_SIGNIFICAND_SIZE_def DOUBLE_SIGNIFICAND_MASK_def)
  then have num: "isfinite ?num" "\<not> isnan ?num" "dscaled ?num = 4503599627372544 * P"
    by (simp_all add: isfinite_def isnan_def dscaled_def dmag_def P_def)
  have "(2 :: int) ^ 1074 = 4096 * P" "0 < P" by (simp_all add: P_def)
  moreover have "bigint_wf ?b" "bval ?b = 1099511627776" "GetLength ?b = 2" "bigint_wf ?c" "bval ?c = 1099511627777"
    by (simp_all add: bigint_wf_def bval_def bmag_def MAXSIZE_def)
  ultimately show ?thesis
    using compare_with_number_correct [of ?b True ?num] compare_with_number_correct [of ?b False ?num]
      compare_with_number_correct [of ?c True ?num] num by (simp add: abs_mult del: power_numeral)
qed

text \<open>C31. A number that is an integer converts to the BigInt of exactly that value, in canonical
  form; every other number raises the range error.\<close>

theorem number_to_bigint_correct:
  "if IsInteger num
   then \<exists>z. NumberToBigInt num = Inr z \<and> bigint_wf z \<and> bval z * 2 ^ 1074 = dscaled num
   else NumberToBigInt num = Inl not_an_integer"
  using NumberToBigInt_ok [of num] by (auto simp: NumberToBigInt_def)

text \<open>C36. \<open>BigIntToNumber\<close> does not round: for every BigInt of three digits whose head digit has eleven leading zeros, head and
  middle digit fill the mantissa, the lowest digit is never looked at and the result is the value with that digit
  cut off.  When the lowest digit is more than \<open>2 ^ 31\<close>, the next double is strictly closer.\<close>

theorem bigint_to_number_unrounded:
  assumes "bigint_wf b" "GetLength b = 3" "CountLeadingZeros (GetDigit b 2) = 11" "n = BigIntToNumber b"
  shows "dscaled n = (if bval b < 0 then -1 else 1) * (\<bar>bval b\<bar> div 2 ^ 32 * 2 ^ 32 * 2 ^ 1074) \<and>
    (2 ^ 31 < unat (GetDigit b 0) \<longrightarrow> \<bar>bval b * 2 ^ 1074 - dscaled (n + 1)\<bar> < \<bar>bval b * 2 ^ 1074 - dscaled n\<bar>)"
proof -
  obtain s d0 d1 h where b: "b = \<lparr>sign = s, digits = [d0, d1, h]\<rparr>"
    using assms(2) by (cases b) (auto simp: numeral_3_eq_3 length_Suc_conv)
  have clz: "CountLeadingZeros h = 11" and n: "n = BigIntToNumber \<lparr>sign = s, digits = [d0, d1, h]\<rparr>"
    using assms(3,4) by (simp_all add: b numeral_2_eq_2)
  define q x P where "q = int (unat h * 4294967296 + unat d1)" and "x = int (unat d0)" and "P = (2 :: int) ^ 1074"
  have P: "(2 :: int) ^ 1106 = 4294967296 * P" "0 < P" by (simp_all add: P_def)
  have x: "0 \<le> x" "x < 4294967296" using word32_bound [of d0] unfolding x_def by (simp, linarith)
  have mag: "bval b = (if s then -1 else 1) * (q * 4294967296 + x)" by (simp add: b q_def x_def bval_def bmag_def)
  have "0 < unat h" using eleven_zeros [OF clz] by (cases "unat h") simp_all
  then have q: "0 < q" unfolding q_def of_nat_0_less_iff by simp
  have neg: "bval b < 0 \<longleftrightarrow> s" and abs: "\<bar>bval b\<bar> = q * 4294967296 + x" using q x by (auto simp: mag)
  have cut: "\<bar>bval b\<bar> div 2 ^ 32 = q" unfolding abs using x by simp
  note d = three_digits_unrounded [OF clz n, folded q_def, unfolded P(1)]
  have n0: "dscaled n = (if s then -1 else 1) * (q * 4294967296 * P)" and n1: "dscaled (n + 1) = (if s then -1 else 1) * ((q + 1) * 4294967296 * P)"
    using d by (simp_all add: q_def algebra_simps)
  have below: "\<bar>bval b * P - dscaled n\<bar> = x * P"
    unfolding n0 mag using P(2) x(1) by (cases s) (simp_all add: algebra_simps abs_mult)
  have "bval b * P - dscaled (n + 1) = (if s then 1 else -1) * ((4294967296 - x) * P)"
    unfolding n1 mag by (cases s) (simp_all add: algebra_simps)
  then have above: "\<bar>bval b * P - dscaled (n + 1)\<bar> = (4294967296 - x) * P"
    using x(2) P(2) by (cases s) (simp_all add: abs_mult)
  have "\<bar>bval b * P - dscaled (n + 1)\<bar> < \<bar>bval b * P - dscaled n\<bar>" if "2 ^ 31 < unat d0"
  proof -
    have "2147483648 < unat d0" using that by simp
    then have "2147483648 < x" unfolding x_def by linarith
    then show ?thesis unfolding below above using P(2) by (intro mult_strict_right_mono) simp_all
  qed
  then show ?thesis unfolding neg cut n0 P_def [symmetric] by (simp add: b algebra_simps)
qed

theorem bigint_to_number_unrounded_witness:
  "let b = \<lparr>sign = False, digits = [0xFFFFFFFF, 1, 0x100000]\<rparr>; n = BigIntToNumber b
   in \<bar>bval b * 2 ^ 1074 - dscaled (n + 1)\<bar> < \<bar>bval b * 2 ^ 1074 - dscaled n\<bar>"
proof -
  let ?b = "\<lparr>sign = False, digits = [0xFFFFFFFF, 1, 0x100000]\<rparr>"
  have "bigint_wf ?b" "GetLength ?b = 3" "2 ^ 31 < unat (GetDigit ?b 0)" by (simp_all add: bigint_wf_def MAXSIZE_def)
  moreover have "CountLeadingZeros (GetDigit ?b 2) = 11" by code_simp
  ultimately show ?thesis unfolding Let_def using bigint_to_number_unrounded [of ?b, OF _ _ _ refl] by blast
qed

end
