(* ===== verification/JS_Value.thy ===== *)
theory JS_Value
  imports BigInt_Number
begin

text \<open>
  Tagged values (\<open>ecmascript/js_tagged_value.h\<close> and \<open>js_tagged_value-inl.h\<close>): the kinds of value the
  containers store, the number stored in a value, and the equalities \<open>SameValue\<close>, \<open>SameValueZero\<close> and
  \<open>StrictEqual\<close>.  A heap value carries its address and what the comparisons read of the object; the
  raw 64-bit equality of the source is equality of the model values as long as an address determines
  the object (\<open>heap_consistent\<close>).
\<close>

section \<open>Values\<close>

record ecma_string =
  str_addr :: nat
  str_interned :: bool
  str_hash :: "u32 option"
  str_chars :: "u16 list"

datatype JSTaggedValue =
    VHole | VUndefined | VNull | VTrue | VFalse | VException
  | VInt u32
  | VDouble u64
  | VString ecma_string
  | VBigInt nat bigint
  | VSymbol nat u32
  | VObject nat

fun IsInt :: "JSTaggedValue \<Rightarrow> bool" where
  "IsInt (VInt i) = True"
| "IsInt _ = False"

fun IsNumber :: "JSTaggedValue \<Rightarrow> bool" where
  "IsNumber (VInt i) = True"
| "IsNumber (VDouble d) = True"
| "IsNumber _ = False"

section \<open>Integers as doubles\<close>

text \<open>
  The implicit conversion of an \<open>int\<close> or \<open>uint32_t\<close> to \<open>double\<close> is exact: the magnitude is shifted up to
  53 significant bits, whose top bit is hidden.
\<close>

fun significant_bits :: "nat \<Rightarrow> nat" where
  "significant_bits n = (if n = 0 then 0 else Suc (significant_bits (n div 2)))"

declare significant_bits.simps [simp del]

definition signed_nat_to_double :: "bool \<Rightarrow> nat \<Rightarrow> u64" where
  "signed_nat_to_double neg n =
     word_of_nat (of_bool neg * 2 ^ 63 +
       (if n = 0 then 0
        else (1022 + significant_bits n) * 2 ^ 52 + (n * 2 ^ (53 - significant_bits n) - 2 ^ 52)))"

definition int_to_double :: "u32 \<Rightarrow> u64" where
  "int_to_double i = signed_nat_to_double (sint i < 0) (nat \<bar>sint i\<bar>)"

definition uint32_to_double :: "u32 \<Rightarrow> u64" where
  "uint32_to_double v = signed_nat_to_double False (unat v)"

text \<open>\<open>static_cast<uint32_t>\<close> of a non-negative double below \<open>2 ^ 32\<close>: the fraction is dropped.\<close>

definition double_to_uint32 :: "u64 \<Rightarrow> u32" where
  "double_to_uint32 d = word_of_nat (dmag d div 2 ^ 1074)"

definition JSTaggedValue_uint32 :: "u32 \<Rightarrow> JSTaggedValue" where
  "JSTaggedValue_uint32 v = (if sint v < 0 then VDouble (uint32_to_double v) else VInt v)"

fun GetArrayLength :: "JSTaggedValue \<Rightarrow> u32 option" where
  "GetArrayLength (VInt i) = Some i"
| "GetArrayLength (VDouble d) = Some (double_to_uint32 d)"
| "GetArrayLength _ = None"

text \<open>\<open>GetNumber\<close>, and \<open>ExtractNumber\<close> which is the same; the assertion that the value is a number is a hypothesis of the callers.\<close>

fun GetNumber :: "JSTaggedValue \<Rightarrow> u64" where
  "GetNumber (VInt i) = int_to_double i"
| "GetNumber (VDouble d) = d"
| "GetNumber _ = 0"

section \<open>Equality\<close>

text \<open>The operator \<open>==\<close> on doubles.\<close>

definition double_eq :: "u64 \<Rightarrow> u64 \<Rightarrow> bool" where
  "double_eq x y \<longleftrightarrow> \<not> isnan x \<and> \<not> isnan y \<and> (x = y \<or> dzero x \<and> dzero y)"

definition SameValueNumberic :: "JSTaggedValue \<Rightarrow> JSTaggedValue \<Rightarrow> bool" where
  "SameValueNumberic x y =
     (let xValue = GetNumber x; yValue = GetNumber y in
      if \<not> double_eq xValue yValue then isnan xValue \<and> isnan yValue
      else dneg xValue = dneg yValue)"

text \<open>
  \<open>EcmaString::StringsAreEqual\<close>: the hash codes are compared first when both strings have theirs cached
  (\<open>TryGetHashCode\<close>), the characters last.
\<close>

definition StringsAreEqual :: "ecma_string \<Rightarrow> ecma_string \<Rightarrow> bool" where
  "StringsAreEqual x y =
     (if str_addr x = str_addr y then True
      else if length (str_chars x) \<noteq> length (str_chars y) then False
      else if length (str_chars x) = 0 then True
      else case (str_hash x, str_hash y) of
          (Some h, Some k) \<Rightarrow> if h \<noteq> k then False else str_chars x = str_chars y
        | _ \<Rightarrow> str_chars x = str_chars y)"

definition StringCompare :: "ecma_string \<Rightarrow> ecma_string \<Rightarrow> bool" where
  "StringCompare x y =
     (if str_interned x \<and> str_interned y then str_addr x = str_addr y else StringsAreEqual x y)"

definition JSTaggedValue_SameValue :: "JSTaggedValue \<Rightarrow> JSTaggedValue \<Rightarrow> bool" where
  "JSTaggedValue_SameValue x y =
     (if x = y then True
      else if IsInt x \<and> IsInt y then False
      else if IsNumber x \<and> IsNumber y then SameValueNumberic x y
      else case (x, y) of
          (VString s, VString t) \<Rightarrow> StringCompare s t
        | (VBigInt _ b, VBigInt _ c) \<Rightarrow> SameValue b c
        | _ \<Rightarrow> False)"

definition JSTaggedValue_SameValueZero :: "JSTaggedValue \<Rightarrow> JSTaggedValue \<Rightarrow> bool" where
  "JSTaggedValue_SameValueZero x y =
     (if x = y then True
      else if IsNumber x \<and> IsNumber y then
        let xValue = GetNumber x; yValue = GetNumber y in
        double_eq xValue yValue \<or> isnan xValue \<and> isnan yValue
      else case (x, y) of
          (VString s, VString t) \<Rightarrow> StringsAreEqual s t
        | (VBigInt _ b, VBigInt _ c) \<Rightarrow> SameValueZero b c
        | _ \<Rightarrow> False)"

definition StrictNumberEquals :: "u64 \<Rightarrow> u64 \<Rightarrow> bool" where
  "StrictNumberEquals x y = (if isnan x \<or> isnan y then False else double_eq x y)"

definition JSTaggedValue_StrictEqual :: "JSTaggedValue \<Rightarrow> JSTaggedValue \<Rightarrow> bool" where
  "JSTaggedValue_StrictEqual x y =
     (case (x, y) of
        (VInt i, VInt j) \<Rightarrow> i = j
      | _ \<Rightarrow>
        if IsNumber x \<and> IsNumber y then StrictNumberEquals (GetNumber x) (GetNumber y)
        else if x = y then True
        else case (x, y) of
            (VString s, VString t) \<Rightarrow> StringCompare s t
          | (VBigInt _ b, VBigInt _ c) \<Rightarrow> Equal b c
          | _ \<Rightarrow> False)"

section \<open>The conversions are exact\<close>

lemma significant_bits_bounds:
  "0 < n \<Longrightarrow> 0 < significant_bits n \<and> 2 ^ (significant_bits n - 1) \<le> n \<and> n < 2 ^ significant_bits n"
proof (induction n rule: significant_bits.induct)
  case (1 n)
  show ?case
  proof (cases "n div 2 = 0")
    case True
    with 1 have "n = 1" by auto
    then show ?thesis by (simp add: significant_bits.simps)
  next
    case False
    let ?k = "significant_bits (n div 2)"
    have ih: "0 < ?k" "2 ^ (?k - 1) \<le> n div 2" "n div 2 < 2 ^ ?k"
      using 1 False by auto
    have "significant_bits n = Suc ?k" using 1 by (subst significant_bits.simps) simp
    have "2 ^ ?k = 2 * (2 :: nat) ^ (?k - 1)" using ih(1) by (cases ?k) auto
    moreover have "2 * (n div 2) \<le> n" "n \<le> 2 * (n div 2) + 1" by simp_all
    ultimately have "2 ^ ?k \<le> n" "n < 2 * 2 ^ ?k" using ih(2,3) by linarith+
    with \<open>significant_bits n = Suc ?k\<close> show ?thesis by simp
  qed
qed

lemma significant_bits_le: "n < 2 ^ k \<Longrightarrow> significant_bits n \<le> k"
proof (cases "n = 0")
  case True
  then show ?thesis by (simp add: significant_bits.simps)
next
  case False
  assume "n < 2 ^ k"
  then have "(2 :: nat) ^ (significant_bits n - 1) < 2 ^ k"
    using significant_bits_bounds [of n] False by linarith
  then have "significant_bits n - 1 < k" by simp
  then show ?thesis by linarith
qed

lemma dneg_eq: "dneg bits \<longleftrightarrow> 2 ^ 63 \<le> unat bits"
proof -
  have "unat bits < 2 ^ 64" using word64_bound [of bits] by simp
  then have "unat bits div 2 ^ 63 = of_bool (2 ^ 63 \<le> unat bits)"
    by (cases "2 ^ 63 \<le> unat bits") (auto intro!: div_nat_eqI)
  then have "odd (unat bits div 2 ^ 63) \<longleftrightarrow> 2 ^ 63 \<le> unat bits" by simp
  moreover have "bit bits 63 = bit (unat bits) 63" by (simp add: bit_unsigned_iff)
  ultimately show ?thesis by (simp add: dneg_def bit_iff_odd)
qed

lemma signed_nat_to_double_fields:
  assumes "0 < n" "n < 2 ^ 53"
  defines "k \<equiv> significant_bits n"
  shows "dneg (signed_nat_to_double neg n) = neg"
    and "dexp (signed_nat_to_double neg n) = 1022 + k"
    and "dfrac (signed_nat_to_double neg n) = n * 2 ^ (53 - k) - 2 ^ 52"
proof -
  have k: "0 < k" "2 ^ (k - 1) \<le> n" "n < 2 ^ k" "k \<le> 53"
    using significant_bits_bounds significant_bits_le assms by auto
  define f where "f = n * 2 ^ (53 - k) - 2 ^ 52"
  have "(2 :: nat) ^ (k - 1) * 2 ^ (53 - k) = 2 ^ 52" "(2 :: nat) ^ k * 2 ^ (53 - k) = 2 ^ 53"
    using k by (simp_all add: power_add [symmetric])
  moreover have "2 ^ (k - 1) * 2 ^ (53 - k) \<le> n * 2 ^ (53 - k)" using k by simp
  moreover have "n * 2 ^ (53 - k) < 2 ^ k * 2 ^ (53 - k)" using k by simp
  ultimately have f: "f < 2 ^ 52" unfolding f_def by simp
  have "(1022 + k) * 2 ^ 52 + f < 2 ^ 63" using f k by simp
  then have v: "unat (signed_nat_to_double neg n) = of_bool neg * 2 ^ 63 + ((1022 + k) * 2 ^ 52 + f)"
    using assms unfolding signed_nat_to_double_def f_def k_def
    by (subst unat_of_nat, cases neg) simp_all
  then show "dneg (signed_nat_to_double neg n) = neg"
    using f k by (cases neg) (simp_all add: dneg_eq)
  have v': "unat (signed_nat_to_double neg n) = f + (of_bool neg * 2 ^ 11 + (1022 + k)) * 2 ^ 52"
    unfolding v by (simp add: algebra_simps)
  have "unat (signed_nat_to_double neg n) div 2 ^ 52 = of_bool neg * 2 ^ 11 + (1022 + k)"
    unfolding v' using f by (simp only: div_mult_self1) simp
  then show "dexp (signed_nat_to_double neg n) = 1022 + k" using k by (simp add: dexp_eq)
  show "dfrac (signed_nat_to_double neg n) = n * 2 ^ (53 - k) - 2 ^ 52"
    unfolding dfrac_eq v' mod_mult_self1 using f by (simp add: f_def)
qed

lemma signed_nat_to_double_zero:
  "dneg (signed_nat_to_double neg 0) = neg" "dexp (signed_nat_to_double neg 0) = 0"
  "dfrac (signed_nat_to_double neg 0) = 0"
proof -
  have "unat (signed_nat_to_double neg 0) = of_bool neg * 2 ^ 63"
    unfolding signed_nat_to_double_def by (subst unat_of_nat, cases neg) simp_all
  then show "dneg (signed_nat_to_double neg 0) = neg" "dexp (signed_nat_to_double neg 0) = 0"
    "dfrac (signed_nat_to_double neg 0) = 0"
    by (cases neg; simp add: dneg_eq dexp_eq dfrac_eq)+
qed

lemma signed_nat_to_double_exact:
  assumes "n < 2 ^ 53"
  shows "isfinite (signed_nat_to_double neg n)"
    and "dneg (signed_nat_to_double neg n) = neg"
    and "dmag (signed_nat_to_double neg n) = n * 2 ^ 1074"
proof -
  consider "n = 0" | "0 < n" by auto
  then have *: "isfinite (signed_nat_to_double neg n) \<and> dneg (signed_nat_to_double neg n) = neg \<and>
      dmag (signed_nat_to_double neg n) = n * 2 ^ 1074"
  proof cases
    case 1
    then show ?thesis by (simp add: isfinite_def dmag_def signed_nat_to_double_zero)
  next
    case 2
    define k where "k = significant_bits n"
    have k: "0 < k" "2 ^ (k - 1) \<le> n" "k \<le> 53"
      using significant_bits_bounds significant_bits_le assms 2 by (auto simp: k_def)
    have "(2 :: nat) ^ 52 = 2 ^ (k - 1) * 2 ^ (53 - k)" using k by (simp add: power_add [symmetric])
    also have "\<dots> \<le> n * 2 ^ (53 - k)" using k by simp
    finally have "2 ^ 52 + (n * 2 ^ (53 - k) - 2 ^ 52) = n * 2 ^ (53 - k)" by (rule le_add_diff_inverse)
    moreover have "(2 :: nat) ^ (53 - k) * 2 ^ (1022 + k - 1) = 2 ^ 1074"
      unfolding power_add [symmetric] using k by simp
    ultimately have "dmag (signed_nat_to_double neg n) = n * 2 ^ 1074"
      unfolding dmag_def signed_nat_to_double_fields [OF 2 assms, folded k_def]
      by (simp del: power_Suc add: mult.assoc)
    then show ?thesis
      using signed_nat_to_double_fields [OF 2 assms, folded k_def] k by (simp add: isfinite_def)
  qed
  then show "isfinite (signed_nat_to_double neg n)" "dneg (signed_nat_to_double neg n) = neg"
    "dmag (signed_nat_to_double neg n) = n * 2 ^ 1074" by blast+
qed

lemma int_to_double_exact:
  "isfinite (int_to_double i)" "dneg (int_to_double i) \<longleftrightarrow> sint i < 0"
  "dscaled (int_to_double i) = sint i * 2 ^ 1074"
proof -
  have "sint i < 2 ^ 31" "- (2 ^ 31) \<le> sint i"
    using sint_lt [of i] sint_ge [of i] by simp_all
  then have b: "nat \<bar>sint i\<bar> < 2 ^ 53" by simp
  note e = signed_nat_to_double_exact [OF b, of "sint i < 0", folded int_to_double_def]
  show "isfinite (int_to_double i)" "dneg (int_to_double i) \<longleftrightarrow> sint i < 0"
    using e by blast+
  show "dscaled (int_to_double i) = sint i * 2 ^ 1074"
    unfolding dscaled_def e of_nat_mult by (simp del: of_nat_power)
qed

lemma uint32_to_double_to_uint32: "double_to_uint32 (uint32_to_double v) = v"
proof -
  have "unat v < 2 ^ 53" using word32_bound [of v] by simp
  then have "dmag (uint32_to_double v) = unat v * 2 ^ 1074"
    unfolding uint32_to_double_def by (rule signed_nat_to_double_exact)
  then show ?thesis unfolding double_to_uint32_def by (simp only: nonzero_mult_div_cancel_right) simp
qed

lemma GetArrayLength_uint32 [simp]: "GetArrayLength (JSTaggedValue_uint32 v) = Some v"
  by (simp add: JSTaggedValue_uint32_def uint32_to_double_to_uint32)

lemma JSTaggedValue_uint32_inject [simp]:
  "JSTaggedValue_uint32 v = JSTaggedValue_uint32 w \<longleftrightarrow> v = w"
  by (metis GetArrayLength_uint32 option.inject)

section \<open>What the equalities mean\<close>

text \<open>
  The abstract view of a number: NaN, a signed infinity, or an exact value in units of \<open>2 ^ -1074\<close>
  together with its sign, which tells \<open>-0\<close> from \<open>+0\<close>.
\<close>

datatype js_number = NaN | Infinity bool | Finite bool int

definition bits_value :: "u64 \<Rightarrow> js_number" where
  "bits_value d =
     (if isnan d then NaN else if \<not> isfinite d then Infinity (dneg d) else Finite (dneg d) (dscaled d))"

fun number_value :: "JSTaggedValue \<Rightarrow> js_number" where
  "number_value (VInt i) = Finite (sint i < 0) (sint i * 2 ^ 1074)"
| "number_value (VDouble d) = bits_value d"
| "number_value _ = NaN"

fun forget_zero_sign :: "js_number \<Rightarrow> js_number" where
  "forget_zero_sign (Finite neg v) = Finite (v < 0) v"
| "forget_zero_sign n = n"

definition same_value_spec :: "JSTaggedValue \<Rightarrow> JSTaggedValue \<Rightarrow> bool" where
  "same_value_spec x y =
     (if IsNumber x \<and> IsNumber y then number_value x = number_value y
      else case (x, y) of
          (VString s, VString t) \<Rightarrow> str_chars s = str_chars t
        | (VBigInt _ b, VBigInt _ c) \<Rightarrow> bval b = bval c
        | _ \<Rightarrow> x = y)"

definition same_value_zero_spec :: "JSTaggedValue \<Rightarrow> JSTaggedValue \<Rightarrow> bool" where
  "same_value_zero_spec x y =
     (if IsNumber x \<and> IsNumber y
      then forget_zero_sign (number_value x) = forget_zero_sign (number_value y)
      else same_value_spec x y)"

definition strict_equal_spec :: "JSTaggedValue \<Rightarrow> JSTaggedValue \<Rightarrow> bool" where
  "strict_equal_spec x y \<longleftrightarrow> \<not> (IsNumber x \<and> number_value x = NaN) \<and> same_value_zero_spec x y"

text \<open>
  What the heap guarantees: an address determines the string, the string table keeps one interned
  string per contents, a cached hash code depends on the contents only, and BigInt objects are
  canonical.
\<close>

fun heap_consistent :: "JSTaggedValue \<Rightarrow> JSTaggedValue \<Rightarrow> bool" where
  "heap_consistent (VString s) (VString t) \<longleftrightarrow>
     (str_addr s = str_addr t \<longrightarrow> s = t) \<and>
     (str_chars s = str_chars t \<longrightarrow>
        (str_interned s \<and> str_interned t \<longrightarrow> str_addr s = str_addr t) \<and>
        (str_hash s = None \<or> str_hash t = None \<or> str_hash s = str_hash t))"
| "heap_consistent (VBigInt _ b) (VBigInt _ c) \<longleftrightarrow> bigint_wf b \<and> bigint_wf c"
| "heap_consistent _ _ \<longleftrightarrow> True"

lemma unat_bits: "unat bits = of_bool (dneg bits) * 2 ^ 63 + dexp bits * 2 ^ 52 + dfrac bits"
proof -
  have "unat bits < 2 ^ 64" using word64_bound [of bits] by simp
  then have hi: "unat bits div 2 ^ 52 div 2 ^ 11 = of_bool (2 ^ 63 \<le> unat bits)"
    unfolding div_mult2_eq [symmetric] by (auto intro!: div_nat_eqI)
  have "unat bits = unat bits div 2 ^ 52 * 2 ^ 52 + dfrac bits" by (simp add: dfrac_eq)
  moreover have "unat bits div 2 ^ 52 = unat bits div 2 ^ 52 div 2 ^ 11 * 2 ^ 11 + dexp bits"
    unfolding dexp_eq by (rule div_mult_mod_eq [symmetric])
  ultimately show ?thesis unfolding dneg_eq hi by (simp add: algebra_simps)
qed

lemma dexp_less: "dexp bits < 2 ^ 11" unfolding dexp_eq by simp

lemma dmag_less: "dmag bits < 2 ^ 52 * 2 ^ dexp bits"
proof (cases "dexp bits")
  case (Suc e)
  then have "dmag bits = (2 ^ 52 + dfrac bits) * 2 ^ e" by (simp add: dmag_def)
  also have "\<dots> < (2 * 2 ^ 52) * 2 ^ e" using dfrac_less [of bits] by simp
  finally show ?thesis using Suc by simp
qed (use dfrac_less in \<open>simp add: dmag_def\<close>)

lemma dmag_ge: "0 < dexp bits \<Longrightarrow> 2 ^ 52 * 2 ^ (dexp bits - 1) \<le> dmag bits"
  by (simp add: dmag_def)

lemma dexp_mono: "dmag x \<le> dmag y \<Longrightarrow> dexp x \<le> dexp y"
proof (rule ccontr)
  assume le: "dmag x \<le> dmag y" and "\<not> dexp x \<le> dexp y"
  then have lt: "dexp y \<le> dexp x - 1" "0 < dexp x" by auto
  have "dmag y < 2 ^ 52 * 2 ^ dexp y" by (rule dmag_less)
  also have "\<dots> \<le> 2 ^ 52 * 2 ^ (dexp x - 1)"
    using power_increasing [OF lt(1), of "2 :: nat"] by simp
  also have "\<dots> \<le> dmag x" using lt(2) by (rule dmag_ge)
  finally show False using le by simp
qed

lemma finite_bits_inject:
  assumes "dneg x = dneg y" "dscaled x = dscaled y"
  shows "x = y"
proof -
  have m: "dmag x = dmag y" using assms by (auto simp: dscaled_def split: if_splits)
  then have e: "dexp x = dexp y" using dexp_mono [of x y] dexp_mono [of y x] by simp
  with m have "dfrac x = dfrac y" by (auto simp: dmag_def split: if_splits)
  with e assms(1) have "unat x = unat y" by (simp only: unat_bits)
  then show ?thesis by (rule word_unat_eq_iff [THEN iffD2])
qed

lemma infinite_bits_inject:
  "\<not> isnan x \<Longrightarrow> \<not> isnan y \<Longrightarrow> \<not> isfinite x \<Longrightarrow> \<not> isfinite y \<Longrightarrow> dneg x = dneg y \<Longrightarrow> x = y"
  by (rule word_unat_eq_iff [THEN iffD2]) (simp add: unat_bits isnan_def isfinite_def del: word_unat_eq_iff unsigned_word_eqI)

lemma bits_value_eq: "bits_value x = bits_value y \<longleftrightarrow> isnan x \<and> isnan y \<or> x = y"
  by (auto simp: bits_value_def intro: finite_bits_inject infinite_bits_inject split: if_splits)

lemma finite_not_nan: "isfinite x \<Longrightarrow> \<not> isnan x"
  by (simp add: isfinite_def isnan_def)

lemma number_value_bits: "IsNumber x \<Longrightarrow> number_value x = bits_value (GetNumber x)"
  by (cases x) (simp_all add: bits_value_def int_to_double_exact finite_not_nan)

lemma dzero_scaled: "dzero x \<longleftrightarrow> dscaled x = 0"
  by (simp add: dscaled_def dmag_zero)

lemma dneg_scaled: "dscaled x \<noteq> 0 \<Longrightarrow> dneg x \<longleftrightarrow> dscaled x < 0"
  by (auto simp: dscaled_def split: if_splits)

lemma dzero_finite: "dzero x \<Longrightarrow> isfinite x"
  by (simp add: dzero_def isfinite_def)

lemma forget_zero_sign_bits:
  "forget_zero_sign (bits_value x) = forget_zero_sign (bits_value y) \<longleftrightarrow>
   isnan x \<and> isnan y \<or> double_eq x y"
proof -
  have "isfinite x \<and> isfinite y \<and> dscaled x = dscaled y \<and> dscaled y \<noteq> 0 \<longrightarrow> x = y"
    using dneg_scaled [of x] dneg_scaled [of y] finite_bits_inject [of x y] by auto
  then show ?thesis
    by (auto simp: bits_value_def double_eq_def finite_not_nan dzero_finite dzero_scaled
        intro: infinite_bits_inject split: if_splits)
qed

lemma StringsAreEqual_chars:
  "heap_consistent (VString s) (VString t) \<Longrightarrow> StringsAreEqual s t \<longleftrightarrow> str_chars s = str_chars t"
  by (auto simp: StringsAreEqual_def split: option.splits)

lemma StringCompare_chars:
  "heap_consistent (VString s) (VString t) \<Longrightarrow> StringCompare s t \<longleftrightarrow> str_chars s = str_chars t"
  by (simp add: StringCompare_def StringsAreEqual_chars) auto

lemma SameValueNumberic_bits:
  "IsNumber x \<Longrightarrow> IsNumber y \<Longrightarrow> SameValueNumberic x y \<longleftrightarrow> number_value x = number_value y"
proof -
  have "dzero a \<Longrightarrow> dzero b \<Longrightarrow> dneg a = dneg b \<Longrightarrow> a = b" for a b
    using finite_bits_inject [of a b] by (simp add: dzero_scaled)
  then show "IsNumber x \<Longrightarrow> IsNumber y \<Longrightarrow> SameValueNumberic x y \<longleftrightarrow> number_value x = number_value y"
    by (auto simp: SameValueNumberic_def Let_def double_eq_def number_value_bits bits_value_eq)
qed

lemma VInt_number_value: "number_value (VInt i) = number_value (VInt j) \<longleftrightarrow> i = j"
  by (auto simp del: power_numeral intro: signed_word_eqI)

lemma SameValue_numbers:
  "IsNumber x \<Longrightarrow> IsNumber y \<Longrightarrow> JSTaggedValue_SameValue x y \<longleftrightarrow> number_value x = number_value y"
  using VInt_number_value
  by (auto simp: JSTaggedValue_SameValue_def SameValueNumberic_bits elim!: IsInt.elims)

lemma SameValueZero_numbers:
  "IsNumber x \<Longrightarrow> IsNumber y \<Longrightarrow> JSTaggedValue_SameValueZero x y \<longleftrightarrow>
     forget_zero_sign (number_value x) = forget_zero_sign (number_value y)"
  by (auto simp: JSTaggedValue_SameValueZero_def Let_def number_value_bits forget_zero_sign_bits double_eq_def)

lemma StrictEqual_numbers:
  assumes "IsNumber x" "IsNumber y"
  shows "JSTaggedValue_StrictEqual x y \<longleftrightarrow> number_value x \<noteq> NaN \<and>
     forget_zero_sign (number_value x) = forget_zero_sign (number_value y)"
proof (cases "IsInt x \<and> IsInt y")
  case True
  then obtain i j where "x = VInt i" "y = VInt j" by (auto elim!: IsInt.elims)
  then show ?thesis using VInt_number_value [of i j] by (auto simp: JSTaggedValue_StrictEqual_def)
next
  case False
  then have "JSTaggedValue_StrictEqual x y \<longleftrightarrow> StrictNumberEquals (GetNumber x) (GetNumber y)"
    using assms by (cases x; cases y) (simp_all add: JSTaggedValue_StrictEqual_def)
  moreover have "bits_value (GetNumber x) = NaN \<longleftrightarrow> isnan (GetNumber x)" by (simp add: bits_value_def)
  ultimately show ?thesis
    unfolding number_value_bits [OF assms(1)] number_value_bits [OF assms(2)] forget_zero_sign_bits
    by (auto simp: StrictNumberEquals_def double_eq_def)
qed

lemma not_number_equality:
  assumes "heap_consistent x y" "\<not> (IsNumber x \<and> IsNumber y)"
  shows "JSTaggedValue_SameValue x y \<longleftrightarrow> same_value_spec x y"
    and "JSTaggedValue_SameValueZero x y \<longleftrightarrow> same_value_spec x y"
    and "JSTaggedValue_StrictEqual x y \<longleftrightarrow> same_value_spec x y"
  using assms
  by (cases x; cases y; auto simp: JSTaggedValue_SameValue_def JSTaggedValue_SameValueZero_def
      JSTaggedValue_StrictEqual_def same_value_spec_def StringCompare_chars StringsAreEqual_chars
      SameValue_def SameValueZero_def Equal_bval simp del: heap_consistent.simps(1))+

text \<open>C33. The three equalities of tagged values decide what ECMAScript asks of them.  \<open>SameValue\<close> holds
  exactly when both are the same number (NaN being the same as NaN, \<open>-0\<close> different from \<open>+0\<close>, an int32
  equal to the double with its value), strings of equal contents, BigInts of equal value, or the same
  object or special value; \<open>SameValueZero\<close> identifies \<open>-0\<close> and \<open>+0\<close>; \<open>StrictEqual\<close> also makes NaN
  different from itself.  Two strings have to come from a heap in order (\<open>heap_consistent\<close>): the address determines the
  string, interned strings of the same contents are one object, and two strings of the same contents that cache a
  hash code cache the same one, because the code compares those first.  BigInts are canonical.  No other values are restricted.\<close>

theorem tagged_value_equality:
  assumes "heap_consistent x y"
  shows "(JSTaggedValue_SameValue x y \<longleftrightarrow> same_value_spec x y) \<and>
    (JSTaggedValue_SameValueZero x y \<longleftrightarrow> same_value_zero_spec x y) \<and>
    (JSTaggedValue_StrictEqual x y \<longleftrightarrow> strict_equal_spec x y)"
proof (cases "IsNumber x \<and> IsNumber y")
  case True
  then show ?thesis
    by (simp add: SameValue_numbers SameValueZero_numbers StrictEqual_numbers same_value_spec_def
        same_value_zero_spec_def strict_equal_spec_def)
next
  case False
  then have "strict_equal_spec x y \<longleftrightarrow> same_value_spec x y" "same_value_zero_spec x y \<longleftrightarrow> same_value_spec x y"
    by (cases x; cases y; simp add: strict_equal_spec_def same_value_zero_spec_def same_value_spec_def)+
  with not_number_equality [OF assms False] show ?thesis by simp
qed

theorem tagged_value_equality_witness:
  "JSTaggedValue_SameValue (VInt 1) (VDouble 0x3FF0000000000000) \<and>
   \<not> JSTaggedValue_SameValue (VInt 0) (VDouble 0x8000000000000000) \<and>
   JSTaggedValue_StrictEqual (VInt 0) (VDouble 0x8000000000000000) \<and>
   JSTaggedValue_StrictEqual
     (VString \<lparr>str_addr = 1, str_interned = True, str_hash = Some 0x8000000C, str_chars = [0x31, 0x32]\<rparr>)
     (VString \<lparr>str_addr = 2, str_interned = False, str_hash = Some 0x8000000C, str_chars = [0x31, 0x32]\<rparr>) \<and>
   \<not> JSTaggedValue_SameValue
     (VString \<lparr>str_addr = 1, str_interned = True, str_hash = Some 0x8000000C, str_chars = [0x31, 0x32]\<rparr>)
     (VString \<lparr>str_addr = 3, str_interned = True, str_hash = None, str_chars = [0x61]\<rparr>) \<and>
   JSTaggedValue_SameValueZero (VBigInt 4 \<lparr>sign = True, digits = [7]\<rparr>) (VBigInt 5 \<lparr>sign = True, digits = [7]\<rparr>)"
proof -
  let ?s = "VString \<lparr>str_addr = 1, str_interned = True, str_hash = Some 0x8000000C, str_chars = [0x31, 0x32]\<rparr>"
    and ?t = "VString \<lparr>str_addr = 2, str_interned = False, str_hash = Some 0x8000000C, str_chars = [0x31, 0x32]\<rparr>"
    and ?u = "VString \<lparr>str_addr = 3, str_interned = True, str_hash = None, str_chars = [0x61]\<rparr>"
    and ?x = "VBigInt 4 \<lparr>sign = True, digits = [7]\<rparr>" and ?y = "VBigInt 5 \<lparr>sign = True, digits = [7]\<rparr>"
  have "heap_consistent ?s ?t" "heap_consistent ?s ?u" "heap_consistent ?x ?y"
    by (simp_all add: bigint_wf_def MAXSIZE_def)
  moreover have "strict_equal_spec ?s ?t" "\<not> same_value_spec ?s ?u" "same_value_zero_spec ?x ?y"
    by (simp_all add: strict_equal_spec_def same_value_spec_def same_value_zero_spec_def)
  ultimately have strings: "JSTaggedValue_StrictEqual ?s ?t" "\<not> JSTaggedValue_SameValue ?s ?u" "JSTaggedValue_SameValueZero ?x ?y"
    using tagged_value_equality [of ?s ?t] tagged_value_equality [of ?s ?u] tagged_value_equality [of ?x ?y] by blast+
  have "same_value_spec (VInt 1) (VDouble 0x3FF0000000000000)"
    by (simp add: same_value_spec_def bits_value_def isnan_def isfinite_def dscaled_def dmag_def dneg_eq dexp_eq dfrac_eq)
  moreover have "\<not> same_value_spec (VInt 0) (VDouble 0x8000000000000000)"
    "strict_equal_spec (VInt 0) (VDouble 0x8000000000000000)"
    by (simp_all add: same_value_spec_def strict_equal_spec_def same_value_zero_spec_def bits_value_def
        isnan_def isfinite_def dscaled_def dmag_def dneg_eq dexp_eq dfrac_eq)
  ultimately show ?thesis
    using tagged_value_equality [of "VInt 1" "VDouble 0x3FF0000000000000"]
      tagged_value_equality [of "VInt 0" "VDouble 0x8000000000000000"] strings by simp
qed

end
