(* ===== verification/Tagged_Array.thy ===== *)
theory Tagged_Array
  imports JS_Value "HOL-Library.Monad_Syntax"
begin

text \<open>
  Arrays of tagged values (\<open>ecmascript/tagged_array.h\<close>, \<open>tagged_array-inl.h\<close>) and the copies of them
  made by \<open>ObjectFactory\<close>.  An array is the list of its slots.  \<open>Get\<close> and \<open>Set\<close> do not check their index
  in a release build, so an access outside of the object is \<open>None\<close>: a theorem that an operation returns
  \<open>Some\<close> says that all its accesses stay inside of the arrays it works on.  Indices are \<open>uint32_t\<close>, and
  loops count in \<open>uint32_t\<close> as in the source.
\<close>

type_synonym tagged_array = "JSTaggedValue list"

section \<open>Counting in 32 bits\<close>

lemma unat_Suc: "i < n \<Longrightarrow> unat (i + 1) = Suc (unat i)" for i n :: u32
  using word32_bound [of n] by (simp add: unat_plus_if_size word_size word_less_nat_alt)

lemma unat_pred: "0 < n \<Longrightarrow> unat (n - 1) = unat n - 1" for n :: u32
  by (metis gr_implies_not0 unat_minus_one word_less_def word_neq_0_conv)

lemma count_up [simp]: "i < n \<Longrightarrow> unat n - unat (i + 1) < unat n - unat i" for i n :: u32
  by (simp add: unat_Suc word_less_nat_alt)

lemma sint_unat: "sint i = (if unat i < 2147483648 then int (unat i) else int (unat i) - 4294967296)" for i :: u32
proof -
  have "sint i = signed_take_bit 31 (uint i)" by (simp add: sint_uint)
  also have "\<dots> = (uint i + 2147483648) mod 4294967296 - 2147483648"
    by (simp add: signed_take_bit_eq_take_bit_shift take_bit_eq_mod)
  finally have s: "sint i = (uint i + 2147483648) mod 4294967296 - 2147483648" .
  have u: "uint i = int (unat i)" by simp
  show ?thesis
  proof (cases "unat i < 2147483648")
    case True
    then have "(uint i + 2147483648) mod 4294967296 = uint i + 2147483648"
      unfolding u by (intro mod_pos_pos_trivial; linarith)
    then show ?thesis using True unfolding s u by simp
  next
    case False
    then have "uint i + 2147483648 = uint i - 2147483648 + 4294967296" "0 \<le> uint i - 2147483648"
      "uint i - 2147483648 < 4294967296"
      using word32_bound [of i] unfolding u by linarith+
    then have "(uint i + 2147483648) mod 4294967296 = uint i - 2147483648"
      by (simp only: mod_add_self2 mod_pos_pos_trivial)
    then show ?thesis using False unfolding s u by simp
  qed
qed

lemma sint_small: "unat i < 2147483648 \<Longrightarrow> sint i = int (unat i)" for i :: u32
  unfolding sint_unat by simp

lemma sint_length: "unat i = n \<Longrightarrow> n < 2147483648 \<Longrightarrow> sint i = int n" for i :: u32
  unfolding sint_unat by auto

text \<open>The test \<open>index < 0 || index >= length\<close> on \<open>int\<close> is the unsigned test.\<close>

lemma sint_outside:
  fixes i :: u32
  assumes "n < 2147483648"
  shows "sint i < 0 \<or> int n \<le> sint i \<longleftrightarrow> \<not> unat i < n"
proof (cases "unat i < 2147483648")
  case True
  then have "sint i = int (unat i)" by (rule sint_small)
  then show ?thesis by linarith
next
  case False
  then have "sint i = int (unat i) - 4294967296" by (simp only: sint_unat if_False)
  then show ?thesis using False assms word32_bound [of i] by linarith
qed

lemma sint_above:
  fixes i :: u32
  assumes "n < 2147483648"
  shows "sint i < 0 \<or> int n < sint i \<longleftrightarrow> \<not> unat i \<le> n"
proof (cases "unat i < 2147483648")
  case True
  then have "sint i = int (unat i)" by (rule sint_small)
  then show ?thesis by linarith
next
  case False
  then have "sint i = int (unat i) - 4294967296" by (simp only: sint_unat if_False)
  then show ?thesis using False assms word32_bound [of i] by linarith
qed

section \<open>Definitions\<close>

definition TaggedArray_GetLength :: "tagged_array \<Rightarrow> u32" where
  "TaggedArray_GetLength arr = word_of_nat (length arr)"

definition TaggedArray_Get :: "tagged_array \<Rightarrow> u32 \<Rightarrow> JSTaggedValue option" where
  "TaggedArray_Get arr idx = (if unat idx < length arr then Some (arr ! unat idx) else None)"

definition TaggedArray_Set :: "tagged_array \<Rightarrow> u32 \<Rightarrow> JSTaggedValue \<Rightarrow> tagged_array option" where
  "TaggedArray_Set arr idx v = (if unat idx < length arr then Some (arr[unat idx := v]) else None)"

definition NewTaggedArray :: "u32 \<Rightarrow> JSTaggedValue \<Rightarrow> tagged_array" where
  "NewTaggedArray len initVal = replicate (unat len) initVal"

text \<open>
  \<open>copy_up c dst d src s\<close>: the loops \<open>dst->Set(d + i, src->Get(s + i))\<close> for \<open>i\<close> below \<open>c\<close>, and
  \<open>fill_up\<close> the ones that store a constant.
\<close>

fun copy_up :: "nat \<Rightarrow> tagged_array \<Rightarrow> u32 \<Rightarrow> tagged_array \<Rightarrow> u32 \<Rightarrow> tagged_array option" where
  "copy_up 0 dst d src s = Some dst"
| "copy_up (Suc c) dst d src s = do {
     v \<leftarrow> TaggedArray_Get src s;
     dst' \<leftarrow> TaggedArray_Set dst d v;
     copy_up c dst' (d + 1) src (s + 1)
   }"

fun fill_up :: "nat \<Rightarrow> tagged_array \<Rightarrow> u32 \<Rightarrow> JSTaggedValue \<Rightarrow> tagged_array option" where
  "fill_up 0 dst d v = Some dst"
| "fill_up (Suc c) dst d v = do {
     dst' \<leftarrow> TaggedArray_Set dst d v;
     fill_up c dst' (d + 1) v
   }"

text \<open>The contents of a freshly allocated array are the Holes it is filled with, or unknown until written.\<close>

definition ExtendArray :: "tagged_array \<Rightarrow> u32 \<Rightarrow> JSTaggedValue \<Rightarrow> tagged_array option" where
  "ExtendArray old len initVal = do {
     let oldLength = TaggedArray_GetLength old;
     newArray \<leftarrow> copy_up (unat oldLength) (NewTaggedArray len VHole) 0 old 0;
     fill_up (unat len - unat oldLength) newArray oldLength initVal
   }"

definition CopyArray :: "tagged_array \<Rightarrow> u32 \<Rightarrow> u32 \<Rightarrow> tagged_array option" where
  "CopyArray old oldLength newLength =
     (if newLength = 0 then Some []
      else if newLength > oldLength then ExtendArray old newLength VHole
      else copy_up (unat newLength) (NewTaggedArray newLength VHole) 0 old 0)"

definition NewAndCopyTaggedArray :: "tagged_array \<Rightarrow> u32 \<Rightarrow> u32 \<Rightarrow> u32 \<Rightarrow> tagged_array option" where
  "NewAndCopyTaggedArray src newLength oldLength k =
     (if newLength = 0 then Some []
      else do {
        dst \<leftarrow> copy_up (unat oldLength) (NewTaggedArray newLength VHole) 0 src k;
        fill_up (unat newLength - unat oldLength) dst oldLength VHole
      })"

text \<open>\<open>CopyDeque\<close> and \<open>CopyQueue\<close> copy from index \<open>cur\<close> up to \<open>tail\<close> around the end of the old array.\<close>

partial_function (option) copy_ring ::
    "tagged_array \<Rightarrow> u32 \<Rightarrow> tagged_array \<Rightarrow> u32 \<Rightarrow> u32 \<Rightarrow> tagged_array option" where
  "copy_ring old cur newArray newIndex tail =
     (if cur = tail then Some newArray
      else do {
        v \<leftarrow> TaggedArray_Get old cur;
        newArray' \<leftarrow> TaggedArray_Set newArray newIndex v;
        copy_ring old ((cur + 1) mod TaggedArray_GetLength old) newArray' (newIndex + 1) tail
      })"

definition CopyDeque :: "tagged_array \<Rightarrow> u32 \<Rightarrow> u32 \<Rightarrow> u32 \<Rightarrow> tagged_array option" where
  "CopyDeque old newLength front lst = copy_ring old front (NewTaggedArray newLength VHole) 0 lst"

definition CopyQueue :: "tagged_array \<Rightarrow> u32 \<Rightarrow> u32 \<Rightarrow> u32 \<Rightarrow> tagged_array option" where
  "CopyQueue old newLength front tail = copy_ring old front (NewTaggedArray newLength VHole) 0 tail"

text \<open>\<open>RemoveElementByIndex\<close>: with or without write barriers the same slots are written.\<close>

function shift_down :: "tagged_array \<Rightarrow> u32 \<Rightarrow> u32 \<Rightarrow> tagged_array option" where
  "shift_down arr index lst =
     (if index < lst then do {
        v \<leftarrow> TaggedArray_Get arr (index + 1);
        arr' \<leftarrow> TaggedArray_Set arr index v;
        shift_down arr' (index + 1) lst
      } else Some arr)"
  by auto
termination by (relation "measure (\<lambda>(arr, index, lst). unat lst - unat index)") simp_all

declare shift_down.simps [simp del]

definition RemoveElementByIndex :: "tagged_array \<Rightarrow> u32 \<Rightarrow> u32 \<Rightarrow> tagged_array option" where
  "RemoveElementByIndex arr index effectiveLength = do {
     arr' \<leftarrow> shift_down arr index (effectiveLength - 1);
     TaggedArray_Set arr' (effectiveLength - 1) VHole
   }"

function shift_up :: "tagged_array \<Rightarrow> u32 \<Rightarrow> u32 \<Rightarrow> tagged_array option" where
  "shift_up arr index effectiveLength =
     (if effectiveLength \<noteq> index \<and> effectiveLength > 0 then do {
        v \<leftarrow> TaggedArray_Get arr (effectiveLength - 1);
        arr' \<leftarrow> TaggedArray_Set arr effectiveLength v;
        shift_up arr' index (effectiveLength - 1)
      } else Some arr)"
  by auto
termination
  by (relation "measure (\<lambda>(arr, index, n). unat n)") (simp_all add: unat_pred word_less_nat_alt)

declare shift_up.simps [simp del]

definition InsertElementByIndex :: "tagged_array \<Rightarrow> JSTaggedValue \<Rightarrow> u32 \<Rightarrow> u32 \<Rightarrow> tagged_array option" where
  "InsertElementByIndex arr v index effectiveLength = do {
     arr' \<leftarrow> shift_up arr index effectiveLength;
     TaggedArray_Set arr' index v
   }"

definition CopyTaggedArrayElement :: "tagged_array \<Rightarrow> tagged_array \<Rightarrow> u32 \<Rightarrow> tagged_array option" where
  "CopyTaggedArrayElement src dst effectiveLength = copy_up (unat effectiveLength) dst 0 src 0"

definition TaggedArray_Append :: "tagged_array \<Rightarrow> tagged_array \<Rightarrow> tagged_array option" where
  "TaggedArray_Append xs ys = do {
     let firstLength = TaggedArray_GetLength xs;
     let secondLength = TaggedArray_GetLength ys;
     let len = firstLength + secondLength;
     argument \<leftarrow> copy_up (unat firstLength) (NewTaggedArray len VHole) 0 xs 0;
     copy_up (unat len - unat firstLength) argument firstLength ys 0
   }"

definition TaggedArray_Trim :: "tagged_array \<Rightarrow> u32 \<Rightarrow> tagged_array" where
  "TaggedArray_Trim arr newLength = take (unat newLength) arr"

section \<open>Arrays as lists\<close>

abbreviation fits :: "tagged_array \<Rightarrow> bool" where
  "fits arr \<equiv> length arr < 4294967296"

lemma unat_GetLength [simp]: "fits arr \<Longrightarrow> unat (TaggedArray_GetLength arr) = length arr"
  by (simp add: TaggedArray_GetLength_def unat_of_nat)

lemma GetLength_update [simp]: "TaggedArray_GetLength (arr[i := v]) = TaggedArray_GetLength arr"
  by (simp add: TaggedArray_GetLength_def)

lemma Get_Some [simp]: "unat i < length arr \<Longrightarrow> TaggedArray_Get arr i = Some (arr ! unat i)"
  by (simp add: TaggedArray_Get_def)

lemma Set_Some [simp]: "unat i < length arr \<Longrightarrow> TaggedArray_Set arr i v = Some (arr[unat i := v])"
  by (simp add: TaggedArray_Set_def)

lemma Get_None [simp]: "length arr \<le> unat i \<Longrightarrow> TaggedArray_Get arr i = None"
  by (simp add: TaggedArray_Get_def)

lemma Set_None [simp]: "length arr \<le> unat i \<Longrightarrow> TaggedArray_Set arr i v = None"
  by (simp add: TaggedArray_Set_def)

lemma length_NewTaggedArray [simp]: "length (NewTaggedArray n v) = unat n"
  by (simp add: NewTaggedArray_def)

lemma fits_New [simp]: "fits (NewTaggedArray n v)"
  using word32_bound [of n] by simp

lemma unat_inc: "Suc (unat d) < 4294967296 \<Longrightarrow> unat (d + 1) = Suc (unat d)" for d :: u32
  by (simp add: unat_plus_if_size word_size)

lemma update_step:
  "d < length dst \<Longrightarrow> take (Suc d) (dst[d := v]) = take d dst @ [v]"
  "d < n \<Longrightarrow> drop n (dst[d := v]) = drop n dst"
  by (simp_all add: take_Suc_conv_app_nth)

lemma copy_up_spec:
  assumes "unat d + c \<le> length dst" "unat s + c \<le> length src" "fits dst" "fits src"
  shows "copy_up c dst d src s =
    Some (take (unat d) dst @ take c (drop (unat s) src) @ drop (unat d + c) dst)"
  using assms
proof (induction c arbitrary: dst d s)
  case (Suc c)
  have u: "unat (d + 1) = Suc (unat d)" "unat (s + 1) = Suc (unat s)"
    using Suc.prems by (auto intro!: unat_inc)
  have "take (Suc c) (drop (unat s) src) = src ! unat s # take c (drop (Suc (unat s)) src)"
    using Suc.prems by (simp add: Cons_nth_drop_Suc [symmetric])
  then show ?case
    using Suc.prems Suc.IH [of "d + 1" "dst[unat d := src ! unat s]" "s + 1"] by (simp add: u update_step)
qed simp

lemma fill_up_spec:
  assumes "unat d + c \<le> length dst" "fits dst"
  shows "fill_up c dst d v = Some (take (unat d) dst @ replicate c v @ drop (unat d + c) dst)"
  using assms
proof (induction c arbitrary: dst d)
  case (Suc c)
  have u: "unat (d + 1) = Suc (unat d)" using Suc.prems by (auto intro!: unat_inc)
  then show ?case
    using Suc.prems Suc.IH [of "d + 1" "dst[unat d := v]"] by (simp add: update_step)
qed simp

lemma ExtendArray_spec:
  assumes "fits old" "length old \<le> unat n"
  shows "ExtendArray old n v = Some (old @ replicate (unat n - length old) v)"
  using assms word32_bound [of n] by (simp add: ExtendArray_def copy_up_spec fill_up_spec Let_def)

lemma CopyArray_grow:
  assumes "fits old" "oldLength = TaggedArray_GetLength old" "oldLength < n"
  shows "CopyArray old oldLength n = Some (old @ replicate (unat n - length old) VHole)"
proof -
  have "n \<noteq> 0" "length old \<le> unat n" using assms by (auto simp: word_less_nat_alt)
  with assms show ?thesis by (simp add: CopyArray_def ExtendArray_spec)
qed

lemma CopyArray_shrink:
  assumes "fits old" "n \<le> oldLength" "unat oldLength \<le> length old"
  shows "CopyArray old oldLength n = Some (take (unat n) old)"
proof -
  have "unat n \<le> length old" using assms by (simp add: word_le_nat_alt)
  moreover have "\<not> oldLength < n" using assms by simp
  ultimately show ?thesis
    using assms by (cases "n = 0") (simp_all add: CopyArray_def copy_up_spec)
qed

lemma NewAndCopyTaggedArray_spec:
  assumes "fits src" "unat oldLength \<le> unat n" "unat k + unat oldLength \<le> length src"
  shows "NewAndCopyTaggedArray src n oldLength k =
    Some (take (unat oldLength) (drop (unat k) src) @ replicate (unat n - unat oldLength) VHole)"
proof (cases "n = 0")
  case False
  moreover have "min (length src - unat k) (unat oldLength) = unat oldLength" using assms by simp
  ultimately show ?thesis
    using assms word32_bound [of n]
    by (simp add: NewAndCopyTaggedArray_def copy_up_spec fill_up_spec)
qed (use assms in \<open>simp add: NewAndCopyTaggedArray_def\<close>)

lemma TaggedArray_Append_spec:
  assumes "length xs + length ys < 4294967296"
  shows "TaggedArray_Append xs ys = Some (xs @ ys)"
proof -
  have "unat (TaggedArray_GetLength xs + TaggedArray_GetLength ys) = length xs + length ys"
    using assms by (simp add: unat_plus_if_size word_size)
  then show ?thesis
    using assms by (simp add: TaggedArray_Append_def Let_def copy_up_spec)
qed

lemma shift_down_spec:
  assumes "unat index \<le> unat lst" "unat lst < length arr" "fits arr"
  shows "shift_down arr index lst =
    Some (take (unat index) arr @ drop (Suc (unat index)) (take (Suc (unat lst)) arr) @ drop (unat lst) arr)"
  using assms
proof (induction arr index lst rule: shift_down.induct)
  case (1 arr index lst)
  show ?case
  proof (cases "index < lst")
    case True
    then have u: "unat (index + 1) = Suc (unat index)" by (rule unat_Suc)
    have lt: "unat index < unat lst" using True by (simp add: word_less_nat_alt)
    have IH: "shift_down (arr[unat index := arr ! Suc (unat index)]) (index + 1) lst =
        Some (take (Suc (unat index)) (arr[unat index := arr ! Suc (unat index)]) @
          drop (Suc (Suc (unat index))) (take (Suc (unat lst)) (arr[unat index := arr ! Suc (unat index)])) @
          drop (unat lst) (arr[unat index := arr ! Suc (unat index)]))"
      using "1.IH" [OF True, of "arr ! Suc (unat index)" "arr[unat index := arr ! Suc (unat index)]"]
        "1.prems" lt by (simp add: u)
    have "drop (Suc (unat index)) (take (Suc (unat lst)) arr) =
        arr ! Suc (unat index) # drop (Suc (Suc (unat index))) (take (Suc (unat lst)) arr)"
      using "1.prems" lt by (simp add: Cons_nth_drop_Suc [symmetric] drop_take Suc_diff_Suc [symmetric])
    then show ?thesis
      using "1.prems" lt True
      by (subst shift_down.simps) (simp add: u IH update_step drop_take)
  next
    case False
    then have "unat index = unat lst" using "1.prems" by (simp add: word_less_nat_alt)
    then show ?thesis using False by (subst shift_down.simps) simp
  qed
qed

lemma RemoveElementByIndex_spec:
  assumes "unat index < unat n" "unat n \<le> length arr" "fits arr"
  shows "RemoveElementByIndex arr index n =
    Some (take (unat index) arr @ drop (Suc (unat index)) (take (unat n) arr) @ VHole # drop (unat n) arr)"
proof -
  have u: "unat (n - 1) = unat n - 1" using assms by (intro unat_pred) (auto simp: word_less_nat_alt)
  define m where "m = unat n - 1"
  have m: "unat n = Suc m" using assms by (simp add: m_def)
  let ?xs = "take (unat index) arr @ drop (Suc (unat index)) (take (Suc m) arr)"
  have len: "length ?xs = m" using assms m by simp
  have "shift_down arr index (n - 1) = Some (?xs @ drop m arr)"
    using assms by (subst shift_down_spec) (simp_all add: u m)
  moreover have "(?xs @ drop m arr)[m := VHole] = ?xs @ VHole # drop (Suc m) arr"
    using assms m len by (simp add: list_update_append Cons_nth_drop_Suc [symmetric])
  ultimately show ?thesis
    using assms m len by (simp add: RemoveElementByIndex_def u)
qed

lemma shift_up_spec:
  assumes "unat index \<le> unat n" "unat n < length arr" "fits arr"
  shows "shift_up arr index n =
    Some (take (Suc (unat index)) arr @ drop (unat index) (take (unat n) arr) @ drop (Suc (unat n)) arr)"
  using assms
proof (induction arr index n rule: shift_up.induct)
  case (1 arr index n)
  show ?case
  proof (cases "n = index")
    case True
    have "take (Suc (unat index)) arr @ drop (Suc (unat index)) arr = arr" by (rule append_take_drop_id)
    with True show ?thesis by (subst shift_up.simps) simp
  next
    case False
    then have "unat n \<noteq> unat index" by (simp add: word_unat_eq_iff)
    then have c: "n \<noteq> index \<and> n > 0" and lt: "unat index < unat n"
      using "1.prems" by (auto simp: word_less_nat_alt)
    obtain m where m: "unat n = Suc m" using lt by (cases "unat n") auto
    then have u: "unat (n - 1) = m" using c by (simp add: unat_pred)
    let ?arr = "arr[Suc m := arr ! m]"
    have "shift_up ?arr index (n - 1) = Some (take (Suc (unat index)) ?arr @
        drop (unat index) (take m ?arr) @ drop (Suc m) ?arr)"
      using "1.IH" [OF c, of "arr ! m" ?arr] "1.prems" lt m by (simp add: u)
    moreover have "take (Suc (unat index)) ?arr = take (Suc (unat index)) arr" using lt m by simp
    moreover have "drop (Suc m) ?arr = arr ! m # drop (Suc (Suc m)) arr"
      using "1.prems" m by (simp add: Cons_nth_drop_Suc [symmetric])
    moreover have "drop (unat index) (take (Suc m) arr) = drop (unat index) (take m arr) @ [arr ! m]"
      using "1.prems" lt m by (simp add: take_Suc_conv_app_nth)
    ultimately show ?thesis
      using "1.prems" c m by (subst shift_up.simps) (simp add: u)
  qed
qed

lemma InsertElementByIndex_spec:
  assumes "unat index \<le> unat n" "unat n < length arr" "fits arr"
  shows "InsertElementByIndex arr v index n =
    Some (take (unat index) arr @ v # drop (unat index) (take (unat n) arr) @ drop (Suc (unat n)) arr)"
proof -
  have "(take (Suc (unat index)) arr @ zs)[unat index := v] = take (unat index) arr @ v # zs" for zs
    using assms by (simp add: take_Suc_conv_app_nth list_update_append)
  then show ?thesis
    using assms by (simp add: InsertElementByIndex_def shift_up_spec)
qed

lemma TaggedArray_Trim_length [simp]: "unat n \<le> length arr \<Longrightarrow> length (TaggedArray_Trim arr n) = unat n"
  by (simp add: TaggedArray_Trim_def)

end
