(* ===== verification/Ring_Buffer.thy ===== *)
theory Ring_Buffer
  imports Tagged_Array
begin

text \<open>
  Circular buffers: \<open>TaggedQueue\<close>, \<open>JSAPIQueue\<close> and \<open>JSAPIDeque\<close> keep their elements in an array between
  two indices that wrap around its end.  \<open>ring\<close> is the list of elements, the word lemmas say what the
  index arithmetic of the source computes, and the locale \<open>fifo_queue\<close> is the contract the three
  containers promise to their clients.
\<close>

section \<open>The elements of a circular buffer\<close>

definition ring :: "'a list \<Rightarrow> nat \<Rightarrow> nat \<Rightarrow> 'a list" where
  "ring arr front n = map (\<lambda>i. arr ! ((front + i) mod length arr)) [0..<n]"

lemma length_ring [simp]: "length (ring arr front n) = n"
  by (simp add: ring_def)

lemma ring_0 [simp]: "ring arr front 0 = []"
  by (simp add: ring_def)

lemma ring_nth: "i < n \<Longrightarrow> ring arr front n ! i = arr ! ((front + i) mod length arr)"
  by (simp add: ring_def)

lemma ring_snoc: "ring arr front (Suc n) = ring arr front n @ [arr ! ((front + n) mod length arr)]"
  by (simp add: ring_def)

lemma ring_Cons:
  assumes "front < length arr"
  shows "ring arr front (Suc n) = arr ! front # ring arr (Suc front mod length arr) n"
proof -
  have "(front + Suc i) mod length arr = (Suc front mod length arr + i) mod length arr" for i
    by (simp add: mod_simps)
  then show ?thesis
    using assms by (simp add: ring_def upt_conv_Cons map_Suc_upt [symmetric] del: upt_Suc)
qed

lemma mod_wrap: "g < c \<Longrightarrow> i < c \<Longrightarrow> (g + i) mod c = (if g + i < c then g + i else g + i - c)" for c :: nat
  by (simp add: le_mod_geq)

lemma mod_offset_eq:
  fixes c :: nat
  assumes "(f + i) mod c = (f + j) mod c" "i < c" "j < c"
  shows "i = j"
proof -
  have "f mod c < c" using assms by simp
  moreover have "(f mod c + i) mod c = (f mod c + j) mod c" using assms(1) by (simp add: mod_simps)
  ultimately show ?thesis using assms(2,3) by (auto simp: mod_wrap split: if_splits)
qed

lemma ring_update_other:
  assumes "\<And>i. i < n \<Longrightarrow> (front + i) mod length arr \<noteq> j"
  shows "ring (arr[j := v]) front n = ring arr front n"
proof -
  have "arr[j := v] ! ((front + i) mod length arr) = arr ! ((front + i) mod length arr)" if "i < n" for i
    using assms [OF that] by (intro nth_list_update_neq) simp
  then show ?thesis unfolding ring_def by (intro map_cong) simp_all
qed

lemma ring_push:
  assumes "n < length arr"
  shows "ring (arr[(front + n) mod length arr := v]) front (Suc n) = ring arr front n @ [v]"
proof -
  have "ring (arr[(front + n) mod length arr := v]) front n = ring arr front n"
    using assms by (intro ring_update_other) (auto dest: mod_offset_eq)
  moreover have "(front + n) mod length arr < length arr"
    using assms by (intro mod_less_divisor) linarith
  ultimately show ?thesis by (simp add: ring_snoc)
qed

lemma ring_push_front:
  assumes "n < length arr" "front < length arr"
  defines "j \<equiv> (front + length arr - 1) mod length arr"
  shows "ring (arr[j := v]) j (Suc n) = v # ring arr front n"
proof -
  have j: "j < length arr" and s: "Suc j mod length arr = front"
    using assms by (cases front; simp add: j_def)+
  have "(front + i) mod length arr \<noteq> j" if "i < n" for i
  proof
    assume "(front + i) mod length arr = j"
    also have "j = (front + (length arr - 1)) mod length arr" using assms by (simp add: j_def)
    finally show False using that assms(1) mod_offset_eq [of front i "length arr" "length arr - 1"] by simp
  qed
  then have "ring (arr[j := v]) front n = ring arr front n" by (rule ring_update_other)
  then show ?thesis using j s by (simp add: ring_Cons)
qed

lemma ring_drop_front: "front < length arr \<Longrightarrow> ring arr (Suc front mod length arr) n = tl (ring arr front (Suc n))"
  by (simp add: ring_Cons)

lemma ring_0_take: "n \<le> length arr \<Longrightarrow> ring arr 0 n = take n arr"
  unfolding ring_def by (rule nth_equalityI) simp_all

section \<open>Index arithmetic in 32 bits\<close>

lemma unat_next: "x < c \<Longrightarrow> unat ((x + 1) mod c) = Suc (unat x) mod unat c" for x c :: u32
  by (simp add: unat_mod_distrib unat_Suc)

lemma unat_prev:
  fixes x c :: u32
  assumes "x < c" "unat c \<le> 2147483648"
  shows "unat ((x + c - 1) mod c) = (unat x + unat c - 1) mod unat c"
proof -
  have "unat (x + c) = unat x + unat c"
    using assms by (simp add: unat_plus_if_size word_size word_less_nat_alt)
  moreover have "0 < x + c" using assms calculation by (simp add: word_less_nat_alt)
  ultimately show ?thesis by (simp add: unat_mod_distrib unat_pred)
qed

lemma unat_offset:
  fixes x c i :: u32
  assumes "x < c" "i < c" "unat c \<le> 2147483648"
  shows "unat ((x + i) mod c) = (unat x + unat i) mod unat c"
  using assms by (simp add: unat_mod_distrib unat_plus_if_size word_size word_less_nat_alt)

lemma unat_distance:
  fixes e s c :: u32
  assumes "e < c" "s < c" "unat c \<le> 2147483648"
  shows "unat ((e - s + c) mod c) = (unat e + unat c - unat s) mod unat c"
proof -
  have "unat (e - s + c) = unat e + unat c - unat s"
    using assms by (cases "unat s \<le> unat e")
      (simp_all add: unat_plus_if_size unat_sub_if_size word_size word_less_nat_alt)
  then show ?thesis by (simp add: unat_mod_distrib)
qed

lemma distance_mod:
  fixes c :: nat
  assumes "s < c" "n < c"
  shows "((s + n) mod c + c - s) mod c = n"
  using assms by (auto simp: mod_if)

section \<open>Copying a circular buffer\<close>

lemma copy_ring_spec:
  assumes "n < length old" "unat cur < length old" "unat tail = (unat cur + n) mod length old"
    "unat d + n \<le> length dst" "fits old" "fits dst"
  shows "copy_ring old cur dst d tail =
    Some (take (unat d) dst @ ring old (unat cur) n @ drop (unat d + n) dst)"
  using assms
proof (induction n arbitrary: cur d dst)
  case 0
  then have "cur = tail" by (simp add: word_unat_eq_iff)
  then show ?case by (subst copy_ring.simps) simp
next
  case (Suc n)
  let ?next = "(cur + 1) mod TaggedArray_GetLength old"
  have "(unat cur + Suc n) mod length old \<noteq> (unat cur + 0) mod length old"
    using Suc.prems(1) mod_offset_eq [of "unat cur" "Suc n" "length old" 0] by linarith
  then have ne: "cur \<noteq> tail" using Suc.prems by (auto simp: word_unat_eq_iff)
  have "cur < TaggedArray_GetLength old" using Suc.prems by (simp add: word_less_nat_alt)
  then have u: "unat ?next = Suc (unat cur) mod length old" using Suc.prems by (simp add: unat_next)
  then have lt: "unat ?next < length old" using Suc.prems(1) by (simp only: u) (rule mod_less_divisor, linarith)
  have ud: "unat (d + 1) = Suc (unat d)" using Suc.prems by (auto intro!: unat_inc)
  have "unat tail = (unat ?next + n) mod length old" unfolding u using Suc.prems by (simp add: mod_simps)
  then have "copy_ring old ?next (dst[unat d := old ! unat cur]) (d + 1) tail =
      Some (take (unat d) dst @ [old ! unat cur] @ ring old (Suc (unat cur) mod length old) n @
        drop (unat d + Suc n) dst)"
    using Suc.prems Suc.IH [of ?next "d + 1" "dst[unat d := old ! unat cur]"]
    lt by (simp add: ud u update_step)
  then show ?case
    using Suc.prems ne by (subst copy_ring.simps) (simp add: ring_Cons)
qed

section \<open>The elements between two indices\<close>

definition span :: "'a list \<Rightarrow> nat \<Rightarrow> nat \<Rightarrow> 'a list" where
  "span arr s e = ring arr s ((e + length arr - s) mod length arr)"

lemma span_size:
  assumes "s < length arr" "e < length arr"
  shows "length (span arr s e) < length arr" "(s + length (span arr s e)) mod length arr = e"
proof -
  let ?n = "(e + length arr - s) mod length arr"
  show "length (span arr s e) < length arr" unfolding span_def length_ring
    using assms by (intro mod_less_divisor) linarith
  have "(s + ?n) mod length arr = (s + (e + length arr - s)) mod length arr" by (simp add: mod_add_right_eq)
  then show "(s + length (span arr s e)) mod length arr = e" using assms by (simp add: span_def)
qed

lemma span_ring: "s < length arr \<Longrightarrow> n < length arr \<Longrightarrow> span arr s ((s + n) mod length arr) = ring arr s n"
  by (simp add: span_def distance_mod)

lemma span_eq_ring: "s < length arr \<Longrightarrow> e < length arr \<Longrightarrow> span arr s e = ring arr s (length (span arr s e))"
  by (simp add: span_def)

lemma span_Nil: "s < length arr \<Longrightarrow> e < length arr \<Longrightarrow> span arr s e = [] \<longleftrightarrow> s = e"
proof
  assume lt: "s < length arr" "e < length arr" and "span arr s e = []"
  then show "s = e" using span_size(2) [OF lt] by simp
qed (simp add: span_def)

lemma span_update_other:
  assumes "s < length arr" "e < length arr" "\<And>i. i < length (span arr s e) \<Longrightarrow> (s + i) mod length arr \<noteq> j"
  shows "span (arr[j := v]) s e = span arr s e"
  using assms by (simp add: span_def ring_update_other)

lemma span_full:
  assumes "s < length arr" "e < length arr" "Suc e mod length arr = s"
  shows "Suc (length (span arr s e)) = length arr"
proof -
  let ?n = "length (span arr s e)"
  have "(s + Suc ?n) mod length arr = Suc ((s + ?n) mod length arr) mod length arr" by (simp add: mod_simps)
  also have "\<dots> = (s + 0) mod length arr" using assms span_size(2) [OF assms(1,2)] by simp
  finally have "\<not> Suc ?n < length arr" using mod_offset_eq [of s "Suc ?n" "length arr" 0] by linarith
  then show ?thesis using span_size(1) [OF assms(1,2)] by linarith
qed

lemma span_not_full:
  assumes "s < length arr" "e < length arr" "Suc e mod length arr \<noteq> s"
  shows "Suc (length (span arr s e)) < length arr"
proof (rule ccontr)
  assume "\<not> ?thesis"
  then have "Suc (length (span arr s e)) = length arr" using span_size(1) [OF assms(1,2)] by linarith
  moreover have "Suc e mod length arr = (s + Suc (length (span arr s e))) mod length arr"
    using span_size(2) [OF assms(1,2)] by (metis add_Suc_right mod_Suc_eq)
  ultimately show False using assms by simp
qed

lemma span_push:
  assumes "s < length arr" "e < length arr" "Suc e mod length arr \<noteq> s"
  shows "span (arr[e := v]) s (Suc e mod length arr) = span arr s e @ [v]"
proof -
  define n where "n = length (span arr s e)"
  have n: "Suc n < length arr" "(s + n) mod length arr = e"
    unfolding n_def using span_not_full [OF assms] span_size(2) [OF assms(1,2)] by blast+
  have "Suc e mod length arr = (s + Suc n) mod length arr" using n(2) by (metis add_Suc_right mod_Suc_eq)
  then have "span (arr[e := v]) s (Suc e mod length arr) = ring (arr[e := v]) s (Suc n)"
    using span_ring [of s "arr[e := v]" "Suc n"] assms n by simp
  also have "\<dots> = ring arr s n @ [v]" using ring_push [of n arr s v] n by simp
  finally show ?thesis using span_eq_ring [OF assms(1,2)] by (simp add: n_def)
qed

lemma span_pop:
  assumes "s < length arr" "e < length arr" "s \<noteq> e"
  shows "span arr s e = arr ! s # span arr (Suc s mod length arr) e"
proof -
  define n where "n = length (span arr s e)"
  have n: "n < length arr" "(s + n) mod length arr = e"
    unfolding n_def using span_size [OF assms(1,2)] by blast+
  obtain m where m: "n = Suc m" using assms span_Nil [OF assms(1,2)] by (cases n) (auto simp: n_def)
  have s': "Suc s mod length arr < length arr" using n(1) by (intro mod_less_divisor) linarith
  have "(Suc s mod length arr + m) mod length arr = e" using n(2) m by (simp add: mod_simps)
  then have "span arr (Suc s mod length arr) e = ring arr (Suc s mod length arr) m"
    using span_ring [OF s', of m] n(1) m by simp
  then show ?thesis using span_eq_ring [OF assms(1,2)] ring_Cons [OF assms(1), of m] by (simp add: n_def [symmetric] m)
qed

lemma span_pop_back:
  assumes "s < length arr" "e < length arr" "s \<noteq> e"
  defines "e' \<equiv> (e + length arr - 1) mod length arr"
  shows "span arr s e = span arr s e' @ [arr ! e']"
proof -
  define n where "n = length (span arr s e)"
  have n: "n < length arr" "(s + n) mod length arr = e"
    unfolding n_def using span_size [OF assms(1,2)] by blast+
  obtain m where m: "n = Suc m" using assms span_Nil [OF assms(1,2)] by (cases n) (auto simp: n_def)
  have "e' = (s + m) mod length arr"
  proof -
    have "(s + m) mod length arr < length arr" using n(1) by (intro mod_less_divisor) linarith
    moreover have "e = Suc ((s + m) mod length arr) mod length arr" using n(2) m by (simp add: mod_simps)
    ultimately show ?thesis unfolding e'_def by (auto simp: mod_Suc split: if_splits)
  qed
  then have "span arr s e' = ring arr s m" "arr ! e' = arr ! ((s + m) mod length arr)"
    using span_ring [OF assms(1), of m] n(1) m by simp_all
  then show ?thesis using span_eq_ring [OF assms(1,2)] by (simp add: n_def [symmetric] m ring_snoc)
qed

lemma span_push_front:
  assumes "s < length arr" "e < length arr"
  defines "s' \<equiv> (s + length arr - 1) mod length arr"
  assumes "s' \<noteq> e"
  shows "span (arr[s' := v]) s' e = v # span arr s e"
proof -
  have s': "s' < length arr" "Suc s' mod length arr = s"
    using assms by (cases s; simp add: s'_def)+
  have "(s + i) mod length arr \<noteq> s'" if "i < length (span arr s e)" for i
  proof
    assume "(s + i) mod length arr = s'"
    also have "s' = (s + (length arr - 1)) mod length arr" using assms by (simp add: s'_def)
    finally have "i = length arr - 1"
      using that span_size(1) [OF assms(1,2)] mod_offset_eq [of s i "length arr" "length arr - 1"] by linarith
    then show False using that span_size(1) [OF assms(1,2)] by linarith
  qed
  then have "span (arr[s' := v]) s e = span arr s e" by (intro span_update_other assms)
  then show ?thesis using span_pop [of s' "arr[s' := v]" e] s' assms by simp
qed

lemma copy_ring_span:
  assumes "unat s < length old" "unat e < length old" "length (span old (unat s) (unat e)) \<le> length dst"
    "fits old" "fits dst"
  shows "copy_ring old s dst 0 e =
    Some (span old (unat s) (unat e) @ drop (length (span old (unat s) (unat e))) dst)"
proof -
  note z = span_size [OF assms(1,2)]
  show ?thesis
    using copy_ring_spec [of "length (span old (unat s) (unat e))" old s e 0 dst] z assms
      span_eq_ring [OF assms(1,2)] by simp
qed

lemma ring_update_nth:
  assumes "i < n" "n \<le> length arr"
  shows "ring (arr[(front + i) mod length arr := v]) front n = (ring arr front n)[i := v]"
proof (rule nth_equalityI)
  fix j
  assume "j < length (ring (arr[(front + i) mod length arr := v]) front n)"
  then have j: "j < n" by simp
  have "(front + i) mod length arr < length arr" using assms by (intro mod_less_divisor) linarith
  moreover have "i \<noteq> j \<Longrightarrow> (front + i) mod length arr \<noteq> (front + j) mod length arr"
    using mod_offset_eq [of front i "length arr" j] assms j by auto
  ultimately show "ring (arr[(front + i) mod length arr := v]) front n ! j = (ring arr front n)[i := v] ! j"
    using j by (cases "i = j") (simp_all add: ring_nth)
qed simp

lemma span_nth:
  "i < length (span arr s e) \<Longrightarrow> span arr s e ! i = arr ! ((s + i) mod length arr)"
  by (simp add: span_def ring_nth)

lemma span_update_nth:
  assumes "i < length (span arr s e)" "s < length arr" "e < length arr"
  shows "span (arr[(s + i) mod length arr := v]) s e = (span arr s e)[i := v]"
  using assms span_size(1) [OF assms(2,3)] by (simp add: span_def ring_update_nth)

lemma extended_span:
  assumes "length xs < n"
  shows "span (xs @ replicate (n - length xs) v) 0 (length xs) = xs"
proof -
  have "span (xs @ replicate (n - length xs) v) 0 (length xs) = ring (xs @ replicate (n - length xs) v) 0 (length xs)"
    using span_ring [of 0 "xs @ replicate (n - length xs) v" "length xs"] assms by (simp del: length_greater_0_conv)
  then show ?thesis using assms by (simp add: ring_0_take)
qed

section \<open>The contract of a queue\<close>

fun push_all :: "('q \<Rightarrow> 'v \<Rightarrow> 'q option) \<Rightarrow> 'q \<Rightarrow> 'v list \<Rightarrow> 'q option" where
  "push_all push q [] = Some q"
| "push_all push q (v # vs) = do { q' \<leftarrow> push q v; push_all push q' vs }"

fun pop_many :: "('q \<Rightarrow> ('v \<times> 'q) option) \<Rightarrow> nat \<Rightarrow> 'q \<Rightarrow> ('v list \<times> 'q) option" where
  "pop_many pop 0 q = Some ([], q)"
| "pop_many pop (Suc n) q = do {
     (v, q') \<leftarrow> pop q;
     (vs, q'') \<leftarrow> pop_many pop n q';
     Some (v # vs, q'')
   }"

text \<open>
  \<open>inv\<close> is the representation invariant, \<open>contents\<close> the elements from the oldest to the newest, and
  \<open>limit\<close> the number of elements up to which the index arithmetic and the growth of the buffer are
  known not to overflow.
\<close>

locale fifo_queue =
  fixes inv :: "'q \<Rightarrow> bool"
    and contents :: "'q \<Rightarrow> 'v list"
    and limit :: nat
    and push :: "'q \<Rightarrow> 'v \<Rightarrow> 'q option"
    and pop :: "'q \<Rightarrow> ('v \<times> 'q) option"
  assumes push_law: "inv q \<Longrightarrow> length (contents q) < limit \<Longrightarrow>
      \<exists>q'. push q v = Some q' \<and> inv q' \<and> contents q' = contents q @ [v]"
    and pop_law: "inv q \<Longrightarrow> contents q = v # vs \<Longrightarrow>
      \<exists>q'. pop q = Some (v, q') \<and> inv q' \<and> contents q' = vs"
begin

lemma push_all_law:
  "inv q \<Longrightarrow> length (contents q) + length vs \<le> limit \<Longrightarrow>
   \<exists>q'. push_all push q vs = Some q' \<and> inv q' \<and> contents q' = contents q @ vs"
proof (induction vs arbitrary: q)
  case (Cons v vs)
  obtain q1 where q1: "push q v = Some q1" "inv q1" "contents q1 = contents q @ [v]"
    using push_law [of q v] Cons.prems by auto
  with Cons.IH [of q1] Cons.prems show ?case by auto
qed simp

lemma pop_many_law:
  "inv q \<Longrightarrow> contents q = vs @ ws \<Longrightarrow>
   \<exists>q'. pop_many pop (length vs) q = Some (vs, q') \<and> inv q' \<and> contents q' = ws"
proof (induction vs arbitrary: q)
  case (Cons v vs)
  obtain q1 where q1: "pop q = Some (v, q1)" "inv q1" "contents q1 = vs @ ws"
    using pop_law [of q v "vs @ ws"] Cons.prems by auto
  with Cons.IH [of q1] show ?case by auto
qed simp

lemma fifo_order:
  assumes "inv q" "length (contents q) + length vs \<le> limit"
  shows "\<exists>q' q''. push_all push q vs = Some q' \<and>
    pop_many pop (length (contents q) + length vs) q' = Some (contents q @ vs, q'') \<and>
    inv q'' \<and> contents q'' = []"
proof -
  obtain q' where q': "push_all push q vs = Some q'" "inv q'" "contents q' = contents q @ vs"
    using push_all_law [OF assms] by auto
  then show ?thesis using pop_many_law [of q' "contents q @ vs" "[]"] by auto
qed

end

text \<open>A queue that can be used from both ends.\<close>

locale double_ended_queue = fifo_queue +
  fixes push_front :: "'a \<Rightarrow> 'b \<Rightarrow> 'a option"
    and pop_back :: "'a \<Rightarrow> ('b \<times> 'a) option"
  assumes push_front_law: "inv q \<Longrightarrow> length (contents q) < limit \<Longrightarrow>
      \<exists>q'. push_front q v = Some q' \<and> inv q' \<and> contents q' = v # contents q"
    and pop_back_law: "inv q \<Longrightarrow> contents q = vs @ [v] \<Longrightarrow>
      \<exists>q'. pop_back q = Some (v, q') \<and> inv q' \<and> contents q' = vs"
begin

lemma push_front_all_law:
  "inv q \<Longrightarrow> length (contents q) + length vs \<le> limit \<Longrightarrow>
   \<exists>q'. push_all push_front q vs = Some q' \<and> inv q' \<and> contents q' = rev vs @ contents q"
proof (induction vs arbitrary: q)
  case (Cons v vs)
  obtain q1 where q1: "push_front q v = Some q1" "inv q1" "contents q1 = v # contents q"
    using push_front_law [of q v] Cons.prems by auto
  with Cons.IH [of q1] Cons.prems show ?case by auto
qed simp

lemma pop_back_many_law:
  "inv q \<Longrightarrow> contents q = ws @ rev vs \<Longrightarrow>
   \<exists>q'. pop_many pop_back (length vs) q = Some (vs, q') \<and> inv q' \<and> contents q' = ws"
proof (induction vs arbitrary: q)
  case (Cons v vs)
  obtain q1 where q1: "pop_back q = Some (v, q1)" "inv q1" "contents q1 = ws @ rev vs"
    using pop_back_law [of q "ws @ rev vs" v] Cons.prems by auto
  with Cons.IH [of q1] show ?case by auto
qed simp

lemma stack_order:
  assumes "inv q" "length (contents q) + length vs \<le> limit"
  shows "\<exists>q' q''. push_all push q vs = Some q' \<and>
    pop_many pop_back (length vs) q' = Some (rev vs, q'') \<and> inv q'' \<and> contents q'' = contents q"
proof -
  obtain q' where q': "push_all push q vs = Some q'" "inv q'" "contents q' = contents q @ vs"
    using push_all_law [OF assms] by auto
  then show ?thesis using pop_back_many_law [of q' "contents q" "rev vs"] by auto
qed

end

end
