(* ===== verification/Tagged_Queue.thy ===== *)
theory Tagged_Queue
  imports Ring_Buffer
begin

text \<open>
  \<open>TaggedQueue\<close> (\<open>ecmascript/tagged_queue.h\<close>), the circular queue behind the micro job queue and the
  iterators of properties.  Its capacity and its two indices are the first three slots of its array,
  the elements follow.
\<close>

section \<open>Definitions\<close>

definition MIN_CAPACITY :: u32 where "MIN_CAPACITY = 2"
definition CAPACITY_INDEX :: u32 where "CAPACITY_INDEX = 0"
definition START_INDEX :: u32 where "START_INDEX = 1"
definition END_INDEX :: u32 where "END_INDEX = 2"
definition ELEMENTS_START_INDEX :: u32 where "ELEMENTS_START_INDEX = 3"

definition MAX_QUEUE_INDEX :: u32 where
  "MAX_QUEUE_INDEX = 0xFFFFFFFF - ELEMENTS_START_INDEX"

definition QueueToArrayIndex :: "u32 \<Rightarrow> u32" where
  "QueueToArrayIndex index = index + ELEMENTS_START_INDEX"

definition TaggedQueue_Get :: "tagged_array \<Rightarrow> u32 \<Rightarrow> JSTaggedValue option" where
  "TaggedQueue_Get q index = TaggedArray_Get q (QueueToArrayIndex index)"

definition TaggedQueue_Set :: "tagged_array \<Rightarrow> u32 \<Rightarrow> JSTaggedValue \<Rightarrow> tagged_array option" where
  "TaggedQueue_Set q index v = TaggedArray_Set q (QueueToArrayIndex index) v"

definition GetCapacity :: "tagged_array \<Rightarrow> JSTaggedValue option" where
  "GetCapacity q = TaggedArray_Get q CAPACITY_INDEX"

definition SetCapacity :: "tagged_array \<Rightarrow> JSTaggedValue \<Rightarrow> tagged_array option" where
  "SetCapacity q v = TaggedArray_Set q CAPACITY_INDEX v"

definition GetStart :: "tagged_array \<Rightarrow> JSTaggedValue option" where
  "GetStart q = TaggedArray_Get q START_INDEX"

definition SetStart :: "tagged_array \<Rightarrow> JSTaggedValue \<Rightarrow> tagged_array option" where
  "SetStart q v = TaggedArray_Set q START_INDEX v"

definition GetEnd :: "tagged_array \<Rightarrow> JSTaggedValue option" where
  "GetEnd q = TaggedArray_Get q END_INDEX"

definition SetEnd :: "tagged_array \<Rightarrow> JSTaggedValue \<Rightarrow> tagged_array option" where
  "SetEnd q v = TaggedArray_Set q END_INDEX v"

text \<open>\<open>TaggedQueue::Create\<close>, and \<open>ObjectFactory::NewTaggedQueue\<close>, which is the same with a Hole.\<close>

definition TaggedQueue_Create :: "u32 \<Rightarrow> JSTaggedValue \<Rightarrow> tagged_array option" where
  "TaggedQueue_Create capacity initVal = do {
     let len = QueueToArrayIndex capacity;
     q1 \<leftarrow> SetStart (NewTaggedArray len initVal) (VInt 0);
     q2 \<leftarrow> SetEnd q1 (VInt 0);
     SetCapacity q2 (JSTaggedValue_uint32 capacity)
   }"

definition NewTaggedQueue :: "u32 \<Rightarrow> tagged_array option" where
  "NewTaggedQueue len = do {
     let queueLength = QueueToArrayIndex len;
     q1 \<leftarrow> SetStart (NewTaggedArray queueLength VHole) (VInt 0);
     q2 \<leftarrow> SetEnd q1 (VInt 0);
     SetCapacity q2 (JSTaggedValue_uint32 len)
   }"

definition TaggedQueue_Empty :: "tagged_array \<Rightarrow> bool option" where
  "TaggedQueue_Empty q = do { s \<leftarrow> GetStart q; e \<leftarrow> GetEnd q; Some (s = e) }"

definition TaggedQueue_Size :: "tagged_array \<Rightarrow> u32 option" where
  "TaggedQueue_Size q = do {
     c \<leftarrow> GetCapacity q;
     capacity \<leftarrow> GetArrayLength c;
     if capacity = 0 then Some 0
     else do {
       e \<leftarrow> GetEnd q; end_ix \<leftarrow> GetArrayLength e;
       s \<leftarrow> GetStart q; start \<leftarrow> GetArrayLength s;
       Some ((end_ix - start + capacity) mod capacity)
     }
   }"

definition TaggedQueue_Pop :: "tagged_array \<Rightarrow> (JSTaggedValue \<times> tagged_array) option" where
  "TaggedQueue_Pop q = do {
     empty \<leftarrow> TaggedQueue_Empty q;
     if empty then Some (VHole, q)
     else do {
       s \<leftarrow> GetStart q; start \<leftarrow> GetArrayLength s;
       v \<leftarrow> TaggedQueue_Get q start;
       q1 \<leftarrow> TaggedQueue_Set q start VHole;
       c \<leftarrow> GetCapacity q1; capacity \<leftarrow> GetArrayLength c;
       q2 \<leftarrow> SetStart q1 (JSTaggedValue_uint32 ((start + 1) mod capacity));
       Some (v, q2)
     }
   }"

text \<open>The loop of \<open>Push\<close> that copies the elements of a full queue into a larger one.\<close>

fun grow_copy :: "nat \<Rightarrow> tagged_array \<Rightarrow> tagged_array \<Rightarrow> u32 \<Rightarrow> u32 \<Rightarrow> u32 \<Rightarrow> tagged_array option" where
  "grow_copy 0 newQueue q i newEnd capacity = Some newQueue"
| "grow_copy (Suc n) newQueue q i newEnd capacity = do {
     v \<leftarrow> TaggedQueue_Get q i;
     newQueue' \<leftarrow> TaggedQueue_Set newQueue newEnd v;
     grow_copy n newQueue' q ((i + 1) mod capacity) (newEnd + 1) capacity
   }"

definition TaggedQueue_Push :: "tagged_array \<Rightarrow> JSTaggedValue \<Rightarrow> tagged_array option" where
  "TaggedQueue_Push q v = do {
     c \<leftarrow> GetCapacity q; capacity \<leftarrow> GetArrayLength c;
     if capacity = 0 then do {
       n1 \<leftarrow> NewTaggedQueue MIN_CAPACITY;
       n2 \<leftarrow> TaggedQueue_Set n1 0 v;
       n3 \<leftarrow> SetCapacity n2 (JSTaggedValue_uint32 MIN_CAPACITY);
       n4 \<leftarrow> SetStart n3 (VInt 0);
       SetEnd n4 (VInt 1)
     } else do {
       s \<leftarrow> GetStart q; start \<leftarrow> GetArrayLength s;
       e \<leftarrow> GetEnd q; end_ix \<leftarrow> GetArrayLength e;
       sz \<leftarrow> TaggedQueue_Size q;
       if (end_ix + 1) mod capacity = start then
         if capacity = MAX_QUEUE_INDEX then Some q
         else do {
           let newCapacity = capacity + drop_bit 1 capacity;
           let newCapacity = (if newCapacity < capacity then MAX_QUEUE_INDEX else newCapacity);
           n0 \<leftarrow> NewTaggedQueue newCapacity;
           n1 \<leftarrow> grow_copy (unat sz) n0 q start 0 capacity;
           n2 \<leftarrow> SetCapacity n1 (JSTaggedValue_uint32 newCapacity);
           n3 \<leftarrow> SetStart n2 (VInt 0);
           n4 \<leftarrow> TaggedQueue_Set n3 sz v;
           SetEnd n4 (JSTaggedValue_uint32 (sz + 1))
         }
       else do {
         q1 \<leftarrow> TaggedQueue_Set q end_ix v;
         SetEnd q1 (JSTaggedValue_uint32 ((end_ix + 1) mod capacity))
       }
     }
   }"

definition TaggedQueue_PushFixedQueue :: "tagged_array \<Rightarrow> JSTaggedValue \<Rightarrow> tagged_array option" where
  "TaggedQueue_PushFixedQueue q v = do {
     e \<leftarrow> GetEnd q; end_ix \<leftarrow> GetArrayLength e;
     c \<leftarrow> GetCapacity q; capacity \<leftarrow> GetArrayLength c;
     q1 \<leftarrow> TaggedQueue_Set q end_ix v;
     SetEnd q1 (JSTaggedValue_uint32 ((end_ix + 1) mod capacity))
   }"

definition TaggedQueue_Front :: "tagged_array \<Rightarrow> JSTaggedValue option" where
  "TaggedQueue_Front q = do {
     empty \<leftarrow> TaggedQueue_Empty q;
     if empty then Some VHole
     else do { s \<leftarrow> GetStart q; start \<leftarrow> GetArrayLength s; TaggedQueue_Get q start }
   }"

definition TaggedQueue_Back :: "tagged_array \<Rightarrow> JSTaggedValue option" where
  "TaggedQueue_Back q = do {
     empty \<leftarrow> TaggedQueue_Empty q;
     if empty then Some VHole
     else do { e \<leftarrow> GetEnd q; end_ix \<leftarrow> GetArrayLength e; TaggedQueue_Get q (end_ix - 1) }
   }"

section \<open>Representation\<close>

text \<open>
  A queue with capacity \<open>c\<close>, elements from index \<open>s\<close> up to \<open>e\<close> and element slots \<open>els\<close>.  A capacity below
  \<open>2 ^ 31\<close> keeps \<open>end - start + capacity\<close> from wrapping around.
\<close>

definition queue_rep :: "u32 \<Rightarrow> u32 \<Rightarrow> u32 \<Rightarrow> tagged_array \<Rightarrow> tagged_array" where
  "queue_rep c s e els = JSTaggedValue_uint32 c # JSTaggedValue_uint32 s # JSTaggedValue_uint32 e # els"

definition queue_ok :: "u32 \<Rightarrow> u32 \<Rightarrow> u32 \<Rightarrow> tagged_array \<Rightarrow> bool" where
  "queue_ok c s e els \<longleftrightarrow> length els = unat c \<and> c < 0x80000000 \<and>
     (c = 0 \<and> s = 0 \<and> e = 0 \<or> 2 \<le> c \<and> s < c \<and> e < c)"

definition queue_fields :: "tagged_array \<Rightarrow> (u32 \<times> u32 \<times> u32) option" where
  "queue_fields q = do {
     c \<leftarrow> GetCapacity q; c' \<leftarrow> GetArrayLength c;
     s \<leftarrow> GetStart q; s' \<leftarrow> GetArrayLength s;
     e \<leftarrow> GetEnd q; e' \<leftarrow> GetArrayLength e;
     Some (c', s', e')
   }"

definition queue_inv :: "tagged_array \<Rightarrow> bool" where
  "queue_inv q = (case queue_fields q of
     None \<Rightarrow> False
   | Some (c, s, e) \<Rightarrow> q = queue_rep c s e (drop 3 q) \<and> queue_ok c s e (drop 3 q))"

definition queue_contents :: "tagged_array \<Rightarrow> JSTaggedValue list" where
  "queue_contents q = (case queue_fields q of
     None \<Rightarrow> []
   | Some (c, s, e) \<Rightarrow>
       if c = 0 then [] else ring (drop 3 q) (unat s) ((unat e + unat c - unat s) mod unat c))"

lemma small_tagged: "VInt 0 = JSTaggedValue_uint32 0" "VInt 1 = JSTaggedValue_uint32 1"
  by (simp_all add: JSTaggedValue_uint32_def)

lemmas queue_index_defs = CAPACITY_INDEX_def START_INDEX_def END_INDEX_def ELEMENTS_START_INDEX_def

lemma unat_two: "unat (2 :: u32) = Suc (Suc 0)"
  by simp

lemma queue_rep_fields [simp]:
  "GetCapacity (queue_rep c s e els) = Some (JSTaggedValue_uint32 c)"
  "GetStart (queue_rep c s e els) = Some (JSTaggedValue_uint32 s)"
  "GetEnd (queue_rep c s e els) = Some (JSTaggedValue_uint32 e)"
  "SetCapacity (queue_rep c s e els) (JSTaggedValue_uint32 i) = Some (queue_rep i s e els)"
  "SetStart (queue_rep c s e els) (JSTaggedValue_uint32 i) = Some (queue_rep c i e els)"
  "SetEnd (queue_rep c s e els) (JSTaggedValue_uint32 i) = Some (queue_rep c s i els)"
  by (simp_all add: queue_rep_def GetCapacity_def SetCapacity_def GetStart_def SetStart_def GetEnd_def
      SetEnd_def queue_index_defs TaggedArray_Get_def TaggedArray_Set_def unat_two)

lemma queue_fields_rep [simp]: "queue_fields (queue_rep c s e els) = Some (c, s, e)"
  by (simp add: queue_fields_def)

lemma drop_queue_rep [simp]: "drop 3 (queue_rep c s e els) = els"
  by (simp add: queue_rep_def numeral_3_eq_3)

lemma queue_rep_elements [simp]:
  assumes "unat i < length els" "length els < 2147483648"
  shows "TaggedQueue_Get (queue_rep c s e els) i = Some (els ! unat i)"
    and "TaggedQueue_Set (queue_rep c s e els) i v = Some (queue_rep c s e (els[unat i := v]))"
proof -
  have "unat (QueueToArrayIndex i) = 3 + unat i"
    using assms by (simp add: QueueToArrayIndex_def queue_index_defs unat_plus_if_size word_size)
  then show "TaggedQueue_Get (queue_rep c s e els) i = Some (els ! unat i)"
    "TaggedQueue_Set (queue_rep c s e els) i v = Some (queue_rep c s e (els[unat i := v]))"
    using assms by (simp_all add: TaggedQueue_Get_def TaggedQueue_Set_def queue_rep_def)
qed

lemma queue_inv_rep [simp]: "queue_inv (queue_rep c s e els) \<longleftrightarrow> queue_ok c s e els"
  by (simp add: queue_inv_def)

lemma queue_inv_cases:
  assumes "queue_inv q"
  obtains c s e els where "q = queue_rep c s e els" "queue_ok c s e els"
  using assms by (auto simp: queue_inv_def split: option.splits)

lemma queue_contents_rep:
  "queue_contents (queue_rep c s e els) =
     (if c = 0 then [] else ring els (unat s) ((unat e + unat c - unat s) mod unat c))"
  by (simp add: queue_contents_def)

text \<open>The end index in terms of the number of elements.\<close>

lemma end_index:
  fixes s e c :: nat
  assumes "s < c" "e < c"
  defines "n \<equiv> (e + c - s) mod c"
  shows "n < c" "(s + n) mod c = e"
proof -
  show "n < c" using assms by (simp add: n_def)
  have "(s + n) mod c = (s + (e + c - s)) mod c" by (simp add: n_def mod_add_right_eq)
  then show "(s + n) mod c = e" using assms by simp
qed

lemma queue_contents_Nil: "queue_ok c s e els \<Longrightarrow> queue_contents (queue_rep c s e els) = [] \<longleftrightarrow> s = e"
proof (cases "c = 0")
  case False
  assume ok: "queue_ok c s e els"
  then have lt: "unat s < unat c" "unat e < unat c" using False by (auto simp: queue_ok_def word_less_nat_alt)
  have "(unat e + unat c - unat s) mod unat c = 0 \<longleftrightarrow> s = e"
    using end_index(2) [OF lt] lt by (auto simp: word_unat_eq_iff)
  then show ?thesis using False by (simp add: queue_contents_rep ring_def)
qed (auto simp: queue_ok_def queue_contents_rep)

lemma TaggedQueue_Empty_spec: "queue_inv q \<Longrightarrow> TaggedQueue_Empty q = Some (queue_contents q = [])"
  by (erule queue_inv_cases) (simp add: TaggedQueue_Empty_def queue_contents_Nil)

lemma TaggedQueue_Size_spec:
  assumes "queue_inv q"
  shows "\<exists>n. TaggedQueue_Size q = Some n \<and> unat n = length (queue_contents q)"
  using assms
proof (cases rule: queue_inv_cases)
  case (1 c s e els)
  then have "c \<noteq> 0 \<Longrightarrow> unat ((e - s + c) mod c) = (unat e + unat c - unat s) mod unat c"
    by (intro unat_distance) (auto simp: queue_ok_def word_less_nat_alt)
  with 1 show ?thesis by (simp add: TaggedQueue_Size_def queue_contents_rep)
qed

section \<open>The operations on the list of elements\<close>

lemma NewTaggedQueue_spec:
  assumes "unat n < 2147483648"
  shows "NewTaggedQueue n = Some (queue_rep n 0 0 (replicate (unat n) VHole))"
proof -
  have "unat (QueueToArrayIndex n) = Suc (Suc (Suc (unat n)))"
    using assms by (simp add: QueueToArrayIndex_def queue_index_defs unat_plus_if_size word_size)
  then show ?thesis
    by (simp add: NewTaggedQueue_def NewTaggedArray_def Let_def SetStart_def SetEnd_def SetCapacity_def
        queue_index_defs queue_rep_def TaggedArray_Set_def unat_two small_tagged)
qed

lemma TaggedQueue_Create_Hole: "TaggedQueue_Create n VHole = NewTaggedQueue n"
  by (simp add: TaggedQueue_Create_def NewTaggedQueue_def)

lemma NewTaggedQueue_empty:
  assumes "n = 0 \<or> 2 \<le> n" "unat n < 2147483648"
  shows "\<exists>q. NewTaggedQueue n = Some q \<and> queue_inv q \<and> queue_contents q = []"
  using assms by (auto simp: NewTaggedQueue_spec queue_ok_def queue_contents_rep word_less_nat_alt word_le_nat_alt)

lemma grow_copy_spec:
  assumes "unat i < length els" "unat c = length els" "unat d + n \<le> length dst"
    "length els < 2147483648" "length dst < 2147483648"
  shows "grow_copy n (queue_rep c' s' e' dst) (queue_rep c s e els) i d c =
    Some (queue_rep c' s' e' (take (unat d) dst @ ring els (unat i) n @ drop (unat d + n) dst))"
  using assms
proof (induction n arbitrary: i d dst)
  case (Suc n)
  have "i < c" using Suc.prems by (simp add: word_less_nat_alt)
  then have u: "unat ((i + 1) mod c) = Suc (unat i) mod length els" using Suc.prems by (simp add: unat_next)
  have lt: "Suc (unat i) mod length els < length els" using Suc.prems by (intro mod_less_divisor) linarith
  have ud: "unat (d + 1) = Suc (unat d)" using Suc.prems by (auto intro!: unat_inc)
  show ?case
    using Suc.prems Suc.IH [of "(i + 1) mod c" "d + 1" "dst[unat d := els ! unat i]"] lt
    by (simp add: u ud update_step ring_Cons)
qed simp

lemma TaggedQueue_Pop_spec:
  assumes "queue_inv q" "queue_contents q = v # vs"
  shows "\<exists>q'. TaggedQueue_Pop q = Some (v, q') \<and> queue_inv q' \<and> queue_contents q' = vs"
  using assms(1)
proof (cases rule: queue_inv_cases)
  case (1 c s e els)
  have c: "c \<noteq> 0" using assms(2) 1(1) by (auto simp: queue_contents_rep)
  then have sc: "s < c" and lt: "unat s < unat c" "unat e < unat c" and len: "length els = unat c"
    and small: "length els < 2147483648"
    using 1(2) by (auto simp: queue_ok_def word_less_nat_alt)
  note n = end_index [OF lt]
  obtain m where m: "(unat e + unat c - unat s) mod unat c = Suc m"
    using assms(2) 1(1) c by (cases "(unat e + unat c - unat s) mod unat c") (auto simp: queue_contents_rep)
  let ?s = "(s + 1) mod c" and ?els = "els[unat s := VHole]"
  have us: "unat ?s = Suc (unat s) mod unat c" using sc by (rule unat_next)
  have slt: "unat ?s < unat c" unfolding us using lt by (intro mod_less_divisor) linarith
  have vs: "v = els ! unat s" "vs = ring els (unat ?s) m"
    using assms(2) 1(1) c m lt len by (simp_all add: queue_contents_rep ring_Cons us)
  have "(unat ?s + m) mod unat c = unat e" using n(2) by (simp add: us m mod_simps)
  then have dist: "(unat e + unat c - unat ?s) mod unat c = m"
    using distance_mod [OF slt, of m] n(1) m by simp
  have "(unat ?s + i) mod length els \<noteq> unat s" if "i < m" for i
  proof
    assume "(unat ?s + i) mod length els = unat s"
    then have "(unat s + Suc i) mod unat c = (unat s + 0) mod unat c" using lt len by (simp add: us mod_simps)
    then show False using mod_offset_eq [of "unat s" "Suc i" "unat c" 0] that n(1) m by linarith
  qed
  then have "ring ?els (unat ?s) m = vs" unfolding vs by (rule ring_update_other)
  then have "queue_contents (queue_rep c ?s e ?els) = vs" using c by (simp add: queue_contents_rep dist)
  moreover have "queue_ok c ?s e ?els" using 1(2) c slt by (simp add: queue_ok_def word_less_nat_alt)
  moreover have "TaggedQueue_Empty q = Some False" using TaggedQueue_Empty_spec [OF assms(1)] assms(2) by simp
  ultimately show ?thesis
    using 1(1) lt len small vs by (simp add: TaggedQueue_Pop_def)
qed

text \<open>Writing at the end index of a queue that is not full.\<close>

lemma push_in_place:
  fixes v :: JSTaggedValue
  assumes "queue_ok c s e els" "c \<noteq> 0" "(e + 1) mod c \<noteq> s"
  defines "q' \<equiv> queue_rep c s ((e + 1) mod c) (els[unat e := v])"
  shows "queue_inv q'" "queue_contents q' = queue_contents (queue_rep c s e els) @ [v]"
proof -
  have ec: "e < c" and lt: "unat s < unat c" "unat e < unat c" and len: "length els = unat c"
    using assms by (auto simp: queue_ok_def word_less_nat_alt)
  define n where "n = (unat e + unat c - unat s) mod unat c"
  have n: "n < unat c" "(unat s + n) mod unat c = unat e" using end_index [OF lt] by (auto simp: n_def)
  have ue: "unat ((e + 1) mod c) = Suc (unat e) mod unat c" using ec by (rule unat_next)
  have elt: "unat ((e + 1) mod c) < unat c" unfolding ue using lt by (intro mod_less_divisor) linarith
  show "queue_inv q'" using assms(1,2) elt by (simp add: q'_def queue_ok_def word_less_nat_alt)
  have e': "unat ((e + 1) mod c) = (unat s + Suc n) mod unat c"
    unfolding ue n(2) [symmetric] by (simp add: mod_simps)
  have "Suc n \<noteq> unat c"
  proof
    assume "Suc n = unat c"
    then have "unat ((e + 1) mod c) = unat s" using lt by (simp add: e')
    then show False using assms(3) by (simp add: word_unat_eq_iff)
  qed
  then have "Suc n < unat c" using n(1) by simp
  then have "(unat ((e + 1) mod c) + unat c - unat s) mod unat c = Suc n"
    unfolding e' using lt(1) by (intro distance_mod)
  moreover have "ring (els[unat e := v]) (unat s) (Suc n) = ring els (unat s) n @ [v]"
    using ring_push [of n els "unat s" v] n len by simp
  ultimately show "queue_contents q' = queue_contents (queue_rep c s e els) @ [v]"
    using assms(2) by (simp add: q'_def queue_contents_rep n_def)
qed

lemma full_iff:
  assumes "queue_ok c s e els" "c \<noteq> 0" "(e + 1) mod c = s"
  shows "Suc ((unat e + unat c - unat s) mod unat c) = unat c"
proof -
  have ec: "e < c" and lt: "unat s < unat c" "unat e < unat c"
    using assms by (auto simp: queue_ok_def word_less_nat_alt)
  define n where "n = (unat e + unat c - unat s) mod unat c"
  have n: "n < unat c" "(unat s + n) mod unat c = unat e" using end_index [OF lt] by (auto simp: n_def)
  have "unat s = Suc (unat e) mod unat c" using unat_next [OF ec] assms(3) by simp
  then have "(unat s + Suc n) mod unat c = unat s" unfolding n(2) [symmetric] by (simp add: mod_simps)
  then have "Suc n < unat c \<Longrightarrow> False"
    using mod_offset_eq [of "unat s" "Suc n" "unat c" 0] lt by simp
  then have "\<not> Suc n < unat c" by blast
  then show ?thesis using n(1) unfolding n_def by linarith
qed

definition QUEUE_LIMIT :: nat where "QUEUE_LIMIT = 1431655764"

lemma TaggedQueue_Push_full:
  assumes "queue_ok c s e els" "c \<noteq> 0" "(e + 1) mod c = s" "unat c \<le> QUEUE_LIMIT"
  shows "\<exists>q'. TaggedQueue_Push (queue_rep c s e els) v = Some q' \<and> queue_inv q' \<and>
    queue_contents q' = queue_contents (queue_rep c s e els) @ [v]"
proof -
  have lt: "unat s < unat c" "unat e < unat c" and len: "length els = unat c" and c2: "2 \<le> unat c"
    and clt: "c < 0x80000000"
    using assms by (auto simp: queue_ok_def word_less_nat_alt word_le_nat_alt)
  define n where "n = (unat e + unat c - unat s) mod unat c"
  have n: "Suc n = unat c" unfolding n_def using assms(1-3) by (rule full_iff)
  have inv: "queue_inv (queue_rep c s e els)" using assms by simp
  obtain sz where sz: "TaggedQueue_Size (queue_rep c s e els) = Some sz" "unat sz = n"
    using TaggedQueue_Size_spec [OF inv] assms(2) by (auto simp: queue_contents_rep n_def)
  let ?c = "c + drop_bit 1 c"
  have "unat c + unat c div 2 < 4294967296" using assms(4) unfolding QUEUE_LIMIT_def by presburger
  then have uc: "unat ?c = unat c + unat c div 2"
    by (simp add: unat_plus_if_size word_size unat_div_distrib drop_bit_eq_div QUEUE_LIMIT_def)
  have grows: "\<not> ?c < c" and small: "unat ?c < 2147483648" and room: "n < unat ?c"
    using assms(4) c2 n uc by (simp_all add: word_less_nat_alt QUEUE_LIMIT_def)
  have max: "c \<noteq> MAX_QUEUE_INDEX"
    using clt by (auto simp: MAX_QUEUE_INDEX_def queue_index_defs)
  have usz: "unat (sz + 1) = Suc n" using sz small room by (auto intro!: unat_inc)
  let ?els = "ring els (unat s) n @ replicate (unat ?c - n) VHole"
  have g: "grow_copy (unat sz) (queue_rep ?c 0 0 (replicate (unat ?c) VHole)) (queue_rep c s e els) s 0 c =
      Some (queue_rep ?c 0 0 ?els)"
    using lt len small room sz(2) n uc by (subst grow_copy_spec) simp_all
  let ?q = "queue_rep ?c 0 (sz + 1) (?els[n := v])"
  have "TaggedQueue_Push (queue_rep c s e els) v = Some ?q"
    using assms(2,3) max grows g small room sz by (simp add: TaggedQueue_Push_def NewTaggedQueue_spec small_tagged Let_def)
  moreover have "queue_inv ?q"
    using small room usz c2 uc n by (auto simp: queue_ok_def word_less_nat_alt word_le_nat_alt)
  moreover have "queue_contents ?q = ring els (unat s) n @ [v]"
  proof -
    have "?els[n := v] = ring els (unat s) n @ v # replicate (unat ?c - Suc n) VHole"
    proof -
      have "unat ?c - n = Suc (unat ?c - Suc n)" using room by simp
      then show ?thesis by (simp add: list_update_append)
    qed
    moreover have "Suc n < unat ?c" using n c2 uc by simp
    then have "Suc (n + unat ?c) mod unat ?c = Suc n" by (metis add_Suc mod_add_self2 mod_less)
    moreover have "?c \<noteq> 0" using room by (metis not_less0 unat_0)
    ultimately show ?thesis
      using room usz by (simp add: queue_contents_rep ring_0_take)
  qed
  ultimately show ?thesis using assms(2) by (simp add: queue_contents_rep n_def)
qed

lemma TaggedQueue_Push_spec:
  assumes "queue_inv q" "length (queue_contents q) < QUEUE_LIMIT"
  shows "\<exists>q'. TaggedQueue_Push q v = Some q' \<and> queue_inv q' \<and> queue_contents q' = queue_contents q @ [v]"
  using assms(1)
proof (cases rule: queue_inv_cases)
  case (1 c s e els)
  consider "c = 0" | "c \<noteq> 0" "(e + 1) mod c = s" | "c \<noteq> 0" "(e + 1) mod c \<noteq> s" by blast
  then show ?thesis
  proof cases
    case a: 1
    have "NewTaggedQueue 2 = Some (queue_rep 2 0 0 [VHole, VHole])"
      using replicate_Suc [of 1 VHole] by (simp add: NewTaggedQueue_spec numeral_2_eq_2 [symmetric])
    then have "TaggedQueue_Push q v = Some (queue_rep 2 0 1 [v, VHole])"
      using 1 a by (simp add: TaggedQueue_Push_def MIN_CAPACITY_def small_tagged)
    then show ?thesis
      using 1 a by (simp add: queue_ok_def queue_contents_rep ring_def)
  next
    case 2
    then have "unat c \<le> QUEUE_LIMIT"
      using full_iff [OF 1(2) 2] assms(2) 1(1) by (simp add: queue_contents_rep)
    with 1 2 show ?thesis using TaggedQueue_Push_full by blast
  next
    case 3
    have "unat e < length els" "length els < 2147483648"
      using 1(2) 3 by (auto simp: queue_ok_def word_less_nat_alt)
    moreover obtain n where "TaggedQueue_Size (queue_rep c s e els) = Some n"
      using TaggedQueue_Size_spec assms(1) 1(1) by blast
    ultimately have "TaggedQueue_Push q v = Some (queue_rep c s ((e + 1) mod c) (els[unat e := v]))"
      using 1(1) 3 by (simp add: TaggedQueue_Push_def)
    then show ?thesis using push_in_place [OF 1(2) 3] 1(1) by simp
  qed
qed

interpretation tagged_queue: fifo_queue queue_inv queue_contents QUEUE_LIMIT TaggedQueue_Push TaggedQueue_Pop
  by unfold_locales (fact TaggedQueue_Push_spec, fact TaggedQueue_Pop_spec)

lemma TaggedQueue_Front_spec:
  assumes "queue_inv q"
  shows "TaggedQueue_Front q = Some (case queue_contents q of [] \<Rightarrow> VHole | v # _ \<Rightarrow> v)"
proof (cases "queue_contents q")
  case (Cons v vs)
  from assms show ?thesis
  proof (cases rule: queue_inv_cases)
    case (1 c s e els)
    have c: "c \<noteq> 0" using Cons 1(1) by (auto simp: queue_contents_rep)
    then have lt: "unat s < length els" "length els < 2147483648"
      using 1(2) by (auto simp: queue_ok_def word_less_nat_alt)
    have "queue_contents q ! 0 = els ! unat s"
      using Cons 1(1) c lt
      by (cases "(unat e + unat c - unat s) mod unat c") (auto simp: queue_contents_rep ring_Cons)
    then show ?thesis
      using TaggedQueue_Empty_spec [OF assms] Cons 1(1) lt by (simp add: TaggedQueue_Front_def)
  qed
qed (use TaggedQueue_Empty_spec [OF assms] in \<open>simp add: TaggedQueue_Front_def\<close>)

text \<open>
  \<open>Back\<close> reads the slot before the end index: right unless the end index has wrapped to 0, where
  \<open>end - 1\<close> wraps around, \<open>QueueToArrayIndex\<close> wraps back, and the slot read is the one that holds the end
  index itself.
\<close>

lemma TaggedQueue_Back_spec:
  assumes "queue_ok c s e els" "s \<noteq> e" "q = queue_rep c s e els"
  shows "TaggedQueue_Back q = Some (if e = 0 then VInt 0 else last (queue_contents q))"
proof -
  have c: "c \<noteq> 0" and lt: "unat s < unat c" "unat e < unat c" and len: "length els = unat c"
    and small: "length els < 2147483648"
    using assms by (auto simp: queue_ok_def word_less_nat_alt)
  have ne: "queue_contents q \<noteq> []" and inv: "queue_inv q"
    using assms queue_contents_Nil by auto
  define n where "n = (unat e + unat c - unat s) mod unat c"
  have n: "n < unat c" "(unat s + n) mod unat c = unat e" using end_index [OF lt] by (auto simp: n_def)
  obtain m where m: "n = Suc m" using ne assms(3) c by (cases n) (auto simp: queue_contents_rep n_def)
  show ?thesis
  proof (cases "e = 0")
    case True
    have "QueueToArrayIndex (0 - 1) = 2" by (simp add: QueueToArrayIndex_def queue_index_defs)
    then have "TaggedQueue_Get q (0 - 1) = GetEnd q"
      by (simp add: TaggedQueue_Get_def GetEnd_def queue_index_defs)
    with True show ?thesis
      using TaggedQueue_Empty_spec [OF inv] ne assms(3) by (simp add: TaggedQueue_Back_def small_tagged)
  next
    case False
    then have ue: "unat (e - 1) = unat e - 1" "0 < unat e"
      by (simp_all add: unat_pred word_neq_0_conv unat_gt_0)
    have "unat e = Suc ((unat s + m) mod unat c) mod unat c" using n(2) m by (simp add: mod_simps)
    then have "(unat s + m) mod unat c = unat e - 1"
      using ue(2) by (auto simp: mod_Suc split: if_splits)
    then have "last (queue_contents q) = els ! unat (e - 1)"
      using assms(3) c len ue by (simp add: queue_contents_rep n_def [symmetric] m ring_snoc)
    then show ?thesis
      using False TaggedQueue_Empty_spec [OF inv] ne assms(3) ue lt len small by (simp add: TaggedQueue_Back_def)
  qed
qed

end
