(* ===== verification/Micro_Job_Queue.thy ===== *)
theory Micro_Job_Queue
  imports Tagged_Queue
begin

text \<open>
  The micro job queue (\<open>ecmascript/jobs/micro_job_queue.cpp\<close>).  Queue objects live in a store from
  addresses to arrays, because \<open>TaggedQueue::Push\<close> writes into the queue it is given or returns a new one
  and a handle to the old one keeps reading the old object.  Running a job is arbitrary JavaScript: the
  parameter \<open>run\<close> says, for a job and the state of the program, what the program state becomes, which jobs
  the code enqueued in which order, and whether it left a pending exception or was terminated.
\<close>

section \<open>Definitions\<close>

datatype QueueType = QUEUE_PROMISE | QUEUE_SCRIPT

record 'x job_state =
  queue_store :: "nat \<Rightarrow> tagged_array"
  fresh_addr :: nat
  empty_queue :: nat
  promise_job_queue :: nat
  script_job_queue :: nat
  pending_exception :: bool
  has_terminated :: bool
  program :: 'x

type_synonym 'x job_run =
  "JSTaggedValue \<Rightarrow> 'x \<Rightarrow> 'x \<times> (QueueType \<times> JSTaggedValue) list \<times> bool \<times> bool"

definition NewMicroJobQueue :: "'x job_state \<Rightarrow> 'x job_state" where
  "NewMicroJobQueue st = st\<lparr>promise_job_queue := empty_queue st, script_job_queue := empty_queue st\<rparr>"

text \<open>Whether \<open>TaggedQueue::Push\<close> returns a new object: its two branches that allocate.\<close>

definition push_allocates :: "tagged_array \<Rightarrow> bool option" where
  "push_allocates q = do {
     c \<leftarrow> GetCapacity q; capacity \<leftarrow> GetArrayLength c;
     if capacity = 0 then Some True
     else do {
       s \<leftarrow> GetStart q; start \<leftarrow> GetArrayLength s;
       e \<leftarrow> GetEnd q; end_ix \<leftarrow> GetArrayLength e;
       Some ((end_ix + 1) mod capacity = start \<and> capacity \<noteq> MAX_QUEUE_INDEX)
     }
   }"

definition store_push :: "'x job_state \<Rightarrow> nat \<Rightarrow> JSTaggedValue \<Rightarrow> ('x job_state \<times> nat) option" where
  "store_push st addr v = do {
     q \<leftarrow> TaggedQueue_Push (queue_store st addr) v;
     new \<leftarrow> push_allocates (queue_store st addr);
     if new
     then Some (st\<lparr>queue_store := (queue_store st)(fresh_addr st := q), fresh_addr := fresh_addr st + 1\<rparr>, fresh_addr st)
     else Some (st\<lparr>queue_store := (queue_store st)(addr := q)\<rparr>, addr)
   }"

definition EnqueueJob :: "'x job_state \<Rightarrow> QueueType \<Rightarrow> JSTaggedValue \<Rightarrow> 'x job_state option" where
  "EnqueueJob st queueType pendingJob = (case queueType of
     QUEUE_PROMISE \<Rightarrow> do {
       (st', newPromiseQueue) \<leftarrow> store_push st (promise_job_queue st) pendingJob;
       Some (st'\<lparr>promise_job_queue := newPromiseQueue\<rparr>)
     }
   | QUEUE_SCRIPT \<Rightarrow> do {
       (st', newScriptQueue) \<leftarrow> store_push st (script_job_queue st) pendingJob;
       Some (st'\<lparr>script_job_queue := newScriptQueue\<rparr>)
     })"

fun enqueue_all :: "'x job_state \<Rightarrow> (QueueType \<times> JSTaggedValue) list \<Rightarrow> 'x job_state option" where
  "enqueue_all st [] = Some st"
| "enqueue_all st ((t, j) # js) = do { st' \<leftarrow> EnqueueJob st t j; enqueue_all st' js }"

definition execute_job :: "'x job_run \<Rightarrow> 'x job_state \<Rightarrow> JSTaggedValue \<Rightarrow> 'x job_state option" where
  "execute_job run st job = (case run job (program st) of (x, enq, exc, term) \<Rightarrow> do {
     st' \<leftarrow> enqueue_all st enq;
     Some (st'\<lparr>program := x, pending_exception := exc, has_terminated := term\<rparr>)
   })"

definition store_pop :: "'x job_state \<Rightarrow> nat \<Rightarrow> (JSTaggedValue \<times> 'x job_state) option" where
  "store_pop st addr = do {
     (job, q) \<leftarrow> TaggedQueue_Pop (queue_store st addr);
     Some (job, st\<lparr>queue_store := (queue_store st)(addr := q)\<rparr>)
   }"

text \<open>
  The first loop of \<open>ExecutePendingJob\<close>: the handle is updated to the current promise queue after every
  job.  The second component says whether the function returned from inside of the loop.
\<close>

partial_function (option) promise_loop :: "'x job_run \<Rightarrow> 'x job_state \<Rightarrow> ('x job_state \<times> bool) option" where
  "promise_loop run st = do {
     empty \<leftarrow> TaggedQueue_Empty (queue_store st (promise_job_queue st));
     if empty then Some (st, False)
     else do {
       (job, st1) \<leftarrow> store_pop st (promise_job_queue st);
       st2 \<leftarrow> execute_job run st1 job;
       if pending_exception st2 then Some (st2, True)
       else if has_terminated st2 then Some (st2\<lparr>promise_job_queue := empty_queue st2\<rparr>, True)
       else promise_loop run st2
     }
   }"

text \<open>The second loop keeps the handle read before it.\<close>

partial_function (option) script_loop :: "'x job_run \<Rightarrow> nat \<Rightarrow> 'x job_state \<Rightarrow> 'x job_state option" where
  "script_loop run scriptQueue st = do {
     empty \<leftarrow> TaggedQueue_Empty (queue_store st scriptQueue);
     if empty then Some st
     else do {
       (job, st1) \<leftarrow> store_pop st scriptQueue;
       st2 \<leftarrow> execute_job run st1 job;
       if pending_exception st2 then Some st2
       else script_loop run scriptQueue st2
     }
   }"

definition ExecutePendingJob :: "'x job_run \<Rightarrow> 'x job_state \<Rightarrow> 'x job_state option" where
  "ExecutePendingJob run st = do {
     (st1, returned) \<leftarrow> promise_loop run st;
     if returned then Some st1
     else script_loop run (script_job_queue st1) st1
   }"

definition HasPendingJob :: "'x job_state \<Rightarrow> bool option" where
  "HasPendingJob st = do {
     empty \<leftarrow> TaggedQueue_Empty (queue_store st (promise_job_queue st));
     Some (\<not> empty)
   }"

definition GetPromiseQueueSize :: "'x job_state \<Rightarrow> u32 option" where
  "GetPromiseQueueSize st = TaggedQueue_Size (queue_store st (promise_job_queue st))"

section \<open>Invariant and abstraction\<close>

abbreviation promise_jobs :: "'x job_state \<Rightarrow> JSTaggedValue list" where
  "promise_jobs st \<equiv> queue_contents (queue_store st (promise_job_queue st))"

abbreviation script_jobs :: "'x job_state \<Rightarrow> JSTaggedValue list" where
  "script_jobs st \<equiv> queue_contents (queue_store st (script_job_queue st))"

text \<open>
  The shared empty queue is never written (a push on it allocates), so the two queues are different
  objects as soon as one of them holds a job.
\<close>

definition job_inv :: "'x job_state \<Rightarrow> bool" where
  "job_inv st \<longleftrightarrow>
     queue_inv (queue_store st (promise_job_queue st)) \<and> queue_inv (queue_store st (script_job_queue st)) \<and>
     queue_store st (empty_queue st) = queue_rep 0 0 0 [] \<and>
     promise_job_queue st < fresh_addr st \<and> script_job_queue st < fresh_addr st \<and> empty_queue st < fresh_addr st \<and>
     (promise_job_queue st = script_job_queue st \<longrightarrow> promise_job_queue st = empty_queue st)"

definition with_type :: "QueueType \<Rightarrow> (QueueType \<times> JSTaggedValue) list \<Rightarrow> JSTaggedValue list" where
  "with_type t enq = map snd (filter (\<lambda>e. fst e = t) enq)"

text \<open>
  Draining the promise queue on lists, at most \<open>n\<close> jobs; \<open>None\<close> when more would be needed or a queue
  would exceed \<open>QUEUE_LIMIT\<close>.
\<close>

fun drain :: "nat \<Rightarrow> 'x job_run \<Rightarrow> JSTaggedValue list \<Rightarrow> JSTaggedValue list \<Rightarrow> 'x \<Rightarrow>
    (JSTaggedValue list \<times> JSTaggedValue list \<times> 'x \<times> bool \<times> bool) option" where
  "drain n run [] ss x = Some ([], ss, x, False, False)"
| "drain 0 run (j # js) ss x = None"
| "drain (Suc n) run (j # js) ss x = (case run j x of (x', enq, exc, term) \<Rightarrow>
     let js' = js @ with_type QUEUE_PROMISE enq; ss' = ss @ with_type QUEUE_SCRIPT enq in
     if QUEUE_LIMIT < length js' \<or> QUEUE_LIMIT < length ss' then None
     else if exc then Some (js', ss', x', exc, term)
     else if term then Some ([], ss', x', exc, term)
     else drain n run js' ss' x')"

section \<open>Enqueueing\<close>

lemma push_allocates_rep:
  "queue_ok c s e els \<Longrightarrow> push_allocates (queue_rep c s e els) = Some (c = 0 \<or> (e + 1) mod c = s)"
  by (auto simp: push_allocates_def queue_ok_def MAX_QUEUE_INDEX_def queue_index_defs)

text \<open>A push leaves every queue object but the one it returns as it was.\<close>

lemma store_push_spec:
  assumes "queue_inv (queue_store st addr)" "length (queue_contents (queue_store st addr)) < QUEUE_LIMIT"
    "queue_store st (empty_queue st) = queue_rep 0 0 0 []"
  shows "\<exists>st' a q. store_push st addr v = Some (st', a) \<and> queue_inv q \<and>
    queue_contents q = queue_contents (queue_store st addr) @ [v] \<and>
    (a = addr \<and> addr \<noteq> empty_queue st \<and> st' = st\<lparr>queue_store := (queue_store st)(addr := q)\<rparr> \<or>
     a = fresh_addr st \<and>
     st' = st\<lparr>queue_store := (queue_store st)(fresh_addr st := q), fresh_addr := fresh_addr st + 1\<rparr>)"
proof -
  obtain q where q: "TaggedQueue_Push (queue_store st addr) v = Some q" "queue_inv q"
      "queue_contents q = queue_contents (queue_store st addr) @ [v]"
    using TaggedQueue_Push_spec [OF assms(1,2)] by blast
  obtain c s e els where rep: "queue_store st addr = queue_rep c s e els" "queue_ok c s e els"
    using assms(1) by (rule queue_inv_cases)
  have "c = 0" if "addr = empty_queue st"
    using that assms(3) rep(1) by (simp add: queue_rep_def)
  with q rep push_allocates_rep [OF rep(2)] show ?thesis by (auto simp: store_push_def)
qed

definition same_control :: "'x job_state \<Rightarrow> 'x job_state \<Rightarrow> bool" where
  "same_control st st' \<longleftrightarrow> program st' = program st \<and> pending_exception st' = pending_exception st \<and>
     has_terminated st' = has_terminated st"

lemma EnqueueJob_spec:
  assumes inv: "job_inv st"
    and room: "length (promise_jobs st) + length (with_type QUEUE_PROMISE [(t, j)]) \<le> QUEUE_LIMIT"
      "length (script_jobs st) + length (with_type QUEUE_SCRIPT [(t, j)]) \<le> QUEUE_LIMIT"
  shows "\<exists>st'. EnqueueJob st t j = Some st' \<and> job_inv st' \<and> same_control st st' \<and>
    promise_jobs st' = promise_jobs st @ with_type QUEUE_PROMISE [(t, j)] \<and>
    script_jobs st' = script_jobs st @ with_type QUEUE_SCRIPT [(t, j)]"
proof (cases t)
  case QUEUE_PROMISE
  obtain st' a q where "store_push st (promise_job_queue st) j = Some (st', a)" "queue_inv q"
      "queue_contents q = promise_jobs st @ [j]"
      "a = promise_job_queue st \<and> promise_job_queue st \<noteq> empty_queue st \<and>
         st' = st\<lparr>queue_store := (queue_store st)(promise_job_queue st := q)\<rparr> \<or>
       a = fresh_addr st \<and>
         st' = st\<lparr>queue_store := (queue_store st)(fresh_addr st := q), fresh_addr := fresh_addr st + 1\<rparr>"
    using store_push_spec [of st "promise_job_queue st" j] inv room QUEUE_PROMISE
    by (auto simp: job_inv_def with_type_def)
  with QUEUE_PROMISE inv show ?thesis
    by (auto simp: EnqueueJob_def job_inv_def same_control_def with_type_def)
next
  case QUEUE_SCRIPT
  obtain st' a q where "store_push st (script_job_queue st) j = Some (st', a)" "queue_inv q"
      "queue_contents q = script_jobs st @ [j]"
      "a = script_job_queue st \<and> script_job_queue st \<noteq> empty_queue st \<and>
         st' = st\<lparr>queue_store := (queue_store st)(script_job_queue st := q)\<rparr> \<or>
       a = fresh_addr st \<and>
         st' = st\<lparr>queue_store := (queue_store st)(fresh_addr st := q), fresh_addr := fresh_addr st + 1\<rparr>"
    using store_push_spec [of st "script_job_queue st" j] inv room QUEUE_SCRIPT
    by (auto simp: job_inv_def with_type_def)
  with QUEUE_SCRIPT inv show ?thesis
    by (auto simp: EnqueueJob_def job_inv_def same_control_def with_type_def)
qed

lemma with_type_Cons: "with_type t (e # es) = with_type t [e] @ with_type t es"
  by (simp add: with_type_def)

lemma with_type_Nil [simp]: "with_type t [] = []"
  by (simp add: with_type_def)

lemma enqueue_all_spec:
  assumes "job_inv st" "length (promise_jobs st) + length (with_type QUEUE_PROMISE enq) \<le> QUEUE_LIMIT"
    "length (script_jobs st) + length (with_type QUEUE_SCRIPT enq) \<le> QUEUE_LIMIT"
  shows "\<exists>st'. enqueue_all st enq = Some st' \<and> job_inv st' \<and> same_control st st' \<and>
    promise_jobs st' = promise_jobs st @ with_type QUEUE_PROMISE enq \<and>
    script_jobs st' = script_jobs st @ with_type QUEUE_SCRIPT enq"
  using assms
proof (induction enq arbitrary: st)
  case Nil
  then show ?case by (simp add: same_control_def)
next
  case (Cons e enq)
  obtain t j where e: "e = (t, j)" by (cases e)
  have len: "length (with_type ty (e # enq)) = length (with_type ty [e]) + length (with_type ty enq)" for ty
    by (simp add: with_type_Cons [of ty e enq])
  obtain st1 where st1: "EnqueueJob st t j = Some st1" "job_inv st1" "same_control st st1"
      "promise_jobs st1 = promise_jobs st @ with_type QUEUE_PROMISE [e]"
      "script_jobs st1 = script_jobs st @ with_type QUEUE_SCRIPT [e]"
    using EnqueueJob_spec [OF Cons.prems(1), of t j] Cons.prems(2,3) len e by auto
  then obtain st2 where "enqueue_all st1 enq = Some st2" "job_inv st2" "same_control st1 st2"
      "promise_jobs st2 = promise_jobs st1 @ with_type QUEUE_PROMISE enq"
      "script_jobs st2 = script_jobs st1 @ with_type QUEUE_SCRIPT enq"
    using Cons.IH [of st1] Cons.prems len by auto
  with st1 show ?case
    using with_type_Cons [of _ e enq] by (auto simp: e same_control_def)
qed

section \<open>Draining\<close>

lemma store_pop_spec:
  assumes "job_inv st" "promise_jobs st = j # js"
  shows "\<exists>st'. store_pop st (promise_job_queue st) = Some (j, st') \<and> job_inv st' \<and>
    promise_jobs st' = js \<and> script_jobs st' = script_jobs st \<and> same_control st st'"
proof -
  obtain q where q: "TaggedQueue_Pop (queue_store st (promise_job_queue st)) = Some (j, q)"
      "queue_inv q" "queue_contents q = js"
    using TaggedQueue_Pop_spec [OF _ assms(2)] assms(1) by (auto simp: job_inv_def)
  have "promise_job_queue st \<noteq> empty_queue st"
    using assms by (auto simp: job_inv_def queue_contents_rep)
  with q assms(1) show ?thesis
    by (auto simp: store_pop_def job_inv_def same_control_def)
qed

lemma promise_loop_empty:
  "job_inv st \<Longrightarrow> promise_jobs st = [] \<Longrightarrow> promise_loop run st = Some (st, False)"
  by (subst promise_loop.simps) (simp add: TaggedQueue_Empty_spec job_inv_def)

lemma execute_job_spec:
  assumes "job_inv st" "run j (program st) = (x, enq, exc, term)"
    "length (promise_jobs st @ with_type QUEUE_PROMISE enq) \<le> QUEUE_LIMIT"
    "length (script_jobs st @ with_type QUEUE_SCRIPT enq) \<le> QUEUE_LIMIT"
  shows "\<exists>st'. execute_job run st j = Some st' \<and> job_inv st' \<and>
    promise_jobs st' = promise_jobs st @ with_type QUEUE_PROMISE enq \<and>
    script_jobs st' = script_jobs st @ with_type QUEUE_SCRIPT enq \<and>
    program st' = x \<and> pending_exception st' = exc \<and> has_terminated st' = term"
proof -
  obtain st1 where "enqueue_all st enq = Some st1" "job_inv st1"
      "promise_jobs st1 = promise_jobs st @ with_type QUEUE_PROMISE enq"
      "script_jobs st1 = script_jobs st @ with_type QUEUE_SCRIPT enq"
    using enqueue_all_spec [of st enq] assms by auto
  with assms(2) show ?thesis by (simp add: execute_job_def job_inv_def)
qed

lemma promise_loop_refines:
  assumes "drain n run (promise_jobs st) (script_jobs st) (program st) = Some (js, ss, x, exc, term)"
    and "job_inv st" "\<not> pending_exception st" "\<not> has_terminated st"
  shows "\<exists>st'. promise_loop run st = Some (st', exc \<or> term) \<and> job_inv st' \<and>
    promise_jobs st' = js \<and> script_jobs st' = ss \<and>
    program st' = x \<and> pending_exception st' = exc \<and> has_terminated st' = term"
  using assms
proof (induction n arbitrary: st)
  case 0
  then show ?case by (cases "promise_jobs st") (auto simp: promise_loop_empty)
next
  case (Suc n)
  show ?case
  proof (cases "promise_jobs st")
    case Nil
    with Suc.prems show ?thesis by (auto simp: promise_loop_empty)
  next
    case (Cons j js0)
    obtain x1 enq exc1 term1 where run: "run j (program st) = (x1, enq, exc1, term1)"
      by (metis prod_cases4)
    obtain st1 where st1: "store_pop st (promise_job_queue st) = Some (j, st1)" "job_inv st1"
        "promise_jobs st1 = js0" "script_jobs st1 = script_jobs st" "same_control st st1"
      using store_pop_spec [OF Suc.prems(2) Cons] by blast
    let ?js = "js0 @ with_type QUEUE_PROMISE enq" and ?ss = "script_jobs st @ with_type QUEUE_SCRIPT enq"
    have d: "\<not> (QUEUE_LIMIT < length ?js \<or> QUEUE_LIMIT < length ?ss)"
      "(if exc1 then Some (?js, ?ss, x1, exc1, term1) else if term1 then Some ([], ?ss, x1, exc1, term1)
        else drain n run ?js ?ss x1) = Some (js, ss, x, exc, term)"
      using Suc.prems(1) unfolding Cons drain.simps(3) run prod.case Let_def by (auto split: if_splits)
    obtain st2 where st2: "execute_job run st1 j = Some st2" "job_inv st2" "promise_jobs st2 = ?js"
        "script_jobs st2 = ?ss" "program st2 = x1" "pending_exception st2 = exc1" "has_terminated st2 = term1"
      using execute_job_spec [OF st1(2), of run j x1 enq exc1 term1] run st1(3-5) d(1)
      by (auto simp: same_control_def)
    have "TaggedQueue_Empty (queue_store st (promise_job_queue st)) = Some False"
      using Suc.prems(2) Cons by (simp add: TaggedQueue_Empty_spec job_inv_def)
    then have step: "promise_loop run st =
        (if exc1 then Some (st2, True)
         else if term1 then Some (st2\<lparr>promise_job_queue := empty_queue st2\<rparr>, True) else promise_loop run st2)"
      by (subst promise_loop.simps) (simp add: st1(1) st2)
    consider "exc1" | "\<not> exc1" "term1" | "\<not> exc1" "\<not> term1" by blast
    then show ?thesis
    proof cases
      case 3
      then show ?thesis using step d(2) Suc.IH [of st2] st2 by simp
    qed (use step d(2) st2 in \<open>auto simp: job_inv_def queue_contents_rep queue_ok_def\<close>)
  qed
qed

lemma script_loop_empty:
  "job_inv st \<Longrightarrow> script_jobs st = [] \<Longrightarrow> script_loop run (script_job_queue st) st = Some st"
  by (subst script_loop.simps) (simp add: TaggedQueue_Empty_spec job_inv_def)

end
