(* ===== verification/Queue_Props.thy ===== *)
theory Queue_Props
  imports Micro_Job_Queue
begin

text \<open>
  Properties of the tagged queue and of the micro job queue.
\<close>

text \<open>C20. \<open>TaggedQueue\<close> is a first-in first-out queue: for any well-formed queue, pushing values (growing
  the buffer as often as needed, up to \<open>QUEUE_LIMIT\<close> elements) and then popping as many elements as it
  holds returns the old elements and then the pushed ones, in order, stays inside of the arrays, and
  leaves a well-formed empty queue.\<close>

theorem tagged_queue_fifo:
  assumes "queue_inv q" "length (queue_contents q) + length vs \<le> QUEUE_LIMIT"
  shows "\<exists>q' q''. push_all TaggedQueue_Push q vs = Some q' \<and>
    pop_many TaggedQueue_Pop (length (queue_contents q) + length vs) q' = Some (queue_contents q @ vs, q'') \<and>
    queue_inv q'' \<and> TaggedQueue_Empty q'' = Some True \<and> TaggedQueue_Size q'' = Some 0"
proof -
  obtain q' q'' where q: "push_all TaggedQueue_Push q vs = Some q'"
      "pop_many TaggedQueue_Pop (length (queue_contents q) + length vs) q' = Some (queue_contents q @ vs, q'')"
      "queue_inv q''" "queue_contents q'' = []"
    using tagged_queue.fifo_order [OF assms] by blast
  then show ?thesis
    using TaggedQueue_Size_spec [OF q(3)] by (auto simp: TaggedQueue_Empty_spec unat_eq_0)
qed

theorem tagged_queue_fifo_witness:
  "\<exists>q' q''. push_all TaggedQueue_Push (queue_rep 0 0 0 []) [VInt 1, VInt 2, VInt 3] = Some q' \<and>
    pop_many TaggedQueue_Pop 3 q' = Some ([VInt 1, VInt 2, VInt 3], q'') \<and>
    queue_inv q'' \<and> TaggedQueue_Empty q'' = Some True \<and> TaggedQueue_Size q'' = Some 0"
  using tagged_queue_fifo [of "queue_rep 0 0 0 []" "[VInt 1, VInt 2, VInt 3]"]
  by (simp add: queue_ok_def queue_contents_rep QUEUE_LIMIT_def numeral_3_eq_3)

text \<open>\<open>Back\<close> of a queue whose end index has wrapped around does not return the last element: after two
  pushes and a pop on a queue of capacity 2, the only element is the second value, \<open>Front\<close> returns it,
  and \<open>Back\<close> returns the integer 0, the contents of the slot that stores the end index.\<close>

theorem tagged_queue_back_after_wrap:
  "do {
     q0 \<leftarrow> NewTaggedQueue 2;
     q1 \<leftarrow> TaggedQueue_Push q0 a;
     (_, q2) \<leftarrow> TaggedQueue_Pop q1;
     q3 \<leftarrow> TaggedQueue_Push q2 b;
     f \<leftarrow> TaggedQueue_Front q3;
     v \<leftarrow> TaggedQueue_Back q3;
     Some (queue_contents q3, f, v)
   } = Some ([b], b, VInt 0)"
proof -
  have "NewTaggedQueue 2 = Some (queue_rep 2 0 0 [VHole, VHole])"
    using replicate_Suc [of 1 VHole] by (simp add: NewTaggedQueue_spec numeral_2_eq_2 [symmetric])
  moreover have "TaggedQueue_Push (queue_rep 2 0 0 [VHole, VHole]) a = Some (queue_rep 2 0 1 [a, VHole])"
    by (simp add: TaggedQueue_Push_def TaggedQueue_Size_def)
  moreover have "TaggedQueue_Pop (queue_rep 2 0 1 [a, VHole]) = Some (a, queue_rep 2 1 1 [VHole, VHole])"
    by (simp add: TaggedQueue_Pop_def TaggedQueue_Empty_def)
  moreover have "TaggedQueue_Push (queue_rep 2 1 1 [VHole, VHole]) b = Some (queue_rep 2 1 0 [VHole, b])"
    by (simp add: TaggedQueue_Push_def TaggedQueue_Size_def)
  moreover have "queue_contents (queue_rep 2 1 0 [VHole, b]) = [b]"
    by (simp add: queue_contents_rep ring_def)
  moreover have "queue_ok 2 1 0 [VHole, b]" by (simp add: queue_ok_def)
  ultimately show ?thesis
    using TaggedQueue_Back_spec [of 2 1 0 "[VHole, b]"] TaggedQueue_Front_spec [of "queue_rep 2 1 0 [VHole, b]"]
    by simp
qed

text \<open>C14. \<open>ExecutePendingJob\<close> runs the promise jobs to completion: whenever draining the jobs on lists
  (first in first out, jobs enqueued by a job behind the ones already waiting, stopping at an exception
  and dropping the waiting jobs on termination) ends after finitely many jobs, the implementation
  returns, having run the same jobs in the same order on the program state, with the same jobs left
  waiting, the invariant of the queues kept, and no promise job pending unless it was stopped.  It is assumed that no
  exception is pending at the start and that no script job waits when the promise jobs are done, unless an
  exception or the termination stopped them: with script jobs waiting, the code goes on with those, and
  C37 says what can happen then.\<close>

theorem execute_pending_job_correct:
  assumes "job_inv st" "\<not> pending_exception st" "\<not> has_terminated st"
    and "drain n run (promise_jobs st) (script_jobs st) (program st) = Some (js, ss, x, exc, term)"
    and "ss = [] \<or> exc \<or> term"
  shows "\<exists>st'. ExecutePendingJob run st = Some st' \<and> job_inv st' \<and> program st' = x \<and>
    promise_jobs st' = js \<and> script_jobs st' = ss \<and>
    pending_exception st' = exc \<and> has_terminated st' = term \<and> HasPendingJob st' = Some (js \<noteq> [])"
proof -
  obtain st' where st': "promise_loop run st = Some (st', exc \<or> term)" "job_inv st'" "promise_jobs st' = js"
      "script_jobs st' = ss" "program st' = x" "pending_exception st' = exc" "has_terminated st' = term"
    using promise_loop_refines [OF assms(4,1-3)] by blast
  moreover have "ExecutePendingJob run st = Some st'"
    using st'(1) assms(5) script_loop_empty [OF st'(2)] st'(4) by (auto simp: ExecutePendingJob_def)
  moreover have "HasPendingJob st' = Some (js \<noteq> [])"
    using st'(2,3) by (simp add: HasPendingJob_def TaggedQueue_Empty_spec job_inv_def)
  ultimately show ?thesis by blast
qed

definition example_state :: "JSTaggedValue list job_state" where
  "example_state = \<lparr>queue_store = (\<lambda>a. if a = 1 then queue_rep 3 0 2 [VInt 7, VInt 8, VHole] else queue_rep 0 0 0 []),
     fresh_addr = 2, empty_queue = 0, promise_job_queue = 1, script_job_queue = 0,
     pending_exception = False, has_terminated = False, program = []\<rparr>"

definition example_run :: "JSTaggedValue list job_run" where
  "example_run j x = (x @ [j], if j = VInt 7 then [(QUEUE_PROMISE, VInt 9)] else [], False, False)"

theorem execute_pending_job_correct_witness:
  "\<exists>st'. ExecutePendingJob example_run example_state = Some st' \<and> program st' = [VInt 7, VInt 8, VInt 9] \<and>
     HasPendingJob st' = Some False"
proof -
  have "job_inv example_state" "promise_jobs example_state = [VInt 7, VInt 8]" "script_jobs example_state = []"
    by (simp_all add: job_inv_def example_state_def queue_ok_def queue_contents_rep ring_def upt_rec)
  moreover have "drain 3 example_run [VInt 7, VInt 8] [] [] = Some ([], [], [VInt 7, VInt 8, VInt 9], False, False)"
    by (simp add: numeral_3_eq_3 example_run_def with_type_def QUEUE_LIMIT_def)
  ultimately show ?thesis
    using execute_pending_job_correct [of example_state 3 example_run] by (auto simp: example_state_def)
qed

definition script_state :: "JSTaggedValue list job_state" where
  "script_state = \<lparr>queue_store = (\<lambda>a. if a = 1 then queue_rep 2 0 1 [VInt 1, VHole] else queue_rep 0 0 0 []),
     fresh_addr = 2, empty_queue = 0, promise_job_queue = 0, script_job_queue = 1,
     pending_exception = False, has_terminated = False, program = []\<rparr>"

definition script_run :: "JSTaggedValue list job_run" where
  "script_run j x =
     (x @ [j], if j = VInt 1 then [(QUEUE_SCRIPT, VInt 2), (QUEUE_SCRIPT, VInt 3)] else [], False, False)"

lemma script_pushes:
  "TaggedQueue_Push (queue_rep 2 1 1 [VHole, VHole]) v = Some (queue_rep 2 1 0 [VHole, v])"
  "TaggedQueue_Push (queue_rep 2 1 0 [VHole, v]) w = Some (queue_rep 3 0 2 [v, w, VHole])"
  "push_allocates (queue_rep 2 1 1 [VHole, VHole]) = Some False"
  "push_allocates (queue_rep 2 1 0 [VHole, v]) = Some True"
  "TaggedQueue_Pop (queue_rep 2 0 1 [v, VHole]) = Some (v, queue_rep 2 1 1 [VHole, VHole])"
  "TaggedQueue_Pop (queue_rep 2 1 0 [VHole, v]) = Some (v, queue_rep 2 0 0 [VHole, VHole])"
proof -
  have "NewTaggedQueue 3 = Some (queue_rep 3 0 0 [VHole, VHole, VHole])"
    using replicate_Suc [of 2 VHole] replicate_Suc [of 1 VHole]
    by (simp add: NewTaggedQueue_spec numeral_3_eq_3 [symmetric] numeral_2_eq_2 [symmetric])
  then show "TaggedQueue_Push (queue_rep 2 1 0 [VHole, v]) w = Some (queue_rep 3 0 2 [v, w, VHole])"
    by (simp add: TaggedQueue_Push_def TaggedQueue_Size_def MAX_QUEUE_INDEX_def queue_index_defs small_tagged
        drop_bit_eq_div)
qed (simp_all add: TaggedQueue_Push_def TaggedQueue_Size_def push_allocates_def TaggedQueue_Pop_def
    TaggedQueue_Empty_def MAX_QUEUE_INDEX_def queue_index_defs)

text \<open>C37. A script job that enqueues script jobs while it runs can have one of them run twice: the loop over
  the script queue keeps the queue object it read first, a push that grows the queue copies the waiting
  jobs into a new object, and the jobs left in the old one are run from there while the copies stay
  pending.  Here job 1 enqueues jobs 2 and 3: job 2 is run and is still pending afterwards.\<close>

theorem script_job_left_pending:
  "\<exists>st'. ExecutePendingJob script_run script_state = Some st' \<and> program st' = [VInt 1, VInt 2] \<and>
     script_jobs st' = [VInt 2, VInt 3]"
proof -
  let ?st = "\<lambda>x a1 a2. script_state\<lparr>queue_store := (\<lambda>a. if a = 1 then a1 else if a = 2 then a2 else queue_rep 0 0 0 []),
      fresh_addr := 3, script_job_queue := 2, program := x\<rparr>"
  have "promise_loop script_run script_state = Some (script_state, False)"
    by (subst promise_loop.simps) (simp add: script_state_def TaggedQueue_Empty_def)
  moreover have "script_loop script_run 1 script_state =
      script_loop script_run 1 (?st [VInt 1] (queue_rep 2 1 0 [VHole, VInt 2]) (queue_rep 3 0 2 [VInt 2, VInt 3, VHole]))"
    by (subst script_loop.simps) (simp add: script_state_def TaggedQueue_Empty_def store_pop_def execute_job_def
        script_run_def script_pushes EnqueueJob_def store_push_def fun_upd_def,
      intro arg_cong [where f = "script_loop script_run (Suc 0)"], auto simp: fun_eq_iff)
  moreover have "script_loop script_run 1 (?st x (queue_rep 2 1 0 [VHole, VInt 2]) q) =
      script_loop script_run 1 (?st (x @ [VInt 2]) (queue_rep 2 0 0 [VHole, VHole]) q)" for x q
    by (subst script_loop.simps) (simp add: script_state_def TaggedQueue_Empty_def store_pop_def execute_job_def
        script_run_def script_pushes fun_upd_def,
      intro arg_cong [where f = "script_loop script_run (Suc 0)"], auto simp: fun_eq_iff)
  moreover have "script_loop script_run 1 (?st x (queue_rep 2 0 0 [VHole, VHole]) q) =
      Some (?st x (queue_rep 2 0 0 [VHole, VHole]) q)" for x q
    by (subst script_loop.simps) (simp add: TaggedQueue_Empty_def)
  ultimately show ?thesis
    by (simp add: ExecutePendingJob_def script_state_def queue_contents_rep ring_def upt_rec)
qed

end
