(* ===== verification/Simulation.thy ===== *)
theory Simulation
  imports Prelude "HOL-Library.Monad_Syntax"
begin

text \<open>
  Sequences of operations run on the model of the code and on an abstract state: a simulation of single
  operations gives the same outputs for every sequence.
\<close>

fun run_ops :: "('op \<Rightarrow> 's \<Rightarrow> ('out \<times> 's) option) \<Rightarrow> 'op list \<Rightarrow> 's \<Rightarrow> ('out list \<times> 's) option" where
  "run_ops step [] s = Some ([], s)"
| "run_ops step (op # ops) s = do {
     (out, s') \<leftarrow> step op s;
     (outs, s'') \<leftarrow> run_ops step ops s';
     Some (out # outs, s'')
   }"

lemma run_ops_total:
  assumes "\<And>op a. step op a \<noteq> None"
  shows "run_ops step ops a \<noteq> None"
proof (induction ops arbitrary: a)
  case (Cons op ops)
  obtain out a' where "step op a = Some (out, a')" using assms [of op a] by auto
  then show ?case using Cons.IH [of a'] by (auto split: bind_splits)
qed simp

text \<open>The operations may have to satisfy a condition, such as that their arguments are values of the program.\<close>

locale guarded_simulation =
  fixes R :: "'c \<Rightarrow> 'a \<Rightarrow> bool"
    and ok :: "'op \<Rightarrow> bool"
    and cstep :: "'op \<Rightarrow> 'c \<Rightarrow> ('out \<times> 'c) option"
    and astep :: "'op \<Rightarrow> 'a \<Rightarrow> ('out \<times> 'a) option"
    and size_of :: "'a \<Rightarrow> nat"
    and limit :: nat
  assumes step_law: "R c a \<Longrightarrow> ok op \<Longrightarrow> size_of a < limit \<Longrightarrow> rel_option (rel_prod (=) R) (cstep op c) (astep op a)"
    and size_law: "size_of a < limit \<Longrightarrow> astep op a = Some (out, a') \<Longrightarrow> size_of a' \<le> Suc (size_of a)"
begin

lemma run_law:
  "R c a \<Longrightarrow> list_all ok ops \<Longrightarrow> size_of a + length ops \<le> limit \<Longrightarrow>
   rel_option (rel_prod (=) R) (run_ops cstep ops c) (run_ops astep ops a)"
proof (induction ops arbitrary: c a)
  case (Cons op ops)
  have step: "rel_option (rel_prod (=) R) (cstep op c) (astep op a)" using Cons.prems by (intro step_law) simp_all
  show ?case
  proof (cases "astep op a")
    case None
    then show ?thesis using step by simp
  next
    case (Some r)
    obtain out a' where r: "r = (out, a')" by (cases r)
    obtain c' where c': "cstep op c = Some (out, c')" "R c' a'"
      using step Some r by (auto simp: option_rel_Some2 rel_prod_sel)
    have "size_of a' \<le> Suc (size_of a)" using size_law [of a op out a'] Some r Cons.prems by simp
    then have "rel_option (rel_prod (=) R) (run_ops cstep ops c') (run_ops astep ops a')"
      using c'(2) Cons.prems by (intro Cons.IH) simp_all
    then show ?thesis
      using Some r c'(1) by (cases "run_ops cstep ops c'"; cases "run_ops astep ops a'") auto
  qed
qed simp

lemma run_size:
  "size_of a + length ops \<le> limit \<Longrightarrow> run_ops astep ops a = Some (outs, a') \<Longrightarrow> size_of a' \<le> size_of a + length ops"
proof (induction ops arbitrary: a outs)
  case (Cons op ops)
  obtain out b outs' where b: "astep op a = Some (out, b)" "run_ops astep ops b = Some (outs', a')"
    using Cons.prems(2) by (auto simp: bind_eq_Some_conv)
  have "size_of b \<le> Suc (size_of a)" using size_law [OF _ b(1)] Cons.prems(1) by simp
  then show ?case using Cons.IH [OF _ b(2)] Cons.prems(1) by simp
qed simp

text \<open>When the abstract operations are defined, so are the concrete ones, with the same outputs.\<close>

lemma run_total:
  assumes "R c a" "list_all ok ops" "size_of a + length ops \<le> limit" "run_ops astep ops a = Some (outs, a')"
  shows "\<exists>c'. run_ops cstep ops c = Some (outs, c') \<and> R c' a'"
  using run_law [OF assms(1-3)] assms(4) by (auto simp: option_rel_Some2 rel_prod_sel)

end

locale simulation =
  fixes R :: "'c \<Rightarrow> 'a \<Rightarrow> bool"
    and cstep :: "'op \<Rightarrow> 'c \<Rightarrow> ('out \<times> 'c) option"
    and astep :: "'op \<Rightarrow> 'a \<Rightarrow> ('out \<times> 'a) option"
    and size_of :: "'a \<Rightarrow> nat"
    and limit :: nat
  assumes step_law: "R c a \<Longrightarrow> size_of a < limit \<Longrightarrow> rel_option (rel_prod (=) R) (cstep op c) (astep op a)"
    and size_law: "size_of a < limit \<Longrightarrow> astep op a = Some (out, a') \<Longrightarrow> size_of a' \<le> Suc (size_of a)"

sublocale simulation \<subseteq> guarded: guarded_simulation R "\<lambda>_. True" cstep astep size_of limit
  by unfold_locales (auto intro: step_law size_law)

context simulation
begin

lemma run_law:
  "R c a \<Longrightarrow> size_of a + length ops \<le> limit \<Longrightarrow>
   rel_option (rel_prod (=) R) (run_ops cstep ops c) (run_ops astep ops a)"
  by (rule guarded.run_law) (simp_all add: list_all_iff)

lemma run_total:
  "R c a \<Longrightarrow> size_of a + length ops \<le> limit \<Longrightarrow> run_ops astep ops a = Some (outs, a') \<Longrightarrow>
   \<exists>c'. run_ops cstep ops c = Some (outs, c') \<and> R c' a'"
  by (rule guarded.run_total) (simp_all add: list_all_iff)

end

end
