(* ===== verification/Container_Common.thy ===== *)
theory Container_Common
  imports Ring_Buffer
begin

text \<open>
  What the container classes of \<open>ecmascript/js_api\<close> share: the text of the errors they raise
  (\<open>ContainerError::BusinessError\<close> with a message built by \<open>std::ostringstream\<close>), the outcome of an
  operation that may raise one, and linear searches.
\<close>

section \<open>Errors\<close>

fun show_nat :: "nat \<Rightarrow> string" where
  "show_nat n = (if n < 10 then [char_of (48 + n)] else show_nat (n div 10) @ [char_of (48 + n mod 10)])"

declare show_nat.simps [simp del]

definition show_int :: "int \<Rightarrow> string" where
  "show_int i = (if i < 0 then ''-'' @ show_nat (nat (- i)) else show_nat (nat i))"

definition show_u32 :: "u32 \<Rightarrow> string" where
  "show_u32 w = show_nat (unat w)"

definition RANGE_ERROR :: int where "RANGE_ERROR = 10200001"

text \<open>The message of most range errors, with the upper bound and the received value already printed.\<close>

definition range_error :: "string \<Rightarrow> string \<Rightarrow> string \<Rightarrow> js_error" where
  "range_error name bound received =
     BusinessError RANGE_ERROR (''The value of \"'' @ name @ ''\" is out of range. It must be >= 0 && <= '' @ bound @
       ''. Received value is: '' @ received)"

section \<open>Outcomes\<close>

text \<open>
  \<open>None\<close> is undefined behaviour, an access outside of an array or an overflow of signed integers, \<open>Some (Inl e)\<close> a raised error; an operation that raises leaves
  its object as it was, so only the normal outcome carries a new state.
\<close>

type_synonym 'a outcome = "'a result option"

definition raise_error :: "js_error \<Rightarrow> 'a outcome" where
  "raise_error e = Some (Inl e)"

definition return_value :: "'a \<Rightarrow> 'a outcome" where
  "return_value x = Some (Inr x)"

lemma outcome_eq [simp]:
  "return_value x = return_value y \<longleftrightarrow> x = y" "raise_error e = raise_error e' \<longleftrightarrow> e = e'"
  "return_value x \<noteq> raise_error e" "raise_error e \<noteq> return_value x"
  "return_value x \<noteq> None" "raise_error e \<noteq> None"
  by (simp_all add: return_value_def raise_error_def)

lemma outcome_bind [simp]:
  "Option.bind (return_value x) f = f (Inr x)" "Option.bind (raise_error e) f = f (Inl e)"
  by (simp_all add: return_value_def raise_error_def)

section \<open>Searches\<close>

text \<open>
  \<open>search_up eq arr i n\<close> is the loop \<open>for (i; i < n; i++) if (eq(arr->Get(i))) return i\<close>, and
  \<open>search_down\<close> the loop from \<open>i\<close> down to 0 over an \<open>int\<close>; the result is \<open>None\<close> inside when nothing is found.
\<close>

function search_up :: "(JSTaggedValue \<Rightarrow> bool) \<Rightarrow> tagged_array \<Rightarrow> u32 \<Rightarrow> u32 \<Rightarrow> u32 option option" where
  "search_up p arr i n =
     (if i < n then do {
        v \<leftarrow> TaggedArray_Get arr i;
        if p v then Some (Some i) else search_up p arr (i + 1) n
      } else Some None)"
  by auto
termination by (relation "measure (\<lambda>(p, arr, i, n). unat n - unat i)") simp_all

declare search_up.simps [simp del]

fun search_down :: "(JSTaggedValue \<Rightarrow> bool) \<Rightarrow> tagged_array \<Rightarrow> nat \<Rightarrow> u32 option option" where
  "search_down p arr 0 = Some None"
| "search_down p arr (Suc i) = do {
     v \<leftarrow> TaggedArray_Get arr (word_of_nat i);
     if p v then Some (Some (word_of_nat i)) else search_down p arr i
   }"

text \<open>The first and the last index of a list whose element satisfies a predicate.\<close>

definition first_index :: "('a \<Rightarrow> bool) \<Rightarrow> 'a list \<Rightarrow> nat option" where
  "first_index p xs = find (\<lambda>i. p (xs ! i)) [0..<length xs]"

definition last_index :: "('a \<Rightarrow> bool) \<Rightarrow> 'a list \<Rightarrow> nat option" where
  "last_index p xs = find (\<lambda>i. p (xs ! i)) (rev [0..<length xs])"

lemma search_up_from:
  assumes "unat n \<le> length arr" "unat i \<le> unat n"
  shows "search_up p arr i n = Some (map_option word_of_nat (find (\<lambda>k. p (arr ! k)) [unat i..<unat n]))"
  using assms
proof (induction p arr i n rule: search_up.induct)
  case (1 p arr i n)
  show ?case
  proof (cases "i < n")
    case True
    have lt: "unat i < unat n" using True by (simp add: word_less_nat_alt)
    have u: "unat (i + 1) = Suc (unat i)" using True by (rule unat_Suc)
    have "[unat i..<unat n] = unat i # [Suc (unat i)..<unat n]" using lt by (rule upt_conv_Cons)
    with True lt u 1 show ?thesis by (subst search_up.simps) simp
  next
    case False
    then show ?thesis using 1 by (subst search_up.simps) (simp add: word_less_nat_alt)
  qed
qed

lemma search_up_spec:
  assumes "unat n \<le> length arr"
  shows "search_up p arr 0 n = Some (map_option word_of_nat (first_index p (take (unat n) arr)))"
proof -
  have "find (\<lambda>k. p (arr ! k)) [0..<unat n] = first_index p (take (unat n) arr)"
    using assms unfolding first_index_def by (intro find_cong) (auto simp: min_absorb2)
  then show ?thesis using search_up_from [OF assms, of 0] by simp
qed

lemma search_down_spec:
  assumes "n \<le> length arr" "fits arr"
  shows "search_down p arr n = Some (map_option word_of_nat (last_index p (take n arr)))"
proof -
  have "search_down p arr n = Some (map_option word_of_nat (find (\<lambda>k. p (arr ! k)) (rev [0..<n])))"
    using assms
  proof (induction n)
    case (Suc n)
    have "unat (word_of_nat n :: u32) = n" using Suc.prems by (simp add: unat_of_nat)
    with Suc show ?case by simp
  qed simp
  moreover have "find (\<lambda>k. p (arr ! k)) (rev [0..<n]) = last_index p (take n arr)"
    using assms unfolding last_index_def by (intro find_cong) (auto simp: min_absorb2)
  ultimately show ?thesis by simp
qed

lemma first_index_Some:
  assumes "first_index p xs = Some i"
  shows "i < length xs" "p (xs ! i)" "\<And>j. j < i \<Longrightarrow> \<not> p (xs ! j)"
proof -
  have "\<exists>k<length [0..<length xs]. p (xs ! ([0..<length xs] ! k)) \<and> i = [0..<length xs] ! k \<and>
      (\<forall>j<k. \<not> p (xs ! ([0..<length xs] ! j)))"
    using assms unfolding first_index_def find_Some_iff by simp
  then show "i < length xs" "p (xs ! i)" "\<And>j. j < i \<Longrightarrow> \<not> p (xs ! j)" by auto
qed

lemma first_index_None: "first_index p xs = None \<longleftrightarrow> (\<forall>x \<in> set xs. \<not> p x)"
  unfolding first_index_def find_None_iff using nth_mem by (fastforce simp: in_set_conv_nth)

text \<open>The loop of \<open>Has\<close> over a circular buffer.\<close>

partial_function (option) search_ring ::
    "(JSTaggedValue \<Rightarrow> bool) \<Rightarrow> tagged_array \<Rightarrow> u32 \<Rightarrow> u32 \<Rightarrow> bool option" where
  "search_ring p arr index lst =
     (if index = lst then Some False
      else do {
        v \<leftarrow> TaggedArray_Get arr index;
        if p v then Some True
        else search_ring p arr ((index + 1) mod TaggedArray_GetLength arr) lst
      })"

lemma search_ring_spec:
  assumes "unat s < length arr" "unat e < length arr" "fits arr"
  shows "search_ring p arr s e = Some (\<exists>x \<in> set (span arr (unat s) (unat e)). p x)"
  using assms
proof (induction "length (span arr (unat s) (unat e))" arbitrary: s)
  case 0
  then have "s = e" using span_Nil [of "unat s" arr "unat e"] by (simp add: word_unat_eq_iff)
  then show ?case using 0 by (subst search_ring.simps) simp
next
  case (Suc n)
  have ne: "s \<noteq> e" using Suc.hyps(2) Suc.prems span_Nil [of "unat s" arr "unat e"] by auto
  let ?s = "(s + 1) mod TaggedArray_GetLength arr"
  have u: "unat ?s = Suc (unat s) mod length arr"
    using Suc.prems by (subst unat_next) (simp_all add: word_less_nat_alt)
  have lt: "unat ?s < length arr" unfolding u using Suc.prems by (intro mod_less_divisor) linarith
  have pop: "span arr (unat s) (unat e) = arr ! unat s # span arr (unat ?s) (unat e)"
    using span_pop [of "unat s" arr "unat e"] Suc.prems ne by (simp add: u word_unat_eq_iff)
  then have "search_ring p arr ?s e = Some (\<exists>x \<in> set (span arr (unat ?s) (unat e)). p x)"
    using Suc.hyps(1) [of ?s] Suc.hyps(2) Suc.prems lt by simp
  then show ?case using ne Suc.prems pop by (subst search_ring.simps) simp
qed

section \<open>Callbacks\<close>

text \<open>
  \<open>ForEach\<close> calls a JavaScript function with each element and its index.  The function is a parameter: it
  gets what it can observe and change, the rest of the heap (\<open>'w\<close>) and the container, and returns both
  with its result or the error it raised.  The loop reads the size again after every call; it need not end
  when the callback adds elements, and then has no value.
\<close>

type_synonym ('w, 's) callback =
  "'w \<Rightarrow> 's \<Rightarrow> JSTaggedValue \<Rightarrow> u32 \<Rightarrow> ('w \<times> 's \<times> JSTaggedValue result) option"

partial_function (option) for_each ::
    "('s \<Rightarrow> u32) \<Rightarrow> ('s \<Rightarrow> u32 \<Rightarrow> JSTaggedValue outcome) \<Rightarrow> ('w, 's) callback \<Rightarrow> 'w \<Rightarrow> 's \<Rightarrow> u32 \<Rightarrow> u32 \<Rightarrow>
     ('w \<times> 's \<times> unit result) option" where
  "for_each size_of get call w s k len =
     (if k < len then do {
        r \<leftarrow> get s k;
        case r of
          Inl e \<Rightarrow> Some (w, s, Inl e)
        | Inr v \<Rightarrow> do {
            (w', s', res) \<leftarrow> call w s v k;
            case res of
              Inl e \<Rightarrow> Some (w', s', Inl e)
            | Inr funcResult \<Rightarrow> for_each size_of get call w' s' (k + 1) (size_of s')
          }
      } else Some (w, s, Inr ()))"

primrec visit :: "('w \<Rightarrow> JSTaggedValue \<Rightarrow> u32 \<Rightarrow> 'w) \<Rightarrow> 'w \<Rightarrow> JSTaggedValue list \<Rightarrow> u32 \<Rightarrow> 'w" where
  "visit f w [] k = w"
| "visit f w (v # vs) k = visit f (f w v k) vs (k + 1)"

text \<open>
  The elements replaced one after the other: the callback sees the state of the program, the contents, of which the
  first elements are replaced already, an element and its index.
\<close>

primrec replace_run :: "('w \<Rightarrow> JSTaggedValue list \<Rightarrow> JSTaggedValue \<Rightarrow> u32 \<Rightarrow> 'w \<times> JSTaggedValue) \<Rightarrow> 'w \<Rightarrow> JSTaggedValue list \<Rightarrow>
    JSTaggedValue list \<Rightarrow> 'w \<times> JSTaggedValue list" where
  "replace_run f w before [] = (w, before)"
| "replace_run f w before (v # vs) =
     (let (w', x) = f w (before @ v # vs) v (word_of_nat (length before)) in replace_run f w' (before @ [x]) vs)"

text \<open>A callback that changes the state of the program and not the container, and raises no error.\<close>

definition quiet_callback :: "('s \<Rightarrow> JSTaggedValue list) \<Rightarrow> ('w \<Rightarrow> JSTaggedValue list \<Rightarrow> JSTaggedValue \<Rightarrow> u32 \<Rightarrow> 'w \<times> JSTaggedValue) \<Rightarrow>
    'w \<Rightarrow> 's \<Rightarrow> JSTaggedValue \<Rightarrow> u32 \<Rightarrow> ('w \<times> 's \<times> JSTaggedValue result) option" where
  "quiet_callback contents f w s v k = (let (w', x) = f w (contents s) v k in Some (w', s, Inr x))"

lemma replace_run_step:
  assumes "unat k < length xs" "f w xs (xs ! unat k) k = (w', x)"
  shows "replace_run f w (take (unat k) xs) (drop (unat k) xs) =
    replace_run f w' (take (Suc (unat k)) (xs[unat k := x])) (drop (Suc (unat k)) (xs[unat k := x]))"
proof -
  have "take (unat k) xs @ xs ! unat k # drop (Suc (unat k)) xs = xs" using assms(1) by (simp add: Cons_nth_drop_Suc)
  then show ?thesis using assms
    by (subst Cons_nth_drop_Suc [OF assms(1), symmetric]) (simp add: take_Suc_conv_app_nth)
qed

section \<open>Lists in growing arrays\<close>

text \<open>
  \<open>JSAPIStack\<close>, \<open>JSAPIArrayList\<close> and \<open>JSAPIVector\<close> keep a list in the first slots of an array.  The locale
  is the contract of appending to it and reading it by position.
\<close>

locale growable_list =
  fixes inv :: "'s \<Rightarrow> bool"
    and contents :: "'s \<Rightarrow> JSTaggedValue list"
    and limit :: nat
    and add :: "'s \<Rightarrow> JSTaggedValue \<Rightarrow> 's option"
    and get :: "'s \<Rightarrow> u32 \<Rightarrow> JSTaggedValue outcome"
    and size_of :: "'s \<Rightarrow> u32"
  assumes add_law: "inv s \<Longrightarrow> length (contents s) < limit \<Longrightarrow>
      \<exists>s'. add s v = Some s' \<and> inv s' \<and> contents s' = contents s @ [v]"
    and get_law: "inv s \<Longrightarrow> unat i < length (contents s) \<Longrightarrow> get s i = return_value (contents s ! unat i)"
    and size_law: "inv s \<Longrightarrow> unat (size_of s) = length (contents s)"
begin

lemma add_all_law:
  "inv s \<Longrightarrow> length (contents s) + length vs \<le> limit \<Longrightarrow>
   \<exists>s'. push_all add s vs = Some s' \<and> inv s' \<and> contents s' = contents s @ vs"
proof (induction vs arbitrary: s)
  case (Cons v vs)
  obtain s1 where "add s v = Some s1" "inv s1" "contents s1 = contents s @ [v]"
    using add_law [of s v] Cons.prems by auto
  with Cons.IH [of s1] Cons.prems show ?case by auto
qed simp

lemma add_then_get:
  assumes "inv s" "length (contents s) + length vs \<le> limit"
  shows "\<exists>s'. push_all add s vs = Some s' \<and> inv s' \<and> contents s' = contents s @ vs \<and>
    (\<forall>i. unat i < length (contents s) + length vs \<longrightarrow> get s' i = return_value ((contents s @ vs) ! unat i))"
  using add_all_law [OF assms] get_law by fastforce

text \<open>A callback that leaves the list alone is called once per element, in order.\<close>

lemma for_each_law:
  assumes "inv s" "\<And>w v k. call w s v k = Some (f w v k, s, Inr (x w v k))" "unat k + length xs = length (contents s)"
    "drop (unat k) (contents s) = xs"
  shows "for_each size_of get call w s k (size_of s) = Some (visit f w xs k, s, Inr ())"
  using assms(3,4)
proof (induction xs arbitrary: w k)
  case Nil
  then have "\<not> k < size_of s" using size_law [OF assms(1)] by (simp add: word_less_nat_alt)
  then show ?case by (subst for_each.simps) simp
next
  case (Cons v xs)
  then have k: "unat k < length (contents s)" by simp
  then have lt: "k < size_of s" using size_law [OF assms(1)] by (simp add: word_less_nat_alt)
  have v: "contents s ! unat k = v" "drop (Suc (unat k)) (contents s) = xs"
    using Cons.prems(2) k by (simp_all add: Cons_nth_drop_Suc [symmetric])
  have "for_each size_of get call (f w v k) s (k + 1) (size_of s) = Some (visit f (f w v k) xs (k + 1), s, Inr ())"
    using Cons.prems(1) v(2) by (intro Cons.IH) (simp_all add: unat_Suc [OF lt])
  then show ?case
    using lt get_law [OF assms(1) k] assms(2) v(1) by (subst for_each.simps) (simp add: return_value_def)
qed

lemma for_each_all:
  assumes "inv s" "\<And>w v k. call w s v k = Some (f w v k, s, Inr (x w v k))"
  shows "for_each size_of get call w s 0 (size_of s) = Some (visit f w (contents s) 0, s, Inr ())"
  using assms by (intro for_each_law) simp_all

end

text \<open>Growing by half, with a lower bound, as the containers compute their new capacity.\<close>

definition grow_by_half :: "u32 \<Rightarrow> u32 \<Rightarrow> u32" where
  "grow_by_half least oldCapacity =
     (let newCapacity = oldCapacity + drop_bit 1 oldCapacity in
      if newCapacity > least then newCapacity else least)"

definition HALF_LIMIT :: nat where "HALF_LIMIT = 1431655764"

lemma grow_by_half_unat:
  assumes "unat c \<le> HALF_LIMIT"
  shows "unat (grow_by_half least c) = max (unat c + unat c div 2) (unat least)"
proof -
  have "unat c + unat c div 2 < 4294967296" using assms unfolding HALF_LIMIT_def by presburger
  then have "unat (c + drop_bit 1 c) = unat c + unat c div 2"
    by (simp add: unat_plus_if_size word_size unat_div_distrib drop_bit_eq_div)
  then show ?thesis by (auto simp: grow_by_half_def Let_def word_less_nat_alt max_def)
qed

lemma grow_by_half_more:
  assumes "unat c \<le> HALF_LIMIT" "2 \<le> unat least"
  shows "unat c < unat (grow_by_half least c)"
  using assms by (auto simp: grow_by_half_unat less_max_iff_disj)

lemma take_append_update:
  assumes "n < length arr"
  shows "take (Suc n) (arr[n := v]) = take n arr @ [v]"
  using assms by (rule update_step)

section \<open>Editing the list in the first slots of an array\<close>

text \<open>\<open>move_down c arr d s\<close>: the loop \<open>arr->Set(d + i, arr->Get(s + i))\<close> for \<open>i\<close> below \<open>c\<close> inside of one array.\<close>

fun move_down :: "nat \<Rightarrow> tagged_array \<Rightarrow> u32 \<Rightarrow> u32 \<Rightarrow> tagged_array option" where
  "move_down 0 arr d s = Some arr"
| "move_down (Suc c) arr d s = do {
     v \<leftarrow> TaggedArray_Get arr s;
     arr' \<leftarrow> TaggedArray_Set arr d v;
     move_down c arr' (d + 1) (s + 1)
   }"

lemma move_down_spec:
  assumes "unat d \<le> unat s" "unat s + c \<le> length arr" "fits arr"
  shows "move_down c arr d s =
    Some (take (unat d) arr @ take c (drop (unat s) arr) @ drop (unat d + c) arr)"
  using assms
proof (induction c arbitrary: arr d s)
  case (Suc c)
  have u: "unat (d + 1) = Suc (unat d)" "unat (s + 1) = Suc (unat s)"
    using Suc.prems by (auto intro!: unat_inc)
  have "take (Suc c) (drop (unat s) arr) = arr ! unat s # take c (drop (Suc (unat s)) arr)"
    using Suc.prems by (simp add: Cons_nth_drop_Suc [symmetric])
  then show ?case
    using Suc.prems Suc.IH [of "d + 1" "s + 1" "arr[unat d := arr ! unat s]"] by (simp add: u update_step)
qed simp

lemma nat_minus: "nat (int a - int b) = a - b"
  by simp

text \<open>Filling past the end of an array is caught.\<close>

lemma fill_up_outside:
  assumes "length arr < unat d + c" "unat d \<le> length arr" "fits arr"
  shows "fill_up c arr d v = None"
  using assms
proof (induction c arbitrary: arr d)
  case (Suc c)
  show ?case
  proof (cases "unat d < length arr")
    case True
    then have "unat (d + 1) = Suc (unat d)" using Suc.prems by (intro unat_inc) simp
    then show ?thesis using True Suc.prems Suc.IH [of "arr[unat d := v]" "d + 1"] by simp
  qed simp
qed simp

text \<open>\<open>move_up c arr i\<close>: the loop \<open>for (i; ...; --i) arr->Set(i + 1, arr->Get(i))\<close>, run \<open>c\<close> times.\<close>

fun move_up :: "nat \<Rightarrow> tagged_array \<Rightarrow> u32 \<Rightarrow> tagged_array option" where
  "move_up 0 arr i = Some arr"
| "move_up (Suc c) arr i = do {
     v \<leftarrow> TaggedArray_Get arr i;
     arr' \<leftarrow> TaggedArray_Set arr (i + 1) v;
     move_up c arr' (i - 1)
   }"

lemma move_up_shift_up:
  assumes "unat index \<le> unat n"
  shows "move_up (unat n - unat index) arr (n - 1) = shift_up arr index n"
  using assms
proof (induction arr index n rule: shift_up.induct)
  case (1 arr index n)
  show ?case
  proof (cases "n = index")
    case False
    then have "unat n \<noteq> unat index" by (simp add: word_unat_eq_iff)
    then have c: "n \<noteq> index \<and> n > 0" and lt: "unat index < unat n"
      using "1.prems" by (auto simp: word_less_nat_alt)
    then have "unat n - unat index = Suc (unat (n - 1) - unat index)" "unat index \<le> unat (n - 1)"
      by (simp_all add: unat_pred)
    then show ?thesis using c "1.IH" [OF c] by (subst shift_up.simps) (simp split: bind_splits)
  qed (simp add: shift_up.simps)
qed

text \<open>
  \<open>holds arr n xs\<close>: the first \<open>n\<close> slots of \<open>arr\<close> hold the list \<open>xs\<close>.  The lemmas below say what the array
  operations do to the list; \<open>n\<close> is a length kept in a tagged integer, so the array has fewer than
  \<open>2 ^ 31\<close> slots.
\<close>

definition holds :: "tagged_array \<Rightarrow> u32 \<Rightarrow> JSTaggedValue list \<Rightarrow> bool" where
  "holds arr n xs \<longleftrightarrow> unat n = length xs \<and> (\<exists>rest. arr = xs @ rest) \<and> length arr < 2147483648"

lemma holds_take: "unat n \<le> length arr \<Longrightarrow> length arr < 2147483648 \<Longrightarrow> holds arr n (take (unat n) arr)"
  unfolding holds_def by (auto intro: exI [of _ "drop (unat n) arr"])

lemma holds_unique: "holds arr n xs \<Longrightarrow> take (unat n) arr = xs"
  by (auto simp: holds_def)

lemma holds_trim: "holds arr n xs \<Longrightarrow> holds (take (unat n) arr) n xs"
  by (auto simp: holds_def)

lemma holds_length:
  assumes "holds arr n xs"
  shows "unat n = length xs" "length xs \<le> length arr" "length arr < 2147483648" "fits arr" "length xs < 2147483648"
    "sint n = int (length xs)"
  using assms sint_length [of n "length xs"] by (auto simp: holds_def)

lemma holds_get: "holds arr n xs \<Longrightarrow> unat i < length xs \<Longrightarrow> TaggedArray_Get arr i = Some (xs ! unat i)"
  by (auto simp: holds_def nth_append)

lemma holds_set:
  assumes "holds arr n xs" "unat i < length xs"
  shows "TaggedArray_Set arr i v = Some (arr[unat i := v])" "holds (arr[unat i := v]) n (xs[unat i := v])"
  using assms by (auto simp: holds_def list_update_append)

lemma holds_append:
  assumes "holds arr n xs" "length xs < length arr"
  shows "TaggedArray_Set arr n v = Some (arr[unat n := v])" "holds (arr[unat n := v]) (n + 1) (xs @ [v])"
proof -
  obtain z zs where arr: "arr = xs @ z # zs" using assms by (auto simp: holds_def neq_Nil_conv)
  have "unat (n + 1) = Suc (length xs)" using holds_length [OF assms(1)] by (subst unat_inc) simp_all
  with assms arr show "TaggedArray_Set arr n v = Some (arr[unat n := v])" "holds (arr[unat n := v]) (n + 1) (xs @ [v])"
    by (auto simp: holds_def list_update_append)
qed

lemma holds_insert:
  assumes "holds arr n xs" "length xs < length arr" "unat i \<le> length xs"
  shows "\<exists>arr'. InsertElementByIndex arr v i n = Some arr' \<and> length arr' = length arr \<and>
    holds arr' (n + 1) (take (unat i) xs @ v # drop (unat i) xs)"
proof -
  obtain z zs where arr: "arr = xs @ z # zs" using assms by (auto simp: holds_def neq_Nil_conv)
  have n: "unat n = length xs" using assms(1) by (rule holds_length)
  have "unat (n + 1) = Suc (length xs)" using holds_length [OF assms(1)] by (subst unat_inc) simp_all
  then show ?thesis
    using assms arr n holds_length [OF assms(1)] by (auto simp: InsertElementByIndex_spec holds_def)
qed

lemma holds_remove:
  assumes "holds arr n xs" "unat i < length xs"
  shows "\<exists>arr'. RemoveElementByIndex arr i n = Some arr' \<and> length arr' = length arr \<and>
    holds arr' (n - 1) (take (unat i) xs @ drop (Suc (unat i)) xs)"
proof -
  obtain rest where arr: "arr = xs @ rest" using assms by (auto simp: holds_def)
  have n: "unat n = length xs" using assms(1) by (rule holds_length)
  have "unat (n - 1) = length xs - 1" using n assms(2) by (subst unat_pred) (auto simp: word_less_nat_alt)
  then show ?thesis
    using assms arr n holds_length [OF assms(1)] by (auto simp: RemoveElementByIndex_spec holds_def)
qed

lemma holds_cut:
  assumes "holds arr n xs" "a \<le> b" "b \<le> length xs" "unat d = a" "unat s = b" "unat m = length xs - (b - a)"
  shows "\<exists>arr'. move_down (length xs - b) arr d s = Some arr' \<and> length arr' = length arr \<and>
    holds arr' m (take a xs @ drop b xs)"
proof -
  obtain rest where arr: "arr = xs @ rest" using assms by (auto simp: holds_def)
  show ?thesis
    using assms arr holds_length [OF assms(1)] by (auto simp: move_down_spec holds_def)
qed

lemma holds_grow:
  assumes "holds arr n xs" "length arr < unat c" "unat c < 2147483648"
  shows "\<exists>arr'. CopyArray arr (TaggedArray_GetLength arr) c = Some arr' \<and> length arr' = unat c \<and> holds arr' n xs"
  using assms holds_length [OF assms(1)] by (auto simp: CopyArray_grow word_less_nat_alt holds_def)

lemma holds_copy:
  assumes "holds arr n xs" "length xs \<le> unat c" "unat c < 2147483648"
  shows "\<exists>arr'. NewAndCopyTaggedArray arr c n 0 = Some arr' \<and> length arr' = unat c \<and> holds arr' n xs"
  using assms holds_length [OF assms(1)] by (auto simp: NewAndCopyTaggedArray_spec holds_def)

lemma holds_extend: "holds arr n xs \<Longrightarrow> length (arr @ zs) < 2147483648 \<Longrightarrow> holds (arr @ zs) n xs"
  by (auto simp: holds_def)

lemma holds_fill:
  assumes "holds arr n xs" "c + unat n \<le> length arr"
  shows "\<exists>arr'. fill_up c arr n v = Some arr' \<and> length arr' = length arr \<and> holds arr' n xs"
  using assms holds_length [OF assms(1)] by (auto simp: fill_up_spec holds_def)

lemma holds_search_up:
  assumes "holds arr n xs"
  shows "search_up p arr 0 n = Some (map_option word_of_nat (first_index p xs))"
  using holds_unique [OF assms] holds_length [OF assms] by (simp add: search_up_spec)

lemma holds_search_down:
  assumes "holds arr n xs"
  shows "search_down p arr (unat n) = Some (map_option word_of_nat (last_index p xs))"
  using holds_unique [OF assms] holds_length [OF assms] by (simp add: search_down_spec)

end
