(* ===== verification/Container_Deque.thy ===== *)
theory Container_Deque
  imports Container_Common
begin

text \<open>
  \<open>JSAPIDeque\<close> (\<open>ecmascript/js_api/js_api_deque.cpp\<close> and \<open>.h\<close>): a double-ended queue in a circular array
  that doubles when it is full.  The property interface (\<open>GetProperty\<close>, \<open>SetProperty\<close>) is included; the
  key lists of \<open>OwnKeys\<close> come from \<open>JSObject\<close> and are a parameter, the rebuilding of the buffer they do
  first is modelled.
\<close>

section \<open>Definitions\<close>

record deque =
  deque_elements :: tagged_array
  deque_first :: u32
  deque_last :: u32

definition DEQUE_DEFAULT_CAPACITY :: u32 where "DEQUE_DEFAULT_CAPACITY = 8"

definition IS_NULL_ERROR :: int where "IS_NULL_ERROR = 10200012"

definition DequeConstructor :: "bool \<Rightarrow> deque outcome" where
  "DequeConstructor newTargetUndefined =
     (if newTargetUndefined
      then raise_error (BusinessError IS_NULL_ERROR ''The Deque's constructor cannot be directly invoked'')
      else return_value \<lparr>deque_elements = NewTaggedArray DEQUE_DEFAULT_CAPACITY VHole, deque_first = 0, deque_last = 0\<rparr>)"

definition Deque_ComputeCapacity :: "u32 \<Rightarrow> u32" where
  "Deque_ComputeCapacity oldCapacity =
     (let newCapacity = push_bit 1 oldCapacity in
      if newCapacity > DEQUE_DEFAULT_CAPACITY then newCapacity else DEQUE_DEFAULT_CAPACITY)"

definition Deque_IsEmpty :: "deque \<Rightarrow> bool" where
  "Deque_IsEmpty d \<longleftrightarrow> deque_first d = deque_last d"

definition Deque_GetSize :: "deque \<Rightarrow> u32" where
  "Deque_GetSize d =
     (let capacity = TaggedArray_GetLength (deque_elements d) in
      (deque_last d - deque_first d + capacity) mod capacity)"

definition Deque_GrowCapacity :: "deque \<Rightarrow> u32 \<Rightarrow> u32 \<Rightarrow> u32 \<Rightarrow> deque option" where
  "Deque_GrowCapacity d oldCapacity front lst = do {
     let newCapacity = Deque_ComputeCapacity oldCapacity;
     newElements \<leftarrow> CopyDeque (deque_elements d) newCapacity front lst;
     Some (d\<lparr>deque_elements := newElements\<rparr>)
   }"

definition Deque_InsertFront :: "deque \<Rightarrow> JSTaggedValue \<Rightarrow> deque option" where
  "Deque_InsertFront d v = do {
     let capacity = TaggedArray_GetLength (deque_elements d);
     let front = deque_first d;
     let lst = deque_last d;
     (d, front) \<leftarrow>
       (if (front + capacity - 1) mod capacity = lst then do {
          d' \<leftarrow> Deque_GrowCapacity d capacity front lst;
          Some (d'\<lparr>deque_last := capacity - 1\<rparr>, 0)
        } else Some (d, front));
     let capacity = TaggedArray_GetLength (deque_elements d);
     let front = (front + capacity - 1) mod capacity;
     els \<leftarrow> TaggedArray_Set (deque_elements d) front v;
     Some (d\<lparr>deque_elements := els, deque_first := front\<rparr>)
   }"

definition Deque_InsertEnd :: "deque \<Rightarrow> JSTaggedValue \<Rightarrow> deque option" where
  "Deque_InsertEnd d v = do {
     let capacity = TaggedArray_GetLength (deque_elements d);
     let front = deque_first d;
     let lst = deque_last d;
     (d, lst) \<leftarrow>
       (if front = (lst + 1) mod capacity then do {
          d' \<leftarrow> Deque_GrowCapacity d capacity front lst;
          Some (d'\<lparr>deque_first := 0\<rparr>, capacity - 1)
        } else Some (d, lst));
     els \<leftarrow> TaggedArray_Set (deque_elements d) lst v;
     let capacity = TaggedArray_GetLength els;
     Some (d\<lparr>deque_elements := els, deque_last := (lst + 1) mod capacity\<rparr>)
   }"

definition Deque_GetFront :: "deque \<Rightarrow> JSTaggedValue option" where
  "Deque_GetFront d =
     (if Deque_IsEmpty d then Some VUndefined else TaggedArray_Get (deque_elements d) (deque_first d))"

definition Deque_GetTail :: "deque \<Rightarrow> JSTaggedValue option" where
  "Deque_GetTail d =
     (if Deque_IsEmpty d then Some VUndefined
      else let capacity = TaggedArray_GetLength (deque_elements d) in
           TaggedArray_Get (deque_elements d) ((deque_last d + capacity - 1) mod capacity))"

definition Deque_PopFirst :: "deque \<Rightarrow> (JSTaggedValue \<times> deque) option" where
  "Deque_PopFirst d =
     (if Deque_IsEmpty d then Some (VUndefined, d)
      else do {
        let capacity = TaggedArray_GetLength (deque_elements d);
        firstElement \<leftarrow> TaggedArray_Get (deque_elements d) (deque_first d);
        Some (firstElement, d\<lparr>deque_first := (deque_first d + 1) mod capacity\<rparr>)
      })"

definition Deque_PopLast :: "deque \<Rightarrow> (JSTaggedValue \<times> deque) option" where
  "Deque_PopLast d =
     (if Deque_IsEmpty d then Some (VUndefined, d)
      else do {
        let capacity = TaggedArray_GetLength (deque_elements d);
        let lst = (deque_last d + capacity - 1) mod capacity;
        lastElement \<leftarrow> TaggedArray_Get (deque_elements d) lst;
        Some (lastElement, d\<lparr>deque_last := lst\<rparr>)
      })"

definition Deque_Get :: "deque \<Rightarrow> u32 \<Rightarrow> JSTaggedValue option" where
  "Deque_Get d index =
     (let capacity = TaggedArray_GetLength (deque_elements d) in
      TaggedArray_Get (deque_elements d) ((deque_first d + index) mod capacity))"

definition Deque_Set :: "deque \<Rightarrow> u32 \<Rightarrow> JSTaggedValue \<Rightarrow> deque option" where
  "Deque_Set d index v = do {
     let capacity = TaggedArray_GetLength (deque_elements d);
     els \<leftarrow> TaggedArray_Set (deque_elements d) ((deque_first d + index) mod capacity) v;
     Some (d\<lparr>deque_elements := els\<rparr>)
   }"

definition Deque_Has :: "deque \<Rightarrow> JSTaggedValue \<Rightarrow> bool option" where
  "Deque_Has d v =
     search_ring (\<lambda>x. JSTaggedValue_SameValue x v) (deque_elements d) (deque_first d) (deque_last d)"

definition Deque_OwnKeys :: "(deque \<Rightarrow> 'k) \<Rightarrow> deque \<Rightarrow> ('k \<times> deque) option" where
  "Deque_OwnKeys ownPropertyKeys d = do {
     let len = Deque_GetSize d;
     let oldCapacity = TaggedArray_GetLength (deque_elements d);
     let newCapacity = Deque_ComputeCapacity oldCapacity;
     newElements \<leftarrow> CopyDeque (deque_elements d) newCapacity (deque_first d) (deque_last d);
     let d' = \<lparr>deque_elements = newElements, deque_first = 0, deque_last = len\<rparr>;
     Some (ownPropertyKeys d', d')
   }"

definition Deque_GetProperty :: "deque \<Rightarrow> u32 \<Rightarrow> JSTaggedValue outcome" where
  "Deque_GetProperty d key =
     (let len = sint (Deque_GetSize d); index = sint key in
      if index < 0 \<or> index \<ge> len
      then raise_error (range_error ''index'' (show_int (len - 1)) (show_int index))
      else do { v \<leftarrow> Deque_Get d key; return_value v })"

definition Deque_SetProperty :: "deque \<Rightarrow> u32 \<Rightarrow> JSTaggedValue \<Rightarrow> (bool \<times> deque) option" where
  "Deque_SetProperty d key v =
     (let len = sint (Deque_GetSize d); index = sint key in
      if index < 0 \<or> index \<ge> len then Some (False, d)
      else do { d' \<leftarrow> Deque_Set d key v; Some (True, d') })"

section \<open>The deque as a list\<close>

definition deque_list :: "deque \<Rightarrow> JSTaggedValue list" where
  "deque_list d = span (deque_elements d) (unat (deque_first d)) (unat (deque_last d))"

definition deque_inv :: "deque \<Rightarrow> bool" where
  "deque_inv d \<longleftrightarrow> length (deque_elements d) \<le> 2147483648 \<and>
     unat (deque_first d) < length (deque_elements d) \<and> unat (deque_last d) < length (deque_elements d)"

definition DEQUE_LIMIT :: nat where "DEQUE_LIMIT = 1073741824"

lemma deque_inv_facts:
  assumes "deque_inv d"
  defines "c \<equiv> TaggedArray_GetLength (deque_elements d)"
  shows "unat c = length (deque_elements d)" "deque_first d < c" "deque_last d < c" "unat c \<le> 2147483648"
    "0 < length (deque_elements d)"
  using assms by (auto simp: deque_inv_def word_less_nat_alt)

lemma Deque_IsEmpty_spec: "deque_inv d \<Longrightarrow> Deque_IsEmpty d \<longleftrightarrow> deque_list d = []"
  by (simp add: Deque_IsEmpty_def deque_list_def deque_inv_def span_Nil word_unat_eq_iff)

lemma Deque_GetSize_spec: "deque_inv d \<Longrightarrow> unat (Deque_GetSize d) = length (deque_list d)"
  using deque_inv_facts [of d]
  by (simp add: Deque_GetSize_def Let_def unat_distance deque_list_def span_def)

lemma Deque_ComputeCapacity_unat:
  assumes "unat c \<le> DEQUE_LIMIT"
  shows "unat (Deque_ComputeCapacity c) = max (2 * unat c) 8"
proof -
  have "unat (push_bit 1 c) = 2 * unat c"
    using assms by (simp add: push_bit_eq_mult DEQUE_LIMIT_def unat_word_ariths)
  then show ?thesis
    by (auto simp: Deque_ComputeCapacity_def Let_def DEQUE_DEFAULT_CAPACITY_def word_less_nat_alt max_def)
qed

lemma CopyDeque_spec:
  assumes "deque_inv d" "length (deque_list d) \<le> unat n"
  shows "CopyDeque (deque_elements d) n (deque_first d) (deque_last d) =
    Some (deque_list d @ replicate (unat n - length (deque_list d)) VHole)"
  using assms word32_bound [of n] unfolding CopyDeque_def deque_inv_def deque_list_def
  by (subst copy_ring_span) (auto simp: NewTaggedArray_def)

text \<open>A full buffer is copied to the front of one twice as large.\<close>

lemma Deque_GrowCapacity_spec:
  assumes "deque_inv d" "length (deque_elements d) \<le> DEQUE_LIMIT"
  defines "c \<equiv> TaggedArray_GetLength (deque_elements d)"
  shows "Deque_GrowCapacity d c (deque_first d) (deque_last d) =
    Some (d\<lparr>deque_elements := deque_list d @ replicate (max (2 * unat c) 8 - length (deque_list d)) VHole\<rparr>)"
proof -
  have c: "unat c = length (deque_elements d)" using deque_inv_facts [OF assms(1)] by (simp add: c_def)
  have "length (deque_list d) < length (deque_elements d)"
    unfolding deque_list_def using assms(1) by (intro span_size(1)) (simp_all add: deque_inv_def)
  then show ?thesis
    using Deque_ComputeCapacity_unat [of c] assms(2) c CopyDeque_spec [OF assms(1), of "Deque_ComputeCapacity c"]
    by (simp add: Deque_GrowCapacity_def Let_def)
qed

text \<open>Making room: the deque that the insertions write into, in place or after growing.\<close>

lemma deque_grown:
  assumes "deque_inv d" "Suc (length (deque_list d)) = length (deque_elements d)" "length (deque_list d) < DEQUE_LIMIT"
  defines "c \<equiv> TaggedArray_GetLength (deque_elements d)"
  shows "\<exists>els. Deque_GrowCapacity d c (deque_first d) (deque_last d) = Some (d\<lparr>deque_elements := els\<rparr>) \<and>
    unat c < length els \<and> length els \<le> 2147483648 \<and> unat (c - 1) = length (deque_list d) \<and>
    span els 0 (unat (c - 1)) = deque_list d"
proof -
  let ?xs = "deque_list d" and ?n = "max (2 * unat c) 8"
  have c: "unat c = length (deque_elements d)" "0 < c"
    using deque_inv_facts [OF assms(1)] by (simp_all add: c_def word_less_nat_alt)
  let ?els = "?xs @ replicate (?n - length ?xs) VHole"
  have "span ?els 0 (length ?xs) = ?xs"
    using extended_span [of ?xs ?n VHole] assms(2) c by simp
  moreover have "Deque_GrowCapacity d c (deque_first d) (deque_last d) = Some (d\<lparr>deque_elements := ?els\<rparr>)"
    unfolding c_def using assms(2,3) by (intro Deque_GrowCapacity_spec assms(1)) simp
  moreover have "unat (c - 1) = length ?xs" using c assms(2) by (simp add: unat_pred)
  moreover have "unat c < length ?els" "length ?els \<le> 2147483648"
    using assms(2,3) c by (auto simp: DEQUE_LIMIT_def)
  ultimately show ?thesis by (intro exI [of _ ?els]) simp
qed

lemma Deque_InsertEnd_spec:
  assumes "deque_inv d" "length (deque_list d) < DEQUE_LIMIT"
  shows "\<exists>d'. Deque_InsertEnd d v = Some d' \<and> deque_inv d' \<and> deque_list d' = deque_list d @ [v]"
proof -
  define c where "c = TaggedArray_GetLength (deque_elements d)"
  note f = deque_inv_facts [OF assms(1), folded c_def]
  have full: "deque_first d = (deque_last d + 1) mod c \<longleftrightarrow>
      Suc (unat (deque_last d)) mod length (deque_elements d) = unat (deque_first d)"
    using unat_next [OF f(3)] f(1) by (auto simp: word_unat_eq_iff)
  have lt: "unat (deque_first d) < length (deque_elements d)" "unat (deque_last d) < length (deque_elements d)"
    using assms(1) by (simp_all add: deque_inv_def)
  show ?thesis
  proof (cases "deque_first d = (deque_last d + 1) mod c")
    case True
    have "Suc (length (deque_list d)) = length (deque_elements d)"
      unfolding deque_list_def using full True lt by (intro span_full) auto
    then obtain els where els: "Deque_GrowCapacity d c (deque_first d) (deque_last d) = Some (d\<lparr>deque_elements := els\<rparr>)"
        "unat c < length els" "length els \<le> 2147483648" "unat (c - 1) = length (deque_list d)"
        "span els 0 (unat (c - 1)) = deque_list d"
      using deque_grown [OF assms(1) _ assms(2)] by (auto simp: c_def)
    have c1: "unat (c - 1) < length els" "c - 1 < TaggedArray_GetLength els"
      "Suc (unat (c - 1)) mod length els \<noteq> 0"
      using els f by (auto simp: word_less_nat_alt unat_pred)
    have "span (els[unat (c - 1) := v]) 0 (Suc (unat (c - 1)) mod length els) = deque_list d @ [v]"
      using span_push [of 0 els "unat (c - 1)" v] c1 els(5) by (simp del: length_greater_0_conv)
    moreover have l: "unat ((c - 1 + 1) mod TaggedArray_GetLength els) = Suc (unat (c - 1)) mod length els"
      using unat_next [OF c1(2)] els(3) by simp
    moreover have "Suc (unat (c - 1)) mod length els < length els" using c1(1) by (intro mod_less_divisor) linarith
    moreover have "Deque_InsertEnd d v = Some (d\<lparr>deque_first := 0, deque_elements := els[unat (c - 1) := v],
        deque_last := (c - 1 + 1) mod TaggedArray_GetLength els\<rparr>)"
      using True els(1) c1(1) by (simp add: Deque_InsertEnd_def c_def [symmetric] Let_def)
    ultimately show ?thesis using els(3) c1(1) by (auto simp: deque_inv_def deque_list_def)
  next
    case False
    have "span ((deque_elements d)[unat (deque_last d) := v]) (unat (deque_first d))
        (Suc (unat (deque_last d)) mod length (deque_elements d)) = deque_list d @ [v]"
      unfolding deque_list_def using full False lt by (intro span_push) auto
    moreover have "Suc (unat (deque_last d)) mod length (deque_elements d) < length (deque_elements d)"
      using f(5) by simp
    moreover have "Deque_InsertEnd d v = Some (d\<lparr>deque_elements := (deque_elements d)[unat (deque_last d) := v],
        deque_last := (deque_last d + 1) mod c\<rparr>)"
      using False lt by (simp add: Deque_InsertEnd_def c_def [symmetric] Let_def)
    ultimately show ?thesis
      using lt unat_next [OF f(3)] f(1) assms(1) by (simp add: deque_inv_def deque_list_def)
  qed
qed

lemma prev_full:
  fixes s e c :: nat
  assumes "s < c" "e < c"
  shows "(s + c - 1) mod c = e \<longleftrightarrow> Suc e mod c = s"
  using assms by (cases s; cases "Suc e = c") (auto simp: mod_if)

lemma Deque_InsertFront_spec:
  assumes "deque_inv d" "length (deque_list d) < DEQUE_LIMIT"
  shows "\<exists>d'. Deque_InsertFront d v = Some d' \<and> deque_inv d' \<and> deque_list d' = v # deque_list d"
proof -
  define c where "c = TaggedArray_GetLength (deque_elements d)"
  note f = deque_inv_facts [OF assms(1), folded c_def]
  have lt: "unat (deque_first d) < length (deque_elements d)" "unat (deque_last d) < length (deque_elements d)"
    using assms(1) by (simp_all add: deque_inv_def)
  have prev: "unat ((deque_first d + c - 1) mod c) =
      (unat (deque_first d) + length (deque_elements d) - 1) mod length (deque_elements d)"
    using unat_prev [OF f(2,4)] f(1) by simp
  have full: "(deque_first d + c - 1) mod c = deque_last d \<longleftrightarrow>
      Suc (unat (deque_last d)) mod length (deque_elements d) = unat (deque_first d)"
    using prev_full [OF lt] prev by (simp add: word_unat_eq_iff)
  show ?thesis
  proof (cases "(deque_first d + c - 1) mod c = deque_last d")
    case True
    have "Suc (length (deque_list d)) = length (deque_elements d)"
      unfolding deque_list_def using full True lt by (intro span_full) auto
    then obtain els where els: "Deque_GrowCapacity d c (deque_first d) (deque_last d) = Some (d\<lparr>deque_elements := els\<rparr>)"
        "unat c < length els" "length els \<le> 2147483648" "unat (c - 1) = length (deque_list d)"
        "span els 0 (unat (c - 1)) = deque_list d"
      using deque_grown [OF assms(1) _ assms(2)] by (auto simp: c_def)
    let ?C = "TaggedArray_GetLength els"
    have C: "unat ?C = length els" "0 < ?C" using els by (simp_all add: word_less_nat_alt del: length_greater_0_conv)
    then have p: "unat ((0 + ?C - 1) mod ?C) = (0 + length els - 1) mod length els"
      using unat_prev [of 0 ?C] els(3) by simp
    have c1: "unat (c - 1) < length els" "(0 + length els - 1) mod length els \<noteq> unat (c - 1)"
      "(0 + length els - 1) mod length els < length els"
      using els f by (auto simp: word_less_nat_alt unat_pred)
    have "span (els[(0 + length els - 1) mod length els := v]) ((0 + length els - 1) mod length els) (unat (c - 1))
        = v # deque_list d"
      using span_push_front [of 0 els "unat (c - 1)" v] c1 els(5) by (simp del: length_greater_0_conv)
    moreover have "Deque_InsertFront d v = Some (d\<lparr>deque_last := c - 1,
        deque_elements := els[unat ((0 + ?C - 1) mod ?C) := v], deque_first := (0 + ?C - 1) mod ?C\<rparr>)"
      using True els(1) c1(3) p by (simp add: Deque_InsertFront_def c_def [symmetric] Let_def)
    ultimately show ?thesis using els(3) c1 p by (simp add: deque_inv_def deque_list_def)
  next
    case False
    let ?f = "(deque_first d + c - 1) mod c"
    have "unat ?f < length (deque_elements d)" unfolding prev using f(5) by (intro mod_less_divisor)
    moreover have "span ((deque_elements d)[unat ?f := v]) (unat ?f) (unat (deque_last d)) = v # deque_list d"
      unfolding deque_list_def prev using full False lt prev_full [OF lt] by (intro span_push_front) auto
    moreover have "Deque_InsertFront d v =
        Some (d\<lparr>deque_elements := (deque_elements d)[unat ?f := v], deque_first := ?f\<rparr>)"
      using False calculation(1) by (simp add: Deque_InsertFront_def c_def [symmetric] Let_def)
    ultimately show ?thesis using assms(1) by (simp add: deque_inv_def deque_list_def)
  qed
qed

lemma Deque_PopFirst_spec:
  assumes "deque_inv d" "deque_list d = v # vs"
  shows "\<exists>d'. Deque_PopFirst d = Some (v, d') \<and> deque_inv d' \<and> deque_list d' = vs"
proof -
  note f = deque_inv_facts [OF assms(1)]
  have lt: "unat (deque_first d) < length (deque_elements d)" "unat (deque_last d) < length (deque_elements d)"
    using assms(1) by (simp_all add: deque_inv_def)
  have ne: "deque_first d \<noteq> deque_last d" using Deque_IsEmpty_spec [OF assms(1)] assms(2) by (simp add: Deque_IsEmpty_def)
  have u: "unat ((deque_first d + 1) mod TaggedArray_GetLength (deque_elements d)) =
      Suc (unat (deque_first d)) mod length (deque_elements d)"
    using unat_next [OF f(2)] f(1) by simp
  have "Suc (unat (deque_first d)) mod length (deque_elements d) < length (deque_elements d)" using f(5) by simp
  moreover have "v = deque_elements d ! unat (deque_first d)"
    "vs = span (deque_elements d) (Suc (unat (deque_first d)) mod length (deque_elements d)) (unat (deque_last d))"
    using span_pop [OF lt] ne assms(2) by (simp_all add: deque_list_def word_unat_eq_iff)
  ultimately show ?thesis
    using ne lt assms(1) by (simp add: Deque_PopFirst_def Deque_IsEmpty_def Let_def deque_inv_def deque_list_def u)
qed

lemma Deque_PopLast_spec:
  assumes "deque_inv d" "deque_list d = vs @ [v]"
  shows "\<exists>d'. Deque_PopLast d = Some (v, d') \<and> deque_inv d' \<and> deque_list d' = vs"
proof -
  note f = deque_inv_facts [OF assms(1)]
  have lt: "unat (deque_first d) < length (deque_elements d)" "unat (deque_last d) < length (deque_elements d)"
    using assms(1) by (simp_all add: deque_inv_def)
  have ne: "deque_first d \<noteq> deque_last d" using Deque_IsEmpty_spec [OF assms(1)] assms(2) by (simp add: Deque_IsEmpty_def)
  let ?e = "(unat (deque_last d) + length (deque_elements d) - 1) mod length (deque_elements d)"
  have u: "unat ((deque_last d + TaggedArray_GetLength (deque_elements d) - 1) mod
      TaggedArray_GetLength (deque_elements d)) = ?e"
    using unat_prev [OF f(3,4)] f(1) by simp
  have "?e < length (deque_elements d)" using f(5) by (intro mod_less_divisor)
  moreover have "v = deque_elements d ! ?e" "vs = span (deque_elements d) (unat (deque_first d)) ?e"
    using span_pop_back [OF lt] ne assms(2) by (simp_all add: deque_list_def word_unat_eq_iff)
  ultimately show ?thesis
    using ne lt assms(1) by (simp add: Deque_PopLast_def Deque_IsEmpty_def Let_def deque_inv_def deque_list_def u)
qed

interpretation deque: double_ended_queue deque_inv deque_list DEQUE_LIMIT
    Deque_InsertEnd Deque_PopFirst Deque_InsertFront Deque_PopLast
  by unfold_locales
    (fact Deque_InsertEnd_spec, fact Deque_PopFirst_spec, fact Deque_InsertFront_spec, fact Deque_PopLast_spec)

text \<open>Reading and writing by position.\<close>

lemma Deque_GetFront_spec:
  "deque_inv d \<Longrightarrow> Deque_GetFront d = Some (case deque_list d of [] \<Rightarrow> VUndefined | v # _ \<Rightarrow> v)"
  using Deque_PopFirst_spec [of d] Deque_IsEmpty_spec [of d]
  by (cases "deque_list d") (auto simp: Deque_GetFront_def Deque_PopFirst_def Let_def bind_eq_Some_conv)

lemma Deque_GetTail_spec:
  assumes "deque_inv d"
  shows "Deque_GetTail d = Some (if deque_list d = [] then VUndefined else last (deque_list d))"
proof (cases "deque_list d" rule: rev_cases)
  case (snoc vs v)
  then show ?thesis
    using Deque_PopLast_spec [OF assms snoc] Deque_IsEmpty_spec [OF assms]
    by (auto simp: Deque_GetTail_def Deque_PopLast_def Let_def bind_eq_Some_conv)
qed (use Deque_IsEmpty_spec [OF assms] in \<open>simp add: Deque_GetTail_def\<close>)

lemma deque_index:
  assumes "deque_inv d" "unat index < length (deque_list d)"
  shows "unat ((deque_first d + index) mod TaggedArray_GetLength (deque_elements d)) =
      (unat (deque_first d) + unat index) mod length (deque_elements d)"
    and "(unat (deque_first d) + unat index) mod length (deque_elements d) < length (deque_elements d)"
proof -
  note f = deque_inv_facts [OF assms(1)]
  have "length (deque_list d) < length (deque_elements d)"
    unfolding deque_list_def using assms(1) by (intro span_size(1)) (simp_all add: deque_inv_def)
  then have "index < TaggedArray_GetLength (deque_elements d)" using assms(2) f(1) by (simp add: word_less_nat_alt)
  then show "unat ((deque_first d + index) mod TaggedArray_GetLength (deque_elements d)) =
      (unat (deque_first d) + unat index) mod length (deque_elements d)"
    using unat_offset [OF f(2) _ f(4)] f(1) by simp
  show "(unat (deque_first d) + unat index) mod length (deque_elements d) < length (deque_elements d)"
    using f(5) by (intro mod_less_divisor)
qed

lemma Deque_Get_spec:
  assumes "deque_inv d" "unat index < length (deque_list d)"
  shows "Deque_Get d index = Some (deque_list d ! unat index)"
  using deque_index [OF assms] assms(2)
  by (simp add: Deque_Get_def Let_def deque_list_def span_nth)

lemma Deque_Set_spec:
  assumes "deque_inv d" "unat index < length (deque_list d)"
  shows "\<exists>d'. Deque_Set d index v = Some d' \<and> deque_inv d' \<and> deque_list d' = (deque_list d)[unat index := v]"
  using deque_index [OF assms] assms
  by (simp add: Deque_Set_def Let_def deque_list_def deque_inv_def span_update_nth)

lemma Deque_Has_spec:
  "deque_inv d \<Longrightarrow> Deque_Has d v = Some (\<exists>x \<in> set (deque_list d). JSTaggedValue_SameValue x v)"
  by (simp add: Deque_Has_def search_ring_spec deque_inv_def deque_list_def)

text \<open>\<open>OwnKeys\<close> keeps the elements but doubles the buffer every time it is called.\<close>

lemma Deque_OwnKeys_spec:
  assumes "deque_inv d" "length (deque_elements d) \<le> DEQUE_LIMIT"
  shows "\<exists>d'. Deque_OwnKeys ks d = Some (ks d', d') \<and> deque_inv d' \<and> deque_list d' = deque_list d \<and>
    length (deque_elements d') = max (2 * length (deque_elements d)) 8"
proof -
  define c where "c = TaggedArray_GetLength (deque_elements d)"
  note f = deque_inv_facts [OF assms(1), folded c_def]
  let ?xs = "deque_list d" and ?n = "max (2 * unat c) 8"
  have less: "length ?xs < length (deque_elements d)"
    unfolding deque_list_def using assms(1) by (intro span_size(1)) (simp_all add: deque_inv_def)
  have n: "unat (Deque_ComputeCapacity c) = ?n" using Deque_ComputeCapacity_unat assms(2) f(1) by simp
  let ?els = "?xs @ replicate (?n - length ?xs) VHole"
  have copy: "CopyDeque (deque_elements d) (Deque_ComputeCapacity c) (deque_first d) (deque_last d) = Some ?els"
    using CopyDeque_spec [OF assms(1), of "Deque_ComputeCapacity c"] n less f(1) by simp
  have "span ?els 0 (length ?xs) = ?xs"
    using extended_span [of ?xs ?n VHole] less f(1) by simp
  then show ?thesis
    using Deque_GetSize_spec [OF assms(1)] copy less f(1) assms(2)
    by (auto simp: less_max_iff_disj Deque_OwnKeys_def c_def [symmetric] Let_def deque_inv_def deque_list_def DEQUE_LIMIT_def)
qed

lemma DequeConstructor_spec:
  "\<exists>d. DequeConstructor False = return_value d \<and> deque_inv d \<and> deque_list d = []"
  by (simp add: DequeConstructor_def return_value_def deque_inv_def deque_list_def span_def DEQUE_DEFAULT_CAPACITY_def)

end
