(* ===== verification/Container_Queue.thy ===== *)
theory Container_Queue
  imports Container_Common
begin

text \<open>
  \<open>JSAPIQueue\<close> (\<open>ecmascript/js_api/js_api_queue.cpp\<close> and \<open>.h\<close>): a circular queue with a separate length
  field.  The length is stored as a tagged number; \<open>GetArrayLength\<close> reads back what was stored, so the
  model keeps the \<open>uint32_t\<close>.
\<close>

section \<open>Definitions\<close>

record api_queue =
  queue_elements :: tagged_array
  queue_length :: u32
  queue_front :: u32
  queue_tail :: u32

definition QUEUE_DEFAULT_CAPACITY :: u32 where "QUEUE_DEFAULT_CAPACITY = 8"

definition QueueConstructor :: "bool \<Rightarrow> api_queue outcome" where
  "QueueConstructor newTargetUndefined =
     (if newTargetUndefined
      then raise_error (BusinessError 10200012 ''The Queue's constructor cannot be directly invoked'')
      else return_value \<lparr>queue_elements = NewTaggedArray QUEUE_DEFAULT_CAPACITY VHole, queue_length = 0,
             queue_front = 0, queue_tail = 0\<rparr>)"

definition Queue_ComputeCapacity :: "u32 \<Rightarrow> u32" where
  "Queue_ComputeCapacity oldCapacity =
     (let newCapacity = oldCapacity + drop_bit 1 oldCapacity in
      if newCapacity > QUEUE_DEFAULT_CAPACITY then newCapacity else QUEUE_DEFAULT_CAPACITY)"

definition Queue_GrowCapacity :: "api_queue \<Rightarrow> u32 \<Rightarrow> api_queue option" where
  "Queue_GrowCapacity q capacity =
     (let front = queue_front q; tail = queue_tail q;
          oldLength = TaggedArray_GetLength (queue_elements q) in
      if oldLength = 0 then do {
        newElements \<leftarrow> CopyArray (queue_elements q) oldLength (Queue_ComputeCapacity capacity);
        Some (q\<lparr>queue_elements := newElements, queue_front := front, queue_tail := tail\<rparr>)
      }
      else if (tail + 1) mod oldLength = front then do {
        newElements \<leftarrow> CopyQueue (queue_elements q) (Queue_ComputeCapacity capacity) front tail;
        Some (q\<lparr>queue_elements := newElements, queue_front := 0, queue_tail := oldLength - 1\<rparr>)
      }
      else Some q)"

definition Queue_Add :: "api_queue \<Rightarrow> JSTaggedValue \<Rightarrow> api_queue option" where
  "Queue_Add q v = do {
     let len = queue_length q;
     q \<leftarrow> Queue_GrowCapacity q (len + 1);
     let tail = queue_tail q;
     els \<leftarrow> TaggedArray_Set (queue_elements q) tail v;
     let elementsSize = TaggedArray_GetLength els;
     Some (q\<lparr>queue_elements := els, queue_length := len + 1, queue_tail := (tail + 1) mod elementsSize\<rparr>)
   }"

definition Queue_GetFirst :: "api_queue \<Rightarrow> JSTaggedValue option" where
  "Queue_GetFirst q =
     (if queue_length q < 1 then Some VUndefined else TaggedArray_Get (queue_elements q) (queue_front q))"

definition Queue_Pop :: "api_queue \<Rightarrow> (JSTaggedValue \<times> api_queue) option" where
  "Queue_Pop q =
     (if queue_length q < 1 then Some (VUndefined, q)
      else do {
        v \<leftarrow> TaggedArray_Get (queue_elements q) (queue_front q);
        let elementsSize = TaggedArray_GetLength (queue_elements q);
        Some (v, q\<lparr>queue_length := queue_length q - 1, queue_front := (queue_front q + 1) mod elementsSize\<rparr>)
      })"

definition Queue_Get :: "api_queue \<Rightarrow> u32 \<Rightarrow> JSTaggedValue outcome" where
  "Queue_Get q index =
     (let len = queue_length q in
      if index \<ge> len
      then raise_error (range_error ''Get property index'' (show_u32 (len - 1)) (show_u32 index))
      else do {
        let capacity = TaggedArray_GetLength (queue_elements q);
        v \<leftarrow> TaggedArray_Get (queue_elements q) ((queue_front q + index) mod capacity);
        return_value v
      })"

definition Queue_Set :: "api_queue \<Rightarrow> u32 \<Rightarrow> JSTaggedValue \<Rightarrow> api_queue outcome" where
  "Queue_Set q index v =
     (if index \<ge> queue_length q
      then raise_error (range_error ''Set property index'' (show_u32 (queue_length q - 1)) (show_u32 index))
      else do {
        els \<leftarrow> TaggedArray_Set (queue_elements q) index v;
        return_value (q\<lparr>queue_elements := els\<rparr>)
      })"

definition Queue_Has :: "api_queue \<Rightarrow> JSTaggedValue \<Rightarrow> bool option" where
  "Queue_Has q v =
     search_ring (\<lambda>x. JSTaggedValue_SameValue x v) (queue_elements q) (queue_front q) (queue_tail q)"

definition Queue_OwnKeys :: "(api_queue \<Rightarrow> 'k) \<Rightarrow> api_queue \<Rightarrow> ('k \<times> api_queue) option" where
  "Queue_OwnKeys ownPropertyKeys q = do {
     let len = queue_length q;
     let oldCapacity = TaggedArray_GetLength (queue_elements q);
     let newCapacity = Queue_ComputeCapacity oldCapacity;
     newElements \<leftarrow> CopyQueue (queue_elements q) newCapacity (queue_front q) (queue_tail q);
     let q' = q\<lparr>queue_elements := newElements, queue_front := 0, queue_tail := len\<rparr>;
     Some (ownPropertyKeys q', q')
   }"

definition Queue_GetProperty :: "api_queue \<Rightarrow> u32 \<Rightarrow> JSTaggedValue outcome" where
  "Queue_GetProperty q key =
     (let len = sint (queue_length q); index = sint key in
      if index < 0 \<or> index \<ge> len
      then raise_error (range_error ''index'' (show_int (len - 1)) (show_int index))
      else Queue_Get q key)"

definition Queue_SetProperty :: "api_queue \<Rightarrow> u32 \<Rightarrow> JSTaggedValue \<Rightarrow> (bool \<times> api_queue) outcome" where
  "Queue_SetProperty q key v =
     (let len = sint (queue_length q); index = sint key in
      if index < 0 \<or> index \<ge> len then return_value (False, q)
      else do {
        r \<leftarrow> Queue_Set q key v;
        Some (bind_result r (\<lambda>q'. Inr (True, q')))
      })"

definition Queue_GetArrayLength :: "api_queue \<Rightarrow> u32" where
  "Queue_GetArrayLength q =
     (let elementsSize = TaggedArray_GetLength (queue_elements q) in
      (queue_tail q - queue_front q + elementsSize) mod elementsSize)"

definition Queue_GetNextPosition :: "api_queue \<Rightarrow> u32 \<Rightarrow> u32" where
  "Queue_GetNextPosition q current = (current + 1) mod TaggedArray_GetLength (queue_elements q)"

section \<open>The queue as a list\<close>

definition api_queue_list :: "api_queue \<Rightarrow> JSTaggedValue list" where
  "api_queue_list q = span (queue_elements q) (unat (queue_front q)) (unat (queue_tail q))"

definition api_queue_inv :: "api_queue \<Rightarrow> bool" where
  "api_queue_inv q \<longleftrightarrow> length (queue_elements q) \<le> 2147483648 \<and>
     unat (queue_front q) < length (queue_elements q) \<and> unat (queue_tail q) < length (queue_elements q) \<and>
     unat (queue_length q) = length (api_queue_list q)"

definition API_QUEUE_LIMIT :: nat where "API_QUEUE_LIMIT = 1431655764"

lemma api_queue_inv_facts:
  assumes "api_queue_inv q"
  defines "c \<equiv> TaggedArray_GetLength (queue_elements q)"
  shows "unat c = length (queue_elements q)" "queue_front q < c" "queue_tail q < c" "unat c \<le> 2147483648"
    "0 < length (queue_elements q)" "c \<noteq> 0"
proof -
  show u: "unat c = length (queue_elements q)" and "queue_front q < c" "queue_tail q < c" "unat c \<le> 2147483648"
    and p: "0 < length (queue_elements q)"
    using assms by (auto simp: api_queue_inv_def word_less_nat_alt)
  show "c \<noteq> 0" using u p by (metis less_irrefl unat_0)
qed

lemma Queue_ComputeCapacity_unat:
  assumes "unat c \<le> API_QUEUE_LIMIT"
  shows "unat (Queue_ComputeCapacity c) = max (unat c + unat c div 2) 8"
proof -
  have "unat c + unat c div 2 < 4294967296" using assms unfolding API_QUEUE_LIMIT_def by presburger
  then have "unat (c + drop_bit 1 c) = unat c + unat c div 2"
    by (simp add: unat_plus_if_size word_size unat_div_distrib drop_bit_eq_div)
  then show ?thesis
    by (auto simp: Queue_ComputeCapacity_def Let_def QUEUE_DEFAULT_CAPACITY_def word_less_nat_alt max_def)
qed

lemma api_queue_list_less:
  "api_queue_inv q \<Longrightarrow> length (api_queue_list q) < length (queue_elements q)"
  unfolding api_queue_list_def by (intro span_size(1)) (simp_all add: api_queue_inv_def)

lemma CopyQueue_spec:
  assumes "api_queue_inv q" "length (api_queue_list q) \<le> unat n"
  shows "CopyQueue (queue_elements q) n (queue_front q) (queue_tail q) =
    Some (api_queue_list q @ replicate (unat n - length (api_queue_list q)) VHole)"
  using assms word32_bound [of n] unfolding CopyQueue_def api_queue_inv_def api_queue_list_def
  by (subst copy_ring_span) (auto simp: NewTaggedArray_def)

text \<open>After \<open>GrowCapacity\<close> there is room for one more element and the elements are the same.\<close>

lemma Queue_GrowCapacity_spec:
  assumes "api_queue_inv q" "length (api_queue_list q) < API_QUEUE_LIMIT"
  shows "\<exists>q'. Queue_GrowCapacity q (queue_length q + 1) = Some q' \<and> api_queue_inv q' \<and>
    api_queue_list q' = api_queue_list q \<and> queue_length q' = queue_length q \<and>
    Suc (unat (queue_tail q')) mod length (queue_elements q') \<noteq> unat (queue_front q')"
proof -
  define c where "c = TaggedArray_GetLength (queue_elements q)"
  note f = api_queue_inv_facts [OF assms(1), folded c_def]
  have lt: "unat (queue_front q) < length (queue_elements q)" "unat (queue_tail q) < length (queue_elements q)"
    using assms(1) by (simp_all add: api_queue_inv_def)
  have full: "(queue_tail q + 1) mod c = queue_front q \<longleftrightarrow>
      Suc (unat (queue_tail q)) mod length (queue_elements q) = unat (queue_front q)"
    using unat_next [OF f(3)] f(1) by (auto simp: word_unat_eq_iff)
  show ?thesis
  proof (cases "(queue_tail q + 1) mod c = queue_front q")
    case True
    let ?xs = "api_queue_list q"
    have len: "Suc (length ?xs) = length (queue_elements q)"
      unfolding api_queue_list_def using full True lt by (intro span_full) auto
    have cap: "unat (queue_length q + 1) = Suc (length ?xs)"
      using assms by (subst unat_inc) (simp_all add: api_queue_inv_def API_QUEUE_LIMIT_def)
    have cap1: "unat (c - 1) = length ?xs" using len f by (simp add: unat_pred word_neq_0_conv)
    define n where "n = max (Suc (length ?xs) + Suc (length ?xs) div 2) 8"
    have n: "unat (Queue_ComputeCapacity (queue_length q + 1)) = n"
      using Queue_ComputeCapacity_unat [of "queue_length q + 1"] cap assms(2) by (simp add: n_def)
    have room: "Suc (length ?xs) < n" "n \<le> 2147483648"
      using len f(5) assms(2) unfolding n_def API_QUEUE_LIMIT_def max_def by auto
    let ?els = "?xs @ replicate (n - length ?xs) VHole"
    have copy: "CopyQueue (queue_elements q) (Queue_ComputeCapacity (queue_length q + 1)) (queue_front q)
        (queue_tail q) = Some ?els"
      using CopyQueue_spec [OF assms(1), of "Queue_ComputeCapacity (queue_length q + 1)"] room n by simp
    have "span ?els 0 (length ?xs) = ?xs" using room by (intro extended_span) simp
    then show ?thesis
      using True copy cap1 f(6) room assms(1)
      by (simp add: Queue_GrowCapacity_def c_def [symmetric] Let_def api_queue_inv_def api_queue_list_def)
  next
    case False
    then show ?thesis
      using full f(6) assms(1) by (simp add: Queue_GrowCapacity_def c_def [symmetric] Let_def)
  qed
qed

lemma Queue_Add_spec:
  assumes "api_queue_inv q" "length (api_queue_list q) < API_QUEUE_LIMIT"
  shows "\<exists>q'. Queue_Add q v = Some q' \<and> api_queue_inv q' \<and> api_queue_list q' = api_queue_list q @ [v]"
proof -
  obtain p where p: "Queue_GrowCapacity q (queue_length q + 1) = Some p" "api_queue_inv p"
      "api_queue_list p = api_queue_list q" "queue_length p = queue_length q"
      "Suc (unat (queue_tail p)) mod length (queue_elements p) \<noteq> unat (queue_front p)"
    using Queue_GrowCapacity_spec [OF assms] by blast
  note f = api_queue_inv_facts [OF p(2)]
  have lt: "unat (queue_front p) < length (queue_elements p)" "unat (queue_tail p) < length (queue_elements p)"
    using p(2) by (simp_all add: api_queue_inv_def)
  let ?t = "(queue_tail p + 1) mod TaggedArray_GetLength (queue_elements p)"
  have u: "unat ?t = Suc (unat (queue_tail p)) mod length (queue_elements p)"
    using unat_next [OF f(3)] f(1) by simp
  have "span ((queue_elements p)[unat (queue_tail p) := v]) (unat (queue_front p)) (unat ?t) = api_queue_list p @ [v]"
    unfolding u api_queue_list_def using lt p(5) by (rule span_push)
  moreover have "unat ?t < length (queue_elements p)" unfolding u using f(5) by (intro mod_less_divisor)
  moreover have "unat (queue_length q + 1) = Suc (length (api_queue_list q))"
    using assms by (subst unat_inc) (simp_all add: api_queue_inv_def API_QUEUE_LIMIT_def)
  ultimately show ?thesis
    using p lt by (simp add: Queue_Add_def Let_def api_queue_inv_def api_queue_list_def)
qed

lemma Queue_Pop_spec:
  assumes "api_queue_inv q" "api_queue_list q = v # vs"
  shows "\<exists>q'. Queue_Pop q = Some (v, q') \<and> api_queue_inv q' \<and> api_queue_list q' = vs"
proof -
  note f = api_queue_inv_facts [OF assms(1)]
  have lt: "unat (queue_front q) < length (queue_elements q)" "unat (queue_tail q) < length (queue_elements q)"
    using assms(1) by (simp_all add: api_queue_inv_def)
  have len: "unat (queue_length q) = Suc (length vs)" using assms by (simp add: api_queue_inv_def)
  then have pos: "\<not> queue_length q < 1" "unat (queue_length q - 1) = length vs"
    by (auto simp: word_less_nat_alt unat_pred)
  have ne: "unat (queue_front q) \<noteq> unat (queue_tail q)"
    using span_Nil [OF lt] assms(2) by (auto simp: api_queue_list_def)
  have u: "unat ((queue_front q + 1) mod TaggedArray_GetLength (queue_elements q)) =
      Suc (unat (queue_front q)) mod length (queue_elements q)"
    using unat_next [OF f(2)] f(1) by simp
  have "Suc (unat (queue_front q)) mod length (queue_elements q) < length (queue_elements q)" using f(5) by simp
  moreover have "v = queue_elements q ! unat (queue_front q)"
    "vs = span (queue_elements q) (Suc (unat (queue_front q)) mod length (queue_elements q)) (unat (queue_tail q))"
    using span_pop [OF lt ne] assms(2) by (simp_all add: api_queue_list_def)
  ultimately show ?thesis
    using pos lt assms(1) by (simp add: Queue_Pop_def Let_def api_queue_inv_def api_queue_list_def u)
qed

interpretation api_queue: fifo_queue api_queue_inv api_queue_list API_QUEUE_LIMIT Queue_Add Queue_Pop
  by unfold_locales (fact Queue_Add_spec, fact Queue_Pop_spec)

section \<open>Reading, searching and writing by position\<close>

lemma Queue_GetFirst_spec:
  assumes "api_queue_inv q"
  shows "Queue_GetFirst q = Some (case api_queue_list q of [] \<Rightarrow> VUndefined | v # _ \<Rightarrow> v)"
proof (cases "api_queue_list q")
  case Nil
  then show ?thesis using assms by (simp add: Queue_GetFirst_def api_queue_inv_def word_less_nat_alt)
next
  case (Cons v vs)
  then show ?thesis
    using Queue_Pop_spec [OF assms Cons] assms
    by (auto simp: Queue_GetFirst_def Queue_Pop_def Let_def bind_eq_Some_conv word_less_nat_alt api_queue_inv_def)
qed

lemma api_queue_index:
  assumes "api_queue_inv q" "unat index < length (api_queue_list q)"
  shows "unat ((queue_front q + index) mod TaggedArray_GetLength (queue_elements q)) =
      (unat (queue_front q) + unat index) mod length (queue_elements q)"
    and "(unat (queue_front q) + unat index) mod length (queue_elements q) < length (queue_elements q)"
proof -
  note f = api_queue_inv_facts [OF assms(1)]
  have "index < TaggedArray_GetLength (queue_elements q)"
    using assms(2) api_queue_list_less [OF assms(1)] f(1) by (simp add: word_less_nat_alt)
  then show "unat ((queue_front q + index) mod TaggedArray_GetLength (queue_elements q)) =
      (unat (queue_front q) + unat index) mod length (queue_elements q)"
    using unat_offset [OF f(2) _ f(4)] f(1) by simp
  show "(unat (queue_front q) + unat index) mod length (queue_elements q) < length (queue_elements q)"
    using f(5) by (intro mod_less_divisor)
qed

lemma Queue_Get_spec:
  assumes "api_queue_inv q"
  shows "Queue_Get q index =
    (if unat index < length (api_queue_list q) then return_value (api_queue_list q ! unat index)
     else raise_error (range_error ''Get property index'' (show_u32 (queue_length q - 1)) (show_u32 index)))"
proof (cases "unat index < length (api_queue_list q)")
  case True
  then have "\<not> queue_length q \<le> index" using assms by (simp add: api_queue_inv_def word_le_nat_alt)
  then show ?thesis
    using True api_queue_index [OF assms True]
    by (simp add: Queue_Get_def Let_def api_queue_list_def span_nth)
next
  case False
  then show ?thesis using assms by (simp add: Queue_Get_def Let_def api_queue_inv_def word_le_nat_alt)
qed

lemma Queue_Has_spec:
  "api_queue_inv q \<Longrightarrow> Queue_Has q v = Some (\<exists>x \<in> set (api_queue_list q). JSTaggedValue_SameValue x v)"
  by (simp add: Queue_Has_def search_ring_spec api_queue_inv_def api_queue_list_def)

lemma Queue_GetArrayLength_spec: "api_queue_inv q \<Longrightarrow> Queue_GetArrayLength q = queue_length q"
  using api_queue_inv_facts [of q]
  by (simp add: word_unat_eq_iff Queue_GetArrayLength_def Let_def unat_distance)
    (simp add: api_queue_inv_def api_queue_list_def span_def)

lemma Queue_OwnKeys_spec:
  assumes "api_queue_inv q" "length (queue_elements q) \<le> API_QUEUE_LIMIT"
  shows "\<exists>q'. Queue_OwnKeys ks q = Some (ks q', q') \<and> api_queue_inv q' \<and> api_queue_list q' = api_queue_list q"
proof -
  define c where "c = TaggedArray_GetLength (queue_elements q)"
  note f = api_queue_inv_facts [OF assms(1), folded c_def]
  let ?xs = "api_queue_list q"
  define n where "n = max (unat c + unat c div 2) 8"
  have n: "unat (Queue_ComputeCapacity c) = n" using Queue_ComputeCapacity_unat [of c] assms(2) f(1) by (simp add: n_def)
  have room: "length ?xs < n" "n \<le> 2147483648"
    using api_queue_list_less [OF assms(1)] f(1) assms(2) by (auto simp: n_def API_QUEUE_LIMIT_def max_def)
  have "CopyQueue (queue_elements q) (Queue_ComputeCapacity c) (queue_front q) (queue_tail q) =
      Some (?xs @ replicate (n - length ?xs) VHole)"
    using CopyQueue_spec [OF assms(1), of "Queue_ComputeCapacity c"] n room by simp
  then show ?thesis
    using assms(1) room extended_span [of ?xs n VHole]
    by (auto simp: Queue_OwnKeys_def c_def [symmetric] Let_def api_queue_inv_def api_queue_list_def)
qed

text \<open>\<open>Set\<close> writes the slot with the given number, which holds element \<open>index\<close> only while the front is 0.\<close>

lemma Queue_Set_spec:
  assumes "api_queue_inv q" "unat index < length (api_queue_list q)"
  shows "\<exists>q'. Queue_Set q index v = return_value q' \<and>
    (queue_front q = 0 \<longrightarrow> api_queue_inv q' \<and> api_queue_list q' = (api_queue_list q)[unat index := v])"
proof -
  have lt: "unat index < length (queue_elements q)" using api_queue_list_less [OF assms(1)] assms(2) by simp
  have "span ((queue_elements q)[unat index := v]) 0 (unat (queue_tail q)) =
      (span (queue_elements q) 0 (unat (queue_tail q)))[unat index := v]" if "queue_front q = 0"
    using span_update_nth [of "unat index" "queue_elements q" 0 "unat (queue_tail q)" v] lt that assms
    by (simp add: api_queue_inv_def api_queue_list_def)
  then show ?thesis
    using assms lt by (auto simp: Queue_Set_def return_value_def api_queue_inv_def api_queue_list_def word_le_nat_alt)
qed

lemma QueueConstructor_spec:
  "\<exists>q. QueueConstructor False = return_value q \<and> api_queue_inv q \<and> api_queue_list q = []"
  by (simp add: QueueConstructor_def return_value_def api_queue_inv_def api_queue_list_def span_def QUEUE_DEFAULT_CAPACITY_def)

end
