(* ===== verification/Container_Stack.thy ===== *)
theory Container_Stack
  imports Container_Common
begin

text \<open>
  \<open>JSAPIStack\<close> (\<open>ecmascript/js_api/js_api_stack.cpp\<close> and \<open>.h\<close>) with its iterator.  \<open>top\<close> is an \<open>int\<close>, \<open>-1\<close>
  when the stack is empty; it is kept at 32 bits and read with \<open>sint\<close>.
\<close>

section \<open>Definitions\<close>

record stack =
  stack_elements :: tagged_array
  stack_top :: u32

definition STACK_DEFAULT_CAPACITY :: u32 where "STACK_DEFAULT_CAPACITY = 10"

definition StackConstructor :: "bool \<Rightarrow> stack outcome" where
  "StackConstructor newTargetUndefined =
     (if newTargetUndefined
      then raise_error (BusinessError 10200012 ''The List's constructor cannot be directly invoked'')
      else return_value \<lparr>stack_elements = [], stack_top = - 1\<rparr>)"

definition Stack_Empty :: "stack \<Rightarrow> bool" where
  "Stack_Empty s \<longleftrightarrow> stack_top s = - 1"

definition Stack_ComputeCapacity :: "u32 \<Rightarrow> u32" where
  "Stack_ComputeCapacity oldCapacity = grow_by_half STACK_DEFAULT_CAPACITY oldCapacity"

definition Stack_GrowCapacity :: "stack \<Rightarrow> u32 \<Rightarrow> stack option" where
  "Stack_GrowCapacity s capacity =
     (let oldLength = TaggedArray_GetLength (stack_elements s) in
      if capacity < oldLength then Some s
      else do {
        newElements \<leftarrow> CopyArray (stack_elements s) oldLength (Stack_ComputeCapacity capacity);
        Some (s\<lparr>stack_elements := newElements\<rparr>)
      })"

definition Stack_Push :: "stack \<Rightarrow> JSTaggedValue \<Rightarrow> stack option" where
  "Stack_Push s v = do {
     let top = stack_top s;
     s' \<leftarrow> Stack_GrowCapacity s (top + 1);
     els \<leftarrow> TaggedArray_Set (stack_elements s') (top + 1) v;
     Some (s'\<lparr>stack_elements := els, stack_top := top + 1\<rparr>)
   }"

definition Stack_Peek :: "stack \<Rightarrow> JSTaggedValue option" where
  "Stack_Peek s =
     (if stack_top s = - 1 then Some VUndefined else TaggedArray_Get (stack_elements s) (stack_top s))"

definition Stack_Pop :: "stack \<Rightarrow> (JSTaggedValue \<times> stack) option" where
  "Stack_Pop s =
     (if stack_top s = - 1 then Some (VUndefined, s)
      else do {
        let top = stack_top s - 1;
        v \<leftarrow> TaggedArray_Get (stack_elements s) (top + 1);
        Some (v, s\<lparr>stack_top := top\<rparr>)
      })"

text \<open>The loops \<open>for (int i = 0; i <= top; i++)\<close>.\<close>

definition search_to_top :: "(JSTaggedValue \<Rightarrow> bool) \<Rightarrow> stack \<Rightarrow> u32 option option" where
  "search_to_top p s =
     (if sint (stack_top s) < 0 then Some None else search_up p (stack_elements s) 0 (stack_top s + 1))"

definition Stack_Search :: "stack \<Rightarrow> JSTaggedValue \<Rightarrow> u32 option" where
  "Stack_Search s v = do {
     r \<leftarrow> search_to_top (\<lambda>x. v = x) s;
     Some (case r of Some i \<Rightarrow> i | None \<Rightarrow> - 1)
   }"

definition Stack_Has :: "stack \<Rightarrow> JSTaggedValue \<Rightarrow> bool option" where
  "Stack_Has s v =
     (if stack_top s = - 1 then Some False
      else do {
        r \<leftarrow> search_to_top (\<lambda>x. JSTaggedValue_SameValue x v) s;
        Some (r \<noteq> None)
      })"

definition Stack_Get :: "stack \<Rightarrow> u32 \<Rightarrow> JSTaggedValue option" where
  "Stack_Get s index = TaggedArray_Get (stack_elements s) index"

definition Stack_Set :: "stack \<Rightarrow> u32 \<Rightarrow> JSTaggedValue \<Rightarrow> stack option" where
  "Stack_Set s index v = do {
     els \<leftarrow> TaggedArray_Set (stack_elements s) index v;
     Some (s\<lparr>stack_elements := els\<rparr>)
   }"

definition Stack_GetSize :: "stack \<Rightarrow> u32" where
  "Stack_GetSize s = stack_top s"

definition Stack_GetProperty :: "stack \<Rightarrow> u32 \<Rightarrow> JSTaggedValue outcome" where
  "Stack_GetProperty s key =
     (let len = sint (stack_top s + 1); index = sint key in
      if index < 0 \<or> index \<ge> len
      then raise_error (range_error ''index'' (show_int (len - 1)) (show_int index))
      else do { v \<leftarrow> Stack_Get s key; return_value v })"

definition Stack_SetProperty :: "stack \<Rightarrow> u32 \<Rightarrow> JSTaggedValue \<Rightarrow> (bool \<times> stack) option" where
  "Stack_SetProperty s key v =
     (let len = sint (stack_top s + 1); index = sint key in
      if index < 0 \<or> index \<ge> len then Some (False, s)
      else do { s' \<leftarrow> Stack_Set s key v; Some (True, s') })"

text \<open>
  One call of the iterator's \<open>next\<close>: the iterator holds the stack it iterates (\<open>None\<close> once exhausted) and
  the next index; the result is the value, or \<open>None\<close> for the end of the iteration.
\<close>

definition StackIterator_Next ::
    "stack \<Rightarrow> (bool \<times> u32) \<Rightarrow> (JSTaggedValue option \<times> (bool \<times> u32)) option" where
  "StackIterator_Next s it = (case it of (iterating, index) \<Rightarrow>
     if \<not> iterating then Some (None, it)
     else
       let len = Stack_GetSize s + 1 in
       if index + 1 > len then Some (None, (False, index))
       else do {
         v \<leftarrow> Stack_Get s index;
         Some (Some v, (True, index + 1))
       })"

section \<open>The stack as a list\<close>

definition stack_list :: "stack \<Rightarrow> JSTaggedValue list" where
  "stack_list s = take (unat (stack_top s + 1)) (stack_elements s)"

definition stack_inv :: "stack \<Rightarrow> bool" where
  "stack_inv s \<longleftrightarrow> unat (stack_top s + 1) \<le> length (stack_elements s) \<and> length (stack_elements s) < 2147483648"

lemma stack_size: "stack_inv s \<Longrightarrow> unat (stack_top s + 1) = length (stack_list s)"
  by (simp add: stack_list_def stack_inv_def)

lemma stack_repr:
  assumes "unat (stack_top s + 1) = n" "n \<le> length (stack_elements s)" "length (stack_elements s) < 2147483648"
  shows "stack_inv s" "stack_list s = take n (stack_elements s)"
  using assms by (simp_all add: stack_inv_def stack_list_def)

lemma stack_list_take:
  assumes "stack_inv s"
  shows "take (length (stack_list s)) (stack_elements s) = stack_list s"
    "length (stack_list s) \<le> length (stack_elements s)" "length (stack_elements s) < 2147483648"
  using assms by (simp_all add: stack_inv_def stack_list_def)

lemma stack_top_empty: "stack_inv s \<Longrightarrow> stack_top s = - 1 \<longleftrightarrow> stack_list s = []"
  using stack_size [of s] by (metis add.commute add_0 add_diff_cancel length_0_conv
      unat_eq_0 add_eq_0_iff)

lemma stack_top_unat:
  assumes "stack_inv s" "stack_list s \<noteq> []"
  shows "unat (stack_top s) = length (stack_list s) - 1" "0 \<le> sint (stack_top s)"
proof -
  have pos: "0 < stack_top s + 1" using stack_size [OF assms(1)] assms(2) by (simp add: word_less_nat_alt)
  show u: "unat (stack_top s) = length (stack_list s) - 1"
    using unat_pred [OF pos] stack_size [OF assms(1)] by simp
  have "length (stack_list s) < 2147483648" using assms(1) by (simp add: stack_list_def stack_inv_def)
  then show "0 \<le> sint (stack_top s)" using u by (subst sint_small) simp_all
qed

lemma Stack_GrowCapacity_spec:
  assumes "stack_inv s" "length (stack_list s) < HALF_LIMIT"
  shows "\<exists>s'. Stack_GrowCapacity s (stack_top s + 1) = Some s' \<and> stack_list s' = stack_list s \<and>
    stack_top s' = stack_top s \<and> length (stack_list s) < length (stack_elements s') \<and> length (stack_elements s') < 2147483648"
proof (cases "length (stack_list s) < length (stack_elements s)")
  case True
  then show ?thesis
    using assms by (simp add: Stack_GrowCapacity_def Let_def word_less_nat_alt stack_inv_def stack_list_def)
next
  case False
  let ?c = "stack_top s + 1"
  have len: "length (stack_elements s) = unat ?c" "length (stack_elements s) = length (stack_list s)"
    using False assms(1) by (auto simp: stack_inv_def stack_list_def)
  have more: "unat ?c < unat (Stack_ComputeCapacity ?c)" "unat (Stack_ComputeCapacity ?c) < 2147483648"
    using grow_by_half_more [of ?c STACK_DEFAULT_CAPACITY] grow_by_half_unat [of ?c STACK_DEFAULT_CAPACITY] len assms(2)
    by (auto simp: Stack_ComputeCapacity_def STACK_DEFAULT_CAPACITY_def HALF_LIMIT_def)
  let ?n = "Stack_ComputeCapacity ?c"
  have "CopyArray (stack_elements s) (TaggedArray_GetLength (stack_elements s)) ?n =
      Some (stack_elements s @ replicate (unat ?n - length (stack_elements s)) VHole)"
    using more len assms(1) by (intro CopyArray_grow) (auto simp: word_less_nat_alt stack_inv_def)
  moreover have "\<not> ?c < TaggedArray_GetLength (stack_elements s)"
    using len assms(1) by (simp add: word_less_nat_alt stack_inv_def)
  ultimately have g: "Stack_GrowCapacity s ?c = Some (s\<lparr>stack_elements :=
      stack_elements s @ replicate (unat ?n - length (stack_elements s)) VHole\<rparr>)"
    by (simp add: Stack_GrowCapacity_def Let_def)
  have "stack_list (s\<lparr>stack_elements := stack_elements s @ zs\<rparr>) = stack_list s" for zs
    using len(1) by (simp add: stack_list_def)
  then show ?thesis unfolding g using more len by simp
qed

lemma Stack_Push_spec:
  assumes "stack_inv s" "length (stack_list s) < HALF_LIMIT"
  shows "\<exists>s'. Stack_Push s v = Some s' \<and> stack_inv s' \<and> stack_list s' = stack_list s @ [v]"
proof -
  obtain t where t: "Stack_GrowCapacity s (stack_top s + 1) = Some t" "stack_list t = stack_list s"
      "stack_top t = stack_top s" "length (stack_list s) < length (stack_elements t)"
      "length (stack_elements t) < 2147483648"
    using Stack_GrowCapacity_spec [OF assms] by blast
  have n: "unat (stack_top s + 1) = length (stack_list s)" using assms(1) by (rule stack_size)
  then have n1: "unat (stack_top s + 1 + 1) = Suc (length (stack_list s))"
    using t(4,5) by (subst unat_inc) simp_all
  have "take (length (stack_list s)) (stack_elements t) = stack_list s"
    using t(2,3) n unfolding stack_list_def [of t] by simp
  then have "take (Suc (length (stack_list s))) ((stack_elements t)[length (stack_list s) := v]) = stack_list s @ [v]"
    using take_append_update [OF t(4), of v] by simp
  moreover have "Stack_Push s v = Some (t\<lparr>stack_elements := (stack_elements t)[length (stack_list s) := v],
      stack_top := stack_top s + 1\<rparr>)"
    using t n by (simp add: Stack_Push_def Let_def)
  ultimately show ?thesis
    using stack_repr [of "t\<lparr>stack_elements := (stack_elements t)[length (stack_list s) := v],
      stack_top := stack_top s + 1\<rparr>"] n1 t(4,5) by simp
qed

lemma Stack_Pop_spec:
  assumes "stack_inv s"
  shows "stack_list s = vs @ [v] \<Longrightarrow> \<exists>s'. Stack_Pop s = Some (v, s') \<and> stack_inv s' \<and> stack_list s' = vs"
    and "stack_list s = [] \<Longrightarrow> Stack_Pop s = Some (VUndefined, s)"
    and "Stack_Peek s = Some (if stack_list s = [] then VUndefined else last (stack_list s))"
proof -
  note e = stack_top_empty [OF assms]
  show "stack_list s = [] \<Longrightarrow> Stack_Pop s = Some (VUndefined, s)" using e by (simp add: Stack_Pop_def)
  have nth: "unat (stack_top s) < length (stack_elements s)" "stack_elements s ! unat (stack_top s) = last (stack_list s)"
    if "stack_list s \<noteq> []"
  proof -
    have "0 < length (stack_list s)" using that by simp
    then show "unat (stack_top s) < length (stack_elements s)"
      using stack_top_unat(1) [OF assms that] stack_list_take(2) [OF assms] by linarith
    show "stack_elements s ! unat (stack_top s) = last (stack_list s)"
    using that stack_top_unat [OF assms that] stack_list_take [OF assms]
      nth_take [of "unat (stack_top s)" "length (stack_list s)" "stack_elements s"]
    by (auto simp: last_conv_nth)
  qed
  then show "Stack_Peek s = Some (if stack_list s = [] then VUndefined else last (stack_list s))"
    using e by (simp add: Stack_Peek_def)
  assume vs: "stack_list s = vs @ [v]"
  have u: "unat (stack_top s) = length vs" using stack_top_unat(1) [OF assms] vs by simp
  have "take (length vs) (take (length (stack_list s)) (stack_elements s)) = vs"
    by (simp only: stack_list_take(1) [OF assms]) (simp add: vs)
  then have "take (length vs) (stack_elements s) = vs" by (simp add: vs min_def)
  moreover have "Stack_Pop s = Some (v, s\<lparr>stack_top := stack_top s - 1\<rparr>)"
    using e nth vs u by (simp add: Stack_Pop_def Let_def)
  ultimately show "\<exists>s'. Stack_Pop s = Some (v, s') \<and> stack_inv s' \<and> stack_list s' = vs"
    using stack_repr [of "s\<lparr>stack_top := stack_top s - 1\<rparr>" "length vs"] u nth vs stack_list_take [OF assms] by simp
qed

text \<open>The position of the first element found, counting from the bottom.\<close>

lemma search_to_top_spec:
  assumes "stack_inv s"
  shows "search_to_top p s = Some (map_option word_of_nat (first_index p (stack_list s)))"
proof (cases "stack_list s = []")
  case True
  then have "stack_top s = - 1" using stack_top_empty [OF assms] by simp
  then show ?thesis using True by (simp add: search_to_top_def first_index_def)
next
  case False
  then show ?thesis
    using stack_top_unat(2) [OF assms False] assms
    by (simp add: search_to_top_def search_up_spec stack_inv_def stack_list_def)
qed

lemma Stack_Has_spec:
  assumes "stack_inv s"
  shows "Stack_Has s v = Some (\<exists>x \<in> set (stack_list s). JSTaggedValue_SameValue x v)"
  using stack_top_empty [OF assms] first_index_None [of "\<lambda>x. JSTaggedValue_SameValue x v" "stack_list s"]
  by (cases "stack_list s = []") (auto simp: Stack_Has_def search_to_top_spec [OF assms] simp del: not_None_eq)

lemma Stack_GetProperty_spec:
  assumes "stack_inv s"
  shows "Stack_GetProperty s key =
    (if unat key < length (stack_list s) then return_value (stack_list s ! unat key)
     else raise_error (range_error ''index'' (show_int (int (length (stack_list s)) - 1)) (show_int (sint key))))"
proof -
  have len: "sint (stack_top s + 1) = int (length (stack_list s))" "length (stack_list s) \<le> length (stack_elements s)"
    using sint_length [OF stack_size [OF assms]] assms by (simp_all add: stack_inv_def stack_list_def)
  moreover have "sint key < 0 \<or> int (length (stack_list s)) \<le> sint key \<longleftrightarrow> \<not> unat key < length (stack_list s)"
    using assms len(2) by (intro sint_outside) (simp add: stack_inv_def)
  moreover have "unat key < length (stack_list s) \<Longrightarrow> stack_elements s ! unat key = stack_list s ! unat key"
    by (simp add: stack_list_def)
  ultimately show ?thesis by (simp add: Stack_GetProperty_def Let_def Stack_Get_def)
qed

interpretation stack: growable_list stack_inv stack_list HALF_LIMIT Stack_Push Stack_GetProperty "\<lambda>s. stack_top s + 1"
  by unfold_locales (fact Stack_Push_spec, simp add: Stack_GetProperty_spec, rule stack_size)

text \<open>Iterating a stack from index 0 returns its elements from the bottom to the top and then stops.\<close>

lemma StackIterator_Next_spec:
  assumes "stack_inv s"
  shows "unat i < length (stack_list s) \<Longrightarrow>
      StackIterator_Next s (True, i) = Some (Some (stack_list s ! unat i), (True, i + 1))"
    and "unat i = length (stack_list s) \<Longrightarrow> StackIterator_Next s (True, i) = Some (None, (False, i))"
proof -
  have n: "unat (stack_top s + 1) = length (stack_list s)" "length (stack_list s) < 2147483648"
    using stack_size [OF assms] stack_list_take [OF assms] by simp_all
  have u: "unat (i + 1) = Suc (unat i)" if "unat i \<le> length (stack_list s)"
    using that n(2) by (intro unat_inc) simp
  show "unat i < length (stack_list s) \<Longrightarrow>
      StackIterator_Next s (True, i) = Some (Some (stack_list s ! unat i), (True, i + 1))"
    using u n stack_list_take [OF assms] nth_take [of "unat i" "length (stack_list s)" "stack_elements s"]
    by (simp add: StackIterator_Next_def Let_def Stack_GetSize_def word_less_nat_alt Stack_Get_def)
  show "unat i = length (stack_list s) \<Longrightarrow> StackIterator_Next s (True, i) = Some (None, (False, i))"
    using u n by (simp add: StackIterator_Next_def Let_def Stack_GetSize_def word_less_nat_alt)
qed

end
