(* ===== verification/Container_ArrayList.thy ===== *)
theory Container_ArrayList
  imports Container_Common
begin

text \<open>
  \<open>JSAPIArrayList\<close> (\<open>ecmascript/js_api/js_api_arraylist.cpp\<close> and \<open>.h\<close>) and its constructor
  (\<open>ecmascript/containers/containers_arraylist.cpp\<close>).  The length is a tagged integer, kept at 32 bits.
  Arguments that the source converts with \<open>ToInt32\<close> are already converted.  \<open>GetOwnProperty\<close> takes the
  result of \<open>ToElementIndex\<close> on its key and the text of the key as parameters.
\<close>

section \<open>Definitions\<close>

record array_list =
  al_elements :: tagged_array
  al_length :: u32

definition ARRAYLIST_DEFAULT_CAPACITY :: u32 where "ARRAYLIST_DEFAULT_CAPACITY = 10"

definition NewJSAPIArrayList :: "u32 \<Rightarrow> array_list" where
  "NewJSAPIArrayList capacity = \<lparr>al_elements = NewTaggedArray capacity VHole, al_length = 0\<rparr>"

definition ArrayListConstructor :: "bool \<Rightarrow> array_list outcome" where
  "ArrayListConstructor newTargetUndefined =
     (if newTargetUndefined
      then raise_error (BusinessError 10200012 ''The ArrayList's constructor cannot be directly invoked.'')
      else return_value \<lparr>al_elements = NewTaggedArray ARRAYLIST_DEFAULT_CAPACITY VHole, al_length = 0\<rparr>)"

definition ArrayList_ComputeCapacity :: "u32 \<Rightarrow> u32" where
  "ArrayList_ComputeCapacity oldCapacity = grow_by_half ARRAYLIST_DEFAULT_CAPACITY oldCapacity"

definition ArrayList_GetSize :: "array_list \<Rightarrow> u32" where
  "ArrayList_GetSize s = al_length s"

definition ArrayList_GrowCapacity :: "array_list \<Rightarrow> u32 \<Rightarrow> array_list option" where
  "ArrayList_GrowCapacity s capacity =
     (let oldCapacity = TaggedArray_GetLength (al_elements s) in
      if capacity < oldCapacity then Some s
      else do {
        newElements \<leftarrow> CopyArray (al_elements s) oldCapacity (ArrayList_ComputeCapacity capacity);
        Some (s\<lparr>al_elements := newElements\<rparr>)
      })"

definition ArrayList_Add :: "array_list \<Rightarrow> JSTaggedValue \<Rightarrow> array_list option" where
  "ArrayList_Add s v = do {
     let len = al_length s;
     s' \<leftarrow> ArrayList_GrowCapacity s (len + 1);
     els \<leftarrow> TaggedArray_Set (al_elements s') len v;
     Some (s'\<lparr>al_elements := els, al_length := len + 1\<rparr>)
   }"

definition ArrayList_Insert :: "array_list \<Rightarrow> JSTaggedValue \<Rightarrow> u32 \<Rightarrow> array_list outcome" where
  "ArrayList_Insert s v index =
     (let len = sint (al_length s) in
      if sint index < 0 \<or> sint index > len
      then raise_error (range_error ''index'' (show_int len) (show_int (sint index)))
      else do {
        s' \<leftarrow> ArrayList_GrowCapacity s (al_length s + 1);
        els \<leftarrow> move_up (nat (len - sint index)) (al_elements s') (al_length s - 1);
        els' \<leftarrow> TaggedArray_Set els index v;
        return_value (s'\<lparr>al_elements := els', al_length := al_length s + 1\<rparr>)
      })"

text \<open>The loop of \<open>Clear\<close> runs while \<open>i <= length\<close>.\<close>

definition ArrayList_Clear :: "array_list \<Rightarrow> array_list option" where
  "ArrayList_Clear s = do {
     els \<leftarrow> fill_up (nat (sint (al_length s) + 1)) (al_elements s) 0 VHole;
     Some (s\<lparr>al_elements := els, al_length := 0\<rparr>)
   }"

definition ArrayList_Clone :: "array_list \<Rightarrow> array_list option" where
  "ArrayList_Clone s = do {
     let len = ArrayList_GetSize s;
     dstElements \<leftarrow> NewAndCopyTaggedArray (al_elements s) len len 0;
     Some ((NewJSAPIArrayList 0)\<lparr>al_length := len, al_elements := dstElements\<rparr>)
   }"

definition ArrayList_GetCapacity :: "array_list \<Rightarrow> u32" where
  "ArrayList_GetCapacity s = TaggedArray_GetLength (al_elements s)"

definition ArrayList_IncreaseCapacityTo :: "array_list \<Rightarrow> u32 \<Rightarrow> array_list option" where
  "ArrayList_IncreaseCapacityTo s capacity =
     (if sint (TaggedArray_GetLength (al_elements s)) \<noteq> sint capacity \<and> sint (al_length s) < sint capacity
      then do {
        newElements \<leftarrow> NewAndCopyTaggedArray (al_elements s) capacity (al_length s) 0;
        Some (s\<lparr>al_elements := newElements\<rparr>)
      } else Some s)"

definition ArrayList_TrimToCurrentLength :: "array_list \<Rightarrow> array_list" where
  "ArrayList_TrimToCurrentLength s =
     (if ArrayList_GetCapacity s > al_length s
      then s\<lparr>al_elements := TaggedArray_Trim (al_elements s) (al_length s)\<rparr>
      else s)"

definition ArrayList_Get :: "array_list \<Rightarrow> u32 \<Rightarrow> JSTaggedValue outcome" where
  "ArrayList_Get s index =
     (if index \<ge> al_length s
      then raise_error (range_error ''index'' (show_u32 (al_length s - 1)) (show_u32 index))
      else do { v \<leftarrow> TaggedArray_Get (al_elements s) index; return_value v })"

definition ArrayList_Set :: "array_list \<Rightarrow> u32 \<Rightarrow> JSTaggedValue \<Rightarrow> array_list outcome" where
  "ArrayList_Set s index v =
     (if index \<ge> al_length s
      then raise_error (range_error ''index'' (show_u32 (al_length s - 1)) (show_u32 index))
      else do { els \<leftarrow> TaggedArray_Set (al_elements s) index v; return_value (s\<lparr>al_elements := els\<rparr>) })"

definition ArrayList_IsEmpty :: "array_list \<Rightarrow> bool" where
  "ArrayList_IsEmpty s \<longleftrightarrow> ArrayList_GetSize s = 0"

definition ArrayList_GetIndexOf :: "array_list \<Rightarrow> JSTaggedValue \<Rightarrow> u32 option" where
  "ArrayList_GetIndexOf s v = do {
     r \<leftarrow> search_up (\<lambda>x. JSTaggedValue_StrictEqual v x) (al_elements s) 0 (al_length s);
     Some (case r of Some i \<Rightarrow> i | None \<Rightarrow> - 1)
   }"

definition ArrayList_GetLastIndexOf :: "array_list \<Rightarrow> JSTaggedValue \<Rightarrow> u32 option" where
  "ArrayList_GetLastIndexOf s v = do {
     r \<leftarrow> search_down (\<lambda>x. JSTaggedValue_StrictEqual v x) (al_elements s) (nat (sint (al_length s)));
     Some (case r of Some i \<Rightarrow> i | None \<Rightarrow> - 1)
   }"

definition ArrayList_RemoveByIndex :: "array_list \<Rightarrow> u32 \<Rightarrow> (JSTaggedValue \<times> array_list) outcome" where
  "ArrayList_RemoveByIndex s index =
     (let len = sint (al_length s) in
      if sint index < 0 \<or> sint index \<ge> len
      then raise_error (range_error ''index'' (show_int (len - 1)) (show_int (sint index)))
      else do {
        oldValue \<leftarrow> TaggedArray_Get (al_elements s) index;
        els \<leftarrow> RemoveElementByIndex (al_elements s) index (al_length s);
        return_value (oldValue, s\<lparr>al_elements := els, al_length := al_length s - 1\<rparr>)
      })"

definition ArrayList_Remove :: "array_list \<Rightarrow> JSTaggedValue \<Rightarrow> (bool \<times> array_list) option" where
  "ArrayList_Remove s v = do {
     index \<leftarrow> ArrayList_GetIndexOf s v;
     if sint index \<ge> 0 then do {
       els \<leftarrow> RemoveElementByIndex (al_elements s) index (ArrayList_GetSize s);
       Some (True, s\<lparr>al_elements := els, al_length := ArrayList_GetSize s - 1\<rparr>)
     } else Some (False, s)
   }"

text \<open>The checks shared by \<open>RemoveByRange\<close> and \<open>SubArrayList\<close>; the bounds printed are computed in \<open>int\<close>.\<close>

definition ArrayList_range_check :: "array_list \<Rightarrow> u32 \<Rightarrow> u32 \<Rightarrow> js_error option" where
  "ArrayList_range_check s from to =
     (let len = sint (al_length s); size = (if len > sint to then sint to else len) in
      if sint from < 0 \<or> sint from \<ge> size
      then Some (range_error ''fromIndex'' (show_int (sint (word_of_int (size - 1) :: u32))) (show_int (sint from)))
      else if sint to \<le> sint from \<or> sint to < 0 \<or> sint to > len
      then Some (range_error ''toIndex'' (show_int len) (show_int (sint to)))
      else None)"

definition ArrayList_RemoveByRange :: "array_list \<Rightarrow> u32 \<Rightarrow> u32 \<Rightarrow> array_list outcome" where
  "ArrayList_RemoveByRange s startIndex endIndex = (case ArrayList_range_check s startIndex endIndex of
     Some e \<Rightarrow> raise_error e
   | None \<Rightarrow> do {
       let len = sint (al_length s);
       let toIndex = (if sint endIndex \<ge> len then len else sint endIndex);
       els \<leftarrow> move_down (nat (len - toIndex)) (al_elements s) startIndex endIndex;
       let newLength = al_length s - (endIndex - startIndex);
       return_value (s\<lparr>al_length := newLength, al_elements := take (unat newLength) els\<rparr>)
     })"

fun set_all :: "nat \<Rightarrow> array_list \<Rightarrow> u32 \<Rightarrow> tagged_array \<Rightarrow> u32 \<Rightarrow> array_list outcome" where
  "set_all 0 sub i els from = return_value sub"
| "set_all (Suc c) sub i els from = do {
     v \<leftarrow> TaggedArray_Get els from;
     r \<leftarrow> ArrayList_Set sub i v;
     case r of
       Inl e \<Rightarrow> raise_error e
     | Inr sub' \<Rightarrow> set_all c sub' (i + 1) els (from + 1)
   }"

definition ArrayList_SubArrayList :: "array_list \<Rightarrow> u32 \<Rightarrow> u32 \<Rightarrow> array_list outcome" where
  "ArrayList_SubArrayList s fromIndex toIndex = (case ArrayList_range_check s fromIndex toIndex of
     Some e \<Rightarrow> raise_error e
   | None \<Rightarrow>
       let len = al_length s;
           endIndex = (if sint toIndex \<ge> sint (len - 1) then len - 1 else toIndex);
           newLength = (if toIndex = len then len - fromIndex else endIndex - fromIndex);
           sub = NewJSAPIArrayList newLength in
       if newLength = 0 then return_value sub
       else set_all (unat newLength) (sub\<lparr>al_length := newLength\<rparr>) 0 (al_elements s) fromIndex)"

definition ArrayList_Has :: "array_list \<Rightarrow> JSTaggedValue \<Rightarrow> bool option" where
  "ArrayList_Has s v =
     (if ArrayList_GetSize s = 0 then Some False
      else do {
        r \<leftarrow> search_up (\<lambda>x. JSTaggedValue_SameValue x v) (al_elements s) 0 (ArrayList_GetSize s);
        Some (r \<noteq> None)
      })"

definition ArrayList_ForEach ::
    "('w, array_list) callback \<Rightarrow> 'w \<Rightarrow> array_list \<Rightarrow> ('w \<times> array_list \<times> unit result) option" where
  "ArrayList_ForEach callbackFn w s = for_each ArrayList_GetSize ArrayList_Get callbackFn w s 0 (ArrayList_GetSize s)"

text \<open>\<open>ReplaceAllElements\<close> keeps the length it read at the start.\<close>

fun replace_all ::
    "('w, array_list) callback \<Rightarrow> nat \<Rightarrow> 'w \<Rightarrow> array_list \<Rightarrow> u32 \<Rightarrow> ('w \<times> array_list \<times> unit result) option" where
  "replace_all callbackFn 0 w s k = Some (w, s, Inr ())"
| "replace_all callbackFn (Suc c) w s k = do {
     r \<leftarrow> ArrayList_Get s k;
     case r of
       Inl e \<Rightarrow> Some (w, s, Inl e)
     | Inr v \<Rightarrow> do {
         (w', s', res) \<leftarrow> callbackFn w s v k;
         case res of
           Inl e \<Rightarrow> Some (w', s', Inl e)
         | Inr funcResult \<Rightarrow> do {
             u \<leftarrow> ArrayList_Set s' k funcResult;
             case u of
               Inl e \<Rightarrow> Some (w', s', Inl e)
             | Inr s'' \<Rightarrow> replace_all callbackFn c w' s'' (k + 1)
           }
       }
   }"

definition ArrayList_ReplaceAllElements ::
    "('w, array_list) callback \<Rightarrow> 'w \<Rightarrow> array_list \<Rightarrow> ('w \<times> array_list \<times> unit result) option" where
  "ArrayList_ReplaceAllElements callbackFn w s = replace_all callbackFn (unat (ArrayList_GetSize s)) w s 0"

definition ArrayList_GetOwnProperty :: "array_list \<Rightarrow> u32 option \<Rightarrow> string \<Rightarrow> bool outcome" where
  "ArrayList_GetOwnProperty s elementIndex keyText = (case elementIndex of
     None \<Rightarrow> raise_error (BusinessError 401
       (''The type of \"index\" can not obtain attributes of no-number type. Received value is: '' @ keyText))
   | Some index \<Rightarrow>
       if index \<ge> al_length s
       then raise_error (BusinessError RANGE_ERROR (''The value of \"index\" is out of range. It must be > '' @
         show_u32 (al_length s - 1) @ ''. Received value is: '' @ show_u32 index))
       else do {
         r \<leftarrow> ArrayList_Get s index;
         case r of Inl e \<Rightarrow> raise_error e | Inr v \<Rightarrow> return_value True
       })"

definition ArrayList_GetProperty :: "array_list \<Rightarrow> u32 \<Rightarrow> JSTaggedValue outcome" where
  "ArrayList_GetProperty s key =
     (let len = sint (al_length s); index = sint key in
      if index < 0 \<or> index \<ge> len
      then raise_error (range_error ''index'' (show_int (len - 1)) (show_int index))
      else ArrayList_Get s key)"

definition ArrayList_SetProperty :: "array_list \<Rightarrow> u32 \<Rightarrow> JSTaggedValue \<Rightarrow> (bool \<times> array_list) outcome" where
  "ArrayList_SetProperty s key v =
     (let len = sint (al_length s); index = sint key in
      if index < 0 \<or> index \<ge> len then return_value (False, s)
      else do {
        r \<leftarrow> ArrayList_Set s key v;
        case r of Inl e \<Rightarrow> raise_error e | Inr s' \<Rightarrow> return_value (True, s')
      })"

text \<open>One call of the iterator's \<open>next\<close>: whether a list is still attached, and the next index.\<close>

definition ArrayListIterator_Next ::
    "array_list \<Rightarrow> (bool \<times> u32) \<Rightarrow> (JSTaggedValue option \<times> (bool \<times> u32)) outcome" where
  "ArrayListIterator_Next s it = (case it of (iterating, index) \<Rightarrow>
     if \<not> iterating then return_value (None, it)
     else if index \<ge> al_length s then return_value (None, (False, index))
     else do {
       r \<leftarrow> ArrayList_Get s index;
       case r of Inl e \<Rightarrow> raise_error e | Inr v \<Rightarrow> return_value (Some v, (True, index + 1))
     })"

section \<open>The array list as a list\<close>

definition al_list :: "array_list \<Rightarrow> JSTaggedValue list" where
  "al_list s = take (unat (al_length s)) (al_elements s)"

definition al_inv :: "array_list \<Rightarrow> bool" where
  "al_inv s \<longleftrightarrow> unat (al_length s) \<le> length (al_elements s) \<and> length (al_elements s) < 2147483648"

text \<open>\<open>Clear\<close> needs a free slot behind the elements.\<close>

definition al_spare :: "array_list \<Rightarrow> bool" where
  "al_spare s \<longleftrightarrow> unat (al_length s) < length (al_elements s)"

lemma al_holds: "al_inv s \<Longrightarrow> holds (al_elements s) (al_length s) (al_list s)"
  by (simp add: al_inv_def al_list_def holds_take)

lemma al_holdsI: "holds (al_elements s) (al_length s) xs \<Longrightarrow> al_inv s \<and> al_list s = xs"
  using holds_length [of "al_elements s" "al_length s" xs] holds_unique [of "al_elements s" "al_length s" xs]
  by (simp add: al_inv_def al_list_def)

lemmas al_length_facts = holds_length [OF al_holds]

lemma ArrayList_GrowCapacity_spec:
  assumes "al_inv s" "length (al_list s) < HALF_LIMIT"
  shows "\<exists>s'. ArrayList_GrowCapacity s (al_length s + 1) = Some s' \<and> al_length s' = al_length s \<and>
    holds (al_elements s') (al_length s) (al_list s) \<and> Suc (length (al_list s)) < length (al_elements s')"
proof -
  note f = al_length_facts [OF assms(1)]
  let ?c = "al_length s + 1"
  have c: "unat ?c = Suc (length (al_list s))" using f by (subst unat_inc) simp_all
  show ?thesis
  proof (cases "?c < TaggedArray_GetLength (al_elements s)")
    case True
    then have "Suc (length (al_list s)) < length (al_elements s)" using c f by (simp add: word_less_nat_alt)
    then show ?thesis using True al_holds [OF assms(1)] by (simp add: ArrayList_GrowCapacity_def)
  next
    case False
    let ?n = "ArrayList_ComputeCapacity ?c"
    have n: "unat ?c < unat ?n" "unat ?n < 2147483648"
      using grow_by_half_more [of ?c ARRAYLIST_DEFAULT_CAPACITY] grow_by_half_unat [of ?c ARRAYLIST_DEFAULT_CAPACITY]
        c assms(2)
      by (auto simp: ArrayList_ComputeCapacity_def ARRAYLIST_DEFAULT_CAPACITY_def HALF_LIMIT_def)
    have "length (al_elements s) < unat ?n" using False n f by (simp add: word_less_nat_alt)
    from holds_grow [OF al_holds [OF assms(1)] this n(2)] show ?thesis
      using False n c by (auto simp: ArrayList_GrowCapacity_def)
  qed
qed

lemma ArrayList_Add_spec:
  assumes "al_inv s" "length (al_list s) < HALF_LIMIT"
  shows "\<exists>s'. ArrayList_Add s v = Some s' \<and> al_inv s' \<and> al_list s' = al_list s @ [v] \<and> al_spare s'"
proof -
  obtain t where t: "ArrayList_GrowCapacity s (al_length s + 1) = Some t" "al_length t = al_length s"
      "holds (al_elements t) (al_length s) (al_list s)" "Suc (length (al_list s)) < length (al_elements t)"
    using ArrayList_GrowCapacity_spec [OF assms] by blast
  then have lt: "length (al_list s) < length (al_elements t)" by simp
  let ?t = "t\<lparr>al_elements := (al_elements t)[unat (al_length s) := v], al_length := al_length s + 1\<rparr>"
  note ap = holds_append [OF t(3) lt, of v]
  have "al_inv ?t \<and> al_list ?t = al_list s @ [v]" using ap(2) by (intro al_holdsI) simp
  moreover have "al_spare ?t" using t(4) holds_length(1) [OF ap(2)] by (simp add: al_spare_def)
  ultimately show ?thesis using ap t by (simp add: ArrayList_Add_def Let_def)
qed

lemma ArrayList_Insert_spec:
  assumes "al_inv s" "length (al_list s) < HALF_LIMIT"
  shows "unat index \<le> length (al_list s) \<Longrightarrow> \<exists>s'. ArrayList_Insert s v index = return_value s' \<and> al_inv s' \<and>
      al_list s' = take (unat index) (al_list s) @ v # drop (unat index) (al_list s) \<and> al_spare s'"
    and "\<not> unat index \<le> length (al_list s) \<Longrightarrow> ArrayList_Insert s v index =
      raise_error (range_error ''index'' (show_nat (length (al_list s))) (show_int (sint index)))"
proof -
  note f = al_length_facts [OF assms(1)]
  have out: "sint index < 0 \<or> int (length (al_list s)) < sint index \<longleftrightarrow> \<not> unat index \<le> length (al_list s)"
    using f by (intro sint_above)
  then show "\<not> unat index \<le> length (al_list s) \<Longrightarrow> ArrayList_Insert s v index =
      raise_error (range_error ''index'' (show_nat (length (al_list s))) (show_int (sint index)))"
    using f by (auto simp: ArrayList_Insert_def Let_def show_int_def)
  assume i: "unat index \<le> length (al_list s)"
  obtain t where t: "ArrayList_GrowCapacity s (al_length s + 1) = Some t" "al_length t = al_length s"
      "holds (al_elements t) (al_length s) (al_list s)" "Suc (length (al_list s)) < length (al_elements t)"
    using ArrayList_GrowCapacity_spec [OF assms] by blast
  then have lt: "length (al_list s) < length (al_elements t)" by simp
  obtain arr where arr: "InsertElementByIndex (al_elements t) v index (al_length s) = Some arr"
      "length arr = length (al_elements t)"
      "holds arr (al_length s + 1) (take (unat index) (al_list s) @ v # drop (unat index) (al_list s))"
    using holds_insert [OF t(3) lt i] by blast
  have "nat (sint (al_length s) - sint index) = unat (al_length s) - unat index"
    using i f sint_small [of index] by (simp only: nat_minus)
  then have "ArrayList_Insert s v index = return_value (t\<lparr>al_elements := arr, al_length := al_length s + 1\<rparr>)"
    using out i f t(1) arr(1) move_up_shift_up [of index "al_length s" "al_elements t"]
    by (auto simp: ArrayList_Insert_def Let_def InsertElementByIndex_def split: bind_splits)
  moreover have "al_spare (t\<lparr>al_elements := arr, al_length := al_length s + 1\<rparr>)"
    using t(4) i arr(2) holds_length(1) [OF arr(3)] by (simp add: al_spare_def)
  ultimately show "\<exists>s'. ArrayList_Insert s v index = return_value s' \<and> al_inv s' \<and>
      al_list s' = take (unat index) (al_list s) @ v # drop (unat index) (al_list s) \<and> al_spare s'"
    using al_holdsI [of "t\<lparr>al_elements := arr, al_length := al_length s + 1\<rparr>"] arr(3) by simp
qed

lemma ArrayList_Clear_spec:
  assumes "al_inv s"
  shows "al_spare s \<Longrightarrow> \<exists>s'. ArrayList_Clear s = Some s' \<and> al_inv s' \<and> al_list s' = [] \<and>
      length (al_elements s') = length (al_elements s) \<and> al_spare s'"
    and "\<not> al_spare s \<Longrightarrow> ArrayList_Clear s = None"
proof -
  note f = al_length_facts [OF assms]
  have n: "nat (sint (al_length s) + 1) = Suc (length (al_list s))" unfolding f(6) by simp
  show "\<exists>s'. ArrayList_Clear s = Some s' \<and> al_inv s' \<and> al_list s' = [] \<and>
      length (al_elements s') = length (al_elements s) \<and> al_spare s'" if "al_spare s"
  proof -
    have lt: "length (al_list s) < length (al_elements s)" using that f(1) by (simp add: al_spare_def)
    define arr where "arr = replicate (Suc (length (al_list s))) VHole @ drop (Suc (length (al_list s))) (al_elements s)"
    have len: "length arr = length (al_elements s)" using lt by (simp add: arr_def)
    have "ArrayList_Clear s = Some (s\<lparr>al_elements := arr, al_length := 0\<rparr>)"
      using f(4) lt by (simp add: ArrayList_Clear_def n fill_up_spec arr_def del: fill_up.simps)
    then show ?thesis using len lt f(3) by (auto simp: al_inv_def al_list_def al_spare_def)
  qed
  assume "\<not> al_spare s"
  then have "length (al_elements s) < Suc (length (al_list s))" using f by (simp add: al_spare_def)
  then show "ArrayList_Clear s = None" using f by (simp add: ArrayList_Clear_def n fill_up_outside del: fill_up.simps)
qed

lemma ArrayList_Clone_spec:
  assumes "al_inv s"
  shows "\<exists>s'. ArrayList_Clone s = Some s' \<and> al_inv s' \<and> al_list s' = al_list s \<and> \<not> al_spare s'"
proof -
  note f = al_length_facts [OF assms]
  obtain arr where "NewAndCopyTaggedArray (al_elements s) (al_length s) (al_length s) 0 = Some arr"
      "length arr = unat (al_length s)" "holds arr (al_length s) (al_list s)"
    using holds_copy [OF al_holds [OF assms], of "al_length s"] f by auto
  then show ?thesis
    using al_holdsI [of "\<lparr>al_elements = arr, al_length = al_length s\<rparr>"]
    by (simp add: ArrayList_Clone_def ArrayList_GetSize_def NewJSAPIArrayList_def al_spare_def Let_def)
qed

lemma ArrayList_IncreaseCapacityTo_spec:
  assumes "al_inv s"
  shows "\<exists>s'. ArrayList_IncreaseCapacityTo s c = Some s' \<and> al_inv s' \<and> al_list s' = al_list s"
proof (cases "sint (TaggedArray_GetLength (al_elements s)) \<noteq> sint c \<and> sint (al_length s) < sint c")
  case True
  note f = al_length_facts [OF assms]
  have c: "int (length (al_list s)) < sint c" using True f(6) by simp
  moreover have "unat c < 2147483648" using c sint_unat [of c] word32_bound [of c] by (auto split: if_splits)
  ultimately have "length (al_list s) \<le> unat c" "unat c < 2147483648" using sint_small [of c] by linarith+
  from holds_copy [OF al_holds [OF assms] this] obtain arr where
    "NewAndCopyTaggedArray (al_elements s) c (al_length s) 0 = Some arr" "holds arr (al_length s) (al_list s)" by blast
  then show ?thesis
    using True al_holdsI [of "s\<lparr>al_elements := arr\<rparr>"] by (simp add: ArrayList_IncreaseCapacityTo_def)
qed (use assms in \<open>auto simp: ArrayList_IncreaseCapacityTo_def\<close>)

lemma ArrayList_TrimToCurrentLength_spec:
  assumes "al_inv s"
  shows "al_inv (ArrayList_TrimToCurrentLength s)" "al_list (ArrayList_TrimToCurrentLength s) = al_list s"
    "\<not> al_spare (ArrayList_TrimToCurrentLength s)"
  using assms
  by (auto simp: ArrayList_TrimToCurrentLength_def ArrayList_GetCapacity_def al_inv_def al_list_def al_spare_def
      TaggedArray_Trim_def word_less_nat_alt not_less)

lemma ArrayList_Get_spec:
  assumes "al_inv s"
  shows "ArrayList_Get s i = (if unat i < length (al_list s) then return_value (al_list s ! unat i)
    else raise_error (range_error ''index'' (show_u32 (al_length s - 1)) (show_u32 i)))"
  using al_length_facts(1) [OF assms] holds_get [OF al_holds [OF assms], of i]
  by (simp add: ArrayList_Get_def word_le_nat_alt not_less)

lemma ArrayList_Set_spec:
  assumes "al_inv s"
  shows "unat i < length (al_list s) \<Longrightarrow> \<exists>s'. ArrayList_Set s i v = return_value s' \<and> al_inv s' \<and>
      al_list s' = (al_list s)[unat i := v] \<and> al_spare s' = al_spare s"
    and "\<not> unat i < length (al_list s) \<Longrightarrow>
      ArrayList_Set s i v = raise_error (range_error ''index'' (show_u32 (al_length s - 1)) (show_u32 i))"
proof -
  note f = al_length_facts [OF assms]
  show "\<not> unat i < length (al_list s) \<Longrightarrow>
      ArrayList_Set s i v = raise_error (range_error ''index'' (show_u32 (al_length s - 1)) (show_u32 i))"
    using f(1) by (simp add: ArrayList_Set_def word_le_nat_alt)
  assume i: "unat i < length (al_list s)"
  note u = holds_set [OF al_holds [OF assms] i, of v]
  then have "ArrayList_Set s i v = return_value (s\<lparr>al_elements := (al_elements s)[unat i := v]\<rparr>)"
    using i f(1) by (simp add: ArrayList_Set_def word_le_nat_alt not_le)
  then show "\<exists>s'. ArrayList_Set s i v = return_value s' \<and> al_inv s' \<and> al_list s' = (al_list s)[unat i := v] \<and>
      al_spare s' = al_spare s"
    using al_holdsI [of "s\<lparr>al_elements := (al_elements s)[unat i := v]\<rparr>"] u(2) by (simp add: al_spare_def)
qed

lemma ArrayList_GetIndexOf_spec:
  assumes "al_inv s"
  shows "ArrayList_GetIndexOf s v =
      Some (case first_index (JSTaggedValue_StrictEqual v) (al_list s) of Some i \<Rightarrow> word_of_nat i | None \<Rightarrow> - 1)"
    and "ArrayList_GetLastIndexOf s v =
      Some (case last_index (JSTaggedValue_StrictEqual v) (al_list s) of Some i \<Rightarrow> word_of_nat i | None \<Rightarrow> - 1)"
proof -
  have "nat (sint (al_length s)) = unat (al_length s)" using al_length_facts [OF assms] by (simp only: nat_int)
  then show "ArrayList_GetIndexOf s v =
      Some (case first_index (JSTaggedValue_StrictEqual v) (al_list s) of Some i \<Rightarrow> word_of_nat i | None \<Rightarrow> - 1)"
    "ArrayList_GetLastIndexOf s v =
      Some (case last_index (JSTaggedValue_StrictEqual v) (al_list s) of Some i \<Rightarrow> word_of_nat i | None \<Rightarrow> - 1)"
    using holds_search_up [OF al_holds [OF assms]] holds_search_down [OF al_holds [OF assms]]
    by (auto simp: ArrayList_GetIndexOf_def ArrayList_GetLastIndexOf_def split: option.split)
qed

lemma ArrayList_RemoveByIndex_spec:
  assumes "al_inv s"
  shows "unat i < length (al_list s) \<Longrightarrow> \<exists>s'. ArrayList_RemoveByIndex s i = return_value (al_list s ! unat i, s') \<and>
      al_inv s' \<and> al_list s' = take (unat i) (al_list s) @ drop (Suc (unat i)) (al_list s) \<and> al_spare s'"
    and "\<not> unat i < length (al_list s) \<Longrightarrow> ArrayList_RemoveByIndex s i =
      raise_error (range_error ''index'' (show_int (int (length (al_list s)) - 1)) (show_int (sint i)))"
proof -
  note f = al_length_facts [OF assms]
  have out: "sint i < 0 \<or> int (length (al_list s)) \<le> sint i \<longleftrightarrow> \<not> unat i < length (al_list s)"
    using f by (intro sint_outside)
  then show "\<not> unat i < length (al_list s) \<Longrightarrow> ArrayList_RemoveByIndex s i =
      raise_error (range_error ''index'' (show_int (int (length (al_list s)) - 1)) (show_int (sint i)))"
    using f by (auto simp: ArrayList_RemoveByIndex_def Let_def)
  assume i: "unat i < length (al_list s)"
  obtain arr where arr: "RemoveElementByIndex (al_elements s) i (al_length s) = Some arr"
      "length arr = length (al_elements s)"
      "holds arr (al_length s - 1) (take (unat i) (al_list s) @ drop (Suc (unat i)) (al_list s))"
    using holds_remove [OF al_holds [OF assms] i] by blast
  let ?s = "s\<lparr>al_elements := arr, al_length := al_length s - 1\<rparr>"
  have "ArrayList_RemoveByIndex s i = return_value (al_list s ! unat i, ?s)"
    using out i f arr(1) holds_get [OF al_holds [OF assms] i] by (auto simp: ArrayList_RemoveByIndex_def Let_def)
  moreover have "al_spare ?s" using holds_length(1) [OF arr(3)] arr(2) f i by (simp add: al_spare_def)
  ultimately show "\<exists>s'. ArrayList_RemoveByIndex s i = return_value (al_list s ! unat i, s') \<and>
      al_inv s' \<and> al_list s' = take (unat i) (al_list s) @ drop (Suc (unat i)) (al_list s) \<and> al_spare s'"
    using al_holdsI [of ?s] arr(3) by simp
qed

lemma ArrayList_Remove_spec:
  assumes "al_inv s"
  shows "\<exists>s'. ArrayList_Remove s v =
      Some (first_index (JSTaggedValue_StrictEqual v) (al_list s) \<noteq> None, s') \<and> al_inv s' \<and>
      al_list s' = (case first_index (JSTaggedValue_StrictEqual v) (al_list s) of
        None \<Rightarrow> al_list s | Some i \<Rightarrow> take i (al_list s) @ drop (Suc i) (al_list s)) \<and>
      al_spare s' = (first_index (JSTaggedValue_StrictEqual v) (al_list s) \<noteq> None \<or> al_spare s)"
proof (cases "first_index (JSTaggedValue_StrictEqual v) (al_list s)")
  case None
  then show ?thesis using assms ArrayList_GetIndexOf_spec(1) [OF assms, of v] by (auto simp: ArrayList_Remove_def)
next
  case (Some i)
  note f = al_length_facts [OF assms]
  have i: "i < length (al_list s)" using first_index_Some(1) [OF Some] .
  then have u: "unat (word_of_nat i :: u32) = i" "\<not> sint (word_of_nat i :: u32) < 0"
    using f sint_length [of "word_of_nat i" i] by (simp_all add: unat_of_nat)
  obtain arr where arr: "RemoveElementByIndex (al_elements s) (word_of_nat i) (al_length s) = Some arr"
      "length arr = length (al_elements s)" "holds arr (al_length s - 1) (take i (al_list s) @ drop (Suc i) (al_list s))"
    using holds_remove [OF al_holds [OF assms], of "word_of_nat i"] u i by auto
  have "al_spare (s\<lparr>al_elements := arr, al_length := al_length s - 1\<rparr>)"
    using holds_length(1) [OF arr(3)] arr(2) f i by (simp add: al_spare_def)
  then show ?thesis
    using arr(1,3) Some u ArrayList_GetIndexOf_spec(1) [OF assms, of v]
      al_holdsI [of "s\<lparr>al_elements := arr, al_length := al_length s - 1\<rparr>"]
    by (auto simp: ArrayList_Remove_def ArrayList_GetSize_def)
qed

lemma range_check_None:
  assumes "al_inv s"
  shows "ArrayList_range_check s from to = None \<longleftrightarrow> unat from < unat to \<and> unat to \<le> length (al_list s)"
proof -
  note f = al_length_facts(5,6) [OF assms]
  have "(sint from < 0 \<or> sint from \<ge> min (int (length (al_list s))) (sint to)) \<or>
      (sint to \<le> sint from \<or> sint to < 0 \<or> sint to > int (length (al_list s))) \<longleftrightarrow>
      \<not> (unat from < unat to \<and> unat to \<le> length (al_list s))"
    using f(1) sint_above [of "length (al_list s)" to] sint_above [of "length (al_list s)" "from"]
      sint_small [of to] sint_small [of "from"] by linarith
  then show ?thesis unfolding ArrayList_range_check_def Let_def f(2) by (auto simp: min_def)
qed

lemma ArrayList_RemoveByRange_spec:
  assumes "al_inv s" "unat from < unat to" "unat to \<le> length (al_list s)"
  shows "\<exists>s'. ArrayList_RemoveByRange s from to = return_value s' \<and> al_inv s' \<and>
    al_list s' = take (unat from) (al_list s) @ drop (unat to) (al_list s) \<and> \<not> al_spare s'"
proof -
  note f = al_length_facts [OF assms(1)]
  let ?n = "al_length s - (to - from)"
  have n: "unat ?n = length (al_list s) - (unat to - unat from)"
    using assms f by (simp add: unat_sub word_le_nat_alt)
  obtain arr where arr: "move_down (length (al_list s) - unat to) (al_elements s) from to = Some arr"
      "holds arr ?n (take (unat from) (al_list s) @ drop (unat to) (al_list s))"
    using holds_cut [OF al_holds [OF assms(1)], of "unat from" "unat to" "from" to ?n] assms n by auto
  have to: "sint to = int (unat to)" using assms f by (intro sint_small) simp
  have c: "nat (sint (al_length s) - (if sint to \<ge> sint (al_length s) then sint (al_length s) else sint to)) =
      length (al_list s) - unat to"
    using assms(3) unfolding f(6) to by (auto simp only: nat_minus split: if_split)
  have "holds (take (unat ?n) arr) ?n (take (unat from) (al_list s) @ drop (unat to) (al_list s))"
    using arr(2) by (rule holds_trim)
  moreover have "length (take (unat ?n) arr) = unat ?n" using holds_length [OF arr(2)] by simp
  moreover have "ArrayList_range_check s from to = None" using range_check_None [OF assms(1)] assms by simp
  ultimately show ?thesis
    using arr(1) c
      al_holdsI [of "s\<lparr>al_length := ?n, al_elements := take (unat ?n) arr\<rparr>"]
    by (simp add: ArrayList_RemoveByRange_def Let_def al_spare_def)
qed

lemma ArrayList_RemoveByRange_error:
  "ArrayList_range_check s from to = Some e \<Longrightarrow> ArrayList_RemoveByRange s from to = raise_error e"
  by (simp add: ArrayList_RemoveByRange_def)

lemma set_all_spec:
  assumes "al_inv sub" "unat i + c \<le> length (al_list sub)" "unat from + c \<le> length els" "fits els"
  shows "\<exists>sub'. set_all c sub i els from = return_value sub' \<and> al_inv sub' \<and>
    al_list sub' = take (unat i) (al_list sub) @ take c (drop (unat from) els) @ drop (unat i + c) (al_list sub)"
  using assms
proof (induction c arbitrary: sub i "from")
  case (Suc c)
  have i: "unat i < length (al_list sub)" using Suc.prems by simp
  obtain t where t: "ArrayList_Set sub i (els ! unat from) = return_value t" "al_inv t"
      "al_list t = (al_list sub)[unat i := els ! unat from]"
    using ArrayList_Set_spec(1) [OF Suc.prems(1) i] by blast
  have u: "unat (i + 1) = Suc (unat i)" "unat (from + 1) = Suc (unat from)"
    using Suc.prems al_length_facts(5) [OF Suc.prems(1)] by (auto intro!: unat_inc)
  have "take (Suc c) (drop (unat from) els) = els ! unat from # take c (drop (Suc (unat from)) els)"
    using Suc.prems by (simp add: Cons_nth_drop_Suc [symmetric])
  then show ?case
    using Suc.IH [OF t(2), of "i + 1" "from + 1"] Suc.prems i t u by (auto simp: update_step)
qed simp

lemma ArrayList_SubArrayList_spec:
  assumes "al_inv s" "unat from < unat to" "unat to \<le> length (al_list s)"
  shows "\<exists>s'. ArrayList_SubArrayList s from to = return_value s' \<and> al_inv s' \<and>
    al_list s' = take (unat to - unat from) (drop (unat from) (al_list s))"
proof -
  note f = al_length_facts [OF assms(1)]
  have pos: "0 < al_length s" using assms(2,3) f(1) unfolding word_less_nat_alt unat_0 by linarith
  let ?len = "al_length s"
  let ?e = "if sint to \<ge> sint (?len - 1) then ?len - 1 else to"
  let ?n = "if to = ?len then ?len - from else ?e - from"
  have l1: "unat (?len - 1) = length (al_list s) - 1" using unat_pred [OF pos] f by simp
  have "sint to = int (unat to)" using assms f by (intro sint_small) simp
  moreover have "sint (?len - 1) = int (length (al_list s) - 1)" using f(5) by (intro sint_length l1) simp
  moreover have "to \<noteq> ?len \<longleftrightarrow> unat to < length (al_list s)" using assms f by (auto simp: word_unat_eq_iff)
  ultimately have "to \<noteq> ?len \<Longrightarrow> sint to \<ge> sint (?len - 1) \<Longrightarrow> unat (?len - 1) = unat to" using l1 by linarith
  then have "to \<noteq> ?len \<Longrightarrow> ?e = to" by (simp add: word_unat_eq_iff)
  then have "?n = to - from" by simp
  moreover have n: "unat (to - from) = unat to - unat from" "to - from \<noteq> 0"
    using assms by (auto simp: unat_sub word_le_nat_alt)
  moreover have "holds (NewTaggedArray (to - from) VHole) (to - from) (NewTaggedArray (to - from) VHole)"
    using n assms f by (simp add: holds_def)
  then have sub: "al_inv ((NewJSAPIArrayList (to - from))\<lparr>al_length := to - from\<rparr>)"
    "length (al_list ((NewJSAPIArrayList (to - from))\<lparr>al_length := to - from\<rparr>)) = unat to - unat from"
    using al_holdsI [of "(NewJSAPIArrayList (to - from))\<lparr>al_length := to - from\<rparr>"] n
    by (simp_all add: NewJSAPIArrayList_def)
  moreover have "take (unat to - unat from) (drop (unat from) (al_elements s)) =
      take (unat to - unat from) (drop (unat from) (al_list s))"
    using assms f(1,2) unfolding al_list_def by (simp add: drop_take min_def)
  ultimately show ?thesis
    using set_all_spec [OF sub(1), of 0 "unat to - unat from" "from" "al_elements s"]
      range_check_None [OF assms(1), of "from" to] assms f(2,4)
    by (simp add: ArrayList_SubArrayList_def Let_def)
qed

lemma ArrayList_Has_spec:
  assumes "al_inv s"
  shows "ArrayList_Has s v = Some (\<exists>x \<in> set (al_list s). JSTaggedValue_SameValue x v)"
proof -
  have "al_length s = 0 \<Longrightarrow> al_list s = []" by (simp add: al_list_def)
  then show ?thesis
    using first_index_None [of "\<lambda>x. JSTaggedValue_SameValue x v" "al_list s"]
      holds_search_up [OF al_holds [OF assms]]
    by (auto simp: ArrayList_Has_def ArrayList_GetSize_def simp del: not_None_eq)
qed

lemma ArrayList_GetProperty_spec:
  assumes "al_inv s"
  shows "ArrayList_GetProperty s key =
    (if unat key < length (al_list s) then return_value (al_list s ! unat key)
     else raise_error (range_error ''index'' (show_int (int (length (al_list s)) - 1)) (show_int (sint key))))"
  using al_length_facts [OF assms] sint_outside [of "length (al_list s)" key]
  by (auto simp: ArrayList_GetProperty_def Let_def ArrayList_Get_spec [OF assms])

lemma ArrayList_SetProperty_spec:
  assumes "al_inv s"
  shows "\<exists>s'. ArrayList_SetProperty s key v = return_value (unat key < length (al_list s), s') \<and> al_inv s' \<and>
    al_list s' = (al_list s)[unat key := v]"
proof -
  note f = al_length_facts [OF assms]
  have out: "sint key < 0 \<or> int (length (al_list s)) \<le> sint key \<longleftrightarrow> \<not> unat key < length (al_list s)"
    using f by (intro sint_outside)
  show ?thesis
  proof (cases "unat key < length (al_list s)")
    case True
    then show ?thesis
      using ArrayList_Set_spec(1) [OF assms True, of v] out f(6) by (auto simp: ArrayList_SetProperty_def Let_def)
  next
    case False
    then show ?thesis using out f(6) assms by (auto simp: ArrayList_SetProperty_def Let_def list_update_beyond)
  qed
qed

interpretation array_list: growable_list al_inv al_list HALF_LIMIT ArrayList_Add ArrayList_Get ArrayList_GetSize
  using ArrayList_Add_spec
  by unfold_locales (blast, simp add: ArrayList_Get_spec, simp add: ArrayList_GetSize_def al_length_facts)

text \<open>A callback that leaves the list alone replaces every element by its result.\<close>

lemma replace_all_spec:
  assumes "al_inv s" "unat k + c = length (al_list s)"
  shows "\<exists>w' s'. replace_all (quiet_callback al_list f) c w s k = Some (w', s', Inr ()) \<and> al_inv s' \<and>
    replace_run f w (take (unat k) (al_list s)) (drop (unat k) (al_list s)) = (w', al_list s')"
  using assms
proof (induction c arbitrary: w s k)
  case (Suc c)
  have k: "unat k < length (al_list s)" using Suc.prems by simp
  obtain w1 x where f: "f w (al_list s) (al_list s ! unat k) k = (w1, x)" by (cases "f w (al_list s) (al_list s ! unat k) k")
  obtain t where t: "ArrayList_Set s k x = return_value t" "al_inv t" "al_list t = (al_list s)[unat k := x]"
    using ArrayList_Set_spec(1) [OF Suc.prems(1) k] by blast
  have u: "unat (k + 1) = Suc (unat k)"
    using k al_length_facts(5) [OF Suc.prems(1)] by (intro unat_inc) simp
  obtain w' s' where s': "replace_all (quiet_callback al_list f) c w1 t (k + 1) = Some (w', s', Inr ())" "al_inv s'"
    "replace_run f w1 (take (Suc (unat k)) (al_list t)) (drop (Suc (unat k)) (al_list t)) = (w', al_list s')"
    using Suc.IH [OF t(2), of "k + 1" w1] Suc.prems(2) t(3) u by auto
  have "replace_run f w (take (unat k) (al_list s)) (drop (unat k) (al_list s)) = (w', al_list s')"
    using s'(3) k f by (simp add: t(3) replace_run_step)
  moreover have "quiet_callback al_list f w s (al_list s ! unat k) k = Some (w1, s, Inr x)" using f by (simp add: quiet_callback_def)
  ultimately show ?case using ArrayList_Get_spec [OF Suc.prems(1), of k] k t(1) s'(1,2) by simp
qed simp

lemma ArrayListIterator_Next_spec:
  assumes "al_inv s"
  shows "ArrayListIterator_Next s (True, i) =
    (if unat i < length (al_list s) then return_value (Some (al_list s ! unat i), (True, i + 1))
     else return_value (None, (False, i)))"
  using ArrayList_Get_spec [OF assms, of i] al_length_facts(1) [OF assms]
  by (simp add: ArrayListIterator_Next_def word_le_nat_alt not_le)

lemma ArrayListConstructor_spec:
  "\<exists>s. ArrayListConstructor False = return_value s \<and> al_inv s \<and> al_list s = [] \<and> al_spare s"
  by (simp add: ArrayListConstructor_def al_inv_def al_list_def al_spare_def ARRAYLIST_DEFAULT_CAPACITY_def)

end
