(* ===== verification/Container_Vector.thy ===== *)
theory Container_Vector
  imports Container_Common
begin

text \<open>
  \<open>JSAPIVector\<close> (\<open>ecmascript/js_api/js_api_vector.cpp\<close> and \<open>.h\<close>), its iterator and its constructor
  (\<open>ecmascript/containers/containers_vector.cpp\<close>).  The conversion of an element to text in \<open>ToString\<close> is a
  parameter, as are callbacks.
\<close>

section \<open>Definitions\<close>

record vector =
  vec_elements :: tagged_array
  vec_length :: u32

definition VECTOR_DEFAULT_CAPACITY :: u32 where "VECTOR_DEFAULT_CAPACITY = 10"
definition VECTOR_MAX_VALUE :: u32 where "VECTOR_MAX_VALUE = 0x7fffffff"
definition VECTOR_MAX_ARRAY_SIZE :: u32 where "VECTOR_MAX_ARRAY_SIZE = VECTOR_MAX_VALUE - 8"

definition NewJSAPIVector :: "u32 \<Rightarrow> vector" where
  "NewJSAPIVector capacity = \<lparr>vec_elements = NewTaggedArray capacity VHole, vec_length = 0\<rparr>"

definition VectorConstructor :: "bool \<Rightarrow> vector outcome" where
  "VectorConstructor newTargetUndefined =
     (if newTargetUndefined then raise_error (TypeError ''new target can't be undefined'')
      else return_value \<lparr>vec_elements = NewTaggedArray VECTOR_DEFAULT_CAPACITY VHole, vec_length = 0\<rparr>)"

definition Vector_GetSize :: "vector \<Rightarrow> u32" where
  "Vector_GetSize s = vec_length s"

definition Vector_GrowCapacity :: "vector \<Rightarrow> u32 \<Rightarrow> vector option" where
  "Vector_GrowCapacity s minCapacity =
     (let oldCapacity = TaggedArray_GetLength (vec_elements s) in
      if minCapacity > oldCapacity then do {
        let newCapacity = oldCapacity * 2;
        let newCapacity = (if newCapacity < minCapacity then minCapacity else newCapacity);
        let newCapacity =
          (if newCapacity > VECTOR_MAX_ARRAY_SIZE
           then (if minCapacity > VECTOR_MAX_ARRAY_SIZE then VECTOR_MAX_VALUE else VECTOR_MAX_ARRAY_SIZE)
           else newCapacity);
        newElements \<leftarrow> CopyArray (vec_elements s) oldCapacity newCapacity;
        Some (s\<lparr>vec_elements := newElements\<rparr>)
      } else Some s)"

definition Vector_Add :: "vector \<Rightarrow> JSTaggedValue \<Rightarrow> vector option" where
  "Vector_Add s v = do {
     let len = Vector_GetSize s;
     s' \<leftarrow> Vector_GrowCapacity s (len + 1);
     els \<leftarrow> TaggedArray_Set (vec_elements s') len v;
     Some (s'\<lparr>vec_elements := els, vec_length := len + 1\<rparr>)
   }"

definition Vector_Insert :: "vector \<Rightarrow> JSTaggedValue \<Rightarrow> u32 \<Rightarrow> vector outcome" where
  "Vector_Insert s v index =
     (let len = Vector_GetSize s in
      if sint index < 0 \<or> sint index > sint len then raise_error (RangeError ''the index is out-of-bounds'')
      else do {
        s' \<leftarrow> Vector_GrowCapacity s (len + 1);
        els \<leftarrow> move_up (nat (sint len - sint index)) (vec_elements s') (len - 1);
        els' \<leftarrow> TaggedArray_Set els index v;
        return_value (s'\<lparr>vec_elements := els', vec_length := len + 1\<rparr>)
      })"

definition Vector_SetLength :: "vector \<Rightarrow> u32 \<Rightarrow> vector option" where
  "Vector_SetLength s newSize = do {
     s' \<leftarrow> (if newSize > Vector_GetSize s then Vector_GrowCapacity s newSize else Some s);
     Some (s'\<lparr>vec_length := newSize\<rparr>)
   }"

definition Vector_GetCapacity :: "vector \<Rightarrow> u32" where
  "Vector_GetCapacity s = TaggedArray_GetLength (vec_elements s)"

definition Vector_IncreaseCapacityTo :: "vector \<Rightarrow> u32 \<Rightarrow> vector outcome" where
  "Vector_IncreaseCapacityTo s newCapacity =
     (if sint newCapacity < 0 then raise_error (RangeError ''An incorrect size was set'')
      else
        let oldCapacity = TaggedArray_GetLength (vec_elements s) in
        if oldCapacity < newCapacity then do {
          newElements \<leftarrow> CopyArray (vec_elements s) oldCapacity newCapacity;
          return_value (s\<lparr>vec_elements := newElements\<rparr>)
        } else return_value s)"

definition Vector_GetIndexFrom :: "vector \<Rightarrow> JSTaggedValue \<Rightarrow> u32 \<Rightarrow> u32 outcome" where
  "Vector_GetIndexFrom s obj index =
     (let len = Vector_GetSize s in
      if sint index \<ge> 0 \<and> sint index \<ge> sint len then raise_error (RangeError ''no-such-element'')
      else do {
        r \<leftarrow> search_up (\<lambda>x. JSTaggedValue_StrictEqual obj x) (vec_elements s) (if sint index < 0 then 0 else index) len;
        return_value (case r of Some i \<Rightarrow> i | None \<Rightarrow> - 1)
      })"

definition Vector_GetIndexOf :: "vector \<Rightarrow> JSTaggedValue \<Rightarrow> u32 outcome" where
  "Vector_GetIndexOf s obj = Vector_GetIndexFrom s obj 0"

definition Vector_IsEmpty :: "vector \<Rightarrow> bool" where
  "Vector_IsEmpty s \<longleftrightarrow> Vector_GetSize s = 0"

definition Vector_GetLastElement :: "vector \<Rightarrow> JSTaggedValue option" where
  "Vector_GetLastElement s =
     (if Vector_GetSize s = 0 then Some VUndefined else TaggedArray_Get (vec_elements s) (Vector_GetSize s - 1))"

definition Vector_GetFirstElement :: "vector \<Rightarrow> JSTaggedValue option" where
  "Vector_GetFirstElement s =
     (if Vector_GetSize s = 0 then Some VUndefined else TaggedArray_Get (vec_elements s) 0)"

definition Vector_GetLastIndexFrom :: "vector \<Rightarrow> JSTaggedValue \<Rightarrow> u32 \<Rightarrow> u32 outcome" where
  "Vector_GetLastIndexFrom s obj index =
     (if sint index \<ge> sint (Vector_GetSize s) then raise_error (RangeError ''index-out-of-bounds'')
      else do {
        let i = (if sint index < 0 then 0 else sint index);
        r \<leftarrow> search_down (\<lambda>x. JSTaggedValue_StrictEqual obj x) (vec_elements s) (nat (i + 1));
        return_value (case r of Some i \<Rightarrow> i | None \<Rightarrow> - 1)
      })"

definition Vector_GetLastIndexOf :: "vector \<Rightarrow> JSTaggedValue \<Rightarrow> u32 outcome" where
  "Vector_GetLastIndexOf s obj =
     (let index = Vector_GetSize s - 1 in
      if sint index < 0 then return_value (- 1) else Vector_GetLastIndexFrom s obj index)"

definition Vector_Remove :: "vector \<Rightarrow> JSTaggedValue \<Rightarrow> (bool \<times> vector) outcome" where
  "Vector_Remove s obj = do {
     r \<leftarrow> Vector_GetIndexOf s obj;
     case r of
       Inl e \<Rightarrow> raise_error e
     | Inr index \<Rightarrow>
         if sint index \<ge> 0 then do {
           els \<leftarrow> RemoveElementByIndex (vec_elements s) index (Vector_GetSize s);
           return_value (True, s\<lparr>vec_elements := els, vec_length := Vector_GetSize s - 1\<rparr>)
         } else return_value (False, s)
   }"

definition Vector_RemoveByIndex :: "vector \<Rightarrow> u32 \<Rightarrow> (JSTaggedValue \<times> vector) outcome" where
  "Vector_RemoveByIndex s index =
     (let len = Vector_GetSize s in
      if sint index < 0 \<or> sint index \<ge> sint len then raise_error (RangeError ''the index is out-of-bounds'')
      else do {
        oldValue \<leftarrow> TaggedArray_Get (vec_elements s) index;
        els \<leftarrow> RemoveElementByIndex (vec_elements s) index len;
        return_value (oldValue, s\<lparr>vec_elements := els, vec_length := len - 1\<rparr>)
      })"

definition Vector_RemoveByRange :: "vector \<Rightarrow> u32 \<Rightarrow> u32 \<Rightarrow> vector outcome" where
  "Vector_RemoveByRange s fromIndex toIndex =
     (let len = Vector_GetSize s in
      if sint toIndex \<le> sint fromIndex
      then raise_error (RangeError ''the fromIndex cannot be less than or equal to toIndex'')
      else if sint fromIndex < 0 \<or> sint fromIndex \<ge> sint len
      then raise_error (RangeError ''the fromIndex or the toIndex is out-of-bounds'')
      else do {
        let endIndex = (if sint toIndex \<ge> sint len then len else toIndex);
        els \<leftarrow> move_down (nat (sint len - sint endIndex)) (vec_elements s) fromIndex endIndex;
        let newLength = len - (endIndex - fromIndex);
        return_value (s\<lparr>vec_elements := take (unat newLength) els, vec_length := newLength\<rparr>)
      })"

text \<open>\<open>Set\<close> does not check its index.\<close>

definition Vector_Set :: "vector \<Rightarrow> u32 \<Rightarrow> JSTaggedValue \<Rightarrow> vector option" where
  "Vector_Set s index v = do {
     els \<leftarrow> TaggedArray_Set (vec_elements s) index v;
     Some (s\<lparr>vec_elements := els\<rparr>)
   }"

definition Vector_Get :: "vector \<Rightarrow> u32 \<Rightarrow> JSTaggedValue outcome" where
  "Vector_Get s index =
     (if sint index < 0 \<or> sint index \<ge> sint (Vector_GetSize s)
      then raise_error (RangeError ''the index is out-of-bounds'')
      else do { v \<leftarrow> TaggedArray_Get (vec_elements s) index; return_value v })"

definition Vector_SubVector :: "vector \<Rightarrow> u32 \<Rightarrow> u32 \<Rightarrow> vector outcome" where
  "Vector_SubVector s fromIndex toIndex =
     (let len = Vector_GetSize s in
      if sint fromIndex < 0 \<or> sint toIndex < 0 \<or> sint fromIndex \<ge> sint len \<or> sint toIndex \<ge> sint len
      then raise_error (RangeError ''the fromIndex or the toIndex is out-of-bounds'')
      else if sint toIndex \<le> sint fromIndex
      then raise_error (RangeError ''the fromIndex cannot be less than or equal to toIndex'')
      else do {
        let newLength = toIndex - fromIndex;
        let sub = NewJSAPIVector newLength;
        els \<leftarrow> copy_up (unat newLength) (vec_elements sub) 0 (vec_elements s) fromIndex;
        return_value (sub\<lparr>vec_length := newLength, vec_elements := els\<rparr>)
      })"

text \<open>The loop of \<open>ToString\<close>: undefined and null give no text, the others what \<open>toText\<close> says.\<close>

fun concat_from ::
    "(JSTaggedValue \<Rightarrow> u16 list result) \<Rightarrow> nat \<Rightarrow> vector \<Rightarrow> u32 \<Rightarrow> u16 list \<Rightarrow> u16 list outcome" where
  "concat_from toText 0 s k concatStr = return_value concatStr"
| "concat_from toText (Suc c) s k concatStr = do {
     r \<leftarrow> Vector_Get s k;
     case r of
       Inl e \<Rightarrow> raise_error e
     | Inr element \<Rightarrow>
         (case (if element \<noteq> VUndefined \<and> element \<noteq> VNull then toText element else Inr []) of
            Inl e \<Rightarrow> raise_error e
          | Inr nextStr \<Rightarrow>
              concat_from toText c s (k + 1) (if k > 0 then concatStr @ [0x2C] @ nextStr else concatStr @ nextStr))
   }"

definition Vector_ToString :: "(JSTaggedValue \<Rightarrow> u16 list result) \<Rightarrow> vector \<Rightarrow> u16 list outcome" where
  "Vector_ToString toText s = concat_from toText (unat (Vector_GetSize s)) s 0 []"

definition Vector_ForEach ::
    "('w, vector) callback \<Rightarrow> 'w \<Rightarrow> vector \<Rightarrow> ('w \<times> vector \<times> unit result) option" where
  "Vector_ForEach callbackFn w s = for_each Vector_GetSize Vector_Get callbackFn w s 0 (Vector_GetSize s)"

partial_function (option) replace_vector ::
    "('w, vector) callback \<Rightarrow> 'w \<Rightarrow> vector \<Rightarrow> u32 \<Rightarrow> u32 \<Rightarrow> ('w \<times> vector \<times> unit result) option" where
  "replace_vector callbackFn w s k len =
     (if k < len then do {
        r \<leftarrow> Vector_Get s k;
        case r of
          Inl e \<Rightarrow> Some (w, s, Inl e)
        | Inr v \<Rightarrow> do {
            (w', s', res) \<leftarrow> callbackFn w s v k;
            case res of
              Inl e \<Rightarrow> Some (w', s', Inl e)
            | Inr funcResult \<Rightarrow>
                if len \<noteq> Vector_GetSize s' \<and> k \<ge> Vector_GetSize s' then Some (w', s', Inr ())
                else do {
                  s'' \<leftarrow> Vector_Set s' k funcResult;
                  replace_vector callbackFn w' s'' (k + 1) (Vector_GetSize s')
                }
          }
      } else Some (w, s, Inr ()))"

definition Vector_ReplaceAllElements ::
    "('w, vector) callback \<Rightarrow> 'w \<Rightarrow> vector \<Rightarrow> ('w \<times> vector \<times> unit result) option" where
  "Vector_ReplaceAllElements callbackFn w s = replace_vector callbackFn w s 0 (Vector_GetSize s)"

definition Vector_Has :: "vector \<Rightarrow> JSTaggedValue \<Rightarrow> bool option" where
  "Vector_Has s v =
     (if Vector_GetSize s = 0 then Some False
      else do {
        r \<leftarrow> search_up (\<lambda>x. JSTaggedValue_SameValue x v) (vec_elements s) 0 (Vector_GetSize s);
        Some (r \<noteq> None)
      })"

definition Vector_GetOwnProperty :: "vector \<Rightarrow> u32 option \<Rightarrow> bool outcome" where
  "Vector_GetOwnProperty s elementIndex = (case elementIndex of
     None \<Rightarrow> raise_error (TypeError ''Can not obtain attributes of no-number type'')
   | Some index \<Rightarrow>
       if index \<ge> Vector_GetSize s then raise_error (RangeError ''GetOwnProperty index out-of-bounds'')
       else do {
         r \<leftarrow> Vector_Get s index;
         case r of Inl e \<Rightarrow> raise_error e | Inr v \<Rightarrow> return_value True
       })"

definition Vector_TrimToCurrentLength :: "vector \<Rightarrow> vector" where
  "Vector_TrimToCurrentLength s =
     (if Vector_GetCapacity s > Vector_GetSize s
      then s\<lparr>vec_elements := TaggedArray_Trim (vec_elements s) (Vector_GetSize s)\<rparr>
      else s)"

definition Vector_Clear :: "vector \<Rightarrow> vector option" where
  "Vector_Clear s = do {
     els \<leftarrow> fill_up (unat (vec_length s)) (vec_elements s) 0 VHole;
     Some (s\<lparr>vec_elements := els, vec_length := 0\<rparr>)
   }"

definition Vector_Clone :: "vector \<Rightarrow> vector option" where
  "Vector_Clone s = do {
     let len = Vector_GetSize s;
     dstElements \<leftarrow> NewAndCopyTaggedArray (vec_elements s) len len 0;
     Some ((NewJSAPIVector 0)\<lparr>vec_length := len, vec_elements := dstElements\<rparr>)
   }"

definition Vector_GetProperty :: "vector \<Rightarrow> u32 \<Rightarrow> JSTaggedValue outcome" where
  "Vector_GetProperty s key =
     (if sint key < 0 \<or> sint key \<ge> sint (Vector_GetSize s)
      then raise_error (RangeError ''GetProperty index out-of-bounds'')
      else Vector_Get s key)"

definition Vector_SetProperty :: "vector \<Rightarrow> u32 \<Rightarrow> JSTaggedValue \<Rightarrow> (bool \<times> vector) option" where
  "Vector_SetProperty s key v =
     (if sint key < 0 \<or> sint key \<ge> sint (Vector_GetSize s) then Some (False, s)
      else do { s' \<leftarrow> Vector_Set s key v; Some (True, s') })"

definition VectorIterator_Next ::
    "vector \<Rightarrow> (bool \<times> u32) \<Rightarrow> (JSTaggedValue option \<times> (bool \<times> u32)) outcome" where
  "VectorIterator_Next s it = (case it of (iterating, index) \<Rightarrow>
     if \<not> iterating then return_value (None, it)
     else if index \<ge> Vector_GetSize s then return_value (None, (False, index))
     else do {
       r \<leftarrow> Vector_Get s index;
       case r of Inl e \<Rightarrow> raise_error e | Inr v \<Rightarrow> return_value (Some v, (True, index + 1))
     })"

section \<open>The vector as a list\<close>

definition vec_list :: "vector \<Rightarrow> JSTaggedValue list" where
  "vec_list s = take (unat (vec_length s)) (vec_elements s)"

definition vec_inv :: "vector \<Rightarrow> bool" where
  "vec_inv s \<longleftrightarrow> unat (vec_length s) \<le> length (vec_elements s) \<and> length (vec_elements s) < 2147483648"

definition VECTOR_LIMIT :: nat where "VECTOR_LIMIT = 2147483639"

lemma vec_holds: "vec_inv s \<Longrightarrow> holds (vec_elements s) (vec_length s) (vec_list s)"
  by (simp add: vec_inv_def vec_list_def holds_take)

lemma vec_holdsI: "holds (vec_elements s) (vec_length s) xs \<Longrightarrow> vec_inv s \<and> vec_list s = xs"
  using holds_length [of "vec_elements s" "vec_length s" xs] holds_unique [of "vec_elements s" "vec_length s" xs]
  by (simp add: vec_inv_def vec_list_def)

lemmas vec_length_facts = holds_length [OF vec_holds]

text \<open>The array grows to at least the capacity asked for, up to the largest array size.\<close>

lemma Vector_GrowCapacity_spec:
  assumes "vec_inv s" "unat c \<le> VECTOR_LIMIT"
  shows "\<exists>s'. Vector_GrowCapacity s c = Some s' \<and> vec_length s' = vec_length s \<and>
    holds (vec_elements s') (vec_length s) (vec_list s) \<and> unat c \<le> length (vec_elements s') \<and>
    length (vec_elements s) \<le> length (vec_elements s')"
proof (cases "c > TaggedArray_GetLength (vec_elements s)")
  case False
  then show ?thesis
    using vec_holds [OF assms(1)] vec_length_facts(4) [OF assms(1)] by (simp add: Vector_GrowCapacity_def word_less_nat_alt)
next
  case True
  note f = vec_length_facts [OF assms(1)]
  let ?o = "TaggedArray_GetLength (vec_elements s)"
  have o: "unat ?o = length (vec_elements s)" "unat ?o < unat c" using f True by (simp_all add: word_less_nat_alt)
  have lim: "unat VECTOR_MAX_ARRAY_SIZE = VECTOR_LIMIT"
    by (simp add: VECTOR_MAX_ARRAY_SIZE_def VECTOR_MAX_VALUE_def VECTOR_LIMIT_def)
  define n1 where "n1 = (if ?o * 2 < c then c else ?o * 2)"
  define n where "n = (if n1 > VECTOR_MAX_ARRAY_SIZE then VECTOR_MAX_ARRAY_SIZE else n1)"
  have n: "unat c \<le> unat n" "unat n \<le> VECTOR_LIMIT"
    using assms(2) lim unfolding n_def n1_def by (auto simp: word_less_nat_alt)
  have "length (vec_elements s) < unat n" "unat n < 2147483648" using n o by (simp_all add: VECTOR_LIMIT_def)
  from holds_grow [OF vec_holds [OF assms(1)] this] obtain arr where
    arr: "CopyArray (vec_elements s) ?o n = Some arr" "length arr = unat n" "holds arr (vec_length s) (vec_list s)"
    by blast
  have "\<not> c > VECTOR_MAX_ARRAY_SIZE" using assms(2) lim by (simp add: word_less_nat_alt)
  then have "Vector_GrowCapacity s c = Some (s\<lparr>vec_elements := arr\<rparr>)"
    using True arr(1) unfolding n_def n1_def by (simp add: Vector_GrowCapacity_def Let_def split: if_splits)
  then show ?thesis using arr n o by simp
qed

lemma Vector_GrowCapacity_next:
  assumes "vec_inv s" "length (vec_list s) < VECTOR_LIMIT"
  shows "\<exists>s'. Vector_GrowCapacity s (vec_length s + 1) = Some s' \<and> vec_length s' = vec_length s \<and>
    holds (vec_elements s') (vec_length s) (vec_list s) \<and> length (vec_list s) < length (vec_elements s')"
proof -
  have "unat (vec_length s + 1) = Suc (length (vec_list s))"
    using vec_length_facts [OF assms(1)] by (subst unat_inc) simp_all
  then show ?thesis using Vector_GrowCapacity_spec [OF assms(1), of "vec_length s + 1"] assms(2) by fastforce
qed

lemma Vector_Add_spec:
  assumes "vec_inv s" "length (vec_list s) < VECTOR_LIMIT"
  shows "\<exists>s'. Vector_Add s v = Some s' \<and> vec_inv s' \<and> vec_list s' = vec_list s @ [v]"
proof -
  obtain t where t: "Vector_GrowCapacity s (vec_length s + 1) = Some t" "vec_length t = vec_length s"
      "holds (vec_elements t) (vec_length s) (vec_list s)" "length (vec_list s) < length (vec_elements t)"
    using Vector_GrowCapacity_next [OF assms] by blast
  let ?t = "t\<lparr>vec_elements := (vec_elements t)[unat (vec_length s) := v], vec_length := vec_length s + 1\<rparr>"
  note ap = holds_append [OF t(3,4), of v]
  have "vec_inv ?t \<and> vec_list ?t = vec_list s @ [v]" using ap(2) by (intro vec_holdsI) simp
  then show ?thesis using ap t by (simp add: Vector_Add_def Let_def Vector_GetSize_def)
qed

lemma Vector_Insert_spec:
  assumes "vec_inv s" "length (vec_list s) < VECTOR_LIMIT"
  shows "unat index \<le> length (vec_list s) \<Longrightarrow> \<exists>s'. Vector_Insert s v index = return_value s' \<and> vec_inv s' \<and>
      vec_list s' = take (unat index) (vec_list s) @ v # drop (unat index) (vec_list s)"
    and "\<not> unat index \<le> length (vec_list s) \<Longrightarrow>
      Vector_Insert s v index = raise_error (RangeError ''the index is out-of-bounds'')"
proof -
  note f = vec_length_facts [OF assms(1)]
  have out: "sint index < 0 \<or> int (length (vec_list s)) < sint index \<longleftrightarrow> \<not> unat index \<le> length (vec_list s)"
    using f by (intro sint_above)
  then show "\<not> unat index \<le> length (vec_list s) \<Longrightarrow>
      Vector_Insert s v index = raise_error (RangeError ''the index is out-of-bounds'')"
    using f by (auto simp: Vector_Insert_def Let_def Vector_GetSize_def)
  assume i: "unat index \<le> length (vec_list s)"
  obtain t where t: "Vector_GrowCapacity s (vec_length s + 1) = Some t" "vec_length t = vec_length s"
      "holds (vec_elements t) (vec_length s) (vec_list s)" "length (vec_list s) < length (vec_elements t)"
    using Vector_GrowCapacity_next [OF assms] by blast
  obtain arr where arr: "InsertElementByIndex (vec_elements t) v index (vec_length s) = Some arr"
      "holds arr (vec_length s + 1) (take (unat index) (vec_list s) @ v # drop (unat index) (vec_list s))"
    using holds_insert [OF t(3,4) i] by blast
  have "nat (sint (vec_length s) - sint index) = unat (vec_length s) - unat index"
    using i f sint_small [of index] by (simp only: nat_minus)
  then have "Vector_Insert s v index = return_value (t\<lparr>vec_elements := arr, vec_length := vec_length s + 1\<rparr>)"
    using out i f t(1) arr(1) move_up_shift_up [of index "vec_length s" "vec_elements t"]
    by (auto simp: Vector_Insert_def Let_def InsertElementByIndex_def Vector_GetSize_def split: bind_splits)
  then show "\<exists>s'. Vector_Insert s v index = return_value s' \<and> vec_inv s' \<and>
      vec_list s' = take (unat index) (vec_list s) @ v # drop (unat index) (vec_list s)"
    using vec_holdsI [of "t\<lparr>vec_elements := arr, vec_length := vec_length s + 1\<rparr>"] arr(2) by simp
qed

text \<open>
  Shortening keeps a prefix; lengthening keeps the elements in front, and shows whatever the slots behind
  them hold.
\<close>

lemma Vector_SetLength_spec:
  assumes "vec_inv s" "unat n \<le> VECTOR_LIMIT"
  shows "\<exists>s'. Vector_SetLength s n = Some s' \<and> vec_inv s' \<and> length (vec_list s') = unat n \<and>
    take (length (vec_list s)) (vec_list s') = take (unat n) (vec_list s)"
proof -
  note f = vec_length_facts [OF assms(1)]
  obtain t where t: "(if n > vec_length s then Vector_GrowCapacity s n else Some s) = Some t"
      "holds (vec_elements t) (vec_length s) (vec_list s)" "unat n \<le> length (vec_elements t)"
  proof (cases "n > vec_length s")
    case True
    then show ?thesis using that Vector_GrowCapacity_spec [OF assms] by auto
  next
    case False
    then show ?thesis using that [of s] vec_holds [OF assms(1)] f by (simp add: word_less_nat_alt)
  qed
  let ?t = "t\<lparr>vec_length := n\<rparr>"
  have h: "vec_inv ?t" "vec_list ?t = take (unat n) (vec_elements t)"
    using t(3) holds_length(3) [OF t(2)] by (simp_all add: vec_inv_def vec_list_def)
  moreover have "take (length (vec_list s)) (take (unat n) (vec_elements t)) = take (unat n) (vec_list s)"
    using holds_unique [OF t(2)] f(1) by (metis take_take min.commute)
  ultimately show ?thesis using t(1,3) by (simp add: Vector_SetLength_def Vector_GetSize_def)
qed

lemma Vector_IncreaseCapacityTo_spec:
  assumes "vec_inv s"
  shows "sint c < 0 \<Longrightarrow> Vector_IncreaseCapacityTo s c = raise_error (RangeError ''An incorrect size was set'')"
    and "0 \<le> sint c \<Longrightarrow> \<exists>s'. Vector_IncreaseCapacityTo s c = return_value s' \<and> vec_inv s' \<and>
      vec_list s' = vec_list s \<and> unat c \<le> length (vec_elements s')"
proof -
  show "sint c < 0 \<Longrightarrow> Vector_IncreaseCapacityTo s c = raise_error (RangeError ''An incorrect size was set'')"
    by (simp add: Vector_IncreaseCapacityTo_def)
  assume c: "0 \<le> sint c"
  have c31: "unat c < 2147483648" using c word32_bound [of c] unfolding sint_unat by (auto split: if_splits)
  show "\<exists>s'. Vector_IncreaseCapacityTo s c = return_value s' \<and> vec_inv s' \<and> vec_list s' = vec_list s \<and>
      unat c \<le> length (vec_elements s')"
  proof (cases "TaggedArray_GetLength (vec_elements s) < c")
    case True
    then have "length (vec_elements s) < unat c" using vec_length_facts(4) [OF assms] by (simp add: word_less_nat_alt)
    from holds_grow [OF vec_holds [OF assms] this c31] obtain arr where
      "CopyArray (vec_elements s) (TaggedArray_GetLength (vec_elements s)) c = Some arr"
      "length arr = unat c" "holds arr (vec_length s) (vec_list s)" by blast
    then show ?thesis
      using True c vec_holdsI [of "s\<lparr>vec_elements := arr\<rparr>"] by (simp add: Vector_IncreaseCapacityTo_def Let_def)
  next
    case False
    then show ?thesis
      using c assms vec_length_facts(4) [OF assms]
      by (simp add: Vector_IncreaseCapacityTo_def Let_def word_less_nat_alt)
  qed
qed

lemma Vector_GetIndexOf_spec:
  assumes "vec_inv s"
  shows "Vector_GetIndexOf s v = (if vec_list s = [] then raise_error (RangeError ''no-such-element'')
    else return_value (case first_index (JSTaggedValue_StrictEqual v) (vec_list s) of Some i \<Rightarrow> word_of_nat i | None \<Rightarrow> - 1))"
proof -
  have "sint (vec_length s) \<le> 0 \<longleftrightarrow> vec_list s = []" unfolding vec_length_facts(6) [OF assms] by simp
  then show ?thesis
    using holds_search_up [OF vec_holds [OF assms]]
    by (auto simp: Vector_GetIndexOf_def Vector_GetIndexFrom_def Vector_GetSize_def split: option.split)
qed

lemma Vector_GetLastIndexOf_spec:
  assumes "vec_inv s"
  shows "Vector_GetLastIndexOf s v =
    return_value (case last_index (JSTaggedValue_StrictEqual v) (vec_list s) of Some i \<Rightarrow> word_of_nat i | None \<Rightarrow> - 1)"
proof (cases "vec_list s = []")
  case True
  then have "vec_length s = 0" using vec_length_facts(1) [OF assms] by (simp add: unat_eq_0)
  then show ?thesis using True by (simp add: Vector_GetLastIndexOf_def Vector_GetSize_def Let_def last_index_def)
next
  case False
  note f = vec_length_facts [OF assms]
  have pos: "0 < vec_length s" using False f(1) by (simp add: word_less_nat_alt)
  obtain m where m: "length (vec_list s) = Suc m" using False by (cases "vec_list s") auto
  have "sint (vec_length s - 1) = int m" using unat_pred [OF pos] f m by (intro sint_length) simp_all
  moreover have "nat (int m + 1) = Suc m" "unat (vec_length s) = Suc m" using f(1) m by simp_all
  ultimately show ?thesis
    using f(6) holds_search_down [OF vec_holds [OF assms]] m
    by (auto simp: Vector_GetLastIndexOf_def Vector_GetLastIndexFrom_def Vector_GetSize_def Let_def
        simp del: search_down.simps split: option.split)
qed

lemma Vector_RemoveByIndex_spec:
  assumes "vec_inv s"
  shows "unat i < length (vec_list s) \<Longrightarrow> \<exists>s'. Vector_RemoveByIndex s i = return_value (vec_list s ! unat i, s') \<and>
      vec_inv s' \<and> vec_list s' = take (unat i) (vec_list s) @ drop (Suc (unat i)) (vec_list s)"
    and "\<not> unat i < length (vec_list s) \<Longrightarrow>
      Vector_RemoveByIndex s i = raise_error (RangeError ''the index is out-of-bounds'')"
proof -
  note f = vec_length_facts [OF assms]
  have out: "sint i < 0 \<or> int (length (vec_list s)) \<le> sint i \<longleftrightarrow> \<not> unat i < length (vec_list s)"
    using f by (intro sint_outside)
  then show "\<not> unat i < length (vec_list s) \<Longrightarrow>
      Vector_RemoveByIndex s i = raise_error (RangeError ''the index is out-of-bounds'')"
    using f by (auto simp: Vector_RemoveByIndex_def Let_def Vector_GetSize_def)
  assume i: "unat i < length (vec_list s)"
  obtain arr where arr: "RemoveElementByIndex (vec_elements s) i (vec_length s) = Some arr"
      "holds arr (vec_length s - 1) (take (unat i) (vec_list s) @ drop (Suc (unat i)) (vec_list s))"
    using holds_remove [OF vec_holds [OF assms] i] by blast
  let ?s = "s\<lparr>vec_elements := arr, vec_length := vec_length s - 1\<rparr>"
  have "Vector_RemoveByIndex s i = return_value (vec_list s ! unat i, ?s)"
    using out i f arr(1) holds_get [OF vec_holds [OF assms] i]
    by (auto simp: Vector_RemoveByIndex_def Let_def Vector_GetSize_def)
  then show "\<exists>s'. Vector_RemoveByIndex s i = return_value (vec_list s ! unat i, s') \<and>
      vec_inv s' \<and> vec_list s' = take (unat i) (vec_list s) @ drop (Suc (unat i)) (vec_list s)"
    using vec_holdsI [of ?s] arr(2) by simp
qed

lemma Vector_Remove_spec:
  assumes "vec_inv s" "vec_list s \<noteq> []"
  shows "\<exists>s'. Vector_Remove s v =
      return_value (first_index (JSTaggedValue_StrictEqual v) (vec_list s) \<noteq> None, s') \<and> vec_inv s' \<and>
      vec_list s' = (case first_index (JSTaggedValue_StrictEqual v) (vec_list s) of
        None \<Rightarrow> vec_list s | Some i \<Rightarrow> take i (vec_list s) @ drop (Suc i) (vec_list s))"
proof (cases "first_index (JSTaggedValue_StrictEqual v) (vec_list s)")
  case None
  then show ?thesis using assms Vector_GetIndexOf_spec [OF assms(1), of v] by (auto simp: Vector_Remove_def)
next
  case (Some i)
  note f = vec_length_facts [OF assms(1)]
  have i: "i < length (vec_list s)" using first_index_Some(1) [OF Some] .
  then have u: "unat (word_of_nat i :: u32) = i" "\<not> sint (word_of_nat i :: u32) < 0"
    using f sint_length [of "word_of_nat i" i] by (simp_all add: unat_of_nat)
  obtain arr where arr: "RemoveElementByIndex (vec_elements s) (word_of_nat i) (vec_length s) = Some arr"
      "holds arr (vec_length s - 1) (take i (vec_list s) @ drop (Suc i) (vec_list s))"
    using holds_remove [OF vec_holds [OF assms(1)], of "word_of_nat i"] u i by auto
  then show ?thesis
    using Some u Vector_GetIndexOf_spec [OF assms(1), of v] assms(2)
      vec_holdsI [of "s\<lparr>vec_elements := arr, vec_length := vec_length s - 1\<rparr>"]
    by (auto simp: Vector_Remove_def Vector_GetSize_def)
qed

lemma Vector_RemoveByRange_spec:
  assumes "vec_inv s" "unat from < length (vec_list s)" "sint from < sint to"
  shows "\<exists>s'. Vector_RemoveByRange s from to = return_value s' \<and> vec_inv s' \<and>
    vec_list s' = take (unat from) (vec_list s) @ drop (unat to) (vec_list s)"
proof -
  note f = vec_length_facts [OF assms(1)]
  have fr: "sint from = int (unat from)" using assms f by (intro sint_small) simp
  have "0 < sint to" using assms(3) fr by linarith
  then have to: "sint to = int (unat to)" unfolding sint_unat using word32_bound [of to] by (auto split: if_splits)
  define e where "e = (if sint to \<ge> sint (vec_length s) then vec_length s else to)"
  have e: "unat e = min (unat to) (length (vec_list s))" "sint e = int (unat e)"
    using f(1,6) to unfolding e_def by (auto simp only: min_def of_nat_le_iff split: if_splits)
  let ?n = "vec_length s - (e - from)"
  have le: "unat from \<le> unat e" "unat e \<le> length (vec_list s)" using assms(2,3) e(1) fr to by linarith+
  have n: "unat ?n = length (vec_list s) - (unat e - unat from)"
    using le f(1) by (simp add: unat_sub word_le_nat_alt)
  obtain arr where arr: "move_down (length (vec_list s) - unat e) (vec_elements s) from e = Some arr"
      "holds arr ?n (take (unat from) (vec_list s) @ drop (unat e) (vec_list s))"
    using holds_cut [OF vec_holds [OF assms(1)] le refl refl n] by blast
  have d: "drop (unat e) (vec_list s) = drop (unat to) (vec_list s)" using e(1) by (simp add: min_def)
  have "nat (sint (vec_length s) - sint e) = length (vec_list s) - unat e" by (simp only: f(6) e(2) nat_minus)
  moreover have "\<not> sint to \<le> sint from" "\<not> (sint from < 0 \<or> sint from \<ge> sint (vec_length s))"
    using assms f(6) fr by linarith+
  ultimately have "Vector_RemoveByRange s from to =
      return_value (s\<lparr>vec_elements := take (unat ?n) arr, vec_length := ?n\<rparr>)"
    using arr(1) by (simp add: Vector_RemoveByRange_def Vector_GetSize_def e_def [symmetric] Let_def)
  then show ?thesis
    using vec_holdsI [of "s\<lparr>vec_elements := take (unat ?n) arr, vec_length := ?n\<rparr>"] holds_trim [OF arr(2)] d by simp
qed

lemma Vector_SubVector_spec:
  assumes "vec_inv s" "unat from < unat to" "unat to < length (vec_list s)"
  shows "\<exists>s'. Vector_SubVector s from to = return_value s' \<and> vec_inv s' \<and>
    vec_list s' = take (unat to - unat from) (drop (unat from) (vec_list s))"
proof -
  note f = vec_length_facts [OF assms(1)]
  have sg: "sint from = int (unat from)" "sint to = int (unat to)"
    using assms f sint_small [of "from"] sint_small [of to] by linarith+
  have c: "\<not> (sint from < 0 \<or> sint to < 0 \<or> sint from \<ge> sint (vec_length s) \<or> sint to \<ge> sint (vec_length s))"
    "\<not> sint to \<le> sint from"
    using assms f(6) sg by linarith+
  let ?xs = "take (unat to - unat from) (drop (unat from) (vec_list s))"
  have n: "unat (to - from) = unat to - unat from" using assms by (simp add: unat_sub word_le_nat_alt)
  obtain rest where "vec_elements s = vec_list s @ rest" using vec_holds [OF assms(1)] by (auto simp: holds_def)
  then have "copy_up (unat (to - from)) (NewTaggedArray (to - from) VHole) 0 (vec_elements s) from = Some ?xs"
    using assms n f(4) word32_bound [of to] by (subst copy_up_spec) (simp_all add: NewTaggedArray_def)
  moreover have "holds ?xs (to - from) ?xs" using assms n f by (simp add: holds_def)
  ultimately show ?thesis
    using c vec_holdsI [of "\<lparr>vec_elements = ?xs, vec_length = to - from\<rparr>"]
    by (simp add: Vector_SubVector_def Let_def Vector_GetSize_def NewJSAPIVector_def)
qed

lemma Vector_Get_spec:
  assumes "vec_inv s"
  shows "Vector_Get s i = (if unat i < length (vec_list s) then return_value (vec_list s ! unat i)
    else raise_error (RangeError ''the index is out-of-bounds''))"
proof -
  note f = vec_length_facts [OF assms]
  have "sint i < 0 \<or> int (length (vec_list s)) \<le> sint i \<longleftrightarrow> \<not> unat i < length (vec_list s)"
    using f by (intro sint_outside)
  then show ?thesis
    using f(6) holds_get [OF vec_holds [OF assms], of i] by (auto simp: Vector_Get_def Vector_GetSize_def)
qed

lemma Vector_Set_spec:
  assumes "vec_inv s" "unat i < length (vec_list s)"
  shows "\<exists>s'. Vector_Set s i v = Some s' \<and> vec_inv s' \<and> vec_length s' = vec_length s \<and>
    vec_list s' = (vec_list s)[unat i := v]"
  using holds_set [OF vec_holds [OF assms(1)] assms(2), of v] vec_holdsI [of "s\<lparr>vec_elements := (vec_elements s)[unat i := v]\<rparr>"]
  by (simp add: Vector_Set_def)

lemma Vector_GetProperty_spec:
  assumes "vec_inv s"
  shows "Vector_GetProperty s key = (if unat key < length (vec_list s) then return_value (vec_list s ! unat key)
      else raise_error (RangeError ''GetProperty index out-of-bounds''))"
    and "\<exists>s'. Vector_SetProperty s key v = Some (unat key < length (vec_list s), s') \<and> vec_inv s' \<and>
      vec_list s' = (vec_list s)[unat key := v]"
proof -
  note f = vec_length_facts [OF assms]
  have out: "sint key < 0 \<or> int (length (vec_list s)) \<le> sint key \<longleftrightarrow> \<not> unat key < length (vec_list s)"
    using f by (intro sint_outside)
  then show "Vector_GetProperty s key = (if unat key < length (vec_list s) then return_value (vec_list s ! unat key)
      else raise_error (RangeError ''GetProperty index out-of-bounds''))"
    using f(6) by (auto simp: Vector_GetProperty_def Vector_GetSize_def Vector_Get_spec [OF assms])
  show "\<exists>s'. Vector_SetProperty s key v = Some (unat key < length (vec_list s), s') \<and> vec_inv s' \<and>
      vec_list s' = (vec_list s)[unat key := v]"
  proof (cases "unat key < length (vec_list s)")
    case True
    then show ?thesis
      using Vector_Set_spec [OF assms True, of v] out f(6) by (auto simp: Vector_SetProperty_def Vector_GetSize_def)
  next
    case False
    then show ?thesis
      using out f(6) assms by (auto simp: Vector_SetProperty_def Vector_GetSize_def list_update_beyond)
  qed
qed

interpretation vector: growable_list vec_inv vec_list VECTOR_LIMIT Vector_Add Vector_Get Vector_GetSize
  using Vector_Add_spec
  by unfold_locales (blast, simp add: Vector_Get_spec, simp add: Vector_GetSize_def vec_length_facts)

lemma Vector_Clear_spec:
  assumes "vec_inv s"
  shows "\<exists>s'. Vector_Clear s = Some s' \<and> vec_inv s' \<and> vec_list s' = [] \<and> length (vec_elements s') = length (vec_elements s)"
  using assms by (simp add: Vector_Clear_def fill_up_spec vec_inv_def vec_list_def)

lemma Vector_Clone_spec:
  assumes "vec_inv s"
  shows "\<exists>s'. Vector_Clone s = Some s' \<and> vec_inv s' \<and> vec_list s' = vec_list s"
proof -
  note f = vec_length_facts [OF assms]
  obtain arr where "NewAndCopyTaggedArray (vec_elements s) (vec_length s) (vec_length s) 0 = Some arr"
      "holds arr (vec_length s) (vec_list s)"
    using holds_copy [OF vec_holds [OF assms], of "vec_length s"] f by auto
  then show ?thesis
    using vec_holdsI [of "\<lparr>vec_elements = arr, vec_length = vec_length s\<rparr>"]
    by (simp add: Vector_Clone_def Vector_GetSize_def NewJSAPIVector_def Let_def)
qed

lemma Vector_TrimToCurrentLength_spec:
  assumes "vec_inv s"
  shows "vec_inv (Vector_TrimToCurrentLength s)" "vec_list (Vector_TrimToCurrentLength s) = vec_list s"
  using assms
  by (auto simp: Vector_TrimToCurrentLength_def Vector_GetCapacity_def Vector_GetSize_def vec_inv_def vec_list_def
      TaggedArray_Trim_def word_less_nat_alt not_less)

lemma Vector_Has_spec:
  assumes "vec_inv s"
  shows "Vector_Has s v = Some (\<exists>x \<in> set (vec_list s). JSTaggedValue_SameValue x v)"
proof -
  have "vec_length s = 0 \<Longrightarrow> vec_list s = []" by (simp add: vec_list_def)
  then show ?thesis
    using first_index_None [of "\<lambda>x. JSTaggedValue_SameValue x v" "vec_list s"]
      holds_search_up [OF vec_holds [OF assms]]
    by (auto simp: Vector_Has_def Vector_GetSize_def simp del: not_None_eq)
qed

text \<open>\<open>ToString\<close> joins the texts of the elements with commas.\<close>

definition element_text :: "(JSTaggedValue \<Rightarrow> u16 list) \<Rightarrow> JSTaggedValue \<Rightarrow> u16 list" where
  "element_text text v = (if v \<noteq> VUndefined \<and> v \<noteq> VNull then text v else [])"

fun join :: "'a \<Rightarrow> 'a list list \<Rightarrow> 'a list" where
  "join sep [] = []"
| "join sep [x] = x"
| "join sep (x # y # ys) = x @ sep # join sep (y # ys)"

lemma join_snoc: "xs \<noteq> [] \<Longrightarrow> join sep (xs @ [x]) = join sep xs @ sep # x"
  by (induction sep xs rule: join.induct) simp_all

lemma concat_from_spec:
  assumes "vec_inv s" "unat k + c = length (vec_list s)" "\<And>v. toText v = Inr (text v)"
    "acc = join 0x2C (map (element_text text) (take (unat k) (vec_list s)))"
  shows "concat_from toText c s k acc = return_value (join 0x2C (map (element_text text) (vec_list s)))"
  using assms(2,4)
proof (induction c arbitrary: k acc)
  case (Suc c)
  let ?xs = "map (element_text text) (take (unat k) (vec_list s))"
  have k: "unat k < length (vec_list s)" using Suc.prems by simp
  have u: "unat (k + 1) = Suc (unat k)" using k vec_length_facts(5) [OF assms(1)] by (intro unat_inc) simp
  have "map (element_text text) (take (Suc (unat k)) (vec_list s)) = ?xs @ [element_text text (vec_list s ! unat k)]"
    using k by (simp add: take_Suc_conv_app_nth)
  moreover have "k > 0 \<longleftrightarrow> ?xs \<noteq> []" using k by (auto simp: word_less_nat_alt)
  ultimately have "concat_from toText c s (k + 1)
      (if k > 0 then acc @ [0x2C] @ element_text text (vec_list s ! unat k) else acc @ element_text text (vec_list s ! unat k)) =
      return_value (join 0x2C (map (element_text text) (vec_list s)))"
    using Suc.prems u by (intro Suc.IH) (auto simp: join_snoc)
  then show ?case
    using k assms(3) [of "vec_list s ! unat k"]
    by (cases "vec_list s ! unat k \<noteq> VUndefined \<and> vec_list s ! unat k \<noteq> VNull")
      (auto simp: Vector_Get_spec [OF assms(1)] element_text_def [of "text" "vec_list s ! unat k"]
        element_text_def [of "text" VUndefined] element_text_def [of "text" VNull])
qed simp

lemma Vector_ToString_spec:
  assumes "vec_inv s" "\<And>v. toText v = Inr (text v)"
  shows "Vector_ToString toText s = return_value (join 0x2C (map (element_text text) (vec_list s)))"
  unfolding Vector_ToString_def Vector_GetSize_def
  using assms vec_length_facts(1) [OF assms(1)] by (intro concat_from_spec) simp_all

text \<open>A callback that leaves the vector alone replaces every element by its result.\<close>

lemma replace_vector_spec:
  assumes "vec_inv s" "unat k + c = length (vec_list s)"
  shows "\<exists>w' s'. replace_vector (quiet_callback vec_list f) w s k (vec_length s) = Some (w', s', Inr ()) \<and> vec_inv s' \<and>
    replace_run f w (take (unat k) (vec_list s)) (drop (unat k) (vec_list s)) = (w', vec_list s')"
  using assms
proof (induction c arbitrary: w s k)
  case 0
  then have "\<not> k < vec_length s" using vec_length_facts(1) [of s] by (simp add: word_less_nat_alt)
  then show ?case using 0 by (subst replace_vector.simps) simp
next
  case (Suc c)
  have k: "unat k < length (vec_list s)" using Suc.prems by simp
  then have lt: "k < vec_length s" using vec_length_facts(1) [OF Suc.prems(1)] by (simp add: word_less_nat_alt)
  obtain w1 x where f: "f w (vec_list s) (vec_list s ! unat k) k = (w1, x)" by (cases "f w (vec_list s) (vec_list s ! unat k) k")
  obtain t where t: "Vector_Set s k x = Some t" "vec_inv t" "vec_length t = vec_length s" "vec_list t = (vec_list s)[unat k := x]"
    using Vector_Set_spec [OF Suc.prems(1) k] by blast
  have u: "unat (k + 1) = Suc (unat k)" using lt by (rule unat_Suc)
  obtain w' s' where s': "replace_vector (quiet_callback vec_list f) w1 t (k + 1) (vec_length t) = Some (w', s', Inr ())" "vec_inv s'"
    "replace_run f w1 (take (Suc (unat k)) (vec_list t)) (drop (Suc (unat k)) (vec_list t)) = (w', vec_list s')"
    using Suc.IH [OF t(2), of "k + 1" w1] Suc.prems(2) t(4) u by auto
  have "replace_run f w (take (unat k) (vec_list s)) (drop (unat k) (vec_list s)) = (w', vec_list s')"
    using s'(3) k f by (simp add: t(4) replace_run_step)
  moreover have "quiet_callback vec_list f w s (vec_list s ! unat k) k = Some (w1, s, Inr x)" using f by (simp add: quiet_callback_def)
  ultimately show ?case
    using Vector_Get_spec [OF Suc.prems(1), of k] k lt t(1,3) s'(1,2) by (subst replace_vector.simps) (simp add: Vector_GetSize_def)
qed

lemma VectorIterator_Next_spec:
  assumes "vec_inv s"
  shows "VectorIterator_Next s (True, i) =
    (if unat i < length (vec_list s) then return_value (Some (vec_list s ! unat i), (True, i + 1))
     else return_value (None, (False, i)))"
  using Vector_Get_spec [OF assms, of i] vec_length_facts(1) [OF assms]
  by (simp add: VectorIterator_Next_def Vector_GetSize_def word_le_nat_alt not_le)

lemma VectorConstructor_spec:
  "\<exists>s. VectorConstructor False = return_value s \<and> vec_inv s \<and> vec_list s = []"
  by (simp add: VectorConstructor_def vec_inv_def vec_list_def VECTOR_DEFAULT_CAPACITY_def)

end
