(* ===== verification/Assoc_Arrays.thy ===== *)
theory Assoc_Arrays
  imports Container_Common
begin

text \<open>
  Maps kept as two parallel arrays, ordered by key: what insertion, replacement and removal at a position
  do to the map, and the contract of a map as \<open>JSAPIPlainArray\<close> and \<open>JSAPILightWeightMap\<close> offer it.
\<close>

section \<open>Positions in an ordered list\<close>

definition position :: "'k :: linorder list \<Rightarrow> 'k \<Rightarrow> nat" where
  "position ks k = length (takeWhile (\<lambda>x. x < k) ks)"

lemma position_le: "position ks k \<le> length ks"
  by (simp add: position_def length_takeWhile_le)

lemma position_before: "i < position ks k \<Longrightarrow> ks ! i < k"
  unfolding position_def by (metis nth_mem set_takeWhileD takeWhile_nth)

lemma position_at: "position ks k < length ks \<Longrightarrow> \<not> ks ! position ks k < k"
  unfolding position_def by (rule nth_length_takeWhile)

lemma position_unique:
  assumes "p \<le> length ks" "\<And>i. i < p \<Longrightarrow> ks ! i < k" "p < length ks \<Longrightarrow> \<not> ks ! p < k"
  shows "position ks k = p"
proof (rule ccontr)
  assume "position ks k \<noteq> p"
  then consider "position ks k < p" | "p < position ks k" by linarith
  then show False
  proof cases
    case 1
    then show ?thesis using assms(1) assms(2) [OF 1] position_at [of ks k] by simp
  next
    case 2
    then show ?thesis using assms(3) position_before [OF 2] position_le [of ks k] by simp
  qed
qed

lemma position_member:
  assumes "sorted_wrt (<) ks"
  shows "k \<in> set ks \<longleftrightarrow> position ks k < length ks \<and> ks ! position ks k = k"
proof
  assume "k \<in> set ks"
  then obtain i where i: "i < length ks" "ks ! i = k" by (auto simp: in_set_conv_nth)
  have "position ks k = i"
  proof (rule position_unique)
    show "ks ! j < k" if "j < i" for j using sorted_wrt_nth_less [OF assms that] i by simp
  qed (use i in auto)
  then show "position ks k < length ks \<and> ks ! position ks k = k" using i by simp
qed (auto simp: in_set_conv_nth)

lemma position_after:
  assumes "sorted_wrt (<) ks" "k \<notin> set ks" "position ks k \<le> i" "i < length ks"
  shows "k < ks ! i"
proof -
  have "\<not> ks ! position ks k < k" using assms by (intro position_at) simp
  moreover have "ks ! position ks k \<in> set ks" using assms by simp
  ultimately have "k < ks ! position ks k" using assms(2) by (metis linorder_less_linear)
  moreover have "ks ! position ks k \<le> ks ! i"
    using assms sorted_wrt_nth_less [OF assms(1), of "position ks k" i] by (cases "position ks k = i") auto
  ultimately show ?thesis by simp
qed

lemma sorted_insert_at:
  assumes "sorted_wrt (<) ks" "k \<notin> set ks"
  shows "sorted_wrt (<) (take (position ks k) ks @ k # drop (position ks k) ks)"
proof -
  have s: "sorted_wrt (<) (take (position ks k) ks @ drop (position ks k) ks)" using assms(1) by simp
  have "take (position ks k) ks = takeWhile (\<lambda>x. x < k) ks" by (simp add: position_def takeWhile_eq_take [symmetric])
  then have "x < k" if "x \<in> set (take (position ks k) ks)" for x using that by (auto dest: set_takeWhileD)
  moreover have "k < x" if "x \<in> set (drop (position ks k) ks)" for x
    using that position_after [OF assms] by (auto simp: in_set_conv_nth)
  ultimately show ?thesis using s unfolding sorted_wrt_append by auto
qed

lemma sorted_cut:
  assumes "sorted_wrt R ks" "a \<le> b"
  shows "sorted_wrt R (take a ks @ drop b ks)"
proof -
  have s: "sorted_wrt R (take a ks @ drop a ks)" "sorted_wrt R (drop b ks)"
    using assms(1) by (simp_all add: sorted_wrt_drop)
  moreover have "set (drop b ks) \<subseteq> set (drop a ks)" using assms(2) by (rule set_drop_subset_set_drop)
  ultimately show ?thesis unfolding sorted_wrt_append by blast
qed

lemma strictly_sorted_distinct: "sorted_wrt (<) ks \<Longrightarrow> distinct ks" for ks :: "'k :: linorder list"
  by (simp add: strict_sorted_iff)

section \<open>Parallel lists as maps\<close>

lemma zip_split:
  assumes "p < length ks" "length ks = length vs"
  shows "zip ks vs = zip (take p ks) (take p vs) @ (ks ! p, vs ! p) # zip (drop (Suc p) ks) (drop (Suc p) vs)"
proof -
  have "zip (take p ks @ ks ! p # drop (Suc p) ks) (take p vs @ vs ! p # drop (Suc p) vs) =
      zip (take p ks) (take p vs) @ (ks ! p, vs ! p) # zip (drop (Suc p) ks) (drop (Suc p) vs)"
    using assms by simp
  then show ?thesis using assms id_take_nth_drop [of p ks] id_take_nth_drop [of p vs] by simp
qed

lemma not_in_zip: "k \<notin> set ks \<Longrightarrow> map_of (zip ks vs) k = None"
  by (auto simp: map_of_eq_None_iff dest: set_zip_leftD)

lemma map_insert_at:
  assumes "p \<le> length ks" "length ks = length vs" "k \<notin> set ks"
  shows "map_of (zip (take p ks @ k # drop p ks) (take p vs @ v # drop p vs)) = (map_of (zip ks vs))(k \<mapsto> v)"
proof -
  have "zip ks vs = zip (take p ks) (take p vs) @ zip (drop p ks) (drop p vs)"
    using assms by (metis append_take_drop_id length_take zip_append)
  moreover have "k \<notin> dom (map_of (zip (take p ks) (take p vs)))"
    using assms(3) not_in_zip [of k "take p ks"] in_set_takeD [of k p ks] by (auto simp: domIff)
  ultimately show ?thesis using assms by (simp add: map_add_upd_left)
qed

lemma map_update_at:
  assumes "p < length ks" "length ks = length vs" "distinct ks"
  shows "map_of (zip ks (vs[p := v])) = (map_of (zip ks vs))(ks ! p \<mapsto> v)"
proof -
  have "distinct (take p ks @ ks ! p # drop (Suc p) ks)" using assms(1,3) by (simp add: id_take_nth_drop [symmetric])
  then have "ks ! p \<notin> dom (map_of (zip (take p ks) (take p vs)))"
    using not_in_zip [of "ks ! p" "take p ks"] by (simp add: domIff)
  then show ?thesis
    using assms zip_split [of p ks vs] zip_split [of p ks "vs[p := v]"] by (simp add: map_add_upd_left)
qed

lemma map_remove_at:
  assumes "p < length ks" "length ks = length vs" "distinct ks"
  shows "map_of (zip (take p ks @ drop (Suc p) ks) (take p vs @ drop (Suc p) vs)) = (map_of (zip ks vs))(ks ! p := None)"
proof -
  let ?a = "map_of (zip (take p ks) (take p vs))" and ?b = "map_of (zip (drop (Suc p) ks) (drop (Suc p) vs))"
  have "distinct (take p ks @ ks ! p # drop (Suc p) ks)" using assms(1,3) by (simp add: id_take_nth_drop [symmetric])
  then have n: "?a (ks ! p) = None" "?b (ks ! p) = None"
    using not_in_zip [of "ks ! p" "take p ks"] not_in_zip [of "ks ! p" "drop (Suc p) ks"] by auto
  then have "(?b ++ ?a)(ks ! p := None) = ?b ++ ?a" by (intro ext) (auto simp: map_add_def)
  then show ?thesis
    using assms zip_split [of p ks vs] n by (simp add: map_add_upd_left domIff)
qed

section \<open>The contract of a map\<close>

primrec put_all :: "('s \<Rightarrow> 'k \<Rightarrow> JSTaggedValue \<Rightarrow> 's option) \<Rightarrow> 's \<Rightarrow> ('k \<times> JSTaggedValue) list \<Rightarrow> 's option" where
  "put_all put s [] = Some s"
| "put_all put s (kv # kvs) = do { s' \<leftarrow> put s (fst kv) (snd kv); put_all put s' kvs }"

locale tagged_map =
  fixes inv :: "'s \<Rightarrow> bool"
    and contents :: "'s \<Rightarrow> 'k \<rightharpoonup> JSTaggedValue"
    and size_of :: "'s \<Rightarrow> nat"
    and limit :: nat
    and put :: "'s \<Rightarrow> 'k \<Rightarrow> JSTaggedValue \<Rightarrow> 's option"
    and get :: "'s \<Rightarrow> 'k \<Rightarrow> JSTaggedValue option"
    and remove :: "'s \<Rightarrow> 'k \<Rightarrow> (JSTaggedValue \<times> 's) option"
  assumes put_law: "inv s \<Longrightarrow> size_of s < limit \<Longrightarrow>
      \<exists>s'. put s k v = Some s' \<and> inv s' \<and> contents s' = (contents s)(k \<mapsto> v) \<and> size_of s' \<le> Suc (size_of s)"
    and get_law: "inv s \<Longrightarrow> get s k = Some (case contents s k of None \<Rightarrow> VUndefined | Some v \<Rightarrow> v)"
    and remove_law: "inv s \<Longrightarrow> \<exists>s'. remove s k = Some (case contents s k of None \<Rightarrow> VUndefined | Some v \<Rightarrow> v, s') \<and>
      inv s' \<and> contents s' = (contents s)(k := None) \<and> size_of s' \<le> size_of s"
begin

text \<open>After any sequence of stores a lookup finds the last value stored under its key.\<close>

lemma put_all_law:
  assumes "inv s" "size_of s + length kvs \<le> limit"
  shows "\<exists>s'. put_all put s kvs = Some s' \<and> inv s' \<and> contents s' = (contents s)(map fst kvs [\<mapsto>] map snd kvs)"
  using assms
proof (induction kvs arbitrary: s)
  case (Cons kv kvs)
  obtain s1 where s1: "put s (fst kv) (snd kv) = Some s1" "inv s1"
      "contents s1 = (contents s)(fst kv \<mapsto> snd kv)" "size_of s1 \<le> Suc (size_of s)"
    using put_law [of s "fst kv" "snd kv"] Cons.prems by auto
  then show ?case using Cons.IH [of s1] Cons.prems by (auto simp del: fun_upd_apply)
qed simp

lemma remove_then_get:
  assumes "inv s" "remove s k = Some (v, s')"
  shows "get s' k = Some VUndefined" "k' \<noteq> k \<Longrightarrow> get s' k' = get s k'"
  using remove_law [OF assms(1), of k] assms get_law by auto

end

end
