(* ===== verification/Container_PlainArray.thy ===== *)
theory Container_PlainArray
  imports Assoc_Arrays
begin

text \<open>
  \<open>JSAPIPlainArray\<close> (\<open>ecmascript/js_api/js_api_plain_array.cpp\<close> and \<open>.h\<close>): a map from \<open>int32_t\<close> keys kept in
  two parallel arrays ordered by key.  Keys arrive as tagged numbers; the conversion
  \<open>static_cast<int32_t>(key.GetNumber())\<close> truncates a double, and has no value (\<open>None\<close>) where the C++
  conversion is undefined or the value is not a number.  \<open>ForEach\<close>, which keeps the two arrays it read before
  the first callback, and the conversions to text in \<open>ToString\<close> are not modelled.
\<close>

section \<open>Definitions\<close>

record plain_array =
  pa_keys :: tagged_array
  pa_values :: tagged_array
  pa_length :: u32

definition PLAINARRAY_DEFAULT_CAPACITY :: u32 where "PLAINARRAY_DEFAULT_CAPACITY = 8"

definition double_to_int32 :: "u64 \<Rightarrow> u32 option" where
  "double_to_int32 d =
     (let e = unat d div 2 ^ 52 mod 2048;
          mantissa = 2 ^ 52 + unat d mod 2 ^ 52;
          magnitude = (if e < 1023 then 0 else mantissa * 2 ^ (e - 1023) div 2 ^ 52);
          i = (if bit d 63 then - int magnitude else int magnitude) in
      if e < 1055 \<and> - (2 ^ 31) \<le> i \<and> i < 2 ^ 31 then Some (word_of_int i) else None)"

fun key_number :: "JSTaggedValue \<Rightarrow> u32 option" where
  "key_number (VInt i) = Some i"
| "key_number (VDouble d) = double_to_int32 d"
| "key_number _ = None"

definition PlainArray_CreateSlot :: "u32 \<Rightarrow> tagged_array" where
  "PlainArray_CreateSlot capacity = NewTaggedArray capacity VHole"

definition NewJSAPIPlainArray :: "u32 \<Rightarrow> plain_array" where
  "NewJSAPIPlainArray capacity =
     \<lparr>pa_keys = NewTaggedArray capacity VHole, pa_values = NewTaggedArray capacity VHole, pa_length = 0\<rparr>"

definition PlainArrayConstructor :: "bool \<Rightarrow> plain_array outcome" where
  "PlainArrayConstructor newTargetUndefined =
     (if newTargetUndefined
      then raise_error (BusinessError 10200012 ''The PlainArray's constructor cannot be directly invoked'')
      else return_value \<lparr>pa_keys = PlainArray_CreateSlot PLAINARRAY_DEFAULT_CAPACITY,
        pa_values = PlainArray_CreateSlot PLAINARRAY_DEFAULT_CAPACITY, pa_length = 0\<rparr>)"

text \<open>The loop of \<open>BinarySearch\<close>; \<open>low\<close> and \<open>high\<close> are \<open>int32_t\<close>, their sum is shifted as \<open>uint32_t\<close>.\<close>

partial_function (option) binary_search :: "tagged_array \<Rightarrow> u32 \<Rightarrow> u32 \<Rightarrow> u32 \<Rightarrow> u32 option" where
  "binary_search arr key low high =
     (if sint low \<le> sint high then do {
        let mid = drop_bit 1 (low + high);
        v \<leftarrow> TaggedArray_Get arr mid;
        midVal \<leftarrow> key_number v;
        if sint midVal < sint key then binary_search arr key (mid + 1) high
        else if sint midVal \<le> sint key then Some mid
        else binary_search arr key low (mid - 1)
      } else Some (- (low + 1)))"

definition PlainArray_BinarySearch :: "tagged_array \<Rightarrow> u32 \<Rightarrow> u32 \<Rightarrow> u32 \<Rightarrow> u32 option" where
  "PlainArray_BinarySearch arr fromIndex toIndex key = binary_search arr key fromIndex (toIndex - 1)"

definition AdjustPrimitiveArray :: "u32 \<Rightarrow> tagged_array \<Rightarrow> u32 \<Rightarrow> u32 \<Rightarrow> tagged_array option" where
  "AdjustPrimitiveArray len srcArray fromIndex toIndex = do {
     arr \<leftarrow> move_down (unat (len - fromIndex)) srcArray toIndex fromIndex;
     fill_up (unat (fromIndex - toIndex)) arr (toIndex + (len - fromIndex)) VHole
   }"

text \<open>Both branches of the move towards the front write the same slots; they differ in the write barrier.\<close>

definition AdjustArray :: "u32 \<Rightarrow> tagged_array \<Rightarrow> u32 \<Rightarrow> u32 \<Rightarrow> bool \<Rightarrow> tagged_array option" where
  "AdjustArray len srcArray fromIndex toIndex direction =
     (if direction then move_up (nat (sint toIndex - sint fromIndex)) srcArray (len - 1)
      else AdjustPrimitiveArray len srcArray fromIndex toIndex)"

definition PlainArray_AdjustForward :: "plain_array \<Rightarrow> u32 \<Rightarrow> u32 \<Rightarrow> plain_array option" where
  "PlainArray_AdjustForward s index forwardSize = do {
     let size = pa_length s;
     keys \<leftarrow> AdjustPrimitiveArray size (pa_keys s) (index + forwardSize) index;
     vals \<leftarrow> AdjustArray size (pa_values s) (index + forwardSize) index False;
     Some \<lparr>pa_keys = keys, pa_values = vals, pa_length = size - forwardSize\<rparr>
   }"

definition PlainArray_Add :: "plain_array \<Rightarrow> JSTaggedValue \<Rightarrow> JSTaggedValue \<Rightarrow> plain_array option" where
  "PlainArray_Add s key v = do {
     let size = pa_length s;
     k \<leftarrow> key_number key;
     index \<leftarrow> PlainArray_BinarySearch (pa_keys s) 0 size k;
     if sint index \<ge> 0 then do {
       keys \<leftarrow> TaggedArray_Set (pa_keys s) index key;
       vals \<leftarrow> TaggedArray_Set (pa_values s) index v;
       Some (s\<lparr>pa_keys := keys, pa_values := vals\<rparr>)
     } else do {
       let index = xor index 0xFFFFFFFF;
       keys \<leftarrow> (if sint index < sint size then AdjustArray size (pa_keys s) index size True else Some (pa_keys s));
       vals \<leftarrow> (if sint index < sint size then AdjustArray size (pa_values s) index size True else Some (pa_values s));
       let capacity = TaggedArray_GetLength vals;
       let newCapacity = push_bit 1 capacity;
       keys \<leftarrow> (if size + 1 \<ge> capacity then CopyArray keys capacity newCapacity else Some keys);
       vals \<leftarrow> (if size + 1 \<ge> capacity then CopyArray vals capacity newCapacity else Some vals);
       keys \<leftarrow> TaggedArray_Set keys index key;
       vals \<leftarrow> TaggedArray_Set vals index v;
       Some \<lparr>pa_keys = keys, pa_values = vals, pa_length = size + 1\<rparr>
     }
   }"

text \<open>The loop of \<open>Clear\<close> stores into both arrays; it is two loops here.\<close>

definition PlainArray_Clear :: "plain_array \<Rightarrow> plain_array option" where
  "PlainArray_Clear s = do {
     keys \<leftarrow> fill_up (unat (pa_length s)) (pa_keys s) 0 VHole;
     vals \<leftarrow> fill_up (unat (pa_length s)) (pa_values s) 0 VHole;
     Some \<lparr>pa_keys = keys, pa_values = vals, pa_length = 0\<rparr>
   }"

text \<open>\<open>index + batchSize\<close> is computed in \<open>int32_t\<close>; when it overflows, the behaviour is undefined.\<close>

definition PlainArray_RemoveRangeFrom :: "plain_array \<Rightarrow> u32 \<Rightarrow> u32 \<Rightarrow> (u32 \<times> plain_array) outcome" where
  "PlainArray_RemoveRangeFrom s index batchSize =
     (let size = pa_length s in
      if sint index < 0 \<or> sint index \<ge> sint size
      then raise_error (range_error ''index'' (show_int (sint (size - 1))) (show_int (sint index)))
      else if sint batchSize < 1
      then raise_error (BusinessError RANGE_ERROR (''The value of \"size\" is out of range. It must be > 0'' @
        ''. Received value is: '' @ show_int (sint batchSize)))
      else if sint index + sint batchSize \<ge> 2 ^ 31 then None
      else do {
        let safeSize = (if sint (size - (index + batchSize)) < 0 then size - index else batchSize);
        s' \<leftarrow> PlainArray_AdjustForward s index safeSize;
        return_value (safeSize, s')
      })"

definition PlainArray_Set :: "plain_array \<Rightarrow> u32 \<Rightarrow> JSTaggedValue \<Rightarrow> plain_array option" where
  "PlainArray_Set s index v = PlainArray_Add s (VInt index) v"

definition PlainArray_Get :: "plain_array \<Rightarrow> JSTaggedValue \<Rightarrow> JSTaggedValue option" where
  "PlainArray_Get s key = do {
     k \<leftarrow> key_number key;
     index \<leftarrow> PlainArray_BinarySearch (pa_keys s) 0 (pa_length s) k;
     if sint index < 0 then Some VUndefined else TaggedArray_Get (pa_values s) index
   }"

definition PlainArray_range_error :: "u32 \<Rightarrow> u32 \<Rightarrow> js_error" where
  "PlainArray_range_error len index = range_error ''index'' (show_u32 (len - 1)) (show_int (sint index))"

definition PlainArray_GetOwnProperty :: "plain_array \<Rightarrow> u32 \<Rightarrow> bool outcome" where
  "PlainArray_GetOwnProperty s key = do {
     index \<leftarrow> PlainArray_BinarySearch (pa_keys s) 0 (pa_length s) key;
     if sint index < 0 \<or> sint index \<ge> sint (pa_length s)
     then raise_error (PlainArray_range_error (pa_length s) index)
     else do { v \<leftarrow> PlainArray_Get s (VInt key); return_value True }
   }"

definition PlainArray_GetProperty :: "plain_array \<Rightarrow> u32 \<Rightarrow> JSTaggedValue outcome" where
  "PlainArray_GetProperty s key = do {
     index \<leftarrow> PlainArray_BinarySearch (pa_keys s) 0 (pa_length s) key;
     if sint index < 0 \<or> sint index \<ge> sint (pa_length s)
     then raise_error (PlainArray_range_error (pa_length s) index)
     else do { v \<leftarrow> PlainArray_Get s (VInt index); return_value v }
   }"

definition PlainArray_SetProperty :: "plain_array \<Rightarrow> u32 \<Rightarrow> JSTaggedValue \<Rightarrow> (bool \<times> plain_array) option" where
  "PlainArray_SetProperty s key v = do {
     index \<leftarrow> PlainArray_BinarySearch (pa_keys s) 0 (pa_length s) key;
     if sint index < 0 \<or> sint index \<ge> sint (pa_length s) then Some (False, s)
     else do { s' \<leftarrow> PlainArray_Set s index v; Some (True, s') }
   }"

definition PlainArray_Clone :: "plain_array \<Rightarrow> plain_array option" where
  "PlainArray_Clone s = do {
     let len = pa_length s;
     dstKeyArray \<leftarrow> NewAndCopyTaggedArray (pa_keys s) len len 0;
     dstValueArray \<leftarrow> NewAndCopyTaggedArray (pa_values s) len len 0;
     Some ((NewJSAPIPlainArray 0)\<lparr>pa_length := len, pa_keys := dstKeyArray, pa_values := dstValueArray\<rparr>)
   }"

definition PlainArray_Has :: "plain_array \<Rightarrow> u32 \<Rightarrow> bool option" where
  "PlainArray_Has s key = do {
     index \<leftarrow> PlainArray_BinarySearch (pa_keys s) 0 (pa_length s) key;
     Some (\<not> sint index < 0)
   }"

definition PlainArray_GetIndexOfKey :: "plain_array \<Rightarrow> u32 \<Rightarrow> u32 option" where
  "PlainArray_GetIndexOfKey s key = do {
     index \<leftarrow> PlainArray_BinarySearch (pa_keys s) 0 (pa_length s) key;
     Some (if sint index < 0 then - 1 else index)
   }"

definition TryFastGetIndexOfValue :: "plain_array \<Rightarrow> tagged_array \<Rightarrow> JSTaggedValue \<Rightarrow> u32 option" where
  "TryFastGetIndexOfValue s vals v = do {
     r \<leftarrow> search_up (\<lambda>currVal. IsInt currVal \<and> currVal = v) vals 0 (pa_length s);
     Some (case r of Some i \<Rightarrow> i | None \<Rightarrow> - 1)
   }"

definition PlainArray_GetIndexOfValue :: "plain_array \<Rightarrow> JSTaggedValue \<Rightarrow> u32 option" where
  "PlainArray_GetIndexOfValue s v =
     (if IsInt v then TryFastGetIndexOfValue s (pa_values s) v
      else do {
        r \<leftarrow> search_up (\<lambda>x. JSTaggedValue_SameValue x v) (pa_values s) 0 (pa_length s);
        Some (case r of Some i \<Rightarrow> i | None \<Rightarrow> - 1)
      })"

definition PlainArray_IsEmpty :: "plain_array \<Rightarrow> bool" where
  "PlainArray_IsEmpty s \<longleftrightarrow> pa_length s = 0"

definition PlainArray_GetKeyAt :: "plain_array \<Rightarrow> u32 \<Rightarrow> JSTaggedValue option" where
  "PlainArray_GetKeyAt s index =
     (if sint index < 0 \<or> sint index \<ge> sint (pa_length s) then Some VUndefined
      else TaggedArray_Get (pa_keys s) index)"

definition PlainArray_GetValueAt :: "plain_array \<Rightarrow> u32 \<Rightarrow> JSTaggedValue outcome" where
  "PlainArray_GetValueAt s index =
     (if sint index < 0 \<or> sint index \<ge> sint (pa_length s)
      then raise_error (PlainArray_range_error (pa_length s) index)
      else do { v \<leftarrow> TaggedArray_Get (pa_values s) index; return_value v })"

definition PlainArray_Remove :: "plain_array \<Rightarrow> JSTaggedValue \<Rightarrow> (JSTaggedValue \<times> plain_array) option" where
  "PlainArray_Remove s key = do {
     k \<leftarrow> key_number key;
     index \<leftarrow> PlainArray_BinarySearch (pa_keys s) 0 (pa_length s) k;
     if sint index < 0 \<or> sint index \<ge> sint (pa_length s) then Some (VUndefined, s)
     else do {
       v \<leftarrow> TaggedArray_Get (pa_values s) index;
       s' \<leftarrow> PlainArray_AdjustForward s index 1;
       Some (v, s')
     }
   }"

definition PlainArray_RemoveAt :: "plain_array \<Rightarrow> JSTaggedValue \<Rightarrow> (JSTaggedValue \<times> plain_array) option" where
  "PlainArray_RemoveAt s index = do {
     seat \<leftarrow> key_number index;
     if sint seat < 0 \<or> seat \<ge> pa_length s then Some (VUndefined, s)
     else do {
       v \<leftarrow> TaggedArray_Get (pa_values s) seat;
       s' \<leftarrow> PlainArray_AdjustForward s seat 1;
       Some (v, s')
     }
   }"

definition PlainArray_SetValueAt :: "plain_array \<Rightarrow> JSTaggedValue \<Rightarrow> JSTaggedValue \<Rightarrow> plain_array outcome" where
  "PlainArray_SetValueAt s index v = do {
     seat \<leftarrow> key_number index;
     if sint seat < 0 \<or> seat \<ge> pa_length s
     then raise_error (PlainArray_range_error (pa_length s) seat)
     else do {
       vals \<leftarrow> TaggedArray_Set (pa_values s) seat v;
       return_value (s\<lparr>pa_values := vals\<rparr>)
     }
   }"

section \<open>Binary search\<close>

text \<open>\<open>keys_of arr n ks\<close>: the first \<open>n\<close> slots hold numbers whose \<open>int32_t\<close> values are \<open>ks\<close>, in order.\<close>

definition keys_of :: "tagged_array \<Rightarrow> u32 \<Rightarrow> int list \<Rightarrow> bool" where
  "keys_of arr n ks \<longleftrightarrow> (\<exists>ws. holds arr n ws \<and> list_all2 (\<lambda>v k. map_option sint (key_number v) = Some k) ws ks)"

lemma keys_of_nth:
  assumes "keys_of arr n ks" "unat i < length ks"
  shows "\<exists>v w. TaggedArray_Get arr i = Some v \<and> key_number v = Some w \<and> sint w = ks ! unat i"
proof -
  obtain ws where ws: "holds arr n ws" "list_all2 (\<lambda>v k. map_option sint (key_number v) = Some k) ws ks"
    using assms(1) by (auto simp: keys_of_def)
  then have "map_option sint (key_number (ws ! unat i)) = Some (ks ! unat i)" "length ws = length ks"
    using assms(2) by (auto dest: list_all2_nthD2 list_all2_lengthD)
  then show ?thesis using holds_get [OF ws(1), of i] assms(2) by auto
qed

lemma keys_of_length: "keys_of arr n ks \<Longrightarrow> unat n = length ks \<and> length ks < 2147483648 \<and> length ks \<le> length arr \<and> length arr < 2147483648"
proof -
  assume "keys_of arr n ks"
  then obtain ws where "holds arr n ws" "length ws = length ks" by (auto simp: keys_of_def dest: list_all2_lengthD)
  then show ?thesis using holds_length [of arr n ws] by simp
qed

definition search_result :: "int list \<Rightarrow> int \<Rightarrow> u32" where
  "search_result ks k = (if k \<in> set ks then word_of_nat (position ks k) else - (word_of_nat (position ks k) + 1))"

lemma binary_search_spec:
  assumes "keys_of arr n ks" "sorted_wrt (<) ks"
    and "unat low = lo" "high = word_of_nat hi - 1" "lo \<le> hi" "hi \<le> length ks"
    and "\<And>i. i < lo \<Longrightarrow> ks ! i < sint key" "\<And>i. hi \<le> i \<Longrightarrow> i < length ks \<Longrightarrow> sint key < ks ! i"
  shows "binary_search arr key low high = Some (search_result ks (sint key))"
  using assms(3-)
proof (induction "hi - lo" arbitrary: lo hi low high rule: less_induct)
  case less
  note n = keys_of_length [OF assms(1)]
  have hi: "sint high = int hi - 1"
  proof (cases hi)
    case (Suc h)
    then have "unat high = h" using less.prems n by (simp add: unat_of_nat)
    then show ?thesis using Suc less.prems n sint_length [of high h] by simp
  qed (simp add: less.prems)
  have lo: "sint low = int lo" using less.prems n by (intro sint_length) simp_all
  show ?case
  proof (cases "lo < hi")
    case False
    then have "position ks (sint key) = lo" using less.prems
      by (intro position_unique) (auto simp: not_less intro: less_imp_le)
    moreover have "sint key \<notin> set ks"
      using position_member [OF assms(2), of "sint key"] less.prems(6) [of lo] False calculation by auto
    moreover have "low = word_of_nat lo" using less.prems(1) by auto
    ultimately show ?thesis
      using False lo hi by (subst binary_search.simps) (simp add: search_result_def)
  next
    case True
    obtain h where h: "hi = Suc h" using True by (cases hi) auto
    have uh: "unat high = h" using h less.prems n by (simp add: unat_of_nat)
    define mid where "mid = drop_bit 1 (low + high)"
    define m where "m = (lo + h) div 2"
    have um: "unat mid = m"
      using less.prems uh h n unfolding mid_def m_def
      by (simp add: drop_bit_eq_div unat_div_distrib unat_plus_if_size word_size)
    have mb: "lo \<le> m" "m < hi" using True h unfolding m_def by linarith+
    then have mn: "m < length ks" using less.prems by simp
    then obtain v w where vw: "TaggedArray_Get arr mid = Some v" "key_number v = Some w" "sint w = ks ! m"
      using keys_of_nth [OF assms(1), of mid] um by auto
    have step: "binary_search arr key low high = (if ks ! m < sint key then binary_search arr key (mid + 1) high
        else if ks ! m \<le> sint key then Some mid else binary_search arr key low (mid - 1))"
      using True lo hi vw unfolding mid_def by (subst binary_search.simps) (simp add: Let_def)
    have sorted: "i < j \<Longrightarrow> j < length ks \<Longrightarrow> ks ! i < ks ! j" for i j
      using sorted_wrt_nth_less [OF assms(2)] by blast
    have wm: "mid = word_of_nat m" using um by auto
    consider "ks ! m < sint key" | "ks ! m = sint key" | "sint key < ks ! m" by linarith
    then show ?thesis
    proof cases
      case 1
      have "unat (mid + 1) = Suc m" using um mn n by (subst unat_inc) simp_all
      moreover have "i < Suc m \<Longrightarrow> ks ! i < sint key" for i
        using 1 sorted [of i m] mn by (cases "i = m") auto
      ultimately have "binary_search arr key (mid + 1) high = Some (search_result ks (sint key))"
        using mb less.prems by (intro less.hyps [of hi "Suc m"]) auto
      then show ?thesis using 1 step by simp
    next
      case 2
      have "position ks (sint key) = m" using 2 mn sorted by (intro position_unique) (auto simp flip: 2)
      moreover have "sint key \<in> set ks" using 2 mn by (metis nth_mem)
      ultimately show ?thesis using 2 step wm by (simp add: search_result_def)
    next
      case 3
      have "sint key < ks ! i" if "m \<le> i" "i < length ks" for i
        using 3 sorted [of m i] that by (cases "i = m") auto
      then have "binary_search arr key low (mid - 1) = Some (search_result ks (sint key))"
        using mb less.prems wm by (intro less.hyps [of m lo]) auto
      then show ?thesis using 3 step by simp
    qed
  qed
qed

lemma PlainArray_BinarySearch_spec:
  assumes "keys_of arr n ks" "sorted_wrt (<) ks"
  shows "PlainArray_BinarySearch arr 0 n key = Some (search_result ks (sint key))"
  unfolding PlainArray_BinarySearch_def
proof (rule binary_search_spec [OF assms])
  show "n - 1 = word_of_nat (length ks) - 1" using keys_of_length [OF assms(1)] by (auto dest!: sym [of "unat n"])
qed auto

text \<open>The sign of the result tells whether the key was found; otherwise its complement is the insertion point.\<close>

lemma search_result_cases:
  assumes "length ks < 2147483648" "sorted_wrt (<) ks"
  shows "k \<in> set ks \<Longrightarrow> sint (search_result ks k) = int (position ks k) \<and> unat (search_result ks k) = position ks k"
    and "k \<notin> set ks \<Longrightarrow> sint (search_result ks k) < 0 \<and> xor (search_result ks k) 0xFFFFFFFF = word_of_nat (position ks k)"
proof -
  let ?p = "position ks k"
  have p: "?p < 2147483648" using position_le [of ks k] assms(1) by simp
  then have u: "unat (word_of_nat ?p :: u32) = ?p" by (simp add: unat_of_nat)
  show "k \<in> set ks \<Longrightarrow> sint (search_result ks k) = int ?p \<and> unat (search_result ks k) = ?p"
    using p u sint_length [OF u] by (simp add: search_result_def)
  assume k: "k \<notin> set ks"
  have r: "search_result ks k = not (word_of_nat ?p)"
    using k by (simp add: search_result_def not_eq_complement)
  have "sint (not (word_of_nat ?p :: u32)) = - int ?p - 1"
    using sint_length [OF u p] p
    by (simp only: signed_not_eq not_int_def) (subst signed_take_bit_int_eq_self, simp_all)
  moreover have "xor (not w) 0xFFFFFFFF = w" for w :: u32
  proof -
    have "(0xFFFFFFFF :: u32) = - 1" by simp
    then show ?thesis by (simp only:) (simp add: bit_eq_iff bit_simps)
  qed
  ultimately show "sint (search_result ks k) < 0 \<and> xor (search_result ks k) 0xFFFFFFFF = word_of_nat ?p"
    unfolding r by simp
qed

section \<open>The plain array as a map\<close>

definition pa_ks :: "plain_array \<Rightarrow> int list" where
  "pa_ks s = map (\<lambda>v. sint (the (key_number v))) (take (unat (pa_length s)) (pa_keys s))"

definition pa_vs :: "plain_array \<Rightarrow> JSTaggedValue list" where
  "pa_vs s = take (unat (pa_length s)) (pa_values s)"

definition pa_inv :: "plain_array \<Rightarrow> bool" where
  "pa_inv s \<longleftrightarrow> keys_of (pa_keys s) (pa_length s) (pa_ks s) \<and> holds (pa_values s) (pa_length s) (pa_vs s) \<and>
     length (pa_keys s) = length (pa_values s) \<and> sorted_wrt (<) (pa_ks s)"

definition pa_map :: "plain_array \<Rightarrow> int \<rightharpoonup> JSTaggedValue" where
  "pa_map s = map_of (zip (pa_ks s) (pa_vs s))"

text \<open>Inserting moves the entries behind the new one before the arrays grow, so it needs a free slot.\<close>

definition pa_spare :: "plain_array \<Rightarrow> bool" where
  "pa_spare s \<longleftrightarrow> unat (pa_length s) < length (pa_values s)"

lemma pa_facts:
  assumes "pa_inv s"
  shows "keys_of (pa_keys s) (pa_length s) (pa_ks s)" "holds (pa_values s) (pa_length s) (pa_vs s)"
    "length (pa_keys s) = length (pa_values s)" "sorted_wrt (<) (pa_ks s)"
    "unat (pa_length s) = length (pa_ks s)" "length (pa_vs s) = length (pa_ks s)" "length (pa_ks s) < 2147483648"
    "length (pa_ks s) \<le> length (pa_values s)" "length (pa_values s) < 2147483648" "distinct (pa_ks s)"
  using assms keys_of_length [of "pa_keys s" "pa_length s" "pa_ks s"] holds_length [of "pa_values s" "pa_length s" "pa_vs s"]
    strictly_sorted_distinct [of "pa_ks s"]
  by (simp_all add: pa_inv_def)

lemma keys_of_unique: "keys_of arr n ks \<Longrightarrow> map (\<lambda>v. sint (the (key_number v))) (take (unat n) arr) = ks"
proof -
  assume "keys_of arr n ks"
  then obtain ws where ws: "holds arr n ws" "list_all2 (\<lambda>v k. map_option sint (key_number v) = Some k) ws ks"
    by (auto simp: keys_of_def)
  have "map (\<lambda>v. sint (the (key_number v))) ws = ks"
    using ws(2) by (induction rule: list_all2_induct) auto
  then show ?thesis using holds_unique [OF ws(1)] by simp
qed

lemma pa_invI:
  assumes "keys_of (pa_keys s) (pa_length s) ks" "holds (pa_values s) (pa_length s) vs"
    "length (pa_keys s) = length (pa_values s)" "sorted_wrt (<) ks"
  shows "pa_inv s \<and> pa_ks s = ks \<and> pa_vs s = vs"
  using assms keys_of_unique [OF assms(1)] holds_unique [OF assms(2)] by (simp add: pa_inv_def pa_ks_def pa_vs_def)

lemma PlainArray_search:
  assumes "pa_inv s"
  shows "PlainArray_BinarySearch (pa_keys s) 0 (pa_length s) k = Some (search_result (pa_ks s) (sint k))"
  using pa_facts [OF assms] by (intro PlainArray_BinarySearch_spec)

lemma pa_map_None: "pa_inv s \<Longrightarrow> k \<notin> set (pa_ks s) \<longleftrightarrow> pa_map s k = None"
  using pa_facts(6) [of s] by (simp add: pa_map_def map_of_zip_is_None)

lemma pa_map_position:
  assumes "pa_inv s" "k \<in> set (pa_ks s)"
  shows "pa_map s k = Some (pa_vs s ! position (pa_ks s) k)" "position (pa_ks s) k < length (pa_ks s)"
    "pa_ks s ! position (pa_ks s) k = k"
proof -
  show p: "position (pa_ks s) k < length (pa_ks s)" "pa_ks s ! position (pa_ks s) k = k"
    using position_member [OF pa_facts(4) [OF assms(1)], of k] assms(2) by auto
  show "pa_map s k = Some (pa_vs s ! position (pa_ks s) k)"
    using map_of_zip_nth [of "pa_ks s" "pa_vs s" "position (pa_ks s) k"] p pa_facts [OF assms(1)] by (simp add: pa_map_def)
qed

lemma PlainArray_Has_spec:
  assumes "pa_inv s"
  shows "PlainArray_Has s k = Some (pa_map s (sint k) \<noteq> None)"
  using search_result_cases [OF pa_facts(7,4) [OF assms], of "sint k"] pa_map_None [OF assms, of "sint k"]
  by (cases "sint k \<in> set (pa_ks s)") (simp_all add: PlainArray_Has_def PlainArray_search [OF assms])

lemma PlainArray_Get_spec:
  assumes "pa_inv s" "key_number key = Some k"
  shows "PlainArray_Get s key = Some (case pa_map s (sint k) of None \<Rightarrow> VUndefined | Some v \<Rightarrow> v)"
proof (cases "sint k \<in> set (pa_ks s)")
  case True
  note f = pa_facts [OF assms(1)]
  then show ?thesis
    using True search_result_cases(1) [OF f(7,4) True] pa_map_position [OF assms(1) True] assms(2)
      holds_get [OF f(2), of "search_result (pa_ks s) (sint k)"]
    by (simp add: PlainArray_Get_def PlainArray_search [OF assms(1)])
next
  case False
  then show ?thesis
    using search_result_cases(2) [OF pa_facts(7,4) [OF assms(1)] False] pa_map_None [OF assms(1), of "sint k"] assms
    by (simp add: PlainArray_Get_def PlainArray_search [OF assms(1)])
qed

section \<open>Inserting and removing entries\<close>

lemma AdjustPrimitiveArray_spec:
  assumes "holds arr n xs" "unat to \<le> unat from" "unat from \<le> length xs"
  shows "\<exists>arr'. AdjustPrimitiveArray n arr from to = Some arr' \<and> length arr' = length arr \<and>
    holds arr' (n - (from - to)) (take (unat to) xs @ drop (unat from) xs)"
proof -
  note f = holds_length [OF assms(1)]
  have d: "unat (from - to) = unat from - unat to" "unat (n - from) = length xs - unat from"
    using assms f(1) by (simp_all add: unat_sub word_le_nat_alt)
  have m: "unat (n - (from - to)) = length xs - (unat from - unat to)"
    using assms f(1) d(1) by (subst unat_sub) (simp_all add: word_le_nat_alt)
  obtain arr1 where arr1: "move_down (length xs - unat from) arr to from = Some arr1" "length arr1 = length arr"
      "holds arr1 (n - (from - to)) (take (unat to) xs @ drop (unat from) xs)"
    using holds_cut [OF assms refl refl m] by blast
  have e: "to + (n - from) = n - (from - to)" by simp
  have "unat (from - to) + unat (n - (from - to)) \<le> length arr1" using d m f(2) assms arr1(2) by linarith
  then show ?thesis
    using holds_fill [OF arr1(3), of "unat (from - to)" VHole] arr1 unfolding AdjustPrimitiveArray_def d(2) e by auto
qed

lemma AdjustPrimitiveArray_keys:
  assumes "keys_of arr n ks" "unat to \<le> unat from" "unat from \<le> length ks"
  shows "\<exists>arr'. AdjustPrimitiveArray n arr from to = Some arr' \<and> length arr' = length arr \<and>
    keys_of arr' (n - (from - to)) (take (unat to) ks @ drop (unat from) ks)"
proof -
  obtain ws where ws: "holds arr n ws" "list_all2 (\<lambda>v k. map_option sint (key_number v) = Some k) ws ks"
    using assms(1) by (auto simp: keys_of_def)
  then have "list_all2 (\<lambda>v k. map_option sint (key_number v) = Some k)
      (take (unat to) ws @ drop (unat from) ws) (take (unat to) ks @ drop (unat from) ks)"
    by (intro list_all2_appendI list_all2_takeI list_all2_dropI)
  then show ?thesis
    using AdjustPrimitiveArray_spec [OF ws(1) assms(2)] assms(3) list_all2_lengthD [OF ws(2)]
    unfolding keys_of_def by fastforce
qed

lemma PlainArray_AdjustForward_spec:
  assumes "pa_inv s" "unat i + unat c \<le> length (pa_ks s)"
  shows "\<exists>s'. PlainArray_AdjustForward s i c = Some s' \<and> pa_inv s' \<and> length (pa_values s') = length (pa_values s) \<and>
    pa_ks s' = take (unat i) (pa_ks s) @ drop (unat i + unat c) (pa_ks s) \<and>
    pa_vs s' = take (unat i) (pa_vs s) @ drop (unat i + unat c) (pa_vs s)"
proof -
  note f = pa_facts [OF assms(1)]
  have u: "unat (i + c) = unat i + unat c" using assms(2) f(7) by (simp add: unat_plus_if_size word_size)
  obtain keys where keys: "AdjustPrimitiveArray (pa_length s) (pa_keys s) (i + c) i = Some keys"
      "length keys = length (pa_keys s)" "keys_of keys (pa_length s - c) (take (unat i) (pa_ks s) @ drop (unat i + unat c) (pa_ks s))"
    using AdjustPrimitiveArray_keys [OF f(1), of i "i + c"] assms(2) u by auto
  obtain vals where vals: "AdjustPrimitiveArray (pa_length s) (pa_values s) (i + c) i = Some vals"
      "length vals = length (pa_values s)" "holds vals (pa_length s - c) (take (unat i) (pa_vs s) @ drop (unat i + unat c) (pa_vs s))"
    using AdjustPrimitiveArray_spec [OF f(2), of i "i + c"] assms(2) u f(6) by auto
  let ?s = "\<lparr>pa_keys = keys, pa_values = vals, pa_length = pa_length s - c\<rparr>"
  have "pa_inv ?s \<and> pa_ks ?s = take (unat i) (pa_ks s) @ drop (unat i + unat c) (pa_ks s) \<and>
      pa_vs ?s = take (unat i) (pa_vs s) @ drop (unat i + unat c) (pa_vs s)"
    using keys vals f(3) sorted_cut [OF f(4), of "unat i" "unat i + unat c"] by (intro pa_invI) simp_all
  then show ?thesis using keys(1) vals by (auto simp: PlainArray_AdjustForward_def AdjustArray_def)
qed

text \<open>Removing the entry at a position removes its key from the map.\<close>

lemma PlainArray_AdjustForward_one:
  assumes "pa_inv s" "unat i < length (pa_ks s)"
  shows "\<exists>s'. PlainArray_AdjustForward s i 1 = Some s' \<and> pa_inv s' \<and> pa_spare s' \<and>
    length (pa_ks s') = length (pa_ks s) - 1 \<and> pa_map s' = (pa_map s)(pa_ks s ! unat i := None)"
proof -
  note f = pa_facts [OF assms(1)]
  obtain s' where s': "PlainArray_AdjustForward s i 1 = Some s'" "pa_inv s'" "length (pa_values s') = length (pa_values s)"
    "pa_ks s' = take (unat i) (pa_ks s) @ drop (Suc (unat i)) (pa_ks s)"
    "pa_vs s' = take (unat i) (pa_vs s) @ drop (Suc (unat i)) (pa_vs s)"
    using PlainArray_AdjustForward_spec [OF assms(1), of i 1] assms(2) by auto
  moreover have "length (pa_ks s') = length (pa_ks s) - 1" using s'(4) assms(2) by simp
  moreover have "pa_spare s'" using pa_facts(5) [OF s'(2)] calculation(3,6) f(8) assms(2) by (simp add: pa_spare_def)
  moreover have "pa_map s' = (pa_map s)(pa_ks s ! unat i := None)"
    unfolding pa_map_def s'(4,5) using assms(2) f by (intro map_remove_at) simp_all
  ultimately show ?thesis by blast
qed

text \<open>What \<open>Add\<close> does to each of the two arrays when the key is new: make room, grow, store.\<close>

lemma make_room:
  assumes "holds arr n xs" "length xs < length arr" "unat i \<le> length xs" "length xs < 1073741823"
    "c = TaggedArray_GetLength arr" "m = length arr"
  shows "\<exists>arr1 arr2. (if sint i < sint n then AdjustArray n arr i n True else Some arr) = Some arr1 \<and>
    length arr1 = m \<and>
    (if n + 1 \<ge> c then CopyArray arr1 c (push_bit 1 c) else Some arr1) = Some arr2 \<and>
    (\<exists>arr3. TaggedArray_Set arr2 i v = Some arr3 \<and> length arr3 = (if Suc (length xs) \<ge> m then 2 * m else m) \<and>
       holds arr3 (n + 1) (take (unat i) xs @ v # drop (unat i) xs))"
proof -
  note f = holds_length [OF assms(1)]
  obtain arr' where ins: "InsertElementByIndex arr v i n = Some arr'" "length arr' = length arr"
      "holds arr' (n + 1) (take (unat i) xs @ v # drop (unat i) xs)"
    using holds_insert [OF assms(1-3)] by blast
  then obtain arr1 where arr1: "shift_up arr i n = Some arr1" "TaggedArray_Set arr1 i v = Some arr'"
    by (auto simp: InsertElementByIndex_def split: bind_splits)
  then have set1: "arr' = arr1[unat i := v]" "unat i < length arr1" "length arr1 = length arr"
    using ins(2) by (auto simp: TaggedArray_Set_def split: if_splits)
  have i: "sint i = int (unat i)" using assms f sint_small [of i] by simp
  have room: "(if sint i < sint n then AdjustArray n arr i n True else Some arr) = Some arr1"
  proof (cases "unat i = length xs")
    case True
    then have "i = n" using f(1) by (simp add: word_unat_eq_iff)
    then show ?thesis using arr1(1) by (simp add: shift_up.simps)
  next
    case False
    have "nat (sint n - sint i) = unat n - unat i" unfolding f(6) i f(1) by (rule nat_minus)
    moreover have "sint i < sint n" unfolding f(6) i using False assms(3) by linarith
    ultimately show ?thesis using assms(3) f(1) arr1(1) move_up_shift_up [of i n arr] by (simp add: AdjustArray_def)
  qed
  have n1: "unat (n + 1) = Suc (length xs)" using f by (subst unat_inc) simp_all
  have cap: "n + 1 \<ge> TaggedArray_GetLength arr \<longleftrightarrow> Suc (length xs) \<ge> length arr"
    using f n1 by (simp add: word_le_nat_alt)
  show ?thesis
  proof (cases "Suc (length xs) \<ge> length arr")
    case False
    then show ?thesis using room cap arr1 set1 ins assms(5,6) by auto
  next
    case True
    let ?c = "TaggedArray_GetLength arr"
    have cc: "unat ?c = length arr" "TaggedArray_GetLength arr1 = ?c"
      using f set1(3) unat_GetLength [of arr] by (simp_all add: TaggedArray_GetLength_def)
    have c2: "unat (push_bit 1 ?c) = 2 * length arr"
      using cc True assms(4) by (simp add: push_bit_eq_mult unat_word_ariths)
    have "CopyArray arr1 ?c (push_bit 1 ?c) = Some (arr1 @ replicate (length arr) VHole)"
      using cc c2 set1(3) assms(2) f by (subst CopyArray_grow) (auto simp: word_less_nat_alt)
    moreover have "TaggedArray_Set (arr1 @ replicate (length arr) VHole) i v = Some (arr' @ replicate (length arr) VHole)"
      using set1 by (simp add: list_update_append)
    moreover have "holds (arr' @ replicate (length arr) VHole) (n + 1) (take (unat i) xs @ v # drop (unat i) xs)"
      using ins True assms(4) by (intro holds_extend) simp_all
    ultimately show ?thesis using room cap True set1 ins(2) assms(5,6) by auto
  qed
qed

lemma make_room_keys:
  assumes "keys_of arr n ks" "length ks < length arr" "unat i \<le> length ks" "length ks < 1073741823"
    "key_number key = Some k" "c = TaggedArray_GetLength arr" "m = length arr"
  shows "\<exists>arr1 arr2. (if sint i < sint n then AdjustArray n arr i n True else Some arr) = Some arr1 \<and>
    length arr1 = m \<and>
    (if n + 1 \<ge> c then CopyArray arr1 c (push_bit 1 c) else Some arr1) = Some arr2 \<and>
    (\<exists>arr3. TaggedArray_Set arr2 i key = Some arr3 \<and> length arr3 = (if Suc (length ks) \<ge> m then 2 * m else m) \<and>
       keys_of arr3 (n + 1) (take (unat i) ks @ sint k # drop (unat i) ks))"
proof -
  obtain ws where ws: "holds arr n ws" "list_all2 (\<lambda>v k. map_option sint (key_number v) = Some k) ws ks"
    using assms(1) by (auto simp: keys_of_def)
  then have "list_all2 (\<lambda>v k. map_option sint (key_number v) = Some k)
      (take (unat i) ws @ key # drop (unat i) ws) (take (unat i) ks @ sint k # drop (unat i) ks)"
    using assms(5) by (intro list_all2_appendI list_all2_takeI list.rel_intros list_all2_dropI) simp_all
  moreover have "length ws = length ks" using list_all2_lengthD [OF ws(2)] .
  ultimately show ?thesis
    using make_room [OF ws(1), of i c m key] assms(2-4,6,7) unfolding keys_of_def by fastforce
qed

definition PLAINARRAY_LIMIT :: nat where "PLAINARRAY_LIMIT = 1073741823"

lemma PlainArray_Add_new:
  assumes "pa_inv s" "pa_spare s" "length (pa_ks s) < PLAINARRAY_LIMIT" "key_number key = Some k"
    "sint k \<notin> set (pa_ks s)"
  shows "\<exists>s'. PlainArray_Add s key v = Some s' \<and> pa_inv s' \<and> pa_spare s' \<and>
    length (pa_ks s') = Suc (length (pa_ks s)) \<and> pa_map s' = (pa_map s)(sint k \<mapsto> v)"
proof -
  note f = pa_facts [OF assms(1)]
  let ?p = "position (pa_ks s) (sint k)" and ?n = "pa_length s" and ?c = "TaggedArray_GetLength (pa_values s)"
  note r = search_result_cases(2) [OF f(7,4) assms(5)]
  define i where "i = (word_of_nat ?p :: u32)"
  have i: "unat i = ?p" "?p \<le> length (pa_ks s)" "unat i \<le> length (pa_ks s)"
    using position_le [of "pa_ks s" "sint k"] f(7) by (auto simp: i_def unat_of_nat)
  have lt: "length (pa_ks s) < length (pa_values s)" "length (pa_ks s) < length (pa_keys s)" "length (pa_ks s) < 1073741823"
    using assms(2,3) f(3,5) by (simp_all add: pa_spare_def PLAINARRAY_LIMIT_def)
  have ck: "TaggedArray_GetLength (pa_keys s) = ?c" using f(3) by (simp add: TaggedArray_GetLength_def)
  obtain k1 k2 k3 where ks: "(if sint i < sint ?n then AdjustArray ?n (pa_keys s) i ?n True else Some (pa_keys s)) = Some k1"
      "(if ?n + 1 \<ge> ?c then CopyArray k1 ?c (push_bit 1 ?c) else Some k1) = Some k2"
      "TaggedArray_Set k2 i key = Some k3" "length k3 = (if Suc (length (pa_ks s)) \<ge> length (pa_values s) then 2 * length (pa_values s) else length (pa_values s))"
      "keys_of k3 (?n + 1) (take ?p (pa_ks s) @ sint k # drop ?p (pa_ks s))"
    using make_room_keys [OF f(1) lt(2) i(3) lt(3) assms(4) ck [symmetric] f(3) [symmetric]] unfolding i(1) by blast
  obtain v1 v2 v3 where vs: "(if sint i < sint ?n then AdjustArray ?n (pa_values s) i ?n True else Some (pa_values s)) = Some v1"
      "length v1 = length (pa_values s)" "(if ?n + 1 \<ge> ?c then CopyArray v1 ?c (push_bit 1 ?c) else Some v1) = Some v2"
      "TaggedArray_Set v2 i v = Some v3" "length v3 = (if Suc (length (pa_ks s)) \<ge> length (pa_values s) then 2 * length (pa_values s) else length (pa_values s))"
      "holds v3 (?n + 1) (take ?p (pa_vs s) @ v # drop ?p (pa_vs s))"
    using make_room [OF f(2) _ _ _ refl refl, of i v] lt(1,3) i(3) unfolding i(1) f(6) by blast
  let ?s = "\<lparr>pa_keys = k3, pa_values = v3, pa_length = ?n + 1\<rparr>"
  have cv: "TaggedArray_GetLength v1 = ?c" using vs(2) by (simp add: TaggedArray_GetLength_def)
  have r': "(0 \<le> sint (search_result (pa_ks s) (sint k))) = False" "xor (search_result (pa_ks s) (sint k)) 0xFFFFFFFF = i"
    using r by (simp_all add: i_def)
  have add: "PlainArray_Add s key v = Some ?s"
    by (simp only: PlainArray_Add_def Let_def assms(4) PlainArray_search [OF assms(1)] Option.bind.simps r' if_False
        ks(1-3) vs(1,3,4) cv)
  have inv: "pa_inv ?s \<and> pa_ks ?s = take ?p (pa_ks s) @ sint k # drop ?p (pa_ks s) \<and>
      pa_vs ?s = take ?p (pa_vs s) @ v # drop ?p (pa_vs s)"
    using ks(4,5) vs(5,6) sorted_insert_at [OF f(4) assms(5)] by (intro pa_invI) simp_all
  moreover have "pa_map ?s = (pa_map s)(sint k \<mapsto> v)"
    using inv map_insert_at [OF i(2), of "pa_vs s" "sint k" v] f(6) assms(5) by (simp add: pa_map_def)
  moreover have "unat (?n + 1) = Suc (length (pa_ks s))" using keys_of_length [OF ks(5)] i(2) by simp
  then have "pa_spare ?s" using vs(5) lt by (simp add: pa_spare_def)
  ultimately show ?thesis using add i(2) by simp
qed

lemma PlainArray_Add_old:
  assumes "pa_inv s" "key_number key = Some k" "sint k \<in> set (pa_ks s)"
  shows "\<exists>s'. PlainArray_Add s key v = Some s' \<and> pa_inv s' \<and> length (pa_values s') = length (pa_values s) \<and>
    pa_length s' = pa_length s \<and> pa_ks s' = pa_ks s \<and> pa_map s' = (pa_map s)(sint k \<mapsto> v)"
proof -
  note f = pa_facts [OF assms(1)]
  let ?p = "position (pa_ks s) (sint k)"
  define i where "i = search_result (pa_ks s) (sint k)"
  have i: "unat i = ?p" "sint i = int ?p" using search_result_cases(1) [OF f(7,4) assms(3)] by (simp_all add: i_def)
  note p = pa_map_position [OF assms(1,3)]
  obtain ws where ws: "holds (pa_keys s) (pa_length s) ws"
      "list_all2 (\<lambda>v k. map_option sint (key_number v) = Some k) ws (pa_ks s)"
    using f(1) by (auto simp: keys_of_def)
  have len: "length ws = length (pa_ks s)" using list_all2_lengthD [OF ws(2)] .
  have lt: "unat i < length ws" "unat i < length (pa_vs s)" using i p(2) len f(6) by simp_all
  note k = holds_set [OF ws(1) lt(1), of key] and v = holds_set [OF f(2) lt(2), of v]
  have "list_all2 (\<lambda>v k. map_option sint (key_number v) = Some k) (ws[?p := key]) ((pa_ks s)[?p := sint k])"
    using ws(2) assms(2) by (intro list_all2_update_cong) simp_all
  then have ko: "keys_of ((pa_keys s)[?p := key]) (pa_length s) (pa_ks s)"
    using k(2) p(3) i(1) unfolding keys_of_def by (metis list_update_id)
  let ?s = "s\<lparr>pa_keys := (pa_keys s)[?p := key], pa_values := (pa_values s)[?p := v]\<rparr>"
  have add: "PlainArray_Add s key v = Some ?s"
    using assms(2) i k(1) v(1) by (simp add: PlainArray_Add_def Let_def PlainArray_search [OF assms(1)] i_def [symmetric])
  have inv: "pa_inv ?s \<and> pa_ks ?s = pa_ks s \<and> pa_vs ?s = (pa_vs s)[?p := v]"
    using ko v(2) i(1) f(3,4) by (intro pa_invI) simp_all
  moreover have "pa_map ?s = (pa_map s)(sint k \<mapsto> v)"
    using inv map_update_at [OF p(2), of "pa_vs s" v] f(6,10) p(3) by (simp add: pa_map_def)
  ultimately show ?thesis using add by simp
qed

lemma PlainArray_Add_spec:
  assumes "pa_inv s" "pa_spare s" "length (pa_ks s) < PLAINARRAY_LIMIT" "key_number key = Some k"
  shows "\<exists>s'. PlainArray_Add s key v = Some s' \<and> pa_inv s' \<and> pa_spare s' \<and>
    length (pa_ks s') \<le> Suc (length (pa_ks s)) \<and> pa_map s' = (pa_map s)(sint k \<mapsto> v)"
proof (cases "sint k \<in> set (pa_ks s)")
  case True
  then show ?thesis using PlainArray_Add_old [OF assms(1,4) True, of v] assms(2) by (auto simp: pa_spare_def)
next
  case False
  then show ?thesis using PlainArray_Add_new [OF assms False, of v] by auto
qed

lemma PlainArray_Remove_spec:
  assumes "pa_inv s" "key_number key = Some k"
  shows "\<exists>s'. PlainArray_Remove s key = Some (case pa_map s (sint k) of None \<Rightarrow> VUndefined | Some v \<Rightarrow> v, s') \<and>
    pa_inv s' \<and> (pa_spare s \<longrightarrow> pa_spare s') \<and> length (pa_ks s') \<le> length (pa_ks s) \<and>
    pa_map s' = (pa_map s)(sint k := None)"
proof (cases "sint k \<in> set (pa_ks s)")
  case False
  then have "pa_map s (sint k) = None" using pa_map_None [OF assms(1)] by blast
  moreover have "(pa_map s)(sint k := None) = pa_map s" using calculation by (auto simp: fun_upd_idem)
  ultimately show ?thesis
    using search_result_cases(2) [OF pa_facts(7,4) [OF assms(1)] False] assms
    by (simp add: PlainArray_Remove_def PlainArray_search [OF assms(1)])
next
  case True
  note f = pa_facts [OF assms(1)] and p = pa_map_position [OF assms(1) True]
  define i where "i = search_result (pa_ks s) (sint k)"
  have i: "unat i = position (pa_ks s) (sint k)" "sint i = int (position (pa_ks s) (sint k))"
    using search_result_cases(1) [OF f(7,4) True] by (simp_all add: i_def)
  have "\<not> (sint i < 0 \<or> sint i \<ge> sint (pa_length s))" using i p(2) holds_length(6) [OF f(2)] f(6) by simp
  moreover have "TaggedArray_Get (pa_values s) i = Some (pa_vs s ! unat i)" using holds_get [OF f(2)] i p(2) f(6) by simp
  ultimately show ?thesis
    using PlainArray_AdjustForward_one [OF assms(1), of i] i(1) p assms(2)
    by (auto simp: PlainArray_Remove_def PlainArray_search [OF assms(1)] i_def [symmetric])
qed

lemma PlainArray_RemoveAt_spec:
  assumes "pa_inv s" "key_number index = Some i" "unat i < length (pa_ks s)"
  shows "\<exists>s'. PlainArray_RemoveAt s index = Some (pa_vs s ! unat i, s') \<and> pa_inv s' \<and>
    pa_map s' = (pa_map s)(pa_ks s ! unat i := None)"
proof -
  note f = pa_facts [OF assms(1)]
  have "\<not> sint i < 0" using sint_small [of i] assms(3) f(7) by linarith
  moreover have "TaggedArray_Get (pa_values s) i = Some (pa_vs s ! unat i)" using holds_get [OF f(2)] assms(3) f(6) by simp
  ultimately show ?thesis
    using PlainArray_AdjustForward_one [OF assms(1,3)] assms(2,3) f(5)
    by (auto simp: PlainArray_RemoveAt_def word_le_nat_alt not_le)
qed

lemma PlainArray_Clear_spec:
  assumes "pa_inv s"
  shows "\<exists>s'. PlainArray_Clear s = Some s' \<and> pa_inv s' \<and> pa_map s' = Map.empty \<and> length (pa_values s') = length (pa_values s)"
proof -
  note f = pa_facts [OF assms]
  let ?n = "length (pa_ks s)"
  let ?s = "\<lparr>pa_keys = replicate ?n VHole @ drop ?n (pa_keys s), pa_values = replicate ?n VHole @ drop ?n (pa_values s), pa_length = 0\<rparr>"
  have "PlainArray_Clear s = Some ?s" using f(3,5,8,9) by (simp add: PlainArray_Clear_def fill_up_spec)
  moreover have "pa_inv ?s \<and> pa_ks ?s = [] \<and> pa_vs ?s = []"
    using f(3,8,9) by (intro pa_invI) (simp_all add: keys_of_def holds_def)
  ultimately show ?thesis using f(8) by (simp add: pa_map_def)
qed

text \<open>A clone has the same entries, but no free slot.\<close>

lemma PlainArray_Clone_spec:
  assumes "pa_inv s"
  shows "\<exists>s'. PlainArray_Clone s = Some s' \<and> pa_inv s' \<and> pa_ks s' = pa_ks s \<and> pa_vs s' = pa_vs s \<and> \<not> pa_spare s'"
proof -
  note f = pa_facts [OF assms]
  obtain ws where ws: "holds (pa_keys s) (pa_length s) ws"
      "list_all2 (\<lambda>v k. map_option sint (key_number v) = Some k) ws (pa_ks s)"
    using f(1) by (auto simp: keys_of_def)
  have c: "unat (pa_length s) < 2147483648" using f(5,7) by simp
  obtain keys where keys: "NewAndCopyTaggedArray (pa_keys s) (pa_length s) (pa_length s) 0 = Some keys"
      "length keys = unat (pa_length s)" "holds keys (pa_length s) ws"
    using holds_copy [OF ws(1) _ c] holds_length(1) [OF ws(1)] by auto
  obtain vals where vals: "NewAndCopyTaggedArray (pa_values s) (pa_length s) (pa_length s) 0 = Some vals"
      "length vals = unat (pa_length s)" "holds vals (pa_length s) (pa_vs s)"
    using holds_copy [OF f(2) _ c] holds_length(1) [OF f(2)] by auto
  let ?s = "\<lparr>pa_keys = keys, pa_values = vals, pa_length = pa_length s\<rparr>"
  have "PlainArray_Clone s = Some ?s" using keys(1) vals(1) by (simp add: PlainArray_Clone_def NewJSAPIPlainArray_def Let_def)
  moreover have "pa_inv ?s \<and> pa_ks ?s = pa_ks s \<and> pa_vs ?s = pa_vs s"
    using keys vals ws(2) f(4) by (intro pa_invI) (auto simp: keys_of_def)
  ultimately show ?thesis using vals(2) by (simp add: pa_spare_def)
qed

text \<open>
  Adding a key that belongs in front of the last entry of an array without a free slot stores behind the end
  of the array; so does adding to an array of capacity 0.
\<close>

lemma PlainArray_Add_full:
  assumes "pa_inv s" "\<not> pa_spare s" "key_number key = Some k" "sint k \<notin> set (pa_ks s)"
    "position (pa_ks s) (sint k) < length (pa_ks s) \<or> pa_ks s = []"
  shows "PlainArray_Add s key v = None"
proof -
  note f = pa_facts [OF assms(1)]
  let ?p = "position (pa_ks s) (sint k)" and ?n = "pa_length s"
  have full: "length (pa_keys s) = length (pa_ks s)" using assms(2) f(3,5,8) by (simp add: pa_spare_def)
  define i where "i = (word_of_nat ?p :: u32)"
  have i: "unat i = ?p" using position_le [of "pa_ks s" "sint k"] f(7) by (simp add: i_def unat_of_nat)
  have r: "(0 \<le> sint (search_result (pa_ks s) (sint k))) = False" "xor (search_result (pa_ks s) (sint k)) 0xFFFFFFFF = i"
    using search_result_cases(2) [OF f(7,4) assms(4)] by (simp_all add: i_def)
  show ?thesis
  proof (cases "pa_ks s = []")
    case True
    then have "?n = 0" "pa_keys s = []" "pa_values s = []" "i = 0"
      using f(3,5) full i by (simp_all add: unat_eq_0 position_def i_def)
    then show ?thesis
      using r assms(3) PlainArray_search [OF assms(1), of k]
      by (simp add: PlainArray_Add_def Let_def CopyArray_def TaggedArray_GetLength_def)
  next
    case False
    then have lt: "?p < length (pa_ks s)" using assms(5) by simp
    have si: "sint i = int ?p" "sint ?n = int (length (pa_ks s))"
      using lt f(7) sint_length [OF i] holds_length(6) [OF f(2)] f(6) by simp_all
    have pos: "0 < ?n" using False f(5) by (simp add: word_less_nat_alt)
    then have "unat (?n - 1) = length (pa_ks s) - 1" "0 < length (pa_ks s)" using unat_pred [OF pos] f(5) False by simp_all
    then have "AdjustArray ?n (pa_keys s) i ?n True = None"
      using lt full f(5) unfolding AdjustArray_def si nat_minus
      by (cases "length (pa_ks s) - ?p") (simp_all add: TaggedArray_Get_def)
    then show ?thesis
      using r assms(3) lt si by (simp add: PlainArray_Add_def Let_def PlainArray_search [OF assms(1)])
  qed
qed

lemma PlainArrayConstructor_spec:
  "\<exists>s. PlainArrayConstructor False = return_value s \<and> pa_inv s \<and> pa_spare s \<and> pa_map s = Map.empty"
proof -
  let ?s = "\<lparr>pa_keys = NewTaggedArray 8 VHole, pa_values = NewTaggedArray 8 VHole, pa_length = 0\<rparr>"
  have "pa_inv ?s \<and> pa_ks ?s = [] \<and> pa_vs ?s = []" by (intro pa_invI) (simp_all add: keys_of_def holds_def)
  then show ?thesis
    by (simp add: PlainArrayConstructor_def PlainArray_CreateSlot_def PLAINARRAY_DEFAULT_CAPACITY_def pa_spare_def pa_map_def)
qed

interpretation plain_array: tagged_map "\<lambda>s. pa_inv s \<and> pa_spare s" "\<lambda>s k. pa_map s (sint k)" "\<lambda>s. length (pa_ks s)"
  PLAINARRAY_LIMIT "\<lambda>s k. PlainArray_Add s (VInt k)" "\<lambda>s k. PlainArray_Get s (VInt k)" "\<lambda>s k. PlainArray_Remove s (VInt k)"
proof unfold_locales
  fix s :: plain_array and k :: u32 and v
  assume s: "pa_inv s \<and> pa_spare s"
  have u: "(\<lambda>k'. ((pa_map s)(sint k := y)) (sint k')) = (\<lambda>k'. pa_map s (sint k'))(k := y)" for y
    by (auto simp: fun_eq_iff dest: signed_word_eqI)
  show "\<exists>s'. PlainArray_Add s (VInt k) v = Some s' \<and> (pa_inv s' \<and> pa_spare s') \<and>
      (\<lambda>k. pa_map s' (sint k)) = (\<lambda>k. pa_map s (sint k))(k \<mapsto> v) \<and> length (pa_ks s') \<le> Suc (length (pa_ks s))"
    if "length (pa_ks s) < PLAINARRAY_LIMIT"
    using PlainArray_Add_spec [of s "VInt k" k v] s that u by auto
  show "PlainArray_Get s (VInt k) = Some (case pa_map s (sint k) of None \<Rightarrow> VUndefined | Some v \<Rightarrow> v)"
    using s by (intro PlainArray_Get_spec) simp_all
  show "\<exists>s'. PlainArray_Remove s (VInt k) = Some (case pa_map s (sint k) of None \<Rightarrow> VUndefined | Some v \<Rightarrow> v, s') \<and>
      (pa_inv s' \<and> pa_spare s') \<and> (\<lambda>k. pa_map s' (sint k)) = (\<lambda>k. pa_map s (sint k))(k := None) \<and>
      length (pa_ks s') \<le> length (pa_ks s)"
    using PlainArray_Remove_spec [of s "VInt k" k] s u by auto
qed

section \<open>Access by position\<close>

text \<open>\<open>size - (index + batchSize)\<close> is negative exactly when the range ends behind the last entry, even when the sum wraps.\<close>

lemma range_end_negative:
  fixes i b n :: u32
  assumes "unat i < unat n" "unat n < 2147483648" "unat b < 2147483648"
  shows "sint (n - (i + b)) < 0 \<longleftrightarrow> unat n < unat i + unat b"
proof -
  have s: "unat (i + b) = unat i + unat b" using assms by (simp add: unat_plus_if_size word_size)
  show ?thesis
  proof (cases "unat n < unat i + unat b")
    case True
    have "unat (n - (i + b)) = 4294967296 + unat n - (unat i + unat b)"
      using True s by (simp add: unat_sub_if_size word_size)
    then have "\<not> unat (n - (i + b)) < 2147483648" "unat (n - (i + b)) < 4294967296" using assms True by linarith+
    moreover have "sint (n - (i + b)) = int (unat (n - (i + b))) - 4294967296"
      using calculation(1) by (simp only: sint_unat if_False)
    ultimately show ?thesis using True by linarith
  next
    case False
    have "unat (n - (i + b)) = unat n - (unat i + unat b)" using False s by (simp add: unat_sub_if_size word_size)
    then have "unat (n - (i + b)) < 2147483648" using assms by linarith
    then show ?thesis using False sint_small [of "n - (i + b)"] by linarith
  qed
qed

lemma PlainArray_RemoveRangeFrom_spec:
  assumes "pa_inv s" "unat i < length (pa_ks s)" "1 \<le> sint b" "sint i + sint b < 2 ^ 31"
  shows "\<exists>s'. PlainArray_RemoveRangeFrom s i b = return_value (word_of_nat (min (unat b) (length (pa_ks s) - unat i)), s') \<and>
    pa_inv s' \<and> pa_ks s' = take (unat i) (pa_ks s) @ drop (unat i + unat b) (pa_ks s) \<and>
    pa_vs s' = take (unat i) (pa_vs s) @ drop (unat i + unat b) (pa_vs s)"
proof -
  note f = pa_facts [OF assms(1)]
  have b: "unat b < 2147483648" using assms(3) word32_bound [of b] unfolding sint_unat by (auto split: if_splits)
  define c where "c = (if sint (pa_length s - (i + b)) < 0 then pa_length s - i else b)"
  have neg: "sint (pa_length s - (i + b)) < 0 \<longleftrightarrow> length (pa_ks s) < unat i + unat b"
    using range_end_negative [of i "pa_length s" b] assms(2) b f(5,7) by simp
  have c: "unat c = min (unat b) (length (pa_ks s) - unat i)"
    unfolding c_def neg using assms(2) f(5) by (auto simp: unat_sub word_le_nat_alt)
  then have cw: "c = word_of_nat (min (unat b) (length (pa_ks s) - unat i))"
    using f(7) by (simp add: word_unat_eq_iff unat_of_nat)
  have "unat i + unat c \<le> length (pa_ks s)" using c assms(2) by simp
  from PlainArray_AdjustForward_spec [OF assms(1) this] obtain s' where
    s': "PlainArray_AdjustForward s i c = Some s'" "pa_inv s'"
      "pa_ks s' = take (unat i) (pa_ks s) @ drop (unat i + unat c) (pa_ks s)"
      "pa_vs s' = take (unat i) (pa_vs s) @ drop (unat i + unat c) (pa_vs s)" by blast
  have d: "drop (unat i + unat c) xs = drop (unat i + unat b) xs" if "length xs = length (pa_ks s)" for xs :: "'x list"
    using c that by (cases "unat b \<le> length (pa_ks s) - unat i") simp_all
  have "\<not> (sint i < 0 \<or> sint i \<ge> sint (pa_length s))" "\<not> sint b < 1"
    using assms(2,3) f(6,7) holds_length(6) [OF f(2)] sint_outside [of "length (pa_ks s)" i] by auto
  then have "PlainArray_RemoveRangeFrom s i b = return_value (c, s')"
    using s'(1) assms(4) by (simp add: PlainArray_RemoveRangeFrom_def c_def [symmetric] Let_def)
  then show ?thesis using s' cw d [of "pa_ks s"] d [of "pa_vs s"] f(6) by simp
qed

lemma PlainArray_at_spec:
  assumes "pa_inv s"
  shows "PlainArray_GetKeyAt s i = Some (if unat i < length (pa_ks s) then pa_keys s ! unat i else VUndefined)"
    and "PlainArray_GetValueAt s i = (if unat i < length (pa_ks s) then return_value (pa_vs s ! unat i)
      else raise_error (PlainArray_range_error (pa_length s) i))"
proof -
  note f = pa_facts [OF assms]
  have "sint i < 0 \<or> sint (pa_length s) \<le> sint i \<longleftrightarrow> \<not> unat i < length (pa_ks s)"
    using sint_outside [of "length (pa_ks s)" i] f(6,7) holds_length(6) [OF f(2)] by simp
  then show "PlainArray_GetKeyAt s i = Some (if unat i < length (pa_ks s) then pa_keys s ! unat i else VUndefined)"
    "PlainArray_GetValueAt s i = (if unat i < length (pa_ks s) then return_value (pa_vs s ! unat i)
      else raise_error (PlainArray_range_error (pa_length s) i))"
    using f(3,6,8) holds_get [OF f(2), of i] by (auto simp: PlainArray_GetKeyAt_def PlainArray_GetValueAt_def)
qed

text \<open>Reading a property by key looks up the position of the key as if it were a key.\<close>

lemma PlainArray_GetProperty_spec:
  assumes "pa_inv s" "sint k \<in> set (pa_ks s)"
  shows "PlainArray_GetProperty s k =
    return_value (case pa_map s (int (position (pa_ks s) (sint k))) of None \<Rightarrow> VUndefined | Some v \<Rightarrow> v)"
proof -
  note f = pa_facts [OF assms(1)] and p = pa_map_position [OF assms]
  define i where "i = search_result (pa_ks s) (sint k)"
  have i: "unat i = position (pa_ks s) (sint k)" "sint i = int (position (pa_ks s) (sint k))"
    using search_result_cases(1) [OF f(7,4) assms(2)] by (simp_all add: i_def)
  have "\<not> (sint i < 0 \<or> sint i \<ge> sint (pa_length s))" using i p(2) holds_length(6) [OF f(2)] f(6) by simp
  then show ?thesis
    using PlainArray_Get_spec [OF assms(1), of "VInt i" i] i(2)
    by (simp add: PlainArray_GetProperty_def PlainArray_search [OF assms(1)] i_def [symmetric])
qed

end
