(* ===== verification/Container_Trace.thy ===== *)
theory Container_Trace
  imports Simulation Container_Deque Container_Queue Container_Stack Container_ArrayList Container_Vector Container_PlainArray
begin

text \<open>
  Sequences of operations on a container, run on the model of the code and on a list: a simulation of single
  operations gives the same outputs for every sequence.
\<close>

lemma word_of_natI: "unat w = n \<Longrightarrow> w = word_of_nat n" for w :: u32
  by auto

section \<open>Deque\<close>

datatype deque_op =
    DInsertFront JSTaggedValue | DInsertEnd JSTaggedValue | DPopFirst | DPopLast | DGetFront | DGetTail
  | DHas JSTaggedValue | DGetSize

datatype api_output = OVoid | OValue JSTaggedValue | OBool bool | ONum u32 | OError js_error

fun deque_step :: "deque_op \<Rightarrow> deque \<Rightarrow> (api_output \<times> deque) option" where
  "deque_step (DInsertFront v) d = do { d' \<leftarrow> Deque_InsertFront d v; Some (OVoid, d') }"
| "deque_step (DInsertEnd v) d = do { d' \<leftarrow> Deque_InsertEnd d v; Some (OVoid, d') }"
| "deque_step DPopFirst d = do { (v, d') \<leftarrow> Deque_PopFirst d; Some (OValue v, d') }"
| "deque_step DPopLast d = do { (v, d') \<leftarrow> Deque_PopLast d; Some (OValue v, d') }"
| "deque_step DGetFront d = do { v \<leftarrow> Deque_GetFront d; Some (OValue v, d) }"
| "deque_step DGetTail d = do { v \<leftarrow> Deque_GetTail d; Some (OValue v, d) }"
| "deque_step (DHas v) d = do { b \<leftarrow> Deque_Has d v; Some (OBool b, d) }"
| "deque_step DGetSize d = Some (ONum (Deque_GetSize d), d)"

definition head_value :: "JSTaggedValue list \<Rightarrow> JSTaggedValue" where
  "head_value xs = (if xs = [] then VUndefined else hd xs)"

definition last_value :: "JSTaggedValue list \<Rightarrow> JSTaggedValue" where
  "last_value xs = (if xs = [] then VUndefined else last xs)"

fun list_deque_step :: "deque_op \<Rightarrow> JSTaggedValue list \<Rightarrow> (api_output \<times> JSTaggedValue list) option" where
  "list_deque_step (DInsertFront v) xs = Some (OVoid, v # xs)"
| "list_deque_step (DInsertEnd v) xs = Some (OVoid, xs @ [v])"
| "list_deque_step DPopFirst xs = Some (OValue (head_value xs), tl xs)"
| "list_deque_step DPopLast xs = Some (OValue (last_value xs), butlast xs)"
| "list_deque_step DGetFront xs = Some (OValue (head_value xs), xs)"
| "list_deque_step DGetTail xs = Some (OValue (last_value xs), xs)"
| "list_deque_step (DHas v) xs = Some (OBool (\<exists>x \<in> set xs. JSTaggedValue_SameValue x v), xs)"
| "list_deque_step DGetSize xs = Some (ONum (word_of_nat (length xs)), xs)"

lemma Deque_Pop_empty:
  "deque_inv d \<Longrightarrow> deque_list d = [] \<Longrightarrow> Deque_PopFirst d = Some (VUndefined, d) \<and> Deque_PopLast d = Some (VUndefined, d)"
  by (simp add: Deque_PopFirst_def Deque_PopLast_def Deque_IsEmpty_spec)

interpretation deque_sim: simulation "\<lambda>d xs. deque_inv d \<and> deque_list d = xs" deque_step list_deque_step length DEQUE_LIMIT
proof unfold_locales
  fix d xs op
  assume R: "deque_inv d \<and> deque_list d = xs" and lim: "length xs < DEQUE_LIMIT"
  show "rel_option (rel_prod (=) (\<lambda>d xs. deque_inv d \<and> deque_list d = xs)) (deque_step op d) (list_deque_step op xs)"
  proof (cases op)
    case (DInsertFront v)
    then show ?thesis using Deque_InsertFront_spec [of d v] R lim by auto
  next
    case (DInsertEnd v)
    then show ?thesis using Deque_InsertEnd_spec [of d v] R lim by auto
  next
    case DPopFirst
    then show ?thesis
      using R Deque_Pop_empty [of d] Deque_PopFirst_spec [of d] by (cases xs) (auto simp: head_value_def)
  next
    case DPopLast
    then show ?thesis
      using R Deque_Pop_empty [of d] Deque_PopLast_spec [of d] by (cases xs rule: rev_cases) (auto simp: last_value_def)
  next
    case DGetFront
    then show ?thesis using R Deque_GetFront_spec [of d] by (auto simp: head_value_def split: list.split)
  next
    case DGetTail
    then show ?thesis using R Deque_GetTail_spec [of d] by (auto simp: last_value_def)
  next
    case (DHas v)
    then show ?thesis using R Deque_Has_spec [of d v] by auto
  next
    case DGetSize
    then show ?thesis using R word_of_natI [OF Deque_GetSize_spec, of d] by auto
  qed
next
  fix op xs out xs'
  show "list_deque_step op xs = Some (out, xs') \<Longrightarrow> length xs' \<le> Suc (length xs)" by (cases op) auto
qed

section \<open>Queue\<close>

datatype queue_op = QAdd JSTaggedValue | QPop | QGetFirst | QGet u32 | QHas JSTaggedValue | QGetArrayLength

fun outcome_output :: "JSTaggedValue outcome \<Rightarrow> api_output option" where
  "outcome_output None = None"
| "outcome_output (Some (Inl e)) = Some (OError e)"
| "outcome_output (Some (Inr v)) = Some (OValue v)"

lemma outcome_output_simps [simp]:
  "outcome_output (return_value v) = Some (OValue v)" "outcome_output (raise_error e) = Some (OError e)"
  by (simp_all add: return_value_def raise_error_def)

fun queue_step :: "queue_op \<Rightarrow> api_queue \<Rightarrow> (api_output \<times> api_queue) option" where
  "queue_step (QAdd v) q = do { q' \<leftarrow> Queue_Add q v; Some (OVoid, q') }"
| "queue_step QPop q = do { (v, q') \<leftarrow> Queue_Pop q; Some (OValue v, q') }"
| "queue_step QGetFirst q = do { v \<leftarrow> Queue_GetFirst q; Some (OValue v, q) }"
| "queue_step (QGet i) q = do { out \<leftarrow> outcome_output (Queue_Get q i); Some (out, q) }"
| "queue_step (QHas v) q = do { b \<leftarrow> Queue_Has q v; Some (OBool b, q) }"
| "queue_step QGetArrayLength q = Some (ONum (Queue_GetArrayLength q), q)"

fun list_queue_step :: "queue_op \<Rightarrow> JSTaggedValue list \<Rightarrow> (api_output \<times> JSTaggedValue list) option" where
  "list_queue_step (QAdd v) xs = Some (OVoid, xs @ [v])"
| "list_queue_step QPop xs = Some (OValue (head_value xs), tl xs)"
| "list_queue_step QGetFirst xs = Some (OValue (head_value xs), xs)"
| "list_queue_step (QGet i) xs = Some (if unat i < length xs then OValue (xs ! unat i)
     else OError (range_error ''Get property index'' (show_u32 (word_of_nat (length xs) - 1)) (show_u32 i)), xs)"
| "list_queue_step (QHas v) xs = Some (OBool (\<exists>x \<in> set xs. JSTaggedValue_SameValue x v), xs)"
| "list_queue_step QGetArrayLength xs = Some (ONum (word_of_nat (length xs)), xs)"

lemma api_queue_length: "api_queue_inv q \<Longrightarrow> queue_length q = word_of_nat (length (api_queue_list q))"
  by (intro word_of_natI) (simp add: api_queue_inv_def)

lemma Queue_Pop_empty: "api_queue_inv q \<Longrightarrow> api_queue_list q = [] \<Longrightarrow> Queue_Pop q = Some (VUndefined, q)"
  using api_queue_length [of q] by (simp add: Queue_Pop_def)

interpretation queue_sim: simulation "\<lambda>q xs. api_queue_inv q \<and> api_queue_list q = xs" queue_step list_queue_step length API_QUEUE_LIMIT
proof unfold_locales
  fix q xs op
  assume R: "api_queue_inv q \<and> api_queue_list q = xs" and lim: "length xs < API_QUEUE_LIMIT"
  show "rel_option (rel_prod (=) (\<lambda>q xs. api_queue_inv q \<and> api_queue_list q = xs)) (queue_step op q) (list_queue_step op xs)"
  proof (cases op)
    case (QAdd v)
    then show ?thesis using Queue_Add_spec [of q v] R lim by auto
  next
    case QPop
    then show ?thesis
      using R Queue_Pop_spec [of q] Queue_Pop_empty [of q] by (cases xs) (auto simp: head_value_def)
  next
    case QGetFirst
    then show ?thesis using R Queue_GetFirst_spec [of q] by (auto simp: head_value_def split: list.split)
  next
    case (QGet i)
    then show ?thesis using R Queue_Get_spec [of q i] api_queue_length [of q] by auto
  next
    case (QHas v)
    then show ?thesis using R Queue_Has_spec [of q v] by auto
  next
    case QGetArrayLength
    then show ?thesis using R Queue_GetArrayLength_spec [of q] api_queue_length [of q] by auto
  qed
next
  fix op xs out xs'
  show "list_queue_step op xs = Some (out, xs') \<Longrightarrow> length xs' \<le> Suc (length xs)" by (cases op) auto
qed

section \<open>Stack\<close>

datatype stack_op = SPush JSTaggedValue | SPop | SPeek | SSearch JSTaggedValue | SHas JSTaggedValue | SGet u32 | SIsEmpty

fun stack_step :: "stack_op \<Rightarrow> stack \<Rightarrow> (api_output \<times> stack) option" where
  "stack_step (SPush v) s = do { s' \<leftarrow> Stack_Push s v; Some (OValue v, s') }"
| "stack_step SPop s = do { (v, s') \<leftarrow> Stack_Pop s; Some (OValue v, s') }"
| "stack_step SPeek s = do { v \<leftarrow> Stack_Peek s; Some (OValue v, s) }"
| "stack_step (SSearch v) s = do { i \<leftarrow> Stack_Search s v; Some (ONum i, s) }"
| "stack_step (SHas v) s = do { b \<leftarrow> Stack_Has s v; Some (OBool b, s) }"
| "stack_step (SGet i) s = do { out \<leftarrow> outcome_output (Stack_GetProperty s i); Some (out, s) }"
| "stack_step SIsEmpty s = Some (OBool (Stack_Empty s), s)"

definition index_or_minus_1 :: "nat option \<Rightarrow> u32" where
  "index_or_minus_1 i = (case i of Some i \<Rightarrow> word_of_nat i | None \<Rightarrow> - 1)"

fun list_stack_step :: "stack_op \<Rightarrow> JSTaggedValue list \<Rightarrow> (api_output \<times> JSTaggedValue list) option" where
  "list_stack_step (SPush v) xs = Some (OValue v, xs @ [v])"
| "list_stack_step SPop xs = Some (OValue (last_value xs), butlast xs)"
| "list_stack_step SPeek xs = Some (OValue (last_value xs), xs)"
| "list_stack_step (SSearch v) xs = Some (ONum (index_or_minus_1 (first_index (\<lambda>x. v = x) xs)), xs)"
| "list_stack_step (SHas v) xs = Some (OBool (\<exists>x \<in> set xs. JSTaggedValue_SameValue x v), xs)"
| "list_stack_step (SGet i) xs = Some (if unat i < length xs then OValue (xs ! unat i)
     else OError (range_error ''index'' (show_int (int (length xs) - 1)) (show_int (sint i))), xs)"
| "list_stack_step SIsEmpty xs = Some (OBool (xs = []), xs)"

interpretation stack_sim: simulation "\<lambda>s xs. stack_inv s \<and> stack_list s = xs" stack_step list_stack_step length HALF_LIMIT
proof unfold_locales
  fix s xs op
  assume R: "stack_inv s \<and> stack_list s = xs" and lim: "length xs < HALF_LIMIT"
  show "rel_option (rel_prod (=) (\<lambda>s xs. stack_inv s \<and> stack_list s = xs)) (stack_step op s) (list_stack_step op xs)"
  proof (cases op)
    case (SPush v)
    then show ?thesis using Stack_Push_spec [of s v] R lim by auto
  next
    case SPop
    then show ?thesis using R Stack_Pop_spec(1,2) [of s] by (cases xs rule: rev_cases) (auto simp: last_value_def)
  next
    case SPeek
    then show ?thesis using R Stack_Pop_spec(3) [of s] by (auto simp: last_value_def)
  next
    case (SSearch v)
    then show ?thesis
      using R search_to_top_spec [of s "\<lambda>x. v = x"]
      by (auto simp: Stack_Search_def index_or_minus_1_def split: option.split)
  next
    case (SHas v)
    then show ?thesis using R Stack_Has_spec [of s v] by auto
  next
    case (SGet i)
    then show ?thesis using R Stack_GetProperty_spec [of s i] by auto
  next
    case SIsEmpty
    then show ?thesis using R stack_top_empty [of s] by (auto simp: Stack_Empty_def)
  qed
next
  fix op xs out xs'
  show "list_stack_step op xs = Some (out, xs') \<Longrightarrow> length xs' \<le> Suc (length xs)" by (cases op) auto
qed

section \<open>Array list\<close>

datatype array_list_op =
    AAdd JSTaggedValue | AInsert JSTaggedValue u32 | ARemoveByIndex u32 | ARemove JSTaggedValue | ARemoveByRange u32 u32
  | ASet u32 JSTaggedValue | AGet u32 | AGetIndexOf JSTaggedValue | AGetLastIndexOf JSTaggedValue | AHas JSTaggedValue
  | AClear | ATrim

fun void_outcome :: "'s outcome \<Rightarrow> 's \<Rightarrow> (api_output \<times> 's) option" where
  "void_outcome None s = None"
| "void_outcome (Some (Inl e)) s = Some (OError e, s)"
| "void_outcome (Some (Inr s')) s = Some (OVoid, s')"

fun value_outcome :: "(JSTaggedValue \<times> 's) outcome \<Rightarrow> 's \<Rightarrow> (api_output \<times> 's) option" where
  "value_outcome None s = None"
| "value_outcome (Some (Inl e)) s = Some (OError e, s)"
| "value_outcome (Some (Inr (v, s'))) s = Some (OValue v, s')"

lemma void_value_outcome_simps [simp]:
  "void_outcome (return_value s') s = Some (OVoid, s')" "void_outcome (raise_error e) s = Some (OError e, s)"
  "value_outcome (return_value (v, s')) s = Some (OValue v, s')" "value_outcome (raise_error e) s = Some (OError e, s)"
  by (simp_all add: return_value_def raise_error_def)

fun array_list_step :: "array_list_op \<Rightarrow> array_list \<Rightarrow> (api_output \<times> array_list) option" where
  "array_list_step (AAdd v) s = do { s' \<leftarrow> ArrayList_Add s v; Some (OBool True, s') }"
| "array_list_step (AInsert v i) s = void_outcome (ArrayList_Insert s v i) s"
| "array_list_step (ARemoveByIndex i) s = value_outcome (ArrayList_RemoveByIndex s i) s"
| "array_list_step (ARemove v) s = do { (b, s') \<leftarrow> ArrayList_Remove s v; Some (OBool b, s') }"
| "array_list_step (ARemoveByRange i j) s = void_outcome (ArrayList_RemoveByRange s i j) s"
| "array_list_step (ASet i v) s = void_outcome (ArrayList_Set s i v) s"
| "array_list_step (AGet i) s = do { out \<leftarrow> outcome_output (ArrayList_Get s i); Some (out, s) }"
| "array_list_step (AGetIndexOf v) s = do { i \<leftarrow> ArrayList_GetIndexOf s v; Some (ONum i, s) }"
| "array_list_step (AGetLastIndexOf v) s = do { i \<leftarrow> ArrayList_GetLastIndexOf s v; Some (ONum i, s) }"
| "array_list_step (AHas v) s = do { b \<leftarrow> ArrayList_Has s v; Some (OBool b, s) }"
| "array_list_step AClear s = do { s' \<leftarrow> ArrayList_Clear s; Some (OVoid, s') }"
| "array_list_step ATrim s = Some (OVoid, ArrayList_TrimToCurrentLength s)"

text \<open>
  On lists.  The flag says whether the array has a free slot behind the elements: clearing the list without one
  stores behind the end of the array, and the run has no result.
\<close>

definition list_range_error :: "nat \<Rightarrow> u32 \<Rightarrow> u32 \<Rightarrow> js_error" where
  "list_range_error n from to =
     (let len = int n; size = (if len > sint to then sint to else len) in
      if sint from < 0 \<or> sint from \<ge> size
      then range_error ''fromIndex'' (show_int (sint (word_of_int (size - 1) :: u32))) (show_int (sint from))
      else range_error ''toIndex'' (show_int len) (show_int (sint to)))"

definition u32_index_error :: "nat \<Rightarrow> u32 \<Rightarrow> js_error" where
  "u32_index_error n i = range_error ''index'' (show_u32 (word_of_nat n - 1)) (show_u32 i)"

definition remove_at :: "nat \<Rightarrow> 'a list \<Rightarrow> 'a list" where
  "remove_at i xs = take i xs @ drop (Suc i) xs"

fun list_array_list_step ::
    "array_list_op \<Rightarrow> JSTaggedValue list \<times> bool \<Rightarrow> (api_output \<times> (JSTaggedValue list \<times> bool)) option" where
  "list_array_list_step (AAdd v) (xs, spare) = Some (OBool True, (xs @ [v], True))"
| "list_array_list_step (AInsert v i) (xs, spare) =
     (if unat i \<le> length xs then Some (OVoid, (take (unat i) xs @ v # drop (unat i) xs, True))
      else Some (OError (range_error ''index'' (show_nat (length xs)) (show_int (sint i))), (xs, spare)))"
| "list_array_list_step (ARemoveByIndex i) (xs, spare) =
     (if unat i < length xs then Some (OValue (xs ! unat i), (remove_at (unat i) xs, True))
      else Some (OError (range_error ''index'' (show_int (int (length xs) - 1)) (show_int (sint i))), (xs, spare)))"
| "list_array_list_step (ARemove v) (xs, spare) =
     (case first_index (JSTaggedValue_StrictEqual v) xs of
        Some i \<Rightarrow> Some (OBool True, (remove_at i xs, True))
      | None \<Rightarrow> Some (OBool False, (xs, spare)))"
| "list_array_list_step (ARemoveByRange i j) (xs, spare) =
     (if unat i < unat j \<and> unat j \<le> length xs then Some (OVoid, (take (unat i) xs @ drop (unat j) xs, False))
      else Some (OError (list_range_error (length xs) i j), (xs, spare)))"
| "list_array_list_step (ASet i v) (xs, spare) =
     (if unat i < length xs then Some (OVoid, (xs[unat i := v], spare))
      else Some (OError (u32_index_error (length xs) i), (xs, spare)))"
| "list_array_list_step (AGet i) (xs, spare) =
     Some (if unat i < length xs then OValue (xs ! unat i) else OError (u32_index_error (length xs) i), (xs, spare))"
| "list_array_list_step (AGetIndexOf v) (xs, spare) =
     Some (ONum (index_or_minus_1 (first_index (JSTaggedValue_StrictEqual v) xs)), (xs, spare))"
| "list_array_list_step (AGetLastIndexOf v) (xs, spare) =
     Some (ONum (index_or_minus_1 (last_index (JSTaggedValue_StrictEqual v) xs)), (xs, spare))"
| "list_array_list_step (AHas v) (xs, spare) = Some (OBool (\<exists>x \<in> set xs. JSTaggedValue_SameValue x v), (xs, spare))"
| "list_array_list_step AClear (xs, spare) = (if spare then Some (OVoid, ([], True)) else None)"
| "list_array_list_step ATrim (xs, spare) = Some (OVoid, (xs, False))"

definition al_rel :: "array_list \<Rightarrow> JSTaggedValue list \<times> bool \<Rightarrow> bool" where
  "al_rel s a \<longleftrightarrow> al_inv s \<and> al_list s = fst a \<and> al_spare s = snd a"

lemma al_length_word: "al_inv s \<Longrightarrow> al_length s = word_of_nat (length (al_list s))"
  by (intro word_of_natI al_length_facts(1))

lemma range_check_error:
  assumes "al_inv s" "\<not> (unat from < unat to \<and> unat to \<le> length (al_list s))"
  shows "ArrayList_range_check s from to = Some (list_range_error (length (al_list s)) from to)"
proof -
  have "ArrayList_range_check s from to \<noteq> None" using range_check_None [OF assms(1)] assms(2) by blast
  then show ?thesis
    unfolding ArrayList_range_check_def list_range_error_def Let_def al_length_facts(6) [OF assms(1)]
    by (auto split: if_splits)
qed

lemma array_list_changes:
  assumes "al_inv s" "length (al_list s) < HALF_LIMIT"
  shows "rel_option (rel_prod (=) al_rel) (array_list_step (AAdd v) s) (list_array_list_step (AAdd v) (al_list s, al_spare s))"
    "rel_option (rel_prod (=) al_rel) (array_list_step (AInsert v i) s) (list_array_list_step (AInsert v i) (al_list s, al_spare s))"
    "rel_option (rel_prod (=) al_rel) (array_list_step (ARemoveByIndex i) s) (list_array_list_step (ARemoveByIndex i) (al_list s, al_spare s))"
    "rel_option (rel_prod (=) al_rel) (array_list_step (ARemove v) s) (list_array_list_step (ARemove v) (al_list s, al_spare s))"
    "rel_option (rel_prod (=) al_rel) (array_list_step (ARemoveByRange i j) s) (list_array_list_step (ARemoveByRange i j) (al_list s, al_spare s))"
    "rel_option (rel_prod (=) al_rel) (array_list_step (ASet i v) s) (list_array_list_step (ASet i v) (al_list s, al_spare s))"
    "rel_option (rel_prod (=) al_rel) (array_list_step AClear s) (list_array_list_step AClear (al_list s, al_spare s))"
proof -
  show "rel_option (rel_prod (=) al_rel) (array_list_step (AAdd v) s) (list_array_list_step (AAdd v) (al_list s, al_spare s))"
    using ArrayList_Add_spec [OF assms, of v] by (auto simp: al_rel_def)
  show "rel_option (rel_prod (=) al_rel) (array_list_step (AInsert v i) s) (list_array_list_step (AInsert v i) (al_list s, al_spare s))"
    using ArrayList_Insert_spec [OF assms, of i v] assms by (cases "unat i \<le> length (al_list s)") (auto simp: al_rel_def)
  show "rel_option (rel_prod (=) al_rel) (array_list_step (ARemoveByIndex i) s) (list_array_list_step (ARemoveByIndex i) (al_list s, al_spare s))"
    using ArrayList_RemoveByIndex_spec [OF assms(1), of i] assms
    by (cases "unat i < length (al_list s)") (auto simp: al_rel_def remove_at_def)
  show "rel_option (rel_prod (=) al_rel) (array_list_step (ARemove v) s) (list_array_list_step (ARemove v) (al_list s, al_spare s))"
    using ArrayList_Remove_spec [OF assms(1), of v] by (auto simp: al_rel_def remove_at_def split: option.split)
  show "rel_option (rel_prod (=) al_rel) (array_list_step (ARemoveByRange i j) s) (list_array_list_step (ARemoveByRange i j) (al_list s, al_spare s))"
    using ArrayList_RemoveByRange_spec [OF assms(1), of i j] assms
      ArrayList_RemoveByRange_error [OF range_check_error [OF assms(1), of i j]]
    by (cases "unat i < unat j \<and> unat j \<le> length (al_list s)") (auto simp: al_rel_def)
  show "rel_option (rel_prod (=) al_rel) (array_list_step (ASet i v) s) (list_array_list_step (ASet i v) (al_list s, al_spare s))"
    using ArrayList_Set_spec [OF assms(1), of i v] assms al_length_word [OF assms(1)]
    by (cases "unat i < length (al_list s)") (auto simp: al_rel_def u32_index_error_def)
  show "rel_option (rel_prod (=) al_rel) (array_list_step AClear s) (list_array_list_step AClear (al_list s, al_spare s))"
    using ArrayList_Clear_spec [OF assms(1)] by (cases "al_spare s") (auto simp: al_rel_def)
qed

lemma array_list_reads:
  assumes "al_inv s"
  shows "rel_option (rel_prod (=) al_rel) (array_list_step (AGet i) s) (list_array_list_step (AGet i) (al_list s, al_spare s))"
    "rel_option (rel_prod (=) al_rel) (array_list_step (AGetIndexOf v) s) (list_array_list_step (AGetIndexOf v) (al_list s, al_spare s))"
    "rel_option (rel_prod (=) al_rel) (array_list_step (AGetLastIndexOf v) s) (list_array_list_step (AGetLastIndexOf v) (al_list s, al_spare s))"
    "rel_option (rel_prod (=) al_rel) (array_list_step (AHas v) s) (list_array_list_step (AHas v) (al_list s, al_spare s))"
    "rel_option (rel_prod (=) al_rel) (array_list_step ATrim s) (list_array_list_step ATrim (al_list s, al_spare s))"
  using assms al_length_word [OF assms] ArrayList_TrimToCurrentLength_spec [OF assms]
  by (simp_all add: al_rel_def ArrayList_Get_spec ArrayList_GetIndexOf_spec ArrayList_Has_spec index_or_minus_1_def u32_index_error_def)

interpretation array_list_sim: simulation al_rel array_list_step list_array_list_step "\<lambda>a. length (fst a)" HALF_LIMIT
proof unfold_locales
  fix s a op
  assume R: "al_rel s a" and lim: "length (fst a) < HALF_LIMIT"
  then have a: "al_inv s" "a = (al_list s, al_spare s)" "length (al_list s) < HALF_LIMIT" by (auto simp: al_rel_def prod_eq_iff)
  show "rel_option (rel_prod (=) al_rel) (array_list_step op s) (list_array_list_step op a)"
    unfolding a(2) using array_list_changes [OF a(1,3)] array_list_reads [OF a(1)] by (cases op) blast+
next
  fix op a out a'
  show "list_array_list_step op a = Some (out, a') \<Longrightarrow> length (fst a') \<le> Suc (length (fst a))"
    by (cases a; cases op) (auto simp: remove_at_def split: if_splits option.splits)
qed

section \<open>Vector\<close>

datatype vector_op =
    VAdd JSTaggedValue | VInsert JSTaggedValue u32 | VRemoveByIndex u32 | VRemoveByRange u32 u32
  | VSetAt u32 JSTaggedValue | VGet u32 | VGetIndexOf JSTaggedValue | VGetLastIndexOf JSTaggedValue
  | VHas JSTaggedValue | VClear | VTrim | VClone

fun vector_step :: "vector_op \<Rightarrow> vector \<Rightarrow> (api_output \<times> vector) option" where
  "vector_step (VAdd v) s = do { s' \<leftarrow> Vector_Add s v; Some (OBool True, s') }"
| "vector_step (VInsert v i) s = void_outcome (Vector_Insert s v i) s"
| "vector_step (VRemoveByIndex i) s = value_outcome (Vector_RemoveByIndex s i) s"
| "vector_step (VRemoveByRange i j) s = void_outcome (Vector_RemoveByRange s i j) s"
| "vector_step (VSetAt i v) s = do { (b, s') \<leftarrow> Vector_SetProperty s i v; Some (OBool b, s') }"
| "vector_step (VGet i) s = do { out \<leftarrow> outcome_output (Vector_Get s i); Some (out, s) }"
| "vector_step (VGetIndexOf v) s = do {
     r \<leftarrow> Vector_GetIndexOf s v; Some (case r of Inl e \<Rightarrow> OError e | Inr i \<Rightarrow> ONum i, s) }"
| "vector_step (VGetLastIndexOf v) s = do {
     r \<leftarrow> Vector_GetLastIndexOf s v; Some (case r of Inl e \<Rightarrow> OError e | Inr i \<Rightarrow> ONum i, s) }"
| "vector_step (VHas v) s = do { b \<leftarrow> Vector_Has s v; Some (OBool b, s) }"
| "vector_step VClear s = do { s' \<leftarrow> Vector_Clear s; Some (OVoid, s') }"
| "vector_step VTrim s = Some (OVoid, Vector_TrimToCurrentLength s)"
| "vector_step VClone s = do { s' \<leftarrow> Vector_Clone s; Some (OVoid, s') }"

fun list_vector_step :: "vector_op \<Rightarrow> JSTaggedValue list \<Rightarrow> (api_output \<times> JSTaggedValue list) option" where
  "list_vector_step (VAdd v) xs = Some (OBool True, xs @ [v])"
| "list_vector_step (VInsert v i) xs =
     (if unat i \<le> length xs then Some (OVoid, take (unat i) xs @ v # drop (unat i) xs)
      else Some (OError (RangeError ''the index is out-of-bounds''), xs))"
| "list_vector_step (VRemoveByIndex i) xs =
     (if unat i < length xs then Some (OValue (xs ! unat i), remove_at (unat i) xs)
      else Some (OError (RangeError ''the index is out-of-bounds''), xs))"
| "list_vector_step (VRemoveByRange i j) xs =
     (if sint j \<le> sint i
      then Some (OError (RangeError ''the fromIndex cannot be less than or equal to toIndex''), xs)
      else if unat i < length xs then Some (OVoid, take (unat i) xs @ drop (unat j) xs)
      else Some (OError (RangeError ''the fromIndex or the toIndex is out-of-bounds''), xs))"
| "list_vector_step (VSetAt i v) xs = Some (OBool (unat i < length xs), xs[unat i := v])"
| "list_vector_step (VGet i) xs =
     Some (if unat i < length xs then OValue (xs ! unat i) else OError (RangeError ''the index is out-of-bounds''), xs)"
| "list_vector_step (VGetIndexOf v) xs =
     Some (if xs = [] then OError (RangeError ''no-such-element'')
       else ONum (index_or_minus_1 (first_index (JSTaggedValue_StrictEqual v) xs)), xs)"
| "list_vector_step (VGetLastIndexOf v) xs =
     Some (ONum (index_or_minus_1 (last_index (JSTaggedValue_StrictEqual v) xs)), xs)"
| "list_vector_step (VHas v) xs = Some (OBool (\<exists>x \<in> set xs. JSTaggedValue_SameValue x v), xs)"
| "list_vector_step VClear xs = Some (OVoid, [])"
| "list_vector_step VTrim xs = Some (OVoid, xs)"
| "list_vector_step VClone xs = Some (OVoid, xs)"

lemma vector_range_errors:
  assumes "vec_inv s"
  shows "sint j \<le> sint i \<Longrightarrow>
      Vector_RemoveByRange s i j = raise_error (RangeError ''the fromIndex cannot be less than or equal to toIndex'')"
    and "\<not> sint j \<le> sint i \<Longrightarrow> \<not> unat i < length (vec_list s) \<Longrightarrow>
      Vector_RemoveByRange s i j = raise_error (RangeError ''the fromIndex or the toIndex is out-of-bounds'')"
  using vec_length_facts(6) [OF assms] sint_outside [OF vec_length_facts(5) [OF assms], of i]
  by (auto simp: Vector_RemoveByRange_def Let_def Vector_GetSize_def)

interpretation vector_sim: simulation "\<lambda>s xs. vec_inv s \<and> vec_list s = xs" vector_step list_vector_step length VECTOR_LIMIT
proof unfold_locales
  fix s xs op
  assume R: "vec_inv s \<and> vec_list s = xs" and lim: "length xs < VECTOR_LIMIT"
  show "rel_option (rel_prod (=) (\<lambda>s xs. vec_inv s \<and> vec_list s = xs)) (vector_step op s) (list_vector_step op xs)"
  proof (cases op)
    case (VAdd v)
    then show ?thesis using Vector_Add_spec [of s v] R lim by auto
  next
    case (VInsert v i)
    then show ?thesis using Vector_Insert_spec [of s i v] R lim by (cases "unat i \<le> length xs") auto
  next
    case (VRemoveByIndex i)
    then show ?thesis using Vector_RemoveByIndex_spec [of s i] R by (cases "unat i < length xs") (auto simp: remove_at_def)
  next
    case (VRemoveByRange i j)
    then show ?thesis
      using Vector_RemoveByRange_spec [of s i j] vector_range_errors [of s j i] R by (auto simp: not_le)
  next
    case (VSetAt i v)
    then show ?thesis using Vector_GetProperty_spec(2) [of s i v] R by auto
  next
    case VClear
    then show ?thesis using Vector_Clear_spec [of s] R by auto
  next
    case VClone
    then show ?thesis using Vector_Clone_spec [of s] R by auto
  qed (use R in \<open>auto simp: Vector_Get_spec Vector_GetIndexOf_spec Vector_GetLastIndexOf_spec Vector_Has_spec
      Vector_TrimToCurrentLength_spec index_or_minus_1_def\<close>)
next
  fix op xs out xs'
  assume lim: "length xs < VECTOR_LIMIT" and step: "list_vector_step op xs = Some (out, xs')"
  have le: "unat i \<le> unat j" if "\<not> sint j \<le> sint i" "unat i < length xs" for i j :: u32
  proof -
    have "sint i = int (unat i)" using that lim by (intro sint_small) (simp add: VECTOR_LIMIT_def)
    moreover have "sint j \<le> int (unat j)" unfolding sint_unat by simp
    ultimately show ?thesis using that by linarith
  qed
  show "length xs' \<le> Suc (length xs)"
    using step by (cases op) (auto simp: remove_at_def split: if_splits dest: le)
qed

end
