(* ===== verification/Container_Props.thy ===== *)
theory Container_Props
  imports Container_Trace
begin

text \<open>
  Properties of the containers of \<open>ecmascript/js_api\<close>.
\<close>

section \<open>Queues and stacks\<close>

text \<open>C6. \<open>JSAPIDeque\<close> implements a double-ended queue: on a well-formed deque every sequence of insertions,
  removals and queries at both ends returns what the same sequence returns on the list of its elements,
  growing the circular buffer as often as needed, without an access outside of it, and ends in a well-formed
  deque that holds the resulting list.  Elements and operations together are at most \<open>DEQUE_LIMIT\<close>, so that no capacity overflows.\<close>

theorem deque_refines_list:
  assumes "deque_inv d" "length (deque_list d) + length ops \<le> DEQUE_LIMIT"
  shows "\<exists>outs xs d'. run_ops list_deque_step ops (deque_list d) = Some (outs, xs) \<and>
    run_ops deque_step ops d = Some (outs, d') \<and> deque_inv d' \<and> deque_list d' = xs"
proof -
  have "list_deque_step op xs \<noteq> None" for op xs by (cases op) simp_all
  then obtain outs xs where "run_ops list_deque_step ops (deque_list d) = Some (outs, xs)"
    using run_ops_total [of list_deque_step ops "deque_list d"] by auto
  then show ?thesis using deque_sim.run_total [of d "deque_list d" ops outs xs] assms by auto
qed

theorem deque_refines_list_witness:
  "\<exists>d'. run_ops deque_step [DInsertEnd (VInt 1), DInsertFront (VInt 2), DPopLast, DGetFront, DPopFirst, DPopFirst, DGetSize]
      \<lparr>deque_elements = replicate 8 VHole, deque_first = 7, deque_last = 7\<rparr> =
    Some ([OVoid, OVoid, OValue (VInt 1), OValue (VInt 2), OValue (VInt 2), OValue VUndefined, ONum 0], d') \<and> deque_inv d'"
proof -
  let ?d = "\<lparr>deque_elements = replicate 8 VHole, deque_first = 7, deque_last = 7\<rparr>"
  let ?ops = "[DInsertEnd (VInt 1), DInsertFront (VInt 2), DPopLast, DGetFront, DPopFirst, DPopFirst, DGetSize]"
  have d: "deque_inv ?d" "deque_list ?d = []" by (simp_all add: deque_inv_def deque_list_def span_def)
  have lim: "length (deque_list ?d) + length ?ops \<le> DEQUE_LIMIT" using d by (simp add: DEQUE_LIMIT_def)
  obtain outs xs d' where run: "run_ops list_deque_step ?ops [] = Some (outs, xs)"
      "run_ops deque_step ?ops ?d = Some (outs, d')" "deque_inv d'"
    using deque_refines_list [OF d(1) lim] unfolding d(2) by blast
  have "run_ops list_deque_step ?ops [] =
      Some ([OVoid, OVoid, OValue (VInt 1), OValue (VInt 2), OValue (VInt 2), OValue VUndefined, ONum 0], [])"
    by (simp add: head_value_def last_value_def)
  then show ?thesis using run by (metis option.inject prod.inject)
qed

text \<open>C16. \<open>JSAPIQueue\<close> implements a first-in first-out queue with access by position: on a well-formed queue
  every sequence of \<open>Add\<close>, \<open>Pop\<close>, \<open>GetFirst\<close>, \<open>Get\<close> (with its range error), \<open>Has\<close> and \<open>GetArrayLength\<close> returns
  what it returns on the list of elements, whatever the position of the front in the circular buffer.  Elements and
  operations together are at most \<open>API_QUEUE_LIMIT\<close>.\<close>

theorem queue_refines_list:
  assumes "api_queue_inv q" "length (api_queue_list q) + length ops \<le> API_QUEUE_LIMIT"
  shows "\<exists>outs xs q'. run_ops list_queue_step ops (api_queue_list q) = Some (outs, xs) \<and>
    run_ops queue_step ops q = Some (outs, q') \<and> api_queue_inv q' \<and> api_queue_list q' = xs"
proof -
  have "list_queue_step op xs \<noteq> None" for op xs by (cases op) simp_all
  then obtain outs xs where "run_ops list_queue_step ops (api_queue_list q) = Some (outs, xs)"
    using run_ops_total [of list_queue_step ops "api_queue_list q"] by auto
  then show ?thesis using queue_sim.run_total [of q "api_queue_list q" ops outs xs] assms by auto
qed

theorem queue_refines_list_witness:
  "\<exists>q'. run_ops queue_step [QAdd (VInt 1), QAdd (VInt 2), QPop, QGet 0, QGetArrayLength, QPop, QPop]
      \<lparr>queue_elements = replicate 8 VHole, queue_length = 0, queue_front = 7, queue_tail = 7\<rparr> =
    Some ([OVoid, OVoid, OValue (VInt 1), OValue (VInt 2), ONum 1, OValue (VInt 2), OValue VUndefined], q') \<and> api_queue_inv q'"
proof -
  let ?q = "\<lparr>queue_elements = replicate 8 VHole, queue_length = 0, queue_front = 7, queue_tail = 7\<rparr>"
  let ?ops = "[QAdd (VInt 1), QAdd (VInt 2), QPop, QGet 0, QGetArrayLength, QPop, QPop]"
  have q: "api_queue_inv ?q" "api_queue_list ?q = []" by (simp_all add: api_queue_inv_def api_queue_list_def span_def)
  have lim: "length (api_queue_list ?q) + length ?ops \<le> API_QUEUE_LIMIT" using q by (simp add: API_QUEUE_LIMIT_def)
  obtain outs xs q' where run: "run_ops list_queue_step ?ops [] = Some (outs, xs)"
      "run_ops queue_step ?ops ?q = Some (outs, q')" "api_queue_inv q'"
    using queue_refines_list [OF q(1) lim] unfolding q(2) by blast
  have "run_ops list_queue_step ?ops [] =
      Some ([OVoid, OVoid, OValue (VInt 1), OValue (VInt 2), ONum 1, OValue (VInt 2), OValue VUndefined], [])"
    by (simp add: head_value_def)
  then show ?thesis using run by (metis option.inject prod.inject)
qed

text \<open>\<open>JSAPIQueue::Set\<close> does not add the position of the front to its index: after two additions and a
  removal, storing a value at position 0 leaves the first element as it was, while storing before the removal
  replaces it.\<close>

theorem queue_set_ignores_front:
  "do {
     q1 \<leftarrow> Queue_Add \<lparr>queue_elements = replicate 8 VHole, queue_length = 0, queue_front = 0, queue_tail = 0\<rparr> a;
     q2 \<leftarrow> Queue_Add q1 b;
     (_, q3) \<leftarrow> Queue_Pop q2;
     q4 \<leftarrow> Queue_Set q3 0 c;
     (case q4 of
        Inl e \<Rightarrow> None
      | Inr q \<Rightarrow> do { v \<leftarrow> Queue_GetFirst q; Some (api_queue_list q3, v, api_queue_list q) })
   } = Some ([b], b, [b])"
proof -
  let ?q = "\<lambda>x y n f t. \<lparr>queue_elements = [x, y, VHole, VHole, VHole, VHole, VHole, VHole], queue_length = n,
    queue_front = f, queue_tail = t\<rparr>"
  note defs = Let_def TaggedArray_GetLength_def TaggedArray_Set_def TaggedArray_Get_def
  have "replicate 8 VHole = [VHole, VHole, VHole, VHole, VHole, VHole, VHole, VHole]" by (simp add: eval_nat_numeral)
  moreover have "Queue_Add (?q VHole VHole 0 0 0) a = Some (?q a VHole 1 0 1)"
    by (simp add: Queue_Add_def Queue_GrowCapacity_def defs)
  moreover have "Queue_Add (?q a VHole 1 0 1) b = Some (?q a b 2 0 2)"
    by (simp add: Queue_Add_def Queue_GrowCapacity_def defs)
  moreover have "Queue_Pop (?q a b 2 0 2) = Some (a, ?q a b 1 1 2)" by (simp add: Queue_Pop_def defs)
  moreover have "Queue_Set (?q a b 1 1 2) 0 c = Some (Inr (?q c b 1 1 2))"
    by (simp add: Queue_Set_def defs return_value_def)
  moreover have "Queue_GetFirst (?q c b 1 1 2) = Some b" by (simp add: Queue_GetFirst_def defs)
  moreover have "api_queue_list (?q x b 1 1 2) = [b]" for x by (simp add: api_queue_list_def span_def ring_def)
  ultimately show ?thesis by simp
qed

text \<open>C19. \<open>JSAPIStack\<close> implements a stack: on a well-formed stack every sequence of \<open>Push\<close>, \<open>Pop\<close>, \<open>Peek\<close>,
  \<open>Search\<close> (the position of the first equal element from the bottom, or -1), \<open>Has\<close>, reads by index with their range
  error and \<open>Empty\<close> returns what it returns on the list of elements.  Elements and operations together are at most
  \<open>HALF_LIMIT\<close>.\<close>

theorem stack_refines_list:
  assumes "stack_inv s" "length (stack_list s) + length ops \<le> HALF_LIMIT"
  shows "\<exists>outs xs s'. run_ops list_stack_step ops (stack_list s) = Some (outs, xs) \<and>
    run_ops stack_step ops s = Some (outs, s') \<and> stack_inv s' \<and> stack_list s' = xs"
proof -
  have "list_stack_step op xs \<noteq> None" for op xs by (cases op) simp_all
  then obtain outs xs where "run_ops list_stack_step ops (stack_list s) = Some (outs, xs)"
    using run_ops_total [of list_stack_step ops "stack_list s"] by auto
  then show ?thesis using stack_sim.run_total [of s "stack_list s" ops outs xs] assms by auto
qed

theorem stack_refines_list_witness:
  "\<exists>s'. run_ops stack_step [SPush (VInt 1), SPush (VInt 2), SPop, SPeek, SGet 0, SPop, SPop, SIsEmpty]
      \<lparr>stack_elements = [], stack_top = - 1\<rparr> =
    Some ([OValue (VInt 1), OValue (VInt 2), OValue (VInt 2), OValue (VInt 1), OValue (VInt 1), OValue (VInt 1),
      OValue VUndefined, OBool True], s') \<and> stack_inv s'"
proof -
  let ?s = "\<lparr>stack_elements = [], stack_top = - 1\<rparr>"
  let ?ops = "[SPush (VInt 1), SPush (VInt 2), SPop, SPeek, SGet 0, SPop, SPop, SIsEmpty]"
  have s: "stack_inv ?s" "stack_list ?s = []" by (simp_all add: stack_inv_def stack_list_def)
  have lim: "length (stack_list ?s) + length ?ops \<le> HALF_LIMIT" using s by (simp add: HALF_LIMIT_def)
  obtain outs xs s' where run: "run_ops list_stack_step ?ops [] = Some (outs, xs)"
      "run_ops stack_step ?ops ?s = Some (outs, s')" "stack_inv s'"
    using stack_refines_list [OF s(1) lim] unfolding s(2) by blast
  have "run_ops list_stack_step ?ops [] =
      Some ([OValue (VInt 1), OValue (VInt 2), OValue (VInt 2), OValue (VInt 1), OValue (VInt 1), OValue (VInt 1),
        OValue VUndefined, OBool True], [])"
    by (simp add: last_value_def)
  then show ?thesis using run by (metis option.inject prod.inject)
qed

section \<open>Lists\<close>



text \<open>C38. A clone of an array list and a trimmed array list hold the same elements, but clearing them stores
  one value behind the end of their array.\<close>

theorem array_list_clear_after_clone:
  assumes "al_inv s"
  shows "(\<exists>s'. ArrayList_Clone s = Some s' \<and> al_inv s' \<and> al_list s' = al_list s \<and> ArrayList_Clear s' = None) \<and>
    al_list (ArrayList_TrimToCurrentLength s) = al_list s \<and> ArrayList_Clear (ArrayList_TrimToCurrentLength s) = None"
  using ArrayList_Clone_spec [OF assms] ArrayList_Clear_spec(2) ArrayList_TrimToCurrentLength_spec [OF assms] by blast

theorem array_list_clear_after_clone_witness:
  "(\<exists>s'. ArrayList_Clone \<lparr>al_elements = [VInt 1, VHole], al_length = 1\<rparr> = Some s' \<and> al_list s' = [VInt 1] \<and>
      ArrayList_Clear s' = None) \<and>
   ArrayList_Clear (ArrayList_TrimToCurrentLength \<lparr>al_elements = [VInt 1, VHole], al_length = 1\<rparr>) = None"
proof -
  have "al_inv \<lparr>al_elements = [VInt 1, VHole], al_length = 1\<rparr>"
    "al_list \<lparr>al_elements = [VInt 1, VHole], al_length = 1\<rparr> = [VInt 1]"
    by (simp_all add: al_inv_def al_list_def)
  then show ?thesis
    using array_list_clear_after_clone [of "\<lparr>al_elements = [VInt 1, VHole], al_length = 1\<rparr>"] by auto
qed

text \<open>C15. \<open>JSAPIVector\<close> implements a list: every sequence of insertions, removals, assignments, reads, searches,
  clearing, trimming and cloning keeps the vector well-formed, stays inside of its array and returns what it
  returns on the list of elements, with the range errors of the code (among them the one \<open>GetIndexOf\<close> raises on
  an empty vector).  Elements and operations together are at most \<open>VECTOR_LIMIT\<close>.\<close>

theorem vector_refines_list:
  assumes "vec_inv s" "length (vec_list s) + length ops \<le> VECTOR_LIMIT"
  shows "\<exists>outs xs s'. run_ops list_vector_step ops (vec_list s) = Some (outs, xs) \<and>
    run_ops vector_step ops s = Some (outs, s') \<and> vec_inv s' \<and> vec_list s' = xs"
proof -
  have "list_vector_step op xs \<noteq> None" for op xs by (cases op) simp_all
  then obtain outs xs where "run_ops list_vector_step ops (vec_list s) = Some (outs, xs)"
    using run_ops_total [of list_vector_step ops "vec_list s"] by auto
  then show ?thesis using vector_sim.run_total [of s "vec_list s" ops outs xs] assms by auto
qed

theorem vector_refines_list_witness:
  "\<exists>s'. run_ops vector_step [VGetIndexOf (VInt 1), VAdd (VInt 1), VTrim, VInsert (VInt 2) 0, VRemoveByRange 0 1, VGet 0, VGet 1]
      \<lparr>vec_elements = [], vec_length = 0\<rparr> =
    Some ([OError (RangeError ''no-such-element''), OBool True, OVoid, OVoid, OVoid, OValue (VInt 1),
      OError (RangeError ''the index is out-of-bounds'')], s') \<and> vec_inv s'"
proof -
  let ?s = "\<lparr>vec_elements = [], vec_length = 0\<rparr>"
  let ?ops = "[VGetIndexOf (VInt 1), VAdd (VInt 1), VTrim, VInsert (VInt 2) 0, VRemoveByRange 0 1, VGet 0, VGet 1]"
  have s: "vec_inv ?s" "vec_list ?s = []" by (simp_all add: vec_inv_def vec_list_def)
  have lim: "length (vec_list ?s) + length ?ops \<le> VECTOR_LIMIT" using s by (simp add: VECTOR_LIMIT_def)
  obtain outs xs s' where run: "run_ops list_vector_step ?ops [] = Some (outs, xs)"
      "run_ops vector_step ?ops ?s = Some (outs, s')" "vec_inv s'"
    using vector_refines_list [OF s(1) lim] unfolding s(2) by blast
  have "run_ops list_vector_step ?ops [] =
      Some ([OError (RangeError ''no-such-element''), OBool True, OVoid, OVoid, OVoid, OValue (VInt 1),
        OError (RangeError ''the index is out-of-bounds'')], [VInt 1])"
    by simp
  then show ?thesis using run by (metis option.inject prod.inject)
qed

text \<open>C26. Iterating with a callback that leaves the container alone and raises no error returns: \<open>ForEach\<close> of an
  array list and of a vector call the callback once with every element and its index, in order, and
  \<open>ReplaceAllElements\<close> also replaces every element by what the callback returned for it.  The new state of the program and
  the result of a call may depend on the state of the program, on the contents of the container at that moment (of which
  \<open>ReplaceAllElements\<close> has replaced the first elements), on the element and on the index.\<close>

theorem callbacks_visit_all:
  assumes "al_inv s" "vec_inv t"
  shows "ArrayList_ForEach (quiet_callback al_list f) w s = Some (visit (\<lambda>w v k. fst (f w (al_list s) v k)) w (al_list s) 0, s, Inr ()) \<and>
    Vector_ForEach (quiet_callback vec_list f) w t = Some (visit (\<lambda>w v k. fst (f w (vec_list t) v k)) w (vec_list t) 0, t, Inr ()) \<and>
    (\<exists>w' s'. ArrayList_ReplaceAllElements (quiet_callback al_list f) w s = Some (w', s', Inr ()) \<and> al_inv s' \<and>
      replace_run f w [] (al_list s) = (w', al_list s')) \<and>
    (\<exists>w' t'. Vector_ReplaceAllElements (quiet_callback vec_list f) w t = Some (w', t', Inr ()) \<and> vec_inv t' \<and>
      replace_run f w [] (vec_list t) = (w', vec_list t'))"
proof (intro conjI)
  have call: "quiet_callback contents f w s v k = Some (fst (f w (contents s) v k), s, Inr (snd (f w (contents s) v k)))"
    for contents :: "'x \<Rightarrow> JSTaggedValue list" and w s v k by (simp add: quiet_callback_def split: prod.split)
  show "ArrayList_ForEach (quiet_callback al_list f) w s = Some (visit (\<lambda>w v k. fst (f w (al_list s) v k)) w (al_list s) 0, s, Inr ())"
    unfolding ArrayList_ForEach_def by (rule array_list.for_each_all [OF assms(1), where x = "\<lambda>w v k. snd (f w (al_list s) v k)"]) (rule call)
  show "Vector_ForEach (quiet_callback vec_list f) w t = Some (visit (\<lambda>w v k. fst (f w (vec_list t) v k)) w (vec_list t) 0, t, Inr ())"
    unfolding Vector_ForEach_def by (rule vector.for_each_all [OF assms(2), where x = "\<lambda>w v k. snd (f w (vec_list t) v k)"]) (rule call)
  show "\<exists>w' s'. ArrayList_ReplaceAllElements (quiet_callback al_list f) w s = Some (w', s', Inr ()) \<and> al_inv s' \<and>
      replace_run f w [] (al_list s) = (w', al_list s')"
    using replace_all_spec [OF assms(1), of 0 "length (al_list s)" f w] al_length_facts(1) [OF assms(1)]
    by (simp add: ArrayList_ReplaceAllElements_def ArrayList_GetSize_def)
  show "\<exists>w' t'. Vector_ReplaceAllElements (quiet_callback vec_list f) w t = Some (w', t', Inr ()) \<and> vec_inv t' \<and>
      replace_run f w [] (vec_list t) = (w', vec_list t')"
    using replace_vector_spec [OF assms(2), of 0 "length (vec_list t)" f w]
    by (simp add: Vector_ReplaceAllElements_def Vector_GetSize_def)
qed

text \<open>A callback that counts its calls and returns the count and the first element.\<close>

definition counting_callback :: "u32 \<Rightarrow> JSTaggedValue list \<Rightarrow> JSTaggedValue \<Rightarrow> u32 \<Rightarrow> u32 \<times> JSTaggedValue" where
  "counting_callback w xs v k = (w + 1, if v = VNull then hd xs else VInt w)"

theorem callbacks_visit_all_witness:
  "ArrayList_ForEach (quiet_callback al_list counting_callback) 4 \<lparr>al_elements = [VInt 5, VNull], al_length = 2\<rparr> =
     Some (6, \<lparr>al_elements = [VInt 5, VNull], al_length = 2\<rparr>, Inr ()) \<and>
   (\<exists>t'. Vector_ReplaceAllElements (quiet_callback vec_list counting_callback) 7 \<lparr>vec_elements = [VInt 5, VNull, VHole], vec_length = 2\<rparr> =
     Some (9, t', Inr ()) \<and> vec_list t' = [VInt 7, VInt 7])"
proof -
  let ?s = "\<lparr>al_elements = [VInt 5, VNull], al_length = 2\<rparr>" and ?t = "\<lparr>vec_elements = [VInt 5, VNull, VHole], vec_length = 2\<rparr>"
  have "al_inv ?s" "vec_inv ?t" "al_list ?s = [VInt 5, VNull]" "vec_list ?t = [VInt 5, VNull]"
    by (simp_all add: al_inv_def vec_inv_def al_list_def vec_list_def)
  then show ?thesis
    using callbacks_visit_all [of ?s ?t counting_callback 4] callbacks_visit_all [of ?s ?t counting_callback 7]
    by (auto simp: counting_callback_def)
qed

section \<open>Plain arrays\<close>



text \<open>C7. \<open>JSAPIPlainArray\<close> implements a finite map from 32-bit integers: after any sequence of \<open>Add\<close>s on a
  well-formed plain array with a free slot, \<open>Get\<close> and \<open>Has\<close> answer from the updated map, \<open>Remove\<close> returns the value
  and leaves the map without the key, and the keys stay strictly ordered.  Old and added entries together are at most
  \<open>PLAINARRAY_LIMIT\<close>.\<close>

theorem plain_array_refines_map:
  assumes "pa_inv s" "pa_spare s" "length (pa_ks s) + length kvs \<le> PLAINARRAY_LIMIT"
  defines "m \<equiv> (\<lambda>k. pa_map s (sint k))(map fst kvs [\<mapsto>] map snd kvs)"
  shows "\<exists>s'. put_all (\<lambda>s k. PlainArray_Add s (VInt k)) s kvs = Some s' \<and> pa_inv s' \<and> sorted_wrt (<) (pa_ks s') \<and>
    PlainArray_Get s' (VInt k) = Some (case m k of None \<Rightarrow> VUndefined | Some v \<Rightarrow> v) \<and>
    PlainArray_Has s' k = Some (m k \<noteq> None) \<and>
    (\<exists>s''. PlainArray_Remove s' (VInt k) = Some (case m k of None \<Rightarrow> VUndefined | Some v \<Rightarrow> v, s'') \<and> pa_inv s'' \<and>
       PlainArray_Get s'' (VInt k) = Some VUndefined \<and>
       (k' \<noteq> k \<longrightarrow> PlainArray_Get s'' (VInt k') = PlainArray_Get s' (VInt k')))"
proof -
  obtain s' where s': "put_all (\<lambda>s k. PlainArray_Add s (VInt k)) s kvs = Some s'" "pa_inv s' \<and> pa_spare s'"
      "(\<lambda>k. pa_map s' (sint k)) = m"
    using plain_array.put_all_law [of s kvs] assms by auto
  have m: "pa_map s' (sint k) = m k" using s'(3) by (simp add: fun_eq_iff)
  obtain s'' where s'': "PlainArray_Remove s' (VInt k) = Some (case m k of None \<Rightarrow> VUndefined | Some v \<Rightarrow> v, s'')" "pa_inv s''"
    using plain_array.remove_law [OF s'(2), of k] m by auto
  show ?thesis
    using s' s'' m plain_array.get_law [OF s'(2), of k] PlainArray_Has_spec [of s' k] pa_facts(4) [of s']
      plain_array.remove_then_get [OF s'(2) s''(1)] by auto
qed

theorem plain_array_refines_map_witness:
  "\<exists>s' s''. put_all (\<lambda>s k. PlainArray_Add s (VInt k)) \<lparr>pa_keys = replicate 8 VHole, pa_values = replicate 8 VHole, pa_length = 0\<rparr>
      [(7, VTrue), (3, VNull), (7, VFalse)] = Some s' \<and> pa_inv s' \<and> PlainArray_Get s' (VInt 7) = Some VFalse \<and>
    PlainArray_Remove s' (VInt 7) = Some (VFalse, s'') \<and> PlainArray_Get s'' (VInt 7) = Some VUndefined \<and>
    PlainArray_Get s'' (VInt 3) = PlainArray_Get s' (VInt 3)"
proof -
  let ?s = "\<lparr>pa_keys = replicate 8 VHole, pa_values = replicate 8 VHole, pa_length = 0\<rparr>"
  have inv: "pa_inv ?s \<and> pa_ks ?s = [] \<and> pa_vs ?s = []" by (intro pa_invI) (simp_all add: keys_of_def holds_def)
  then have "pa_spare ?s" "\<And>k. pa_map ?s k = None" by (simp_all add: pa_spare_def pa_map_def)
  then show ?thesis
    using plain_array_refines_map [of ?s "[(7, VTrue), (3, VNull), (7, VFalse)]" 7 3] inv
    by (auto simp: PLAINARRAY_LIMIT_def simp del: put_all.simps)
qed

text \<open>C32. \<open>JSAPIPlainArray::RemoveRangeFrom\<close> on every branch.  It raises an error when the index is not the position of an
  entry or the size is not positive; it removes the entries from the position on, as many as there are up to the
  size asked for, and returns their number, as long as \<open>index + batchSize\<close> is an \<open>int32_t\<close>; otherwise this sum, which the test
  against the end needs, overflows and the behaviour is undefined, although the request makes sense.\<close>

theorem plain_array_remove_range:
  assumes "pa_inv s"
  shows "if sint i < 0 \<or> int (length (pa_ks s)) \<le> sint i \<or> sint b < 1 then (\<exists>e. PlainArray_RemoveRangeFrom s i b = raise_error e)
    else if 2 ^ 31 \<le> sint i + sint b then PlainArray_RemoveRangeFrom s i b = None
    else \<exists>s'. PlainArray_RemoveRangeFrom s i b = return_value (word_of_nat (min (unat b) (length (pa_ks s) - unat i)), s') \<and>
      pa_inv s' \<and> pa_ks s' = take (unat i) (pa_ks s) @ drop (unat i + unat b) (pa_ks s) \<and>
      pa_vs s' = take (unat i) (pa_vs s) @ drop (unat i + unat b) (pa_vs s)"
proof -
  note f = pa_facts [OF assms]
  have len: "sint (pa_length s) = int (length (pa_ks s))" using f(6,7) holds_length(6) [OF f(2)] by simp
  show ?thesis
  proof (cases "sint i < 0 \<or> int (length (pa_ks s)) \<le> sint i \<or> sint b < 1 \<or> 2 ^ 31 \<le> sint i + sint b")
    case True
    then show ?thesis by (auto simp: PlainArray_RemoveRangeFrom_def len Let_def)
  next
    case False
    then have "unat i < length (pa_ks s)" using sint_outside [of "length (pa_ks s)" i] f(7) by auto
    then show ?thesis using False PlainArray_RemoveRangeFrom_spec [OF assms, of i b] by simp
  qed
qed

theorem plain_array_remove_range_witness:
  "(\<exists>s'. PlainArray_RemoveRangeFrom \<lparr>pa_keys = [VInt 4, VInt 6, VHole], pa_values = [VTrue, VNull, VHole], pa_length = 2\<rparr> 1 9 =
      return_value (1, s') \<and> pa_ks s' = [4] \<and> pa_vs s' = [VTrue]) \<and>
   PlainArray_RemoveRangeFrom \<lparr>pa_keys = [VInt 4, VInt 6, VHole], pa_values = [VTrue, VNull, VHole], pa_length = 2\<rparr> 1 0x7FFFFFFF = None"
proof -
  let ?s = "\<lparr>pa_keys = [VInt 4, VInt 6, VHole], pa_values = [VTrue, VNull, VHole], pa_length = 2\<rparr>"
  have "keys_of [VInt 4, VInt 6, VHole] 2 [4, 6]"
    unfolding keys_of_def by (intro exI [of _ "[VInt 4, VInt 6]"]) (simp add: holds_def)
  then have inv: "pa_inv ?s \<and> pa_ks ?s = [4, 6] \<and> pa_vs ?s = [VTrue, VNull]"
    by (intro pa_invI) (simp_all add: holds_def)
  then show ?thesis using plain_array_remove_range [of ?s 1 "0x7FFFFFFF"] plain_array_remove_range [of ?s 1 9] by (auto simp: min_def)
qed

text \<open>C39. A clone of a plain array has no free slot: adding a new key in front of its last key, or any key to the
  clone of an empty plain array, stores behind the end of the arrays.\<close>

theorem plain_array_add_to_clone:
  assumes "pa_inv s" "sint k \<notin> set (pa_ks s)" "pa_ks s = [] \<or> sint k < last (pa_ks s)"
  shows "\<exists>s'. PlainArray_Clone s = Some s' \<and> pa_inv s' \<and> pa_map s' = pa_map s \<and> PlainArray_Add s' (VInt k) v = None"
proof -
  obtain s' where s': "PlainArray_Clone s = Some s'" "pa_inv s'" "pa_ks s' = pa_ks s" "pa_vs s' = pa_vs s" "\<not> pa_spare s'"
    using PlainArray_Clone_spec [OF assms(1)] by blast
  have "position (pa_ks s) (sint k) < length (pa_ks s)" if "pa_ks s \<noteq> []" "sint k < last (pa_ks s)"
  proof (rule ccontr)
    assume "\<not> position (pa_ks s) (sint k) < length (pa_ks s)"
    then have "length (pa_ks s) - 1 < position (pa_ks s) (sint k)" using that(1) by (cases "pa_ks s") auto
    then show False using position_before [of "length (pa_ks s) - 1" "pa_ks s" "sint k"] that by (simp add: last_conv_nth)
  qed
  then have "PlainArray_Add s' (VInt k) v = None"
    using s' assms(2,3) by (intro PlainArray_Add_full [of s' "VInt k" k]) auto
  then show ?thesis using s' by (simp add: pa_map_def)
qed

theorem plain_array_add_to_clone_witness:
  "\<exists>s'. PlainArray_Clone \<lparr>pa_keys = replicate 8 VHole, pa_values = replicate 8 VHole, pa_length = 0\<rparr> = Some s' \<and>
    PlainArray_Add s' (VInt 1) VTrue = None"
proof -
  let ?s = "\<lparr>pa_keys = replicate 8 VHole, pa_values = replicate 8 VHole, pa_length = 0\<rparr>"
  have "pa_inv ?s \<and> pa_ks ?s = [] \<and> pa_vs ?s = []" by (intro pa_invI) (simp_all add: keys_of_def holds_def)
  then show ?thesis using plain_array_add_to_clone [of ?s 1 VTrue] by auto
qed

text \<open>Reading a plain array as an object (\<open>GetProperty\<close>) takes the position of the key for a key: when the key is
  present, the result is what \<open>Get\<close> returns for the position, not the value stored under the key.\<close>

theorem plain_array_get_property_uses_position:
  assumes "pa_inv s" "sint k \<in> set (pa_ks s)"
  shows "\<exists>i. PlainArray_GetIndexOfKey s k = Some i \<and> pa_ks s ! unat i = sint k \<and>
    PlainArray_GetProperty s k = Option.bind (PlainArray_Get s (VInt i)) return_value"
proof -
  note f = pa_facts [OF assms(1)] and p = pa_map_position [OF assms]
  define i where "i = search_result (pa_ks s) (sint k)"
  have i: "unat i = position (pa_ks s) (sint k)" "sint i = int (position (pa_ks s) (sint k))"
    using search_result_cases(1) [OF f(7,4) assms(2)] by (simp_all add: i_def)
  have "PlainArray_GetIndexOfKey s k = Some i"
    using i by (simp add: PlainArray_GetIndexOfKey_def PlainArray_search [OF assms(1)] i_def [symmetric])
  then show ?thesis
    using PlainArray_GetProperty_spec [OF assms] PlainArray_Get_spec [OF assms(1), of "VInt i" i] i p(3) by simp
qed

theorem plain_array_get_property_uses_position_witness:
  "PlainArray_Get \<lparr>pa_keys = [VInt 4], pa_values = [VTrue], pa_length = 1\<rparr> (VInt 4) = Some VTrue \<and>
   PlainArray_GetProperty \<lparr>pa_keys = [VInt 4], pa_values = [VTrue], pa_length = 1\<rparr> 4 = return_value VUndefined"
proof -
  let ?s = "\<lparr>pa_keys = [VInt 4], pa_values = [VTrue], pa_length = 1\<rparr>"
  have "keys_of [VInt 4] 1 [4]" unfolding keys_of_def by (intro exI [of _ "[VInt 4]"]) (simp add: holds_def)
  then have inv: "pa_inv ?s \<and> pa_ks ?s = [4] \<and> pa_vs ?s = [VTrue]" by (intro pa_invI) (simp_all add: holds_def)
  then have m: "pa_map ?s = [4 \<mapsto> VTrue]" by (simp add: pa_map_def)
  obtain i where i: "PlainArray_GetIndexOfKey ?s 4 = Some i"
      "PlainArray_GetProperty ?s 4 = Option.bind (PlainArray_Get ?s (VInt i)) return_value"
    using plain_array_get_property_uses_position [of ?s 4] inv by auto
  have "search_result [4] 4 = 0" by (simp add: search_result_def position_def)
  then have "i = 0" using i(1) PlainArray_search [of ?s 4] inv by (simp add: PlainArray_GetIndexOfKey_def)
  then show ?thesis
    using i(2) PlainArray_Get_spec [of ?s "VInt 4" 4] PlainArray_Get_spec [of ?s "VInt 0" 0] inv m by simp
qed

end
