(* ===== verification/String_Hash.thy ===== *)
theory String_Hash
  imports JS_Value
begin

text \<open>
  Hash codes of strings (\<open>ecmascript/ecma_string.h\<close>, \<open>ecma_string.cpp\<close>): the 31-bit polynomial hash, the
  integer fast path that stores the value of a short decimal string with the top bit set, the hash of two
  strings put together that \<open>EcmaStringTable\<close> computes without building the concatenation, and the cached
  code of a string object.  A string is flat and stored compressed exactly when all its characters are
  ASCII and not zero, as \<open>CanBeCompressed\<close> decides when strings are created.
\<close>

section \<open>Definitions\<close>

definition IS_INTEGER_MASK :: u32 where
  "IS_INTEGER_MASK = push_bit 31 1"

definition MAX_INTEGER_HASH_NUMBER :: u32 where
  "MAX_INTEGER_HASH_NUMBER = 0x3B9AC9FF"

definition MAX_ELEMENT_INDEX_LEN :: nat where
  "MAX_ELEMENT_INDEX_LEN = 10"

definition MixHashcode :: "u32 \<Rightarrow> bool \<Rightarrow> u32" where
  "MixHashcode hashcode isInteger =
     (if isInteger then hashcode OR IS_INTEGER_MASK else hashcode AND (NOT IS_INTEGER_MASK))"

definition IsASCIICharacter :: "u16 \<Rightarrow> bool" where
  "IsASCIICharacter c \<longleftrightarrow> (ucast c :: u32) - 1 < 0x7F"

definition CanBeCompressed :: "u16 list \<Rightarrow> bool" where
  "CanBeCompressed cs = list_all IsASCIICharacter cs"

definition IsUtf8 :: "ecma_string \<Rightarrow> bool" where
  "IsUtf8 s = CanBeCompressed (str_chars s)"

definition IsDecimalDigitChar :: "'a::len word \<Rightarrow> bool" where
  "IsDecimalDigitChar c \<longleftrightarrow> 0x30 \<le> c \<and> c \<le> 0x39"

text \<open>The character is passed as a \<open>uint8_t\<close>, whatever the type of the data.\<close>

definition ComputeIntegerHash :: "u32 \<Rightarrow> u8 \<Rightarrow> u32 option" where
  "ComputeIntegerHash num c = (if \<not> IsDecimalDigitChar c then None else Some (num * 10 + (ucast c - 0x30)))"

fun integer_loop :: "u32 \<Rightarrow> u16 list \<Rightarrow> u32 option" where
  "integer_loop num [] = (if num \<le> MAX_INTEGER_HASH_NUMBER then Some (MixHashcode num True) else None)"
| "integer_loop num (c # cs) = (case ComputeIntegerHash num (ucast c) of
     None \<Rightarrow> None
   | Some num' \<Rightarrow> integer_loop num' cs)"

text \<open>\<open>HashIntegerString\<close> returns \<open>None\<close> for \<open>false\<close>; its callers never pass an empty array.\<close>

definition HashIntegerString :: "u16 list \<Rightarrow> u32 \<Rightarrow> u32 option" where
  "HashIntegerString data hashSeed = (case data of
     [] \<Rightarrow> None
   | c # cs \<Rightarrow>
       if hashSeed = 0 then
         if IsDecimalDigitChar c \<and> c \<noteq> 0x30 then integer_loop (ucast c - 0x30) cs
         else if length data = 1 \<and> c = 0x30 then Some (MixHashcode 0 True)
         else None
       else if IsDecimalDigitChar c then integer_loop (hashSeed * 10 + (ucast c - 0x30)) cs
       else None)"

fun ComputeHashForData :: "u16 list \<Rightarrow> u32 \<Rightarrow> u32" where
  "ComputeHashForData [] hash = hash"
| "ComputeHashForData (c # cs) hash = ComputeHashForData cs (push_bit 5 hash - hash + ucast c)"

definition ComputeRawHashcode :: "ecma_string \<Rightarrow> u32 \<times> bool" where
  "ComputeRawHashcode s =
     (if length (str_chars s) = 0 then (0, False)
      else if IsUtf8 s then
        case (if length (str_chars s) < MAX_ELEMENT_INDEX_LEN then HashIntegerString (str_chars s) 0 else None) of
          Some hash \<Rightarrow> (hash, True)
        | None \<Rightarrow> (ComputeHashForData (str_chars s) 0, False)
      else (ComputeHashForData (str_chars s) 0, False))"

definition ComputeHashcode :: "ecma_string \<Rightarrow> u32" where
  "ComputeHashcode s = (case ComputeRawHashcode s of (hash, isInteger) \<Rightarrow> MixHashcode hash isInteger)"

text \<open>The overload with a seed: the hash of the string appended to one whose raw hash is the seed.\<close>

definition ComputeHashcode_seed :: "ecma_string \<Rightarrow> u32 \<Rightarrow> bool \<Rightarrow> u32" where
  "ComputeHashcode_seed s rawHashSeed isInteger =
     (if length (str_chars s) = 0 then MixHashcode rawHashSeed isInteger
      else if IsUtf8 s then
        case (if (rawHashSeed = 0 \<or> isInteger) \<and> length (str_chars s) < MAX_ELEMENT_INDEX_LEN
              then HashIntegerString (str_chars s) rawHashSeed else None) of
          Some hash \<Rightarrow> hash
        | None \<Rightarrow> MixHashcode (ComputeHashForData (str_chars s) rawHashSeed) False
      else MixHashcode (ComputeHashForData (str_chars s) rawHashSeed) False)"

text \<open>The static variants on data: ASCII bytes, and 16-bit units.\<close>

definition ComputeHashcodeUtf8 :: "u16 list \<Rightarrow> u32" where
  "ComputeHashcodeUtf8 utf8Data =
     (case (if length utf8Data < MAX_ELEMENT_INDEX_LEN then HashIntegerString utf8Data 0 else None) of
        Some mixHash \<Rightarrow> mixHash
      | None \<Rightarrow> MixHashcode (ComputeHashForData utf8Data 0) False)"

definition ComputeHashcodeUtf16 :: "u16 list \<Rightarrow> u32" where
  "ComputeHashcodeUtf16 utf16Data =
     (case (if length utf16Data < MAX_ELEMENT_INDEX_LEN then HashIntegerString utf16Data 0 else None) of
        Some mixHash \<Rightarrow> mixHash
      | None \<Rightarrow> MixHashcode (ComputeHashForData utf16Data 0) False)"

text \<open>A mixed hash of 0 means that none is cached, except for the empty string.\<close>

definition SetMixHashcode :: "ecma_string \<Rightarrow> u32 \<Rightarrow> ecma_string" where
  "SetMixHashcode s h = s\<lparr>str_hash := (if h = 0 \<and> str_chars s \<noteq> [] then None else Some h)\<rparr>"

definition GetMixHashcode :: "ecma_string \<Rightarrow> u32" where
  "GetMixHashcode s = (case str_hash s of None \<Rightarrow> 0 | Some h \<Rightarrow> h)"

definition GetHashcode :: "ecma_string \<Rightarrow> u32 \<times> ecma_string" where
  "GetHashcode s =
     (let hashcode = GetMixHashcode s in
      if hashcode = 0 \<and> length (str_chars s) \<noteq> 0 then
        let hashcode = ComputeHashcode s in (hashcode, SetMixHashcode s hashcode)
      else (hashcode, s))"

definition EcmaString_IsInteger :: "ecma_string \<Rightarrow> bool" where
  "EcmaString_IsInteger s \<longleftrightarrow> fst (GetHashcode s) AND IS_INTEGER_MASK = IS_INTEGER_MASK"

definition GetIntegerCode :: "ecma_string \<Rightarrow> u32" where
  "GetIntegerCode s = GetMixHashcode s AND (NOT IS_INTEGER_MASK)"

definition TryToGetInteger :: "ecma_string \<Rightarrow> u32 option" where
  "TryToGetInteger s =
     (if \<not> EcmaString_IsInteger s then None else Some (GetIntegerCode (snd (GetHashcode s))))"

section \<open>Decimal strings\<close>

definition digits_only :: "u16 list \<Rightarrow> bool" where
  "digits_only cs = list_all IsDecimalDigitChar cs"

definition decimal :: "u32 \<Rightarrow> u16 list \<Rightarrow> u32" where
  "decimal n cs = foldl (\<lambda>n c. n * 10 + (ucast c - 0x30)) n cs"

text \<open>The strings that are array indices below \<open>10 ^ 9\<close> in canonical form.\<close>

definition integer_string :: "u16 list \<Rightarrow> bool" where
  "integer_string cs \<longleftrightarrow> cs \<noteq> [] \<and> digits_only cs \<and> (hd cs = 0x30 \<longrightarrow> cs = [0x30]) \<and> length cs < MAX_ELEMENT_INDEX_LEN"

lemma decimal_simps [simp]:
  "decimal n [] = n" "decimal n (c # cs) = decimal (n * 10 + (ucast c - 0x30)) cs"
  "decimal n (cs @ ds) = decimal (decimal n cs) ds"
  by (simp_all add: decimal_def)

lemma digits_only_simps [simp]:
  "digits_only []" "digits_only (c # cs) \<longleftrightarrow> IsDecimalDigitChar c \<and> digits_only cs"
  "digits_only (cs @ ds) \<longleftrightarrow> digits_only cs \<and> digits_only ds"
  by (auto simp: digits_only_def)

lemma unat_widen: "unat (ucast (c :: u16) :: u32) = unat c"
proof -
  have "unat c < 65536" using unsigned_less [of c, where ?'a = nat] by simp
  then show ?thesis by (simp add: unsigned_ucast_eq take_bit_nat_eq_self)
qed

lemma unat_narrow: "unat (ucast (c :: u16) :: u8) = unat c mod 256"
  by (simp add: unsigned_ucast_eq take_bit_eq_mod)

lemma unat_widen8: "unat (ucast (c :: u8) :: u32) = unat c"
proof -
  have "unat c < 256" using unsigned_less [of c, where ?'a = nat] by simp
  then show ?thesis by (simp add: unsigned_ucast_eq take_bit_nat_eq_self)
qed

lemma ascii_range: "IsASCIICharacter c \<longleftrightarrow> 0 < unat c \<and> unat c < 128"
proof (cases "c = 0")
  case False
  then have "(ucast c :: u32) \<noteq> 0" using unat_widen [of c] by (metis unat_eq_zero unsigned_0)
  then have "unat ((ucast c :: u32) - 1) = unat c - 1" using unat_widen [of c] by (simp add: unat_minus_one)
  then show ?thesis using False by (auto simp: IsASCIICharacter_def word_less_nat_alt unat_gt_0)
qed (simp add: IsASCIICharacter_def)

lemma digit16_range: "IsDecimalDigitChar c \<longleftrightarrow> 48 \<le> unat c \<and> unat c \<le> 57" for c :: u16
  by (simp add: IsDecimalDigitChar_def word_le_nat_alt)

lemma digit8_range: "IsDecimalDigitChar c \<longleftrightarrow> 48 \<le> unat c \<and> unat c \<le> 57" for c :: u8
  by (simp add: IsDecimalDigitChar_def word_le_nat_alt)

lemma narrow_ascii:
  assumes "IsASCIICharacter c"
  shows "IsDecimalDigitChar (ucast c :: u8) \<longleftrightarrow> IsDecimalDigitChar c"
    and "(ucast (ucast c :: u8) :: u32) = ucast c"
proof -
  have "unat (ucast c :: u8) = unat c" using assms by (simp add: unat_narrow ascii_range)
  then show "IsDecimalDigitChar (ucast c :: u8) \<longleftrightarrow> IsDecimalDigitChar c"
    by (simp add: digit16_range digit8_range)
  show "(ucast (ucast c :: u8) :: u32) = ucast c"
  proof (rule word_unat_eq_iff [THEN iffD2])
    have "unat (ucast (ucast c :: u8) :: u32) = unat (ucast c :: u8)" by (rule unat_widen8)
    then show "unat (ucast (ucast c :: u8) :: u32) = unat (ucast c :: u32)"
      using \<open>unat (ucast c :: u8) = unat c\<close> by (simp add: unat_widen)
  qed
qed

lemma digit_ascii: "IsDecimalDigitChar c \<Longrightarrow> IsASCIICharacter c"
  by (simp add: ascii_range digit16_range)

lemma digits_only_ascii: "digits_only cs \<Longrightarrow> CanBeCompressed cs"
  by (auto simp: digits_only_def CanBeCompressed_def list_all_iff digit_ascii)

text \<open>Passing a character as a byte is harmless when the byte is a digit only for a digit.\<close>

definition narrow_ok :: "u16 \<Rightarrow> bool" where
  "narrow_ok c \<longleftrightarrow> (IsDecimalDigitChar (ucast c :: u8) \<longrightarrow> IsDecimalDigitChar c)"

lemma ascii_narrow_ok: "CanBeCompressed cs \<Longrightarrow> list_all narrow_ok cs"
  by (auto simp: CanBeCompressed_def list_all_iff narrow_ok_def narrow_ascii)

lemma ComputeIntegerHash_digit:
  "narrow_ok c \<Longrightarrow> ComputeIntegerHash n (ucast c) = (if IsDecimalDigitChar c then Some (n * 10 + (ucast c - 0x30)) else None)"
  using narrow_ascii [of c] digit_ascii [of c] by (auto simp: ComputeIntegerHash_def narrow_ok_def)

lemma integer_loop_digits:
  "list_all narrow_ok cs \<Longrightarrow> integer_loop n cs =
     (if digits_only cs \<and> decimal n cs \<le> MAX_INTEGER_HASH_NUMBER then Some (MixHashcode (decimal n cs) True) else None)"
  by (induction cs arbitrary: n) (auto simp: ComputeIntegerHash_digit)

text \<open>The value of a string of digits, and that nine digits are always below the bound.\<close>

lemma decimal_bound:
  assumes "digits_only cs" "unat n < 10 ^ k" "k + length cs \<le> 9"
  shows "unat (decimal n cs) < 10 ^ (k + length cs)"
  using assms
proof (induction cs arbitrary: n k)
  case (Cons c cs)
  have k: "k \<le> 8" using Cons.prems by simp
  then have "(10 :: nat) ^ Suc k \<le> 10 ^ 9" by (intro power_increasing) simp_all
  moreover have d: "unat ((ucast c :: u32) - 0x30) \<le> 9"
    using Cons.prems(1) unat_widen [of c] by (auto simp: digit16_range unat_sub_if_size)
  moreover have n: "unat n * 10 + 9 < 10 ^ Suc k" using Cons.prems(2) by simp
  ultimately have lt: "unat n * 10 + unat ((ucast c :: u32) - 0x30) < 4294967296" by simp
  have "unat (n * 10) = unat n * 10" using lt by (simp add: unat_word_ariths)
  then have "unat (n * 10 + ((ucast c :: u32) - 0x30)) = unat n * 10 + unat ((ucast c :: u32) - 0x30)"
    using lt by (simp add: unat_plus_if_size word_size)
  then have "unat (n * 10 + ((ucast c :: u32) - 0x30)) < 10 ^ Suc k" using n d by linarith
  then show ?case using Cons.IH [of "n * 10 + (ucast c - 0x30)" "Suc k"] Cons.prems by simp
qed simp

lemma decimal_ok: "digits_only cs \<Longrightarrow> length cs \<le> 9 \<Longrightarrow> decimal 0 cs \<le> MAX_INTEGER_HASH_NUMBER"
proof -
  assume "digits_only cs" "length cs \<le> 9"
  then have "unat (decimal 0 cs) < 10 ^ length cs" using decimal_bound [of cs 0 0] by simp
  also have "(10 :: nat) ^ length cs \<le> 10 ^ 9" using \<open>length cs \<le> 9\<close> by (intro power_increasing) simp_all
  finally show ?thesis by (simp add: MAX_INTEGER_HASH_NUMBER_def word_le_nat_alt)
qed

lemma HashIntegerString_digits:
  assumes "list_all narrow_ok (tl cs)" "length cs < MAX_ELEMENT_INDEX_LEN"
  shows "HashIntegerString cs 0 = (if integer_string cs then Some (MixHashcode (decimal 0 cs) True) else None)"
proof (cases cs)
  case (Cons c ds)
  have "list_all narrow_ok ds" using assms(1) Cons by simp
  moreover have "digits_only cs \<Longrightarrow> decimal (ucast c - 0x30) ds \<le> MAX_INTEGER_HASH_NUMBER"
    using decimal_ok [of cs] assms(2) Cons by (simp add: MAX_ELEMENT_INDEX_LEN_def)
  ultimately show ?thesis
    using assms(2) Cons
    by (auto simp: HashIntegerString_def integer_loop_digits integer_string_def IsDecimalDigitChar_def)
qed (simp add: HashIntegerString_def integer_string_def)

lemma HashIntegerString_ascii:
  assumes "CanBeCompressed cs" "length cs < MAX_ELEMENT_INDEX_LEN"
  shows "HashIntegerString cs 0 = (if integer_string cs then Some (MixHashcode (decimal 0 cs) True) else None)"
  using HashIntegerString_digits [OF _ assms(2)] ascii_narrow_ok [OF assms(1)] by (cases cs) simp_all

lemma ComputeHashForData_append [simp]:
  "ComputeHashForData (cs @ ds) h = ComputeHashForData ds (ComputeHashForData cs h)"
  by (induction cs arbitrary: h) simp_all

text \<open>What the hash code of a string is: its value if it is an index, otherwise 31 bits of the polynomial.\<close>

definition hash_spec :: "u16 list \<Rightarrow> u32" where
  "hash_spec cs =
     (if integer_string cs then MixHashcode (decimal 0 cs) True
      else MixHashcode (ComputeHashForData cs 0) False)"

lemma integer_string_ascii: "integer_string cs \<Longrightarrow> CanBeCompressed cs"
  by (simp add: integer_string_def digits_only_ascii)

lemma MixHashcode_idem [simp]: "MixHashcode (MixHashcode h b) b = MixHashcode h b"
  by (simp add: MixHashcode_def or.assoc and.assoc)

lemma ComputeRawHashcode_spec:
  "ComputeRawHashcode s =
     (if integer_string (str_chars s) then (MixHashcode (decimal 0 (str_chars s)) True, True)
      else (ComputeHashForData (str_chars s) 0, False))"
proof (cases "str_chars s = []")
  case False
  show ?thesis
  proof (cases "IsUtf8 s \<and> length (str_chars s) < MAX_ELEMENT_INDEX_LEN")
    case True
    then show ?thesis
      using False HashIntegerString_ascii [of "str_chars s"] by (simp add: ComputeRawHashcode_def IsUtf8_def)
  next
    case f: False
    then have "\<not> integer_string (str_chars s)"
      using integer_string_ascii [of "str_chars s"] by (auto simp: IsUtf8_def integer_string_def)
    then show ?thesis using f False by (auto simp: ComputeRawHashcode_def)
  qed
qed (simp add: ComputeRawHashcode_def integer_string_def)

lemma ComputeHashcode_spec: "ComputeHashcode s = hash_spec (str_chars s)"
  by (simp add: ComputeHashcode_def ComputeRawHashcode_spec hash_spec_def)

lemma ComputeHashcodeUtf8_spec: "CanBeCompressed cs \<Longrightarrow> ComputeHashcodeUtf8 cs = hash_spec cs"
  by (auto simp: ComputeHashcodeUtf8_def hash_spec_def HashIntegerString_ascii integer_string_def)

lemma ComputeHashcodeUtf16_spec: "list_all narrow_ok (tl cs) \<Longrightarrow> ComputeHashcodeUtf16 cs = hash_spec cs"
  by (auto simp: ComputeHashcodeUtf16_def hash_spec_def HashIntegerString_digits integer_string_def)

lemma mask_disjoint: "n \<le> MAX_INTEGER_HASH_NUMBER \<Longrightarrow> n AND IS_INTEGER_MASK = 0"
proof -
  assume "n \<le> MAX_INTEGER_HASH_NUMBER"
  then have "unat n < 2 ^ 31" by (simp add: MAX_INTEGER_HASH_NUMBER_def word_le_nat_alt)
  then have "unat n div 2 ^ 31 = 0" by simp
  then have "\<not> bit (unat n) 31" by (simp only: bit_iff_odd) simp
  then have "\<not> bit n 31" by (simp add: bit_unsigned_iff)
  moreover have "bit IS_INTEGER_MASK k \<Longrightarrow> k = 31" for k
    unfolding IS_INTEGER_MASK_def push_bit_of_1 by (simp only: bit_exp_iff)
  ultimately show ?thesis by (intro bit_eqI) (auto simp: bit_and_iff)
qed

lemma MixHashcode_times_ten:
  assumes "n \<le> MAX_INTEGER_HASH_NUMBER"
  shows "MixHashcode n True * 10 = n * 10" "MixHashcode n True \<noteq> 0"
proof -
  have "MixHashcode n True = n + IS_INTEGER_MASK"
    using mask_disjoint [OF assms] by (simp add: MixHashcode_def disjunctive_add_eq_or)
  then show "MixHashcode n True * 10 = n * 10" by (simp add: IS_INTEGER_MASK_def distrib_right)
  show "MixHashcode n True \<noteq> 0" by (simp add: MixHashcode_def IS_INTEGER_MASK_def or_eq_0_iff)
qed

text \<open>The hash a string object reports, and the number read from it.\<close>

definition hash_cached_ok :: "ecma_string \<Rightarrow> bool" where
  "hash_cached_ok s \<longleftrightarrow> (case str_hash s of None \<Rightarrow> str_chars s \<noteq> [] | Some h \<Rightarrow> h = hash_spec (str_chars s))"

lemma hash_spec_Nil [simp]: "hash_spec [] = 0"
  by (simp add: hash_spec_def integer_string_def MixHashcode_def)

lemma SetMixHashcode_simps [simp]:
  "str_chars (SetMixHashcode s h) = str_chars s" "str_addr (SetMixHashcode s h) = str_addr s"
  "str_interned (SetMixHashcode s h) = str_interned s" "GetMixHashcode (SetMixHashcode s h) = h"
  by (simp_all add: SetMixHashcode_def GetMixHashcode_def)

lemma SetMixHashcode_ok: "h = hash_spec (str_chars s) \<Longrightarrow> hash_cached_ok (SetMixHashcode s h)"
  by (auto simp: hash_cached_ok_def SetMixHashcode_def)

lemma GetHashcode_ok:
  assumes "hash_cached_ok s"
  obtains t where "GetHashcode s = (hash_spec (str_chars s), t)" "hash_cached_ok t" "str_chars t = str_chars s"
    "str_addr t = str_addr s" "str_interned t = str_interned s" "GetMixHashcode t = hash_spec (str_chars s)"
proof (cases "GetMixHashcode s = 0 \<and> str_chars s \<noteq> []")
  case True
  then have "GetHashcode s = (hash_spec (str_chars s), SetMixHashcode s (hash_spec (str_chars s)))"
    by (simp add: GetHashcode_def ComputeHashcode_spec Let_def)
  then show thesis by (rule that) (simp_all add: SetMixHashcode_ok)
next
  case False
  then have "GetMixHashcode s = hash_spec (str_chars s)"
    using assms by (auto simp: GetMixHashcode_def hash_cached_ok_def split: option.splits)
  moreover have "GetHashcode s = (GetMixHashcode s, s)" using False by (auto simp: GetHashcode_def)
  ultimately show thesis using that [of s] assms by simp
qed

lemma decimal_mask:
  assumes "n \<le> MAX_INTEGER_HASH_NUMBER"
  shows "MixHashcode n True AND IS_INTEGER_MASK = IS_INTEGER_MASK" "MixHashcode n True AND NOT IS_INTEGER_MASK = n"
    and "MixHashcode h False AND IS_INTEGER_MASK \<noteq> IS_INTEGER_MASK"
proof -
  have n: "n AND IS_INTEGER_MASK = 0" using assms by (rule mask_disjoint)
  show "MixHashcode n True AND IS_INTEGER_MASK = IS_INTEGER_MASK"
    using n by (simp add: MixHashcode_def bit.conj_disj_distrib2)
  have "n AND (IS_INTEGER_MASK OR NOT IS_INTEGER_MASK) = (n AND IS_INTEGER_MASK) OR (n AND NOT IS_INTEGER_MASK)"
    by (rule bit.conj_disj_distrib)
  then have "n AND NOT IS_INTEGER_MASK = n" using n by (simp only: bit.disj_cancel_right) simp
  then show "MixHashcode n True AND NOT IS_INTEGER_MASK = n"
    by (simp add: MixHashcode_def bit.conj_disj_distrib2)
  show "MixHashcode h False AND IS_INTEGER_MASK \<noteq> IS_INTEGER_MASK"
    by (simp add: MixHashcode_def and.assoc) (simp add: IS_INTEGER_MASK_def)
qed

lemma TryToGetInteger_spec:
  assumes "hash_cached_ok s"
  shows "TryToGetInteger s = (if integer_string (str_chars s) then Some (decimal 0 (str_chars s)) else None)"
proof -
  obtain t where t: "GetHashcode s = (hash_spec (str_chars s), t)" "GetMixHashcode t = hash_spec (str_chars s)"
    using GetHashcode_ok [OF assms] by metis
  have "decimal 0 (str_chars s) \<le> MAX_INTEGER_HASH_NUMBER" if "integer_string (str_chars s)"
    using that decimal_ok [of "str_chars s"] by (simp add: integer_string_def MAX_ELEMENT_INDEX_LEN_def)
  then show ?thesis
    using t decimal_mask
    by (auto simp: TryToGetInteger_def EcmaString_IsInteger_def GetIntegerCode_def hash_spec_def)
qed

section \<open>Two strings put together\<close>

definition splice_hash :: "ecma_string \<Rightarrow> ecma_string \<Rightarrow> u32" where
  "splice_hash first second = (case ComputeRawHashcode first of (hashCode, isInteger) \<Rightarrow>
     ComputeHashcode_seed second hashCode isInteger)"

lemma integer_string_prefix:
  "integer_string (cs @ ds) \<Longrightarrow> cs \<noteq> [] \<Longrightarrow> integer_string cs"
  by (cases cs) (auto simp: integer_string_def split: if_splits)

lemma splice_hash_correct:
  assumes "str_chars a = [] \<or> str_chars b = [] \<or>
    (if integer_string (str_chars a)
     then str_chars a \<noteq> [0x30] \<and> digits_only (str_chars b) \<and> length (str_chars a @ str_chars b) < MAX_ELEMENT_INDEX_LEN
     else ComputeHashForData (str_chars a) 0 \<noteq> 0)"
  shows "splice_hash a b = hash_spec (str_chars a @ str_chars b)"
proof -
  let ?a = "str_chars a" and ?b = "str_chars b"
  consider "?b = []" | "?a = []" "?b \<noteq> []"
    | "?a \<noteq> []" "?b \<noteq> []" "\<not> integer_string ?a" "ComputeHashForData ?a 0 \<noteq> 0"
    | "?b \<noteq> []" "integer_string ?a" "?a \<noteq> [0x30]" "digits_only ?b" "length (?a @ ?b) < MAX_ELEMENT_INDEX_LEN"
    using assms by (auto split: if_splits)
  then show ?thesis
  proof cases
    case 1
    then show ?thesis
      by (simp add: splice_hash_def ComputeRawHashcode_spec ComputeHashcode_seed_def hash_spec_def)
  next
    case 2
    have "ComputeHashcode_seed b 0 False = ComputeHashcode b"
      using 2 by (auto simp: ComputeHashcode_seed_def ComputeHashcode_def ComputeRawHashcode_def
          HashIntegerString_ascii IsUtf8_def split: option.split)
    then show ?thesis
      using 2 by (simp add: splice_hash_def ComputeRawHashcode_spec integer_string_def ComputeHashcode_spec)
  next
    case 3
    then show ?thesis
      using integer_string_prefix [of ?a ?b]
      by (auto simp: splice_hash_def ComputeRawHashcode_spec ComputeHashcode_seed_def hash_spec_def)
  next
    case 4
    obtain c cs where b: "?b = c # cs" using 4(1) by (cases ?b) auto
    have a: "?a \<noteq> []" "digits_only ?a" "hd ?a \<noteq> 0x30" "length ?a \<le> 9" "length (?a @ ?b) \<le> 9"
      using 4 by (auto simp: integer_string_def MAX_ELEMENT_INDEX_LEN_def)
    then have ab: "integer_string (?a @ ?b)" using 4 by (cases ?a) (auto simp: integer_string_def)
    have le: "decimal 0 ?a \<le> MAX_INTEGER_HASH_NUMBER" "decimal 0 (?a @ ?b) \<le> MAX_INTEGER_HASH_NUMBER"
      using decimal_ok [of ?a] decimal_ok [of "?a @ ?b"] a 4(4) by simp_all
    have "HashIntegerString ?b (MixHashcode (decimal 0 ?a) True) = Some (MixHashcode (decimal 0 (?a @ ?b)) True)"
      using b 4(4) le MixHashcode_times_ten [OF le(1)] ascii_narrow_ok [OF digits_only_ascii, of cs]
      by (simp add: HashIntegerString_def integer_loop_digits)
    then show ?thesis
      using 4 ab digits_only_ascii [of ?b]
      by (auto simp: splice_hash_def ComputeRawHashcode_spec ComputeHashcode_seed_def hash_spec_def IsUtf8_def)
  qed
qed

end
