(* ===== verification/String_Table.thy ===== *)
theory String_Table
  imports String_Hash
begin

text \<open>
  The string table (\<open>ecmascript/ecma_string_table.cpp\<close>), which keeps one interned string per contents.
  String objects live in a heap from addresses to objects, because interning sets the flag and the cached
  hash code of the object it is given; the table is a multimap from hash codes to addresses.  Strings are
  flat, so \<open>Flatten\<close> returns its argument.
\<close>

section \<open>Definitions\<close>

record string_table =
  strings :: "nat \<Rightarrow> ecma_string"
  fresh_string :: nat
  string_map :: "(u32 \<times> nat) list"

text \<open>The loop over \<open>equal_range\<close>: the first string under the hash code that satisfies the test.\<close>

definition find_string :: "string_table \<Rightarrow> u32 \<Rightarrow> (ecma_string \<Rightarrow> bool) \<Rightarrow> nat option" where
  "find_string st hashCode matches =
     map_option snd (List.find (\<lambda>item. fst item = hashCode \<and> matches (strings st (snd item))) (string_map st))"

definition EqualToSplicedString :: "ecma_string \<Rightarrow> ecma_string \<Rightarrow> ecma_string \<Rightarrow> bool" where
  "EqualToSplicedString s str1 str2 =
     (if length (str_chars s) \<noteq> length (str_chars str1) + length (str_chars str2) then False
      else if take (length (str_chars str1)) (str_chars s) = str_chars str1
      then drop (length (str_chars str1)) (str_chars s) = str_chars str2
      else False)"

definition GetStringThreadUnsafe_spliced :: "string_table \<Rightarrow> nat \<Rightarrow> nat \<Rightarrow> nat option \<times> u32" where
  "GetStringThreadUnsafe_spliced st firstString secondString =
     (let (hashCode, isInteger) = ComputeRawHashcode (strings st firstString);
          hashCode = ComputeHashcode_seed (strings st secondString) hashCode isInteger
      in (find_string st hashCode
            (\<lambda>s. EqualToSplicedString s (strings st firstString) (strings st secondString)), hashCode))"

text \<open>With data, the flag \<open>canBeCompress\<close> says whether the new string is compressed; the comparison is one of contents.\<close>

definition GetStringThreadUnsafe_utf8 :: "string_table \<Rightarrow> u16 list \<Rightarrow> nat option \<times> u32" where
  "GetStringThreadUnsafe_utf8 st utf8Data =
     (let hashCode = ComputeHashcodeUtf8 utf8Data in
      (find_string st hashCode (\<lambda>s. IsUtf8 s \<and> str_chars s = utf8Data), hashCode))"

definition GetStringThreadUnsafe_utf16 :: "string_table \<Rightarrow> u16 list \<Rightarrow> nat option \<times> u32" where
  "GetStringThreadUnsafe_utf16 st utf16Data =
     (let hashCode = ComputeHashcodeUtf16 utf16Data in
      (find_string st hashCode (\<lambda>s. str_chars s = utf16Data), hashCode))"

definition store_string :: "string_table \<Rightarrow> nat \<Rightarrow> ecma_string \<Rightarrow> string_table" where
  "store_string st a s = st\<lparr>strings := (strings st)(a := s)\<rparr>"

definition GetStringThreadUnsafe :: "string_table \<Rightarrow> nat \<Rightarrow> nat option \<times> string_table" where
  "GetStringThreadUnsafe st a =
     (let (hashcode, s) = GetHashcode (strings st a); st = store_string st a s in
      (find_string st hashcode (\<lambda>foundString. StringsAreEqual foundString s), st))"

definition InternStringThreadUnsafe :: "string_table \<Rightarrow> nat \<Rightarrow> string_table" where
  "InternStringThreadUnsafe st a =
     (if str_interned (strings st a) then st
      else
        let (hashcode, s) = GetHashcode (strings st a)
        in (store_string st a (s\<lparr>str_interned := True\<rparr>))\<lparr>string_map := (hashcode, a) # string_map st\<rparr>)"

text \<open>\<open>CreateFromUtf8\<close>, \<open>CreateFromUtf16\<close> and \<open>Concat\<close> followed by \<open>Flatten\<close>: a new string object.\<close>

definition new_string :: "string_table \<Rightarrow> u16 list \<Rightarrow> nat \<times> string_table" where
  "new_string st cs =
     (let a = fresh_string st;
          s = \<lparr>str_addr = a, str_interned = False, str_hash = (if cs = [] then Some 0 else None), str_chars = cs\<rparr>
      in (a, (store_string st a s)\<lparr>fresh_string := a + 1\<rparr>))"

text \<open>The part shared by the variants that create the string: reuse the one found, or create, set the hash and intern.\<close>

definition get_or_create :: "string_table \<Rightarrow> nat option \<times> u32 \<Rightarrow> u16 list \<Rightarrow> nat \<times> string_table" where
  "get_or_create st result cs = (case fst result of
     Some a \<Rightarrow> (a, st)
   | None \<Rightarrow>
       let (a, st) = new_string st cs;
           st = store_string st a (SetMixHashcode (strings st a) (snd result))
       in (a, InternStringThreadUnsafe st a))"

definition GetOrInternString_spliced :: "string_table \<Rightarrow> nat \<Rightarrow> nat \<Rightarrow> nat \<times> string_table" where
  "GetOrInternString_spliced st firstString secondString =
     get_or_create st (GetStringThreadUnsafe_spliced st firstString secondString)
       (str_chars (strings st firstString) @ str_chars (strings st secondString))"

definition GetOrInternString_utf8 :: "string_table \<Rightarrow> u16 list \<Rightarrow> nat \<times> string_table" where
  "GetOrInternString_utf8 st utf8Data = get_or_create st (GetStringThreadUnsafe_utf8 st utf8Data) utf8Data"

definition GetOrInternString_utf16 :: "string_table \<Rightarrow> u16 list \<Rightarrow> nat \<times> string_table" where
  "GetOrInternString_utf16 st utf16Data = get_or_create st (GetStringThreadUnsafe_utf16 st utf16Data) utf16Data"

definition GetOrInternString :: "string_table \<Rightarrow> nat \<Rightarrow> nat \<times> string_table" where
  "GetOrInternString st a =
     (if str_interned (strings st a) then (a, st)
      else case GetStringThreadUnsafe st a of
          (Some b, st') \<Rightarrow> (b, st')
        | (None, st') \<Rightarrow> (a, InternStringThreadUnsafe st' a))"

section \<open>Invariant\<close>

text \<open>Every string object knows its address and caches the right hash code if any; the interned ones are
  exactly those of the table, each under its hash code, and no two of them have the same contents.\<close>

definition string_ok :: "nat \<Rightarrow> ecma_string \<Rightarrow> bool" where
  "string_ok a s \<longleftrightarrow> str_addr s = a \<and> hash_cached_ok s"

definition table_inv :: "string_table \<Rightarrow> bool" where
  "table_inv st \<longleftrightarrow>
     (\<forall>a < fresh_string st. string_ok a (strings st a)) \<and>
     (\<forall>(h, a) \<in> set (string_map st). a < fresh_string st \<and> h = hash_spec (str_chars (strings st a))) \<and>
     (\<forall>a < fresh_string st. str_interned (strings st a) \<longleftrightarrow> a \<in> snd ` set (string_map st)) \<and>
     inj_on (\<lambda>a. str_chars (strings st a)) (snd ` set (string_map st))"

text \<open>The abstract table: from contents to the address of the interned string.\<close>

definition interned_as :: "string_table \<Rightarrow> u16 list \<rightharpoonup> nat" where
  "interned_as st = map_of (map (\<lambda>(h, a). (str_chars (strings st a), a)) (string_map st))"

lemma table_inv_item:
  assumes "table_inv st" "(h, a) \<in> set (string_map st)"
  shows "a < fresh_string st" "h = hash_spec (str_chars (strings st a))" "str_interned (strings st a)"
proof -
  show *: "a < fresh_string st" "h = hash_spec (str_chars (strings st a))"
    using assms unfolding table_inv_def by blast+
  have "a \<in> snd ` set (string_map st)" using imageI [OF assms(2), of snd] by simp
  then show "str_interned (strings st a)" using assms(1) * unfolding table_inv_def by blast
qed

lemma table_inv_interned:
  assumes "table_inv st" "a < fresh_string st" "str_interned (strings st a)"
  shows "(hash_spec (str_chars (strings st a)), a) \<in> set (string_map st)"
proof -
  have "a \<in> snd ` set (string_map st)" using assms unfolding table_inv_def by blast
  then obtain h where "(h, a) \<in> set (string_map st)" by auto
  then show ?thesis using table_inv_item(2) [OF assms(1)] by metis
qed

lemma table_inv_unique:
  assumes "table_inv st" "(h, a) \<in> set (string_map st)" "(k, b) \<in> set (string_map st)"
    "str_chars (strings st a) = str_chars (strings st b)"
  shows "a = b"
  using assms imageI [OF assms(2), of snd] imageI [OF assms(3), of snd] unfolding table_inv_def inj_on_def by auto

lemma interned_as_Some:
  assumes "table_inv st"
  shows "interned_as st cs = Some a \<longleftrightarrow>
    a < fresh_string st \<and> str_interned (strings st a) \<and> str_chars (strings st a) = cs"
proof
  assume "interned_as st cs = Some a"
  then have "(cs, a) \<in> set (map (\<lambda>(h, a). (str_chars (strings st a), a)) (string_map st))"
    unfolding interned_as_def by (rule map_of_SomeD)
  then obtain h where "(h, a) \<in> set (string_map st)" "cs = str_chars (strings st a)" by auto
  then show "a < fresh_string st \<and> str_interned (strings st a) \<and> str_chars (strings st a) = cs"
    using table_inv_item [OF assms] by blast
next
  assume a: "a < fresh_string st \<and> str_interned (strings st a) \<and> str_chars (strings st a) = cs"
  then have mem: "(hash_spec cs, a) \<in> set (string_map st)" using table_inv_interned [OF assms] by blast
  have "(cs, a) \<in> set (map (\<lambda>(h, a). (str_chars (strings st a), a)) (string_map st))"
    unfolding set_map by (rule image_eqI [OF _ mem]) (use a in simp)
  then obtain b where b: "interned_as st cs = Some b" unfolding interned_as_def by (blast dest: weak_map_of_SomeI)
  then have "(cs, b) \<in> set (map (\<lambda>(h, a). (str_chars (strings st a), a)) (string_map st))"
    unfolding interned_as_def by (rule map_of_SomeD)
  then obtain h where "(h, b) \<in> set (string_map st)" "str_chars (strings st b) = cs" by auto
  then have "a = b" using table_inv_unique [OF assms mem] a by simp
  then show "interned_as st cs = Some a" using b by simp
qed

lemma interned_as_None:
  "table_inv st \<Longrightarrow> interned_as st cs = None \<longleftrightarrow>
    (\<forall>a < fresh_string st. str_interned (strings st a) \<longrightarrow> str_chars (strings st a) \<noteq> cs)"
  using interned_as_Some [of st cs] by (metis not_None_eq)

text \<open>What the table guarantees is what the comparison of tagged values relies on.\<close>

lemma table_heap_consistent:
  assumes "table_inv st" "a < fresh_string st" "b < fresh_string st"
  shows "heap_consistent (VString (strings st a)) (VString (strings st b))"
proof -
  have ok: "string_ok a (strings st a)" "string_ok b (strings st b)" using assms by (auto simp: table_inv_def)
  moreover have "a = b" if "str_interned (strings st a)" "str_interned (strings st b)"
      "str_chars (strings st a) = str_chars (strings st b)"
    using that assms interned_as_Some [OF assms(1)] by (metis option.inject)
  ultimately show ?thesis by (auto simp: string_ok_def hash_cached_ok_def split: option.splits)
qed

section \<open>Looking up and interning\<close>

lemma find_string_spec:
  assumes "table_inv st"
    and "\<And>a. a < fresh_string st \<Longrightarrow> str_interned (strings st a) \<Longrightarrow> matches (strings st a) \<longleftrightarrow> str_chars (strings st a) = cs"
  shows "find_string st (hash_spec cs) matches = interned_as st cs"
proof (cases "List.find (\<lambda>item. fst item = hash_spec cs \<and> matches (strings st (snd item))) (string_map st)")
  case None
  have "interned_as st cs = None"
    unfolding interned_as_None [OF assms(1)]
  proof (intro allI impI notI)
    fix a assume a: "a < fresh_string st" "str_interned (strings st a)" "str_chars (strings st a) = cs"
    then have "(hash_spec cs, a) \<in> set (string_map st)" using table_inv_interned [OF assms(1)] by blast
    then show False using None a assms(2) [of a] by (force simp: find_None_iff)
  qed
  then show ?thesis using None by (simp add: find_string_def)
next
  case (Some item)
  then have i: "(fst item, snd item) \<in> set (string_map st)" "matches (strings st (snd item))"
    by (auto simp: find_Some_iff intro: nth_mem)
  then have "snd item < fresh_string st" "str_interned (strings st (snd item))"
    using table_inv_item [OF assms(1) i(1)] by blast+
  then have "interned_as st cs = Some (snd item)" using i assms interned_as_Some by blast
  then show ?thesis using Some by (simp add: find_string_def)
qed

lemma store_string_simps [simp]:
  "strings (store_string st a s) = (strings st)(a := s)" "fresh_string (store_string st a s) = fresh_string st"
  "string_map (store_string st a s) = string_map st"
  by (simp_all add: store_string_def)

lemma table_invI:
  assumes "\<And>a. a < fresh_string st \<Longrightarrow> string_ok a (strings st a)"
    and "\<And>h a. (h, a) \<in> set (string_map st) \<Longrightarrow> a < fresh_string st \<and> h = hash_spec (str_chars (strings st a))"
    and "\<And>a. a < fresh_string st \<Longrightarrow> str_interned (strings st a) \<longleftrightarrow> a \<in> snd ` set (string_map st)"
    and "\<And>h k a b. (h, a) \<in> set (string_map st) \<Longrightarrow> (k, b) \<in> set (string_map st) \<Longrightarrow>
      str_chars (strings st a) = str_chars (strings st b) \<Longrightarrow> a = b"
  shows "table_inv st"
  using assms unfolding table_inv_def inj_on_def by (auto simp: image_iff)

text \<open>Caching a hash code changes nothing else.\<close>

lemma store_string_inv:
  assumes "table_inv st" "string_ok a s" "str_chars s = str_chars (strings st a)"
    "str_interned s = str_interned (strings st a)"
  shows "table_inv (store_string st a s)" "interned_as (store_string st a s) = interned_as st"
proof -
  have chars: "str_chars (((strings st)(a := s)) b) = str_chars (strings st b)" for b using assms(3) by simp
  show "table_inv (store_string st a s)"
  proof (rule table_invI)
    show "string_ok b (strings (store_string st a s) b)" if "b < fresh_string (store_string st a s)" for b
      using that assms(1,2) by (auto simp: table_inv_def)
    show "b < fresh_string (store_string st a s) \<and> h = hash_spec (str_chars (strings (store_string st a s) b))"
      if "(h, b) \<in> set (string_map (store_string st a s))" for h b
      using that table_inv_item [OF assms(1)] chars by auto
    show "str_interned (strings (store_string st a s) b) \<longleftrightarrow> b \<in> snd ` set (string_map (store_string st a s))"
      if "b < fresh_string (store_string st a s)" for b
      using that assms(1,4) by (auto simp: table_inv_def)
    show "b = c" if "(h, b) \<in> set (string_map (store_string st a s))" "(k, c) \<in> set (string_map (store_string st a s))"
      "str_chars (strings (store_string st a s) b) = str_chars (strings (store_string st a s) c)" for h k b c
      using that table_inv_unique [OF assms(1)] chars by simp
  qed
  show "interned_as (store_string st a s) = interned_as st"
    using chars by (simp add: interned_as_def)
qed

lemma InternStringThreadUnsafe_spec:
  assumes "table_inv st" "a < fresh_string st" "interned_as st (str_chars (strings st a)) = None"
  shows "table_inv (InternStringThreadUnsafe st a)"
    and "interned_as (InternStringThreadUnsafe st a) = (interned_as st)(str_chars (strings st a) \<mapsto> a)"
proof -
  have new: "\<not> str_interned (strings st a)" using assms interned_as_None by blast
  obtain t where t: "GetHashcode (strings st a) = (hash_spec (str_chars (strings st a)), t)" "hash_cached_ok t"
      "str_chars t = str_chars (strings st a)" "str_addr t = str_addr (strings st a)"
    using GetHashcode_ok [of "strings st a"] assms by (auto simp: table_inv_def string_ok_def)
  define st' where "st' = InternStringThreadUnsafe st a"
  have st': "strings st' = (strings st)(a := t\<lparr>str_interned := True\<rparr>)" "fresh_string st' = fresh_string st"
      "string_map st' = (hash_spec (str_chars (strings st a)), a) # string_map st"
    using new t(1) by (simp_all add: st'_def InternStringThreadUnsafe_def)
  have chars: "str_chars (strings st' b) = str_chars (strings st b)" for b using st'(1) t(3) by simp
  have fresh: "str_chars (strings st b) \<noteq> str_chars (strings st a)" if "(h, b) \<in> set (string_map st)" for h b
    using that table_inv_item [OF assms(1)] assms interned_as_None by blast
  have "table_inv st'"
  proof (rule table_invI)
    have "string_ok a (t\<lparr>str_interned := True\<rparr>)"
      using t assms(1,2) by (auto simp: table_inv_def string_ok_def hash_cached_ok_def split: option.splits)
    then show "string_ok b (strings st' b)" if "b < fresh_string st'" for b
      using that assms(1) st' by (auto simp: table_inv_def)
    show "b < fresh_string st' \<and> h = hash_spec (str_chars (strings st' b))" if "(h, b) \<in> set (string_map st')" for h b
      using that table_inv_item [OF assms(1)] assms(2) chars st'(2,3) by auto
    show "str_interned (strings st' b) \<longleftrightarrow> b \<in> snd ` set (string_map st')" if "b < fresh_string st'" for b
      using that assms(1) st' by (auto simp: table_inv_def)
    show "b = c" if "(h, b) \<in> set (string_map st')" "(k, c) \<in> set (string_map st')"
      "str_chars (strings st' b) = str_chars (strings st' c)" for h k b c
      using that table_inv_unique [OF assms(1)] fresh chars st'(3) by (metis Pair_inject set_ConsD)
  qed
  moreover have "interned_as st' = (interned_as st)(str_chars (strings st a) \<mapsto> a)"
    unfolding interned_as_def st'(3) using chars by simp
  ultimately show "table_inv (InternStringThreadUnsafe st a)"
    "interned_as (InternStringThreadUnsafe st a) = (interned_as st)(str_chars (strings st a) \<mapsto> a)"
    by (simp_all add: st'_def)
qed

lemma new_string_spec:
  assumes "table_inv st" "new_string st cs = (a, st')"
  shows "table_inv st'" "interned_as st' = interned_as st" "a < fresh_string st'"
    "str_chars (strings st' a) = cs" "str_addr (strings st' a) = a" "\<not> str_interned (strings st' a)"
proof -
  let ?s = "\<lparr>str_addr = a, str_interned = False, str_hash = (if cs = [] then Some 0 else None), str_chars = cs\<rparr>"
  have a: "a = fresh_string st" and st': "strings st' = (strings st)(a := ?s)" "fresh_string st' = Suc a"
      "string_map st' = string_map st"
    using assms(2) by (auto simp: new_string_def Let_def)
  have old: "b < a" "strings st' b = strings st b" if "(h, b) \<in> set (string_map st)" for h b
    using table_inv_item(1) [OF assms(1) that] a st'(1) by auto
  have "string_ok a ?s" by (simp add: string_ok_def hash_cached_ok_def)
  moreover have "a \<notin> snd ` set (string_map st)" using old(1) by fastforce
  ultimately show "table_inv st'"
  proof (intro table_invI)
    show "b < fresh_string st' \<and> h = hash_spec (str_chars (strings st' b))" if "(h, b) \<in> set (string_map st')" for h b
      using that old [of h b] table_inv_item(2) [OF assms(1), of h b] st'(2,3) by simp
    show "b = c" if "(h, b) \<in> set (string_map st')" "(k, c) \<in> set (string_map st')"
      "str_chars (strings st' b) = str_chars (strings st' c)" for h k b c
      using that table_inv_unique [OF assms(1), of h b k c] old st'(3) by auto
  qed (use assms(1) a st' in \<open>auto simp: table_inv_def less_Suc_eq\<close>)
  show "interned_as st' = interned_as st"
    unfolding interned_as_def st'(3)
    by (rule arg_cong [where f = map_of], rule map_cong) (auto simp: old(2))
  show "a < fresh_string st'" "str_chars (strings st' a) = cs" "str_addr (strings st' a) = a"
    "\<not> str_interned (strings st' a)"
    using st' by simp_all
qed

lemma get_or_create_spec:
  assumes "table_inv st" "get_or_create st (interned_as st cs, hash_spec cs) cs = (a, st')"
  shows "table_inv st' \<and> interned_as st' = (interned_as st)(cs \<mapsto> a) \<and> (\<forall>b. interned_as st cs = Some b \<longrightarrow> b = a)"
proof (cases "interned_as st cs")
  case None
  obtain b st1 where n: "new_string st cs = (b, st1)" by (cases "new_string st cs")
  note new = new_string_spec [OF assms(1) n]
  let ?s = "SetMixHashcode (strings st1 b) (hash_spec cs)"
  have "string_ok b ?s" using new(4,5) by (simp add: string_ok_def SetMixHashcode_ok)
  then have inv: "table_inv (store_string st1 b ?s)" "interned_as (store_string st1 b ?s) = interned_as st"
    using store_string_inv [OF new(1), of b ?s] new(2) by simp_all
  have "get_or_create st (None, hash_spec cs) cs = (b, InternStringThreadUnsafe (store_string st1 b ?s) b)"
    by (simp add: get_or_create_def n)
  then have a: "a = b" "st' = InternStringThreadUnsafe (store_string st1 b ?s) b" using assms(2) None by auto
  have "b < fresh_string (store_string st1 b ?s)" "str_chars (strings (store_string st1 b ?s) b) = cs"
    using new(3,4) by simp_all
  then show ?thesis
    using InternStringThreadUnsafe_spec [OF inv(1), of b] inv(2) None unfolding a by (simp del: store_string_simps)
next
  case (Some b)
  then have "a = b" "st' = st" using assms(2) by (auto simp: get_or_create_def)
  then show ?thesis using Some assms(1) by (auto simp: fun_upd_idem)
qed

lemma GetOrInternString_spec:
  assumes "table_inv st" "b < fresh_string st" "GetOrInternString st b = (a, st')"
  shows "table_inv st' \<and> interned_as st' = (interned_as st)(str_chars (strings st b) \<mapsto> a) \<and>
    (\<forall>c. interned_as st (str_chars (strings st b)) = Some c \<longrightarrow> c = a)"
proof (cases "str_interned (strings st b)")
  case True
  then have "interned_as st (str_chars (strings st b)) = Some b" using interned_as_Some assms by blast
  moreover have "a = b" "st' = st" using True assms(3) by (auto simp: GetOrInternString_def)
  ultimately show ?thesis using assms(1) by (auto simp: fun_upd_idem)
next
  case False
  let ?cs = "str_chars (strings st b)"
  have "hash_cached_ok (strings st b)" using assms(1,2) by (simp add: table_inv_def string_ok_def)
  from GetHashcode_ok [OF this]
  obtain t where t: "GetHashcode (strings st b) = (hash_spec ?cs, t)" "hash_cached_ok t" "str_chars t = ?cs"
      "str_addr t = str_addr (strings st b)" "str_interned t = str_interned (strings st b)" by metis
  define st1 where "st1 = store_string st b t"
  have "string_ok b t" using t assms(1,2) by (auto simp: table_inv_def string_ok_def)
  then have inv: "table_inv st1" "interned_as st1 = interned_as st"
    using store_string_inv [OF assms(1)] t by (simp_all add: st1_def)
  have b: "b < fresh_string st1" "strings st1 b = t" using assms(2) by (simp_all add: st1_def)
  have "find_string st1 (hash_spec ?cs) (\<lambda>f. StringsAreEqual f t) = interned_as st1 ?cs"
    using table_heap_consistent [OF inv(1) _ b(1)] b(2) t(3)
    by (intro find_string_spec inv(1)) (auto simp: StringsAreEqual_chars simp del: heap_consistent.simps)
  then have g: "GetStringThreadUnsafe st b = (interned_as st ?cs, st1)"
    using t(1) inv(2) by (simp add: GetStringThreadUnsafe_def st1_def)
  show ?thesis
  proof (cases "interned_as st ?cs")
    case None
    then have "a = b" "st' = InternStringThreadUnsafe st1 b"
      using assms(3) False g by (auto simp: GetOrInternString_def)
    then show ?thesis
      using InternStringThreadUnsafe_spec [OF inv(1) b(1)] None inv(2) b(2) t(3) by simp
  next
    case (Some c)
    then have "a = c" "st' = st1" using assms(3) False g by (auto simp: GetOrInternString_def)
    then show ?thesis using Some inv by (auto simp: fun_upd_idem)
  qed
qed

lemma EqualToSplicedString_chars:
  "EqualToSplicedString s a b \<longleftrightarrow> str_chars s = str_chars a @ str_chars b"
  by (auto simp: EqualToSplicedString_def) (metis append_take_drop_id)

text \<open>The operations never change the characters of a string object.\<close>

lemma get_or_create_chars:
  assumes "get_or_create st result cs = (a, st')" "b < fresh_string st"
  shows "b < fresh_string st'" "str_chars (strings st' b) = str_chars (strings st b)"
  using assms
  by (auto simp: get_or_create_def new_string_def InternStringThreadUnsafe_def GetHashcode_def Let_def
      split: option.splits if_splits prod.splits)

lemma GetOrInternString_chars:
  assumes "GetOrInternString st c = (a, st')" "b < fresh_string st"
  shows "b < fresh_string st'" "str_chars (strings st' b) = str_chars (strings st b)"
  using assms
  by (auto simp: GetOrInternString_def GetStringThreadUnsafe_def InternStringThreadUnsafe_def GetHashcode_def Let_def
      split: option.splits if_splits prod.splits)

section \<open>The contract of interning\<close>

fun run_requests :: "('s \<Rightarrow> 'r \<Rightarrow> 'a \<times> 's) \<Rightarrow> 's \<Rightarrow> 'r list \<Rightarrow> 'a list \<times> 's" where
  "run_requests intern st [] = ([], st)"
| "run_requests intern st (r # rs) =
     (let (a, st) = intern st r; (as, st) = run_requests intern st rs in (a # as, st))"

locale interning =
  fixes inv :: "'s \<Rightarrow> bool"
    and view :: "'s \<Rightarrow> 'c \<rightharpoonup> 'a"
    and contents :: "'s \<Rightarrow> 'r \<Rightarrow> 'c"
    and ok :: "'s \<Rightarrow> 'r \<Rightarrow> bool"
    and intern :: "'s \<Rightarrow> 'r \<Rightarrow> 'a \<times> 's"
  assumes intern_law: "inv st \<Longrightarrow> ok st r \<Longrightarrow> intern st r = (a, st') \<Longrightarrow>
      inv st' \<and> view st' = (view st)(contents st r \<mapsto> a) \<and> (\<forall>b. view st (contents st r) = Some b \<longrightarrow> b = a)"
    and stable_law: "intern st r = (a, st') \<Longrightarrow> ok st r' \<Longrightarrow> ok st' r' \<and> contents st' r' = contents st r'"
    and view_inj: "inv st \<Longrightarrow> view st c = Some a \<Longrightarrow> view st d = Some a \<Longrightarrow> c = d"
begin

lemma run_law:
  "inv st \<Longrightarrow> list_all (ok st) rs \<Longrightarrow> run_requests intern st rs = (as, st') \<Longrightarrow>
   inv st' \<and> length as = length rs \<and> (\<forall>i < length rs. view st' (contents st (rs ! i)) = Some (as ! i)) \<and>
   (\<forall>c a. view st c = Some a \<longrightarrow> view st' c = Some a)"
proof (induction rs arbitrary: st as)
  case (Cons r rs)
  obtain a st1 where i: "intern st r = (a, st1)" by (cases "intern st r")
  obtain bs st2 where r: "run_requests intern st1 rs = (bs, st2)" by (cases "run_requests intern st1 rs")
  have as: "as = a # bs" "st' = st2" using Cons.prems(3) i r by auto
  have law: "inv st1" "view st1 = (view st)(contents st r \<mapsto> a)" "\<forall>b. view st (contents st r) = Some b \<longrightarrow> b = a"
    using intern_law [OF _ _ i] Cons.prems(1,2) by auto
  have st: "list_all (ok st1) rs" "\<forall>r' \<in> set rs. contents st1 r' = contents st r'"
    using stable_law [OF i] Cons.prems(2) by (auto simp: list_all_iff)
  note ih = Cons.IH [OF law(1) st(1) r [folded as(2)]]
  have "view st1 c = Some b" if "view st c = Some b" for c b using that law(2,3) by auto
  then show ?case
    using ih law(2) st(2) unfolding as(1) by (auto simp: nth_Cons split: nat.split)
qed simp

text \<open>Equal contents get one address, however many requests lie between them, and different contents different ones.\<close>

lemma run_canonical:
  assumes "inv st" "list_all (ok st) rs" "run_requests intern st rs = (as, st')" "i < length rs" "j < length rs"
  shows "as ! i = as ! j \<longleftrightarrow> contents st (rs ! i) = contents st (rs ! j)"
  using run_law [OF assms(1-3)] assms(4,5) view_inj [of st'] by (metis option.inject)

end

datatype intern_request = InternString nat | InternUtf8 "u16 list" | InternUtf16 "u16 list" | InternSpliced nat nat

fun intern_step :: "string_table \<Rightarrow> intern_request \<Rightarrow> nat \<times> string_table" where
  "intern_step st (InternString a) = GetOrInternString st a"
| "intern_step st (InternUtf8 cs) = GetOrInternString_utf8 st cs"
| "intern_step st (InternUtf16 cs) = GetOrInternString_utf16 st cs"
| "intern_step st (InternSpliced a b) = GetOrInternString_spliced st a b"

fun request_chars :: "string_table \<Rightarrow> intern_request \<Rightarrow> u16 list" where
  "request_chars st (InternString a) = str_chars (strings st a)"
| "request_chars st (InternUtf8 cs) = cs"
| "request_chars st (InternUtf16 cs) = cs"
| "request_chars st (InternSpliced a b) = str_chars (strings st a) @ str_chars (strings st b)"

text \<open>The requests whose hash code is computed as the one of the string they ask for.\<close>

definition splice_ok :: "u16 list \<Rightarrow> u16 list \<Rightarrow> bool" where
  "splice_ok a b \<longleftrightarrow> a = [] \<or> b = [] \<or>
     (if integer_string a then a \<noteq> [0x30] \<and> digits_only b \<and> length (a @ b) < MAX_ELEMENT_INDEX_LEN
      else ComputeHashForData a 0 \<noteq> 0)"

fun request_ok :: "string_table \<Rightarrow> intern_request \<Rightarrow> bool" where
  "request_ok st (InternString a) \<longleftrightarrow> a < fresh_string st"
| "request_ok st (InternUtf8 cs) \<longleftrightarrow> CanBeCompressed cs"
| "request_ok st (InternUtf16 cs) \<longleftrightarrow> list_all narrow_ok (tl cs)"
| "request_ok st (InternSpliced a b) \<longleftrightarrow> a < fresh_string st \<and> b < fresh_string st \<and>
     splice_ok (str_chars (strings st a)) (str_chars (strings st b))"

lemma lookup_specs:
  assumes "table_inv st"
  shows "CanBeCompressed cs \<Longrightarrow> GetStringThreadUnsafe_utf8 st cs = (interned_as st cs, hash_spec cs)"
    and "list_all narrow_ok (tl cs) \<Longrightarrow> GetStringThreadUnsafe_utf16 st cs = (interned_as st cs, hash_spec cs)"
    and "splice_ok (str_chars (strings st a)) (str_chars (strings st b)) \<Longrightarrow>
      GetStringThreadUnsafe_spliced st a b =
        (interned_as st (str_chars (strings st a) @ str_chars (strings st b)),
         hash_spec (str_chars (strings st a) @ str_chars (strings st b)))"
proof -
  show "CanBeCompressed cs \<Longrightarrow> GetStringThreadUnsafe_utf8 st cs = (interned_as st cs, hash_spec cs)"
    by (simp add: GetStringThreadUnsafe_utf8_def ComputeHashcodeUtf8_spec Let_def)
      (rule find_string_spec [OF assms], auto simp: IsUtf8_def)
  show "list_all narrow_ok (tl cs) \<Longrightarrow> GetStringThreadUnsafe_utf16 st cs = (interned_as st cs, hash_spec cs)"
    by (simp add: GetStringThreadUnsafe_utf16_def ComputeHashcodeUtf16_spec Let_def) (rule find_string_spec [OF assms], simp)
  assume "splice_ok (str_chars (strings st a)) (str_chars (strings st b))"
  then have "splice_hash (strings st a) (strings st b) = hash_spec (str_chars (strings st a) @ str_chars (strings st b))"
    unfolding splice_ok_def by (rule splice_hash_correct)
  then show "GetStringThreadUnsafe_spliced st a b =
      (interned_as st (str_chars (strings st a) @ str_chars (strings st b)),
       hash_spec (str_chars (strings st a) @ str_chars (strings st b)))"
    using find_string_spec [OF assms, of "\<lambda>s. EqualToSplicedString s (strings st a) (strings st b)"]
    by (simp add: GetStringThreadUnsafe_spliced_def splice_hash_def EqualToSplicedString_chars case_prod_beta Let_def)
qed

interpretation string_interning: interning table_inv interned_as request_chars request_ok intern_step
proof unfold_locales
  fix st r a st'
  assume inv: "table_inv st" and ok: "request_ok st r" and i: "intern_step st r = (a, st')"
  show "table_inv st' \<and> interned_as st' = (interned_as st)(request_chars st r \<mapsto> a) \<and>
      (\<forall>b. interned_as st (request_chars st r) = Some b \<longrightarrow> b = a)"
  proof (cases r)
    case (InternString b)
    then show ?thesis using GetOrInternString_spec [OF inv, of b a st'] ok i by simp
  next
    case (InternUtf8 cs)
    then show ?thesis
      using get_or_create_spec [OF inv, of cs a st'] lookup_specs(1) [OF inv, of cs] ok i
      by (simp add: GetOrInternString_utf8_def)
  next
    case (InternUtf16 cs)
    then show ?thesis
      using get_or_create_spec [OF inv, of cs a st'] lookup_specs(2) [OF inv, of cs] ok i
      by (simp add: GetOrInternString_utf16_def)
  next
    case (InternSpliced b c)
    then show ?thesis
      using get_or_create_spec [OF inv, of "str_chars (strings st b) @ str_chars (strings st c)" a st']
        lookup_specs(3) [OF inv, of b c] ok i
      by (simp add: GetOrInternString_spliced_def)
  qed
next
  fix st r a st' r'
  assume i: "intern_step st r = (a, st')" and ok: "request_ok st r'"
  have "b < fresh_string st' \<and> str_chars (strings st' b) = str_chars (strings st b)" if "b < fresh_string st" for b
    using i that get_or_create_chars GetOrInternString_chars
    by (cases r) (auto simp: GetOrInternString_utf8_def GetOrInternString_utf16_def GetOrInternString_spliced_def)
  then show "request_ok st' r' \<and> request_chars st' r' = request_chars st r'"
    using ok by (cases r') auto
next
  show "table_inv st \<Longrightarrow> interned_as st c = Some a \<Longrightarrow> interned_as st d = Some a \<Longrightarrow> c = d" for st c a d
    using interned_as_Some by metis
qed

end
