(* ===== verification/Hash_Keys.thy ===== *)
theory Hash_Keys
  imports String_Table
begin

text \<open>
  Hashing of the keys of \<open>Map\<close> and \<open>Set\<close> (\<open>LinkedHash::Hash\<close> of \<open>ecmascript/linked_hash_table.cpp\<close>): strings and
  symbols by their hash field, objects by their identity hash, BigInts by their lowest digit, everything
  else by its 64 raw bits after a double with the value of an \<open>int32\<close> was turned into one.  The hash of the
  bytes (\<open>GetHash32\<close> of the base library), the identity hash of an object once it has one, and
  \<open>GetPowerOfTwoValue32\<close> of the base library, which the tables use, are parameters.  Caching the hash code
  in a string key changes no comparison and is left out.
\<close>

section \<open>Definitions\<close>

record hash_env =
  GetHash32 :: "u8 list \<Rightarrow> u32"
  identity_hash :: "nat \<Rightarrow> u32"
  GetPowerOfTwoValue32 :: "u32 \<Rightarrow> u32"

definition TAG_INT :: u64 where
  "TAG_INT = push_bit 48 0xFFFF"

definition DOUBLE_ENCODE_OFFSET :: u64 where
  "DOUBLE_ENCODE_OFFSET = push_bit 48 1"

fun GetRawData :: "JSTaggedValue \<Rightarrow> u64" where
  "GetRawData VHole = 0x05"
| "GetRawData VUndefined = 0x02"
| "GetRawData VNull = 0x03"
| "GetRawData VTrue = 0x07"
| "GetRawData VFalse = 0x06"
| "GetRawData VException = 0x0A"
| "GetRawData (VInt i) = scast i OR TAG_INT"
| "GetRawData (VDouble d) = d + DOUBLE_ENCODE_OFFSET"
| "GetRawData (VString s) = word_of_nat (str_addr s)"
| "GetRawData (VBigInt a b) = word_of_nat a"
| "GetRawData (VSymbol a h) = word_of_nat a"
| "GetRawData (VObject a) = word_of_nat a"

text \<open>The bytes of a word in memory, lowest first.\<close>

definition word_bytes :: "nat \<Rightarrow> 'a::len word \<Rightarrow> u8 list" where
  "word_bytes n w = map (\<lambda>i. ucast (drop_bit (8 * i) w)) [0..<n]"

text \<open>
  \<open>static_cast<int32_t>\<close> of a double drops the fraction; outside of the range of \<open>int32_t\<close> the result is
  unspecified, but never equal to the double.
\<close>

definition double_to_int32 :: "u64 \<Rightarrow> u32" where
  "double_to_int32 d =
     (let n = int (dmag d div 2 ^ 1074); v = (if dneg d then - n else n) in
      if isfinite d \<and> - (2 ^ 31) \<le> v \<and> v < 2 ^ 31 then word_of_int v else push_bit 31 1)"

definition TryCastDoubleToInt32 :: "u64 \<Rightarrow> JSTaggedValue" where
  "TryCastDoubleToInt32 d =
     (if \<not> double_eq (int_to_double (double_to_int32 d)) d then VDouble d else VInt (double_to_int32 d))"

definition LinkedHash_Hash :: "hash_env \<Rightarrow> JSTaggedValue \<Rightarrow> u32" where
  "LinkedHash_Hash env key = (case key of
     VSymbol a h \<Rightarrow> h
   | VString s \<Rightarrow> fst (GetHashcode s)
   | VObject a \<Rightarrow> identity_hash env a
   | VBigInt a b \<Rightarrow> GetHash32 env (word_bytes 4 (GetDigit b 0))
   | VDouble d \<Rightarrow> GetHash32 env (word_bytes 8 (GetRawData (TryCastDoubleToInt32 d)))
   | _ \<Rightarrow> GetHash32 env (word_bytes 8 (GetRawData key)))"

section \<open>Keys\<close>

text \<open>
  The keys of a program: strings of the string heap, canonical BigInts, the one NaN the runtime computes
  with, and no Hole, which marks a removed entry.
\<close>

definition NAN_BITS :: u64 where
  "NAN_BITS = 0x7FF8000000000000"

fun key_ok :: "string_table \<Rightarrow> JSTaggedValue \<Rightarrow> bool" where
  "key_ok st VHole \<longleftrightarrow> False"
| "key_ok st (VDouble d) \<longleftrightarrow> (isnan d \<longrightarrow> d = NAN_BITS)"
| "key_ok st (VBigInt a b) \<longleftrightarrow> bigint_wf b"
| "key_ok st (VString s) \<longleftrightarrow> str_addr s < fresh_string st \<and> strings st (str_addr s) = s"
| "key_ok st _ \<longleftrightarrow> True"

definition valid_keys :: "string_table \<Rightarrow> JSTaggedValue set" where
  "valid_keys st = {x. table_inv st \<and> key_ok st x}"

lemma valid_keys_consistent: "x \<in> valid_keys st \<Longrightarrow> y \<in> valid_keys st \<Longrightarrow> heap_consistent x y"
  using table_heap_consistent [of st]
  by (cases x; cases y) (auto simp: valid_keys_def simp del: heap_consistent.simps(1), metis)

lemma SameValueZero_spec:
  assumes "heap_consistent x y"
  shows "JSTaggedValue_SameValueZero x y \<longleftrightarrow> same_value_zero_spec x y"
proof (cases "IsNumber x \<and> IsNumber y")
  case False
  then show ?thesis using not_number_equality(2) [OF assms False] by (auto simp: same_value_zero_spec_def)
qed (simp add: SameValueZero_numbers same_value_zero_spec_def)

lemmas same_value_zero_defs = same_value_zero_spec_def same_value_spec_def

lemma same_value_zero_refl: "same_value_zero_spec x x"
  by (cases x) (simp_all add: same_value_zero_defs)

lemma same_value_zero_sym: "same_value_zero_spec x y \<Longrightarrow> same_value_zero_spec y x"
  by (cases x; cases y) (auto simp: same_value_zero_defs simp del: number_value.simps)

lemma same_value_zero_trans:
  "same_value_zero_spec x y \<Longrightarrow> same_value_zero_spec y z \<Longrightarrow> same_value_zero_spec x z"
  by (cases x; cases y; simp add: same_value_zero_defs del: number_value.simps;
      cases z; simp add: same_value_zero_defs del: number_value.simps)

section \<open>Equal keys have equal hash codes\<close>

lemma int_value: "bits_value (int_to_double i) = Finite (sint i < 0) (sint i * 2 ^ 1074)"
  by (simp add: bits_value_def int_to_double_exact finite_not_nan del: power_numeral)

lemma finite_value_eq:
  "forget_zero_sign (Finite n v) = forget_zero_sign (bits_value d) \<longleftrightarrow> isfinite d \<and> dscaled d = v"
  by (auto simp: bits_value_def finite_not_nan)

lemma int_double_eq:
  "double_eq (int_to_double i) d \<longleftrightarrow> isfinite d \<and> dscaled d = sint i * 2 ^ 1074"
proof -
  have "double_eq (int_to_double i) d \<longleftrightarrow>
      forget_zero_sign (bits_value (int_to_double i)) = forget_zero_sign (bits_value d)"
    using forget_zero_sign_bits [of "int_to_double i" d] int_to_double_exact(1) finite_not_nan by blast
  then show ?thesis unfolding int_value finite_value_eq .
qed

lemma double_to_int32_exact:
  assumes "isfinite d" "dscaled d = sint i * 2 ^ 1074"
  shows "double_to_int32 d = i"
proof -
  have s: "sint i < 2 ^ 31" "- (2 ^ 31) \<le> sint i" using sint_lt [of i] sint_ge [of i] by simp_all
  have "int (dmag d) = \<bar>dscaled d\<bar>" by (simp add: dscaled_def)
  then have "int (dmag d) = \<bar>sint i\<bar> * 2 ^ 1074" unfolding assms(2) abs_mult by (simp del: power_numeral)
  then have "int (dmag d div 2 ^ 1074) = \<bar>sint i\<bar>"
    unfolding zdiv_int of_nat_power of_nat_numeral by (simp only: nonzero_mult_div_cancel_right) simp
  moreover have "dneg d \<longleftrightarrow> sint i < 0" if "sint i \<noteq> 0"
    using that assms(2) dneg_scaled [of d] by (simp add: mult_less_0_iff del: power_numeral)
  ultimately have "(if dneg d then - int (dmag d div 2 ^ 1074) else int (dmag d div 2 ^ 1074)) = sint i"
    by (cases "sint i = 0") auto
  then show ?thesis unfolding double_to_int32_def Let_def using s assms(1) by (simp only:) simp
qed

lemma TryCast_int:
  "forget_zero_sign (number_value (VInt i)) = forget_zero_sign (bits_value d) \<Longrightarrow> TryCastDoubleToInt32 d = VInt i"
proof -
  assume "forget_zero_sign (number_value (VInt i)) = forget_zero_sign (bits_value d)"
  then have d: "isfinite d" "dscaled d = sint i * 2 ^ 1074"
    unfolding number_value.simps finite_value_eq by blast+
  then have "double_to_int32 d = i" by (rule double_to_int32_exact)
  then show ?thesis using d int_double_eq [of i d] by (simp add: TryCastDoubleToInt32_def)
qed

lemma TryCast_cases:
  obtains i where "TryCastDoubleToInt32 d = VInt i" "isfinite d" "dscaled d = sint i * 2 ^ 1074"
  | "TryCastDoubleToInt32 d = VDouble d" "\<not> dzero d"
proof (cases "double_eq (int_to_double (double_to_int32 d)) d")
  case True
  then show thesis
    using that(1) [of "double_to_int32 d"] int_double_eq by (simp add: TryCastDoubleToInt32_def)
next
  case False
  have "\<not> dzero d"
  proof
    assume "dzero d"
    then have "isfinite d" "dscaled d = sint (0 :: u32) * 2 ^ 1074" by (simp_all add: dzero_finite dzero_scaled)
    then show False using False double_to_int32_exact [of d 0] int_double_eq [of 0 d] by simp
  qed
  then show thesis using that(2) False by (simp add: TryCastDoubleToInt32_def)
qed

lemma TryCast_double:
  assumes "forget_zero_sign (bits_value d) = forget_zero_sign (bits_value e)"
    and "isnan d \<longrightarrow> d = NAN_BITS" "isnan e \<longrightarrow> e = NAN_BITS"
  shows "TryCastDoubleToInt32 d = TryCastDoubleToInt32 e"
proof (cases rule: TryCast_cases [of d])
  case (1 i)
  then have "forget_zero_sign (number_value (VInt i)) = forget_zero_sign (bits_value d)"
    unfolding number_value.simps finite_value_eq by blast
  then have "TryCastDoubleToInt32 e = VInt i" unfolding assms(1) by (rule TryCast_int)
  then show ?thesis using 1(1) by simp
next
  case 2
  then have "d = e"
    using assms unfolding forget_zero_sign_bits by (auto simp: double_eq_def)
  then show ?thesis by simp
qed

lemma Hash_number:
  assumes "IsNumber x" "IsNumber y" "key_ok st x" "key_ok st y"
    and "forget_zero_sign (number_value x) = forget_zero_sign (number_value y)"
  shows "LinkedHash_Hash env x = LinkedHash_Hash env y"
proof -
  let ?canon = "\<lambda>x. case x of VDouble d \<Rightarrow> TryCastDoubleToInt32 d | _ \<Rightarrow> x"
  have "LinkedHash_Hash env v = GetHash32 env (word_bytes 8 (GetRawData (?canon v)))" if "IsNumber v" for v
    using that by (cases v) (simp_all add: LinkedHash_Hash_def)
  moreover have "?canon x = ?canon y"
  proof (cases x; cases y)
    fix i j assume "x = VInt i" "y = VInt j"
    then have "dscaled (int_to_double i) = sint j * 2 ^ 1074"
      using assms(5) finite_value_eq [of "sint j < 0" "sint j * 2 ^ 1074" "int_to_double i"]
      by (simp add: int_value del: power_numeral)
    then show ?thesis
      using \<open>x = VInt i\<close> \<open>y = VInt j\<close> int_to_double_exact(3) [of i] by (auto intro: signed_word_eqI simp del: power_numeral)
  next
    fix i d assume "x = VInt i" "y = VDouble d"
    then show ?thesis using assms(5) TryCast_int [of i d] by (simp del: number_value.simps(1) forget_zero_sign.simps)
  next
    fix d i assume "x = VDouble d" "y = VInt i"
    then show ?thesis
      using assms(5) [symmetric] TryCast_int [of i d] by (simp del: number_value.simps(1) forget_zero_sign.simps)
  next
    fix d e assume "x = VDouble d" "y = VDouble e"
    then show ?thesis using assms(3-5) TryCast_double [of d e] by simp
  qed (use assms(1,2) in simp_all)
  ultimately show ?thesis using assms(1,2) by simp
qed

lemma same_hash:
  assumes "x \<in> valid_keys st" "y \<in> valid_keys st" "JSTaggedValue_SameValueZero x y"
  shows "LinkedHash_Hash env x = LinkedHash_Hash env y"
proof -
  have ok: "table_inv st" "key_ok st x" "key_ok st y" using assms by (auto simp: valid_keys_def)
  have same: "same_value_zero_spec x y"
    using assms SameValueZero_spec [OF valid_keys_consistent [OF assms(1,2)]] by simp
  show ?thesis
  proof (cases "IsNumber x \<and> IsNumber y")
    case True
    then show ?thesis using Hash_number [of x y st env] ok same by (simp add: same_value_zero_spec_def)
  next
    case False
    then have s: "same_value_spec x y" using same by (simp add: same_value_zero_spec_def)
    have str: "fst (GetHashcode s) = hash_spec (str_chars s)" if "key_ok st (VString s)" for s
    proof -
      have "string_ok (str_addr s) (strings st (str_addr s))" using ok(1) that by (auto simp: table_inv_def)
      then have "hash_cached_ok s" using that by (simp add: string_ok_def)
      then show ?thesis using GetHashcode_ok by (metis fst_conv)
    qed
    have big: "GetDigit b 0 = GetDigit c 0" if "bigint_wf b" "bigint_wf c" "bval b = bval c" for b c
    proof -
      have "Equal b c" "GetLength b \<noteq> 0" using that Equal_bval by (auto simp: bigint_wf_def GetLength_def)
      then show ?thesis by (simp add: Equal_def)
    qed
    consider (same) "x = y" | (string) t u where "x = VString t" "y = VString u" "str_chars t = str_chars u"
      | (bigint) a b c d where "x = VBigInt a b" "y = VBigInt c d" "bval b = bval d"
      using s False unfolding same_value_spec_def by (cases x; cases y) simp_all
    then show ?thesis
    proof cases
      case (string t u)
      then show ?thesis using str [of t] str [of u] ok(2,3) by (simp add: LinkedHash_Hash_def)
    next
      case (bigint a b c d)
      then show ?thesis using big [of b d] ok(2,3) by (simp add: LinkedHash_Hash_def)
    qed simp
  qed
qed

section \<open>The contract of hashed keys\<close>

text \<open>
  What a hash table needs of the comparison and the hash of its keys, and what follows for a list of keys
  of which no two are the same: at most one of them matches a given key.
\<close>

locale hashed_keys =
  fixes keys :: "'k set"
    and same :: "'k \<Rightarrow> 'k \<Rightarrow> bool"
    and hash :: "'k \<Rightarrow> 'h"
  assumes refl_law: "x \<in> keys \<Longrightarrow> same x x"
    and sym_law: "x \<in> keys \<Longrightarrow> y \<in> keys \<Longrightarrow> same x y \<Longrightarrow> same y x"
    and trans_law: "x \<in> keys \<Longrightarrow> y \<in> keys \<Longrightarrow> z \<in> keys \<Longrightarrow> same x y \<Longrightarrow> same y z \<Longrightarrow> same x z"
    and hash_law: "x \<in> keys \<Longrightarrow> y \<in> keys \<Longrightarrow> same x y \<Longrightarrow> hash x = hash y"
begin

lemma match_unique:
  assumes "k \<in> keys" "x \<in> keys" "y \<in> keys" "same k x" "same k y"
  shows "same x y"
  using assms sym_law trans_law by blast

end

interpretation map_keys: hashed_keys "valid_keys st" JSTaggedValue_SameValueZero "LinkedHash_Hash env" for st env
proof unfold_locales
  have spec: "x \<in> valid_keys st \<Longrightarrow> y \<in> valid_keys st \<Longrightarrow> JSTaggedValue_SameValueZero x y \<longleftrightarrow> same_value_zero_spec x y" for x y
    using SameValueZero_spec [OF valid_keys_consistent] by blast
  fix x y z assume k: "x \<in> valid_keys st"
  show "JSTaggedValue_SameValueZero x x" using spec [OF k k] same_value_zero_refl by simp
  assume y: "y \<in> valid_keys st" "JSTaggedValue_SameValueZero x y"
  show "JSTaggedValue_SameValueZero y x" using spec [OF k y(1)] spec [OF y(1) k] y(2) same_value_zero_sym by simp
  show "LinkedHash_Hash env x = LinkedHash_Hash env y" using k y by (rule same_hash)
  assume z: "z \<in> valid_keys st" "JSTaggedValue_SameValueZero y z"
  show "JSTaggedValue_SameValueZero x z"
    using spec [OF k y(1)] spec [OF y(1) z(1)] spec [OF k z(1)] y(2) z(2) same_value_zero_trans by simp
qed

end
