(* ===== verification/Linked_Hash_Table.thy ===== *)
theory Linked_Hash_Table
  imports Hash_Keys Tagged_Array
begin

text \<open>
  The hash table that keeps insertion order (\<open>ecmascript/linked_hash_table.h\<close> and \<open>.cpp\<close>), which \<open>Map\<close> and \<open>Set\<close>
  are built on.  A table is one array: four header slots (numbers of live and of deleted entries, capacity,
  the table that replaced this one), one slot per bucket, then the entries in the order of insertion, each
  with the index of the next entry of its bucket.  Removing an entry leaves a Hole in it; growing copies
  the live entries to a new table, links the old table to it and leaves in the removed entries of the old
  one how many were removed up to there, so that an iterator can find its place again.

  C++ \<open>int\<close>s are mathematical integers, turned into 32 bits where they are stored or used as an index;
  \<open>table_limit\<close> bounds the capacity so that they never overflow.  No value is a weak reference: the
  variants for \<open>WeakMap\<close> and \<open>WeakSet\<close> are left out.
\<close>

section \<open>Layout\<close>

record hash_object =
  ENTRY_SIZE :: nat
  ENTRY_VALUE_INDEX :: nat

definition LinkedHashMapObject :: hash_object where
  "LinkedHashMapObject = \<lparr>ENTRY_SIZE = 2, ENTRY_VALUE_INDEX = 1\<rparr>"

definition LinkedHashSetObject :: hash_object where
  "LinkedHashSetObject = \<lparr>ENTRY_SIZE = 1, ENTRY_VALUE_INDEX = 0\<rparr>"

definition HASH_MIN_CAPACITY :: int where "HASH_MIN_CAPACITY = 4"
definition NUMBER_OF_ELEMENTS_INDEX :: int where "NUMBER_OF_ELEMENTS_INDEX = 0"
definition NUMBER_OF_DELETED_ELEMENTS_INDEX :: int where "NUMBER_OF_DELETED_ELEMENTS_INDEX = 1"
definition HASH_CAPACITY_INDEX :: int where "HASH_CAPACITY_INDEX = 2"
definition NEXT_TABLE_INDEX :: int where "NEXT_TABLE_INDEX = 3"
definition HASH_ELEMENTS_START_INDEX :: int where "HASH_ELEMENTS_START_INDEX = 4"
definition MIN_SHRINK_CAPACITY :: int where "MIN_SHRINK_CAPACITY = 16"

lemmas hash_index_defs = NUMBER_OF_ELEMENTS_INDEX_def NUMBER_OF_DELETED_ELEMENTS_INDEX_def
  HASH_CAPACITY_INDEX_def NEXT_TABLE_INDEX_def HASH_ELEMENTS_START_INDEX_def

fun GetInt :: "JSTaggedValue \<Rightarrow> int option" where
  "GetInt (VInt i) = Some (sint i)"
| "GetInt _ = None"

definition JSTaggedValue_int :: "int \<Rightarrow> JSTaggedValue" where
  "JSTaggedValue_int v = VInt (word_of_int v)"

definition GetElement :: "tagged_array \<Rightarrow> int \<Rightarrow> JSTaggedValue option" where
  "GetElement t index = TaggedArray_Get t (word_of_int index)"

definition SetElement :: "tagged_array \<Rightarrow> int \<Rightarrow> JSTaggedValue \<Rightarrow> tagged_array option" where
  "SetElement t index element = TaggedArray_Set t (word_of_int index) element"

definition NumberOfElements :: "tagged_array \<Rightarrow> int option" where
  "NumberOfElements t = do { v \<leftarrow> GetElement t NUMBER_OF_ELEMENTS_INDEX; GetInt v }"

definition NumberOfDeletedElements :: "tagged_array \<Rightarrow> int option" where
  "NumberOfDeletedElements t = do { v \<leftarrow> GetElement t NUMBER_OF_DELETED_ELEMENTS_INDEX; GetInt v }"

definition Capacity :: "tagged_array \<Rightarrow> int option" where
  "Capacity t = do { v \<leftarrow> GetElement t HASH_CAPACITY_INDEX; GetInt v }"

definition SetNumberOfElements :: "tagged_array \<Rightarrow> int \<Rightarrow> tagged_array option" where
  "SetNumberOfElements t nof = SetElement t NUMBER_OF_ELEMENTS_INDEX (JSTaggedValue_int nof)"

definition SetNumberOfDeletedElements :: "tagged_array \<Rightarrow> int \<Rightarrow> tagged_array option" where
  "SetNumberOfDeletedElements t nod = SetElement t NUMBER_OF_DELETED_ELEMENTS_INDEX (JSTaggedValue_int nod)"

definition HashTable_SetCapacity :: "tagged_array \<Rightarrow> int \<Rightarrow> tagged_array option" where
  "HashTable_SetCapacity t capacity = SetElement t HASH_CAPACITY_INDEX (JSTaggedValue_int capacity)"

definition GetNextTable :: "tagged_array \<Rightarrow> JSTaggedValue option" where
  "GetNextTable t = GetElement t NEXT_TABLE_INDEX"

definition SetNextTable :: "tagged_array \<Rightarrow> JSTaggedValue \<Rightarrow> tagged_array option" where
  "SetNextTable t nextTable = SetElement t NEXT_TABLE_INDEX nextTable"

definition EntryToIndex :: "hash_object \<Rightarrow> tagged_array \<Rightarrow> int \<Rightarrow> int option" where
  "EntryToIndex ho t entry = do {
     capacity \<leftarrow> Capacity t;
     Some (HASH_ELEMENTS_START_INDEX + capacity + entry * int (ENTRY_SIZE ho + 1))
   }"

definition GetKey :: "hash_object \<Rightarrow> tagged_array \<Rightarrow> int \<Rightarrow> JSTaggedValue option" where
  "GetKey ho t entry = do { index \<leftarrow> EntryToIndex ho t entry; GetElement t index }"

definition GetValue :: "hash_object \<Rightarrow> tagged_array \<Rightarrow> int \<Rightarrow> JSTaggedValue option" where
  "GetValue ho t entry = do { index \<leftarrow> EntryToIndex ho t entry; GetElement t (index + int (ENTRY_VALUE_INDEX ho)) }"

definition SetKey :: "hash_object \<Rightarrow> tagged_array \<Rightarrow> int \<Rightarrow> JSTaggedValue \<Rightarrow> tagged_array option" where
  "SetKey ho t entry key = do { index \<leftarrow> EntryToIndex ho t entry; SetElement t index key }"

definition SetValue :: "hash_object \<Rightarrow> tagged_array \<Rightarrow> int \<Rightarrow> JSTaggedValue \<Rightarrow> tagged_array option" where
  "SetValue ho t entry v = do { index \<leftarrow> EntryToIndex ho t entry; SetElement t (index + int (ENTRY_VALUE_INDEX ho)) v }"

definition GetNextEntry :: "hash_object \<Rightarrow> tagged_array \<Rightarrow> int \<Rightarrow> JSTaggedValue option" where
  "GetNextEntry ho t entry = do { index \<leftarrow> EntryToIndex ho t entry; GetElement t (index + int (ENTRY_SIZE ho)) }"

definition SetNextEntry :: "hash_object \<Rightarrow> tagged_array \<Rightarrow> int \<Rightarrow> JSTaggedValue \<Rightarrow> tagged_array option" where
  "SetNextEntry ho t entry nextEntry = do {
     index \<leftarrow> EntryToIndex ho t entry;
     SetElement t (index + int (ENTRY_SIZE ho)) nextEntry
   }"

definition IsKey :: "JSTaggedValue \<Rightarrow> bool" where
  "IsKey key \<longleftrightarrow> key \<noteq> VHole"

definition HashToBucket :: "tagged_array \<Rightarrow> u32 \<Rightarrow> u32 option" where
  "HashToBucket t hash = do { capacity \<leftarrow> Capacity t; Some (hash AND word_of_int (capacity - 1)) }"

definition BucketToIndex :: "u32 \<Rightarrow> u32" where
  "BucketToIndex bucket = bucket + word_of_int HASH_ELEMENTS_START_INDEX"

definition InsertNewEntry :: "hash_object \<Rightarrow> tagged_array \<Rightarrow> u32 \<Rightarrow> int \<Rightarrow> tagged_array option" where
  "InsertNewEntry ho t bucket entry = do {
     let bucketIndex = sint (BucketToIndex bucket);
     previousEntry \<leftarrow> GetElement t bucketIndex;
     t \<leftarrow> SetNextEntry ho t entry previousEntry;
     SetElement t bucketIndex (JSTaggedValue_int entry)
   }"

definition GetDeletedNum :: "hash_object \<Rightarrow> tagged_array \<Rightarrow> int \<Rightarrow> int option" where
  "GetDeletedNum ho t entry = do { v \<leftarrow> GetNextEntry ho t entry; GetInt v }"

definition SetDeletedNum :: "hash_object \<Rightarrow> tagged_array \<Rightarrow> int \<Rightarrow> JSTaggedValue \<Rightarrow> tagged_array option" where
  "SetDeletedNum ho t entry num = SetNextEntry ho t entry num"

section \<open>Operations on one table\<close>

definition HasSufficientCapacity :: "tagged_array \<Rightarrow> int \<Rightarrow> bool option" where
  "HasSufficientCapacity t numOfAddElements = do {
     numberOfElements \<leftarrow> NumberOfElements t;
     numOfDelElements \<leftarrow> NumberOfDeletedElements t;
     capacity \<leftarrow> Capacity t;
     let nof = numberOfElements + numOfAddElements;
     Some (nof < capacity \<and> numOfDelElements \<le> (capacity - nof) div 2 \<and>
           (let neededFree = nof div 2 in nof + neededFree \<le> capacity))
   }"

text \<open>The loop of \<open>FindElement\<close> along the chain of a bucket.\<close>

partial_function (option) find_loop :: "hash_object \<Rightarrow> tagged_array \<Rightarrow> JSTaggedValue \<Rightarrow> JSTaggedValue \<Rightarrow> int option" where
  "find_loop ho t key entry =
     (if entry = VHole then Some (- 1)
      else do {
        e \<leftarrow> GetInt entry;
        element \<leftarrow> GetKey ho t e;
        if element \<noteq> VHole \<and> JSTaggedValue_SameValueZero key element then Some e
        else do { nextEntry \<leftarrow> GetNextEntry ho t e; find_loop ho t key nextEntry }
      })"

definition FindElement :: "hash_env \<Rightarrow> hash_object \<Rightarrow> tagged_array \<Rightarrow> JSTaggedValue \<Rightarrow> int option" where
  "FindElement env ho t key =
     (if \<not> IsKey key then Some (- 1)
      else do {
        let hash = LinkedHash_Hash env key;
        bucket \<leftarrow> HashToBucket t hash;
        entry \<leftarrow> GetElement t (sint (BucketToIndex bucket));
        find_loop ho t key entry
      })"

fun fill_entry :: "nat \<Rightarrow> tagged_array \<Rightarrow> int \<Rightarrow> tagged_array option" where
  "fill_entry 0 t index = Some t"
| "fill_entry (Suc c) t index = do { t \<leftarrow> SetElement t index VHole; fill_entry c t (index + 1) }"

definition RemoveEntry :: "hash_object \<Rightarrow> tagged_array \<Rightarrow> int \<Rightarrow> tagged_array option" where
  "RemoveEntry ho t entry = do {
     index \<leftarrow> EntryToIndex ho t entry;
     t \<leftarrow> fill_entry (ENTRY_SIZE ho) t index;
     n \<leftarrow> NumberOfElements t;
     t \<leftarrow> SetNumberOfElements t (n - 1);
     d \<leftarrow> NumberOfDeletedElements t;
     SetNumberOfDeletedElements t (d + 1)
   }"

definition ComputeCapacity :: "hash_env \<Rightarrow> u32 \<Rightarrow> int" where
  "ComputeCapacity env atLeastSpaceFor =
     (let rawCap = atLeastSpaceFor + drop_bit 1 atLeastSpaceFor;
          capacity = sint (GetPowerOfTwoValue32 env rawCap)
      in if capacity > HASH_MIN_CAPACITY then capacity else HASH_MIN_CAPACITY)"

definition ComputeCapacityWithShrink :: "hash_env \<Rightarrow> int \<Rightarrow> int \<Rightarrow> int" where
  "ComputeCapacityWithShrink env currentCapacity atLeastSpaceFor =
     (if atLeastSpaceFor > currentCapacity div 4 then currentCapacity
      else
        let newCapacity = ComputeCapacity env (word_of_int atLeastSpaceFor)
        in if newCapacity < MIN_SHRINK_CAPACITY then currentCapacity else newCapacity)"

text \<open>The loop of \<open>GetDeletedElementsAt\<close>, counting entries down.\<close>

fun deleted_loop :: "hash_object \<Rightarrow> tagged_array \<Rightarrow> nat \<Rightarrow> int option" where
  "deleted_loop ho t 0 = Some 0"
| "deleted_loop ho t (Suc currentEntry) = do {
     key \<leftarrow> GetKey ho t (int currentEntry);
     if key = VHole then GetDeletedNum ho t (int currentEntry) else deleted_loop ho t currentEntry
   }"

definition GetDeletedElementsAt :: "hash_object \<Rightarrow> tagged_array \<Rightarrow> int \<Rightarrow> int option" where
  "GetDeletedElementsAt ho t entry = do {
     n \<leftarrow> NumberOfDeletedElements t;
     if n = - 1 then Some entry else deleted_loop ho t (nat entry)
   }"

text \<open>\<open>Rehash\<close> writes to both tables.\<close>

fun copy_slots :: "nat \<Rightarrow> tagged_array \<Rightarrow> int \<Rightarrow> tagged_array \<Rightarrow> int \<Rightarrow> tagged_array option" where
  "copy_slots 0 newTable desIndex t fromIndex = Some newTable"
| "copy_slots (Suc c) newTable desIndex t fromIndex = do {
     v \<leftarrow> GetElement t fromIndex;
     newTable \<leftarrow> SetElement newTable desIndex v;
     copy_slots c newTable (desIndex + 1) t (fromIndex + 1)
   }"

fun rehash_loop :: "hash_env \<Rightarrow> hash_object \<Rightarrow> nat \<Rightarrow> int \<Rightarrow> tagged_array \<Rightarrow> tagged_array \<Rightarrow> int \<Rightarrow> int \<Rightarrow>
    (tagged_array \<times> tagged_array) option" where
  "rehash_loop env ho 0 i t newTable desEntry currentDeletedElements = Some (t, newTable)"
| "rehash_loop env ho (Suc c) i t newTable desEntry currentDeletedElements = do {
     fromIndex \<leftarrow> EntryToIndex ho t i;
     key \<leftarrow> GetElement t fromIndex;
     if key = VHole then do {
       t \<leftarrow> SetDeletedNum ho t i (JSTaggedValue_int (currentDeletedElements + 1));
       rehash_loop env ho c (i + 1) t newTable desEntry (currentDeletedElements + 1)
     } else do {
       bucket \<leftarrow> HashToBucket newTable (LinkedHash_Hash env key);
       newTable \<leftarrow> InsertNewEntry ho newTable bucket desEntry;
       desIndex \<leftarrow> EntryToIndex ho newTable desEntry;
       newTable \<leftarrow> copy_slots (ENTRY_SIZE ho) newTable desIndex t fromIndex;
       rehash_loop env ho c (i + 1) t newTable (desEntry + 1) currentDeletedElements
     }
   }"

definition Rehash :: "hash_env \<Rightarrow> hash_object \<Rightarrow> tagged_array \<Rightarrow> tagged_array \<Rightarrow> JSTaggedValue \<Rightarrow>
    (tagged_array \<times> tagged_array) option" where
  "Rehash env ho t newTable newRef = do {
     n \<leftarrow> NumberOfElements t;
     d \<leftarrow> NumberOfDeletedElements t;
     t \<leftarrow> SetNextTable t newRef;
     (t, newTable) \<leftarrow> rehash_loop env ho (nat (n + d)) 0 t newTable 0 0;
     n \<leftarrow> NumberOfElements t;
     newTable \<leftarrow> SetNumberOfElements newTable n;
     newTable \<leftarrow> SetNumberOfDeletedElements newTable 0;
     Some (t, newTable)
   }"

section \<open>Operations that replace the table\<close>

text \<open>Tables live in a heap, because the old table of a rehash stays reachable from iterators.\<close>

record table_heap =
  tables :: "nat \<Rightarrow> tagged_array"
  fresh_table :: nat

definition store_table :: "table_heap \<Rightarrow> nat \<Rightarrow> tagged_array \<Rightarrow> table_heap" where
  "store_table h a t = h\<lparr>tables := (tables h)(a := t)\<rparr>"

definition LinkedHashTable_Create :: "hash_object \<Rightarrow> table_heap \<Rightarrow> int \<Rightarrow> (nat \<times> table_heap) option" where
  "LinkedHashTable_Create ho h numberOfElements = do {
     let len = HASH_ELEMENTS_START_INDEX + numberOfElements + numberOfElements * int (ENTRY_SIZE ho + 1);
     let table = NewTaggedArray (word_of_int len) VHole;
     table \<leftarrow> SetNumberOfElements table 0;
     table \<leftarrow> SetNumberOfDeletedElements table 0;
     table \<leftarrow> HashTable_SetCapacity table numberOfElements;
     Some (fresh_table h, (store_table h (fresh_table h) table)\<lparr>fresh_table := fresh_table h + 1\<rparr>)
   }"

definition replace_table :: "hash_env \<Rightarrow> hash_object \<Rightarrow> table_heap \<Rightarrow> nat \<Rightarrow> int \<Rightarrow> (nat \<times> table_heap) option" where
  "replace_table env ho h a newCapacity = do {
     (b, h) \<leftarrow> LinkedHashTable_Create ho h newCapacity;
     (t, newTable) \<leftarrow> Rehash env ho (tables h a) (tables h b) (VObject b);
     Some (b, store_table (store_table h a t) b newTable)
   }"

definition LinkedHashTable_GrowCapacity ::
    "hash_env \<Rightarrow> hash_object \<Rightarrow> table_heap \<Rightarrow> nat \<Rightarrow> int \<Rightarrow> (nat \<times> table_heap) option" where
  "LinkedHashTable_GrowCapacity env ho h a numberOfAddedElements = do {
     sufficient \<leftarrow> HasSufficientCapacity (tables h a) numberOfAddedElements;
     if sufficient then Some (a, h)
     else do {
       n \<leftarrow> NumberOfElements (tables h a);
       replace_table env ho h a (ComputeCapacity env (word_of_int (n + numberOfAddedElements)))
     }
   }"

definition LinkedHashTable_Insert :: "hash_env \<Rightarrow> hash_object \<Rightarrow> table_heap \<Rightarrow> nat \<Rightarrow> JSTaggedValue \<Rightarrow> JSTaggedValue \<Rightarrow>
    (nat \<times> table_heap) option" where
  "LinkedHashTable_Insert env ho h a key v = do {
     let hash = LinkedHash_Hash env key;
     entry \<leftarrow> FindElement env ho (tables h a) key;
     if entry \<noteq> - 1 then do {
       t \<leftarrow> SetValue ho (tables h a) entry v;
       Some (a, store_table h a t)
     } else do {
       (a, h) \<leftarrow> LinkedHashTable_GrowCapacity env ho h a 1;
       bucket \<leftarrow> HashToBucket (tables h a) hash;
       n \<leftarrow> NumberOfElements (tables h a);
       d \<leftarrow> NumberOfDeletedElements (tables h a);
       let entry = n + d;
       t \<leftarrow> InsertNewEntry ho (tables h a) bucket entry;
       t \<leftarrow> SetKey ho t entry key;
       t \<leftarrow> SetValue ho t entry v;
       n \<leftarrow> NumberOfElements t;
       t \<leftarrow> SetNumberOfElements t (n + 1);
       Some (a, store_table h a t)
     }
   }"

definition LinkedHashTable_Shrink ::
    "hash_env \<Rightarrow> hash_object \<Rightarrow> table_heap \<Rightarrow> nat \<Rightarrow> int \<Rightarrow> (nat \<times> table_heap) option" where
  "LinkedHashTable_Shrink env ho h a additionalCapacity = do {
     capacity \<leftarrow> Capacity (tables h a);
     n \<leftarrow> NumberOfElements (tables h a);
     let newCapacity = ComputeCapacityWithShrink env capacity (n + additionalCapacity);
     if newCapacity = capacity then Some (a, h) else replace_table env ho h a newCapacity
   }"

definition LinkedHashTable_Remove :: "hash_env \<Rightarrow> hash_object \<Rightarrow> table_heap \<Rightarrow> nat \<Rightarrow> JSTaggedValue \<Rightarrow>
    (nat \<times> table_heap) option" where
  "LinkedHashTable_Remove env ho h a key = do {
     entry \<leftarrow> FindElement env ho (tables h a) key;
     if entry = - 1 then Some (a, h)
     else do {
       t \<leftarrow> RemoveEntry ho (tables h a) entry;
       LinkedHashTable_Shrink env ho (store_table h a t) a 0
     }
   }"

definition LinkedHash_Get :: "hash_env \<Rightarrow> hash_object \<Rightarrow> table_heap \<Rightarrow> nat \<Rightarrow> JSTaggedValue \<Rightarrow> JSTaggedValue option" where
  "LinkedHash_Get env ho h a key = do {
     entry \<leftarrow> FindElement env ho (tables h a) key;
     if entry = - 1 then Some VUndefined else GetValue ho (tables h a) entry
   }"

definition LinkedHash_Has :: "hash_env \<Rightarrow> hash_object \<Rightarrow> table_heap \<Rightarrow> nat \<Rightarrow> JSTaggedValue \<Rightarrow> bool option" where
  "LinkedHash_Has env ho h a key = do {
     entry \<leftarrow> FindElement env ho (tables h a) key;
     Some (entry \<noteq> - 1)
   }"

definition LinkedHash_Clear :: "hash_object \<Rightarrow> table_heap \<Rightarrow> nat \<Rightarrow> (nat \<times> table_heap) option" where
  "LinkedHash_Clear ho h a = do {
     (b, h) \<leftarrow> LinkedHashTable_Create ho h HASH_MIN_CAPACITY;
     capacity \<leftarrow> Capacity (tables h a);
     if capacity > 0 then do {
       t \<leftarrow> SetNextTable (tables h a) (VObject b);
       t \<leftarrow> SetNumberOfDeletedElements t (- 1);
       Some (b, store_table h a t)
     } else Some (b, h)
   }"

end
