(* ===== verification/Ordered_Collections.thy ===== *)
theory Ordered_Collections
  imports Linked_Hash_Table
begin

text \<open>
  \<open>Map\<close> and \<open>Set\<close> objects and their iterators (\<open>ecmascript/js_map.cpp\<close>, \<open>js_set.cpp\<close>, \<open>js_map_iterator.cpp\<close>,
  \<open>js_set_iterator.cpp\<close>) and their built-in functions (\<open>builtins/builtins_map.cpp\<close>, \<open>builtins_set.cpp\<close>).

  An object refers to its table in the heap of tables; an iterator refers to the table that was current
  when it was last used, not to the object.  The code of \<open>Set\<close> repeats that of \<open>Map\<close> with another layout of
  the table, other messages, other items of an iterator and other arguments of the callback: these are the
  parameters of the common definitions.
\<close>

section \<open>State\<close>

datatype IterationKind = KEY | VALUE | KEY_AND_VALUE

record collection_iterator =
  IteratedTable :: "nat option"
  NextIndex :: u32
  iteration_kind :: IterationKind

record realm =
  table_store :: table_heap
  collections :: "nat \<rightharpoonup> nat"
  iterators :: "nat \<rightharpoonup> collection_iterator"
  fresh_object :: nat

text \<open>What an iterator yields: a value, or a new array of a key and a value.\<close>

datatype iter_item = Item JSTaggedValue | Entry JSTaggedValue JSTaggedValue

datatype call_result = Thrown string | Value JSTaggedValue | IterResult iter_item bool

record collection_class =
  layout :: hash_object
  not_a_collection :: string
  not_an_iterator :: string
  not_callable :: string
  item_at :: "IterationKind \<Rightarrow> tagged_array \<Rightarrow> int \<Rightarrow> iter_item option"
  callback_value :: "tagged_array \<Rightarrow> int \<Rightarrow> JSTaggedValue option"

definition map_item :: "IterationKind \<Rightarrow> tagged_array \<Rightarrow> int \<Rightarrow> iter_item option" where
  "map_item kind t index = do {
     key \<leftarrow> GetKey LinkedHashMapObject t index;
     if kind = KEY then Some (Item key)
     else do {
       v \<leftarrow> GetValue LinkedHashMapObject t index;
       if kind = VALUE then Some (Item v) else Some (Entry key v)
     }
   }"

definition set_item :: "IterationKind \<Rightarrow> tagged_array \<Rightarrow> int \<Rightarrow> iter_item option" where
  "set_item kind t index = do {
     key \<leftarrow> GetKey LinkedHashSetObject t index;
     if kind = VALUE \<or> kind = KEY then Some (Item key) else Some (Entry key key)
   }"

definition map_class :: collection_class where
  "map_class = \<lparr>layout = LinkedHashMapObject, not_a_collection = ''obj is not JSMap'',
     not_an_iterator = ''this value is not a map iterator'', not_callable = ''obj is not Callable'', item_at = map_item,
     callback_value = GetValue LinkedHashMapObject\<rparr>"

definition set_class :: collection_class where
  "set_class = \<lparr>layout = LinkedHashSetObject, not_a_collection = ''obj is not JSSet'',
     not_an_iterator = ''this value is not a set iterator'', not_callable = ''callbackfn is not callable'', item_at = set_item,
     callback_value = GetKey LinkedHashSetObject\<rparr>"

section \<open>Operations of the objects\<close>

definition replace_linked :: "realm \<Rightarrow> nat \<Rightarrow> nat \<times> table_heap \<Rightarrow> realm" where
  "replace_linked r m bh = r\<lparr>table_store := snd bh, collections := (collections r)(m \<mapsto> fst bh)\<rparr>"

definition linked_insert :: "hash_env \<Rightarrow> hash_object \<Rightarrow> realm \<Rightarrow> nat \<Rightarrow> JSTaggedValue \<Rightarrow> JSTaggedValue \<Rightarrow> (string option \<times> realm) option" where
  "linked_insert env ho r m key v =
     (if \<not> IsKey key then Some (Some ''the value must be Key of JSSet'', r)
      else do {
        a \<leftarrow> collections r m;
        bh \<leftarrow> LinkedHashTable_Insert env ho (table_store r) a key v;
        Some (None, replace_linked r m bh)
      })"

definition JSMap_Set :: "hash_env \<Rightarrow> realm \<Rightarrow> nat \<Rightarrow> JSTaggedValue \<Rightarrow> JSTaggedValue \<Rightarrow> (string option \<times> realm) option" where
  "JSMap_Set env r m key v = linked_insert env LinkedHashMapObject r m key v"

definition JSSet_Add :: "hash_env \<Rightarrow> realm \<Rightarrow> nat \<Rightarrow> JSTaggedValue \<Rightarrow> (string option \<times> realm) option" where
  "JSSet_Add env r m v = linked_insert env LinkedHashSetObject r m v v"

definition linked_delete :: "hash_env \<Rightarrow> hash_object \<Rightarrow> realm \<Rightarrow> nat \<Rightarrow> JSTaggedValue \<Rightarrow> (bool \<times> realm) option" where
  "linked_delete env ho r m key = do {
     a \<leftarrow> collections r m;
     entry \<leftarrow> FindElement env ho (tables (table_store r) a) key;
     if entry = - 1 then Some (False, r)
     else do {
       t \<leftarrow> RemoveEntry ho (tables (table_store r) a) entry;
       Some (True, r\<lparr>table_store := store_table (table_store r) a t\<rparr>)
     }
   }"

definition JSMap_Delete :: "hash_env \<Rightarrow> realm \<Rightarrow> nat \<Rightarrow> JSTaggedValue \<Rightarrow> (bool \<times> realm) option" where
  "JSMap_Delete env = linked_delete env LinkedHashMapObject"

definition JSSet_Delete :: "hash_env \<Rightarrow> realm \<Rightarrow> nat \<Rightarrow> JSTaggedValue \<Rightarrow> (bool \<times> realm) option" where
  "JSSet_Delete env = linked_delete env LinkedHashSetObject"

definition linked_clear :: "hash_object \<Rightarrow> realm \<Rightarrow> nat \<Rightarrow> realm option" where
  "linked_clear ho r m = do {
     a \<leftarrow> collections r m;
     bh \<leftarrow> LinkedHash_Clear ho (table_store r) a;
     Some (replace_linked r m bh)
   }"

definition JSMap_Clear :: "realm \<Rightarrow> nat \<Rightarrow> realm option" where
  "JSMap_Clear = linked_clear LinkedHashMapObject"

definition JSSet_Clear :: "realm \<Rightarrow> nat \<Rightarrow> realm option" where
  "JSSet_Clear = linked_clear LinkedHashSetObject"

definition linked_has :: "hash_env \<Rightarrow> hash_object \<Rightarrow> realm \<Rightarrow> nat \<Rightarrow> JSTaggedValue \<Rightarrow> bool option" where
  "linked_has env ho r m key = do { a \<leftarrow> collections r m; LinkedHash_Has env ho (table_store r) a key }"

definition JSMap_Has :: "hash_env \<Rightarrow> realm \<Rightarrow> nat \<Rightarrow> JSTaggedValue \<Rightarrow> bool option" where
  "JSMap_Has env = linked_has env LinkedHashMapObject"

definition JSSet_Has :: "hash_env \<Rightarrow> realm \<Rightarrow> nat \<Rightarrow> JSTaggedValue \<Rightarrow> bool option" where
  "JSSet_Has env = linked_has env LinkedHashSetObject"

definition JSMap_Get :: "hash_env \<Rightarrow> realm \<Rightarrow> nat \<Rightarrow> JSTaggedValue \<Rightarrow> JSTaggedValue option" where
  "JSMap_Get env r m key = do { a \<leftarrow> collections r m; LinkedHash_Get env LinkedHashMapObject (table_store r) a key }"

definition linked_size :: "realm \<Rightarrow> nat \<Rightarrow> u32 option" where
  "linked_size r m = do { a \<leftarrow> collections r m; n \<leftarrow> NumberOfElements (tables (table_store r) a); Some (word_of_int n) }"

definition JSMap_GetSize :: "realm \<Rightarrow> nat \<Rightarrow> u32 option" where
  "JSMap_GetSize = linked_size"

definition JSSet_GetSize :: "realm \<Rightarrow> nat \<Rightarrow> u32 option" where
  "JSSet_GetSize = linked_size"

section \<open>Iterators\<close>

text \<open>From a table that was replaced to the current one; the index loses the entries removed before it.\<close>

partial_function (option) update_loop :: "hash_object \<Rightarrow> table_heap \<Rightarrow> nat \<Rightarrow> int \<Rightarrow> (nat \<times> int) option" where
  "update_loop ho h a index = do {
     nextTable \<leftarrow> GetNextTable (tables h a);
     if nextTable = VHole then Some (a, index)
     else case nextTable of
       VObject b \<Rightarrow> do { d \<leftarrow> GetDeletedElementsAt ho (tables h a) index; update_loop ho h b (index - d) }
     | _ \<Rightarrow> None
   }"

definition iterator_update :: "hash_object \<Rightarrow> table_heap \<Rightarrow> collection_iterator \<Rightarrow> collection_iterator option" where
  "iterator_update ho h it = (case IteratedTable it of
     None \<Rightarrow> Some it
   | Some a \<Rightarrow> do {
       nextTable \<leftarrow> GetNextTable (tables h a);
       if nextTable = VHole then Some it
       else do {
         (b, index) \<leftarrow> update_loop ho h a (sint (NextIndex it));
         Some (it\<lparr>IteratedTable := Some b, NextIndex := word_of_int index\<rparr>)
       }
     })"

definition JSMapIterator_Update :: "table_heap \<Rightarrow> collection_iterator \<Rightarrow> collection_iterator option" where
  "JSMapIterator_Update = iterator_update LinkedHashMapObject"

definition JSSetIterator_Update :: "table_heap \<Rightarrow> collection_iterator \<Rightarrow> collection_iterator option" where
  "JSSetIterator_Update = iterator_update LinkedHashSetObject"

text \<open>The loop over the entries from \<open>index\<close> on, \<open>c\<close> of them, up to the first that was not removed.\<close>

fun live_entry :: "hash_object \<Rightarrow> tagged_array \<Rightarrow> nat \<Rightarrow> int \<Rightarrow> int option option" where
  "live_entry ho t 0 index = Some None"
| "live_entry ho t (Suc c) index = do {
     key \<leftarrow> GetKey ho t index;
     if key \<noteq> VHole then Some (Some index) else live_entry ho t c (index + 1)
   }"

definition totalElements :: "tagged_array \<Rightarrow> int option" where
  "totalElements t = do { n \<leftarrow> NumberOfElements t; d \<leftarrow> NumberOfDeletedElements t; Some (n + d) }"

definition next_item :: "collection_class \<Rightarrow> table_heap \<Rightarrow> collection_iterator \<Rightarrow> (call_result \<times> collection_iterator) option" where
  "next_item cl h it = do {
     it \<leftarrow> iterator_update (layout cl) h it;
     case IteratedTable it of
       None \<Rightarrow> Some (IterResult (Item VUndefined) True, it)
     | Some a \<Rightarrow> do {
         total \<leftarrow> totalElements (tables h a);
         let index = sint (NextIndex it);
         found \<leftarrow> live_entry (layout cl) (tables h a) (nat (total - index)) index;
         case found of
           Some i \<Rightarrow> do {
             item \<leftarrow> item_at cl (iteration_kind it) (tables h a) i;
             Some (IterResult item False, it\<lparr>NextIndex := word_of_int (i + 1)\<rparr>)
           }
         | None \<Rightarrow> Some (IterResult (Item VUndefined) True, it\<lparr>IteratedTable := None\<rparr>)
       }
   }"

definition object_of :: "(nat \<rightharpoonup> 'a) \<Rightarrow> JSTaggedValue \<Rightarrow> (nat \<times> 'a) option" where
  "object_of m x = (case x of VObject a \<Rightarrow> (case m a of None \<Rightarrow> None | Some y \<Rightarrow> Some (a, y)) | _ \<Rightarrow> None)"

definition iterator_next :: "collection_class \<Rightarrow> realm \<Rightarrow> JSTaggedValue \<Rightarrow> (call_result \<times> realm) option" where
  "iterator_next cl r thisObj = (case object_of (iterators r) thisObj of
     None \<Rightarrow> Some (Thrown (not_an_iterator cl), r)
   | Some (i, it) \<Rightarrow> do {
       (out, it) \<leftarrow> next_item cl (table_store r) it;
       Some (out, r\<lparr>iterators := (iterators r)(i \<mapsto> it)\<rparr>)
     })"

definition JSMapIterator_NextInternal :: "realm \<Rightarrow> JSTaggedValue \<Rightarrow> (call_result \<times> realm) option" where
  "JSMapIterator_NextInternal = iterator_next map_class"

definition JSSetIterator_NextInternal :: "realm \<Rightarrow> JSTaggedValue \<Rightarrow> (call_result \<times> realm) option" where
  "JSSetIterator_NextInternal = iterator_next set_class"

definition add_iterator :: "realm \<Rightarrow> nat \<Rightarrow> IterationKind \<Rightarrow> call_result \<times> realm" where
  "add_iterator r a kind =
     (Value (VObject (fresh_object r)),
      r\<lparr>iterators := (iterators r)(fresh_object r \<mapsto> \<lparr>IteratedTable = Some a, NextIndex = 0, iteration_kind = kind\<rparr>),
        fresh_object := Suc (fresh_object r)\<rparr>)"

definition create_iterator :: "collection_class \<Rightarrow> realm \<Rightarrow> JSTaggedValue \<Rightarrow> IterationKind \<Rightarrow> (call_result \<times> realm) option" where
  "create_iterator cl r obj kind = (case object_of (collections r) obj of
     None \<Rightarrow> Some (Thrown (not_a_collection cl), r)
   | Some (m, a) \<Rightarrow> Some (add_iterator r a kind))"

definition JSMapIterator_CreateMapIterator :: "realm \<Rightarrow> JSTaggedValue \<Rightarrow> IterationKind \<Rightarrow> (call_result \<times> realm) option" where
  "JSMapIterator_CreateMapIterator = create_iterator map_class"

definition JSSetIterator_CreateSetIterator :: "realm \<Rightarrow> JSTaggedValue \<Rightarrow> IterationKind \<Rightarrow> (call_result \<times> realm) option" where
  "JSSetIterator_CreateSetIterator = create_iterator set_class"

section \<open>Built-in functions\<close>

text \<open>The constructors, called with \<open>new\<close> and without an iterable.\<close>

definition new_collection :: "collection_class \<Rightarrow> realm \<Rightarrow> (call_result \<times> realm) option" where
  "new_collection cl r = do {
     (a, h) \<leftarrow> LinkedHashTable_Create (layout cl) (table_store r) HASH_MIN_CAPACITY;
     Some (Value (VObject (fresh_object r)),
       r\<lparr>table_store := h, collections := (collections r)(fresh_object r \<mapsto> a), fresh_object := Suc (fresh_object r)\<rparr>)
   }"

definition TaggedBoolean :: "bool \<Rightarrow> JSTaggedValue" where
  "TaggedBoolean b = (if b then VTrue else VFalse)"

definition on_collection :: "collection_class \<Rightarrow> realm \<Rightarrow> JSTaggedValue \<Rightarrow> (nat \<Rightarrow> (call_result \<times> realm) option) \<Rightarrow>
    (call_result \<times> realm) option" where
  "on_collection cl r self f = (case object_of (collections r) self of
     None \<Rightarrow> Some (Thrown (not_a_collection cl), r)
   | Some (m, a) \<Rightarrow> f m)"

definition BuiltinsMap_Set :: "hash_env \<Rightarrow> realm \<Rightarrow> JSTaggedValue \<Rightarrow> JSTaggedValue \<Rightarrow> JSTaggedValue \<Rightarrow> (call_result \<times> realm) option" where
  "BuiltinsMap_Set env r self key v = on_collection map_class r self (\<lambda>m. do {
     (e, r) \<leftarrow> JSMap_Set env r m key v;
     Some (case e of None \<Rightarrow> Value self | Some msg \<Rightarrow> Thrown msg, r)
   })"

definition BuiltinsSet_Add :: "hash_env \<Rightarrow> realm \<Rightarrow> JSTaggedValue \<Rightarrow> JSTaggedValue \<Rightarrow> (call_result \<times> realm) option" where
  "BuiltinsSet_Add env r self v = on_collection set_class r self (\<lambda>m. do {
     (e, r) \<leftarrow> JSSet_Add env r m v;
     Some (case e of None \<Rightarrow> Value self | Some msg \<Rightarrow> Thrown msg, r)
   })"

definition BuiltinsMap_Clear :: "realm \<Rightarrow> JSTaggedValue \<Rightarrow> (call_result \<times> realm) option" where
  "BuiltinsMap_Clear r self = on_collection map_class r self (\<lambda>m. do { r \<leftarrow> JSMap_Clear r m; Some (Value VUndefined, r) })"

definition BuiltinsSet_Clear :: "realm \<Rightarrow> JSTaggedValue \<Rightarrow> (call_result \<times> realm) option" where
  "BuiltinsSet_Clear r self = on_collection set_class r self (\<lambda>m. do { r \<leftarrow> JSSet_Clear r m; Some (Value VUndefined, r) })"

definition BuiltinsMap_Delete :: "hash_env \<Rightarrow> realm \<Rightarrow> JSTaggedValue \<Rightarrow> JSTaggedValue \<Rightarrow> (call_result \<times> realm) option" where
  "BuiltinsMap_Delete env r self key = on_collection map_class r self (\<lambda>m. do {
     (flag, r) \<leftarrow> JSMap_Delete env r m key;
     Some (Value (TaggedBoolean flag), r)
   })"

definition BuiltinsSet_Delete :: "hash_env \<Rightarrow> realm \<Rightarrow> JSTaggedValue \<Rightarrow> JSTaggedValue \<Rightarrow> (call_result \<times> realm) option" where
  "BuiltinsSet_Delete env r self v = on_collection set_class r self (\<lambda>m. do {
     (flag, r) \<leftarrow> JSSet_Delete env r m v;
     Some (Value (TaggedBoolean flag), r)
   })"

definition BuiltinsMap_Has :: "hash_env \<Rightarrow> realm \<Rightarrow> JSTaggedValue \<Rightarrow> JSTaggedValue \<Rightarrow> (call_result \<times> realm) option" where
  "BuiltinsMap_Has env r self key = on_collection map_class r self (\<lambda>m. do {
     flag \<leftarrow> JSMap_Has env r m key;
     Some (Value (TaggedBoolean flag), r)
   })"

definition BuiltinsSet_Has :: "hash_env \<Rightarrow> realm \<Rightarrow> JSTaggedValue \<Rightarrow> JSTaggedValue \<Rightarrow> (call_result \<times> realm) option" where
  "BuiltinsSet_Has env r self v = on_collection set_class r self (\<lambda>m. do {
     flag \<leftarrow> JSSet_Has env r m v;
     Some (Value (TaggedBoolean flag), r)
   })"

definition BuiltinsMap_Get :: "hash_env \<Rightarrow> realm \<Rightarrow> JSTaggedValue \<Rightarrow> JSTaggedValue \<Rightarrow> (call_result \<times> realm) option" where
  "BuiltinsMap_Get env r self key = on_collection map_class r self (\<lambda>m. do {
     size \<leftarrow> JSMap_GetSize r m;
     if size = 0 then Some (Value VUndefined, r)
     else do { v \<leftarrow> JSMap_Get env r m key; Some (Value v, r) }
   })"

definition BuiltinsMap_GetSize :: "realm \<Rightarrow> JSTaggedValue \<Rightarrow> (call_result \<times> realm) option" where
  "BuiltinsMap_GetSize r self = on_collection map_class r self (\<lambda>m. do {
     count \<leftarrow> JSMap_GetSize r m;
     Some (Value (JSTaggedValue_uint32 count), r)
   })"

definition BuiltinsSet_GetSize :: "realm \<Rightarrow> JSTaggedValue \<Rightarrow> (call_result \<times> realm) option" where
  "BuiltinsSet_GetSize r self = on_collection set_class r self (\<lambda>m. do {
     count \<leftarrow> JSSet_GetSize r m;
     Some (Value (JSTaggedValue_uint32 count), r)
   })"

definition BuiltinsMap_Entries :: "realm \<Rightarrow> JSTaggedValue \<Rightarrow> (call_result \<times> realm) option" where
  "BuiltinsMap_Entries r self = JSMapIterator_CreateMapIterator r self KEY_AND_VALUE"

definition BuiltinsMap_Keys :: "realm \<Rightarrow> JSTaggedValue \<Rightarrow> (call_result \<times> realm) option" where
  "BuiltinsMap_Keys r self = JSMapIterator_CreateMapIterator r self KEY"

definition BuiltinsMap_Values :: "realm \<Rightarrow> JSTaggedValue \<Rightarrow> (call_result \<times> realm) option" where
  "BuiltinsMap_Values r self = JSMapIterator_CreateMapIterator r self VALUE"

definition BuiltinsSet_Entries :: "realm \<Rightarrow> JSTaggedValue \<Rightarrow> (call_result \<times> realm) option" where
  "BuiltinsSet_Entries r self = JSSetIterator_CreateSetIterator r self KEY_AND_VALUE"

definition BuiltinsSet_Values :: "realm \<Rightarrow> JSTaggedValue \<Rightarrow> (call_result \<times> realm) option" where
  "BuiltinsSet_Values r self = JSSetIterator_CreateSetIterator r self VALUE"

section \<open>ForEach\<close>

text \<open>
  The callback is a parameter: given its own state, the value, the key and the realm, it returns an
  exception or nothing, and may change the realm.  The loop makes at most \<open>fuel\<close> calls, since a callback that
  keeps adding entries never lets it end.
\<close>

datatype foreach_result = Finished | Abrupt string | More_calls

fun foreach_loop :: "collection_class \<Rightarrow> (JSTaggedValue \<Rightarrow> JSTaggedValue \<Rightarrow> 's \<times> realm \<Rightarrow> (string option \<times> 's \<times> realm) option) \<Rightarrow>
    nat \<Rightarrow> nat \<Rightarrow> int \<Rightarrow> 's \<times> realm \<Rightarrow> (foreach_result \<times> 's \<times> realm) option" where
  "foreach_loop cl call fuel a index sr = do {
     total \<leftarrow> totalElements (tables (table_store (snd sr)) a);
     found \<leftarrow> live_entry (layout cl) (tables (table_store (snd sr)) a) (nat (total - index)) index;
     case found of
       None \<Rightarrow> Some (Finished, sr)
     | Some i \<Rightarrow> (case fuel of
         0 \<Rightarrow> Some (More_calls, sr)
       | Suc fuel' \<Rightarrow> do {
           key \<leftarrow> GetKey (layout cl) (tables (table_store (snd sr)) a) i;
           v \<leftarrow> callback_value cl (tables (table_store (snd sr)) a) i;
           (ret, sr) \<leftarrow> call v key sr;
           case ret of
             Some msg \<Rightarrow> Some (Abrupt msg, sr)
           | None \<Rightarrow> do {
               (b, index) \<leftarrow> update_loop (layout cl) (table_store (snd sr)) a (i + 1);
               foreach_loop cl call fuel' b index sr
             }
         })
   }"

definition foreach :: "collection_class \<Rightarrow> (JSTaggedValue \<Rightarrow> JSTaggedValue \<Rightarrow> 's \<times> realm \<Rightarrow> (string option \<times> 's \<times> realm) option) \<Rightarrow>
    nat \<Rightarrow> JSTaggedValue \<Rightarrow> bool \<Rightarrow> 's \<times> realm \<Rightarrow> (foreach_result \<times> 's \<times> realm) option" where
  "foreach cl call fuel self callable sr = (case object_of (collections (snd sr)) self of
     None \<Rightarrow> Some (Abrupt (not_a_collection cl), sr)
   | Some (m, a) \<Rightarrow> if \<not> callable then Some (Abrupt (not_callable cl), sr) else foreach_loop cl call fuel a 0 sr)"

definition BuiltinsMap_ForEach :: "(JSTaggedValue \<Rightarrow> JSTaggedValue \<Rightarrow> 's \<times> realm \<Rightarrow> (string option \<times> 's \<times> realm) option) \<Rightarrow>
    nat \<Rightarrow> JSTaggedValue \<Rightarrow> bool \<Rightarrow> 's \<times> realm \<Rightarrow> (foreach_result \<times> 's \<times> realm) option" where
  "BuiltinsMap_ForEach = foreach map_class"

definition BuiltinsSet_ForEach :: "(JSTaggedValue \<Rightarrow> JSTaggedValue \<Rightarrow> 's \<times> realm \<Rightarrow> (string option \<times> 's \<times> realm) option) \<Rightarrow>
    nat \<Rightarrow> JSTaggedValue \<Rightarrow> bool \<Rightarrow> 's \<times> realm \<Rightarrow> (foreach_result \<times> 's \<times> realm) option" where
  "BuiltinsSet_ForEach = foreach set_class"

end
