(* ===== verification/Linked_Hash_View.thy ===== *)
theory Linked_Hash_View
  imports Linked_Hash_Table
begin

text \<open>
  The parts of a hash table array: what the accessors read and write, as updates of a record of the header
  fields, the buckets and the entries.
\<close>

section \<open>Reading and writing by index\<close>

lemma unat_of_index: "n < 4294967296 \<Longrightarrow> unat (word_of_int (int n) :: u32) = n"
  by (simp add: unat_of_nat)

lemma GetElement_nth: "n < length t \<Longrightarrow> n < 4294967296 \<Longrightarrow> GetElement t (int n) = Some (t ! n)"
  unfolding GetElement_def TaggedArray_Get_def using unat_of_index [of n] by simp

lemma SetElement_nth: "n < length t \<Longrightarrow> n < 4294967296 \<Longrightarrow> SetElement t (int n) v = Some (t[n := v])"
  unfolding SetElement_def TaggedArray_Set_def using unat_of_index [of n] by simp

lemma sint_of_int: "- 2147483648 \<le> v \<Longrightarrow> v < 2147483648 \<Longrightarrow> sint (word_of_int v :: u32) = v"
  by (simp add: signed_take_bit_int_eq_self signed_of_int)

lemma GetInt_int [simp]: "- 2147483648 \<le> v \<Longrightarrow> v < 2147483648 \<Longrightarrow> GetInt (JSTaggedValue_int v) = Some v"
  by (simp add: JSTaggedValue_int_def sint_of_int)

lemma JSTaggedValue_int_not_hole [simp]: "JSTaggedValue_int v \<noteq> VHole"
  by (simp add: JSTaggedValue_int_def)

lemma concat_nth:
  "list_all (\<lambda>xs. length xs = w) xss \<Longrightarrow> e < length xss \<Longrightarrow> j < w \<Longrightarrow> concat xss ! (e * w + j) = xss ! e ! j"
  by (induction xss arbitrary: e) (auto simp: nth_append nth_Cons split: nat.split)

lemma concat_update:
  "list_all (\<lambda>xs. length xs = w) xss \<Longrightarrow> e < length xss \<Longrightarrow> j < w \<Longrightarrow>
   (concat xss)[e * w + j := x] = concat (xss[e := (xss ! e)[j := x]])"
  by (induction xss arbitrary: e) (auto simp: list_update_append split: nat.split)

lemma concat_length: "list_all (\<lambda>xs. length xs = w) xss \<Longrightarrow> length (concat xss) = length xss * w"
  by (induction xss) auto

section \<open>Views\<close>

record hash_view =
  hv_elements :: int
  hv_deleted :: int
  hv_next :: JSTaggedValue
  hv_buckets :: "JSTaggedValue list"
  hv_entries :: "JSTaggedValue list list"

definition encode :: "hash_view \<Rightarrow> tagged_array" where
  "encode v = [JSTaggedValue_int (hv_elements v), JSTaggedValue_int (hv_deleted v),
     JSTaggedValue_int (int (length (hv_buckets v))), hv_next v] @ hv_buckets v @ concat (hv_entries v)"

definition layout_ok :: "hash_object \<Rightarrow> bool" where
  "layout_ok ho \<longleftrightarrow> ENTRY_SIZE ho = Suc (ENTRY_VALUE_INDEX ho) \<and> ENTRY_VALUE_INDEX ho \<le> 1"

lemma layouts_ok [simp]: "layout_ok LinkedHashMapObject" "layout_ok LinkedHashSetObject"
  by (simp_all add: layout_ok_def LinkedHashMapObject_def LinkedHashSetObject_def)

text \<open>The capacity is at most \<open>2 ^ 28\<close>, so that all indices are below \<open>2 ^ 31\<close>.\<close>

definition table_limit :: nat where
  "table_limit = 268435456"

definition view_wf :: "hash_object \<Rightarrow> hash_view \<Rightarrow> bool" where
  "view_wf ho v \<longleftrightarrow> layout_ok ho \<and> length (hv_entries v) = length (hv_buckets v) \<and>
     list_all (\<lambda>e. length e = Suc (ENTRY_SIZE ho)) (hv_entries v) \<and> length (hv_buckets v) \<le> table_limit \<and>
     hv_elements v \<in> {0..int table_limit} \<and> hv_deleted v \<in> {- 1..int table_limit}"

lemma view_wfD:
  assumes "view_wf ho v"
  shows "ENTRY_VALUE_INDEX ho < ENTRY_SIZE ho" "ENTRY_SIZE ho \<le> 2" "0 < ENTRY_SIZE ho"
    "length (hv_entries v) = length (hv_buckets v)"
    "list_all (\<lambda>e. length e = Suc (ENTRY_SIZE ho)) (hv_entries v)" "length (hv_buckets v) \<le> 268435456"
    "e < length (hv_buckets v) \<Longrightarrow> length (hv_entries v ! e) = Suc (ENTRY_SIZE ho)"
  using assms by (auto simp: view_wf_def layout_ok_def table_limit_def list_all_length)

definition entry_index :: "hash_object \<Rightarrow> hash_view \<Rightarrow> nat \<Rightarrow> nat \<Rightarrow> nat" where
  "entry_index ho v e j = 4 + length (hv_buckets v) + e * Suc (ENTRY_SIZE ho) + j"

definition put_slot :: "hash_view \<Rightarrow> nat \<Rightarrow> nat \<Rightarrow> JSTaggedValue \<Rightarrow> hash_view" where
  "put_slot v e j x = v\<lparr>hv_entries := (hv_entries v)[e := (hv_entries v ! e)[j := x]]\<rparr>"

lemma encode_length: "view_wf ho v \<Longrightarrow> length (encode v) = 4 + length (hv_buckets v) + length (hv_buckets v) * Suc (ENTRY_SIZE ho)"
  using concat_length [of "Suc (ENTRY_SIZE ho)" "hv_entries v"] by (simp add: encode_def view_wf_def)

lemma entry_index_less:
  assumes "view_wf ho v" "e < length (hv_buckets v)" "j < Suc (ENTRY_SIZE ho)"
  shows "entry_index ho v e j < length (encode v)" "entry_index ho v e j < 4294967296"
proof -
  have "e * Suc (ENTRY_SIZE ho) + j < Suc e * Suc (ENTRY_SIZE ho)" using assms(3) by simp
  also have "Suc e * Suc (ENTRY_SIZE ho) \<le> length (hv_buckets v) * Suc (ENTRY_SIZE ho)"
    using assms(2) by (intro mult_le_mono1) simp
  finally show *: "entry_index ho v e j < length (encode v)"
    using encode_length [OF assms(1)] by (simp add: entry_index_def)
  have "length (hv_buckets v) * Suc (ENTRY_SIZE ho) \<le> 268435456 * 3"
    using view_wfD(2,6) [OF assms(1)] by (intro mult_le_mono) simp_all
  then show "entry_index ho v e j < 4294967296"
    using * encode_length [OF assms(1)] view_wfD(6) [OF assms(1)] by linarith
qed

lemma encode_slot:
  assumes "view_wf ho v" "e < length (hv_buckets v)" "j < Suc (ENTRY_SIZE ho)"
  shows "encode v ! entry_index ho v e j = hv_entries v ! e ! j"
    and "(encode v)[entry_index ho v e j := x] = encode (put_slot v e j x)"
proof -
  have i: "entry_index ho v e j = 4 + (length (hv_buckets v) + (e * Suc (ENTRY_SIZE ho) + j))"
    by (simp add: entry_index_def)
  note w = view_wfD(4,5) [OF assms(1)]
  show "encode v ! entry_index ho v e j = hv_entries v ! e ! j"
    unfolding i encode_def using concat_nth [OF w(2) _ assms(3)] assms(2) w(1)
    by (simp add: nth_append eval_nat_numeral)
  show "(encode v)[entry_index ho v e j := x] = encode (put_slot v e j x)"
    unfolding i encode_def using concat_update [OF w(2) _ assms(3)] assms(2) w(1)
    by (simp add: list_update_append eval_nat_numeral put_slot_def)
qed

lemma put_slot_simps [simp]:
  "hv_elements (put_slot v e j x) = hv_elements v" "hv_deleted (put_slot v e j x) = hv_deleted v"
  "hv_next (put_slot v e j x) = hv_next v" "hv_buckets (put_slot v e j x) = hv_buckets v"
  "hv_entries (put_slot v e j x) = (hv_entries v)[e := (hv_entries v ! e)[j := x]]"
  by (simp_all add: put_slot_def)

lemma put_slot_wf [simp]: "view_wf ho v \<Longrightarrow> view_wf ho (put_slot v e j x)"
  by (cases "e < length (hv_entries v)") (auto simp: view_wf_def list_all_length nth_list_update)

section \<open>The header\<close>

lemma header_specs:
  assumes "view_wf ho v"
  shows "NumberOfElements (encode v) = Some (hv_elements v)"
    and "NumberOfDeletedElements (encode v) = Some (hv_deleted v)"
    and "Capacity (encode v) = Some (int (length (hv_buckets v)))"
    and "GetNextTable (encode v) = Some (hv_next v)"
    and "SetNumberOfElements (encode v) n = Some (encode (v\<lparr>hv_elements := n\<rparr>))"
    and "SetNumberOfDeletedElements (encode v) n = Some (encode (v\<lparr>hv_deleted := n\<rparr>))"
    and "SetNextTable (encode v) x = Some (encode (v\<lparr>hv_next := x\<rparr>))"
proof -
  have len: "4 \<le> length (encode v)" by (simp add: encode_def)
  have get: "GetElement (encode v) (int i) = Some (encode v ! i)" if "i < 4" for i
    using that len by (intro GetElement_nth) simp_all
  have set: "SetElement (encode v) (int i) x = Some ((encode v)[i := x])" if "i < 4" for i x
    using that len by (intro SetElement_nth) simp_all
  note get4 = get [of 0] get [of 1] get [of 2] get [of 3] and set4 = set [of 0] set [of 1] set [of 3]
  have b: "int (length (hv_buckets v)) < 2147483648" "hv_elements v < 2147483648" "0 \<le> hv_elements v"
      "hv_deleted v < 2147483648" "- 1 \<le> hv_deleted v"
    using assms by (simp_all add: view_wf_def table_limit_def)
  show "NumberOfElements (encode v) = Some (hv_elements v)"
    using get4 b by (simp add: NumberOfElements_def hash_index_defs encode_def)
  show "NumberOfDeletedElements (encode v) = Some (hv_deleted v)"
    using get4 b by (simp add: NumberOfDeletedElements_def hash_index_defs encode_def)
  show "Capacity (encode v) = Some (int (length (hv_buckets v)))"
    using get4 b by (simp add: Capacity_def hash_index_defs encode_def)
  show "GetNextTable (encode v) = Some (hv_next v)"
    using get4 by (simp add: GetNextTable_def hash_index_defs encode_def eval_nat_numeral)
  show "SetNumberOfElements (encode v) n = Some (encode (v\<lparr>hv_elements := n\<rparr>))"
    using set4 by (simp add: SetNumberOfElements_def hash_index_defs encode_def)
  show "SetNumberOfDeletedElements (encode v) n = Some (encode (v\<lparr>hv_deleted := n\<rparr>))"
    using set4 by (simp add: SetNumberOfDeletedElements_def hash_index_defs encode_def)
  show "SetNextTable (encode v) x = Some (encode (v\<lparr>hv_next := x\<rparr>))"
    using set4 by (simp add: SetNextTable_def hash_index_defs encode_def eval_nat_numeral)
qed

section \<open>Entries and buckets\<close>

lemma EntryToIndex_spec:
  "view_wf ho v \<Longrightarrow> EntryToIndex ho (encode v) (int e) = Some (int (entry_index ho v e 0))"
  by (simp add: EntryToIndex_def header_specs HASH_ELEMENTS_START_INDEX_def entry_index_def algebra_simps)

lemma slot_access:
  assumes "view_wf ho v" "e < length (hv_buckets v)" "j < Suc (ENTRY_SIZE ho)"
  shows "GetElement (encode v) (int (entry_index ho v e 0) + int j) = Some (hv_entries v ! e ! j)"
    and "SetElement (encode v) (int (entry_index ho v e 0) + int j) x = Some (encode (put_slot v e j x))"
proof -
  have i: "int (entry_index ho v e 0) + int j = int (entry_index ho v e j)" by (simp add: entry_index_def)
  show "GetElement (encode v) (int (entry_index ho v e 0) + int j) = Some (hv_entries v ! e ! j)"
    unfolding i using GetElement_nth [OF entry_index_less [OF assms]] encode_slot(1) [OF assms] by simp
  show "SetElement (encode v) (int (entry_index ho v e 0) + int j) x = Some (encode (put_slot v e j x))"
    unfolding i using SetElement_nth [OF entry_index_less [OF assms]] encode_slot(2) [OF assms] by simp
qed

lemma entry_specs:
  assumes "view_wf ho v" "e < length (hv_buckets v)"
  shows "GetKey ho (encode v) (int e) = Some (hv_entries v ! e ! 0)"
    and "GetValue ho (encode v) (int e) = Some (hv_entries v ! e ! ENTRY_VALUE_INDEX ho)"
    and "GetNextEntry ho (encode v) (int e) = Some (hv_entries v ! e ! ENTRY_SIZE ho)"
    and "SetKey ho (encode v) (int e) x = Some (encode (put_slot v e 0 x))"
    and "SetValue ho (encode v) (int e) x = Some (encode (put_slot v e (ENTRY_VALUE_INDEX ho) x))"
    and "SetNextEntry ho (encode v) (int e) x = Some (encode (put_slot v e (ENTRY_SIZE ho) x))"
proof -
  have lt: "ENTRY_VALUE_INDEX ho < Suc (ENTRY_SIZE ho)" "ENTRY_SIZE ho < Suc (ENTRY_SIZE ho)" "0 < Suc (ENTRY_SIZE ho)"
    using view_wfD(1) [OF assms(1)] by simp_all
  note acc = slot_access [OF assms lt(1)] slot_access [OF assms lt(2)] slot_access [OF assms lt(3), simplified]
  note defs = EntryToIndex_spec [OF assms(1)]
  show "GetKey ho (encode v) (int e) = Some (hv_entries v ! e ! 0)" using acc by (simp add: GetKey_def defs)
  show "GetValue ho (encode v) (int e) = Some (hv_entries v ! e ! ENTRY_VALUE_INDEX ho)"
    using acc by (simp add: GetValue_def defs)
  show "GetNextEntry ho (encode v) (int e) = Some (hv_entries v ! e ! ENTRY_SIZE ho)"
    using acc by (simp add: GetNextEntry_def defs)
  show "SetKey ho (encode v) (int e) x = Some (encode (put_slot v e 0 x))" using acc by (simp add: SetKey_def defs)
  show "SetValue ho (encode v) (int e) x = Some (encode (put_slot v e (ENTRY_VALUE_INDEX ho) x))"
    using acc by (simp add: SetValue_def defs)
  show "SetNextEntry ho (encode v) (int e) x = Some (encode (put_slot v e (ENTRY_SIZE ho) x))"
    using acc by (simp add: SetNextEntry_def defs)
qed

lemma bucket_access:
  assumes "view_wf ho v" "unat b < length (hv_buckets v)"
  shows "GetElement (encode v) (sint (BucketToIndex b)) = Some (hv_buckets v ! unat b)"
    and "SetElement (encode v) (sint (BucketToIndex b)) x = Some (encode (v\<lparr>hv_buckets := (hv_buckets v)[unat b := x]\<rparr>))"
proof -
  have "unat b < 268435456" using assms(2) view_wfD(6) [OF assms(1)] by linarith
  then have u: "unat (BucketToIndex b) = 4 + unat b"
    by (simp add: BucketToIndex_def HASH_ELEMENTS_START_INDEX_def unat_plus_if_size word_size)
  then have "sint (BucketToIndex b) = int (4 + unat b)"
    using sint_length [of "BucketToIndex b" "4 + unat b"] \<open>unat b < 268435456\<close> by simp
  moreover have "4 + unat b < length (encode v)" using assms(2) by (simp add: encode_def)
  moreover have "4 + unat b < 4294967296" using \<open>unat b < 268435456\<close> by simp
  moreover have "encode v ! (4 + unat b) = hv_buckets v ! unat b"
    using assms(2) by (simp add: encode_def eval_nat_numeral nth_append)
  moreover have "(encode v)[4 + unat b := x] = encode (v\<lparr>hv_buckets := (hv_buckets v)[unat b := x]\<rparr>)"
    using assms(2) by (simp add: encode_def eval_nat_numeral list_update_append)
  ultimately show "GetElement (encode v) (sint (BucketToIndex b)) = Some (hv_buckets v ! unat b)"
    "SetElement (encode v) (sint (BucketToIndex b)) x = Some (encode (v\<lparr>hv_buckets := (hv_buckets v)[unat b := x]\<rparr>))"
    using GetElement_nth [of "4 + unat b" "encode v"] SetElement_nth [of "4 + unat b" "encode v"] by simp_all
qed

definition push_entry :: "hash_object \<Rightarrow> hash_view \<Rightarrow> nat \<Rightarrow> nat \<Rightarrow> hash_view" where
  "push_entry ho v b e =
     (put_slot v e (ENTRY_SIZE ho) (hv_buckets v ! b))\<lparr>hv_buckets := (hv_buckets v)[b := JSTaggedValue_int (int e)]\<rparr>"

lemma buckets_wf [simp]: "view_wf ho v \<Longrightarrow> view_wf ho (v\<lparr>hv_buckets := (hv_buckets v)[b := x]\<rparr>)"
  by (simp add: view_wf_def)

lemma push_entry_wf [simp]: "view_wf ho v \<Longrightarrow> view_wf ho (push_entry ho v b e)"
  using put_slot_wf [of ho v e "ENTRY_SIZE ho" "hv_buckets v ! b"]
  by (simp add: push_entry_def view_wf_def)

lemma InsertNewEntry_spec:
  assumes "view_wf ho v" "e < length (hv_buckets v)" "unat b < length (hv_buckets v)"
  shows "InsertNewEntry ho (encode v) b (int e) = Some (encode (push_entry ho v (unat b) e))"
  using assms bucket_access [of ho "put_slot v e (ENTRY_SIZE ho) (hv_buckets v ! unat b)" b]
  by (simp add: InsertNewEntry_def bucket_access entry_specs push_entry_def)

text \<open>The bucket of a hash code: the low bits, for a capacity that is a power of two.\<close>

lemma HashToBucket_spec:
  assumes "view_wf ho v" "length (hv_buckets v) = 2 ^ k"
  shows "\<exists>b. HashToBucket (encode v) hash = Some b \<and> unat b = unat hash mod length (hv_buckets v)"
proof -
  have "(2 :: nat) ^ k \<le> 2 ^ 28" using view_wfD(6) [OF assms(1)] assms(2) by simp
  then have k: "k \<le> 28" by (rule power_le_imp_le_exp [rotated]) simp
  have "word_of_int (int (2 ^ k) - 1) = (mask k :: u32)" by (simp add: mask_eq_exp_minus_1)
  then have "HashToBucket (encode v) hash = Some (take_bit k hash)"
    using assms by (simp add: HashToBucket_def header_specs take_bit_eq_mask)
  moreover have "unat (take_bit k hash) = unat hash mod 2 ^ k"
    unfolding unsigned_take_bit_eq by (rule take_bit_eq_mod)
  ultimately show ?thesis using assms(2) by simp
qed

section \<open>Clearing and copying an entry\<close>

definition set_entry :: "hash_view \<Rightarrow> nat \<Rightarrow> JSTaggedValue list \<Rightarrow> hash_view" where
  "set_entry v e xs = v\<lparr>hv_entries := (hv_entries v)[e := xs]\<rparr>"

lemma set_entry_simps [simp]:
  "hv_elements (set_entry v e xs) = hv_elements v" "hv_deleted (set_entry v e xs) = hv_deleted v"
  "hv_next (set_entry v e xs) = hv_next v" "hv_buckets (set_entry v e xs) = hv_buckets v"
  "hv_entries (set_entry v e xs) = (hv_entries v)[e := xs]"
  by (simp_all add: set_entry_def)

lemma entry_index_put_slot [simp]: "entry_index ho (put_slot v e j x) = entry_index ho v"
  by (simp add: entry_index_def fun_eq_iff)

lemma fill_entry_spec:
  assumes "view_wf ho v" "e < length (hv_buckets v)"
  shows "fill_entry (ENTRY_SIZE ho) (encode v) (int (entry_index ho v e 0)) =
    Some (encode (set_entry v e (replicate (ENTRY_SIZE ho) VHole @ [hv_entries v ! e ! ENTRY_SIZE ho])))"
proof -
  have loop: "fill_entry c (encode w) (int (entry_index ho w e 0) + int j) =
      Some (encode (set_entry w e (take j (hv_entries w ! e) @ replicate c VHole @ drop (j + c) (hv_entries w ! e))))"
    if "view_wf ho w" "e < length (hv_buckets w)" "j + c \<le> ENTRY_SIZE ho" for c j w
    using that
  proof (induction c arbitrary: j w)
    case 0
    then show ?case by (simp add: set_entry_def)
  next
    case (Suc c)
    let ?w = "put_slot w e j VHole"
    have len: "length (hv_entries w ! e) = Suc (ENTRY_SIZE ho)" "e < length (hv_entries w)"
      using view_wfD(4,7) [OF Suc.prems(1)] Suc.prems(2) by simp_all
    have "fill_entry c (encode ?w) (int (entry_index ho ?w e 0) + int (Suc j)) =
        Some (encode (set_entry ?w e (take (Suc j) (hv_entries ?w ! e) @ replicate c VHole @ drop (Suc j + c) (hv_entries ?w ! e))))"
      using Suc.prems by (intro Suc.IH) simp_all
    moreover have "take (Suc j) (hv_entries ?w ! e) = take j (hv_entries w ! e) @ [VHole]"
      using len Suc.prems(3) by (simp add: take_Suc_conv_app_nth)
    moreover have "set_entry ?w e xs = set_entry w e xs" for xs by (simp add: set_entry_def put_slot_def)
    ultimately show ?case
      using slot_access(2) [OF Suc.prems(1,2), of j VHole] Suc.prems(3) len by (simp add: algebra_simps)
  qed
  have "length (hv_entries v ! e) = Suc (ENTRY_SIZE ho)" using view_wfD(7) [OF assms(1)] assms(2) by simp
  then have "drop (ENTRY_SIZE ho) (hv_entries v ! e) = [hv_entries v ! e ! ENTRY_SIZE ho]"
    by (simp add: Cons_nth_drop_Suc [symmetric])
  then show ?thesis using loop [OF assms, of 0 "ENTRY_SIZE ho"] by simp
qed

lemma copy_slots_spec:
  assumes "view_wf ho v" "e < length (hv_buckets v)" "view_wf ho w" "d < length (hv_buckets w)"
  shows "copy_slots (ENTRY_SIZE ho) (encode w) (int (entry_index ho w d 0)) (encode v) (int (entry_index ho v e 0)) =
    Some (encode (set_entry w d (take (ENTRY_SIZE ho) (hv_entries v ! e) @ [hv_entries w ! d ! ENTRY_SIZE ho])))"
proof -
  have e: "length (hv_entries v ! e) = Suc (ENTRY_SIZE ho)" using view_wfD(7) [OF assms(1)] assms(2) by simp
  have loop: "copy_slots c (encode w) (int (entry_index ho w d 0) + int j) (encode v) (int (entry_index ho v e 0) + int j) =
      Some (encode (set_entry w d (take j (hv_entries w ! d) @ take c (drop j (hv_entries v ! e)) @ drop (j + c) (hv_entries w ! d))))"
    if "view_wf ho w" "d < length (hv_buckets w)" "j + c \<le> ENTRY_SIZE ho" for c j w
    using that
  proof (induction c arbitrary: j w)
    case 0
    then show ?case by (simp add: set_entry_def)
  next
    case (Suc c)
    let ?x = "hv_entries v ! e ! j"
    let ?w = "put_slot w d j ?x"
    have len: "length (hv_entries w ! d) = Suc (ENTRY_SIZE ho)" "d < length (hv_entries w)"
      using view_wfD(4,7) [OF Suc.prems(1)] Suc.prems(2) by simp_all
    have "copy_slots c (encode ?w) (int (entry_index ho ?w d 0) + int (Suc j)) (encode v) (int (entry_index ho v e 0) + int (Suc j)) =
        Some (encode (set_entry ?w d (take (Suc j) (hv_entries ?w ! d) @ take c (drop (Suc j) (hv_entries v ! e)) @
          drop (Suc j + c) (hv_entries ?w ! d))))"
      using Suc.prems by (intro Suc.IH) simp_all
    moreover have "take (Suc j) (hv_entries ?w ! d) = take j (hv_entries w ! d) @ [?x]"
      using len Suc.prems(3) by (simp add: take_Suc_conv_app_nth)
    moreover have "take (Suc c) (drop j (hv_entries v ! e)) = ?x # take c (drop (Suc j) (hv_entries v ! e))"
      using e Suc.prems(3) by (simp add: Cons_nth_drop_Suc [symmetric])
    moreover have "set_entry ?w d xs = set_entry w d xs" for xs by (simp add: set_entry_def put_slot_def)
    ultimately show ?case
      using slot_access(2) [OF Suc.prems(1,2), of j ?x] slot_access(1) [OF assms(1,2), of j] Suc.prems(3) len
      by (simp add: algebra_simps)
  qed
  have "length (hv_entries w ! d) = Suc (ENTRY_SIZE ho)" using view_wfD(7) [OF assms(3)] assms(4) by simp
  then have "drop (ENTRY_SIZE ho) (hv_entries w ! d) = [hv_entries w ! d ! ENTRY_SIZE ho]"
    by (simp add: Cons_nth_drop_Suc [symmetric])
  then show ?thesis using loop [OF assms(3,4), of 0 "ENTRY_SIZE ho"] by simp
qed

end
