(* ===== verification/Slot_Lists.thy ===== *)
theory Slot_Lists
  imports Prelude
begin

text \<open>
  Lists of slots, some of them empty, as the entries of a \<open>Map\<close> are kept both by the language specification,
  which never reuses a slot, and by the hash tables, which drop the empty ones when they are rebuilt.  Two
  such lists mean the same if their occupied slots agree; a position in one corresponds to a position in
  the other if the same number of occupied slots lies before it.
\<close>

definition lives :: "'a option list \<Rightarrow> 'a list" where
  "lives xs = map the (filter (\<lambda>x. x \<noteq> None) xs)"

definition live_before :: "'a option list \<Rightarrow> nat \<Rightarrow> nat" where
  "live_before xs i = length (lives (take i xs))"

lemma lives_simps [simp]:
  "lives [] = []" "lives (None # xs) = lives xs" "lives (Some x # xs) = x # lives xs"
  "lives (xs @ ys) = lives xs @ lives ys" "lives (map Some zs) = zs" "lives (map (\<lambda>_. None) ws) = []"
  by (simp_all add: lives_def comp_def)

lemma length_lives_le: "length (lives xs) \<le> length xs"
  by (simp add: lives_def)

lemma live_before_simps [simp]:
  "live_before xs 0 = 0" "live_before [] i = 0" "length xs \<le> i \<Longrightarrow> live_before xs i = length (lives xs)"
  "i \<le> length xs \<Longrightarrow> live_before (xs @ ys) i = live_before xs i"
  "live_before (map (\<lambda>_. None) ws) i = 0"
  by (simp_all add: live_before_def take_map)

lemma live_before_Cons_Suc [simp]:
  "live_before (None # xs) (Suc i) = live_before xs i" "live_before (Some x # xs) (Suc i) = Suc (live_before xs i)"
  by (simp_all add: live_before_def)

lemma live_before_all [simp]: "i \<le> length zs \<Longrightarrow> live_before (map Some zs) i = i"
  by (simp add: live_before_def take_map)

lemma live_before_le: "live_before xs i \<le> length (lives xs)" "live_before xs i \<le> i"
proof -
  have "length (lives xs) = length (lives (take i xs)) + length (lives (drop i xs))"
    by (metis append_take_drop_id length_append lives_simps(4))
  then show "live_before xs i \<le> length (lives xs)" by (simp add: live_before_def)
  show "live_before xs i \<le> i" using length_lives_le [of "take i xs"] by (simp add: live_before_def)
qed

lemma live_before_mono: "i \<le> j \<Longrightarrow> live_before xs i \<le> live_before xs j"
  by (metis live_before_def live_before_le(1) min.absorb1 take_take)

lemma live_before_Suc:
  "i < length xs \<Longrightarrow> live_before xs (Suc i) = (case xs ! i of None \<Rightarrow> live_before xs i | Some x \<Rightarrow> Suc (live_before xs i))"
  by (simp add: live_before_def take_Suc_conv_app_nth split: option.split)

section \<open>Changing an occupied slot\<close>

lemma lives_split:
  assumes "e < length xs" "xs ! e = Some p"
  shows "lives xs = lives (take e xs) @ p # lives (drop (Suc e) xs)"
  by (subst id_take_nth_drop [OF assms(1)]) (simp add: assms(2))

lemma lives_nth:
  assumes "e < length xs" "xs ! e = Some p"
  shows "live_before xs e < length (lives xs)" "lives xs ! live_before xs e = p"
  using lives_split [OF assms] by (simp_all add: live_before_def)

lemma lives_update_Some:
  assumes "e < length xs" "xs ! e = Some p"
  shows "lives (xs[e := Some q]) = (lives xs)[live_before xs e := q]"
  using lives_split [of e "xs[e := Some q]" q] lives_split [OF assms] assms(1)
  by (simp add: live_before_def list_update_append)

lemma lives_update_None:
  assumes "e < length xs" "xs ! e = Some p"
  shows "lives (xs[e := None]) = take (live_before xs e) (lives xs) @ drop (Suc (live_before xs e)) (lives xs)"
proof -
  have "lives (xs[e := None]) = lives (take e xs) @ lives (drop (Suc e) xs)"
    by (subst upd_conv_take_nth_drop [OF assms(1)]) simp
  then show ?thesis using lives_split [OF assms] by (simp add: live_before_def)
qed

lemma live_before_update_Some:
  assumes "e < length xs" "xs ! e = Some p"
  shows "live_before (xs[e := Some q]) j = live_before xs j"
proof (cases "e < j")
  case True
  then have "take j xs ! e = Some p" "e < length (take j xs)" using assms by simp_all
  then show ?thesis using lives_update_Some [of e "take j xs" p q] by (simp add: live_before_def take_update_swap)
qed (simp add: live_before_def)

lemma live_before_update_None:
  assumes "e < length xs" "xs ! e = Some p" "j \<le> length xs"
  shows "live_before (xs[e := None]) j = (if live_before xs e < live_before xs j then live_before xs j - 1 else live_before xs j)"
proof (cases "e < j")
  case True
  then have t: "take j xs ! e = Some p" "e < length (take j xs)" using assms by simp_all
  have "live_before (take j xs) e = live_before xs e" using True by (simp add: live_before_def min_def)
  then have "live_before xs e < live_before xs j"
    using lives_nth(1) [OF t(2,1)] by (simp add: live_before_def)
  moreover have "live_before (xs[e := None]) j = live_before xs j - 1"
    using lives_update_None [OF t(2,1)] lives_nth(1) [OF t(2,1)] \<open>live_before (take j xs) e = live_before xs e\<close>
    by (simp add: live_before_def take_update_swap)
  ultimately show ?thesis by simp
next
  case False
  then have "live_before xs j \<le> live_before xs e" by (intro live_before_mono) simp
  moreover have "live_before (xs[e := None]) j = live_before xs j" using False by (simp add: live_before_def)
  ultimately show ?thesis by simp
qed

section \<open>Searching\<close>

definition slot_matches :: "('a \<Rightarrow> bool) \<Rightarrow> 'a option \<Rightarrow> bool" where
  "slot_matches P x = (case x of None \<Rightarrow> False | Some p \<Rightarrow> P p)"

definition slot_position :: "('a \<Rightarrow> bool) \<Rightarrow> 'a option list \<Rightarrow> nat" where
  "slot_position P xs = length (takeWhile (\<lambda>x. \<not> slot_matches P x) xs)"

lemma slot_position_found:
  assumes "slot_position P xs < length xs"
  obtains p where "xs ! slot_position P xs = Some p" "P p"
  using nth_length_takeWhile [of "\<lambda>x. \<not> slot_matches P x" xs] assms
  by (auto simp: slot_position_def slot_matches_def split: option.splits)

lemma slot_position_lives:
  "live_before xs (slot_position P xs) = length (takeWhile (\<lambda>p. \<not> P p) (lives xs))"
  "slot_position P xs < length xs \<longleftrightarrow> (\<exists>p \<in> set (lives xs). P p)"
proof -
  have "live_before xs (slot_position P xs) = length (takeWhile (\<lambda>p. \<not> P p) (lives xs)) \<and>
      (slot_position P xs < length xs \<longleftrightarrow> (\<exists>p \<in> set (lives xs). P p))"
  proof (induction xs)
    case (Cons x xs)
    then show ?case by (cases x) (simp_all add: slot_position_def slot_matches_def)
  qed (simp add: slot_position_def)
  then show "live_before xs (slot_position P xs) = length (takeWhile (\<lambda>p. \<not> P p) (lives xs))"
    "slot_position P xs < length xs \<longleftrightarrow> (\<exists>p \<in> set (lives xs). P p)" by blast+
qed

text \<open>If at most one occupied slot matches, any matching slot is at the position of the search among the occupied ones.\<close>

lemma unique_match_position:
  assumes "e < length xs" "xs ! e = Some p" "P p" "sorted_wrt (\<lambda>p q. \<not> (P p \<and> P q)) (lives xs)"
  shows "live_before xs e = length (takeWhile (\<lambda>p. \<not> P p) (lives xs))"
proof -
  let ?a = "lives (take e xs)"
  have l: "lives xs = ?a @ p # lives (drop (Suc e) xs)" using assms(1,2) by (rule lives_split)
  then have "\<not> P q" if "q \<in> set ?a" for q
    using assms(3,4) that unfolding l sorted_wrt_append by auto
  then have "takeWhile (\<lambda>p. \<not> P p) (lives xs) = ?a"
    unfolding l using assms(3) by (subst takeWhile_append2) auto
  then show ?thesis by (simp add: live_before_def)
qed

section \<open>Walking\<close>

text \<open>The first occupied slot from a position on.\<close>

definition next_slot :: "'a option list \<Rightarrow> nat \<Rightarrow> nat" where
  "next_slot xs i = i + length (takeWhile (\<lambda>x. x = None) (drop i xs))"

lemma next_slot_le: "i \<le> length xs \<Longrightarrow> next_slot xs i \<le> length xs"
  using length_takeWhile_le [of "\<lambda>x. x = None" "drop i xs"] by (simp add: next_slot_def)

lemma next_slot_skips:
  assumes "i \<le> length xs"
  shows "live_before xs (next_slot xs i) = live_before xs i"
proof -
  let ?ys = "takeWhile (\<lambda>x. x = None) (drop i xs)"
  have "take (next_slot xs i) xs = take i xs @ ?ys"
    by (simp add: next_slot_def take_add takeWhile_eq_take [symmetric])
  moreover have "lives ?ys = []" by (auto simp: lives_def filter_empty_conv dest: set_takeWhileD)
  ultimately show ?thesis by (simp add: live_before_def)
qed

lemma next_slot_found:
  assumes "i \<le> length xs"
  shows "next_slot xs i < length xs \<longleftrightarrow> live_before xs i < length (lives xs)"
    and "next_slot xs i < length xs \<Longrightarrow> xs ! next_slot xs i = Some (lives xs ! live_before xs i)"
    and "next_slot xs i < length xs \<Longrightarrow> live_before xs (Suc (next_slot xs i)) = Suc (live_before xs i)"
proof -
  have some: "\<exists>p. xs ! next_slot xs i = Some p" if "next_slot xs i < length xs"
  proof -
    have "length (takeWhile (\<lambda>x. x = None) (drop i xs)) < length (drop i xs)"
      using that by (simp add: next_slot_def)
    from nth_length_takeWhile [OF this] show ?thesis using that assms by (auto simp: next_slot_def)
  qed
  show at: "xs ! next_slot xs i = Some (lives xs ! live_before xs i)" if "next_slot xs i < length xs"
    using some [OF that] lives_nth [OF that] next_slot_skips [OF assms] by auto
  show "live_before xs (Suc (next_slot xs i)) = Suc (live_before xs i)" if "next_slot xs i < length xs"
    using live_before_Suc [OF that] at [OF that] next_slot_skips [OF assms] by simp
  show "next_slot xs i < length xs \<longleftrightarrow> live_before xs i < length (lives xs)"
  proof (cases "next_slot xs i < length xs")
    case True
    then show ?thesis using some [OF True] lives_nth(1) [OF True] next_slot_skips [OF assms] by auto
  next
    case False
    then show ?thesis using next_slot_skips [OF assms] by simp
  qed
qed

end
