(* ===== verification/Linked_Hash_Invariant.thy ===== *)
theory Linked_Hash_Invariant
  imports Linked_Hash_View Slot_Lists
begin

text \<open>
  The invariant of the ordered hash table and what its operations do to the list of its slots: the entries
  used so far in the order of insertion, \<open>None\<close> for a removed one, and \<open>Some\<close> of the key and value slots
  otherwise.
\<close>

section \<open>Invariant\<close>

definition entry_key :: "hash_view \<Rightarrow> nat \<Rightarrow> JSTaggedValue" where
  "entry_key v e = hv_entries v ! e ! 0"

definition link :: "hash_object \<Rightarrow> hash_view \<Rightarrow> nat \<Rightarrow> JSTaggedValue" where
  "link ho v e = hv_entries v ! e ! ENTRY_SIZE ho"

definition used :: "hash_view \<Rightarrow> nat" where
  "used v = nat (hv_elements v + hv_deleted v)"

definition slot_of :: "hash_object \<Rightarrow> JSTaggedValue list \<Rightarrow> JSTaggedValue list option" where
  "slot_of ho xs = (if xs ! 0 = VHole then None else Some (take (ENTRY_SIZE ho) xs))"

definition slots :: "hash_object \<Rightarrow> hash_view \<Rightarrow> JSTaggedValue list option list" where
  "slots ho v = map (slot_of ho) (take (used v) (hv_entries v))"

text \<open>The entries of a bucket, from its head along the links.\<close>

primrec chain :: "(nat \<Rightarrow> JSTaggedValue) \<Rightarrow> JSTaggedValue \<Rightarrow> nat list \<Rightarrow> bool" where
  "chain lk x [] \<longleftrightarrow> x = VHole"
| "chain lk x (e # es) \<longleftrightarrow> x = JSTaggedValue_int (int e) \<and> chain lk (lk e) es"

lemma chain_cong: "(\<And>e. e \<in> set es \<Longrightarrow> lk e = lk' e) \<Longrightarrow> chain lk x es \<longleftrightarrow> chain lk' x es"
  by (induction es arbitrary: x) auto

definition bucket_of :: "hash_env \<Rightarrow> nat \<Rightarrow> JSTaggedValue \<Rightarrow> nat" where
  "bucket_of env capacity key = unat (LinkedHash_Hash env key) mod capacity"

text \<open>Every bucket is a finite chain of used entries, and every live entry is in the chain of its bucket.\<close>

definition chains_ok :: "hash_env \<Rightarrow> hash_object \<Rightarrow> hash_view \<Rightarrow> nat \<Rightarrow> bool" where
  "chains_ok env ho v n \<longleftrightarrow> (\<forall>b < length (hv_buckets v). \<exists>es. chain (link ho v) (hv_buckets v ! b) es \<and> set es \<subseteq> {..<n} \<and>
     (\<forall>e < n. entry_key v e \<noteq> VHole \<and> bucket_of env (length (hv_buckets v)) (entry_key v e) = b \<longrightarrow> e \<in> set es))"

definition keys_ok :: "string_table \<Rightarrow> JSTaggedValue list list \<Rightarrow> bool" where
  "keys_ok st ps \<longleftrightarrow> (\<forall>p \<in> set ps. hd p \<in> valid_keys st) \<and>
     sorted_wrt (\<lambda>p q. \<not> JSTaggedValue_SameValueZero (hd p) (hd q)) ps"

definition hash_inv :: "hash_env \<Rightarrow> hash_object \<Rightarrow> string_table \<Rightarrow> hash_view \<Rightarrow> bool" where
  "hash_inv env ho st v \<longleftrightarrow> view_wf ho v \<and> (\<exists>k. length (hv_buckets v) = 2 ^ k) \<and> 0 \<le> hv_deleted v \<and>
     used v \<le> length (hv_buckets v) \<and> hv_elements v = int (length (lives (slots ho v))) \<and>
     chains_ok env ho v (used v) \<and> keys_ok st (lives (slots ho v))"

lemma slots_length: "view_wf ho v \<Longrightarrow> used v \<le> length (hv_buckets v) \<Longrightarrow> length (slots ho v) = used v"
  by (simp add: slots_def view_wf_def)

lemma slots_nth:
  "view_wf ho v \<Longrightarrow> used v \<le> length (hv_buckets v) \<Longrightarrow> e < used v \<Longrightarrow> slots ho v ! e = slot_of ho (hv_entries v ! e)"
  by (simp add: slots_def view_wf_def)

lemma slot_of_None [simp]: "slot_of ho xs = None \<longleftrightarrow> xs ! 0 = VHole"
  by (simp add: slot_of_def)

lemma slot_of_Some: "slot_of ho xs = Some p \<longleftrightarrow> xs ! 0 \<noteq> VHole \<and> p = take (ENTRY_SIZE ho) xs"
  by (auto simp: slot_of_def)

lemma hd_payload: "0 < ENTRY_SIZE ho \<Longrightarrow> length xs = Suc (ENTRY_SIZE ho) \<Longrightarrow> hd (take (ENTRY_SIZE ho) xs) = xs ! 0"
  by (cases xs) (simp_all add: take_Cons')

lemma live_slot:
  assumes "view_wf ho v" "used v \<le> length (hv_buckets v)" "e < used v" "entry_key v e \<noteq> VHole"
  shows "slots ho v ! e = Some (take (ENTRY_SIZE ho) (hv_entries v ! e))"
    and "hd (take (ENTRY_SIZE ho) (hv_entries v ! e)) = entry_key v e"
    and "take (ENTRY_SIZE ho) (hv_entries v ! e) \<in> set (lives (slots ho v))"
proof -
  show s: "slots ho v ! e = Some (take (ENTRY_SIZE ho) (hv_entries v ! e))"
    using slots_nth [OF assms(1-3)] assms(4) by (simp add: slot_of_def entry_key_def)
  have "length (hv_entries v ! e) = Suc (ENTRY_SIZE ho)" using view_wfD(7) [OF assms(1)] assms(2,3) by simp
  then show "hd (take (ENTRY_SIZE ho) (hv_entries v ! e)) = entry_key v e"
    unfolding entry_key_def by (rule hd_payload [OF view_wfD(3) [OF assms(1)]])
  have "e < length (slots ho v)" using slots_length [OF assms(1,2)] assms(3) by simp
  then show "take (ENTRY_SIZE ho) (hv_entries v ! e) \<in> set (lives (slots ho v))"
    using lives_nth [OF _ s] by (metis nth_mem)
qed

section \<open>Finding a key\<close>

lemma find_loop_chain:
  assumes "view_wf ho v" "chain (link ho v) x es" "set es \<subseteq> {..<length (hv_buckets v)}"
  shows "find_loop ho (encode v) key x =
    Some (case List.find (\<lambda>e. entry_key v e \<noteq> VHole \<and> JSTaggedValue_SameValueZero key (entry_key v e)) es of
      None \<Rightarrow> - 1 | Some e \<Rightarrow> int e)"
  using assms(2,3)
proof (induction es arbitrary: x)
  case Nil
  then show ?case by (subst find_loop.simps) simp
next
  case (Cons e es)
  have e: "e < length (hv_buckets v)" using Cons.prems(2) by simp
  then have "int e < 2147483648" using view_wfD(6) [OF assms(1)] by linarith
  then show ?case
    using Cons.prems Cons.IH [of "link ho v e"] entry_specs [OF assms(1) e]
    by (subst find_loop.simps) (auto simp: entry_key_def link_def)
qed

lemma FindElement_cases:
  assumes "hash_inv env ho st v" "key \<in> valid_keys st"
  obtains (found) e p where "FindElement env ho (encode v) key = Some (int e)" "e < length (slots ho v)"
      "slots ho v ! e = Some p" "JSTaggedValue_SameValueZero key (hd p)"
  | (absent) "FindElement env ho (encode v) key = Some (- 1)"
      "\<forall>p \<in> set (lives (slots ho v)). \<not> JSTaggedValue_SameValueZero key (hd p)"
proof -
  have wf: "view_wf ho v" and le: "used v \<le> length (hv_buckets v)" using assms(1) by (simp_all add: hash_inv_def)
  obtain k where k: "length (hv_buckets v) = 2 ^ k" using assms(1) by (auto simp: hash_inv_def)
  obtain b where b: "HashToBucket (encode v) (LinkedHash_Hash env key) = Some b"
      "unat b = bucket_of env (length (hv_buckets v)) key"
    using HashToBucket_spec [OF wf k, of "LinkedHash_Hash env key"] by (auto simp: bucket_of_def)
  have bl: "unat b < length (hv_buckets v)" unfolding b(2) bucket_of_def using k by simp
  then obtain es where es: "chain (link ho v) (hv_buckets v ! unat b) es" "set es \<subseteq> {..<used v}"
      "\<And>e. e < used v \<Longrightarrow> entry_key v e \<noteq> VHole \<Longrightarrow> bucket_of env (length (hv_buckets v)) (entry_key v e) = unat b \<Longrightarrow> e \<in> set es"
    using assms(1) unfolding hash_inv_def chains_ok_def by blast
  have sub: "set es \<subseteq> {..<length (hv_buckets v)}" using es(2) le by auto
  let ?P = "\<lambda>e. entry_key v e \<noteq> VHole \<and> JSTaggedValue_SameValueZero key (entry_key v e)"
  have "IsKey key" using assms(2) by (auto simp: IsKey_def valid_keys_def)
  then have f: "FindElement env ho (encode v) key = Some (case List.find ?P es of None \<Rightarrow> - 1 | Some e \<Rightarrow> int e)"
    using find_loop_chain [OF wf es(1) sub, of key] b(1) bucket_access(1) [OF wf bl] by (simp add: FindElement_def)
  show thesis
  proof (cases "List.find ?P es")
    case None
    have "\<not> JSTaggedValue_SameValueZero key (hd p)" if p: "p \<in> set (lives (slots ho v))" for p
    proof
      assume same: "JSTaggedValue_SameValueZero key (hd p)"
      have "Some p \<in> set (slots ho v)" using p by (auto simp: lives_def)
      then obtain e where e: "e < used v" "slot_of ho (hv_entries v ! e) = Some p"
        using slots_length [OF wf le] slots_nth [OF wf le] by (metis in_set_conv_nth)
      then have key: "entry_key v e \<noteq> VHole" "hd p = entry_key v e"
        using live_slot(2) [OF wf le e(1)] by (auto simp: slot_of_Some entry_key_def)
      have "hd p \<in> valid_keys st" using assms(1) p by (auto simp: hash_inv_def keys_ok_def)
      then have "LinkedHash_Hash env key = LinkedHash_Hash env (entry_key v e)"
        using map_keys.hash_law [OF assms(2) _ same] key(2) by simp
      then have "e \<in> set es" using es(3) [OF e(1) key(1)] b(2) by (simp add: bucket_of_def)
      then show False using None key same by (auto simp: find_None_iff)
    qed
    then show thesis using absent f None by simp
  next
    case (Some e)
    then have e: "e \<in> set es" "entry_key v e \<noteq> VHole" "JSTaggedValue_SameValueZero key (entry_key v e)"
      by (auto simp: find_Some_iff)
    then have "e < used v" using es(2) by auto
    then show thesis
      using found [of e "take (ENTRY_SIZE ho) (hv_entries v ! e)"] live_slot [OF wf le _ e(2)] e(3) f Some
        slots_length [OF wf le] by simp
  qed
qed

text \<open>At most one live entry matches a key.\<close>

lemma keys_ok_unique:
  assumes "keys_ok st ps" "key \<in> valid_keys st"
  shows "sorted_wrt (\<lambda>p q. \<not> (JSTaggedValue_SameValueZero key (hd p) \<and> JSTaggedValue_SameValueZero key (hd q))) ps"
proof -
  have "sorted_wrt (\<lambda>p q. \<not> JSTaggedValue_SameValueZero (hd p) (hd q)) ps" "\<forall>p \<in> set ps. hd p \<in> valid_keys st"
    using assms(1) by (simp_all add: keys_ok_def)
  then show ?thesis
    by (elim sorted_wrt_mono_rel [rotated]) (use map_keys.match_unique [OF assms(2)] in blast)
qed

section \<open>Changing one entry\<close>

text \<open>The invariant depends on a few fields only.\<close>

lemma chains_ok_cong:
  assumes "chains_ok env ho v n" "hv_buckets w = hv_buckets v" "\<And>e. e < n \<Longrightarrow> link ho w e = link ho v e"
    and "\<And>e. e < n \<Longrightarrow> entry_key w e \<noteq> VHole \<Longrightarrow> entry_key v e \<noteq> VHole \<and>
      bucket_of env (length (hv_buckets v)) (entry_key w e) = bucket_of env (length (hv_buckets v)) (entry_key v e)"
  shows "chains_ok env ho w n"
  unfolding chains_ok_def assms(2)
proof (intro allI impI)
  fix b assume "b < length (hv_buckets v)"
  then obtain es where es: "chain (link ho v) (hv_buckets v ! b) es" "set es \<subseteq> {..<n}"
      "\<forall>e < n. entry_key v e \<noteq> VHole \<and> bucket_of env (length (hv_buckets v)) (entry_key v e) = b \<longrightarrow> e \<in> set es"
    using assms(1) unfolding chains_ok_def by blast
  have "chain (link ho w) (hv_buckets v ! b) es"
    using es(1) chain_cong [of es "link ho w" "link ho v"] assms(3) es(2) by auto
  then show "\<exists>es. chain (link ho w) (hv_buckets v ! b) es \<and> set es \<subseteq> {..<n} \<and>
      (\<forall>e < n. entry_key w e \<noteq> VHole \<and> bucket_of env (length (hv_buckets v)) (entry_key w e) = b \<longrightarrow> e \<in> set es)"
    using es assms(4) by (intro exI [of _ es]) metis
qed

lemma keys_ok_update:
  assumes "keys_ok st ps" "i < length ps" "hd q \<in> valid_keys st" "JSTaggedValue_SameValueZero (hd q) (hd (ps ! i))"
  shows "keys_ok st (ps[i := q])"
proof -
  let ?same = "\<lambda>p q. JSTaggedValue_SameValueZero (hd p) (hd q)"
  have ps: "\<forall>p \<in> set ps. hd p \<in> valid_keys st" "sorted_wrt (\<lambda>p q. \<not> ?same p q) ps"
    using assms(1) by (simp_all add: keys_ok_def)
  have pi: "hd (ps ! i) \<in> valid_keys st" using ps(1) assms(2) by simp
  have rev: "?same (ps ! i) q" using map_keys.sym_law [OF assms(3) pi assms(4)] .
  have "\<not> ?same (ps[i := q] ! j) (ps[i := q] ! k)" if jk: "j < k" "k < length ps" for j k
  proof -
    have orig: "\<not> ?same (ps ! j) (ps ! k)" using sorted_wrt_nth_less [OF ps(2) jk(1)] jk(2) by simp
    have v: "hd (ps ! j) \<in> valid_keys st" "hd (ps ! k) \<in> valid_keys st" using ps(1) jk by simp_all
    consider "j = i" | "k = i" | "j \<noteq> i" "k \<noteq> i" by blast
    then show ?thesis
    proof cases
      case 1
      then show ?thesis using orig jk map_keys.trans_law [OF pi assms(3) v(2) rev] by auto
    next
      case 2
      then show ?thesis using orig jk map_keys.trans_law [OF v(1) assms(3) pi _ assms(4)] by auto
    qed (use orig in simp)
  qed
  moreover have "\<forall>p \<in> set (ps[i := q]). hd p \<in> valid_keys st"
    using ps(1) assms(3) set_update_subset_insert [of ps i q] by blast
  ultimately show ?thesis by (simp add: keys_ok_def sorted_wrt_iff_nth_less)
qed

lemma keys_ok_remove: "keys_ok st ps \<Longrightarrow> keys_ok st (take i ps @ drop (Suc i) ps)"
proof -
  assume "keys_ok st ps"
  then have "keys_ok st (take i ps @ drop i ps)" by simp
  moreover have "set (drop (Suc i) ps) \<subseteq> set (drop i ps)" by (rule set_drop_subset_set_drop) simp
  moreover have "sorted_wrt P (drop (Suc i) ps)" if "sorted_wrt P ps" for P using that by (rule sorted_wrt_drop)
  ultimately show ?thesis using \<open>keys_ok st ps\<close> unfolding keys_ok_def sorted_wrt_append
    by (auto dest: in_set_takeD in_set_dropD)
qed

lemma slots_update:
  assumes "view_wf ho v" "used v \<le> length (hv_buckets v)" "used w = used v" "hv_entries w = (hv_entries v)[e := xs]"
  shows "slots ho w = (slots ho v)[e := slot_of ho xs]"
  using assms by (simp add: slots_def take_update_swap map_update)

lemma SetValue_inv:
  assumes inv: "hash_inv env ho st v" and e: "e < length (slots ho v)" and p: "slots ho v ! e = Some p"
    and x: "ENTRY_VALUE_INDEX ho = 0 \<longrightarrow> x \<in> valid_keys st \<and> JSTaggedValue_SameValueZero x (hd p)"
  defines "w \<equiv> put_slot v e (ENTRY_VALUE_INDEX ho) x"
  shows "SetValue ho (encode v) (int e) x = Some (encode w)" "hash_inv env ho st w"
    "slots ho w = (slots ho v)[e := Some (p[ENTRY_VALUE_INDEX ho := x])]" "hv_next w = hv_next v"
proof -
  have wf: "view_wf ho v" and le: "used v \<le> length (hv_buckets v)" using inv by (simp_all add: hash_inv_def)
  have u: "e < used v" "e < length (hv_buckets v)" "e < length (hv_entries v)"
    using e slots_length [OF wf le] le view_wfD(4) [OF wf] by simp_all
  have len: "length (hv_entries v ! e) = Suc (ENTRY_SIZE ho)" using view_wfD(7) [OF wf u(2)] .
  have so: "slot_of ho (hv_entries v ! e) = Some p" using p slots_nth [OF wf le u(1)] by simp
  then have key: "entry_key v e \<noteq> VHole" "p = take (ENTRY_SIZE ho) (hv_entries v ! e)"
    by (auto simp: slot_of_Some entry_key_def)
  have hd: "hd p = entry_key v e" using live_slot(2) [OF wf le u(1) key(1)] key(2) by simp
  have lt: "ENTRY_VALUE_INDEX ho < ENTRY_SIZE ho" using view_wfD(1) [OF wf] .
  show "SetValue ho (encode v) (int e) x = Some (encode w)" using entry_specs(5) [OF wf u(2)] by (simp add: w_def)
  have x0: "x \<noteq> VHole" if "ENTRY_VALUE_INDEX ho = 0" using x that by (auto simp: valid_keys_def)
  have key0: "(hv_entries v ! e)[ENTRY_VALUE_INDEX ho := x] ! 0 = (if ENTRY_VALUE_INDEX ho = 0 then x else entry_key v e)"
    using len by (simp add: entry_key_def)
  have "slot_of ho ((hv_entries v ! e)[ENTRY_VALUE_INDEX ho := x]) = Some (p[ENTRY_VALUE_INDEX ho := x])"
    using key x0 key0 by (simp add: slot_of_def take_update_swap)
  moreover have uw: "used w = used v" by (simp add: used_def w_def)
  ultimately show s: "slots ho w = (slots ho v)[e := Some (p[ENTRY_VALUE_INDEX ho := x])]"
    using slots_update [OF wf le uw, of e "(hv_entries v ! e)[ENTRY_VALUE_INDEX ho := x]"] by (simp add: w_def)
  show "hv_next w = hv_next v" by (simp add: w_def)
  have pl: "length p = ENTRY_SIZE ho" using key(2) len by simp
  have hdq: "hd (p[ENTRY_VALUE_INDEX ho := x]) = (if ENTRY_VALUE_INDEX ho = 0 then x else hd p)"
    using pl lt by (cases p; cases "ENTRY_VALUE_INDEX ho") auto
  have "hd p \<in> valid_keys st"
    using inv live_slot(3) [OF wf le u(1) key(1)] key(2) by (auto simp: hash_inv_def keys_ok_def)
  then have hdq_ok: "hd (p[ENTRY_VALUE_INDEX ho := x]) \<in> valid_keys st"
      "JSTaggedValue_SameValueZero (hd (p[ENTRY_VALUE_INDEX ho := x])) (hd p)"
    using x hdq map_keys.refl_law by auto
  have lives: "lives (slots ho w) = (lives (slots ho v))[live_before (slots ho v) e := p[ENTRY_VALUE_INDEX ho := x]]"
    using lives_update_Some [OF e p] s by simp
  have "keys_ok st (lives (slots ho w))"
    unfolding lives using inv lives_nth [OF e p] hdq_ok by (intro keys_ok_update) (auto simp: hash_inv_def)
  moreover have "chains_ok env ho w (used v)"
  proof (rule chains_ok_cong)
    show "chains_ok env ho v (used v)" using inv by (simp add: hash_inv_def)
    show "hv_buckets w = hv_buckets v" by (simp add: w_def)
    show "link ho w d = link ho v d" if "d < used v" for d
      using lt u(3) by (cases "d = e") (auto simp: link_def w_def)
    have "bucket_of env c (hd (p[ENTRY_VALUE_INDEX ho := x])) = bucket_of env c (hd p)" for c
      using map_keys.hash_law [OF hdq_ok(1) \<open>hd p \<in> valid_keys st\<close> hdq_ok(2)] by (simp add: bucket_of_def)
    then show "entry_key v d \<noteq> VHole \<and>
        bucket_of env (length (hv_buckets v)) (entry_key w d) = bucket_of env (length (hv_buckets v)) (entry_key v d)"
      if "d < used v" "entry_key w d \<noteq> VHole" for d
      using that u(3) key key0 hd hdq by (cases "d = e") (auto simp: entry_key_def w_def split: if_splits)
  qed
  ultimately show "hash_inv env ho st w"
    using inv uw lives by (simp add: hash_inv_def w_def)
qed

definition removed_view :: "hash_object \<Rightarrow> hash_view \<Rightarrow> nat \<Rightarrow> hash_view" where
  "removed_view ho v e =
     (set_entry v e (replicate (ENTRY_SIZE ho) VHole @ [link ho v e]))
       \<lparr>hv_elements := hv_elements v - 1, hv_deleted := hv_deleted v + 1\<rparr>"

lemma header_wf:
  "view_wf ho v \<Longrightarrow> n \<in> {0..int table_limit} \<Longrightarrow> d \<in> {- 1..int table_limit} \<Longrightarrow>
   view_wf ho (v\<lparr>hv_elements := n, hv_deleted := d\<rparr>)"
  by (simp add: view_wf_def)

lemma set_entry_wf: "view_wf ho v \<Longrightarrow> length xs = Suc (ENTRY_SIZE ho) \<Longrightarrow> view_wf ho (set_entry v e xs)"
  by (cases "e < length (hv_entries v)") (auto simp: view_wf_def list_all_length nth_list_update)

lemma used_bound:
  assumes "view_wf ho v" "used v \<le> n" "n \<le> length (hv_buckets v)"
  shows "hv_elements v + hv_deleted v \<le> int n" "hv_elements v + hv_deleted v \<le> int table_limit"
proof -
  show "hv_elements v + hv_deleted v \<le> int n" using assms(2) by (simp add: used_def)
  also have "int n \<le> int table_limit" using assms by (simp add: view_wf_def)
  finally show "hv_elements v + hv_deleted v \<le> int table_limit" .
qed

lemma RemoveEntry_inv:
  assumes inv: "hash_inv env ho st v" and e: "e < length (slots ho v)" and p: "slots ho v ! e = Some p"
  defines "w \<equiv> removed_view ho v e"
  shows "RemoveEntry ho (encode v) (int e) = Some (encode w)" "hash_inv env ho st w"
    "slots ho w = (slots ho v)[e := None]" "hv_next w = hv_next v"
proof -
  have wf: "view_wf ho v" and le: "used v \<le> length (hv_buckets v)" using inv by (simp_all add: hash_inv_def)
  have u: "e < used v" "e < length (hv_buckets v)" "e < length (hv_entries v)"
    using e slots_length [OF wf le] le view_wfD(4) [OF wf] by simp_all
  let ?xs = "replicate (ENTRY_SIZE ho) VHole @ [link ho v e]"
  have n: "hv_elements v = int (length (lives (slots ho v)))" "0 < length (lives (slots ho v))"
    using inv lives_nth(1) [OF e p] by (auto simp: hash_inv_def)
  have d: "0 \<le> hv_deleted v" "hv_elements v + hv_deleted v \<le> int table_limit"
    using inv used_bound(2) [OF wf le order_refl] by (simp_all add: hash_inv_def)
  have wf1: "view_wf ho (set_entry v e ?xs)" using wf by (intro set_entry_wf) simp_all
  have wf2: "view_wf ho (set_entry v e ?xs\<lparr>hv_elements := hv_elements v - 1\<rparr>)"
    using wf1 n d by (simp add: view_wf_def)
  have wfw: "view_wf ho w"
    using header_wf [OF wf1, of "hv_elements v - 1" "hv_deleted v + 1"] n d by (simp add: w_def removed_view_def)
  show "RemoveEntry ho (encode v) (int e) = Some (encode w)"
    using EntryToIndex_spec [OF wf, of e] fill_entry_spec [OF wf u(2)] header_specs [OF wf1] header_specs [OF wf2]
    by (simp add: RemoveEntry_def link_def w_def removed_view_def)
  have uw: "used w = used v" by (simp add: used_def w_def removed_view_def)
  have none: "slot_of ho ?xs = None" using view_wfD(3) [OF wf] by (simp add: nth_append)
  show s: "slots ho w = (slots ho v)[e := None]"
    using slots_update [OF wf le uw, of e ?xs] unfolding none by (simp add: w_def removed_view_def)
  show "hv_next w = hv_next v" by (simp add: w_def removed_view_def)
  have lives: "lives (slots ho w) =
      take (live_before (slots ho v) e) (lives (slots ho v)) @ drop (Suc (live_before (slots ho v) e)) (lives (slots ho v))"
    using lives_update_None [OF e p] s by simp
  have "length (lives (slots ho w)) = length (lives (slots ho v)) - 1"
    using lives lives_nth(1) [OF e p] by simp
  moreover have "hv_elements w = hv_elements v - 1" by (simp add: w_def removed_view_def)
  ultimately have "hv_elements w = int (length (lives (slots ho w)))" using n by linarith
  moreover have "keys_ok st (lives (slots ho w))"
    unfolding lives using inv by (intro keys_ok_remove) (simp add: hash_inv_def)
  moreover have "chains_ok env ho w (used v)"
  proof (rule chains_ok_cong)
    show "chains_ok env ho v (used v)" using inv by (simp add: hash_inv_def)
    show "hv_buckets w = hv_buckets v" by (simp add: w_def removed_view_def)
    show "link ho w c = link ho v c" for c
      using u(3) by (cases "c = e") (auto simp: link_def w_def removed_view_def nth_append)
    show "entry_key v c \<noteq> VHole \<and>
        bucket_of env (length (hv_buckets v)) (entry_key w c) = bucket_of env (length (hv_buckets v)) (entry_key v c)"
      if "entry_key w c \<noteq> VHole" for c
      using that u(3) view_wfD(3) [OF wf] by (cases "c = e") (auto simp: entry_key_def w_def removed_view_def nth_append)
  qed
  ultimately show "hash_inv env ho st w"
    using inv uw d wfw by (simp add: hash_inv_def w_def removed_view_def)
qed

section \<open>Adding an entry\<close>

lemma chains_ok_push:
  assumes "chains_ok env ho v n" "b < length (hv_buckets v)"
    and "hv_buckets w = (hv_buckets v)[b := JSTaggedValue_int (int n)]" "link ho w n = hv_buckets v ! b"
    and "\<And>e. e < n \<Longrightarrow> hv_entries w ! e = hv_entries v ! e"
    and "bucket_of env (length (hv_buckets v)) (entry_key w n) = b"
  shows "chains_ok env ho w (Suc n)"
  unfolding chains_ok_def
proof (intro allI impI)
  fix c assume "c < length (hv_buckets w)"
  then have c: "c < length (hv_buckets v)" "length (hv_buckets w) = length (hv_buckets v)" using assms(3) by simp_all
  then obtain es where es: "chain (link ho v) (hv_buckets v ! c) es" "set es \<subseteq> {..<n}"
      "\<forall>e < n. entry_key v e \<noteq> VHole \<and> bucket_of env (length (hv_buckets v)) (entry_key v e) = c \<longrightarrow> e \<in> set es"
    using assms(1) unfolding chains_ok_def by blast
  have old: "link ho w e = link ho v e" "entry_key w e = entry_key v e" if "e < n" for e
    using assms(5) [OF that] by (simp_all add: link_def entry_key_def)
  have "chain (link ho w) (hv_buckets v ! c) es"
    using es(1) chain_cong [of es "link ho w" "link ho v"] old(1) es(2) by auto
  then have "chain (link ho w) (hv_buckets w ! c) (if c = b then n # es else es)"
    using assms(3,4) c(1) by (cases "c = b") simp_all
  then show "\<exists>es. chain (link ho w) (hv_buckets w ! c) es \<and> set es \<subseteq> {..<Suc n} \<and> (\<forall>e < Suc n. entry_key w e \<noteq> VHole \<and>
      bucket_of env (length (hv_buckets w)) (entry_key w e) = c \<longrightarrow> e \<in> set es)"
    using es(2,3) old(2) assms(6) c(2)
    by (intro exI [of _ "if c = b then n # es else es"]) (auto simp: less_Suc_eq)
qed

definition payload :: "hash_object \<Rightarrow> JSTaggedValue \<Rightarrow> JSTaggedValue \<Rightarrow> JSTaggedValue list" where
  "payload ho key v = (replicate (ENTRY_SIZE ho) VHole)[0 := key, ENTRY_VALUE_INDEX ho := v]"

lemma layout_cases:
  assumes "layout_ok ho"
  obtains "ENTRY_SIZE ho = 1" "ENTRY_VALUE_INDEX ho = 0" | "ENTRY_SIZE ho = 2" "ENTRY_VALUE_INDEX ho = 1"
  using assms by (force simp: layout_ok_def)

lemma payload_layout:
  assumes "layout_ok ho" "length xs = Suc (ENTRY_SIZE ho)" "ENTRY_VALUE_INDEX ho = 0 \<longrightarrow> x = key"
  shows "take (ENTRY_SIZE ho) (xs[0 := key, ENTRY_VALUE_INDEX ho := x]) = payload ho key x"
    and "xs[0 := key, ENTRY_VALUE_INDEX ho := x] ! 0 = key" "hd (payload ho key x) = key"
    and "xs[0 := key, ENTRY_VALUE_INDEX ho := x] ! ENTRY_SIZE ho = xs ! ENTRY_SIZE ho"
  using assms(1)
  by (rule layout_cases; use assms(2,3) in \<open>auto simp: payload_def length_Suc_conv numeral_2_eq_2\<close>)+

definition added_view :: "hash_env \<Rightarrow> hash_object \<Rightarrow> hash_view \<Rightarrow> JSTaggedValue \<Rightarrow> JSTaggedValue \<Rightarrow> hash_view" where
  "added_view env ho v key x =
     (put_slot (put_slot (push_entry ho v (bucket_of env (length (hv_buckets v)) key) (used v)) (used v) 0 key)
        (used v) (ENTRY_VALUE_INDEX ho) x)\<lparr>hv_elements := hv_elements v + 1\<rparr>"

lemma added_view_inv:
  assumes inv: "hash_inv env ho st v" and room: "used v < length (hv_buckets v)" and key: "key \<in> valid_keys st"
    and x: "ENTRY_VALUE_INDEX ho = 0 \<longrightarrow> x = key"
    and absent: "\<forall>p \<in> set (lives (slots ho v)). \<not> JSTaggedValue_SameValueZero key (hd p)"
  defines "w \<equiv> added_view env ho v key x"
  shows "hash_inv env ho st w" "slots ho w = slots ho v @ [Some (payload ho key x)]" "hv_next w = hv_next v"
proof -
  have wf: "view_wf ho v" and d: "0 \<le> hv_deleted v" "0 \<le> hv_elements v"
    using inv by (auto simp: hash_inv_def view_wf_def)
  have layout: "layout_ok ho" using wf by (simp add: view_wf_def)
  obtain k where k: "length (hv_buckets v) = 2 ^ k" using inv by (auto simp: hash_inv_def)
  let ?n = "used v" and ?b = "bucket_of env (length (hv_buckets v)) key"
  let ?xs = "(hv_entries v ! ?n)[ENTRY_SIZE ho := hv_buckets v ! ?b]"
  have b: "?b < length (hv_buckets v)" using k by (simp add: bucket_of_def)
  have n: "?n < length (hv_entries v)" "length ?xs = Suc (ENTRY_SIZE ho)"
    using view_wfD(4,7) [OF wf] room by simp_all
  have ent: "hv_entries w = (hv_entries v)[?n := ?xs[0 := key, ENTRY_VALUE_INDEX ho := x]]"
    using n(1) by (simp add: w_def added_view_def push_entry_def)
  have w: "hv_buckets w = (hv_buckets v)[?b := JSTaggedValue_int (int ?n)]" "hv_deleted w = hv_deleted v"
      "hv_elements w = hv_elements v + 1" "used w = Suc ?n"
    using d by (simp_all add: w_def added_view_def push_entry_def used_def nat_add_distrib)
  show "hv_next w = hv_next v" by (simp add: w_def added_view_def push_entry_def)
  note pl = payload_layout [OF layout n(2) x]
  have "key \<noteq> VHole" using key by (auto simp: valid_keys_def)
  then have new: "slot_of ho (?xs[0 := key, ENTRY_VALUE_INDEX ho := x]) = Some (payload ho key x)"
    using pl by (simp add: slot_of_def)
  have "take (Suc ?n) (hv_entries w) = take ?n (hv_entries v) @ [?xs[0 := key, ENTRY_VALUE_INDEX ho := x]]"
    using n(1) ent by (simp add: take_Suc_conv_app_nth)
  then show s: "slots ho w = slots ho v @ [Some (payload ho key x)]"
    using new w(4) by (simp add: slots_def)
  have "hv_elements v + 1 \<le> int (length (hv_buckets v))" using room d by (simp add: used_def nat_less_iff)
  also have "\<dots> \<le> int table_limit" using wf by (simp add: view_wf_def)
  finally have "hv_elements v + 1 \<le> int table_limit" .
  then have "view_wf ho w"
    using push_entry_wf [OF wf, of ?b ?n] d
      put_slot_wf [OF put_slot_wf [OF push_entry_wf [OF wf, of ?b ?n], of ?n 0 key], of ?n "ENTRY_VALUE_INDEX ho" x]
    by (simp add: w_def added_view_def view_wf_def)
  moreover have "chains_ok env ho w (Suc ?n)"
  proof (rule chains_ok_push)
    show "chains_ok env ho v ?n" using inv by (simp add: hash_inv_def)
    show "?b < length (hv_buckets v)" by (rule b)
    show "hv_buckets w = (hv_buckets v)[?b := JSTaggedValue_int (int ?n)]" by (rule w(1))
    show "link ho w ?n = hv_buckets v ! ?b" using pl(4) n ent by (simp add: link_def)
    show "bucket_of env (length (hv_buckets v)) (entry_key w ?n) = ?b"
      using pl(2) n(1) ent by (simp add: entry_key_def)
    show "hv_entries w ! e = hv_entries v ! e" if "e < ?n" for e using that ent by simp
  qed
  moreover have "keys_ok st (lives (slots ho w))"
    using inv absent key pl(3) map_keys.sym_law [OF _ key]
    by (auto simp: s hash_inv_def keys_ok_def sorted_wrt_append)
  moreover have "hv_elements w = int (length (lives (slots ho w)))"
    using inv w(3) s by (simp add: hash_inv_def)
  ultimately show "hash_inv env ho st w"
    using w room k d by (simp add: hash_inv_def)
qed

end
