(* ===== verification/Linked_Hash_Rehash.thy ===== *)
theory Linked_Hash_Rehash
  imports Linked_Hash_Invariant
begin

text \<open>
  Rebuilding the ordered hash table: the new table has the live entries of the old one in the same order,
  and the old one tells an iterator, for each of its positions, how many removed entries lie before it.
\<close>

section \<open>An empty table\<close>

definition empty_view :: "hash_object \<Rightarrow> nat \<Rightarrow> hash_view" where
  "empty_view ho n = \<lparr>hv_elements = 0, hv_deleted = 0, hv_next = VHole, hv_buckets = replicate n VHole,
     hv_entries = replicate n (replicate (Suc (ENTRY_SIZE ho)) VHole)\<rparr>"

lemma empty_view_simps [simp]:
  "hv_elements (empty_view ho n) = 0" "hv_deleted (empty_view ho n) = 0" "hv_next (empty_view ho n) = VHole"
  "hv_buckets (empty_view ho n) = replicate n VHole" "used (empty_view ho n) = 0" "slots ho (empty_view ho n) = []"
  by (simp_all add: empty_view_def used_def slots_def)

lemma empty_view_wf: "layout_ok ho \<Longrightarrow> n \<le> table_limit \<Longrightarrow> view_wf ho (empty_view ho n)"
  by (simp add: view_wf_def empty_view_def list_all_length)

lemma empty_view_inv:
  assumes "layout_ok ho" "n \<le> table_limit" "n = 2 ^ k"
  shows "hash_inv env ho st (empty_view ho n)"
  using empty_view_wf [OF assms(1,2)] assms(3)
  by (auto simp: hash_inv_def chains_ok_def keys_ok_def intro: exI [of _ "[]"])

definition alloc_table :: "table_heap \<Rightarrow> tagged_array \<Rightarrow> table_heap" where
  "alloc_table h t = \<lparr>tables = (tables h)(fresh_table h := t), fresh_table = Suc (fresh_table h)\<rparr>"

lemma concat_replicate_replicate: "concat (replicate n (replicate m x)) = replicate (n * m) x"
  by (induction n) (simp_all add: replicate_add)

lemma Create_spec:
  assumes "layout_ok ho" "n \<le> table_limit"
  shows "LinkedHashTable_Create ho h (int n) = Some (fresh_table h, alloc_table h (encode (empty_view ho n)))"
proof -
  let ?len = "4 + n + n * Suc (ENTRY_SIZE ho)"
  have "ENTRY_SIZE ho \<le> 2" using assms(1) by (simp add: layout_ok_def)
  then have "n * Suc (ENTRY_SIZE ho) \<le> 268435456 * 3" using assms(2) by (intro mult_le_mono) (simp_all add: table_limit_def)
  then have lt: "?len < 4294967296" using assms(2) by (simp add: table_limit_def)
  have i: "HASH_ELEMENTS_START_INDEX + int n + int n * int (ENTRY_SIZE ho + 1) = int ?len"
    by (simp add: HASH_ELEMENTS_START_INDEX_def algebra_simps)
  let ?t = "replicate ?len VHole"
  have t: "NewTaggedArray (word_of_int (int ?len)) VHole = ?t"
    using unat_of_index [OF lt] by (simp only: NewTaggedArray_def)
  have set: "SetElement t (int j) x = Some (t[j := x])" if "j < 3" "length t = ?len" for t j x
    using that by (intro SetElement_nth) simp_all
  have "?t = VHole # VHole # VHole # VHole # replicate (n + n * Suc (ENTRY_SIZE ho)) VHole"
    by (simp add: numeral_eq_Suc del: mult_Suc_right)
  then have "?t[0 := a, 1 := b, 2 := c] = [a, b, c, VHole] @ replicate (n + n * Suc (ENTRY_SIZE ho)) VHole" for a b c
    by (simp add: numeral_eq_Suc del: mult_Suc_right)
  then have "?t[0 := JSTaggedValue_int 0, 1 := JSTaggedValue_int 0, 2 := JSTaggedValue_int (int n)] = encode (empty_view ho n)"
    by (simp add: encode_def empty_view_def concat_replicate_replicate replicate_add
        del: mult_Suc_right replicate_Suc)
  then show ?thesis
    using set [of 0 ?t] set [of 1 "?t[0 := JSTaggedValue_int 0]"]
      set [of 2 "?t[0 := JSTaggedValue_int 0, 1 := JSTaggedValue_int 0]"]
    unfolding LinkedHashTable_Create_def Let_def i t
    by (simp add: SetNumberOfElements_def SetNumberOfDeletedElements_def HashTable_SetCapacity_def hash_index_defs
        store_table_def alloc_table_def)
qed

section \<open>The loop of Rehash\<close>

definition rehash_old :: "hash_object \<Rightarrow> hash_view \<Rightarrow> nat \<Rightarrow> hash_view \<Rightarrow> bool" where
  "rehash_old ho v0 i v \<longleftrightarrow> view_wf ho v \<and> hv_buckets v = hv_buckets v0 \<and> hv_elements v = hv_elements v0 \<and>
     hv_deleted v = hv_deleted v0 \<and> hv_next v = hv_next v0 \<and> slots ho v = slots ho v0 \<and>
     (\<forall>e < i. slots ho v0 ! e = None \<longrightarrow> link ho v e = JSTaggedValue_int (int (Suc e - live_before (slots ho v0) (Suc e))))"

definition rehash_new :: "hash_env \<Rightarrow> hash_object \<Rightarrow> JSTaggedValue list list \<Rightarrow> nat \<Rightarrow> nat \<Rightarrow> hash_view \<Rightarrow> bool" where
  "rehash_new env ho ps n d w \<longleftrightarrow> view_wf ho w \<and> length (hv_buckets w) = n \<and> chains_ok env ho w d \<and>
     map (slot_of ho) (take d (hv_entries w)) = map Some (take d ps) \<and>
     hv_elements w = 0 \<and> hv_deleted w = 0 \<and> hv_next w = VHole"

lemma rehash_old_step:
  assumes old: "rehash_old ho v0 i v" and v0: "used v0 \<le> length (hv_buckets v0)" and i: "i < used v0"
    and none: "slots ho v0 ! i = None"
  shows "rehash_old ho v0 (Suc i) (put_slot v i (ENTRY_SIZE ho) (JSTaggedValue_int (int (Suc i - live_before (slots ho v0) (Suc i)))))"
    (is "rehash_old ho v0 (Suc i) (put_slot v i _ ?x)")
proof -
  have wf: "view_wf ho v" and eq: "hv_buckets v = hv_buckets v0" "used v = used v0" "slots ho v = slots ho v0"
    using old by (simp_all add: rehash_old_def used_def)
  have lt: "i < length (hv_buckets v)" "i < length (hv_entries v)" using i v0 eq view_wfD(4) [OF wf] by simp_all
  have "slot_of ho ((hv_entries v ! i)[ENTRY_SIZE ho := ?x]) = slot_of ho (hv_entries v ! i)"
    using view_wfD(3) [OF wf] by (simp add: slot_of_def)
  also have "\<dots> = slots ho v ! i" using slots_nth [OF wf, of i] v0 i eq by simp
  finally have "slots ho (put_slot v i (ENTRY_SIZE ho) ?x) = slots ho v"
    using slots_update [OF wf, of "put_slot v i (ENTRY_SIZE ho) ?x" i] v0 eq by (simp add: used_def)
  moreover have "link ho (put_slot v i (ENTRY_SIZE ho) ?x) e = (if e = i then ?x else link ho v e)" if "e < Suc i" for e
    using lt view_wfD(7) [OF wf lt(1)] that by (simp add: link_def nth_list_update)
  ultimately show ?thesis
    using old by (simp add: rehash_old_def less_Suc_eq)
qed

lemma rehash_new_step:
  assumes new: "rehash_new env ho ps n d w" and d: "d < length ps" "length ps \<le> n"
    and xs: "length xs = Suc (ENTRY_SIZE ho)" "slot_of ho xs = Some (ps ! d)"
  defines "u \<equiv> push_entry ho w (bucket_of env n (xs ! 0)) d"
  shows "rehash_new env ho ps n (Suc d) (set_entry u d (take (ENTRY_SIZE ho) xs @ [hv_entries u ! d ! ENTRY_SIZE ho]))"
    (is "rehash_new env ho ps n (Suc d) ?z")
proof -
  have wf: "view_wf ho w" and len: "length (hv_buckets w) = n" using new by (simp_all add: rehash_new_def)
  have dn: "d < n" "d < length (hv_entries w)" using d len view_wfD(4) [OF wf] by simp_all
  let ?b = "bucket_of env n (xs ! 0)"
  let ?ys = "take (ENTRY_SIZE ho) xs @ [hv_buckets w ! ?b]"
  have ed: "length (hv_entries w ! d) = Suc (ENTRY_SIZE ho)" using view_wfD(7) [OF wf] dn len by simp
  then have at: "hv_entries u ! d ! ENTRY_SIZE ho = hv_buckets w ! ?b"
    using dn by (simp add: u_def push_entry_def)
  then have z: "?z = set_entry u d ?ys" by simp
  have ent: "hv_entries ?z = (hv_entries w)[d := ?ys]" unfolding z by (simp add: u_def push_entry_def)
  have bk: "hv_buckets ?z = (hv_buckets w)[?b := JSTaggedValue_int (int d)]" by (simp add: u_def push_entry_def)
  have "view_wf ho u" using wf by (simp add: u_def)
  moreover have "length ?ys = Suc (ENTRY_SIZE ho)" using xs(1) by simp
  ultimately have wz: "view_wf ho ?z" unfolding z by (rule set_entry_wf)
  have ys0: "?ys ! 0 = xs ! 0" using xs(1) view_wfD(3) [OF wf] by (simp add: nth_append)
  have so: "slot_of ho ?ys = Some (ps ! d)"
    using xs ys0 by (simp add: slot_of_def split: if_splits)
  have "take (Suc d) (hv_entries ?z) = take d (hv_entries w) @ [?ys]"
    unfolding ent using dn by (simp add: take_Suc_conv_app_nth)
  then have "map (slot_of ho) (take (Suc d) (hv_entries ?z)) = map Some (take (Suc d) ps)"
    using so new d(1) by (simp add: rehash_new_def take_Suc_conv_app_nth)
  moreover have "chains_ok env ho ?z (Suc d)"
  proof (rule chains_ok_push)
    show "chains_ok env ho w d" using new by (simp add: rehash_new_def)
    show "?b < length (hv_buckets w)" using dn len by (simp add: bucket_of_def)
    show "hv_buckets ?z = (hv_buckets w)[?b := JSTaggedValue_int (int d)]" by (rule bk)
    show "link ho ?z d = hv_buckets w ! ?b" unfolding link_def ent using dn xs(1) by (simp add: nth_append)
    show "hv_entries ?z ! e = hv_entries w ! e" if "e < d" for e unfolding ent using that by simp
    show "bucket_of env (length (hv_buckets w)) (entry_key ?z d) = ?b"
      unfolding entry_key_def ent using dn ys0 len by simp
  qed
  ultimately show ?thesis using wz bk len new by (simp add: rehash_new_def u_def push_entry_def)
qed

lemma rehash_loop_spec:
  assumes "rehash_old ho v0 i v" "rehash_new env ho (lives (slots ho v0)) n (live_before (slots ho v0) i) w"
    and "used v0 \<le> length (hv_buckets v0)" "i + c = used v0" "length (lives (slots ho v0)) \<le> n" "n = 2 ^ k"
  shows "\<exists>v' w'. rehash_loop env ho c (int i) (encode v) (encode w) (int (live_before (slots ho v0) i))
      (int (i - live_before (slots ho v0) i)) = Some (encode v', encode w') \<and>
    rehash_old ho v0 (used v0) v' \<and> rehash_new env ho (lives (slots ho v0)) n (length (lives (slots ho v0))) w'"
  using assms(1,2,4)
proof (induction c arbitrary: i v w)
  case 0
  have "length (slots ho v) = used v"
    using 0(1) assms(3) by (intro slots_length) (simp_all add: rehash_old_def used_def)
  moreover have "slots ho v = slots ho v0" "used v = used v0" using 0(1) by (simp_all add: rehash_old_def used_def)
  ultimately show ?case using 0 by (intro exI [of _ v] exI [of _ w]) simp
next
  case (Suc c)
  let ?S = "slots ho v0" and ?d = "live_before (slots ho v0) i"
  have wf: "view_wf ho v" and eq: "hv_buckets v = hv_buckets v0" "used v = used v0" "slots ho v = ?S"
    using Suc.prems(1) by (simp_all add: rehash_old_def used_def)
  have wfw: "view_wf ho w" and n: "length (hv_buckets w) = n" using Suc.prems(2) by (simp_all add: rehash_new_def)
  have i: "i < used v" "i < length (hv_buckets v)" "i < length ?S"
    using Suc.prems(3) assms(3) eq slots_length [OF wf] by simp_all
  have so: "?S ! i = slot_of ho (hv_entries v ! i)" using slots_nth [OF wf _ i(1)] assms(3) eq by simp
  have idx: "EntryToIndex ho (encode v) (int i) = Some (int (entry_index ho v i 0))" by (rule EntryToIndex_spec [OF wf])
  have key: "GetElement (encode v) (int (entry_index ho v i 0)) = Some (hv_entries v ! i ! 0)"
    using slot_access(1) [OF wf i(2), of 0] by simp
  have di: "?d \<le> i" by (rule live_before_le)
  show ?case
  proof (cases "?S ! i")
    case None
    then have hole: "hv_entries v ! i ! 0 = VHole" using so by simp
    have d: "live_before ?S (Suc i) = ?d" using live_before_Suc [OF i(3)] None by simp
    let ?v = "put_slot v i (ENTRY_SIZE ho) (JSTaggedValue_int (int (Suc i - live_before ?S (Suc i))))"
    have "rehash_old ho v0 (Suc i) ?v"
      using Suc.prems(1) assms(3) i(1) eq None by (intro rehash_old_step) simp_all
    from Suc.IH [OF this, of w] obtain v' w' where r: "rehash_loop env ho c (int (Suc i)) (encode ?v) (encode w)
        (int ?d) (int (Suc i - ?d)) = Some (encode v', encode w')" "rehash_old ho v0 (used v0) v'"
        "rehash_new env ho (lives ?S) n (length (lives ?S)) w'"
      using Suc.prems d by auto
    have num: "int (i - ?d) + 1 = int (Suc i - ?d)" "int i + 1 = int (Suc i)" using di by simp_all
    have "rehash_loop env ho (Suc c) (int i) (encode v) (encode w) (int ?d) (int (i - ?d)) =
        rehash_loop env ho c (int (Suc i)) (encode ?v) (encode w) (int ?d) (int (Suc i - ?d))"
      unfolding rehash_loop.simps idx key bind.bind_lunit hole num SetDeletedNum_def entry_specs(6) [OF wf i(2)] d by simp
    then show ?thesis using r by metis
  next
    case (Some p)
    then have key_ok: "hv_entries v ! i ! 0 \<noteq> VHole" using so by (simp add: slot_of_Some)
    have d: "live_before ?S (Suc i) = Suc ?d" "?d < length (lives ?S)" "lives ?S ! ?d = p"
      using live_before_Suc [OF i(3)] lives_nth [OF i(3) Some] Some by simp_all
    let ?key = "hv_entries v ! i ! 0"
    let ?u = "push_entry ho w (bucket_of env n ?key) ?d"
    let ?w = "set_entry ?u ?d (take (ENTRY_SIZE ho) (hv_entries v ! i) @ [hv_entries ?u ! ?d ! ENTRY_SIZE ho])"
    have dn: "?d < length (hv_buckets w)" using d(2) assms(5) n by simp
    obtain b where b: "HashToBucket (encode w) (LinkedHash_Hash env ?key) = Some b" "unat b = bucket_of env n ?key"
      using HashToBucket_spec [OF wfw, of k "LinkedHash_Hash env ?key"] n assms(6) by (auto simp: bucket_of_def)
    have bl: "unat b < length (hv_buckets w)" unfolding b(2) bucket_of_def using n assms(6) by simp
    have ins: "InsertNewEntry ho (encode w) b (int ?d) = Some (encode ?u)"
      using InsertNewEntry_spec [OF wfw dn bl] b(2) by simp
    have wu: "view_wf ho ?u" using wfw by (rule push_entry_wf)
    have du: "?d < length (hv_buckets ?u)" using dn by (simp add: push_entry_def)
    note cp = copy_slots_spec [OF wf i(2) wu du]
    have "rehash_new env ho (lives ?S) n (Suc ?d) ?w"
      using Suc.prems(2) d(2,3) assms(5) view_wfD(7) [OF wf i(2)] so Some by (intro rehash_new_step) simp_all
    moreover have "rehash_old ho v0 (Suc i) v" using Suc.prems(1) Some by (auto simp: rehash_old_def less_Suc_eq)
    ultimately obtain v' w' where r: "rehash_loop env ho c (int (Suc i)) (encode v) (encode ?w)
        (int (Suc ?d)) (int (Suc i - Suc ?d)) = Some (encode v', encode w')" "rehash_old ho v0 (used v0) v'"
        "rehash_new env ho (lives ?S) n (length (lives ?S)) w'"
      using Suc.IH [of "Suc i" v ?w] Suc.prems(3) d(1) by auto
    have num: "int ?d + 1 = int (Suc ?d)" "int i + 1 = int (Suc i)" "i - ?d = Suc i - Suc ?d" by simp_all
    have "rehash_loop env ho (Suc c) (int i) (encode v) (encode w) (int ?d) (int (i - ?d)) =
        rehash_loop env ho c (int (Suc i)) (encode v) (encode ?w) (int (Suc ?d)) (int (Suc i - Suc ?d))"
      unfolding rehash_loop.simps idx key bind.bind_lunit num b(1) ins EntryToIndex_spec [OF wu] cp
      using key_ok by (simp only: if_False)
    then show ?thesis using r by metis
  qed
qed

section \<open>Rehash\<close>

lemma Rehash_spec:
  assumes inv: "hash_inv env ho st v" and n: "n = 2 ^ k" "n \<le> table_limit" "length (lives (slots ho v)) \<le> n"
  obtains v' w where "Rehash env ho (encode v) (encode (empty_view ho n)) ref = Some (encode v', encode w)"
    "rehash_old ho (v\<lparr>hv_next := ref\<rparr>) (used v) v'" "hash_inv env ho st w" "slots ho w = map Some (lives (slots ho v))"
    "hv_next w = VHole" "length (hv_buckets w) = n" "hv_deleted w = 0"
proof -
  let ?v = "v\<lparr>hv_next := ref\<rparr>" and ?L = "lives (slots ho v)"
  have wf: "view_wf ho v" and le: "used v \<le> length (hv_buckets v)" and el: "hv_elements v = int (length ?L)"
    using inv by (simp_all add: hash_inv_def)
  have lay: "layout_ok ho" using wf by (simp add: view_wf_def)
  have eq: "slots ho ?v = slots ho v" "used ?v = used v" by (simp_all add: slots_def used_def)
  have wfv: "view_wf ho ?v" using wf by (simp add: view_wf_def)
  have old: "rehash_old ho ?v 0 ?v" using wfv by (simp add: rehash_old_def)
  have new: "rehash_new env ho ?L n 0 (empty_view ho n)"
    using empty_view_wf [OF lay n(2)] empty_view_inv [OF lay n(2,1), of env st] by (simp add: rehash_new_def hash_inv_def)
  obtain v' w where loop: "rehash_loop env ho (used v) 0 (encode ?v) (encode (empty_view ho n)) 0 0 = Some (encode v', encode w)"
      "rehash_old ho ?v (used v) v'" "rehash_new env ho ?L n (length ?L) w"
    using rehash_loop_spec [OF old, of env n "empty_view ho n" "used v" k] new le n eq by auto
  let ?w = "w\<lparr>hv_elements := int (length ?L), hv_deleted := 0\<rparr>"
  have wfw: "view_wf ho w" using loop(3) by (simp add: rehash_new_def)
  have wfw1: "view_wf ho (w\<lparr>hv_elements := int (length ?L)\<rparr>)" using wfw n(2,3) by (simp add: view_wf_def)
  have wfw2: "view_wf ho ?w" using wfw1 by (simp add: view_wf_def)
  have wfv': "view_wf ho v'" "hv_elements v' = int (length ?L)" using loop(2) el by (simp_all add: rehash_old_def)
  have "Rehash env ho (encode v) (encode (empty_view ho n)) ref = Some (encode v', encode ?w)"
    using loop(1) header_specs(1,2,7) [OF wf] header_specs(1) [OF wfv'(1)] wfv'(2) header_specs(5) [OF wfw] header_specs(6) [OF wfw1]
    by (simp add: Rehash_def used_def)
  moreover have u: "used ?w = length ?L" by (simp add: used_def)
  then have s: "slots ho ?w = map Some ?L" using loop(3) by (simp add: slots_def rehash_new_def)
  moreover have "hash_inv env ho st ?w"
  proof -
    have "chains_ok env ho w (length ?L)" using loop(3) by (simp add: rehash_new_def)
    then have "chains_ok env ho ?w (length ?L)" by (rule chains_ok_cong) (simp_all add: link_def entry_key_def)
    moreover have "keys_ok st ?L" using inv by (simp add: hash_inv_def)
    moreover have "length (hv_buckets w) = 2 ^ k" using loop(3) n(1) by (simp add: rehash_new_def)
    ultimately show ?thesis unfolding hash_inv_def s u using wfw2 n(1,3) by simp
  qed
  ultimately show thesis using that [of v' ?w] loop(2,3) by (simp add: rehash_new_def)
qed

text \<open>What an iterator subtracts from a position of a table that was replaced: the removed entries before it.\<close>

lemma deleted_loop_spec:
  assumes "rehash_old ho v0 (used v0) v" "used v0 \<le> length (hv_buckets v0)" "i \<le> used v0"
  shows "deleted_loop ho (encode v) i = Some (int (i - live_before (slots ho v0) i))"
  using assms(3)
proof (induction i)
  case (Suc i)
  let ?S = "slots ho v0"
  have wf: "view_wf ho v" and eq: "hv_buckets v = hv_buckets v0" "used v = used v0" "slots ho v = ?S"
    using assms(1) by (simp_all add: rehash_old_def used_def)
  have i: "i < used v" "i < length (hv_buckets v)" "i < length ?S"
    using Suc.prems assms(2) eq slots_length [OF wf] by simp_all
  have so: "?S ! i = slot_of ho (hv_entries v ! i)" using slots_nth [OF wf _ i(1)] assms(2) eq by simp
  show ?case
  proof (cases "?S ! i")
    case None
    have "Suc i - live_before ?S (Suc i) < 2147483648" using Suc.prems assms(2) view_wfD(6) [OF wf] eq(1) by simp
    then have "GetInt (link ho v i) = Some (int (Suc i - live_before ?S (Suc i)))"
      using assms(1) i(1) eq(2) None by (simp add: rehash_old_def)
    then show ?thesis
      using entry_specs(1,3) [OF wf i(2)] None so by (simp add: GetDeletedNum_def link_def)
  next
    case (Some p)
    then have "hv_entries v ! i ! 0 \<noteq> VHole" using so by (simp add: slot_of_Some)
    moreover have "live_before ?S (Suc i) = Suc (live_before ?S i)" using live_before_Suc [OF i(3)] Some by simp
    ultimately show ?thesis using entry_specs(1) [OF wf i(2)] Suc by simp
  qed
qed simp

end
