(* ===== verification/Linked_Hash_Ops.thy ===== *)
theory Linked_Hash_Ops
  imports Linked_Hash_Rehash
begin

text \<open>
  The operations of the ordered hash table in the heap of tables, as changes of the list of slots of the
  current table, and where a position of an earlier table is found afterwards.
\<close>

section \<open>The current table and positions in earlier ones\<close>

definition current :: "hash_env \<Rightarrow> hash_object \<Rightarrow> string_table \<Rightarrow> table_heap \<Rightarrow> nat \<Rightarrow> JSTaggedValue list option list \<Rightarrow> bool" where
  "current env ho st h a S \<longleftrightarrow> a < fresh_table h \<and>
     (\<exists>v. tables h a = encode v \<and> hash_inv env ho st v \<and> hv_next v = VHole \<and> slots ho v = S)"

lemma currentI:
  "tables h a = encode v \<Longrightarrow> hash_inv env ho st v \<Longrightarrow> hv_next v = VHole \<Longrightarrow> slots ho v = S \<Longrightarrow> a < fresh_table h \<Longrightarrow>
   current env ho st h a S"
  by (auto simp: current_def)

lemma currentE:
  assumes "current env ho st h a S"
  obtains v where "tables h a = encode v" "hash_inv env ho st v" "view_wf ho v" "hv_next v = VHole" "slots ho v = S"
    "a < fresh_table h" "used v \<le> length (hv_buckets v)" "length S = used v"
  using assms slots_length by (auto simp: current_def hash_inv_def)

text \<open>
  Position \<open>i\<close> of table \<open>a\<close> stands for position \<open>j\<close> of table \<open>c\<close>, the last one along the links to the
  tables that replaced it.
\<close>

inductive resolves :: "hash_object \<Rightarrow> table_heap \<Rightarrow> nat \<Rightarrow> nat \<Rightarrow> nat \<Rightarrow> nat \<Rightarrow> bool" for ho h where
  stay: "a < fresh_table h \<Longrightarrow> GetNextTable (tables h a) = Some VHole \<Longrightarrow> resolves ho h a i a i"
| follow: "a < fresh_table h \<Longrightarrow> GetNextTable (tables h a) = Some (VObject b) \<Longrightarrow>
    GetDeletedElementsAt ho (tables h a) (int i) = Some (int d) \<Longrightarrow> d \<le> i \<Longrightarrow> resolves ho h b (i - d) c j \<Longrightarrow> resolves ho h a i c j"

lemma resolves_last: "resolves ho h a i c j \<Longrightarrow> GetNextTable (tables h c) = Some VHole \<and> c < fresh_table h"
  by (induction rule: resolves.induct) auto

lemma current_resolves: "current env ho st h a S \<Longrightarrow> resolves ho h a i a i"
  by (elim currentE) (simp add: resolves.stay header_specs)

definition others_kept :: "table_heap \<Rightarrow> nat \<Rightarrow> table_heap \<Rightarrow> bool" where
  "others_kept h a h' \<longleftrightarrow> fresh_table h \<le> fresh_table h' \<and> (\<forall>x < fresh_table h. x \<noteq> a \<longrightarrow> tables h' x = tables h x)"

lemma resolves_trans:
  assumes "resolves ho h a i c j" "others_kept h c h'" "resolves ho h' c j b k"
  shows "resolves ho h' a i b k"
  using assms
proof (induction rule: resolves.induct)
  case (follow a x i d c j)
  have "a \<noteq> c" using follow.hyps(2) resolves_last [OF follow.hyps(5)] by auto
  then have "tables h' a = tables h a" "a < fresh_table h'"
    using follow.hyps(1) follow.prems(1) by (auto simp: others_kept_def)
  then show ?case using follow by (intro resolves.follow [of a h' x]) simp_all
qed

text \<open>
  A step from table \<open>a\<close> with slots \<open>S\<close> to table \<open>b\<close> with slots \<open>S'\<close>: every position is found again, with
  the number of occupied slots before it changed by \<open>f\<close>.
\<close>

definition evolves :: "hash_object \<Rightarrow> table_heap \<Rightarrow> nat \<Rightarrow> 'a option list \<Rightarrow> table_heap \<Rightarrow> nat \<Rightarrow> 'a option list \<Rightarrow>
    (nat \<Rightarrow> nat) \<Rightarrow> bool" where
  "evolves ho h a S h' b S' f \<longleftrightarrow> others_kept h a h' \<and>
     (\<forall>i \<le> length S. \<exists>i' \<le> length S'. resolves ho h' a i b i' \<and> live_before S' i' = f (live_before S i))"

lemma evolvesE:
  assumes "evolves ho h a S h' b S' f" "i \<le> length S"
  obtains i' where "i' \<le> length S'" "resolves ho h' a i b i'" "live_before S' i' = f (live_before S i)"
  using assms unfolding evolves_def by (elim conjE allE [of _ i]) (auto elim: exE)

lemma evolves_trans:
  assumes "evolves ho h a S h' b S' f" "evolves ho h' b S' h'' c S'' g" "b = a \<or> fresh_table h \<le> b"
  shows "evolves ho h a S h'' c S'' (g \<circ> f)"
proof -
  have k: "others_kept h a h'" "others_kept h' b h''" using assms(1,2) by (simp_all add: evolves_def)
  have "tables h'' x = tables h x" if x: "x < fresh_table h" "x \<noteq> a" for x
  proof -
    have "x \<noteq> b" using x assms(3) by auto
    moreover have "x < fresh_table h'" using x(1) k(1) by (simp add: others_kept_def)
    ultimately have "tables h'' x = tables h' x" using k(2) by (simp add: others_kept_def)
    then show ?thesis using k(1) x by (simp add: others_kept_def)
  qed
  moreover have "fresh_table h \<le> fresh_table h''"
    using k order_trans [of "fresh_table h" "fresh_table h'"] by (simp add: others_kept_def)
  ultimately have "others_kept h a h''" by (simp add: others_kept_def)
  moreover have "\<exists>k \<le> length S''. resolves ho h'' a i c k \<and> live_before S'' k = (g \<circ> f) (live_before S i)"
    if i: "i \<le> length S" for i
  proof -
    obtain j where j: "j \<le> length S'" "resolves ho h' a i b j" "live_before S' j = f (live_before S i)"
      using assms(1) i by (rule evolvesE)
    obtain l where l: "l \<le> length S''" "resolves ho h'' b j c l" "live_before S'' l = g (live_before S' j)"
      using assms(2) j(1) by (rule evolvesE)
    have "resolves ho h'' a i c l" using j(2) k(2) l(2) by (rule resolves_trans)
    then show ?thesis using j l by auto
  qed
  ultimately show ?thesis by (simp add: evolves_def)
qed

lemma store_table_simps [simp]:
  "tables (store_table h a t) = (tables h)(a := t)" "fresh_table (store_table h a t) = fresh_table h"
  by (simp_all add: store_table_def)

lemma others_kept_store [simp]: "others_kept h a (store_table h a t)"
  by (simp add: others_kept_def)

text \<open>A change in place.\<close>

lemma evolves_in_place:
  assumes "current env ho st (store_table h a t) a S'" "length S \<le> length S'"
    "\<And>i. i \<le> length S \<Longrightarrow> live_before S' i = f (live_before S i)"
  shows "evolves ho h a S (store_table h a t) a S' f"
  using assms current_resolves [OF assms(1)] unfolding evolves_def by (auto intro: order_trans)

section \<open>Looking up\<close>

lemma find_position:
  assumes "sorted_wrt (\<lambda>p q. \<not> (P p \<and> P q)) (lives S)" "e < length S" "S ! e = Some p" "P p"
  shows "List.find P (lives S) = Some p"
proof -
  have "lives S = lives (take e S) @ p # lives (drop (Suc e) S)" using assms(2,3) by (rule lives_split)
  moreover from this have "\<not> P q" if "q \<in> set (lives (take e S))" for q
    using assms(1,4) that by (auto simp: sorted_wrt_append)
  moreover have "List.find P (xs @ p # ys) = Some p" if "\<forall>q \<in> set xs. \<not> P q" for xs ys
    using that assms(4) by (induction xs) simp_all
  ultimately show ?thesis by simp
qed

definition matches :: "JSTaggedValue \<Rightarrow> JSTaggedValue list \<Rightarrow> bool" where
  "matches key p \<longleftrightarrow> JSTaggedValue_SameValueZero key (hd p)"

lemma current_find:
  assumes "current env ho st h a S" "key \<in> valid_keys st"
  obtains (found) e p where "FindElement env ho (tables h a) key = Some (int e)" "e < length S" "S ! e = Some p"
      "matches key p" "List.find (matches key) (lives S) = Some p"
      "live_before S e = length (takeWhile (\<lambda>p. \<not> matches key p) (lives S))"
  | (absent) "FindElement env ho (tables h a) key = Some (- 1)" "List.find (matches key) (lives S) = None"
      "\<forall>p \<in> set (lives S). \<not> matches key p"
proof -
  obtain v where v: "tables h a = encode v" "hash_inv env ho st v" "slots ho v = S" using assms(1) by (rule currentE)
  have "keys_ok st (lives S)" using v(2,3) by (auto simp: hash_inv_def)
  then have u: "sorted_wrt (\<lambda>p q. \<not> (matches key p \<and> matches key q)) (lives S)"
    using keys_ok_unique [OF _ assms(2)] by (simp add: matches_def)
  show thesis
  proof (cases rule: FindElement_cases [OF v(2) assms(2)])
    case (1 e p)
    then show thesis
      using found [of e p] find_position [OF u, of e p] unique_match_position [of e S p "matches key"] u v
      by (simp add: matches_def)
  next
    case 2
    then show thesis using absent v by (simp add: matches_def find_None_iff)
  qed
qed

lemma LinkedHash_Has_spec:
  assumes "current env ho st h a S" "key \<in> valid_keys st"
  shows "LinkedHash_Has env ho h a key = Some (List.find (matches key) (lives S) \<noteq> None)"
  using assms by (cases rule: current_find) (simp_all add: LinkedHash_Has_def)

lemma LinkedHash_Get_spec:
  assumes "current env ho st h a S" "key \<in> valid_keys st"
  shows "LinkedHash_Get env ho h a key =
    Some (case List.find (matches key) (lives S) of None \<Rightarrow> VUndefined | Some p \<Rightarrow> p ! ENTRY_VALUE_INDEX ho)"
  using assms
proof (cases rule: current_find)
  case (found e p)
  obtain v where v: "tables h a = encode v" "view_wf ho v" "slots ho v = S" "used v \<le> length (hv_buckets v)" "length S = used v"
    using assms(1) by (rule currentE)
  have e: "e < used v" "e < length (hv_buckets v)" using found(2) v by simp_all
  have "slot_of ho (hv_entries v ! e) = Some p" using slots_nth [OF v(2,4) e(1)] found(3) v(3) by simp
  then have "p ! ENTRY_VALUE_INDEX ho = hv_entries v ! e ! ENTRY_VALUE_INDEX ho"
    using view_wfD(1) [OF v(2)] by (auto simp: slot_of_Some)
  then show ?thesis using found entry_specs(2) [OF v(2) e(2)] v(1) by (simp add: LinkedHash_Get_def)
qed (simp add: LinkedHash_Get_def)

section \<open>Growing\<close>

text \<open>
  \<open>GetPowerOfTwoValue32\<close> is a function of the base library: the smallest power of two that is not less
  than its argument.
\<close>

definition pow2_ok :: "hash_env \<Rightarrow> bool" where
  "pow2_ok env \<longleftrightarrow> (\<forall>x. unat x \<le> 2 ^ 31 \<longrightarrow> (\<exists>k. unat (GetPowerOfTwoValue32 env x) = 2 ^ k \<and> unat x \<le> 2 ^ k \<and>
     (\<forall>j. unat x \<le> 2 ^ j \<longrightarrow> k \<le> j)))"

text \<open>Up to this many elements the capacity is at most \<open>table_limit\<close>.\<close>

definition element_limit :: nat where
  "element_limit = 178956970"

lemma ComputeCapacity_spec:
  assumes "pow2_ok env" "n \<le> element_limit"
  obtains k where "ComputeCapacity env (word_of_int (int n)) = int (2 ^ k)" "n \<le> 2 ^ k" "(2 :: nat) ^ k \<le> table_limit"
proof -
  have n: "n \<le> 178956970" using assms(2) by (simp add: element_limit_def)
  let ?x = "word_of_int (int n) :: u32"
  have ux: "unat ?x = n" using n by (intro unat_of_index) simp
  then have "unat (drop_bit 1 ?x) = n div 2" unfolding unat_drop_bit_eq by (simp only: drop_bit_eq_div power_one_right)
  moreover have b: "n + n div 2 \<le> 2147483648" "n + n div 2 < 4294967296" using n by linarith+
  ultimately have "unat (?x + drop_bit 1 ?x) = n + n div 2"
    using ux by (simp add: unat_plus_if_size word_size)
  then obtain k where k: "unat (GetPowerOfTwoValue32 env (?x + drop_bit 1 ?x)) = 2 ^ k" "n + n div 2 \<le> 2 ^ k"
      "\<forall>j. n + n div 2 \<le> 2 ^ j \<longrightarrow> k \<le> j"
    using assms(1) [unfolded pow2_ok_def, rule_format, of "?x + drop_bit 1 ?x"] b by auto
  have "n + n div 2 \<le> 2 ^ 28" using n by simp
  then have "k \<le> 28" using k(3) by blast
  then have le: "(2 :: nat) ^ k \<le> 2 ^ 28" by (intro power_increasing) simp_all
  then have "sint (GetPowerOfTwoValue32 env (?x + drop_bit 1 ?x)) = int (2 ^ k)"
    using sint_length [OF k(1)] by simp
  then have c: "ComputeCapacity env ?x = (if 4 < (2 :: int) ^ k then 2 ^ k else 4)"
    by (simp add: ComputeCapacity_def HASH_MIN_CAPACITY_def Let_def)
  show thesis
  proof (cases "4 < (2 :: int) ^ k")
    case True
    then show thesis using that [of k] c k(2) le by (simp add: table_limit_def)
  next
    case False
    then have "int (2 ^ k) \<le> int 4" by simp
    then have "(2 :: nat) ^ k \<le> 4" by (simp only: of_nat_le_iff)
    then show thesis using that [of 2] c k(2) False by (simp add: table_limit_def)
  qed
qed

lemma alloc_table_simps [simp]:
  "tables (alloc_table h t) = (tables h)(fresh_table h := t)" "fresh_table (alloc_table h t) = Suc (fresh_table h)"
  by (simp_all add: alloc_table_def)

lemma replace_table_spec:
  assumes cur: "current env ho st h a S" and n: "n = 2 ^ k" "n \<le> table_limit" "length (lives S) \<le> n"
  obtains h' where "replace_table env ho h a (int n) = Some (fresh_table h, h')"
    "current env ho st h' (fresh_table h) (map Some (lives S))"
    "evolves ho h a S h' (fresh_table h) (map Some (lives S)) id" "Capacity (tables h' (fresh_table h)) = Some (int n)"
proof -
  let ?b = "fresh_table h"
  obtain v where v: "tables h a = encode v" "hash_inv env ho st v" "view_wf ho v" "slots ho v = S" "a < ?b"
      "used v \<le> length (hv_buckets v)" "length S = used v"
    using cur by (rule currentE)
  have lay: "layout_ok ho" using v(3) by (simp add: view_wf_def)
  obtain v' w where r: "Rehash env ho (encode v) (encode (empty_view ho n)) (VObject ?b) = Some (encode v', encode w)"
      "rehash_old ho (v\<lparr>hv_next := VObject ?b\<rparr>) (used v) v'" "hash_inv env ho st w" "slots ho w = map Some (lives S)"
      "hv_next w = VHole" "length (hv_buckets w) = n"
    using Rehash_spec [OF v(2) n(1,2) n(3) [folded v(4)], of "VObject ?b"] unfolding v(4) by blast
  let ?h = "store_table (store_table (alloc_table h (encode (empty_view ho n))) a (encode v')) ?b (encode w)"
  have rep: "replace_table env ho h a (int n) = Some (?b, ?h)"
    using Create_spec [OF lay n(2), of h] r(1) v(1,5) by (simp add: replace_table_def)
  have cur': "current env ho st ?h ?b (map Some (lives S))"
    using r by (intro currentI [of _ _ w]) simp_all
  let ?v = "v\<lparr>hv_next := VObject ?b\<rparr>"
  have eq: "slots ho ?v = S" "used ?v = used v" "used ?v \<le> length (hv_buckets ?v)"
    using v by (simp_all add: slots_def used_def)
  have wf': "view_wf ho v'" "hv_next v' = VObject ?b" "hv_deleted v' \<noteq> - 1"
    using r(2) v(2) by (simp_all add: rehash_old_def hash_inv_def)
  have "resolves ho ?h a i ?b (live_before S i)" if i: "i \<le> length S" for i
  proof (rule resolves.follow)
    show "a < fresh_table ?h" using v(5) by simp
    show "GetNextTable (tables ?h a) = Some (VObject ?b)" using header_specs(4) [OF wf'(1)] wf'(2) v(5) by simp
    show "GetDeletedElementsAt ho (tables ?h a) (int i) = Some (int (i - live_before S i))"
      using deleted_loop_spec [of ho ?v v' i] r(2) eq i v(5,7) header_specs(2) [OF wf'(1)] wf'(3)
      by (simp add: GetDeletedElementsAt_def)
    show "i - live_before S i \<le> i" by simp
    show "resolves ho ?h ?b (i - (i - live_before S i)) ?b (live_before S i)"
      using current_resolves [OF cur'] live_before_le(2) [of S i] by simp
  qed
  then have "evolves ho h a S ?h ?b (map Some (lives S)) id"
    using live_before_le(1) [of S] by (auto simp: evolves_def others_kept_def intro!: exI [of _ "live_before S _"])
  moreover have "Capacity (tables ?h ?b) = Some (int n)"
    using r(3,6) header_specs(3) [of ho w] by (simp add: hash_inv_def)
  ultimately show thesis using that [OF rep cur'] by blast
qed

lemma evolves_refl: "current env ho st h a S \<Longrightarrow> evolves ho h a S h a S id"
  using current_resolves by (fastforce simp: evolves_def others_kept_def)

lemma GrowCapacity_spec:
  assumes cur: "current env ho st h a S" and pow: "pow2_ok env" and n: "length (lives S) < element_limit"
  obtains b h' S' c where "LinkedHashTable_GrowCapacity env ho h a 1 = Some (b, h')" "current env ho st h' b S'"
    "lives S' = lives S" "evolves ho h a S h' b S' id" "b = a \<or> fresh_table h \<le> b"
    "Capacity (tables h' b) = Some c" "int (length S') < c"
proof -
  obtain v where v: "tables h a = encode v" "hash_inv env ho st v" "view_wf ho v" "slots ho v = S" "length S = used v"
    using cur by (rule currentE)
  have el: "hv_elements v = int (length (lives S))" "0 \<le> hv_deleted v" using v(2,4) by (simp_all add: hash_inv_def)
  note hs = header_specs(1-3) [OF v(3)]
  let ?N = "int (length (lives S)) + 1" and ?C = "int (length (hv_buckets v))"
  have suff: "HasSufficientCapacity (tables h a) 1 =
      Some (?N < ?C \<and> hv_deleted v \<le> (?C - ?N) div 2 \<and> ?N + ?N div 2 \<le> ?C)"
    using hs el(1) v(1) by (simp add: HasSufficientCapacity_def Let_def)
  show thesis
  proof (cases "?N < ?C \<and> hv_deleted v \<le> (?C - ?N) div 2 \<and> ?N + ?N div 2 \<le> ?C")
    case True
    then have "LinkedHashTable_GrowCapacity env ho h a 1 = Some (a, h)"
      using suff by (simp add: LinkedHashTable_GrowCapacity_def)
    moreover have "int (length S) < ?C" using True el v(5) by (simp add: used_def) linarith
    ultimately show thesis using that [of a h S ?C] cur evolves_refl [OF cur] hs(3) v(1) by simp
  next
    case False
    have "Suc (length (lives S)) \<le> element_limit" using n by simp
    then obtain k where k: "ComputeCapacity env (word_of_int (int (Suc (length (lives S))))) = int (2 ^ k)"
        "Suc (length (lives S)) \<le> 2 ^ k" "(2 :: nat) ^ k \<le> table_limit"
      by (rule ComputeCapacity_spec [OF pow])
    obtain h' where h': "replace_table env ho h a (int (2 ^ k)) = Some (fresh_table h, h')"
        "current env ho st h' (fresh_table h) (map Some (lives S))"
        "evolves ho h a S h' (fresh_table h) (map Some (lives S)) id" "Capacity (tables h' (fresh_table h)) = Some (int (2 ^ k))"
      using replace_table_spec [OF cur refl k(3)] k(2) by auto
    have "HasSufficientCapacity (tables h a) 1 = Some False" using suff False by simp
    moreover have "ComputeCapacity env (word_of_int (int (length (lives S)) + 1)) = int (2 ^ k)"
      using k(1) by (simp add: add.commute)
    ultimately have "LinkedHashTable_GrowCapacity env ho h a 1 = Some (fresh_table h, h')"
      using hs(1) el(1) v(1) h'(1) by (simp add: LinkedHashTable_GrowCapacity_def del: of_int_add)
    then show thesis using that [of "fresh_table h" h' "map Some (lives S)" "int (2 ^ k)"] h' k(2) by simp
  qed
qed

section \<open>Inserting\<close>

definition match_position :: "JSTaggedValue \<Rightarrow> JSTaggedValue list list \<Rightarrow> nat" where
  "match_position key ps = length (takeWhile (\<lambda>p. \<not> matches key p) ps)"

definition lives_set :: "hash_object \<Rightarrow> JSTaggedValue \<Rightarrow> JSTaggedValue \<Rightarrow> JSTaggedValue list list \<Rightarrow> JSTaggedValue list list" where
  "lives_set ho key x ps = (let i = match_position key ps in
     if i < length ps then ps[i := (ps ! i)[ENTRY_VALUE_INDEX ho := x]] else ps @ [payload ho key x])"

lemma match_position_absent: "\<forall>p \<in> set ps. \<not> matches key p \<Longrightarrow> match_position key ps = length ps"
  by (simp add: match_position_def takeWhile_eq_all_conv [THEN iffD2])

lemma store_entry:
  assumes inv: "hash_inv env ho st v" and room: "used v < length (hv_buckets v)"
  shows "do {
      bucket \<leftarrow> HashToBucket (encode v) (LinkedHash_Hash env key);
      n \<leftarrow> NumberOfElements (encode v);
      d \<leftarrow> NumberOfDeletedElements (encode v);
      let entry = n + d;
      t \<leftarrow> InsertNewEntry ho (encode v) bucket entry;
      t \<leftarrow> SetKey ho t entry key;
      t \<leftarrow> SetValue ho t entry x;
      n \<leftarrow> NumberOfElements t;
      SetNumberOfElements t (n + 1)
    } = Some (encode (added_view env ho v key x))"
proof -
  have wf: "view_wf ho v" and pos: "0 \<le> hv_elements v" "0 \<le> hv_deleted v"
    using inv by (auto simp: hash_inv_def view_wf_def)
  obtain k where k: "length (hv_buckets v) = 2 ^ k" using inv by (auto simp: hash_inv_def)
  obtain b where b: "HashToBucket (encode v) (LinkedHash_Hash env key) = Some b"
      "unat b = bucket_of env (length (hv_buckets v)) key"
    using HashToBucket_spec [OF wf k, of "LinkedHash_Hash env key"] by (auto simp: bucket_of_def)
  have bl: "unat b < length (hv_buckets v)" unfolding b(2) bucket_of_def using k by simp
  have e: "hv_elements v + hv_deleted v = int (used v)" using pos by (simp add: used_def)
  let ?u = "push_entry ho v (unat b) (used v)"
  have lu: "used v < length (hv_buckets ?u)" using room by (simp add: push_entry_def)
  let ?w = "put_slot ?u (used v) 0 key"
  let ?z = "put_slot ?w (used v) (ENTRY_VALUE_INDEX ho) x"
  have wu: "view_wf ho ?u" using wf by simp
  have ww: "view_wf ho ?w" "view_wf ho ?z" using wu by simp_all
  have "hv_elements ?z = hv_elements v" by (simp add: push_entry_def)
  then show ?thesis
    using InsertNewEntry_spec [OF wf room bl] entry_specs(4) [OF wu lu, of key] entry_specs(5) [OF ww(1), of "used v" x] lu
      header_specs(1,5) [OF ww(2)] header_specs(1,2) [OF wf] b e
    by (simp add: added_view_def Let_def)
qed

lemma Insert_spec:
  assumes cur: "current env ho st h a S" and pow: "pow2_ok env" and n: "length (lives S) < element_limit"
    and key: "key \<in> valid_keys st" and x: "ENTRY_VALUE_INDEX ho = 0 \<longrightarrow> x = key"
  obtains b h' S' where "LinkedHashTable_Insert env ho h a key x = Some (b, h')" "current env ho st h' b S'"
    "lives S' = lives_set ho key x (lives S)" "evolves ho h a S h' b S' id" "b = a \<or> fresh_table h \<le> b"
  using cur key
proof (cases rule: current_find)
  case (found e p)
  obtain v where v: "tables h a = encode v" "hash_inv env ho st v" "hv_next v = VHole" "slots ho v = S" "a < fresh_table h"
    using cur by (rule currentE)
  let ?w = "put_slot v e (ENTRY_VALUE_INDEX ho) x"
  have cond: "ENTRY_VALUE_INDEX ho = 0 \<longrightarrow> x \<in> valid_keys st \<and> JSTaggedValue_SameValueZero x (hd p)"
    using x key found(4) by (simp add: matches_def)
  note sv = SetValue_inv [OF v(2) _ _ cond, of e, unfolded v(4), OF found(2,3)]
  have cur': "current env ho st (store_table h a (encode ?w)) a (S[e := Some (p[ENTRY_VALUE_INDEX ho := x])])"
    using sv(2-4) v(3,5) by (intro currentI [of _ _ ?w]) simp_all
  have "LinkedHashTable_Insert env ho h a key x = Some (a, store_table h a (encode ?w))"
    using found(1) sv(1) v(1) by (simp add: LinkedHashTable_Insert_def Let_def)
  moreover have "match_position key (lives S) < length (lives S)" "lives S ! match_position key (lives S) = p"
    using lives_nth [OF found(2,3)] found(6) by (simp_all add: match_position_def)
  then have "lives (S[e := Some (p[ENTRY_VALUE_INDEX ho := x])]) = lives_set ho key x (lives S)"
    using lives_update_Some [OF found(2,3)] found(6) by (simp add: lives_set_def Let_def match_position_def)
  moreover have "evolves ho h a S (store_table h a (encode ?w)) a (S[e := Some (p[ENTRY_VALUE_INDEX ho := x])]) id"
    using live_before_update_Some [OF found(2,3)] by (intro evolves_in_place [OF cur']) simp_all
  ultimately show thesis using that [of a] cur' by blast
next
  case absent
  obtain b h1 S1 c where g: "LinkedHashTable_GrowCapacity env ho h a 1 = Some (b, h1)" "current env ho st h1 b S1"
      "lives S1 = lives S" "evolves ho h a S h1 b S1 id" "b = a \<or> fresh_table h \<le> b"
      "Capacity (tables h1 b) = Some c" "int (length S1) < c"
    using cur pow n by (rule GrowCapacity_spec)
  obtain v where v: "tables h1 b = encode v" "hash_inv env ho st v" "view_wf ho v" "hv_next v = VHole" "slots ho v = S1"
      "b < fresh_table h1" "length S1 = used v"
    using g(2) by (rule currentE)
  have room: "used v < length (hv_buckets v)" using g(6,7) header_specs(3) [OF v(3)] v(1,7) by simp
  have absent1: "\<forall>p \<in> set (lives (slots ho v)). \<not> JSTaggedValue_SameValueZero key (hd p)"
    using absent(3) g(3) v(5) by (simp add: matches_def)
  let ?w = "added_view env ho v key x" and ?S = "S1 @ [Some (payload ho key x)]"
  note av = added_view_inv [OF v(2) room key x absent1]
  let ?h = "store_table h1 b (encode ?w)"
  have cur': "current env ho st ?h b ?S" using av v(4-6) by (intro currentI [of _ _ ?w]) simp_all
  have "LinkedHashTable_Insert env ho h a key x = Some (b, ?h)"
    using absent(1) g(1) store_entry [OF v(2) room, of key x]
    by (auto simp: LinkedHashTable_Insert_def Let_def v(1) bind_eq_Some_conv)
  moreover have "lives ?S = lives_set ho key x (lives S)"
    using g(3) match_position_absent [OF absent(3)] by (simp add: lives_set_def Let_def)
  moreover have "evolves ho h1 b S1 ?h b ?S id" by (rule evolves_in_place [OF cur']) simp_all
  then have "evolves ho h a S ?h b ?S id" using evolves_trans [OF g(4) _ g(5)] by fastforce
  ultimately show thesis using that [of b] cur' g(5) by blast
qed

section \<open>Removing and clearing\<close>

definition lives_delete :: "JSTaggedValue \<Rightarrow> JSTaggedValue list list \<Rightarrow> JSTaggedValue list list" where
  "lives_delete key ps = (let i = match_position key ps in take i ps @ drop (Suc i) ps)"

definition skip_removed :: "nat \<Rightarrow> nat \<Rightarrow> nat" where
  "skip_removed i n = (if i < n then n - 1 else n)"

lemma RemoveEntry_spec:
  assumes cur: "current env ho st h a S" and e: "e < length S" "S ! e = Some p"
  obtains t where "RemoveEntry ho (tables h a) (int e) = Some t"
    "current env ho st (store_table h a t) a (S[e := None])"
    "evolves ho h a S (store_table h a t) a (S[e := None]) (skip_removed (live_before S e))"
proof -
  obtain v where v: "tables h a = encode v" "hash_inv env ho st v" "hv_next v = VHole" "slots ho v = S" "a < fresh_table h"
    using cur by (rule currentE)
  note rm = RemoveEntry_inv [OF v(2), of e p, unfolded v(4), OF e]
  have cur': "current env ho st (store_table h a (encode (removed_view ho v e))) a (S[e := None])"
    using rm(2-4) v(3,5) by (intro currentI [of _ _ "removed_view ho v e"]) simp_all
  moreover have "evolves ho h a S (store_table h a (encode (removed_view ho v e))) a (S[e := None])
      (skip_removed (live_before S e))"
    using live_before_update_None [OF e] by (intro evolves_in_place [OF cur']) (simp_all add: skip_removed_def)
  ultimately show thesis using that rm(1) v(1) by simp
qed

lemma lives_delete_at:
  assumes "e < length S" "S ! e = Some p" "live_before S e = match_position key (lives S)"
  shows "lives (S[e := None]) = lives_delete key (lives S)"
  using lives_update_None [OF assms(1,2)] assms(3) by (simp add: lives_delete_def Let_def)

lemma lives_delete_absent: "\<forall>p \<in> set ps. \<not> matches key p \<Longrightarrow> lives_delete key ps = ps"
  by (simp add: lives_delete_def Let_def match_position_absent)

lemma Shrink_spec:
  assumes cur: "current env ho st h a S" and pow: "pow2_ok env" and n: "length (lives S) \<le> element_limit"
  obtains b h' S' where "LinkedHashTable_Shrink env ho h a 0 = Some (b, h')" "current env ho st h' b S'"
    "lives S' = lives S" "evolves ho h a S h' b S' id" "b = a \<or> fresh_table h \<le> b"
proof -
  obtain v where v: "tables h a = encode v" "hash_inv env ho st v" "view_wf ho v" "slots ho v = S"
    using cur by (rule currentE)
  let ?C = "int (length (hv_buckets v))" and ?N = "int (length (lives S))"
  have hs: "NumberOfElements (tables h a) = Some ?N" "Capacity (tables h a) = Some ?C"
    using header_specs(1,3) [OF v(3)] v(1,2,4) by (simp_all add: hash_inv_def)
  let ?c = "ComputeCapacityWithShrink env ?C ?N"
  show thesis
  proof (cases "?c = ?C")
    case True
    then have "LinkedHashTable_Shrink env ho h a 0 = Some (a, h)"
      using hs by (simp add: LinkedHashTable_Shrink_def Let_def)
    then show thesis using that [of a h S] cur evolves_refl [OF cur] by simp
  next
    case False
    obtain k where k: "ComputeCapacity env (word_of_int ?N) = int (2 ^ k)" "length (lives S) \<le> 2 ^ k"
        "(2 :: nat) ^ k \<le> table_limit"
      using ComputeCapacity_spec [OF pow n] by blast
    have c: "?c = int (2 ^ k)"
      using False k(1) by (simp add: ComputeCapacityWithShrink_def Let_def split: if_splits)
    obtain h' where h': "replace_table env ho h a (int (2 ^ k)) = Some (fresh_table h, h')"
        "current env ho st h' (fresh_table h) (map Some (lives S))"
        "evolves ho h a S h' (fresh_table h) (map Some (lives S)) id"
      using replace_table_spec [OF cur refl k(3) k(2)] by blast
    have "LinkedHashTable_Shrink env ho h a 0 = Some (fresh_table h, h')"
      using hs False h'(1) c by (simp add: LinkedHashTable_Shrink_def Let_def)
    then show thesis using that [of "fresh_table h" h' "map Some (lives S)"] h' by simp
  qed
qed

lemma Remove_spec:
  assumes cur: "current env ho st h a S" and pow: "pow2_ok env" and n: "length (lives S) \<le> element_limit"
    and key: "key \<in> valid_keys st"
  obtains b h' S' where "LinkedHashTable_Remove env ho h a key = Some (b, h')" "current env ho st h' b S'"
    "lives S' = lives_delete key (lives S)" "evolves ho h a S h' b S' (skip_removed (match_position key (lives S)))"
  using cur key
proof (cases rule: current_find)
  case (found e p)
  let ?S = "S[e := None]"
  obtain t where t: "RemoveEntry ho (tables h a) (int e) = Some t" "current env ho st (store_table h a t) a ?S"
      "evolves ho h a S (store_table h a t) a ?S (skip_removed (live_before S e))"
    using cur found(2,3) by (rule RemoveEntry_spec)
  have at: "live_before S e = match_position key (lives S)" using found(6) by (simp add: match_position_def)
  have lv: "lives ?S = lives_delete key (lives S)" by (rule lives_delete_at [OF found(2,3) at])
  then have "length (lives ?S) \<le> element_limit" using n by (simp add: lives_delete_def Let_def)
  then obtain b h' S' where s: "LinkedHashTable_Shrink env ho (store_table h a t) a 0 = Some (b, h')"
      "current env ho st h' b S'" "lives S' = lives ?S" "evolves ho (store_table h a t) a ?S h' b S' id"
    by (rule Shrink_spec [OF t(2) pow])
  have "LinkedHashTable_Remove env ho h a key = Some (b, h')"
    using found(1) t(1) s(1) by (simp add: LinkedHashTable_Remove_def)
  moreover have "evolves ho h a S h' b S' (skip_removed (match_position key (lives S)))"
    using evolves_trans [OF t(3) s(4)] at by simp
  ultimately show thesis using that s(2,3) lv by simp
next
  case absent
  have "skip_removed (match_position key (lives S)) (live_before S i) = live_before S i" for i
    using live_before_le(1) [of S i] match_position_absent [OF absent(3)] by (simp add: skip_removed_def)
  then have "evolves ho h a S h a S (skip_removed (match_position key (lives S)))"
    using evolves_refl [OF cur] by (simp add: evolves_def)
  then show thesis
    using that [of a h S] cur absent(1) lives_delete_absent [OF absent(3)] by (simp add: LinkedHashTable_Remove_def)
qed

lemma Create_current:
  assumes "layout_ok ho"
  shows "LinkedHashTable_Create ho h HASH_MIN_CAPACITY = Some (fresh_table h, alloc_table h (encode (empty_view ho 4)))"
    and "current env ho st (alloc_table h (encode (empty_view ho 4))) (fresh_table h) []"
proof -
  have four: "(4 :: nat) \<le> table_limit" by (simp add: table_limit_def)
  show "LinkedHashTable_Create ho h HASH_MIN_CAPACITY = Some (fresh_table h, alloc_table h (encode (empty_view ho 4)))"
    using Create_spec [OF assms four, of h] by (simp add: HASH_MIN_CAPACITY_def)
  show "current env ho st (alloc_table h (encode (empty_view ho 4))) (fresh_table h) []"
    using empty_view_inv [OF assms four, of 2 env st] by (intro currentI [of _ _ "empty_view ho 4"]) simp_all
qed

lemma Clear_spec:
  assumes cur: "current env ho st h a S"
  obtains h' where "LinkedHash_Clear ho h a = Some (fresh_table h, h')" "current env ho st h' (fresh_table h) []"
    "evolves ho h a S h' (fresh_table h) [] (\<lambda>_. 0)"
proof -
  let ?b = "fresh_table h" and ?h = "alloc_table h (encode (empty_view ho 4))"
  obtain v where v: "tables h a = encode v" "hash_inv env ho st v" "view_wf ho v" "a < ?b"
    using cur by (rule currentE)
  have lay: "layout_ok ho" using v(3) by (simp add: view_wf_def)
  let ?v = "v\<lparr>hv_next := VObject ?b, hv_deleted := - 1\<rparr>"
  have wf1: "view_wf ho (v\<lparr>hv_next := VObject ?b\<rparr>)" and wf2: "view_wf ho ?v" using v(3) by (simp_all add: view_wf_def)
  have cap: "0 < length (hv_buckets v)" using v(2) by (auto simp: hash_inv_def)
  let ?h' = "store_table ?h a (encode ?v)"
  have clear: "LinkedHash_Clear ho h a = Some (?b, ?h')"
    using Create_current(1) [OF lay, of h] header_specs(3,7) [OF v(3)] header_specs(6) [OF wf1] v(1,4) cap
    by (simp add: LinkedHash_Clear_def)
  have cur': "current env ho st ?h' ?b []"
    using Create_current(2) [OF lay, of env st h] v(4) by (auto simp: current_def)
  have "resolves ho ?h' a i ?b 0" for i
  proof (rule resolves.follow)
    show "a < fresh_table ?h'" using v(4) by simp
    show "GetNextTable (tables ?h' a) = Some (VObject ?b)" using header_specs(4) [OF wf2] by simp
    show "GetDeletedElementsAt ho (tables ?h' a) (int i) = Some (int i)"
      using header_specs(2) [OF wf2] by (simp add: GetDeletedElementsAt_def)
    show "resolves ho ?h' ?b (i - i) ?b 0" using current_resolves [OF cur', of 0] by simp
  qed simp
  then have "evolves ho h a S ?h' ?b [] (\<lambda>_. 0)" using v(4) by (auto simp: evolves_def others_kept_def)
  then show thesis using that clear cur' by blast
qed

end
