(* ===== verification/Ordered_Spec.thy ===== *)
theory Ordered_Spec
  imports Ordered_Collections Linked_Hash_Ops
begin

text \<open>
  \<open>Map\<close> and \<open>Set\<close> on lists, the way the language specification describes them: the entries of an object are a list
  that only grows, a removed entry becomes empty, and an iterator is an object and an index into its list.
  An entry is the list of its key and, in a \<open>Map\<close>, its value.  \<open>list_step\<close> has the one difference between the code and
  the specification, in the insertion: the key is stored as it is given, and a \<open>Set\<close> stores the value added last.
  \<open>Ordered_Ecma\<close> has the insertion of the specification.
\<close>

record spec_iterator =
  spec_map :: "nat option"
  spec_index :: nat
  spec_kind :: IterationKind

record spec_realm =
  spec_collections :: "nat \<rightharpoonup> JSTaggedValue list option list"
  spec_iterators :: "nat \<rightharpoonup> spec_iterator"
  spec_fresh :: nat

datatype collection_op =
    Create_collection
  | Insert_key JSTaggedValue JSTaggedValue JSTaggedValue
  | Get_value JSTaggedValue JSTaggedValue
  | Has_key JSTaggedValue JSTaggedValue
  | Delete_key JSTaggedValue JSTaggedValue
  | Clear_all JSTaggedValue
  | Get_size JSTaggedValue
  | Create_iterator JSTaggedValue IterationKind
  | Next_item JSTaggedValue

definition list_insert :: "hash_object \<Rightarrow> JSTaggedValue \<Rightarrow> JSTaggedValue \<Rightarrow> JSTaggedValue list option list \<Rightarrow> JSTaggedValue list option list" where
  "list_insert ho key v A = (let e = slot_position (matches key) A in
     if e < length A then A[e := map_option (\<lambda>p. p[ENTRY_VALUE_INDEX ho := v]) (A ! e)] else A @ [Some (payload ho key v)])"

definition spec_delete :: "JSTaggedValue \<Rightarrow> JSTaggedValue list option list \<Rightarrow> JSTaggedValue list option list" where
  "spec_delete key A = A[slot_position (matches key) A := None]"

definition spec_item :: "hash_object \<Rightarrow> IterationKind \<Rightarrow> JSTaggedValue list \<Rightarrow> iter_item" where
  "spec_item ho kind p = (case kind of
     KEY \<Rightarrow> Item (hd p) | VALUE \<Rightarrow> Item (p ! ENTRY_VALUE_INDEX ho) | KEY_AND_VALUE \<Rightarrow> Entry (hd p) (p ! ENTRY_VALUE_INDEX ho))"

definition spec_next :: "hash_object \<Rightarrow> spec_realm \<Rightarrow> spec_iterator \<Rightarrow> call_result \<times> spec_iterator" where
  "spec_next ho sp it = (case spec_map it of
     None \<Rightarrow> (IterResult (Item VUndefined) True, it)
   | Some m \<Rightarrow> (case spec_collections sp m of
       None \<Rightarrow> (IterResult (Item VUndefined) True, it)
     | Some A \<Rightarrow> (let k = next_slot A (spec_index it) in
         if k < length A then (IterResult (spec_item ho (spec_kind it) (the (A ! k))) False, it\<lparr>spec_index := Suc k\<rparr>)
         else (IterResult (Item VUndefined) True, it\<lparr>spec_map := None\<rparr>))))"

definition spec_on :: "collection_class \<Rightarrow> spec_realm \<Rightarrow> JSTaggedValue \<Rightarrow> (nat \<Rightarrow> JSTaggedValue list option list \<Rightarrow> call_result \<times> spec_realm) \<Rightarrow>
    call_result \<times> spec_realm" where
  "spec_on cl sp self f = (case object_of (spec_collections sp) self of
     None \<Rightarrow> (Thrown (not_a_collection cl), sp)
   | Some (m, A) \<Rightarrow> f m A)"

definition spec_store :: "spec_realm \<Rightarrow> nat \<Rightarrow> JSTaggedValue list option list \<Rightarrow> spec_realm" where
  "spec_store sp m A = sp\<lparr>spec_collections := (spec_collections sp)(m \<mapsto> A)\<rparr>"

fun list_step :: "collection_class \<Rightarrow> collection_op \<Rightarrow> spec_realm \<Rightarrow> call_result \<times> spec_realm" where
  "list_step cl Create_collection sp =
     (Value (VObject (spec_fresh sp)), (spec_store sp (spec_fresh sp) [])\<lparr>spec_fresh := Suc (spec_fresh sp)\<rparr>)"
| "list_step cl (Insert_key self key v) sp =
     spec_on cl sp self (\<lambda>m A. (Value self, spec_store sp m (list_insert (layout cl) key v A)))"
| "list_step cl (Get_value self key) sp = spec_on cl sp self (\<lambda>m A.
     (Value (case List.find (matches key) (lives A) of None \<Rightarrow> VUndefined | Some p \<Rightarrow> p ! ENTRY_VALUE_INDEX (layout cl)), sp))"
| "list_step cl (Has_key self key) sp =
     spec_on cl sp self (\<lambda>m A. (Value (TaggedBoolean (List.find (matches key) (lives A) \<noteq> None)), sp))"
| "list_step cl (Delete_key self key) sp = spec_on cl sp self (\<lambda>m A.
     (Value (TaggedBoolean (List.find (matches key) (lives A) \<noteq> None)), spec_store sp m (spec_delete key A)))"
| "list_step cl (Clear_all self) sp = spec_on cl sp self (\<lambda>m A. (Value VUndefined, spec_store sp m (map (\<lambda>_. None) A)))"
| "list_step cl (Get_size self) sp =
     spec_on cl sp self (\<lambda>m A. (Value (JSTaggedValue_uint32 (word_of_nat (length (lives A)))), sp))"
| "list_step cl (Create_iterator self kind) sp = spec_on cl sp self (\<lambda>m A.
     (Value (VObject (spec_fresh sp)),
      sp\<lparr>spec_iterators := (spec_iterators sp)(spec_fresh sp \<mapsto> \<lparr>spec_map = Some m, spec_index = 0, spec_kind = kind\<rparr>),
         spec_fresh := Suc (spec_fresh sp)\<rparr>))"
| "list_step cl (Next_item thisObj) sp = (case object_of (spec_iterators sp) thisObj of
     None \<Rightarrow> (Thrown (not_an_iterator cl), sp)
   | Some (i, it) \<Rightarrow> (case spec_next (layout cl) sp it of
       (out, it) \<Rightarrow> (out, sp\<lparr>spec_iterators := (spec_iterators sp)(i \<mapsto> it)\<rparr>)))"

section \<open>What the operations do to the occupied slots\<close>

lemma list_insert_lives:
  "lives (list_insert ho key v A) = lives_set ho key v (lives A)"
  "k \<le> length A \<Longrightarrow> k \<le> length (list_insert ho key v A) \<and> live_before (list_insert ho key v A) k = live_before A k"
proof -
  let ?e = "slot_position (matches key) A"
  have pos: "live_before A ?e = match_position key (lives A)"
    using slot_position_lives(1) by (simp add: match_position_def)
  have "lives (list_insert ho key v A) = lives_set ho key v (lives A) \<and>
      (k \<le> length A \<longrightarrow> k \<le> length (list_insert ho key v A) \<and> live_before (list_insert ho key v A) k = live_before A k)" for k
  proof (cases "?e < length A")
    case True
    then obtain p where p: "A ! ?e = Some p" by (rule slot_position_found)
    then have s: "list_insert ho key v A = A[?e := Some (p[ENTRY_VALUE_INDEX ho := v])]"
      using True by (simp add: list_insert_def Let_def)
    show ?thesis unfolding s
      using lives_update_Some [OF True p] live_before_update_Some [OF True p] lives_nth [OF True p] pos
      by (simp add: lives_set_def Let_def)
  next
    case False
    then have "\<forall>p \<in> set (lives A). \<not> matches key p" using slot_position_lives(2) [of "matches key" A] by blast
    then show ?thesis using False by (simp add: list_insert_def lives_set_def Let_def match_position_absent)
  qed
  then show "lives (list_insert ho key v A) = lives_set ho key v (lives A)"
    "k \<le> length A \<Longrightarrow> k \<le> length (list_insert ho key v A) \<and> live_before (list_insert ho key v A) k = live_before A k"
    by blast+
qed

lemma spec_delete_lives:
  "lives (spec_delete key A) = lives_delete key (lives A)" "length (spec_delete key A) = length A"
  "k \<le> length A \<Longrightarrow> live_before (spec_delete key A) k = skip_removed (match_position key (lives A)) (live_before A k)"
proof -
  let ?e = "slot_position (matches key) A"
  have pos: "live_before A ?e = match_position key (lives A)"
    using slot_position_lives(1) by (simp add: match_position_def)
  have "lives (spec_delete key A) = lives_delete key (lives A) \<and>
      (k \<le> length A \<longrightarrow> live_before (spec_delete key A) k = skip_removed (match_position key (lives A)) (live_before A k))" for k
  proof (cases "?e < length A")
    case True
    then obtain p where p: "A ! ?e = Some p" by (rule slot_position_found)
    show ?thesis
      using lives_delete_at [OF True p pos] live_before_update_None [OF True p, of k] pos
      by (simp add: spec_delete_def skip_removed_def)
  next
    case False
    then have "\<forall>p \<in> set (lives A). \<not> matches key p" using slot_position_lives(2) [of "matches key" A] by blast
    then show ?thesis
      using False live_before_le(1) [of A k]
      by (simp add: spec_delete_def lives_delete_absent match_position_absent skip_removed_def list_update_beyond)
  qed
  then show "lives (spec_delete key A) = lives_delete key (lives A)"
    "k \<le> length A \<Longrightarrow> live_before (spec_delete key A) k = skip_removed (match_position key (lives A)) (live_before A k)"
    by blast+
  show "length (spec_delete key A) = length A" by (simp add: spec_delete_def)
qed

end
