(* ===== verification/Ordered_Refinement.thy ===== *)
theory Ordered_Refinement
  imports Ordered_Spec Simulation
begin

text \<open>
  The objects and iterators of the code refine those of the language specification.  The code drops the
  empty entries whenever a table is rebuilt, and a replaced table stays behind for the iterators that refer
  to it; the entries that are not empty agree, and an iterator, moved to the current table, has the same
  number of them before it as its counterpart in the specification.
\<close>

section \<open>The relation\<close>

definition tables_rel :: "hash_env \<Rightarrow> hash_object \<Rightarrow> string_table \<Rightarrow> realm \<Rightarrow> spec_realm \<Rightarrow> (nat \<Rightarrow> JSTaggedValue list option list) \<Rightarrow> bool" where
  "tables_rel env ho st r sp Sf \<longleftrightarrow> inj_on (collections r) (dom (collections r)) \<and>
     (\<forall>m. rel_option (\<lambda>a A. current env ho st (table_store r) a (Sf m) \<and> lives (Sf m) = lives A)
        (collections r m) (spec_collections sp m))"

definition at_position :: "hash_object \<Rightarrow> realm \<Rightarrow> spec_realm \<Rightarrow> (nat \<Rightarrow> JSTaggedValue list option list) \<Rightarrow> nat \<Rightarrow> nat \<Rightarrow> nat \<Rightarrow> nat \<Rightarrow> bool" where
  "at_position ho r sp Sf x i m k \<longleftrightarrow> (\<exists>a A j. collections r m = Some a \<and> spec_collections sp m = Some A \<and> i \<le> table_limit \<and>
     resolves ho (table_store r) x i a j \<and> j \<le> length (Sf m) \<and> k \<le> length A \<and> live_before (Sf m) j = live_before A k)"

definition iterator_rel :: "hash_object \<Rightarrow> realm \<Rightarrow> spec_realm \<Rightarrow> (nat \<Rightarrow> JSTaggedValue list option list) \<Rightarrow> collection_iterator \<Rightarrow> spec_iterator \<Rightarrow> bool" where
  "iterator_rel ho r sp Sf it sit \<longleftrightarrow> iteration_kind it = spec_kind sit \<and>
     rel_option (\<lambda>x m. \<exists>i. NextIndex it = word_of_nat i \<and> at_position ho r sp Sf x i m (spec_index sit))
       (IteratedTable it) (spec_map sit)"

text \<open>
  \<open>P\<close> holds the positions of loops that are under way: a table and an index in the code, an object and an
  index in the specification.
\<close>

definition realm_rel :: "hash_env \<Rightarrow> collection_class \<Rightarrow> string_table \<Rightarrow> (nat \<times> nat \<times> nat \<times> nat) set \<Rightarrow> realm \<Rightarrow> spec_realm \<Rightarrow> bool" where
  "realm_rel env cl st P r sp \<longleftrightarrow> pow2_ok env \<and> fresh_object r = spec_fresh sp \<and>
     (\<forall>m \<ge> fresh_object r. collections r m = None) \<and>
     (\<exists>Sf. tables_rel env (layout cl) st r sp Sf \<and>
        (\<forall>i. rel_option (iterator_rel (layout cl) r sp Sf) (iterators r i) (spec_iterators sp i)) \<and>
        (\<forall>(x, i, m, k) \<in> P. at_position (layout cl) r sp Sf x i m k))"

section \<open>Changing the entries of one object\<close>

lemma resolves_other:
  assumes "resolves ho h x i c j" "c \<noteq> a" "GetNextTable (tables h a) = Some VHole" "others_kept h a h'"
  shows "resolves ho h' x i c j"
  using assms
proof (induction rule: resolves.induct)
  case (stay x i)
  then have "tables h' x = tables h x" "x < fresh_table h'" by (auto simp: others_kept_def)
  then show ?case using stay by (intro resolves.stay) simp_all
next
  case (follow x b i d c j)
  then have "x \<noteq> a" by auto
  then have "tables h' x = tables h x" "x < fresh_table h'" using follow by (auto simp: others_kept_def)
  then show ?case using follow by (intro resolves.follow [of x h' b]) simp_all
qed

lemma current_other: "current env ho st h a S \<Longrightarrow> a \<noteq> c \<Longrightarrow> others_kept h c h' \<Longrightarrow> current env ho st h' a S"
  by (auto simp: current_def others_kept_def)

lemma current_next: "current env ho st h a S \<Longrightarrow> GetNextTable (tables h a) = Some VHole"
  by (elim currentE) (simp add: header_specs)

lemma tables_rel_at:
  assumes "tables_rel env ho st r sp Sf" "collections r m = Some a"
  obtains A where "spec_collections sp m = Some A" "current env ho st (table_store r) a (Sf m)" "lives (Sf m) = lives A"
proof -
  have "rel_option (\<lambda>a A. current env ho st (table_store r) a (Sf m) \<and> lives (Sf m) = lives A) (collections r m) (spec_collections sp m)"
    using assms(1) by (simp add: tables_rel_def)
  then show thesis using that assms(2) by (cases "spec_collections sp m") simp_all
qed

lemma replace_linked_simps [simp]:
  "table_store (replace_linked r m bh) = snd bh" "collections (replace_linked r m bh) = (collections r)(m \<mapsto> fst bh)"
  "iterators (replace_linked r m bh) = iterators r" "fresh_object (replace_linked r m bh) = fresh_object r"
  by (simp_all add: replace_linked_def)

lemma spec_store_simps [simp]:
  "spec_collections (spec_store sp m A) = (spec_collections sp)(m \<mapsto> A)"
  "spec_iterators (spec_store sp m A) = spec_iterators sp" "spec_fresh (spec_store sp m A) = spec_fresh sp"
  by (simp_all add: spec_store_def)

text \<open>The change of object \<open>m\<close> from table \<open>a\<close> to table \<open>b\<close> and from list \<open>A\<close> to list \<open>A'\<close>.\<close>

definition step_matches :: "hash_env \<Rightarrow> hash_object \<Rightarrow> string_table \<Rightarrow> table_heap \<Rightarrow> nat \<Rightarrow> JSTaggedValue list option list \<Rightarrow>
    table_heap \<Rightarrow> nat \<Rightarrow> JSTaggedValue list option list \<Rightarrow> JSTaggedValue list option list \<Rightarrow> JSTaggedValue list option list \<Rightarrow> bool" where
  "step_matches env ho st h a S h' b S' A A' \<longleftrightarrow> (b = a \<or> fresh_table h \<le> b) \<and> current env ho st h' b S' \<and> lives S' = lives A' \<and>
     (\<exists>f. evolves ho h a S h' b S' f \<and> (\<forall>k \<le> length A. k \<le> length A' \<and> live_before A' k = f (live_before A k)))"

lemma tables_rel_step:
  assumes rel: "tables_rel env ho st r sp Sf" and m: "collections r m = Some a"
    and step: "step_matches env ho st (table_store r) a (Sf m) h' b S' A A'"
  shows "tables_rel env ho st (replace_linked r m (b, h')) (spec_store sp m A') (Sf(m := S'))"
proof -
  let ?h = "table_store r"
  have b: "b = a \<or> fresh_table ?h \<le> b" and cur: "current env ho st h' b S'" and lv: "lives S' = lives A'" and kept: "others_kept ?h a h'"
    using step by (auto simp: step_matches_def evolves_def)
  have inj: "inj_on (collections r) (dom (collections r))" using rel by (simp add: tables_rel_def)
  have other: "a' \<noteq> a \<and> a' \<noteq> b \<and> current env ho st h' a' (Sf m') \<and> (\<exists>A. spec_collections sp m' = Some A \<and> lives (Sf m') = lives A)"
    if m': "collections r m' = Some a'" "m' \<noteq> m" for m' a'
  proof -
    obtain B where B: "spec_collections sp m' = Some B" "current env ho st ?h a' (Sf m')" "lives (Sf m') = lives B"
      using tables_rel_at [OF rel m'(1)] .
    have "a' \<noteq> a" using inj m m' by (metis domI inj_onD)
    moreover have "a' < fresh_table ?h" using B(2) by (simp add: current_def)
    ultimately show ?thesis using B b current_other [OF B(2) _ kept] by auto
  qed
  have "inj_on ((collections r)(m \<mapsto> b)) (dom ((collections r)(m \<mapsto> b)))"
  proof (rule inj_onI)
    fix x y assume "x \<in> dom ((collections r)(m \<mapsto> b))" "y \<in> dom ((collections r)(m \<mapsto> b))"
      "((collections r)(m \<mapsto> b)) x = ((collections r)(m \<mapsto> b)) y"
    then show "x = y" using other [of x b] other [of y b] inj_onD [OF inj, of x y]
      by (cases "x = m"; cases "y = m") (auto simp: dom_def)
  qed
  moreover have "rel_option (\<lambda>a A. current env ho st h' a ((Sf(m := S')) m') \<and> lives ((Sf(m := S')) m') = lives A)
      (((collections r)(m \<mapsto> b)) m') (((spec_collections sp)(m \<mapsto> A')) m')" for m'
  proof (cases "m' = m")
    case True
    then show ?thesis using cur lv by simp
  next
    case False
    have "rel_option (\<lambda>a A. current env ho st ?h a (Sf m') \<and> lives (Sf m') = lives A) (collections r m') (spec_collections sp m')"
      using rel by (simp add: tables_rel_def)
    then show ?thesis using False other [of m'] by (cases "collections r m'"; cases "spec_collections sp m'") simp_all
  qed
  ultimately show ?thesis by (simp add: tables_rel_def)
qed

lemma at_position_step:
  assumes rel: "tables_rel env ho st r sp Sf" and m: "collections r m = Some a" "spec_collections sp m = Some A"
    and step: "step_matches env ho st (table_store r) a (Sf m) h' b S' A A'"
    and at: "at_position ho r sp Sf x i m' k"
  shows "at_position ho (replace_linked r m (b, h')) (spec_store sp m A') (Sf(m := S')) x i m' k"
proof -
  let ?h = "table_store r"
  obtain c B j where c: "collections r m' = Some c" "spec_collections sp m' = Some B" "i \<le> table_limit"
      "resolves ho ?h x i c j" "j \<le> length (Sf m')" "k \<le> length B" "live_before (Sf m') j = live_before B k"
    using at unfolding at_position_def by blast
  obtain f where f: "evolves ho ?h a (Sf m) h' b S' f" "\<forall>k \<le> length A. k \<le> length A' \<and> live_before A' k = f (live_before A k)"
    using step unfolding step_matches_def by blast
  have kept: "others_kept ?h a h'" using f(1) by (simp add: evolves_def)
  show ?thesis
  proof (cases "m' = m")
    case True
    then have eq: "c = a" "B = A" using c(1,2) m by simp_all
    obtain j' where j': "j' \<le> length S'" "resolves ho h' a j b j'" "live_before S' j' = f (live_before (Sf m) j)"
      using evolvesE [OF f(1)] c(5) True by blast
    have "resolves ho h' x i b j'" using resolves_trans [OF _ kept j'(2)] c(4) eq(1) by simp
    then show ?thesis using True j' c(3,6,7) f(2) eq by (auto simp: at_position_def)
  next
    case False
    have "c \<noteq> a" using rel c(1) m(1) False by (metis domI inj_onD tables_rel_def)
    moreover have "GetNextTable (tables ?h a) = Some VHole"
      using tables_rel_at [OF rel m(1)] current_next by metis
    ultimately have "resolves ho h' x i c j" using resolves_other [OF c(4) _ _ kept] by blast
    then show ?thesis using False c by (auto simp: at_position_def)
  qed
qed

lemma realm_relI:
  "pow2_ok env \<Longrightarrow> fresh_object r = spec_fresh sp \<Longrightarrow> \<forall>m \<ge> fresh_object r. collections r m = None \<Longrightarrow>
   tables_rel env (layout cl) st r sp Sf \<Longrightarrow>
   (\<And>i. rel_option (iterator_rel (layout cl) r sp Sf) (iterators r i) (spec_iterators sp i)) \<Longrightarrow>
   (\<And>x i m k. (x, i, m, k) \<in> P \<Longrightarrow> at_position (layout cl) r sp Sf x i m k) \<Longrightarrow> realm_rel env cl st P r sp"
  unfolding realm_rel_def by blast

lemma realm_relE:
  assumes "realm_rel env cl st P r sp"
  obtains Sf where "pow2_ok env" "fresh_object r = spec_fresh sp" "\<forall>m \<ge> fresh_object r. collections r m = None"
    "tables_rel env (layout cl) st r sp Sf"
    "\<forall>i. rel_option (iterator_rel (layout cl) r sp Sf) (iterators r i) (spec_iterators sp i)"
    "\<forall>(x, i, m, k) \<in> P. at_position (layout cl) r sp Sf x i m k"
  using assms unfolding realm_rel_def by blast

lemma iterator_rel_mono:
  assumes "iterator_rel ho r sp Sf it sit" "\<And>x i m k. at_position ho r sp Sf x i m k \<Longrightarrow> at_position ho r' sp' Sf' x i m k"
  shows "iterator_rel ho r' sp' Sf' it sit"
  using assms by (auto simp: iterator_rel_def elim!: option.rel_mono_strong)

text \<open>A change that keeps every position.\<close>

lemma realm_rel_positions:
  assumes "realm_rel env cl st P r sp" "iterators r' = iterators r" "spec_iterators sp' = spec_iterators sp"
    and "fresh_object r' = spec_fresh sp'" "\<forall>m \<ge> fresh_object r'. collections r' m = None"
    and kept: "\<And>Sf. tables_rel env (layout cl) st r sp Sf \<Longrightarrow> \<exists>Sf'. tables_rel env (layout cl) st r' sp' Sf' \<and>
      (\<forall>x i m k. at_position (layout cl) r sp Sf x i m k \<longrightarrow> at_position (layout cl) r' sp' Sf' x i m k)"
  shows "realm_rel env cl st P r' sp'"
proof -
  obtain Sf where Sf: "pow2_ok env" "tables_rel env (layout cl) st r sp Sf"
      "\<forall>i. rel_option (iterator_rel (layout cl) r sp Sf) (iterators r i) (spec_iterators sp i)"
      "\<forall>(x, i, m, k) \<in> P. at_position (layout cl) r sp Sf x i m k"
    using assms(1) by (rule realm_relE)
  obtain Sf' where Sf': "tables_rel env (layout cl) st r' sp' Sf'"
      "\<forall>x i m k. at_position (layout cl) r sp Sf x i m k \<longrightarrow> at_position (layout cl) r' sp' Sf' x i m k"
    using kept [OF Sf(2)] by blast
  show ?thesis
  proof (rule realm_relI [OF Sf(1) assms(4,5) Sf'(1)])
    fix i
    show "rel_option (iterator_rel (layout cl) r' sp' Sf') (iterators r' i) (spec_iterators sp' i)"
      using Sf(3) [rule_format, of i] Sf'(2) unfolding assms(2,3) by (auto elim!: option.rel_mono_strong iterator_rel_mono)
  next
    fix x i m k assume "(x, i, m, k) \<in> P"
    then show "at_position (layout cl) r' sp' Sf' x i m k" using Sf(4) Sf'(2) by auto
  qed
qed

lemma realm_rel_step:
  assumes rel: "realm_rel env cl st P r sp" and m: "collections r m = Some a" "spec_collections sp m = Some A"
    and step: "\<And>Sf. tables_rel env (layout cl) st r sp Sf \<Longrightarrow>
      \<exists>S'. step_matches env (layout cl) st (table_store r) a (Sf m) h' b S' A A'"
  shows "realm_rel env cl st P (replace_linked r m (b, h')) (spec_store sp m A')"
proof (rule realm_rel_positions [OF rel])
  fix Sf assume Sf: "tables_rel env (layout cl) st r sp Sf"
  obtain S' where S': "step_matches env (layout cl) st (table_store r) a (Sf m) h' b S' A A'" using step [OF Sf] ..
  show "\<exists>Sf'. tables_rel env (layout cl) st (replace_linked r m (b, h')) (spec_store sp m A') Sf' \<and>
      (\<forall>x i m' k. at_position (layout cl) r sp Sf x i m' k \<longrightarrow>
        at_position (layout cl) (replace_linked r m (b, h')) (spec_store sp m A') Sf' x i m' k)"
    using tables_rel_step [OF Sf m(1) S'] at_position_step [OF Sf m S'] by blast
qed (use rel m in \<open>auto simp: realm_rel_def\<close>)

section \<open>Iterators\<close>

lemma sint_of_nat: "i \<le> table_limit \<Longrightarrow> sint (word_of_nat i :: u32) = int i"
  using sint_of_int [of "int i"] by (simp add: table_limit_def)

lemma update_loop_resolves: "resolves ho h x i a j \<Longrightarrow> update_loop ho h x (int i) = Some (a, int j)"
proof (induction rule: resolves.induct)
  case (stay a i)
  then show ?case by (subst update_loop.simps) simp
next
  case (follow a b i d c j)
  then have "int i - int d = int (i - d)" by simp
  then show ?case using follow by (subst update_loop.simps) simp
qed

inductive_cases resolvesE: "resolves ho h x i a j"

lemma iterator_update_spec:
  assumes "IteratedTable it = Some x" "NextIndex it = word_of_nat i" "i \<le> table_limit" "resolves ho h x i a j"
  shows "iterator_update ho h it = Some (it\<lparr>IteratedTable := Some a, NextIndex := word_of_nat j\<rparr>)"
proof -
  obtain n where n: "GetNextTable (tables h x) = Some n" using assms(4) by (auto elim: resolvesE)
  show ?thesis
  proof (cases "n = VHole")
    case True
    then have "a = x" "j = i" using assms(4) n by (auto elim: resolvesE)
    then have "it\<lparr>IteratedTable := Some a, NextIndex := word_of_nat j\<rparr> = it" using assms(1,2) by simp
    then show ?thesis using n True assms(1) by (simp add: iterator_update_def)
  next
    case False
    then show ?thesis
      using n assms(1,2) update_loop_resolves [OF assms(4)] sint_of_nat [OF assms(3)] by (simp add: iterator_update_def)
  qed
qed

lemma live_entry_loop:
  assumes "view_wf ho v" "used v \<le> length (hv_buckets v)" "j + c = used v"
  shows "live_entry ho (encode v) c (int j) =
    Some (if next_slot (slots ho v) j < length (slots ho v) then Some (int (next_slot (slots ho v) j)) else None)"
  using assms(3)
proof (induction c arbitrary: j)
  case 0
  then show ?case using slots_length [OF assms(1,2)] by (simp add: next_slot_def)
next
  case (Suc c)
  let ?S = "slots ho v"
  have j: "j < used v" "j < length (hv_buckets v)" "j < length ?S"
    using Suc.prems assms(2) slots_length [OF assms(1,2)] by simp_all
  have so: "?S ! j = slot_of ho (hv_entries v ! j)" by (rule slots_nth [OF assms(1,2) j(1)])
  have dr: "drop j ?S = ?S ! j # drop (Suc j) ?S" using j(3) by (rule Cons_nth_drop_Suc [symmetric])
  show ?case
  proof (cases "?S ! j")
    case None
    then have "next_slot ?S j = next_slot ?S (Suc j)" using dr by (simp add: next_slot_def)
    moreover have "hv_entries v ! j ! 0 = VHole" using None so by simp
    moreover have "live_entry ho (encode v) c (int (Suc j)) =
        Some (if next_slot ?S (Suc j) < length ?S then Some (int (next_slot ?S (Suc j))) else None)"
      using Suc.prems by (intro Suc.IH) simp
    ultimately show ?thesis using entry_specs(1) [OF assms(1) j(2)] by (simp add: ac_simps)
  next
    case (Some p)
    then have "next_slot ?S j = j" using dr by (simp add: next_slot_def)
    moreover have "hv_entries v ! j ! 0 \<noteq> VHole" using Some so by (simp add: slot_of_Some)
    ultimately show ?thesis using entry_specs(1) [OF assms(1) j(2)] j(3) by simp
  qed
qed

lemma current_total:
  assumes "current env ho st h a S"
  shows "totalElements (tables h a) = Some (int (length S))" "length S \<le> table_limit"
proof -
  obtain v where v: "tables h a = encode v" "hash_inv env ho st v" "view_wf ho v" "used v \<le> length (hv_buckets v)" "length S = used v"
    using assms by (rule currentE)
  have "0 \<le> hv_elements v" "0 \<le> hv_deleted v" using v(2,3) by (auto simp: hash_inv_def view_wf_def)
  then show "totalElements (tables h a) = Some (int (length S))"
    using v(1,5) header_specs(1,2) [OF v(3)] by (simp add: totalElements_def used_def)
  show "length S \<le> table_limit" using v(4,5) view_wfD(6) [OF v(3)] by (simp add: table_limit_def)
qed

lemma live_entry_spec:
  assumes "current env ho st h a S" "j \<le> length S"
  shows "live_entry ho (tables h a) (nat (int (length S) - int j)) (int j) =
    Some (if next_slot S j < length S then Some (int (next_slot S j)) else None)"
proof -
  obtain v where v: "tables h a = encode v" "view_wf ho v" "slots ho v = S" "used v \<le> length (hv_buckets v)" "length S = used v"
    using assms(1) by (rule currentE)
  have "j + nat (int (length S) - int j) = used v" using assms(2) v(5) by simp
  from live_entry_loop [OF v(2,4) this] show ?thesis using v(1,3) by simp
qed

section \<open>The contract of a class\<close>

text \<open>What the items of an iterator and the arguments of a callback are, in terms of an entry.\<close>

locale collection_laws =
  fixes cl :: collection_class
  assumes layout_law: "layout_ok (layout cl)"
    and item_law: "current env (layout cl) st h a S \<Longrightarrow> e < length S \<Longrightarrow> S ! e = Some p \<Longrightarrow>
      item_at cl kind (tables h a) (int e) = Some (spec_item (layout cl) kind p)"
    and argument_law: "current env (layout cl) st h a S \<Longrightarrow> e < length S \<Longrightarrow> S ! e = Some p \<Longrightarrow>
      GetKey (layout cl) (tables h a) (int e) = Some (hd p) \<and>
      callback_value cl (tables h a) (int e) = Some (p ! ENTRY_VALUE_INDEX (layout cl))"

lemma current_entry:
  assumes "current env ho st h a S" "e < length S" "S ! e = Some p"
  shows "GetKey ho (tables h a) (int e) = Some (hd p)" "GetValue ho (tables h a) (int e) = Some (p ! ENTRY_VALUE_INDEX ho)"
    "p ! 0 = hd p"
proof -
  obtain v where v: "tables h a = encode v" "view_wf ho v" "slots ho v = S" "used v \<le> length (hv_buckets v)" "length S = used v"
    using assms(1) by (rule currentE)
  have e: "e < used v" "e < length (hv_buckets v)" using assms(2) v by simp_all
  have so: "slot_of ho (hv_entries v ! e) = Some p" using slots_nth [OF v(2,4) e(1)] assms(3) v(3) by simp
  then have p: "p = take (ENTRY_SIZE ho) (hv_entries v ! e)" "entry_key v e \<noteq> VHole"
    by (auto simp: slot_of_Some entry_key_def)
  have hd: "hd p = hv_entries v ! e ! 0" using live_slot(2) [OF v(2,4) e(1) p(2)] p(1) by (simp add: entry_key_def)
  show "GetKey ho (tables h a) (int e) = Some (hd p)" using entry_specs(1) [OF v(2) e(2)] v(1) hd by simp
  show "GetValue ho (tables h a) (int e) = Some (p ! ENTRY_VALUE_INDEX ho)"
    using entry_specs(2) [OF v(2) e(2)] v(1) p(1) view_wfD(1) [OF v(2)] by simp
  show "p ! 0 = hd p" using hd p(1) view_wfD(3) [OF v(2)] by simp
qed

interpretation map_collection: collection_laws map_class
proof unfold_locales
  fix env st h a S e p kind
  assume "current env (layout map_class) st h a S" "e < length S" "S ! e = Some p"
  note ce = current_entry [OF this, unfolded map_class_def, simplified]
  show "item_at map_class kind (tables h a) (int e) = Some (spec_item (layout map_class) kind p)"
    using ce by (cases kind) (simp_all add: map_class_def map_item_def spec_item_def)
  show "GetKey (layout map_class) (tables h a) (int e) = Some (hd p) \<and>
      callback_value map_class (tables h a) (int e) = Some (p ! ENTRY_VALUE_INDEX (layout map_class))"
    using ce by (simp add: map_class_def)
qed (simp add: map_class_def)

interpretation set_collection: collection_laws set_class
proof unfold_locales
  fix env st h a S e p kind
  assume "current env (layout set_class) st h a S" "e < length S" "S ! e = Some p"
  note ce = current_entry [OF this, unfolded set_class_def, simplified]
  have vi: "ENTRY_VALUE_INDEX LinkedHashSetObject = 0" by (simp add: LinkedHashSetObject_def)
  show "item_at set_class kind (tables h a) (int e) = Some (spec_item (layout set_class) kind p)"
    using ce vi by (cases kind) (simp_all add: set_class_def set_item_def spec_item_def)
  show "GetKey (layout set_class) (tables h a) (int e) = Some (hd p) \<and>
      callback_value set_class (tables h a) (int e) = Some (p ! ENTRY_VALUE_INDEX (layout set_class))"
    using ce vi by (simp add: set_class_def)
qed (simp add: set_class_def)

context collection_laws
begin

lemma next_item_spec:
  assumes rel: "tables_rel env (layout cl) st r sp Sf" and it: "iterator_rel (layout cl) r sp Sf it sit"
  shows "\<exists>it'. next_item cl (table_store r) it = Some (fst (spec_next (layout cl) sp sit), it') \<and>
    iterator_rel (layout cl) r sp Sf it' (snd (spec_next (layout cl) sp sit))"
proof (cases "IteratedTable it")
  case None
  then have "spec_map sit = None" using it by (simp add: iterator_rel_def)
  then show ?thesis
    using None it by (simp add: next_item_def iterator_update_def spec_next_def)
next
  case (Some x)
  then obtain m where m: "spec_map sit = Some m" using it by (cases "spec_map sit") (simp_all add: iterator_rel_def)
  then obtain i where i: "NextIndex it = word_of_nat i" "at_position (layout cl) r sp Sf x i m (spec_index sit)"
    using it Some by (auto simp: iterator_rel_def)
  obtain a A j where at: "collections r m = Some a" "spec_collections sp m = Some A" "i \<le> table_limit"
      "resolves (layout cl) (table_store r) x i a j" "j \<le> length (Sf m)" "spec_index sit \<le> length A"
      "live_before (Sf m) j = live_before A (spec_index sit)"
    using i(2) unfolding at_position_def by blast
  have cur: "current env (layout cl) st (table_store r) a (Sf m)" and lv: "lives (Sf m) = lives A"
    using tables_rel_at [OF rel at(1)] at(2) by auto
  let ?h = "table_store r" and ?S = "Sf m" and ?k = "next_slot A (spec_index sit)"
  let ?it = "it\<lparr>IteratedTable := Some a, NextIndex := word_of_nat j\<rparr>"
  note upd = iterator_update_spec [OF Some i(1) at(3,4)]
  have j: "sint (word_of_nat j :: u32) = int j" using at(5) current_total(2) [OF cur] by (intro sint_of_nat) simp
  note scan = current_total(1) [OF cur] live_entry_spec [OF cur at(5)]
  note found = next_slot_found [OF at(5)] next_slot_found [OF at(6)]
  have kind: "iteration_kind it = spec_kind sit" using it by (simp add: iterator_rel_def)
  show ?thesis
  proof (cases "next_slot ?S j < length ?S")
    case True
    let ?n = "next_slot ?S j"
    have k: "?k < length A" using True found(1,4) at(7) lv by simp
    have p: "?S ! ?n = Some (the (A ! ?k))" using found(2) [OF True] found(5) [OF k] at(7) lv by simp
    have "next_item cl ?h it =
        Some (IterResult (spec_item (layout cl) (spec_kind sit) (the (A ! ?k))) False, ?it\<lparr>NextIndex := word_of_int (int ?n + 1)\<rparr>)"
      using upd scan j True item_law [OF cur True p] kind by (simp add: next_item_def)
    moreover have "at_position (layout cl) r sp Sf a (Suc ?n) m (Suc ?k)"
      unfolding at_position_def
      using at(1,2) True k current_resolves [OF cur, of "Suc ?n"] current_total(2) [OF cur] found(3) [OF True] found(6) [OF k] at(7)
      by (intro exI [of _ a] exI [of _ A] exI [of _ "Suc ?n"]) simp
    then have "iterator_rel (layout cl) r sp Sf (?it\<lparr>NextIndex := word_of_int (int ?n + 1)\<rparr>) (sit\<lparr>spec_index := Suc ?k\<rparr>)"
      using kind m by (auto simp: iterator_rel_def ac_simps intro!: exI [of _ "Suc ?n"])
    ultimately show ?thesis using m at(2) k by (simp add: spec_next_def Let_def)
  next
    case False
    then have k: "\<not> ?k < length A" using found(1,4) at(7) lv by simp
    have "next_item cl ?h it = Some (IterResult (Item VUndefined) True, ?it\<lparr>IteratedTable := None\<rparr>)"
      using upd scan j False by (simp add: next_item_def)
    then show ?thesis using m at(2) k kind by (simp add: spec_next_def Let_def iterator_rel_def)
  qed
qed

end

section \<open>Steps\<close>

fun collection_step :: "hash_env \<Rightarrow> collection_class \<Rightarrow> collection_op \<Rightarrow> realm \<Rightarrow> (call_result \<times> realm) option" where
  "collection_step env cl Create_collection r = new_collection cl r"
| "collection_step env cl (Insert_key self key v) r = on_collection cl r self (\<lambda>m. do {
     (e, r) \<leftarrow> linked_insert env (layout cl) r m key v;
     Some (case e of None \<Rightarrow> Value self | Some msg \<Rightarrow> Thrown msg, r)
   })"
| "collection_step env cl (Get_value self key) r = on_collection cl r self (\<lambda>m. do {
     size \<leftarrow> linked_size r m;
     if size = 0 then Some (Value VUndefined, r)
     else do { a \<leftarrow> collections r m; v \<leftarrow> LinkedHash_Get env (layout cl) (table_store r) a key; Some (Value v, r) }
   })"
| "collection_step env cl (Has_key self key) r = on_collection cl r self (\<lambda>m. do {
     flag \<leftarrow> linked_has env (layout cl) r m key;
     Some (Value (TaggedBoolean flag), r)
   })"
| "collection_step env cl (Delete_key self key) r = on_collection cl r self (\<lambda>m. do {
     (flag, r) \<leftarrow> linked_delete env (layout cl) r m key;
     Some (Value (TaggedBoolean flag), r)
   })"
| "collection_step env cl (Clear_all self) r = on_collection cl r self (\<lambda>m. do {
     r \<leftarrow> linked_clear (layout cl) r m;
     Some (Value VUndefined, r)
   })"
| "collection_step env cl (Get_size self) r = on_collection cl r self (\<lambda>m. do {
     count \<leftarrow> linked_size r m;
     Some (Value (JSTaggedValue_uint32 count), r)
   })"
| "collection_step env cl (Create_iterator self kind) r = create_iterator cl r self kind"
| "collection_step env cl (Next_item thisObj) r = iterator_next cl r thisObj"

fun op_ok :: "string_table \<Rightarrow> hash_object \<Rightarrow> collection_op \<Rightarrow> bool" where
  "op_ok st ho (Insert_key self key v) \<longleftrightarrow> key \<in> valid_keys st \<and> (ENTRY_VALUE_INDEX ho = 0 \<longrightarrow> v = key)"
| "op_ok st ho (Get_value self key) \<longleftrightarrow> key \<in> valid_keys st"
| "op_ok st ho (Has_key self key) \<longleftrightarrow> key \<in> valid_keys st"
| "op_ok st ho (Delete_key self key) \<longleftrightarrow> key \<in> valid_keys st"
| "op_ok st ho _ \<longleftrightarrow> True"

definition spec_size :: "spec_realm \<Rightarrow> nat" where
  "spec_size sp = (\<Sum>m \<in> dom (spec_collections sp). length (lives (the (spec_collections sp m))))"

lemma spec_size_simps [simp]:
  "spec_size (sp\<lparr>spec_fresh := x\<rparr>) = spec_size sp" "spec_size (sp\<lparr>spec_iterators := y\<rparr>) = spec_size sp"
  by (simp_all add: spec_size_def)

lemma spec_size_store:
  assumes "length (lives A') \<le> Suc (case spec_collections sp m of None \<Rightarrow> 0 | Some A \<Rightarrow> length (lives A))"
  shows "spec_size (spec_store sp m A') \<le> Suc (spec_size sp)"
proof (cases "finite (dom (spec_collections sp))")
  case True
  let ?g = "\<lambda>m. length (lives (the (spec_collections sp m)))"
  let ?d = "dom (spec_collections sp) - {m}"
  have "spec_size (spec_store sp m A') = length (lives A') + sum ?g ?d"
    unfolding spec_size_def using True by (simp add: sum.insert_remove cong: sum.cong_simp)
  moreover have "(case spec_collections sp m of None \<Rightarrow> 0 | Some A \<Rightarrow> length (lives A)) + sum ?g ?d \<le> spec_size sp"
    unfolding spec_size_def using True sum.remove [of "dom (spec_collections sp)" m ?g]
    by (cases "spec_collections sp m") (auto simp: domIff intro: sum_mono2)
  ultimately show ?thesis using assms by linarith
qed (simp add: spec_size_def)

lemma spec_size_element: "finite (dom (spec_collections sp)) \<Longrightarrow> spec_collections sp m = Some A \<Longrightarrow> length (lives A) \<le> spec_size sp"
  unfolding spec_size_def using sum.remove [of "dom (spec_collections sp)" m "\<lambda>m. length (lives (the (spec_collections sp m)))"]
  by (auto simp: domIff)

lemma lives_set_length: "length (lives_set ho key v ps) \<le> Suc (length ps)"
  by (simp add: lives_set_def Let_def)

lemma list_step_size: "spec_size (snd (list_step cl op sp)) \<le> Suc (spec_size sp)"
proof -
  have on: "spec_size (snd (spec_on cl sp self f)) \<le> Suc (spec_size sp)"
    if "\<And>m A. spec_collections sp m = Some A \<Longrightarrow> spec_size (snd (f m A)) \<le> Suc (spec_size sp)" for self f
    using that by (auto simp: spec_on_def object_of_def split: JSTaggedValue.splits option.splits)
  show ?thesis
  proof (cases op)
    case Create_collection
    have "spec_size (spec_store sp (spec_fresh sp) []) \<le> Suc (spec_size sp)" by (rule spec_size_store) simp
    then show ?thesis using Create_collection by simp
  next
    case (Insert_key self key v)
    then show ?thesis using list_insert_lives(1) lives_set_length by (auto intro!: on spec_size_store)
  next
    case (Delete_key self key)
    then show ?thesis using spec_delete_lives(1) by (auto intro!: on spec_size_store simp: lives_delete_def Let_def)
  next
    case (Clear_all self)
    then show ?thesis by (auto intro!: on spec_size_store)
  next
    case (Next_item thisObj)
    then show ?thesis by (auto split: option.split prod.split)
  qed (auto intro!: on)
qed

end
