(* ===== verification/Ordered_Simulation.thy ===== *)
theory Ordered_Simulation
  imports Ordered_Refinement
begin

text \<open>
  Every built-in function of \<open>Map\<close> and \<open>Set\<close> simulates the one on lists, so every sequence of calls
  does; the proofs are done once for both classes.
\<close>

section \<open>Objects\<close>

lemma tables_rel_None:
  assumes "tables_rel env ho st r sp Sf"
  shows "collections r m = None \<longleftrightarrow> spec_collections sp m = None"
proof -
  have "rel_option (\<lambda>a A. current env ho st (table_store r) a (Sf m) \<and> lives (Sf m) = lives A) (collections r m) (spec_collections sp m)"
    using assms by (simp add: tables_rel_def)
  then show ?thesis by (cases "collections r m"; cases "spec_collections sp m") simp_all
qed

lemma realm_object_cases:
  assumes "realm_rel env cl st P r sp"
  obtains (missing) "object_of (collections r) self = None" "object_of (spec_collections sp) self = None"
  | (present) m a A Sf where "object_of (collections r) self = Some (m, a)" "object_of (spec_collections sp) self = Some (m, A)"
      "collections r m = Some a" "spec_collections sp m = Some A" "tables_rel env (layout cl) st r sp Sf"
      "current env (layout cl) st (table_store r) a (Sf m)" "lives (Sf m) = lives A" "self = VObject m"
proof -
  obtain Sf where Sf: "tables_rel env (layout cl) st r sp Sf" using assms by (auto simp: realm_rel_def)
  show thesis
  proof (cases "object_of (collections r) self")
    case None
    have "object_of (spec_collections sp) self = None"
      using None tables_rel_None [OF Sf] by (auto simp: object_of_def split: JSTaggedValue.splits option.splits)
    then show thesis using missing None by blast
  next
    case (Some x)
    then obtain m a where x: "x = (m, a)" "self = VObject m" "collections r m = Some a"
      by (auto simp: object_of_def split: JSTaggedValue.splits option.splits)
    obtain A where A: "spec_collections sp m = Some A" "current env (layout cl) st (table_store r) a (Sf m)" "lives (Sf m) = lives A"
      using tables_rel_at [OF Sf x(3)] .
    have "object_of (spec_collections sp) self = Some (m, A)" using x(2) A(1) by (simp add: object_of_def)
    then show thesis using present [of m a A Sf] Some x A Sf by simp
  qed
qed

lemma realm_size:
  assumes "realm_rel env cl st P r sp" "spec_collections sp m = Some A"
  shows "length (lives A) \<le> spec_size sp"
proof -
  obtain Sf where Sf: "tables_rel env (layout cl) st r sp Sf" using assms(1) by (auto simp: realm_rel_def)
  have "m < fresh_object r" if "spec_collections sp m = Some A" for m A
  proof (rule ccontr)
    assume "\<not> m < fresh_object r"
    then have "collections r m = None" using assms(1) by (simp add: realm_rel_def)
    then show False using tables_rel_None [OF Sf, of m] that by simp
  qed
  then have "dom (spec_collections sp) \<subseteq> {..<fresh_object r}" by auto
  then have "finite (dom (spec_collections sp))" by (rule finite_subset) simp
  then show ?thesis using assms(2) by (rule spec_size_element)
qed

text \<open>The outcome of a call: the result of the specification and a realm that is related to its state.\<close>

definition simulates :: "hash_env \<Rightarrow> collection_class \<Rightarrow> string_table \<Rightarrow> (nat \<times> nat \<times> nat \<times> nat) set \<Rightarrow> (call_result \<times> realm) option \<Rightarrow> call_result \<times> spec_realm \<Rightarrow> bool" where
  "simulates env cl st P res spec \<longleftrightarrow> (\<exists>r'. res = Some (fst spec, r') \<and> realm_rel env cl st P r' (snd spec))"

lemma on_simulates:
  assumes rel: "realm_rel env cl st P r sp"
    and body: "\<And>m a A Sf. self = VObject m \<Longrightarrow> collections r m = Some a \<Longrightarrow> spec_collections sp m = Some A \<Longrightarrow>
      current env (layout cl) st (table_store r) a (Sf m) \<Longrightarrow> lives (Sf m) = lives A \<Longrightarrow>
      simulates env cl st P (f m) (g m A)"
  shows "simulates env cl st P (on_collection cl r self f) (spec_on cl sp self g)"
  using rel
proof (cases rule: realm_object_cases [of _ _ _ _ _ _ self])
  case missing
  then show ?thesis using rel by (simp add: on_collection_def spec_on_def simulates_def)
next
  case (present m a A Sf)
  then show ?thesis using body [of m a A Sf] by (simp add: on_collection_def spec_on_def)
qed

section \<open>Changes\<close>

lemma tables_rel_both:
  assumes "tables_rel env ho st r sp Sf" "collections r m = Some a" "spec_collections sp m = Some A"
  shows "current env ho st (table_store r) a (Sf m)" "lives (Sf m) = lives A"
  using tables_rel_at [OF assms(1,2)] assms(3) by auto

lemma change_simulates:
  assumes rel: "realm_rel env cl st P r sp" and m: "collections r m = Some a" "spec_collections sp m = Some A"
    and change: "\<And>S. current env (layout cl) st (table_store r) a S \<Longrightarrow> lives S = lives A \<Longrightarrow>
      \<exists>b h' S'. res = Some (b, h') \<and> step_matches env (layout cl) st (table_store r) a S h' b S' A A'"
  obtains b h' where "res = Some (b, h')" "realm_rel env cl st P (replace_linked r m (b, h')) (spec_store sp m A')"
proof -
  have step: "\<exists>b h' S'. res = Some (b, h') \<and> step_matches env (layout cl) st (table_store r) a (Sf m) h' b S' A A'"
    if "tables_rel env (layout cl) st r sp Sf" for Sf
    using change [OF tables_rel_both [OF that m]] .
  obtain Sf where "tables_rel env (layout cl) st r sp Sf" using rel by (auto simp: realm_rel_def)
  from step [OF this] obtain b h' where res: "res = Some (b, h')" by blast
  have "realm_rel env cl st P (replace_linked r m (b, h')) (spec_store sp m A')"
    using rel m by (rule realm_rel_step) (use step res in auto)
  then show thesis using that res by blast
qed

lemma insert_simulates:
  assumes rel: "realm_rel env cl st P r sp" and m: "collections r m = Some a" "spec_collections sp m = Some A"
    and size: "spec_size sp < element_limit" and key: "key \<in> valid_keys st" "ENTRY_VALUE_INDEX (layout cl) = 0 \<longrightarrow> v = key"
  obtains r' where "linked_insert env (layout cl) r m key v = Some (None, r')"
    "realm_rel env cl st P r' (spec_store sp m (list_insert (layout cl) key v A))"
proof -
  have pow: "pow2_ok env" using rel by (simp add: realm_rel_def)
  have step: "\<exists>b h' S'. LinkedHashTable_Insert env (layout cl) (table_store r) a key v = Some (b, h') \<and>
      step_matches env (layout cl) st (table_store r) a S h' b S' A (list_insert (layout cl) key v A)"
    if cur: "current env (layout cl) st (table_store r) a S" and lv: "lives S = lives A" for S
  proof -
    have "length (lives S) < element_limit" using lv realm_size [OF rel m(2)] size by simp
    from Insert_spec [OF cur pow this key] obtain b h' S' where i:
        "LinkedHashTable_Insert env (layout cl) (table_store r) a key v = Some (b, h')" "current env (layout cl) st h' b S'"
        "lives S' = lives_set (layout cl) key v (lives S)" "evolves (layout cl) (table_store r) a S h' b S' id"
        "b = a \<or> fresh_table (table_store r) \<le> b"
      by blast
    have "step_matches env (layout cl) st (table_store r) a S h' b S' A (list_insert (layout cl) key v A)"
      unfolding step_matches_def using i(2-5) lv list_insert_lives [where ho = "layout cl" and key = key and v = v and A = A]
      by (intro conjI exI [of _ id]) simp_all
    then show ?thesis using i(1) by blast
  qed
  obtain b h' where "LinkedHashTable_Insert env (layout cl) (table_store r) a key v = Some (b, h')"
      "realm_rel env cl st P (replace_linked r m (b, h')) (spec_store sp m (list_insert (layout cl) key v A))"
    using change_simulates [OF rel m step] by blast
  moreover have "key \<noteq> VHole" using key(1) by (auto simp: valid_keys_def)
  ultimately show thesis using that m(1) by (simp add: linked_insert_def IsKey_def)
qed

lemma delete_simulates:
  assumes rel: "realm_rel env cl st P r sp" and m: "collections r m = Some a" "spec_collections sp m = Some A"
    and key: "key \<in> valid_keys st"
  obtains r' where "linked_delete env (layout cl) r m key = Some (List.find (matches key) (lives A) \<noteq> None, r')"
    "realm_rel env cl st P r' (spec_store sp m (spec_delete key A))"
proof -
  let ?h = "table_store r" and ?A = "spec_delete key A"
  let ?res = "do {
      entry \<leftarrow> FindElement env (layout cl) (tables ?h a) key;
      if entry = - 1 then Some (a, ?h)
      else do { t \<leftarrow> RemoveEntry (layout cl) (tables ?h a) entry; Some (a, store_table ?h a t) }
    }"
  have found: "\<exists>entry. FindElement env (layout cl) (tables ?h a) key = Some entry \<and>
      (entry \<noteq> - 1 \<longleftrightarrow> List.find (matches key) (lives A) \<noteq> None)"
    if "current env (layout cl) st ?h a S" "lives S = lives A" for S
    using that(1) key by (cases rule: current_find) (use that(2) in auto)
  have spec: "\<forall>k \<le> length A. k \<le> length ?A \<and> live_before ?A k = skip_removed (match_position key (lives A)) (live_before A k)"
    using spec_delete_lives by simp
  have step: "\<exists>b h' S'. ?res = Some (b, h') \<and> step_matches env (layout cl) st ?h a S h' b S' A ?A"
    if cur: "current env (layout cl) st ?h a S" and lv: "lives S = lives A" for S
    using cur key
  proof (cases rule: current_find)
    case (found e p)
    have at: "live_before S e = match_position key (lives S)" using found(6) by (simp add: match_position_def)
    obtain t where t: "RemoveEntry (layout cl) (tables ?h a) (int e) = Some t"
        "current env (layout cl) st (store_table ?h a t) a (S[e := None])"
        "evolves (layout cl) ?h a S (store_table ?h a t) a (S[e := None]) (skip_removed (live_before S e))"
      using cur found(2,3) by (rule RemoveEntry_spec)
    have "step_matches env (layout cl) st ?h a S (store_table ?h a t) a (S[e := None]) A ?A"
      unfolding step_matches_def
      using t(2,3) lives_delete_at [OF found(2,3) at] lv at spec_delete_lives(1) spec by auto
    then show ?thesis using found(1) t(1) by auto
  next
    case absent
    have "skip_removed (match_position key (lives A)) (live_before A k) = live_before A k" for k
      using match_position_absent [OF absent(3)] live_before_le(1) [of A k] lv by (simp add: skip_removed_def)
    then have "step_matches env (layout cl) st ?h a S ?h a S A ?A"
      unfolding step_matches_def
      using cur evolves_refl [OF cur] lv lives_delete_absent [OF absent(3)] spec_delete_lives(1) spec by auto
    then show ?thesis using absent(1) by auto
  qed
  obtain b h' where r: "?res = Some (b, h')" "realm_rel env cl st P (replace_linked r m (b, h')) (spec_store sp m ?A)"
    using change_simulates [OF rel m step] by blast
  obtain Sf where Sf: "tables_rel env (layout cl) st r sp Sf" using rel by (auto simp: realm_rel_def)
  obtain entry where e: "FindElement env (layout cl) (tables ?h a) key = Some entry"
      "entry \<noteq> - 1 \<longleftrightarrow> List.find (matches key) (lives A) \<noteq> None"
    using found [OF tables_rel_both [OF Sf m]] by blast
  have eq: "replace_linked r m (a, h) = r\<lparr>table_store := h\<rparr>" for h using m(1) by (simp add: replace_linked_def fun_upd_idem)
  have "linked_delete env (layout cl) r m key = Some (entry \<noteq> - 1, replace_linked r m (b, h'))"
    using r(1) e(1) m(1) eq by (auto simp: linked_delete_def bind_eq_Some_conv split: if_splits)
  then show thesis using that r(2) e(2) by simp
qed

lemma clear_simulates:
  assumes rel: "realm_rel env cl st P r sp" and m: "collections r m = Some a" "spec_collections sp m = Some A"
  obtains r' where "linked_clear (layout cl) r m = Some r'" "realm_rel env cl st P r' (spec_store sp m (map (\<lambda>_. None) A))"
proof -
  have step: "\<exists>b h' S'. LinkedHash_Clear (layout cl) (table_store r) a = Some (b, h') \<and>
      step_matches env (layout cl) st (table_store r) a S h' b S' A (map (\<lambda>_. None) A)"
    if cur: "current env (layout cl) st (table_store r) a S" for S
  proof -
    obtain h' where c: "LinkedHash_Clear (layout cl) (table_store r) a = Some (fresh_table (table_store r), h')"
        "current env (layout cl) st h' (fresh_table (table_store r)) []"
        "evolves (layout cl) (table_store r) a S h' (fresh_table (table_store r)) [] (\<lambda>_. 0)"
      using cur by (rule Clear_spec)
    then have "step_matches env (layout cl) st (table_store r) a S h' (fresh_table (table_store r)) [] A (map (\<lambda>_. None) A)"
      unfolding step_matches_def by (intro conjI exI [of _ "\<lambda>_. 0"]) simp_all
    then show ?thesis using c(1) by blast
  qed
  obtain b h' where "LinkedHash_Clear (layout cl) (table_store r) a = Some (b, h')"
      "realm_rel env cl st P (replace_linked r m (b, h')) (spec_store sp m (map (\<lambda>_. None) A))"
    using change_simulates [OF rel m step] by blast
  then show thesis using that m(1) by (simp add: linked_clear_def)
qed

section \<open>Creation\<close>

lemma resolves_mono:
  "resolves ho h x i a j \<Longrightarrow> \<forall>y < fresh_table h. tables h' y = tables h y \<Longrightarrow> fresh_table h \<le> fresh_table h' \<Longrightarrow> resolves ho h' x i a j"
proof (induction rule: resolves.induct)
  case (stay a i)
  then show ?case by (intro resolves.stay) auto
next
  case (follow a b i d c j)
  then show ?case by (intro resolves.follow [of a h' b]) auto
qed

lemma at_position_mono:
  assumes "at_position ho r sp Sf x i m k" "\<forall>y < fresh_table (table_store r). tables (table_store r') y = tables (table_store r) y"
    "fresh_table (table_store r) \<le> fresh_table (table_store r')"
    "\<And>m a. collections r m = Some a \<Longrightarrow> collections r' m = Some a \<and> spec_collections sp' m = spec_collections sp m \<and> Sf' m = Sf m"
  shows "at_position ho r' sp' Sf' x i m k"
proof -
  obtain a A j where at: "collections r m = Some a" "spec_collections sp m = Some A" "i \<le> table_limit"
      "resolves ho (table_store r) x i a j" "j \<le> length (Sf m)" "k \<le> length A" "live_before (Sf m) j = live_before A k"
    using assms(1) unfolding at_position_def by blast
  show ?thesis
    unfolding at_position_def using at assms(4) [OF at(1)] resolves_mono [OF at(4) assms(2,3)]
    by (intro exI [of _ a] exI [of _ A] exI [of _ j]) simp
qed

lemma create_simulates:
  assumes rel: "realm_rel env cl st P r sp" and lay: "layout_ok (layout cl)"
  shows "simulates env cl st P (new_collection cl r) (list_step cl Create_collection sp)"
proof -
  let ?h = "table_store r" and ?o = "fresh_object r" and ?t = "encode (empty_view (layout cl) 4)"
  let ?r = "r\<lparr>table_store := alloc_table ?h ?t, collections := (collections r)(?o \<mapsto> fresh_table ?h), fresh_object := Suc ?o\<rparr>"
  let ?sp = "(spec_store sp ?o [])\<lparr>spec_fresh := Suc ?o\<rparr>"
  have f: "fresh_object r = spec_fresh sp" "\<forall>m \<ge> ?o. collections r m = None" using rel by (simp_all add: realm_rel_def)
  have tab: "tables_rel env (layout cl) st ?r ?sp (Sf(?o := []))" if Sf: "tables_rel env (layout cl) st r sp Sf" for Sf
  proof -
    have lt: "a < fresh_table ?h" if "collections r m = Some a" for m a
      using tables_rel_at [OF Sf that] by (auto simp: current_def)
    have "inj_on (collections r) (dom (collections r))" using Sf by (simp add: tables_rel_def)
    then have "inj_on ((collections r)(?o \<mapsto> fresh_table ?h)) (dom ((collections r)(?o \<mapsto> fresh_table ?h)))"
      using lt f(2) unfolding inj_on_def by (auto simp: dom_def) (metis less_irrefl)+
    moreover have "rel_option (\<lambda>a A. current env (layout cl) st (alloc_table ?h ?t) a ((Sf(?o := [])) m) \<and> lives ((Sf(?o := [])) m) = lives A)
        (((collections r)(?o \<mapsto> fresh_table ?h)) m) (((spec_collections sp)(?o \<mapsto> [])) m)" for m
    proof (cases "m = ?o")
      case True
      then show ?thesis using Create_current(2) [OF lay] by simp
    next
      case False
      have "others_kept ?h (fresh_table ?h) (alloc_table ?h ?t)" by (simp add: others_kept_def)
      then have "current env (layout cl) st (alloc_table ?h ?t) a S" if "current env (layout cl) st ?h a S" for a S
        using current_other [OF that] that by (auto simp: current_def)
      moreover have "rel_option (\<lambda>a A. current env (layout cl) st ?h a (Sf m) \<and> lives (Sf m) = lives A)
          (collections r m) (spec_collections sp m)"
        using Sf by (simp add: tables_rel_def)
      ultimately show ?thesis using False by (auto elim!: option.rel_mono_strong)
    qed
    ultimately show ?thesis by (simp add: tables_rel_def)
  qed
  have at: "at_position (layout cl) ?r ?sp (Sf(?o := [])) x j m k" if "at_position (layout cl) r sp Sf x j m k" for Sf x j m k
    using that by (rule at_position_mono) (use f(2) in auto)
  have "realm_rel env cl st P ?r ?sp"
  proof (rule realm_rel_positions [OF rel])
    show "\<exists>Sf'. tables_rel env (layout cl) st ?r ?sp Sf' \<and>
        (\<forall>x i m k. at_position (layout cl) r sp Sf x i m k \<longrightarrow> at_position (layout cl) ?r ?sp Sf' x i m k)"
      if "tables_rel env (layout cl) st r sp Sf" for Sf
      using tab [OF that] at by blast
  qed (use f in auto)
  moreover have "new_collection cl r = Some (Value (VObject ?o), ?r)"
    using Create_current(1) [OF lay, of ?h] by (simp add: new_collection_def)
  ultimately show ?thesis using f(1) by (simp add: simulates_def)
qed

lemma create_iterator_simulates:
  assumes rel: "realm_rel env cl st P r sp" and m: "collections r m = Some a" "spec_collections sp m = Some A"
  shows "simulates env cl st P (Some (add_iterator r a kind))
    (Value (VObject (spec_fresh sp)),
     sp\<lparr>spec_iterators := (spec_iterators sp)(spec_fresh sp \<mapsto> \<lparr>spec_map = Some m, spec_index = 0, spec_kind = kind\<rparr>),
        spec_fresh := Suc (spec_fresh sp)\<rparr>)"
    (is "simulates env cl st P (Some (add_iterator r a kind)) (_, ?sp)")
proof -
  let ?r = "snd (add_iterator r a kind)"
  obtain Sf where Sf: "tables_rel env (layout cl) st r sp Sf"
      "\<forall>i. rel_option (iterator_rel (layout cl) r sp Sf) (iterators r i) (spec_iterators sp i)"
      "\<forall>(x, i, m, k) \<in> P. at_position (layout cl) r sp Sf x i m k"
    using rel by (rule realm_relE)
  have f: "fresh_object r = spec_fresh sp" using rel by (simp add: realm_rel_def)
  have same: "at_position (layout cl) ?r ?sp Sf x i m k \<longleftrightarrow> at_position (layout cl) r sp Sf x i m k" for x i m k
    by (simp add: at_position_def add_iterator_def)
  then have it: "iterator_rel (layout cl) ?r ?sp Sf it sit \<longleftrightarrow> iterator_rel (layout cl) r sp Sf it sit" for it sit
    by (simp add: iterator_rel_def)
  have "at_position (layout cl) r sp Sf a 0 m 0"
    using m tables_rel_both [OF Sf(1) m] current_resolves by (fastforce simp: at_position_def)
  then have "iterator_rel (layout cl) r sp Sf \<lparr>IteratedTable = Some a, NextIndex = 0, iteration_kind = kind\<rparr>
      \<lparr>spec_map = Some m, spec_index = 0, spec_kind = kind\<rparr>"
    by (auto simp: iterator_rel_def intro!: exI [of _ 0])
  then have "rel_option (iterator_rel (layout cl) ?r ?sp Sf) (iterators ?r i) (spec_iterators ?sp i)" for i
    using Sf(2) [rule_format, of i] f unfolding it by (simp add: add_iterator_def)
  moreover have "tables_rel env (layout cl) st ?r ?sp Sf" using Sf(1) by (simp add: tables_rel_def add_iterator_def)
  moreover have "pow2_ok env" "fresh_object ?r = spec_fresh ?sp" "\<forall>m \<ge> fresh_object ?r. collections ?r m = None"
    using rel by (simp_all add: realm_rel_def add_iterator_def)
  moreover have "at_position (layout cl) ?r ?sp Sf x i m k" if "(x, i, m, k) \<in> P" for x i m k
    using Sf(3) same that by blast
  ultimately have "realm_rel env cl st P ?r ?sp" by (intro realm_relI)
  then show ?thesis using f by (simp add: simulates_def add_iterator_def)
qed

section \<open>Every call\<close>

lemma size_spec:
  assumes "current env ho st h a S"
  shows "NumberOfElements (tables h a) = Some (int (length (lives S)))" "length (lives S) < 4294967296"
proof -
  obtain v where v: "tables h a = encode v" "hash_inv env ho st v" "view_wf ho v" "slots ho v = S" using assms by (rule currentE)
  show "NumberOfElements (tables h a) = Some (int (length (lives S)))"
    using header_specs(1) [OF v(3)] v(1,2,4) by (simp add: hash_inv_def)
  show "length (lives S) < 4294967296"
    using current_total(2) [OF assms] length_lives_le [of S] by (simp add: table_limit_def)
qed

lemma iterator_object_cases:
  assumes "\<And>i. rel_option R (its i) (sits i)"
  obtains "object_of its x = None" "object_of sits x = None"
  | i it sit where "object_of its x = Some (i, it)" "object_of sits x = Some (i, sit)" "R it sit"
proof (cases x)
  case (VObject i)
  then show thesis using that assms [of i] by (cases "its i"; cases "sits i") (auto simp: object_of_def)
qed (use that in \<open>auto simp: object_of_def\<close>)

context collection_laws
begin

lemma next_simulates:
  assumes rel: "realm_rel env cl st P r sp"
  shows "simulates env cl st P (iterator_next cl r thisObj) (list_step cl (Next_item thisObj) sp)"
proof -
  obtain Sf where Sf: "pow2_ok env" "fresh_object r = spec_fresh sp" "\<forall>m \<ge> fresh_object r. collections r m = None"
      "tables_rel env (layout cl) st r sp Sf"
      "\<forall>i. rel_option (iterator_rel (layout cl) r sp Sf) (iterators r i) (spec_iterators sp i)"
      "\<forall>(x, i, m, k) \<in> P. at_position (layout cl) r sp Sf x i m k"
    using rel by (rule realm_relE)
  show ?thesis
  proof (rule iterator_object_cases [of "iterator_rel (layout cl) r sp Sf" "iterators r" "spec_iterators sp" thisObj, OF Sf(5) [rule_format]])
    assume "object_of (iterators r) thisObj = None" "object_of (spec_iterators sp) thisObj = None"
    then show ?thesis using rel by (simp add: iterator_next_def simulates_def)
  next
    fix i it sit
    assume o: "object_of (iterators r) thisObj = Some (i, it)" "object_of (spec_iterators sp) thisObj = Some (i, sit)"
      and it: "iterator_rel (layout cl) r sp Sf it sit"
    obtain out sit' where n: "spec_next (layout cl) sp sit = (out, sit')" by fastforce
    obtain it' where it': "next_item cl (table_store r) it = Some (out, it')" "iterator_rel (layout cl) r sp Sf it' sit'"
      using next_item_spec [OF Sf(4) it] n by auto
    let ?r = "r\<lparr>iterators := (iterators r)(i \<mapsto> it')\<rparr>" and ?sp = "sp\<lparr>spec_iterators := (spec_iterators sp)(i \<mapsto> sit')\<rparr>"
    have same: "iterator_rel (layout cl) ?r ?sp Sf = iterator_rel (layout cl) r sp Sf"
        "at_position (layout cl) ?r ?sp Sf = at_position (layout cl) r sp Sf"
      by (simp_all add: fun_eq_iff iterator_rel_def at_position_def)
    have "realm_rel env cl st P ?r ?sp"
    proof (rule realm_relI)
      show "tables_rel env (layout cl) st ?r ?sp Sf" using Sf(4) by (simp add: tables_rel_def)
      show "rel_option (iterator_rel (layout cl) ?r ?sp Sf) (iterators ?r j) (spec_iterators ?sp j)" for j
        unfolding same using Sf(5) [rule_format, of j] it'(2) by simp
      show "at_position (layout cl) ?r ?sp Sf x j m k" if "(x, j, m, k) \<in> P" for x j m k
        unfolding same using Sf(6) that by auto
    qed (use Sf in simp_all)
    then show ?thesis using o n it'(1) by (simp add: iterator_next_def simulates_def)
  qed
qed

lemma step_simulates:
  assumes rel: "realm_rel env cl st P r sp" and ok: "op_ok st (layout cl) op" and size: "spec_size sp < element_limit"
  shows "simulates env cl st P (collection_step env cl op r) (list_step cl op sp)"
proof (cases op)
  case Create_collection
  then show ?thesis using create_simulates [OF rel layout_law] by simp
next
  case (Insert_key self key v)
  have "simulates env cl st P (do { (e, r) \<leftarrow> linked_insert env (layout cl) r m key v;
        Some (case e of None \<Rightarrow> Value self | Some msg \<Rightarrow> Thrown msg, r) })
      (Value self, spec_store sp m (list_insert (layout cl) key v A))"
    if m: "collections r m = Some a" "spec_collections sp m = Some A" for m a A
  proof -
    obtain r' where "linked_insert env (layout cl) r m key v = Some (None, r')"
        "realm_rel env cl st P r' (spec_store sp m (list_insert (layout cl) key v A))"
      using ok Insert_key by (auto intro: insert_simulates [OF rel m size, of key v])
    then show ?thesis by (simp add: simulates_def)
  qed
  then show ?thesis using Insert_key by (auto intro!: on_simulates [OF rel])
next
  case (Get_value self key)
  have "simulates env cl st P (do { size \<leftarrow> linked_size r m; if size = 0 then Some (Value VUndefined, r)
        else do { a \<leftarrow> collections r m; v \<leftarrow> LinkedHash_Get env (layout cl) (table_store r) a key; Some (Value v, r) } })
      (Value (case List.find (matches key) (lives A) of None \<Rightarrow> VUndefined | Some p \<Rightarrow> p ! ENTRY_VALUE_INDEX (layout cl)), sp)"
    if m: "collections r m = Some a" and cur: "current env (layout cl) st (table_store r) a S" and lv: "lives S = lives A" for m a A S
  proof -
    have z: "(word_of_int (int (length (lives S))) :: u32) = 0 \<longleftrightarrow> lives S = []"
      using size_spec(2) [OF cur] by (cases "lives S = []") (auto simp: word_of_nat_eq_0_iff nat_dvd_not_less)
    show ?thesis
      using m size_spec(1) [OF cur] LinkedHash_Get_spec [OF cur, of key] ok Get_value lv rel z
      by (auto simp: simulates_def linked_size_def)
  qed
  then show ?thesis using Get_value by (auto intro!: on_simulates [OF rel])
next
  case (Has_key self key)
  have "simulates env cl st P (do { flag \<leftarrow> linked_has env (layout cl) r m key; Some (Value (TaggedBoolean flag), r) })
      (Value (TaggedBoolean (List.find (matches key) (lives A) \<noteq> None)), sp)"
    if m: "collections r m = Some a" and cur: "current env (layout cl) st (table_store r) a S" and lv: "lives S = lives A" for m a A S
    using m LinkedHash_Has_spec [OF cur, of key] ok Has_key lv rel by (simp add: simulates_def linked_has_def)
  then show ?thesis using Has_key by (auto intro!: on_simulates [OF rel])
next
  case (Delete_key self key)
  have "simulates env cl st P (do { (flag, r) \<leftarrow> linked_delete env (layout cl) r m key; Some (Value (TaggedBoolean flag), r) })
      (Value (TaggedBoolean (List.find (matches key) (lives A) \<noteq> None)), spec_store sp m (spec_delete key A))"
    if m: "collections r m = Some a" "spec_collections sp m = Some A" for m a A
  proof -
    obtain r' where "linked_delete env (layout cl) r m key = Some (List.find (matches key) (lives A) \<noteq> None, r')"
        "realm_rel env cl st P r' (spec_store sp m (spec_delete key A))"
      using ok Delete_key by (auto intro: delete_simulates [OF rel m, of key])
    then show ?thesis by (simp add: simulates_def)
  qed
  then show ?thesis using Delete_key by (auto intro!: on_simulates [OF rel])
next
  case (Clear_all self)
  have "simulates env cl st P (do { r \<leftarrow> linked_clear (layout cl) r m; Some (Value VUndefined, r) })
      (Value VUndefined, spec_store sp m (map (\<lambda>_. None) A))"
    if m: "collections r m = Some a" "spec_collections sp m = Some A" for m a A
  proof -
    obtain r' where "linked_clear (layout cl) r m = Some r'" "realm_rel env cl st P r' (spec_store sp m (map (\<lambda>_. None) A))"
      using rel m by (rule clear_simulates)
    then show ?thesis by (simp add: simulates_def)
  qed
  then show ?thesis using Clear_all by (auto intro!: on_simulates [OF rel])
next
  case (Get_size self)
  have "simulates env cl st P (do { count \<leftarrow> linked_size r m; Some (Value (JSTaggedValue_uint32 count), r) })
      (Value (JSTaggedValue_uint32 (word_of_nat (length (lives A)))), sp)"
    if m: "collections r m = Some a" and cur: "current env (layout cl) st (table_store r) a S" and lv: "lives S = lives A" for m a A S
    using m size_spec(1) [OF cur] lv rel by (simp add: simulates_def linked_size_def)
  then show ?thesis using Get_size by (auto intro!: on_simulates [OF rel])
next
  case (Create_iterator self kind)
  have "create_iterator cl r self kind = on_collection cl r self (\<lambda>m. do { a \<leftarrow> collections r m; Some (add_iterator r a kind) })"
    by (auto simp: create_iterator_def on_collection_def object_of_def split: JSTaggedValue.split option.split)
  then show ?thesis
    using Create_iterator create_iterator_simulates [OF rel] by (auto intro!: on_simulates [OF rel])
next
  case (Next_item thisObj)
  then show ?thesis using next_simulates [OF rel] by simp
qed

end

section \<open>Sequences of calls\<close>

fun map_step :: "hash_env \<Rightarrow> collection_op \<Rightarrow> realm \<Rightarrow> (call_result \<times> realm) option" where
  "map_step env Create_collection r = new_collection map_class r"
| "map_step env (Insert_key self key v) r = BuiltinsMap_Set env r self key v"
| "map_step env (Get_value self key) r = BuiltinsMap_Get env r self key"
| "map_step env (Has_key self key) r = BuiltinsMap_Has env r self key"
| "map_step env (Delete_key self key) r = BuiltinsMap_Delete env r self key"
| "map_step env (Clear_all self) r = BuiltinsMap_Clear r self"
| "map_step env (Get_size self) r = BuiltinsMap_GetSize r self"
| "map_step env (Create_iterator self kind) r = (case kind of
     KEY \<Rightarrow> BuiltinsMap_Keys r self | VALUE \<Rightarrow> BuiltinsMap_Values r self | KEY_AND_VALUE \<Rightarrow> BuiltinsMap_Entries r self)"
| "map_step env (Next_item thisObj) r = JSMapIterator_NextInternal r thisObj"

lemma class_layouts: "layout map_class = LinkedHashMapObject" "layout set_class = LinkedHashSetObject"
  by (simp_all add: map_class_def set_class_def)

lemmas map_step_defs = BuiltinsMap_Set_def BuiltinsMap_Get_def BuiltinsMap_Has_def BuiltinsMap_Delete_def BuiltinsMap_Clear_def
  BuiltinsMap_GetSize_def JSMap_Set_def JSMap_Get_def JSMap_Has_def JSMap_Delete_def JSMap_Clear_def JSMap_GetSize_def
  BuiltinsMap_Keys_def BuiltinsMap_Values_def BuiltinsMap_Entries_def JSMapIterator_CreateMapIterator_def JSMapIterator_NextInternal_def

lemma map_step_collection: "map_step env op r = collection_step env map_class op r"
  by (cases op) (simp_all add: map_step_defs class_layouts cong: if_cong split: IterationKind.split)

datatype set_op =
    Create_set | Add_value JSTaggedValue JSTaggedValue | Has_value JSTaggedValue JSTaggedValue | Delete_value JSTaggedValue JSTaggedValue
  | Clear_set JSTaggedValue | Set_size JSTaggedValue | Create_set_iterator JSTaggedValue IterationKind | Next_value JSTaggedValue

fun set_step :: "hash_env \<Rightarrow> set_op \<Rightarrow> realm \<Rightarrow> (call_result \<times> realm) option" where
  "set_step env Create_set r = new_collection set_class r"
| "set_step env (Add_value self v) r = BuiltinsSet_Add env r self v"
| "set_step env (Has_value self v) r = BuiltinsSet_Has env r self v"
| "set_step env (Delete_value self v) r = BuiltinsSet_Delete env r self v"
| "set_step env (Clear_set self) r = BuiltinsSet_Clear r self"
| "set_step env (Set_size self) r = BuiltinsSet_GetSize r self"
| "set_step env (Create_set_iterator self kind) r = (case kind of
     KEY \<Rightarrow> JSSetIterator_CreateSetIterator r self KEY | VALUE \<Rightarrow> BuiltinsSet_Values r self | KEY_AND_VALUE \<Rightarrow> BuiltinsSet_Entries r self)"
| "set_step env (Next_value thisObj) r = JSSetIterator_NextInternal r thisObj"

fun set_as_collection :: "set_op \<Rightarrow> collection_op" where
  "set_as_collection Create_set = Create_collection"
| "set_as_collection (Add_value self v) = Insert_key self v v"
| "set_as_collection (Has_value self v) = Has_key self v"
| "set_as_collection (Delete_value self v) = Delete_key self v"
| "set_as_collection (Clear_set self) = Clear_all self"
| "set_as_collection (Set_size self) = Get_size self"
| "set_as_collection (Create_set_iterator self kind) = Create_iterator self kind"
| "set_as_collection (Next_value thisObj) = Next_item thisObj"

lemmas set_step_defs = BuiltinsSet_Add_def BuiltinsSet_Has_def BuiltinsSet_Delete_def BuiltinsSet_Clear_def
  BuiltinsSet_GetSize_def JSSet_Add_def JSSet_Has_def JSSet_Delete_def JSSet_Clear_def JSSet_GetSize_def
  BuiltinsSet_Values_def BuiltinsSet_Entries_def JSSetIterator_CreateSetIterator_def JSSetIterator_NextInternal_def

lemma set_step_collection: "set_step env op r = collection_step env set_class (set_as_collection op) r"
  by (cases op) (simp_all add: set_step_defs class_layouts split: IterationKind.split)

definition set_op_ok :: "string_table \<Rightarrow> set_op \<Rightarrow> bool" where
  "set_op_ok st op = op_ok st LinkedHashSetObject (set_as_collection op)"

lemma simulates_rel:
  "simulates env cl st P res spec \<Longrightarrow> rel_option (rel_prod (=) (realm_rel env cl st P)) res (Some spec)"
  by (auto simp: simulates_def rel_prod_sel)

interpretation map_sim: guarded_simulation "realm_rel env map_class st P" "op_ok st LinkedHashMapObject" "map_step env"
    "\<lambda>op sp. Some (list_step map_class op sp)" spec_size element_limit for env st P
proof unfold_locales
  fix r sp op assume "realm_rel env map_class st P r sp" "op_ok st LinkedHashMapObject op" "spec_size sp < element_limit"
  then show "rel_option (rel_prod (=) (realm_rel env map_class st P)) (map_step env op r) (Some (list_step map_class op sp))"
    unfolding map_step_collection by (intro simulates_rel map_collection.step_simulates) (simp_all add: map_class_def)
next
  fix sp op out sp' assume "Some (list_step map_class op sp) = Some (out, sp')"
  then show "spec_size sp' \<le> Suc (spec_size sp)" using list_step_size [of map_class op sp] by simp
qed

interpretation set_sim: guarded_simulation "realm_rel env set_class st P" "set_op_ok st" "set_step env"
    "\<lambda>op sp. Some (list_step set_class (set_as_collection op) sp)" spec_size element_limit for env st P
proof unfold_locales
  fix r sp op assume "realm_rel env set_class st P r sp" "set_op_ok st op" "spec_size sp < element_limit"
  then show "rel_option (rel_prod (=) (realm_rel env set_class st P)) (set_step env op r)
      (Some (list_step set_class (set_as_collection op) sp))"
    unfolding set_step_collection by (intro simulates_rel set_collection.step_simulates) (simp_all add: set_class_def set_op_ok_def)
next
  fix sp op out sp' assume "Some (list_step set_class (set_as_collection op) sp) = Some (out, sp')"
  then show "spec_size sp' \<le> Suc (spec_size sp)" using list_step_size [of set_class "set_as_collection op" sp] by simp
qed

definition empty_realm :: realm where
  "empty_realm = \<lparr>table_store = \<lparr>tables = (\<lambda>_. []), fresh_table = 0\<rparr>, collections = Map.empty, iterators = Map.empty, fresh_object = 0\<rparr>"

definition empty_spec :: spec_realm where
  "empty_spec = \<lparr>spec_collections = Map.empty, spec_iterators = Map.empty, spec_fresh = 0\<rparr>"

lemma empty_realm_rel: "pow2_ok env \<Longrightarrow> realm_rel env cl st {} empty_realm empty_spec"
  by (rule realm_relI [of _ _ _ _ _ "\<lambda>_. []"]) (simp_all add: empty_realm_def empty_spec_def tables_rel_def)

lemma empty_spec_size [simp]: "spec_size empty_spec = 0"
  by (simp add: spec_size_def empty_spec_def)

end
