(* ===== verification/Ordered_ForEach.thy ===== *)
theory Ordered_ForEach
  imports Ordered_Simulation
begin

text \<open>
  \<open>Map.prototype.forEach\<close> and \<open>Set.prototype.forEach\<close> call the callback for the entries of the lists, as the
  language specification prescribes, in their order, whatever the callback does to the object meanwhile.
\<close>

section \<open>Callbacks and the specification\<close>

text \<open>
  A callback is a script: from the history of its calls and the arguments of this call it chooses the
  built-in functions to call and whether to throw at the end.
\<close>

type_synonym call_history = "(JSTaggedValue \<times> JSTaggedValue \<times> call_result list) list"

type_synonym 'op script = "call_history \<Rightarrow> JSTaggedValue \<Rightarrow> JSTaggedValue \<Rightarrow> 'op list \<times> string option"

definition scripted :: "('op \<Rightarrow> 's \<Rightarrow> (call_result \<times> 's) option) \<Rightarrow> 'op script \<Rightarrow> JSTaggedValue \<Rightarrow> JSTaggedValue \<Rightarrow>
    call_history \<times> 's \<Rightarrow> (string option \<times> call_history \<times> 's) option" where
  "scripted step script v key hs = do {
     (outs, s) \<leftarrow> run_ops step (fst (script (fst hs) v key)) (snd hs);
     Some (snd (script (fst hs) v key), fst hs @ [(v, key, outs)], s)
   }"

fun spec_foreach_loop :: "hash_object \<Rightarrow> (JSTaggedValue \<Rightarrow> JSTaggedValue \<Rightarrow> 's \<times> spec_realm \<Rightarrow> (string option \<times> 's \<times> spec_realm) option) \<Rightarrow>
    nat \<Rightarrow> nat \<Rightarrow> nat \<Rightarrow> 's \<times> spec_realm \<Rightarrow> (foreach_result \<times> 's \<times> spec_realm) option" where
  "spec_foreach_loop ho call fuel m k hs = (case spec_collections (snd hs) m of
     None \<Rightarrow> Some (Finished, hs)
   | Some A \<Rightarrow> (let e = next_slot A k in
       if e < length A then (case fuel of
           0 \<Rightarrow> Some (More_calls, hs)
         | Suc fuel' \<Rightarrow> do {
             (ret, hs) \<leftarrow> call (the (A ! e) ! ENTRY_VALUE_INDEX ho) (hd (the (A ! e))) hs;
             case ret of Some msg \<Rightarrow> Some (Abrupt msg, hs) | None \<Rightarrow> spec_foreach_loop ho call fuel' m (Suc e) hs
           })
       else Some (Finished, hs)))"

definition spec_foreach :: "collection_class \<Rightarrow> (JSTaggedValue \<Rightarrow> JSTaggedValue \<Rightarrow> 's \<times> spec_realm \<Rightarrow> (string option \<times> 's \<times> spec_realm) option) \<Rightarrow>
    nat \<Rightarrow> JSTaggedValue \<Rightarrow> bool \<Rightarrow> 's \<times> spec_realm \<Rightarrow> (foreach_result \<times> 's \<times> spec_realm) option" where
  "spec_foreach cl call fuel self callable hs = (case object_of (spec_collections (snd hs)) self of
     None \<Rightarrow> Some (Abrupt (not_a_collection cl), hs)
   | Some (m, A) \<Rightarrow> if \<not> callable then Some (Abrupt (not_callable cl), hs) else spec_foreach_loop (layout cl) call fuel m 0 hs)"

section \<open>The loops agree\<close>

lemma realm_rel_subset: "realm_rel env cl st P r sp \<Longrightarrow> Q \<subseteq> P \<Longrightarrow> realm_rel env cl st Q r sp"
  unfolding realm_rel_def by blast

text \<open>A position of the current table, and that it can be exchanged for another one that means the same.\<close>

lemma current_position:
  assumes rel: "realm_rel env cl st P r sp" and p: "(a, i, m, k) \<in> P" and m: "collections r m = Some a"
  obtains S A where "spec_collections sp m = Some A" "current env (layout cl) st (table_store r) a S" "lives S = lives A"
    "i \<le> length S" "k \<le> length A" "live_before S i = live_before A k"
    "\<And>j l. j \<le> length S \<Longrightarrow> l \<le> length A \<Longrightarrow> live_before S j = live_before A l \<Longrightarrow> realm_rel env cl st (insert (a, j, m, l) P) r sp"
proof -
  obtain Sf where Sf: "pow2_ok env" "fresh_object r = spec_fresh sp" "\<forall>m \<ge> fresh_object r. collections r m = None"
      "tables_rel env (layout cl) st r sp Sf"
      "\<forall>i. rel_option (iterator_rel (layout cl) r sp Sf) (iterators r i) (spec_iterators sp i)"
      "\<forall>(x, i, m, k) \<in> P. at_position (layout cl) r sp Sf x i m k"
    using rel by (rule realm_relE)
  obtain A where A: "spec_collections sp m = Some A" "current env (layout cl) st (table_store r) a (Sf m)" "lives (Sf m) = lives A"
    using tables_rel_at [OF Sf(4) m] .
  have "at_position (layout cl) r sp Sf a i m k" using Sf(6) p by auto
  then obtain j where j: "resolves (layout cl) (table_store r) a i a j" "j \<le> length (Sf m)" "k \<le> length A"
      "live_before (Sf m) j = live_before A k"
    using m A(1) by (auto simp: at_position_def)
  have "j = i" using j(1) current_next [OF A(2)] by (auto elim: resolvesE)
  moreover have "realm_rel env cl st (insert (a, n, m, l) P) r sp"
    if "n \<le> length (Sf m)" "l \<le> length A" "live_before (Sf m) n = live_before A l" for n l
  proof -
    have "at_position (layout cl) r sp Sf a n m l"
      using that m A(1) current_resolves [OF A(2)] current_total(2) [OF A(2)] by (auto simp: at_position_def)
    then show ?thesis using Sf by (intro realm_relI [where Sf = Sf]) auto
  qed
  ultimately show thesis using that [OF A] j by blast
qed

text \<open>After the callback the loop moves to the current table.\<close>

lemma moved_position:
  assumes rel: "realm_rel env cl st P r sp" and p: "(x, i, m, k) \<in> P"
  obtains a j where "update_loop (layout cl) (table_store r) x (int i) = Some (a, int j)" "collections r m = Some a"
    "realm_rel env cl st (insert (a, j, m, k) P) r sp"
proof -
  obtain Sf where Sf: "pow2_ok env" "fresh_object r = spec_fresh sp" "\<forall>m \<ge> fresh_object r. collections r m = None"
      "tables_rel env (layout cl) st r sp Sf"
      "\<forall>i. rel_option (iterator_rel (layout cl) r sp Sf) (iterators r i) (spec_iterators sp i)"
      "\<forall>(x, i, m, k) \<in> P. at_position (layout cl) r sp Sf x i m k"
    using rel by (rule realm_relE)
  have "at_position (layout cl) r sp Sf x i m k" using Sf(6) p by auto
  then obtain a A j where at: "collections r m = Some a" "spec_collections sp m = Some A"
      "resolves (layout cl) (table_store r) x i a j" "j \<le> length (Sf m)" "k \<le> length A" "live_before (Sf m) j = live_before A k"
    by (auto simp: at_position_def)
  have cur: "current env (layout cl) st (table_store r) a (Sf m)" using tables_rel_both [OF Sf(4) at(1,2)] by simp
  have "at_position (layout cl) r sp Sf a j m k"
    using at current_resolves [OF cur] current_total(2) [OF cur] by (auto simp: at_position_def)
  then have "realm_rel env cl st (insert (a, j, m, k) P) r sp" using Sf by (intro realm_relI [where Sf = Sf]) auto
  then show thesis using that update_loop_resolves [OF at(3)] at(1) by blast
qed

locale foreach_simulation = collection_laws cl for cl +
  fixes env :: hash_env and st :: string_table
    and ok :: "'op \<Rightarrow> bool"
    and cstep :: "'op \<Rightarrow> realm \<Rightarrow> (call_result \<times> realm) option"
    and astep :: "'op \<Rightarrow> spec_realm \<Rightarrow> (call_result \<times> spec_realm) option"
  assumes calls_law: "guarded_simulation (realm_rel env cl st P) ok cstep astep spec_size element_limit"
begin

lemma loop_refines:
  fixes script :: "'op script"
  assumes script: "\<And>hist v key. length (fst (script hist v key)) \<le> L \<and> list_all ok (fst (script hist v key))"
  shows "realm_rel env cl st (insert (a, i, m, k) P) r sp \<Longrightarrow> collections r m = Some a \<Longrightarrow> spec_size sp + fuel * L \<le> element_limit \<Longrightarrow>
    rel_option (rel_prod (=) (rel_prod (=) (realm_rel env cl st P)))
      (foreach_loop cl (scripted cstep script) fuel a (int i) (hist, r))
      (spec_foreach_loop (layout cl) (scripted astep script) fuel m k (hist, sp))"
proof (induction fuel arbitrary: a i k hist r sp)
  case (0 a i k hist r sp)
  obtain S A where c: "spec_collections sp m = Some A" "current env (layout cl) st (table_store r) a S" "lives S = lives A"
      "i \<le> length S" "k \<le> length A" "live_before S i = live_before A k"
    using 0(1) insertI1 0(2) by (rule current_position)
  have "next_slot S i < length S \<longleftrightarrow> next_slot A k < length A" using next_slot_found(1) [OF c(4)] next_slot_found(1) [OF c(5)] c(3,6) by simp
  then show ?case
    using current_total(1) [OF c(2)] live_entry_spec [OF c(2,4)] c(1) realm_rel_subset [OF 0(1) subset_insertI] by simp
next
  case (Suc fuel a i k hist r sp)
  obtain S A where c: "spec_collections sp m = Some A" "current env (layout cl) st (table_store r) a S" "lives S = lives A"
      "i \<le> length S" "k \<le> length A" "live_before S i = live_before A k"
      "\<And>j l. j \<le> length S \<Longrightarrow> l \<le> length A \<Longrightarrow> live_before S j = live_before A l \<Longrightarrow> realm_rel env cl st (insert (a, j, m, l) (insert (a, i, m, k) P)) r sp"
    using Suc.prems(1) insertI1 Suc.prems(2) by (rule current_position) blast
  let ?n = "next_slot S i" and ?e = "next_slot A k"
  note f = next_slot_found [OF c(4)] next_slot_found [OF c(5)]
  have both: "?n < length S \<longleftrightarrow> ?e < length A" using f(1,4) c(3,6) by simp
  show ?case
  proof (cases "?n < length S")
    case False
    then show ?thesis
      using both current_total(1) [OF c(2)] live_entry_spec [OF c(2,4)] c(1) realm_rel_subset [OF Suc.prems(1) subset_insertI]
      by simp
  next
    case True
    then have e: "?e < length A" using both by simp
    let ?p = "the (A ! ?e)"
    have p: "S ! ?n = Some ?p" using f(2) [OF True] f(5) [OF e] c(3,6) by simp
    let ?key = "hd ?p" and ?v = "?p ! ENTRY_VALUE_INDEX (layout cl)"
    let ?ops = "fst (script hist ?v ?key)" and ?exc = "snd (script hist ?v ?key)" and ?P = "insert (a, Suc ?n, m, Suc ?e) P"
    have "live_before S (Suc ?n) = live_before A (Suc ?e)" using f(3) [OF True] f(6) [OF e] c(6) by simp
    then have rel: "realm_rel env cl st ?P r sp"
      using c(7) [of "Suc ?n" "Suc ?e"] True e by (auto intro: realm_rel_subset)
    have lim: "spec_size sp + length ?ops \<le> element_limit" using Suc.prems(3) script [of hist ?v ?key] by simp
    have run: "rel_option (rel_prod (=) (realm_rel env cl st ?P)) (run_ops cstep ?ops r) (run_ops astep ?ops sp)"
      using rel _ lim by (rule guarded_simulation.run_law [OF calls_law]) (use script in blast)
    note loop = current_total(1) [OF c(2)] live_entry_spec [OF c(2,4)] True e c(1) argument_law [OF c(2) True p]
    show ?thesis
    proof (cases "run_ops astep ?ops sp")
      case None
      then have "run_ops cstep ?ops r = None" using run by (cases "run_ops cstep ?ops r") simp_all
      then show ?thesis using None loop by (simp add: scripted_def)
    next
      case (Some os)
      obtain outs sp' where os: "os = (outs, sp')" by fastforce
      obtain r' where r': "run_ops cstep ?ops r = Some (outs, r')" "realm_rel env cl st ?P r' sp'"
        using run Some os by (auto simp: option_rel_Some2 rel_prod_sel)
      obtain b j where b: "update_loop (layout cl) (table_store r') a (int (Suc ?n)) = Some (b, int j)" "collections r' m = Some b"
          "realm_rel env cl st (insert (b, j, m, Suc ?e) ?P) r' sp'"
        using r'(2) insertI1 by (rule moved_position)
      let ?hist = "hist @ [(?v, ?key, outs)]"
      have "spec_size sp' \<le> spec_size sp + length ?ops"
        using guarded_simulation.run_size [OF calls_law lim] Some os by blast
      then have "spec_size sp' + fuel * L \<le> element_limit" using Suc.prems(3) script [of hist ?v ?key] by (simp add: algebra_simps)
      then have rec: "rel_option (rel_prod (=) (rel_prod (=) (realm_rel env cl st P)))
          (foreach_loop cl (scripted cstep script) fuel b (int j) (?hist, r'))
          (spec_foreach_loop (layout cl) (scripted astep script) fuel m (Suc ?e) (?hist, sp'))"
        using realm_rel_subset [OF b(3), of "insert (b, j, m, Suc ?e) P"] b(2) by (intro Suc.IH) auto
      have "update_loop (layout cl) (table_store r') a (int ?n + 1) = Some (b, int j)" using b(1) by (simp add: add.commute)
      moreover have "scripted cstep script ?v ?key (hist, r) = Some (?exc, ?hist, r')"
          "scripted astep script ?v ?key (hist, sp) = Some (?exc, ?hist, sp')"
        using r'(1) Some os by (simp_all add: scripted_def)
      ultimately show ?thesis
        using loop rec realm_rel_subset [OF r'(2) subset_insertI]
        by (cases ?exc) (simp_all add: Let_def foreach_loop.simps [of _ _ "Suc _"] spec_foreach_loop.simps [of _ _ "Suc _"]
            del: foreach_loop.simps spec_foreach_loop.simps)
    qed
  qed
qed

lemma foreach_refines:
  fixes script :: "'op script"
  assumes script: "\<And>hist v key. length (fst (script hist v key)) \<le> L \<and> list_all ok (fst (script hist v key))"
    and rel: "realm_rel env cl st {} r sp" and lim: "spec_size sp + fuel * L \<le> element_limit"
  shows "rel_option (rel_prod (=) (rel_prod (=) (realm_rel env cl st {})))
      (foreach cl (scripted cstep script) fuel self callable (hist, r))
      (spec_foreach cl (scripted astep script) fuel self callable (hist, sp))"
  using rel
proof (cases rule: realm_object_cases [of _ _ _ _ _ _ self])
  case missing
  then show ?thesis using rel by (simp add: foreach_def spec_foreach_def)
next
  case (present m a A Sf)
  have "realm_rel env cl st {(a, 0, m, 0)} r sp"
  proof -
    obtain Sf where Sf: "pow2_ok env" "fresh_object r = spec_fresh sp" "\<forall>m \<ge> fresh_object r. collections r m = None"
        "tables_rel env (layout cl) st r sp Sf"
        "\<forall>i. rel_option (iterator_rel (layout cl) r sp Sf) (iterators r i) (spec_iterators sp i)"
      using rel by (rule realm_relE)
    have "at_position (layout cl) r sp Sf a 0 m 0"
      using present(3,4) current_resolves [OF tables_rel_both(1) [OF Sf(4) present(3,4)]] by (fastforce simp: at_position_def)
    then show ?thesis using Sf by (intro realm_relI [where Sf = Sf]) auto
  qed
  then have "rel_option (rel_prod (=) (rel_prod (=) (realm_rel env cl st {})))
      (foreach_loop cl (scripted cstep script) fuel a (int 0) (hist, r))
      (spec_foreach_loop (layout cl) (scripted astep script) fuel m 0 (hist, sp))"
    using present(3) lim by (intro loop_refines [OF script]) auto
  then show ?thesis
    using present(1,2) rel by (cases callable) (simp_all add: foreach_def spec_foreach_def del: foreach_loop.simps spec_foreach_loop.simps)
qed

end

interpretation map_foreach: foreach_simulation map_class env st "op_ok st LinkedHashMapObject" "map_step env"
    "\<lambda>op sp. Some (list_step map_class op sp)" for env st
  by unfold_locales

interpretation set_foreach: foreach_simulation set_class env st "set_op_ok st" "set_step env"
    "\<lambda>op sp. Some (list_step set_class (set_as_collection op) sp)" for env st
  by unfold_locales

lemma spec_foreach_loop_total:
  assumes "\<And>v key hs. call v key hs \<noteq> None"
  shows "spec_foreach_loop ho call fuel m k hs \<noteq> None"
proof (induction fuel arbitrary: k hs)
  case 0
  then show ?case by (simp add: Let_def split: option.split)
next
  case (Suc fuel)
  have "call v key hs \<bind> (\<lambda>(ret, hs). case ret of Some msg \<Rightarrow> Some (Abrupt msg, hs) | None \<Rightarrow> spec_foreach_loop ho call fuel m j hs) \<noteq> None"
    for v key j
    using assms [of v key hs] Suc.IH by (cases "call v key hs") (auto split: option.split simp del: spec_foreach_loop.simps)
  then show ?case
    by (subst spec_foreach_loop.simps) (simp add: Let_def split: option.split del: spec_foreach_loop.simps)
qed

lemma spec_foreach_total:
  assumes "\<And>op s. step op s \<noteq> None"
  shows "spec_foreach cl (scripted step script) fuel self callable hs \<noteq> None"
proof -
  have "scripted step script v key hs \<noteq> None" for v key hs
    using run_ops_total [of step "fst (script (fst hs) v key)" "snd hs"] assms by (auto simp: scripted_def split: bind_splits)
  then show ?thesis
    using spec_foreach_loop_total [of "scripted step script"]
    by (auto simp: spec_foreach_def split: option.split simp del: spec_foreach_loop.simps)
qed

end
