(* ===== verification/Ordered_Ecma.thy ===== *)
theory Ordered_Ecma
  imports Ordered_ForEach
begin

text \<open>
  \<open>Map\<close> and \<open>Set\<close> of the language specification.  \<open>Map.prototype.set\<close> and \<open>Set.prototype.add\<close> turn the key \<open>-0\<close> into \<open>+0\<close>, and
  adding a value that is in a set changes nothing.  The lists the code implements differ from it by the representation of
  a stored key only: up to the sign of a zero, and, when no key \<open>-0\<close> is inserted, not even by that.
\<close>

section \<open>The insertion of the specification\<close>

fun negative_zero :: "JSTaggedValue \<Rightarrow> bool" where
  "negative_zero (VDouble d) \<longleftrightarrow> dneg d \<and> dzero d"
| "negative_zero _ \<longleftrightarrow> False"

definition normalize_zero :: "JSTaggedValue \<Rightarrow> JSTaggedValue" where
  "normalize_zero key = (if negative_zero key then VInt 0 else key)"

definition ecma_insert :: "hash_object \<Rightarrow> JSTaggedValue \<Rightarrow> JSTaggedValue \<Rightarrow> JSTaggedValue list option list \<Rightarrow> JSTaggedValue list option list" where
  "ecma_insert ho key v A =
    (let key = normalize_zero key; e = slot_position (matches key) A; is_map = (ENTRY_VALUE_INDEX ho \<noteq> 0) in
     if e < length A then if is_map then A[e := map_option (\<lambda>p. p[ENTRY_VALUE_INDEX ho := v]) (A ! e)] else A
     else A @ [Some (if is_map then [key, v] else [key])])"

fun ecma_step :: "collection_class \<Rightarrow> collection_op \<Rightarrow> spec_realm \<Rightarrow> call_result \<times> spec_realm" where
  "ecma_step cl (Insert_key self key v) sp =
     spec_on cl sp self (\<lambda>m A. (Value self, spec_store sp m (ecma_insert (layout cl) key v A)))"
| "ecma_step cl op sp = list_step cl op sp"

fun plain_key :: "collection_op \<Rightarrow> bool" where
  "plain_key (Insert_key self key v) \<longleftrightarrow> \<not> negative_zero key"
| "plain_key _ \<longleftrightarrow> True"

lemma layouts [simp]:
  "ENTRY_VALUE_INDEX LinkedHashMapObject = 1" "ENTRY_VALUE_INDEX LinkedHashSetObject = 0"
  "payload LinkedHashMapObject key v = [key, v]" "payload LinkedHashSetObject key v = [v]"
  by (simp_all add: payload_def LinkedHashMapObject_def LinkedHashSetObject_def numeral_2_eq_2)

lemma map_insert_plain: "\<not> negative_zero key \<Longrightarrow> ecma_insert LinkedHashMapObject key v A = list_insert LinkedHashMapObject key v A"
  by (cases "slot_position (matches key) A < length A") (simp_all add: ecma_insert_def list_insert_def normalize_zero_def)

lemma map_step_plain: "plain_key op \<Longrightarrow> ecma_step map_class op sp = list_step map_class op sp"
  by (cases op) (simp_all add: class_layouts map_insert_plain)

section \<open>Keys up to the sign of zero\<close>

text \<open>With \<open>Z\<close>, no key is \<open>-0\<close>.\<close>

definition key_rel :: "string_table \<Rightarrow> bool \<Rightarrow> JSTaggedValue \<Rightarrow> JSTaggedValue \<Rightarrow> bool" where
  "key_rel st Z x y \<longleftrightarrow> x \<in> valid_keys st \<and> y \<in> valid_keys st \<and> JSTaggedValue_SameValueZero x y \<and>
     (Z \<longrightarrow> \<not> negative_zero x \<and> \<not> negative_zero y)"

lemma same_keys:
  assumes "x \<in> valid_keys st" "y \<in> valid_keys st"
  shows "JSTaggedValue_SameValueZero x y \<longleftrightarrow> same_value_zero_spec x y"
  by (rule SameValueZero_spec [OF valid_keys_consistent [OF assms]])

lemma normalize_zero_same: "same_value_zero_spec (normalize_zero key) key"
proof (cases "negative_zero key")
  case True
  then obtain d where d: "key = VDouble d" "dzero d" by (cases key) auto
  then show ?thesis using True
    by (simp add: normalize_zero_def same_value_zero_spec_def bits_value_def dzero_finite dzero_scaled finite_not_nan)
qed (simp add: normalize_zero_def same_value_zero_refl)

lemma normalize_zero_valid: "key \<in> valid_keys st \<Longrightarrow> normalize_zero key \<in> valid_keys st"
  by (auto simp: normalize_zero_def valid_keys_def)

lemma normalize_zero_plain: "\<not> negative_zero (normalize_zero key)"
  by (simp add: normalize_zero_def)

lemma key_rel_same_value:
  assumes "key_rel st True x y"
  shows "JSTaggedValue_SameValue x y"
proof -
  have v: "x \<in> valid_keys st" "y \<in> valid_keys st" and z: "\<not> negative_zero x" "\<not> negative_zero y"
    and s: "same_value_zero_spec x y" using assms same_keys by (auto simp: key_rel_def)
  note c = valid_keys_consistent [OF v]
  show ?thesis
  proof (cases "IsNumber x \<and> IsNumber y")
    case True
    have sign: "number_value w = forget_zero_sign (number_value w)" if "IsNumber w" "\<not> negative_zero w" for w
      using that by (cases w) (auto simp: bits_value_def dneg_scaled dzero_scaled mult_less_0_iff simp del: power_numeral)
    then show ?thesis using True s z by (simp add: SameValue_numbers same_value_zero_spec_def)
  next
    case False
    then show ?thesis using s not_number_equality(1) [OF c False] by (auto simp: same_value_zero_spec_def)
  qed
qed

section \<open>Related lists\<close>

definition entry_rel :: "string_table \<Rightarrow> bool \<Rightarrow> JSTaggedValue list \<Rightarrow> JSTaggedValue list \<Rightarrow> bool" where
  "entry_rel st Z p q \<longleftrightarrow> p \<noteq> [] \<and> q \<noteq> [] \<and> key_rel st Z (hd p) (hd q) \<and> tl p = tl q"

definition ecma_rel :: "string_table \<Rightarrow> bool \<Rightarrow> spec_realm \<Rightarrow> spec_realm \<Rightarrow> bool" where
  "ecma_rel st Z sp sq \<longleftrightarrow> spec_iterators sq = spec_iterators sp \<and> spec_fresh sq = spec_fresh sp \<and>
     (\<forall>m. rel_option (list_all2 (rel_option (entry_rel st Z))) (spec_collections sp m) (spec_collections sq m))"

fun item_rel :: "(JSTaggedValue \<Rightarrow> JSTaggedValue \<Rightarrow> bool) \<Rightarrow> iter_item \<Rightarrow> iter_item \<Rightarrow> bool" where
  "item_rel P (Item a) (Item b) \<longleftrightarrow> a = b \<or> P a b"
| "item_rel P (Entry k v) (Entry l w) \<longleftrightarrow> (k = l \<or> P k l) \<and> (v = w \<or> P v w)"
| "item_rel P _ _ \<longleftrightarrow> False"

fun same_result :: "(JSTaggedValue \<Rightarrow> JSTaggedValue \<Rightarrow> bool) \<Rightarrow> call_result \<Rightarrow> call_result \<Rightarrow> bool" where
  "same_result P (IterResult x d) (IterResult y e) \<longleftrightarrow> item_rel P x y \<and> d = e"
| "same_result P x y \<longleftrightarrow> x = y"

lemma same_result_mono: "same_result P x y \<Longrightarrow> (\<And>a b. P a b \<Longrightarrow> Q a b) \<Longrightarrow> same_result Q x y"
  by (cases "(P, x, y)" rule: same_result.cases; auto elim!: item_rel.elims)

lemma item_rel_refl [simp]: "item_rel P x x"
  by (cases x) simp_all

lemma same_result_refl [simp]: "same_result P x x"
  by (cases x) simp_all

lemma entry_matches:
  assumes "entry_rel st Z p q" "key \<in> valid_keys st" "key' \<in> valid_keys st" "same_value_zero_spec key' key"
  shows "matches key p \<longleftrightarrow> matches key' q"
proof -
  have v: "hd p \<in> valid_keys st" "hd q \<in> valid_keys st" and s: "same_value_zero_spec (hd p) (hd q)"
    using assms(1) same_keys by (auto simp: entry_rel_def key_rel_def)
  show ?thesis unfolding matches_def same_keys [OF assms(2) v(1)] same_keys [OF assms(3) v(2)]
    using s assms(4) same_value_zero_sym same_value_zero_trans by blast
qed

lemma entry_value: "entry_rel st Z p q \<Longrightarrow> p ! 1 = q ! 1"
  by (cases p; cases q) (simp_all add: entry_rel_def)

lemma related_slots:
  assumes "list_all2 (rel_option (entry_rel st Z)) A B" "\<And>p q. entry_rel st Z p q \<Longrightarrow> P p \<longleftrightarrow> Q q"
  shows "slot_position P A = slot_position Q B" "list_all2 (entry_rel st Z) (lives A) (lives B)"
    "rel_option (entry_rel st Z) (List.find P (lives A)) (List.find Q (lives B))"
proof -
  show "slot_position P A = slot_position Q B"
    using assms(1) by (induction rule: list_all2_induct)
      (auto simp: slot_position_def slot_matches_def assms(2) split: option.splits)
  show *: "list_all2 (entry_rel st Z) (lives A) (lives B)"
    using assms(1) by (induction rule: list_all2_induct) (auto simp: lives_def rel_option_iff split: option.splits)
  show "rel_option (entry_rel st Z) (List.find P (lives A)) (List.find Q (lives B))"
    using * by (induction rule: list_all2_induct) (auto simp: assms(2))
qed

lemma related_keys:
  assumes "list_all2 (rel_option (entry_rel st Z)) A B" "key \<in> valid_keys st"
  shows "slot_position (matches key) A = slot_position (matches key) B"
    "rel_option (entry_rel st Z) (List.find (matches key) (lives A)) (List.find (matches key) (lives B))"
proof -
  have m: "matches key p \<longleftrightarrow> matches key q" if "entry_rel st Z p q" for p q
    by (rule entry_matches [OF that assms(2,2) same_value_zero_refl])
  show "slot_position (matches key) A = slot_position (matches key) B"
    "rel_option (entry_rel st Z) (List.find (matches key) (lives A)) (List.find (matches key) (lives B))"
    using related_slots(1,3) [OF assms(1), of "matches key" "matches key"] m by blast+
qed

lemma related_next:
  assumes "list_all2 (rel_option (entry_rel st Z)) A B"
  shows "next_slot A k = next_slot B k"
proof -
  have "length (takeWhile (\<lambda>x. x = None) xs) = length (takeWhile (\<lambda>x. x = None) ys)"
    if "list_all2 (rel_option (entry_rel st Z)) xs ys" for xs ys
    using that by (induction rule: list_all2_induct) (auto simp: rel_option_iff split: option.splits)
  then show ?thesis using list_all2_dropI [OF assms] by (simp add: next_slot_def)
qed

lemma slot_position_match:
  assumes "slot_position (matches key) B < length B"
  shows "\<exists>q. B ! slot_position (matches key) B = Some q \<and> matches key q"
proof -
  have "slot_matches (matches key) (B ! slot_position (matches key) B)"
    using nth_length_takeWhile [of "\<lambda>x. \<not> slot_matches (matches key) x" B] assms by (simp add: slot_position_def)
  then show ?thesis by (auto simp: slot_matches_def split: option.splits)
qed

lemma insert_related:
  assumes rel: "list_all2 (rel_option (entry_rel st Z)) A B" and key: "key \<in> valid_keys st" "Z \<longrightarrow> \<not> negative_zero key"
    and ho: "ho = LinkedHashMapObject \<or> ho = LinkedHashSetObject \<and> v = key"
  shows "list_all2 (rel_option (entry_rel st Z)) (list_insert ho key v A) (ecma_insert ho key v B)"
proof -
  let ?k = "normalize_zero key"
  let ?e = "slot_position (matches key) A"
  have n: "?k \<in> valid_keys st" "same_value_zero_spec ?k key" "\<not> negative_zero ?k"
    by (rule normalize_zero_valid [OF key(1)] normalize_zero_same normalize_zero_plain)+
  have e: "slot_position (matches ?k) B = ?e"
    using related_slots(1) [OF rel, of "matches key" "matches ?k"] entry_matches [OF _ key(1) n(1,2)] by simp
  have len: "length A = length B" by (rule list_all2_lengthD [OF rel])
  have new: "key_rel st Z key ?k"
    using key n same_keys [OF key(1) n(1)] same_value_zero_sym by (auto simp: key_rel_def)
  show ?thesis
  proof (cases "?e < length A")
    case False
    then show ?thesis using ho rel e len new
      by (auto simp: list_insert_def ecma_insert_def entry_rel_def intro!: list_all2_appendI)
  next
    case True
    then obtain q where q: "B ! ?e = Some q" "matches ?k q" using slot_position_match [of ?k B] e len by auto
    then obtain p where p: "A ! ?e = Some p" "entry_rel st Z p q"
      using list_all2_nthD [OF rel True] by (auto simp: rel_option_iff split: option.splits)
    from ho show ?thesis
    proof
      assume m: "ho = LinkedHashMapObject"
      have "entry_rel st Z (p[1 := v]) (q[1 := v])"
        using p(2) by (cases p; cases q) (auto simp: entry_rel_def)
      then show ?thesis using m True e len p(1) q(1) rel
        by (auto simp: list_insert_def ecma_insert_def intro!: list_all2_update_cong)
    next
      assume s: "ho = LinkedHashSetObject \<and> v = key"
      have h: "same_value_zero_spec ?k (hd q)" "hd q \<in> valid_keys st" "Z \<longrightarrow> \<not> negative_zero (hd q)"
        using q(2) p(2) same_keys [OF n(1)] by (auto simp: matches_def entry_rel_def key_rel_def)
      have "same_value_zero_spec key (hd q)" by (rule same_value_zero_trans [OF same_value_zero_sym [OF n(2)] h(1)])
      then have "key_rel st Z key (hd q)" using key h same_keys [OF key(1) h(2)] by (simp add: key_rel_def)
      then have "entry_rel st Z (p[0 := key]) q"
        using p(2) by (cases p) (auto simp: entry_rel_def)
      then have "list_all2 (rel_option (entry_rel st Z)) (A[?e := Some (p[0 := key])]) (B[?e := Some q])"
        using rel by (intro list_all2_update_cong) simp_all
      then show ?thesis using s True e len p(1) q(1) list_update_id [of B ?e] by (simp add: list_insert_def ecma_insert_def)
    qed
  qed
qed

section \<open>Related runs\<close>

lemma related_object:
  assumes "ecma_rel st Z sp sq"
  shows "rel_option (rel_prod (=) (list_all2 (rel_option (entry_rel st Z)))) (object_of (spec_collections sp) self) (object_of (spec_collections sq) self)"
proof (cases self)
  case (VObject m)
  have "rel_option (list_all2 (rel_option (entry_rel st Z))) (spec_collections sp m) (spec_collections sq m)"
    using assms by (simp add: ecma_rel_def)
  then show ?thesis using VObject by (auto simp: object_of_def rel_option_iff split: option.splits)
qed (simp_all add: object_of_def)

lemma related_on:
  assumes "ecma_rel st Z sp sq"
    "\<And>m A B. list_all2 (rel_option (entry_rel st Z)) A B \<Longrightarrow> rel_prod (same_result (key_rel st Z)) (ecma_rel st Z) (f m A) (g m B)"
  shows "rel_prod (same_result (key_rel st Z)) (ecma_rel st Z) (spec_on cl sp self f) (spec_on cl sq self g)"
  using related_object [OF assms(1), of self] assms by (auto simp: spec_on_def rel_option_iff split: option.splits)

lemma related_store:
  assumes "ecma_rel st Z sp sq" "list_all2 (rel_option (entry_rel st Z)) A B"
  shows "ecma_rel st Z (spec_store sp m A) (spec_store sq m B)"
  using assms by (auto simp: ecma_rel_def spec_store_def)

lemma related_item:
  assumes "entry_rel st Z p q" "layout cl = LinkedHashMapObject \<or> layout cl = LinkedHashSetObject"
  shows "item_rel (key_rel st Z) (spec_item (layout cl) kind p) (spec_item (layout cl) kind q)"
  using assms by (cases p; cases q; cases kind) (auto simp: spec_item_def entry_rel_def)

lemma related_next_item:
  assumes rel: "ecma_rel st Z sp sq" and cl: "layout cl = LinkedHashMapObject \<or> layout cl = LinkedHashSetObject"
  shows "rel_prod (same_result (key_rel st Z)) (=) (spec_next (layout cl) sp it) (spec_next (layout cl) sq it)"
proof (cases "spec_map it")
  case (Some m)
  have r: "rel_option (list_all2 (rel_option (entry_rel st Z))) (spec_collections sp m) (spec_collections sq m)"
    using rel by (simp add: ecma_rel_def)
  show ?thesis
  proof (cases "spec_collections sp m")
    case (Some A)
    then obtain B where B: "spec_collections sq m = Some B" "list_all2 (rel_option (entry_rel st Z)) A B"
      using r by (auto simp: rel_option_iff split: option.splits)
    let ?k = "next_slot A (spec_index it)"
    have k: "next_slot B (spec_index it) = ?k" "length B = length A"
      using related_next [OF B(2)] list_all2_lengthD [OF B(2)] by simp_all
    show ?thesis
    proof (cases "?k < length A")
      case True
      then have "A ! ?k \<noteq> None"
        using nth_length_takeWhile [of "\<lambda>x. x = None" "drop (spec_index it) A"] by (simp add: next_slot_def)
      then have "entry_rel st Z (the (A ! ?k)) (the (B ! ?k))"
        using list_all2_nthD [OF B(2) True] by (auto simp: rel_option_iff split: option.splits)
      then show ?thesis using \<open>spec_map it = Some m\<close> Some B(1) k True related_item [OF _ cl] by (simp add: spec_next_def Let_def)
    qed (use \<open>spec_map it = Some m\<close> Some B(1) k in \<open>simp add: spec_next_def Let_def\<close>)
  qed (use \<open>spec_map it = Some m\<close> r in \<open>simp add: spec_next_def\<close>)
qed (simp add: spec_next_def)

lemma lists_follow_ecma:
  assumes rel: "ecma_rel st Z sp sq" and cl: "layout cl = LinkedHashMapObject \<or> layout cl = LinkedHashSetObject"
    and ok: "op_ok st (layout cl) op" "Z \<longrightarrow> plain_key op" and get: "\<And>self key. op = Get_value self key \<Longrightarrow> layout cl = LinkedHashMapObject"
  shows "rel_prod (same_result (key_rel st Z)) (ecma_rel st Z) (list_step cl op sp) (ecma_step cl op sq)"
proof (cases op)
  case Create_collection
  then show ?thesis using rel by (auto simp: ecma_rel_def spec_store_def)
next
  case (Insert_key self key v)
  have ho: "layout cl = LinkedHashMapObject \<or> layout cl = LinkedHashSetObject \<and> v = key"
    using cl ok(1) Insert_key by auto
  have "ecma_rel st Z (spec_store sp m (list_insert (layout cl) key v A)) (spec_store sq m (ecma_insert (layout cl) key v B))"
    if "list_all2 (rel_option (entry_rel st Z)) A B" for m A B
    using ok Insert_key by (intro related_store [OF rel] insert_related [OF that _ _ ho]) simp_all
  then show ?thesis using Insert_key by (auto intro!: related_on [OF rel])
next
  case (Get_value self key)
  then have key: "key \<in> valid_keys st" and map: "layout cl = LinkedHashMapObject" using ok(1) get by auto
  have "(case List.find (matches key) (lives A) of None \<Rightarrow> VUndefined | Some p \<Rightarrow> p ! ENTRY_VALUE_INDEX (layout cl)) =
      (case List.find (matches key) (lives B) of None \<Rightarrow> VUndefined | Some p \<Rightarrow> p ! ENTRY_VALUE_INDEX (layout cl))"
    if "list_all2 (rel_option (entry_rel st Z)) A B" for A B
    using related_keys(2) [OF that key] entry_value [of st Z] map
    by (auto simp: rel_option_iff split: option.splits)
  then show ?thesis using Get_value rel by (auto intro!: related_on [OF rel])
next
  case (Has_key self key)
  then have key: "key \<in> valid_keys st" using ok(1) by simp
  have "(List.find (matches key) (lives A) = None) = (List.find (matches key) (lives B) = None)"
    if "list_all2 (rel_option (entry_rel st Z)) A B" for A B
    using related_keys(2) [OF that key] by (auto simp: rel_option_iff split: option.splits)
  then show ?thesis using Has_key rel by (auto intro!: related_on [OF rel] simp del: not_None_eq)
next
  case (Delete_key self key)
  then have key: "key \<in> valid_keys st" using ok(1) by simp
  have "(List.find (matches key) (lives A) = None) = (List.find (matches key) (lives B) = None)"
    "list_all2 (rel_option (entry_rel st Z)) (spec_delete key A) (spec_delete key B)"
    if "list_all2 (rel_option (entry_rel st Z)) A B" for A B
    using related_keys [OF that key] that
    by (auto simp: rel_option_iff spec_delete_def intro!: list_all2_update_cong split: option.splits)
  then show ?thesis using Delete_key rel by (auto intro!: related_on [OF rel] related_store [OF rel] simp del: not_None_eq)
next
  case (Clear_all self)
  have "list_all2 (rel_option (entry_rel st Z)) (map (\<lambda>_. None) A) (map (\<lambda>_. None) B)"
    if "list_all2 (rel_option (entry_rel st Z)) A B" for A B
    using list_all2_lengthD [OF that] by (auto simp: list_all2_conv_all_nth)
  then show ?thesis using Clear_all by (auto intro!: related_on [OF rel] related_store [OF rel])
next
  case (Get_size self)
  have "length (lives A) = length (lives B)" if "list_all2 (rel_option (entry_rel st Z)) A B" for A B
    by (rule list_all2_lengthD [OF related_slots(2) [OF that]]) (rule refl)
  then show ?thesis using Get_size rel by (auto intro!: related_on [OF rel])
next
  case (Create_iterator self kind)
  then show ?thesis using rel by (auto intro!: related_on [OF rel]) (auto simp: ecma_rel_def)
next
  case (Next_item this)
  have it: "spec_iterators sq = spec_iterators sp" using rel by (simp add: ecma_rel_def)
  show ?thesis
  proof (cases "object_of (spec_iterators sp) this")
    case None
    then show ?thesis using Next_item it rel by simp
  next
    case (Some x)
    obtain i it where x: "x = (i, it)" by (cases x)
    show ?thesis
      using Next_item Some x related_next_item [OF rel cl, of it] rel
      by (auto simp: \<open>spec_iterators sq = spec_iterators sp\<close> ecma_rel_def split: prod.splits)
  qed
qed

lemma runs_follow_ecma:
  assumes "ecma_rel st Z sp sq" "layout cl = LinkedHashMapObject \<or> layout cl = LinkedHashSetObject"
    and "list_all (\<lambda>op. op_ok st (layout cl) (conv op)) ops" "Z \<longrightarrow> list_all (\<lambda>op. plain_key (conv op)) ops"
    and "\<And>op self key. conv op = Get_value self key \<Longrightarrow> layout cl = LinkedHashMapObject"
    and "run_ops (\<lambda>op sp. Some (list_step cl (conv op) sp)) ops sp = Some (outs, sp')"
  shows "\<exists>outs' sq'. run_ops (\<lambda>op sp. Some (ecma_step cl (conv op) sp)) ops sq = Some (outs', sq') \<and>
    list_all2 (same_result (key_rel st Z)) outs outs'"
  using assms(1,3,4,6)
proof (induction ops arbitrary: sp sq outs)
  case (Cons op ops)
  obtain out sp1 where a: "list_step cl (conv op) sp = (out, sp1)" by (cases "list_step cl (conv op) sp")
  obtain out' sq1 where b: "ecma_step cl (conv op) sq = (out', sq1)" by (cases "ecma_step cl (conv op) sq")
  have step: "same_result (key_rel st Z) out out'" "ecma_rel st Z sp1 sq1"
    using lists_follow_ecma [OF Cons.prems(1) assms(2), of "conv op"] assms(5) Cons.prems(2,3) a b by auto
  obtain outs1 where r: "run_ops (\<lambda>op sp. Some (list_step cl (conv op) sp)) ops sp1 = Some (outs1, sp')" "outs = out # outs1"
    using Cons.prems(4) a by (auto simp: bind_eq_Some_conv)
  have "\<exists>outs' sq'. run_ops (\<lambda>op sp. Some (ecma_step cl (conv op) sp)) ops sq1 = Some (outs', sq') \<and>
      list_all2 (same_result (key_rel st Z)) outs1 outs'"
    using Cons.prems(2,3) by (intro Cons.IH [OF step(2) _ _ r(1)]) auto
  then show ?case using b r(2) step(1) by auto
qed simp

lemma empty_ecma_rel: "ecma_rel st Z empty_spec empty_spec"
  by (simp add: ecma_rel_def empty_spec_def)

section \<open>Maps without the key \<open>-0\<close>\<close>

lemma map_run_plain:
  "list_all plain_key ops \<Longrightarrow> run_ops (\<lambda>op sp. Some (ecma_step map_class op sp)) ops sp = run_ops (\<lambda>op sp. Some (list_step map_class op sp)) ops sp"
  by (induction ops arbitrary: sp) (simp_all add: map_step_plain)

lemma map_script_plain:
  assumes "\<forall>hist v key. list_all plain_key (fst (script hist v key))"
  shows "scripted (\<lambda>op sp. Some (ecma_step map_class op sp)) script = scripted (\<lambda>op sp. Some (list_step map_class op sp)) script"
  by (intro ext) (use assms map_run_plain in \<open>simp add: scripted_def\<close>)

end
