(* ===== verification/String_Props.thy ===== *)
theory String_Props
  imports String_Table
begin

text \<open>
  Properties of string hash codes and of the string table.
\<close>

definition no_strings :: string_table where
  "no_strings = \<lparr>strings = (\<lambda>a. \<lparr>str_addr = a, str_interned = False, str_hash = None, str_chars = []\<rparr>),
     fresh_string = 0, string_map = []\<rparr>"

lemma no_strings_inv: "table_inv no_strings"
  by (simp add: table_inv_def no_strings_def)

text \<open>C17. The string table interns: starting from a table that keeps its invariant, any sequence of requests for a
  string object, for ASCII or 16-bit data, or for two strings put together returns for every request the
  address of an interned string; two requests of the sequence get the same address exactly when they ask
  for the same characters.  Requests of two strings have to be ones whose hash code can be computed from
  the parts (\<open>splice_ok\<close>), and 16-bit data must not hold a character whose low byte is a digit.\<close>

theorem intern_canonical:
  assumes "table_inv st" "list_all (request_ok st) rs" "run_requests intern_step st rs = (as, st')"
  shows "table_inv st' \<and> length as = length rs \<and>
    (\<forall>i < length rs. str_interned (strings st' (as ! i)) \<and>
       str_chars (strings st' (as ! i)) = request_chars st (rs ! i)) \<and>
    (\<forall>i < length rs. \<forall>j < length rs.
       as ! i = as ! j \<longleftrightarrow> request_chars st (rs ! i) = request_chars st (rs ! j))"
  using string_interning.run_law [OF assms] string_interning.run_canonical [OF assms] interned_as_Some [of st'] by blast

theorem intern_canonical_witness:
  "\<exists>a b st'. run_requests intern_step no_strings [InternUtf8 [0x31, 0x32], InternUtf16 [0x31, 0x32], InternUtf16 [0x31, 0x3B1]] =
     ([a, a, b], st') \<and> a \<noteq> b \<and> table_inv st'"
proof -
  let ?rs = "[InternUtf8 [0x31, 0x32], InternUtf16 [0x31, 0x32], InternUtf16 [0x31, 0x3B1]]"
  obtain as st' where r: "run_requests intern_step no_strings ?rs = (as, st')"
    by (cases "run_requests intern_step no_strings ?rs")
  have ok: "list_all (request_ok no_strings) ?rs"
    by (simp add: CanBeCompressed_def IsASCIICharacter_def narrow_ok_def IsDecimalDigitChar_def)
  note * = intern_canonical [OF no_strings_inv ok r]
  then obtain a b c where "as = [a, b, c]" by (auto simp: length_Suc_conv numeral_3_eq_3)
  moreover have eq: "as ! i = as ! j \<longleftrightarrow> request_chars no_strings (?rs ! i) = request_chars no_strings (?rs ! j)"
    if "i < 3" "j < 3" for i j using * that by simp
  have "as ! 0 = as ! 1" "as ! 1 \<noteq> as ! 2" using eq [of 0 1] eq [of 1 2] by simp_all
  ultimately show ?thesis using r * by (intro exI [of _ a] exI [of _ c] exI [of _ st']) (simp add: numeral_2_eq_2)
qed

text \<open>C35. The hash code of a string doubles as a cache of its value: \<open>TryToGetInteger\<close> answers, with the number, exactly
  for the strings of at most nine decimal digits without a leading zero.  The hash code that is cached in the string, if there
  is one, is assumed to be that of its contents (\<open>hash_cached_ok\<close>).  Interning 16-bit data can break this condition, see C40.\<close>

theorem integer_code_correct:
  assumes "hash_cached_ok s"
  shows "TryToGetInteger s = (if integer_string (str_chars s) then Some (decimal 0 (str_chars s)) else None)"
  using assms by (rule TryToGetInteger_spec)

text \<open>Strings without a cached hash code, and strings that cache the one of \<open>12\<close> and of \<open>1a\<close>.\<close>

theorem integer_code_correct_witness:
  "TryToGetInteger \<lparr>str_addr = 0, str_interned = False, str_hash = None, str_chars = [0x31, 0x32]\<rparr> = Some 12 \<and>
   TryToGetInteger \<lparr>str_addr = 0, str_interned = False, str_hash = None, str_chars = [0x30, 0x32]\<rparr> = None \<and>
   TryToGetInteger \<lparr>str_addr = 1, str_interned = True, str_hash = Some 0x8000000C, str_chars = [0x31, 0x32]\<rparr> = Some 12 \<and>
   TryToGetInteger \<lparr>str_addr = 2, str_interned = True, str_hash = Some 0x650, str_chars = [0x31, 0x61]\<rparr> = None"
proof -
  let ?s = "\<lambda>cs. \<lparr>str_addr = 0, str_interned = False, str_hash = None, str_chars = cs\<rparr>"
  let ?twelve = "\<lparr>str_addr = 1, str_interned = True, str_hash = Some 0x8000000C, str_chars = [0x31, 0x32]\<rparr>"
  let ?one_a = "\<lparr>str_addr = 2, str_interned = True, str_hash = Some 0x650, str_chars = [0x31, 0x61]\<rparr>"
  have "hash_cached_ok (?s [0x31, 0x32])" "hash_cached_ok (?s [0x30, 0x32])" by (simp_all add: hash_cached_ok_def)
  moreover have "hash_cached_ok ?twelve" "hash_cached_ok ?one_a" by code_simp+
  ultimately show ?thesis
    using integer_code_correct [of "?s [0x31, 0x32]"] integer_code_correct [of "?s [0x30, 0x32]"]
      integer_code_correct [of ?twelve] integer_code_correct [of ?one_a]
    by (simp add: integer_string_def IsDecimalDigitChar_def MAX_ELEMENT_INDEX_LEN_def)
qed

section \<open>Hash codes that are not those of the contents\<close>

text \<open>\<open>HashIntegerString\<close> reads the first character of 16-bit data and the low byte of all others.\<close>

definition low_byte :: "u16 \<Rightarrow> u16" where
  "low_byte c = ucast (ucast c :: u8)"

lemma integer_loop_low: "integer_loop n (map low_byte cs) = integer_loop n cs"
proof (induction cs arbitrary: n)
  case (Cons c cs)
  have "(ucast (low_byte c) :: u8) = ucast c" by (simp add: low_byte_def word_unat_eq_iff unsigned_ucast_eq unsigned_take_bit_eq)
  then show ?case using Cons by (simp split: option.split)
qed simp

lemma HashIntegerString_low: "HashIntegerString (c # map low_byte cs) 0 = HashIntegerString (c # cs) 0"
  by (simp add: HashIntegerString_def integer_loop_low)

lemma wide_digits_hash:
  assumes "integer_string (c # map low_byte cs)"
  shows "ComputeHashcodeUtf16 (c # cs) = MixHashcode (decimal 0 (c # map low_byte cs)) True"
proof -
  have "list_all narrow_ok (tl (c # map low_byte cs))"
    using ascii_narrow_ok [OF integer_string_ascii [OF assms]] by simp
  moreover have "length (c # map low_byte cs) < MAX_ELEMENT_INDEX_LEN" using assms unfolding integer_string_def by blast
  ultimately show ?thesis
    using HashIntegerString_digits [of "c # map low_byte cs"] assms by (simp add: ComputeHashcodeUtf16_def HashIntegerString_low)
qed

text \<open>C40. Interning 16-bit data takes some strings for numbers.  Whenever the data starts with a digit and the low bytes of all
  characters are the digits of an integer string, though a character is no digit, the table (in any state with its
  invariant) creates a string that caches the integer code of the low bytes: \<open>TryToGetInteger\<close> answers with that number,
  although the string is no number, and the invariant of the table is lost.\<close>

theorem wide_digits_interned:
  assumes "table_inv st" "integer_string (c # map low_byte cs)" "\<not> digits_only cs"
  shows "\<exists>a st'. GetOrInternString_utf16 st (c # cs) = (a, st') \<and> str_chars (strings st' a) = c # cs \<and>
    TryToGetInteger (strings st' a) = Some (decimal 0 (c # map low_byte cs)) \<and> \<not> integer_string (c # cs) \<and> \<not> table_inv st'"
proof -
  let ?n = "decimal 0 (c # map low_byte cs)" and ?a = "fresh_string st"
  let ?h = "MixHashcode ?n True"
  let ?s = "\<lparr>str_addr = ?a, str_interned = True, str_hash = Some ?h, str_chars = c # cs\<rparr>"
  have no: "\<not> integer_string (c # cs)" using assms(3) by (simp add: integer_string_def)
  have "?n \<le> MAX_INTEGER_HASH_NUMBER"
    using assms(2) decimal_ok [of "c # map low_byte cs"] by (simp add: integer_string_def MAX_ELEMENT_INDEX_LEN_def)
  note m = decimal_mask [OF this]
  have h: "?h \<noteq> 0" using m(1) by (auto simp: IS_INTEGER_MASK_def)
  have other: "?h \<noteq> hash_spec (c # cs)" using no m(1,3) by (metis hash_spec_def)
  have "\<not> (fst item = ?h \<and> str_chars (strings st (snd item)) = c # cs)" if "item \<in> set (string_map st)" for item
    using table_inv_item(2) [OF assms(1), of "fst item" "snd item"] that other by auto
  then have "find_string st ?h (\<lambda>s. str_chars s = c # cs) = None"
    unfolding find_string_def option.map_disc_iff find_None_iff by blast
  then have get: "GetOrInternString_utf16 st (c # cs) =
      (?a, st\<lparr>strings := (strings st)(?a := ?s), fresh_string := ?a + 1, string_map := (?h, ?a) # string_map st\<rparr>)"
    using h by (simp add: GetOrInternString_utf16_def GetStringThreadUnsafe_utf16_def get_or_create_def new_string_def store_string_def
        InternStringThreadUnsafe_def GetHashcode_def GetMixHashcode_def SetMixHashcode_def wide_digits_hash [OF assms(2)] Let_def)
  let ?st' = "st\<lparr>strings := (strings st)(?a := ?s), fresh_string := ?a + 1, string_map := (?h, ?a) # string_map st\<rparr>"
  have "TryToGetInteger ?s = Some ?n"
    using h m(1,2) by (simp add: TryToGetInteger_def EcmaString_IsInteger_def GetIntegerCode_def GetHashcode_def GetMixHashcode_def Let_def)
  moreover have "\<not> table_inv ?st'"
    using table_inv_item(2) [of ?st' ?h ?a] other by auto
  ultimately show ?thesis using get no by auto
qed

text \<open>The digit 1 and the dotless i (U+0131).\<close>

theorem wide_digits_interned_witness:
  "\<exists>a st'. GetOrInternString_utf16 no_strings [0x31, 0x131] = (a, st') \<and> TryToGetInteger (strings st' a) = Some 11 \<and> \<not> table_inv st'"
proof -
  have "integer_string (0x31 # map low_byte [0x131])" "\<not> digits_only [0x131]" "decimal 0 (0x31 # map low_byte [0x131]) = 11" by code_simp+
  then show ?thesis using wide_digits_interned [OF no_strings_inv, of "0x31" "[0x131]"] by auto
qed

text \<open>The string \<open>1a\<close> put together from \<open>1\<close> and \<open>a\<close> is hashed from the integer code of \<open>1\<close>, so it is not found and interned
  a second time, with a hash code that makes it different from the first one.\<close>

lemma spliced_twice:
  "case run_requests intern_step no_strings
      [InternUtf8 [0x31, 0x61], InternUtf8 [0x31], InternUtf8 [0x61], InternSpliced 1 2] of
     (as, st) \<Rightarrow> as = [0, 1, 2, 3] \<and> str_chars (strings st 0) = str_chars (strings st 3) \<and>
       \<not> StringsAreEqual (strings st 0) (strings st 3)"
  by code_simp

end
