(* ===== verification/Ordered_Props.thy ===== *)
theory Ordered_Props
  imports Ordered_Ecma String_Props
begin

text \<open>
  Properties of \<open>Map\<close> and \<open>Set\<close>.
\<close>

section \<open>An instance of the parameters\<close>

definition pow2_above :: "u32 \<Rightarrow> u32" where
  "pow2_above x = push_bit (length (filter (\<lambda>k. 2 ^ k < unat x) [0..<32])) 1"

definition example_env :: hash_env where
  "example_env = \<lparr>GetHash32 = foldl (\<lambda>h b. 31 * h + ucast b) 17, identity_hash = word_of_nat, GetPowerOfTwoValue32 = pow2_above\<rparr>"

lemma pow2_above_spec:
  assumes "unat x \<le> 2 ^ 31"
  shows "\<exists>k. unat (pow2_above x) = 2 ^ k \<and> unat x \<le> 2 ^ k \<and> (\<forall>j. unat x \<le> 2 ^ j \<longrightarrow> k \<le> j)"
proof -
  define k where "k = (LEAST k. unat x \<le> 2 ^ k)"
  have k: "unat x \<le> 2 ^ k" unfolding k_def using assms by (rule LeastI)
  have least: "k \<le> j" if "unat x \<le> 2 ^ j" for j unfolding k_def using that by (rule Least_le)
  have "k \<le> 31" using least [OF assms] .
  have less: "2 ^ j < unat x \<longleftrightarrow> j < k" for j
  proof
    assume "j < k"
    then show "2 ^ j < unat x" using least [of j] by (meson leD linorder_le_less_linear)
  next
    assume "2 ^ j < unat x"
    then have "(2 :: nat) ^ j < 2 ^ k" using k by (rule less_le_trans)
    then show "j < k" by simp
  qed
  have "{j. j < 32 \<and> j < k} = {..<k}" using \<open>k \<le> 31\<close> by auto
  then have "length (filter (\<lambda>j. 2 ^ j < unat x) [0..<32]) = k"
    unfolding less by (simp add: length_filter_conv_card cong: conj_cong)
  then have "unat (pow2_above x) = 2 ^ k"
    using unat_pow2 [of k] \<open>k \<le> 31\<close> by (simp add: pow2_above_def)
  then show ?thesis using k least by blast
qed

lemma example_env_ok: "pow2_ok example_env"
  using pow2_above_spec by (simp add: pow2_ok_def example_env_def)

lemma int_key_ok [simp]: "VInt i \<in> valid_keys no_strings"
  using no_strings_inv by (simp add: valid_keys_def)

lemma int_keys [simp]: "JSTaggedValue_SameValueZero (VInt i) (VInt j) \<longleftrightarrow> i = j"
  using SameValueZero_numbers [of "VInt i" "VInt j"] VInt_number_value [of i j] by auto

lemmas spec_eval = spec_on_def spec_store_def list_insert_def spec_delete_def spec_next_def spec_item_def object_of_def
  empty_spec_def slot_position_def slot_matches_def matches_def layouts lives_def next_slot_def TaggedBoolean_def
  JSTaggedValue_uint32_def class_layouts Let_def

section \<open>Refinement\<close>

text \<open>C1. \<open>Map\<close> against the language specification, with its step that turns a key \<open>-0\<close> into \<open>+0\<close>: any sequence of calls of its
  constructor, of \<open>set\<close>, \<open>get\<close>, \<open>has\<close>, \<open>delete\<close>, \<open>clear\<close>, \<open>size\<close>, and of iterators over keys, values or entries, on any
  number of objects and with any iterators under way, is defined and has the results of the specification, where
  entries are a list that is never compacted and an iterator is an index into it.  When no call of \<open>set\<close> has the
  key \<open>-0\<close>, the results are the same, and objects and iterators stay related to those of the specification; otherwise what
  an iterator returns is the same up to the sign of a zero, because the code stores the key \<open>-0\<close>.  There are at most
  \<open>element_limit\<close> = 178956970 calls, so that no capacity overflows; \<open>GetPowerOfTwoValue32\<close> rounds up to a power of two.  Keys are all
  values but a NaN with another bit pattern than the one of the runtime; strings are those of a heap with the invariant of
  the string table (interned strings are unique, cached hash codes are those of the contents), BigInts are canonical.\<close>

theorem map_refines_spec:
  assumes "pow2_ok env" "list_all (op_ok st LinkedHashMapObject) ops" "length ops \<le> element_limit"
  shows "\<exists>outs r outs' sp. run_ops (map_step env) ops empty_realm = Some (outs, r) \<and>
    run_ops (\<lambda>op sp. Some (ecma_step map_class op sp)) ops empty_spec = Some (outs', sp) \<and>
    list_all2 (same_result JSTaggedValue_SameValueZero) outs outs' \<and>
    (list_all plain_key ops \<longrightarrow> outs' = outs \<and> realm_rel env map_class st {} r sp)"
proof -
  let ?list = "\<lambda>op sp. Some (list_step map_class op sp)" and ?ecma = "\<lambda>op sp. Some (ecma_step map_class op sp)"
  have "run_ops ?list ops empty_spec \<noteq> None" by (rule run_ops_total) simp
  then obtain outs r sp where r: "run_ops (map_step env) ops empty_realm = Some (outs, r)"
    "run_ops ?list ops empty_spec = Some (outs, sp)" "realm_rel env map_class st {} r sp"
    using map_sim.run_total [OF empty_realm_rel [OF assms(1)] assms(2)] assms(3) by fastforce
  have "\<exists>outs' sq. run_ops ?ecma ops empty_spec = Some (outs', sq) \<and> list_all2 (same_result (key_rel st False)) outs outs'"
    using runs_follow_ecma [OF empty_ecma_rel, where cl = map_class and conv = "\<lambda>op. op"] assms(2) r(2) by (auto simp: class_layouts)
  then obtain outs' sq where e: "run_ops ?ecma ops empty_spec = Some (outs', sq)" "list_all2 (same_result (key_rel st False)) outs outs'"
    by blast
  have "list_all2 (same_result JSTaggedValue_SameValueZero) outs outs'"
    using e(2) by (rule list_all2_mono) (auto elim: same_result_mono simp: key_rel_def)
  then show ?thesis using r e(1) map_run_plain [of ops empty_spec] by (intro exI [of _ outs] exI [of _ r] exI [of _ outs'] exI [of _ sq]) auto
qed

definition map_example :: "collection_op list" where
  "map_example = [Create_collection, Insert_key (VObject 0) (VInt 1) (VInt 10), Insert_key (VObject 0) (VInt 2) (VInt 20),
     Create_iterator (VObject 0) KEY_AND_VALUE, Next_item (VObject 1), Delete_key (VObject 0) (VInt 1),
     Insert_key (VObject 0) (VInt 3) (VInt 30), Get_size (VObject 0), Next_item (VObject 1), Clear_all (VObject 0),
     Insert_key (VObject 0) (VInt 1) (VInt 40), Next_item (VObject 1), Next_item (VObject 1)]"

definition map_example_results :: "call_result list" where
  "map_example_results = [Value (VObject 0), Value (VObject 0), Value (VObject 0), Value (VObject 1),
     IterResult (Entry (VInt 1) (VInt 10)) False, Value VTrue, Value (VObject 0), Value (VInt 2),
     IterResult (Entry (VInt 2) (VInt 20)) False, Value VUndefined, Value (VObject 0),
     IterResult (Entry (VInt 1) (VInt 40)) False, IterResult (Item VUndefined) True]"

lemma map_example_spec:
  "\<exists>sp. run_ops (\<lambda>op sp. Some (list_step map_class op sp)) map_example empty_spec = Some (map_example_results, sp)"
  by (simp add: map_example_def map_example_results_def spec_eval)

theorem map_refines_spec_witness:
  "\<exists>r. run_ops (map_step example_env) map_example empty_realm = Some (map_example_results, r)"
proof -
  have "list_all (op_ok no_strings LinkedHashMapObject) map_example" "length map_example \<le> element_limit"
    by (simp_all add: map_example_def layouts element_limit_def)
  moreover have plain: "list_all plain_key map_example" by (simp add: map_example_def)
  ultimately show ?thesis
    using map_refines_spec [OF example_env_ok] map_example_spec map_run_plain [OF plain, of empty_spec] by fastforce
qed

text \<open>C11. \<open>Set\<close> against the language specification, which turns a value \<open>-0\<close> into \<open>+0\<close> and adds nothing when the value is
  there: any sequence of calls of its constructor, of \<open>add\<close>, \<open>has\<close>, \<open>delete\<close>, \<open>clear\<close>, \<open>size\<close> and of iterators is defined and
  has the results of the specification.  When no \<open>-0\<close> is added, every value that an iterator returns is the same
  value as there (\<open>SameValue\<close>; it may be another object with the same contents, because the code stores the value
  added last); otherwise it may differ in the sign of a zero.  There are at most \<open>element_limit\<close> calls, and values are
  restricted as the keys of a \<open>Map\<close> are: no
  NaN with another bit pattern, strings of a heap with the invariant of the string table, canonical BigInts.\<close>

theorem set_refines_spec:
  assumes "pow2_ok env" "list_all (set_op_ok st) ops" "length ops \<le> element_limit"
  shows "\<exists>outs r outs' sp. run_ops (set_step env) ops empty_realm = Some (outs, r) \<and>
    run_ops (\<lambda>op sp. Some (ecma_step set_class (set_as_collection op) sp)) ops empty_spec = Some (outs', sp) \<and>
    list_all2 (same_result JSTaggedValue_SameValueZero) outs outs' \<and>
    (list_all (\<lambda>op. plain_key (set_as_collection op)) ops \<longrightarrow> list_all2 (same_result JSTaggedValue_SameValue) outs outs')"
proof -
  let ?list = "\<lambda>op sp. Some (list_step set_class (set_as_collection op) sp)"
    and ?ecma = "\<lambda>op sp. Some (ecma_step set_class (set_as_collection op) sp)"
  have "run_ops ?list ops empty_spec \<noteq> None" by (rule run_ops_total) simp
  then obtain outs r sp where r: "run_ops (set_step env) ops empty_realm = Some (outs, r)" "run_ops ?list ops empty_spec = Some (outs, sp)"
    using set_sim.run_total [OF empty_realm_rel [OF assms(1)] assms(2)] assms(3) by fastforce
  have ok: "list_all (\<lambda>op. op_ok st (layout set_class) (set_as_collection op)) ops"
    using assms(2) by (auto simp: list_all_iff set_op_ok_def class_layouts)
  have get: "layout set_class = LinkedHashMapObject" if "set_as_collection op = Get_value self key" for op self key
    using that by (cases op) simp_all
  have ecma: "\<exists>outs' sq. run_ops ?ecma ops empty_spec = Some (outs', sq) \<and> list_all2 (same_result (key_rel st Z)) outs outs'"
    if "Z \<longrightarrow> list_all (\<lambda>op. plain_key (set_as_collection op)) ops" for Z
    by (rule runs_follow_ecma [OF empty_ecma_rel _ ok that get r(2)]) (simp_all add: class_layouts)
  obtain outs' sq where e: "run_ops ?ecma ops empty_spec = Some (outs', sq)" "list_all2 (same_result (key_rel st False)) outs outs'"
    using ecma [of False] by auto
  have "list_all2 (same_result JSTaggedValue_SameValueZero) outs outs'"
    using e(2) by (rule list_all2_mono) (auto elim: same_result_mono simp: key_rel_def)
  moreover have "list_all2 (same_result JSTaggedValue_SameValue) outs outs'" if "list_all (\<lambda>op. plain_key (set_as_collection op)) ops"
  proof -
    have "list_all2 (same_result (key_rel st True)) outs outs'" using ecma [of True] that e(1) by auto
    then show ?thesis by (rule list_all2_mono) (auto elim: same_result_mono intro: key_rel_same_value)
  qed
  ultimately show ?thesis using r(1) e(1) by blast
qed

definition set_example :: "set_op list" where
  "set_example = [Create_set, Add_value (VObject 0) (VInt 7), Add_value (VObject 0) (VInt 5), Add_value (VObject 0) (VInt 7),
     Create_set_iterator (VObject 0) KEY_AND_VALUE, Next_value (VObject 1), Delete_value (VObject 0) (VInt 7),
     Add_value (VObject 0) (VInt 7), Next_value (VObject 1), Next_value (VObject 1), Next_value (VObject 1), Has_value (VObject 0) (VInt 6)]"

definition set_example_results :: "call_result list" where
  "set_example_results = [Value (VObject 0), Value (VObject 0), Value (VObject 0), Value (VObject 0), Value (VObject 1),
     IterResult (Entry (VInt 7) (VInt 7)) False, Value VTrue, Value (VObject 0), IterResult (Entry (VInt 5) (VInt 5)) False,
     IterResult (Entry (VInt 7) (VInt 7)) False, IterResult (Item VUndefined) True, Value VFalse]"

lemma set_example_spec:
  "\<exists>sp. run_ops (\<lambda>op sp. Some (ecma_step set_class (set_as_collection op) sp)) set_example empty_spec = Some (set_example_results, sp)"
  by (simp add: set_example_def set_example_results_def spec_eval ecma_insert_def normalize_zero_def)

theorem set_refines_spec_witness:
  "\<exists>outs r. run_ops (set_step example_env) set_example empty_realm = Some (outs, r) \<and>
     list_all2 (same_result JSTaggedValue_SameValue) outs set_example_results"
proof -
  have "list_all (set_op_ok no_strings) set_example" "length set_example \<le> element_limit"
    by (simp_all add: set_example_def set_op_ok_def layouts element_limit_def)
  moreover have "list_all (\<lambda>op. plain_key (set_as_collection op)) set_example" by (simp add: set_example_def)
  ultimately show ?thesis using set_refines_spec [OF example_env_ok] set_example_spec by fastforce
qed

section \<open>ForEach\<close>

text \<open>C9. \<open>Map.prototype.forEach\<close> visits what the language specification prescribes.  After any calls and with any callback
  that itself makes at most \<open>L\<close> calls of functions of \<open>Map\<close> and may throw, adding, deleting or clearing entries of the map it
  iterates over, the calls are made with the arguments and in the order of the specification, as often, and
  the loop ends as it does there; every table that a callback replaces is followed.  At most \<open>fuel\<close> calls
  are made, and \<open>More_calls\<close> says that there would be another one; the calls together are at most \<open>element_limit\<close>.
  No call of \<open>set\<close>, before or in the callback, has the key
  \<open>-0\<close>, which the code stores and the specification turns into \<open>+0\<close>; keys are restricted as in C1: no NaN with another
  bit pattern, strings of a heap with the invariant of the string table, canonical BigInts.\<close>

theorem map_foreach_refines_spec:
  assumes "pow2_ok env" "list_all (\<lambda>op. op_ok st LinkedHashMapObject op \<and> plain_key op) ops"
    and "\<forall>hist v key. length (fst (script hist v key)) \<le> L \<and>
      list_all (\<lambda>op. op_ok st LinkedHashMapObject op \<and> plain_key op) (fst (script hist v key))"
    and "length ops + fuel * L \<le> element_limit"
    and "run_ops (map_step env) ops empty_realm = Some (outs, r)"
    and "run_ops (\<lambda>op sp. Some (ecma_step map_class op sp)) ops empty_spec = Some (outs, sp)"
  shows "\<exists>res hist r' sp'.
    BuiltinsMap_ForEach (scripted (map_step env) script) fuel self callable ([], r) = Some (res, hist, r') \<and>
    spec_foreach map_class (scripted (\<lambda>op sp. Some (ecma_step map_class op sp)) script) fuel self callable ([], sp) =
      Some (res, hist, sp') \<and>
    realm_rel env map_class st {} r' sp'"
proof -
  let ?list = "\<lambda>op sp. Some (list_step map_class op sp)"
  have ok: "list_all (op_ok st LinkedHashMapObject) ops" "list_all plain_key ops" using assms(2) by (auto simp: list_all_iff)
  have script: "\<forall>hist v key. length (fst (script hist v key)) \<le> L \<and> list_all (op_ok st LinkedHashMapObject) (fst (script hist v key))"
    "\<forall>hist v key. list_all plain_key (fst (script hist v key))" using assms(3) by (auto simp: list_all_iff)
  have sp: "run_ops ?list ops empty_spec = Some (outs, sp)" using assms(6) map_run_plain [OF ok(2)] by simp
  have len: "length ops \<le> element_limit" using assms(4) by simp
  have rel: "realm_rel env map_class st {} r sp"
    using map_sim.run_total [OF empty_realm_rel [OF assms(1)] ok(1) _ sp] len assms(5) by auto
  have "spec_size sp \<le> length ops" using map_sim.run_size [OF _ sp] len by simp
  then have lim: "spec_size sp + fuel * L \<le> element_limit" using assms(4) by simp
  have "rel_option (rel_prod (=) (rel_prod (=) (realm_rel env map_class st {})))
      (foreach map_class (scripted (map_step env) script) fuel self callable ([], r))
      (spec_foreach map_class (scripted ?list script) fuel self callable ([], sp))"
    by (rule map_foreach.foreach_refines [where L = L]) (use script(1) rel lim in auto)
  then show ?thesis
    using spec_foreach_total [of ?list map_class script fuel self callable "([], sp)"]
    unfolding BuiltinsMap_ForEach_def map_script_plain [OF script(2)] by (auto simp: option_rel_Some2 rel_prod_sel)
qed

definition foreach_script :: "collection_op script" where
  "foreach_script hist v key =
     (if key = VInt 1 then [Delete_key (VObject 0) (VInt 1), Insert_key (VObject 0) (VInt 3) (VInt 30),
        Insert_key (VObject 0) (VInt 4) (VInt 40), Delete_key (VObject 0) (VInt 3)] else [], None)"

theorem map_foreach_refines_spec_witness:
  "\<exists>r r' outs. run_ops (map_step example_env) [Create_collection, Insert_key (VObject 0) (VInt 1) (VInt 10), Insert_key (VObject 0) (VInt 2) (VInt 20)]
       empty_realm = Some (outs, r) \<and>
     BuiltinsMap_ForEach (scripted (map_step example_env) foreach_script) 5 (VObject 0) True ([], r) =
       Some (Finished, [(VInt 10, VInt 1, [Value VTrue, Value (VObject 0), Value (VObject 0), Value VTrue]),
         (VInt 20, VInt 2, []), (VInt 40, VInt 4, [])], r')"
proof -
  let ?ops = "[Create_collection, Insert_key (VObject 0) (VInt 1) (VInt 10), Insert_key (VObject 0) (VInt 2) (VInt 20)]"
  let ?spec = "\<lambda>op sp. Some (ecma_step map_class op sp)"
  have ok: "list_all (\<lambda>op. op_ok no_strings LinkedHashMapObject op \<and> plain_key op) ?ops" by (simp add: layouts)
  then have ok': "list_all (op_ok no_strings LinkedHashMapObject) ?ops" "list_all plain_key ?ops" by simp_all
  obtain outs sp where s: "run_ops ?spec ?ops empty_spec = Some (outs, sp)" by (simp add: spec_eval ecma_insert_def normalize_zero_def)
  then have l: "run_ops (\<lambda>op sp. Some (list_step map_class op sp)) ?ops empty_spec = Some (outs, sp)" using map_run_plain [OF ok'(2)] by simp
  have "length ?ops \<le> element_limit" by (simp add: element_limit_def)
  then obtain r where r: "run_ops (map_step example_env) ?ops empty_realm = Some (outs, r)"
    using map_sim.run_total [OF empty_realm_rel [OF example_env_ok] ok'(1) _ l] by auto
  have script: "\<forall>hist v key. length (fst (foreach_script hist v key)) \<le> 4 \<and>
      list_all (\<lambda>op. op_ok no_strings LinkedHashMapObject op \<and> plain_key op) (fst (foreach_script hist v key))"
    by (simp add: foreach_script_def layouts)
  have five: "5 = Suc (Suc (Suc (Suc (Suc 0))))" by simp
  have lim: "length ?ops + 5 * 4 \<le> element_limit" by (simp add: element_limit_def)
  have "\<exists>sp'. spec_foreach map_class (scripted ?spec foreach_script) 5 (VObject 0) True ([], sp) =
       Some (Finished, [(VInt 10, VInt 1, [Value VTrue, Value (VObject 0), Value (VObject 0), Value VTrue]),
         (VInt 20, VInt 2, []), (VInt 40, VInt 4, [])], sp')"
    using s unfolding five by (auto simp: spec_eval ecma_insert_def normalize_zero_def spec_foreach_def scripted_def foreach_script_def)
  then show ?thesis
    using map_foreach_refines_spec [OF example_env_ok ok script lim r s, of "VObject 0" True] r by fastforce
qed

text \<open>\<open>Set.prototype.forEach\<close> visits the entries of the list of the set, whatever the callback does to the set.\<close>

theorem set_foreach_refines_spec:
  assumes "pow2_ok env" "list_all (set_op_ok st) ops"
    and "\<forall>hist v key. length (fst (script hist v key)) \<le> L \<and> list_all (set_op_ok st) (fst (script hist v key))"
    and "length ops + fuel * L \<le> element_limit"
    and "run_ops (set_step env) ops empty_realm = Some (outs, r)"
    and "run_ops (\<lambda>op sp. Some (list_step set_class (set_as_collection op) sp)) ops empty_spec = Some (outs, sp)"
  shows "\<exists>res hist r' sp'.
    BuiltinsSet_ForEach (scripted (set_step env) script) fuel self callable ([], r) = Some (res, hist, r') \<and>
    spec_foreach set_class (scripted (\<lambda>op sp. Some (list_step set_class (set_as_collection op) sp)) script) fuel self callable ([], sp) =
      Some (res, hist, sp') \<and>
    realm_rel env set_class st {} r' sp'"
proof -
  let ?spec = "\<lambda>op sp. Some (list_step set_class (set_as_collection op) sp)"
  have len: "length ops \<le> element_limit" using assms(4) by simp
  have rel: "realm_rel env set_class st {} r sp"
    using set_sim.run_total [OF empty_realm_rel [OF assms(1)] assms(2) _ assms(6)] len assms(5) by auto
  have "spec_size sp \<le> length ops" using set_sim.run_size [OF _ assms(6)] len by simp
  then have lim: "spec_size sp + fuel * L \<le> element_limit" using assms(4) by simp
  have "rel_option (rel_prod (=) (rel_prod (=) (realm_rel env set_class st {})))
      (foreach set_class (scripted (set_step env) script) fuel self callable ([], r))
      (spec_foreach set_class (scripted ?spec script) fuel self callable ([], sp))"
    by (rule set_foreach.foreach_refines [where L = L]) (use assms(3) rel lim in auto)
  then show ?thesis
    using spec_foreach_total [of ?spec set_class script fuel self callable "([], sp)"]
    unfolding BuiltinsSet_ForEach_def by (auto simp: option_rel_Some2 rel_prod_sel)
qed

theorem set_foreach_refines_spec_witness:
  "\<exists>r r' outs. run_ops (set_step example_env) [Create_set, Add_value (VObject 0) (VInt 1)] empty_realm = Some (outs, r) \<and>
     BuiltinsSet_ForEach (scripted (set_step example_env) (\<lambda>hist v key. ([Clear_set (VObject 0), Add_value (VObject 0) (VInt 1)], None)))
       2 (VObject 0) True ([], r) =
       Some (More_calls, [(VInt 1, VInt 1, [Value VUndefined, Value (VObject 0)]), (VInt 1, VInt 1, [Value VUndefined, Value (VObject 0)])], r')"
proof -
  let ?ops = "[Create_set, Add_value (VObject 0) (VInt 1)]"
  let ?spec = "\<lambda>op sp. Some (list_step set_class (set_as_collection op) sp)"
  let ?script = "\<lambda>hist v key. ([Clear_set (VObject 0), Add_value (VObject 0) (VInt 1)], None)"
  let ?call = "(VInt 1, VInt 1, [Value VUndefined, Value (VObject 0)])"
  have ok: "list_all (set_op_ok no_strings) ?ops" by (simp add: set_op_ok_def layouts)
  obtain outs sp where s: "run_ops ?spec ?ops empty_spec = Some (outs, sp)" by (simp add: spec_eval)
  have "length ?ops \<le> element_limit" by (simp add: element_limit_def)
  then obtain r where r: "run_ops (set_step example_env) ?ops empty_realm = Some (outs, r)"
    using set_sim.run_total [OF empty_realm_rel [OF example_env_ok] ok _ s] by auto
  have script: "\<forall>hist v key. length (fst (?script hist v key)) \<le> 2 \<and> list_all (set_op_ok no_strings) (fst (?script hist v key))"
    by (simp add: set_op_ok_def layouts)
  have lim: "length ?ops + 2 * 2 \<le> element_limit" by (simp add: element_limit_def)
  have "\<exists>sp'. spec_foreach set_class (scripted ?spec ?script) 2 (VObject 0) True ([], sp) = Some (More_calls, [?call, ?call], sp')"
    using s unfolding numeral_2_eq_2 by (auto simp: spec_eval spec_foreach_def scripted_def)
  then show ?thesis
    using set_foreach_refines_spec [OF example_env_ok ok script lim r s, of "VObject 0" True] r by fastforce
qed

section \<open>Representation\<close>

text \<open>C34. The table behind a \<open>Map\<close> is always well formed.  After at most \<open>element_limit\<close> calls whose keys are no NaN with another bit pattern than the
  one of the runtime (two such NaNs could be two keys), strings of a heap with the invariant of the string table, canonical
  BigInts or any other values, the array of every map is a header, one slot per
  bucket and the entries, the capacity is a power of two, the numbers of live and removed entries are those
  of the entries in use, which fit into the table, every bucket is a finite chain of entries that holds all
  live entries whose key hashes to it, no two live keys are the same value, and the table was not replaced.\<close>

theorem map_tables_well_formed:
  assumes "pow2_ok env" "list_all (op_ok st LinkedHashMapObject) ops" "length ops \<le> element_limit"
    and "run_ops (map_step env) ops empty_realm = Some (outs, r)" "collections r m = Some a"
  shows "\<exists>v. tables (table_store r) a = encode v \<and> hash_inv env LinkedHashMapObject st v \<and> hv_next v = VHole"
proof -
  have "run_ops (\<lambda>op sp. Some (list_step map_class op sp)) ops empty_spec \<noteq> None" by (rule run_ops_total) simp
  then obtain sp where "realm_rel env map_class st {} r sp"
    using map_sim.run_total [OF empty_realm_rel [OF assms(1)] assms(2)] assms(3,4) by fastforce
  then show ?thesis
    using assms(5) by (auto elim!: realm_relE tables_rel_at simp: current_def class_layouts)
qed

theorem map_tables_well_formed_witness:
  "\<exists>outs r a v. run_ops (map_step example_env) map_example empty_realm = Some (outs, r) \<and> collections r 0 = Some a \<and>
     tables (table_store r) a = encode v \<and> hash_inv example_env LinkedHashMapObject no_strings v"
proof -
  have ok: "list_all (op_ok no_strings LinkedHashMapObject) map_example" "length map_example \<le> element_limit"
    by (simp_all add: map_example_def layouts element_limit_def)
  obtain sp where sp: "run_ops (\<lambda>op sp. Some (list_step map_class op sp)) map_example empty_spec = Some (map_example_results, sp)"
      "spec_collections sp 0 \<noteq> None"
    by (simp add: map_example_def map_example_results_def spec_eval)
  obtain r where r: "run_ops (map_step example_env) map_example empty_realm = Some (map_example_results, r)"
      "realm_rel example_env map_class no_strings {} r sp"
    using map_sim.run_total [OF empty_realm_rel [OF example_env_ok] ok(1) _ sp(1)] ok(2) by auto
  obtain a where "collections r 0 = Some a" using r(2) sp(2) by (auto elim!: realm_relE dest: tables_rel_None [of _ _ _ _ _ _ 0])
  then show ?thesis using map_tables_well_formed [OF example_env_ok ok r(1)] r(1) by blast
qed

text \<open>
  \<open>Map.prototype.set\<close> and \<open>Set.prototype.add\<close> should store \<open>0\<close> for the key \<open>-0\<close>.  The code stores the key as it is,
  and adding \<open>-0\<close> to a set that holds \<open>0\<close> even replaces it; the specification stores \<open>0\<close>.
\<close>

definition NEGATIVE_ZERO :: u64 where
  "NEGATIVE_ZERO = push_bit 63 1"

theorem negative_zero_key:
  "\<exists>r. run_ops (set_step example_env) [Create_set, Add_value (VObject 0) (VInt 0), Add_value (VObject 0) (VDouble NEGATIVE_ZERO),
       Create_set_iterator (VObject 0) VALUE, Next_value (VObject 1)] empty_realm =
     Some ([Value (VObject 0), Value (VObject 0), Value (VObject 0), Value (VObject 1),
       IterResult (Item (VDouble NEGATIVE_ZERO)) False], r)"
  "\<exists>sp. run_ops (\<lambda>op sp. Some (ecma_step set_class (set_as_collection op) sp)) [Create_set, Add_value (VObject 0) (VDouble NEGATIVE_ZERO),
       Create_set_iterator (VObject 0) VALUE, Next_value (VObject 1)] empty_spec =
     Some ([Value (VObject 0), Value (VObject 0), Value (VObject 1), IterResult (Item (VInt 0)) False], sp)"
proof -
  let ?ops = "[Create_set, Add_value (VObject 0) (VInt 0), Add_value (VObject 0) (VDouble NEGATIVE_ZERO),
       Create_set_iterator (VObject 0) VALUE, Next_value (VObject 1)]"
  have z: "dzero NEGATIVE_ZERO" "\<not> isnan NEGATIVE_ZERO" by code_simp+
  then have key: "VDouble NEGATIVE_ZERO \<in> valid_keys no_strings" using no_strings_inv by (simp add: valid_keys_def)
  have same: "JSTaggedValue_SameValueZero (VDouble NEGATIVE_ZERO) (VInt 0)"
  proof -
    have "dzero (int_to_double 0)" "\<not> isnan (int_to_double 0)"
      using int_to_double_exact [of 0] finite_not_nan dzero_scaled by simp_all
    then show ?thesis using z by (simp add: JSTaggedValue_SameValueZero_def double_eq_def Let_def)
  qed
  have ok: "list_all (set_op_ok no_strings) ?ops" "length ?ops \<le> element_limit"
    using key by (simp_all add: set_op_ok_def layouts element_limit_def)
  have "\<exists>sp. run_ops (\<lambda>op sp. Some (list_step set_class (set_as_collection op) sp)) ?ops empty_spec =
      Some ([Value (VObject 0), Value (VObject 0), Value (VObject 0), Value (VObject 1),
        IterResult (Item (VDouble NEGATIVE_ZERO)) False], sp)"
    using same by (simp add: spec_eval)
  then show "\<exists>r. run_ops (set_step example_env) ?ops empty_realm =
     Some ([Value (VObject 0), Value (VObject 0), Value (VObject 0), Value (VObject 1), IterResult (Item (VDouble NEGATIVE_ZERO)) False], r)"
    using set_sim.run_total [OF empty_realm_rel [OF example_env_ok] ok(1)] ok(2) by fastforce
  have "dneg NEGATIVE_ZERO" by code_simp
  then show "\<exists>sp. run_ops (\<lambda>op sp. Some (ecma_step set_class (set_as_collection op) sp)) [Create_set, Add_value (VObject 0) (VDouble NEGATIVE_ZERO),
       Create_set_iterator (VObject 0) VALUE, Next_value (VObject 1)] empty_spec =
     Some ([Value (VObject 0), Value (VObject 0), Value (VObject 1), IterResult (Item (VInt 0)) False], sp)"
    using z(1) by (simp add: spec_eval ecma_insert_def normalize_zero_def)
qed

end
