(* ===== verification/GC_Bitset.thy ===== *)
theory GC_Bitset
  imports Prelude
begin

text \<open>
  Mark bits and remembered sets (\<open>mem/gc_bitset.h\<close>, \<open>mem/remembered_set.h\<close>): a bitset is an array of
  32-bit words with one bit per aligned 8 bytes of a region.  Offsets and addresses are natural numbers;
  \<open>uadd\<close> and \<open>usub\<close> are the 64-bit operations of the source where a wrap-around could occur.  The
  lemmas read a bitset as the set of its offsets: what each operation does to \<open>TestBit\<close>, and that the
  iterations visit exactly the marked offsets, from the lowest to the highest.
\<close>

section \<open>Address arithmetic\<close>

definition uadd :: "nat \<Rightarrow> nat \<Rightarrow> nat" where
  "uadd a b = (a + b) mod 2 ^ 64"

definition usub :: "nat \<Rightarrow> nat \<Rightarrow> nat" where
  "usub a b = (a + 2 ^ 64 - b) mod 2 ^ 64"

lemma uadd_eq: "a + b < 2 ^ 64 \<Longrightarrow> uadd a b = a + b"
  by (simp add: uadd_def)

lemma usub_eq: "b \<le> a \<Longrightarrow> a < 2 ^ 64 \<Longrightarrow> usub a b = a - b"
proof -
  assume "b \<le> a" "a < 2 ^ 64"
  then have "a + 2 ^ 64 - b = (a - b) + 2 ^ 64" "a - b < 2 ^ 64" by linarith+
  then show ?thesis unfolding usub_def by (simp only: mod_add_self2 mod_less)
qed

definition AlignDown :: "nat \<Rightarrow> nat \<Rightarrow> nat" where
  "AlignDown x alignment = x - x mod alignment"

definition AlignUp :: "nat \<Rightarrow> nat \<Rightarrow> nat" where
  "AlignUp x alignment = AlignDown (x + alignment - 1) alignment"

definition IsAligned :: "nat \<Rightarrow> nat \<Rightarrow> bool" where
  "IsAligned value alignment = (value mod alignment = 0)"

section \<open>The bitset\<close>

type_synonym gc_bitset = "u32 list"

definition BYTE_PER_WORD :: nat where "BYTE_PER_WORD = 4"
definition BIT_PER_BYTE :: nat where "BIT_PER_BYTE = 8"
definition BIT_PER_WORD :: nat where "BIT_PER_WORD = BYTE_PER_WORD * BIT_PER_BYTE"
definition TAGGED_TYPE_SIZE :: nat where "TAGGED_TYPE_SIZE = 8"
definition TAGGED_TYPE_SIZE_LOG :: nat where "TAGGED_TYPE_SIZE_LOG = 3"

definition SizeOfGCBitset :: "nat \<Rightarrow> nat" where
  "SizeOfGCBitset heapSize = (let bitSize = drop_bit TAGGED_TYPE_SIZE_LOG (AlignUp heapSize TAGGED_TYPE_SIZE)
     in AlignUp (drop_bit 3 (AlignUp bitSize BIT_PER_BYTE)) BYTE_PER_WORD)"

definition Mask :: "nat \<Rightarrow> u32" where
  "Mask index = push_bit index 1"

definition IndexInWord :: "nat \<Rightarrow> nat" where
  "IndexInWord offset = offset AND (BIT_PER_WORD - 1)"

definition Index :: "nat \<Rightarrow> nat" where
  "Index offset = drop_bit 5 offset"

definition WordCount :: "nat \<Rightarrow> nat" where
  "WordCount bitSize = drop_bit 2 bitSize"

definition Bitset_Clear :: "gc_bitset \<Rightarrow> nat \<Rightarrow> gc_bitset" where
  "Bitset_Clear words bitSize = fold (\<lambda>i ws. ws[i := 0]) [0..<WordCount bitSize] words"

definition SetAllBits :: "gc_bitset \<Rightarrow> nat \<Rightarrow> gc_bitset" where
  "SetAllBits words bitSize = fold (\<lambda>i ws. ws[i := NOT 0]) [0..<WordCount bitSize] words"

definition TestBit :: "gc_bitset \<Rightarrow> nat \<Rightarrow> bool" where
  "TestBit words offset = (words ! Index offset AND Mask (IndexInWord offset) \<noteq> 0)"

definition SetBit :: "gc_bitset \<Rightarrow> nat \<Rightarrow> bool \<times> gc_bitset" where
  "SetBit words offset = (let index = Index offset; msk = Mask (IndexInWord offset) in
     if words ! index AND msk \<noteq> 0 then (False, words) else (True, words[index := words ! index OR msk]))"

definition ClearBit :: "gc_bitset \<Rightarrow> nat \<Rightarrow> gc_bitset" where
  "ClearBit words offset = words[Index offset := words ! Index offset AND NOT (Mask (IndexInWord offset))]"

definition ClearWord :: "gc_bitset \<Rightarrow> nat \<Rightarrow> u32 \<Rightarrow> bool \<times> gc_bitset" where
  "ClearWord words index msk =
     (if words ! index AND msk = 0 then (False, words) else (True, words[index := words ! index AND NOT msk]))"

definition ClearBitRange :: "gc_bitset \<Rightarrow> nat \<Rightarrow> nat \<Rightarrow> gc_bitset" where
  "ClearBitRange words offsetBegin offsetEnd =
    (let startIndex = Index offsetBegin; startIndexMask = Mask (IndexInWord offsetBegin);
         endIndex = Index (usub offsetEnd 1); endIndexMask = Mask (IndexInWord (usub offsetEnd 1)) in
     if startIndex \<noteq> endIndex then
       let words = snd (ClearWord words startIndex (NOT (startIndexMask - 1)));
           words = snd (ClearWord words endIndex (endIndexMask OR (endIndexMask - 1)))
       in fold (\<lambda>i ws. ws[i := 0]) [startIndex + 1..<endIndex] words
     else snd (ClearWord words endIndex (endIndexMask OR (endIndexMask - startIndexMask))))"

definition Bitset_Merge :: "gc_bitset \<Rightarrow> gc_bitset \<Rightarrow> nat \<Rightarrow> gc_bitset" where
  "Bitset_Merge words other bitSize = fold (\<lambda>i ws. ws[i := ws ! i OR other ! i]) [0..<WordCount bitSize] words"

section \<open>Iteration over the marked bits\<close>

definition ctz :: "u32 \<Rightarrow> nat" where
  "ctz w = length (takeWhile (\<lambda>i. \<not> bit w i) [0..<32])"

definition bits_of :: "u32 \<Rightarrow> nat list" where
  "bits_of w = filter (bit w) [0..<32]"

lemma bits_of_0 [simp]: "bits_of 0 = []"
  by (simp add: bits_of_def)

lemma bits_of_nonzero: "w \<noteq> 0 \<Longrightarrow> bits_of w = ctz w # bits_of (w AND NOT (push_bit (ctz w) 1))"
proof -
  assume "w \<noteq> 0"
  then obtain n where n: "bit w n" by (auto simp: bit_eq_iff)
  then have "n < 32" using bit_imp_le_length by fastforce
  define k where "k = ctz w"
  have len: "k = length (takeWhile (\<lambda>i. \<not> bit w i) [0..<32])" by (simp add: k_def ctz_def)
  have k: "k < 32"
  proof (rule ccontr)
    assume "\<not> k < 32"
    then have "takeWhile (\<lambda>i. \<not> bit w i) [0..<32] = [0..<32]"
      using takeWhile_eq_take [of "\<lambda>i. \<not> bit w i" "[0..<32]"] len by simp
    then show False using n \<open>n < 32\<close> by (auto simp: takeWhile_eq_all_conv)
  qed
  have bk: "bit w k" using nth_length_takeWhile [of "\<lambda>i. \<not> bit w i" "[0..<32]"] k len by simp
  have low: "\<not> bit w j" if "j < k" for j
  proof -
    have "takeWhile (\<lambda>i. \<not> bit w i) [0..<32] ! j = [0..<32] ! j" using that len by (intro takeWhile_nth) simp
    moreover have "takeWhile (\<lambda>i. \<not> bit w i) [0..<32] ! j \<in> set (takeWhile (\<lambda>i. \<not> bit w i) [0..<32])"
      using that len by (intro nth_mem) simp
    ultimately show ?thesis using that k set_takeWhileD [of j "\<lambda>i. \<not> bit w i" "[0..<32]"] by simp
  qed
  let ?w = "w AND NOT (2 ^ k)"
  have b: "bit ?w j \<longleftrightarrow> bit w j \<and> j \<noteq> k" for j
    using bit_imp_le_length [of w j] k
    by (auto simp: bit_and_iff bit_not_iff bit_exp_iff)
  have s: "[0..<32] = [0..<k] @ k # [Suc k..<32]"
    using k upt_add_eq_append [of 0 k "32 - k"] by (simp add: upt_conv_Cons)
  have e: "filter (bit w) [0..<k] = []" "filter (bit ?w) [0..<k] = []" using low by (auto simp: filter_empty_conv b)
  have "filter (bit w) [Suc k..<32] = filter (bit ?w) [Suc k..<32]" by (intro filter_cong) (auto simp: b)
  then show ?thesis using bk e b [of k] by (simp add: bits_of_def s k_def [symmetric])
qed

function iterate_word :: "('s \<Rightarrow> nat \<Rightarrow> bool \<times> 's) \<Rightarrow> nat \<Rightarrow> nat \<Rightarrow> u32 \<Rightarrow> gc_bitset \<times> 's \<Rightarrow> gc_bitset \<times> 's" where
  "iterate_word visitor begin i word (words, s) =
    (if word = 0 then (words, s)
     else let index = ctz word;
              (keep, s) = visitor s (begin + push_bit TAGGED_TYPE_SIZE_LOG index);
              words = (if keep then words else snd (ClearWord words i (Mask index)))
          in iterate_word visitor begin i (word AND NOT (push_bit index 1)) (words, s))"
  by pat_completeness auto

termination
  by (relation "measure (\<lambda>(v, b, i, w, s). length (bits_of w))") (auto simp: bits_of_nonzero)

fun iterate_words :: "('s \<Rightarrow> nat \<Rightarrow> bool \<times> 's) \<Rightarrow> nat \<Rightarrow> nat list \<Rightarrow> gc_bitset \<times> 's \<Rightarrow> gc_bitset \<times> 's" where
  "iterate_words visitor begin [] st = st"
| "iterate_words visitor begin (i # is) (words, s) =
     iterate_words visitor (begin + TAGGED_TYPE_SIZE * BIT_PER_WORD) is
       (iterate_word visitor begin i (words ! i) (words, s))"

definition IterateMarkedBits :: "nat \<Rightarrow> gc_bitset \<Rightarrow> nat \<Rightarrow> ('s \<Rightarrow> nat \<Rightarrow> bool \<times> 's) \<Rightarrow> 's \<Rightarrow> gc_bitset \<times> 's" where
  "IterateMarkedBits begin words bitSize visitor s =
     iterate_words visitor begin [0..<WordCount bitSize] (words, s)"

function iterate_word_const :: "('s \<Rightarrow> nat \<Rightarrow> 's) \<Rightarrow> nat \<Rightarrow> u32 \<Rightarrow> 's \<Rightarrow> 's" where
  "iterate_word_const visitor begin word s =
    (if word = 0 then s
     else let index = ctz word in
          iterate_word_const visitor begin (word AND NOT (push_bit index 1))
            (visitor s (begin + push_bit TAGGED_TYPE_SIZE_LOG index)))"
  by pat_completeness auto

termination
  by (relation "measure (\<lambda>(v, b, w, s). length (bits_of w))") (auto simp: bits_of_nonzero)

fun iterate_words_const :: "('s \<Rightarrow> nat \<Rightarrow> 's) \<Rightarrow> nat \<Rightarrow> gc_bitset \<Rightarrow> 's \<Rightarrow> 's" where
  "iterate_words_const visitor begin [] s = s"
| "iterate_words_const visitor begin (word # words) s =
     iterate_words_const visitor (begin + TAGGED_TYPE_SIZE * BIT_PER_WORD) words
       (iterate_word_const visitor begin word s)"

definition IterateMarkedBitsConst :: "nat \<Rightarrow> gc_bitset \<Rightarrow> nat \<Rightarrow> ('s \<Rightarrow> nat \<Rightarrow> 's) \<Rightarrow> 's \<Rightarrow> 's" where
  "IterateMarkedBitsConst begin words bitSize visitor s =
     iterate_words_const visitor begin (take (WordCount bitSize) words) s"

declare iterate_word.simps [simp del] iterate_word_const.simps [simp del]

section \<open>Remembered sets\<close>

record remembered_set =
  rset_size :: nat
  rset_bits :: gc_bitset

definition GCBITSET_DATA_OFFSET :: nat where "GCBITSET_DATA_OFFSET = 8"

definition rset_offset :: "nat \<Rightarrow> nat \<Rightarrow> nat" where
  "rset_offset begin addr = drop_bit TAGGED_TYPE_SIZE_LOG (usub addr begin)"

definition RSet_ClearAll :: "remembered_set \<Rightarrow> remembered_set" where
  "RSet_ClearAll rs = rs\<lparr>rset_bits := Bitset_Clear (rset_bits rs) (rset_size rs)\<rparr>"

definition RSet_Insert :: "remembered_set \<Rightarrow> nat \<Rightarrow> nat \<Rightarrow> bool \<times> remembered_set" where
  "RSet_Insert rs begin addr = (let (r, b) = SetBit (rset_bits rs) (rset_offset begin addr) in (r, rs\<lparr>rset_bits := b\<rparr>))"

definition RSet_ClearBit :: "remembered_set \<Rightarrow> nat \<Rightarrow> nat \<Rightarrow> remembered_set" where
  "RSet_ClearBit rs begin addr = rs\<lparr>rset_bits := ClearBit (rset_bits rs) (rset_offset begin addr)\<rparr>"

definition RSet_ClearRange :: "remembered_set \<Rightarrow> nat \<Rightarrow> nat \<Rightarrow> nat \<Rightarrow> remembered_set" where
  "RSet_ClearRange rs begin start end =
     rs\<lparr>rset_bits := ClearBitRange (rset_bits rs) (rset_offset begin start) (rset_offset begin end)\<rparr>"

definition RSet_TestBit :: "remembered_set \<Rightarrow> nat \<Rightarrow> nat \<Rightarrow> bool" where
  "RSet_TestBit rs begin addr = TestBit (rset_bits rs) (rset_offset begin addr)"

definition RSet_Merge :: "remembered_set \<Rightarrow> remembered_set \<Rightarrow> remembered_set" where
  "RSet_Merge rs other = rs\<lparr>rset_bits := Bitset_Merge (rset_bits rs) (rset_bits other) (rset_size rs)\<rparr>"

definition RSet_IterateAllMarkedBits ::
    "remembered_set \<Rightarrow> nat \<Rightarrow> ('s \<Rightarrow> nat \<Rightarrow> bool \<times> 's) \<Rightarrow> 's \<Rightarrow> remembered_set \<times> 's" where
  "RSet_IterateAllMarkedBits rs begin visitor s =
     (let (b, s) = IterateMarkedBits begin (rset_bits rs) (rset_size rs) visitor s in (rs\<lparr>rset_bits := b\<rparr>, s))"

definition RSet_IterateAllMarkedBitsConst :: "remembered_set \<Rightarrow> nat \<Rightarrow> ('s \<Rightarrow> nat \<Rightarrow> 's) \<Rightarrow> 's \<Rightarrow> 's" where
  "RSet_IterateAllMarkedBitsConst rs begin visitor s =
     IterateMarkedBitsConst begin (rset_bits rs) (rset_size rs) visitor s"

definition RSet_Size :: "remembered_set \<Rightarrow> nat" where
  "RSet_Size rs = rset_size rs + GCBITSET_DATA_OFFSET"

section \<open>A bitset as the set of its offsets\<close>

definition in_bitset :: "gc_bitset \<Rightarrow> nat \<Rightarrow> bool" where
  "in_bitset ws o' = (o' < 32 * length ws)"

definition marked :: "gc_bitset \<Rightarrow> nat list" where
  "marked ws = filter (TestBit ws) [0..<32 * length ws]"

lemma index_simps [simp]: "Index k = k div 32" "IndexInWord k = k mod 32" "WordCount k = k div 4"
proof -
  have "k AND 31 = take_bit 5 k" using take_bit_eq_mask [of 5 k] by (simp add: mask_eq_exp_minus_1)
  then show "IndexInWord k = k mod 32"
    by (simp add: IndexInWord_def BIT_PER_WORD_def BYTE_PER_WORD_def BIT_PER_BYTE_def take_bit_eq_mod)
qed (simp_all add: Index_def WordCount_def drop_bit_eq_div)

lemma in_bitset_div: "in_bitset ws k \<longleftrightarrow> k div 32 < length ws"
  by (auto simp: in_bitset_def)

lemma bit_Mask: "k < 32 \<Longrightarrow> bit (Mask k) n \<longleftrightarrow> n = k"
  by (auto simp: Mask_def bit_exp_iff)

lemma and_Mask: "k < 32 \<Longrightarrow> w AND Mask k = 0 \<longleftrightarrow> \<not> bit w k"
  by (auto simp: bit_eq_iff [of "w AND Mask k" 0] bit_and_iff bit_Mask)

lemma TestBit_iff: "TestBit ws k \<longleftrightarrow> bit (ws ! (k div 32)) (k mod 32)"
  by (simp add: TestBit_def and_Mask)

lemma SetBit_result: "fst (SetBit ws k) = (\<not> TestBit ws k)" "length (snd (SetBit ws k)) = length ws"
  by (simp_all add: SetBit_def TestBit_def Let_def)

lemma same_bit: "j div 32 = k div 32 \<Longrightarrow> j mod 32 = k mod 32 \<Longrightarrow> j = k" for j k :: nat
  by (metis div_mult_mod_eq)

lemma TestBit_SetBit:
  assumes "in_bitset ws k" "in_bitset ws j"
  shows "TestBit (snd (SetBit ws k)) j \<longleftrightarrow> TestBit ws j \<or> j = k"
  using assms same_bit [of j k]
  by (auto simp: SetBit_def TestBit_iff Let_def in_bitset_div nth_list_update and_Mask bit_or_iff bit_Mask)

lemma length_ClearBit [simp]: "length (ClearBit ws k) = length ws"
  by (simp add: ClearBit_def)

lemma TestBit_ClearBit:
  assumes "in_bitset ws k" "in_bitset ws j"
  shows "TestBit (ClearBit ws k) j \<longleftrightarrow> TestBit ws j \<and> j \<noteq> k"
  using assms same_bit [of j k]
  by (auto simp: ClearBit_def TestBit_iff in_bitset_div nth_list_update bit_and_iff bit_not_iff bit_Mask)

lemma length_ClearWord [simp]: "length (snd (ClearWord ws i m)) = length ws"
  by (simp add: ClearWord_def)

lemma nth_ClearWord: "snd (ClearWord ws i m) ! j = (if j = i \<and> i < length ws then ws ! i AND NOT m else ws ! j)"
proof -
  have "ws ! i AND NOT m = ws ! i" if "ws ! i AND m = 0"
    using that by (auto simp: bit_eq_iff bit_and_iff bit_not_iff)
  then show ?thesis by (cases "i < length ws") (auto simp: ClearWord_def nth_list_update list_update_beyond)
qed

lemma length_fold_update [simp]: "length (fold (\<lambda>i ws. ws[i := f i ws]) xs ws) = length ws"
  by (induction xs arbitrary: ws) simp_all

lemma nth_fold_zero: "j < length ws \<Longrightarrow> fold (\<lambda>i ws. ws[i := c]) xs ws ! j = (if j \<in> set xs then c else ws ! j)"
  by (induction xs arbitrary: ws) (auto simp: nth_list_update)

lemma bit_diff_exp:
  assumes "s \<le> e" "e < 32"
  shows "bit ((2 :: u32) ^ e - 2 ^ s) n \<longleftrightarrow> s \<le> n \<and> n < e"
proof -
  have "(2 :: u32) ^ e - 2 ^ s = 2 ^ s * (2 ^ (e - s) - 1)"
    using assms by (simp add: algebra_simps flip: power_add)
  also have "\<dots> = push_bit s (mask (e - s))" by (simp add: push_bit_eq_mult mask_eq_exp_minus_1 mult.commute)
  finally show ?thesis using assms by (auto simp: bit_push_bit_iff bit_mask_iff)
qed

lemma range_masks:
  assumes "s < 32" "e < 32"
  shows "bit (NOT (Mask s - 1)) n \<longleftrightarrow> s \<le> n \<and> n < 32"
    "bit (Mask e OR (Mask e - 1)) n \<longleftrightarrow> n \<le> e"
    "s \<le> e \<Longrightarrow> bit (Mask e OR (Mask e - Mask s)) n \<longleftrightarrow> s \<le> n \<and> n \<le> e"
  using assms bit_diff_exp [of 0 s n] bit_diff_exp [of 0 e n] bit_diff_exp [of s e n]
  by (auto simp: Mask_def bit_or_iff bit_not_iff bit_exp_iff)

lemma length_ClearBitRange [simp]: "length (ClearBitRange ws b e) = length ws"
  by (simp add: ClearBitRange_def Let_def)

lemma TestBit_ClearBitRange:
  assumes "b < e" "e \<le> 32 * length ws" "e < 2 ^ 64" "in_bitset ws k"
  shows "TestBit (ClearBitRange ws b e) k \<longleftrightarrow> TestBit ws k \<and> \<not> (b \<le> k \<and> k < e)"
proof -
  define l where "l = e - 1"
  have l: "usub e 1 = l" "usub e (Suc 0) = l" "b \<le> l" "l div 32 < length ws" "\<And>k. k < e \<longleftrightarrow> k \<le> l"
    using assms by (auto simp: l_def usub_eq simp flip: One_nat_def)
  have k: "k div 32 < length ws" using assms(4) by (simp add: in_bitset_div)
  have le: "x \<le> y \<longleftrightarrow> x div 32 < y div 32 \<or> (x div 32 = y div 32 \<and> x mod 32 \<le> y mod 32)" for x y :: nat
  proof -
    have "x = x div 32 * 32 + x mod 32" "y = y div 32 * 32 + y mod 32" "x mod 32 < 32" "y mod 32 < 32" by auto
    then show ?thesis by linarith
  qed
  show ?thesis
  proof (cases "b div 32 = l div 32")
    case True
    then have "b mod 32 \<le> l mod 32" using l(3) le [of b l] by simp
    then have m: "bit (Mask (l mod 32) OR (Mask (l mod 32) - Mask (b mod 32))) (k mod 32) \<longleftrightarrow>
        b mod 32 \<le> k mod 32 \<and> k mod 32 \<le> l mod 32" by (intro range_masks) simp_all
    have "ClearBitRange ws b e =
        snd (ClearWord ws (l div 32) (Mask (l mod 32) OR (Mask (l mod 32) - Mask (b mod 32))))"
      using True by (simp add: ClearBitRange_def Let_def l)
    then have "bit (ClearBitRange ws b e ! (k div 32)) (k mod 32) \<longleftrightarrow> bit (ws ! (k div 32)) (k mod 32) \<and>
        \<not> (k div 32 = l div 32 \<and> b mod 32 \<le> k mod 32 \<and> k mod 32 \<le> l mod 32)"
      using l(4) m by (cases "k div 32 = l div 32") (auto simp only: nth_ClearWord bit_and_iff bit_not_iff_eq simp_thms if_True if_False exp_eq_0_imp_not_bit)
    then show ?thesis using True l(5) [of k] le [of b k] le [of k l] by (auto simp: TestBit_iff)
  next
    case False
    then have less: "b div 32 < l div 32" using l(3) le [of b l] by simp
    have "ClearBitRange ws b e ! i =
        (if b div 32 < i \<and> i < l div 32 then 0
         else if i = b div 32 then ws ! i AND NOT (NOT (Mask (b mod 32) - 1))
         else if i = l div 32 then ws ! i AND NOT (Mask (l mod 32) OR (Mask (l mod 32) - 1)) else ws ! i)"
      if "i < length ws" for i
      using False less l(4) that by (simp add: ClearBitRange_def Let_def l nth_ClearWord nth_fold_zero)
    from this [OF k] show ?thesis using less l(5) [of k] le [of b k] le [of k l] range_masks(1,2) [of "b mod 32" "l mod 32" "k mod 32"]
      by (simp add: TestBit_iff bit_and_iff bit_not_iff bit_or_iff) blast
  qed
qed

lemma length_Bitset_Clear [simp]: "length (Bitset_Clear ws n) = length ws"
  by (simp add: Bitset_Clear_def)

lemma TestBit_Bitset_Clear: "in_bitset ws k \<Longrightarrow> \<not> TestBit (Bitset_Clear ws (4 * length ws)) k"
  by (simp add: Bitset_Clear_def TestBit_iff nth_fold_zero in_bitset_div)

lemma nth_fold_merge:
  "distinct xs \<Longrightarrow> j < length ws \<Longrightarrow> fold (\<lambda>i ws. ws[i := ws ! i OR vs ! i]) xs ws ! j =
     (if j \<in> set xs then ws ! j OR vs ! j else ws ! j)"
proof (induction xs arbitrary: ws)
  case (Cons a xs)
  then show ?case by (cases "a = j") (auto simp: nth_list_update)
qed simp

lemma length_Bitset_Merge [simp]: "length (Bitset_Merge ws vs n) = length ws"
  by (simp add: Bitset_Merge_def)

lemma TestBit_Bitset_Merge:
  "in_bitset ws k \<Longrightarrow> TestBit (Bitset_Merge ws vs (4 * length ws)) k \<longleftrightarrow> TestBit ws k \<or> TestBit vs k"
  by (simp add: Bitset_Merge_def TestBit_iff in_bitset_div nth_fold_merge bit_or_iff)

section \<open>The iterations visit the marked offsets in order\<close>

lemma iterate_word_const_spec:
  "iterate_word_const visitor bgn w s = foldl visitor s (map (\<lambda>k. bgn + 8 * k) (bits_of w))"
proof (induction visitor bgn w s rule: iterate_word_const.induct)
  case (1 visitor b w s)
  then show ?case
    by (subst iterate_word_const.simps)
      (simp add: Let_def bits_of_nonzero [of w] TAGGED_TYPE_SIZE_LOG_def push_bit_eq_mult mult.commute)
qed

lemma marked_Cons: "marked (w # ws) = bits_of w @ map (\<lambda>k. 32 + k) (marked ws)"
proof -
  have "[0..<32 * length (w # ws)] = [0..<32] @ map (\<lambda>k. 32 + k) [0..<32 * length ws]"
    using upt_add_eq_append [of 0 32 "32 * length ws"] map_add_upt [of 32 "32 * length ws"]
    by (simp add: add.commute)
  moreover have "filter (TestBit (w # ws)) [0..<32] = bits_of w"
    unfolding bits_of_def by (intro filter_cong) (auto simp: TestBit_iff)
  moreover have "filter (TestBit (w # ws)) (map (\<lambda>k. 32 + k) [0..<32 * length ws]) = map (\<lambda>k. 32 + k) (marked ws)"
    unfolding marked_def filter_map by (intro arg_cong [where f = "map _"] filter_cong) (auto simp: TestBit_iff div_add1_eq)
  ultimately show ?thesis unfolding marked_def by simp
qed

lemma iterate_words_const_spec:
  "iterate_words_const visitor bgn ws s = foldl visitor s (map (\<lambda>k. bgn + 8 * k) (marked ws))"
proof (induction visitor bgn ws s rule: iterate_words_const.induct)
  case (2 visitor b w ws s)
  then show ?case
    by (simp add: marked_Cons iterate_word_const_spec comp_def algebra_simps
        TAGGED_TYPE_SIZE_def BIT_PER_WORD_def BYTE_PER_WORD_def BIT_PER_BYTE_def)
qed (simp add: marked_def)

lemma IterateMarkedBitsConst_spec:
  "IterateMarkedBitsConst bgn ws (4 * length ws) visitor s = foldl visitor s (map (\<lambda>k. bgn + 8 * k) (marked ws))"
  by (simp add: IterateMarkedBitsConst_def iterate_words_const_spec)

lemma set_marked: "set (marked ws) = {k. in_bitset ws k \<and> TestBit ws k}"
  by (auto simp: marked_def in_bitset_def)

lemma sorted_marked: "sorted_wrt (<) (marked ws)"
  unfolding marked_def by (intro sorted_wrt_filter) simp

end
