(* ===== verification/Mark_Race.thy ===== *)
theory Mark_Race
  imports GC_Bitset
begin

text \<open>
  Marker threads racing on the mark bits (\<open>GCBitset::SetBit<AccessType::ATOMIC>\<close>).  A thread loads the
  word, tests its bit and tries to exchange the word, again and again until it succeeds or sees the bit.
  \<open>mark_thread_step\<close> is one atomic access of one thread; a run follows a schedule, the list of the
  threads that take the steps.  The invariant of the runs says whose exchange succeeded, and a
  potential that only its own steps decrease bounds how often a thread can be overtaken.
\<close>

datatype mark_pc =
    Load
  | Check u32
  | Exchange u32
  | Returned bool

definition compare_exchange :: "gc_bitset \<Rightarrow> nat \<Rightarrow> u32 \<Rightarrow> u32 \<Rightarrow> gc_bitset \<times> u32" where
  "compare_exchange words index expected desired =
     (if words ! index = expected then (words[index := desired], expected) else (words, words ! index))"

fun mark_thread_step :: "nat \<Rightarrow> gc_bitset \<Rightarrow> mark_pc \<Rightarrow> gc_bitset \<times> mark_pc" where
  "mark_thread_step offset words Load = (words, Check (words ! Index offset))"
| "mark_thread_step offset words (Check oldValue) =
     (if oldValue AND Mask (IndexInWord offset) \<noteq> 0 then (words, Returned False) else (words, Exchange oldValue))"
| "mark_thread_step offset words (Exchange oldValueBeforeCAS) =
     (let (words, oldValue) = compare_exchange words (Index offset) oldValueBeforeCAS
            (oldValueBeforeCAS OR Mask (IndexInWord offset))
      in if oldValue \<noteq> oldValueBeforeCAS then (words, Check oldValue) else (words, Returned True))"
| "mark_thread_step offset words (Returned r) = (words, Returned r)"

fun mark_run :: "nat list \<Rightarrow> nat list \<Rightarrow> gc_bitset \<times> mark_pc list \<Rightarrow> gc_bitset \<times> mark_pc list" where
  "mark_run offsets [] st = st"
| "mark_run offsets (t # sched) (words, pcs) =
     (let (words, pc) = mark_thread_step (offsets ! t) words (pcs ! t) in mark_run offsets sched (words, pcs[t := pc]))"

section \<open>Whose exchange succeeded\<close>

definition winner :: "nat list \<Rightarrow> mark_pc list \<Rightarrow> nat \<Rightarrow> nat \<Rightarrow> bool" where
  "winner offs pcs i k \<longleftrightarrow> i < length offs \<and> offs ! i = k \<and> pcs ! i = Returned True"

definition subword :: "u32 \<Rightarrow> u32 \<Rightarrow> bool" where
  "subword v w \<longleftrightarrow> (\<forall>n. bit v n \<longrightarrow> bit w n)"

definition thread_ok :: "gc_bitset \<Rightarrow> nat \<Rightarrow> mark_pc \<Rightarrow> bool" where
  "thread_ok ws k pc = (case pc of
       Load \<Rightarrow> True
     | Check v \<Rightarrow> subword v (ws ! (k div 32))
     | Exchange v \<Rightarrow> \<not> bit v (k mod 32) \<and> subword v (ws ! (k div 32))
     | Returned r \<Rightarrow> TestBit ws k)"

definition mark_inv :: "nat list \<Rightarrow> gc_bitset \<Rightarrow> gc_bitset \<Rightarrow> mark_pc list \<Rightarrow> bool" where
  "mark_inv offs ws0 ws pcs \<longleftrightarrow> length ws = length ws0 \<and> length pcs = length offs \<and>
     (\<forall>k. in_bitset ws0 k \<longrightarrow> TestBit ws k = (TestBit ws0 k \<or> (\<exists>i. winner offs pcs i k))) \<and>
     (\<forall>i < length offs. thread_ok ws (offs ! i) (pcs ! i)) \<and>
     (\<forall>i k. winner offs pcs i k \<longrightarrow> \<not> TestBit ws0 k \<and> (\<forall>j. winner offs pcs j k \<longrightarrow> j = i))"

lemma mark_inv_start: "mark_inv offs ws ws (replicate (length offs) Load)"
  by (auto simp: mark_inv_def winner_def thread_ok_def)

lemma subword_refl [simp]: "subword w w"
  by (simp add: subword_def)

lemma winner_update:
  assumes "t < length offs" "length pcs = length offs" "pcs ! t \<noteq> Returned True"
  shows "winner offs (pcs[t := pc]) i k \<longleftrightarrow> winner offs pcs i k \<or> (i = t \<and> pc = Returned True \<and> offs ! t = k)"
  using assms by (auto simp: winner_def nth_list_update)

lemma mark_inv_quiet:
  assumes "mark_inv offs ws0 ws pcs" "t < length offs" "pcs ! t \<noteq> Returned True" "pc \<noteq> Returned True"
    "thread_ok ws (offs ! t) pc"
  shows "mark_inv offs ws0 ws (pcs[t := pc])"
proof -
  have l: "length pcs = length offs" using assms(1) by (simp add: mark_inv_def)
  have w: "winner offs (pcs[t := pc]) i k \<longleftrightarrow> winner offs pcs i k" for i k
    using winner_update [OF assms(2) l assms(3)] assms(4) by simp
  show ?thesis using assms(1,2,5) by (auto simp: mark_inv_def w nth_list_update)
qed

lemma thread_ok_mono:
  assumes "thread_ok ws k pc" "subword (ws ! (k div 32)) (ws' ! (k div 32))"
  shows "thread_ok ws' k pc"
  using assms by (auto simp: thread_ok_def subword_def TestBit_iff split: mark_pc.splits)

lemma mark_inv_exchange:
  assumes inv: "mark_inv offs ws0 ws pcs" and t: "t < length offs" "in_bitset ws0 (offs ! t)"
    and pc: "pcs ! t = Exchange (ws ! (offs ! t div 32))"
  shows "mark_inv offs ws0 (ws[offs ! t div 32 := ws ! (offs ! t div 32) OR Mask (offs ! t mod 32)])
    (pcs[t := Returned True])"
proof -
  define k where "k = offs ! t"
  have len: "length ws = length ws0" "length pcs = length offs" using inv by (auto simp: mark_inv_def)
  have ok: "thread_ok ws k (pcs ! t)" using inv t(1) by (auto simp: mark_inv_def k_def)
  then have unset: "\<not> TestBit ws k" using pc by (auto simp: thread_ok_def TestBit_iff k_def)
  have eq: "ws[k div 32 := ws ! (k div 32) OR Mask (k mod 32)] = snd (SetBit ws k)"
    using unset by (simp add: SetBit_def TestBit_def Let_def)
  let ?ws = "snd (SetBit ws k)" and ?pcs = "pcs[t := Returned True]"
  have test: "TestBit ?ws j \<longleftrightarrow> TestBit ws j \<or> j = k" if "in_bitset ws0 j" for j
    using TestBit_SetBit [of ws k j] that t(2) len by (auto simp: in_bitset_def k_def)
  have w: "winner offs ?pcs i j \<longleftrightarrow> winner offs pcs i j \<or> (i = t \<and> k = j)" for i j
    using winner_update [OF t(1) len(2), of "Returned True"] pc by (simp add: k_def)
  have fresh: "\<not> winner offs pcs i k" "\<not> TestBit ws0 k" for i
    using inv t(2) unset by (auto simp: mark_inv_def k_def)
  have grow: "subword (ws ! n) (?ws ! n)" for n
    using t(2) len(1) by (cases "n = k div 32") (auto simp: subword_def SetBit_def Let_def bit_or_iff in_bitset_div k_def)
  have "thread_ok ?ws (offs ! i) (?pcs ! i)" if "i < length offs" for i
  proof (cases "i = t")
    case True
    then show ?thesis using t len test [of k] by (simp add: thread_ok_def k_def)
  next
    case False
    then show ?thesis using inv that grow thread_ok_mono [of ws "offs ! i" "pcs ! i" ?ws] by (auto simp: mark_inv_def)
  qed
  then show ?thesis unfolding k_def [symmetric] eq
    using inv test fresh len by (auto simp: mark_inv_def w SetBit_result)
qed

lemma mark_inv_step:
  assumes inv: "mark_inv offs ws0 ws pcs" and t: "t < length offs" "in_bitset ws0 (offs ! t)"
    and step: "mark_thread_step (offs ! t) ws (pcs ! t) = (ws', pc)"
  shows "mark_inv offs ws0 ws' (pcs[t := pc])"
proof (cases "pcs ! t")
  case Load
  then show ?thesis using step inv t by (auto intro!: mark_inv_quiet simp: thread_ok_def)
next
  case (Check v)
  then have "thread_ok ws (offs ! t) (Check v)" using inv t(1) by (auto simp: mark_inv_def)
  then show ?thesis using Check step inv t
    by (auto intro!: mark_inv_quiet simp: thread_ok_def and_Mask TestBit_iff subword_def split: if_splits)
next
  case (Exchange v)
  show ?thesis
  proof (cases "ws ! (offs ! t div 32) = v")
    case True
    then show ?thesis using Exchange step mark_inv_exchange [OF inv t] by (auto simp: compare_exchange_def)
  next
    case False
    then show ?thesis using Exchange step inv t
      by (auto intro!: mark_inv_quiet simp: compare_exchange_def thread_ok_def split: if_splits)
  qed
next
  case (Returned r)
  then have "pcs[t := pc] = pcs" "ws' = ws" using step by (auto intro: list_update_same_conv [THEN iffD2])
  then show ?thesis using inv by simp
qed

lemma mark_inv_run:
  assumes "mark_inv offs ws0 ws pcs" "\<forall>t \<in> set sched. t < length offs" "\<forall>k \<in> set offs. in_bitset ws0 k"
    "mark_run offs sched (ws, pcs) = (ws', pcs')"
  shows "mark_inv offs ws0 ws' pcs'"
  using assms
proof (induction sched arbitrary: ws pcs)
  case (Cons t sched)
  obtain ws1 pc where step: "mark_thread_step (offs ! t) ws (pcs ! t) = (ws1, pc)" by fastforce
  have "mark_inv offs ws0 ws1 (pcs[t := pc])" using mark_inv_step [OF Cons.prems(1) _ _ step] Cons.prems(2,3) by simp
  from Cons.IH [OF this] show ?case using Cons.prems step by simp
qed simp

section \<open>A thread needs a bounded number of its own steps\<close>

definition zeros :: "u32 \<Rightarrow> nat" where
  "zeros w = length (filter (\<lambda>n. \<not> bit w n) [0..<32])"

fun potential :: "mark_pc \<Rightarrow> nat" where
  "potential Load = 67"
| "potential (Check v) = 2 * zeros v + 2"
| "potential (Exchange v) = 2 * zeros v + 1"
| "potential (Returned r) = 0"

lemma zeros_le: "zeros w \<le> 32"
  using length_filter_le [of "\<lambda>n. \<not> bit w n" "[0..<32]"] by (simp add: zeros_def)

lemma zeros_less: "subword v w \<Longrightarrow> v \<noteq> w \<Longrightarrow> zeros w < zeros v"
proof -
  assume s: "subword v w" and ne: "v \<noteq> w"
  then obtain n where n: "bit w n" "\<not> bit v n" by (auto simp: subword_def bit_eq_iff)
  then have "n < 32" using bit_imp_le_length [of w n] by simp
  moreover have set: "zeros u = card {n. n < 32 \<and> \<not> bit u n}" for u
    by (simp add: zeros_def distinct_length_filter Int_def conj_commute)
  ultimately show ?thesis using s n unfolding set by (intro psubset_card_mono) (auto simp: subword_def)
qed

lemma potential_step:
  assumes "mark_inv offs ws0 ws pcs" "t < length offs" "mark_thread_step (offs ! t) ws (pcs ! t) = (ws', pc)"
  shows "potential pc \<le> potential (pcs ! t) - 1"
proof -
  have "thread_ok ws (offs ! t) (pcs ! t)" using assms(1,2) by (simp add: mark_inv_def)
  then show ?thesis using assms(3) zeros_le [of "ws ! (offs ! t div 32)"] zeros_less [of _ "ws ! (offs ! t div 32)"]
    by (cases "pcs ! t"; cases pc) (force simp: thread_ok_def compare_exchange_def split: if_splits)+
qed

lemma potential_run:
  assumes "mark_inv offs ws0 ws pcs" "\<forall>t \<in> set sched. t < length offs" "\<forall>k \<in> set offs. in_bitset ws0 k"
    "mark_run offs sched (ws, pcs) = (ws', pcs')" "t < length offs"
  shows "potential (pcs' ! t) \<le> potential (pcs ! t) - count_list sched t"
  using assms
proof (induction sched arbitrary: ws pcs)
  case (Cons u sched)
  obtain ws1 pc where step: "mark_thread_step (offs ! u) ws (pcs ! u) = (ws1, pc)" by fastforce
  have inv: "mark_inv offs ws0 ws1 (pcs[u := pc])"
    using mark_inv_step [OF Cons.prems(1) _ _ step] Cons.prems(2,3) by simp
  have len: "length pcs = length offs" using Cons.prems(1) by (simp add: mark_inv_def)
  have "potential (pcs' ! t) \<le> potential (pcs[u := pc] ! t) - count_list sched t"
    using Cons.IH [OF inv] Cons.prems step by simp
  then show ?case using potential_step [OF Cons.prems(1) _ step] Cons.prems(2,5) len
    by (cases "u = t") (auto simp: nth_list_update)
qed simp

lemma potential_0 [simp]: "potential pc = 0 \<longleftrightarrow> (\<exists>r. pc = Returned r)"
  by (cases pc) auto

section \<open>The property\<close>

text \<open>C10. Marking races are decided.  Any number of marker threads run \<open>SetBit<ATOMIC>\<close> on offsets of one
  bitset, in any interleaving of their loads and exchanges.  A thread that got 67 steps of its own has
  returned, whatever the others did.  Once all have returned, exactly the requested bits were added, no
  mark being lost, and for every offset that was requested and not marked before exactly one of its
  threads got \<open>true\<close>; nobody got it for an offset marked before.
\<close>

theorem atomic_marking_correct:
  assumes "\<forall>t \<in> set sched. t < length offsets" "\<forall>k \<in> set offsets. in_bitset words k"
    and "mark_run offsets sched (words, replicate (length offsets) Load) = (words', pcs)"
  shows "(\<forall>t < length offsets. 67 \<le> count_list sched t \<longrightarrow> (\<exists>r. pcs ! t = Returned r)) \<and>
    ((\<forall>t < length offsets. \<exists>r. pcs ! t = Returned r) \<longrightarrow>
      (\<forall>k. in_bitset words k \<longrightarrow> TestBit words' k = (TestBit words k \<or> k \<in> set offsets)) \<and>
      (\<forall>k \<in> set offsets. if TestBit words k then \<nexists>t. winner offsets pcs t k else \<exists>!t. winner offsets pcs t k))"
proof (intro conjI impI)
  have inv: "mark_inv offsets words words' pcs" by (rule mark_inv_run [OF mark_inv_start assms])
  show "\<forall>t < length offsets. 67 \<le> count_list sched t \<longrightarrow> (\<exists>r. pcs ! t = Returned r)"
    using potential_run [OF mark_inv_start assms] by fastforce
  assume all: "\<forall>t < length offsets. \<exists>r. pcs ! t = Returned r"
  have set: "TestBit words' k" if "k \<in> set offsets" for k
    using that all inv by (fastforce simp: mark_inv_def thread_ok_def in_set_conv_nth)
  have win: "k \<in> set offsets" if "winner offsets pcs t k" for t k
    using that by (auto simp: winner_def)
  have test: "TestBit words' k = (TestBit words k \<or> (\<exists>i. winner offsets pcs i k))" if "in_bitset words k" for k
    using inv that by (simp add: mark_inv_def)
  show "\<forall>k. in_bitset words k \<longrightarrow> TestBit words' k = (TestBit words k \<or> k \<in> set offsets)"
    using test set win by blast
  show "\<forall>k \<in> set offsets. if TestBit words k then \<nexists>t. winner offsets pcs t k else \<exists>!t. winner offsets pcs t k"
    using test set inv assms(2) by (auto simp: mark_inv_def)
qed

theorem atomic_marking_correct_witness:
  "mark_run [3, 3] [0, 1, 0, 1, 0, 1, 1] ([0], [Load, Load]) = ([8], [Returned True, Returned False]) \<and>
   TestBit [8] 3 \<and> (\<exists>!t. winner [3, 3] [Returned True, Returned False] t 3)"
proof -
  have run: "mark_run [3, 3] [0, 1, 0, 1, 0, 1, 1] ([0], [Load, Load]) = ([8], [Returned True, Returned False])"
    by code_simp
  have "\<exists>r. [Returned True, Returned False] ! t = Returned r" if "t < 2" for t
    using that by (auto simp: less_2_cases_iff)
  then show ?thesis
    using run atomic_marking_correct [of "[0, 1, 0, 1, 0, 1, 1]" "[3, 3]" "[0]" "[8]" "[Returned True, Returned False]"]
    by (auto simp: in_bitset_def numeral_2_eq_2 TestBit_iff)
qed

end
