(* ===== verification/Free_Objects.thy ===== *)
theory Free_Objects
  imports GC_Bitset "HOL-Library.Monad_Syntax"
begin

text \<open>
  The memory of a sparse space and its free blocks (\<open>free_object.h\<close>, \<open>mem/free_object_set\<close>,
  \<open>mem/free_object_list\<close> and the parts of \<open>mem/region.h\<close> they use).  Memory is a map from addresses to
  8-byte words.  A free block is written into the memory it stands for: its class word, the address of
  the next free block of its set and, when there is room, its size.  A region owns one set per size
  class, named by the address of the region and the number of the class; a free list chains the sets of
  many regions, one doubly linked list per class, with a bitmap of the classes that have one.

  Counters (\<open>size_t\<close>) are 64-bit words, addresses and sizes natural numbers.  Loops along links are
  \<open>partial_function (option)\<close>: \<open>None\<close> stands for a loop that does not end.
\<close>

section \<open>Constants\<close>

definition NEXT_OFFSET :: nat where "NEXT_OFFSET = 8"
definition SIZE_OFFSET :: nat where "SIZE_OFFSET = NEXT_OFFSET + 8"
definition FREE_OBJECT_SIZE :: nat where "FREE_OBJECT_SIZE = SIZE_OFFSET + 8"
definition INVALID_OBJECT :: nat where "INVALID_OBJECT = 5"
definition SIZE_TAG :: nat where "SIZE_TAG = 0xFFFF * 2 ^ 48"
definition DEFAULT_REGION_SIZE :: nat where "DEFAULT_REGION_SIZE = 2 ^ 18"
definition NUMBER_OF_SETS :: nat where "NUMBER_OF_SETS = 39"
definition MIN_SIZE :: nat where "MIN_SIZE = 16"
definition SMALL_SET_MAX_SIZE :: nat where "SMALL_SET_MAX_SIZE = 256"
definition LARGE_SET_MAX_SIZE :: nat where "LARGE_SET_MAX_SIZE = 65536"
definition HUGE_SET_MAX_SIZE :: nat where "HUGE_SET_MAX_SIZE = 255 * 1024"
definition SMALL_SET_MAX_INDEX :: int where "SMALL_SET_MAX_INDEX = 29"
definition NUMBER_OF_LAST_LARGE :: int where "NUMBER_OF_LAST_LARGE = int NUMBER_OF_SETS - 2"
definition NUMBER_OF_LAST_HUGE :: int where "NUMBER_OF_LAST_HUGE = int NUMBER_OF_SETS - 1"
definition LOG2_OFFSET :: int where "LOG2_OFFSET = 21"
definition smallSetOffsetIndex :: int where "smallSetOffsetIndex = 2"
definition INVALID_SET_TYPE :: int where "INVALID_SET_TYPE = - 1"

lemmas free_consts = NEXT_OFFSET_def SIZE_OFFSET_def FREE_OBJECT_SIZE_def NUMBER_OF_SETS_def MIN_SIZE_def
  SMALL_SET_MAX_SIZE_def LARGE_SET_MAX_SIZE_def HUGE_SET_MAX_SIZE_def SMALL_SET_MAX_INDEX_def
  NUMBER_OF_LAST_LARGE_def NUMBER_OF_LAST_HUGE_def LOG2_OFFSET_def smallSetOffsetIndex_def INVALID_SET_TYPE_def

section \<open>Regions and memory\<close>

type_synonym set_ptr = "nat \<times> nat"

record free_set =
  next_set :: "set_ptr option"
  prev_set :: "set_ptr option"
  setType :: int
  set_available :: u64
  isAdded :: bool
  freeObject :: nat

record region =
  region_begin :: nat
  region_end :: nat
  aliveObject :: u64
  gcAliveSize :: u64
  wasted :: u64
  highWaterMark :: nat
  inCollectSet :: bool
  hasBeenSwept :: bool
  bitsetSize :: nat
  markGCBitset :: gc_bitset
  oldToNewSet :: "remembered_set option"
  crossRegionSet :: "remembered_set option"
  sweepingRSet :: "remembered_set option"
  localToShareSet :: "remembered_set option"
  freeObjectSets :: "free_set option list"

record heap =
  memory :: "nat \<Rightarrow> nat"
  regions :: "nat \<rightharpoonup> region"
  noneFieldClass :: nat
  oneFieldClass :: nat
  twoFieldClass :: nat

definition ObjectAddressToRange :: "nat \<Rightarrow> nat" where
  "ObjectAddressToRange objAddress = objAddress - objAddress mod DEFAULT_REGION_SIZE"

definition region_at :: "heap \<Rightarrow> nat \<Rightarrow> region" where
  "region_at h r = the (regions h r)"

definition update_region :: "nat \<Rightarrow> (region \<Rightarrow> region) \<Rightarrow> heap \<Rightarrow> heap" where
  "update_region r f h = h\<lparr>regions := (regions h)(r \<mapsto> f (region_at h r))\<rparr>"

definition IncreaseWasted :: "nat \<Rightarrow> nat \<Rightarrow> heap \<Rightarrow> heap" where
  "IncreaseWasted r n = update_region r (\<lambda>R. R\<lparr>wasted := wasted R + of_nat n\<rparr>)"

section \<open>Free objects\<close>

definition GetNext :: "heap \<Rightarrow> nat \<Rightarrow> nat" where
  "GetNext h obj = memory h (obj + NEXT_OFFSET)"

definition store :: "nat \<Rightarrow> nat \<Rightarrow> heap \<Rightarrow> heap" where
  "store a v h = h\<lparr>memory := (memory h)(a := v)\<rparr>"

definition SetNext :: "nat \<Rightarrow> nat \<Rightarrow> heap \<Rightarrow> heap" where
  "SetNext obj n = store (obj + NEXT_OFFSET) n"

definition SetAvailable :: "nat \<Rightarrow> nat \<Rightarrow> heap \<Rightarrow> heap" where
  "SetAvailable obj n h = (let n32 = n mod 2 ^ 32 in
     if FREE_OBJECT_SIZE \<le> n32 then store (obj + SIZE_OFFSET) (SIZE_TAG + n32) h else h)"

definition IsFreeObjectWithShortField :: "heap \<Rightarrow> nat \<Rightarrow> bool" where
  "IsFreeObjectWithShortField h klass = (klass = oneFieldClass h \<or> klass = noneFieldClass h)"

definition IsFreeObject :: "heap \<Rightarrow> nat \<Rightarrow> bool" where
  "IsFreeObject h obj = (memory h obj \<in> {oneFieldClass h, noneFieldClass h, twoFieldClass h})"

definition GetObjectSize :: "heap \<Rightarrow> nat \<Rightarrow> nat" where
  "GetObjectSize h klass = (if klass = oneFieldClass h then SIZE_OFFSET else NEXT_OFFSET)"

definition Available :: "heap \<Rightarrow> nat \<Rightarrow> nat" where
  "Available h obj = (let hclass = memory h obj in
     if IsFreeObjectWithShortField h hclass then GetObjectSize h hclass
     else memory h (obj + SIZE_OFFSET) mod 2 ^ 32)"

definition FreeObject_GetEnd :: "heap \<Rightarrow> nat \<Rightarrow> nat" where
  "FreeObject_GetEnd h obj = obj + Available h obj"

definition FillFreeObject :: "nat \<Rightarrow> nat \<Rightarrow> heap \<Rightarrow> heap" where
  "FillFreeObject address n h =
    (if SIZE_OFFSET \<le> n \<and> n < FREE_OBJECT_SIZE then
       SetNext address INVALID_OBJECT (store address (oneFieldClass h) h)
     else if FREE_OBJECT_SIZE \<le> n then
       SetNext address INVALID_OBJECT (SetAvailable address n (store address (twoFieldClass h) h))
     else if n = NEXT_OFFSET then store address (noneFieldClass h) h
     else h)"

section \<open>The set of free objects of one size class in one region\<close>

definition set_at :: "heap \<Rightarrow> set_ptr \<Rightarrow> free_set option" where
  "set_at h p = (case regions h (fst p) of None \<Rightarrow> None | Some R \<Rightarrow> freeObjectSets R ! snd p)"

definition the_set :: "heap \<Rightarrow> set_ptr \<Rightarrow> free_set" where
  "the_set h p = the (set_at h p)"

definition update_set :: "set_ptr \<Rightarrow> (free_set \<Rightarrow> free_set) \<Rightarrow> heap \<Rightarrow> heap" where
  "update_set p f h = update_region (fst p)
     (\<lambda>R. R\<lparr>freeObjectSets := (freeObjectSets R)[snd p := Some (f (the_set h p))]\<rparr>) h"

definition FreeObjectSet_Rebuild :: "free_set \<Rightarrow> free_set" where
  "FreeObjectSet_Rebuild f = f\<lparr>freeObject := INVALID_OBJECT, set_available := 0, isAdded := False,
     next_set := None, prev_set := None\<rparr>"

definition new_FreeObjectSet :: "int \<Rightarrow> free_set" where
  "new_FreeObjectSet type = FreeObjectSet_Rebuild
     \<lparr>next_set = None, prev_set = None, setType = type, set_available = 0, isAdded = False, freeObject = 0\<rparr>"

definition GetFreeObjectSet :: "nat \<Rightarrow> int \<Rightarrow> heap \<Rightarrow> heap \<times> set_ptr" where
  "GetFreeObjectSet r type h =
    (let p = (r, nat type) in
     if set_at h p = None then
       (update_region r (\<lambda>R. R\<lparr>freeObjectSets := (freeObjectSets R)[nat type := Some (new_FreeObjectSet type)]\<rparr>) h, p)
     else (h, p))"

definition FreeObjectSet_Empty :: "free_set \<Rightarrow> bool" where
  "FreeObjectSet_Empty f = (set_available f = 0)"

definition FreeObjectSet_Free :: "set_ptr \<Rightarrow> nat \<Rightarrow> nat \<Rightarrow> heap \<Rightarrow> heap" where
  "FreeObjectSet_Free p bgn n h =
     update_set p (\<lambda>f. f\<lparr>freeObject := bgn, set_available := set_available f + of_nat n\<rparr>)
       (SetNext bgn (freeObject (the_set h p)) h)"

definition ObtainSmallFreeObject :: "set_ptr \<Rightarrow> nat \<Rightarrow> heap \<Rightarrow> heap \<times> nat" where
  "ObtainSmallFreeObject p n h = (let first = freeObject (the_set h p) in
     if first \<noteq> INVALID_OBJECT \<and> n \<le> Available h first then
       let h1 = update_set p (\<lambda>f. f\<lparr>freeObject := GetNext h first\<rparr>) h;
           h2 = SetNext first INVALID_OBJECT h1
       in (update_set p (\<lambda>f. f\<lparr>set_available := set_available f - of_nat (Available h2 first)\<rparr>) h2, first)
     else (h, INVALID_OBJECT))"

partial_function (option) obtain_large_loop :: "set_ptr \<Rightarrow> nat \<Rightarrow> heap \<Rightarrow> nat \<Rightarrow> nat \<Rightarrow> (heap \<times> nat) option" where
  "obtain_large_loop p n h previous cur =
    (if cur = INVALID_OBJECT then Some (h, INVALID_OBJECT)
     else if n \<le> Available h cur then
       let h1 = (if cur = freeObject (the_set h p) then update_set p (\<lambda>f. f\<lparr>freeObject := GetNext h cur\<rparr>) h
                 else SetNext previous (GetNext h cur) h);
           h2 = SetNext cur INVALID_OBJECT h1
       in Some (update_set p (\<lambda>f. f\<lparr>set_available := set_available f - of_nat (Available h2 cur)\<rparr>) h2, cur)
     else obtain_large_loop p n h cur (GetNext h cur))"

definition ObtainLargeFreeObject :: "set_ptr \<Rightarrow> nat \<Rightarrow> heap \<Rightarrow> (heap \<times> nat) option" where
  "ObtainLargeFreeObject p n h = obtain_large_loop p n h (freeObject (the_set h p)) (freeObject (the_set h p))"

definition LookupSmallFreeObject :: "set_ptr \<Rightarrow> nat \<Rightarrow> heap \<Rightarrow> nat" where
  "LookupSmallFreeObject p n h = (let first = freeObject (the_set h p) in
     if first \<noteq> INVALID_OBJECT \<and> n \<le> Available h first then first else INVALID_OBJECT)"

partial_function (option) lookup_large_loop :: "nat \<Rightarrow> heap \<Rightarrow> nat \<Rightarrow> nat option" where
  "lookup_large_loop n h cur =
    (if cur = INVALID_OBJECT then Some INVALID_OBJECT
     else if n \<le> Available h cur then Some cur
     else lookup_large_loop n h (GetNext h cur))"

definition LookupLargeFreeObject :: "set_ptr \<Rightarrow> nat \<Rightarrow> heap \<Rightarrow> nat option" where
  "LookupLargeFreeObject p n h =
    (if unat (set_available (the_set h p)) < n then Some INVALID_OBJECT
     else lookup_large_loop n h (freeObject (the_set h p)))"

section \<open>The free list\<close>

record free_list =
  list_available :: u64
  list_wasted :: u64
  noneEmptySetBitMap :: u64
  list_sets :: "set_ptr option list"
  lastSets :: "set_ptr option list"

definition new_FreeObjectList :: free_list where
  "new_FreeObjectList = \<lparr>list_available = 0, list_wasted = 0, noneEmptySetBitMap = 0,
     list_sets = replicate NUMBER_OF_SETS None, lastSets = replicate NUMBER_OF_SETS None\<rparr>"

fun bit_width :: "nat \<Rightarrow> nat" where
  "bit_width n = (if n = 0 then 0 else Suc (bit_width (n div 2)))"

declare bit_width.simps [simp del]

definition builtin_clzll :: "nat \<Rightarrow> int" where
  "builtin_clzll n = 64 - int (bit_width n)"

definition builtin_ffsll :: "u64 \<Rightarrow> nat" where
  "builtin_ffsll w = (if w = 0 then 0 else Suc (length (takeWhile (\<lambda>i. \<not> bit w i) [0..<64])))"

definition SelectSetType :: "nat \<Rightarrow> int" where
  "SelectSetType n =
    (if n < SMALL_SET_MAX_SIZE then
       (if n < MIN_SIZE then INVALID_SET_TYPE else int (drop_bit 3 n) - smallSetOffsetIndex)
     else if n < LARGE_SET_MAX_SIZE then 64 - builtin_clzll n + LOG2_OFFSET
     else if HUGE_SET_MAX_SIZE \<le> n then NUMBER_OF_LAST_HUGE
     else NUMBER_OF_LAST_LARGE)"

definition SetNoneEmptyBit :: "int \<Rightarrow> free_list \<Rightarrow> free_list" where
  "SetNoneEmptyBit type fl = fl\<lparr>noneEmptySetBitMap := noneEmptySetBitMap fl OR push_bit (nat type) 1\<rparr>"

definition ClearNoneEmptyBit :: "int \<Rightarrow> free_list \<Rightarrow> free_list" where
  "ClearNoneEmptyBit type fl = fl\<lparr>noneEmptySetBitMap := noneEmptySetBitMap fl AND NOT (push_bit (nat type) 1)\<rparr>"

definition CalcNextNoneEmptyIndex :: "free_list \<Rightarrow> int \<Rightarrow> int" where
  "CalcNextNoneEmptyIndex fl start =
     int (builtin_ffsll (drop_bit (nat start) (noneEmptySetBitMap fl))) + start - 1"

definition AddSet :: "set_ptr \<Rightarrow> heap \<Rightarrow> free_list \<Rightarrow> heap \<times> free_list" where
  "AddSet p h fl =
    (if FreeObjectSet_Empty (the_set h p) \<or> isAdded (the_set h p) then (h, fl)
     else
       let type = setType (the_set h p); top = list_sets fl ! nat type in
       if Some p = top then (h, fl)
       else
         let h = (case top of None \<Rightarrow> h | Some q \<Rightarrow> update_set q (\<lambda>f. f\<lparr>prev_set := Some p\<rparr>) h);
             h = update_set p (\<lambda>f. f\<lparr>isAdded := True, next_set := top, prev_set := None\<rparr>) h;
             fl = (if lastSets fl ! nat type = None then fl\<lparr>lastSets := (lastSets fl)[nat type := Some p]\<rparr> else fl);
             fl = (if list_sets fl ! nat type = None then SetNoneEmptyBit type fl else fl);
             fl = fl\<lparr>list_sets := (list_sets fl)[nat type := Some p]\<rparr>
         in (h, fl\<lparr>list_available := list_available fl + set_available (the_set h p)\<rparr>))"

definition RemoveSet :: "set_ptr \<Rightarrow> heap \<Rightarrow> free_list \<Rightarrow> heap \<times> free_list" where
  "RemoveSet p h fl =
    (let type = setType (the_set h p); top = list_sets fl ! nat type; last' = lastSets fl ! nat type;
         fl = (if top = Some p then fl\<lparr>list_sets := (list_sets fl)[nat type := next_set (the_set h p)]\<rparr> else fl);
         fl = (if last' = Some p then fl\<lparr>lastSets := (lastSets fl)[nat type := prev_set (the_set h p)]\<rparr> else fl);
         h = (case prev_set (the_set h p) of None \<Rightarrow> h
              | Some q \<Rightarrow> update_set q (\<lambda>f. f\<lparr>next_set := next_set (the_set h p)\<rparr>) h);
         h = (case next_set (the_set h p) of None \<Rightarrow> h
              | Some q \<Rightarrow> update_set q (\<lambda>f. f\<lparr>prev_set := prev_set (the_set h p)\<rparr>) h);
         h = update_set p (\<lambda>f. f\<lparr>isAdded := False, prev_set := None, next_set := None\<rparr>) h;
         fl = (if list_sets fl ! nat type = None then ClearNoneEmptyBit type fl else fl)
     in (h, fl\<lparr>list_available := list_available fl - set_available (the_set h p)\<rparr>))"

definition FreeObjectList_Free :: "nat \<Rightarrow> nat \<Rightarrow> bool \<Rightarrow> heap \<Rightarrow> free_list \<Rightarrow> heap \<times> free_list" where
  "FreeObjectList_Free start n isAdd h fl =
    (if start = 0 then (h, fl)
     else if n < MIN_SIZE then
       (IncreaseWasted (ObjectAddressToRange start) n h,
        if isAdd then fl\<lparr>list_wasted := list_wasted fl + of_nat n\<rparr> else fl)
     else
       let type = SelectSetType n in
       if type = INVALID_SET_TYPE then (h, fl)
       else
         let (h, p) = GetFreeObjectSet (ObjectAddressToRange start) type h;
             h = FreeObjectSet_Free p start n h
         in if isAdd then
              (if \<not> isAdded (the_set h p) then AddSet p h fl
               else (h, fl\<lparr>list_available := list_available fl + of_nat n\<rparr>))
            else (h, fl))"

partial_function (option) allocate_sets_loop ::
    "int \<Rightarrow> nat \<Rightarrow> heap \<Rightarrow> free_list \<Rightarrow> set_ptr option \<Rightarrow> (heap \<times> free_list \<times> nat) option" where
  "allocate_sets_loop type n h fl current =
    (case current of
       None \<Rightarrow> Some (h, fl, INVALID_OBJECT)
     | Some p \<Rightarrow>
        if unat (set_available (the_set h p)) < n then allocate_sets_loop type n h fl (next_set (the_set h p))
        else do {
          (h, next', object) \<leftarrow>
            (if type \<le> SMALL_SET_MAX_INDEX then
               let (h, object) = ObtainSmallFreeObject p n h in Some (h, None, object)
             else do {
               (h', object) \<leftarrow> ObtainLargeFreeObject p n h;
               Some (h', next_set (the_set h p), object) });
          let (h, fl) = (if FreeObjectSet_Empty (the_set h p) then
                let (h, fl) = RemoveSet p h fl in (update_set p FreeObjectSet_Rebuild h, fl)
              else (h, fl));
          if object \<noteq> INVALID_OBJECT then
            Some (h, fl\<lparr>list_available := list_available fl - of_nat (Available h object)\<rparr>, object)
          else allocate_sets_loop type n h fl next' })"

partial_function (option) allocate_types_loop ::
    "int \<Rightarrow> int \<Rightarrow> nat \<Rightarrow> heap \<Rightarrow> free_list \<Rightarrow> (heap \<times> free_list \<times> nat) option" where
  "allocate_types_loop lastType type n h fl =
    (if lastType < type \<and> type < int NUMBER_OF_SETS then do {
       (h, fl, object) \<leftarrow> allocate_sets_loop type n h fl (list_sets fl ! nat type);
       if object \<noteq> INVALID_OBJECT then Some (h, fl, object)
       else allocate_types_loop type (CalcNextNoneEmptyIndex fl (type + 1)) n h fl }
     else Some (h, fl, 0))"

definition FreeObjectList_Allocate :: "nat \<Rightarrow> heap \<Rightarrow> free_list \<Rightarrow> (heap \<times> free_list \<times> nat) option" where
  "FreeObjectList_Allocate n h fl =
    (if noneEmptySetBitMap fl = 0 then Some (h, fl, 0)
     else let type = SelectSetType n in
       if type = INVALID_SET_TYPE then Some (h, fl, 0)
       else allocate_types_loop (type - 1) (CalcNextNoneEmptyIndex fl type) n h fl)"

partial_function (option) lookup_sets_loop ::
    "int \<Rightarrow> nat \<Rightarrow> heap \<Rightarrow> set_ptr option \<Rightarrow> nat option" where
  "lookup_sets_loop type n h current =
    (if current = None then Some INVALID_OBJECT
     else let p = the current in
        if type \<le> SMALL_SET_MAX_INDEX then Some (LookupSmallFreeObject p n h)
        else do {
          object \<leftarrow> LookupLargeFreeObject p n h;
          if object \<noteq> INVALID_OBJECT then Some object
          else lookup_sets_loop type n h (next_set (the_set h p)) })"

partial_function (option) lookup_types_loop :: "int \<Rightarrow> int \<Rightarrow> nat \<Rightarrow> heap \<Rightarrow> free_list \<Rightarrow> nat option" where
  "lookup_types_loop lastType type n h fl =
    (if lastType < type \<and> type < int NUMBER_OF_SETS then do {
       object \<leftarrow> lookup_sets_loop type n h (list_sets fl ! nat type);
       if object \<noteq> INVALID_OBJECT then Some object
       else lookup_types_loop type (CalcNextNoneEmptyIndex fl (type + 1)) n h fl }
     else Some 0)"

definition FreeObjectList_LookupSuitableFreeObject :: "nat \<Rightarrow> heap \<Rightarrow> free_list \<Rightarrow> nat option" where
  "FreeObjectList_LookupSuitableFreeObject n h fl =
    (if noneEmptySetBitMap fl = 0 then Some 0
     else let type = SelectSetType n in
       if type = INVALID_SET_TYPE then Some 0
       else lookup_types_loop (type - 1) (CalcNextNoneEmptyIndex fl type) n h fl)"

definition MatchFreeObjectInSet :: "set_ptr option \<Rightarrow> nat \<Rightarrow> heap \<Rightarrow> bool option" where
  "MatchFreeObjectInSet set' n h =
    (case set' of None \<Rightarrow> Some False | Some p \<Rightarrow>
     if FreeObjectSet_Empty (the_set h p) then Some False
     else let type = SelectSetType n in
       if type = INVALID_SET_TYPE then Some False
       else do {
         object \<leftarrow> (if type \<le> SMALL_SET_MAX_INDEX then Some (LookupSmallFreeObject p n h)
                   else LookupLargeFreeObject p n h);
         Some (object \<noteq> 0) })"

partial_function (option) rebuild_sets_loop :: "heap \<Rightarrow> set_ptr option \<Rightarrow> heap option" where
  "rebuild_sets_loop h current =
    (case current of
       None \<Rightarrow> Some h
     | Some p \<Rightarrow> rebuild_sets_loop (update_set p FreeObjectSet_Rebuild h) (next_set (the_set h p)))"

fun rebuild_types :: "set_ptr option list \<Rightarrow> heap \<Rightarrow> heap option" where
  "rebuild_types [] h = Some h"
| "rebuild_types (top' # tops) h = do { h \<leftarrow> rebuild_sets_loop h top'; rebuild_types tops h }"

definition FreeObjectList_Rebuild :: "heap \<Rightarrow> free_list \<Rightarrow> (heap \<times> free_list) option" where
  "FreeObjectList_Rebuild h fl = do {
     h \<leftarrow> rebuild_types (list_sets fl) h;
     Some (h, fl\<lparr>list_sets := replicate NUMBER_OF_SETS None, lastSets := replicate NUMBER_OF_SETS None,
       list_available := 0, list_wasted := 0, noneEmptySetBitMap := 0\<rparr>) }"

fun merge_types :: "set_ptr option list \<Rightarrow> set_ptr option list \<Rightarrow> heap \<Rightarrow> free_list \<Rightarrow> heap \<times> free_list" where
  "merge_types (top' # tops) (end' # ends) h fl =
    (case top' of None \<Rightarrow> merge_types tops ends h fl | Some p \<Rightarrow>
     if FreeObjectSet_Empty (the_set h p) then merge_types tops ends h fl
     else
       let type = setType (the_set h p);
           h = (if list_sets fl ! nat type = None then h
                else let h = update_set (the (lastSets fl ! nat type)) (\<lambda>f. f\<lparr>next_set := Some p\<rparr>) h
                     in update_set p (\<lambda>f. f\<lparr>prev_set := lastSets fl ! nat type\<rparr>) h);
           fl = SetNoneEmptyBit type (fl\<lparr>lastSets := (lastSets fl)[nat type := end']\<rparr>)
       in merge_types tops ends h fl)"
| "merge_types _ _ h fl = (h, fl)"

definition FreeObjectList_Merge :: "heap \<Rightarrow> free_list \<Rightarrow> free_list \<Rightarrow> (heap \<times> free_list \<times> free_list) option" where
  "FreeObjectList_Merge h fl other = do {
     let (h, fl) = merge_types (list_sets other) (lastSets other) h fl;
     let fl = fl\<lparr>list_available := list_available fl + list_available other\<rparr>;
     (h, other) \<leftarrow> FreeObjectList_Rebuild h other;
     Some (h, fl, other) }"

end
