(* ===== verification/Free_List_Allocator.thy ===== *)
theory Free_List_Allocator
  imports Free_Objects
begin

text \<open>
  The two allocators of \<open>mem/allocator-inl.h\<close>.  A bump pointer allocator hands out the memory from its
  top to its end; the free list allocator puts one in front of a free list and keeps the longer of the
  remainders when it has to take a free object.  Heap, free list and allocator are passed explicitly;
  \<open>None\<close> stands for a loop of the free list that does not end.
\<close>

record allocator =
  bp_begin :: nat
  bp_top :: nat
  bp_end :: nat
  freeList :: free_list
  allocationSizeAccumulator :: u64

section \<open>Bump pointer allocation\<close>

definition Bump_Reset :: "allocator \<Rightarrow> allocator" where
  "Bump_Reset al = al\<lparr>bp_begin := 0, bp_top := 0, bp_end := 0\<rparr>"

definition Bump_Reset_range :: "nat \<Rightarrow> nat \<Rightarrow> allocator \<Rightarrow> allocator" where
  "Bump_Reset_range bgn end' al = al\<lparr>bp_begin := bgn, bp_top := bgn, bp_end := end'\<rparr>"

definition Bump_Reset_top :: "nat \<Rightarrow> nat \<Rightarrow> nat \<Rightarrow> allocator \<Rightarrow> allocator" where
  "Bump_Reset_top bgn end' t al = al\<lparr>bp_begin := bgn, bp_top := t, bp_end := end'\<rparr>"

definition Bump_ResetTopPointer :: "nat \<Rightarrow> allocator \<Rightarrow> allocator" where
  "Bump_ResetTopPointer t al = al\<lparr>bp_top := t\<rparr>"

definition Bump_Available :: "allocator \<Rightarrow> nat" where
  "Bump_Available al = usub (bp_end al) (bp_top al)"

definition Bump_Allocate :: "nat \<Rightarrow> allocator \<Rightarrow> allocator \<times> nat" where
  "Bump_Allocate n al =
    (if bp_end al < uadd (bp_top al) n then (al, 0) else (al\<lparr>bp_top := uadd (bp_top al) n\<rparr>, bp_top al))"

section \<open>Free list allocation\<close>

definition new_FreeListAllocator :: allocator where
  "new_FreeListAllocator = \<lparr>bp_begin = 0, bp_top = 0, bp_end = 0, freeList = new_FreeObjectList,
     allocationSizeAccumulator = 0\<rparr>"

definition FreeListAllocator_Initialize :: "nat \<Rightarrow> heap \<Rightarrow> allocator \<Rightarrow> allocator" where
  "FreeListAllocator_Initialize r h al =
     Bump_Reset_range (region_begin (region_at h r)) (region_end (region_at h r)) al"

definition FreeListAllocator_Free :: "nat \<Rightarrow> nat \<Rightarrow> bool \<Rightarrow> heap \<times> allocator \<Rightarrow> heap \<times> allocator" where
  "FreeListAllocator_Free bgn n isAdd = (\<lambda>(h, al).
    if n \<noteq> 0 then
      let h = FillFreeObject bgn n h; (h, fl) = FreeObjectList_Free bgn n isAdd h (freeList al)
      in (h, al\<lparr>freeList := fl\<rparr>)
    else (h, al))"

definition FreeBumpPoint :: "heap \<times> allocator \<Rightarrow> heap \<times> allocator" where
  "FreeBumpPoint = (\<lambda>(h, al).
     let bgn = bp_top al; n = Bump_Available al in FreeListAllocator_Free bgn n True (h, Bump_Reset al))"

definition FillBumpPointer :: "heap \<times> allocator \<Rightarrow> heap" where
  "FillBumpPointer = (\<lambda>(h, al). if Bump_Available al \<noteq> 0 then FillFreeObject (bp_top al) (Bump_Available al) h else h)"

definition FreeListAllocator_Reset :: "heap \<times> allocator \<Rightarrow> heap \<times> allocator" where
  "FreeListAllocator_Reset = (\<lambda>(h, al). FreeBumpPoint (h, al\<lparr>freeList := new_FreeObjectList\<rparr>))"

definition FreeListAllocator_AddFree :: "nat \<Rightarrow> heap \<times> allocator \<Rightarrow> heap \<times> allocator" where
  "FreeListAllocator_AddFree r = (\<lambda>(h, al).
     let bgn = region_begin (region_at h r); end' = region_end (region_at h r); (h, al) = FreeBumpPoint (h, al)
     in (h, Bump_Reset_range bgn end' al))"

definition allocate_from_object :: "nat \<Rightarrow> nat \<Rightarrow> heap \<times> allocator \<Rightarrow> heap \<times> allocator \<times> nat" where
  "allocate_from_object object n = (\<lambda>(h, al).
     let bgn = object; end' = FreeObject_GetEnd h object; remainSize = usub (usub end' bgn) n;
         al = al\<lparr>allocationSizeAccumulator := allocationSizeAccumulator al + of_nat n\<rparr>
     in if remainSize \<le> Bump_Available al then
          let (h, al) = FreeListAllocator_Free (uadd bgn n) remainSize True (h, al) in (h, al, bgn)
        else
          let (h, al) = FreeBumpPoint (h, al);
              (al, ret) = Bump_Allocate n (Bump_Reset_range bgn end' al)
          in (h, al, ret))"

definition FreeListAllocator_Allocate :: "nat \<Rightarrow> heap \<times> allocator \<Rightarrow> (heap \<times> allocator \<times> nat) option" where
  "FreeListAllocator_Allocate n = (\<lambda>(h, al).
     let (al, ret) = Bump_Allocate n al in
     if ret \<noteq> 0 then
       Some (h, al\<lparr>allocationSizeAccumulator := allocationSizeAccumulator al + of_nat n\<rparr>, ret)
     else do {
       (h, fl, object) \<leftarrow> FreeObjectList_Allocate n h (freeList al);
       let al = al\<lparr>freeList := fl\<rparr>;
       Some (if object \<noteq> 0 then allocate_from_object object n (h, al) else (h, al, ret)) })"

definition FreeListAllocator_LookupSuitableFreeObject :: "nat \<Rightarrow> heap \<times> allocator \<Rightarrow> nat option" where
  "FreeListAllocator_LookupSuitableFreeObject n = (\<lambda>(h, al). FreeObjectList_LookupSuitableFreeObject n h (freeList al))"

definition RebuildFreeList :: "heap \<times> allocator \<Rightarrow> (heap \<times> allocator) option" where
  "RebuildFreeList = (\<lambda>(h, al). do {
     (h, fl) \<leftarrow> FreeObjectList_Rebuild h (freeList al);
     Some (h, (Bump_Reset al)\<lparr>freeList := fl\<rparr>) })"

definition set_ptrs :: "heap \<Rightarrow> nat \<Rightarrow> set_ptr list" where
  "set_ptrs h r = map (Pair r) (filter (\<lambda>t. set_at h (r, t) \<noteq> None) [0..<length (freeObjectSets (region_at h r))])"

definition CollectFreeObjectSet :: "nat \<Rightarrow> heap \<times> allocator \<Rightarrow> heap \<times> allocator" where
  "CollectFreeObjectSet r = (\<lambda>(h, al).
     let (h, fl) = fold (\<lambda>p (h, fl). if FreeObjectSet_Empty (the_set h p) then (h, fl) else AddSet p h fl)
           (set_ptrs h r) (h, freeList al)
     in (h, al\<lparr>freeList := fl\<lparr>list_wasted := list_wasted fl + wasted (region_at h r)\<rparr>\<rparr>))"

definition DetachFreeObjectSet :: "nat \<Rightarrow> heap \<times> allocator \<Rightarrow> heap \<times> allocator" where
  "DetachFreeObjectSet r = (\<lambda>(h, al).
     let (h, fl) = fold (\<lambda>p (h, fl). if FreeObjectSet_Empty (the_set h p) then (h, fl) else RemoveSet p h fl)
           (set_ptrs h r) (h, freeList al)
     in (h, al\<lparr>freeList := fl\<lparr>list_wasted := list_wasted fl - wasted (region_at h r)\<rparr>\<rparr>))"

definition MatchFreeObjectSet :: "nat \<Rightarrow> nat \<Rightarrow> heap \<Rightarrow> bool option" where
  "MatchFreeObjectSet r n h =
     (case filter (\<lambda>p. \<not> FreeObjectSet_Empty (the_set h p)) (rev (set_ptrs h r)) of
        [] \<Rightarrow> Some False | p # ps \<Rightarrow> MatchFreeObjectInSet (Some p) n h)"

definition GetAvailableSize :: "allocator \<Rightarrow> u64" where
  "GetAvailableSize al = list_available (freeList al) + of_nat (Bump_Available al)"

definition GetWastedSize :: "allocator \<Rightarrow> u64" where
  "GetWastedSize al = list_wasted (freeList al)"

end
