(* ===== verification/Free_Chains.thy ===== *)
theory Free_Chains
  imports Free_List_Allocator
begin

text \<open>
  The invariant of the free blocks.  \<open>block_chain\<close> follows the next words of free objects through memory;
  \<open>blocks_ok h B\<close> says that \<open>B\<close> lists, for every set, the blocks on its chain, that each block has the
  size class of its set, lies in the data area of its region and overlaps no other block, and that the
  counters of the sets are right.  The lemmas are frame rules: what a change of memory outside the blocks,
  of the links of one block or of the fields of one set leaves as it was.
\<close>

named_theorems heap_frame "what a heap update leaves as it was"

section \<open>Updates of the heap\<close>

lemma memory_simps [simp]:
  "memory (store a v h) = (memory h)(a := v)" "memory (update_region r f h) = memory h"
  "memory (update_set p g h) = memory h" "regions (store a v h) = regions h"
  "set_at (store a v h) = set_at h" "the_set (store a v h) = the_set h"
  "oneFieldClass (store a v h) = oneFieldClass h" "twoFieldClass (store a v h) = twoFieldClass h"
  "noneFieldClass (store a v h) = noneFieldClass h"
  "oneFieldClass (update_region r f h) = oneFieldClass h" "twoFieldClass (update_region r f h) = twoFieldClass h"
  "noneFieldClass (update_region r f h) = noneFieldClass h"
  "oneFieldClass (update_set p g h) = oneFieldClass h" "twoFieldClass (update_set p g h) = twoFieldClass h"
  "noneFieldClass (update_set p g h) = noneFieldClass h"
  by (simp_all add: store_def update_region_def update_set_def set_at_def the_set_def fun_eq_iff)

definition valid_ptr :: "heap \<Rightarrow> set_ptr \<Rightarrow> bool" where
  "valid_ptr h p \<longleftrightarrow> (\<exists>R. regions h (fst p) = Some R \<and> snd p < length (freeObjectSets R))"

lemma set_at_update_set:
  "valid_ptr h p \<Longrightarrow> set_at (update_set p g h) q = (if q = p then Some (g (the_set h p)) else set_at h q)"
  by (cases p; cases q) (auto simp: valid_ptr_def set_at_def update_set_def update_region_def region_at_def
      nth_list_update split: option.splits)

lemma the_set_update_set:
  "valid_ptr h p \<Longrightarrow> the_set (update_set p g h) q = (if q = p then g (the_set h p) else the_set h q)"
  by (simp add: the_set_def set_at_update_set)

lemma valid_ptr_update_set [simp]: "valid_ptr (update_set p g h) q \<longleftrightarrow> valid_ptr h q" if "valid_ptr h p"
  using that by (auto simp: valid_ptr_def update_set_def update_region_def region_at_def split: if_splits)

lemma valid_ptr_store [simp]: "valid_ptr (store a v h) = valid_ptr h"
  by (simp add: fun_eq_iff valid_ptr_def)

section \<open>What the operations on free blocks never change\<close>

definition core :: "region \<Rightarrow> region" where
  "core R = R\<lparr>freeObjectSets := [], wasted := 0, oldToNewSet := None, crossRegionSet := None, sweepingRSet := None,
     localToShareSet := None\<rparr>"

definition same_core :: "heap \<Rightarrow> heap \<Rightarrow> bool" where
  "same_core h h' \<longleftrightarrow> (\<forall>r. map_option core (regions h' r) = map_option core (regions h r)) \<and>
     (\<forall>r R R'. regions h r = Some R \<longrightarrow> regions h' r = Some R' \<longrightarrow>
        length (freeObjectSets R') = length (freeObjectSets R)) \<and>
     oneFieldClass h' = oneFieldClass h \<and> twoFieldClass h' = twoFieldClass h \<and>
     noneFieldClass h' = noneFieldClass h"

lemma same_core_refl [simp]: "same_core h h"
  by (simp add: same_core_def)

lemma same_core_dom: "same_core h h' \<Longrightarrow> dom (regions h') = dom (regions h)"
  unfolding same_core_def by (metis (mono_tags, lifting) dom_map_option map_option_case option.map_disc_iff domIff Collect_cong dom_def)

lemma same_core_trans [trans]:
  assumes "same_core h h'" "same_core h' h''"
  shows "same_core h h''"
proof -
  have "length (freeObjectSets R'') = length (freeObjectSets R)"
    if "regions h r = Some R" "regions h'' r = Some R''" for r R R''
  proof -
    have "r \<in> dom (regions h')" using same_core_dom [OF assms(1)] that by auto
    then obtain R' where "regions h' r = Some R'" by blast
    then show ?thesis using assms that by (simp add: same_core_def)
  qed
  then show ?thesis using assms by (auto simp: same_core_def)
qed

lemma same_core_store [simp]: "same_core h (store a v h)"
  by (simp add: same_core_def)

lemma same_core_update_region:
  assumes "r \<in> dom (regions h)" "\<And>R. core (f R) = core R" "\<And>R. length (freeObjectSets (f R)) = length (freeObjectSets R)"
  shows "same_core h (update_region r f h)"
  using assms by (auto simp: same_core_def update_region_def region_at_def)

lemma same_core_update_set [simp]: "valid_ptr h p \<Longrightarrow> same_core h (update_set p g h)"
  unfolding update_set_def by (intro same_core_update_region) (auto simp: valid_ptr_def core_def)

lemma same_core_region:
  assumes "same_core h h'" "regions h r = Some R"
  obtains R' where "regions h' r = Some R'" "core R' = core R" "length (freeObjectSets R') = length (freeObjectSets R)"
proof -
  have "r \<in> dom (regions h')" using assms same_core_dom by auto
  then obtain R' where "regions h' r = Some R'" by blast
  then show ?thesis using assms that by (auto simp: same_core_def dest: spec [of _ r])
qed

lemma core_fields:
  assumes "core R' = core R"
  shows "region_begin R' = region_begin R" "region_end R' = region_end R" "markGCBitset R' = markGCBitset R"
    "bitsetSize R' = bitsetSize R" "inCollectSet R' = inCollectSet R" "aliveObject R' = aliveObject R"
    "hasBeenSwept R' = hasBeenSwept R"
proof -
  have "f (core R') = f (core R)" for f :: "region \<Rightarrow> 'z" using assms by simp
  note this [of region_begin] this [of region_end]
  then show "region_begin R' = region_begin R" "region_end R' = region_end R" by (simp_all add: core_def)
  show "markGCBitset R' = markGCBitset R" using arg_cong [OF assms, of markGCBitset] by (simp add: core_def)
  show "bitsetSize R' = bitsetSize R" using arg_cong [OF assms, of bitsetSize] by (simp add: core_def)
  show "inCollectSet R' = inCollectSet R" using arg_cong [OF assms, of inCollectSet] by (simp add: core_def)
  show "aliveObject R' = aliveObject R" using arg_cong [OF assms, of aliveObject] by (simp add: core_def)
  show "hasBeenSwept R' = hasBeenSwept R" using arg_cong [OF assms, of hasBeenSwept] by (simp add: core_def)
qed

lemma same_core_valid_ptr: "same_core h h' \<Longrightarrow> valid_ptr h' p \<longleftrightarrow> valid_ptr h p"
proof (cases "regions h (fst p)")
  case None
  moreover assume "same_core h h'"
  ultimately have "regions h' (fst p) = None" using same_core_dom by (metis domIff)
  then show ?thesis using None by (simp add: valid_ptr_def)
next
  case (Some R)
  moreover assume "same_core h h'"
  ultimately obtain R' where "regions h' (fst p) = Some R'" "length (freeObjectSets R') = length (freeObjectSets R)"
    by (metis same_core_region)
  then show ?thesis using Some by (simp add: valid_ptr_def)
qed

section \<open>Chains of free objects\<close>

fun block_chain :: "heap \<Rightarrow> nat \<Rightarrow> nat list \<Rightarrow> bool" where
  "block_chain h cur [] = (cur = INVALID_OBJECT)"
| "block_chain h cur (x # xs) = (cur = x \<and> x \<noteq> INVALID_OBJECT \<and> block_chain h (GetNext h x) xs)"

lemma chain_unique: "block_chain h cur xs \<Longrightarrow> block_chain h cur ys \<Longrightarrow> xs = ys"
proof (induction xs arbitrary: cur ys)
  case (Cons x xs)
  then show ?case by (cases ys) auto
next
  case Nil
  then show ?case by (cases ys) auto
qed

lemma chain_append: "block_chain h cur (xs @ y # ys) \<Longrightarrow> block_chain h y (y # ys)"
  by (induction xs arbitrary: cur) auto

lemma chain_distinct: "block_chain h cur xs \<Longrightarrow> distinct xs"
proof (induction xs arbitrary: cur)
  case (Cons x xs)
  have "x \<notin> set xs"
  proof
    assume "x \<in> set xs"
    then obtain as bs where xs: "xs = as @ x # bs" by (auto simp: in_set_conv_decomp)
    then have "block_chain h x (x # bs)" "block_chain h x (x # xs)" using Cons.prems chain_append [of h _ as x bs] by auto
    then show False using chain_unique [of h x "x # bs" "x # xs"] xs by simp
  qed
  then show ?case using Cons by auto
qed simp

lemma block_chain_cong: "(\<And>x. x \<in> set xs \<Longrightarrow> GetNext h' x = GetNext h x) \<Longrightarrow> block_chain h' cur xs = block_chain h cur xs"
  by (induction xs arbitrary: cur) auto

section \<open>Blocks\<close>

definition disj :: "nat \<Rightarrow> nat \<Rightarrow> nat \<Rightarrow> nat \<Rightarrow> bool" where
  "disj a n b m \<longleftrightarrow> a + n \<le> b \<or> b + m \<le> a"

lemma disj_sym: "disj a n b m \<longleftrightarrow> disj b m a n"
  by (auto simp: disj_def)

definition region_ok :: "nat \<Rightarrow> region \<Rightarrow> bool" where
  "region_ok r R \<longleftrightarrow> r mod DEFAULT_REGION_SIZE = 0 \<and> r < region_begin R \<and> region_begin R \<le> region_end R \<and>
     region_end R = r + DEFAULT_REGION_SIZE \<and> region_end R < 2 ^ 64 \<and> region_begin R mod 8 = 0 \<and>
     length (freeObjectSets R) = NUMBER_OF_SETS"

definition in_data :: "heap \<Rightarrow> nat \<Rightarrow> nat \<Rightarrow> nat \<Rightarrow> bool" where
  "in_data h r a n \<longleftrightarrow> (\<exists>R. regions h r = Some R \<and> region_begin R \<le> a \<and> a + n \<le> region_end R)"

definition classes_ok :: "heap \<Rightarrow> bool" where
  "classes_ok h \<longleftrightarrow> oneFieldClass h \<noteq> twoFieldClass h \<and> noneFieldClass h \<noteq> twoFieldClass h \<and>
     noneFieldClass h \<noteq> oneFieldClass h"

definition block_ok :: "heap \<Rightarrow> set_ptr \<Rightarrow> nat \<Rightarrow> bool" where
  "block_ok h p x \<longleftrightarrow> x mod 8 = 0 \<and>
     memory h x = (if Available h x < FREE_OBJECT_SIZE then oneFieldClass h else twoFieldClass h) \<and> Available h x mod 8 = 0 \<and> MIN_SIZE \<le> Available h x \<and>
     in_data h (fst p) x (Available h x) \<and> SelectSetType (Available h x) = int (snd p)"

definition set_ok :: "heap \<Rightarrow> (set_ptr \<Rightarrow> nat list) \<Rightarrow> set_ptr \<Rightarrow> bool" where
  "set_ok h B p = (case set_at h p of
       None \<Rightarrow> B p = []
     | Some f \<Rightarrow> setType f = int (snd p) \<and> block_chain h (freeObject f) (B p) \<and>
         set_available f = of_nat (\<Sum>x\<leftarrow>B p. Available h x))"

definition blocks_ok :: "heap \<Rightarrow> (set_ptr \<Rightarrow> nat list) \<Rightarrow> bool" where
  "blocks_ok h B \<longleftrightarrow> classes_ok h \<and>
     (\<forall>r R. regions h r = Some R \<longrightarrow> region_ok r R) \<and>
     (\<forall>p. valid_ptr h p \<longrightarrow> set_ok h B p) \<and> (\<forall>p. \<not> valid_ptr h p \<longrightarrow> B p = []) \<and>
     (\<forall>p. \<forall>x \<in> set (B p). block_ok h p x) \<and>
     (\<forall>p q x y. x \<in> set (B p) \<longrightarrow> y \<in> set (B q) \<longrightarrow> x \<noteq> y \<longrightarrow> disj x (Available h x) y (Available h y))"

lemma blocks_okD:
  assumes "blocks_ok h B"
  shows "regions h r = Some R \<Longrightarrow> region_ok r R"
    and "valid_ptr h p \<Longrightarrow> set_ok h B p"
    and "x \<in> set (B p) \<Longrightarrow> block_ok h p x"
    and "x \<in> set (B p) \<Longrightarrow> valid_ptr h p"
    and "x \<in> set (B p) \<Longrightarrow> y \<in> set (B q) \<Longrightarrow> x \<noteq> y \<Longrightarrow> disj x (Available h x) y (Available h y)"
  using assms by (auto simp: blocks_ok_def simp del: split_paired_All)

lemma block_cong:
  assumes "block_ok h p x" "\<And>i. x \<le> i \<Longrightarrow> i < x + Available h x \<Longrightarrow> memory h' i = memory h i" "same_core h h'"
  shows "Available h' x = Available h x" "GetNext h' x = GetNext h x"
proof -
  have b: "MIN_SIZE \<le> Available h x"
    "memory h x = (if Available h x < FREE_OBJECT_SIZE then oneFieldClass h else twoFieldClass h)"
    using assms(1) by (auto simp: block_ok_def)
  have c: "memory h' x = memory h x" "memory h' (x + 8) = memory h (x + 8)"
    using assms(2) [of x] assms(2) [of "x + 8"] b(1) by (auto simp: free_consts)
  show "GetNext h' x = GetNext h x" using c by (simp add: GetNext_def free_consts)
  have s: "IsFreeObjectWithShortField h' = IsFreeObjectWithShortField h" "GetObjectSize h' = GetObjectSize h"
    using assms(3) by (auto simp: same_core_def IsFreeObjectWithShortField_def GetObjectSize_def fun_eq_iff)
  show "Available h' x = Available h x"
  proof (cases "IsFreeObjectWithShortField h (memory h x)")
    case False
    then have "FREE_OBJECT_SIZE \<le> Available h x" using b(2) by (auto simp: IsFreeObjectWithShortField_def split: if_splits)
    then have "memory h' (x + SIZE_OFFSET) = memory h (x + SIZE_OFFSET)"
      using assms(2) [of "x + SIZE_OFFSET"] by (simp add: free_consts)
    then show ?thesis by (simp add: Available_def s c Let_def)
  qed (simp add: Available_def s c Let_def)
qed

section \<open>Frame rule\<close>

definition set_view :: "free_set \<Rightarrow> int \<times> nat \<times> u64" where
  "set_view f = (setType f, freeObject f, set_available f)"

definition same_blocks :: "(set_ptr \<Rightarrow> nat list) \<Rightarrow> heap \<Rightarrow> heap \<Rightarrow> bool" where
  "same_blocks B h h' \<longleftrightarrow> (\<forall>p. \<forall>x \<in> set (B p). \<forall>i. x \<le> i \<longrightarrow> i < x + Available h x \<longrightarrow> memory h' i = memory h i)"

lemma in_data_cong: "same_core h h' \<Longrightarrow> in_data h' r a n \<longleftrightarrow> in_data h r a n"
proof (cases "regions h r")
  case None
  moreover assume "same_core h h'"
  ultimately have "regions h' r = None" using same_core_dom by (metis domIff)
  then show ?thesis using None by (simp add: in_data_def)
next
  case (Some R)
  moreover assume "same_core h h'"
  ultimately obtain R' where "regions h' r = Some R'" "core R' = core R" by (metis same_core_region)
  then show ?thesis using Some core_fields(1,2) [of R' R] by (simp add: in_data_def)
qed

lemma region_ok_cong: "core R' = core R \<Longrightarrow> length (freeObjectSets R') = length (freeObjectSets R) \<Longrightarrow>
    region_ok r R' \<longleftrightarrow> region_ok r R"
  using core_fields(1,2) [of R' R] by (simp add: region_ok_def)

lemma same_blocks_cong:
  assumes "blocks_ok h B" "same_core h h'" "same_blocks B h h'" "x \<in> set (B p)"
  shows "Available h' x = Available h x" "GetNext h' x = GetNext h x" "block_ok h' p x"
proof -
  have b: "block_ok h p x" using assms by (simp add: blocks_okD)
  have m: "memory h' i = memory h i" if "x \<le> i" "i < x + Available h x" for i
    using assms(3,4) that by (auto simp: same_blocks_def simp del: split_paired_All)
  show a: "Available h' x = Available h x" and "GetNext h' x = GetNext h x"
    using block_cong [OF b m assms(2)] by simp_all
  have "memory h' x = memory h x" using m [of x] b by (simp add: block_ok_def free_consts)
  then show "block_ok h' p x" using b a assms(2) by (simp add: block_ok_def in_data_cong) (simp add: same_core_def)
qed

lemma blocks_ok_regions:
  assumes "blocks_ok h B" "same_core h h'" "regions h' r = Some R'"
  shows "region_ok r R'"
proof -
  have "r \<in> dom (regions h)" using same_core_dom [OF assms(2)] assms(3) by auto
  then obtain R where "regions h r = Some R" by blast
  then show ?thesis using assms region_ok_cong [of R' R r] blocks_okD(1) [OF assms(1)]
    by (metis same_core_region option.inject)
qed

lemma blocks_ok_cong:
  assumes "blocks_ok h B" "same_core h h'" "same_blocks B h h'"
    and "\<And>p. valid_ptr h p \<Longrightarrow> map_option set_view (set_at h' p) = map_option set_view (set_at h p)"
  shows "blocks_ok h' B"
proof -
  note same = same_blocks_cong [OF assms(1-3)]
  have "set_ok h' B p" if v: "valid_ptr h p" for p
  proof -
    have ok: "set_ok h B p" using assms(1) v by (rule blocks_okD)
    have sum: "(\<Sum>x\<leftarrow>B p. Available h' x) = (\<Sum>x\<leftarrow>B p. Available h x)"
      by (intro arg_cong [where f = sum_list] map_cong) (auto simp: same)
    have ch: "block_chain h' c (B p) = block_chain h c (B p)" for c by (rule block_chain_cong) (simp add: same)
    show ?thesis using ok assms(4) [OF v] by (auto simp: set_ok_def set_view_def sum ch split: option.splits)
  qed
  then show ?thesis using assms(1) same same_core_valid_ptr [OF assms(2)] blocks_ok_regions [OF assms(1,2)]
      assms(2) by (auto simp: blocks_ok_def classes_ok_def simp del: split_paired_All) (auto simp: same_core_def)
qed

section \<open>Writing a free block\<close>

lemma Fill_same [simp]: "set_at (FillFreeObject a n h) = set_at h" "the_set (FillFreeObject a n h) = the_set h"
    "same_core h (FillFreeObject a n h)" "regions (FillFreeObject a n h) = regions h"
  by (simp_all add: FillFreeObject_def SetNext_def SetAvailable_def Let_def same_core_def)

lemma Fill_memory:
  assumes "i < a \<or> a + n \<le> i"
  shows "memory (FillFreeObject a n h) i = memory h i"
  using assms by (auto simp: FillFreeObject_def SetNext_def SetAvailable_def Let_def free_consts)

lemma TAG_INT_mod: "(SIZE_TAG + n) mod 2 ^ 32 = n mod 2 ^ 32"
proof -
  have "SIZE_TAG = 0xFFFF * 2 ^ 16 * 2 ^ 32" by (simp add: SIZE_TAG_def)
  then show ?thesis by (metis mod_mult_self3)
qed

lemma Fill_block:
  assumes "classes_ok h" "n mod 8 = 0" "MIN_SIZE \<le> n" "n < 2 ^ 32"
  shows "Available (FillFreeObject a n h) a = n"
    "memory (FillFreeObject a n h) a = (if n < FREE_OBJECT_SIZE then oneFieldClass h else twoFieldClass h)"
proof -
  have "n = 16 \<or> 24 \<le> n" using assms(2,3) by (auto simp: free_consts)
  then show "Available (FillFreeObject a n h) a = n"
    "memory (FillFreeObject a n h) a = (if n < FREE_OBJECT_SIZE then oneFieldClass h else twoFieldClass h)"
    using assms(1,4) TAG_INT_mod [of n]
    by (auto simp: FillFreeObject_def SetNext_def SetAvailable_def Let_def free_consts classes_ok_def
        Available_def IsFreeObjectWithShortField_def GetObjectSize_def)
qed

lemma in_data_bound: "blocks_ok h B \<Longrightarrow> in_data h r a n \<Longrightarrow> n \<le> 2 ^ 18 \<and> r < a \<and> a + n \<le> r + 2 ^ 18 \<and> a + n < 2 ^ 64"
  using blocks_okD(1) by (fastforce simp: in_data_def region_ok_def DEFAULT_REGION_SIZE_def)

definition apart :: "heap \<Rightarrow> (set_ptr \<Rightarrow> nat list) \<Rightarrow> nat \<Rightarrow> nat \<Rightarrow> bool" where
  "apart h B a n \<longleftrightarrow> (\<forall>q. \<forall>x \<in> set (B q). disj x (Available h x) a n)"

lemma apartD: "apart h B a n \<Longrightarrow> x \<in> set (B q) \<Longrightarrow> disj x (Available h x) a n"
  by (auto simp: apart_def simp del: split_paired_All)

lemma same_blocks_outside:
  assumes "apart h B a n" "\<And>i. i < a \<or> a + n \<le> i \<Longrightarrow> memory h' i = memory h i"
  shows "same_blocks B h h'"
  using assms by (fastforce simp: same_blocks_def disj_def dest: apartD simp del: split_paired_All)

lemma push_block:
  assumes ok: "blocks_ok h B" and p: "valid_ptr h p" "set_at h p \<noteq> None" and ap: "apart h B a n"
    and a: "a mod 8 = 0" "Available h a = n" "n mod 8 = 0" "MIN_SIZE \<le> n" "in_data h (fst p) a n"
      "SelectSetType n = int (snd p)"
      "memory h a = (if n < FREE_OBJECT_SIZE then oneFieldClass h else twoFieldClass h)"
  defines "h' \<equiv> FreeObjectSet_Free p a n h"
  shows "blocks_ok h' (B(p := a # B p))" "Available h' a = n" "same_core h h'"
    "\<And>i. i < a \<or> a + n \<le> i \<Longrightarrow> memory h' i = memory h i"
    "\<And>q. set_at h' q = (if q = p then Some ((the_set h p)\<lparr>freeObject := a,
        set_available := set_available (the_set h p) + of_nat n\<rparr>) else set_at h q)"
proof -
  obtain f where f: "set_at h p = Some f" "the_set h p = f" using p(2) by (auto simp: the_set_def)
  define h1 where "h1 = SetNext a (freeObject f) h"
  have h': "h' = update_set p (\<lambda>f. f\<lparr>freeObject := a, set_available := set_available f + of_nat n\<rparr>) h1"
    by (simp add: h'_def h1_def FreeObjectSet_Free_def f)
  have v1: "valid_ptr h1 p" using p by (simp add: h1_def SetNext_def)
  show core: "same_core h h'"
    using same_core_trans [of h h1 h'] v1 by (simp add: h' h1_def SetNext_def)
  show set': "set_at h' q = (if q = p then Some ((the_set h p)\<lparr>freeObject := a,
        set_available := set_available (the_set h p) + of_nat n\<rparr>) else set_at h q)" for q
    using v1 by (simp add: h' set_at_update_set) (simp add: h1_def SetNext_def)
  have mem: "memory h' = (memory h)(a + 8 := freeObject f)" by (simp add: h' h1_def SetNext_def free_consts)
  then show out: "memory h' i = memory h i" if "i < a \<or> a + n \<le> i" for i using that a(4) by (auto simp: free_consts)
  have cl: "oneFieldClass h' = oneFieldClass h" "twoFieldClass h' = twoFieldClass h" "noneFieldClass h' = noneFieldClass h"
    using core by (simp_all add: same_core_def)
  have "Available h' a = Available h a"
    by (simp add: Available_def mem IsFreeObjectWithShortField_def GetObjectSize_def cl free_consts Let_def)
  then show av: "Available h' a = n" using a(2) by simp
  note same = same_blocks_cong [OF ok core same_blocks_outside [OF ap out]]
  have fresh: "a \<notin> set (B q)" for q
    using apartD [OF ap, of a q] a(2,4) by (auto simp: disj_def free_consts)
  have inv: "a \<noteq> INVALID_OBJECT" using a(1) by (auto simp: INVALID_OBJECT_def)
  have block: "block_ok h' p a"
    using a core mem by (simp add: block_ok_def av cl in_data_cong free_consts)
  have sum: "(\<Sum>x\<leftarrow>B q. Available h' x) = (\<Sum>x\<leftarrow>B q. Available h x)" for q
    by (intro arg_cong [where f = sum_list] map_cong) (auto simp: same)
  have ch: "block_chain h' c (B q) = block_chain h c (B q)" for c q by (rule block_chain_cong) (simp add: same)
  have "set_ok h' (B(p := a # B p)) q" if v: "valid_ptr h q" for q
  proof -
    have okq: "set_ok h B q" using ok v by (rule blocks_okD)
    have "GetNext h' a = freeObject f" by (simp add: GetNext_def mem free_consts)
    then show ?thesis using okq by (auto simp: set_ok_def set' f sum ch av inv split: option.splits)
  qed
  moreover have "disj x (Available h' x) y (Available h' y)"
    if "x \<in> set ((B(p := a # B p)) q)" "y \<in> set ((B(p := a # B p)) q')" "x \<noteq> y" for x y q q'
  proof -
    have x: "x = a \<or> x \<in> set (B q)" and y: "y = a \<or> y \<in> set (B q')" using that by (auto split: if_splits)
    show ?thesis using x y that(3) apartD [OF ap] blocks_okD(5) [OF ok] disj_sym same(1) av by metis
  qed
  moreover have "\<forall>x \<in> set ((B(p := a # B p)) q). block_ok h' q x" for q using same(3) block by auto
  ultimately show "blocks_ok h' (B(p := a # B p))"
    using ok same_core_valid_ptr [OF core] blocks_ok_regions [OF ok core] p(1)
    by (auto simp: blocks_ok_def classes_ok_def cl simp del: split_paired_All)
qed

lemma in_data_region: "blocks_ok h B \<Longrightarrow> in_data h r a n \<Longrightarrow> 0 < n \<Longrightarrow> ObjectAddressToRange a = r"
proof -
  assume "blocks_ok h B" "in_data h r a n" "0 < n"
  then have "r mod DEFAULT_REGION_SIZE = 0" "r < a" "a < r + DEFAULT_REGION_SIZE"
    using blocks_okD(1) by (fastforce simp: in_data_def region_ok_def)+
  then obtain k where "a = r + k" "k < DEFAULT_REGION_SIZE" "r mod DEFAULT_REGION_SIZE = 0"
    by (metis add_less_cancel_left less_imp_add_positive)
  then show ?thesis by (simp add: ObjectAddressToRange_def mod_add_eq [of r _ k, symmetric])
qed

lemma same_set: "blocks_ok h B \<Longrightarrow> x \<in> set (B p) \<Longrightarrow> x \<in> set (B q) \<Longrightarrow> p = q"
proof -
  assume ok: "blocks_ok h B" and x: "x \<in> set (B p)" "x \<in> set (B q)"
  have b: "block_ok h p x" "block_ok h q x" using blocks_okD(3) [OF ok] x by auto
  then have "0 < Available h x" by (simp add: block_ok_def free_consts)
  then have "fst p = fst q" using b in_data_region [OF ok] by (metis block_ok_def)
  moreover have "snd p = snd q" using b by (auto simp: block_ok_def)
  ultimately show "p = q" by (simp add: prod_eq_iff)
qed

section \<open>The counter of lost bytes\<close>

definition wasted_same :: "heap \<Rightarrow> heap \<Rightarrow> bool" where
  "wasted_same h h' \<longleftrightarrow> (\<forall>r. map_option wasted (regions h' r) = map_option wasted (regions h r))"

lemma wasted_update_set: "valid_ptr h p \<Longrightarrow> map_option wasted (regions (update_set p g h) r) = map_option wasted (regions h r)"
  by (auto simp: update_set_def update_region_def region_at_def valid_ptr_def)

lemma wasted_same_trans: "wasted_same h h' \<Longrightarrow> wasted_same h' h'' \<Longrightarrow> wasted_same h h''"
  by (simp add: wasted_same_def)

lemma wasted_same_simps [simp]: "wasted_same h h" "wasted_same h (FillFreeObject a n h)" "wasted_same h (store b v h)"
  by (simp_all add: wasted_same_def)

lemma wasted_same_update_set: "valid_ptr h p \<Longrightarrow> wasted_same h (update_set p g h)"
  by (simp add: wasted_same_def wasted_update_set)

end
