(* ===== verification/Free_Unlink.thy ===== *)
theory Free_Unlink
  imports Free_Chains
begin

text \<open>
  Taking a block off its block_chain: the first block of a set, as for the small size classes, or the first one
  that is large enough.  Both leave every other block and every other set as they were.
\<close>

definition in_blocks :: "heap \<Rightarrow> (set_ptr \<Rightarrow> nat list) \<Rightarrow> nat \<Rightarrow> bool" where
  "in_blocks h B i \<longleftrightarrow> (\<exists>q. \<exists>x \<in> set (B q). x \<le> i \<and> i < x + Available h x)"

lemma chain_unlink:
  assumes "block_chain h c (xs @ a # ys)" "distinct (xs @ a # ys)"
    "\<And>x. x \<in> set (xs @ ys) \<Longrightarrow> GetNext h' x = (if xs \<noteq> [] \<and> x = last xs then GetNext h a else GetNext h x)"
  shows "block_chain h' (if xs = [] then GetNext h a else c) (xs @ ys)"
  using assms
proof (induction xs arbitrary: c)
  case Nil
  have "block_chain h' d ys = block_chain h d ys" for d using Nil.prems by (intro block_chain_cong) auto
  then show ?case using Nil.prems by simp
next
  case (Cons x xs)
  have "block_chain h' (if xs = [] then GetNext h a else GetNext h x) (xs @ ys)"
    using Cons.prems by (intro Cons.IH) (auto split: if_splits)
  moreover have "GetNext h' x = (if xs = [] then GetNext h a else GetNext h x)"
    using Cons.prems by (auto split: if_splits)
  ultimately show ?case using Cons.prems by simp
qed

lemma next_word_outside:
  assumes "blocks_ok h B" "x \<in> set (B p)" "y \<in> set (B q)" "x \<noteq> y" "x \<le> i" "i < x + Available h x"
  shows "i \<noteq> y + 8"
proof -
  have "MIN_SIZE \<le> Available h y" using blocks_okD(3) [OF assms(1,3)] by (simp add: block_ok_def)
  then show ?thesis using blocks_okD(5) [OF assms(1-4)] assms(5,6) by (auto simp: disj_def free_consts)
qed

lemma unlink_block:
  assumes ok: "blocks_ok h B" and p: "valid_ptr h p" "set_at h p = Some f" and B: "B p = xs @ a # ys"
    and core: "same_core h h'"
    and mem: "memory h' = ((if xs = [] then memory h else (memory h)(last xs + 8 := GetNext h a)))(a + 8 := INVALID_OBJECT)"
    and sets: "\<And>q. set_at h' q = (if q = p then Some f' else set_at h q)"
    and f': "setType f' = setType f" "freeObject f' = (if xs = [] then GetNext h a else freeObject f)"
      "set_available f' = set_available f - of_nat (Available h a)"
  shows "blocks_ok h' (B(p := xs @ ys))" "Available h' a = Available h a"
    "\<And>q x. x \<in> set (B q) \<Longrightarrow> Available h' x = Available h x"
    "apart h' (B(p := xs @ ys)) a (Available h a)" "\<And>i. \<not> in_blocks h B i \<Longrightarrow> memory h' i = memory h i"
proof -
  let ?B = "B(p := xs @ ys)"
  have sp: "set_ok h B p" using ok p(1) by (rule blocks_okD)
  then have ch: "block_chain h (freeObject f) (xs @ a # ys)" and st: "setType f = int (snd p)"
    and av: "set_available f = of_nat (\<Sum>x\<leftarrow>xs @ a # ys. Available h x)" using p(2) B by (auto simp: set_ok_def)
  have dist: "distinct (xs @ a # ys)" using ch by (rule chain_distinct)
  have sub: "x \<in> set (B q)" if "x \<in> set (?B q)" for x q using that B by (auto split: if_splits)
  have a: "a \<in> set (B p)" using B by simp
  have cl: "oneFieldClass h' = oneFieldClass h" "twoFieldClass h' = twoFieldClass h" "noneFieldClass h' = noneFieldClass h"
    using core by (simp_all add: same_core_def)
  have words: "memory h' i = memory h i" if x: "x \<in> set (B q)" and i: "x \<le> i" "i < x + Available h x" "i \<noteq> x + 8" for q x i
  proof -
    have "i \<noteq> a + 8" using next_word_outside [OF ok x a _ i(1,2)] i(3) by auto
    moreover have "i \<noteq> last xs + 8" if "xs \<noteq> []"
      using next_word_outside [OF ok x, of "last xs" p i] i B that by fastforce
    ultimately show ?thesis using mem by simp
  qed
  show avail: "Available h' x = Available h x" if x: "x \<in> set (B q)" for q x
  proof -
    have b: "block_ok h q x" using ok x by (rule blocks_okD)
    then have n: "MIN_SIZE \<le> Available h x" by (simp add: block_ok_def)
    have c: "memory h' x = memory h x" using words [OF x, of x] n by (simp add: free_consts)
    have s: "memory h' (x + 16) = memory h (x + 16)" if "24 \<le> Available h x" using words [OF x, of "x + 16"] that by simp
    show ?thesis
    proof (cases "Available h x < FREE_OBJECT_SIZE")
      case True
      then have "memory h x = oneFieldClass h" using b by (simp add: block_ok_def)
      then show ?thesis by (simp add: Available_def c IsFreeObjectWithShortField_def GetObjectSize_def cl Let_def)
    next
      case False
      then have "memory h' (x + 16) = memory h (x + 16)" by (intro s) (simp add: free_consts)
      then show ?thesis
        by (simp add: Available_def c IsFreeObjectWithShortField_def GetObjectSize_def cl Let_def free_consts)
    qed
  qed
  show "Available h' a = Available h a" using avail [OF a] .
  show "memory h' i = memory h i" if "\<not> in_blocks h B i" for i
  proof -
    have "\<not> (x \<le> i \<and> i < x + Available h x)" if "x \<in> set (B p)" for x
      using that \<open>\<not> in_blocks h B i\<close> by (auto simp: in_blocks_def simp del: split_paired_Ex split_paired_All)
    moreover have "MIN_SIZE \<le> Available h x" if "x \<in> set (B p)" for x
      using blocks_okD(3) [OF ok that] by (simp add: block_ok_def)
    ultimately have "i \<noteq> x + 8" if "x \<in> set (B p)" for x using that by (fastforce simp: free_consts)
    then have "i \<noteq> a + 8" "xs \<noteq> [] \<Longrightarrow> i \<noteq> last xs + 8" using B by auto
    then show ?thesis using mem by simp
  qed
  have block: "block_ok h' q x" if x: "x \<in> set (B q)" for q x
  proof -
    have b: "block_ok h q x" using ok x by (rule blocks_okD)
    moreover have "memory h' x = memory h x" using words [OF x, of x] b by (simp add: block_ok_def free_consts)
    ultimately show ?thesis using avail [OF x] core by (simp add: block_ok_def in_data_cong cl)
  qed
  have nxt: "GetNext h' x = (if xs \<noteq> [] \<and> q = p \<and> x = last xs then GetNext h a else GetNext h x)"
    if "x \<in> set (?B q)" for q x
  proof -
    have x: "x \<in> set (B q)" using sub that .
    have "x \<noteq> a" using that dist same_set [OF ok x, of p] a by (auto split: if_splits)
    then show ?thesis using same_set [OF ok x, of p] B by (auto simp: GetNext_def mem free_consts)
  qed
  have "disj x (Available h' x) a (Available h a)" if "x \<in> set (?B q)" for q x
  proof -
    have x: "x \<in> set (B q)" using sub that .
    moreover have "x \<noteq> a" using that dist same_set [OF ok x, of p] a by (auto split: if_splits)
    ultimately show ?thesis using blocks_okD(5) [OF ok x a] avail [OF x] by simp
  qed
  then show "apart h' ?B a (Available h a)" by (auto simp: apart_def simp del: split_paired_All)
  have sum: "(\<Sum>x\<leftarrow>?B q. Available h' x) = (\<Sum>x\<leftarrow>?B q. Available h x)" for q
    by (intro arg_cong [where f = sum_list] map_cong) (auto intro: avail sub simp del: fun_upd_apply)
  have "set_ok h' ?B q" if v: "valid_ptr h q" for q
  proof (cases "q = p")
    case True
    have "block_chain h' (freeObject f') (xs @ ys)"
      unfolding f' by (intro chain_unlink [OF ch dist]) (use nxt [of _ p] in auto)
    then show ?thesis using True av st sum [of p] by (simp add: set_ok_def sets f' add.commute)
  next
    case False
    have "block_chain h' c (B q) = block_chain h c (B q)" for c by (rule block_chain_cong) (use nxt [of _ q] False in auto)
    then show ?thesis using False blocks_okD(2) [OF ok v] sum [of q] by (auto simp: set_ok_def sets split: option.splits)
  qed
  moreover have "disj x (Available h' x) y (Available h' y)" if "x \<in> set (?B q)" "y \<in> set (?B q')" "x \<noteq> y" for x y q q'
    using blocks_okD(5) [OF ok sub [OF that(1)] sub [OF that(2)] that(3)] avail [OF sub [OF that(1)]] avail [OF sub [OF that(2)]]
    by simp
  moreover have "\<forall>x \<in> set (?B q). block_ok h' q x" for q using sub block by blast
  moreover have "?B q = []" if "\<not> valid_ptr h q" for q using ok that p(1) by (auto simp: blocks_ok_def simp del: split_paired_All)
  ultimately show "blocks_ok h' ?B"
    using ok same_core_valid_ptr [OF core] blocks_ok_regions [OF ok core]
    by (auto simp: blocks_ok_def classes_ok_def cl simp del: split_paired_All fun_upd_apply)
qed

section \<open>The operations of a set\<close>

text \<open>
  \<open>taken\<close> is what both ways of obtaining an object promise: the block \<open>a\<close> left its block_chain, memory outside
  of the blocks, the other sets and all links between sets are as before.
\<close>

definition taken :: "heap \<Rightarrow> (set_ptr \<Rightarrow> nat list) \<Rightarrow> set_ptr \<Rightarrow> nat \<Rightarrow> heap \<Rightarrow> bool" where
  "taken h B p a h' \<longleftrightarrow> a \<in> set (B p) \<and> same_core h h' \<and> wasted_same h h' \<and> blocks_ok h' (B(p := remove1 a (B p))) \<and>
     Available h' a = Available h a \<and> (\<forall>q. \<forall>x \<in> set (B q). Available h' x = Available h x) \<and>
     apart h' (B(p := remove1 a (B p))) a (Available h a) \<and>
     (\<forall>i. \<not> in_blocks h B i \<longrightarrow> memory h' i = memory h i) \<and>
     (\<forall>q. q \<noteq> p \<longrightarrow> set_at h' q = set_at h q) \<and>
     (\<exists>f f'. set_at h p = Some f \<and> set_at h' p = Some f' \<and> f' = f\<lparr>freeObject := freeObject f',
        set_available := set_available f - of_nat (Available h a)\<rparr>)"

lemma remove1_middle: "distinct (xs @ a # ys) \<Longrightarrow> remove1 a (xs @ a # ys) = xs @ ys"
  by (simp add: remove1_append)

lemma taken_intro:
  assumes ok: "blocks_ok h B" and p: "valid_ptr h p" "set_at h p = Some f" and B: "B p = xs @ a # ys"
    and "same_core h h'"
    and "memory h' = ((if xs = [] then memory h else (memory h)(last xs + 8 := GetNext h a)))(a + 8 := INVALID_OBJECT)"
    and sets: "\<And>q. set_at h' q = (if q = p then Some f' else set_at h q)"
    and f': "f' = f\<lparr>freeObject := (if xs = [] then GetNext h a else freeObject f),
      set_available := set_available f - of_nat (Available h a)\<rparr>"
    and ws: "wasted_same h h'"
  shows "taken h B p a h'"
proof -
  have "block_chain h (freeObject f) (xs @ a # ys)" using blocks_okD(2) [OF ok p(1)] p(2) B by (simp add: set_ok_def)
  then have r: "remove1 a (B p) = xs @ ys" unfolding B by (intro remove1_middle) (rule chain_distinct)
  have "setType f' = setType f" "freeObject f' = (if xs = [] then GetNext h a else freeObject f)"
    "set_available f' = set_available f - of_nat (Available h a)" by (simp_all add: f')
  note u = unlink_block [OF assms(1-7) this]
  have "f' = f\<lparr>freeObject := freeObject f', set_available := set_available f - of_nat (Available h a)\<rparr>"
    by (simp add: f')
  moreover have "a \<in> set (B p)" using B by simp
  ultimately show ?thesis unfolding taken_def r using u p(2) assms(5) sets ws by (auto simp del: split_paired_All)
qed

lemma ObtainSmall_none:
  "ObtainSmallFreeObject p n h = (h, INVALID_OBJECT)"
    if "\<not> (freeObject (the_set h p) \<noteq> INVALID_OBJECT \<and> n \<le> Available h (freeObject (the_set h p)))"
  using that by (simp add: ObtainSmallFreeObject_def Let_def)

lemma the_set_simps: "set_at h p = Some f \<Longrightarrow> the_set h p = f"
  by (simp add: the_set_def)

lemma ObtainSmall_some:
  assumes ok: "blocks_ok h B" and p: "valid_ptr h p" "set_at h p = Some f" and B: "B p = a # ys"
    and n: "n \<le> Available h a"
  obtains h' where "ObtainSmallFreeObject p n h = (h', a)" "taken h B p a h'"
proof -
  have ch: "block_chain h (freeObject f) (a # ys)" using blocks_okD(2) [OF ok p(1)] p(2) B by (simp add: set_ok_def)
  then have a: "freeObject f = a" "a \<noteq> INVALID_OBJECT" by simp_all
  define h1 where "h1 = update_set p (\<lambda>f. f\<lparr>freeObject := GetNext h a\<rparr>) h"
  define h2 where "h2 = SetNext a INVALID_OBJECT h1"
  define h3 where "h3 = update_set p (\<lambda>f. f\<lparr>set_available := set_available f - of_nat (Available h2 a)\<rparr>) h2"
  have v: "valid_ptr h1 p" "valid_ptr h2 p" using p(1) by (simp_all add: h1_def h2_def SetNext_def)
  have "same_core h h1" "same_core h1 h2" "same_core h2 h3"
    using p(1) v by (simp add: h1_def, simp add: h2_def SetNext_def, simp add: h3_def)
  then have core: "same_core h h3" by (blast intro: same_core_trans)
  have "wasted_same h h1" "wasted_same h1 h2" "wasted_same h2 h3"
    using p(1) v by (simp add: h1_def wasted_same_update_set SetNext_def, simp add: h2_def SetNext_def,
        simp add: h3_def wasted_same_update_set)
  then have ws: "wasted_same h h3" by (blast intro: wasted_same_trans)
  have av: "Available h2 a = Available h a"
    by (simp add: h2_def h1_def SetNext_def Available_def IsFreeObjectWithShortField_def GetObjectSize_def Let_def free_consts)
  have "taken h B p a h3"
  proof (rule taken_intro [OF ok p, of "[]" a ys])
    show "set_at h3 q = (if q = p then Some (f\<lparr>freeObject := GetNext h a,
        set_available := set_available f - of_nat (Available h a)\<rparr>) else set_at h q)" for q
      using v p by (simp add: h3_def set_at_update_set av)
        (simp add: h2_def h1_def SetNext_def set_at_update_set the_set_update_set the_set_simps)
  qed (use B core ws in \<open>simp_all add: h3_def h2_def h1_def SetNext_def free_consts\<close>)
  moreover have "ObtainSmallFreeObject p n h = (h3, a)"
    using a n p(2) by (simp add: ObtainSmallFreeObject_def the_set_simps h1_def h2_def h3_def Let_def)
  ultimately show ?thesis using that by blast
qed

lemma large_found:
  assumes ok: "blocks_ok h B" and p: "valid_ptr h p" "set_at h p = Some f" and B: "B p = xs @ a # ys"
    and n: "n \<le> Available h a"
  obtains h' where "obtain_large_loop p n h (if xs = [] then a else last xs) a = Some (h', a)" "taken h B p a h'"
proof -
  have ch: "block_chain h (freeObject f) (xs @ a # ys)" using blocks_okD(2) [OF ok p(1)] p(2) B by (simp add: set_ok_def)
  then have dist: "distinct (xs @ a # ys)" by (rule chain_distinct)
  have a: "a \<noteq> INVALID_OBJECT" using chain_append [OF ch] by simp
  have first: "a = freeObject f \<longleftrightarrow> xs = []" using ch dist by (cases xs) auto
  define h1 where "h1 = (if xs = [] then update_set p (\<lambda>f. f\<lparr>freeObject := GetNext h a\<rparr>) h
    else SetNext (last xs) (GetNext h a) h)"
  define h2 where "h2 = SetNext a INVALID_OBJECT h1"
  define h3 where "h3 = update_set p (\<lambda>f. f\<lparr>set_available := set_available f - of_nat (Available h2 a)\<rparr>) h2"
  have v: "valid_ptr h1 p" "valid_ptr h2 p" using p(1) by (simp_all add: h1_def h2_def SetNext_def)
  have "same_core h h1" "same_core h1 h2" "same_core h2 h3"
    using p(1) v by (simp add: h1_def SetNext_def, simp add: h2_def SetNext_def, simp add: h3_def)
  then have core: "same_core h h3" by (blast intro: same_core_trans)
  have "wasted_same h h1" "wasted_same h1 h2" "wasted_same h2 h3"
    using p(1) v by (simp add: h1_def wasted_same_update_set SetNext_def, simp add: h2_def SetNext_def,
        simp add: h3_def wasted_same_update_set)
  then have ws: "wasted_same h h3" by (blast intro: wasted_same_trans)
  have out: "memory h1 (a + k) = memory h (a + k)" if "k < Available h a" "k \<noteq> 8" for k
  proof (cases "xs = []")
    case False
    then have "last xs \<noteq> a" "last xs \<in> set (B p)" "a \<in> set (B p)" using dist B by auto
    then have "a + k \<noteq> last xs + 8" using next_word_outside [OF ok, of a p "last xs" p "a + k"] that by auto
    then show ?thesis using False by (simp add: h1_def SetNext_def free_consts)
  qed (simp add: h1_def)
  have av: "Available h2 a = Available h a"
  proof -
    have b: "block_ok h p a" using blocks_okD(3) [OF ok] B by simp
    have c: "memory h2 a = memory h a" using out [of 0] b by (simp add: h2_def SetNext_def block_ok_def free_consts)
    have cl: "oneFieldClass h2 = oneFieldClass h" "noneFieldClass h2 = noneFieldClass h"
      by (simp_all add: h2_def h1_def SetNext_def)
    show ?thesis
    proof (cases "Available h a < FREE_OBJECT_SIZE")
      case True
      then have "memory h a = oneFieldClass h" using b by (simp add: block_ok_def)
      then show ?thesis by (simp add: Available_def c IsFreeObjectWithShortField_def GetObjectSize_def cl Let_def)
    next
      case False
      then have "memory h2 (a + 16) = memory h (a + 16)" using out [of 16] by (simp add: h2_def SetNext_def free_consts)
      then show ?thesis
        by (simp add: Available_def c IsFreeObjectWithShortField_def GetObjectSize_def cl Let_def free_consts)
    qed
  qed
  have "taken h B p a h3"
  proof (rule taken_intro [OF ok p B core _ _ refl ws])
    show "set_at h3 q = (if q = p then Some (f\<lparr>freeObject := (if xs = [] then GetNext h a else freeObject f),
        set_available := set_available f - of_nat (Available h a)\<rparr>) else set_at h q)" for q
      using v p by (simp add: h3_def set_at_update_set av)
        (simp add: h2_def h1_def SetNext_def set_at_update_set the_set_update_set the_set_simps)
  qed (simp_all add: h3_def h2_def h1_def SetNext_def free_consts)
  moreover have "obtain_large_loop p n h (if xs = [] then a else last xs) a = Some (h3, a)"
    using a n p(2) first
    by (subst obtain_large_loop.simps) (auto simp: the_set_simps h1_def h2_def h3_def Let_def)
  ultimately show ?thesis using that by blast
qed

lemma large_loop:
  assumes "blocks_ok h B" "valid_ptr h p" "set_at h p = Some f" "B p = xs @ ys"
    "\<forall>x \<in> set xs. Available h x < n"
    "cur = (case ys of [] \<Rightarrow> INVALID_OBJECT | y # _ \<Rightarrow> y)" "previous = (if xs = [] then cur else last xs)"
  shows "(\<exists>h' a. obtain_large_loop p n h previous cur = Some (h', a) \<and> taken h B p a h' \<and> n \<le> Available h a) \<or>
    (obtain_large_loop p n h previous cur = Some (h, INVALID_OBJECT) \<and> (\<forall>x \<in> set (B p). Available h x < n))"
  using assms
proof (induction ys arbitrary: xs previous cur)
  case Nil
  then show ?case by (subst (1 2) obtain_large_loop.simps) simp
next
  case (Cons y ys)
  have ch: "block_chain h (freeObject f) (xs @ y # ys)" using blocks_okD(2) Cons.prems by (fastforce simp: set_ok_def)
  show ?case
  proof (cases "n \<le> Available h y")
    case True
    then show ?thesis using large_found [OF Cons.prems(1-4) True] Cons.prems(6,7) by (metis list.simps(5))
  next
    case False
    have cy: "block_chain h y (y # ys)" using chain_append [OF ch] .
    then have nx: "GetNext h y = (case ys of [] \<Rightarrow> INVALID_OBJECT | z # _ \<Rightarrow> z)" by (cases ys) auto
    have "obtain_large_loop p n h previous cur = obtain_large_loop p n h y (GetNext h y)"
      using False Cons.prems(6) cy by (subst obtain_large_loop.simps) simp
    then show ?thesis using Cons.IH [of "xs @ [y]" "GetNext h y" y] Cons.prems False nx by simp
  qed
qed

lemma ObtainLarge_spec:
  assumes "blocks_ok h B" "valid_ptr h p" "set_at h p = Some f"
  shows "(\<exists>h' a. ObtainLargeFreeObject p n h = Some (h', a) \<and> taken h B p a h' \<and> n \<le> Available h a) \<or>
    (ObtainLargeFreeObject p n h = Some (h, INVALID_OBJECT) \<and> (\<forall>x \<in> set (B p). Available h x < n))"
proof -
  have "block_chain h (freeObject f) (B p)" using blocks_okD(2) assms by (fastforce simp: set_ok_def)
  then have "freeObject f = (case B p of [] \<Rightarrow> INVALID_OBJECT | y # _ \<Rightarrow> y)" by (cases "B p") auto
  then show ?thesis using large_loop [OF assms, of "[]" "B p" n "freeObject f" "freeObject f"] assms(3)
    by (simp add: ObtainLargeFreeObject_def the_set_simps)
qed

lemma lookup_loop:
  "block_chain h cur ys \<Longrightarrow> lookup_large_loop n h cur =
     Some (case filter (\<lambda>x. n \<le> Available h x) ys of [] \<Rightarrow> INVALID_OBJECT | x # _ \<Rightarrow> x)"
proof (induction ys arbitrary: cur)
  case Nil
  then show ?case by (subst lookup_large_loop.simps) simp
next
  case (Cons y ys)
  then show ?case by (subst lookup_large_loop.simps) auto
qed

end
