(* ===== verification/Free_Set_Lists.thy ===== *)
theory Free_Set_Lists
  imports Free_Unlink
begin

text \<open>
  The lists of sets of a free list.  \<open>linked\<close> follows a doubly linked list of sets; \<open>list_links h fl L\<close>
  says that \<open>L\<close> gives, for every size class, the sets that the free list chains, with the bitmap of the
  classes that have one and the flag of the sets that are on a list; \<open>list_ok\<close> adds that listed sets are
  not empty and that the free list counts its bytes right.
\<close>

definition first_of :: "'a list \<Rightarrow> 'a option" where
  "first_of xs = (case xs of [] \<Rightarrow> None | x # _ \<Rightarrow> Some x)"

definition last_of :: "'a list \<Rightarrow> 'a option" where
  "last_of xs = (if xs = [] then None else Some (last xs))"

lemma first_of_simps [simp]: "first_of [] = None" "first_of (x # xs) = Some x" "first_of xs = None \<longleftrightarrow> xs = []"
  by (simp_all add: first_of_def split: list.split)

lemma last_of_simps [simp]: "last_of [] = None" "last_of (x # xs) = (if xs = [] then Some x else last_of xs)"
    "last_of xs = None \<longleftrightarrow> xs = []"
  by (simp_all add: last_of_def)

lemma first_of_append: "first_of (xs @ ys) = (if xs = [] then first_of ys else first_of xs)"
  by (cases xs) simp_all

lemma last_of_append: "last_of (xs @ ys) = (if ys = [] then last_of xs else last_of ys)"
  by (simp add: last_of_def)

fun linked :: "heap \<Rightarrow> set_ptr option \<Rightarrow> set_ptr list \<Rightarrow> set_ptr option \<Rightarrow> bool" where
  "linked h prv [] nxt = True"
| "linked h prv (p # ps) nxt = (\<exists>f. set_at h p = Some f \<and> prev_set f = prv \<and>
     next_set f = (if ps = [] then nxt else first_of ps) \<and> linked h (Some p) ps nxt)"

definition links :: "free_set \<Rightarrow> set_ptr option \<times> set_ptr option" where
  "links f = (prev_set f, next_set f)"

lemma linked_cong:
  assumes "\<And>p. p \<in> set ps \<Longrightarrow> map_option links (set_at h' p) = map_option links (set_at h p)"
  shows "linked h' prv ps nxt = linked h prv ps nxt"
  using assms
proof (induction ps arbitrary: prv)
  case (Cons p ps)
  have "map_option links (set_at h' p) = map_option links (set_at h p)"
    by (rule Cons.prems) simp
  then show ?case using Cons.IH [of "Some p"] Cons.prems
    by (cases "set_at h p"; cases "set_at h' p") (auto simp: links_def)
qed simp

lemma linked_append:
  "linked h prv (xs @ ys) nxt \<longleftrightarrow> linked h prv xs (if ys = [] then nxt else first_of ys) \<and>
     linked h (if xs = [] then prv else last_of xs) ys nxt"
proof (induction xs arbitrary: prv)
  case (Cons x xs)
  show ?case using Cons.IH [of "Some x"] first_of_append [of xs ys] by (cases "xs = []"; cases "ys = []") (simp_all, blast+)
qed simp

lemma linked_set_next:
  assumes "linked h prv (zs @ [z]) n" "z \<notin> set zs" "valid_ptr h z"
  shows "linked (update_set z (\<lambda>f. f\<lparr>next_set := m\<rparr>) h) prv (zs @ [z]) m"
proof -
  have "linked (update_set z (\<lambda>f. f\<lparr>next_set := m\<rparr>) h) prv zs (Some z) = linked h prv zs (Some z)"
    by (rule linked_cong) (use assms in \<open>auto simp: set_at_update_set\<close>)
  then show ?thesis using assms by (auto simp: linked_append set_at_update_set the_set_def)
qed

lemma linked_set_prev:
  assumes "linked h prv (y # ys) n" "y \<notin> set ys" "valid_ptr h y"
  shows "linked (update_set y (\<lambda>f. f\<lparr>prev_set := m\<rparr>) h) m (y # ys) n"
proof -
  have "linked (update_set y (\<lambda>f. f\<lparr>prev_set := m\<rparr>) h) (Some y) ys n = linked h (Some y) ys n"
    by (rule linked_cong) (use assms in \<open>auto simp: set_at_update_set\<close>)
  then show ?thesis using assms by (auto simp: set_at_update_set the_set_def)
qed

definition list_links :: "heap \<Rightarrow> free_list \<Rightarrow> (nat \<Rightarrow> set_ptr list) \<Rightarrow> bool" where
  "list_links h fl L \<longleftrightarrow> length (list_sets fl) = NUMBER_OF_SETS \<and> length (lastSets fl) = NUMBER_OF_SETS \<and>
     (\<forall>t < NUMBER_OF_SETS. list_sets fl ! t = first_of (L t) \<and> lastSets fl ! t = last_of (L t)) \<and>
     (\<forall>t. linked h None (L t) None \<and> distinct (L t) \<and> (\<forall>p \<in> set (L t). snd p = t \<and> valid_ptr h p)) \<and>
     (\<forall>t. bit (noneEmptySetBitMap fl) t \<longleftrightarrow> L t \<noteq> []) \<and> (\<forall>t. NUMBER_OF_SETS \<le> t \<longrightarrow> L t = []) \<and>
     (\<forall>p f. valid_ptr h p \<longrightarrow> set_at h p = Some f \<longrightarrow> isAdded f = (p \<in> set (L (snd p))))"

definition set_size :: "heap \<Rightarrow> (set_ptr \<Rightarrow> nat list) \<Rightarrow> set_ptr \<Rightarrow> nat" where
  "set_size h B p = (\<Sum>x\<leftarrow>B p. Available h x)"

definition list_size :: "heap \<Rightarrow> (set_ptr \<Rightarrow> nat list) \<Rightarrow> (nat \<Rightarrow> set_ptr list) \<Rightarrow> nat" where
  "list_size h B L = (\<Sum>t < NUMBER_OF_SETS. \<Sum>p\<leftarrow>L t. set_size h B p)"

definition list_ok :: "heap \<Rightarrow> (set_ptr \<Rightarrow> nat list) \<Rightarrow> free_list \<Rightarrow> (nat \<Rightarrow> set_ptr list) \<Rightarrow> bool" where
  "list_ok h B fl L \<longleftrightarrow> list_links h fl L \<and> (\<forall>t. \<forall>p \<in> set (L t). B p \<noteq> []) \<and>
     list_available fl = of_nat (list_size h B L)"

lemma list_linksD:
  assumes "list_links h fl L"
  shows "length (list_sets fl) = NUMBER_OF_SETS" "length (lastSets fl) = NUMBER_OF_SETS"
    and "t < NUMBER_OF_SETS \<Longrightarrow> list_sets fl ! t = first_of (L t)"
    and "t < NUMBER_OF_SETS \<Longrightarrow> lastSets fl ! t = last_of (L t)"
    and "linked h None (L t) None" "distinct (L t)"
    and "p \<in> set (L t) \<Longrightarrow> snd p = t" "p \<in> set (L t) \<Longrightarrow> valid_ptr h p"
    and "bit (noneEmptySetBitMap fl) t \<longleftrightarrow> L t \<noteq> []"
    and "valid_ptr h p \<Longrightarrow> set_at h p = Some f \<Longrightarrow> isAdded f = (p \<in> set (L (snd p)))"
    and "L t \<noteq> [] \<Longrightarrow> t < NUMBER_OF_SETS"
  using assms by (auto simp: list_links_def not_le [symmetric] simp del: split_paired_All)

lemma linked_set_at: "linked h prv ps nxt \<Longrightarrow> p \<in> set ps \<Longrightarrow> set_at h p \<noteq> None"
  by (induction ps arbitrary: prv) auto

section \<open>The bytes of a set\<close>

lemma disjoint_sum:
  assumes "distinct xs" "\<And>x. x \<in> set xs \<Longrightarrow> b \<le> x \<and> x + len x \<le> e"
    "\<And>x y. x \<in> set xs \<Longrightarrow> y \<in> set xs \<Longrightarrow> x \<noteq> y \<Longrightarrow> disj x (len x) y (len y)"
  shows "(\<Sum>x\<leftarrow>xs. len x) \<le> e - b"
proof -
  have "(\<Sum>x\<leftarrow>xs. len x) = (\<Sum>x\<in>set xs. len x)" using assms(1) by (simp add: sum_list_distinct_conv_sum_set)
  also have "\<dots> = (\<Sum>x\<in>set xs. card {x..<x + len x})" by simp
  also have "\<dots> = card (\<Union>x\<in>set xs. {x..<x + len x})"
    using assms(3) by (intro card_UN_disjoint [symmetric]) (fastforce simp: disj_def)+
  also have "\<dots> \<le> card {b..<e}" using assms(2) by (intro card_mono) fastforce+
  finally show ?thesis by simp
qed

lemma set_size_bound: "blocks_ok h B \<Longrightarrow> set_size h B p \<le> 2 ^ 18"
proof (cases "B p = []")
  case False
  assume ok: "blocks_ok h B"
  from False obtain y where y: "y \<in> set (B p)" by (cases "B p") auto
  then have v: "valid_ptr h p" using ok by (simp add: blocks_okD)
  have "set_ok h B p" using ok v by (rule blocks_okD)
  then have d: "distinct (B p)" using False by (auto simp: set_ok_def chain_distinct split: option.splits)
  have "(\<Sum>x\<leftarrow>B p. Available h x) \<le> (fst p + 2 ^ 18) - fst p"
  proof (rule disjoint_sum [OF d])
    fix x assume x: "x \<in> set (B p)"
    then show "fst p \<le> x \<and> x + Available h x \<le> fst p + 2 ^ 18"
      using in_data_bound [OF ok] blocks_okD(3) [OF ok x] by (fastforce simp: block_ok_def)
  qed (use blocks_okD(5) [OF ok] in auto)
  then show ?thesis by (simp add: set_size_def)
qed (simp add: set_size_def)

lemma set_available_eq:
  assumes "blocks_ok h B" "valid_ptr h p" "set_at h p = Some f"
  shows "set_available f = of_nat (set_size h B p)" "unat (set_available f) = set_size h B p"
    "set_available f = 0 \<longleftrightarrow> B p = []"
proof -
  show s: "set_available f = of_nat (set_size h B p)"
    using blocks_okD(2) [OF assms(1,2)] assms(3) by (simp add: set_ok_def set_size_def)
  show u: "unat (set_available f) = set_size h B p"
    unfolding s using set_size_bound [OF assms(1), of p] by (simp add: unat_of_nat)
  have "0 < set_size h B p" if x: "x \<in> set (B p)" for x
  proof -
    have "0 < Available h x" using blocks_okD(3) [OF assms(1) x] by (simp add: block_ok_def free_consts)
    also have "\<dots> \<le> set_size h B p" unfolding set_size_def using x by (intro member_le_sum_list) auto
    finally show ?thesis .
  qed
  then have "0 < set_size h B p" if "B p \<noteq> []" using that by (metis list.set_intros(1) neq_Nil_conv)
  moreover have "set_size h B p = 0" if "B p = []" using that by (simp add: set_size_def)
  ultimately show "set_available f = 0 \<longleftrightarrow> B p = []"
    unfolding unat_eq_zero [symmetric] u by (cases "B p = []") simp_all
qed

section \<open>Putting a set on its list\<close>

text \<open>
  \<open>relinked h h'\<close>: only links and flags of sets changed.
\<close>

definition relinked :: "heap \<Rightarrow> heap \<Rightarrow> bool" where
  "relinked h h' \<longleftrightarrow> same_core h h' \<and> memory h' = memory h \<and>
     (\<forall>p. map_option set_view (set_at h' p) = map_option set_view (set_at h p)) \<and>
     (\<forall>r. map_option wasted (regions h' r) = map_option wasted (regions h r))"

lemma relinked_refl [simp]: "relinked h h"
  by (simp add: relinked_def)

lemma relinked_trans: "relinked h h' \<Longrightarrow> relinked h' h'' \<Longrightarrow> relinked h h''"
  by (auto simp: relinked_def intro: same_core_trans simp del: split_paired_All)

lemma relinked_set_at:
  assumes "relinked h h'" "set_at h' q = Some g'"
  obtains g where "set_at h q = Some g" "set_view g = set_view g'"
proof -
  have "map_option set_view (set_at h' q) = map_option set_view (set_at h q)"
    using assms(1) by (simp add: relinked_def del: split_paired_All)
  then show ?thesis using assms(2) that by (cases "set_at h q") auto
qed

lemma view_update_set:
  assumes "valid_ptr h p" "set_at h p \<noteq> None" "v (g (the_set h p)) = v (the_set h p)"
  shows "map_option v (set_at (update_set p g h) q) = map_option v (set_at h q)"
  using assms by (auto simp: set_at_update_set the_set_def)

lemma relinked_update_set:
  assumes "valid_ptr h p" "set_at h p \<noteq> None" "set_view (g (the_set h p)) = set_view (the_set h p)"
  shows "relinked h (update_set p g h)"
  using assms by (auto simp: relinked_def set_at_update_set the_set_def wasted_update_set simp del: split_paired_All)

lemma relinked_blocks:
  assumes "relinked h h'" "blocks_ok h B"
  shows "blocks_ok h' B" "Available h' x = Available h x" "set_size h' B p = set_size h B p"
    "list_size h' B L = list_size h B L" "valid_ptr h' p \<longleftrightarrow> valid_ptr h p"
proof -
  have core: "same_core h h'" and mem: "memory h' = memory h"
    and sv: "\<And>p. map_option set_view (set_at h' p) = map_option set_view (set_at h p)"
    using assms(1) by (auto simp: relinked_def simp del: split_paired_All)
  show "blocks_ok h' B" using blocks_ok_cong [OF assms(2) core _ sv] mem by (simp add: same_blocks_def)
  have av: "Available h' x = Available h x" for x
    using core mem by (simp add: Available_def IsFreeObjectWithShortField_def GetObjectSize_def same_core_def Let_def)
  then show "Available h' x = Available h x" "set_size h' B p = set_size h B p" "list_size h' B L = list_size h B L"
    by (simp_all add: set_size_def list_size_def)
  show "valid_ptr h' p \<longleftrightarrow> valid_ptr h p" using core by (rule same_core_valid_ptr)
qed

lemma sum_upd: "t < N \<Longrightarrow> (\<Sum>u < N. f ((L(t := x)) u)) + f (L t) = (\<Sum>u < N. f (L u)) + f x" for f :: "'b \<Rightarrow> nat" and N :: nat
proof -
  assume t: "t < N"
  have "(\<Sum>u < N. f ((L(t := x)) u)) = f x + (\<Sum>u \<in> {..<N} - {t}. f ((L(t := x)) u))"
    using t by (subst sum.remove [of _ t]) auto
  moreover have "(\<Sum>u < N. f (L u)) = f (L t) + (\<Sum>u \<in> {..<N} - {t}. f (L u))"
    using t by (subst sum.remove [of _ t]) auto
  moreover have "(\<Sum>u \<in> {..<N} - {t}. f ((L(t := x)) u)) = (\<Sum>u \<in> {..<N} - {t}. f (L u))"
    by (intro sum.cong) auto
  ultimately show ?thesis by simp
qed

lemma AddSet_spec:
  assumes ok: "blocks_ok h B" and links: "list_links h fl L" and p: "valid_ptr h p" "set_at h p = Some f"
    and t: "snd p = t" "t < NUMBER_OF_SETS" and new: "\<not> isAdded f" "B p \<noteq> []"
  obtains h' fl' where "AddSet p h fl = (h', fl')" "relinked h h'" "list_links h' fl' (L(t := p # L t))"
    "list_available fl' = list_available fl + set_available f" "list_wasted fl' = list_wasted fl"
proof -
  have st: "setType f = int t" using blocks_okD(2) [OF ok p(1)] p(2) t by (simp add: set_ok_def)
  have ne: "set_available f \<noteq> 0" using set_available_eq [OF ok p] new by simp
  have pn: "p \<notin> set (L t)" using list_linksD(10) [OF links p] new t by simp
  then have top: "Some p \<noteq> first_of (L t)" by (cases "L t") auto
  note D = list_linksD [OF links]
  define h1 where "h1 = (case first_of (L t) of None \<Rightarrow> h | Some q \<Rightarrow> update_set q (\<lambda>f. f\<lparr>prev_set := Some p\<rparr>) h)"
  define h2 where "h2 = update_set p (\<lambda>f. f\<lparr>isAdded := True, next_set := first_of (L t), prev_set := None\<rparr>) h1"
  have hd: "valid_ptr h q" "set_at h q \<noteq> None" "q \<noteq> p" if "first_of (L t) = Some q" for q
    using that D(8) [of q t] linked_set_at [OF D(5), of q t] pn by (cases "L t"; auto)+
  have r1: "relinked h h1" using hd by (auto simp: h1_def set_view_def split: option.split intro!: relinked_update_set)
  have v1: "valid_ptr h1 p" using relinked_blocks(5) [OF r1 ok] p by simp
  have s1: "set_at h1 p = Some f" using p hd by (auto simp: h1_def set_at_update_set split: option.split)
  have "relinked h1 h2" unfolding h2_def using v1 s1 by (intro relinked_update_set) (simp_all add: set_view_def)
  with r1 have r2: "relinked h h2" by (rule relinked_trans)
  have other: "map_option links (set_at h2 q) = map_option links (set_at h q)" if "snd q \<noteq> t" for q
    using that t v1 hd D(7) [of _ t]
    by (cases "L t") (auto simp: h2_def h1_def set_at_update_set split: option.split)
  have flag: "isAdded g' \<longleftrightarrow> q = p \<or> isAdded g" if "set_at h2 q = Some g'" "set_at h q = Some g" for q g g'
    using that v1 s1 hd by (cases "L t") (auto simp: h2_def h1_def set_at_update_set the_set_def split: if_splits option.splits)
  have "linked h1 (Some p) (L t) None"
    using linked_set_prev [of h None _ _ None "Some p"] D(5,6) [of t] hd by (cases "L t") (auto simp: h1_def)
  then have "linked h2 (Some p) (L t) None"
    by (subst linked_cong [where h = h1]) (use pn v1 in \<open>auto simp: h2_def set_at_update_set\<close>)
  then have lt: "linked h2 None (p # L t) None" using v1 s1 by (simp add: h2_def set_at_update_set the_set_def)
  define fl1 where "fl1 = (if last_of (L t) = None then fl\<lparr>lastSets := (lastSets fl)[t := Some p]\<rparr> else fl)"
  define fl2 where "fl2 = (if first_of (L t) = None then SetNoneEmptyBit (int t) fl1 else fl1)"
  define fl3 where "fl3 = fl2\<lparr>list_sets := (list_sets fl)[t := Some p]\<rparr>"
  let ?L = "L(t := p # L t)"
  have bits: "bit (noneEmptySetBitMap fl3) u \<longleftrightarrow> ?L u \<noteq> []" for u
    using D(9) [of u] t(2)
    by (auto simp: fl3_def fl2_def fl1_def SetNoneEmptyBit_def bit_or_iff bit_exp_iff free_consts)
  have "list_links h2 (fl3\<lparr>list_available := x\<rparr>) ?L" for x
    unfolding list_links_def
  proof (intro conjI allI impI ballI)
    show "length (list_sets (fl3\<lparr>list_available := x\<rparr>)) = NUMBER_OF_SETS" "length (lastSets (fl3\<lparr>list_available := x\<rparr>)) = NUMBER_OF_SETS"
      using D(1,2) by (simp_all add: fl3_def fl2_def fl1_def SetNoneEmptyBit_def)
    fix u
    show "linked h2 None (?L u) None"
      using lt D(5) [of u] D(7) [of _ u] by (auto simp: linked_cong [of "L u" h2 h] other)
    show "distinct (?L u)" using D(6) pn by simp
    show "bit (noneEmptySetBitMap (fl3\<lparr>list_available := x\<rparr>)) u = (?L u \<noteq> [])" using bits by simp
    show "?L u = []" if "NUMBER_OF_SETS \<le> u" using D(11) [of u] that t by auto
    show "list_sets (fl3\<lparr>list_available := x\<rparr>) ! u = first_of (?L u)" "lastSets (fl3\<lparr>list_available := x\<rparr>) ! u = last_of (?L u)"
      if "u < NUMBER_OF_SETS"
      using D(1-4) that t(2) by (auto simp: fl3_def fl2_def fl1_def SetNoneEmptyBit_def nth_list_update)
    fix q assume q: "q \<in> set (?L u)"
    show "snd q = u" using q D(7) [of q u] t by (auto split: if_splits)
    show "valid_ptr h2 q" using q D(8) [of q u] relinked_blocks(5) [OF r2 ok] p by (auto split: if_splits)
  next
    fix q g' assume q: "valid_ptr h2 q" "set_at h2 q = Some g'"
    then obtain g where g: "set_at h q = Some g" "valid_ptr h q"
      using relinked_set_at [OF r2] relinked_blocks(5) [OF r2 ok] by metis
    then show "isAdded g' = (q \<in> set (?L (snd q)))" using flag [OF q(2) g(1)] D(10) [OF g(2,1)] t by auto
  qed
  moreover have "AddSet p h fl = (h2, fl3\<lparr>list_available := list_available fl + set_available f\<rparr>)"
  proof -
    have "set_available (the_set h2 p) = set_available f" using v1 s1 by (simp add: h2_def the_set_update_set the_set_simps)
    moreover have "list_sets fl1 = list_sets fl" "list_sets fl2 = list_sets fl" "list_available fl2 = list_available fl"
      by (simp_all add: fl1_def fl2_def SetNoneEmptyBit_def)
    moreover have "update_set p (\<lambda>f. f\<lparr>isAdded := True, next_set := None, prev_set := None\<rparr>) h = h2" if "L t = []"
      using that by (simp add: h2_def h1_def)
    ultimately show ?thesis using ne new top p(2) st D(3,4) [of t] t
      by (cases "L t = []") (auto simp: AddSet_def FreeObjectSet_Empty_def the_set_simps Let_def h1_def [symmetric]
          h2_def [symmetric] fl1_def fl2_def fl3_def SetNoneEmptyBit_def)
  qed
  moreover have "list_wasted fl3 = list_wasted fl" by (simp add: fl3_def fl2_def fl1_def SetNoneEmptyBit_def)
  ultimately show ?thesis using that r2 by simp
qed

section \<open>Taking a set off its list\<close>

lemma RemoveSet_spec:
  assumes ok: "blocks_ok h B" and links: "list_links h fl L" and p: "p \<in> set (L t)" "set_at h p = Some f"
  obtains h' fl' where "RemoveSet p h fl = (h', fl')" "relinked h h'" "list_links h' fl' (L(t := remove1 p (L t)))"
    "list_available fl' = list_available fl - set_available f" "list_wasted fl' = list_wasted fl"
proof -
  note D = list_linksD [OF links]
  obtain xs ys where L: "L t = xs @ p # ys" using p(1) by (auto simp: in_set_conv_decomp)
  have dist: "distinct (xs @ p # ys)" using D(6) [of t] L by simp
  then have r: "remove1 p (L t) = xs @ ys" using L by (simp add: remove1_append)
  have t: "snd p = t" "t < NUMBER_OF_SETS" "valid_ptr h p" using D(7,8) [of p t] D(11) [of t] p(1) L by auto
  have st: "setType f = int t" using blocks_okD(2) [OF ok t(3)] p(2) t by (simp add: set_ok_def)
  have lk: "linked h None xs (Some p)" "linked h (if xs = [] then None else last_of xs) (p # ys) None"
    using D(5) [of t] L by (simp_all add: linked_append)
  then have pf: "prev_set f = last_of xs" "next_set f = first_of ys" and lys: "linked h (Some p) ys None"
    using p(2) by (auto split: if_splits)
  have in_L: "valid_ptr h q" "set_at h q \<noteq> None" "snd q = t" if "q \<in> set xs \<union> set ys" for q
    using that D(7,8) [of q t] linked_set_at [OF D(5), of q t] L by auto
  define h1 where "h1 = (case last_of xs of None \<Rightarrow> h | Some q \<Rightarrow> update_set q (\<lambda>f. f\<lparr>next_set := first_of ys\<rparr>) h)"
  define h2 where "h2 = (case first_of ys of None \<Rightarrow> h1 | Some q \<Rightarrow> update_set q (\<lambda>f. f\<lparr>prev_set := last_of xs\<rparr>) h1)"
  define h3 where "h3 = update_set p (\<lambda>f. f\<lparr>isAdded := False, prev_set := None, next_set := None\<rparr>) h2"
  have lx: "q \<in> set xs" if "last_of xs = Some q" for q using that by (auto simp: last_of_def split: if_splits)
  have fy: "q \<in> set ys" if "first_of ys = Some q" for q using that by (cases ys) auto
  have r1: "relinked h h1" using in_L lx by (auto simp: h1_def set_view_def split: option.split intro!: relinked_update_set)
  note v1 = relinked_blocks(5) [OF r1 ok]
  have s1: "set_at h1 q = set_at h q" if "q \<notin> set xs" for q
    using that in_L lx by (auto simp: h1_def set_at_update_set split: option.split)
  have ny: "q \<notin> set xs" if "q \<in> set ys" for q using that dist by auto
  have nx: "q \<notin> set ys" if "q \<in> set xs" for q using that dist by auto
  have r12: "relinked h1 h2" using in_L fy v1 s1 ny
    by (auto simp: h2_def set_view_def split: option.split intro!: relinked_update_set)
  have s2: "set_at h2 q = set_at h1 q" if "q \<notin> set ys" for q
    using that in_L fy v1 by (auto simp: h2_def set_at_update_set split: option.split)
  have r2: "relinked h h2" using relinked_trans [OF r1 r12] .
  have v2: "valid_ptr h2 p" using relinked_blocks(5) [OF r2 ok] t(3) by simp
  have p2: "set_at h2 p = Some f" using s2 s1 p(2) dist by simp
  have "relinked h2 h3" unfolding h3_def using v2 p2 by (intro relinked_update_set) (simp_all add: set_view_def)
  with r2 have r3: "relinked h h3" by (rule relinked_trans)
  have s3: "set_at h3 q = (if q = p then Some (f\<lparr>isAdded := False, prev_set := None, next_set := None\<rparr>) else set_at h2 q)" for q
    using v2 p2 by (simp add: h3_def set_at_update_set the_set_simps)
  have lxs: "linked h3 None xs (first_of ys)"
  proof (cases "xs = []")
    case False
    then obtain zs z where z: "xs = zs @ [z]" by (metis rev_exhaust)
    then have "linked h1 None xs (first_of ys)"
      using linked_set_next [of h None zs z "Some p" "first_of ys"] lk(1) dist in_L by (auto simp: h1_def last_of_def)
    then show ?thesis by (subst linked_cong [where h = h1]) (use dist nx s2 s3 in auto)
  qed simp
  have lys': "linked h3 (if xs = [] then None else last_of xs) ys None"
  proof (cases ys)
    case (Cons y zs)
    have "linked h1 (Some p) ys None" by (subst linked_cong [where h = h]) (use ny s1 lys in auto)
    then have "linked h2 (last_of xs) ys None"
      using linked_set_prev [of h1 "Some p" y zs None "last_of xs"] Cons dist in_L v1 by (auto simp: h2_def)
    then have "linked h3 (last_of xs) ys None" by (subst linked_cong [where h = h2]) (use dist s3 in auto)
    then show ?thesis by (cases "xs = []") auto
  qed simp
  have other: "map_option links (set_at h3 q) = map_option links (set_at h q)" if "snd q \<noteq> t" for q
  proof -
    have "q \<notin> set xs" "q \<notin> set ys" "q \<noteq> p" using that in_L(3) [of q] t(1) by auto
    then show ?thesis using s1 s2 s3 by simp
  qed
  have flag: "isAdded g' \<longleftrightarrow> q \<noteq> p \<and> isAdded g" if "set_at h3 q = Some g'" "set_at h q = Some g" for q g g'
  proof (cases "q = p")
    case False
    have "map_option isAdded (set_at h1 q) = map_option isAdded (set_at h q)"
      using in_L lx by (auto simp: h1_def split: option.split intro!: view_update_set)
    moreover have "map_option isAdded (set_at h2 q) = map_option isAdded (set_at h1 q)"
      using in_L fy v1 s1 ny by (auto simp: h2_def split: option.split intro!: view_update_set)
    ultimately show ?thesis using that False s3 [of q] by auto
  qed (use that s3 in auto)
  define fl1 where "fl1 = (if xs = [] then fl\<lparr>list_sets := (list_sets fl)[t := first_of ys]\<rparr> else fl)"
  define fl2 where "fl2 = (if ys = [] then fl1\<lparr>lastSets := (lastSets fl1)[t := last_of xs]\<rparr> else fl1)"
  define fl3 where "fl3 = (if xs = [] \<and> ys = [] then ClearNoneEmptyBit (int t) fl2 else fl2)"
  let ?L = "L(t := xs @ ys)"
  have bits: "bit (noneEmptySetBitMap fl3) u \<longleftrightarrow> ?L u \<noteq> []" for u
    using D(9) [of u] L t(2) bit_imp_le_length [of "noneEmptySetBitMap fl" u]
    by (auto simp: fl3_def fl2_def fl1_def ClearNoneEmptyBit_def bit_and_iff bit_not_iff bit_exp_iff free_consts)
  have "list_links h3 (fl3\<lparr>list_available := x\<rparr>) ?L" for x
    unfolding list_links_def
  proof (intro conjI allI impI ballI)
    show "length (list_sets (fl3\<lparr>list_available := x\<rparr>)) = NUMBER_OF_SETS" "length (lastSets (fl3\<lparr>list_available := x\<rparr>)) = NUMBER_OF_SETS"
      using D(1,2) by (simp_all add: fl3_def fl2_def fl1_def ClearNoneEmptyBit_def)
    fix u
    have "linked h3 None (xs @ ys) None" using lxs lys' by (cases "ys = []") (auto simp: linked_append)
    then show "linked h3 None (?L u) None"
      using D(5) [of u] D(7) [of _ u] by (auto simp: linked_cong [of "L u" h3 h] other)
    show "distinct (?L u)" using D(6) dist by simp
    show "bit (noneEmptySetBitMap (fl3\<lparr>list_available := x\<rparr>)) u = (?L u \<noteq> [])" using bits by simp
    show "?L u = []" if "NUMBER_OF_SETS \<le> u" using D(11) [of u] that t by auto
    show "list_sets (fl3\<lparr>list_available := x\<rparr>) ! u = first_of (?L u)" "lastSets (fl3\<lparr>list_available := x\<rparr>) ! u = last_of (?L u)"
      if "u < NUMBER_OF_SETS"
      using D(1,2) D(3,4) [of u] that t(2) L
      by (auto simp: fl3_def fl2_def fl1_def ClearNoneEmptyBit_def nth_list_update first_of_append last_of_append)
    fix q assume q: "q \<in> set (?L u)"
    show "snd q = u" using q D(7) [of q u] in_L by (auto split: if_splits)
    show "valid_ptr h3 q" using q D(8) [of q u] relinked_blocks(5) [OF r3 ok] in_L by (auto split: if_splits)
  next
    fix q g' assume q: "valid_ptr h3 q" "set_at h3 q = Some g'"
    then obtain g where g: "set_at h q = Some g" "valid_ptr h q"
      using relinked_set_at [OF r3] relinked_blocks(5) [OF r3 ok] by metis
    then show "isAdded g' = (q \<in> set (?L (snd q)))" using flag [OF q(2) g(1)] D(10) [OF g(2,1)] t L dist by auto
  qed
  moreover have "RemoveSet p h fl = (h3, fl3\<lparr>list_available := list_available fl - set_available f\<rparr>)"
  proof -
    have top: "list_sets fl ! t = Some p \<longleftrightarrow> xs = []" "lastSets fl ! t = Some p \<longleftrightarrow> ys = []"
      using D(3,4) [of t] t(2) L dist lx fy
      by (cases xs; cases ys; auto simp: first_of_append last_of_append last_of_def split: if_splits)+
    have the: "the_set h p = f" "the_set h1 p = f" "set_available (the_set h3 p) = set_available f"
      using s1 [of p] s3 [of p] p(2) dist by (simp_all add: the_set_def)
    have "list_sets fl2 ! t = first_of (xs @ ys)"
      using D(1) D(3) [of t] t(2) L by (simp add: fl2_def fl1_def first_of_append)
    then have empty: "list_sets fl2 ! t = None \<longleftrightarrow> xs = [] \<and> ys = []"
      using first_of_simps(3) [of "xs @ ys"] by simp
    have av: "list_available fl3 = list_available fl" by (simp add: fl3_def fl2_def fl1_def ClearNoneEmptyBit_def)
    have "RemoveSet p h fl = (h3, fl3\<lparr>list_available := list_available fl3 - set_available (the_set h3 p)\<rparr>)"
      by (simp only: RemoveSet_def Let_def the(1,2) st nat_int pf top fl1_def [symmetric] fl2_def [symmetric]
          h1_def [symmetric] h2_def [symmetric] h3_def [symmetric] empty fl3_def [symmetric])
    then show ?thesis by (simp add: av the)
  qed
  moreover have "list_wasted fl3 = list_wasted fl" "list_available fl3 = list_available fl"
    by (simp_all add: fl3_def fl2_def fl1_def ClearNoneEmptyBit_def)
  ultimately show ?thesis using that r3 by (simp add: r)
qed

end
