(* ===== verification/Size_Classes.thy ===== *)
theory Size_Classes
  imports Free_Objects
begin

text \<open>
  The size classes of the free list.  \<open>SelectSetType\<close> is monotone; up to 255 bytes a class holds one
  aligned size, so its first block fits every request of that class or a lower one.
  \<open>CalcNextNoneEmptyIndex\<close> finds the next class with a set in the bitmap.
\<close>

lemma bit_length_0 [simp]: "bit_width 0 = 0"
  by (simp add: bit_width.simps)

lemma bit_length_mono: "n \<le> m \<Longrightarrow> bit_width n \<le> bit_width m"
proof (induction n arbitrary: m rule: less_induct)
  case (less n)
  show ?case
  proof (cases "n = 0")
    case False
    then have "bit_width (n div 2) \<le> bit_width (m div 2)" using less by (intro less.IH) (auto intro: div_le_mono)
    then show ?thesis using False less.prems by (simp add: bit_width.simps [of n] bit_width.simps [of m])
  qed simp
qed

lemma bit_length_exp: "bit_width (2 ^ k) = Suc k"
  by (induction k) (simp_all add: bit_width.simps [of "Suc 0"] bit_width.simps [of "2 * 2 ^ _"])

lemma bit_length_le: "n < 2 ^ k \<Longrightarrow> bit_width n \<le> k"
proof (induction n arbitrary: k rule: less_induct)
  case (less n)
  show ?case
  proof (cases "n = 0")
    case False
    then obtain j where "k = Suc j" using less.prems by (cases k) auto
    then have "bit_width (n div 2) \<le> j" using less False by (intro less.IH) auto
    then show ?thesis using False \<open>k = Suc j\<close> by (simp add: bit_width.simps [of n])
  qed simp
qed

lemma large_class:
  assumes "256 \<le> n" "n < 65536"
  shows "SelectSetType n = int (bit_width n) + 21" "9 \<le> bit_width n" "bit_width n \<le> 16"
proof -
  show "SelectSetType n = int (bit_width n) + 21"
    using assms by (simp add: SelectSetType_def builtin_clzll_def free_consts)
  show "9 \<le> bit_width n" using bit_length_mono [of "2 ^ 8" n] bit_length_exp [of 8] assms by simp
  show "bit_width n \<le> 16" using bit_length_le [of n 16] assms by simp
qed

lemma small_class: "16 \<le> n \<Longrightarrow> n < 256 \<Longrightarrow> SelectSetType n = int (n div 8) - 2"
  by (simp add: SelectSetType_def free_consts drop_bit_eq_div)

lemma huge_class: "65536 \<le> n \<Longrightarrow> SelectSetType n = (if 261120 \<le> n then 38 else 37)"
  by (simp add: SelectSetType_def free_consts)

lemma class_cases:
  assumes "16 \<le> n"
  obtains "n < 256" "SelectSetType n = int (n div 8) - 2" "2 \<le> n div 8" "n div 8 \<le> 31" | "256 \<le> n" "n < 65536" "SelectSetType n = int (bit_width n) + 21"
    "9 \<le> bit_width n" "bit_width n \<le> 16"
  | "65536 \<le> n" "SelectSetType n = (if 261120 \<le> n then 38 else 37)"
proof -
  consider "n < 256" | "256 \<le> n" "n < 65536" | "65536 \<le> n" by linarith
  then show ?thesis
  proof cases
    case 1
    then have "2 \<le> n div 8" "n div 8 \<le> 31" using assms by linarith+
    then show ?thesis using that(1) small_class [OF assms 1] 1 by blast
  qed (use that large_class huge_class in blast)+
qed

lemma class_range: "16 \<le> n \<Longrightarrow> 0 \<le> SelectSetType n \<and> SelectSetType n < 39"
  by (cases rule: class_cases [of n]) auto

lemma class_mono: "16 \<le> n \<Longrightarrow> n \<le> m \<Longrightarrow> SelectSetType n \<le> SelectSetType m"
proof -
  assume n: "16 \<le> n" "n \<le> m"
  then have "16 \<le> m" by simp
  then show ?thesis using n bit_length_mono [of n m] div_le_mono [of n m 8]
    by (cases rule: class_cases [OF n(1)]; cases rule: class_cases [OF \<open>16 \<le> m\<close>]) auto
qed

lemma class_invalid: "SelectSetType n = INVALID_SET_TYPE \<longleftrightarrow> n < 16"
proof (cases "n < 16")
  case False
  then show ?thesis using class_range [of n] by (simp add: free_consts)
qed (simp add: SelectSetType_def free_consts)

lemma small_class_fits:
  assumes "16 \<le> n" "n mod 8 = 0" "16 \<le> m" "m mod 8 = 0" "SelectSetType n \<le> SelectSetType m" "SelectSetType m \<le> 29"
  shows "n \<le> m"
proof -
  have "m < 256" using assms(6) by (cases rule: class_cases [OF assms(3)]) (auto split: if_splits)
  moreover have "n < 256" using assms(5,6) by (cases rule: class_cases [OF assms(1)]) (auto split: if_splits)
  ultimately have "n div 8 \<le> m div 8" using assms(1,3,5) small_class [of n] small_class [of m] by simp
  then show ?thesis using assms(2,4) by (metis div_mult_mod_eq add_0_right mult_le_mono1)
qed

section \<open>The next class with a set\<close>

lemma ffsll_drop:
  assumes "bit w u" "s \<le> u" "\<And>v. s \<le> v \<Longrightarrow> v < u \<Longrightarrow> \<not> bit w v"
  shows "builtin_ffsll (drop_bit s w) = Suc (u - s)"
proof -
  have u: "u < 64" using assms(1) bit_imp_le_length [of w u] by simp
  have b: "bit (drop_bit s w) i = bit w (s + i)" for i by (simp add: bit_drop_bit_eq)
  have "takeWhile (\<lambda>i. \<not> bit (drop_bit s w) i) [0..<64] = [0..<u - s]"
  proof -
    have split: "[0..<64] = [0..<u - s] @ (u - s) # [Suc (u - s)..<64]"
      using u upt_add_eq_append [of 0 "u - s" "64 - (u - s)"] by (simp add: upt_conv_Cons)
    have "\<not> bit (drop_bit s w) i" if "i \<in> set [0..<u - s]" for i using assms(2,3) that by (auto simp: b)
    moreover have "bit (drop_bit s w) (u - s)" using assms(1,2) by (simp add: b)
    ultimately show ?thesis unfolding split by (subst takeWhile_append2) auto
  qed
  moreover have "drop_bit s w \<noteq> 0" using assms(1,2) b [of "u - s"] by (metis bit_0_eq bot_apply bot_bool_def le_add_diff_inverse)
  ultimately show ?thesis by (simp add: builtin_ffsll_def)
qed

lemma next_class_some:
  assumes "bit (noneEmptySetBitMap fl) u" "s \<le> u" "\<And>v. s \<le> v \<Longrightarrow> v < u \<Longrightarrow> \<not> bit (noneEmptySetBitMap fl) v"
  shows "CalcNextNoneEmptyIndex fl (int s) = int u"
  using ffsll_drop [OF assms] assms(2) by (simp add: CalcNextNoneEmptyIndex_def)

lemma next_class_none:
  assumes "\<And>u. s \<le> u \<Longrightarrow> \<not> bit (noneEmptySetBitMap fl) u"
  shows "CalcNextNoneEmptyIndex fl (int s) = int s - 1"
proof -
  have "drop_bit s (noneEmptySetBitMap fl) = 0" using assms by (intro bit_eqI) (simp add: bit_drop_bit_eq)
  then show ?thesis by (simp add: CalcNextNoneEmptyIndex_def builtin_ffsll_def)
qed

lemma next_class_cases:
  obtains (found) u where "s \<le> u" "bit (noneEmptySetBitMap fl) u" "\<And>v. s \<le> v \<Longrightarrow> v < u \<Longrightarrow> \<not> bit (noneEmptySetBitMap fl) v"
    "CalcNextNoneEmptyIndex fl (int s) = int u"
  | (none) "\<And>u. s \<le> u \<Longrightarrow> \<not> bit (noneEmptySetBitMap fl) u" "CalcNextNoneEmptyIndex fl (int s) = int s - 1"
proof (cases "\<exists>u. s \<le> u \<and> bit (noneEmptySetBitMap fl) u")
  case True
  define u where "u = (LEAST u. s \<le> u \<and> bit (noneEmptySetBitMap fl) u)"
  have "s \<le> u \<and> bit (noneEmptySetBitMap fl) u" unfolding u_def using True by (rule LeastI_ex)
  moreover have "\<not> bit (noneEmptySetBitMap fl) v" if "s \<le> v" "v < u" for v
    using not_less_Least [of v "\<lambda>u. s \<le> u \<and> bit (noneEmptySetBitMap fl) u"] that by (simp add: u_def)
  ultimately show ?thesis using found next_class_some by blast
next
  case False
  then show ?thesis using none next_class_none by blast
qed

end
