(* ===== verification/Free_List_Ops.thy ===== *)
theory Free_List_Ops
  imports Free_Set_Lists Size_Classes
begin

text \<open>
  The operations of the free list on the invariant: freeing a block puts it on the chain of its class, a
  successful allocation takes one block that is large enough off its chain, and an allocation fails only
  when no block on the lists is large enough.
\<close>

section \<open>Frame rules for the lists\<close>

definition list_view :: "free_set \<Rightarrow> set_ptr option \<times> set_ptr option \<times> bool" where
  "list_view f = (prev_set f, next_set f, isAdded f)"

lemma list_links_cong:
  assumes "list_links h fl L" "same_core h h'"
    "\<And>q. valid_ptr h q \<Longrightarrow> map_option list_view (set_at h' q) = map_option list_view (set_at h q)"
  shows "list_links h' fl L"
proof -
  note D = list_linksD [OF assms(1)]
  note v = same_core_valid_ptr [OF assms(2)]
  have "linked h' None (L t) None" for t
  proof (subst linked_cong [where h = h])
    fix q assume "q \<in> set (L t)"
    then have "map_option list_view (set_at h' q) = map_option list_view (set_at h q)" using D(8) assms(3) by blast
    then show "map_option links (set_at h' q) = map_option links (set_at h q)"
      by (cases "set_at h q"; cases "set_at h' q") (simp_all add: list_view_def links_def)
  qed (rule D(5))
  moreover have "isAdded f = (q \<in> set (L (snd q)))" if "valid_ptr h' q" "set_at h' q = Some f" for q f
    using that v assms(3) [of q] D(10) [of q] by (cases "set_at h q") (auto simp: list_view_def)
  ultimately show ?thesis using assms(1) v by (auto simp: list_links_def simp del: split_paired_All)
qed

lemma list_links_counters [simp]:
  "list_links h (fl\<lparr>list_available := x\<rparr>) L = list_links h fl L" "list_links h (fl\<lparr>list_wasted := x\<rparr>) L = list_links h fl L"
  by (simp_all add: list_links_def)

section \<open>Sums over the lists\<close>

lemma sum_list_point:
  assumes "distinct ps" "p \<in> set ps" "g p = f p + n" "\<And>q. q \<in> set ps \<Longrightarrow> q \<noteq> p \<Longrightarrow> g q = f q"
  shows "(\<Sum>q\<leftarrow>ps. g q) = (\<Sum>q\<leftarrow>ps. f q) + (n :: nat)"
  using assms
proof (induction ps)
  case (Cons q ps)
  show ?case
  proof (cases "q = p")
    case True
    then have "(\<Sum>q\<leftarrow>ps. g q) = (\<Sum>q\<leftarrow>ps. f q)"
      using Cons.prems by (intro arg_cong [where f = sum_list] map_cong) auto
    then show ?thesis using True Cons.prems by simp
  next
    case False
    then show ?thesis using Cons by auto
  qed
qed simp

lemma list_size_point:
  assumes links: "list_links h fl L" and p: "p \<in> set (L (snd p))" "set_size h' B' p = set_size h B p + n"
    and other: "\<And>q. q \<noteq> p \<Longrightarrow> set_size h' B' q = set_size h B q"
  shows "list_size h' B' L = list_size h B L + n"
proof -
  note D = list_linksD [OF links]
  have t: "snd p < NUMBER_OF_SETS" using D(11) [of "snd p"] p(1) by (cases "L (snd p)") auto
  have "(\<Sum>q\<leftarrow>L u. set_size h' B' q) = (\<Sum>q\<leftarrow>L u. set_size h B q) + (if u = snd p then n else 0)" for u
  proof (cases "u = snd p")
    case True
    then show ?thesis using sum_list_point [of "L u" p "set_size h' B'" "set_size h B" n] D(6) p other by simp
  next
    case False
    then have "q \<noteq> p" if "q \<in> set (L u)" for q using D(7) [OF that] by auto
    then have "(\<Sum>q\<leftarrow>L u. set_size h' B' q) = (\<Sum>q\<leftarrow>L u. set_size h B q)"
      using other by (intro arg_cong [where f = sum_list] map_cong refl) metis
    then show ?thesis using False by simp
  qed
  then show ?thesis using t by (simp add: list_size_def sum.distrib)
qed

lemma list_size_same:
  assumes "list_links h fl L" "p \<notin> set (L (snd p))" "\<And>q. q \<noteq> p \<Longrightarrow> set_size h' B' q = set_size h B q"
  shows "list_size h' B' L = list_size h B L"
  unfolding list_size_def
proof (intro sum.cong arg_cong [where f = sum_list] map_cong refl)
  fix u q assume "q \<in> set (L u)"
  then have "q \<noteq> p" using list_linksD(7) [OF assms(1), of q u] assms(2) by auto
  then show "set_size h' B' q = set_size h B q" by (rule assms(3))
qed

lemma list_size_add:
  assumes "list_links h fl L" "t < NUMBER_OF_SETS"
  shows "list_size h B (L(t := p # L t)) = list_size h B L + set_size h B p"
  using sum_upd [OF assms(2), of "\<lambda>ps. \<Sum>q\<leftarrow>ps. set_size h B q" L "p # L t"] by (simp add: list_size_def)

lemma list_size_remove:
  assumes "p \<in> set (L t)" "t < NUMBER_OF_SETS"
  shows "list_size h B (L(t := remove1 p (L t))) + set_size h B p = list_size h B L"
  using sum_upd [OF assms(2), of "\<lambda>ps. \<Sum>q\<leftarrow>ps. set_size h B q" L "remove1 p (L t)"]
    sum_list_map_remove1 [OF assms(1), of "set_size h B"] by (simp add: list_size_def)

section \<open>Freeing a block\<close>

lemma set_size_push:
  assumes "\<And>q x. x \<in> set (B q) \<Longrightarrow> Available h' x = Available h x" "Available h' a = n"
  shows "set_size h' (B(p := a # B p)) q = set_size h B q + (if q = p then n else 0)"
proof -
  have "(\<Sum>x\<leftarrow>B q. Available h' x) = (\<Sum>x\<leftarrow>B q. Available h x)" for q
    using assms(1) by (intro arg_cong [where f = sum_list] map_cong) auto
  then show ?thesis using assms(2) by (simp add: set_size_def)
qed

lemma GetFreeObjectSet_spec:
  assumes ok: "blocks_ok h B" and links: "list_links h fl L" and r: "regions h r = Some R" and t: "t < NUMBER_OF_SETS"
  obtains h' where "GetFreeObjectSet r (int t) h = (h', (r, t))" "same_core h h'" "memory h' = memory h"
    "blocks_ok h' B" "list_links h' fl L" "valid_ptr h' (r, t)" "set_at h' (r, t) \<noteq> None" "wasted_same h h'"
    "\<And>x. Available h' x = Available h x"
proof (cases "set_at h (r, t)")
  case None
  let ?p = "(r, t)"
  have v: "valid_ptr h ?p" using r t blocks_okD(1) [OF ok r] by (simp add: valid_ptr_def region_ok_def)
  define h' where "h' = update_region r (\<lambda>R. R\<lparr>freeObjectSets := (freeObjectSets R)[t := Some (new_FreeObjectSet (int t))]\<rparr>) h"
  have up: "h' = update_set ?p (\<lambda>f. new_FreeObjectSet (int t)) h" by (simp add: h'_def update_set_def)
  have core: "same_core h h'" using v by (simp add: up)
  have set': "set_at h' q = (if q = ?p then Some (new_FreeObjectSet (int t)) else set_at h q)" for q
    using v by (simp add: up set_at_update_set)
  have mem: "memory h' = memory h" by (simp add: up)
  have av: "Available h' x = Available h x" for x
    using core mem by (simp add: Available_def IsFreeObjectWithShortField_def GetObjectSize_def same_core_def Let_def)
  have avf: "Available h' = Available h" by (simp add: fun_eq_iff av)
  have ch: "block_chain h' c xs = block_chain h c xs" for c xs by (rule block_chain_cong) (simp add: GetNext_def mem)
  have empty: "B ?p = []" using blocks_okD(2) [OF ok v] None by (simp add: set_ok_def)
  have notin: "?p \<notin> set (L u)" for u using linked_set_at [OF list_linksD(5) [OF links], of ?p u] None by auto
  have "set_ok h' B q" if "valid_ptr h q" for q
    using blocks_okD(2) [OF ok that] empty
    by (auto simp: set_ok_def set' avf ch new_FreeObjectSet_def FreeObjectSet_Rebuild_def split: option.splits)
  moreover have "block_ok h' q x = block_ok h q x" for q x
    using core by (simp add: block_ok_def av mem in_data_cong) (simp add: same_core_def)
  ultimately have bok: "blocks_ok h' B"
    using ok same_core_valid_ptr [OF core] blocks_ok_regions [OF ok core] core
    by (auto simp: blocks_ok_def classes_ok_def av same_core_def simp del: split_paired_All)
  have "linked h' None (L u) None" for u
    using list_linksD(5) [OF links, of u] notin [of u] by (subst linked_cong [where h = h]) (auto simp: set')
  moreover have "isAdded f = (q \<in> set (L (snd q)))" if "valid_ptr h q" "set_at h' q = Some f" for q f
    using that list_linksD(10) [OF links that(1)] notin
    by (auto simp: set' new_FreeObjectSet_def FreeObjectSet_Rebuild_def split: if_splits)
  ultimately have "list_links h' fl L"
    using links same_core_valid_ptr [OF core] by (auto simp: list_links_def simp del: split_paired_All)
  moreover have "wasted_same h h'" using wasted_update_set [OF v] by (simp add: up wasted_same_def)
  moreover have "GetFreeObjectSet r (int t) h = (h', (r, t))" using None by (simp add: GetFreeObjectSet_def Let_def h'_def)
  ultimately show ?thesis using that core mem bok v same_core_valid_ptr [OF core] set' av by simp
next
  case (Some f)
  moreover have "valid_ptr h (r, t)" using r t blocks_okD(1) [OF ok r] by (simp add: valid_ptr_def region_ok_def)
  ultimately show ?thesis using that [of h] ok links by (simp add: GetFreeObjectSet_def Let_def wasted_same_def)
qed

lemma same_core_wasted: "relinked h h' \<Longrightarrow> wasted_same h h'"
  by (simp add: relinked_def wasted_same_def)

lemma wasted_same_Free: "valid_ptr h p \<Longrightarrow> wasted_same h (FreeObjectSet_Free p a n h)"
  by (simp add: wasted_same_def FreeObjectSet_Free_def wasted_update_set SetNext_def)

lemma blocks_ok_Fill:
  assumes "blocks_ok h B" "apart h B a n"
  shows "blocks_ok (FillFreeObject a n h) B" "x \<in> set (B q) \<Longrightarrow> Available (FillFreeObject a n h) x = Available h x"
    "apart (FillFreeObject a n h) B a n"
proof -
  have s: "same_blocks B h (FillFreeObject a n h)" by (rule same_blocks_outside [OF assms(2)]) (rule Fill_memory)
  show "blocks_ok (FillFreeObject a n h) B" using blocks_ok_cong [OF assms(1) _ s] by simp
  show av: "Available (FillFreeObject a n h) x = Available h x" if "x \<in> set (B q)" for x q
    using same_blocks_cong(1) [OF assms(1) _ s that] by simp
  show "apart (FillFreeObject a n h) B a n" using assms(2) av by (auto simp: apart_def simp del: split_paired_All)
qed

text \<open>
  \<open>freed\<close> is what freeing the block \<open>a\<close> of \<open>n\<close> bytes promises: it is on the chain of its class, memory
  outside of it, the other blocks and the regions are as before.
\<close>

definition freed :: "heap \<Rightarrow> (set_ptr \<Rightarrow> nat list) \<Rightarrow> nat \<Rightarrow> nat \<Rightarrow> heap \<Rightarrow> (set_ptr \<Rightarrow> nat list) \<Rightarrow> bool" where
  "freed h B a n h' B' \<longleftrightarrow> B' = (let p = (ObjectAddressToRange a, nat (SelectSetType n)) in B(p := a # B p)) \<and>
     blocks_ok h' B' \<and> same_core h h' \<and> wasted_same h h' \<and> Available h' a = n \<and>
     (\<forall>q. \<forall>x \<in> set (B q). Available h' x = Available h x) \<and> (\<forall>i. i < a \<or> a + n \<le> i \<longrightarrow> memory h' i = memory h i)"

lemma free_block:
  assumes ok: "blocks_ok h B" and lok: "list_ok h B fl L" and ap: "apart h B a n"
    and a: "a mod 8 = 0" "n mod 8 = 0" "MIN_SIZE \<le> n" "in_data h r a n"
    and bg: "\<not> isAdd \<Longrightarrow> \<forall>t. (r, t) \<notin> set (L t)"
  obtains h' fl' L' where "FreeObjectList_Free a n isAdd (FillFreeObject a n h) fl = (h', fl')"
    "freed h B a n h' (B((r, nat (SelectSetType n)) := a # B (r, nat (SelectSetType n))))"
    "list_ok h' (B((r, nat (SelectSetType n)) := a # B (r, nat (SelectSetType n)))) fl' L'"
    "\<not> isAdd \<Longrightarrow> fl' = fl \<and> L' = L" "list_wasted fl' = list_wasted fl"
    "isAdd \<Longrightarrow> (B (r, nat (SelectSetType n)) \<noteq> [] \<Longrightarrow> (r, nat (SelectSetType n)) \<in> set (L (nat (SelectSetType n)))) \<Longrightarrow>
      list_available fl' = list_available fl + of_nat n"
    "\<And>u. isAdd \<Longrightarrow> set (L' u) = (if u = nat (SelectSetType n) then insert (r, u) (set (L u)) else set (L u))"
proof -
  have n16: "16 \<le> n" using a(3) by (simp add: free_consts)
  obtain t where t: "SelectSetType n = int t" "t < NUMBER_OF_SETS"
    using class_range [OF n16] by (metis nonneg_int_cases NUMBER_OF_SETS_def of_nat_less_iff of_nat_numeral)
  let ?p = "(r, t)" and ?B = "B((r, t) := a # B (r, t))"
  obtain R where R: "regions h r = Some R" using a(4) by (auto simp: in_data_def)
  have rng: "ObjectAddressToRange a = r" using in_data_region [OF ok a(4)] n16 by simp
  have bound: "n \<le> 2 ^ 18" "r < a" using in_data_bound [OF ok a(4)] by auto
  define h0 where "h0 = FillFreeObject a n h"
  note f = blocks_ok_Fill [OF ok ap, folded h0_def]
  have links: "list_links h fl L" using lok by (simp add: list_ok_def)
  have links0: "list_links h0 fl L" using list_links_cong [OF links, of h0] by (simp add: h0_def)
  have cls: "classes_ok h" using ok by (simp add: blocks_ok_def)
  note fb = Fill_block [OF cls a(2,3), of a, folded h0_def]
  obtain h1 where h1: "GetFreeObjectSet r (int t) h0 = (h1, ?p)" "same_core h0 h1" "memory h1 = memory h0"
    "blocks_ok h1 B" "list_links h1 fl L" "valid_ptr h1 ?p" "set_at h1 ?p \<noteq> None" "wasted_same h0 h1"
    "\<And>x. Available h1 x = Available h0 x"
    by (rule GetFreeObjectSet_spec [OF f(1) links0 _ t(2)]) (use R in \<open>auto simp: h0_def\<close>)
  define h2 where "h2 = FreeObjectSet_Free ?p a n h1"
  have ap1: "apart h1 B a n" using f(3) by (simp add: apart_def h1(9))
  have core1: "same_core h h1" using same_core_trans [OF _ h1(2), of h] by (simp add: h0_def)
  have "Available h1 a = n" "memory h1 a = (if n < FREE_OBJECT_SIZE then oneFieldClass h1 else twoFieldClass h1)"
    "in_data h1 (fst ?p) a n"
    using fb bound core1 a(4) by (auto simp: h1(3,9) in_data_cong [OF core1] same_core_def)
  note push = push_block [OF h1(4,6,7) ap1 a(1) this(1) a(2,3) this(3) _ this(2), folded h2_def]
  have set': "set_at h2 q = (if q = ?p then Some ((the_set h1 ?p)\<lparr>freeObject := a,
      set_available := set_available (the_set h1 ?p) + of_nat n\<rparr>) else set_at h1 q)" for q using push(5) t by simp
  have bok: "blocks_ok h2 ?B" and av2: "Available h2 a = n" and core2: "same_core h1 h2"
    using push(1-3) t by simp_all
  have core: "same_core h h2" using core1 core2 by (rule same_core_trans)
  have links2: "list_links h2 fl L"
    by (rule list_links_cong [OF h1(5) core2]) (use h1(7) in \<open>auto simp: set' the_set_def list_view_def\<close>)
  have avB: "Available h2 x = Available h x" if "x \<in> set (B q)" for x q
  proof -
    have "same_blocks B h1 h2" by (rule same_blocks_outside [OF ap1]) (rule push(4), use t in simp_all)
    then show ?thesis using same_blocks_cong(1) [OF h1(4) core2 _ that] f(2) [OF that] h1(9) by simp
  qed
  have mem: "memory h2 i = memory h i" if "i < a \<or> a + n \<le> i" for i
    using push(4) [OF _ that] that t Fill_memory [of i a n h] by (simp add: h1(3) h0_def)
  have ws: "wasted_same h h2" using wasted_same_trans h1(8) wasted_same_Free [OF h1(6)] by (metis h0_def h2_def wasted_same_simps(2))
  have freed2: "freed h B a n h2 ?B" unfolding freed_def using bok core ws av2 avB mem t rng
    by (auto simp: Let_def simp del: split_paired_All)
  note sz = set_size_push [of B h2 h a n ?p, OF avB av2]
  have eq: "FreeObjectList_Free a n isAdd h0 fl = (if isAdd then
      (if \<not> isAdded (the_set h2 ?p) then AddSet ?p h2 fl else (h2, fl\<lparr>list_available := list_available fl + of_nat n\<rparr>))
      else (h2, fl))"
    using bound n16 t rng h1(1) by (simp add: FreeObjectList_Free_def free_consts h2_def Let_def)
  have B2: "?B q \<noteq> []" if "q \<in> set (L u)" for q u using lok that by (auto simp: list_ok_def simp del: split_paired_All)
  have lav: "list_available fl = of_nat (list_size h B L)" using lok by (simp add: list_ok_def)
  obtain f2 where f2: "set_at h2 ?p = Some f2" "the_set h2 ?p = f2" using set' [of ?p] by (simp add: the_set_def)
  have v2: "valid_ptr h2 ?p" using same_core_valid_ptr [OF core2] h1(6) by simp
  have added: "isAdded f2 \<longleftrightarrow> ?p \<in> set (L t)" using list_linksD(10) [OF links2 v2 f2(1)] by simp
  show ?thesis
  proof (cases "isAdd \<and> \<not> isAdded f2")
    case True
    obtain h3 fl3 where add: "AddSet ?p h2 fl = (h3, fl3)" "relinked h2 h3" "list_links h3 fl3 (L(t := ?p # L t))"
      "list_available fl3 = list_available fl + set_available f2" "list_wasted fl3 = list_wasted fl"
      by (rule AddSet_spec [OF bok links2 v2 f2(1) _ t(2)]) (use True in auto)
    note rb = relinked_blocks [OF add(2) bok]
    have "list_size h2 ?B (L(t := ?p # L t)) = list_size h B L + set_size h2 ?B ?p"
      using list_size_add [OF links2 t(2), of ?B ?p] list_size_same [OF links, of ?p h2 ?B B] sz added True by simp
    then have "list_available fl3 = of_nat (list_size h3 ?B (L(t := ?p # L t)))"
      using add(4) lav set_available_eq(1) [OF bok v2 f2(1)] rb(4) by simp
    moreover have "freed h B a n h3 ?B"
      using freed2 add(2) rb(1,2) same_core_trans [OF core] wasted_same_trans [OF ws same_core_wasted [OF add(2)]]
      by (auto simp: freed_def relinked_def simp del: split_paired_All)
    moreover have "?B q \<noteq> []" if "q \<in> set ((L(t := ?p # L t)) u)" for q u
    proof (cases "q = ?p")
      case False
      then have "q \<in> set (L u)" using that by (auto split: if_splits)
      then show ?thesis by (rule B2)
    qed simp
    then have "\<forall>u. \<forall>q \<in> set ((L(t := ?p # L t)) u). ?B q \<noteq> []" by blast
    ultimately have "list_ok h3 ?B fl3 (L(t := ?p # L t))" using add(3) unfolding list_ok_def by blast
    moreover have "FreeObjectList_Free a n isAdd h0 fl = (h3, fl3)" using True add(1) eq f2 by simp
    moreover have "list_available fl3 = list_available fl + of_nat n" if "B ?p \<noteq> [] \<Longrightarrow> ?p \<in> set (L t)"
      using that added True add(4) set_available_eq(1) [OF bok v2 f2(1)] av2 by (cases "B ?p = []") (auto simp: set_size_def)
    moreover have "set ((L(t := ?p # L t)) u) = (if u = t then insert (r, u) (set (L u)) else set (L u))" for u by simp
    ultimately show ?thesis using that [of h3 fl3 "L(t := ?p # L t)"] True add(5) t \<open>freed h B a n h3 ?B\<close>
      by (simp add: h0_def del: fun_upd_apply)
  next
    case False
    have "list_size h2 ?B L = list_size h B L + (if isAdd then n else 0)"
    proof (cases isAdd)
      case True
      then show ?thesis using False added sz list_size_point [OF links, of ?p h2 ?B B n] by simp
    next
      case nadd: False
      then show ?thesis using bg sz list_size_same [OF links, of ?p h2 ?B B] by simp
    qed
    moreover define fl3 where "fl3 = (if isAdd then fl\<lparr>list_available := list_available fl + of_nat n\<rparr> else fl)"
    ultimately have "list_ok h2 ?B fl3 L" using links2 B2 lav by (auto simp: list_ok_def simp del: split_paired_All)
    moreover have "set (L u) = (if u = t then insert (r, u) (set (L u)) else set (L u))" if isAdd for u
      using False added that by auto
    ultimately show ?thesis using that [of h2 fl3 L] False eq f2 freed2 t
      by (auto simp: fl3_def h0_def [symmetric] split: if_splits simp del: split_paired_All)
  qed
qed

section \<open>Allocating a block\<close>

text \<open>
  \<open>got\<close> is what a successful allocation promises: a block \<open>a\<close> of a listed set, of at least \<open>n\<close> bytes, is
  no longer on any chain and overlaps no block; everything outside of the former blocks is as before.
\<close>

definition taken_from :: "free_list \<Rightarrow> free_list \<Rightarrow> nat \<Rightarrow> bool" where
  "taken_from fl fl' m \<longleftrightarrow> list_wasted fl' = list_wasted fl \<and> list_available fl' = list_available fl - of_nat m"

definition got :: "heap \<Rightarrow> (set_ptr \<Rightarrow> nat list) \<Rightarrow> (nat \<Rightarrow> set_ptr list) \<Rightarrow> nat \<Rightarrow> nat \<Rightarrow> heap \<Rightarrow>
    (set_ptr \<Rightarrow> nat list) \<Rightarrow> (nat \<Rightarrow> set_ptr list) \<Rightarrow> bool" where
  "got h B L n a h' B' L' \<longleftrightarrow> n \<le> Available h a \<and> same_core h h' \<and> wasted_same h h' \<and> blocks_ok h' B' \<and>
     (\<exists>p. p \<in> set (L (snd p)) \<and> a \<in> set (B p) \<and> B' = B(p := remove1 a (B p))) \<and>
     (\<forall>u. set (L' u) \<subseteq> set (L u)) \<and> (\<forall>u. \<forall>q \<in> set (L u). B' q \<noteq> [] \<longrightarrow> q \<in> set (L' u)) \<and>
     Available h' a = Available h a \<and>
     (\<forall>q. \<forall>x \<in> set (B q). Available h' x = Available h x) \<and> apart h' B' a (Available h a) \<and>
     (\<forall>i. \<not> in_blocks h B i \<longrightarrow> memory h' i = memory h i)"

lemma list_links_rebuild:
  assumes "list_links h fl L" "valid_ptr h p" "set_at h p \<noteq> None" "p \<notin> set (L (snd p))"
  shows "list_links (update_set p FreeObjectSet_Rebuild h) fl L"
proof -
  let ?h = "update_set p FreeObjectSet_Rebuild h"
  note D = list_linksD [OF assms(1)]
  have notin: "p \<notin> set (L u)" for u using D(7) [of p u] assms(4) by auto
  have "linked ?h None (L u) None" for u
    using D(5) [of u] notin [of u] assms(2) by (subst linked_cong [where h = h]) (auto simp: set_at_update_set)
  moreover have "isAdded f = (q \<in> set (L (snd q)))" if "valid_ptr h q" "set_at ?h q = Some f" for q f
    using that D(10) [OF that(1)] notin assms(2)
    by (auto simp: set_at_update_set FreeObjectSet_Rebuild_def split: if_splits)
  ultimately show ?thesis using assms(1,2) by (auto simp: list_links_def simp del: split_paired_All)
qed

lemma alloc_found:
  assumes ok: "blocks_ok h B" and lok: "list_ok h B fl L" and p: "p \<in> set (L t)" and tk: "taken h B p a h1"
    and n: "n \<le> Available h a"
  obtains h' fl' L' where
    "(let (h, fl) = (if FreeObjectSet_Empty (the_set h1 p) then
          let (h, fl) = RemoveSet p h1 fl in (update_set p FreeObjectSet_Rebuild h, fl) else (h1, fl))
      in Some (h, fl\<lparr>list_available := list_available fl - of_nat (Available h a)\<rparr>, a)) = Some (h', fl', a)"
    "got h B L n a h' (B(p := remove1 a (B p))) L'" "list_ok h' (B(p := remove1 a (B p))) fl' L'"
    "taken_from fl fl' (Available h a)"
proof -
  let ?B = "B(p := remove1 a (B p))"
  have links: "list_links h fl L" using lok by (simp add: list_ok_def)
  note D = list_linksD [OF links]
  have t: "snd p = t" "t < NUMBER_OF_SETS" "valid_ptr h p" using D(7,8) [of p t] D(11) [of t] p by (cases "L t"; auto)+
  obtain f f1 where f: "set_at h p = Some f" "set_at h1 p = Some f1"
    "f1 = f\<lparr>freeObject := freeObject f1, set_available := set_available f - of_nat (Available h a)\<rparr>"
    using tk by (auto simp: taken_def)
  have core: "same_core h h1" and bok: "blocks_ok h1 ?B" and aB: "a \<in> set (B p)"
    and av: "\<And>q x. x \<in> set (B q) \<Longrightarrow> Available h1 x = Available h x" and ap: "apart h1 ?B a (Available h a)"
    and mem: "\<And>i. \<not> in_blocks h B i \<Longrightarrow> memory h1 i = memory h i" and oth: "\<And>q. q \<noteq> p \<Longrightarrow> set_at h1 q = set_at h q"
    and ws: "wasted_same h h1" and ava: "Available h1 a = Available h a"
    using tk by (auto simp: taken_def simp del: split_paired_All)
  have f1: "list_view f1 = list_view f" by (subst f(3)) (simp add: list_view_def)
  have links1: "list_links h1 fl L"
  proof (rule list_links_cong [OF links core])
    show "map_option list_view (set_at h1 q) = map_option list_view (set_at h q)" for q
      using oth [of q] f f1 by (cases "q = p") auto
  qed
  have v1: "valid_ptr h1 p" using same_core_valid_ptr [OF core] t by simp
  have sub: "x \<in> set (B q)" if "x \<in> set (?B q)" for x q
    using that set_remove1_subset [of a "B p"] by (auto split: if_splits)
  have sz: "set_size h B q = set_size h1 ?B q + (if q = p then Available h a else 0)" for q
  proof -
    have "(\<Sum>x\<leftarrow>?B q. Available h1 x) = (\<Sum>x\<leftarrow>?B q. Available h x)"
      by (intro arg_cong [where f = sum_list] map_cong refl) (rule av [OF sub])
    then show ?thesis using sum_list_map_remove1 [OF aB, of "Available h"] by (auto simp: set_size_def)
  qed
  have size: "list_size h B L = list_size h1 ?B L + Available h a"
    by (rule list_size_point [OF links1, of p]) (use sz p t in auto)
  have lav: "list_available fl = of_nat (list_size h B L)" using lok by (simp add: list_ok_def)
  have ne: "\<forall>u. \<forall>q \<in> set (L u). q \<noteq> p \<longrightarrow> ?B q \<noteq> []" using lok by (auto simp: list_ok_def simp del: split_paired_All)
  have empty: "FreeObjectSet_Empty (the_set h1 p) \<longleftrightarrow> ?B p = []"
    using set_available_eq(3) [OF bok v1 f(2)] f(2) by (simp add: FreeObjectSet_Empty_def the_set_simps)
  have got_intro: "got h B L n a h2 ?B L2" if "same_core h1 h2" "wasted_same h1 h2" "memory h2 = memory h1"
    "blocks_ok h2 ?B" "\<And>x. Available h2 x = Available h1 x" "\<And>u. set (L2 u) \<subseteq> set (L u)"
    "\<And>u q. q \<in> set (L u) \<Longrightarrow> ?B q \<noteq> [] \<Longrightarrow> q \<in> set (L2 u)" for h2 L2
    using that n core ws aB p t av ava ap mem same_core_trans [OF core that(1)] wasted_same_trans [OF ws that(2)]
    by (auto simp: got_def apart_def simp del: split_paired_All split_paired_Ex)
  show ?thesis
  proof (cases "?B p = []")
    case True
    obtain h2 fl2 where rm: "RemoveSet p h1 fl = (h2, fl2)" "relinked h1 h2" "list_links h2 fl2 (L(t := remove1 p (L t)))"
      "list_available fl2 = list_available fl - set_available f1" "list_wasted fl2 = list_wasted fl"
      using RemoveSet_spec [OF bok links1 p f(2)] by metis
    note rb = relinked_blocks [OF rm(2) bok]
    have v2: "valid_ptr h2 p" using rb(5) v1 by simp
    obtain f2 where f2: "set_at h2 p = Some f2" "set_view f2 = set_view f1"
      using rm(2) f(2) by (auto simp: relinked_def simp del: split_paired_All dest!: spec [of _ p])
    define h3 where "h3 = update_set p FreeObjectSet_Rebuild h2"
    have zero: "set_available f2 = 0" "freeObject f2 = INVALID_OBJECT"
      using blocks_okD(2) [OF rb(1) v2] f2(1) True by (auto simp: set_ok_def)
    then have r3: "relinked h2 h3" unfolding h3_def using v2 f2
      by (intro relinked_update_set) (auto simp: set_view_def FreeObjectSet_Rebuild_def the_set_simps)
    let ?L = "L(t := remove1 p (L t))"
    have np: "p \<notin> set (?L (snd p))" using D(6) [of t] t by simp
    have links3: "list_links h3 fl2 ?L" unfolding h3_def using rm(3) v2 f2(1) np by (intro list_links_rebuild) auto
    note rb3 = relinked_blocks [OF r3 rb(1)]
    have r13: "relinked h1 h3" using rm(2) r3 by (rule relinked_trans)
    have "set_available f1 = 0" using zero f2(2) by (simp add: set_view_def)
    moreover have "list_size h3 ?B ?L = list_size h1 ?B L"
      using list_size_remove [of p L t h1 ?B] p t True relinked_blocks(4) [OF r13 bok] by (simp add: set_size_def)
    ultimately have "list_available (fl2\<lparr>list_available := list_available fl2 - of_nat (Available h3 a)\<rparr>) = of_nat (list_size h3 ?B ?L)"
      using rm(4) lav size relinked_blocks(2) [OF r13 bok] ava by simp
    moreover have "?B q \<noteq> []" if "q \<in> set (?L u)" for q u
    proof -
      have "q \<in> set (L u)" using that set_remove1_subset [of p "L t"] by (auto split: if_splits)
      moreover have "q \<noteq> p" using that np D(7) [OF \<open>q \<in> set (L u)\<close>] by auto
      ultimately show ?thesis using ne by blast
    qed
    ultimately have "list_ok h3 ?B (fl2\<lparr>list_available := list_available fl2 - of_nat (Available h3 a)\<rparr>) ?L"
      using links3 unfolding list_ok_def by simp
    moreover have "got h B L n a h3 ?B ?L"
      using r13 relinked_blocks [OF r13 bok] same_core_wasted [OF r13] set_remove1_subset [of p "L t"] True
      by (intro got_intro) (auto simp: relinked_def split: if_splits simp del: split_paired_All)
    moreover have "taken_from fl (fl2\<lparr>list_available := list_available fl2 - of_nat (Available h3 a)\<rparr>) (Available h a)"
      using rm(4,5) \<open>set_available f1 = 0\<close> relinked_blocks(2) [OF r13 bok] ava by (simp add: taken_from_def)
    ultimately show ?thesis using that [of h3 "fl2\<lparr>list_available := list_available fl2 - of_nat (Available h3 a)\<rparr>" ?L] True empty rm(1)
      by (simp add: h3_def del: fun_upd_apply)
  next
    case False
    have "list_ok h1 ?B (fl\<lparr>list_available := list_available fl - of_nat (Available h1 a)\<rparr>) L"
      using links1 ne False lav size ava by (auto simp: list_ok_def simp del: split_paired_All)
    moreover have "got h B L n a h1 ?B L" using bok by (intro got_intro) auto
    ultimately show ?thesis using that False empty ava by (simp add: taken_from_def)
  qed
qed

lemma set_size_ge: "x \<in> set (B p) \<Longrightarrow> Available h x \<le> set_size h B p"
  unfolding set_size_def by (intro member_le_sum_list) auto

lemma linked_next: "linked h prv (qs @ p # ps) None \<Longrightarrow> set_at h p = Some f \<Longrightarrow> next_set f = first_of ps"
  by (cases "ps = []") (auto simp: linked_append)

lemma got_nonzero:
  assumes ok: "blocks_ok h B" and "got h B L n a h' B' L'"
  shows "a \<noteq> 0"
proof -
  obtain p where "a \<in> set (B p)" using assms(2) by (auto simp: got_def simp del: split_paired_Ex)
  then have "in_data h (fst p) a (Available h a)" using blocks_okD(3) [OF ok] by (simp add: block_ok_def)
  from in_data_bound [OF ok this] show ?thesis by simp
qed

lemma got_valid:
  assumes ok: "blocks_ok h B" and "got h B L n a h' B' L'"
  shows "a \<noteq> INVALID_OBJECT"
proof -
  obtain p where "a \<in> set (B p)" using assms(2) by (auto simp: got_def simp del: split_paired_Ex)
  from blocks_okD(3) [OF ok this] show ?thesis by (auto simp: block_ok_def INVALID_OBJECT_def)
qed

lemma sets_loop:
  assumes ok: "blocks_ok h B" and lok: "list_ok h B fl L" and n: "16 \<le> n" "n mod 8 = 0" "SelectSetType n \<le> int t"
    and L: "L t = qs @ ps"
  shows "(\<exists>h' fl' a B' L'. allocate_sets_loop (int t) n h fl (first_of ps) = Some (h', fl', a) \<and>
      got h B L n a h' B' L' \<and> list_ok h' B' fl' L' \<and> taken_from fl fl' (Available h a)) \<or>
    (allocate_sets_loop (int t) n h fl (first_of ps) = Some (h, fl, INVALID_OBJECT) \<and>
      (\<forall>p \<in> set ps. \<forall>x \<in> set (B p). Available h x < n))"
  using L
proof (induction ps arbitrary: qs)
  case Nil
  show ?case by (subst (1 2) allocate_sets_loop.simps) simp
next
  case (Cons p ps)
  have links: "list_links h fl L" using lok by (simp add: list_ok_def)
  note D = list_linksD [OF links]
  have p: "p \<in> set (L t)" using Cons.prems by simp
  have v: "valid_ptr h p" "snd p = t" using D(7,8) [OF p] by auto
  obtain f where f: "set_at h p = Some f" using linked_set_at [OF D(5) p] by auto
  have nxt: "next_set f = first_of ps" using D(5) [of t] linked_next f Cons.prems by metis
  have IH: "(\<exists>h' fl' a B' L'. allocate_sets_loop (int t) n h fl (first_of ps) = Some (h', fl', a) \<and>
      got h B L n a h' B' L' \<and> list_ok h' B' fl' L' \<and> taken_from fl fl' (Available h a)) \<or>
    (allocate_sets_loop (int t) n h fl (first_of ps) = Some (h, fl, INVALID_OBJECT) \<and>
      (\<forall>p \<in> set ps. \<forall>x \<in> set (B p). Available h x < n))"
    using Cons.prems by (intro Cons.IH [of "qs @ [p]"]) simp
  have un: "unat (set_available f) = set_size h B p" by (rule set_available_eq(2) [OF ok v(1) f])
  have found: "allocate_sets_loop (int t) n h fl (Some p) =
      (let (h, fl) = (if FreeObjectSet_Empty (the_set h1 p) then
          let (h, fl) = RemoveSet p h1 fl in (update_set p FreeObjectSet_Rebuild h, fl) else (h1, fl))
      in Some (h, fl\<lparr>list_available := list_available fl - of_nat (Available h a)\<rparr>, a))"
    if "n \<le> set_size h B p" "a \<noteq> INVALID_OBJECT"
      "(if t \<le> 29 then ObtainSmallFreeObject p n h = (h1, a) else ObtainLargeFreeObject p n h = Some (h1, a))" for h1 a
    using that un f by (subst allocate_sets_loop.simps) (auto simp: the_set_simps free_consts Let_def split: prod.split if_splits)
  have done': ?case if tk: "taken h B p a h1" "n \<le> Available h a"
    and r: "if t \<le> 29 then ObtainSmallFreeObject p n h = (h1, a) else ObtainLargeFreeObject p n h = Some (h1, a)" for a h1
  proof -
    have a: "a \<in> set (B p)" using tk(1) by (simp add: taken_def)
    then have "a \<noteq> INVALID_OBJECT" using blocks_okD(3) [OF ok a] by (auto simp: block_ok_def INVALID_OBJECT_def)
    moreover have "n \<le> set_size h B p" using set_size_ge [of a B p h] a tk(2) by simp
    ultimately have eq: "allocate_sets_loop (int t) n h fl (first_of (p # ps)) =
      (let (h, fl) = (if FreeObjectSet_Empty (the_set h1 p) then
          let (h, fl) = RemoveSet p h1 fl in (update_set p FreeObjectSet_Rebuild h, fl) else (h1, fl))
      in Some (h, fl\<lparr>list_available := list_available fl - of_nat (Available h a)\<rparr>, a))"
      using found [OF _ _ r] by simp
    show ?thesis unfolding eq by (rule alloc_found [OF ok lok p tk], rule disjI1) blast
  qed
  show ?case
  proof (cases "set_size h B p < n")
    case True
    then have "allocate_sets_loop (int t) n h fl (first_of (p # ps)) = allocate_sets_loop (int t) n h fl (first_of ps)"
      using un f nxt by (subst allocate_sets_loop.simps) (simp add: the_set_simps)
    moreover have "\<forall>x \<in> set (B p). Available h x < n" using True set_size_ge [of _ B p h] by fastforce
    ultimately show ?thesis using IH by auto
  next
    case False
    show ?thesis
    proof (cases "t \<le> 29")
      case True
      obtain a ys where B: "B p = a # ys" using lok p unfolding list_ok_def by (metis neq_Nil_conv)
      then have b: "block_ok h p a" using blocks_okD(3) [OF ok] by simp
      then have "n \<le> Available h a" using small_class_fits [OF n(1,2), of "Available h a"] n(3) True v(2)
        by (simp add: block_ok_def free_consts)
      then show ?thesis using ObtainSmall_some [OF ok v(1) f B] done' True by metis
    next
      case large: False
      consider (found) h1 a where "ObtainLargeFreeObject p n h = Some (h1, a)" "taken h B p a h1" "n \<le> Available h a"
        | (none) "ObtainLargeFreeObject p n h = Some (h, INVALID_OBJECT)" "\<forall>x \<in> set (B p). Available h x < n"
        using ObtainLarge_spec [OF ok v(1) f, of n] by blast
      then show ?thesis
      proof cases
        case found
        then show ?thesis using done' large by simp
      next
        case none
        have "\<not> FreeObjectSet_Empty f"
          using set_available_eq(3) [OF ok v(1) f] lok p by (auto simp: FreeObjectSet_Empty_def list_ok_def simp del: split_paired_All)
        then have "allocate_sets_loop (int t) n h fl (first_of (p # ps)) = allocate_sets_loop (int t) n h fl (first_of ps)"
          using False un f nxt large none(1) by (subst allocate_sets_loop.simps) (simp add: the_set_simps free_consts)
        then show ?thesis using IH none(2) by auto
      qed
    qed
  qed
qed

end
