(* ===== verification/Free_List_Allocate.thy ===== *)
theory Free_List_Allocate
  imports Free_List_Ops
begin

text \<open>
  The search of \<open>FreeObjectList::Allocate\<close> over the size classes, and the specification of the whole
  function: it always returns, what it returns was a free block of a listed set and is one no longer, and
  it returns nothing only when no listed block is large enough.
\<close>

section \<open>The classes\<close>

lemma types_loop:
  assumes ok: "blocks_ok h B" and lok: "list_ok h B fl L" and n: "16 \<le> n" "n mod 8 = 0" "SelectSetType n \<le> int s"
  shows "(\<exists>h' fl' a B' L'. allocate_types_loop (int s - 1) (CalcNextNoneEmptyIndex fl (int s)) n h fl = Some (h', fl', a) \<and>
      a \<noteq> INVALID_OBJECT \<and> got h B L n a h' B' L' \<and> list_ok h' B' fl' L' \<and> taken_from fl fl' (Available h a)) \<or>
    (allocate_types_loop (int s - 1) (CalcNextNoneEmptyIndex fl (int s)) n h fl = Some (h, fl, 0) \<and>
      (\<forall>u \<ge> s. \<forall>p \<in> set (L u). \<forall>x \<in> set (B p). Available h x < n))"
  using n(3)
proof (induction "40 - s" arbitrary: s rule: less_induct)
  case less
  have links: "list_links h fl L" using lok by (simp add: list_ok_def)
  note D = list_linksD [OF links]
  show ?case
  proof (cases rule: next_class_cases [of s fl])
    case none
    then have "L u = []" if "s \<le> u" for u using D(9) that by blast
    then show ?thesis using none(2) by (subst (1 2) allocate_types_loop.simps) simp
  next
    case (found u)
    have u: "u < NUMBER_OF_SETS" using D(9) [of u] D(11) [of u] found(2) by force
    have below: "L v = []" if "s \<le> v" "v < u" for v using D(9) [of v] found(3) [OF that] by blast
    have step: "allocate_types_loop (int s - 1) (CalcNextNoneEmptyIndex fl (int s)) n h fl =
      do { (h, fl, object) \<leftarrow> allocate_sets_loop (int u) n h fl (first_of (L u));
           if object \<noteq> INVALID_OBJECT then Some (h, fl, object)
           else allocate_types_loop (int u) (CalcNextNoneEmptyIndex fl (int u + 1)) n h fl }"
      unfolding found(4) using found(1) u D(3) [OF u] by (subst allocate_types_loop.simps) simp
    have cls: "SelectSetType n \<le> int u" using less.prems found(1) by simp
    consider (got) h' fl' a B' L' where "allocate_sets_loop (int u) n h fl (first_of (L u)) = Some (h', fl', a)"
        "a \<noteq> INVALID_OBJECT" "got h B L n a h' B' L'" "list_ok h' B' fl' L'" "taken_from fl fl' (Available h a)"
      | (none) "allocate_sets_loop (int u) n h fl (first_of (L u)) = Some (h, fl, INVALID_OBJECT)"
        "\<forall>p \<in> set (L u). \<forall>x \<in> set (B p). Available h x < n"
      using sets_loop [OF ok lok n(1,2) cls, of "[]" "L u"] got_valid [OF ok] by fastforce
    then show ?thesis
    proof cases
      case got
      then show ?thesis unfolding step by auto
    next
      case none
      have eq: "allocate_types_loop (int s - 1) (CalcNextNoneEmptyIndex fl (int s)) n h fl =
          allocate_types_loop (int (Suc u) - 1) (CalcNextNoneEmptyIndex fl (int (Suc u))) n h fl"
        unfolding step using none(1) by (simp add: add.commute)
      have up: "(\<forall>v \<ge> Suc u. \<forall>p \<in> set (L v). \<forall>x \<in> set (B p). Available h x < n) \<Longrightarrow>
          \<forall>v \<ge> s. \<forall>p \<in> set (L v). \<forall>x \<in> set (B p). Available h x < n"
        using none(2) below by (metis Suc_leI emptyE linorder_neqE_nat list.set(1))
      have "40 - Suc u < 40 - s" using u found(1) by (simp add: NUMBER_OF_SETS_def)
      then show ?thesis unfolding eq using less.hyps [of "Suc u"] cls up by fastforce
    qed
  qed
qed

lemma Allocate_spec:
  assumes ok: "blocks_ok h B" and lok: "list_ok h B fl L" and n: "n mod 8 = 0"
  obtains (got) h' fl' a B' L' where "FreeObjectList_Allocate n h fl = Some (h', fl', a)" "a \<noteq> 0" "got h B L n a h' B' L'"
      "list_ok h' B' fl' L'" "taken_from fl fl' (Available h a)" "16 \<le> n"
  | (none) "FreeObjectList_Allocate n h fl = Some (h, fl, 0)"
      "16 \<le> n \<Longrightarrow> \<forall>u. \<forall>p \<in> set (L u). \<forall>x \<in> set (B p). Available h x < n"
proof -
  have links: "list_links h fl L" using lok by (simp add: list_ok_def)
  note D = list_linksD [OF links]
  show ?thesis
  proof (cases "noneEmptySetBitMap fl = 0 \<or> n < 16")
    case True
    have "FreeObjectList_Allocate n h fl = Some (h, fl, 0)"
      using True class_invalid [of n] by (auto simp: FreeObjectList_Allocate_def Let_def)
    moreover have "\<forall>u. \<forall>p \<in> set (L u). \<forall>x \<in> set (B p). Available h x < n" if "16 \<le> n"
    proof -
      have "L u = []" for u using D(9) [of u] True that by auto
      then show ?thesis by simp
    qed
    ultimately show ?thesis by (rule none)
  next
    case False
    then have n16: "16 \<le> n" by simp
    obtain s where s: "SelectSetType n = int s" using class_range [OF n16] by (metis nonneg_int_cases)
    have eq: "FreeObjectList_Allocate n h fl = allocate_types_loop (int s - 1) (CalcNextNoneEmptyIndex fl (int s)) n h fl"
      using False class_invalid [of n] s by (auto simp: FreeObjectList_Allocate_def Let_def)
    have low: "\<forall>x \<in> set (B p). Available h x < n" if "p \<in> set (L u)" "u < s" for p u
    proof
      fix x assume x: "x \<in> set (B p)"
      then have b: "block_ok h p x" using blocks_okD(3) [OF ok] by simp
      show "Available h x < n"
      proof (rule ccontr)
        assume "\<not> Available h x < n"
        then have "SelectSetType n \<le> SelectSetType (Available h x)" using class_mono [OF n16] by simp
        then show False using b s that(2) D(7) [OF that(1)] by (simp add: block_ok_def)
      qed
    qed
    from types_loop [OF ok lok n16 n, of s] s
    consider (got) h' fl' a B' L' where "FreeObjectList_Allocate n h fl = Some (h', fl', a)" "got h B L n a h' B' L'"
        "list_ok h' B' fl' L'" "taken_from fl fl' (Available h a)"
      | (none) "FreeObjectList_Allocate n h fl = Some (h, fl, 0)"
        "\<forall>u \<ge> s. \<forall>p \<in> set (L u). \<forall>x \<in> set (B p). Available h x < n"
      unfolding eq by fastforce
    then show ?thesis
    proof cases
      case got
      then show ?thesis using that(1) got_nonzero [OF ok got(2)] n16 by simp
    next
      case none
      then have "\<forall>u. \<forall>p \<in> set (L u). \<forall>x \<in> set (B p). Available h x < n" using low by (metis not_less)
      then show ?thesis using that(2) none(1) by simp
    qed
  qed
qed

end
