(* ===== verification/Heap_Pieces.thy ===== *)
theory Heap_Pieces
  imports Free_List_Allocate "HOL-Library.Multiset"
begin

text \<open>
  Pieces are the ranges of memory that are in use: objects handed out by an allocator and the range of
  its bump pointer.  They lie inside of regions, are aligned and overlap neither each other nor a free
  block.  \<open>parcelled h B fl L U xs\<close> is the invariant of the memory: the free blocks \<open>B\<close>, the free list with its
  lists of sets \<open>L\<close>, and the pieces \<open>xs\<close>.  Every free block is on the free list, except for those of the
  regions in \<open>U\<close>, which are swept but not collected.
\<close>

type_synonym piece = "nat \<times> nat"

definition piece_ok :: "heap \<Rightarrow> (set_ptr \<Rightarrow> nat list) \<Rightarrow> piece \<Rightarrow> bool" where
  "piece_ok h B = (\<lambda>(a, n). 0 < n \<and> a mod 8 = 0 \<and> n mod 8 = 0 \<and> (\<exists>r. in_data h r a n) \<and> apart h B a n)"

fun apart_from :: "piece \<Rightarrow> piece \<Rightarrow> bool" where
  "apart_from (a, n) (b, m) = disj a n b m"

definition pieces_ok :: "heap \<Rightarrow> (set_ptr \<Rightarrow> nat list) \<Rightarrow> piece list \<Rightarrow> bool" where
  "pieces_ok h B xs \<longleftrightarrow> (\<forall>x \<in> set xs. piece_ok h B x) \<and> sorted_wrt apart_from xs"

definition listed :: "(set_ptr \<Rightarrow> nat list) \<Rightarrow> (nat \<Rightarrow> set_ptr list) \<Rightarrow> nat set \<Rightarrow> bool" where
  "listed B L U \<longleftrightarrow> (\<forall>q. B q \<noteq> [] \<longrightarrow> (q \<in> set (L (snd q)) \<longleftrightarrow> fst q \<notin> U))"

definition parcelled :: "heap \<Rightarrow> (set_ptr \<Rightarrow> nat list) \<Rightarrow> free_list \<Rightarrow> (nat \<Rightarrow> set_ptr list) \<Rightarrow> nat set \<Rightarrow> piece list \<Rightarrow> bool" where
  "parcelled h B fl L U xs \<longleftrightarrow> blocks_ok h B \<and> list_ok h B fl L \<and> listed B L U \<and> pieces_ok h B xs"

definition bytes :: "piece list \<Rightarrow> nat" where
  "bytes xs = sum_list (map snd xs)"

lemma bytes_simps [simp]: "bytes [] = 0" "bytes (x # xs) = snd x + bytes xs" "bytes (xs @ ys) = bytes xs + bytes ys"
  by (simp_all add: bytes_def)

lemma apart_from_sym: "apart_from x y \<longleftrightarrow> apart_from y x"
  by (cases x; cases y) (simp add: disj_sym)

section \<open>Taking pieces apart\<close>

lemma pieces_Nil [simp]: "pieces_ok h B []"
  by (simp add: pieces_ok_def)

lemma pieces_Cons: "pieces_ok h B (x # xs) \<longleftrightarrow> piece_ok h B x \<and> (\<forall>y \<in> set xs. apart_from x y) \<and> pieces_ok h B xs"
  by (auto simp: pieces_ok_def)

lemma pieces_perm: "mset xs = mset ys \<Longrightarrow> pieces_ok h B xs \<longleftrightarrow> pieces_ok h B ys"
proof (induction xs arbitrary: ys)
  case (Cons x xs)
  then have "x \<in> set ys" by (metis list.set_intros(1) mset_eq_setD)
  then obtain as bs where ys: "ys = as @ x # bs" by (auto simp: in_set_conv_decomp)
  have m: "mset xs = mset (as @ bs)" using Cons.prems ys by simp
  then have s: "set xs = set (as @ bs)" by (rule mset_eq_setD)
  have "pieces_ok h B ys \<longleftrightarrow> piece_ok h B x \<and> (\<forall>y \<in> set (as @ bs). apart_from x y) \<and> pieces_ok h B (as @ bs)"
    unfolding ys by (auto simp: pieces_ok_def sorted_wrt_append apart_from_sym)
  then show ?case using Cons.IH [OF m] by (simp add: pieces_Cons s)
qed simp

lemma piece_split:
  assumes "0 < n" "0 < m" "n mod 8 = 0"
  shows "pieces_ok h B ((a, n + m) # xs) \<Longrightarrow> pieces_ok h B ((a, n) # (a + n, m) # xs)"
proof -
  assume "pieces_ok h B ((a, n + m) # xs)"
  then have p: "a mod 8 = 0" "(n + m) mod 8 = 0" "\<exists>r. in_data h r a (n + m)" "apart h B a (n + m)"
    and d: "\<forall>y \<in> set xs. apart_from (a, n + m) y" and xs: "pieces_ok h B xs"
    by (simp_all add: pieces_Cons piece_ok_def)
  have "(a + n) mod 8 = 0" "m mod 8 = 0" using p(1,2) assms(3) by presburger+
  moreover have "\<exists>r. in_data h r a n" "\<exists>r. in_data h r (a + n) m" using p(3) by (fastforce simp: in_data_def)+
  moreover have "apart h B a n" "apart h B (a + n) m"
    using p(4) by (fastforce simp: apart_def disj_def simp del: split_paired_All)+
  moreover have "apart_from (a, n) y" "apart_from (a + n, m) y" if "y \<in> set xs" for y
    using d that by (cases y; fastforce simp: disj_def)+
  moreover have "apart_from (a, n) (a + n, m)" by (simp add: disj_def)
  ultimately show ?thesis using assms xs p(1) by (simp add: pieces_Cons piece_ok_def)
qed

section \<open>What the pieces keep when blocks change\<close>

lemma pieces_cong:
  assumes "pieces_ok h B xs" "same_core h h'" "\<And>a n. (a, n) \<in> set xs \<Longrightarrow> apart h' B' a n"
  shows "pieces_ok h' B' xs"
  using assms by (fastforce simp: pieces_ok_def piece_ok_def in_data_cong)

definition in_pieces :: "piece list \<Rightarrow> nat \<Rightarrow> bool" where
  "in_pieces xs i \<longleftrightarrow> (\<exists>(a, n) \<in> set xs. a \<le> i \<and> i < a + n)"

lemma in_pieces_apart: "pieces_ok h B (x # xs) \<Longrightarrow> in_pieces xs i \<Longrightarrow> i < fst x \<or> fst x + snd x \<le> i"
  by (cases x) (fastforce simp: pieces_Cons in_pieces_def disj_def)

lemma in_pieces_blocks: "pieces_ok h B xs \<Longrightarrow> in_pieces xs i \<Longrightarrow> \<not> in_blocks h B i"
  by (fastforce simp: pieces_ok_def piece_ok_def in_pieces_def in_blocks_def disj_def dest: apartD
      simp del: split_paired_All split_paired_Ex)

section \<open>Bytes of regions that are not collected\<close>

definition unlisted_bytes :: "heap \<Rightarrow> (set_ptr \<Rightarrow> nat list) \<Rightarrow> nat \<Rightarrow> u64" where
  "unlisted_bytes h B r = of_nat (\<Sum>t < NUMBER_OF_SETS. set_size h B (r, t)) + wasted (region_at h r)"

definition kept :: "nat set \<Rightarrow> heap \<Rightarrow> (set_ptr \<Rightarrow> nat list) \<Rightarrow> heap \<Rightarrow> (set_ptr \<Rightarrow> nat list) \<Rightarrow> bool" where
  "kept U h B h' B' \<longleftrightarrow> (\<forall>r \<in> U. unlisted_bytes h' B' r = unlisted_bytes h B r)"

lemma kept_simps [simp]: "kept {} h B h' B'" "kept U h B h B"
  by (simp_all add: kept_def)

lemma kept_trans [trans]: "kept U h B h' B' \<Longrightarrow> kept U h' B' h'' B'' \<Longrightarrow> kept U h B h'' B''"
  by (simp add: kept_def)

lemma unlisted_cong:
  assumes "\<And>t. B' (r, t) = B (r, t)" "\<And>t x. x \<in> set (B (r, t)) \<Longrightarrow> Available h' x = Available h x"
    "wasted (region_at h' r) = wasted (region_at h r)"
  shows "unlisted_bytes h' B' r = unlisted_bytes h B r"
proof -
  have "set_size h' B' (r, t) = set_size h B (r, t)" for t
    unfolding set_size_def assms(1) using assms(2) by (intro arg_cong [where f = sum_list] map_cong) auto
  then show ?thesis using assms(3) by (simp add: unlisted_bytes_def)
qed

lemma keptI:
  assumes "\<And>q. fst q \<in> U \<Longrightarrow> B' q = B q" "\<And>q x. fst q \<in> U \<Longrightarrow> x \<in> set (B q) \<Longrightarrow> Available h' x = Available h x"
    "\<And>r. r \<in> U \<Longrightarrow> wasted (region_at h' r) = wasted (region_at h r)"
  shows "kept U h B h' B'"
  unfolding kept_def by (intro ballI unlisted_cong) (use assms in auto)

lemma wasted_region: "wasted_same h h' \<Longrightarrow> wasted (region_at h' r) = wasted (region_at h r)"
proof -
  assume "wasted_same h h'"
  then have "map_option wasted (regions h' r) = map_option wasted (regions h r)" by (simp add: wasted_same_def)
  then show ?thesis by (cases "regions h r"; cases "regions h' r") (auto simp: region_at_def)
qed

lemma off_list:
  assumes "list_ok h B fl L" "listed B L U" "q \<in> set (L u)"
  shows "fst q \<notin> U"
proof -
  have "snd q = u" "B q \<noteq> []" using assms(1,3) list_linksD(7) unfolding list_ok_def by blast+
  then show ?thesis using assms(2,3) unfolding listed_def by metis
qed

section \<open>Giving a piece back\<close>

lemma IncreaseWasted_same:
  assumes "r \<in> dom (regions h)"
  shows "same_core h (IncreaseWasted r n h)" "set_at (IncreaseWasted r n h) = set_at h" "memory (IncreaseWasted r n h) = memory h"
proof -
  show "same_core h (IncreaseWasted r n h)"
    using assms unfolding IncreaseWasted_def by (intro same_core_update_region) (simp_all add: core_def)
  show "set_at (IncreaseWasted r n h) = set_at h"
    using assms by (auto simp: fun_eq_iff IncreaseWasted_def set_at_def update_region_def region_at_def split: option.split)
  show "memory (IncreaseWasted r n h) = memory h" by (simp add: IncreaseWasted_def)
qed

lemma parcelled_frame:
  assumes P: "parcelled h B fl L U xs" and core: "same_core h h'" and same: "same_blocks B h h'" and sets: "set_at h' = set_at h"
    and fl: "fl' = fl\<lparr>list_wasted := w\<rparr>"
  shows "parcelled h' B fl' L U xs"
proof -
  have ok: "blocks_ok h B" and lok: "list_ok h B fl L" and px: "pieces_ok h B xs" using P by (simp_all add: parcelled_def)
  note av = same_blocks_cong(1) [OF ok core same]
  have "blocks_ok h' B" by (rule blocks_ok_cong [OF ok core same]) (simp add: sets)
  moreover have "list_links h' fl' L"
    using list_links_cong [OF _ core, of fl L] lok sets by (simp add: list_ok_def fl)
  moreover have "(\<Sum>x\<leftarrow>B q. Available h' x) = (\<Sum>x\<leftarrow>B q. Available h x)" for q
    using av by (intro arg_cong [where f = sum_list] map_cong) auto
  then have "list_size h' B L = list_size h B L" by (simp add: list_size_def set_size_def)
  moreover have "pieces_ok h' B xs"
  proof (rule pieces_cong [OF px core])
    fix a n assume "(a, n) \<in> set xs"
    then have "apart h B a n" using px by (auto simp: pieces_ok_def piece_ok_def)
    then show "apart h' B a n" using av by (auto simp: apart_def simp del: split_paired_All)
  qed
  ultimately show ?thesis using P by (simp add: parcelled_def list_ok_def fl)
qed

lemma pieces_push:
  assumes "pieces_ok h B ((a, n) # xs)" "freed h B a n h' B'"
  shows "pieces_ok h' B' xs"
proof (rule pieces_cong)
  show "pieces_ok h B xs" using assms(1) by (simp add: pieces_Cons)
  show "same_core h h'" using assms(2) by (simp add: freed_def)
  fix b m assume b: "(b, m) \<in> set xs"
  then have "apart h B b m" "disj a n b m" using assms(1) by (auto simp: pieces_Cons pieces_ok_def piece_ok_def)
  then show "apart h' B' b m"
    using assms(2) by (auto simp: apart_def freed_def Let_def split: if_splits simp del: split_paired_All)
qed

lemma release_piece:
  assumes P: "parcelled h B (freeList al) L U ((a, n) # xs)" and U: "ObjectAddressToRange a \<notin> U"
  obtains h' fl' B' L' where "FreeListAllocator_Free a n True (h, al) = (h', al\<lparr>freeList := fl'\<rparr>)"
    "parcelled h' B' fl' L' U xs" "same_core h h'" "\<And>i. i < a \<or> a + n \<le> i \<Longrightarrow> memory h' i = memory h i"
    "list_available fl' + list_wasted fl' = list_available (freeList al) + list_wasted (freeList al) + of_nat n"
    "kept U h B h' B'"
proof -
  have ok: "blocks_ok h B" and lok: "list_ok h B (freeList al) L" and px: "pieces_ok h B ((a, n) # xs)"
    and li: "listed B L U" using P by (simp_all add: parcelled_def)
  obtain r where r: "in_data h r a n" and n: "0 < n" "n mod 8 = 0" "a mod 8 = 0" and ap: "apart h B a n"
    using px by (auto simp: pieces_Cons piece_ok_def)
  have rng: "ObjectAddressToRange a = r" "r < a" using in_data_region [OF ok r] in_data_bound [OF ok r] n by auto
  define h0 where "h0 = FillFreeObject a n h"
  have eq: "FreeListAllocator_Free a n True (h, al) =
      (let (h, fl) = FreeObjectList_Free a n True h0 (freeList al) in (h, al\<lparr>freeList := fl\<rparr>))"
    using n by (simp add: FreeListAllocator_Free_def h0_def)
  show ?thesis
  proof (cases "n < MIN_SIZE")
    case True
    let ?h = "IncreaseWasted r n h0" and ?fl = "(freeList al)\<lparr>list_wasted := list_wasted (freeList al) + of_nat n\<rparr>"
    have dom: "r \<in> dom (regions h0)" using r by (auto simp: in_data_def h0_def)
    note w = IncreaseWasted_same [OF dom, of n]
    have core: "same_core h ?h" using w(1) same_core_trans [of h h0 ?h] by (simp add: h0_def)
    have mem: "memory ?h i = memory h i" if "i < a \<or> a + n \<le> i" for i
      using Fill_memory [OF that] by (simp add: w(3)) (simp add: h0_def)
    have "parcelled h B (freeList al) L U xs" using P by (simp add: parcelled_def pieces_Cons)
    then have "parcelled ?h B ?fl L U xs"
      by (rule parcelled_frame [OF _ core same_blocks_outside [OF ap mem]]) (use w(2) in \<open>simp_all add: h0_def\<close>)
    moreover have "FreeObjectList_Free a n True h0 (freeList al) = (?h, ?fl)"
      using True rng by (simp add: FreeObjectList_Free_def)
    moreover have "kept U h B ?h B"
    proof (rule keptI)
      show "Available ?h x = Available h x" if "x \<in> set (B q)" for q x
        by (rule same_blocks_cong(1) [OF ok core same_blocks_outside [OF ap mem] that])
      show "wasted (region_at ?h q) = wasted (region_at h q)" if "q \<in> U" for q
        using that U rng by (auto simp: IncreaseWasted_def region_at_def update_region_def h0_def)
    qed simp
    ultimately show ?thesis using that [of ?h ?fl] core mem eq by simp
  next
    case False
    define p where "p = (r, nat (SelectSetType n))"
    define B' where "B' = B(p := a # B p)"
    obtain h' fl' L' where f: "FreeObjectList_Free a n True h0 (freeList al) = (h', fl')" "freed h B a n h' B'"
      "list_ok h' B' fl' L'" "list_wasted fl' = list_wasted (freeList al)"
      "(B p \<noteq> [] \<Longrightarrow> p \<in> set (L (snd p))) \<Longrightarrow> list_available fl' = list_available (freeList al) + of_nat n"
      "\<And>u. set (L' u) = (if u = snd p then insert (r, u) (set (L u)) else set (L u))"
    proof (rule free_block [OF ok lok ap n(3,2) _ r, of True, folded p_def h0_def B'_def])
      fix h' fl' L'
      assume "FreeObjectList_Free a n True h0 (freeList al) = (h', fl')" "freed h B a n h' B'" "list_ok h' B' fl' L'"
        "list_wasted fl' = list_wasted (freeList al)"
        "True \<Longrightarrow> (B p \<noteq> [] \<Longrightarrow> p \<in> set (L (nat (SelectSetType n)))) \<Longrightarrow> list_available fl' = list_available (freeList al) + of_nat n"
        "\<And>u. True \<Longrightarrow> set (L' u) = (if u = nat (SelectSetType n) then insert (r, u) (set (L u)) else set (L u))"
      then show thesis using that [of h' fl' L'] by (simp add: p_def)
    qed (use False in simp_all)
    have "listed B' L' U" unfolding listed_def
    proof (intro allI impI)
      fix q assume q: "B' q \<noteq> []"
      show "q \<in> set (L' (snd q)) \<longleftrightarrow> fst q \<notin> U"
      proof (cases "q = p")
        case False
        then have "B q \<noteq> []" "q \<in> set (L' (snd q)) \<longleftrightarrow> q \<in> set (L (snd q))"
          using q f(6) [of "snd q"] by (auto simp: B'_def p_def prod_eq_iff)
        then show ?thesis using li unfolding listed_def by metis
      qed (use f(6) U rng in \<open>simp add: p_def\<close>)
    qed
    then have "parcelled h' B' fl' L' U xs"
      using f(2,3) pieces_push [OF px f(2)] unfolding parcelled_def freed_def by blast
    moreover have "B p \<noteq> [] \<Longrightarrow> p \<in> set (L (snd p))"
      using li U rng unfolding listed_def p_def by (metis fst_conv)
    moreover have fr: "same_core h h'" "\<And>i. i < a \<or> a + n \<le> i \<Longrightarrow> memory h' i = memory h i" "wasted_same h h'"
      "\<And>q x. x \<in> set (B q) \<Longrightarrow> Available h' x = Available h x"
      using f(2) by (auto simp: freed_def simp del: split_paired_All)
    moreover have "kept U h B h' B'"
      by (rule keptI) (use U rng fr(4) wasted_region [OF fr(3)] in \<open>auto simp: B'_def p_def\<close>)
    ultimately show ?thesis using that [of h' fl' B' L'] f(1,4,5) eq by simp
  qed
qed

text \<open>A background sweeper keeps what it frees in the sets of the region, off the free list.\<close>

lemma release_unlisted:
  assumes P: "parcelled h B (freeList al) L U ((a, n) # xs)" and U: "ObjectAddressToRange a \<in> U"
  obtains h' B' where "FreeListAllocator_Free a n False (h, al) = (h', al)"
    "parcelled h' B' (freeList al) L U xs" "same_core h h'" "\<And>i. i < a \<or> a + n \<le> i \<Longrightarrow> memory h' i = memory h i"
    "unlisted_bytes h' B' (ObjectAddressToRange a) = unlisted_bytes h B (ObjectAddressToRange a) + of_nat n"
    "kept (U - {ObjectAddressToRange a}) h B h' B'"
proof -
  have ok: "blocks_ok h B" and lok: "list_ok h B (freeList al) L" and px: "pieces_ok h B ((a, n) # xs)"
    and li: "listed B L U" using P by (simp_all add: parcelled_def)
  obtain r where r: "in_data h r a n" and n: "0 < n" "n mod 8 = 0" "a mod 8 = 0" and ap: "apart h B a n"
    using px by (auto simp: pieces_Cons piece_ok_def)
  have rng: "ObjectAddressToRange a = r" "r < a" "r \<in> U" using in_data_region [OF ok r] in_data_bound [OF ok r] n U by auto
  define h0 where "h0 = FillFreeObject a n h"
  have eq: "FreeListAllocator_Free a n False (h, al) =
      (let (h, fl) = FreeObjectList_Free a n False h0 (freeList al) in (h, al\<lparr>freeList := fl\<rparr>))"
    using n by (simp add: FreeListAllocator_Free_def h0_def)
  show ?thesis
  proof (cases "n < MIN_SIZE")
    case True
    let ?h = "IncreaseWasted r n h0"
    have dom: "r \<in> dom (regions h0)" using r by (auto simp: in_data_def h0_def)
    note w = IncreaseWasted_same [OF dom, of n]
    have core: "same_core h ?h" using w(1) same_core_trans [of h h0 ?h] by (simp add: h0_def)
    have mem: "memory ?h i = memory h i" if "i < a \<or> a + n \<le> i" for i
      using Fill_memory [OF that] by (simp add: w(3)) (simp add: h0_def)
    have same: "same_blocks B h ?h" by (rule same_blocks_outside [OF ap mem])
    have "parcelled h B (freeList al) L U xs" using P by (simp add: parcelled_def pieces_Cons)
    then have "parcelled ?h B (freeList al) L U xs"
      by (rule parcelled_frame [OF _ core same, where w = "list_wasted (freeList al)"]) (use w(2) in \<open>simp_all add: h0_def\<close>)
    moreover have "FreeObjectList_Free a n False h0 (freeList al) = (?h, freeList al)"
      using True rng by (simp add: FreeObjectList_Free_def)
    moreover have sz: "set_size ?h B q = set_size h B q" for q
      unfolding set_size_def using same_blocks_cong(1) [OF ok core same] by (intro arg_cong [where f = sum_list] map_cong) auto
    have "kept (U - {r}) h B ?h B"
      using sz by (auto simp: kept_def unlisted_bytes_def IncreaseWasted_def region_at_def update_region_def h0_def)
    moreover have "unlisted_bytes ?h B r = unlisted_bytes h B r + of_nat n"
      using sz by (simp add: unlisted_bytes_def IncreaseWasted_def region_at_def update_region_def h0_def)
    ultimately show ?thesis using that [of ?h B] core mem eq rng by simp
  next
    case False
    define p where "p = (r, nat (SelectSetType n))"
    define B' where "B' = B(p := a # B p)"
    have off: "\<forall>t. (r, t) \<notin> set (L t)" using off_list [OF lok li] rng(3) by fastforce
    obtain h' fl' L' where f: "FreeObjectList_Free a n False h0 (freeList al) = (h', fl')" "freed h B a n h' B'"
      "list_ok h' B' fl' L'" "fl' = freeList al \<and> L' = L"
    proof (rule free_block [OF ok lok ap n(3,2) _ r off, of False, folded p_def h0_def B'_def])
      fix h' fl' L'
      assume "FreeObjectList_Free a n False h0 (freeList al) = (h', fl')" "freed h B a n h' B'" "list_ok h' B' fl' L'"
        "\<not> False \<Longrightarrow> fl' = freeList al \<and> L' = L"
      then show thesis using that [of h' fl' L'] by simp
    qed (use False in simp_all)
    have fr: "same_core h h'" "\<And>i. i < a \<or> a + n \<le> i \<Longrightarrow> memory h' i = memory h i" "wasted_same h h'"
      "\<And>q x. x \<in> set (B q) \<Longrightarrow> Available h' x = Available h x" "Available h' a = n" "blocks_ok h' B'"
      using f(2) by (auto simp: freed_def simp del: split_paired_All)
    have "listed B' L U" unfolding listed_def
    proof (intro allI impI)
      fix q assume q: "B' q \<noteq> []"
      show "q \<in> set (L (snd q)) \<longleftrightarrow> fst q \<notin> U"
      proof (cases "q = p")
        case False
        then show ?thesis using li q unfolding listed_def B'_def by (metis fun_upd_other)
      qed (use off rng in \<open>simp add: p_def\<close>)
    qed
    then have "parcelled h' B' (freeList al) L U xs"
      using f(3,4) fr(6) pieces_push [OF px f(2)] by (simp add: parcelled_def)
    moreover have sz: "set_size h' B' q = set_size h B q + (if q = p then n else 0)" for q
      using set_size_push [of B h' h a n p, OF fr(4,5)] by (simp add: B'_def)
    have "kept (U - {r}) h B h' B'"
      using sz wasted_region [OF fr(3)] by (simp add: kept_def unlisted_bytes_def p_def)
    moreover have "unlisted_bytes h' B' r = unlisted_bytes h B r + of_nat n"
    proof -
      have t: "nat (SelectSetType n) < NUMBER_OF_SETS"
        using class_range [of n] False by (auto simp: free_consts NUMBER_OF_SETS_def)
      have "(\<Sum>t < NUMBER_OF_SETS. set_size h' B' (r, t)) = (\<Sum>t < NUMBER_OF_SETS. set_size h B (r, t)) + n"
        using t by (simp add: sz p_def sum.distrib)
      then show ?thesis
        using wasted_region [OF fr(3)] by (simp add: unlisted_bytes_def del: of_nat_sum)
    qed
    moreover have "al\<lparr>freeList := freeList al\<rparr> = al" by simp
    ultimately show ?thesis using that [of h' B'] f(1,4) fr(1,2) eq rng by simp
  qed
qed

section \<open>Taking a piece from the free list\<close>

lemma take_piece:
  assumes P: "parcelled h B fl L U xs" and n: "n mod 8 = 0"
  obtains (got) h' fl' a m B' L' where "FreeObjectList_Allocate n h fl = Some (h', fl', a)" "a \<noteq> 0" "m = Available h' a" "n \<le> m"
      "parcelled h' B' fl' L' U ((a, m) # xs)" "same_core h h'" "\<And>i. in_pieces xs i \<Longrightarrow> memory h' i = memory h i"
      "list_available fl' = list_available fl - of_nat m" "list_wasted fl' = list_wasted fl" "ObjectAddressToRange a \<notin> U"
      "kept U h B h' B'"
  | (none) "FreeObjectList_Allocate n h fl = Some (h, fl, 0)"
      "\<And>q x. 16 \<le> n \<Longrightarrow> fst q \<notin> U \<Longrightarrow> x \<in> set (B q) \<Longrightarrow> Available h x < n"
proof -
  have ok: "blocks_ok h B" and lok: "list_ok h B fl L" and px: "pieces_ok h B xs" and li: "listed B L U"
    using P by (simp_all add: parcelled_def)
  show ?thesis
  proof (cases rule: Allocate_spec [OF ok lok n])
    case (1 h' fl' a B' L')
    then obtain p where p: "p \<in> set (L (snd p))" "a \<in> set (B p)" "B' = B(p := remove1 a (B p))"
      and G0: "wasted_same h h'" and G: "same_core h h'" "blocks_ok h' B'" "n \<le> Available h a" "Available h' a = Available h a"
        "\<forall>u. set (L' u) \<subseteq> set (L u)" "\<forall>u. \<forall>q \<in> set (L u). B' q \<noteq> [] \<longrightarrow> q \<in> set (L' u)"
        "\<forall>q. \<forall>x \<in> set (B q). Available h' x = Available h x" "apart h' B' a (Available h a)"
        "\<forall>i. \<not> in_blocks h B i \<longrightarrow> memory h' i = memory h i"
      unfolding got_def by metis
    have b: "block_ok h p a" using blocks_okD(3) [OF ok p(2)] .
    have U: "fst p \<notin> U" using li p(1,2) unfolding listed_def by (metis length_pos_if_in_set less_nat_zero_code list.size(3))
    have rng: "ObjectAddressToRange a = fst p" using in_data_region [OF ok] b by (fastforce simp: block_ok_def free_consts)
    have sub: "set (B' q) \<subseteq> set (B q)" for q using p(3) set_remove1_subset [of a "B p"] by auto
    have "listed B' L' U" unfolding listed_def
    proof (intro allI impI)
      fix q assume q: "B' q \<noteq> []"
      then have "B q \<noteq> []" using sub [of q] by auto
      then show "q \<in> set (L' (snd q)) \<longleftrightarrow> fst q \<notin> U" using li G(5,6) q unfolding listed_def by (metis subsetD)
    qed
    moreover have "piece_ok h' B' (a, Available h a)"
      using b G(1,8) by (auto simp: piece_ok_def block_ok_def free_consts in_data_cong)
    moreover have "pieces_ok h' B' xs"
    proof (rule pieces_cong [OF px G(1)])
      fix c m assume "(c, m) \<in> set xs"
      then have "apart h B c m" using px by (auto simp: pieces_ok_def piece_ok_def)
      then show "apart h' B' c m" using sub G(7) unfolding apart_def by (metis subsetD)
    qed
    moreover have "apart_from (a, Available h a) y" if "y \<in> set xs" for y
      using px that p(2) by (cases y) (auto simp: pieces_ok_def piece_ok_def dest: apartD)
    ultimately have "parcelled h' B' fl' L' U ((a, Available h' a) # xs)"
      using G(2,4) 1(4) by (simp add: parcelled_def pieces_Cons)
    moreover have "memory h' i = memory h i" if "in_pieces xs i" for i
      using G(9) in_pieces_blocks [OF px that] by simp
    moreover have "kept U h B h' B'"
      by (rule keptI) (use U G(7) wasted_region [OF G0] p(3) in auto)
    ultimately show ?thesis using that(1) 1(1,2,5) G(1,3,4) rng U by (simp add: taken_from_def)
  next
    case 2
    have "Available h x < n" if "16 \<le> n" "fst q \<notin> U" "x \<in> set (B q)" for q x
    proof -
      have "B q \<noteq> []" using that(3) by auto
      then have "q \<in> set (L (snd q))" using li that(2) unfolding listed_def by metis
      then show ?thesis using 2(2) that by blast
    qed
    then show ?thesis using that(2) 2(1) by blast
  qed
qed

end
