(* ===== verification/Allocator_Invariant.thy ===== *)
theory Allocator_Invariant
  imports Heap_Pieces
begin

text \<open>
  The invariant of the free list allocator.  The range of the bump pointer is one of the pieces, next to
  the objects \<open>live\<close> that were handed out and not given back.  The lemmas say for each operation which
  pieces there are afterwards, that the memory of the live objects is untouched, and that the bytes that
  are free, lost or live add up to the same \<open>stock\<close> as before.
\<close>

definition bump_piece :: "allocator \<Rightarrow> piece list" where
  "bump_piece al = (if bp_top al < bp_end al then [(bp_top al, bp_end al - bp_top al)] else [])"

definition addresses_ok :: "heap \<Rightarrow> bool" where
  "addresses_ok h \<longleftrightarrow> (\<forall>r R. regions h r = Some R \<longrightarrow> region_end R < 2 ^ 63)"

definition allocator_ok ::
    "heap \<Rightarrow> (set_ptr \<Rightarrow> nat list) \<Rightarrow> allocator \<Rightarrow> (nat \<Rightarrow> set_ptr list) \<Rightarrow> nat set \<Rightarrow> piece list \<Rightarrow> bool" where
  "allocator_ok h B al L U live \<longleftrightarrow> parcelled h B (freeList al) L U (bump_piece al @ live) \<and>
     bp_top al \<le> bp_end al \<and> bp_end al < 2 ^ 63 \<and> addresses_ok h \<and>
     (bp_top al < bp_end al \<longrightarrow> ObjectAddressToRange (bp_top al) \<notin> U)"

definition stock :: "allocator \<Rightarrow> piece list \<Rightarrow> u64" where
  "stock al live = list_available (freeList al) + list_wasted (freeList al) + of_nat (bytes (bump_piece al @ live))"

lemma allocator_okD:
  assumes "allocator_ok h B al L U live"
  shows "parcelled h B (freeList al) L U (bump_piece al @ live)" "blocks_ok h B" "pieces_ok h B (bump_piece al @ live)"
    "bp_top al \<le> bp_end al" "bp_end al < 2 ^ 63" "addresses_ok h" "Bump_Available al = bp_end al - bp_top al"
    "bp_top al < bp_end al \<Longrightarrow> ObjectAddressToRange (bp_top al) \<notin> U"
  using assms usub_eq [of "bp_top al" "bp_end al"] by (auto simp: allocator_ok_def parcelled_def Bump_Available_def)

lemma parcelled_perm: "mset xs = mset ys \<Longrightarrow> parcelled h B fl L U xs \<longleftrightarrow> parcelled h B fl L U ys"
  by (simp add: parcelled_def pieces_perm [of xs ys])

lemma addresses_cong: "addresses_ok h \<Longrightarrow> same_core h h' \<Longrightarrow> addresses_ok h'"
  unfolding addresses_ok_def
proof (intro allI impI)
  fix r R' assume a: "\<forall>r R. regions h r = Some R \<longrightarrow> region_end R < 2 ^ 63" and c: "same_core h h'" and R': "regions h' r = Some R'"
  have "r \<in> dom (regions h)" using same_core_dom [OF c] R' by auto
  then obtain R where R: "regions h r = Some R" by blast
  obtain R2 where "regions h' r = Some R2" "core R2 = core R" using same_core_region [OF c R] by blast
  then show "region_end R' < 2 ^ 63" using a R R' core_fields(2) [of R' R] by simp
qed

lemma piece_bound:
  assumes "addresses_ok h" "pieces_ok h B xs" "blocks_ok h B" "(a, n) \<in> set xs"
  shows "a + n < 2 ^ 63" "0 < a"
proof -
  obtain r R where r: "regions h r = Some R" "region_begin R \<le> a" "a + n \<le> region_end R"
    using assms(2,4) by (auto simp: pieces_ok_def piece_ok_def in_data_def)
  then show "a + n < 2 ^ 63" using assms(1) unfolding addresses_ok_def by (meson le_less_trans)
  show "0 < a" using r blocks_okD(1) [OF assms(3) r(1)] by (simp add: region_ok_def)
qed

lemma bump_bound:
  assumes "allocator_ok h B al L U live" "bp_top al < bp_end al"
  shows "0 < bp_top al" "bp_top al mod 8 = 0" "bp_end al mod 8 = 0"
proof -
  have m: "(bp_top al, bp_end al - bp_top al) \<in> set (bump_piece al @ live)" using assms(2) by (simp add: bump_piece_def)
  show "0 < bp_top al" using piece_bound(2) [OF _ _ _ m] allocator_okD [OF assms(1)] by blast
  have "bp_top al mod 8 = 0 \<and> (bp_end al - bp_top al) mod 8 = 0"
    using allocator_okD(3) [OF assms(1)] m unfolding pieces_ok_def piece_ok_def by fastforce
  then show "bp_top al mod 8 = 0" "bp_end al mod 8 = 0" using assms(2) by presburger+
qed

section \<open>The bump pointer\<close>

lemma Bump_Allocate_cases:
  assumes ok: "allocator_ok h B al L U live" and n: "0 < n" "n < 2 ^ 63"
  obtains (fits) "bp_top al + n \<le> bp_end al" "bp_top al \<noteq> 0" "Bump_Allocate n al = (al\<lparr>bp_top := bp_top al + n\<rparr>, bp_top al)"
  | (full) "bp_end al < bp_top al + n" "Bump_Allocate n al = (al, 0)"
proof -
  have u: "uadd (bp_top al) n = bp_top al + n" using allocator_okD(4,5) [OF ok] n by (simp add: uadd_def)
  show ?thesis
  proof (cases "bp_end al < bp_top al + n")
    case False
    then have "0 < bp_top al" using bump_bound(1) [OF ok] n by simp
    then show ?thesis using False fits u by (simp add: Bump_Allocate_def)
  qed (use full u in \<open>simp add: Bump_Allocate_def\<close>)
qed

lemma bump_take:
  assumes ok: "allocator_ok h B al L U live" and n: "0 < n" "n mod 8 = 0" "bp_top al + n \<le> bp_end al"
  shows "allocator_ok h B (al\<lparr>bp_top := bp_top al + n\<rparr>) L U ((bp_top al, n) # live)"
    "stock (al\<lparr>bp_top := bp_top al + n\<rparr>) ((bp_top al, n) # live) = stock al live"
proof -
  let ?al = "al\<lparr>bp_top := bp_top al + n\<rparr>"
  have lt: "bp_top al < bp_end al" using n by simp
  note D = allocator_okD [OF ok]
  have P: "parcelled h B (freeList al) L U ((bp_top al, bp_end al - bp_top al) # live)" using D(1) lt by (simp add: bump_piece_def)
  have pieces: "pieces_ok h B (bump_piece ?al @ (bp_top al, n) # live)"
  proof (cases "bp_top al + n = bp_end al")
    case True
    then have "bp_end al - bp_top al = n" by simp
    then show ?thesis using P True by (simp add: bump_piece_def parcelled_def)
  next
    case False
    then have m: "0 < bp_end al - bp_top al - n" "n + (bp_end al - bp_top al - n) = bp_end al - bp_top al" using n by simp_all
    then have "pieces_ok h B ((bp_top al, n) # (bp_top al + n, bp_end al - bp_top al - n) # live)"
      using piece_split [OF n(1) m(1) n(2), of h B "bp_top al" live] P unfolding m(2) by (simp add: parcelled_def)
    then have "pieces_ok h B ((bp_top al + n, bp_end al - bp_top al - n) # (bp_top al, n) # live)"
      by (subst pieces_perm) simp_all
    then show ?thesis using False n by (simp add: bump_piece_def)
  qed
  have in': "in_data h (ObjectAddressToRange (bp_top al)) (bp_top al) (bp_end al - bp_top al)"
    using P in_data_region [OF D(2)] by (fastforce simp: parcelled_def pieces_Cons piece_ok_def)
  have "ObjectAddressToRange (bp_top al + n) \<notin> U" if "bp_top al + n < bp_end al"
  proof -
    have "in_data h (ObjectAddressToRange (bp_top al)) (bp_top al + n) (bp_end al - bp_top al - n)"
      using in' that by (auto simp: in_data_def)
    then show ?thesis using in_data_region [OF D(2)] that D(8) [OF lt] by fastforce
  qed
  then show "allocator_ok h B ?al L U ((bp_top al, n) # live)"
    using P pieces D n by (simp add: allocator_ok_def parcelled_def)
  have "bytes (bump_piece ?al @ (bp_top al, n) # live) = bytes (bump_piece al @ live)"
    using lt n by (auto simp: bump_piece_def)
  then show "stock ?al ((bp_top al, n) # live) = stock al live" by (simp only: stock_def) simp
qed

section \<open>Giving up the bump pointer\<close>

lemma FreeBumpPoint_spec:
  assumes ok: "allocator_ok h B al L U live"
  obtains h' al' B' L' where "FreeBumpPoint (h, al) = (h', al')" "allocator_ok h' B' al' L' U live" "bump_piece al' = []"
    "stock al' live = stock al live" "same_core h h'" "\<And>i. in_pieces live i \<Longrightarrow> memory h' i = memory h i"
    "kept U h B h' B'" "al' = al\<lparr>bp_begin := 0, bp_top := 0, bp_end := 0, freeList := freeList al'\<rparr>"
proof -
  note D = allocator_okD [OF ok]
  show ?thesis
  proof (cases "bp_top al < bp_end al")
    case False
    then have "FreeBumpPoint (h, al) = (h, Bump_Reset al)"
      using D(4,7) by (simp add: FreeBumpPoint_def FreeListAllocator_Free_def)
    moreover have "allocator_ok h B (Bump_Reset al) L U live"
      using D False by (simp add: allocator_ok_def bump_piece_def Bump_Reset_def)
    moreover have "stock (Bump_Reset al) live = stock al live" using False by (simp add: stock_def bump_piece_def Bump_Reset_def)
    ultimately show ?thesis using that [of h "Bump_Reset al" B] by (simp add: bump_piece_def Bump_Reset_def)
  next
    case True
    let ?al = "Bump_Reset al"
    have P: "parcelled h B (freeList ?al) L U ((bp_top al, bp_end al - bp_top al) # live)"
      using D(1) True by (simp add: bump_piece_def Bump_Reset_def)
    obtain h' fl' B' L' where r: "FreeListAllocator_Free (bp_top al) (bp_end al - bp_top al) True (h, ?al) = (h', ?al\<lparr>freeList := fl'\<rparr>)"
      "parcelled h' B' fl' L' U live" "same_core h h'"
      "\<And>i. i < bp_top al \<or> bp_top al + (bp_end al - bp_top al) \<le> i \<Longrightarrow> memory h' i = memory h i"
      "list_available fl' + list_wasted fl' = list_available (freeList ?al) + list_wasted (freeList ?al) + of_nat (bp_end al - bp_top al)"
      "kept U h B h' B'"
      using release_piece [OF P D(8) [OF True]] by metis
    have "allocator_ok h' B' (?al\<lparr>freeList := fl'\<rparr>) L' U live"
      using r(2) addresses_cong [OF D(6) r(3)] by (simp add: allocator_ok_def bump_piece_def Bump_Reset_def)
    moreover have "memory h' i = memory h i" if "in_pieces live i" for i
      using r(4) in_pieces_apart [OF _ that, of h B "(bp_top al, bp_end al - bp_top al)"] P by (simp add: parcelled_def)
    moreover have "stock (?al\<lparr>freeList := fl'\<rparr>) live = stock al live"
      using r(5) True by (simp add: stock_def bump_piece_def Bump_Reset_def)
    ultimately show ?thesis using that [of h' "?al\<lparr>freeList := fl'\<rparr>" B'] r(1,3,6) D(7)
      by (simp add: FreeBumpPoint_def bump_piece_def Bump_Reset_def)
  qed
qed

section \<open>Allocation\<close>

lemma bump_piece_cong [simp]:
  "bump_piece (al\<lparr>freeList := fl\<rparr>) = bump_piece al" "bump_piece (al\<lparr>allocationSizeAccumulator := x\<rparr>) = bump_piece al"
  "Bump_Available (al\<lparr>freeList := fl\<rparr>) = Bump_Available al"
  "Bump_Available (al\<lparr>allocationSizeAccumulator := x\<rparr>) = Bump_Available al"
  by (simp_all add: bump_piece_def Bump_Available_def)

lemma allocator_ok_accumulator [simp]:
  "allocator_ok h B (al\<lparr>allocationSizeAccumulator := x\<rparr>) L U live = allocator_ok h B al L U live"
  "stock (al\<lparr>allocationSizeAccumulator := x\<rparr>) live = stock al live"
  by (simp_all add: allocator_ok_def stock_def)

lemma stock_perm: "mset xs = mset ys \<Longrightarrow> stock al xs = stock al ys"
  by (simp add: stock_def bytes_def) (metis mset_map sum_mset_sum_list)

lemma allocator_perm: "mset xs = mset ys \<Longrightarrow> allocator_ok h B al L U xs \<longleftrightarrow> allocator_ok h B al L U ys"
  using parcelled_perm [of "bump_piece al @ xs" "bump_piece al @ ys" h B "freeList al" L U] by (simp add: allocator_ok_def)

text \<open>The rest of a free object of \<open>m\<close> bytes goes back to the free list, or becomes the new bump range.\<close>

lemma allocate_from_object_spec:
  assumes ok: "allocator_ok h B al L U ((a, m) # live)" and m: "Available h a = m" "n \<le> m" and n: "0 < n" "n mod 8 = 0"
    and U: "ObjectAddressToRange a \<notin> U"
  obtains h' al' B' L' where "allocate_from_object a n (h, al) = (h', al', a)" "allocator_ok h' B' al' L' U ((a, n) # live)"
    "stock al' ((a, n) # live) = stock al ((a, m) # live)" "same_core h h'" "\<And>i. in_pieces live i \<Longrightarrow> memory h' i = memory h i"
    "kept U h B h' B'"
proof -
  note D = allocator_okD [OF ok]
  have mem: "(a, m) \<in> set (bump_piece al @ (a, m) # live)" by simp
  have bound: "a + m < 2 ^ 63" "0 < a" using piece_bound [OF D(6,3,2) mem] by auto
  define al0 where "al0 = al\<lparr>allocationSizeAccumulator := allocationSizeAccumulator al + of_nat n\<rparr>"
  have rem: "usub (usub (FreeObject_GetEnd h a) a) n = m - n" "uadd a n = a + n"
    using bound m by (simp_all add: FreeObject_GetEnd_def usub_eq uadd_eq)
  have ok0: "allocator_ok h B al0 L U ((a, m) # live)" using ok by (simp add: al0_def)
  have eq: "allocate_from_object a n (h, al) = (if m - n \<le> Bump_Available al0
      then let (h, al) = FreeListAllocator_Free (a + n) (m - n) True (h, al0) in (h, al, a)
      else let (h, al) = FreeBumpPoint (h, al0); (al, ret) = Bump_Allocate n (Bump_Reset_range a (a + m) al) in (h, al, ret))"
    using rem m(1) by (simp add: allocate_from_object_def Let_def al0_def FreeObject_GetEnd_def)
  show ?thesis
  proof (cases "m = n")
    case True
    then show ?thesis using that [of h al0 B L] eq ok0 by (simp add: FreeListAllocator_Free_def) (simp add: al0_def)
  next
    case False
    have mn: "0 < m - n" "n + (m - n) = m" using False m(2) by simp_all
    note D0 = allocator_okD [OF ok0]
    have "mset (bump_piece al0 @ (a, n + (m - n)) # live) = mset ((a, n + (m - n)) # bump_piece al0 @ live)" by simp
    then have "pieces_ok h B ((a, n) # (a + n, m - n) # bump_piece al0 @ live)"
      using piece_split [OF n(1) mn(1) n(2), of h B a] D0(3) pieces_perm [of _ _ h B] by (metis mn(2))
    moreover have "mset ((a, n) # (a + n, m - n) # bump_piece al0 @ live) = mset ((a + n, m - n) # bump_piece al0 @ (a, n) # live)" by simp
    ultimately have px: "pieces_ok h B ((a + n, m - n) # bump_piece al0 @ (a, n) # live)" using pieces_perm by blast
    have P: "parcelled h B (freeList al0) L U ((a + n, m - n) # bump_piece al0 @ (a, n) # live)"
      using D0(1) px by (simp add: parcelled_def)
    have rng: "ObjectAddressToRange (a + n) = ObjectAddressToRange a"
    proof -
      obtain r where "in_data h r a m" using D(3) mem unfolding pieces_ok_def piece_ok_def by fastforce
      then have "in_data h r a m" "in_data h r (a + n) (m - n)" "0 < m" using mn m(2) n by (auto simp: in_data_def)
      then show ?thesis using in_data_region [OF D(2)] mn(1) by metis
    qed
    show ?thesis
    proof (cases "m - n \<le> Bump_Available al0")
      case True
      obtain h' fl' B' L' where r: "FreeListAllocator_Free (a + n) (m - n) True (h, al0) = (h', al0\<lparr>freeList := fl'\<rparr>)"
        "parcelled h' B' fl' L' U (bump_piece al0 @ (a, n) # live)" "same_core h h'"
        "\<And>i. i < a + n \<or> a + n + (m - n) \<le> i \<Longrightarrow> memory h' i = memory h i"
        "list_available fl' + list_wasted fl' = list_available (freeList al0) + list_wasted (freeList al0) + of_nat (m - n)"
        "kept U h B h' B'"
        using release_piece [OF P] U rng by metis
      have "allocator_ok h' B' (al0\<lparr>freeList := fl'\<rparr>) L' U ((a, n) # live)"
        using r(2) D0 addresses_cong [OF D0(6) r(3)] by (simp add: allocator_ok_def)
      moreover have "memory h' i = memory h i" if "in_pieces live i" for i
        using r(4) in_pieces_apart [OF px, of i] that by (auto simp: in_pieces_def)
      moreover have "stock (al0\<lparr>freeList := fl'\<rparr>) ((a, n) # live) = stock al ((a, m) # live)"
        using r(5) m(2) by (simp add: stock_def al0_def of_nat_diff)
      ultimately show ?thesis using that [of h' "al0\<lparr>freeList := fl'\<rparr>" B'] eq True r(1,3,6) by simp
    next
      case False
      obtain h' al1 B' L' where f: "FreeBumpPoint (h, al0) = (h', al1)" "allocator_ok h' B' al1 L' U ((a, m) # live)"
        "bump_piece al1 = []" "stock al1 ((a, m) # live) = stock al0 ((a, m) # live)" "same_core h h'"
        "\<And>i. in_pieces ((a, m) # live) i \<Longrightarrow> memory h' i = memory h i" "kept U h B h' B'"
        using FreeBumpPoint_spec [OF ok0] by metis
      let ?al = "Bump_Reset_range a (a + m) al1"
      have piece: "bump_piece ?al = [(a, m)]" "freeList ?al = freeList al1" using mn by (auto simp: bump_piece_def Bump_Reset_range_def)
      have ok1: "allocator_ok h' B' ?al L' U live"
        using f(2,3) allocator_okD(6) [OF f(2)] bound(1) U piece by (simp add: allocator_ok_def) (simp add: Bump_Reset_range_def)
      have top: "bp_top ?al = a" "bp_end ?al = a + m" by (simp_all add: Bump_Reset_range_def)
      note t = bump_take [OF ok1 n, unfolded top]
      have "stock ?al live = stock al1 ((a, m) # live)" using piece f(3) by (simp add: stock_def)
      moreover have "Bump_Allocate n ?al = (?al\<lparr>bp_top := a + n\<rparr>, a)"
        using bound m(2) uadd_eq [of a n] by (simp add: Bump_Allocate_def top)
      ultimately show ?thesis using that [of h' "?al\<lparr>bp_top := a + n\<rparr>" B' L'] eq False f t m(2)
        by (simp add: al0_def in_pieces_def)
    qed
  qed
qed

lemma Allocator_Allocate_spec:
  assumes ok: "allocator_ok h B al L U live" and n: "0 < n" "n mod 8 = 0" "n < 2 ^ 63"
  obtains (got) h' al' a B' L' where "FreeListAllocator_Allocate n (h, al) = Some (h', al', a)" "a \<noteq> 0"
      "allocator_ok h' B' al' L' U ((a, n) # live)" "stock al' ((a, n) # live) = stock al live" "same_core h h'"
      "\<And>i. in_pieces live i \<Longrightarrow> memory h' i = memory h i" "kept U h B h' B'"
  | (none) "FreeListAllocator_Allocate n (h, al) = Some (h, al, 0)" "bp_end al < bp_top al + n"
      "\<And>q x. 16 \<le> n \<Longrightarrow> fst q \<notin> U \<Longrightarrow> x \<in> set (B q) \<Longrightarrow> Available h x < n"
proof -
  note D = allocator_okD [OF ok]
  show ?thesis
  proof (cases rule: Bump_Allocate_cases [OF ok n(1,3)])
    case 1
    then show ?thesis using got [of h "al\<lparr>bp_top := bp_top al + n, allocationSizeAccumulator := allocationSizeAccumulator al + of_nat n\<rparr>"]
        bump_take [OF ok n(1,2)] by (simp add: FreeListAllocator_Allocate_def)
  next
    case 2
    have eq: "FreeListAllocator_Allocate n (h, al) = do { (h, fl, object) \<leftarrow> FreeObjectList_Allocate n h (freeList al);
       Some (if object \<noteq> 0 then allocate_from_object object n (h, al\<lparr>freeList := fl\<rparr>) else (h, al\<lparr>freeList := fl\<rparr>, 0)) }"
      using 2(2) by (simp add: FreeListAllocator_Allocate_def Let_def)
    show ?thesis
    proof (cases rule: take_piece [OF D(1) n(2)])
      case t: (1 h1 fl1 a m B1 L1)
      let ?al = "al\<lparr>freeList := fl1\<rparr>"
      have "parcelled h1 B1 fl1 L1 U (bump_piece ?al @ (a, m) # live)" using t(5) by (subst parcelled_perm) auto
      then have ok1: "allocator_ok h1 B1 ?al L1 U ((a, m) # live)"
        using D addresses_cong [OF D(6) t(6)] by (simp add: allocator_ok_def)
      obtain h' al' B' L' where r: "allocate_from_object a n (h1, ?al) = (h', al', a)" "allocator_ok h' B' al' L' U ((a, n) # live)"
        "stock al' ((a, n) # live) = stock ?al ((a, m) # live)" "same_core h1 h'" "\<And>i. in_pieces live i \<Longrightarrow> memory h' i = memory h1 i"
        "kept U h1 B1 h' B'"
        using allocate_from_object_spec [OF ok1 t(3) [symmetric] t(4) n(1,2) t(10)] by metis
      have "stock ?al ((a, m) # live) = stock al live" using t(8,9) by (simp add: stock_def)
      moreover have "memory h' i = memory h i" if "in_pieces live i" for i
        using r(5) [OF that] t(7) [of i] that by (auto simp: in_pieces_def)
      ultimately show ?thesis using got [of h' al' a B' L'] eq t(1,2) r same_core_trans [OF t(6) r(4)] kept_trans [OF t(11) r(6)] by simp
    next
      case t: 2
      have "al\<lparr>freeList := freeList al\<rparr> = al" by simp
      then show ?thesis using none eq t 2(1) by simp
    qed
  qed
qed

end
