(* ===== verification/Free_List_Rebuild.thy ===== *)
theory Free_List_Rebuild
  imports Allocator_Invariant
begin

text \<open>
  Emptying a free list (\<open>FreeObjectList::Rebuild\<close>) at the beginning of a sweep: the loop over the linked
  sets ends, and afterwards no listed set has a block.  A second group of lemmas says that the invariant
  of the memory does not depend on mark bits, counters and remembered sets.
\<close>

section \<open>What the invariant depends on\<close>

definition layout :: "region \<Rightarrow> nat \<times> nat \<times> free_set option list" where
  "layout R = (region_begin R, region_end R, freeObjectSets R)"

definition same_layout :: "heap \<Rightarrow> heap \<Rightarrow> bool" where
  "same_layout h h' \<longleftrightarrow> memory h' = memory h \<and> (\<forall>r. map_option layout (regions h' r) = map_option layout (regions h r)) \<and>
     oneFieldClass h' = oneFieldClass h \<and> twoFieldClass h' = twoFieldClass h \<and> noneFieldClass h' = noneFieldClass h"

lemma same_layout_trans: "same_layout h h' \<Longrightarrow> same_layout h' h'' \<Longrightarrow> same_layout h h''"
  by (simp add: same_layout_def)

lemma same_layout_refl [simp]: "same_layout h h"
  by (simp add: same_layout_def)

lemma same_layout_update:
  "r \<in> dom (regions h) \<Longrightarrow> (\<And>R. layout (f R) = layout R) \<Longrightarrow> same_layout h (update_region r f h)"
  by (auto simp: same_layout_def update_region_def region_at_def)

lemma layoutE:
  assumes "same_layout h h'"
  obtains "regions h r = None" "regions h' r = None"
  | R R' where "regions h r = Some R" "regions h' r = Some R'" "region_begin R' = region_begin R" "region_end R' = region_end R"
    "freeObjectSets R' = freeObjectSets R"
proof -
  have "map_option layout (regions h' r) = map_option layout (regions h r)" using assms by (simp add: same_layout_def)
  then show ?thesis using that by (cases "regions h r"; cases "regions h' r") (auto simp: layout_def)
qed

lemma same_layout_simps:
  assumes "same_layout h h'"
  shows "set_at h' = set_at h" "valid_ptr h' = valid_ptr h" "Available h' = Available h" "GetNext h' = GetNext h"
    "in_data h' = in_data h" "addresses_ok h' = addresses_ok h"
proof -
  have "set_at h' q = set_at h q" for q
    by (rule layoutE [OF assms, of "fst q"]) (simp_all add: set_at_def)
  then show "set_at h' = set_at h" by (simp add: fun_eq_iff)
  have "valid_ptr h' q = valid_ptr h q" for q
    by (rule layoutE [OF assms, of "fst q"]) (simp_all add: valid_ptr_def)
  then show "valid_ptr h' = valid_ptr h" by (simp add: fun_eq_iff)
  have "in_data h' r a n = in_data h r a n" for r a n
    by (rule layoutE [OF assms, of r]) (simp_all add: in_data_def)
  then show "in_data h' = in_data h" by (simp add: fun_eq_iff)
  show "Available h' = Available h" "GetNext h' = GetNext h"
    using assms by (simp_all add: fun_eq_iff same_layout_def Available_def GetNext_def IsFreeObjectWithShortField_def GetObjectSize_def Let_def)
  have "(\<forall>R. regions h' r = Some R \<longrightarrow> region_end R < 2 ^ 63) = (\<forall>R. regions h r = Some R \<longrightarrow> region_end R < 2 ^ 63)" for r
    by (rule layoutE [OF assms, of r]) simp_all
  then show "addresses_ok h' = addresses_ok h" by (simp add: addresses_ok_def)
qed

lemma parcelled_layout:
  assumes "same_layout h h'" "parcelled h B fl L U xs"
  shows "parcelled h' B fl L U xs"
proof -
  note s = same_layout_simps [OF assms(1)]
  have m: "memory h' = memory h" "oneFieldClass h' = oneFieldClass h" "twoFieldClass h' = twoFieldClass h"
    "noneFieldClass h' = noneFieldClass h" using assms(1) by (simp_all add: same_layout_def)
  have rok: "(\<forall>R. regions h' r = Some R \<longrightarrow> region_ok r R) = (\<forall>R. regions h r = Some R \<longrightarrow> region_ok r R)" for r
    by (rule layoutE [OF assms(1), of r]) (simp_all add: region_ok_def)
  have ch: "block_chain h' c xs = block_chain h c xs" for c xs by (rule block_chain_cong) (simp add: s)
  have "set_ok h' B q = set_ok h B q" "block_ok h' q x = block_ok h q x" for q x
    by (auto simp: set_ok_def block_ok_def s m ch split: option.splits)
  then have "blocks_ok h' B = blocks_ok h B" by (simp add: blocks_ok_def s m rok classes_ok_def)
  moreover have "linked h' p ps n = linked h p ps n" for p ps n by (rule linked_cong) (simp add: s)
  then have "list_ok h' B fl L = list_ok h B fl L"
    by (simp add: list_ok_def list_links_def s list_size_def set_size_def)
  moreover have "pieces_ok h' B xs = pieces_ok h B xs"
    by (simp add: pieces_ok_def piece_ok_def apart_def s)
  ultimately show ?thesis using assms(2) by (simp add: parcelled_def)
qed

lemma allocator_layout: "same_layout h h' \<Longrightarrow> allocator_ok h B al L U live \<Longrightarrow> allocator_ok h' B al L U live"
  using parcelled_layout same_layout_simps(6) by (auto simp: allocator_ok_def)

section \<open>The loops of Rebuild\<close>

definition reset_sets :: "set_ptr list \<Rightarrow> heap \<Rightarrow> heap" where
  "reset_sets ps h = fold (\<lambda>p. update_set p FreeObjectSet_Rebuild) ps h"

lemma reset_sets_simps [simp]: "reset_sets [] h = h"
    "reset_sets (p # ps) h = reset_sets ps (update_set p FreeObjectSet_Rebuild h)"
    "reset_sets (ps @ qs) h = reset_sets qs (reset_sets ps h)"
  by (simp_all add: reset_sets_def)

lemma reset_sets_all:
  "\<forall>p \<in> set ps. valid_ptr h p \<Longrightarrow> distinct ps \<Longrightarrow> same_core h (reset_sets ps h) \<and> memory (reset_sets ps h) = memory h \<and>
     (\<forall>q. set_at (reset_sets ps h) q = (if q \<in> set ps then Some (FreeObjectSet_Rebuild (the_set h q)) else set_at h q))"
proof (induction ps arbitrary: h)
  case (Cons p ps)
  let ?h = "update_set p FreeObjectSet_Rebuild h"
  have v: "valid_ptr h p" "\<forall>q \<in> set ps. valid_ptr ?h q" "distinct ps" using Cons.prems by auto
  have "set_at (reset_sets ps ?h) q = (if q \<in> set (p # ps) then Some (FreeObjectSet_Rebuild (the_set h q)) else set_at h q)" for q
    using Cons.IH [OF v(2,3)] Cons.prems(2) v(1) by (auto simp: set_at_update_set the_set_update_set simp del: split_paired_All)
  moreover have "same_core h (reset_sets ps ?h)" "memory (reset_sets ps ?h) = memory h"
    using Cons.IH [OF v(2,3)] same_core_trans [OF same_core_update_set [OF v(1)]] by auto
  ultimately show ?case by simp
qed simp

lemma reset_sets_at:
  assumes "\<forall>p \<in> set ps. valid_ptr h p" "distinct ps"
  shows "set_at (reset_sets ps h) q = (if q \<in> set ps then Some (FreeObjectSet_Rebuild (the_set h q)) else set_at h q)"
    "same_core h (reset_sets ps h)" "memory (reset_sets ps h) = memory h"
  using reset_sets_all [OF assms] by blast+

lemma reset_sets_wasted: "wasted (region_at (reset_sets ps h) r) = wasted (region_at h r)"
proof (induction ps arbitrary: h)
  case (Cons p ps)
  then show ?case by (simp add: update_set_def update_region_def region_at_def)
qed simp

lemma rebuild_sets_loop_spec:
  assumes "linked h prv ps None" "distinct ps" "\<forall>p \<in> set ps. valid_ptr h p"
  shows "rebuild_sets_loop h (first_of ps) = Some (reset_sets ps h)"
  using assms
proof (induction ps arbitrary: h prv)
  case Nil
  show ?case by (subst rebuild_sets_loop.simps) simp
next
  case (Cons p ps)
  let ?h = "update_set p FreeObjectSet_Rebuild h"
  obtain f where f: "set_at h p = Some f" "next_set f = first_of ps" using Cons.prems(1) by (cases "ps = []") auto
  have v: "valid_ptr h p" using Cons.prems by simp
  have "linked ?h (Some p) ps None"
    using Cons.prems v by (subst linked_cong [where h = h]) (auto simp: set_at_update_set)
  then have "rebuild_sets_loop ?h (first_of ps) = Some (reset_sets ps ?h)"
    using Cons.prems v by (intro Cons.IH) auto
  then show ?case using f by (subst rebuild_sets_loop.simps) (simp add: the_set_def)
qed

lemma rebuild_types_spec:
  assumes "distinct (concat pss)" "\<forall>ps \<in> set pss. linked h None ps None \<and> (\<forall>p \<in> set ps. valid_ptr h p)"
  shows "rebuild_types (map first_of pss) h = Some (reset_sets (concat pss) h)"
  using assms
proof (induction pss arbitrary: h)
  case (Cons ps pss)
  let ?h = "reset_sets ps h"
  have v: "\<forall>p \<in> set ps. valid_ptr h p" "distinct ps" "linked h None ps None" using Cons.prems by auto
  note r = reset_sets_at [OF v(1,2)]
  have "linked ?h None qs None \<and> (\<forall>p \<in> set qs. valid_ptr ?h p)" if "qs \<in> set pss" for qs
  proof
    have d: "set qs \<inter> set ps = {}" using Cons.prems(1) that by auto
    have "linked h None qs None" using Cons.prems(2) that by simp
    then show "linked ?h None qs None" using d by (subst linked_cong [where h = h]) (auto simp: r(1))
    show "\<forall>p \<in> set qs. valid_ptr ?h p" using Cons.prems(2) that same_core_valid_ptr [OF r(2)] by auto
  qed
  then have "rebuild_types (map first_of pss) ?h = Some (reset_sets (concat pss) ?h)"
    using Cons.prems(1) by (intro Cons.IH) auto
  then show ?case using rebuild_sets_loop_spec [OF v(3,2,1)] by simp
qed simp

lemma list_sets_eq: "list_links h fl L \<Longrightarrow> list_sets fl = map first_of (map L [0..<NUMBER_OF_SETS])"
  by (rule nth_equalityI) (simp_all add: list_linksD)

lemma all_sets_distinct:
  assumes "list_links h fl L"
  shows "distinct (concat (map L [0..<N]))"
proof (induction N)
  case (Suc N)
  have "q \<notin> set (L u)" if "q \<in> set (L N)" "u < N" for q u
    using list_linksD(7) [OF assms, of q N] list_linksD(7) [OF assms, of q u] that by auto
  then show ?case using Suc list_linksD(6) [OF assms, of N] by auto
qed simp

lemma all_sets_set:
  assumes "list_links h fl L"
  shows "q \<in> set (concat (map L [0..<NUMBER_OF_SETS])) \<longleftrightarrow> q \<in> set (L (snd q))"
proof
  assume "q \<in> set (concat (map L [0..<NUMBER_OF_SETS]))"
  then obtain u where "q \<in> set (L u)" by auto
  then show "q \<in> set (L (snd q))" using list_linksD(7) [OF assms, of q u] by simp
next
  assume q: "q \<in> set (L (snd q))"
  then have "snd q < NUMBER_OF_SETS" using list_linksD(11) [OF assms, of "snd q"] by (cases "L (snd q)") auto
  then show "q \<in> set (concat (map L [0..<NUMBER_OF_SETS]))" using q by auto
qed

lemma RebuildFreeList_spec:
  assumes ok: "allocator_ok h B al L {} live"
  obtains h' al' where "RebuildFreeList (h, al) = Some (h', al')" "allocator_ok h' (\<lambda>_. []) al' (\<lambda>_. []) {} live"
    "same_core h h'" "memory h' = memory h" "bump_piece al' = []" "list_available (freeList al') = 0" "list_wasted (freeList al') = 0"
    "\<And>r. wasted (region_at h' r) = wasted (region_at h r)"
proof -
  note D = allocator_okD [OF ok]
  have bok: "blocks_ok h B" and lok: "list_ok h B (freeList al) L" and li: "listed B L {}" and px: "pieces_ok h B (bump_piece al @ live)"
    using D(1) by (simp_all add: parcelled_def)
  have links: "list_links h (freeList al) L" using lok by (simp add: list_ok_def)
  define ps where "ps = concat (map L [0..<NUMBER_OF_SETS])"
  define h' where "h' = reset_sets ps h"
  define fl' where "fl' = (freeList al)\<lparr>list_sets := replicate NUMBER_OF_SETS None, lastSets := replicate NUMBER_OF_SETS None,
       list_available := 0, list_wasted := 0, noneEmptySetBitMap := 0\<rparr>"
  have v: "\<forall>p \<in> set ps. valid_ptr h p" "distinct ps"
    using list_linksD(8) [OF links] all_sets_distinct [OF links] by (auto simp: ps_def)
  note r = reset_sets_at [OF v, folded h'_def]
  have reb: "rebuild_types (list_sets (freeList al)) h = Some h'"
    using rebuild_types_spec [of "map L [0..<NUMBER_OF_SETS]" h] v(2) list_linksD(5,8) [OF links]
    by (auto simp: list_sets_eq [OF links] ps_def h'_def)
  have in_ps: "q \<in> set ps \<longleftrightarrow> q \<in> set (L (snd q))" for q unfolding ps_def by (rule all_sets_set [OF links])
  have empty: "B q = []" if "q \<notin> set ps" for q using li that unfolding listed_def in_ps by blast
  have sok: "set_ok h' (\<lambda>_. []) q" if "valid_ptr h q" for q
    using blocks_okD(2) [OF bok that] linked_set_at [OF list_linksD(5) [OF links], of q "snd q"] empty [of q]
    by (auto simp: set_ok_def r(1) in_ps FreeObjectSet_Rebuild_def the_set_def split: option.splits)
  have "blocks_ok h' (\<lambda>_. [])" unfolding blocks_ok_def
    using bok blocks_ok_regions [OF bok r(2)] sok same_core_valid_ptr [OF r(2)] r(2)
    by (simp add: blocks_ok_def classes_ok_def same_core_def)
  moreover have "isAdded f = False" if "valid_ptr h' q" "set_at h' q = Some f" for q f
    using that list_linksD(10) [OF links, of q] same_core_valid_ptr [OF r(2), of q]
    by (auto simp: r(1) in_ps FreeObjectSet_Rebuild_def split: if_splits)
  then have "list_ok h' (\<lambda>_. []) fl' (\<lambda>_. [])"
    by (simp add: list_ok_def list_links_def fl'_def list_size_def del: split_paired_All)
  moreover have "pieces_ok h' (\<lambda>_. []) live"
  proof (rule pieces_cong [OF _ r(2)])
    show "pieces_ok h B live" using px by (auto simp: pieces_ok_def sorted_wrt_append)
  qed (simp add: apart_def)
  ultimately have "parcelled h' (\<lambda>_. []) fl' (\<lambda>_. []) {} live" by (simp add: parcelled_def listed_def)
  then have "allocator_ok h' (\<lambda>_. []) ((Bump_Reset al)\<lparr>freeList := fl'\<rparr>) (\<lambda>_. []) {} live"
    using addresses_cong [OF D(6) r(2)] by (simp add: allocator_ok_def bump_piece_def Bump_Reset_def)
  moreover have "RebuildFreeList (h, al) = Some (h', (Bump_Reset al)\<lparr>freeList := fl'\<rparr>)"
    using reb by (simp add: RebuildFreeList_def FreeObjectList_Rebuild_def fl'_def)
  moreover have "wasted (region_at h' r) = wasted (region_at h r)" for r unfolding h'_def by (rule reset_sets_wasted)
  ultimately show ?thesis using that r(2,3) by (simp add: bump_piece_def Bump_Reset_def fl'_def)
qed

end
