(* ===== verification/Regions.thy ===== *)
theory Regions
  imports Free_List_Allocator
begin

text \<open>
  Regions of 256 kB (\<open>mem/region.h\<close>, \<open>mem/region-inl.h\<close>, \<open>mem/heap_region_allocator.cpp\<close>): their layout, the mark
  bits, the counters, and the remembered sets, which are created when the first slot is inserted.  A
  region is named by its address, \<open>this\<close> of the code.  The atomic variants differ from the others in the
  accesses of single words only, which \<open>Mark_Race\<close> is about; here both are one operation.
\<close>

section \<open>Layout\<close>

text \<open>
  The members of a region take 168 bytes: the packed data (40), three addresses, the allocator of native
  memory, two counters, two links, three remembered sets, the span of free sets (16), the lock, the lost
  bytes and the snapshot data.
\<close>

definition SIZEOF_REGION :: nat where "SIZEOF_REGION = 168"
definition MEM_ALIGN_REGION :: nat where "MEM_ALIGN_REGION = 16"
definition MEM_ALIGN_OBJECT :: nat where "MEM_ALIGN_OBJECT = 8"

definition new_Region :: "nat \<Rightarrow> nat \<Rightarrow> nat \<Rightarrow> region" where
  "new_Region allocateBase bgn end' =
    (let bitsetSize = SizeOfGCBitset (end' - bgn) in
     \<lparr>region_begin = AlignUp (bgn + bitsetSize) MEM_ALIGN_OBJECT, region_end = end', aliveObject = 0, gcAliveSize = 0,
      wasted = 0, highWaterMark = end', inCollectSet = False, hasBeenSwept = False, bitsetSize = bitsetSize,
      markGCBitset = Bitset_Clear (replicate (bitsetSize div BYTE_PER_WORD) 0) bitsetSize,
      oldToNewSet = None, crossRegionSet = None, sweepingRSet = None, localToShareSet = None, freeObjectSets = []\<rparr>)"

definition AllocateAlignedRegion :: "nat \<Rightarrow> nat \<Rightarrow> heap \<Rightarrow> heap \<times> nat" where
  "AllocateAlignedRegion mapMem capacity h =
    (let bgn = AlignUp (mapMem + SIZEOF_REGION) MEM_ALIGN_REGION; end' = mapMem + capacity
     in (h\<lparr>regions := (regions h)(mapMem \<mapsto> new_Region mapMem bgn end')\<rparr>, mapMem))"

definition InitializeFreeObjectSets :: "region \<Rightarrow> region" where
  "InitializeFreeObjectSets R = R\<lparr>freeObjectSets := replicate NUMBER_OF_SETS None\<rparr>"

definition Region_GetCapacity :: "nat \<Rightarrow> region \<Rightarrow> nat" where
  "Region_GetCapacity r R = usub (region_end R) r"

definition Region_GetSize :: "region \<Rightarrow> nat" where
  "Region_GetSize R = usub (region_end R) (region_begin R)"

definition InRange :: "nat \<Rightarrow> region \<Rightarrow> bool" where
  "InRange address R = (region_begin R \<le> address \<and> address \<le> region_end R)"

definition SetHighWaterMark :: "nat \<Rightarrow> region \<Rightarrow> region" where
  "SetHighWaterMark mark R = R\<lparr>highWaterMark := mark\<rparr>"

definition GetAllocatedBytes :: "nat \<Rightarrow> region \<Rightarrow> nat" where
  "GetAllocatedBytes t R = (if t = 0 then usub (highWaterMark R) (region_begin R) else usub t (region_begin R))"

section \<open>Counters and flags\<close>

definition IncreaseAliveObject :: "nat \<Rightarrow> region \<Rightarrow> region" where
  "IncreaseAliveObject n R = R\<lparr>aliveObject := aliveObject R + of_nat n\<rparr>"

definition SetRegionAliveSize :: "region \<Rightarrow> region" where
  "SetRegionAliveSize R = R\<lparr>gcAliveSize := aliveObject R\<rparr>"

definition ResetAliveObject :: "region \<Rightarrow> region" where
  "ResetAliveObject R = R\<lparr>aliveObject := 0\<rparr>"

definition ResetWasted :: "region \<Rightarrow> region" where
  "ResetWasted R = R\<lparr>wasted := 0\<rparr>"

definition SetSwept :: "region \<Rightarrow> region" where
  "SetSwept R = R\<lparr>hasBeenSwept := True\<rparr>"

definition ResetSwept :: "region \<Rightarrow> region" where
  "ResetSwept R = R\<lparr>hasBeenSwept := False\<rparr>"

section \<open>Mark bits\<close>

definition mark_offset :: "nat \<Rightarrow> nat" where
  "mark_offset address = drop_bit TAGGED_TYPE_SIZE_LOG (address mod DEFAULT_REGION_SIZE)"

definition AtomicMark :: "nat \<Rightarrow> region \<Rightarrow> bool \<times> region" where
  "AtomicMark address R = (let (new, b) = SetBit (markGCBitset R) (mark_offset address) in (new, R\<lparr>markGCBitset := b\<rparr>))"

definition ClearMark :: "nat \<Rightarrow> region \<Rightarrow> region" where
  "ClearMark address R = R\<lparr>markGCBitset := ClearBit (markGCBitset R) (mark_offset address)\<rparr>"

definition Region_Test :: "nat \<Rightarrow> region \<Rightarrow> bool" where
  "Region_Test address R = TestBit (markGCBitset R) (mark_offset address)"

definition Region_IterateAllMarkedBits :: "nat \<Rightarrow> region \<Rightarrow> ('s \<Rightarrow> nat \<Rightarrow> 's) \<Rightarrow> 's \<Rightarrow> 's" where
  "Region_IterateAllMarkedBits r R visitor s = IterateMarkedBitsConst r (markGCBitset R) (bitsetSize R) visitor s"

definition ClearMarkGCBitset :: "region \<Rightarrow> region" where
  "ClearMarkGCBitset R = R\<lparr>markGCBitset := Bitset_Clear (markGCBitset R) (bitsetSize R)\<rparr>"

section \<open>Remembered sets\<close>

definition CreateRememberedSet :: "nat \<Rightarrow> region \<Rightarrow> remembered_set" where
  "CreateRememberedSet r R = (let bitSize = SizeOfGCBitset (Region_GetCapacity r R)
     in RSet_ClearAll \<lparr>rset_size = bitSize, rset_bits = replicate (bitSize div BYTE_PER_WORD) 0\<rparr>)"

definition GetOrCreateCrossRegionRememberedSet :: "nat \<Rightarrow> region \<Rightarrow> region \<times> remembered_set" where
  "GetOrCreateCrossRegionRememberedSet r R = (case crossRegionSet R of
     Some s \<Rightarrow> (R, s)
   | None \<Rightarrow> let s = CreateRememberedSet r R in (R\<lparr>crossRegionSet := Some s\<rparr>, s))"

definition GetOrCreateOldToNewRememberedSet :: "nat \<Rightarrow> region \<Rightarrow> region \<times> remembered_set" where
  "GetOrCreateOldToNewRememberedSet r R = (case oldToNewSet R of
     Some s \<Rightarrow> (R, s)
   | None \<Rightarrow> (case sweepingRSet R of
       Some s \<Rightarrow> if hasBeenSwept R then (R\<lparr>oldToNewSet := Some s, sweepingRSet := None\<rparr>, s)
         else let s = CreateRememberedSet r R in (R\<lparr>oldToNewSet := Some s\<rparr>, s)
     | None \<Rightarrow> let s = CreateRememberedSet r R in (R\<lparr>oldToNewSet := Some s\<rparr>, s)))"

definition GetOrCreateLocalToShareRememberedSet :: "nat \<Rightarrow> region \<Rightarrow> region \<times> remembered_set" where
  "GetOrCreateLocalToShareRememberedSet r R = (case localToShareSet R of
     Some s \<Rightarrow> (R, s)
   | None \<Rightarrow> let s = CreateRememberedSet r R in (R\<lparr>localToShareSet := Some s\<rparr>, s))"

definition SwapRSetForConcurrentSweeping :: "region \<Rightarrow> region" where
  "SwapRSetForConcurrentSweeping R = R\<lparr>sweepingRSet := oldToNewSet R, oldToNewSet := None\<rparr>"

definition MergeRSetForConcurrentSweeping :: "region \<Rightarrow> region" where
  "MergeRSetForConcurrentSweeping R = (case sweepingRSet R of
     None \<Rightarrow> R
   | Some sw \<Rightarrow> (case oldToNewSet R of
       None \<Rightarrow> R\<lparr>oldToNewSet := Some sw, sweepingRSet := None\<rparr>
     | Some s \<Rightarrow> R\<lparr>oldToNewSet := Some (RSet_Merge s sw), sweepingRSet := None\<rparr>))"

definition InsertCrossRegionRSet :: "nat \<Rightarrow> nat \<Rightarrow> region \<Rightarrow> region" where
  "InsertCrossRegionRSet r addr R = (let (R, s) = GetOrCreateCrossRegionRememberedSet r R
     in R\<lparr>crossRegionSet := Some (snd (RSet_Insert s r addr))\<rparr>)"

definition InsertLocalToShareRSet :: "nat \<Rightarrow> nat \<Rightarrow> region \<Rightarrow> region" where
  "InsertLocalToShareRSet r addr R = (let (R, s) = GetOrCreateLocalToShareRememberedSet r R
     in R\<lparr>localToShareSet := Some (snd (RSet_Insert s r addr))\<rparr>)"

definition InsertOldToNewRSet :: "nat \<Rightarrow> nat \<Rightarrow> region \<Rightarrow> region" where
  "InsertOldToNewRSet r addr R = (let (R, s) = GetOrCreateOldToNewRememberedSet r R
     in R\<lparr>oldToNewSet := Some (snd (RSet_Insert s r addr))\<rparr>)"

definition ClearOldToNewRSet_bit :: "nat \<Rightarrow> nat \<Rightarrow> region \<Rightarrow> region" where
  "ClearOldToNewRSet_bit r addr R = (let (R, s) = GetOrCreateOldToNewRememberedSet r R
     in R\<lparr>oldToNewSet := Some (RSet_ClearBit s r addr)\<rparr>)"

definition TestOldToNew :: "nat \<Rightarrow> nat \<Rightarrow> region \<Rightarrow> bool" where
  "TestOldToNew r addr R = (case oldToNewSet R of None \<Rightarrow> False | Some s \<Rightarrow> RSet_TestBit s r addr)"

definition TestLocalToShare :: "nat \<Rightarrow> nat \<Rightarrow> region \<Rightarrow> bool" where
  "TestLocalToShare r addr R = (case localToShareSet R of None \<Rightarrow> False | Some s \<Rightarrow> RSet_TestBit s r addr)"

definition HasLocalToShareRememberedSet :: "region \<Rightarrow> bool" where
  "HasLocalToShareRememberedSet R = (localToShareSet R \<noteq> None)"

definition ClearCrossRegionRSet :: "region \<Rightarrow> region" where
  "ClearCrossRegionRSet R = R\<lparr>crossRegionSet := map_option RSet_ClearAll (crossRegionSet R)\<rparr>"

definition ClearOldToNewRSet :: "region \<Rightarrow> region" where
  "ClearOldToNewRSet R = R\<lparr>oldToNewSet := map_option RSet_ClearAll (oldToNewSet R)\<rparr>"

definition ClearCrossRegionRSetInRange :: "nat \<Rightarrow> nat \<Rightarrow> nat \<Rightarrow> region \<Rightarrow> region" where
  "ClearCrossRegionRSetInRange r start end' R =
     R\<lparr>crossRegionSet := map_option (\<lambda>s. RSet_ClearRange s r start end') (crossRegionSet R)\<rparr>"

definition ClearOldToNewRSetInRange :: "nat \<Rightarrow> nat \<Rightarrow> nat \<Rightarrow> region \<Rightarrow> region" where
  "ClearOldToNewRSetInRange r start end' R =
     R\<lparr>oldToNewSet := map_option (\<lambda>s. RSet_ClearRange s r start end') (oldToNewSet R)\<rparr>"

definition ClearSweepingRSetInRange :: "nat \<Rightarrow> nat \<Rightarrow> nat \<Rightarrow> region \<Rightarrow> region" where
  "ClearSweepingRSetInRange r start end' R =
     R\<lparr>sweepingRSet := map_option (\<lambda>s. RSet_ClearRange s r start end') (sweepingRSet R)\<rparr>"

definition AtomicClearLocalToShareRSetInRange :: "nat \<Rightarrow> nat \<Rightarrow> nat \<Rightarrow> region \<Rightarrow> region" where
  "AtomicClearLocalToShareRSetInRange r start end' R =
     R\<lparr>localToShareSet := map_option (\<lambda>s. RSet_ClearRange s r start end') (localToShareSet R)\<rparr>"

definition DeleteCrossRegionRSet :: "region \<Rightarrow> region" where
  "DeleteCrossRegionRSet R = R\<lparr>crossRegionSet := None\<rparr>"

definition DeleteOldToNewRSet :: "region \<Rightarrow> region" where
  "DeleteOldToNewRSet R = R\<lparr>oldToNewSet := None\<rparr>"

definition DeleteLocalToShareRSet :: "region \<Rightarrow> region" where
  "DeleteLocalToShareRSet R = R\<lparr>localToShareSet := None\<rparr>"

definition DeleteSweepingRSet :: "region \<Rightarrow> region" where
  "DeleteSweepingRSet R = R\<lparr>sweepingRSet := None\<rparr>"

section \<open>A new region\<close>

lemma AlignUp_add:
  assumes "r mod a = 0" "0 < a"
  shows "AlignUp (r + k) a = r + AlignUp k a"
proof -
  have "(r + (k + a - 1)) mod a = (k + a - 1) mod a" using assms(1) by (metis add_0 mod_add_left_eq)
  moreover have "r + k + a - 1 = r + (k + a - 1)" using assms(2) by simp
  moreover have "(k + a - 1) mod a \<le> k + a - 1" by simp
  ultimately show ?thesis unfolding AlignUp_def AlignDown_def by (simp only: add_diff_assoc)
qed

lemma new_Region_ok:
  assumes "AllocateAlignedRegion r DEFAULT_REGION_SIZE h = (h', r')" "r mod DEFAULT_REGION_SIZE = 0"
  obtains R where "r' = r" "h' = h\<lparr>regions := (regions h)(r \<mapsto> R)\<rparr>" "region_begin R = r + 4272"
    "region_end R = r + DEFAULT_REGION_SIZE" "markGCBitset R = replicate 1024 0" "bitsetSize R = 4096" "wasted R = 0"
    "aliveObject R = 0" "\<not> inCollectSet R" "\<not> hasBeenSwept R" "freeObjectSets R = []"
proof -
  obtain k where "r = 262144 * k" using assms(2) by (auto simp: DEFAULT_REGION_SIZE_def mod_eq_0_iff_dvd)
  then have "r = 16 * (16384 * k)" "r = 8 * (32768 * k)" by simp_all
  then have r16: "r mod 16 = 0" "r mod 8 = 0" by (metis mod_mult_self1_is_0)+
  have bgn: "AlignUp (r + SIZEOF_REGION) MEM_ALIGN_REGION = r + 176"
    using AlignUp_add [OF r16(1), of SIZEOF_REGION] by (simp add: AlignUp_def AlignDown_def SIZEOF_REGION_def MEM_ALIGN_REGION_def)
  have size: "SizeOfGCBitset (r + DEFAULT_REGION_SIZE - (r + 176)) = 4096"
    by (simp add: SizeOfGCBitset_def AlignUp_def AlignDown_def DEFAULT_REGION_SIZE_def TAGGED_TYPE_SIZE_LOG_def
        TAGGED_TYPE_SIZE_def BIT_PER_BYTE_def BYTE_PER_WORD_def drop_bit_eq_div)
  have "AlignUp (r + 176 + 4096) MEM_ALIGN_OBJECT = r + 4272"
    using AlignUp_add [OF r16(2), of 4272] by (simp add: AlignUp_def AlignDown_def MEM_ALIGN_OBJECT_def)
  moreover have "Bitset_Clear (replicate 1024 0) 4096 = replicate 1024 0"
    by (rule nth_equalityI) (simp_all add: Bitset_Clear_def nth_fold_zero)
  ultimately show ?thesis
    using that [of "new_Region r (r + 176) (r + DEFAULT_REGION_SIZE)"] assms(1) bgn size
    by (auto simp: AllocateAlignedRegion_def new_Region_def Let_def BYTE_PER_WORD_def)
qed

end
