(* ===== verification/Sparse_Space.thy ===== *)
theory Sparse_Space
  imports Regions
begin

text \<open>
  The spaces of old objects (\<open>mem/sparse_space.cpp\<close>, \<open>mem/space-inl.h\<close>, parts of \<open>mem/space.h\<close> and
  \<open>mem/concurrent_sweeper.cpp\<close>): allocation with its fallbacks, growth by a region, sweeping by the main
  thread or in the background, and the exchange of regions with local spaces.  The state is the heap
  together with the space.  \<open>environment\<close> has what a space uses of the rest of the runtime: the size of the
  object at an address, the address of fresh memory, the configuration of the sweeper, the state of the
  marker, and garbage collections that an allocation may start.

  Background sweeping is modelled by whole regions: \<open>AsyncSweep\<close> with \<open>isMain = False\<close> is a task that runs
  between two operations of the main thread.  The collector has finished all tasks when
  \<open>EnsureTaskFinished\<close> returns, so that the regions left are the ones the main thread sweeps itself.
\<close>

section \<open>Spaces\<close>

datatype SweepState = NO_SWEEP | SWEEPING | SWEPT

record space =
  regionList :: "nat list"
  sp_allocator :: allocator
  sweepState :: SweepState
  sweepingList :: "nat list"
  sweptList :: "nat list"
  liveObjectSize :: u64
  overshootSize :: u64
  committedSize :: u64
  objectSize :: u64
  maximumCapacity :: u64
  outOfMemoryOvershootSize :: u64
  mergeSize :: u64

type_synonym space_state = "heap \<times> space"

record environment =
  SizeFromJSHClass :: "(nat \<Rightarrow> nat) \<Rightarrow> nat \<Rightarrow> nat"
  MemMapAllocate :: "heap \<Rightarrow> nat"
  ConcurrentSweepEnabled :: bool
  IsConcurrentFullMark :: bool
  IsReadyToMark :: bool
  CheckAndTriggerOldGC :: "space_state \<Rightarrow> bool \<times> space_state"
  CollectGarbage :: "space_state \<Rightarrow> space_state"

definition new_SparseSpace :: "u64 \<Rightarrow> space" where
  "new_SparseSpace maximum = \<lparr>regionList = [], sp_allocator = new_FreeListAllocator, sweepState = NO_SWEEP,
     sweepingList = [], sweptList = [], liveObjectSize = 0, overshootSize = 0, committedSize = 0, objectSize = 0,
     maximumCapacity = maximum, outOfMemoryOvershootSize = 0, mergeSize = 0\<rparr>"

definition IncreaseLiveObjectSize :: "u64 \<Rightarrow> space \<Rightarrow> space" where
  "IncreaseLiveObjectSize n sp = sp\<lparr>liveObjectSize := liveObjectSize sp + n\<rparr>"

definition DecreaseLiveObjectSize :: "u64 \<Rightarrow> space \<Rightarrow> space" where
  "DecreaseLiveObjectSize n sp = sp\<lparr>liveObjectSize := liveObjectSize sp - n\<rparr>"

definition AddRegion :: "nat \<Rightarrow> space_state \<Rightarrow> space_state" where
  "AddRegion r = (\<lambda>(h, sp). (h, sp\<lparr>regionList := regionList sp @ [r],
     committedSize := committedSize sp + of_nat (Region_GetCapacity r (region_at h r)),
     objectSize := objectSize sp + of_nat (Region_GetSize (region_at h r))\<rparr>))"

definition RemoveRegion :: "nat \<Rightarrow> space_state \<Rightarrow> space_state" where
  "RemoveRegion r = (\<lambda>(h, sp). (h, sp\<lparr>regionList := remove1 r (regionList sp),
     committedSize := committedSize sp - of_nat (Region_GetCapacity r (region_at h r)),
     objectSize := objectSize sp - of_nat (Region_GetSize (region_at h r))\<rparr>))"

definition on_region :: "nat \<Rightarrow> (region \<Rightarrow> region) \<Rightarrow> space_state \<Rightarrow> space_state" where
  "on_region r f = (\<lambda>(h, sp). (update_region r f h, sp))"

definition on_allocator :: "(heap \<times> allocator \<Rightarrow> heap \<times> allocator) \<Rightarrow> space_state \<Rightarrow> space_state" where
  "on_allocator f = (\<lambda>(h, sp). let (h, al) = f (h, sp_allocator sp) in (h, sp\<lparr>sp_allocator := al\<rparr>))"

definition allocator_Allocate :: "nat \<Rightarrow> space_state \<Rightarrow> (space_state \<times> nat) option" where
  "allocator_Allocate n = (\<lambda>(h, sp). do {
     (h, al, object) \<leftarrow> FreeListAllocator_Allocate n (h, sp_allocator sp);
     Some ((h, sp\<lparr>sp_allocator := al\<rparr>), object) })"

definition SparseSpace_RebuildFreeList :: "space_state \<Rightarrow> space_state option" where
  "SparseSpace_RebuildFreeList = (\<lambda>(h, sp). do {
     (h, al) \<leftarrow> RebuildFreeList (h, sp_allocator sp);
     Some (h, sp\<lparr>sp_allocator := al\<rparr>) })"

section \<open>Growth\<close>

definition CommittedSizeExceed :: "space \<Rightarrow> bool" where
  "CommittedSizeExceed sp = (maximumCapacity sp + overshootSize sp + outOfMemoryOvershootSize sp \<le> committedSize sp)"

definition AdjustOvershootSize :: "space \<Rightarrow> space" where
  "AdjustOvershootSize sp =
    (if 0 < overshootSize sp \<and> committedSize sp < maximumCapacity sp then
       let n = maximumCapacity sp - committedSize sp
       in sp\<lparr>overshootSize := (if n < overshootSize sp then overshootSize sp - n else 0)\<rparr>
     else sp)"

definition new_space_region :: "environment \<Rightarrow> space_state \<Rightarrow> space_state \<times> nat" where
  "new_space_region env = (\<lambda>(h, sp).
     let (h, r) = AllocateAlignedRegion (MemMapAllocate env h) DEFAULT_REGION_SIZE h;
         h = update_region r InitializeFreeObjectSets h
     in (AddRegion r (h, sp), r))"

definition SparseSpace_Initialize :: "environment \<Rightarrow> space_state \<Rightarrow> space_state" where
  "SparseSpace_Initialize env st =
    (let ((h, sp), r) = new_space_region env st
     in (h, sp\<lparr>sp_allocator := FreeListAllocator_Initialize r h (sp_allocator sp)\<rparr>))"

definition Expand :: "environment \<Rightarrow> space_state \<Rightarrow> bool \<times> space_state" where
  "Expand env st =
    (if CommittedSizeExceed (snd st) then (False, st)
     else let (st, r) = new_space_region env st in (True, on_allocator (FreeListAllocator_AddFree r) st))"

section \<open>Sweeping\<close>

definition ClearRSetInRange :: "environment \<Rightarrow> nat \<Rightarrow> nat \<Rightarrow> nat \<Rightarrow> region \<Rightarrow> region" where
  "ClearRSetInRange env r freeStart freeEnd R =
    (let R = (if ConcurrentSweepEnabled env then ClearSweepingRSetInRange r freeStart freeEnd R
              else ClearOldToNewRSetInRange r freeStart freeEnd R);
         R = AtomicClearLocalToShareRSetInRange r freeStart freeEnd R
     in ClearCrossRegionRSetInRange r freeStart freeEnd R)"

definition FreeLiveRange :: "environment \<Rightarrow> nat \<Rightarrow> nat \<Rightarrow> nat \<Rightarrow> bool \<Rightarrow> space_state \<Rightarrow> space_state" where
  "FreeLiveRange env r freeStart freeEnd isMain st =
     on_allocator (FreeListAllocator_Free freeStart (usub freeEnd freeStart) isMain)
       (on_region r (ClearRSetInRange env r freeStart freeEnd) st)"

definition sweep_object :: "environment \<Rightarrow> nat \<Rightarrow> bool \<Rightarrow> nat \<times> space_state \<Rightarrow> nat \<Rightarrow> nat \<times> space_state" where
  "sweep_object env r isMain = (\<lambda>(freeStart, st) mem.
    (let n = SizeFromJSHClass env (memory (fst st)) mem; freeEnd = mem;
         st = (if freeStart \<noteq> freeEnd then FreeLiveRange env r freeStart freeEnd isMain st else st)
     in (freeEnd + n, st)))"

definition FreeRegion :: "environment \<Rightarrow> nat \<Rightarrow> bool \<Rightarrow> space_state \<Rightarrow> space_state" where
  "FreeRegion env r isMain st =
    (let R = region_at (fst st) r;
         (freeStart, st) = Region_IterateAllMarkedBits r R (sweep_object env r isMain) (region_begin R, st);
         freeEnd = region_end R
     in if freeStart \<noteq> freeEnd then FreeLiveRange env r freeStart freeEnd isMain st else st)"

definition sweep_region :: "environment \<Rightarrow> nat \<Rightarrow> space_state \<Rightarrow> space_state" where
  "sweep_region env r = (\<lambda>(h, sp).
    if inCollectSet (region_at h r) then (h, sp)
    else FreeRegion env r True
      (on_region r ResetWasted (h, IncreaseLiveObjectSize (aliveObject (region_at h r)) sp)))"

definition Sweep :: "environment \<Rightarrow> space_state \<Rightarrow> space_state option" where
  "Sweep env = (\<lambda>(h, sp). do {
     st \<leftarrow> SparseSpace_RebuildFreeList (h, sp\<lparr>liveObjectSize := 0\<rparr>);
     Some (fold (sweep_region env) (regionList (snd st)) st) })"

definition prepare_region :: "nat \<Rightarrow> space_state \<Rightarrow> space_state" where
  "prepare_region r = (\<lambda>(h, sp).
    if inCollectSet (region_at h r) then (h, sp)
    else on_region r (SwapRSetForConcurrentSweeping \<circ> ResetWasted)
      (h, IncreaseLiveObjectSize (aliveObject (region_at h r)) sp\<lparr>sweepingList := sweepingList sp @ [r]\<rparr>))"

definition SortSweepingRegion :: "space_state \<Rightarrow> space_state" where
  "SortSweepingRegion = (\<lambda>(h, sp). (h, sp\<lparr>sweepingList := sort_key (\<lambda>r. aliveObject (region_at h r)) (sweepingList sp)\<rparr>))"

definition PrepareSweeping :: "space_state \<Rightarrow> space_state option" where
  "PrepareSweeping = (\<lambda>(h, sp).
     let (h, sp) = SortSweepingRegion (fold prepare_region (regionList sp) (h, sp\<lparr>liveObjectSize := 0\<rparr>))
     in SparseSpace_RebuildFreeList (h, sp\<lparr>sweepState := SWEEPING\<rparr>))"

definition GetSweepingRegionSafe :: "space \<Rightarrow> nat option \<times> space" where
  "GetSweepingRegionSafe sp =
    (if sweepingList sp = [] then (None, sp)
     else (Some (last (sweepingList sp)), sp\<lparr>sweepingList := butlast (sweepingList sp)\<rparr>))"

definition AddSweptRegionSafe :: "nat \<Rightarrow> space \<Rightarrow> space" where
  "AddSweptRegionSafe r sp = sp\<lparr>sweptList := sweptList sp @ [r]\<rparr>"

definition GetSweptRegionSafe :: "space \<Rightarrow> nat option \<times> space" where
  "GetSweptRegionSafe sp =
    (if sweptList sp = [] then (None, sp)
     else (Some (last (sweptList sp)), sp\<lparr>sweptList := butlast (sweptList sp)\<rparr>))"

definition sweep_async :: "environment \<Rightarrow> bool \<Rightarrow> nat \<Rightarrow> space_state \<Rightarrow> space_state" where
  "sweep_async env isMain r st =
    (let (h, sp) = FreeRegion env r isMain st in
     if \<not> isMain then on_region r SetSwept (h, AddSweptRegionSafe r sp)
     else on_region r MergeRSetForConcurrentSweeping (h, sp))"

lemma sweepingList_allocator [simp]: "sweepingList (snd (on_allocator f st)) = sweepingList (snd st)"
  by (cases st) (simp add: on_allocator_def split: prod.split)

lemma sweepingList_region [simp]: "sweepingList (snd (on_region r f st)) = sweepingList (snd st)"
  by (cases st) (simp add: on_region_def)

lemma sweepingList_FreeLiveRange [simp]: "sweepingList (snd (FreeLiveRange env r a b m st)) = sweepingList (snd st)"
  by (simp add: FreeLiveRange_def)

lemma sweepingList_object: "sweepingList (snd (snd (sweep_object env r m s x))) = sweepingList (snd (snd s))"
  by (cases s) (simp add: sweep_object_def Let_def)

lemma sweepingList_word: "sweepingList (snd (snd (iterate_word_const (sweep_object env r m) b w s))) = sweepingList (snd (snd s))"
  by (induction "sweep_object env r m" b w s rule: iterate_word_const.induct)
    (subst iterate_word_const.simps, simp add: Let_def sweepingList_object)

lemma sweepingList_words: "sweepingList (snd (snd (iterate_words_const (sweep_object env r m) b ws s))) = sweepingList (snd (snd s))"
  by (induction "sweep_object env r m" b ws s rule: iterate_words_const.induct) (simp_all add: sweepingList_word)

lemma sweepingList_async [simp]: "sweepingList (snd (sweep_async env m r st)) = sweepingList (snd st)"
proof -
  let ?R = "region_at (fst st) r"
  obtain fs st' where it: "Region_IterateAllMarkedBits r ?R (sweep_object env r m) (region_begin ?R, st) = (fs, st')"
    by (cases "Region_IterateAllMarkedBits r ?R (sweep_object env r m) (region_begin ?R, st)")
  then have "sweepingList (snd st') = sweepingList (snd st)"
    using sweepingList_words [of env r m r _ "(region_begin ?R, st)"]
    by (auto simp: Region_IterateAllMarkedBits_def IterateMarkedBitsConst_def) (metis snd_conv)
  then have "sweepingList (snd (FreeRegion env r m st)) = sweepingList (snd st)" using it by (simp add: FreeRegion_def Let_def)
  then show ?thesis by (auto simp: sweep_async_def AddSweptRegionSafe_def split: prod.split)
qed

function AsyncSweep :: "environment \<Rightarrow> bool \<Rightarrow> space_state \<Rightarrow> space_state" where
  "AsyncSweep env isMain (h, sp) =
    (case GetSweepingRegionSafe sp of
       (None, sp) \<Rightarrow> (h, sp)
     | (Some r, sp) \<Rightarrow> AsyncSweep env isMain (sweep_async env isMain r (h, sp)))"
  by pat_completeness auto

termination
  by (relation "measure (\<lambda>(env, m, st). length (sweepingList (snd st)))")
    (auto simp: GetSweepingRegionSafe_def split: if_splits)

definition collect_swept :: "nat \<Rightarrow> space_state \<Rightarrow> space_state" where
  "collect_swept r st =
     on_region r MergeRSetForConcurrentSweeping (on_region r ResetSwept (on_allocator (CollectFreeObjectSet r) st))"

lemma sweptList_collect [simp]: "sweptList (snd (collect_swept r st)) = sweptList (snd st)"
  by (cases st) (simp add: collect_swept_def on_region_def on_allocator_def split: prod.split)

function fill_swept :: "space_state \<Rightarrow> space_state" where
  "fill_swept (h, sp) =
    (case GetSweptRegionSafe sp of
       (None, sp) \<Rightarrow> (h, sp)
     | (Some r, sp) \<Rightarrow> fill_swept (collect_swept r (h, sp)))"
  by pat_completeness auto

termination
  by (relation "measure (\<lambda>st. length (sweptList (snd st)))") (auto simp: GetSweptRegionSafe_def split: if_splits)

definition TryFillSweptRegion :: "space_state \<Rightarrow> bool \<times> space_state" where
  "TryFillSweptRegion st = (if sweptList (snd st) = [] then (False, st) else (True, fill_swept st))"

definition FinishFillSweptRegion :: "space_state \<Rightarrow> bool \<times> space_state" where
  "FinishFillSweptRegion st = (let (ret, (h, sp)) = TryFillSweptRegion st in (ret, (h, sp\<lparr>sweepState := SWEPT\<rparr>)))"

definition EnsureTaskFinished :: "environment \<Rightarrow> space_state \<Rightarrow> space_state" where
  "EnsureTaskFinished env st = snd (FinishFillSweptRegion (AsyncSweep env True st))"

definition ConcurrentSweeper_Sweep :: "environment \<Rightarrow> space_state \<Rightarrow> space_state option" where
  "ConcurrentSweeper_Sweep env st = (if ConcurrentSweepEnabled env then PrepareSweeping st else Sweep env st)"

definition CheckRegionSize :: "environment \<Rightarrow> space_state \<Rightarrow> space_state \<times> bool" where
  "CheckRegionSize env st =
    (let (h, sp) = (if sweepState (snd st) = SWEEPING then EnsureTaskFinished env st else st);
         available = GetAvailableSize (sp_allocator sp); wasted = GetWastedSize (sp_allocator sp)
     in ((h, sp), liveObjectSize sp + wasted + available = objectSize sp))"

section \<open>Allocation\<close>

definition count_object :: "environment \<Rightarrow> nat \<Rightarrow> nat \<Rightarrow> space_state \<Rightarrow> space_state" where
  "count_object env n object = (\<lambda>(h, sp).
     (if \<not> IsConcurrentFullMark env \<or> IsReadyToMark env then update_region (ObjectAddressToRange object) (IncreaseAliveObject n) h else h,
      IncreaseLiveObjectSize (of_nat n) sp))"

definition AllocateAfterSweepingCompleted :: "environment \<Rightarrow> nat \<Rightarrow> space_state \<Rightarrow> (space_state \<times> nat) option" where
  "AllocateAfterSweepingCompleted env n st =
    (let (filled, st) = TryFillSweptRegion st in
     do { (st, object) \<leftarrow> (if filled then allocator_Allocate n st else Some (st, 0));
          if object \<noteq> 0 then Some (st, object) else allocator_Allocate n (EnsureTaskFinished env st) })"

definition check_object :: "environment \<Rightarrow> nat \<Rightarrow> (space_state \<times> nat) option \<Rightarrow>
    (space_state \<Rightarrow> (space_state \<times> nat) option) \<Rightarrow> (space_state \<times> nat) option" where
  "check_object env n attempt rest = do {
     (st, object) \<leftarrow> attempt;
     if object \<noteq> 0 then Some (count_object env n object st, object) else rest st }"

definition allocate_expand :: "environment \<Rightarrow> nat \<Rightarrow> (space_state \<Rightarrow> (space_state \<times> nat) option) \<Rightarrow> space_state \<Rightarrow>
    (space_state \<times> nat) option" where
  "allocate_expand env n rest st = (let (grown, st) = Expand env st in
     if grown then check_object env n (allocator_Allocate n st) rest else rest st)"

definition allocate_no_gc :: "environment \<Rightarrow> nat \<Rightarrow> space_state \<Rightarrow> (space_state \<times> nat) option" where
  "allocate_no_gc env n st =
     check_object env n (allocator_Allocate n st) (\<lambda>st.
     check_object env n (if sweepState (snd st) = SWEEPING then AllocateAfterSweepingCompleted env n st else Some (st, 0))
       (allocate_expand env n (\<lambda>st. Some (st, 0))))"

definition SparseSpace_Allocate :: "environment \<Rightarrow> nat \<Rightarrow> bool \<Rightarrow> space_state \<Rightarrow> (space_state \<times> nat) option" where
  "SparseSpace_Allocate env n allowGC st =
    (if \<not> allowGC then allocate_no_gc env n st
     else check_object env n (allocator_Allocate n st) (\<lambda>st.
       check_object env n (if sweepState (snd st) = SWEEPING then AllocateAfterSweepingCompleted env n st else Some (st, 0)) (\<lambda>st.
       let (collected, st) = CheckAndTriggerOldGC env st in
       check_object env n (if collected then allocator_Allocate n st else Some (st, 0))
         (allocate_expand env n (\<lambda>st. allocate_no_gc env n (CollectGarbage env st))))))"

definition LocalSpace_Allocate :: "environment \<Rightarrow> nat \<Rightarrow> bool \<Rightarrow> space_state \<Rightarrow> (space_state \<times> nat) option" where
  "LocalSpace_Allocate env n isExpand st = do {
     (st, object) \<leftarrow> allocator_Allocate n st;
     (st, object) \<leftarrow> (if object = 0 then
         if isExpand then (let (grown, st) = Expand env st in if grown then allocator_Allocate n st else Some (st, object))
         else Some (st, object)
       else Some (st, object));
     Some (if object \<noteq> 0 then on_region (ObjectAddressToRange object) (IncreaseAliveObject n) st else st, object) }"

section \<open>Regions that change their space\<close>

definition FreeRegionFromSpace :: "nat \<Rightarrow> space_state \<Rightarrow> space_state" where
  "FreeRegionFromSpace r st =
    (let (h, sp) = RemoveRegion r (on_region r MergeRSetForConcurrentSweeping (on_region r ResetSwept st))
     in (h, DecreaseLiveObjectSize (aliveObject (region_at h r)) sp))"

fun suitable_swept :: "nat \<Rightarrow> heap \<Rightarrow> nat list \<Rightarrow> nat option option" where
  "suitable_swept n h [] = Some None"
| "suitable_swept n h (r # rs) = do {
     m \<leftarrow> MatchFreeObjectSet r n h;
     if m then Some (Some r) else suitable_swept n h rs }"

definition TryToGetSuitableSweptRegion :: "nat \<Rightarrow> space_state \<Rightarrow> (space_state \<times> nat option) option" where
  "TryToGetSuitableSweptRegion n = (\<lambda>(h, sp).
    if sweepState sp \<noteq> SWEEPING \<or> sweptList sp = [] then Some ((h, sp), None)
    else do {
      found \<leftarrow> suitable_swept n h (sweptList sp);
      Some (case found of
          None \<Rightarrow> ((h, sp), None)
        | Some r \<Rightarrow> let (h, sp) = FreeRegionFromSpace r (h, sp) in ((h, sp\<lparr>sweptList := remove1 r (sweptList sp)\<rparr>), Some r)) })"

definition TrySweepToGetSuitableRegion :: "environment \<Rightarrow> nat \<Rightarrow> space_state \<Rightarrow> (space_state \<times> nat option) option" where
  "TrySweepToGetSuitableRegion env n = (\<lambda>(h, sp).
    (case GetSweepingRegionSafe sp of
       (None, sp) \<Rightarrow> Some ((h, sp), None)
     | (Some r, sp) \<Rightarrow>
         let (h, sp) = FreeRegion env r False (h, sp) in
         do { m \<leftarrow> MatchFreeObjectSet r n h;
              Some (if m then (FreeRegionFromSpace r (h, sp), Some r)
                    else (on_region r SetSwept (h, AddSweptRegionSafe r sp), None)) }))"

definition TryToGetExclusiveRegion :: "environment \<Rightarrow> nat \<Rightarrow> space_state \<Rightarrow> (space_state \<times> nat option) option" where
  "TryToGetExclusiveRegion env n = (\<lambda>(h, sp). do {
     result \<leftarrow> FreeListAllocator_LookupSuitableFreeObject n (h, sp_allocator sp);
     if result \<noteq> 0 then
       let r = ObjectAddressToRange result;
           (h, sp) = on_allocator (DetachFreeObjectSet r) (RemoveRegion r (h, sp))
       in Some ((h, DecreaseLiveObjectSize (aliveObject (region_at h r)) sp), Some r)
     else if sweepState sp = SWEEPING then do {
       (st, available) \<leftarrow> TryToGetSuitableSweptRegion n (h, sp);
       if available \<noteq> None then Some (st, available) else TrySweepToGetSuitableRegion env n st }
     else Some ((h, sp), None) })"

definition AddRegionToList :: "nat \<Rightarrow> space_state \<Rightarrow> space_state option" where
  "AddRegionToList r = (\<lambda>(h, sp).
    if maximumCapacity sp \<le> committedSize sp then None
    else let (h, sp) = on_allocator (CollectFreeObjectSet r) (AddRegion r (h, sp))
         in Some (h, IncreaseLiveObjectSize (aliveObject (region_at h r)) sp))"

definition LocalSpace_FreeBumpPoint :: "space_state \<Rightarrow> space_state" where
  "LocalSpace_FreeBumpPoint = on_allocator FreeBumpPoint"

definition LocalSpace_Stop :: "space_state \<Rightarrow> space_state" where
  "LocalSpace_Stop = (\<lambda>(h, sp).
    if regionList sp = [] then (h, sp)
    else on_region (last (regionList sp)) (SetHighWaterMark (bp_top (sp_allocator sp))) (h, sp))"

definition merge_region :: "nat \<Rightarrow> heap \<times> space \<times> space \<Rightarrow> heap \<times> space \<times> space" where
  "merge_region r = (\<lambda>(h, old, local).
    (let (h, local) = RemoveRegion r (on_allocator (DetachFreeObjectSet r) (h, local));
         local = DecreaseLiveObjectSize (aliveObject (region_at h r)) local;
         (h, old) = AddRegion r (h, old);
         old = IncreaseLiveObjectSize (aliveObject (region_at h r)) old;
         (h, old) = on_allocator (CollectFreeObjectSet r) (h, old)
     in (h, old, local)))"

definition OldSpace_Merge :: "u64 \<Rightarrow> heap \<times> space \<times> space \<Rightarrow> heap \<times> space \<times> space \<times> bool" where
  "OldSpace_Merge hugeSpaceCommitSize = (\<lambda>(h, old, local).
    (let (h, local) = LocalSpace_FreeBumpPoint (h, local);
         oldCommittedSize = committedSize old;
         (h, old, local) = fold merge_region (regionList local) (h, old, local);
         limit = maximumCapacity old + outOfMemoryOvershootSize old;
         shouldThrowOOM = (limit < committedSize old + hugeSpaceCommitSize);
         old = (if shouldThrowOOM
                then old\<lparr>mergeSize := mergeSize old + (committedSize old - oldCommittedSize),
                       outOfMemoryOvershootSize := outOfMemoryOvershootSize old +
                         (committedSize old + hugeSpaceCommitSize - limit)\<rparr>
                else old);
         local = local\<lparr>regionList := []\<rparr>;
         al = sp_allocator old;
         al = al\<lparr>allocationSizeAccumulator := allocationSizeAccumulator al + allocationSizeAccumulator (sp_allocator local)\<rparr>
     in (h, old\<lparr>sp_allocator := al\<rparr>, local, shouldThrowOOM)))"

end
