(* ===== verification/Space_Growth.thy ===== *)
theory Space_Growth
  imports Free_List_Rebuild Sparse_Space
begin

text \<open>
  A new region in the heap: the invariant of the memory is kept when the region comes in, and its data
  area is a piece of its own, which becomes the range of the bump pointer.
\<close>

section \<open>Adding a region to the heap\<close>

lemma mod_0_diff8: "r mod 2 ^ 18 = 0 \<Longrightarrow> b mod 8 = 0 \<Longrightarrow> (r + 2 ^ 18 - b) mod 8 = (0 :: nat)"
proof -
  assume "r mod 2 ^ 18 = 0" "b mod 8 = 0"
  then have "8 dvd r" "8 dvd b" by (auto intro: dvd_trans [of 8 "2 ^ 18"] simp: mod_eq_0_iff_dvd)
  then show ?thesis by (simp add: mod_eq_0_iff_dvd)
qed

definition fresh_region :: "nat \<Rightarrow> region \<Rightarrow> bool" where
  "fresh_region r R \<longleftrightarrow> region_ok r R \<and> region_end R < 2 ^ 63 \<and> region_begin R < region_end R \<and>
     freeObjectSets R = replicate NUMBER_OF_SETS None"

definition with_region :: "nat \<Rightarrow> region \<Rightarrow> heap \<Rightarrow> heap" where
  "with_region r R h = h\<lparr>regions := (regions h)(r \<mapsto> R)\<rparr>"

lemma with_region_simps [simp]:
  "memory (with_region r R h) = memory h" "oneFieldClass (with_region r R h) = oneFieldClass h"
  "twoFieldClass (with_region r R h) = twoFieldClass h" "noneFieldClass (with_region r R h) = noneFieldClass h"
  "regions (with_region r R h) = (regions h)(r \<mapsto> R)"
  by (simp_all add: with_region_def)

lemma with_region_sets:
  assumes "regions h r = None" "fresh_region r R"
  shows "valid_ptr (with_region r R h) q \<longleftrightarrow> valid_ptr h q \<or> (fst q = r \<and> snd q < NUMBER_OF_SETS)"
    "valid_ptr h q \<Longrightarrow> set_at (with_region r R h) q = set_at h q"
    "snd q < NUMBER_OF_SETS \<Longrightarrow> fst q = r \<Longrightarrow> set_at (with_region r R h) q = None"
    "Available (with_region r R h) = Available h" "GetNext (with_region r R h) = GetNext h"
    "in_data h r' a n \<Longrightarrow> in_data (with_region r R h) r' a n"
  using assms by (auto simp: set_at_def valid_ptr_def fresh_region_def in_data_def Available_def GetNext_def Let_def fun_eq_iff
      IsFreeObjectWithShortField_def GetObjectSize_def)

lemma with_region_kept: "regions h r = None \<Longrightarrow> fresh_region r R \<Longrightarrow> r \<notin> U \<Longrightarrow> kept U h B (with_region r R h) B"
  by (rule keptI) (auto simp: with_region_sets(4) region_at_def)

lemma other_region_apart:
  assumes "blocks_ok h B" "regions h r = None" "fresh_region r R" "in_data h r' a n"
  shows "disj a n (region_begin R) (region_end R - region_begin R)"
proof -
  obtain R' where R': "regions h r' = Some R'" "region_begin R' \<le> a" "a + n \<le> region_end R'" using assms(4) by (auto simp: in_data_def)
  have ok: "region_ok r' R'" "region_ok r R" using blocks_okD(1) [OF assms(1) R'(1)] assms(3) by (simp_all add: fresh_region_def)
  have "r \<noteq> r'" using R'(1) assms(2) by auto
  then have "r + DEFAULT_REGION_SIZE \<le> r' \<or> r' + DEFAULT_REGION_SIZE \<le> r"
  proof -
    obtain i j where ij: "r = DEFAULT_REGION_SIZE * i" "r' = DEFAULT_REGION_SIZE * j"
      using ok by (metis mod_0_imp_dvd dvdE region_ok_def)
    then have "i + 1 \<le> j \<or> j + 1 \<le> i" using \<open>r \<noteq> r'\<close> by (metis Suc_eq_plus1 Suc_leI linorder_neqE_nat)
    then show ?thesis unfolding ij by (metis add_mult_distrib2 mult.right_neutral mult_le_mono2)
  qed
  then show ?thesis using ok R'(2,3) unfolding disj_def region_ok_def by linarith
qed

lemma parcelled_new_region:
  assumes P: "parcelled h B fl L U xs" and r: "regions h r = None" "fresh_region r R"
  shows "parcelled (with_region r R h) B fl L U ((region_begin R, region_end R - region_begin R) # xs)"
proof -
  let ?h = "with_region r R h" and ?x = "(region_begin R, region_end R - region_begin R)"
  have bok: "blocks_ok h B" and lok: "list_ok h B fl L" and px: "pieces_ok h B xs" using P by (simp_all add: parcelled_def)
  note s = with_region_sets [OF r]
  have inv: "\<not> valid_ptr h q" if "fst q = r" for q using that r(1) by (simp add: valid_ptr_def)
  have Br: "B q = []" if "fst q = r" for q using bok inv [OF that] unfolding blocks_ok_def by blast
  have ch: "block_chain ?h c ys = block_chain h c ys" for c ys by (rule block_chain_cong) (simp add: s)
  have "set_ok ?h B q" if "valid_ptr ?h q" for q
  proof (cases "valid_ptr h q")
    case True
    then show ?thesis using blocks_okD(2) [OF bok True] s(2) [OF True] by (simp add: set_ok_def ch s(4) split: option.splits)
  next
    case False
    then show ?thesis using that s(1,3) [of q] Br [of q] by (simp add: set_ok_def)
  qed
  moreover have "block_ok ?h q x" if "x \<in> set (B q)" for q x
    using blocks_okD(3) [OF bok that] s(6) by (auto simp: block_ok_def s(4))
  moreover have "region_ok r' R'" if "regions ?h r' = Some R'" for r' R'
    using that r(2) blocks_okD(1) [OF bok] by (auto simp: fresh_region_def split: if_splits)
  moreover have "B q = []" if "\<not> valid_ptr ?h q" for q
    using that s(1) bok unfolding blocks_ok_def by blast
  ultimately have bok': "blocks_ok ?h B"
    using bok unfolding blocks_ok_def classes_ok_def by (simp add: s(4) del: split_paired_All)
  have links: "list_links h fl L" using lok by (simp add: list_ok_def)
  note D = list_linksD [OF links]
  have lk: "linked ?h None (L t) None" for t
    using D(5) [of t] by (subst linked_cong [where h = h]) (use D(8) s(2) in auto)
  have added: "isAdded f = (q \<in> set (L (snd q)))" if "valid_ptr ?h q" "set_at ?h q = Some f" for q f
    using that s(1,2,3) [of q] D(10) [of q f] by (metis option.distinct(1))
  have "list_ok ?h B fl L" unfolding list_ok_def list_links_def
    using lok lk added D(8) s(1)
    by (simp add: list_ok_def list_links_def list_size_def set_size_def s(4) del: split_paired_All)
  moreover have "piece_ok ?h B x" if "x \<in> set xs" for x
    using px that s(6) by (fastforce simp: pieces_ok_def piece_ok_def apart_def s(4) simp del: split_paired_All)
  moreover have "apart ?h B (region_begin R) (region_end R - region_begin R)"
    unfolding apart_def s(4)
  proof (intro allI ballI)
    fix q x assume "x \<in> set (B q)"
    then have "in_data h (fst q) x (Available h x)" using blocks_okD(3) [OF bok] by (simp add: block_ok_def)
    then show "disj x (Available h x) (region_begin R) (region_end R - region_begin R)"
      using other_region_apart [OF bok r] by simp
  qed
  then have "piece_ok ?h B ?x" using r(2)
    by (auto simp: piece_ok_def fresh_region_def region_ok_def in_data_def DEFAULT_REGION_SIZE_def intro!: exI [of _ r] mod_0_diff8)
  moreover have "apart_from ?x y" if y: "y \<in> set xs" for y
  proof (cases y)
    case (Pair a n)
    obtain r' where "in_data h r' a n" using px y Pair unfolding pieces_ok_def piece_ok_def by fastforce
    then show ?thesis using other_region_apart [OF bok r] Pair by (simp add: disj_sym)
  qed
  ultimately show ?thesis using P bok' px by (simp add: parcelled_def pieces_ok_def)
qed

end
