(* ===== verification/Space_Sweep.thy ===== *)
theory Space_Sweep
  imports Free_List_Rebuild Sparse_Space
begin

text \<open>
  Sweeping a region (\<open>SparseSpace::FreeRegion\<close>), by the main thread or in the background.  The marked objects of a region, in the
  order of their addresses, leave \<open>gaps\<close>; sweeping turns each gap into a free block or, when it is too
  short for one, into lost bytes, and touches nothing else.
\<close>

section \<open>Objects and gaps of a region\<close>

fun tiled :: "nat \<Rightarrow> piece list \<Rightarrow> nat \<Rightarrow> bool" where
  "tiled s [] e \<longleftrightarrow> s \<le> e"
| "tiled s ((a, n) # xs) e \<longleftrightarrow> s \<le> a \<and> tiled (a + n) xs e"

fun gaps :: "nat \<Rightarrow> piece list \<Rightarrow> nat \<Rightarrow> piece list" where
  "gaps s [] e = (if s < e then [(s, e - s)] else [])"
| "gaps s ((a, n) # xs) e = (if s < a then [(s, a - s)] else []) @ gaps (a + n) xs e"

lemma tiled_le: "tiled s xs e \<Longrightarrow> s \<le> e"
  by (induction s xs e rule: gaps.induct) auto

lemma bytes_gaps: "tiled s xs e \<Longrightarrow> s + bytes (gaps s xs e) + bytes xs = e"
  by (induction s xs e rule: gaps.induct) auto

lemma tiled_bounds: "tiled s xs e \<Longrightarrow> (a, n) \<in> set xs \<union> set (gaps s xs e) \<Longrightarrow> s \<le> a \<and> a + n \<le> e"
proof (induction s xs e rule: gaps.induct)
  case (2 s b m xs e)
  have "b + m \<le> e" using tiled_le [of "b + m" xs e] 2(2) by simp
  then show ?case using 2 by (auto split: if_splits)
qed auto

lemma mod_0_diff: "a mod k = 0 \<Longrightarrow> b mod k = 0 \<Longrightarrow> (a - b) mod k = (0 :: nat)"
  by (simp add: mod_eq_0_iff_dvd)

lemma gaps_aligned:
  "tiled s xs e \<Longrightarrow> s mod 8 = 0 \<Longrightarrow> e mod 8 = 0 \<Longrightarrow> \<forall>(a, n) \<in> set xs. a mod 8 = 0 \<and> n mod 8 = 0 \<Longrightarrow>
    (b, m) \<in> set (gaps s xs e) \<Longrightarrow> 0 < m \<and> b mod 8 = 0 \<and> m mod 8 = 0"
proof (induction s xs e rule: gaps.induct)
  case (2 s a n xs e)
  have "(a + n) mod 8 = 0" using 2(5) by (simp add: mod_add_eq [of a 8 n, symmetric])
  then show ?case using 2 by (auto split: if_splits intro: mod_0_diff)
qed (auto split: if_splits intro: mod_0_diff)

lemma gaps_apart: "tiled s xs e \<Longrightarrow> sorted_wrt apart_from (gaps s xs e) \<and> (\<forall>x \<in> set xs. \<forall>g \<in> set (gaps s xs e). apart_from x g)"
proof (induction s xs e rule: gaps.induct)
  case (2 s a n xs e)
  have IH: "sorted_wrt apart_from (gaps (a + n) xs e)" "\<forall>x \<in> set xs. \<forall>g \<in> set (gaps (a + n) xs e). apart_from x g"
    using 2 by simp_all
  have after: "a + n \<le> b" if "(b, m) \<in> set xs \<union> set (gaps (a + n) xs e)" for b m
    using tiled_bounds [OF _ that] 2(2) by simp
  then have "apart_from (a, n) g" "s < a \<Longrightarrow> apart_from (s, a - s) g" "s < a \<Longrightarrow> apart_from g (s, a - s)"
    if "g \<in> set xs \<union> set (gaps (a + n) xs e)" for g
    using that by (cases g; fastforce simp: disj_def)+
  moreover have "s < a \<Longrightarrow> apart_from (a, n) (s, a - s)" by (simp add: disj_def)
  ultimately show ?case using IH by (auto simp: sorted_wrt_append)
qed simp

section \<open>Freeing a gap\<close>

lemma on_region_layout:
  assumes "r \<in> dom (regions h)" "\<And>R. layout (f R) = layout R" "\<And>R. core (f R) = core R"
  shows "same_layout h (update_region r f h)" "same_core h (update_region r f h)"
  using assms same_layout_update [of r h f] by (auto intro!: same_core_update_region simp: layout_def)

lemma ClearRSetInRange_same [simp]:
  "layout (ClearRSetInRange env r a b R) = layout R" "core (ClearRSetInRange env r a b R) = core R"
  by (simp_all add: ClearRSetInRange_def Let_def layout_def core_def ClearSweepingRSetInRange_def ClearOldToNewRSetInRange_def
      AtomicClearLocalToShareRSetInRange_def ClearCrossRegionRSetInRange_def)

lemma ClearRSetInRange_wasted [simp]: "wasted (ClearRSetInRange env r a b R) = wasted R"
  by (simp add: ClearRSetInRange_def Let_def ClearSweepingRSetInRange_def ClearOldToNewRSetInRange_def
      AtomicClearLocalToShareRSetInRange_def ClearCrossRegionRSetInRange_def)

lemma unlisted_layout:
  assumes "same_layout h h'" "\<And>r. wasted (region_at h' r) = wasted (region_at h r)"
  shows "unlisted_bytes h' B r = unlisted_bytes h B r" "kept U h B h' B"
proof -
  show u: "unlisted_bytes h' B r = unlisted_bytes h B r" for r
    by (rule unlisted_cong) (simp_all add: assms(2) same_layout_simps(3) [OF assms(1)])
  show "kept U h B h' B" by (simp add: kept_def u)
qed

lemma wasted_update: "r \<in> dom (regions h) \<Longrightarrow> (\<And>R. wasted (f R) = wasted R) \<Longrightarrow>
    wasted (region_at (update_region r f h) q) = wasted (region_at h q)"
  by (simp add: region_at_def update_region_def)

text \<open>
  The bytes that the sweeper of region \<open>r\<close> has freed: those on the free list, and those in the sets of the region
  when it runs in the background.
\<close>

definition freed_bytes :: "bool \<Rightarrow> nat \<Rightarrow> heap \<Rightarrow> (set_ptr \<Rightarrow> nat list) \<Rightarrow> free_list \<Rightarrow> u64" where
  "freed_bytes isMain r h B fl = list_available fl + list_wasted fl + (if isMain then 0 else unlisted_bytes h B r)"

lemma FreeLiveRange_spec:
  assumes ok: "allocator_ok h B (sp_allocator sp) L U ((a, n) # xs)" and r: "r \<in> dom (regions h)" "ObjectAddressToRange a = r"
    and U: "r \<in> U \<longleftrightarrow> \<not> isMain"
  obtains h' fl' B' L' where
    "FreeLiveRange env r a (a + n) isMain (h, sp) = (h', sp\<lparr>sp_allocator := (sp_allocator sp)\<lparr>freeList := fl'\<rparr>\<rparr>)"
    "allocator_ok h' B' ((sp_allocator sp)\<lparr>freeList := fl'\<rparr>) L' U xs" "same_core h h'"
    "\<And>i. i < a \<or> a + n \<le> i \<Longrightarrow> memory h' i = memory h i" "kept (U - {r}) h B h' B'"
    "freed_bytes isMain r h' B' fl' = freed_bytes isMain r h B (freeList (sp_allocator sp)) + of_nat n"
proof -
  let ?al = "sp_allocator sp"
  define h1 where "h1 = update_region r (ClearRSetInRange env r a (a + n)) h"
  note s = on_region_layout [OF r(1), of "ClearRSetInRange env r a (a + n)", folded h1_def, simplified]
  have w: "wasted (region_at h1 q) = wasted (region_at h q)" for q unfolding h1_def by (rule wasted_update [OF r(1)]) simp
  note k = unlisted_layout [OF s(1) w, where B = B]
  have ok1: "allocator_ok h1 B ?al L U ((a, n) # xs)" by (rule allocator_layout [OF s(1) ok])
  note D = allocator_okD [OF ok1]
  have P: "parcelled h1 B (freeList ?al) L U ((a, n) # bump_piece ?al @ xs)" using D(1) by (subst parcelled_perm) auto
  obtain h' fl' B' L' where f: "FreeListAllocator_Free a n isMain (h1, ?al) = (h', ?al\<lparr>freeList := fl'\<rparr>)"
    "parcelled h' B' fl' L' U (bump_piece ?al @ xs)" "same_core h1 h'" "\<And>i. i < a \<or> a + n \<le> i \<Longrightarrow> memory h' i = memory h1 i"
    "kept (U - {r}) h1 B h' B'" "freed_bytes isMain r h' B' fl' = freed_bytes isMain r h1 B (freeList ?al) + of_nat n"
  proof (cases isMain)
    case True
    then have "ObjectAddressToRange a \<notin> U" using U r(2) by simp
    then obtain h' fl' B' L' where "FreeListAllocator_Free a n True (h1, ?al) = (h', ?al\<lparr>freeList := fl'\<rparr>)"
      "parcelled h' B' fl' L' U (bump_piece ?al @ xs)" "same_core h1 h'" "\<And>i. i < a \<or> a + n \<le> i \<Longrightarrow> memory h' i = memory h1 i"
      "list_available fl' + list_wasted fl' = list_available (freeList ?al) + list_wasted (freeList ?al) + of_nat n" "kept U h1 B h' B'"
      using release_piece [OF P] by metis
    then show ?thesis using that [of h' fl' B' L'] True by (simp add: freed_bytes_def kept_def)
  next
    case False
    then have "ObjectAddressToRange a \<in> U" using U r(2) by simp
    then obtain h' B' where g: "FreeListAllocator_Free a n False (h1, ?al) = (h', ?al)"
      "parcelled h' B' (freeList ?al) L U (bump_piece ?al @ xs)" "same_core h1 h'" "\<And>i. i < a \<or> a + n \<le> i \<Longrightarrow> memory h' i = memory h1 i"
      "unlisted_bytes h' B' r = unlisted_bytes h1 B r + of_nat n" "kept (U - {r}) h1 B h' B'"
      using release_unlisted [OF P] r(2) by metis
    moreover have "?al\<lparr>freeList := freeList ?al\<rparr> = ?al" by simp
    ultimately show ?thesis using that [of h' "freeList ?al" B' L] False by (simp add: freed_bytes_def)
  qed
  have "a + n < 2 ^ 63" using piece_bound(1) [OF D(6,3,2), of a n] by simp
  then have "usub (a + n) a = n" using usub_eq [of a "a + n"] by simp
  then have "FreeLiveRange env r a (a + n) isMain (h, sp) = (h', sp\<lparr>sp_allocator := ?al\<lparr>freeList := fl'\<rparr>\<rparr>)"
    using f(1) by (simp add: FreeLiveRange_def on_allocator_def on_region_def h1_def)
  moreover have "allocator_ok h' B' (?al\<lparr>freeList := fl'\<rparr>) L' U xs"
    using f(2) D addresses_cong [OF D(6) f(3)] by (simp add: allocator_ok_def)
  moreover have "memory h1 = memory h" by (simp add: h1_def)
  ultimately show ?thesis using that f(4,6) same_core_trans [OF s(2) f(3)] kept_trans [OF k(2) f(5)] k(1) by (simp add: freed_bytes_def)
qed

section \<open>The loop over the marked objects\<close>

definition sweep_rest :: "environment \<Rightarrow> nat \<Rightarrow> bool \<Rightarrow> nat \<Rightarrow> nat \<times> space_state \<Rightarrow> space_state" where
  "sweep_rest env r isMain e = (\<lambda>(s, st). if s \<noteq> e then FreeLiveRange env r s e isMain st else st)"

definition swept :: "nat set \<Rightarrow> nat \<Rightarrow> bool \<Rightarrow> (set_ptr \<Rightarrow> nat list) \<Rightarrow> space_state \<Rightarrow> piece list \<Rightarrow> piece list \<Rightarrow>
    (set_ptr \<Rightarrow> nat list) \<Rightarrow> space_state \<Rightarrow> bool" where
  "swept U r isMain B st gs xs B' st' \<longleftrightarrow> (\<exists>fl' L'.
     snd st' = (snd st)\<lparr>sp_allocator := (sp_allocator (snd st))\<lparr>freeList := fl'\<rparr>\<rparr> \<and>
     allocator_ok (fst st') B' (sp_allocator (snd st')) L' U xs \<and> same_core (fst st) (fst st') \<and>
     (\<forall>i. \<not> in_pieces gs i \<longrightarrow> memory (fst st') i = memory (fst st) i) \<and> kept (U - {r}) (fst st) B (fst st') B' \<and>
     freed_bytes isMain r (fst st') B' fl' =
       freed_bytes isMain r (fst st) B (freeList (sp_allocator (snd st))) + of_nat (bytes gs))"

lemma swept_trans:
  "swept U r m B st gs (gs' @ xs) B' st' \<Longrightarrow> swept U r m B' st' gs' xs B'' st'' \<Longrightarrow> swept U r m B st (gs @ gs') xs B'' st''"
  unfolding swept_def by (fastforce intro: same_core_trans kept_trans simp: in_pieces_def)

lemma swept_gap:
  assumes "allocator_ok h B (sp_allocator sp) L U (gs @ xs)" "r \<in> dom (regions h)" "s \<le> e"
    "gs = (if s < e then [(s, e - s)] else [])" "s < e \<Longrightarrow> ObjectAddressToRange s = r" "r \<in> U \<longleftrightarrow> \<not> isMain"
  shows "\<exists>B'. swept U r isMain B (h, sp) gs xs B' (if s \<noteq> e then FreeLiveRange env r s e isMain (h, sp) else (h, sp))"
proof (cases "s < e")
  case True
  then have e: "e = s + (e - s)" "gs = [(s, e - s)]" using assms(4) by simp_all
  have ok: "allocator_ok h B (sp_allocator sp) L U ((s, e - s) # xs)" using assms(1) e by simp
  obtain h' fl' B' L' where f: "FreeLiveRange env r s (s + (e - s)) isMain (h, sp) = (h', sp\<lparr>sp_allocator := (sp_allocator sp)\<lparr>freeList := fl'\<rparr>\<rparr>)"
    "allocator_ok h' B' ((sp_allocator sp)\<lparr>freeList := fl'\<rparr>) L' U xs" "same_core h h'"
    "\<And>i. i < s \<or> s + (e - s) \<le> i \<Longrightarrow> memory h' i = memory h i" "kept (U - {r}) h B h' B'"
    "freed_bytes isMain r h' B' fl' = freed_bytes isMain r h B (freeList (sp_allocator sp)) + of_nat (e - s)"
    using FreeLiveRange_spec [OF ok assms(2) assms(5) [OF True] assms(6), of env] by metis
  have "memory h' i = memory h i" if "\<not> in_pieces gs i" for i
    using f(4) [of i] that e(2) True by (auto simp: in_pieces_def)
  then show ?thesis using f(1-3,5,6) True e(2) unfolding e(1) [symmetric]
    by (auto simp: swept_def intro!: exI [of _ fl'] exI [of _ B'] exI [of _ L'])
next
  case False
  then show ?thesis using assms by (auto simp: swept_def intro!: exI [of _ B] exI [of _ "freeList (sp_allocator sp)"])
qed

lemma same_core_in_dom: "same_core h h' \<Longrightarrow> r \<in> dom (regions h) \<longleftrightarrow> r \<in> dom (regions h')"
  by (simp add: same_core_dom)

lemma sweep_loop:
  assumes "allocator_ok h B (sp_allocator sp) L U (gaps s objs e @ xs)" "r \<in> dom (regions h)" "tiled s objs e" "r \<in> U \<longleftrightarrow> \<not> isMain"
    and "\<forall>(a, n) \<in> set objs. \<forall>m. (\<forall>i. K i \<longrightarrow> m i = m0 i) \<longrightarrow> SizeFromJSHClass env m a = n"
    and "\<forall>i. K i \<longrightarrow> memory h i = m0 i \<and> \<not> in_pieces (gaps s objs e) i"
    and "\<forall>(a, n) \<in> set (gaps s objs e). ObjectAddressToRange a = r"
  shows "\<exists>B'. swept U r isMain B (h, sp) (gaps s objs e) xs B'
    (sweep_rest env r isMain e (foldl (sweep_object env r isMain) (s, (h, sp)) (map fst objs)))"
  using assms
proof (induction s objs e arbitrary: h B sp L rule: gaps.induct)
  case (1 s e)
  then show ?case using swept_gap [of h B sp L U "gaps s [] e" xs r s e isMain env] by (simp add: sweep_rest_def)
next
  case (2 s a n objs e)
  define gs where "gs = (if s < a then [(s, a - s)] else [])"
  define st1 where "st1 = (if s \<noteq> a then FreeLiveRange env r s a isMain (h, sp) else (h, sp))"
  have "\<exists>B'. swept U r isMain B (h, sp) gs (gaps (a + n) objs e @ xs) B' st1" unfolding st1_def
    by (rule swept_gap) (use 2(2-5,8) in \<open>auto simp: gs_def\<close>)
  then obtain B1 where one: "swept U r isMain B (h, sp) gs (gaps (a + n) objs e @ xs) B1 st1" by blast
  then obtain fl' L' where st1: "snd st1 = sp\<lparr>sp_allocator := (sp_allocator sp)\<lparr>freeList := fl'\<rparr>\<rparr>"
    "allocator_ok (fst st1) B1 (sp_allocator (snd st1)) L' U (gaps (a + n) objs e @ xs)" "same_core h (fst st1)"
    "\<forall>i. \<not> in_pieces gs i \<longrightarrow> memory (fst st1) i = memory h i" by (auto simp: swept_def)
  have K: "memory (fst st1) i = m0 i \<and> \<not> in_pieces (gaps (a + n) objs e) i" if "K i" for i
  proof -
    have "memory h i = m0 i" "\<not> in_pieces gs i" "\<not> in_pieces (gaps (a + n) objs e) i"
      using 2(7) that by (simp_all add: gs_def in_pieces_def ball_Un)
    then show ?thesis using st1(4) by simp
  qed
  have "SizeFromJSHClass env (memory h) a = n" using 2(6,7) by auto
  then have step: "sweep_object env r isMain (s, (h, sp)) a = (a + n, st1)"
    by (simp add: sweep_object_def st1_def)
  have dom: "r \<in> dom (regions (fst st1))" using 2(3) same_core_in_dom [OF st1(3)] by simp
  have "\<exists>B'. swept U r isMain B1 (fst st1, snd st1) (gaps (a + n) objs e) xs B'
      (sweep_rest env r isMain e (foldl (sweep_object env r isMain) (a + n, (fst st1, snd st1)) (map fst objs)))"
    by (rule 2(1) [OF st1(2) dom]) (use 2(4-6,8) K in auto)
  then obtain B' where "swept U r isMain B (h, sp) (gs @ gaps (a + n) objs e) xs B'
      (sweep_rest env r isMain e (foldl (sweep_object env r isMain) (a + n, st1) (map fst objs)))"
    unfolding prod.collapse by (elim exE) (rule that, rule swept_trans [OF one])
  then show ?case using step by (auto simp: gs_def)
qed

lemma FreeRegion_spec:
  assumes ok: "allocator_ok h B (sp_allocator sp) L U (gaps (region_begin R) objs (region_end R) @ xs)" and R: "regions h r = Some R"
    and t: "tiled (region_begin R) objs (region_end R)" and U: "r \<in> U \<longleftrightarrow> \<not> isMain"
    and marks: "bitsetSize R = 4 * length (markGCBitset R)" "map (\<lambda>k. r + 8 * k) (marked (markGCBitset R)) = map fst objs"
    and sizes: "\<forall>(a, n) \<in> set objs. \<forall>m. (\<forall>i. K i \<longrightarrow> m i = m0 i) \<longrightarrow> SizeFromJSHClass env m a = n"
    and K: "\<forall>i. K i \<longrightarrow> memory h i = m0 i \<and> \<not> in_pieces (gaps (region_begin R) objs (region_end R)) i"
  shows "\<exists>B'. swept U r isMain B (h, sp) (gaps (region_begin R) objs (region_end R)) xs B' (FreeRegion env r isMain (h, sp))"
proof -
  have dom: "r \<in> dom (regions h)" using R by auto
  note D = allocator_okD [OF ok]
  have "ObjectAddressToRange a = r" if "(a, n) \<in> set (gaps (region_begin R) objs (region_end R))" for a n
  proof -
    have "0 < n" using D(3) that unfolding pieces_ok_def piece_ok_def by fastforce
    moreover have "in_data h r a n" using tiled_bounds [OF t, of a n] that R by (simp add: in_data_def)
    ultimately show ?thesis using in_data_region [OF D(2)] by simp
  qed
  then have rng: "\<forall>(a, n) \<in> set (gaps (region_begin R) objs (region_end R)). ObjectAddressToRange a = r" by blast
  have "FreeRegion env r isMain (h, sp) =
      sweep_rest env r isMain (region_end R) (foldl (sweep_object env r isMain) (region_begin R, (h, sp)) (map fst objs))"
    using R marks
    by (simp add: FreeRegion_def Region_IterateAllMarkedBits_def IterateMarkedBitsConst_spec region_at_def sweep_rest_def Let_def)
  then show ?thesis using sweep_loop [OF ok dom t U sizes K rng] by simp
qed

end
