(* ===== verification/Space_Gaps.thy ===== *)
theory Space_Gaps
  imports Space_Sweep
begin

text \<open>
  What a collection frees: in every region the gaps between the objects that stay.  Gaps and objects together
  tile the region, so that nothing else of the space can lie in a region that waits for its sweep.
\<close>

section \<open>The gaps of all regions\<close>

definition objs_in :: "piece list \<Rightarrow> nat \<Rightarrow> piece list" where
  "objs_in keep r = sort_key fst (filter (\<lambda>p. ObjectAddressToRange (fst p) = r) keep)"

definition data_size :: "heap \<Rightarrow> nat \<Rightarrow> nat" where
  "data_size h r = region_end (region_at h r) - region_begin (region_at h r)"

definition region_gaps :: "heap \<Rightarrow> piece list \<Rightarrow> nat \<Rightarrow> piece list" where
  "region_gaps h keep r = gaps (region_begin (region_at h r)) (objs_in keep r) (region_end (region_at h r))"

lemma sorted_tiled:
  assumes "sorted (map fst xs)" "sorted_wrt apart_from xs" "\<forall>(a, n) \<in> set xs. s \<le> a \<and> 0 < n \<and> a + n \<le> e" "s \<le> e"
  shows "tiled s xs e"
  using assms
proof (induction xs arbitrary: s)
  case (Cons x xs)
  obtain a n where x: "x = (a, n)" by (cases x)
  have "a + n \<le> b" if "(b, m) \<in> set xs" for b m
  proof -
    have "a \<le> b" "disj a n b m" "0 < m" using Cons.prems that x by fastforce+
    then show ?thesis by (auto simp: disj_def)
  qed
  then have "tiled (a + n) xs e" using Cons.prems x by (intro Cons.IH) fastforce+
  then show ?case using Cons.prems x by simp
qed simp

lemma mset_objs_in: "mset (objs_in keep r) = mset (filter (\<lambda>p. ObjectAddressToRange (fst p) = r) keep)"
  by (simp add: objs_in_def)

lemma set_objs_in: "set (objs_in keep r) = {p \<in> set keep. ObjectAddressToRange (fst p) = r}"
  by (simp add: objs_in_def)

lemma objs_in_tiled:
  assumes "pieces_ok h B keep" "blocks_ok h B" "regions h r = Some R"
  shows "tiled (region_begin R) (objs_in keep r) (region_end R)"
proof (rule sorted_tiled)
  show "sorted (map fst (objs_in keep r))" by (simp add: objs_in_def)
  have "pieces_ok h B (filter (\<lambda>p. ObjectAddressToRange (fst p) = r) keep)"
    using assms(1) by (auto simp: pieces_ok_def intro: sorted_wrt_filter)
  then show "sorted_wrt apart_from (objs_in keep r)"
    using pieces_perm [OF mset_objs_in, of h B keep r] by (simp add: pieces_ok_def)
  show "\<forall>(a, n) \<in> set (objs_in keep r). region_begin R \<le> a \<and> 0 < n \<and> a + n \<le> region_end R"
  proof (intro ballI, clarify)
    fix a n assume "(a, n) \<in> set (objs_in keep r)"
    then have an: "(a, n) \<in> set keep" "ObjectAddressToRange a = r" by (auto simp: set_objs_in)
    then obtain r' where r': "in_data h r' a n" "0 < n" using assms(1) unfolding pieces_ok_def piece_ok_def by fastforce
    then have "r' = r" using in_data_region [OF assms(2)] an(2) by metis
    then show "region_begin R \<le> a \<and> 0 < n \<and> a + n \<le> region_end R" using r' assms(3) by (auto simp: in_data_def)
  qed
  show "region_begin R \<le> region_end R" using blocks_okD(1) [OF assms(2,3)] by (simp add: region_ok_def)
qed

lemma regions_apart:
  assumes "blocks_ok h B" "in_data h r a n" "in_data h q b m" "r \<noteq> q"
  shows "disj a n b m"
proof -
  obtain R Q where R: "regions h r = Some R" "region_begin R \<le> a" "a + n \<le> region_end R"
    "regions h q = Some Q" "region_begin Q \<le> b" "b + m \<le> region_end Q" using assms(2,3) by (auto simp: in_data_def)
  have ok: "region_ok r R" "region_ok q Q" using blocks_okD(1) [OF assms(1)] R(1,4) by auto
  obtain i j where ij: "r = DEFAULT_REGION_SIZE * i" "q = DEFAULT_REGION_SIZE * j"
    using ok by (metis mod_0_imp_dvd dvdE region_ok_def)
  then have "i + 1 \<le> j \<or> j + 1 \<le> i" using assms(4) by (metis Suc_eq_plus1 Suc_leI linorder_neqE_nat)
  then have "r + DEFAULT_REGION_SIZE \<le> q \<or> q + DEFAULT_REGION_SIZE \<le> r"
    unfolding ij by (metis add_mult_distrib2 mult.right_neutral mult_le_mono2)
  then show ?thesis using ok R unfolding disj_def region_ok_def by linarith
qed

lemma region_gaps_pieces:
  assumes ok: "blocks_ok h (\<lambda>_. [])" "pieces_ok h (\<lambda>_. []) keep" and r: "regions h r = Some R"
  shows "pieces_ok h (\<lambda>_. []) (region_gaps h keep r)" "g \<in> set (region_gaps h keep r) \<Longrightarrow> in_data h r (fst g) (snd g)"
    "g \<in> set (region_gaps h keep r) \<Longrightarrow> x \<in> set keep \<Longrightarrow> apart_from g x"
    "bytes (region_gaps h keep r) + bytes (objs_in keep r) = data_size h r"
proof -
  have t: "tiled (region_begin R) (objs_in keep r) (region_end R)" by (rule objs_in_tiled [OF ok(2,1) r])
  have g: "region_gaps h keep r = gaps (region_begin R) (objs_in keep r) (region_end R)" using r by (simp add: region_gaps_def region_at_def)
  have rok: "region_ok r R" using blocks_okD(1) [OF ok(1) r] .
  then have "region_end R mod 8 = 0"
    by (auto simp: region_ok_def DEFAULT_REGION_SIZE_def mod_eq_0_iff_dvd intro!: dvd_add intro: dvd_trans [of 8 "2 ^ 18"])
  moreover have "\<forall>(a, n) \<in> set (objs_in keep r). a mod 8 = 0 \<and> n mod 8 = 0"
    using ok(2) by (fastforce simp: set_objs_in pieces_ok_def piece_ok_def)
  ultimately have al: "0 < m \<and> b mod 8 = 0 \<and> m mod 8 = 0" if "(b, m) \<in> set (region_gaps h keep r)" for b m
    using gaps_aligned [OF t _ _ _ that [unfolded g]] rok by (simp add: region_ok_def)
  show data: "in_data h r (fst g) (snd g)" if "g \<in> set (region_gaps h keep r)" for g
    using tiled_bounds [OF t, of "fst g" "snd g"] that r by (simp add: g in_data_def)
  show "pieces_ok h (\<lambda>_. []) (region_gaps h keep r)"
    using al data gaps_apart [OF t] by (fastforce simp: pieces_ok_def piece_ok_def apart_def g)
  show "apart_from g x" if gx: "g \<in> set (region_gaps h keep r)" "x \<in> set keep" for g x
  proof (cases "ObjectAddressToRange (fst x) = r")
    case True
    then show ?thesis using gaps_apart [OF t] gx by (cases x) (auto simp: g set_objs_in apart_from_sym [of g])
  next
    case False
    obtain q where q: "in_data h q (fst x) (snd x)" "0 < snd x"
      using ok(2) gx(2) unfolding pieces_ok_def piece_ok_def by (cases x) fastforce
    then have "q \<noteq> r" using False in_data_region [OF ok(1)] by blast
    then show ?thesis using regions_apart [OF ok(1) data [OF gx(1)] q(1)] by (cases g; cases x) simp
  qed
  show "bytes (region_gaps h keep r) + bytes (objs_in keep r) = data_size h r"
    using bytes_gaps [OF t] r by (simp add: g data_size_def region_at_def)
qed

lemma all_gaps_pieces:
  assumes ok: "blocks_ok h (\<lambda>_. [])" "pieces_ok h (\<lambda>_. []) keep" and rs: "distinct rs" "set rs \<subseteq> dom (regions h)"
  shows "pieces_ok h (\<lambda>_. []) (concat (map (region_gaps h keep) rs) @ keep)"
  using rs
proof (induction rs)
  case (Cons r rs)
  obtain R where R: "regions h r = Some R" using Cons.prems by auto
  note g = region_gaps_pieces [OF ok R]
  have "apart_from x y" if x: "x \<in> set (region_gaps h keep r)" and y: "y \<in> set (concat (map (region_gaps h keep) rs) @ keep)" for x y
  proof (cases "y \<in> set keep")
    case True
    then show ?thesis using g(3) x by blast
  next
    case False
    then obtain q where q: "q \<in> set rs" "y \<in> set (region_gaps h keep q)" using y by auto
    obtain Q where Q: "regions h q = Some Q" using q(1) Cons.prems by auto
    have "disj (fst x) (snd x) (fst y) (snd y)"
      using regions_apart [OF ok(1) g(2) [OF x] region_gaps_pieces(2) [OF ok Q q(2)]] q(1) Cons.prems by auto
    then show ?thesis by (cases x; cases y) simp
  qed
  then show ?case using Cons g(1) by (auto simp: pieces_ok_def sorted_wrt_append)
qed (use ok in simp)

lemma bytes_perm: "mset xs = mset ys \<Longrightarrow> bytes xs = bytes ys"
  by (simp add: bytes_def) (metis mset_map sum_mset_sum_list)

lemma bytes_concat: "bytes (concat (map f rs)) = (\<Sum>r\<leftarrow>rs. bytes (f r))"
  by (induction rs) simp_all

lemma of_nat_sum_list: "(\<Sum>r\<leftarrow>rs. of_nat (f r)) = of_nat (\<Sum>r\<leftarrow>rs. f r)"
  by (induction rs) simp_all

lemma bytes_objs_in:
  assumes "distinct rs" "\<forall>p \<in> set keep. ObjectAddressToRange (fst p) \<in> set rs"
  shows "(\<Sum>r\<leftarrow>rs. bytes (objs_in keep r)) = bytes keep"
  using assms(2)
proof (induction keep)
  case Nil
  show ?case by (simp add: objs_in_def)
next
  case (Cons p keep)
  have "bytes (objs_in (p # keep) r) = bytes (objs_in keep r) + (if r = ObjectAddressToRange (fst p) then snd p else 0)" for r
    using bytes_perm [OF mset_objs_in, of "p # keep" r] bytes_perm [OF mset_objs_in, of keep r] by (simp add: eq_commute)
  moreover have "(\<Sum>r\<leftarrow>rs. if r = ObjectAddressToRange (fst p) then snd p else 0) = snd p"
    using assms(1) Cons.prems by (simp add: sum_list_distinct_conv_sum_set)
  ultimately show ?case using Cons by (simp add: sum_list_addf)
qed

lemma pieces_sub:
  assumes "pieces_ok h B live" "set keep \<subseteq> set live" "distinct keep"
  shows "pieces_ok h B keep"
proof -
  have apart: "apart_from x y" if "x \<in> set live" "y \<in> set live" "x \<noteq> y" for x y
    using assms(1) that
  proof (induction live)
    case (Cons z live)
    then show ?case using apart_from_sym [of x y] by (auto simp: pieces_Cons)
  qed simp
  have "\<forall>p \<in> set live. piece_ok h B p" using assms(1) by (simp add: pieces_ok_def)
  then show ?thesis using assms(2,3)
  proof (induction keep)
    case (Cons x keep)
    have "apart_from x y" if "y \<in> set keep" for y using Cons.prems that by (intro apart) auto
    then show ?case using Cons by (auto simp: pieces_Cons)
  qed simp
qed

lemma pieces_distinct: "pieces_ok h B xs \<Longrightarrow> distinct (map fst xs)"
proof (induction xs)
  case (Cons x xs)
  have "fst x \<noteq> fst y" if y: "y \<in> set xs" for y
  proof -
    have "apart_from x y" "piece_ok h B x" "piece_ok h B y" using Cons.prems y by (auto simp: pieces_Cons pieces_ok_def)
    then show ?thesis by (cases x; cases y) (auto simp: disj_def piece_ok_def)
  qed
  then show ?case using Cons by (auto simp: pieces_Cons)
qed simp

section \<open>Regions that wait for their sweep\<close>

lemma tiled_cover: "tiled s xs e \<Longrightarrow> s \<le> i \<Longrightarrow> i < e \<Longrightarrow> in_pieces (xs @ gaps s xs e) i"
proof (induction s xs e rule: gaps.induct)
  case (2 s a n xs e)
  show ?case
  proof (cases "i < a + n")
    case True
    then show ?thesis using 2 by (cases "i < a") (auto simp: in_pieces_def)
  next
    case False
    then have "in_pieces (xs @ gaps (a + n) xs e) i" using 2 by simp
    then show ?thesis by (fastforce simp: in_pieces_def)
  qed
qed (simp add: in_pieces_def)

lemma region_cover:
  assumes "pieces_ok h B live" "blocks_ok h B" "regions h r = Some R" "region_begin R \<le> i" "i < region_end R"
  shows "in_pieces (objs_in live r @ region_gaps h live r) i"
  using tiled_cover [OF objs_in_tiled [OF assms(1-3)] assms(4,5)] assms(3) by (simp add: region_gaps_def region_at_def)

lemma region_full:
  assumes ok: "blocks_ok h B" "pieces_ok h B (y # xs)" and r: "regions h r = Some R" and live: "pieces_ok h B live"
    and sub: "set (objs_in live r @ region_gaps h live r) \<subseteq> set xs"
  shows "ObjectAddressToRange (fst y) \<noteq> r"
proof
  assume eq: "ObjectAddressToRange (fst y) = r"
  obtain a n where y: "y = (a, n)" by (cases y)
  then obtain r' where r': "in_data h r' a n" "0 < n" using ok(2) by (auto simp: pieces_Cons piece_ok_def)
  then have "r' = r" using in_data_region [OF ok(1)] eq y by auto
  then have "region_begin R \<le> a" "a < region_end R" using r' r by (auto simp: in_data_def)
  then obtain b m where b: "(b, m) \<in> set xs" "b \<le> a" "a < b + m"
    using region_cover [OF live ok(1) r, of a] sub by (auto simp: in_pieces_def)
  then show False using ok(2) r'(2) y by (fastforce simp: pieces_Cons disj_def)
qed

lemma region_no_blocks:
  assumes ok: "blocks_ok h B" "pieces_ok h B xs" and r: "regions h r = Some R" and live: "pieces_ok h B live"
    and sub: "set (objs_in live r @ region_gaps h live r) \<subseteq> set xs" and q: "fst q = r"
  shows "B q = []"
proof (rule ccontr)
  assume "B q \<noteq> []"
  then obtain x where x: "x \<in> set (B q)" by (meson list.set_sel(1))
  then have "block_ok h q x" using blocks_okD(3) [OF ok(1)] by blast
  then have "in_data h r x (Available h x)" "0 < Available h x" using q by (auto simp: block_ok_def free_consts)
  then have "region_begin R \<le> x" "x < region_end R" using r by (auto simp: in_data_def)
  then obtain b m where b: "(b, m) \<in> set xs" "b \<le> x" "x < b + m"
    using region_cover [OF live ok(1) r, of x] sub by (auto simp: in_pieces_def)
  then have "apart h B b m" using ok(2) unfolding pieces_ok_def piece_ok_def by fast
  then have "disj x (Available h x) b m" using x by (rule apartD)
  then show False using b \<open>0 < Available h x\<close> by (auto simp: disj_def)
qed

definition ready :: "heap \<Rightarrow> piece list \<Rightarrow> nat \<Rightarrow> bool" where
  "ready h keep r \<longleftrightarrow> (\<exists>R. regions h r = Some R \<and> \<not> inCollectSet R \<and> bitsetSize R = 4 * length (markGCBitset R) \<and>
     map (\<lambda>k. r + 8 * k) (marked (markGCBitset R)) = map fst (objs_in keep r))"

lemma ready_core: "same_core h h' \<Longrightarrow> ready h live r \<Longrightarrow> objs_in live' r = objs_in live r \<Longrightarrow> ready h' live' r"
proof -
  assume c: "same_core h h'" and "ready h live r" and o: "objs_in live' r = objs_in live r"
  then obtain R where R: "regions h r = Some R" "\<not> inCollectSet R" "bitsetSize R = 4 * length (markGCBitset R)"
    "map (\<lambda>k. r + 8 * k) (marked (markGCBitset R)) = map fst (objs_in live r)" by (auto simp: ready_def)
  obtain R' where "regions h' r = Some R'" "core R' = core R" using same_core_region [OF c R(1)] by metis
  then show ?thesis using R o core_fields(3-5) [of R' R] by (auto simp: ready_def)
qed

lemma region_gaps_core:
  assumes "same_core h h'" "r \<in> dom (regions h)" "objs_in live' r = objs_in live r"
  shows "region_gaps h' live' r = region_gaps h live r"
proof -
  obtain R where R: "regions h r = Some R" using assms(2) by blast
  obtain R' where "regions h' r = Some R'" "core R' = core R" using same_core_region [OF assms(1) R] by metis
  then show ?thesis using R assms(3) core_fields(1,2) [of R' R] by (simp add: region_gaps_def region_at_def)
qed

lemma objs_in_Cons: "ObjectAddressToRange (fst x) \<noteq> r \<Longrightarrow> objs_in (x # live) r = objs_in live r"
  by (simp add: objs_in_def)

end
