(* ===== verification/Space_Invariant.thy ===== *)
theory Space_Invariant
  imports Space_Growth Space_Gaps
begin

text \<open>
  The invariant of a space.  The memory of its regions is parcelled into free blocks, the bump range, the live
  objects and, while a sweep is under way, the gaps of the regions that still wait for it.  The counters
  agree, as \<open>OldSpace::CheckRegionSize\<close> expects: live, lost and available bytes and those of swept
  regions that are not collected yet add up to the size of the regions.  Initialisation and growth
  preserve it, and so does every allocation from the free list.
\<close>

section \<open>The invariant\<close>

definition region_marks :: "region \<Rightarrow> bool" where
  "region_marks R \<longleftrightarrow> bitsetSize R = 4096 \<and> length (markGCBitset R) = 1024 \<and> \<not> inCollectSet R"

text \<open>No region outside \<open>X\<close> has a mark bit set.\<close>

definition marks_clear :: "nat set \<Rightarrow> heap \<Rightarrow> bool" where
  "marks_clear X h \<longleftrightarrow> X \<subseteq> dom (regions h) \<and> (\<forall>r R. regions h r = Some R \<longrightarrow> r \<notin> X \<longrightarrow> markGCBitset R = replicate 1024 0)"

definition uncollected :: "space \<Rightarrow> nat set" where
  "uncollected sp = set (sweepingList sp @ sweptList sp)"

definition pending :: "heap \<Rightarrow> space \<Rightarrow> piece list \<Rightarrow> piece list" where
  "pending h sp live = concat (map (region_gaps h live) (sweepingList sp))"

definition space_shape :: "heap \<Rightarrow> space \<Rightarrow> bool" where
  "space_shape h sp \<longleftrightarrow> distinct (regionList sp) \<and> dom (regions h) = set (regionList sp) \<and>
     (\<forall>r R. regions h r = Some R \<longrightarrow> region_marks R) \<and> objectSize sp = of_nat (\<Sum>r\<leftarrow>regionList sp. data_size h r) \<and>
     committedSize sp = of_nat (DEFAULT_REGION_SIZE * length (regionList sp)) \<and> distinct (sweepingList sp @ sweptList sp) \<and>
     uncollected sp \<subseteq> set (regionList sp) \<and> (sweepState sp \<noteq> SWEEPING \<longrightarrow> uncollected sp = {})"

definition space_at :: "heap \<Rightarrow> (set_ptr \<Rightarrow> nat list) \<Rightarrow> (nat \<Rightarrow> set_ptr list) \<Rightarrow> space \<Rightarrow> piece list \<Rightarrow> bool" where
  "space_at h B L sp live \<longleftrightarrow> space_shape h sp \<and>
     allocator_ok h B (sp_allocator sp) L (uncollected sp) (pending h sp live @ live) \<and>
     liveObjectSize sp = of_nat (bytes live) \<and>
     objectSize sp = stock (sp_allocator sp) (pending h sp live @ live) + (\<Sum>r \<in> set (sweptList sp). unlisted_bytes h B r) \<and>
     (\<forall>r \<in> set (sweepingList sp). unlisted_bytes h B r = 0 \<and> ready h live r)"

definition space_ok :: "heap \<Rightarrow> space \<Rightarrow> piece list \<Rightarrow> bool" where
  "space_ok h sp live \<longleftrightarrow> (\<exists>B L. space_at h B L sp live)"

lemma space_shapeD:
  assumes "space_shape h sp"
  shows "distinct (regionList sp)" "dom (regions h) = set (regionList sp)" "regions h r = Some R \<Longrightarrow> region_marks R"
    "objectSize sp = of_nat (\<Sum>r\<leftarrow>regionList sp. data_size h r)"
    "committedSize sp = of_nat (DEFAULT_REGION_SIZE * length (regionList sp))" "distinct (sweepingList sp @ sweptList sp)"
    "uncollected sp \<subseteq> set (regionList sp)" "sweepState sp \<noteq> SWEEPING \<Longrightarrow> uncollected sp = {}"
  using assms unfolding space_shape_def by blast+

lemma space_shapeI:
  assumes "distinct (regionList sp)" "dom (regions h) = set (regionList sp)" "\<And>r R. regions h r = Some R \<Longrightarrow> region_marks R"
    "objectSize sp = of_nat (\<Sum>r\<leftarrow>regionList sp. data_size h r)"
    "committedSize sp = of_nat (DEFAULT_REGION_SIZE * length (regionList sp))" "distinct (sweepingList sp @ sweptList sp)"
    "uncollected sp \<subseteq> set (regionList sp)" "sweepState sp \<noteq> SWEEPING \<Longrightarrow> uncollected sp = {}"
  shows "space_shape h sp"
  using assms unfolding space_shape_def by blast

lemma space_atD:
  assumes "space_at h B L sp live"
  shows "space_shape h sp" "allocator_ok h B (sp_allocator sp) L (uncollected sp) (pending h sp live @ live)"
    "liveObjectSize sp = of_nat (bytes live)"
    "objectSize sp = stock (sp_allocator sp) (pending h sp live @ live) + (\<Sum>r \<in> set (sweptList sp). unlisted_bytes h B r)"
    "r \<in> set (sweepingList sp) \<Longrightarrow> unlisted_bytes h B r = 0" "r \<in> set (sweepingList sp) \<Longrightarrow> ready h live r"
  using assms unfolding space_at_def by blast+

lemma space_atI:
  assumes "space_shape h sp" "allocator_ok h B (sp_allocator sp) L (uncollected sp) (pending h sp live @ live)"
    "liveObjectSize sp = of_nat (bytes live)"
    "objectSize sp = stock (sp_allocator sp) (pending h sp live @ live) + (\<Sum>r \<in> set (sweptList sp). unlisted_bytes h B r)"
    "\<And>r. r \<in> set (sweepingList sp) \<Longrightarrow> unlisted_bytes h B r = 0 \<and> ready h live r"
  shows "space_at h B L sp live"
  using assms unfolding space_at_def by blast

definition memory_available :: "environment \<Rightarrow> bool" where
  "memory_available env \<longleftrightarrow> (\<forall>h. finite (dom (regions h)) \<longrightarrow> card (dom (regions h)) < 2 ^ 22 \<longrightarrow>
     MemMapAllocate env h mod DEFAULT_REGION_SIZE = 0 \<and> regions h (MemMapAllocate env h) = None \<and>
     MemMapAllocate env h + DEFAULT_REGION_SIZE < 2 ^ 63)"

definition small_space :: "space \<Rightarrow> bool" where
  "small_space sp \<longleftrightarrow> maximumCapacity sp \<le> 2 ^ 39 \<and> overshootSize sp \<le> 2 ^ 38 \<and> outOfMemoryOvershootSize sp \<le> 2 ^ 38"

section \<open>What the invariant depends on\<close>

lemma data_size_core: "same_core h h' \<Longrightarrow> r \<in> dom (regions h) \<Longrightarrow> data_size h' r = data_size h r"
proof -
  assume c: "same_core h h'" and "r \<in> dom (regions h)"
  then obtain R where R: "regions h r = Some R" by blast
  then obtain R' where "regions h' r = Some R'" "core R' = core R" using same_core_region [OF c] by metis
  then show ?thesis using R core_fields(1,2) [of R' R] by (simp add: data_size_def region_at_def)
qed

lemma core_region:
  assumes "same_core h h'" "regions h' r = Some R'"
  obtains R where "regions h r = Some R" "core R' = core R"
proof -
  have "r \<in> dom (regions h)" using same_core_dom [OF assms(1)] assms(2) by auto
  then obtain R where R: "regions h r = Some R" by blast
  then show ?thesis using that same_core_region [OF assms(1) R] assms(2) by (metis option.inject)
qed

lemma marks_core: "core R' = core R \<Longrightarrow> region_marks R \<Longrightarrow> region_marks R'"
  using core_fields(3-5) [of R' R] by (simp add: region_marks_def)

lemma marks_clear_core:
  assumes "same_core h h'" "marks_clear X h"
  shows "marks_clear X h'"
  unfolding marks_clear_def
proof (intro conjI allI impI)
  show "X \<subseteq> dom (regions h')" using assms same_core_dom [OF assms(1)] by (simp add: marks_clear_def)
  fix r R' assume R': "regions h' r = Some R'" "r \<notin> X"
  obtain R where "regions h r = Some R" "core R' = core R" by (rule core_region [OF assms(1) R'(1)])
  then show "markGCBitset R' = replicate 1024 0" using assms(2) R'(2) core_fields(3) [of R' R] by (simp add: marks_clear_def)
qed

lemma shape_core:
  assumes "space_shape h sp" "same_core h h'"
  shows "space_shape h' (sp\<lparr>sp_allocator := al, liveObjectSize := x\<rparr>)"
proof (rule space_shapeI)
  note d = space_shapeD [OF assms(1)]
  have "(\<Sum>r\<leftarrow>regionList sp. data_size h' r) = (\<Sum>r\<leftarrow>regionList sp. data_size h r)"
    using d(2) data_size_core [OF assms(2)] by (intro arg_cong [where f = sum_list] map_cong) auto
  then show "objectSize (sp\<lparr>sp_allocator := al, liveObjectSize := x\<rparr>) =
      of_nat (\<Sum>r\<leftarrow>regionList (sp\<lparr>sp_allocator := al, liveObjectSize := x\<rparr>). data_size h' r)" using d(4) by simp
  show "region_marks R" if "regions h' r = Some R" for r R
    using core_region [OF assms(2) that] marks_core d(3) by metis
qed (use space_shapeD [OF assms(1)] same_core_dom [OF assms(2)] in \<open>simp_all add: uncollected_def\<close>)

lemma pending_core:
  assumes "space_shape h sp" "same_core h h'" "\<And>r. r \<in> set (sweepingList sp) \<Longrightarrow> objs_in live' r = objs_in live r"
  shows "pending h' sp live' = pending h sp live"
proof -
  have "region_gaps h' live' r = region_gaps h live r" if "r \<in> set (sweepingList sp)" for r
    using that space_shapeD(2,7) [OF assms(1)] by (intro region_gaps_core [OF assms(2)] assms(3)) (auto simp: uncollected_def)
  then show ?thesis unfolding pending_def by (intro arg_cong [where f = concat] map_cong) auto
qed

lemma pending_allocator [simp]:
  "pending h (sp\<lparr>sp_allocator := al\<rparr>) live = pending h sp live" "pending h (sp\<lparr>liveObjectSize := x\<rparr>) live = pending h sp live"
  "uncollected (sp\<lparr>sp_allocator := al\<rparr>) = uncollected sp" "uncollected (sp\<lparr>liveObjectSize := x\<rparr>) = uncollected sp"
  by (simp_all add: pending_def uncollected_def)

lemma kept_sum: "kept (uncollected sp) h B h' B' \<Longrightarrow> (\<Sum>r \<in> set (sweptList sp). unlisted_bytes h' B' r) = (\<Sum>r \<in> set (sweptList sp). unlisted_bytes h B r)"
  by (rule sum.cong) (auto simp: kept_def uncollected_def)

lemma space_at_core:
  assumes at: "space_at h B L sp live" and core: "same_core h h'"
    and al: "allocator_ok h' B' al' L' (uncollected sp) (pending h sp live @ live')"
    and st: "stock al' (pending h sp live @ live') = stock (sp_allocator sp) (pending h sp live @ live)"
    and kept: "kept (uncollected sp) h B h' B'" and same: "\<And>r. r \<in> set (sweepingList sp) \<Longrightarrow> objs_in live' r = objs_in live r"
  shows "space_at h' B' L' (sp\<lparr>sp_allocator := al', liveObjectSize := of_nat (bytes live')\<rparr>) live'"
proof -
  note d = space_atD [OF at]
  note p = pending_core [OF d(1) core same]
  show ?thesis
  proof (rule space_atI)
    show "space_shape h' (sp\<lparr>sp_allocator := al', liveObjectSize := of_nat (bytes live')\<rparr>)" by (rule shape_core [OF d(1) core])
    show "unlisted_bytes h' B' r = 0 \<and> ready h' live' r"
      if "r \<in> set (sweepingList (sp\<lparr>sp_allocator := al', liveObjectSize := of_nat (bytes live')\<rparr>))" for r
      using that d(5,6) kept ready_core [OF core _ same] by (auto simp: kept_def uncollected_def)
  qed (use d(4) al st p kept_sum [OF kept] in simp_all)
qed

text \<open>Updates of a region that touch neither its layout nor its mark bits nor its lost bytes.\<close>

definition harmless :: "(region \<Rightarrow> region) \<Rightarrow> bool" where
  "harmless f \<longleftrightarrow> (\<forall>R. layout (f R) = layout R \<and> wasted (f R) = wasted R \<and> markGCBitset (f R) = markGCBitset R \<and>
     bitsetSize (f R) = bitsetSize R \<and> inCollectSet (f R) = inCollectSet R)"

lemma space_at_update:
  assumes at: "space_at h B L sp live" and r: "r \<in> dom (regions h)" and f: "harmless f"
  shows "space_at (update_region r f h) B L sp live" "marks_clear X h \<Longrightarrow> marks_clear X (update_region r f h)"
proof -
  let ?h = "update_region r f h"
  note d = space_atD [OF at]
  obtain R where R: "regions h r = Some R" using r by blast
  have lay: "same_layout h ?h" by (rule same_layout_update [OF r]) (use f in \<open>simp add: harmless_def\<close>)
  have reg: "regions ?h q = (if q = r then Some (f R) else regions h q)" for q using R by (simp add: update_region_def region_at_def)
  have fR: "region_begin (f R) = region_begin R" "region_end (f R) = region_end R" "markGCBitset (f R) = markGCBitset R"
    "bitsetSize (f R) = bitsetSize R" "inCollectSet (f R) = inCollectSet R"
    using f by (simp_all add: harmless_def layout_def)
  have w: "wasted (region_at ?h q) = wasted (region_at h q)" for q by (rule wasted_update [OF r]) (use f in \<open>simp add: harmless_def\<close>)
  note k = unlisted_layout [OF lay w, where B = B]
  have ds: "data_size ?h = data_size h" using R reg fR by (auto simp: fun_eq_iff data_size_def region_at_def)
  have "region_gaps ?h live = region_gaps h live" using R reg fR by (auto simp: fun_eq_iff region_gaps_def region_at_def)
  then have p: "pending ?h sp live = pending h sp live" by (simp add: pending_def)
  have shape: "space_shape ?h sp"
  proof (rule space_shapeI)
    have "dom (regions ?h) = dom (regions h)" using reg r by (auto split: if_splits)
    then show "dom (regions ?h) = set (regionList sp)" using space_shapeD(2) [OF d(1)] by simp
    show "region_marks Q" if "regions ?h q = Some Q" for q Q
      using that reg space_shapeD(3) [OF d(1)] R fR by (auto simp: region_marks_def split: if_splits)
  qed (use space_shapeD [OF d(1)] ds in simp_all)
  show "space_at ?h B L sp live"
  proof (rule space_atI [OF shape])
    show "allocator_ok ?h B (sp_allocator sp) L (uncollected sp) (pending ?h sp live @ live)"
      using allocator_layout [OF lay d(2)] p by simp
    show "unlisted_bytes ?h B q = 0 \<and> ready ?h live q" if "q \<in> set (sweepingList sp)" for q
      using d(5,6) [OF that] k(1) R reg fR by (auto simp: ready_def)
  qed (use d(3,4) p k in simp_all)
  have "dom (regions ?h) = dom (regions h)" using reg r by (auto split: if_splits)
  then show "marks_clear X ?h" if "marks_clear X h" using that reg R fR by (auto simp: marks_clear_def)
qed

lemma live_region:
  assumes "allocator_ok h B al L U live" "(a, n) \<in> set live"
  shows "ObjectAddressToRange a \<in> dom (regions h)" "in_data h (ObjectAddressToRange a) a n"
proof -
  have "(a, n) \<in> set (bump_piece al @ live)" using assms(2) by simp
  then obtain r where r: "in_data h r a n" "0 < n"
    using allocator_okD(3) [OF assms(1)] unfolding pieces_ok_def piece_ok_def by fastforce
  then have "ObjectAddressToRange a = r" using in_data_region [OF allocator_okD(2) [OF assms(1)]] by simp
  then show "ObjectAddressToRange a \<in> dom (regions h)" "in_data h (ObjectAddressToRange a) a n"
    using r(1) by (auto simp: in_data_def)
qed

section \<open>Nothing else lies in a region that waits for its sweep\<close>

lemma pending_pieces:
  assumes "r \<in> set (sweepingList sp)"
  shows "set (objs_in live r @ region_gaps h live r) \<subseteq> set (pending h sp live @ live)"
  using assms by (auto simp: pending_def set_objs_in)

lemma space_pieces:
  assumes "space_at h B L sp live"
  shows "blocks_ok h B" "pieces_ok h B (bump_piece (sp_allocator sp) @ pending h sp live @ live)" "pieces_ok h B live"
proof -
  note D = allocator_okD [OF space_atD(2) [OF assms]]
  show "blocks_ok h B" "pieces_ok h B (bump_piece (sp_allocator sp) @ pending h sp live @ live)" using D(2,3) by simp_all
  then show "pieces_ok h B live" by (auto simp: pieces_ok_def sorted_wrt_append)
qed

lemma new_object_elsewhere:
  assumes at: "space_at h B L sp live" and core: "same_core h h'"
    and al: "allocator_ok h' B' al' L' U ((a, n) # pending h sp live @ live)" and r: "r \<in> set (sweepingList sp)"
  shows "objs_in ((a, n) # live) r = objs_in live r"
proof -
  note D = allocator_okD [OF al]
  have px: "pieces_ok h' B' ((a, n) # pending h sp live @ live)" using D(3) by (auto simp: pieces_ok_def sorted_wrt_append)
  then have pl: "pieces_ok h' B' live" by (auto simp: pieces_ok_def sorted_wrt_append)
  have dom: "r \<in> dom (regions h)" using space_shapeD(2,7) [OF space_atD(1) [OF at]] r by (auto simp: uncollected_def)
  then obtain R where R: "regions h' r = Some R" using same_core_dom [OF core] by (metis domD)
  have "region_gaps h' live r = region_gaps h live r" by (rule region_gaps_core [OF core dom refl])
  then have "set (objs_in live r @ region_gaps h' live r) \<subseteq> set (pending h sp live @ live)" using pending_pieces [OF r] by metis
  then show ?thesis using region_full [OF D(2) px R pl] by (intro objs_in_Cons) simp
qed

section \<open>A new region\<close>

lemma new_space_region_spec:
  assumes r: "regions h r = None" "r mod DEFAULT_REGION_SIZE = 0" "r + DEFAULT_REGION_SIZE < 2 ^ 63" "r = MemMapAllocate env h"
  obtains R where "new_space_region env (h, sp) = ((with_region r R h, sp\<lparr>regionList := regionList sp @ [r],
      committedSize := committedSize sp + of_nat DEFAULT_REGION_SIZE,
      objectSize := objectSize sp + of_nat (region_end R - region_begin R)\<rparr>), r)"
    "fresh_region r R" "region_marks R \<and> markGCBitset R = replicate 1024 0" "region_begin R = r + 4272" "region_end R = r + DEFAULT_REGION_SIZE"
proof -
  obtain h1 where h1: "AllocateAlignedRegion r DEFAULT_REGION_SIZE h = (h1, r)" by (simp add: AllocateAlignedRegion_def Let_def)
  obtain R0 where R0: "h1 = h\<lparr>regions := (regions h)(r \<mapsto> R0)\<rparr>" "region_begin R0 = r + 4272" "region_end R0 = r + DEFAULT_REGION_SIZE"
    "markGCBitset R0 = replicate 1024 0" "bitsetSize R0 = 4096" "\<not> inCollectSet R0"
    using new_Region_ok [OF h1 r(2)] by metis
  define R where "R = InitializeFreeObjectSets R0"
  have up: "update_region r InitializeFreeObjectSets h1 = with_region r R h"
    by (simp add: R0(1) update_region_def region_at_def with_region_def R_def)
  have "r < 2 ^ 64" "r mod 8 = 0"
    using r(2,3) by (auto simp: DEFAULT_REGION_SIZE_def mod_eq_0_iff_dvd intro: dvd_trans [of 8 "2 ^ 18"])
  then have "(r + 4272) mod 8 = 0" by (simp add: mod_add_eq [of r 8 4272, symmetric])
  then have fr: "fresh_region r R"
    using R0(2,3) r(2,3) by (simp add: fresh_region_def region_ok_def R_def InitializeFreeObjectSets_def DEFAULT_REGION_SIZE_def)
  moreover have "region_marks R \<and> markGCBitset R = replicate 1024 0" using R0 by (simp add: region_marks_def R_def InitializeFreeObjectSets_def)
  moreover have be: "region_begin R = r + 4272" "region_end R = r + DEFAULT_REGION_SIZE"
    using R0(2,3) by (simp_all add: R_def InitializeFreeObjectSets_def)
  moreover have "Region_GetCapacity r R = DEFAULT_REGION_SIZE" "Region_GetSize R = region_end R - region_begin R"
    using be r(3) by (simp_all add: Region_GetCapacity_def Region_GetSize_def usub_eq DEFAULT_REGION_SIZE_def)
  ultimately show ?thesis using that [of R] h1 up r(4)
    by (simp add: new_space_region_def AddRegion_def region_at_def)
qed

lemma AddFree_spec:
  assumes ok: "allocator_ok h B al L U ((region_begin R, region_end R - region_begin R) # live)"
    and R: "regions h r = Some R" "region_begin R < region_end R" "region_end R < 2 ^ 63" "r \<notin> U"
  obtains h' al' B' L' where "FreeListAllocator_AddFree r (h, al) = (h', al')" "allocator_ok h' B' al' L' U live"
    "bp_top al' = region_begin R" "bp_end al' = region_end R" "same_core h h'"
    "stock al' live = stock al ((region_begin R, region_end R - region_begin R) # live)"
    "\<And>i. in_pieces live i \<Longrightarrow> memory h' i = memory h i" "kept U h B h' B'"
proof -
  let ?x = "(region_begin R, region_end R - region_begin R)"
  obtain h' al1 B' L' where f: "FreeBumpPoint (h, al) = (h', al1)" "allocator_ok h' B' al1 L' U (?x # live)" "bump_piece al1 = []"
    "stock al1 (?x # live) = stock al (?x # live)" "same_core h h'" "\<And>i. in_pieces (?x # live) i \<Longrightarrow> memory h' i = memory h i"
    "kept U h B h' B'"
    using FreeBumpPoint_spec [OF ok] by metis
  let ?al = "Bump_Reset_range (region_begin R) (region_end R) al1"
  have bump: "bump_piece ?al = [?x]" "freeList ?al = freeList al1" using R(2) by (simp_all add: bump_piece_def Bump_Reset_range_def)
  have "in_data h r (region_begin R) (region_end R - region_begin R)" using R(1,2) by (simp add: in_data_def)
  then have "ObjectAddressToRange (region_begin R) = r" using in_data_region [OF allocator_okD(2) [OF ok]] R(2) by simp
  then have "allocator_ok h' B' ?al L' U live"
    using f(2,3) bump R(2,3,4) by (simp add: allocator_ok_def) (simp add: Bump_Reset_range_def)
  moreover have "stock ?al live = stock al1 (?x # live)" using bump f(3) by (simp add: stock_def)
  moreover have "memory h' i = memory h i" if "in_pieces live i" for i using f(6) that by (auto simp: in_pieces_def)
  moreover have "FreeListAllocator_AddFree r (h, al) = (h', ?al)"
    using f(1) R(1) by (simp add: FreeListAllocator_AddFree_def region_at_def)
  ultimately show ?thesis using that [of h' ?al B' L'] f(4,5,7) by (simp add: Bump_Reset_range_def)
qed

section \<open>Growth\<close>

lemma space_regions:
  assumes at: "space_at h B L sp live"
  shows "finite (dom (regions h))" "card (dom (regions h)) = length (regionList sp)"
    "unat (committedSize sp) = DEFAULT_REGION_SIZE * length (regionList sp)"
proof -
  note d = space_shapeD [OF space_atD(1) [OF at]] and ok = space_atD(2) [OF at]
  show "finite (dom (regions h))" and c: "card (dom (regions h)) = length (regionList sp)"
    using d(1,2) by (simp_all add: distinct_card)
  have "dom (regions h) \<subseteq> (\<lambda>k. DEFAULT_REGION_SIZE * k) ` {..<2 ^ 45}"
  proof
    fix r assume "r \<in> dom (regions h)"
    then obtain R where R: "regions h r = Some R" by blast
    then have "region_ok r R" "region_end R < 2 ^ 63"
      using allocator_okD(2,6) [OF ok] blocks_okD(1) by (auto simp: addresses_ok_def)
    then have "r mod DEFAULT_REGION_SIZE = 0" "r < 2 ^ 63" by (simp_all add: region_ok_def)
    then show "r \<in> (\<lambda>k. DEFAULT_REGION_SIZE * k) ` {..<2 ^ 45}"
      by (auto simp: DEFAULT_REGION_SIZE_def mod_eq_0_iff_dvd elim!: dvdE)
  qed
  then have "card (dom (regions h)) \<le> 2 ^ 45"
    by (rule surj_card_le [of "{..<2 ^ 45 :: nat}", unfolded card_lessThan, rotated]) simp
  then have "DEFAULT_REGION_SIZE * length (regionList sp) < 2 ^ 64" using c by (simp add: DEFAULT_REGION_SIZE_def)
  then show "unat (committedSize sp) = DEFAULT_REGION_SIZE * length (regionList sp)"
    using d(5) by (simp only: unat_of_nat) simp
qed

lemma room_for_region:
  assumes at: "space_at h B L sp live" and cap: "small_space sp" "\<not> CommittedSizeExceed sp"
  shows "card (dom (regions h)) < 2 ^ 22"
proof -
  have "unat (maximumCapacity sp + overshootSize sp + outOfMemoryOvershootSize sp) \<le> 2 ^ 40"
    using cap(1) unfolding small_space_def word_le_nat_alt
    by (simp add: unat_word_ariths)
  moreover have "committedSize sp < maximumCapacity sp + overshootSize sp + outOfMemoryOvershootSize sp"
    using cap(2) by (simp add: CommittedSizeExceed_def)
  ultimately have "DEFAULT_REGION_SIZE * length (regionList sp) < 2 ^ 40"
    using space_regions(3) [OF at] by (simp add: word_less_nat_alt)
  then show ?thesis using space_regions(2) [OF at] by (simp add: DEFAULT_REGION_SIZE_def)
qed

text \<open>\<open>grown_space\<close> is the space after a region \<open>r\<close> with data from \<open>b\<close> to \<open>e\<close> was added.\<close>

definition grown_space :: "nat \<Rightarrow> nat \<Rightarrow> space \<Rightarrow> space" where
  "grown_space r n sp = sp\<lparr>regionList := regionList sp @ [r], committedSize := committedSize sp + of_nat DEFAULT_REGION_SIZE,
     objectSize := objectSize sp + of_nat n\<rparr>"

lemma shape_grown:
  assumes sh: "space_shape h sp" and r: "regions h r = None" and R: "region_marks R" "region_end R - region_begin R = n"
  shows "space_shape (with_region r R h) (grown_space r n sp)"
proof (rule space_shapeI)
  let ?h = "with_region r R h" and ?sp = "grown_space r n sp"
  note d = space_shapeD [OF sh]
  have new: "r \<notin> set (regionList sp)" using d(2) r by auto
  then have "(\<Sum>q\<leftarrow>regionList sp. data_size ?h q) = (\<Sum>q\<leftarrow>regionList sp. data_size h q)"
    by (intro arg_cong [where f = sum_list] map_cong) (auto simp: data_size_def region_at_def)
  then show "objectSize ?sp = of_nat (\<Sum>q\<leftarrow>regionList ?sp. data_size ?h q)"
    using d(4) R(2) by (simp add: grown_space_def data_size_def region_at_def del: of_nat_diff)
  show "distinct (regionList ?sp)" "dom (regions ?h) = set (regionList ?sp)" "committedSize ?sp = of_nat (DEFAULT_REGION_SIZE * length (regionList ?sp))"
    using d(1,2,5) new by (auto simp: grown_space_def)
  show "region_marks Q" if "regions ?h q = Some Q" for q Q using that d(3) R(1) by (auto split: if_splits)
qed (use space_shapeD(6-8) [OF sh] in \<open>auto simp: grown_space_def uncollected_def\<close>)

lemma Expand_spec:
  assumes at: "space_at h B L sp live" and env: "memory_available env" and cap: "small_space sp"
  obtains (full) "Expand env (h, sp) = (False, (h, sp))" "CommittedSizeExceed sp"
  | (grown) h' sp' B' L' where "Expand env (h, sp) = (True, (h', sp'))" "space_at h' B' L' sp' live" "small_space sp'"
      "\<And>i. in_pieces live i \<Longrightarrow> memory h' i = memory h i" "\<not> CommittedSizeExceed sp" "marks_clear X h \<Longrightarrow> marks_clear X h'"
      "sweepingList sp' = sweepingList sp" "sweptList sp' = sweptList sp" "sweepState sp' = sweepState sp"
      "bp_top (sp_allocator sp') + (DEFAULT_REGION_SIZE - 4272) = bp_end (sp_allocator sp')"
proof (cases "CommittedSizeExceed sp")
  case True
  then show ?thesis using full by (simp add: Expand_def)
next
  case False
  note d = space_atD [OF at] and sh = space_shapeD [OF space_atD(1) [OF at]]
  define r where "r = MemMapAllocate env h"
  have r: "regions h r = None" "r mod DEFAULT_REGION_SIZE = 0" "r + DEFAULT_REGION_SIZE < 2 ^ 63"
    using env space_regions(1) [OF at] room_for_region [OF at cap False] unfolding memory_available_def r_def by auto
  obtain R where n: "new_space_region env (h, sp) = ((with_region r R h, sp\<lparr>regionList := regionList sp @ [r],
      committedSize := committedSize sp + of_nat DEFAULT_REGION_SIZE,
      objectSize := objectSize sp + of_nat (region_end R - region_begin R)\<rparr>), r)"
    "fresh_region r R" "region_marks R \<and> markGCBitset R = replicate 1024 0" "region_begin R = r + 4272" "region_end R = r + DEFAULT_REGION_SIZE"
    using new_space_region_spec [OF r r_def] by metis
  let ?n = "region_end R - region_begin R"
  let ?h = "with_region r R h" and ?x = "(region_begin R, ?n)" and ?al = "sp_allocator sp" and ?U = "uncollected sp"
    and ?live = "pending h sp live @ live"
  note D = allocator_okD [OF d(2)]
  have rU: "r \<notin> ?U" using sh(2,7) r(1) by auto
  have "parcelled ?h B (freeList ?al) L ?U (bump_piece ?al @ ?x # ?live)"
    using parcelled_new_region [OF D(1) r(1) n(2)] by (subst parcelled_perm) auto
  moreover have "addresses_ok ?h" using D(6) n(2) by (simp add: addresses_ok_def fresh_region_def)
  ultimately have ok1: "allocator_ok ?h B ?al L ?U (?x # ?live)" using d(2) by (simp add: allocator_ok_def)
  have R: "regions ?h r = Some R" "region_begin R < region_end R" "region_end R < 2 ^ 63"
    using n(2) by (simp_all add: fresh_region_def)
  obtain h' al' B' L' where a: "FreeListAllocator_AddFree r (?h, ?al) = (h', al')" "allocator_ok h' B' al' L' ?U ?live"
    "bp_top al' = region_begin R" "bp_end al' = region_end R" "same_core ?h h'" "stock al' ?live = stock ?al (?x # ?live)"
    "\<And>i. in_pieces ?live i \<Longrightarrow> memory h' i = memory ?h i" "kept ?U ?h B h' B'"
    using AddFree_spec [OF ok1 R rU] by metis
  let ?sp1 = "grown_space r ?n sp"
  let ?sp = "?sp1\<lparr>sp_allocator := al', liveObjectSize := liveObjectSize sp\<rparr>"
  have sh1: "space_shape ?h ?sp1" by (rule shape_grown [OF d(1) r(1)]) (use n(3) in simp_all)
  have q: "q \<noteq> r" "q \<in> dom (regions h)" if "q \<in> set (sweepingList sp)" for q
    using that sh(2,7) r(1) by (auto simp: uncollected_def)
  have "pending ?h ?sp1 live = pending h sp live"
    unfolding pending_def grown_space_def
    by (rule arg_cong [where f = concat]) (use q in \<open>auto simp: region_gaps_def region_at_def\<close>)
  then have p: "pending h' ?sp live = pending h sp live"
    using pending_core [OF sh1 a(5), of live live] by simp
  have U: "uncollected ?sp = ?U" "set (sweepingList ?sp) = set (sweepingList sp)" "set (sweptList ?sp) = set (sweptList sp)"
    by (simp_all add: uncollected_def grown_space_def)
  have k: "kept ?U h B h' B'" by (rule kept_trans [OF with_region_kept [OF r(1) n(2) rU] a(8)])
  have "space_at h' B' L' ?sp live"
  proof (rule space_atI)
    show "space_shape h' ?sp" by (rule shape_core [OF sh1 a(5)])
    show "allocator_ok h' B' (sp_allocator ?sp) L' (uncollected ?sp) (pending h' ?sp live @ live)" using a(2) p U by simp
    show "liveObjectSize ?sp = of_nat (bytes live)" using d(3) by simp
    show "objectSize ?sp = stock (sp_allocator ?sp) (pending h' ?sp live @ live) + (\<Sum>r \<in> set (sweptList ?sp). unlisted_bytes h' B' r)"
      using d(4) a(6) p U(3) kept_sum [OF k] by (simp add: grown_space_def stock_def del: of_nat_diff)
    show "unlisted_bytes h' B' q = 0 \<and> ready h' live q" if "q \<in> set (sweepingList ?sp)" for q
    proof -
      have qs: "q \<in> set (sweepingList sp)" using that U by simp
      then have "ready ?h live q" using d(6) q by (auto simp: ready_def)
      then show ?thesis using ready_core [OF a(5)] d(5) [OF qs] k qs by (auto simp: kept_def uncollected_def)
    qed
  qed
  moreover have "Expand env (h, sp) = (True, (h', ?sp))"
    using False n(1) a(1) by (simp add: Expand_def on_allocator_def grown_space_def)
  moreover have "bp_top al' + (DEFAULT_REGION_SIZE - 4272) = bp_end al'" using a(3,4) n(4,5) by (simp add: DEFAULT_REGION_SIZE_def)
  moreover have "marks_clear X h'" if "marks_clear X h"
    by (rule marks_clear_core [OF a(5)]) (use that n(3) in \<open>auto simp: marks_clear_def split: if_splits\<close>)
  moreover have "memory h' i = memory h i" if "in_pieces live i" for i using a(7) [of i] that by (auto simp: in_pieces_def)
  ultimately show ?thesis using grown [of h' ?sp B' L'] False cap by (simp add: small_space_def grown_space_def)
qed

section \<open>A new space\<close>

lemma empty_parcelled: "regions h = Map.empty \<Longrightarrow> classes_ok h \<Longrightarrow> parcelled h (\<lambda>_. []) new_FreeObjectList (\<lambda>_. []) {} []"
  by (simp add: parcelled_def blocks_ok_def list_ok_def list_links_def listed_def new_FreeObjectList_def valid_ptr_def list_size_def)

lemma Initialize_spec:
  assumes h: "regions h = Map.empty" "classes_ok h" and env: "memory_available env" and cap: "cap \<le> 2 ^ 39"
  obtains h' sp' where "SparseSpace_Initialize env (h, new_SparseSpace cap) = (h', sp')" "space_ok h' sp' []" "small_space sp'"
    "marks_clear {} h'" "sweepState sp' \<noteq> SWEEPING"
proof -
  define r where "r = MemMapAllocate env h"
  have r: "regions h r = None" "r mod DEFAULT_REGION_SIZE = 0" "r + DEFAULT_REGION_SIZE < 2 ^ 63"
    using env h(1) unfolding memory_available_def r_def by auto
  let ?sp = "new_SparseSpace cap"
  obtain R where n: "new_space_region env (h, ?sp) = ((with_region r R h, ?sp\<lparr>regionList := regionList ?sp @ [r],
      committedSize := committedSize ?sp + of_nat DEFAULT_REGION_SIZE,
      objectSize := objectSize ?sp + of_nat (region_end R - region_begin R)\<rparr>), r)"
    "fresh_region r R" "region_marks R \<and> markGCBitset R = replicate 1024 0"
    using new_space_region_spec [OF r r_def] by metis
  let ?h = "with_region r R h" and ?al = "Bump_Reset_range (region_begin R) (region_end R) new_FreeListAllocator"
    and ?sp1 = "grown_space r (region_end R - region_begin R) ?sp"
  have R: "region_begin R < region_end R" "region_end R < 2 ^ 63" using n(2) by (simp_all add: fresh_region_def)
  have al: "bump_piece ?al = [(region_begin R, region_end R - region_begin R)]" "freeList ?al = new_FreeObjectList"
    "bp_top ?al = region_begin R" "bp_end ?al = region_end R"
    using R by (simp_all add: bump_piece_def Bump_Reset_range_def new_FreeListAllocator_def)
  have P: "parcelled ?h (\<lambda>_. []) new_FreeObjectList (\<lambda>_. []) {} [(region_begin R, region_end R - region_begin R)]"
    using parcelled_new_region [OF empty_parcelled [OF h] r(1) n(2)] .
  let ?sp' = "?sp1\<lparr>sp_allocator := ?al, liveObjectSize := 0\<rparr>"
  have "space_shape h ?sp" using h(1) by (simp add: space_shape_def new_SparseSpace_def uncollected_def)
  then have sh: "space_shape ?h ?sp'" using n(3) by (intro shape_core [OF shape_grown [OF _ r(1)] same_core_refl]) simp_all
  have none: "sweepingList ?sp' = []" "sweptList ?sp' = []" by (simp_all add: grown_space_def new_SparseSpace_def)
  have "space_at ?h (\<lambda>_. []) (\<lambda>_. []) ?sp' []"
  proof (rule space_atI [OF sh])
    show "allocator_ok ?h (\<lambda>_. []) (sp_allocator ?sp') (\<lambda>_. []) (uncollected ?sp') (pending ?h ?sp' [] @ [])"
      using P R h(1) al none by (simp add: allocator_ok_def addresses_ok_def uncollected_def pending_def)
    show "objectSize ?sp' = stock (sp_allocator ?sp') (pending ?h ?sp' [] @ []) + (\<Sum>r \<in> set (sweptList ?sp'). unlisted_bytes ?h (\<lambda>_. []) r)"
      using al none by (simp add: stock_def new_FreeObjectList_def pending_def grown_space_def new_SparseSpace_def del: of_nat_diff)
  qed (use none in simp_all)
  moreover have "SparseSpace_Initialize env (h, ?sp) = (?h, ?sp')"
    using n(1) by (simp add: SparseSpace_Initialize_def FreeListAllocator_Initialize_def region_at_def new_SparseSpace_def grown_space_def)
  moreover have "small_space ?sp'" using cap by (simp add: small_space_def new_SparseSpace_def grown_space_def)
  moreover have "marks_clear {} ?h" using h(1) n(3) by (simp add: marks_clear_def)
  moreover have "sweepState ?sp' \<noteq> SWEEPING" by (simp add: new_SparseSpace_def grown_space_def)
  ultimately show ?thesis using that unfolding space_ok_def by blast
qed

section \<open>Allocation from the free list\<close>

lemma harmless_alive: "harmless (IncreaseAliveObject n)"
  by (simp add: harmless_def IncreaseAliveObject_def layout_def)

lemma count_object_spec:
  assumes "space_at h B L (IncreaseLiveObjectSize (of_nat n) sp) live" "ObjectAddressToRange a \<in> dom (regions h)"
  shows "\<exists>h'. count_object env n a (h, sp) = (h', IncreaseLiveObjectSize (of_nat n) sp) \<and>
    space_at h' B L (IncreaseLiveObjectSize (of_nat n) sp) live \<and> memory h' = memory h \<and> (marks_clear X h \<longrightarrow> marks_clear X h')"
  using assms space_at_update [OF assms harmless_alive] by (auto simp: count_object_def)

lemma allocate_try:
  assumes at: "space_at h B L sp live" and n: "0 < n" "n mod 8 = 0" "n < 2 ^ 63"
  obtains (got) h' sp' a B' L' where "allocator_Allocate n (h, sp) = Some ((h', sp'), a)" "a \<noteq> 0"
      "\<And>env. \<exists>h2. count_object env n a (h', sp') = (h2, IncreaseLiveObjectSize (of_nat n) sp') \<and>
        space_at h2 B' L' (IncreaseLiveObjectSize (of_nat n) sp') ((a, n) # live) \<and> memory h2 = memory h' \<and> (marks_clear X h \<longrightarrow> marks_clear X h2)"
      "\<And>i. in_pieces live i \<Longrightarrow> memory h' i = memory h i" "sp' = sp\<lparr>sp_allocator := sp_allocator sp'\<rparr>"
      "\<And>r. r \<in> set (sweepingList sp) \<Longrightarrow> objs_in ((a, n) # live) r = objs_in live r"
  | (none) "allocator_Allocate n (h, sp) = Some ((h, sp), 0)" "bp_end (sp_allocator sp) < bp_top (sp_allocator sp) + n"
proof -
  note d = space_atD [OF at]
  show ?thesis
  proof (cases rule: Allocator_Allocate_spec [OF d(2) n])
    case (1 h' al' a B' L')
    let ?sp = "sp\<lparr>sp_allocator := al'\<rparr>"
    have perm: "mset ((a, n) # pending h sp live @ live) = mset (pending h sp live @ (a, n) # live)" by simp
    note same = new_object_elsewhere [OF at 1(5,3)]
    have "space_at h' B' L' (sp\<lparr>sp_allocator := al', liveObjectSize := of_nat (bytes ((a, n) # live))\<rparr>) ((a, n) # live)"
      using 1(3,4) allocator_perm [OF perm] stock_perm [OF perm] by (intro space_at_core [OF at 1(5) _ _ 1(7)] same) simp_all
    moreover have "sp\<lparr>sp_allocator := al', liveObjectSize := of_nat (bytes ((a, n) # live))\<rparr> = IncreaseLiveObjectSize (of_nat n) ?sp"
      using d(3) by (simp add: IncreaseLiveObjectSize_def add.commute)
    ultimately have at': "space_at h' B' L' (IncreaseLiveObjectSize (of_nat n) ?sp) ((a, n) # live)" by simp
    have dom: "ObjectAddressToRange a \<in> dom (regions h')" by (rule live_region(1) [OF 1(3), of a n]) simp
    have mc: "marks_clear X h \<longrightarrow> marks_clear X h'" using marks_clear_core [OF 1(5)] by blast
    have mem: "memory h' i = memory h i" if "in_pieces live i" for i using 1(6) [of i] that by (auto simp: in_pieces_def)
    show ?thesis
    proof (rule got)
      show "allocator_Allocate n (h, sp) = Some ((h', ?sp), a)" using 1(1) by (simp add: allocator_Allocate_def)
      show "\<exists>h2. count_object env n a (h', ?sp) = (h2, IncreaseLiveObjectSize (of_nat n) ?sp) \<and>
          space_at h2 B' L' (IncreaseLiveObjectSize (of_nat n) ?sp) ((a, n) # live) \<and> memory h2 = memory h' \<and> (marks_clear X h \<longrightarrow> marks_clear X h2)" for env
        using count_object_spec [OF at' dom, of env] mc by blast
    qed (use 1(2) mem same in simp_all)
  next
    case 2
    moreover have "sp\<lparr>sp_allocator := sp_allocator sp\<rparr> = sp" by simp
    ultimately show ?thesis using none by (simp add: allocator_Allocate_def)
  qed
qed

section \<open>Writes of the program\<close>

lemma write_live:
  assumes at: "space_at h B L sp live" and i: "in_pieces live i"
  shows "space_at (store i v h) B L sp live" "marks_clear X (store i v h) = marks_clear X h"
proof -
  note d = space_atD [OF at]
  note D = allocator_okD [OF d(2)]
  have nb: "\<not> in_blocks h B i"
    by (rule in_pieces_blocks [OF D(3)]) (use i in \<open>auto simp: in_pieces_def\<close>)
  then have same: "same_blocks B h (store i v h)"
    by (auto simp: same_blocks_def in_blocks_def simp del: split_paired_All split_paired_Ex)
  have "parcelled (store i v h) B (freeList (sp_allocator sp)) L (uncollected sp) (bump_piece (sp_allocator sp) @ pending h sp live @ live)"
    by (rule parcelled_frame [OF D(1) _ same, where w = "list_wasted (freeList (sp_allocator sp))"]) simp_all
  then have al: "allocator_ok (store i v h) B (sp_allocator sp) L (uncollected sp) (pending h sp live @ live)"
    using d(2) by (simp add: allocator_ok_def addresses_ok_def)
  have "kept (uncollected sp) h B (store i v h) B"
    by (rule keptI) (use same_blocks_cong(1) [OF D(2) _ same] in \<open>auto simp: region_at_def\<close>)
  then have "space_at (store i v h) B L (sp\<lparr>sp_allocator := sp_allocator sp, liveObjectSize := of_nat (bytes live)\<rparr>) live"
    using space_at_core [OF at _ al] by simp
  then show "space_at (store i v h) B L sp live" unfolding d(3) [symmetric] by simp
  show "marks_clear X (store i v h) = marks_clear X h" by (simp add: marks_clear_def)
qed

end
