(* ===== verification/Free_List_Collect.thy ===== *)
theory Free_List_Collect
  imports Allocator_Invariant
begin

text \<open>
  Taking the blocks of a swept region over into the free list (\<open>FreeListAllocator::CollectFreeObjectSet\<close>): every
  set of the region that has blocks is linked, and its bytes are counted as available, the lost bytes of the region as lost.
\<close>

lemma add_sets:
  assumes "blocks_ok h B" "list_ok h B fl L" "distinct ps"
    "\<forall>p \<in> set ps. valid_ptr h p \<and> set_at h p \<noteq> None \<and> p \<notin> set (L (snd p))"
  shows "\<exists>h' fl' L'. fold (\<lambda>p (h, fl). if FreeObjectSet_Empty (the_set h p) then (h, fl) else AddSet p h fl) ps (h, fl) = (h', fl') \<and>
    relinked h h' \<and> list_ok h' B fl' L' \<and> (\<forall>u. set (L' u) = set (L u) \<union> {p \<in> set ps. snd p = u \<and> B p \<noteq> []}) \<and>
    list_wasted fl' = list_wasted fl \<and> list_available fl' = list_available fl + of_nat (\<Sum>p\<leftarrow>ps. set_size h B p)"
  using assms
proof (induction ps arbitrary: h fl L)
  case Nil
  then show ?case by (intro exI [of _ h] exI [of _ fl] exI [of _ L]) simp
next
  case (Cons p ps)
  obtain f where p: "valid_ptr h p" "set_at h p = Some f" "p \<notin> set (L (snd p))" using Cons.prems by auto
  have links: "list_links h fl L" using Cons.prems(2) by (simp add: list_ok_def)
  have empty: "FreeObjectSet_Empty (the_set h p) \<longleftrightarrow> B p = []"
    using set_available_eq(3) [OF Cons.prems(1) p(1,2)] p(2) by (simp add: FreeObjectSet_Empty_def the_set_simps)
  let ?step = "\<lambda>p (h, fl). if FreeObjectSet_Empty (the_set h p) then (h, fl) else AddSet p h fl"
  show ?case
  proof (cases "B p = []")
    case True
    have "\<exists>h' fl' L'. fold ?step ps (h, fl) = (h', fl') \<and> relinked h h' \<and> list_ok h' B fl' L' \<and>
        (\<forall>u. set (L' u) = set (L u) \<union> {q \<in> set ps. snd q = u \<and> B q \<noteq> []}) \<and>
        list_wasted fl' = list_wasted fl \<and> list_available fl' = list_available fl + of_nat (\<Sum>p\<leftarrow>ps. set_size h B p)"
      using Cons.prems by (intro Cons.IH) auto
    then obtain h' fl' L' where IH: "fold ?step ps (h, fl) = (h', fl')" "relinked h h'" "list_ok h' B fl' L'"
      "\<forall>u. set (L' u) = set (L u) \<union> {q \<in> set ps. snd q = u \<and> B q \<noteq> []}" "list_wasted fl' = list_wasted fl"
      "list_available fl' = list_available fl + of_nat (\<Sum>p\<leftarrow>ps. set_size h B p)" by metis
    have "\<forall>u. set (L' u) = set (L u) \<union> {q \<in> set (p # ps). snd q = u \<and> B q \<noteq> []}" using IH(4) True by auto
    then show ?thesis using IH True empty by (intro exI [of _ h'] exI [of _ fl'] exI [of _ L']) (simp add: set_size_def)
  next
    case False
    have t: "snd p < NUMBER_OF_SETS" using p(1) blocks_okD(1) [OF Cons.prems(1)] by (auto simp: valid_ptr_def region_ok_def)
    have new: "\<not> isAdded f" using list_linksD(10) [OF links p(1,2)] p(3) by simp
    let ?L = "L(snd p := p # L (snd p))"
    obtain h1 fl1 where add: "AddSet p h fl = (h1, fl1)" "relinked h h1" "list_links h1 fl1 ?L"
      "list_available fl1 = list_available fl + set_available f" "list_wasted fl1 = list_wasted fl"
      using AddSet_spec [OF Cons.prems(1) links p(1,2) refl t new False] by metis
    note rb = relinked_blocks [OF add(2) Cons.prems(1)]
    have av: "set_available f = of_nat (set_size h B p)" using set_available_eq(1) [OF Cons.prems(1) p(1,2)] by simp
    have "list_available fl1 = of_nat (list_size h1 B ?L)"
      using add(4) av list_size_add [OF links t, of B p] Cons.prems(2) rb(4) p(3) by (simp add: list_ok_def)
    moreover have "\<forall>u. \<forall>q \<in> set (?L u). B q \<noteq> []" using Cons.prems(2) False unfolding list_ok_def by auto
    ultimately have lok: "list_ok h1 B fl1 ?L" using add(3) unfolding list_ok_def by blast
    have rest: "\<forall>q \<in> set ps. valid_ptr h1 q \<and> set_at h1 q \<noteq> None \<and> q \<notin> set (?L (snd q))"
    proof
      fix q assume q: "q \<in> set ps"
      then have "valid_ptr h q" "set_at h q \<noteq> None" "q \<notin> set (L (snd q))" "q \<noteq> p" using Cons.prems(3,4) by auto
      moreover have "map_option set_view (set_at h1 q) = map_option set_view (set_at h q)"
        using add(2) unfolding relinked_def by blast
      ultimately show "valid_ptr h1 q \<and> set_at h1 q \<noteq> None \<and> q \<notin> set (?L (snd q))" using rb(5) by auto
    qed
    have "\<exists>h' fl' L'. fold ?step ps (h1, fl1) = (h', fl') \<and> relinked h1 h' \<and> list_ok h' B fl' L' \<and>
        (\<forall>u. set (L' u) = set (?L u) \<union> {q \<in> set ps. snd q = u \<and> B q \<noteq> []}) \<and>
        list_wasted fl' = list_wasted fl1 \<and> list_available fl' = list_available fl1 + of_nat (\<Sum>p\<leftarrow>ps. set_size h1 B p)"
      using Cons.prems(3) by (intro Cons.IH [OF rb(1) lok _ rest]) simp
    then obtain h' fl' L' where IH: "fold ?step ps (h1, fl1) = (h', fl')" "relinked h1 h'" "list_ok h' B fl' L'"
      "\<forall>u. set (L' u) = set (?L u) \<union> {q \<in> set ps. snd q = u \<and> B q \<noteq> []}" "list_wasted fl' = list_wasted fl1"
      "list_available fl' = list_available fl1 + of_nat (\<Sum>p\<leftarrow>ps. set_size h1 B p)" by metis
    have "\<forall>u. set (L' u) = set (L u) \<union> {q \<in> set (p # ps). snd q = u \<and> B q \<noteq> []}" using IH(4) False by auto
    moreover have "fold ?step (p # ps) (h, fl) = (h', fl')" using IH(1) add(1) empty False by simp
    moreover have "relinked h h'" by (rule relinked_trans [OF add(2) IH(2)])
    moreover have "list_available fl' = list_available fl + of_nat (\<Sum>p\<leftarrow>p # ps. set_size h B p)"
      using IH(6) add(4) av rb(3) by simp
    ultimately show ?thesis using IH(3,5) add(5) by (intro exI [of _ h'] exI [of _ fl'] exI [of _ L']) simp
  qed
qed

lemma CollectFreeObjectSet_spec:
  assumes ok: "allocator_ok h B al L U live" and r: "regions h r = Some R" "r \<in> U"
  obtains h' al' L' where "CollectFreeObjectSet r (h, al) = (h', al')" "allocator_ok h' B al' L' (U - {r}) live"
    "stock al' live = stock al live + unlisted_bytes h B r" "same_core h h'" "memory h' = memory h" "kept U h B h' B"
    "bump_piece al' = bump_piece al"
proof -
  note D = allocator_okD [OF ok]
  have bok: "blocks_ok h B" and lok: "list_ok h B (freeList al) L" and li: "listed B L U" and px: "pieces_ok h B (bump_piece al @ live)"
    using D(1) by (simp_all add: parcelled_def)
  have len: "length (freeObjectSets (region_at h r)) = NUMBER_OF_SETS"
    using blocks_okD(1) [OF bok r(1)] r(1) by (simp add: region_ok_def region_at_def)
  let ?ps = "set_ptrs h r"
  have ps: "q \<in> set ?ps \<longleftrightarrow> fst q = r \<and> snd q < NUMBER_OF_SETS \<and> set_at h q \<noteq> None" for q
    by (cases q) (auto simp: set_ptrs_def len)
  have dist: "distinct ?ps" by (simp add: set_ptrs_def distinct_map inj_on_def)
  have new: "\<forall>p \<in> set ?ps. valid_ptr h p \<and> set_at h p \<noteq> None \<and> p \<notin> set (L (snd p))"
  proof
    fix p assume "p \<in> set ?ps"
    then show "valid_ptr h p \<and> set_at h p \<noteq> None \<and> p \<notin> set (L (snd p))"
      using ps [of p] r off_list [OF lok li, of p] len by (auto simp: valid_ptr_def region_at_def)
  qed
  obtain h' fl' L' where a: "fold (\<lambda>p (h, fl). if FreeObjectSet_Empty (the_set h p) then (h, fl) else AddSet p h fl) ?ps (h, freeList al) = (h', fl')"
    "relinked h h'" "list_ok h' B fl' L'" "\<forall>u. set (L' u) = set (L u) \<union> {p \<in> set ?ps. snd p = u \<and> B p \<noteq> []}"
    "list_wasted fl' = list_wasted (freeList al)"
    "list_available fl' = list_available (freeList al) + of_nat (\<Sum>p\<leftarrow>?ps. set_size h B p)"
    using add_sets [OF bok lok dist new] by (elim exE conjE) (rule that)
  note rb = relinked_blocks [OF a(2) bok]
  have core: "same_core h h'" and mem: "memory h' = memory h" using a(2) by (simp_all add: relinked_def)
  have ws: "wasted_same h h'" by (rule same_core_wasted [OF a(2)])
  let ?al = "al\<lparr>freeList := fl'\<lparr>list_wasted := list_wasted fl' + wasted (region_at h' r)\<rparr>\<rparr>"
  have none: "B q = []" if "fst q = r" "q \<notin> set ?ps" for q
  proof (cases "valid_ptr h q")
    case True
    then have "snd q < NUMBER_OF_SETS" using that(1) r(1) len by (simp add: valid_ptr_def region_at_def)
    then show ?thesis using blocks_okD(2) [OF bok True] that ps [of q] by (simp add: set_ok_def)
  next
    case False
    then show ?thesis using bok unfolding blocks_ok_def by blast
  qed
  have "listed B L' (U - {r})" unfolding listed_def
  proof (intro allI impI)
    fix q assume q: "B q \<noteq> []"
    have "q \<in> set (L' (snd q)) \<longleftrightarrow> q \<in> set (L (snd q)) \<or> q \<in> set ?ps" using a(4) q by auto
    also have "\<dots> \<longleftrightarrow> fst q \<notin> U \<or> fst q = r"
      using li q none [of q] ps [of q] unfolding listed_def by metis
    finally show "q \<in> set (L' (snd q)) \<longleftrightarrow> fst q \<notin> U - {r}" by auto
  qed
  moreover have "pieces_ok h' B (bump_piece al @ live)"
  proof (rule pieces_cong [OF px core])
    fix a n assume "(a, n) \<in> set (bump_piece al @ live)"
    then have "apart h B a n" using px unfolding pieces_ok_def piece_ok_def by fast
    then show "apart h' B a n" by (simp add: apart_def rb(2))
  qed
  moreover have "list_ok h' B (freeList ?al) L'" using a(3) by (simp add: list_ok_def)
  ultimately have "parcelled h' B (freeList ?al) L' (U - {r}) (bump_piece ?al @ live)" using rb(1) by (simp add: parcelled_def)
  then have "allocator_ok h' B ?al L' (U - {r}) live"
    using D(4,5,8) addresses_cong [OF D(6) core] by (auto simp: allocator_ok_def)
  moreover have "(\<Sum>p\<leftarrow>?ps. set_size h B p) = (\<Sum>t < NUMBER_OF_SETS. set_size h B (r, t))"
  proof -
    have "(\<Sum>p\<leftarrow>?ps. set_size h B p) = (\<Sum>p \<in> set ?ps. set_size h B p)" using dist by (rule sum_list_distinct_conv_sum_set)
    also have "\<dots> = (\<Sum>p \<in> Pair r ` {..<NUMBER_OF_SETS}. set_size h B p)"
      by (rule sum.mono_neutral_left) (use ps none in \<open>auto simp: set_size_def\<close>)
    also have "\<dots> = (\<Sum>t < NUMBER_OF_SETS. set_size h B (r, t))" by (simp add: sum.reindex inj_on_def)
    finally show ?thesis .
  qed
  then have "stock ?al live = stock al live + unlisted_bytes h B r"
    using a(5,6) wasted_region [OF ws] by (simp add: stock_def unlisted_bytes_def del: of_nat_sum)
  moreover have "kept U h B h' B" by (rule keptI) (simp_all add: rb(2) wasted_region [OF ws])
  moreover have "CollectFreeObjectSet r (h, al) = (h', ?al)" using a(1) by (simp add: CollectFreeObjectSet_def)
  ultimately show ?thesis using that [of h' ?al L'] core mem by simp
qed

end
