(* ===== verification/Space_Background.thy ===== *)
theory Space_Background
  imports Space_Invariant Free_List_Collect
begin

text \<open>
  Sweeping while the program runs: a background task or the main thread sweeps the regions on the sweeping list
  one at a time (\<open>SparseSpace::AsyncSweep\<close>), the main thread collects what background tasks have swept
  (\<open>TryFillSweptRegion\<close>), and \<open>EnsureTaskFinished\<close> brings a sweep to its end.  Each step keeps the
  invariant and the memory of live objects.
\<close>

section \<open>The lists of regions\<close>

lemma shape_lists:
  assumes "space_shape h sp" "distinct (xs @ ys)" "set (xs @ ys) \<subseteq> uncollected sp"
  shows "space_shape h (sp\<lparr>sweepingList := xs, sweptList := ys\<rparr>)"
proof (rule space_shapeI)
  note d = space_shapeD [OF assms(1)]
  show "uncollected (sp\<lparr>sweepingList := xs, sweptList := ys\<rparr>) \<subseteq> set (regionList (sp\<lparr>sweepingList := xs, sweptList := ys\<rparr>))"
    using assms(3) d(7) by (auto simp: uncollected_def)
  show "uncollected (sp\<lparr>sweepingList := xs, sweptList := ys\<rparr>) = {}" if "sweepState (sp\<lparr>sweepingList := xs, sweptList := ys\<rparr>) \<noteq> SWEEPING"
    using assms(3) d(8) that by (auto simp: uncollected_def)
qed (use space_shapeD [OF assms(1)] assms(2) in simp_all)

lemma pending_swept [simp]: "pending h (sp\<lparr>sweptList := ys\<rparr>) live = pending h sp live"
  by (simp add: pending_def)

lemma harmless_flags: "harmless SetSwept" "harmless ResetSwept" "harmless MergeRSetForConcurrentSweeping"
  by (auto simp: harmless_def SetSwept_def ResetSwept_def MergeRSetForConcurrentSweeping_def layout_def split: option.split)

lemma gap_not_live:
  assumes at: "space_at h B L sp live" and r: "r \<in> set (sweepingList sp)" and i: "in_pieces live i"
  shows "\<not> in_pieces (region_gaps h live r) i"
proof
  assume "in_pieces (region_gaps h live r) i"
  then obtain b m where b: "(b, m) \<in> set (pending h sp live)" "b \<le> i" "i < b + m" using r by (auto simp: in_pieces_def pending_def)
  obtain a n where a: "(a, n) \<in> set live" "a \<le> i" "i < a + n" using i by (auto simp: in_pieces_def)
  have "\<forall>x \<in> set (pending h sp live). \<forall>y \<in> set live. apart_from x y"
    using space_pieces(2) [OF at] by (simp add: pieces_ok_def sorted_wrt_append)
  then have "apart_from (b, m) (a, n)" using a(1) b(1) by blast
  then show False using a b by (auto simp: disj_def)
qed

section \<open>Collecting a swept region\<close>

lemma collect_swept_spec:
  assumes at: "space_at h B L sp live" and rs: "sweptList sp = rs @ [r]"
  obtains h' al' L' where "collect_swept r (h, sp\<lparr>sweptList := rs\<rparr>) = (h', sp\<lparr>sweptList := rs, sp_allocator := al'\<rparr>)"
    "space_at h' B L' (sp\<lparr>sweptList := rs, sp_allocator := al'\<rparr>) live" "memory h' = memory h" "marks_clear X h \<Longrightarrow> marks_clear X h'"
proof -
  note d = space_atD [OF at] and sh = space_shapeD [OF space_atD(1) [OF at]]
  have r: "r \<in> uncollected sp" "r \<notin> set rs" "r \<notin> set (sweepingList sp)" using rs sh(6) by (auto simp: uncollected_def)
  then obtain R where R: "regions h r = Some R" using sh(2,7) by blast
  let ?live = "pending h sp live @ live" and ?al = "sp_allocator sp"
  obtain h1 al' L' where c: "CollectFreeObjectSet r (h, ?al) = (h1, al')" "allocator_ok h1 B al' L' (uncollected sp - {r}) ?live"
    "stock al' ?live = stock ?al ?live + unlisted_bytes h B r" "same_core h h1" "memory h1 = memory h" "kept (uncollected sp) h B h1 B"
    "bump_piece al' = bump_piece ?al"
    using CollectFreeObjectSet_spec [OF d(2) R r(1)] by metis
  let ?sp = "sp\<lparr>sweptList := rs, sp_allocator := al'\<rparr>"
  have U: "uncollected ?sp = uncollected sp - {r}" using rs r by (auto simp: uncollected_def)
  have "space_shape h (sp\<lparr>sweepingList := sweepingList sp, sweptList := rs\<rparr>)"
    using sh(6) rs by (intro shape_lists [OF d(1)]) (auto simp: uncollected_def)
  from shape_core [OF this c(4), where al = al' and x = "liveObjectSize sp"] have shape: "space_shape h1 ?sp" by simp
  have p: "pending h1 ?sp live = pending h sp live" using pending_core [OF d(1) c(4), of live live] by simp
  have "(\<Sum>q \<in> set (sweptList sp). unlisted_bytes h B q) = unlisted_bytes h B r + (\<Sum>q \<in> set rs. unlisted_bytes h1 B q)"
    using rs r(2) c(6) by (simp add: kept_def uncollected_def add.commute)
  then have at1: "space_at h1 B L' ?sp live"
    using d(3-5) c(2,3,6) ready_core [OF c(4) d(6) refl] p U shape
    by (intro space_atI) (auto simp: kept_def uncollected_def)
  have dom1: "r \<in> dom (regions h1)" using R same_core_dom [OF c(4)] by auto
  note u1 = space_at_update [OF at1 dom1 harmless_flags(2)]
  have dom2: "r \<in> dom (regions (update_region r ResetSwept h1))" by (simp add: update_region_def)
  note u2 = space_at_update [OF u1(1) dom2 harmless_flags(3)]
  show ?thesis
  proof (rule that)
    show "collect_swept r (h, sp\<lparr>sweptList := rs\<rparr>) =
        (update_region r MergeRSetForConcurrentSweeping (update_region r ResetSwept h1), ?sp)"
      using c(1) by (simp add: collect_swept_def on_allocator_def on_region_def)
    show "marks_clear X h \<Longrightarrow> marks_clear X (update_region r MergeRSetForConcurrentSweeping (update_region r ResetSwept h1))"
      using marks_clear_core [OF c(4)] u1(2) u2(2) by blast
  qed (use u2(1) c(5) in simp_all)
qed

lemma fill_swept_spec:
  assumes "space_at h B L sp live"
  shows "\<exists>h' al' L'. fill_swept (h, sp) = (h', sp\<lparr>sweptList := [], sp_allocator := al'\<rparr>) \<and>
    space_at h' B L' (sp\<lparr>sweptList := [], sp_allocator := al'\<rparr>) live \<and> memory h' = memory h \<and> (marks_clear X h \<longrightarrow> marks_clear X h')"
  using assms
proof (induction "length (sweptList sp)" arbitrary: h L sp)
  case 0
  then have "sp\<lparr>sweptList := [], sp_allocator := sp_allocator sp\<rparr> = sp" "fill_swept (h, sp) = (h, sp)"
    by (cases sp, simp, simp add: GetSweptRegionSafe_def)
  then show ?case using 0 by (intro exI [of _ h] exI [of _ "sp_allocator sp"] exI [of _ L]) metis
next
  case (Suc n)
  then obtain rs r where rs: "sweptList sp = rs @ [r]" by (metis append_butlast_last_id length_0_conv nat.distinct(1))
  obtain h1 al1 L1 where c: "collect_swept r (h, sp\<lparr>sweptList := rs\<rparr>) = (h1, sp\<lparr>sweptList := rs, sp_allocator := al1\<rparr>)"
    "space_at h1 B L1 (sp\<lparr>sweptList := rs, sp_allocator := al1\<rparr>) live" "memory h1 = memory h" "marks_clear X h \<Longrightarrow> marks_clear X h1"
    using collect_swept_spec [OF Suc.prems rs] by metis
  have "n = length (sweptList (sp\<lparr>sweptList := rs, sp_allocator := al1\<rparr>))" using Suc.hyps(2) rs by simp
  from Suc.hyps(1) [OF this c(2)] obtain h' al' L' where
    "fill_swept (h1, sp\<lparr>sweptList := rs, sp_allocator := al1\<rparr>) = (h', sp\<lparr>sweptList := [], sp_allocator := al'\<rparr>)"
    "space_at h' B L' (sp\<lparr>sweptList := [], sp_allocator := al'\<rparr>) live" "memory h' = memory h1" "marks_clear X h1 \<longrightarrow> marks_clear X h'"
    by auto
  moreover have "fill_swept (h, sp) = fill_swept (h1, sp\<lparr>sweptList := rs, sp_allocator := al1\<rparr>)"
    using rs c(1) by (subst fill_swept.simps) (simp add: GetSweptRegionSafe_def)
  ultimately show ?case using c(3,4) by (intro exI [of _ h'] exI [of _ al'] exI [of _ L']) simp
qed

section \<open>Sweeping a region of the sweeping list\<close>

definition sizes_known :: "environment \<Rightarrow> heap \<Rightarrow> piece list \<Rightarrow> bool" where
  "sizes_known env h M \<longleftrightarrow> (\<forall>(a, n) \<in> set M. \<forall>m. (\<forall>i. in_pieces M i \<longrightarrow> m i = memory h i) \<longrightarrow> SizeFromJSHClass env m a = n)"

definition marked_live :: "environment \<Rightarrow> heap \<Rightarrow> space \<Rightarrow> piece list \<Rightarrow> piece list \<Rightarrow> bool" where
  "marked_live env h sp live M \<longleftrightarrow> sizes_known env h M \<and> set M \<subseteq> set live \<and>
     (\<forall>r \<in> set (sweepingList sp). set (objs_in live r) \<subseteq> set M)"

lemma sizes_known_memory:
  assumes "sizes_known env h M" "\<And>i. in_pieces M i \<Longrightarrow> memory h' i = memory h i"
  shows "sizes_known env h' M"
  using assms unfolding sizes_known_def by fastforce

lemma in_pieces_mono: "set M \<subseteq> set live \<Longrightarrow> in_pieces M i \<Longrightarrow> in_pieces live i"
  by (auto simp: in_pieces_def)

lemma marked_live_memory:
  assumes "marked_live env h sp live M" "\<And>i. in_pieces live i \<Longrightarrow> memory h' i = memory h i" "set (sweepingList sp') \<subseteq> set (sweepingList sp)"
  shows "marked_live env h' sp' live M"
  using assms sizes_known_memory [of env h M h'] in_pieces_mono [of M live] unfolding marked_live_def by blast

lemma uncollect_region:
  assumes at: "space_at h B L sp live" and r: "r \<in> set (sweepingList sp)"
  shows "allocator_ok h B (sp_allocator sp) L (uncollected sp - {r}) (pending h sp live @ live)"
proof -
  note d = space_atD [OF at] and sh = space_shapeD [OF space_atD(1) [OF at]] and px = space_pieces [OF at]
  have "r \<in> dom (regions h)" using sh(2,7) r by (auto simp: uncollected_def)
  then obtain R where R: "regions h r = Some R" by blast
  have p2: "pieces_ok h B (pending h sp live @ live)" using px(2) by (auto simp: pieces_ok_def sorted_wrt_append)
  have "B q = []" if "fst q = r" for q by (rule region_no_blocks [OF px(1) p2 R px(3) pending_pieces [OF r] that])
  then have "listed B L (uncollected sp) \<Longrightarrow> listed B L (uncollected sp - {r})" unfolding listed_def by blast
  then show ?thesis using d(2) by (auto simp: allocator_ok_def parcelled_def)
qed

lemma FreeRegion_space:
  assumes at: "space_at h B L sp live" and rs: "sweepingList sp = rs @ [r]" and M: "marked_live env h sp live M"
    and U: "U = (if isMain then uncollected sp - {r} else uncollected sp)"
  shows "\<exists>B'. swept U r isMain B (h, sp\<lparr>sweepingList := rs\<rparr>) (region_gaps h live r) (pending h (sp\<lparr>sweepingList := rs\<rparr>) live @ live) B'
    (FreeRegion env r isMain (h, sp\<lparr>sweepingList := rs\<rparr>))"
proof -
  note d = space_atD [OF at] and sh = space_shapeD [OF space_atD(1) [OF at]] and px = space_pieces [OF at]
  have r: "r \<in> set (sweepingList sp)" "r \<in> uncollected sp" using rs by (auto simp: uncollected_def)
  obtain R where R: "regions h r = Some R" "bitsetSize R = 4 * length (markGCBitset R)"
    "map (\<lambda>k. r + 8 * k) (marked (markGCBitset R)) = map fst (objs_in live r)" using d(6) [OF r(1)] by (auto simp: ready_def)
  have g: "region_gaps h live r = gaps (region_begin R) (objs_in live r) (region_end R)" using R(1) by (simp add: region_gaps_def region_at_def)
  have t: "tiled (region_begin R) (objs_in live r) (region_end R)" by (rule objs_in_tiled [OF px(3,1) R(1)])
  have perm: "mset (pending h sp live @ live) = mset (region_gaps h live r @ pending h (sp\<lparr>sweepingList := rs\<rparr>) live @ live)"
    using rs by (simp add: pending_def)
  have "allocator_ok h B (sp_allocator sp) L U (pending h sp live @ live)" using d(2) uncollect_region [OF at r(1)] U by simp
  then have ok: "allocator_ok h B (sp_allocator (sp\<lparr>sweepingList := rs\<rparr>)) L U
      (gaps (region_begin R) (objs_in live r) (region_end R) @ pending h (sp\<lparr>sweepingList := rs\<rparr>) live @ live)"
    using allocator_perm [OF perm] g by simp
  have "\<not> in_pieces (region_gaps h live r) i" if "in_pieces M i" for i
    using gap_not_live [OF at r(1) in_pieces_mono [OF _ that]] M by (auto simp: marked_live_def)
  then have K: "\<forall>i. in_pieces M i \<longrightarrow> memory h i = memory h i \<and> \<not> in_pieces (gaps (region_begin R) (objs_in live r) (region_end R)) i"
    using g by simp
  have sz: "\<forall>(a, n) \<in> set (objs_in live r). \<forall>m. (\<forall>i. in_pieces M i \<longrightarrow> m i = memory h i) \<longrightarrow> SizeFromJSHClass env m a = n"
    using M r(1) unfolding marked_live_def sizes_known_def by blast
  have "r \<in> U \<longleftrightarrow> \<not> isMain" using U r(2) by simp
  from FreeRegion_spec [OF ok R(1) t this R(2,3) sz K] show ?thesis unfolding g .
qed

lemma sweep_async_spec:
  assumes at: "space_at h B L sp live" and rs: "sweepingList sp = rs @ [r]" and M: "marked_live env h sp live M"
  obtains h' al' B' L' where "sweep_async env isMain r (h, sp\<lparr>sweepingList := rs\<rparr>) =
      (h', sp\<lparr>sweepingList := rs, sweptList := (if isMain then sweptList sp else sweptList sp @ [r]), sp_allocator := al'\<rparr>)"
    "space_at h' B' L' (sp\<lparr>sweepingList := rs, sweptList := (if isMain then sweptList sp else sweptList sp @ [r]), sp_allocator := al'\<rparr>) live"
    "\<And>i. in_pieces live i \<Longrightarrow> memory h' i = memory h i" "marks_clear X h \<Longrightarrow> marks_clear X h'"
proof -
  note d = space_atD [OF at] and sh = space_shapeD [OF space_atD(1) [OF at]] and px = space_pieces [OF at]
  have r: "r \<in> uncollected sp" "r \<notin> set rs" "r \<notin> set (sweptList sp)" "r \<in> set (sweepingList sp)" using rs sh(6) by (auto simp: uncollected_def)
  let ?old = "sp\<lparr>sweepingList := rs\<rparr>" and ?sw = "if isMain then sweptList sp else sweptList sp @ [r]"
    and ?U = "if isMain then uncollected sp - {r} else uncollected sp" and ?gs = "region_gaps h live r"
  obtain B' where sw: "swept ?U r isMain B (h, ?old) ?gs (pending h ?old live @ live) B' (FreeRegion env r isMain (h, ?old))"
    using FreeRegion_space [OF at rs M refl] by blast
  obtain h1 sp1 where f: "FreeRegion env r isMain (h, ?old) = (h1, sp1)" by (cases "FreeRegion env r isMain (h, ?old)")
  obtain fl' L' where s: "sp1 = ?old\<lparr>sp_allocator := (sp_allocator sp)\<lparr>freeList := fl'\<rparr>\<rparr>"
    "allocator_ok h1 B' (sp_allocator sp1) L' ?U (pending h ?old live @ live)" "same_core h h1"
    "\<forall>i. \<not> in_pieces ?gs i \<longrightarrow> memory h1 i = memory h i" "kept (?U - {r}) h B h1 B'"
    "freed_bytes isMain r h1 B' fl' = freed_bytes isMain r h B (freeList (sp_allocator sp)) + of_nat (bytes ?gs)"
    using sw f by (auto simp: swept_def)
  let ?al = "(sp_allocator sp)\<lparr>freeList := fl'\<rparr>"
  let ?sp = "sp\<lparr>sweepingList := rs, sweptList := ?sw, sp_allocator := ?al\<rparr>"
  have U: "uncollected ?sp = ?U" using rs r by (auto simp: uncollected_def)
  have "space_shape h (sp\<lparr>sweepingList := rs, sweptList := ?sw\<rparr>)"
    using sh(6) rs by (intro shape_lists [OF d(1)]) (auto simp: uncollected_def)
  from shape_core [OF this s(3), where al = ?al and x = "liveObjectSize sp"] have shape: "space_shape h1 ?sp" by simp
  have "space_shape h ?old" using sh(6) rs shape_lists [OF d(1), of rs "sweptList sp"] by (auto simp: uncollected_def)
  then have "pending h1 ?old live = pending h ?old live" by (rule pending_core [OF _ s(3)]) simp
  then have p: "pending h1 ?sp live = pending h ?old live" by (simp add: pending_def)
  have bytes: "bytes (pending h sp live @ live) = bytes ?gs + bytes (pending h ?old live @ live)" using rs by (simp add: pending_def)
  have kept: "unlisted_bytes h1 B' q = unlisted_bytes h B q" if "q \<in> set rs \<union> set (sweptList sp)" for q
    using that s(5) r rs by (auto simp: kept_def uncollected_def split: if_splits)
  have zero: "unlisted_bytes h B r = 0" by (rule d(5) [OF r(4)])
  have "objectSize sp = stock ?al (pending h ?old live @ live) + (\<Sum>q \<in> set ?sw. unlisted_bytes h1 B' q)"
  proof (cases isMain)
    case True
    then have "list_available fl' + list_wasted fl' = list_available (freeList (sp_allocator sp)) + list_wasted (freeList (sp_allocator sp)) + of_nat (bytes ?gs)"
      using s(6) by (simp add: freed_bytes_def)
    moreover have "(\<Sum>q \<in> set (sweptList sp). unlisted_bytes h1 B' q) = (\<Sum>q \<in> set (sweptList sp). unlisted_bytes h B q)"
      using kept by (intro sum.cong) auto
    ultimately show ?thesis using d(4) True bytes by (simp add: stock_def)
  next
    case False
    then have eq: "list_available fl' + list_wasted fl' + unlisted_bytes h1 B' r =
        list_available (freeList (sp_allocator sp)) + list_wasted (freeList (sp_allocator sp)) + of_nat (bytes ?gs)"
      using s(6) zero by (simp add: freed_bytes_def)
    have "(\<Sum>q \<in> set ?sw. unlisted_bytes h1 B' q) = unlisted_bytes h1 B' r + (\<Sum>q \<in> set (sweptList sp). unlisted_bytes h B q)"
      using kept False r(3) by (simp add: sum.cong [OF refl, of "set (sweptList sp)" "unlisted_bytes h1 B'" "unlisted_bytes h B"])
    moreover have "stock (sp_allocator sp) (pending h sp live @ live) =
        list_available (freeList (sp_allocator sp)) + list_wasted (freeList (sp_allocator sp)) + of_nat (bytes ?gs) +
        of_nat (bytes (bump_piece (sp_allocator sp)) + bytes (pending h ?old live @ live))"
      using bytes by (simp add: stock_def)
    ultimately show ?thesis using d(4) eq [symmetric] by (simp add: stock_def)
  qed
  then have at1: "space_at h1 B' L' ?sp live"
    using d(3) s(1,2) p U shape kept d(5) ready_core [OF s(3) d(6) refl] rs
    by (intro space_atI) auto
  have dom1: "r \<in> dom (regions h1)" using r(1) sh(2,7) same_core_dom [OF s(3)] by auto
  have out: "memory h1 i = memory h i" if "in_pieces live i" for i using s(4) gap_not_live [OF at r(4) that] by simp
  have mc: "marks_clear X h \<Longrightarrow> marks_clear X h1" by (rule marks_clear_core [OF s(3)])
  show ?thesis
  proof (cases isMain)
    case True
    show ?thesis
    proof (rule that)
      show "sweep_async env isMain r (h, ?old) = (update_region r MergeRSetForConcurrentSweeping h1, ?sp)"
        using f s(1) True by (simp add: sweep_async_def on_region_def)
      show "space_at (update_region r MergeRSetForConcurrentSweeping h1) B' L' ?sp live"
        by (rule space_at_update(1) [OF at1 dom1 harmless_flags(3)])
    qed (use out mc space_at_update(2) [OF at1 dom1 harmless_flags(3)] in simp_all)
  next
    case False
    show ?thesis
    proof (rule that)
      show "sweep_async env isMain r (h, ?old) = (update_region r SetSwept h1, ?sp)"
        using f s(1) False by (simp add: sweep_async_def on_region_def AddSweptRegionSafe_def)
      show "space_at (update_region r SetSwept h1) B' L' ?sp live"
        by (rule space_at_update(1) [OF at1 dom1 harmless_flags(1)])
    qed (use out mc space_at_update(2) [OF at1 dom1 harmless_flags(1)] in simp_all)
  qed
qed

section \<open>A whole sweep\<close>

lemma AsyncSweep_main:
  assumes "space_at h B L sp live" "marked_live env h sp live M"
  shows "\<exists>h' al' B' L'. AsyncSweep env True (h, sp) = (h', sp\<lparr>sweepingList := [], sp_allocator := al'\<rparr>) \<and>
    space_at h' B' L' (sp\<lparr>sweepingList := [], sp_allocator := al'\<rparr>) live \<and> (\<forall>i. in_pieces live i \<longrightarrow> memory h' i = memory h i) \<and>
    (marks_clear X h \<longrightarrow> marks_clear X h')"
  using assms
proof (induction "length (sweepingList sp)" arbitrary: h B L sp)
  case 0
  then have "sp\<lparr>sweepingList := [], sp_allocator := sp_allocator sp\<rparr> = sp" "AsyncSweep env True (h, sp) = (h, sp)"
    by (cases sp, simp, simp add: GetSweepingRegionSafe_def)
  then show ?case using 0 by (intro exI [of _ h] exI [of _ "sp_allocator sp"] exI [of _ B] exI [of _ L]) metis
next
  case (Suc n)
  then obtain rs r where rs: "sweepingList sp = rs @ [r]" by (metis append_butlast_last_id length_0_conv nat.distinct(1))
  obtain h1 al1 B1 L1 where s: "sweep_async env True r (h, sp\<lparr>sweepingList := rs\<rparr>) = (h1, sp\<lparr>sweepingList := rs, sp_allocator := al1\<rparr>)"
    "space_at h1 B1 L1 (sp\<lparr>sweepingList := rs, sp_allocator := al1\<rparr>) live" "\<And>i. in_pieces live i \<Longrightarrow> memory h1 i = memory h i"
    "marks_clear X h \<Longrightarrow> marks_clear X h1"
    by (rule sweep_async_spec [OF Suc.prems(1) rs Suc.prems(2), where isMain = True and X = X]) (use that in simp)
  have n: "n = length (sweepingList (sp\<lparr>sweepingList := rs, sp_allocator := al1\<rparr>))" using Suc.hyps(2) rs by simp
  have "marked_live env h1 (sp\<lparr>sweepingList := rs, sp_allocator := al1\<rparr>) live M"
    by (rule marked_live_memory [OF Suc.prems(2) s(3)]) (use rs in auto)
  from Suc.hyps(1) [OF n s(2) this] obtain h' al' B' L' where
    "AsyncSweep env True (h1, sp\<lparr>sweepingList := rs, sp_allocator := al1\<rparr>) = (h', sp\<lparr>sweepingList := [], sp_allocator := al'\<rparr>)"
    "space_at h' B' L' (sp\<lparr>sweepingList := [], sp_allocator := al'\<rparr>) live" "\<forall>i. in_pieces live i \<longrightarrow> memory h' i = memory h1 i"
    "marks_clear X h1 \<longrightarrow> marks_clear X h'"
    by auto
  moreover have "AsyncSweep env True (h, sp) = AsyncSweep env True (h1, sp\<lparr>sweepingList := rs, sp_allocator := al1\<rparr>)"
    using rs s(1) by (subst AsyncSweep.simps) (simp add: GetSweepingRegionSafe_def)
  ultimately show ?case using s(3,4) by (intro exI [of _ h'] exI [of _ al'] exI [of _ B'] exI [of _ L']) simp
qed

text \<open>One region swept by a background task.\<close>

definition background_step :: "environment \<Rightarrow> space_state \<Rightarrow> space_state" where
  "background_step env = (\<lambda>(h, sp). (case GetSweepingRegionSafe sp of
       (None, sp) \<Rightarrow> (h, sp)
     | (Some r, sp) \<Rightarrow> sweep_async env False r (h, sp)))"

lemma background_step_spec:
  assumes at: "space_at h B L sp live" and M: "marked_live env h sp live M"
  shows "\<exists>h' sp' B' L'. background_step env (h, sp) = (h', sp') \<and> space_at h' B' L' sp' live \<and> marked_live env h' sp' live M \<and>
    (\<forall>i. in_pieces live i \<longrightarrow> memory h' i = memory h i) \<and> (small_space sp' \<longleftrightarrow> small_space sp) \<and> sweepState sp' = sweepState sp \<and>
    (marks_clear X h \<longrightarrow> marks_clear X h')"
proof (cases "sweepingList sp = []")
  case True
  then show ?thesis using assms by (auto simp: background_step_def GetSweepingRegionSafe_def)
next
  case False
  then obtain rs r where rs: "sweepingList sp = rs @ [r]" by (metis append_butlast_last_id)
  let ?sp = "\<lambda>al. sp\<lparr>sweepingList := rs, sweptList := sweptList sp @ [r], sp_allocator := al\<rparr>"
  obtain h1 al1 B1 L1 where s: "sweep_async env False r (h, sp\<lparr>sweepingList := rs\<rparr>) = (h1, ?sp al1)"
    "space_at h1 B1 L1 (?sp al1) live" "\<And>i. in_pieces live i \<Longrightarrow> memory h1 i = memory h i"
    "marks_clear X h \<Longrightarrow> marks_clear X h1"
    by (rule sweep_async_spec [OF at rs M, where isMain = False and X = X]) (use that in simp)
  have "marked_live env h1 (?sp al1) live M" by (rule marked_live_memory [OF M s(3)]) (use rs in auto)
  moreover have "background_step env (h, sp) = (h1, ?sp al1)" using rs s(1) by (simp add: background_step_def GetSweepingRegionSafe_def)
  ultimately show ?thesis using s(2-4)
    by (intro exI [of _ h1] exI [of _ "?sp al1"] exI [of _ B1] exI [of _ L1]) (simp add: small_space_def)
qed

lemma TryFill_spec:
  assumes at: "space_at h B L sp live"
  obtains b h' al' L' where "TryFillSweptRegion (h, sp) = (b, (h', sp\<lparr>sweptList := [], sp_allocator := al'\<rparr>))"
    "space_at h' B L' (sp\<lparr>sweptList := [], sp_allocator := al'\<rparr>) live" "memory h' = memory h" "marks_clear X h \<longrightarrow> marks_clear X h'"
proof (cases "sweptList sp = []")
  case True
  then have "sp\<lparr>sweptList := [], sp_allocator := sp_allocator sp\<rparr> = sp" by (cases sp) simp
  then show ?thesis using that [of False h "sp_allocator sp" L] at True by (metis TryFillSweptRegion_def snd_conv)
next
  case False
  then show ?thesis using fill_swept_spec [OF at] that [of True] by (auto simp: TryFillSweptRegion_def)
qed

lemma space_at_finished:
  assumes "space_at h B L sp live" "sweepingList sp = []" "sweptList sp = []"
  shows "space_at h B L (sp\<lparr>sweepState := x\<rparr>) live"
proof (rule space_atI)
  note d = space_atD [OF assms(1)]
  have u: "uncollected (sp\<lparr>sweepState := x\<rparr>) = uncollected sp" "pending h (sp\<lparr>sweepState := x\<rparr>) live = pending h sp live"
    by (simp_all add: uncollected_def pending_def)
  have "uncollected (sp\<lparr>sweepState := x\<rparr>) = {}" using assms(2,3) by (simp add: uncollected_def)
  then show "space_shape h (sp\<lparr>sweepState := x\<rparr>)" using space_shapeD [OF d(1)] by (intro space_shapeI) auto
  show "allocator_ok h B (sp_allocator (sp\<lparr>sweepState := x\<rparr>)) L (uncollected (sp\<lparr>sweepState := x\<rparr>)) (pending h (sp\<lparr>sweepState := x\<rparr>) live @ live)"
    using d(2) u by simp
  show "objectSize (sp\<lparr>sweepState := x\<rparr>) = stock (sp_allocator (sp\<lparr>sweepState := x\<rparr>)) (pending h (sp\<lparr>sweepState := x\<rparr>) live @ live) +
      (\<Sum>r \<in> set (sweptList (sp\<lparr>sweepState := x\<rparr>)). unlisted_bytes h B r)" using d(4) u by simp
qed (use assms(2) space_atD(3) [OF assms(1)] in simp_all)

lemma EnsureTaskFinished_spec:
  assumes at: "space_at h B L sp live" and M: "marked_live env h sp live M"
  obtains h' al' B' L' where "EnsureTaskFinished env (h, sp) = (h', sp\<lparr>sweepingList := [], sweptList := [], sweepState := SWEPT, sp_allocator := al'\<rparr>)"
    "space_at h' B' L' (sp\<lparr>sweepingList := [], sweptList := [], sweepState := SWEPT, sp_allocator := al'\<rparr>) live"
    "\<And>i. in_pieces live i \<Longrightarrow> memory h' i = memory h i" "marks_clear X h \<Longrightarrow> marks_clear X h'"
proof -
  obtain h1 al1 B1 L1 where s: "AsyncSweep env True (h, sp) = (h1, sp\<lparr>sweepingList := [], sp_allocator := al1\<rparr>)"
    "space_at h1 B1 L1 (sp\<lparr>sweepingList := [], sp_allocator := al1\<rparr>) live" "\<And>i. in_pieces live i \<Longrightarrow> memory h1 i = memory h i"
    "marks_clear X h \<longrightarrow> marks_clear X h1"
    using AsyncSweep_main [OF at M, where X = X] by auto
  obtain b h' al' L' where f: "TryFillSweptRegion (h1, sp\<lparr>sweepingList := [], sp_allocator := al1\<rparr>) =
      (b, (h', sp\<lparr>sweepingList := [], sweptList := [], sp_allocator := al'\<rparr>))"
    "space_at h' B1 L' (sp\<lparr>sweepingList := [], sweptList := [], sp_allocator := al'\<rparr>) live" "memory h' = memory h1" "marks_clear X h1 \<longrightarrow> marks_clear X h'"
    by (rule TryFill_spec [OF s(2), where X = X]) (use that in simp)
  let ?sp = "sp\<lparr>sweepingList := [], sweptList := [], sweepState := SWEPT, sp_allocator := al'\<rparr>"
  have eq: "EnsureTaskFinished env (h, sp) = (h', ?sp)"
    using s(1) f(1) by (simp add: EnsureTaskFinished_def FinishFillSweptRegion_def)
  have "?sp = (sp\<lparr>sweepingList := [], sweptList := [], sp_allocator := al'\<rparr>)\<lparr>sweepState := SWEPT\<rparr>" by simp
  then have "space_at h' B1 L' ?sp live" using space_at_finished [OF f(2), of SWEPT] by (simp only:) simp
  then show ?thesis using that [of h' al' B1 L'] eq s(3,4) f(3,4) by simp
qed

end
