(* ===== verification/Space_Allocate.thy ===== *)
theory Space_Allocate
  imports Space_Background
begin

text \<open>
  Allocation in a space (\<open>SparseSpace::Allocate\<close>) in every state of the sweeper.  \<open>running\<close> is the invariant of a
  space between two operations: \<open>X\<close> are the regions whose mark bits the last collection has not cleared yet, and
  \<open>M\<close> are the objects it marked.
\<close>

section \<open>Spaces between two operations\<close>

definition running :: "environment \<Rightarrow> nat set \<Rightarrow> piece list \<Rightarrow> heap \<Rightarrow> space \<Rightarrow> piece list \<Rightarrow> bool" where
  "running env X M h sp live \<longleftrightarrow> space_ok h sp live \<and> small_space sp \<and> marks_clear X h \<and> marked_live env h sp live M"

lemma runningD:
  assumes "running env X M h sp live"
  shows "space_ok h sp live" "small_space sp" "marks_clear X h" "marked_live env h sp live M"
  using assms by (simp_all add: running_def)

lemma runningE:
  assumes "running env X M h sp live"
  obtains B L where "space_at h B L sp live"
  using runningD(1) [OF assms] by (auto simp: space_ok_def)

lemma running_flags [simp]:
  "running (env\<lparr>IsConcurrentFullMark := full, IsReadyToMark := rdy\<rparr>) X M h sp live = running env X M h sp live"
  by (simp add: running_def marked_live_def sizes_known_def)

lemma memory_available_flags [simp]:
  "memory_available (env\<lparr>IsConcurrentFullMark := full, IsReadyToMark := rdy\<rparr>) = memory_available env"
  by (simp add: memory_available_def)

lemma running_step:
  assumes run: "running env X M h sp live" and at: "space_at h' B' L' sp' live" and small: "small_space sp'"
    and mem: "\<And>i. in_pieces live i \<Longrightarrow> memory h' i = memory h i" and mc: "marks_clear X h \<longrightarrow> marks_clear X h'"
    and sub: "set (sweepingList sp') \<subseteq> set (sweepingList sp)"
  shows "running env X M h' sp' live"
  using runningD [OF run] at small mc marked_live_memory [OF runningD(4) [OF run] mem sub] by (auto simp: running_def space_ok_def)

lemma background_running:
  assumes run: "running env X M h sp live"
  shows "\<exists>h' sp'. background_step env (h, sp) = (h', sp') \<and> running env X M h' sp' live \<and> (\<forall>i. in_pieces live i \<longrightarrow> memory h' i = memory h i)"
proof -
  note r = runningD [OF run]
  obtain B L where "space_at h B L sp live" by (rule runningE [OF run])
  from background_step_spec [OF this r(4), of X] show ?thesis using r by (auto simp: running_def space_ok_def)
qed

lemma fill_running:
  assumes run: "running env X M h sp live"
  obtains b h' al' where "TryFillSweptRegion (h, sp) = (b, (h', sp\<lparr>sweptList := [], sp_allocator := al'\<rparr>))"
    "running env X M h' (sp\<lparr>sweptList := [], sp_allocator := al'\<rparr>) live" "memory h' = memory h"
proof -
  obtain B L where at: "space_at h B L sp live" by (rule runningE [OF run])
  show ?thesis
  proof (rule TryFill_spec [OF at, where X = X])
    fix b h' al' L' assume f: "TryFillSweptRegion (h, sp) = (b, (h', sp\<lparr>sweptList := [], sp_allocator := al'\<rparr>))"
      "space_at h' B L' (sp\<lparr>sweptList := [], sp_allocator := al'\<rparr>) live" "memory h' = memory h" "marks_clear X h \<longrightarrow> marks_clear X h'"
    have "running env X M h' (sp\<lparr>sweptList := [], sp_allocator := al'\<rparr>) live"
      by (rule running_step [OF run f(2)]) (use f(3,4) runningD(2) [OF run] in \<open>simp_all add: small_space_def\<close>)
    then show ?thesis using f(1,3) by (intro that)
  qed
qed

lemma finish_running:
  assumes run: "running env X M h sp live"
  obtains h' al' where "EnsureTaskFinished env (h, sp) = (h', sp\<lparr>sweepingList := [], sweptList := [], sweepState := SWEPT, sp_allocator := al'\<rparr>)"
    "running env X M h' (sp\<lparr>sweepingList := [], sweptList := [], sweepState := SWEPT, sp_allocator := al'\<rparr>) live"
    "\<And>i. in_pieces live i \<Longrightarrow> memory h' i = memory h i"
proof -
  obtain B L where at: "space_at h B L sp live" by (rule runningE [OF run])
  show ?thesis
  proof (rule EnsureTaskFinished_spec [OF at runningD(4) [OF run], where X = X])
    fix h' al' B' L'
    let ?sp = "sp\<lparr>sweepingList := [], sweptList := [], sweepState := SWEPT, sp_allocator := al'\<rparr>"
    assume f: "EnsureTaskFinished env (h, sp) = (h', ?sp)" "space_at h' B' L' ?sp live"
      "\<And>i. in_pieces live i \<Longrightarrow> memory h' i = memory h i" "marks_clear X h \<Longrightarrow> marks_clear X h'"
    have "running env X M h' ?sp live"
      by (rule running_step [OF run f(2)]) (use f(3,4) runningD(2) [OF run] in \<open>simp_all add: small_space_def\<close>)
    then show ?thesis using f(1,3) by (intro that)
  qed
qed

section \<open>Attempts to allocate\<close>

text \<open>The allocator has returned the object \<open>a\<close>, and the memory of the live objects is \<open>m\<close>.\<close>

definition found :: "environment \<Rightarrow> nat set \<Rightarrow> piece list \<Rightarrow> nat \<Rightarrow> piece list \<Rightarrow> (nat \<Rightarrow> nat) \<Rightarrow> space_state \<Rightarrow> nat \<Rightarrow> bool" where
  "found env X M n live m st a \<longleftrightarrow> a \<noteq> 0 \<and> (\<exists>h' sp'. count_object env n a st = (h', sp') \<and> running env X M h' sp' ((a, n) # live) \<and>
     (\<forall>i. in_pieces live i \<longrightarrow> memory h' i = m i))"

lemma allocate_running:
  assumes run: "running env X M h sp live" and n: "0 < n" "n mod 8 = 0" "n < 2 ^ 63"
  obtains (got) st a where "allocator_Allocate n (h, sp) = Some (st, a)" "found env X M n live (memory h) st a"
  | (none) "allocator_Allocate n (h, sp) = Some ((h, sp), 0)" "bp_end (sp_allocator sp) < bp_top (sp_allocator sp) + n"
proof -
  note r = runningD [OF run]
  obtain B L where at: "space_at h B L sp live" by (rule runningE [OF run])
  show ?thesis
  proof (cases rule: allocate_try [OF at n, where X = X])
    case (1 h' sp' a B' L')
    obtain h2 where c: "count_object env n a (h', sp') = (h2, IncreaseLiveObjectSize (of_nat n) sp')"
      "space_at h2 B' L' (IncreaseLiveObjectSize (of_nat n) sp') ((a, n) # live)" "memory h2 = memory h'" "marks_clear X h \<longrightarrow> marks_clear X h2"
      using 1(3) by blast
    let ?sp = "IncreaseLiveObjectSize (of_nat n) sp'"
    obtain al' where sp': "sp' = sp\<lparr>sp_allocator := al'\<rparr>" using 1(5) by blast
    have sl: "sweepingList ?sp = sweepingList sp" "small_space ?sp"
      using r(2) by (simp_all add: sp' IncreaseLiveObjectSize_def small_space_def)
    have "marked_live env h2 ?sp ((a, n) # live) M"
    proof -
      have "marked_live env h2 sp live M" by (rule marked_live_memory [OF r(4)]) (use c(3) 1(4) in auto)
      then show ?thesis using 1(6) sl(1) unfolding marked_live_def by auto
    qed
    then have "running env X M h2 ?sp ((a, n) # live)" using c(2,4) r(3) sl(2) by (auto simp: running_def space_ok_def)
    then show ?thesis using got [OF 1(1)] 1(2,4) c(1,3) by (auto simp: found_def)
  next
    case 2
    then show ?thesis by (rule none)
  qed
qed

lemma after_sweeping_running:
  assumes run: "running env X M h sp live" and n: "0 < n" "n mod 8 = 0" "n < 2 ^ 63"
  obtains (got) st a where "AllocateAfterSweepingCompleted env n (h, sp) = Some (st, a)" "found env X M n live (memory h) st a"
  | (none) h' sp' where "AllocateAfterSweepingCompleted env n (h, sp) = Some ((h', sp'), 0)" "running env X M h' sp' live"
      "\<And>i. in_pieces live i \<Longrightarrow> memory h' i = memory h i" "CommittedSizeExceed sp' \<longleftrightarrow> CommittedSizeExceed sp"
proof -
  obtain b h1 al1 where f: "TryFillSweptRegion (h, sp) = (b, (h1, sp\<lparr>sweptList := [], sp_allocator := al1\<rparr>))"
    "running env X M h1 (sp\<lparr>sweptList := [], sp_allocator := al1\<rparr>) live" "memory h1 = memory h"
    by (rule fill_running [OF run], rule that)
  let ?one = "sp\<lparr>sweptList := [], sp_allocator := al1\<rparr>"
  have first: "(\<exists>st a. AllocateAfterSweepingCompleted env n (h, sp) = Some (st, a) \<and> found env X M n live (memory h) st a) \<or>
      AllocateAfterSweepingCompleted env n (h, sp) = allocator_Allocate n (EnsureTaskFinished env (h1, ?one))"
  proof (cases b)
    case True
    show ?thesis
      by (rule allocate_running [OF f(2) n]) (use True f(1,3) in \<open>auto simp: AllocateAfterSweepingCompleted_def found_def\<close>)
  next
    case False
    then show ?thesis using f(1) by (simp add: AllocateAfterSweepingCompleted_def)
  qed
  obtain h2 al2 where e: "EnsureTaskFinished env (h1, ?one) = (h2, ?one\<lparr>sweepingList := [], sweptList := [], sweepState := SWEPT, sp_allocator := al2\<rparr>)"
    "running env X M h2 (?one\<lparr>sweepingList := [], sweptList := [], sweepState := SWEPT, sp_allocator := al2\<rparr>) live"
    "\<And>i. in_pieces live i \<Longrightarrow> memory h2 i = memory h1 i"
    by (rule finish_running [OF f(2)], rule that)
  let ?two = "?one\<lparr>sweepingList := [], sweptList := [], sweepState := SWEPT, sp_allocator := al2\<rparr>"
  from first show ?thesis
  proof
    assume eq: "AllocateAfterSweepingCompleted env n (h, sp) = allocator_Allocate n (EnsureTaskFinished env (h1, ?one))"
    show ?thesis
    proof (cases rule: allocate_running [OF e(2) n])
      case (1 st a)
      then show ?thesis using got [of st a] eq e(1,3) f(3) by (auto simp: found_def)
    next
      case 2
      then show ?thesis using none [of h2 ?two] eq e f(3) by (simp add: CommittedSizeExceed_def)
    qed
  qed (use got in blast)
qed

lemma check_found:
  assumes "found env X M n live m st a"
  obtains h' sp' where "check_object env n (Some (st, a)) rest = Some ((h', sp'), a)" "a \<noteq> 0" "running env X M h' sp' ((a, n) # live)"
    "\<And>i. in_pieces live i \<Longrightarrow> memory h' i = m i"
  using assms by (auto simp: found_def check_object_def)

lemma expand_running:
  assumes run: "running env X M h sp live" and env: "memory_available env" and n: "0 < n" "n mod 8 = 0" "n < 2 ^ 63"
  obtains (got) h' sp' a where "allocate_expand env n (\<lambda>st. Some (st, 0)) (h, sp) = Some ((h', sp'), a)" "a \<noteq> 0"
      "running env X M h' sp' ((a, n) # live)" "\<And>i. in_pieces live i \<Longrightarrow> memory h' i = memory h i"
  | (none) h' sp' where "allocate_expand env n (\<lambda>st. Some (st, 0)) (h, sp) = Some ((h', sp'), 0)" "running env X M h' sp' live"
      "\<And>i. in_pieces live i \<Longrightarrow> memory h' i = memory h i" "CommittedSizeExceed sp \<or> DEFAULT_REGION_SIZE - 4272 < n"
proof -
  obtain B L where at: "space_at h B L sp live" by (rule runningE [OF run])
  show ?thesis
  proof (cases rule: Expand_spec [OF at env runningD(2) [OF run], where X = X])
    case 1
    then show ?thesis using none [of h sp] run by (simp add: allocate_expand_def)
  next
    case g: (2 h1 sp1 B1 L1)
    have run1: "running env X M h1 sp1 live" by (rule running_step [OF run g(2,3)]) (use g in auto)
    show ?thesis
    proof (cases rule: allocate_running [OF run1 n])
      case (1 st a)
      obtain h2 sp2 where "check_object env n (Some (st, a)) (\<lambda>st. Some (st, 0)) = Some ((h2, sp2), a)" "a \<noteq> 0"
        "running env X M h2 sp2 ((a, n) # live)" "\<And>i. in_pieces live i \<Longrightarrow> memory h2 i = memory h1 i"
        by (rule check_found [OF 1(2), where rest = "\<lambda>st. Some (st, 0)"], rule that)
      then show ?thesis using got [of h2 sp2 a] 1(1) g(1,4) by (simp add: allocate_expand_def)
    next
      case 2
      then have "DEFAULT_REGION_SIZE - 4272 < n" using g(10) by simp
      then show ?thesis using none [of h1 sp1] 2(1) g(1,4) run1 by (simp add: allocate_expand_def check_object_def)
    qed
  qed
qed

theorem Allocate_running:
  assumes run: "running env X M h sp live" and env: "memory_available env" and n: "0 < n" "n mod 8 = 0" "n < 2 ^ 63"
  obtains (got) h' sp' a where "SparseSpace_Allocate env n False (h, sp) = Some ((h', sp'), a)" "a \<noteq> 0"
      "running env X M h' sp' ((a, n) # live)" "\<And>i. in_pieces live i \<Longrightarrow> memory h' i = memory h i"
  | (none) h' sp' where "SparseSpace_Allocate env n False (h, sp) = Some ((h', sp'), 0)" "running env X M h' sp' live"
      "\<And>i. in_pieces live i \<Longrightarrow> memory h' i = memory h i" "CommittedSizeExceed sp \<or> DEFAULT_REGION_SIZE - 4272 < n"
proof (cases rule: allocate_running [OF run n])
  case (1 st a)
  then show ?thesis using got by (auto simp: SparseSpace_Allocate_def allocate_no_gc_def intro: check_found [OF 1(2)])
next
  case none1: 2
  let ?next = "allocate_expand env n (\<lambda>st. Some (st, 0))"
  have eq: "SparseSpace_Allocate env n False (h, sp) =
      check_object env n (if sweepState sp = SWEEPING then AllocateAfterSweepingCompleted env n (h, sp) else Some ((h, sp), 0)) ?next"
    using none1(1) by (simp add: SparseSpace_Allocate_def allocate_no_gc_def check_object_def)
  have expand: ?thesis if "SparseSpace_Allocate env n False (h, sp) = ?next (h1, sp1)" "running env X M h1 sp1 live"
    "\<And>i. in_pieces live i \<Longrightarrow> memory h1 i = memory h i" "CommittedSizeExceed sp1 \<longleftrightarrow> CommittedSizeExceed sp" for h1 sp1
    by (rule expand_running [OF that(2) env n]) (use that got none in auto)
  show ?thesis
  proof (cases "sweepState sp = SWEEPING")
    case True
    show ?thesis
    proof (cases rule: after_sweeping_running [OF run n])
      case (1 st a)
      then show ?thesis using got eq True by (auto intro: check_found [OF 1(2)])
    next
      case (2 h1 sp1)
      then show ?thesis using expand [of h1 sp1] eq True by (simp add: check_object_def)
    qed
  next
    case False
    then show ?thesis using expand [of h sp] eq run by (simp add: check_object_def)
  qed
qed

lemma write_running:
  assumes run: "running env X M h sp live" and i: "in_pieces live i" and sz: "sizes_known env (store i v h) M"
  shows "running env X M (store i v h) sp live"
proof -
  obtain B L where at: "space_at h B L sp live" by (rule runningE [OF run])
  show ?thesis using write_live [OF at i, where v = v] runningD [OF run] sz by (auto simp: running_def space_ok_def marked_live_def)
qed

end
