(* ===== verification/Mark_Sweep.thy ===== *)
theory Mark_Sweep
  imports Space_Allocate
begin

text \<open>
  A collection of one space: sweeping of the last one is brought to its end (\<open>Heap::Prepare\<close>), counters of live bytes
  are reset (\<open>PartialGC::Initialize\<close>), every object the marker reaches is marked and counted once
  (\<open>NonMovableMarker::MarkObject\<close>, \<open>WorkManager::Push\<close>), and the space is swept by the main thread or handed to
  the background sweeper (\<open>ConcurrentSweeper::Sweep\<close>).  The mark bits are cleared when no region waits for its sweep any
  more (\<open>Heap::ReclaimRegions\<close>).  Which objects the marker
  reaches, in which order and how often, is an argument: tracing references needs the layout of objects.
  The collection is one of the old generation: the marker then visits all local spaces (\<open>IsConcurrentFullMark\<close>);
  the regions of a sparse space are neither young nor shared.
\<close>

section \<open>The phases\<close>

definition mark_object :: "environment \<Rightarrow> nat \<Rightarrow> heap \<Rightarrow> heap" where
  "mark_object env a h =
    (if \<not> IsConcurrentFullMark env then h
     else let r = ObjectAddressToRange a; (new, R) = AtomicMark a (region_at h r) in
     if new then update_region r (\<lambda>_. IncreaseAliveObject (SizeFromJSHClass env (memory h) a) R) h else h)"

definition start_marking :: "nat list \<Rightarrow> heap \<Rightarrow> heap" where
  "start_marking rs = fold (\<lambda>r. update_region r ResetAliveObject) rs"

definition reclaim_marks :: "nat list \<Rightarrow> heap \<Rightarrow> heap" where
  "reclaim_marks rs = fold (\<lambda>r. update_region r (ClearCrossRegionRSet \<circ> ClearMarkGCBitset)) rs"

definition finish_sweep :: "environment \<Rightarrow> space_state \<Rightarrow> space_state" where
  "finish_sweep env st = (if sweepState (snd st) = SWEEPING then EnsureTaskFinished env st else st)"

definition collect_space :: "environment \<Rightarrow> nat list \<Rightarrow> space_state \<Rightarrow> space_state option" where
  "collect_space env visited st =
    (let env = env\<lparr>IsConcurrentFullMark := True\<rparr>;
         (h, sp) = finish_sweep env st;
         h = fold (mark_object env) visited (start_marking (regionList sp) h)
     in ConcurrentSweeper_Sweep env (h, sp))"

section \<open>Updates of all regions\<close>

lemma regions_update: "regions (update_region r f h) q = (if q = r then Some (f (region_at h r)) else regions h q)"
  by (simp add: update_region_def)

lemma fold_update_memory [simp]:
  "memory (fold (\<lambda>r. update_region r f) rs h) = memory h"
  "oneFieldClass (fold (\<lambda>r. update_region r f) rs h) = oneFieldClass h"
  "twoFieldClass (fold (\<lambda>r. update_region r f) rs h) = twoFieldClass h"
  "noneFieldClass (fold (\<lambda>r. update_region r f) rs h) = noneFieldClass h"
  by (induction rs arbitrary: h) simp_all

lemma fold_update_region:
  assumes "distinct rs" "set rs \<subseteq> dom (regions h)"
  shows "regions (fold (\<lambda>r. update_region r f) rs h) r = (if r \<in> set rs then map_option f (regions h r) else regions h r)"
  using assms
proof (induction rs arbitrary: h)
  case (Cons q rs)
  let ?h = "update_region q f h"
  have "set rs \<subseteq> dom (regions ?h)" using Cons.prems by (auto simp: regions_update)
  then have IH: "regions (fold (\<lambda>r. update_region r f) rs ?h) r = (if r \<in> set rs then map_option f (regions ?h r) else regions ?h r)"
    using Cons.prems by (intro Cons.IH) auto
  show ?case
  proof (cases "r = q")
    case True
    then show ?thesis using IH Cons.prems by (auto simp: regions_update region_at_def)
  next
    case False
    then show ?thesis using IH by (simp add: regions_update)
  qed
qed simp

lemma fold_update_layout:
  assumes "distinct rs" "set rs \<subseteq> dom (regions h)" "\<And>R. layout (f R) = layout R"
  shows "same_layout h (fold (\<lambda>r. update_region r f) rs h)"
  using fold_update_region [OF assms(1,2), of f] assms(3)
  by (auto simp: same_layout_def option.map_comp comp_def intro!: option.map_cong)

section \<open>Marking\<close>

definition marked_in :: "environment \<Rightarrow> heap \<Rightarrow> nat set \<Rightarrow> nat \<Rightarrow> region \<Rightarrow> bool" where
  "marked_in env h V r R \<longleftrightarrow> bitsetSize R = 4096 \<and> length (markGCBitset R) = 1024 \<and> \<not> inCollectSet R \<and>
     (\<forall>k < 32768. TestBit (markGCBitset R) k \<longleftrightarrow> r + 8 * k \<in> V) \<and>
     aliveObject R = of_nat (\<Sum>a | a \<in> V \<and> ObjectAddressToRange a = r. SizeFromJSHClass env (memory h) a)"

definition marking_ok :: "environment \<Rightarrow> heap \<Rightarrow> nat set \<Rightarrow> heap \<Rightarrow> bool" where
  "marking_ok env h V h' \<longleftrightarrow> same_layout h h' \<and> (\<forall>r R. regions h' r = Some R \<longrightarrow> marked_in env h V r R)"

lemma marked_in_marks: "marked_in env h V r R \<Longrightarrow> region_marks R"
  unfolding marked_in_def region_marks_def by blast

lemma start_marking_ok:
  assumes sh: "space_shape h sp" and mc: "marks_clear {} h"
  shows "marking_ok env h {} (start_marking (regionList sp) h)"
proof -
  note d = space_shapeD [OF sh]
  have sub: "set (regionList sp) \<subseteq> dom (regions h)" using d(2) by simp
  have "marked_in env h {} r R" if R: "regions (start_marking (regionList sp) h) r = Some R" for r R
  proof -
    obtain R0 where R0: "regions h r = Some R0" "R = ResetAliveObject R0"
      using R fold_update_region [OF d(1) sub, of ResetAliveObject r] d(2) unfolding start_marking_def
      by (cases "regions h r") (auto split: if_splits)
    moreover have "markGCBitset R0 = replicate 1024 0" using mc R0(1) by (simp add: marks_clear_def)
    ultimately show ?thesis using d(3) [OF R0(1)]
      by (auto simp: marked_in_def region_marks_def ResetAliveObject_def TestBit_iff)
  qed
  moreover have "same_layout h (start_marking (regionList sp) h)" unfolding start_marking_def
    by (rule fold_update_layout [OF d(1) sub]) (simp add: layout_def ResetAliveObject_def)
  ultimately show ?thesis by (simp add: marking_ok_def)
qed

lemma mark_offset_eq:
  assumes "a mod 8 = 0"
  shows "a = ObjectAddressToRange a + 8 * mark_offset a" "mark_offset a < 32768"
proof -
  have d: "DEFAULT_REGION_SIZE = 8 * 32768" by (simp add: DEFAULT_REGION_SIZE_def)
  have "8 dvd a mod DEFAULT_REGION_SIZE" using assms unfolding d by (simp add: dvd_mod_iff mod_eq_0_iff_dvd)
  then have "a mod DEFAULT_REGION_SIZE = 8 * (a mod DEFAULT_REGION_SIZE div 8)" by simp
  moreover have o: "mark_offset a = a mod DEFAULT_REGION_SIZE div 8" by (simp add: mark_offset_def drop_bit_eq_div TAGGED_TYPE_SIZE_LOG_def)
  ultimately show "a = ObjectAddressToRange a + 8 * mark_offset a" by (simp add: ObjectAddressToRange_def)
  show "mark_offset a < 32768" unfolding o d by (simp add: less_mult_imp_div_less)
qed

lemma range_offset: "r mod DEFAULT_REGION_SIZE = 0 \<Longrightarrow> k < 32768 \<Longrightarrow> ObjectAddressToRange (r + 8 * k) = r"
proof -
  assume r: "r mod DEFAULT_REGION_SIZE = 0" "k < 32768"
  then have "8 * k < DEFAULT_REGION_SIZE" by (simp add: DEFAULT_REGION_SIZE_def)
  then show ?thesis using r(1) by (simp add: ObjectAddressToRange_def mod_add_eq [of r _ "8 * k", symmetric])
qed

lemma mark_object_ok:
  assumes full: "IsConcurrentFullMark env" and m: "marking_ok env h V h1" and fin: "finite V" and a: "a mod 8 = 0" "ObjectAddressToRange a \<in> dom (regions h)"
    and r0: "\<forall>r \<in> dom (regions h). r mod DEFAULT_REGION_SIZE = 0"
  shows "marking_ok env h (insert a V) (mark_object env a h1)"
proof -
  let ?r = "ObjectAddressToRange a" and ?o = "mark_offset a"
  note o = mark_offset_eq [OF a(1)]
  have lay: "same_layout h h1" using m by (simp add: marking_ok_def)
  have dom: "dom (regions h1) = dom (regions h)"
    by (rule set_eqI, rule layoutE [OF lay]) auto
  obtain R where R: "regions h1 ?r = Some R" using a(2) dom by (metis domD)
  have mi: "marked_in env h V ?r R" using m R by (simp add: marking_ok_def)
  have mem: "memory h1 = memory h" using lay by (simp add: same_layout_def)
  have inb: "in_bitset (markGCBitset R) k \<longleftrightarrow> k < 32768" for k using mi by (simp add: marked_in_def in_bitset_def)
  have test: "TestBit (markGCBitset R) ?o \<longleftrightarrow> a \<in> V" using mi o by (simp add: marked_in_def)
  show ?thesis
  proof (cases "a \<in> V")
    case True
    then have "mark_object env a h1 = h1"
      using test R SetBit_result(1) [of "markGCBitset R" ?o]
      by (auto simp: mark_object_def AtomicMark_def region_at_def full split: prod.splits)
    then show ?thesis using m True by (simp add: insert_absorb)
  next
    case False
    let ?R = "IncreaseAliveObject (SizeFromJSHClass env (memory h) a) (R\<lparr>markGCBitset := snd (SetBit (markGCBitset R) ?o)\<rparr>)"
    have eq: "mark_object env a h1 = update_region ?r (\<lambda>_. ?R) h1"
      using test R False SetBit_result(1) [of "markGCBitset R" ?o] mem
      by (auto simp: mark_object_def AtomicMark_def region_at_def Let_def full split: prod.splits)
    have "layout ?R = layout R" by (simp add: layout_def IncreaseAliveObject_def)
    then have "same_layout h1 (mark_object env a h1)"
      using R unfolding eq by (auto simp: same_layout_def update_region_def)
    moreover have "marked_in env h (insert a V) q Q" if Q: "regions (mark_object env a h1) q = Some Q" for q Q
    proof (cases "q = ?r")
      case True
      then have Q: "Q = ?R" using Q by (simp add: eq update_region_def)
      have "(\<Sum>b | b \<in> insert a V \<and> ObjectAddressToRange b = ?r. SizeFromJSHClass env (memory h) b) =
          SizeFromJSHClass env (memory h) a + (\<Sum>b | b \<in> V \<and> ObjectAddressToRange b = ?r. SizeFromJSHClass env (memory h) b)"
      proof -
        have "{b. b \<in> insert a V \<and> ObjectAddressToRange b = ?r} = insert a {b. b \<in> V \<and> ObjectAddressToRange b = ?r}" by auto
        then show ?thesis using fin False by simp
      qed
      moreover have "TestBit (snd (SetBit (markGCBitset R) ?o)) k \<longleftrightarrow> ?r + 8 * k \<in> insert a V" if "k < 32768" for k
        using TestBit_SetBit [of "markGCBitset R" ?o k] inb o that mi by (auto simp: marked_in_def)
      ultimately show ?thesis using mi SetBit_result(2) [of "markGCBitset R" ?o]
        unfolding Q True by (simp add: marked_in_def IncreaseAliveObject_def add.commute)
    next
      case False
      then have Q1: "regions h1 q = Some Q" using Q by (simp add: eq update_region_def)
      then have mq: "marked_in env h V q Q" using m by (simp add: marking_ok_def)
      have q0: "q mod DEFAULT_REGION_SIZE = 0" using Q1 dom r0 by blast
      have "{b. b \<in> insert a V \<and> ObjectAddressToRange b = q} = {b. b \<in> V \<and> ObjectAddressToRange b = q}" using False by auto
      moreover have "q + 8 * k \<noteq> a" if "k < 32768" for k using range_offset [OF q0 that] False by auto
      ultimately show ?thesis using mq by (simp add: marked_in_def)
    qed
    ultimately show ?thesis using same_layout_trans [OF lay] by (simp add: marking_ok_def)
  qed
qed

lemma mark_all_ok:
  assumes "IsConcurrentFullMark env" "marking_ok env h V h1" "finite V" "\<forall>a \<in> set visited. a mod 8 = 0 \<and> ObjectAddressToRange a \<in> dom (regions h)"
    and "\<forall>r \<in> dom (regions h). r mod DEFAULT_REGION_SIZE = 0"
  shows "marking_ok env h (V \<union> set visited) (fold (mark_object env) visited h1)"
  using assms
proof (induction visited arbitrary: V h1)
  case (Cons a visited)
  have "marking_ok env h (insert a V) (mark_object env a h1)" using Cons.prems by (intro mark_object_ok) auto
  then have "marking_ok env h (insert a V \<union> set visited) (fold (mark_object env) visited (mark_object env a h1))"
    using Cons.prems by (intro Cons.IH) auto
  then show ?case by simp
qed simp

end
