(* ===== verification/Space_Collect.thy ===== *)
theory Space_Collect
  imports Mark_Sweep
begin

text \<open>
  A collection.  The marked objects are the pieces that stay; the rest of every region becomes free blocks and
  lost bytes, at once when the main thread sweeps, or region by region when the background sweeper does.
\<close>

section \<open>Sweeping every region\<close>

definition freed :: "space_state \<Rightarrow> piece list \<Rightarrow> piece list \<Rightarrow> space_state \<Rightarrow> bool" where
  "freed st gs xs st' \<longleftrightarrow> (\<exists>fl' B' L'. snd st' = (snd st)\<lparr>sp_allocator := (sp_allocator (snd st))\<lparr>freeList := fl'\<rparr>\<rparr> \<and>
     allocator_ok (fst st') B' (sp_allocator (snd st')) L' {} xs \<and> same_core (fst st) (fst st') \<and>
     (\<forall>i. \<not> in_pieces gs i \<longrightarrow> memory (fst st') i = memory (fst st) i) \<and>
     list_available fl' + list_wasted fl' = list_available (freeList (sp_allocator (snd st))) +
       list_wasted (freeList (sp_allocator (snd st))) + of_nat (bytes gs))"

lemma swept_freed: "swept {} r True B st gs xs B' st' \<Longrightarrow> freed st gs xs st'"
  unfolding swept_def freed_def freed_bytes_def by auto

lemma freed_trans: "freed st gs (gs' @ xs) st' \<Longrightarrow> freed st' gs' xs st'' \<Longrightarrow> freed st (gs @ gs') xs st''"
  unfolding freed_def by (fastforce intro: same_core_trans simp: in_pieces_def)

lemma freed_live: "freed (h, sp) gs xs (h', sp') \<Longrightarrow>
    freed (h, IncreaseLiveObjectSize n sp) gs xs (h', IncreaseLiveObjectSize n sp')"
  unfolding freed_def IncreaseLiveObjectSize_def by (elim exE, rule exI) (auto, blast)

lemma sweep_region_spec:
  assumes h0: "blocks_ok h0 (\<lambda>_. [])" "pieces_ok h0 (\<lambda>_. []) keep" "ready h0 keep r" and core: "same_core h0 h"
    and ok: "allocator_ok h B (sp_allocator sp) L {} (region_gaps h0 keep r @ xs)"
    and sizes: "\<forall>(a, n) \<in> set keep. \<forall>m. (\<forall>i. K i \<longrightarrow> m i = m0 i) \<longrightarrow> SizeFromJSHClass env m a = n"
    and K: "\<forall>i. K i \<longrightarrow> memory h i = m0 i \<and> \<not> in_pieces (region_gaps h0 keep r) i"
  shows "freed (h, IncreaseLiveObjectSize (aliveObject (region_at h0 r)) sp) (region_gaps h0 keep r) xs (sweep_region env r (h, sp))"
proof -
  obtain R0 where R0: "regions h0 r = Some R0" "\<not> inCollectSet R0" "bitsetSize R0 = 4 * length (markGCBitset R0)"
    "map (\<lambda>k. r + 8 * k) (marked (markGCBitset R0)) = map fst (objs_in keep r)" using h0(3) by (auto simp: ready_def)
  obtain R where R: "regions h r = Some R" "core R = core R0" using same_core_region [OF core R0(1)] by metis
  note c = core_fields [OF R(2)]
  let ?h = "update_region r ResetWasted h" and ?R = "ResetWasted R"
    and ?sp = "IncreaseLiveObjectSize (aliveObject (region_at h0 r)) sp"
  have r: "r \<in> dom (regions h)" using R(1) by auto
  have lc: "same_layout h ?h" "same_core h ?h"
    by (rule on_region_layout [OF r]; simp add: ResetWasted_def layout_def core_def)+
  have R': "regions ?h r = Some ?R" using R(1) by (simp add: update_region_def region_at_def)
  have f: "region_begin ?R = region_begin R0" "region_end ?R = region_end R0" "markGCBitset ?R = markGCBitset R0"
    "bitsetSize ?R = bitsetSize R0" using c by (simp_all add: ResetWasted_def)
  have g: "region_gaps h0 keep r = gaps (region_begin ?R) (objs_in keep r) (region_end ?R)"
    using R0(1) f by (simp add: region_gaps_def region_at_def)
  have al: "sp_allocator ?sp = sp_allocator sp" by (simp add: IncreaseLiveObjectSize_def)
  have "\<exists>B'. swept {} r True B (?h, ?sp) (region_gaps h0 keep r) xs B' (FreeRegion env r True (?h, ?sp))"
    unfolding g
  proof (rule FreeRegion_spec [OF _ R', where K = K and ?m0.0 = m0])
    show "allocator_ok ?h B (sp_allocator ?sp) L {} (gaps (region_begin ?R) (objs_in keep r) (region_end ?R) @ xs)"
      using allocator_layout [OF lc(1) ok] g al by simp
    show "tiled (region_begin ?R) (objs_in keep r) (region_end ?R)" using objs_in_tiled [OF h0(2,1) R0(1)] f by simp
    show "bitsetSize ?R = 4 * length (markGCBitset ?R)"
      "map (\<lambda>k. r + 8 * k) (marked (markGCBitset ?R)) = map fst (objs_in keep r)" using R0(3,4) f by simp_all
    show "\<forall>(a, n) \<in> set (objs_in keep r). \<forall>m. (\<forall>i. K i \<longrightarrow> m i = m0 i) \<longrightarrow> SizeFromJSHClass env m a = n"
      using sizes by (auto simp: set_objs_in)
    show "\<forall>i. K i \<longrightarrow> memory ?h i = m0 i \<and> \<not> in_pieces (gaps (region_begin ?R) (objs_in keep r) (region_end ?R)) i"
      using K g by simp
  qed simp
  then have "freed (?h, ?sp) (region_gaps h0 keep r) xs (FreeRegion env r True (?h, ?sp))" using swept_freed by blast
  then have "freed (h, ?sp) (region_gaps h0 keep r) xs (FreeRegion env r True (?h, ?sp))"
    using same_core_trans [OF lc(2)] by (auto simp: freed_def)
  moreover have "sweep_region env r (h, sp) = FreeRegion env r True (?h, ?sp)"
    using R(1) R0(1,2) c(5,6) by (simp add: sweep_region_def on_region_def region_at_def)
  ultimately show ?thesis by simp
qed

lemma sweep_regions:
  assumes h0: "blocks_ok h0 (\<lambda>_. [])" "pieces_ok h0 (\<lambda>_. []) keep" "\<forall>r \<in> set rs. ready h0 keep r" and core: "same_core h0 h"
    and ok: "allocator_ok h B (sp_allocator sp) L {} (concat (map (region_gaps h0 keep) rs) @ xs)"
    and sizes: "\<forall>(a, n) \<in> set keep. \<forall>m. (\<forall>i. K i \<longrightarrow> m i = m0 i) \<longrightarrow> SizeFromJSHClass env m a = n"
    and K: "\<forall>i. K i \<longrightarrow> memory h i = m0 i \<and> \<not> in_pieces (concat (map (region_gaps h0 keep) rs)) i"
  shows "freed (h, IncreaseLiveObjectSize (\<Sum>r\<leftarrow>rs. aliveObject (region_at h0 r)) sp) (concat (map (region_gaps h0 keep) rs)) xs
    (fold (sweep_region env) rs (h, sp))"
  using h0(3) core ok K
proof (induction rs arbitrary: h B sp L)
  case Nil
  then show ?case by (auto simp: freed_def IncreaseLiveObjectSize_def intro!: exI [of _ "freeList (sp_allocator sp)"])
next
  case (Cons r rs)
  let ?gs = "concat (map (region_gaps h0 keep) rs)" and ?n = "\<Sum>r\<leftarrow>rs. aliveObject (region_at h0 r)"
    and ?sp = "IncreaseLiveObjectSize (aliveObject (region_at h0 r)) sp"
  obtain h1 sp1 where st1: "sweep_region env r (h, sp) = (h1, sp1)" by (cases "sweep_region env r (h, sp)")
  have K1: "\<forall>i. K i \<longrightarrow> memory h i = m0 i \<and> \<not> in_pieces (region_gaps h0 keep r) i" and K2: "\<forall>i. K i \<longrightarrow> \<not> in_pieces ?gs i"
    using Cons.prems(4) by (auto simp: in_pieces_def)
  have ok1: "allocator_ok h B (sp_allocator sp) L {} (region_gaps h0 keep r @ ?gs @ xs)" using Cons.prems(3) by simp
  have one: "freed (h, ?sp) (region_gaps h0 keep r) (?gs @ xs) (h1, sp1)"
    using sweep_region_spec [OF h0(1,2) _ Cons.prems(2) ok1 sizes K1] Cons.prems(1) st1 by simp
  then obtain B1 L1 where s: "allocator_ok h1 B1 (sp_allocator sp1) L1 {} (?gs @ xs)" "same_core h h1"
    "\<forall>i. \<not> in_pieces (region_gaps h0 keep r) i \<longrightarrow> memory h1 i = memory h i" by (auto simp: freed_def)
  have "freed (h1, IncreaseLiveObjectSize ?n sp1) ?gs xs (fold (sweep_region env) rs (h1, sp1))"
    using Cons.prems(1) K1 K2 s(3) by (intro Cons.IH [OF _ same_core_trans [OF Cons.prems(2) s(2)] s(1)]) auto
  then have "freed (h, IncreaseLiveObjectSize ?n ?sp) (region_gaps h0 keep r @ ?gs) xs (fold (sweep_region env) rs (h1, sp1))"
    by (rule freed_trans [OF freed_live [OF one]])
  moreover have "IncreaseLiveObjectSize ?n ?sp = IncreaseLiveObjectSize (aliveObject (region_at h0 r) + ?n) sp"
    by (simp add: IncreaseLiveObjectSize_def add.assoc)
  ultimately show ?case using st1 by simp
qed

section \<open>Marks and kept objects\<close>

lemma sizes_knownD: "sizes_known env h keep \<Longrightarrow> (a, n) \<in> set keep \<Longrightarrow> SizeFromJSHClass env (memory h) a = n"
  unfolding sizes_known_def by blast

lemma marked_in_core: "core R = core R' \<Longrightarrow> marked_in env h V r R \<longleftrightarrow> marked_in env h V r R'"
  unfolding marked_in_def by (simp only: core_fields [of R R'])

lemma marked_objects:
  assumes keep: "pieces_ok h0 B keep" and r: "r mod DEFAULT_REGION_SIZE = 0" and m: "marked_in env h (fst ` set keep) r R"
  shows "map (\<lambda>k. r + 8 * k) (marked (markGCBitset R)) = map fst (objs_in keep r)"
proof (rule sorted_distinct_set_unique)
  have "sorted (filter P [0..<n])" for P :: "nat \<Rightarrow> bool" and n by (intro sorted_wrt_filter) simp
  then show "sorted (map (\<lambda>k. r + 8 * k) (marked (markGCBitset R)))"
    by (simp add: marked_def sorted_map)
  show "distinct (map (\<lambda>k. r + 8 * k) (marked (markGCBitset R)))" by (simp add: marked_def distinct_map inj_on_def)
  show "sorted (map fst (objs_in keep r))" by (simp add: objs_in_def)
  have "distinct (map fst (filter (\<lambda>p. ObjectAddressToRange (fst p) = r) keep))"
    using pieces_distinct [OF keep] by (rule distinct_map_filter)
  then show "distinct (map fst (objs_in keep r))"
    using mset_objs_in [of keep r] by (metis mset_map mset_eq_imp_distinct_iff)
  have al: "a mod 8 = 0" if "(a, n) \<in> set keep" for a n using keep that by (fastforce simp: pieces_ok_def piece_ok_def)
  have "(\<exists>k. k < 32768 \<and> r + 8 * k \<in> fst ` set keep \<and> a = r + 8 * k) \<longleftrightarrow> a \<in> fst ` set keep \<and> ObjectAddressToRange a = r" for a
    using range_offset [OF r] mark_offset_eq [of a] al by (metis image_iff prod.collapse)
  moreover have "set (map (\<lambda>k. r + 8 * k) (marked (markGCBitset R))) = {a. \<exists>k. k < 32768 \<and> r + 8 * k \<in> fst ` set keep \<and> a = r + 8 * k}"
    using m by (auto simp: marked_def marked_in_def)
  moreover have "set (map fst (objs_in keep r)) = {a. a \<in> fst ` set keep \<and> ObjectAddressToRange a = r}" by (auto simp: set_objs_in)
  ultimately show "set (map (\<lambda>k. r + 8 * k) (marked (markGCBitset R))) = set (map fst (objs_in keep r))" by simp
qed

lemma marked_bytes:
  assumes "pieces_ok h0 B keep" "sizes_known env h keep"
  shows "(\<Sum>a | a \<in> fst ` set keep \<and> ObjectAddressToRange a = r. SizeFromJSHClass env (memory h) a) = bytes (objs_in keep r)"
proof -
  have d: "distinct (map fst (objs_in keep r))"
    using distinct_map_filter [OF pieces_distinct [OF assms(1)]] mset_objs_in [of keep r] by (metis mset_map mset_eq_imp_distinct_iff)
  have "{a. a \<in> fst ` set keep \<and> ObjectAddressToRange a = r} = fst ` set (objs_in keep r)" by (auto simp: set_objs_in)
  then have "(\<Sum>a | a \<in> fst ` set keep \<and> ObjectAddressToRange a = r. SizeFromJSHClass env (memory h) a) =
      (\<Sum>p \<in> set (objs_in keep r). SizeFromJSHClass env (memory h) (fst p))"
    using d by (simp add: sum.reindex distinct_map)
  also have "\<dots> = (\<Sum>p \<in> set (objs_in keep r). snd p)"
    using sizes_knownD [OF assms(2)] by (intro sum.cong) (auto simp: set_objs_in)
  also have "\<dots> = bytes (objs_in keep r)" using d by (simp add: bytes_def distinct_map sum_list_distinct_conv_sum_set)
  finally show ?thesis .
qed

section \<open>The free list is empty after marking\<close>

lemma shape_transfer:
  assumes sh: "space_shape h sp" and dom: "dom (regions h') = dom (regions h)"
    and ds: "\<And>r. r \<in> dom (regions h) \<Longrightarrow> data_size h' r = data_size h r"
    and marks: "\<And>r R. regions h' r = Some R \<Longrightarrow> region_marks R"
    and eq: "regionList sp' = regionList sp" "objectSize sp' = objectSize sp" "committedSize sp' = committedSize sp"
    and ls: "distinct (sweepingList sp' @ sweptList sp')" "uncollected sp' \<subseteq> set (regionList sp)"
      "sweepState sp' \<noteq> SWEEPING \<Longrightarrow> uncollected sp' = {}"
  shows "space_shape h' sp'"
proof (rule space_shapeI)
  note d = space_shapeD [OF sh]
  have "(\<Sum>r\<leftarrow>regionList sp. data_size h' r) = (\<Sum>r\<leftarrow>regionList sp. data_size h r)"
    using ds d(2) by (intro arg_cong [where f = sum_list] map_cong) simp_all
  then show "objectSize sp' = of_nat (\<Sum>r\<leftarrow>regionList sp'. data_size h' r)" using eq d(4) by simp
qed (use space_shapeD [OF sh] dom marks eq ls in simp_all)

lemma layout_regions:
  assumes "same_layout h h'"
  shows "dom (regions h') = dom (regions h)" "data_size h' r = data_size h r" "region_gaps h' live r = region_gaps h live r"
proof -
  show "dom (regions h') = dom (regions h)" by (rule set_eqI, rule layoutE [OF assms]) auto
  show "data_size h' r = data_size h r" by (rule layoutE [OF assms, of r]) (simp_all add: data_size_def region_at_def)
  show "region_gaps h' live r = region_gaps h live r" by (rule layoutE [OF assms, of r]) (simp_all add: region_gaps_def region_at_def)
qed

lemma after_marking:
  assumes full: "IsConcurrentFullMark env" and at: "space_at h B L sp live" and mc: "marks_clear {} h"
    and keep: "set keep \<subseteq> set live" and v: "set visited = fst ` set keep"
  shows "marking_ok env h (fst ` set keep) (fold (mark_object env) visited (start_marking (regionList sp) h))"
proof -
  note aok = space_atD(2) [OF at] and px = space_pieces [OF at]
  have "a mod 8 = 0 \<and> ObjectAddressToRange a \<in> dom (regions h)" if an: "(a, n) \<in> set live" for a n
  proof -
    have "piece_ok h B (a, n)" using px(3) an by (simp add: pieces_ok_def)
    then show ?thesis using live_region(1) [OF aok, of a n] an by (simp add: piece_ok_def)
  qed
  then have "\<forall>a \<in> set visited. a mod 8 = 0 \<and> ObjectAddressToRange a \<in> dom (regions h)"
    using keep unfolding v by fastforce
  moreover have "\<forall>r \<in> dom (regions h). r mod DEFAULT_REGION_SIZE = 0"
    using blocks_okD(1) [OF px(1)] by (auto simp: region_ok_def)
  ultimately have "marking_ok env h ({} \<union> set visited) (fold (mark_object env) visited (start_marking (regionList sp) h))"
    by (intro mark_all_ok [OF full start_marking_ok [OF space_atD(1) [OF at] mc]]) simp_all
  then show ?thesis by (simp only: v Un_empty_left)
qed

lemma rebuild_marked:
  assumes at: "space_at h B L sp live" and u: "uncollected sp = {}" and keep: "set keep \<subseteq> set live" "distinct keep"
    and m: "marking_ok env h (fst ` set keep) h1" and sizes: "sizes_known env h keep"
  obtains h2 al2 where "RebuildFreeList (h1, sp_allocator sp) = Some (h2, al2)"
    "allocator_ok h2 (\<lambda>_. []) al2 (\<lambda>_. []) {} (concat (map (region_gaps h2 keep) (regionList sp)) @ keep)"
    "same_core h1 h2" "memory h2 = memory h" "bump_piece al2 = []" "list_available (freeList al2) = 0" "list_wasted (freeList al2) = 0"
    "\<And>r. wasted (region_at h2 r) = wasted (region_at h1 r)" "\<And>r. r \<in> set (regionList sp) \<Longrightarrow> ready h2 keep r"
    "(\<Sum>r\<leftarrow>regionList sp. aliveObject (region_at h2 r)) = of_nat (bytes keep)"
    "bytes (concat (map (region_gaps h2 keep) (regionList sp)) @ keep) = (\<Sum>r\<leftarrow>regionList sp. data_size h r)"
proof -
  note sh = space_shapeD [OF space_atD(1) [OF at]]
  let ?rs = "regionList sp"
  have lay: "same_layout h h1" using m by (simp add: marking_ok_def)
  have "pending h sp live = []" using u by (simp add: pending_def uncollected_def)
  then have aok: "allocator_ok h1 B (sp_allocator sp) L {} live"
    using allocator_layout [OF lay space_atD(2) [OF at]] u by simp
  obtain h2 al2 where reb: "RebuildFreeList (h1, sp_allocator sp) = Some (h2, al2)"
    "allocator_ok h2 (\<lambda>_. []) al2 (\<lambda>_. []) {} live" "same_core h1 h2" "memory h2 = memory h1" "bump_piece al2 = []"
    "list_available (freeList al2) = 0" "list_wasted (freeList al2) = 0" "\<And>r. wasted (region_at h2 r) = wasted (region_at h1 r)"
    using RebuildFreeList_spec [OF aok] by metis
  note D = allocator_okD [OF reb(2)]
  have pk: "pieces_ok h2 (\<lambda>_. []) keep" by (rule pieces_sub [OF D(3) _ keep(2)]) (use keep(1) reb(5) in auto)
  have dom: "dom (regions h2) = set ?rs" using same_core_dom [OF reb(3)] sh(2) layout_regions(1) [OF lay] by simp
  have R2: "\<exists>R. regions h2 r = Some R \<and> r mod DEFAULT_REGION_SIZE = 0 \<and> marked_in env h (fst ` set keep) r R" if r: "r \<in> set ?rs" for r
  proof -
    obtain R where R: "regions h2 r = Some R" using r dom by (metis domD)
    then have r0: "r mod DEFAULT_REGION_SIZE = 0" using blocks_okD(1) [OF D(2)] by (simp add: region_ok_def)
    obtain R1 where R1: "regions h1 r = Some R1" "core R = core R1" by (rule core_region [OF reb(3) R])
    then have "marked_in env h (fst ` set keep) r R" using marked_in_core m unfolding marking_ok_def by blast
    with R r0 show ?thesis by (intro exI [of _ R] conjI)
  qed
  let ?gs = "concat (map (region_gaps h2 keep) ?rs)"
  have inside: "\<forall>p \<in> set keep. ObjectAddressToRange (fst p) \<in> set ?rs"
    using live_region(1) [OF reb(2)] keep(1) dom by auto
  have "pieces_ok h2 (\<lambda>_. []) (?gs @ keep)" by (rule all_gaps_pieces [OF D(2) pk sh(1)]) (simp add: dom)
  then have aok2: "allocator_ok h2 (\<lambda>_. []) al2 (\<lambda>_. []) {} (?gs @ keep)"
    using reb(2,5) by (simp add: allocator_ok_def parcelled_def)
  have ready: "ready h2 keep r" if r: "r \<in> set ?rs" for r
  proof -
    obtain R where R: "regions h2 r = Some R" "r mod DEFAULT_REGION_SIZE = 0" "marked_in env h (fst ` set keep) r R"
      using R2 [OF r] by (elim exE conjE)
    from marked_in_marks [OF R(3)] show ?thesis using R(1) marked_objects [OF pk R(2,3)] by (simp add: ready_def region_marks_def)
  qed
  have "aliveObject (region_at h2 r) = of_nat (bytes (objs_in keep r))" if r: "r \<in> set ?rs" for r
  proof -
    obtain R where R: "regions h2 r = Some R" "marked_in env h (fst ` set keep) r R" using R2 [OF r] by blast
    then show ?thesis using marked_bytes [OF pk sizes, of r] unfolding marked_in_def region_at_def by (metis option.sel)
  qed
  then have "(\<Sum>r\<leftarrow>?rs. aliveObject (region_at h2 r)) = (\<Sum>r\<leftarrow>?rs. of_nat (bytes (objs_in keep r)))"
    by (intro arg_cong [where f = sum_list] map_cong) simp_all
  then have alive: "(\<Sum>r\<leftarrow>?rs. aliveObject (region_at h2 r)) = of_nat (bytes keep)"
    using inside bytes_objs_in [OF sh(1)] by (simp add: of_nat_sum_list)
  have "bytes (region_gaps h2 keep r) + bytes (objs_in keep r) = data_size h r" if r: "r \<in> set ?rs" for r
  proof -
    obtain R where R: "regions h2 r = Some R" using R2 [OF r] by blast
    have "data_size h2 r = data_size h1 r" using r dom same_core_dom [OF reb(3)] by (intro data_size_core [OF reb(3)]) simp
    then show ?thesis using region_gaps_pieces(4) [OF D(2) pk R] layout_regions(2) [OF lay] by simp
  qed
  then have "(\<Sum>r\<leftarrow>?rs. bytes (region_gaps h2 keep r) + bytes (objs_in keep r)) = (\<Sum>r\<leftarrow>?rs. data_size h r)"
    by (intro arg_cong [where f = sum_list] map_cong) simp_all
  then have total: "bytes (?gs @ keep) = (\<Sum>r\<leftarrow>?rs. data_size h r)"
    using inside bytes_objs_in [OF sh(1)] by (simp add: sum_list_addf bytes_concat)
  have "memory h2 = memory h" using reb(4) lay by (simp add: same_layout_def)
  then show ?thesis using that [OF reb(1) aok2 reb(3) _ reb(5-8) ready alive total] by simp
qed

lemma marked_shape:
  assumes sh: "space_shape h sp" and m: "marking_ok env h V h1" and core: "same_core h1 h2"
    and eq: "regionList sp' = regionList sp" "objectSize sp' = objectSize sp" "committedSize sp' = committedSize sp"
    and ls: "distinct (sweepingList sp' @ sweptList sp')" "uncollected sp' \<subseteq> set (regionList sp)"
      "sweepState sp' \<noteq> SWEEPING \<Longrightarrow> uncollected sp' = {}"
  shows "space_shape h2 sp'" "marks_clear (set (regionList sp)) h2"
proof -
  have lay: "same_layout h h1" using m by (simp add: marking_ok_def)
  note d1 = layout_regions [OF lay]
  have dom: "dom (regions h2) = dom (regions h)" using same_core_dom [OF core] d1(1) by simp
  show "space_shape h2 sp'"
  proof (rule shape_transfer [OF sh dom _ _ eq ls])
    show "data_size h2 r = data_size h r" if "r \<in> dom (regions h)" for r using data_size_core [OF core] that d1 by simp
    show "region_marks R" if R: "regions h2 r = Some R" for r R
    proof -
      obtain R1 where R1: "regions h1 r = Some R1" "core R = core R1" by (rule core_region [OF core R])
      have "marked_in env h V r R1" using m R1(1) unfolding marking_ok_def by blast
      then show ?thesis by (rule marks_core [OF R1(2) marked_in_marks])
    qed
  qed
  show "marks_clear (set (regionList sp)) h2" using dom space_shapeD(2) [OF sh] by (auto simp: marks_clear_def)
qed

section \<open>A sweep by the main thread\<close>

lemma Sweep_spec:
  assumes at: "space_at h B L sp live" and u: "uncollected sp = {}" and keep: "set keep \<subseteq> set live" "distinct keep"
    and m: "marking_ok env h (fst ` set keep) h1" and sizes: "sizes_known env h keep"
  obtains h' al' where "Sweep env (h1, sp) = Some (h', sp\<lparr>sp_allocator := al', liveObjectSize := of_nat (bytes keep)\<rparr>)"
    "space_ok h' (sp\<lparr>sp_allocator := al', liveObjectSize := of_nat (bytes keep)\<rparr>) keep" "marks_clear (set (regionList sp)) h'"
    "\<And>i. in_pieces keep i \<Longrightarrow> memory h' i = memory h i"
proof -
  note sh = space_shapeD [OF space_atD(1) [OF at]]
  let ?rs = "regionList sp"
  obtain h2 al2 where reb: "RebuildFreeList (h1, sp_allocator sp) = Some (h2, al2)"
    "allocator_ok h2 (\<lambda>_. []) al2 (\<lambda>_. []) {} (concat (map (region_gaps h2 keep) ?rs) @ keep)"
    "same_core h1 h2" "memory h2 = memory h" "bump_piece al2 = []" "list_available (freeList al2) = 0" "list_wasted (freeList al2) = 0"
    "\<And>r. r \<in> set ?rs \<Longrightarrow> ready h2 keep r" "(\<Sum>r\<leftarrow>?rs. aliveObject (region_at h2 r)) = of_nat (bytes keep)"
    "bytes (concat (map (region_gaps h2 keep) ?rs) @ keep) = (\<Sum>r\<leftarrow>?rs. data_size h r)"
    by (rule rebuild_marked [OF at u keep m sizes], rule that)
  note D = allocator_okD [OF reb(2)]
  let ?gs = "concat (map (region_gaps h2 keep) ?rs)" and ?sp = "sp\<lparr>liveObjectSize := 0, sp_allocator := al2\<rparr>"
  have pg: "pieces_ok h2 (\<lambda>_. []) (?gs @ keep)" using D(3) reb(5) by simp
  then have pk: "pieces_ok h2 (\<lambda>_. []) keep" by (auto simp: pieces_ok_def sorted_wrt_append)
  have K: "\<forall>i. in_pieces keep i \<longrightarrow> memory h2 i = memory h i \<and> \<not> in_pieces ?gs i"
  proof (intro allI impI conjI notI)
    fix i assume "in_pieces keep i" "in_pieces ?gs i"
    then obtain x y where xy: "x \<in> set ?gs" "y \<in> set keep" "fst x \<le> i" "i < fst x + snd x" "fst y \<le> i" "i < fst y + snd y"
      by (fastforce simp: in_pieces_def)
    have "apart_from x y" using pg xy(1,2) by (auto simp: pieces_ok_def sorted_wrt_append)
    then show False using xy by (cases x; cases y) (auto simp: disj_def)
  qed (simp add: reb(4))
  have sz: "\<forall>(a, n) \<in> set keep. \<forall>m. (\<forall>i. in_pieces keep i \<longrightarrow> m i = memory h i) \<longrightarrow> SizeFromJSHClass env m a = n"
    using sizes unfolding sizes_known_def .
  obtain h' sp' where fin: "fold (sweep_region env) ?rs (h2, ?sp) = (h', sp')" by (cases "fold (sweep_region env) ?rs (h2, ?sp)")
  have aok2: "allocator_ok h2 (\<lambda>_. []) (sp_allocator ?sp) (\<lambda>_. []) {} (?gs @ keep)" using reb(2) by simp
  have "\<forall>r \<in> set ?rs. ready h2 keep r" using reb(8) by blast
  from sweep_regions [OF D(2) pk this same_core_refl aok2 sz K]
  have "freed (h2, IncreaseLiveObjectSize (of_nat (bytes keep)) ?sp) ?gs keep (h', sp')" unfolding reb(9) fin .
  then obtain fl' B' L' where s: "sp' = (IncreaseLiveObjectSize (of_nat (bytes keep)) ?sp)\<lparr>sp_allocator := al2\<lparr>freeList := fl'\<rparr>\<rparr>"
    "allocator_ok h' B' (al2\<lparr>freeList := fl'\<rparr>) L' {} keep" "same_core h2 h'"
    "\<forall>i. \<not> in_pieces ?gs i \<longrightarrow> memory h' i = memory h2 i" "list_available fl' + list_wasted fl' = of_nat (bytes ?gs)"
    using reb(6,7) by (auto simp: freed_def IncreaseLiveObjectSize_def)
  let ?al = "al2\<lparr>freeList := fl'\<rparr>" and ?fin = "sp\<lparr>sp_allocator := al2\<lparr>freeList := fl'\<rparr>, liveObjectSize := of_nat (bytes keep)\<rparr>"
  have none: "sweepingList sp = []" "sweptList sp = []" "uncollected ?fin = {}" "pending h' ?fin keep = []"
    using u by (simp_all add: uncollected_def pending_def)
  have shape: "space_shape h' ?fin" "marks_clear (set ?rs) h'"
    by (rule marked_shape [OF space_atD(1) [OF at] m same_core_trans [OF reb(3) s(3)]]; use none in simp)+
  have "bump_piece ?al = []" using reb(5) by (simp add: bump_piece_def split: if_splits)
  then have "stock ?al keep = of_nat (bytes (?gs @ keep))" using s(5) by (simp add: stock_def)
  then have "stock ?al keep = objectSize sp" unfolding reb(10) sh(4) .
  then have "space_at h' B' L' ?fin keep" using none s(2) by (intro space_atI [OF shape(1)]) simp_all
  then have "space_ok h' ?fin keep" by (auto simp: space_ok_def)
  moreover have "Sweep env (h1, sp) = Some (h', ?fin)"
    using reb(1) fin s(1) by (simp add: Sweep_def SparseSpace_RebuildFreeList_def IncreaseLiveObjectSize_def)
  moreover have "memory h' i = memory h i" if "in_pieces keep i" for i using that K s(4) by simp
  ultimately show ?thesis using shape(2) by (intro that)
qed

section \<open>A sweep in the background\<close>

lemma prepare_regions:
  assumes "\<forall>r \<in> set rs. \<not> inCollectSet (region_at h r)"
  shows "fold prepare_region rs (h, sp) =
    (fold (\<lambda>r. update_region r (SwapRSetForConcurrentSweeping \<circ> ResetWasted)) rs h,
     IncreaseLiveObjectSize (\<Sum>r\<leftarrow>rs. aliveObject (region_at h r)) (sp\<lparr>sweepingList := sweepingList sp @ rs\<rparr>))"
  using assms
proof (induction rs arbitrary: h sp)
  case Nil
  show ?case by (simp add: IncreaseLiveObjectSize_def)
next
  case (Cons r rs)
  let ?h = "update_region r (SwapRSetForConcurrentSweeping \<circ> ResetWasted) h"
  have f: "inCollectSet (region_at ?h q) = inCollectSet (region_at h q)" "aliveObject (region_at ?h q) = aliveObject (region_at h q)" for q
    by (simp_all add: region_at_def update_region_def SwapRSetForConcurrentSweeping_def ResetWasted_def)
  have "prepare_region r (h, sp) = (?h, IncreaseLiveObjectSize (aliveObject (region_at h r)) (sp\<lparr>sweepingList := sweepingList sp @ [r]\<rparr>))"
    using Cons.prems by (simp add: prepare_region_def on_region_def IncreaseLiveObjectSize_def)
  moreover have "\<forall>q \<in> set rs. \<not> inCollectSet (region_at ?h q)" using Cons.prems f by simp
  ultimately show ?case using Cons.IH [of ?h] by (simp add: f [unfolded comp_def] IncreaseLiveObjectSize_def add.assoc comp_def)
qed

lemma prepared_marking:
  assumes m: "marking_ok env h V h1" and rs: "distinct rs" "set rs = dom (regions h)"
  defines "h' \<equiv> fold (\<lambda>r. update_region r (SwapRSetForConcurrentSweeping \<circ> ResetWasted)) rs h1"
  shows "marking_ok env h V h'" "r \<in> set rs \<Longrightarrow> wasted (region_at h' r) = 0" "aliveObject (region_at h' r) = aliveObject (region_at h1 r)"
proof -
  let ?f = "SwapRSetForConcurrentSweeping \<circ> ResetWasted"
  have lay: "same_layout h h1" using m by (simp add: marking_ok_def)
  have sub: "set rs \<subseteq> dom (regions h1)" using rs(2) layout_regions(1) [OF lay] by simp
  note reg = fold_update_region [OF rs(1) sub, of ?f, folded h'_def]
  have core: "core (?f R) = core R" for R by (simp add: core_def SwapRSetForConcurrentSweeping_def ResetWasted_def)
  have "marked_in env h V q Q" if Q: "regions h' q = Some Q" for q Q
  proof -
    obtain R where R: "regions h1 q = Some R" "core Q = core R" using Q reg [of q] core by (cases "regions h1 q") (auto split: if_splits)
    then show ?thesis using m marked_in_core unfolding marking_ok_def by blast
  qed
  moreover have "same_layout h1 h'" unfolding h'_def
    by (rule fold_update_layout [OF rs(1) sub]) (simp add: layout_def SwapRSetForConcurrentSweeping_def ResetWasted_def)
  ultimately show "marking_ok env h V h'" using same_layout_trans [OF lay] by (simp add: marking_ok_def)
  show "wasted (region_at h' r) = 0" if r: "r \<in> set rs"
  proof -
    obtain R where "regions h1 r = Some R" using r sub by blast
    then show ?thesis using reg [of r] r by (simp add: region_at_def SwapRSetForConcurrentSweeping_def ResetWasted_def)
  qed
  show "aliveObject (region_at h' r) = aliveObject (region_at h1 r)"
  proof (cases "regions h1 r")
    case None
    then have "regions h' r = None" using reg [of r] by simp
    with None show ?thesis by (simp add: region_at_def)
  next
    case (Some R)
    then show ?thesis using reg [of r] by (simp add: region_at_def SwapRSetForConcurrentSweeping_def ResetWasted_def)
  qed
qed

lemma marking_uncollected: "marking_ok env h V h1 \<Longrightarrow> r \<in> dom (regions h) \<Longrightarrow> \<not> inCollectSet (region_at h1 r)"
proof -
  assume m: "marking_ok env h V h1" and r: "r \<in> dom (regions h)"
  have lay: "same_layout h h1" using m by (simp add: marking_ok_def)
  then obtain R where R: "regions h1 r = Some R" using r layout_regions(1) by blast
  then have "marked_in env h V r R" using m unfolding marking_ok_def by blast
  from marked_in_marks [OF this] show ?thesis using R by (simp add: region_marks_def region_at_def)
qed

lemma PrepareSweeping_spec:
  assumes at: "space_at h B L sp live" and u: "uncollected sp = {}" and keep: "set keep \<subseteq> set live" "distinct keep"
    and m: "marking_ok env h (fst ` set keep) h1" and sizes: "sizes_known env h keep"
  obtains h' al' rs where "mset rs = mset (regionList sp)" "PrepareSweeping (h1, sp) =
      Some (h', sp\<lparr>sweepingList := rs, sweepState := SWEEPING, sp_allocator := al', liveObjectSize := of_nat (bytes keep)\<rparr>)"
    "space_ok h' (sp\<lparr>sweepingList := rs, sweepState := SWEEPING, sp_allocator := al', liveObjectSize := of_nat (bytes keep)\<rparr>) keep"
    "marks_clear (set (regionList sp)) h'" "memory h' = memory h"
proof -
  note sh = space_shapeD [OF space_atD(1) [OF at]]
  have none: "sweepingList sp = []" "sweptList sp = []" using u by (simp_all add: uncollected_def)
  let ?rs = "regionList sp"
  define hp where "hp = fold (\<lambda>r. update_region r (SwapRSetForConcurrentSweeping \<circ> ResetWasted)) ?rs h1"
  note p = prepared_marking [OF m sh(1) sh(2) [symmetric], folded hp_def]
  define rs where "rs = sort_key (\<lambda>r. aliveObject (region_at hp r)) ?rs"
  have rs: "mset rs = mset ?rs" "set rs = set ?rs" "distinct rs" using sh(1) by (simp_all add: rs_def)
  obtain h2 al2 where reb: "RebuildFreeList (hp, sp_allocator sp) = Some (h2, al2)"
    "allocator_ok h2 (\<lambda>_. []) al2 (\<lambda>_. []) {} (concat (map (region_gaps h2 keep) ?rs) @ keep)"
    "same_core hp h2" "memory h2 = memory h" "bump_piece al2 = []" "list_available (freeList al2) = 0" "list_wasted (freeList al2) = 0"
    "\<And>r. wasted (region_at h2 r) = wasted (region_at hp r)"
    "\<And>r. r \<in> set ?rs \<Longrightarrow> ready h2 keep r" "(\<Sum>r\<leftarrow>?rs. aliveObject (region_at h2 r)) = of_nat (bytes keep)"
    "bytes (concat (map (region_gaps h2 keep) ?rs) @ keep) = (\<Sum>r\<leftarrow>?rs. data_size h r)"
    by (rule rebuild_marked [OF at u keep p(1) sizes], rule that)
  let ?fin = "sp\<lparr>sweepingList := rs, sweepState := SWEEPING, sp_allocator := al2, liveObjectSize := of_nat (bytes keep)\<rparr>"
  have U: "uncollected ?fin = set ?rs" using none rs by (simp add: uncollected_def)
  have ls: "distinct (sweepingList ?fin @ sweptList ?fin)" "uncollected ?fin \<subseteq> set ?rs" "sweepState ?fin \<noteq> SWEEPING \<Longrightarrow> uncollected ?fin = {}"
    using none(2) rs(3) by (simp, simp only: U subset_refl, simp)
  have eqs: "regionList ?fin = ?rs" "objectSize ?fin = objectSize sp" "committedSize ?fin = committedSize sp" by simp_all
  note shape = marked_shape [OF space_atD(1) [OF at] p(1) reb(3) eqs ls]
  have perm: "mset (concat (map (region_gaps h2 keep) ?rs) @ keep) = mset (pending h2 ?fin keep @ keep)"
    using rs(1) by (simp add: pending_def mset_concat flip: sum_mset_sum_list)
  have "allocator_ok h2 (\<lambda>_. []) al2 (\<lambda>_. []) (set ?rs) (concat (map (region_gaps h2 keep) ?rs) @ keep)"
    using reb(2,5) by (simp add: allocator_ok_def parcelled_def listed_def bump_piece_def split: if_splits)
  then have aok: "allocator_ok h2 (\<lambda>_. []) al2 (\<lambda>_. []) (uncollected ?fin) (pending h2 ?fin keep @ keep)"
    using allocator_perm [OF perm] U by simp
  have "stock al2 (pending h2 ?fin keep @ keep) = of_nat (\<Sum>r\<leftarrow>?rs. data_size h r)"
    using reb(5-7,11) stock_perm [OF perm, of al2] by (simp add: stock_def)
  moreover have "unlisted_bytes h2 (\<lambda>_. []) r = 0" if "r \<in> set ?rs" for r
    using p(2) [OF that] reb(8) by (simp add: unlisted_bytes_def set_size_def)
  ultimately have "space_at h2 (\<lambda>_. []) (\<lambda>_. []) ?fin keep"
    using aok sh(4) none reb(9) rs(2) by (intro space_atI [OF shape(1)]) simp_all
  then have "space_ok h2 ?fin keep" by (auto simp: space_ok_def)
  moreover have "PrepareSweeping (h1, sp) = Some (h2, ?fin)"
  proof -
    have "\<forall>r \<in> set ?rs. \<not> inCollectSet (region_at h1 r)" using marking_uncollected [OF m] sh(2) by blast
    note pr = prepare_regions [OF this, folded hp_def]
    have "aliveObject (region_at h2 r) = aliveObject (region_at h1 r)" if "r \<in> set ?rs" for r
    proof -
      have "r \<in> dom (regions hp)" using that space_shapeD(2) [OF shape(1)] same_core_dom [OF reb(3)] by simp
      then obtain R where R: "regions hp r = Some R" by blast
      obtain Q where "regions h2 r = Some Q" "core Q = core R" using same_core_region [OF reb(3) R] by metis
      then show ?thesis using p(3) [of r] R core_fields(6) [of Q R] by (simp add: region_at_def)
    qed
    then have "(\<Sum>r\<leftarrow>?rs. aliveObject (region_at h1 r)) = (\<Sum>r\<leftarrow>?rs. aliveObject (region_at h2 r))"
      by (intro arg_cong [where f = sum_list] map_cong) simp_all
    then show ?thesis using reb(1,10) none
      by (simp add: PrepareSweeping_def pr SortSweepingRegion_def SparseSpace_RebuildFreeList_def IncreaseLiveObjectSize_def rs_def)
  qed
  ultimately show ?thesis using rs(1) shape(2) reb(4) by (intro that)
qed

section \<open>A collection\<close>

lemma finish_sweep_running:
  assumes run: "running env X M h sp live"
  obtains h' sp' where "finish_sweep env (h, sp) = (h', sp')" "running env X M h' sp' live" "uncollected sp' = {}"
    "\<And>i. in_pieces live i \<Longrightarrow> memory h' i = memory h i" "regionList sp' = regionList sp" "sweepState sp' \<noteq> SWEEPING"
    "dom (regions h') = dom (regions h)" "objectSize sp' = objectSize sp"
proof -
  obtain B L where at: "space_at h B L sp live" by (rule runningE [OF run])
  have shape: "dom (regions k) = set (regionList s)" if run: "running env X M k s live" for k s
  proof -
    obtain B L where "space_at k B L s live" by (rule runningE [OF run])
    then show ?thesis using space_shapeD(2) space_atD(1) by blast
  qed
  show ?thesis
  proof (cases "sweepState sp = SWEEPING")
    case True
    show ?thesis
    proof (rule finish_running [OF run])
      fix h' al'
      let ?sp = "sp\<lparr>sweepingList := [], sweptList := [], sweepState := SWEPT, sp_allocator := al'\<rparr>"
      assume f: "EnsureTaskFinished env (h, sp) = (h', ?sp)" "running env X M h' ?sp live" "\<And>i. in_pieces live i \<Longrightarrow> memory h' i = memory h i"
      show ?thesis by (rule that [of h' ?sp]) (use f True shape [OF run] shape [OF f(2)] in \<open>simp_all add: finish_sweep_def uncollected_def\<close>)
    qed
  next
    case False
    then show ?thesis using that [of h sp] run space_shapeD(8) [OF space_atD(1) [OF at]] by (simp add: finish_sweep_def)
  qed
qed

lemma ConcurrentSweeper_Sweep_spec:
  assumes at: "space_at h B L sp live" and u: "uncollected sp = {}" and keep: "set keep \<subseteq> set live" "distinct keep"
    and m: "marking_ok env h (fst ` set keep) h1" and sizes: "sizes_known env h keep" and small: "small_space sp"
  obtains h' sp' where "ConcurrentSweeper_Sweep env (h1, sp) = Some (h', sp')" "running env (set (regionList sp)) keep h' sp' keep"
    "\<And>i. in_pieces keep i \<Longrightarrow> memory h' i = memory h i" "regionList sp' = regionList sp"
    "objectSize sp' = objectSize sp"
proof -
  have ml: "marked_live env h' sp' keep keep" if "\<And>i. in_pieces keep i \<Longrightarrow> memory h' i = memory h i" for h' sp'
    using sizes_known_memory [OF sizes that] by (auto simp: marked_live_def set_objs_in)
  show ?thesis
  proof (cases "ConcurrentSweepEnabled env")
    case True
    show ?thesis
    proof (rule PrepareSweeping_spec [OF at u keep m sizes])
      fix h' al' rs
      let ?sp = "sp\<lparr>sweepingList := rs, sweepState := SWEEPING, sp_allocator := al', liveObjectSize := of_nat (bytes keep)\<rparr>"
      assume p: "mset rs = mset (regionList sp)" "PrepareSweeping (h1, sp) = Some (h', ?sp)" "space_ok h' ?sp keep"
        "marks_clear (set (regionList sp)) h'" "memory h' = memory h"
      show ?thesis by (rule that [of h' ?sp]) (use True p small ml in \<open>simp_all add: ConcurrentSweeper_Sweep_def running_def small_space_def\<close>)
    qed
  next
    case False
    show ?thesis
    proof (rule Sweep_spec [OF at u keep m sizes])
      fix h' al'
      let ?sp = "sp\<lparr>sp_allocator := al', liveObjectSize := of_nat (bytes keep)\<rparr>"
      assume p: "Sweep env (h1, sp) = Some (h', ?sp)" "space_ok h' ?sp keep" "marks_clear (set (regionList sp)) h'"
        "\<And>i. in_pieces keep i \<Longrightarrow> memory h' i = memory h i"
      show ?thesis by (rule that [of h' ?sp]) (use False p small ml in \<open>simp_all add: ConcurrentSweeper_Sweep_def running_def small_space_def\<close>)
    qed
  qed
qed

lemma collect_space_spec:
  assumes run: "running env {} M h sp live" and keep: "set keep \<subseteq> set live" "distinct keep"
    and v: "set visited = fst ` set keep" and sizes: "sizes_known env h keep"
  obtains h' sp' where "collect_space env visited (h, sp) = Some (h', sp')" "running env (set (regionList sp)) keep h' sp' keep"
    "\<And>i. in_pieces keep i \<Longrightarrow> memory h' i = memory h i" "regionList sp' = regionList sp" "objectSize sp' = objectSize sp"
proof -
  let ?env = "env\<lparr>IsConcurrentFullMark := True\<rparr>"
  have full: "running ?env X N k s xs = running env X N k s xs" for X N k s xs
    by (simp add: running_def marked_live_def sizes_known_def)
  have run': "running ?env {} M h sp live" using run by (simp add: full)
  obtain h0 sp0 where f: "finish_sweep ?env (h, sp) = (h0, sp0)" "running ?env {} M h0 sp0 live" "uncollected sp0 = {}"
    "\<And>i. in_pieces live i \<Longrightarrow> memory h0 i = memory h i" "regionList sp0 = regionList sp" "objectSize sp0 = objectSize sp"
    by (rule finish_sweep_running [OF run'], rule that)
  obtain B L where at: "space_at h0 B L sp0 live" by (rule runningE [OF f(2)])
  define h1 where "h1 = fold (mark_object ?env) visited (start_marking (regionList sp0) h0)"
  have m: "marking_ok ?env h0 (fst ` set keep) h1" unfolding h1_def
    by (rule after_marking [OF _ at runningD(3) [OF f(2)] keep(1) v]) simp
  have mem: "memory h0 i = memory h i" if "in_pieces keep i" for i using f(4) in_pieces_mono [OF keep(1) that] by simp
  have "sizes_known ?env h keep" using sizes by (simp add: sizes_known_def)
  then have sizes0: "sizes_known ?env h0 keep" using mem by (rule sizes_known_memory)
  obtain h' sp' where s: "ConcurrentSweeper_Sweep ?env (h1, sp0) = Some (h', sp')" "running ?env (set (regionList sp0)) keep h' sp' keep"
    "\<And>i. in_pieces keep i \<Longrightarrow> memory h' i = memory h0 i" "regionList sp' = regionList sp0" "objectSize sp' = objectSize sp0"
    by (rule ConcurrentSweeper_Sweep_spec [OF at f(3) keep m sizes0 runningD(2) [OF f(2)]], rule that)
  show ?thesis
  proof (rule that)
    show "collect_space env visited (h, sp) = Some (h', sp')" using f(1) s(1) by (simp add: collect_space_def h1_def)
    show "running env (set (regionList sp)) keep h' sp' keep" using s(2) f(5) by (simp add: full)
    show "memory h' i = memory h i" if "in_pieces keep i" for i using s(3) mem that by simp
  qed (use s f in simp_all)
qed

lemma reclaim_running:
  assumes run: "running env (set rs) M h sp live" and rs: "distinct rs" and none: "sweepingList sp = []"
  shows "running env {} [] (reclaim_marks rs h) sp live" "memory (reclaim_marks rs h) = memory h"
proof -
  let ?h = "reclaim_marks rs h"
  obtain B L where at: "space_at h B L sp live" by (rule runningE [OF run])
  note d = space_atD [OF at] and sh = space_shapeD [OF space_atD(1) [OF at]]
  have sub: "set rs \<subseteq> dom (regions h)" using runningD(3) [OF run] by (simp add: marks_clear_def)
  note reg = fold_update_region [OF rs sub, of "ClearCrossRegionRSet \<circ> ClearMarkGCBitset", folded reclaim_marks_def]
  have lay: "same_layout h ?h" unfolding reclaim_marks_def
    by (rule fold_update_layout [OF rs sub]) (simp add: layout_def ClearCrossRegionRSet_def ClearMarkGCBitset_def)
  show "memory ?h = memory h" by (simp add: reclaim_marks_def)
  have R: "region_marks R \<and> markGCBitset R = replicate 1024 0" if R: "regions ?h r = Some R" for r R
  proof (cases "r \<in> set rs")
    case True
    then obtain Q where Q: "regions h r = Some Q" "R = ClearCrossRegionRSet (ClearMarkGCBitset Q)"
      using R reg [of r] by auto
    have q: "region_marks Q" by (rule sh(3) [OF Q(1)])
    have "Bitset_Clear (markGCBitset Q) 4096 = replicate 1024 0"
    proof (rule nth_equalityI)
      fix i assume "i < length (Bitset_Clear (markGCBitset Q) 4096)"
      then show "Bitset_Clear (markGCBitset Q) 4096 ! i = replicate 1024 0 ! i"
        using q by (simp add: region_marks_def Bitset_Clear_def nth_fold_zero)
    qed (use q in \<open>simp add: region_marks_def\<close>)
    then show ?thesis using q Q(2) by (simp add: region_marks_def ClearCrossRegionRSet_def ClearMarkGCBitset_def)
  next
    case False
    then have "regions h r = Some R" using R reg [of r] by simp
    then show ?thesis using sh(3) False runningD(3) [OF run] by (simp add: marks_clear_def)
  qed
  have wasted: "wasted (region_at ?h r) = wasted (region_at h r)" for r
    by (cases "regions h r") (use reg [of r] in \<open>auto simp: region_at_def ClearCrossRegionRSet_def ClearMarkGCBitset_def\<close>)
  have shape: "space_shape ?h sp"
    by (rule shape_transfer [OF d(1)]) (use layout_regions [OF lay] R sh in auto)
  have "space_at ?h B L sp live"
    using allocator_layout [OF lay d(2)] d(3,4) none unlisted_layout(1) [OF lay wasted] shape
    by (intro space_atI) (simp_all add: pending_def)
  moreover have "marks_clear {} ?h" using R by (auto simp: marks_clear_def)
  ultimately show "running env {} [] ?h sp live"
    using runningD(2) [OF run] none by (auto simp: running_def space_ok_def marked_live_def sizes_known_def)
qed

end
