(* ===== verification/Heap_Props.thy ===== *)
theory Heap_Props
  imports Space_Collect
begin

text \<open>
  What a sparse space promises to the rest of the runtime, over every sequence of its operations:
  initialisation, allocation (with growth and with collections), writes of the program into live objects, collections, and the steps
  of the sweeper in between.
\<close>

section \<open>Runs of a space\<close>

text \<open>
  \<open>space_run env cap rs M h sp live\<close>: a space of maximum capacity \<open>cap\<close> has come to the state \<open>(h, sp)\<close> and the
  program holds the objects \<open>live\<close> (addresses with sizes).  A collection keeps the objects \<open>keep\<close>, whose
  addresses are the ones the marker visits, in any order and any number of times.  \<open>rs\<close> are the regions whose mark
  bits it leaves to \<open>Heap::ReclaimRegions\<close>, which waits until no region is to be swept; \<open>M\<close> are the objects it marked.
  Until then the program must not change the size of a marked object, since the sweeper reads it.  The next
  collection waits for the mark bits to be cleared (\<open>Heap::Prepare\<close>).  \<open>allocate\<close> is an allocation that starts no collection;
  one that may start collections is made of the steps here, and the next section shows that it continues the run.
\<close>

inductive space_run :: "environment \<Rightarrow> u64 \<Rightarrow> nat list \<Rightarrow> piece list \<Rightarrow> heap \<Rightarrow> space \<Rightarrow> piece list \<Rightarrow> bool" for env cap where
  initialize: "regions h0 = Map.empty \<Longrightarrow> classes_ok h0 \<Longrightarrow> SparseSpace_Initialize env (h0, new_SparseSpace cap) = (h, sp) \<Longrightarrow>
    space_run env cap [] [] h sp []"
| allocate: "space_run env cap rs M h sp live \<Longrightarrow> 0 < n \<Longrightarrow> n mod 8 = 0 \<Longrightarrow> n < 2 ^ 63 \<Longrightarrow>
    SparseSpace_Allocate (env\<lparr>IsConcurrentFullMark := full, IsReadyToMark := rdy\<rparr>) n False (h, sp) = Some ((h', sp'), a) \<Longrightarrow>
    space_run env cap rs M h' sp' (if a = 0 then live else (a, n) # live)"
| expand: "space_run env cap rs M h sp live \<Longrightarrow> Expand env (h, sp) = (b, (h', sp')) \<Longrightarrow> space_run env cap rs M h' sp' live"
| overshoot: "space_run env cap rs M h sp live \<Longrightarrow> over \<le> 2 ^ 38 \<Longrightarrow> oom \<le> 2 ^ 38 \<Longrightarrow>
    space_run env cap rs M h (sp\<lparr>overshootSize := over, outOfMemoryOvershootSize := oom\<rparr>) live"
| mutate: "space_run env cap rs M h sp live \<Longrightarrow> in_pieces live i \<Longrightarrow> sizes_known env (store i v h) M \<Longrightarrow>
    space_run env cap rs M (store i v h) sp live"
| collect: "space_run env cap [] M h sp live \<Longrightarrow> set keep \<subseteq> set live \<Longrightarrow> distinct keep \<Longrightarrow> set visited = fst ` set keep \<Longrightarrow>
    sizes_known env h keep \<Longrightarrow> collect_space env visited (h, sp) = Some (h', sp') \<Longrightarrow>
    space_run env cap (regionList sp) keep h' sp' keep"
| background: "space_run env cap rs M h sp live \<Longrightarrow> background_step env (h, sp) = (h', sp') \<Longrightarrow> space_run env cap rs M h' sp' live"
| fill: "space_run env cap rs M h sp live \<Longrightarrow> TryFillSweptRegion (h, sp) = (b, (h', sp')) \<Longrightarrow> space_run env cap rs M h' sp' live"
| finish: "space_run env cap rs M h sp live \<Longrightarrow> finish_sweep env (h, sp) = (h', sp') \<Longrightarrow> space_run env cap rs M h' sp' live"
| reclaim: "space_run env cap rs M h sp live \<Longrightarrow> sweepingList sp = [] \<Longrightarrow> space_run env cap [] [] (reclaim_marks rs h) sp live"

lemma running_regions: "running env X M h sp live \<Longrightarrow> distinct (regionList sp)"
  by (erule runningE) (rule space_shapeD(1) [OF space_atD(1)])

lemma Expand_running:
  assumes run: "running env X M h sp live" and env: "memory_available env"
  obtains (full) "Expand env (h, sp) = (False, (h, sp))" "CommittedSizeExceed sp"
  | (grown) h' sp' where "Expand env (h, sp) = (True, (h', sp'))" "running env X M h' sp' live"
      "bp_top (sp_allocator sp') + (DEFAULT_REGION_SIZE - 4272) = bp_end (sp_allocator sp')"
proof -
  obtain B L where at: "space_at h B L sp live" by (rule runningE [OF run])
  show ?thesis
  proof (cases rule: Expand_spec [OF at env runningD(2) [OF run], where X = X])
    case g: (2 h1 sp1 B1 L1)
    have "running env X M h1 sp1 live" by (rule running_step [OF run g(2,3)]) (use g in auto)
    then show ?thesis using grown g(1,10) by blast
  qed (rule full)
qed

lemma overshoot_running:
  assumes "running env X M h sp live" "over \<le> 2 ^ 38" "oom \<le> 2 ^ 38"
  shows "running env X M h (sp\<lparr>overshootSize := over, outOfMemoryOvershootSize := oom\<rparr>) live"
proof -
  have "space_at h B L (sp\<lparr>overshootSize := over, outOfMemoryOvershootSize := oom\<rparr>) live = space_at h B L sp live" for B L
    by (simp add: space_at_def space_shape_def uncollected_def pending_def)
  then show ?thesis using assms by (simp add: running_def space_ok_def small_space_def marked_live_def)
qed

lemma space_run_ok:
  assumes env: "memory_available env" "cap \<le> 2 ^ 39" and run: "space_run env cap rs M h sp live"
  shows "running env (set rs) M h sp live \<and> distinct rs"
  using run
proof (induction rule: space_run.induct)
  case (initialize h0 h sp)
  show ?case
    by (rule Initialize_spec [OF initialize(1,2) env], insert initialize(3))
      (auto simp: running_def marked_live_def sizes_known_def space_ok_def uncollected_def dest!: space_atD(1) space_shapeD(8))
next
  case (allocate rs M h sp live n rdy full h' sp' a)
  then have run: "running (env\<lparr>IsConcurrentFullMark := full, IsReadyToMark := rdy\<rparr>) (set rs) M h sp live" by simp
  show ?case
    by (rule Allocate_running [OF run _ allocate(2-4)]) (use env(1) allocate in auto)
next
  case (expand rs M h sp live b h' sp')
  then have run: "running env (set rs) M h sp live" by simp
  show ?case by (rule Expand_running [OF run env(1)]) (use expand in auto)
next
  case (overshoot rs M h sp live over oom)
  then show ?case using overshoot_running by blast
next
  case (mutate rs M h sp live i v)
  then show ?case using write_running by blast
next
  case (collect M h sp live keep visited h' sp')
  then have run: "running env {} M h sp live" by simp
  show ?case
    by (rule collect_space_spec [OF run collect(2-5)]) (use collect(6) running_regions [OF run] in auto)
next
  case (background rs M h sp live h' sp')
  then show ?case using background_running [of env "set rs" M h sp live] by auto
next
  case (fill rs M h sp live b h' sp')
  then have run: "running env (set rs) M h sp live" by simp
  show ?case by (rule fill_running [OF run]) (use fill in auto)
next
  case (finish rs M h sp live h' sp')
  then have run: "running env (set rs) M h sp live" by simp
  show ?case by (rule finish_sweep_running [OF run]) (use finish in auto)
next
  case (reclaim rs M h sp live)
  then show ?case using reclaim_running by auto
qed

lemma live_pieces:
  assumes "running env X M h sp live"
  shows "(a, n) \<in> set live \<Longrightarrow> a mod 8 = 0 \<and> (\<exists>r \<in> set (regionList sp). in_data h r a n)" "sorted_wrt apart_from live"
    "liveObjectSize sp = of_nat (bytes live)"
proof -
  obtain B L where at: "space_at h B L sp live" by (rule runningE [OF assms])
  note px = space_pieces [OF at]
  show "sorted_wrt apart_from live" using px(3) by (simp add: pieces_ok_def)
  show "liveObjectSize sp = of_nat (bytes live)" by (rule space_atD(3) [OF at])
  assume an: "(a, n) \<in> set live"
  then have "piece_ok h B (a, n)" using px(3) by (simp add: pieces_ok_def)
  moreover have "ObjectAddressToRange a \<in> set (regionList sp)" "in_data h (ObjectAddressToRange a) a n"
    using live_region [OF space_atD(2) [OF at], of a n] an space_shapeD(2) [OF space_atD(1) [OF at]] by simp_all
  ultimately show "a mod 8 = 0 \<and> (\<exists>r \<in> set (regionList sp). in_data h r a n)" by (auto simp: piece_ok_def)
qed

lemma space_accounting:
  assumes run: "running env X M h sp live" and none: "uncollected sp = {}"
  shows "GetAvailableSize (sp_allocator sp) + GetWastedSize (sp_allocator sp) + of_nat (bytes live) = objectSize sp"
proof -
  obtain B L where at: "space_at h B L sp live" by (rule runningE [OF run])
  note d = space_atD [OF at]
  have "of_nat (Bump_Available (sp_allocator sp)) = (of_nat (bytes (bump_piece (sp_allocator sp))) :: u64)"
    using allocator_okD(4,7) [OF d(2)] by (simp add: bump_piece_def)
  then show ?thesis using d(4) none
    by (simp add: uncollected_def pending_def GetAvailableSize_def GetWastedSize_def stock_def)
qed

lemma space_checked:
  assumes run: "running env X M h sp live"
  shows "\<exists>h' sp'. CheckRegionSize env (h, sp) = ((h', sp'), True) \<and> (\<forall>i. in_pieces live i \<longrightarrow> memory h' i = memory h i)"
proof -
  obtain h' sp' where f: "finish_sweep env (h, sp) = (h', sp')" "running env X M h' sp' live" "uncollected sp' = {}"
    "\<And>i. in_pieces live i \<Longrightarrow> memory h' i = memory h i" by (rule finish_sweep_running [OF run], rule that)
  have "CheckRegionSize env (h, sp) = ((h', sp'), True)"
    using f(1) space_accounting [OF f(2,3)] live_pieces(3) [OF f(2)]
    by (simp add: CheckRegionSize_def finish_sweep_def ac_simps)
  then show ?thesis using f(4) by auto
qed

section \<open>Allocations that may start collections\<close>

text \<open>
  A collection keeps some of the live objects and may move them.  \<open>collector_ok\<close> is what an allocation needs of
  the collections it starts (\<open>Heap::CheckAndTriggerOldGC\<close> and \<open>Heap::CollectGarbage\<close>): after a collection the space is
  in a state of a run again, in which the program holds the objects that were kept, wherever they are now.
\<close>

definition relocated :: "piece list \<Rightarrow> piece list \<Rightarrow> bool" where
  "relocated live live' \<longleftrightarrow> (\<exists>keep move. set keep \<subseteq> set live \<and> live' = map (\<lambda>(a, n). (move a, n)) keep)"

definition collector_ok :: "environment \<Rightarrow> u64 \<Rightarrow> (space_state \<Rightarrow> space_state) \<Rightarrow> bool" where
  "collector_ok env cap collector \<longleftrightarrow> (\<forall>rs M h sp live h' sp'. space_run env cap rs M h sp live \<and> collector (h, sp) = (h', sp') \<longrightarrow>
     (\<exists>rs' M' live'. relocated live live' \<and> space_run env cap rs' M' h' sp' live'))"

lemma relocated_refl: "relocated live live"
  unfolding relocated_def by (intro exI [of _ live] exI [of _ id]) simp

lemma relocated_trans:
  assumes "relocated live live'" "relocated live' live''"
  shows "relocated live live''"
proof -
  obtain keep move where a: "set keep \<subseteq> set live" "live' = map (\<lambda>(a, n). (move a, n)) keep" using assms(1) by (auto simp: relocated_def)
  obtain keep' move' where b: "set keep' \<subseteq> set live'" "live'' = map (\<lambda>(a, n). (move' a, n)) keep'" using assms(2) by (auto simp: relocated_def)
  have "\<forall>p \<in> set keep'. \<exists>q. q \<in> set keep \<and> (\<lambda>(a, n). (move a, n)) q = p" using a(2) b(1) by fastforce
  then obtain origin where o: "\<And>p. p \<in> set keep' \<Longrightarrow> origin p \<in> set keep \<and> (\<lambda>(a, n). (move a, n)) (origin p) = p" by metis
  have "live'' = map (\<lambda>(a, n). ((move' \<circ> move) a, n)) (map origin keep')"
    unfolding b(2) using o by (force simp: case_prod_beta)
  moreover have "set (map origin keep') \<subseteq> set live" using o a(1) by auto
  ultimately show ?thesis unfolding relocated_def by blast
qed

text \<open>A collection by marking and sweeping does what \<open>collector_ok\<close> asks for, and moves nothing.\<close>

lemma mark_sweep_relocated:
  assumes "space_run env cap [] M h sp live" "set keep \<subseteq> set live" "distinct keep" "set visited = fst ` set keep"
    "sizes_known env h keep" "collect_space env visited (h, sp) = Some (h', sp')"
  shows "\<exists>rs' M' live'. relocated live live' \<and> space_run env cap rs' M' h' sp' live'"
proof -
  have "relocated live keep" unfolding relocated_def using assms(2) by (intro exI [of _ keep] exI [of _ id]) simp
  then show ?thesis using space_run.collect [OF assms] by blast
qed

text \<open>The result of an allocation of \<open>n\<close> bytes: the run continues, with the new object if there is one.\<close>

definition continues :: "environment \<Rightarrow> u64 \<Rightarrow> nat \<Rightarrow> piece list \<Rightarrow> (space_state \<times> nat) option \<Rightarrow> bool" where
  "continues env cap n live res \<longleftrightarrow> (\<exists>h' sp' a rs' M' live'. res = Some ((h', sp'), a) \<and> relocated live live' \<and>
     space_run env cap rs' M' h' sp' (if a = 0 then live' else (a, n) # live') \<and>
     (a = 0 \<longrightarrow> CommittedSizeExceed sp' \<or> DEFAULT_REGION_SIZE - 4272 < n))"

lemma continuesI:
  "res = Some ((h', sp'), a) \<Longrightarrow> relocated live live' \<Longrightarrow> space_run env cap rs M h' sp' (if a = 0 then live' else (a, n) # live') \<Longrightarrow>
    (a = 0 \<Longrightarrow> CommittedSizeExceed sp' \<or> DEFAULT_REGION_SIZE - 4272 < n) \<Longrightarrow> continues env cap n live res"
  unfolding continues_def by blast

lemma continuesE:
  assumes "continues env cap n live res"
  obtains h' sp' a rs' M' live' where "res = Some ((h', sp'), a)" "relocated live live'"
    "space_run env cap rs' M' h' sp' (if a = 0 then live' else (a, n) # live')" "a = 0 \<longrightarrow> CommittedSizeExceed sp' \<or> DEFAULT_REGION_SIZE - 4272 < n"
  using assms unfolding continues_def by blast

lemma EnsureTaskFinished_env:
  assumes env: "SizeFromJSHClass env' = SizeFromJSHClass env" "ConcurrentSweepEnabled env' = ConcurrentSweepEnabled env"
  shows "EnsureTaskFinished env' st = EnsureTaskFinished env st"
proof -
  have range: "FreeLiveRange env' = FreeLiveRange env" by (intro ext) (simp add: FreeLiveRange_def ClearRSetInRange_def [abs_def] env)
  then have "sweep_object env' = sweep_object env" by (intro ext) (simp add: sweep_object_def env split: prod.split)
  then have "FreeRegion env' = FreeRegion env" using range by (intro ext) (simp add: FreeRegion_def Let_def split: prod.split)
  then have "sweep_async env' = sweep_async env" by (intro ext) (simp add: sweep_async_def)
  then have "AsyncSweep env' True st = AsyncSweep env True st"
    by (induction env True st rule: AsyncSweep.induct) (simp split: prod.split option.split)
  then show ?thesis by (simp add: EnsureTaskFinished_def)
qed

lemma Expand_flags: "Expand (env\<lparr>IsConcurrentFullMark := full, IsReadyToMark := rdy\<rparr>) st = Expand env st"
  by (cases st) (simp add: Expand_def new_space_region_def)

text \<open>
  The parts of an allocation one after the other: what follows an attempt continues the run in every state the attempt
  can leave.  \<open>marker env full rdy\<close> is the environment with the state of the marker.
\<close>

abbreviation marker :: "environment \<Rightarrow> bool \<Rightarrow> bool \<Rightarrow> environment" where
  "marker env full rdy \<equiv> env\<lparr>IsConcurrentFullMark := full, IsReadyToMark := rdy\<rparr>"

definition allocation_ok :: "environment \<Rightarrow> u64 \<Rightarrow> nat \<Rightarrow> bool" where
  "allocation_ok env cap n \<longleftrightarrow> memory_available env \<and> cap \<le> 2 ^ 39 \<and> 0 < n \<and> n mod 8 = 0 \<and> n < 2 ^ 63"

lemma allocation_okD:
  assumes "allocation_ok env cap n"
  shows "memory_available env" "cap \<le> 2 ^ 39" "0 < n" "n mod 8 = 0" "n < 2 ^ 63"
  using assms by (simp_all add: allocation_ok_def)

lemma run_running: "allocation_ok env cap n \<Longrightarrow> space_run env cap rs M h sp live \<Longrightarrow> running (marker env full rdy) (set rs) M h sp live"
  using space_run_ok [OF allocation_okD(1,2)] by simp

lemma attempt:
  assumes ok: "allocation_ok env cap n" and run: "space_run env cap rs M h sp live'" and moved: "relocated live live'"
  obtains (got) st a where "allocator_Allocate n (h, sp) = Some (st, a)" "a \<noteq> 0"
      "continues env cap n live (Some (count_object (marker env full rdy) n a st, a))"
  | (none) "allocator_Allocate n (h, sp) = Some ((h, sp), 0)" "bp_end (sp_allocator sp) < bp_top (sp_allocator sp) + n"
proof (cases rule: allocate_running [OF run_running [OF ok run, where full = full and rdy = rdy] allocation_okD(3-5) [OF ok]])
  case (1 st a)
  then have a: "a \<noteq> 0" by (simp add: found_def)
  obtain h' sp' where c: "count_object (marker env full rdy) n a st = (h', sp')" by (cases "count_object (marker env full rdy) n a st")
  have "SparseSpace_Allocate (marker env full rdy) n False (h, sp) = Some ((h', sp'), a)"
    using 1(1) a c by (simp add: SparseSpace_Allocate_def allocate_no_gc_def check_object_def)
  then have "space_run env cap rs M h' sp' (if a = 0 then live' else (a, n) # live')"
    by (rule space_run.allocate [OF run allocation_okD(3-5) [OF ok]])
  then show ?thesis using got [OF 1(1) a] c a continuesI [OF refl moved] by simp
qed (rule none)

lemma attempt_continues:
  assumes "allocation_ok env cap n" "space_run env cap rs M h sp live'" "relocated live live'" "continues env cap n live (rest (h, sp))"
  shows "continues env cap n live (check_object (marker env full rdy) n (allocator_Allocate n (h, sp)) rest)"
  by (rule attempt [OF assms(1-3), where full = full and rdy = rdy]) (use assms(4) in \<open>auto simp: check_object_def\<close>)

lemma sweeping_continues:
  assumes ok: "allocation_ok env cap n" and run: "space_run env cap rs M h sp live'" and moved: "relocated live live'" and sweeping: "sweepState sp = SWEEPING"
    and rest: "\<And>h' sp'. space_run env cap rs M h' sp' live' \<Longrightarrow> continues env cap n live (rest (h', sp'))"
  shows "continues env cap n live (check_object (marker env full rdy) n (AllocateAfterSweepingCompleted (marker env full rdy) n (h, sp)) rest)"
proof -
  obtain b h1 sp1 where f: "TryFillSweptRegion (h, sp) = (b, (h1, sp1))" "sweepState sp1 = SWEEPING"
    by (rule fill_running [OF run_running [OF ok run]]) (use sweeping in auto)
  have run1: "space_run env cap rs M h1 sp1 live'" by (rule space_run.fill [OF run f(1)])
  obtain h2 sp2 where e: "EnsureTaskFinished env (h1, sp1) = (h2, sp2)" by (cases "EnsureTaskFinished env (h1, sp1)")
  have run2: "space_run env cap rs M h2 sp2 live'" by (rule space_run.finish [OF run1]) (use e f(2) in \<open>simp add: finish_sweep_def\<close>)
  have last: "continues env cap n live (check_object (marker env full rdy) n (allocator_Allocate n (EnsureTaskFinished (marker env full rdy) (h1, sp1))) rest)"
    using attempt_continues [OF ok run2 moved, where rest = rest] rest [OF run2] e by (simp add: EnsureTaskFinished_env [of "marker env full rdy" env])
  show ?thesis
  proof (cases b)
    case True
    show ?thesis by (rule attempt [OF ok run1 moved, where full = full and rdy = rdy])
        (use True f(1) last in \<open>auto simp: AllocateAfterSweepingCompleted_def check_object_def\<close>)
  qed (use f(1) last in \<open>simp add: AllocateAfterSweepingCompleted_def\<close>)
qed

lemma expand_continues:
  assumes ok: "allocation_ok env cap n" and run: "space_run env cap rs M h sp live'" and moved: "relocated live live'"
    and rest: "\<And>h' sp'. space_run env cap rs M h' sp' live' \<Longrightarrow> CommittedSizeExceed sp' \<or> DEFAULT_REGION_SIZE - 4272 < n \<Longrightarrow>
      continues env cap n live (rest (h', sp'))"
  shows "continues env cap n live (allocate_expand (marker env full rdy) n rest (h, sp))"
proof (cases rule: Expand_running [OF run_running [OF ok run, unfolded running_flags] allocation_okD(1) [OF ok]])
  case 1
  then show ?thesis using rest [OF run] by (simp add: allocate_expand_def Expand_flags)
next
  case (2 h1 sp1)
  have run1: "space_run env cap rs M h1 sp1 live'" by (rule space_run.expand [OF run 2(1)])
  have eq: "allocate_expand (marker env full rdy) n rest (h, sp) = check_object (marker env full rdy) n (allocator_Allocate n (h1, sp1)) rest"
    using 2(1) by (simp add: allocate_expand_def Expand_flags)
  show ?thesis unfolding eq
    by (rule attempt [OF ok run1 moved, where full = full and rdy = rdy]) (use 2(3) rest [OF run1] in \<open>auto simp: check_object_def\<close>)
qed

lemma sweep_or_not_continues:
  assumes ok: "allocation_ok env cap n" and run: "space_run env cap rs M h sp live'" and moved: "relocated live live'"
    and rest: "\<And>h' sp'. space_run env cap rs M h' sp' live' \<Longrightarrow> continues env cap n live (rest (h', sp'))"
  shows "continues env cap n live (check_object (marker env full rdy) n (allocator_Allocate n (h, sp)) (\<lambda>st. check_object (marker env full rdy) n
    (if sweepState (snd st) = SWEEPING then AllocateAfterSweepingCompleted (marker env full rdy) n st else Some (st, 0)) rest))"
proof (rule attempt_continues [OF ok run moved], cases "sweepState sp = SWEEPING")
  case True
  then show "continues env cap n live (check_object (marker env full rdy) n (if sweepState (snd (h, sp)) = SWEEPING
      then AllocateAfterSweepingCompleted (marker env full rdy) n (h, sp) else Some ((h, sp), 0)) rest)"
    using sweeping_continues [OF ok run moved True, where rest = rest] rest by simp
next
  case False
  then show "continues env cap n live (check_object (marker env full rdy) n (if sweepState (snd (h, sp)) = SWEEPING
      then AllocateAfterSweepingCompleted (marker env full rdy) n (h, sp) else Some ((h, sp), 0)) rest)"
    using rest [OF run] by (simp add: check_object_def)
qed

lemma no_gc_continues:
  assumes "allocation_ok env cap n" "space_run env cap rs M h sp live'" "relocated live live'"
  shows "continues env cap n live (allocate_no_gc (marker env full rdy) n (h, sp))"
  unfolding allocate_no_gc_def
  by (intro sweep_or_not_continues [OF assms] expand_continues [OF assms(1) _ assms(3)]) (auto intro: continuesI [OF refl assms(3)])

lemma collection_continues:
  assumes ok: "collector_ok env cap collector" and run: "space_run env cap rs M h sp live'" and moved: "relocated live live'"
    and rest: "\<And>rs M h' sp' live1. space_run env cap rs M h' sp' live1 \<Longrightarrow> relocated live live1 \<Longrightarrow>
      collector (h, sp) = (h', sp') \<Longrightarrow> continues env cap n live (rest (h', sp'))"
  shows "continues env cap n live (rest (collector (h, sp)))"
proof -
  obtain h' sp' where c: "collector (h, sp) = (h', sp')" by (cases "collector (h, sp)")
  then obtain rs' M' live1 where "relocated live' live1" "space_run env cap rs' M' h' sp' live1"
    using ok run unfolding collector_ok_def by blast
  then show ?thesis using rest c relocated_trans [OF moved] by simp
qed

lemma gc_continues:
  assumes ok: "allocation_ok env cap n" and run: "space_run env cap rs M h sp live"
    and collectors: "collector_ok env cap (\<lambda>st. snd (CheckAndTriggerOldGC env st))" "collector_ok env cap (CollectGarbage env)"
  shows "continues env cap n live (SparseSpace_Allocate (marker env full rdy) n True (h, sp))"
proof -
  let ?env = "marker env full rdy"
  let ?last = "allocate_expand ?env n (\<lambda>st. allocate_no_gc ?env n (CollectGarbage env st))"
  let ?retry = "\<lambda>(collected, st). check_object ?env n (if collected then allocator_Allocate n st else Some (st, 0)) ?last"
  have last: "continues env cap n live (?last (h', sp'))" if r: "space_run env cap rs' M' h' sp' live'" "relocated live live'" for rs' M' h' sp' live'
  proof (rule expand_continues [OF ok r])
    fix h'' sp'' assume "space_run env cap rs' M' h'' sp'' live'"
    from collection_continues [OF collectors(2) this r(2), where rest = "allocate_no_gc ?env n"]
    show "continues env cap n live (allocate_no_gc ?env n (CollectGarbage env (h'', sp'')))" using no_gc_continues [OF ok] by blast
  qed
  have retry: "continues env cap n live (?retry (CheckAndTriggerOldGC env (h', sp')))" if r: "space_run env cap rs M h' sp' live" for h' sp'
  proof -
    obtain collected st where c: "CheckAndTriggerOldGC env (h', sp') = (collected, st)" by (cases "CheckAndTriggerOldGC env (h', sp')")
    have "continues env cap n live (?retry (collected, snd (CheckAndTriggerOldGC env (h', sp'))))"
    proof (rule collection_continues [OF collectors(1) r relocated_refl, where rest = "\<lambda>st. ?retry (collected, st)"])
      fix rs' M' h1 sp1 live1 assume r1: "space_run env cap rs' M' h1 sp1 live1" "relocated live live1"
      show "continues env cap n live (?retry (collected, (h1, sp1)))"
        using attempt_continues [OF ok r1, where rest = ?last] last [OF r1] by (cases collected) (simp_all add: check_object_def)
    qed
    then show ?thesis using c by simp
  qed
  show ?thesis
    using sweep_or_not_continues [OF ok run relocated_refl, where rest = "\<lambda>st. ?retry (CheckAndTriggerOldGC env st)"] retry
    by (simp add: SparseSpace_Allocate_def Let_def)
qed

lemma continues_safe:
  assumes ok: "allocation_ok env cap n" and res: "continues env cap n live res"
  shows "\<exists>h' sp' a rs' M' live'. res = Some ((h', sp'), a) \<and>
    relocated live live' \<and> space_run env cap rs' M' h' sp' (if a = 0 then live' else (a, n) # live') \<and>
    (if a = 0 then CommittedSizeExceed sp' \<or> DEFAULT_REGION_SIZE - 4272 < n
     else a mod 8 = 0 \<and> (\<exists>r \<in> set (regionList sp'). in_data h' r a n) \<and> (\<forall>(b, k) \<in> set live'. disj a n b k))"
proof (rule continuesE [OF res])
  fix h' sp' a rs' M' live' assume g: "res = Some ((h', sp'), a)" "relocated live live'"
    "space_run env cap rs' M' h' sp' (if a = 0 then live' else (a, n) # live')" "a = 0 \<longrightarrow> CommittedSizeExceed sp' \<or> DEFAULT_REGION_SIZE - 4272 < n"
  show ?thesis using g live_pieces [OF conjunct1 [OF space_run_ok [OF allocation_okD(1,2) [OF ok] g(3)]]]
    by (intro exI [of _ h'] exI [of _ sp'] exI [of _ a] exI [of _ rs'] exI [of _ M'] exI [of _ live']) (cases "a = 0", auto)
qed

section \<open>A concrete run\<close>

text \<open>
  Fresh memory at the lowest unused multiple of the region size, and objects that hold their size in their first
  field.  The collections that an allocation starts finish the sweep.  One object is allocated, its size is stored, and a collection
  keeps it.
\<close>

definition sample_machine :: environment where
  "sample_machine = \<lparr>SizeFromJSHClass = (\<lambda>m a. m a),
     MemMapAllocate = (\<lambda>h. DEFAULT_REGION_SIZE * Suc (LEAST k. regions h (DEFAULT_REGION_SIZE * Suc k) = None)),
     ConcurrentSweepEnabled = True, IsConcurrentFullMark = False, IsReadyToMark = True,
     CheckAndTriggerOldGC = (\<lambda>st. (False, st)), CollectGarbage = (\<lambda>st. st)\<rparr>"

definition sample_env :: environment where
  "sample_env = sample_machine\<lparr>CheckAndTriggerOldGC := (\<lambda>st. (True, finish_sweep sample_machine st)), CollectGarbage := finish_sweep sample_machine\<rparr>"

definition sample_heap :: heap where
  "sample_heap = \<lparr>memory = (\<lambda>_. 0), regions = Map.empty, noneFieldClass = 1, oneFieldClass = 2, twoFieldClass = 3\<rparr>"

definition sample_start :: space_state where
  "sample_start = SparseSpace_Initialize sample_env (sample_heap, new_SparseSpace (2 ^ 30))"

lemma sample_available: "memory_available sample_env"
  unfolding memory_available_def
proof (intro allI impI)
  fix h :: heap assume h: "finite (dom (regions h))" "card (dom (regions h)) < 2 ^ 22"
  let ?D = DEFAULT_REGION_SIZE and ?k = "LEAST k. regions h (DEFAULT_REGION_SIZE * Suc k) = None"
  have "\<exists>k < 2 ^ 22. regions h (?D * Suc k) = None"
  proof (rule ccontr)
    assume "\<not> ?thesis"
    then have "(\<lambda>k. ?D * Suc k) ` {..<2 ^ 22} \<subseteq> dom (regions h)" by auto
    then have "card ((\<lambda>k. ?D * Suc k) ` {..<2 ^ 22 :: nat}) \<le> card (dom (regions h))" by (rule card_mono [OF h(1)])
    moreover have "inj_on (\<lambda>k. ?D * Suc k) {..<2 ^ 22 :: nat}" by (simp add: inj_on_def DEFAULT_REGION_SIZE_def)
    ultimately show False using h(2) by (simp add: card_image)
  qed
  then obtain k where k: "k < 2 ^ 22" "regions h (?D * Suc k) = None" by blast
  have "regions h (?D * Suc ?k) = None" using k(2) by (rule LeastI)
  moreover have "?k < 2 ^ 22" using Least_le [of "\<lambda>k. regions h (?D * Suc k) = None", OF k(2)] k(1) by simp
  ultimately show "MemMapAllocate sample_env h mod ?D = 0 \<and> regions h (MemMapAllocate sample_env h) = None \<and>
      MemMapAllocate sample_env h + ?D < 2 ^ 63"
    unfolding sample_env_def sample_machine_def DEFAULT_REGION_SIZE_def by simp
qed

lemma sample_flags: "sample_env\<lparr>IsConcurrentFullMark := False, IsReadyToMark := True\<rparr> = sample_env"
  by (simp add: sample_env_def sample_machine_def)

lemma sample_start_run: "space_run sample_env (2 ^ 30) [] [] (fst sample_start) (snd sample_start) []"
  by (rule space_run.initialize [of sample_heap]) (simp_all add: sample_heap_def classes_ok_def sample_start_def)

lemma sample_committed: "\<not> CommittedSizeExceed (snd sample_start)"
proof -
  have "MemMapAllocate sample_env sample_heap = DEFAULT_REGION_SIZE"
    by (simp add: sample_env_def sample_machine_def sample_heap_def Least_eq_0)
  then show ?thesis
    by (simp add: sample_start_def SparseSpace_Initialize_def new_space_region_def AllocateAlignedRegion_def AddRegion_def Let_def
        CommittedSizeExceed_def new_SparseSpace_def Region_GetCapacity_def region_at_def update_region_def usub_def
        InitializeFreeObjectSets_def new_Region_def DEFAULT_REGION_SIZE_def)
qed

lemma sample_collectors:
  "collector_ok sample_env cap (\<lambda>st. snd (CheckAndTriggerOldGC sample_env st))" "collector_ok sample_env cap (CollectGarbage sample_env)"
proof -
  have "finish_sweep sample_machine st = finish_sweep sample_env st" for st
    using EnsureTaskFinished_env [of sample_machine sample_env st] by (simp add: finish_sweep_def sample_env_def)
  then have "collector_ok sample_env cap (finish_sweep sample_machine)"
    unfolding collector_ok_def using space_run.finish relocated_refl by metis
  then show "collector_ok sample_env cap (\<lambda>st. snd (CheckAndTriggerOldGC sample_env st))" "collector_ok sample_env cap (CollectGarbage sample_env)"
    by (simp_all add: sample_env_def)
qed

lemma sample_object: "\<exists>h sp a. space_run sample_env (2 ^ 30) [] [] h sp [(a, 64)] \<and> memory h a = 64"
proof -
  have n: "(0 :: nat) < 64" "(64 :: nat) mod 8 = 0" "(64 :: nat) < 2 ^ 63" by simp_all
  have run: "running sample_env {} [] (fst sample_start) (snd sample_start) []"
    using space_run_ok [OF sample_available _ sample_start_run] by simp
  show ?thesis
  proof (rule Allocate_running [OF run sample_available n])
    fix h sp a assume g: "SparseSpace_Allocate sample_env 64 False (fst sample_start, snd sample_start) = Some ((h, sp), a)" "a \<noteq> 0"
    then have "space_run sample_env (2 ^ 30) [] [] h sp [(a, 64)]"
      using space_run.allocate [OF sample_start_run n, where full = False and rdy = True] sample_flags by simp
    then have "space_run sample_env (2 ^ 30) [] [] (store a 64 h) sp [(a, 64)]"
      by (rule space_run.mutate) (simp_all add: in_pieces_def sizes_known_def)
    then show ?thesis by (intro exI [of _ "store a 64 h"] exI [of _ sp] exI [of _ a]) (simp add: store_def)
  qed (use sample_committed in \<open>simp add: DEFAULT_REGION_SIZE_def\<close>)
qed

section \<open>The properties\<close>

text \<open>C2. At every moment of a run of a sparse space, also while background tasks sweep it, the live objects are aligned,
  pairwise disjoint and inside regions of the space, and the check of \<open>OldSpace::CheckRegionSize\<close> succeeds: when the sweep
  is finished, live, lost and available bytes add up to the size of the regions.  An allocation with \<open>allowGC\<close> false returns; it
  fails only when the capacity is exceeded or the request does not fit into a fresh region; otherwise the new object is
  disjoint from all live ones; and it never changes the memory of a live object.  An allocation with \<open>allowGC\<close> true, the
  default, returns as well, whatever collections it starts, as long as each of them keeps some of the live objects, moved
  or not, and leaves the space in a state of a run (\<open>collector_ok\<close>); it continues the run with the objects that are left, and it
  fails only when the capacity is exceeded even then or the request does not fit into a fresh region; otherwise the
  new object is aligned, in a region and disjoint from those objects.  Sizes are multiples of 8 below \<open>2 ^ 63\<close>, the capacity
  is at most \<open>2 ^ 39\<close>, and memory for a region is available.\<close>

theorem sparse_space_safe:
  assumes "memory_available env" "cap \<le> 2 ^ 39" "space_run env cap rs M h sp live"
  shows "(\<forall>(a, n) \<in> set live. a mod 8 = 0 \<and> (\<exists>r \<in> set (regionList sp). in_data h r a n)) \<and> sorted_wrt apart_from live \<and>
    liveObjectSize sp = of_nat (bytes live) \<and>
    (\<exists>h' sp'. CheckRegionSize env (h, sp) = ((h', sp'), True) \<and> (\<forall>i. in_pieces live i \<longrightarrow> memory h' i = memory h i)) \<and>
    (\<forall>n full rdy. 0 < n \<and> n mod 8 = 0 \<and> n < 2 ^ 63 \<longrightarrow>
      (\<exists>h' sp' a. SparseSpace_Allocate (env\<lparr>IsConcurrentFullMark := full, IsReadyToMark := rdy\<rparr>) n False (h, sp) = Some ((h', sp'), a) \<and>
        (\<forall>i. in_pieces live i \<longrightarrow> memory h' i = memory h i) \<and>
        (if a = 0 then CommittedSizeExceed sp \<or> DEFAULT_REGION_SIZE - 4272 < n
         else a mod 8 = 0 \<and> (\<exists>r \<in> set (regionList sp'). in_data h' r a n) \<and> (\<forall>(b, k) \<in> set live. disj a n b k)))) \<and>
    (\<forall>n full rdy. 0 < n \<and> n mod 8 = 0 \<and> n < 2 ^ 63 \<and>
        collector_ok env cap (\<lambda>st. snd (CheckAndTriggerOldGC env st)) \<and> collector_ok env cap (CollectGarbage env) \<longrightarrow>
      (\<exists>h' sp' a rs' M' live'.
        SparseSpace_Allocate (env\<lparr>IsConcurrentFullMark := full, IsReadyToMark := rdy\<rparr>) n True (h, sp) = Some ((h', sp'), a) \<and>
        relocated live live' \<and> space_run env cap rs' M' h' sp' (if a = 0 then live' else (a, n) # live') \<and>
        (if a = 0 then CommittedSizeExceed sp' \<or> DEFAULT_REGION_SIZE - 4272 < n
         else a mod 8 = 0 \<and> (\<exists>r \<in> set (regionList sp'). in_data h' r a n) \<and> (\<forall>(b, k) \<in> set live'. disj a n b k))))"
proof (intro conjI allI impI)
  have run: "running env (set rs) M h sp live" using space_run_ok [OF assms] by simp
  show "\<forall>(a, n) \<in> set live. a mod 8 = 0 \<and> (\<exists>r \<in> set (regionList sp). in_data h r a n)" "sorted_wrt apart_from live"
    "liveObjectSize sp = of_nat (bytes live)" using live_pieces [OF run] by auto
  show "\<exists>h' sp'. CheckRegionSize env (h, sp) = ((h', sp'), True) \<and> (\<forall>i. in_pieces live i \<longrightarrow> memory h' i = memory h i)"
    by (rule space_checked [OF run])
  fix n :: nat and full rdy assume n: "0 < n \<and> n mod 8 = 0 \<and> n < 2 ^ 63"
  let ?env = "env\<lparr>IsConcurrentFullMark := full, IsReadyToMark := rdy\<rparr>"
  have run': "running ?env (set rs) M h sp live" using run by simp
  show "\<exists>h' sp' a. SparseSpace_Allocate ?env n False (h, sp) = Some ((h', sp'), a) \<and>
        (\<forall>i. in_pieces live i \<longrightarrow> memory h' i = memory h i) \<and>
        (if a = 0 then CommittedSizeExceed sp \<or> DEFAULT_REGION_SIZE - 4272 < n
         else a mod 8 = 0 \<and> (\<exists>r \<in> set (regionList sp'). in_data h' r a n) \<and> (\<forall>(b, k) \<in> set live. disj a n b k))"
  proof (rule Allocate_running [OF run', of n])
    fix h' sp' a assume g: "SparseSpace_Allocate ?env n False (h, sp) = Some ((h', sp'), a)" "a \<noteq> 0"
      "running ?env (set rs) M h' sp' ((a, n) # live)" "\<And>i. in_pieces live i \<Longrightarrow> memory h' i = memory h i"
    then show ?thesis using live_pieces [OF g(3)] by (intro exI [of _ h'] exI [of _ sp'] exI [of _ a]) auto
  next
    fix h' sp' assume "SparseSpace_Allocate ?env n False (h, sp) = Some ((h', sp'), 0)"
      "\<And>i. in_pieces live i \<Longrightarrow> memory h' i = memory h i" "CommittedSizeExceed sp \<or> DEFAULT_REGION_SIZE - 4272 < n"
    then show ?thesis by auto
  qed (use n assms(1) in simp_all)
next
  fix n :: nat and full rdy
  assume a: "0 < n \<and> n mod 8 = 0 \<and> n < 2 ^ 63 \<and>
    collector_ok env cap (\<lambda>st. snd (CheckAndTriggerOldGC env st)) \<and> collector_ok env cap (CollectGarbage env)"
  then have "allocation_ok env cap n" using assms by (simp add: allocation_ok_def)
  from continues_safe [OF this gc_continues [OF this assms(3)]] a
  show "\<exists>h' sp' a rs' M' live'. SparseSpace_Allocate (marker env full rdy) n True (h, sp) = Some ((h', sp'), a) \<and>
        relocated live live' \<and> space_run env cap rs' M' h' sp' (if a = 0 then live' else (a, n) # live') \<and>
        (if a = 0 then CommittedSizeExceed sp' \<or> DEFAULT_REGION_SIZE - 4272 < n
         else a mod 8 = 0 \<and> (\<exists>r \<in> set (regionList sp'). in_data h' r a n) \<and> (\<forall>(b, k) \<in> set live'. disj a n b k))"
    by blast
qed

theorem sparse_space_safe_witness:
  "(\<exists>h sp a. SparseSpace_Allocate sample_env 64 False sample_start = Some ((h, sp), a) \<and> a \<noteq> 0 \<and> a mod 8 = 0) \<and>
   (\<exists>h sp a rs M live. SparseSpace_Allocate sample_env 64 True sample_start = Some ((h, sp), a) \<and> (a = 0 \<longrightarrow> CommittedSizeExceed sp) \<and>
      space_run sample_env (2 ^ 30) rs M h sp (if a = 0 then live else (a, 64) # live))"
proof -
  have cap: "(2 :: u64) ^ 30 \<le> 2 ^ 39" and n: "(0 :: nat) < 64 \<and> (64 :: nat) mod 8 = 0 \<and> (64 :: nat) < 2 ^ 63" by simp_all
  note all = sparse_space_safe [OF sample_available cap sample_start_run, THEN conjunct2, THEN conjunct2, THEN conjunct2, THEN conjunct2]
  note safe = all [THEN conjunct1, THEN spec [of _ 64], THEN spec [of _ False], THEN spec [of _ True], THEN mp, OF n, unfolded sample_flags]
  obtain h sp a where a: "SparseSpace_Allocate sample_env 64 False (fst sample_start, snd sample_start) = Some ((h, sp), a)"
    "if a = 0 then CommittedSizeExceed (snd sample_start) \<or> DEFAULT_REGION_SIZE - 4272 < 64 else a mod 8 = 0 \<and>
      (\<exists>r \<in> set (regionList sp). in_data h r a 64) \<and> (\<forall>(b, k) \<in> set []. disj a 64 b k)"
    by (rule exE [OF safe]) (elim exE conjE, assumption)
  have "a \<noteq> 0" using a(2) sample_committed by (cases "a = 0") (simp_all add: DEFAULT_REGION_SIZE_def)
  then have first: "\<exists>h sp a. SparseSpace_Allocate sample_env 64 False sample_start = Some ((h, sp), a) \<and> a \<noteq> 0 \<and> a mod 8 = 0"
    using a by (intro exI [of _ h] exI [of _ sp] exI [of _ a]) simp
  note gc = all [THEN conjunct2, THEN spec [of _ 64], THEN spec [of _ False], THEN spec [of _ True], THEN mp, unfolded sample_flags]
  have "\<exists>h sp a rs M live. SparseSpace_Allocate sample_env 64 True (fst sample_start, snd sample_start) = Some ((h, sp), a) \<and>
      (a = 0 \<longrightarrow> CommittedSizeExceed sp) \<and> space_run sample_env (2 ^ 30) rs M h sp (if a = 0 then live else (a, 64) # live)"
    using gc n sample_collectors by (fastforce simp: DEFAULT_REGION_SIZE_def)
  then show ?thesis using first by simp
qed

text \<open>C3. A collection in any state in which the mark bits of the last one are cleared, with the marker visiting the
  objects to keep, returns, whether the main thread sweeps or background tasks do.  The memory of the kept objects is unchanged
  and exactly their bytes are counted as live; when the sweep is finished, every other byte of the regions is
  available to the allocator or counted as lost: nothing leaks and nothing is freed that is still in use.\<close>

theorem sparse_space_collection_correct:
  assumes "memory_available env" "cap \<le> 2 ^ 39" "space_run env cap [] M h sp live" "set keep \<subseteq> set live" "distinct keep"
    "set visited = fst ` set keep" "sizes_known env h keep"
  shows "\<exists>h1 sp1 h2 sp2. collect_space env visited (h, sp) = Some (h1, sp1) \<and> space_run env cap (regionList sp) keep h1 sp1 keep \<and>
    (\<forall>i. in_pieces keep i \<longrightarrow> memory h1 i = memory h i) \<and> liveObjectSize sp1 = of_nat (bytes keep) \<and>
    finish_sweep env (h1, sp1) = (h2, sp2) \<and> space_run env cap (regionList sp) keep h2 sp2 keep \<and>
    (\<forall>i. in_pieces keep i \<longrightarrow> memory h2 i = memory h i) \<and> regionList sp2 = regionList sp \<and>
    GetAvailableSize (sp_allocator sp2) + GetWastedSize (sp_allocator sp2) + of_nat (bytes keep) =
      of_nat (\<Sum>r\<leftarrow>regionList sp. data_size h r)"
proof -
  have run: "running env {} M h sp live" using space_run_ok [OF assms(1-3)] by simp
  obtain B L where "space_at h B L sp live" by (rule runningE [OF run])
  then have size: "objectSize sp = of_nat (\<Sum>r\<leftarrow>regionList sp. data_size h r)" using space_shapeD(4) space_atD(1) by blast
  obtain h1 sp1 where c: "collect_space env visited (h, sp) = Some (h1, sp1)" "running env (set (regionList sp)) keep h1 sp1 keep"
    "\<And>i. in_pieces keep i \<Longrightarrow> memory h1 i = memory h i" "regionList sp1 = regionList sp" "objectSize sp1 = objectSize sp"
    by (rule collect_space_spec [OF run assms(4-7)], rule that)
  obtain h2 sp2 where f: "finish_sweep env (h1, sp1) = (h2, sp2)" "running env (set (regionList sp)) keep h2 sp2 keep" "uncollected sp2 = {}"
    "\<And>i. in_pieces keep i \<Longrightarrow> memory h2 i = memory h1 i" "regionList sp2 = regionList sp1" "objectSize sp2 = objectSize sp1"
    by (rule finish_sweep_running [OF c(2)], rule that)
  have run1: "space_run env cap (regionList sp) keep h1 sp1 keep" by (rule space_run.collect [OF assms(3-7) c(1)])
  then have "space_run env cap (regionList sp) keep h2 sp2 keep" using f(1) by (rule space_run.finish)
  then show ?thesis using run1 c(1,3-5) f(1,4-6) live_pieces(3) [OF c(2)] space_accounting [OF f(2,3)] size
    by (intro exI [of _ h1] exI [of _ sp1] exI [of _ h2] exI [of _ sp2]) simp
qed

theorem sparse_space_collection_correct_witness:
  "\<exists>h sp h1 sp1 a. space_run sample_env (2 ^ 30) [] [] h sp [(a, 64)] \<and> collect_space sample_env [a, a] (h, sp) = Some (h1, sp1) \<and>
    memory h1 a = 64 \<and> liveObjectSize sp1 = 64"
proof -
  obtain h sp a where run: "space_run sample_env (2 ^ 30) [] [] h sp [(a, 64)]" and m: "memory h a = 64" using sample_object by blast
  have "(2 :: u64) ^ 30 \<le> 2 ^ 39" and sub: "set [(a, 64)] \<subseteq> set [(a, 64)]" "distinct [(a, 64)]" "set [a, a] = fst ` set [(a, 64 :: nat)]" by simp_all
  moreover have "sizes_known sample_env h [(a, 64)]" using m by (auto simp: sizes_known_def sample_env_def sample_machine_def in_pieces_def)
  ultimately obtain h1 sp1 where "collect_space sample_env [a, a] (h, sp) = Some (h1, sp1)"
    "\<forall>i. in_pieces [(a, 64)] i \<longrightarrow> memory h1 i = memory h i" "liveObjectSize sp1 = of_nat (bytes [(a, 64)])"
    using sparse_space_collection_correct [OF sample_available _ run sub(1,2), of "[a, a]"] by blast
  moreover have "in_pieces [(a, 64)] a" by (simp add: in_pieces_def)
  ultimately show ?thesis using run m by (intro exI [of _ h] exI [of _ sp] exI [of _ h1] exI [of _ sp1] exI [of _ a]) simp
qed

end
