(* ===== verification/Spec2Isabelle.thy ===== *)
theory Spec2Isabelle
  imports BigInt_Props Queue_Props Container_Props Ordered_Props Mark_Race Heap_Props
begin

text \<open>
  \<^bold>\<open>Verification of the ArkCompiler ETS runtime: values, BigInts, queues, containers, strings, Map and Set, and memory\<close>

  The program is the runtime of a JavaScript and ETS implementation (\<open>src/ecmascript\<close>).  Its parts are the
  interpreter and the compilers, the garbage collector, the object model, the built-in functions of the
  language, and the classes those are written with.  This development models the last kind: the data
  structures in which the runtime keeps numbers, jobs, elements, strings and entries, the built-in
  functions that are a thin layer over them, and, of the memory management, the spaces of old objects with
  their allocators, free lists, mark bits and sweeping.  All definitions are translations of C++ functions: pure
  functions on values, or functions from a state to a new state.  \<open>None\<close> is undefined behaviour (an access outside of an
  array, an overflow of signed integers), a failed cast or assertion, or a loop that does not end; exceptions of the language are values (\<open>Inl\<close>, \<open>Error\<close>, \<open>Thrown\<close>).
  Machine integers are words wherever the code computes with them at their width.

  \<^bold>\<open>Parts and theories\<close>

  \<^item> \<open>Prelude\<close>: types of machine words, results with errors, lemmas on words shared by all theories.

  \<^item> BigInt (\<open>js_bigint.cpp\<close>, \<open>js_bigint.h\<close>).  \<open>BigInt_Digits\<close> has the digit loops (addition with carry, subtraction with
  borrow, rows of products), \<open>BigInt\<close> the object, its canonical form and allocation limit, comparison,
  addition, subtraction, multiplication, powers; \<open>BigInt_Bitwise\<close> the operators on two's complement;
  \<open>BigInt_Shift\<close> the shifts; \<open>BigInt_Div\<close> division by one digit and Knuth's algorithm D; \<open>BigInt_Conv\<close>,
  \<open>BigInt_String\<close>, \<open>BigInt_Number\<close> conversions to and from 64-bit integers, text in a radix and IEEE doubles.
  A BigInt is a sign and a list of 32-bit digits; \<open>bval\<close> is the integer it stands for and every operation is
  proved to return the value of its mathematical counterpart in canonical form, or the size error
  exactly when that does not fit (\<open>BigInt_Props\<close>).

  \<^item> Values (\<open>js_tagged_value.h\<close>, \<open>js_tagged_value-inl.h\<close>).  \<open>JS_Value\<close> has the kinds of value, numbers as 64-bit
  patterns, and the three equalities of the language, proved equal to their specifications on number values,
  strings and BigInts.

  \<^item> Arrays and queues (\<open>tagged_array-inl.h\<close>, \<open>object_factory.cpp\<close>, \<open>tagged_queue.h\<close>, \<open>jobs/micro_job_queue.cpp\<close>).
  \<open>Tagged_Array\<close> is the array all containers are built on; \<open>Ring_Buffer\<close> has the arithmetic of circular
  buffers; \<open>Tagged_Queue\<close> the queue of the runtime, proved to be first in, first out through growth; \<open>Micro_Job_Queue\<close> the two
  job queues and the loop that drains them, whose jobs are a parameter that may enqueue further jobs
  (\<open>Queue_Props\<close>).

  \<^item> The container library (\<open>js_api/*.cpp\<close>, \<open>containers/*.cpp\<close>).  \<open>Container_Common\<close> holds the loops and the growth rule
  the classes share; \<open>Container_Deque\<close>, \<open>Container_Queue\<close>, \<open>Container_Stack\<close>, \<open>Container_ArrayList\<close>, \<open>Container_Vector\<close>,
  \<open>Container_PlainArray\<close> have the operations of one class each with its iterator and constructor, an invariant
  and the list or map it stands for; \<open>Assoc_Arrays\<close> has facts on sorted parallel arrays.  \<open>Container_Trace\<close>
  interprets the locale of \<open>Simulation\<close> for each class, so that every sequence of operations has the outputs
  of the same sequence on a list (or map), errors included (\<open>Container_Props\<close>).

  \<^item> Strings (\<open>ecma_string.cpp\<close>, \<open>ecma_string.h\<close>, \<open>ecma_string_table.cpp\<close>).  \<open>String_Hash\<close> has the hash codes with the
  integer codes mixed into them, \<open>String_Table\<close> the table of interned strings over a heap of string objects;
  its locale \<open>interning\<close> says what a table of canonical representatives promises (\<open>String_Props\<close>).

  \<^item> Map and Set (\<open>linked_hash_table.h\<close>, \<open>linked_hash_table.cpp\<close>, \<open>js_map.cpp\<close>, \<open>js_set.cpp\<close>, their iterators, \<open>builtins_map.cpp\<close>,
  \<open>builtins_set.cpp\<close>).  \<open>Hash_Keys\<close> has the hash of a key and, as the locale \<open>hashed_keys\<close>, that equal keys
  hash alike.  \<open>Linked_Hash_Table\<close> has the table: one array of header, buckets and entries.  \<open>Linked_Hash_View\<close>
  reads and writes it as a record, \<open>Linked_Hash_Invariant\<close> has its invariant and the changes of one entry,
  \<open>Linked_Hash_Rehash\<close> the rebuilding of a table, \<open>Linked_Hash_Ops\<close> the operations in a heap of tables, where
  a replaced table stays behind for the iterators that refer to it.  \<open>Slot_Lists\<close> relates lists with empty
  slots.  \<open>Ordered_Collections\<close> has the objects, iterators and built-in functions, \<open>Ordered_Spec\<close> the
  same on lists of entries that are never compacted.  \<open>Ordered_Refinement\<close> relates the two,
  \<open>Ordered_Simulation\<close> shows that every call preserves the relation, once for both classes (locale
  \<open>collection_laws\<close>), and \<open>Ordered_ForEach\<close> that loops with a callback visit the same entries although the
  callback changes the map.  \<open>Ordered_Ecma\<close> has the language specification, which turns the key \<open>-0\<close> into \<open>+0\<close>; the code
  stores \<open>-0\<close>.  The lists follow it up to the sign of a zero, and without such keys exactly (\<open>Ordered_Props\<close>).

  \<^item> Memory (\<open>mem/*\<close>, \<open>free_object.cpp\<close>).  \<open>GC_Bitset\<close> has the mark bits and remembered sets and \<open>Mark_Race\<close> the threads
  that set one mark bit at a time.  \<open>Free_Objects\<close> has memory, regions, the blocks written into free memory and
  the sets of blocks of one size class, \<open>Free_List_Allocator\<close> the free list that links those sets and the two
  allocators.  \<open>Free_Chains\<close>, \<open>Free_Unlink\<close>, \<open>Free_Set_Lists\<close>, \<open>Size_Classes\<close>, \<open>Free_List_Ops\<close> and \<open>Free_List_Allocate\<close>
  give the lists in memory as lists of HOL and show that freeing, unlinking and searching keep them; a
  search ends and finds a block whenever the code promises one.  \<open>Heap_Pieces\<close> parcels the memory of regions
  into free blocks, objects and lost bytes, \<open>Allocator_Invariant\<close> adds the bump pointer, \<open>Free_List_Rebuild\<close> empties
  the list and \<open>Free_List_Collect\<close> takes over the blocks of a region swept elsewhere.  \<open>Regions\<close> and \<open>Sparse_Space\<close> have the
  regions and spaces.  \<open>Space_Sweep\<close> sweeps one region, by the main thread or in the background; \<open>Space_Gaps\<close> has the gaps
  between the objects of a region, \<open>Space_Growth\<close> new regions, \<open>Space_Invariant\<close> the invariant of a space in every
  state of its sweep.  \<open>Space_Background\<close> shows that background tasks and the steps that wait for them preserve it,
  \<open>Space_Allocate\<close> the same for allocation with all its fallbacks, \<open>Mark_Sweep\<close> and \<open>Space_Collect\<close> for marking and for
  both ways to sweep.  \<open>Heap_Props\<close> states it over all runs of a space, in which background tasks sweep regions
  between any two operations of the program: live objects never overlap, are never written to by the memory
  management, and no byte is lost track of.  Allocations that may start collections (\<open>allowGC\<close>, the default) are covered
  for every collector that leaves the space in a state of a run with the objects it kept, moved or not (\<open>collector_ok\<close>).

  Values are used by every other part: containers compare elements with the equalities of \<open>JS_Value\<close>, keys of
  a map compare strings by their characters, hash strings through \<open>String_Hash\<close> and rely on the invariant of
  the string table, and compare BigInts with \<open>BigInt\<close>.  The micro job queue stores its jobs in tagged
  queues.

  \<^bold>\<open>Limits and parameters\<close>

  Results about sequences of operations are bounded by the sizes up to which the 32-bit computations of the
  code do not wrap: \<open>QUEUE_LIMIT\<close> (tagged queue), \<open>DEQUE_LIMIT\<close> (2 to the 30), \<open>API_QUEUE_LIMIT\<close> and \<open>HALF_LIMIT\<close>
  (1431655764, where growing by half reaches 2 to the 31), \<open>VECTOR_LIMIT\<close> (2147483639), \<open>PLAINARRAY_LIMIT\<close> (2 to
  the 30, less one), \<open>table_limit\<close> (a capacity of 2 to the 28, where indices of a table stay below 2 to the 31)
  and \<open>element_limit\<close> (178956970 entries, whose capacity with half as much slack is within it).  The one fuel
  is that of \<open>foreach_loop\<close>: it counts calls of the callback, which may add entries forever; the result says
  whether a further call is due, and the statement holds for every fuel.

  Parameters stand for code outside of \<open>src\<close> or for user code: the callbacks of the containers and of
  \<open>forEach\<close>, the conversion of elements to text, the runner of jobs, \<open>GetHash32\<close> and \<open>GetPowerOfTwoValue32\<close>
  of the base library (\<open>pow2_ok\<close> is the smallest power of two not below the argument), and the identity hashes
  of objects.  The witnesses instantiate them.

  Addresses of memory are natural numbers below 2 to the 63 and a space has fewer than 2 to the 22 regions (\<open>small_space\<close>,
  a capacity of at most 2 to the 39), so that no sum of addresses or sizes wraps.  \<open>environment\<close> has what spaces use of the rest
  of the runtime: the size of an object, the address of fresh memory (\<open>memory_available\<close>: an unused multiple of
  the size of a region), flags of the marker and of the sweeper, and the collections an allocation starts (\<open>collector_ok\<close>).  Which objects a collection keeps is an argument.  The sweeper reads the sizes of
  marked objects from memory: they follow from the contents of the marked objects (\<open>sizes_known\<close>), and the program
  does not change them while a sweep is under way.  A background task is modelled by the regions it sweeps, one at a time.

  \<^bold>\<open>Not modelled\<close>

  Objects with hidden classes, properties and prototypes, arrays, typed arrays, proxies, promises and
  generators; the interpreter, inline caches, the compilers and their back ends; tracing and
  evacuation by the collector, the spaces of young, huge and shared objects (the models of the other parts
  allocate without a limit, and references never move); weak references; modules, snapshots, serialisation, regular expressions,
  internationalisation, the native interface, debugger and profilers.  They work on the whole heap or are
  developments of their own.  Argument checks of the container entry points and construction of maps from iterables call
  into property access and are left out with it.  LightWeightMap, List, LinkedList, TreeMap, HashMap, dates,
  regular expressions and text encodings have self-contained algorithms and come next, in this order.
\<close>

end
